(* ===== verification/Prelude.thy ===== *)
theory Prelude
  imports Main "HOL-Library.Word"
begin

text \<open>
  Shared vocabulary of the development: the machine-integer types of the C++ sources, the
  power-of-two test that the sources use for ring capacities and alignments, and the generic
  lemmas on words, rings of slots and lists that the component theories share.
\<close>

unbundle bit_operations_syntax

type_synonym u8 = "8 word"
type_synonym u32 = "32 word"
type_synonym u64 = "64 word"

section \<open>Powers of two\<close>

text \<open>The test \<open>(n & (n - 1)) == 0\<close> of the sources; zero passes it as well.\<close>

definition pow2 :: "u64 \<Rightarrow> bool" where
  "pow2 n \<longleftrightarrow> n AND (n - 1) = 0"

lemma pow2_nat: "0 < (n::nat) \<Longrightarrow> n AND (n - 1) = 0 \<Longrightarrow> \<exists>k. n = 2 ^ k"
proof (induction n rule: less_induct)
  case (less n)
  show ?case
  proof (cases "even n")
    case True
    then obtain m where m: "n = 2 * m" by blast
    with less.prems have m0: "0 < m" by simp
    then have "n - 1 = 2 * (m - 1) + 1" using m by simp
    then have "n AND (n - 1) = 2 * (m AND (m - 1))"
      using m and_nat_unfold [of n "n - 1"] by simp
    with less.prems m0 have "m AND (m - 1) = 0" by simp
    with less.IH [of m] m m0 obtain k where "m = 2 ^ k" by auto
    with m have "n = 2 ^ Suc k" by simp
    then show ?thesis by blast
  next
    case False
    then obtain m where m: "n = 2 * m + 1" using oddE by blast
    then have "n AND (n - 1) = 2 * m" using and_nat_unfold [of n "n - 1"] by simp
    with less.prems m have "n = 2 ^ 0" by simp
    then show ?thesis by blast
  qed
qed

lemma unat_and: "unat (a AND b :: 'a::len word) = unat a AND unat b"
  by (fact unsigned_and_eq)

lemma pow2_obtain:
  assumes "pow2 n" and "n \<noteq> 0"
  obtains k where "k < 64" and "unat n = 2 ^ k" and "n = 2 ^ k"
proof -
  from assms(2) have pos: "0 < unat n" by (simp add: unat_gt_0)
  have "unat n AND (unat n - 1) = unat (n AND (n - 1))"
    using assms(2) by (simp add: unat_and unat_minus_one)
  also have "\<dots> = 0" using assms(1) by (simp add: pow2_def)
  finally obtain k where k: "unat n = 2 ^ k" using pow2_nat [OF pos] by blast
  have "(2::nat) ^ k < 2 ^ 64" using k unsigned_less [of n, where ?'a = nat] by simp
  then have "k < 64" by (rule power_less_imp_less_exp [rotated]) simp
  moreover have "n = of_nat (unat n)" by simp
  then have "n = 2 ^ k" unfolding k by simp
  ultimately show thesis using that k by blast
qed

lemma unat_and_mask:
  assumes "pow2 n" and "n \<noteq> 0"
  shows "unat (x AND (n - 1)) = unat x mod unat n"
proof -
  obtain k where k: "k < 64" "unat n = 2 ^ k" "n = 2 ^ k"
    using pow2_obtain [OF assms] .
  then have "n - 1 = mask k" by (simp add: mask_eq_exp_minus_1)
  then have "x AND (n - 1) = take_bit k x" by (simp add: take_bit_eq_mask)
  then show ?thesis using k(2) by (simp add: unsigned_take_bit_eq flip: take_bit_eq_mod)
qed

lemma pow2_half_bound:
  assumes "pow2 n" and "n \<noteq> 0"
  shows "0 < unat n \<and> unat n \<le> 2 ^ 63"
proof -
  obtain k where "k < 64" and n: "unat n = 2 ^ k" using pow2_obtain [OF assms] .
  then have "(2::nat) ^ k \<le> 2 ^ 63" by (intro power_increasing) auto
  then show ?thesis unfolding n by simp
qed

lemma unat_succ_and_mask:
  assumes "pow2 n" and "n \<noteq> 0" and "unat x < unat n"
  shows "unat ((x + 1) AND (n - 1)) = (unat x + 1) mod unat n"
proof -
  have "unat x + 1 < 2 ^ 64"
    using pow2_half_bound [OF assms(1,2)] assms(3) by simp
  then have "unat (x + 1) = unat x + 1" by (simp add: unat_word_ariths)
  then show ?thesis by (simp only: unat_and_mask [OF assms(1,2)])
qed

lemma unat_and_not_mask:
  assumes "pow2 n" and "n \<noteq> 0"
  shows "unat (x AND NOT (n - 1)) = unat x - unat x mod unat n"
proof -
  have "x AND NOT (n - 1) = x AND NOT (x AND (n - 1))" by (rule bit_eqI) (auto simp: bit_simps)
  also have "\<dots> = x - (x AND (n - 1))" by (rule disjunctive_diff [symmetric]) (simp add: bit_simps)
  finally have "x AND NOT (n - 1) = x - (x AND (n - 1))" .
  moreover have "unat (x AND (n - 1)) \<le> unat x" unfolding unat_and_mask [OF assms] by simp
  ultimately show ?thesis by (simp add: unat_sub word_le_nat_alt unat_and_mask [OF assms])
qed

lemma unat_plus_small: "unat (a :: u64) + unat b < 2 ^ 64 \<Longrightarrow> unat (a + b) = unat a + unat b"
  by (simp add: unat_word_ariths)

text \<open>Rounding an address up to an alignment, as the sources write it.\<close>

definition align_up :: "u64 \<Rightarrow> u64 \<Rightarrow> u64" where
  "align_up x a = (x + a - 1) AND NOT (a - 1)"

lemma align_up_bounds:
  assumes "pow2 a" and "a \<noteq> 0" and "unat x + unat a \<le> 2 ^ 64"
  shows "unat x \<le> unat (align_up x a)" and "unat (align_up x a) < unat x + unat a"
    and "unat (align_up x a) mod unat a = 0"
proof -
  have a: "0 < unat a" using assms(2) by (simp add: unat_gt_0)
  have a1: "unat (a - 1) = unat a - 1" using assms(2) by (simp add: unat_minus_one)
  then have "unat (x + (a - 1)) = unat x + (unat a - 1)"
    using assms(3) a by (subst unat_plus_small) simp_all
  moreover have "x + (a - 1) = x + a - 1" by (rule add_diff_eq)
  ultimately have s: "unat (x + a - 1) = unat x + unat a - 1" using a by (simp only: add_diff_assoc)
  let ?y = "unat x + unat a - 1"
  have r: "unat (align_up x a) = ?y - ?y mod unat a"
    by (simp add: align_up_def unat_and_not_mask [OF assms(1,2)] s)
  have "?y mod unat a < unat a" using a by simp
  then show "unat x \<le> unat (align_up x a)" "unat (align_up x a) < unat x + unat a" using r a by linarith+
  show "unat (align_up x a) mod unat a = 0" unfolding r by (simp add: minus_mod_eq_mult_div)
qed

section \<open>Integers\<close>

lemma int_div_less:
  assumes "0 < b" and "a < c * b"
  shows "a div b < (c::int)"
proof (rule ccontr)
  assume "\<not> a div b < c"
  then have "c * b \<le> (a div b) * b" using assms(1) by (intro mult_right_mono) auto
  also have "\<dots> \<le> a" using div_mult_mod_eq [of a b] pos_mod_sign [OF assms(1), of a] by linarith
  finally show False using assms(2) by simp
qed

section \<open>Rings of slots\<close>

text \<open>
  \<open>ring_list xs h k\<close> reads \<open>k\<close> slots of the array \<open>xs\<close> from position \<open>h\<close> on, wrapping at the
  end; \<open>ring_len n h t\<close> is the number of slots from \<open>h\<close> up to \<open>t\<close> in a ring of \<open>n\<close> slots.
\<close>

definition ring_list :: "'a list \<Rightarrow> nat \<Rightarrow> nat \<Rightarrow> 'a list" where
  "ring_list xs h k = map (\<lambda>i. xs ! ((h + i) mod length xs)) [0..<k]"

definition ring_len :: "nat \<Rightarrow> nat \<Rightarrow> nat \<Rightarrow> nat" where
  "ring_len n h t = (if h \<le> t then t - h else t + n - h)"

lemma length_ring_list [simp]: "length (ring_list xs h k) = k"
  by (simp add: ring_list_def)

lemma ring_list_0 [simp]: "ring_list xs h 0 = []"
  by (simp add: ring_list_def)

lemma ring_list_snoc: "ring_list xs h (Suc k) = ring_list xs h k @ [xs ! ((h + k) mod length xs)]"
  by (simp add: ring_list_def)

lemma ring_list_Cons:
  "ring_list xs h (Suc k) = xs ! (h mod length xs) # ring_list xs (Suc h) k"
  unfolding ring_list_def upt_conv_Cons [OF zero_less_Suc] map_Suc_upt [symmetric] by simp

lemma ring_list_mod [simp]: "ring_list xs (h mod length xs) k = ring_list xs h k"
  by (simp add: ring_list_def mod_simps)

lemma mod_add_neq:
  assumes "i < k" and "k < (n::nat)"
  shows "(h + i) mod n \<noteq> (h + k) mod n"
proof
  assume "(h + i) mod n = (h + k) mod n"
  then have "n dvd (h + k) - (h + i)"
    using assms mod_eq_dvd_iff_nat [of "h + i" "h + k" n] by simp
  moreover have "(h + k) - (h + i) = k - i" by simp
  ultimately have "n \<le> k - i" using assms by (simp add: dvd_imp_le)
  then show False using assms by simp
qed

lemma ring_list_update_outside:
  assumes "k < length xs"
  shows "ring_list (xs[(h + k) mod length xs := v]) h k = ring_list xs h k"
  unfolding ring_list_def
proof (intro map_cong refl)
  fix i assume "i \<in> set [0..<k]"
  then have "(h + i) mod length xs \<noteq> (h + k) mod length xs"
    using mod_add_neq [of i k "length xs" h] assms by simp
  then show "xs[(h + k) mod length xs := v] ! ((h + i) mod length (xs[(h + k) mod length xs := v]))
      = xs ! ((h + i) mod length xs)"
    by simp
qed

lemma ring_len_bound: "h < n \<Longrightarrow> t < n \<Longrightarrow> ring_len n h t < n"
  by (auto simp: ring_len_def)

lemma ring_len_end: "h < n \<Longrightarrow> t < n \<Longrightarrow> (h + ring_len n h t) mod n = t"
  by (auto simp: ring_len_def)

lemma ring_len_0 [simp]: "h < n \<Longrightarrow> t < n \<Longrightarrow> ring_len n h t = 0 \<longleftrightarrow> h = t"
  by (auto simp: ring_len_def)

lemma ring_len_Suc_tail:
  "h < n \<Longrightarrow> t < n \<Longrightarrow> Suc t mod n \<noteq> h \<Longrightarrow> ring_len n h (Suc t mod n) = Suc (ring_len n h t)"
  by (cases "Suc t = n") (auto simp: ring_len_def)

lemma ring_len_Suc_head:
  "h < n \<Longrightarrow> t < n \<Longrightarrow> h \<noteq> t \<Longrightarrow> ring_len n h t = Suc (ring_len n (Suc h mod n) t)"
  by (cases "Suc h = n") (auto simp: ring_len_def)

lemma ring_len_full:
  "h < n \<Longrightarrow> t < n \<Longrightarrow> Suc t mod n = h \<longleftrightarrow> Suc (ring_len n h t) = n"
  by (cases "Suc t = n") (auto simp: ring_len_def)

end
