(* ===== verification/Fifo_Spec.thy ===== *)
theory Fifo_Spec
  imports Prelude
begin

text \<open>
  The contract of a bounded FIFO queue: \<open>push\<close> appends or refuses when full, \<open>pop\<close> takes the
  oldest item or refuses when empty. The lemmas of the locale are the client's view, proved once:
  a whole sequence of operations answers exactly as the same sequence on a list, and a batch that
  fits comes back in the order it went in.
\<close>

datatype 'a fifo_op = Push 'a | Pop

datatype 'a fifo_res = Pushed bool | Popped "'a option"

fun list_fifo_step :: "nat \<Rightarrow> 'a fifo_op \<Rightarrow> 'a list \<Rightarrow> 'a fifo_res \<times> 'a list" where
  "list_fifo_step n (Push v) xs = (if length xs < n then (Pushed True, xs @ [v]) else (Pushed False, xs))"
| "list_fifo_step n Pop xs = (case xs of [] \<Rightarrow> (Popped None, []) | x # ys \<Rightarrow> (Popped (Some x), ys))"

fun fifo_run :: "('a fifo_op \<Rightarrow> 'q \<Rightarrow> 'a fifo_res \<times> 'q) \<Rightarrow> 'a fifo_op list \<Rightarrow> 'q \<Rightarrow> 'a fifo_res list \<times> 'q" where
  "fifo_run step [] q = ([], q)"
| "fifo_run step (x # xs) q =
     (let (r, q') = step x q; (rs, q'') = fifo_run step xs q' in (r # rs, q''))"

lemma fifo_run_append:
  "fifo_run step (xs @ ys) q =
     (let (rs, q') = fifo_run step xs q; (ss, q'') = fifo_run step ys q' in (rs @ ss, q''))"
  by (induction xs arbitrary: q) (auto split: prod.splits)

lemma list_fifo_pushes:
  "length xs + length vs \<le> n \<Longrightarrow>
     fifo_run (list_fifo_step n) (map Push vs) xs = (replicate (length vs) (Pushed True), xs @ vs)"
  by (induction vs arbitrary: xs) auto

lemma list_fifo_pops:
  "fifo_run (list_fifo_step n) (replicate (length xs) Pop) xs = (map (Popped \<circ> Some) xs, [])"
  by (induction xs) auto

locale bounded_fifo =
  fixes push :: "'a \<Rightarrow> 'q \<Rightarrow> bool \<times> 'q"
    and pop :: "'q \<Rightarrow> 'a option \<times> 'q"
    and contents :: "'q \<Rightarrow> 'a list"
    and cap :: "'q \<Rightarrow> nat"
    and invar :: "'q \<Rightarrow> bool"
  assumes contents_bound: "invar q \<Longrightarrow> length (contents q) \<le> cap q"
    and push_room: "invar q \<Longrightarrow> length (contents q) < cap q \<Longrightarrow>
      fst (push v q) \<and> contents (snd (push v q)) = contents q @ [v]"
    and push_full: "invar q \<Longrightarrow> length (contents q) = cap q \<Longrightarrow> push v q = (False, q)"
    and pop_empty: "invar q \<Longrightarrow> contents q = [] \<Longrightarrow> pop q = (None, q)"
    and pop_item: "invar q \<Longrightarrow> contents q = x # xs \<Longrightarrow>
      fst (pop q) = Some x \<and> contents (snd (pop q)) = xs"
    and invar_push: "invar q \<Longrightarrow> invar (snd (push v q))"
    and invar_pop: "invar q \<Longrightarrow> invar (snd (pop q))"
    and cap_push: "cap (snd (push v q)) = cap q"
    and cap_pop: "cap (snd (pop q)) = cap q"
begin

fun fifo_step :: "'a fifo_op \<Rightarrow> 'q \<Rightarrow> 'a fifo_res \<times> 'q" where
  "fifo_step (Push v) q = (case push v q of (b, q') \<Rightarrow> (Pushed b, q'))"
| "fifo_step Pop q = (case pop q of (r, q') \<Rightarrow> (Popped r, q'))"

lemma fifo_step_refines:
  assumes "invar q" and "fifo_step x q = (r, q')"
  shows "invar q' \<and> cap q' = cap q \<and> list_fifo_step (cap q) x (contents q) = (r, contents q')"
proof (cases x)
  case (Push v)
  with assms(2) have r: "r = Pushed (fst (push v q))" and q': "q' = snd (push v q)"
    by (auto split: prod.splits)
  show ?thesis
  proof (cases "length (contents q) < cap q")
    case True
    then show ?thesis
      using push_room [OF assms(1) True, of v] invar_push [OF assms(1), of v] cap_push [of v q]
        Push r q' by simp
  next
    case False
    then have "length (contents q) = cap q" using contents_bound [OF assms(1)] by simp
    then show ?thesis using push_full [OF assms(1), of v] Push r q' assms(1) False by simp
  qed
next
  case Pop
  with assms(2) have r: "r = Popped (fst (pop q))" and q': "q' = snd (pop q)"
    by (auto split: prod.splits)
  show ?thesis
  proof (cases "contents q")
    case Nil
    then show ?thesis using pop_empty [OF assms(1) Nil] Pop r q' assms(1) by simp
  next
    case (Cons y ys)
    then show ?thesis
      using pop_item [OF assms(1) Cons] invar_pop [OF assms(1)] cap_pop [of q] Pop r q' by simp
  qed
qed

lemma fifo_run_refines:
  assumes "invar q" and "fifo_run fifo_step ops q = (rs, q')"
  shows "invar q' \<and> cap q' = cap q \<and>
    fifo_run (list_fifo_step (cap q)) ops (contents q) = (rs, contents q')"
  using assms
proof (induction ops arbitrary: q rs q')
  case Nil
  then show ?case by simp
next
  case (Cons x ops)
  obtain r q1 where step: "fifo_step x q = (r, q1)" by (cases "fifo_step x q")
  obtain rs1 q2 where rest: "fifo_run fifo_step ops q1 = (rs1, q2)" by (cases "fifo_run fifo_step ops q1")
  from Cons.prems(2) step rest have "rs = r # rs1" and "q' = q2" by auto
  with Cons.IH [OF _ rest] fifo_step_refines [OF Cons.prems(1) step] show ?case
    by simp
qed

lemma batch_roundtrip:
  assumes "invar q" and "contents q = []" and "length vs \<le> cap q"
  shows "fst (fifo_run fifo_step (map Push vs @ replicate (length vs) Pop) q) =
    replicate (length vs) (Pushed True) @ map (Popped \<circ> Some) vs"
proof -
  obtain rs q' where run: "fifo_run fifo_step (map Push vs @ replicate (length vs) Pop) q = (rs, q')"
    by (cases "fifo_run fifo_step (map Push vs @ replicate (length vs) Pop) q")
  have "fifo_run (list_fifo_step (cap q)) (map Push vs @ replicate (length vs) Pop) [] =
      (replicate (length vs) (Pushed True) @ map (Popped \<circ> Some) vs, [])"
    using assms(3) by (simp add: fifo_run_append list_fifo_pushes list_fifo_pops)
  then show ?thesis using fifo_run_refines [OF assms(1) run] assms(2) run by simp
qed

end

end
