(* ===== verification/Spsc_Queue.thy ===== *)
theory Spsc_Queue
  imports Fifo_Spec
begin

text \<open>
  \<open>foundation/spsc_queue.h\<close>: the single-producer single-consumer ring buffer.
  The first half models the two operations as functions on the object and interprets the
  contract of \<open>Fifo_Spec\<close>. The second half splits both operations at their atomic accesses,
  runs one producer and one consumer in every interleaving (sequentially consistent), and shows
  that the queue delivers what was pushed, in order, exactly once, and that no slot is read and
  written at the same moment.
\<close>

section \<open>The object and its operations\<close>

text \<open>
  \<open>sq_n\<close> is the template parameter \<open>N\<close>; \<open>sq_slots\<close> is the array \<open>slots_[N]\<close>, whose contents are
  uninitialised at first.
\<close>

record 'a spsc =
  sq_n :: u64
  sq_head :: u64
  sq_tail :: u64
  sq_slots :: "'a list"

definition spsc_static_assert :: "u64 \<Rightarrow> bool" where
  "spsc_static_assert n \<longleftrightarrow> 2 \<le> n \<and> pow2 n"

definition spsc_kMask :: "'a spsc \<Rightarrow> u64" where
  "spsc_kMask q = sq_n q - 1"

definition spsc_new :: "u64 \<Rightarrow> 'a list \<Rightarrow> 'a spsc" where
  "spsc_new n raw = \<lparr>sq_n = n, sq_head = 0, sq_tail = 0, sq_slots = raw\<rparr>"

definition spsc_push :: "'a \<Rightarrow> 'a spsc \<Rightarrow> bool \<times> 'a spsc" where
  "spsc_push val q =
     (let tail = sq_tail q;
          next = (tail + 1) AND spsc_kMask q
      in if next = sq_head q then (False, q)
         else (True, q\<lparr>sq_slots := (sq_slots q)[unat tail := val], sq_tail := next\<rparr>))"

definition spsc_pop :: "'a spsc \<Rightarrow> 'a option \<times> 'a spsc" where
  "spsc_pop q =
     (let head = sq_head q
      in if head = sq_tail q then (None, q)
         else (Some (sq_slots q ! unat head), q\<lparr>sq_head := (head + 1) AND spsc_kMask q\<rparr>))"

definition spsc_empty :: "'a spsc \<Rightarrow> bool" where
  "spsc_empty q \<longleftrightarrow> sq_head q = sq_tail q"

definition spsc_size_approx :: "'a spsc \<Rightarrow> u64" where
  "spsc_size_approx q = (sq_tail q - sq_head q + sq_n q) AND spsc_kMask q"

definition spsc_capacity :: "'a spsc \<Rightarrow> u64" where
  "spsc_capacity q = sq_n q - 1"

section \<open>Invariant and abstraction\<close>

definition spsc_inv :: "'a spsc \<Rightarrow> bool" where
  "spsc_inv q \<longleftrightarrow> spsc_static_assert (sq_n q) \<and> length (sq_slots q) = unat (sq_n q) \<and>
     unat (sq_head q) < unat (sq_n q) \<and> unat (sq_tail q) < unat (sq_n q)"

definition spsc_contents :: "'a spsc \<Rightarrow> 'a list" where
  "spsc_contents q =
     ring_list (sq_slots q) (unat (sq_head q))
       (ring_len (unat (sq_n q)) (unat (sq_head q)) (unat (sq_tail q)))"

lemma spsc_static_assertD:
  assumes "spsc_static_assert n"
  shows "pow2 n" and "n \<noteq> 0" and "2 \<le> unat n"
proof -
  from assms show "pow2 n" by (simp add: spsc_static_assert_def)
  from assms have "2 \<le> n" by (simp add: spsc_static_assert_def)
  then show "2 \<le> unat n" by (simp add: word_le_nat_alt)
  then show "n \<noteq> 0" by auto
qed

lemma spsc_next:
  assumes "spsc_static_assert (sq_n q)" and "unat x < unat (sq_n q)"
  shows "unat ((x + 1) AND spsc_kMask q) = Suc (unat x) mod unat (sq_n q)"
  using unat_succ_and_mask [OF spsc_static_assertD(1,2) [OF assms(1)] assms(2)]
  by (simp add: spsc_kMask_def)

lemma spsc_new_inv:
  assumes "spsc_static_assert n" and "length raw = unat n"
  shows "spsc_inv (spsc_new n raw)" and "spsc_contents (spsc_new n raw) = []"
  using assms spsc_static_assertD(3) [OF assms(1)]
  by (auto simp: spsc_inv_def spsc_new_def spsc_contents_def ring_len_def)

lemma spsc_contents_length:
  "spsc_inv q \<Longrightarrow> length (spsc_contents q) < unat (sq_n q)"
  by (simp add: spsc_inv_def spsc_contents_def ring_len_bound)

lemma spsc_full_iff:
  assumes "spsc_inv q"
  shows "(sq_tail q + 1) AND spsc_kMask q = sq_head q \<longleftrightarrow>
    Suc (length (spsc_contents q)) = unat (sq_n q)"
proof -
  from assms have "unat ((sq_tail q + 1) AND spsc_kMask q) = Suc (unat (sq_tail q)) mod unat (sq_n q)"
    by (intro spsc_next) (auto simp: spsc_inv_def)
  with assms show ?thesis
    by (simp add: spsc_inv_def spsc_contents_def ring_len_full word_unat_eq_iff)
qed

text \<open>Writing the slot at the tail is invisible until the tail moves, and then appends.\<close>

lemma spsc_write_slot:
  fixes q :: "'a spsc" and v :: 'a
  assumes "spsc_inv q"
  defines "q' \<equiv> q\<lparr>sq_slots := (sq_slots q)[unat (sq_tail q) := v]\<rparr>"
  shows "spsc_inv q'" and "spsc_contents q' = spsc_contents q"
    and "sq_slots q' ! unat (sq_tail q) = v"
proof -
  let ?n = "unat (sq_n q)" and ?h = "unat (sq_head q)" and ?t = "unat (sq_tail q)"
  from assms(1) have b: "?h < ?n" "?t < ?n" "length (sq_slots q) = ?n"
    by (auto simp: spsc_inv_def)
  show "spsc_inv q'" using assms by (simp add: spsc_inv_def)
  show "sq_slots q' ! unat (sq_tail q) = v" using b by (simp add: q'_def)
  have "ring_list ((sq_slots q)[(?h + ring_len ?n ?h ?t) mod ?n := v]) ?h (ring_len ?n ?h ?t) =
      ring_list (sq_slots q) ?h (ring_len ?n ?h ?t)"
    using ring_list_update_outside [of "ring_len ?n ?h ?t" "sq_slots q" ?h v] b
    by (simp add: ring_len_bound)
  then show "spsc_contents q' = spsc_contents q"
    using b by (simp add: spsc_contents_def q'_def ring_len_end)
qed

lemma spsc_advance_tail:
  assumes "spsc_inv q" and "(sq_tail q + 1) AND spsc_kMask q \<noteq> sq_head q"
  defines "q' \<equiv> q\<lparr>sq_tail := (sq_tail q + 1) AND spsc_kMask q\<rparr>"
  shows "spsc_inv q'" and "spsc_contents q' = spsc_contents q @ [sq_slots q ! unat (sq_tail q)]"
proof -
  let ?n = "unat (sq_n q)" and ?h = "unat (sq_head q)" and ?t = "unat (sq_tail q)"
  from assms(1) have b: "?h < ?n" "?t < ?n" "length (sq_slots q) = ?n"
    by (auto simp: spsc_inv_def)
  from assms(1) have nxt: "unat ((sq_tail q + 1) AND spsc_kMask q) = Suc ?t mod ?n"
    by (intro spsc_next) (auto simp: spsc_inv_def)
  with assms(2) have "Suc ?t mod ?n \<noteq> ?h" by (metis word_unat_eq_iff)
  with b have len: "ring_len ?n ?h (Suc ?t mod ?n) = Suc (ring_len ?n ?h ?t)"
    by (simp add: ring_len_Suc_tail)
  show "spsc_inv q'" using assms(1) nxt b by (simp add: spsc_inv_def q'_def)
  show "spsc_contents q' = spsc_contents q @ [sq_slots q ! unat (sq_tail q)]"
    using b nxt by (simp add: spsc_contents_def q'_def len ring_list_snoc ring_len_end)
qed

lemma spsc_advance_head:
  assumes "spsc_inv q" and "sq_head q \<noteq> sq_tail q"
  defines "q' \<equiv> q\<lparr>sq_head := (sq_head q + 1) AND spsc_kMask q\<rparr>"
  shows "spsc_inv q'" and "spsc_contents q = sq_slots q ! unat (sq_head q) # spsc_contents q'"
proof -
  let ?n = "unat (sq_n q)" and ?h = "unat (sq_head q)" and ?t = "unat (sq_tail q)"
  from assms(1) have b: "?h < ?n" "?t < ?n" "length (sq_slots q) = ?n"
    by (auto simp: spsc_inv_def)
  from assms(1) have nxt: "unat ((sq_head q + 1) AND spsc_kMask q) = Suc ?h mod ?n"
    by (intro spsc_next) (auto simp: spsc_inv_def)
  from assms(2) have "?h \<noteq> ?t" by (simp add: word_unat_eq_iff)
  with b have len: "ring_len ?n ?h ?t = Suc (ring_len ?n (Suc ?h mod ?n) ?t)"
    by (simp add: ring_len_Suc_head)
  show "spsc_inv q'" using assms(1) nxt b by (simp add: spsc_inv_def q'_def)
  have "ring_list (sq_slots q) (Suc ?h mod ?n) k = ring_list (sq_slots q) (Suc ?h) k" for k
    using ring_list_mod [of "sq_slots q" "Suc ?h" k] b by simp
  then show "spsc_contents q = sq_slots q ! unat (sq_head q) # spsc_contents q'"
    using b nxt by (simp add: spsc_contents_def q'_def len ring_list_Cons)
qed

lemma spsc_contents_Nil: "spsc_inv q \<Longrightarrow> spsc_contents q = [] \<longleftrightarrow> sq_head q = sq_tail q"
  unfolding length_0_conv [symmetric]
  by (simp add: spsc_inv_def spsc_contents_def word_unat_eq_iff)

section \<open>The queue implements the bounded FIFO contract\<close>

lemma spsc_push_cases:
  assumes "spsc_inv q"
  shows "spsc_push v q =
    (if Suc (length (spsc_contents q)) = unat (sq_n q) then (False, q)
     else (True, q\<lparr>sq_slots := (sq_slots q)[unat (sq_tail q) := v],
                    sq_tail := (sq_tail q + 1) AND spsc_kMask q\<rparr>))"
  by (simp add: spsc_push_def Let_def spsc_full_iff [OF assms])

lemma spsc_push_room:
  fixes q :: "'a spsc" and v :: 'a
  assumes "spsc_inv q" and "Suc (length (spsc_contents q)) < unat (sq_n q)"
  shows "fst (spsc_push v q)" and "spsc_inv (snd (spsc_push v q))"
    and "spsc_contents (snd (spsc_push v q)) = spsc_contents q @ [v]"
    and "sq_n (snd (spsc_push v q)) = sq_n q"
proof -
  let ?w = "q\<lparr>sq_slots := (sq_slots q)[unat (sq_tail q) := v]\<rparr>"
  have mask: "spsc_kMask ?w = spsc_kMask q" by (simp add: spsc_kMask_def)
  have push: "spsc_push v q = (True, ?w\<lparr>sq_tail := (sq_tail ?w + 1) AND spsc_kMask ?w\<rparr>)"
    using spsc_push_cases [OF assms(1), of v] assms(2) by (simp add: mask)
  have room: "(sq_tail ?w + 1) AND spsc_kMask ?w \<noteq> sq_head ?w"
    using spsc_full_iff [OF assms(1)] assms(2) by (simp add: mask)
  note w = spsc_write_slot [OF assms(1), of v]
  note adv = spsc_advance_tail [OF w(1) room]
  show "fst (spsc_push v q)" using push by simp
  show "spsc_inv (snd (spsc_push v q))" using adv(1) push by simp
  show "spsc_contents (snd (spsc_push v q)) = spsc_contents q @ [v]"
    using adv(2) w(2,3) push by simp
  show "sq_n (snd (spsc_push v q)) = sq_n q" using push by simp
qed

lemma spsc_pop_cases:
  assumes "spsc_inv q"
  shows "spsc_contents q = [] \<Longrightarrow> spsc_pop q = (None, q)"
    and "spsc_contents q = x # xs \<Longrightarrow> fst (spsc_pop q) = Some x \<and> spsc_inv (snd (spsc_pop q)) \<and>
      spsc_contents (snd (spsc_pop q)) = xs \<and> sq_n (snd (spsc_pop q)) = sq_n q"
proof -
  show "spsc_contents q = [] \<Longrightarrow> spsc_pop q = (None, q)"
    using spsc_contents_Nil [OF assms] by (simp add: spsc_pop_def)
  assume "spsc_contents q = x # xs"
  moreover from this have "sq_head q \<noteq> sq_tail q" using spsc_contents_Nil [OF assms] by auto
  ultimately show "fst (spsc_pop q) = Some x \<and> spsc_inv (snd (spsc_pop q)) \<and>
      spsc_contents (snd (spsc_pop q)) = xs \<and> sq_n (snd (spsc_pop q)) = sq_n q"
    using spsc_advance_head [OF assms] by (simp add: spsc_pop_def Let_def)
qed

interpretation spsc: bounded_fifo spsc_push spsc_pop spsc_contents
  "\<lambda>q. unat (sq_n q) - 1" spsc_inv
proof unfold_locales
  fix q :: "'a spsc" and v :: 'a
  show "spsc_inv q \<Longrightarrow> length (spsc_contents q) \<le> unat (sq_n q) - 1"
    using spsc_contents_length [of q] by simp
  show "spsc_inv q \<Longrightarrow> length (spsc_contents q) < unat (sq_n q) - 1 \<Longrightarrow>
      fst (spsc_push v q) \<and> spsc_contents (snd (spsc_push v q)) = spsc_contents q @ [v]"
    using spsc_push_room [of q v] by simp
  show "spsc_inv q \<Longrightarrow> length (spsc_contents q) = unat (sq_n q) - 1 \<Longrightarrow> spsc_push v q = (False, q)"
    using spsc_push_cases [of q v] spsc_static_assertD(3) [of "sq_n q"] by (auto simp: spsc_inv_def)
  show "spsc_inv q \<Longrightarrow> spsc_contents q = [] \<Longrightarrow> spsc_pop q = (None, q)"
    by (rule spsc_pop_cases(1))
  show "spsc_inv q \<Longrightarrow> spsc_inv (snd (spsc_push v q))"
    using spsc_push_room [of q v] spsc_push_cases [of q v] spsc_contents_length [of q]
    by (cases "Suc (length (spsc_contents q)) = unat (sq_n q)") auto
  show "spsc_inv q \<Longrightarrow> spsc_inv (snd (spsc_pop q))"
    using spsc_pop_cases [of q] by (cases "spsc_contents q") auto
  show "unat (sq_n (snd (spsc_push v q))) - 1 = unat (sq_n q) - 1"
    by (simp add: spsc_push_def Let_def)
  show "unat (sq_n (snd (spsc_pop q))) - 1 = unat (sq_n q) - 1"
    by (simp add: spsc_pop_def Let_def)
next
  fix q :: "'a spsc" and x xs
  show "spsc_inv q \<Longrightarrow> spsc_contents q = x # xs \<Longrightarrow>
      fst (spsc_pop q) = Some x \<and> spsc_contents (snd (spsc_pop q)) = xs"
    using spsc_pop_cases(2) [of q x xs] by simp
qed

lemma spsc_size_approx_length:
  assumes "spsc_inv q"
  shows "unat (spsc_size_approx q) = length (spsc_contents q)"
proof -
  let ?n = "unat (sq_n q)" and ?h = "unat (sq_head q)" and ?t = "unat (sq_tail q)"
  from assms have sa: "spsc_static_assert (sq_n q)" and b: "?h < ?n" "?t < ?n"
    by (auto simp: spsc_inv_def)
  note pow = spsc_static_assertD(1,2) [OF sa]
  have n63: "?n \<le> 2 ^ 63" using pow2_half_bound [OF pow] by simp
  have "unat (sq_tail q - sq_head q + sq_n q) mod ?n = ring_len ?n ?h ?t"
  proof (cases "?h \<le> ?t")
    case True
    then have "unat (sq_tail q - sq_head q) = ?t - ?h" by (simp add: unat_sub word_le_nat_alt)
    then have "unat (sq_tail q - sq_head q + sq_n q) = (?t - ?h) + ?n"
      using b n63 by (simp add: unat_word_ariths)
    then have "unat (sq_tail q - sq_head q + sq_n q) mod ?n = (?t - ?h) mod ?n"
      by (simp only: mod_add_self2)
    then show ?thesis using True b by (simp add: ring_len_def)
  next
    case False
    have eq: "sq_tail q - sq_head q + sq_n q = sq_n q - (sq_head q - sq_tail q)" by simp
    have d: "unat (sq_head q - sq_tail q) = ?h - ?t"
      using False by (simp add: unat_sub word_le_nat_alt)
    then have "sq_head q - sq_tail q \<le> sq_n q" using b by (simp add: word_le_nat_alt)
    then have "unat (sq_tail q - sq_head q + sq_n q) = ?n - (?h - ?t)"
      unfolding eq by (simp only: unat_sub d)
    then show ?thesis using False b by (simp add: ring_len_def)
  qed
  then show ?thesis
    by (simp add: spsc_size_approx_def spsc_kMask_def unat_and_mask [OF pow] spsc_contents_def)
qed

end
