(* ===== verification/Spsc_Concurrent.thy ===== *)
theory Spsc_Concurrent
  imports Spsc_Queue
begin

text \<open>
  \<open>foundation/spsc_queue.h\<close> under concurrency: \<open>push\<close> and \<open>pop\<close> split at their atomic accesses,
  one producer and one consumer interleaved freely. Every atomic access is sequentially
  consistent here; the acquire and release annotations of the source are what lets each pair of
  accesses be read that way.
\<close>

section \<open>Program counters and the combined state\<close>

text \<open>
  Where a thread stands inside a call, with the local variables it holds there.
  \<open>PLoadedTail val tail\<close>: after the load of \<open>tail_\<close>; \<open>PRoom val tail next\<close>: past the full test;
  \<open>PWritten val next\<close>: the slot is written, the release store of \<open>tail_\<close> is still to come.
  \<open>CLoadedHead head\<close>, \<open>CAvail head\<close> and \<open>CRead head val\<close> are the consumer's points.
\<close>

datatype 'a prod_pc = PIdle | PLoadedTail 'a u64 | PRoom 'a u64 u64 | PWritten 'a u64

datatype 'a cons_pc = CIdle | CLoadedHead u64 | CAvail u64 | CRead u64 'a

text \<open>\<open>sy_pushed\<close> and \<open>sy_popped\<close> record the values of the calls that returned true, in order.\<close>

record 'a spsc_sys =
  sy_q :: "'a spsc"
  sy_prod :: "'a prod_pc"
  sy_cons :: "'a cons_pc"
  sy_pushed :: "'a list"
  sy_popped :: "'a list"

inductive spsc_step :: "'a spsc_sys \<Rightarrow> 'a spsc_sys \<Rightarrow> bool" where
  push_load_tail:
    "sy_prod s = PIdle \<Longrightarrow> spsc_step s (s\<lparr>sy_prod := PLoadedTail val (sq_tail (sy_q s))\<rparr>)"
| push_full:
    "sy_prod s = PLoadedTail val tail \<Longrightarrow>
     (tail + 1) AND spsc_kMask (sy_q s) = sq_head (sy_q s) \<Longrightarrow>
     spsc_step s (s\<lparr>sy_prod := PIdle\<rparr>)"
| push_room:
    "sy_prod s = PLoadedTail val tail \<Longrightarrow>
     next = (tail + 1) AND spsc_kMask (sy_q s) \<Longrightarrow> next \<noteq> sq_head (sy_q s) \<Longrightarrow>
     spsc_step s (s\<lparr>sy_prod := PRoom val tail next\<rparr>)"
| push_write:
    "sy_prod s = PRoom val tail next \<Longrightarrow>
     spsc_step s (s\<lparr>sy_q := (sy_q s)\<lparr>sq_slots := (sq_slots (sy_q s))[unat tail := val]\<rparr>,
                    sy_prod := PWritten val next\<rparr>)"
| push_store_tail:
    "sy_prod s = PWritten val next \<Longrightarrow>
     spsc_step s (s\<lparr>sy_q := (sy_q s)\<lparr>sq_tail := next\<rparr>, sy_prod := PIdle,
                    sy_pushed := sy_pushed s @ [val]\<rparr>)"
| pop_load_head:
    "sy_cons s = CIdle \<Longrightarrow> spsc_step s (s\<lparr>sy_cons := CLoadedHead (sq_head (sy_q s))\<rparr>)"
| pop_empty:
    "sy_cons s = CLoadedHead head \<Longrightarrow> head = sq_tail (sy_q s) \<Longrightarrow>
     spsc_step s (s\<lparr>sy_cons := CIdle\<rparr>)"
| pop_avail:
    "sy_cons s = CLoadedHead head \<Longrightarrow> head \<noteq> sq_tail (sy_q s) \<Longrightarrow>
     spsc_step s (s\<lparr>sy_cons := CAvail head\<rparr>)"
| pop_read:
    "sy_cons s = CAvail head \<Longrightarrow>
     spsc_step s (s\<lparr>sy_cons := CRead head (sq_slots (sy_q s) ! unat head)\<rparr>)"
| pop_store_head:
    "sy_cons s = CRead head val \<Longrightarrow>
     spsc_step s (s\<lparr>sy_q := (sy_q s)\<lparr>sq_head := (head + 1) AND spsc_kMask (sy_q s)\<rparr>,
                    sy_cons := CIdle, sy_popped := sy_popped s @ [val]\<rparr>)"

definition spsc_start :: "u64 \<Rightarrow> 'a list \<Rightarrow> 'a spsc_sys" where
  "spsc_start n raw =
     \<lparr>sy_q = spsc_new n raw, sy_prod = PIdle, sy_cons = CIdle, sy_pushed = [], sy_popped = []\<rparr>"

inductive spsc_reach :: "u64 \<Rightarrow> 'a list \<Rightarrow> 'a spsc_sys \<Rightarrow> bool" for n raw where
  start: "spsc_static_assert n \<Longrightarrow> length raw = unat n \<Longrightarrow> spsc_reach n raw (spsc_start n raw)"
| step: "spsc_reach n raw s \<Longrightarrow> spsc_step s t \<Longrightarrow> spsc_reach n raw t"

section \<open>The invariant\<close>

fun prod_inv :: "'a spsc \<Rightarrow> 'a prod_pc \<Rightarrow> bool" where
  "prod_inv q PIdle \<longleftrightarrow> True"
| "prod_inv q (PLoadedTail val tail) \<longleftrightarrow> tail = sq_tail q"
| "prod_inv q (PRoom val tail next) \<longleftrightarrow>
     tail = sq_tail q \<and> next = (sq_tail q + 1) AND spsc_kMask q \<and> next \<noteq> sq_head q"
| "prod_inv q (PWritten val next) \<longleftrightarrow>
     next = (sq_tail q + 1) AND spsc_kMask q \<and> next \<noteq> sq_head q \<and> sq_slots q ! unat (sq_tail q) = val"

fun cons_inv :: "'a spsc \<Rightarrow> 'a cons_pc \<Rightarrow> bool" where
  "cons_inv q CIdle \<longleftrightarrow> True"
| "cons_inv q (CLoadedHead head) \<longleftrightarrow> head = sq_head q"
| "cons_inv q (CAvail head) \<longleftrightarrow> head = sq_head q \<and> head \<noteq> sq_tail q"
| "cons_inv q (CRead head val) \<longleftrightarrow> head = sq_head q \<and> head \<noteq> sq_tail q \<and> val = sq_slots q ! unat head"

definition spsc_sys_inv :: "u64 \<Rightarrow> 'a spsc_sys \<Rightarrow> bool" where
  "spsc_sys_inv n s \<longleftrightarrow> spsc_inv (sy_q s) \<and> sq_n (sy_q s) = n \<and>
     prod_inv (sy_q s) (sy_prod s) \<and> cons_inv (sy_q s) (sy_cons s) \<and>
     sy_pushed s = sy_popped s @ spsc_contents (sy_q s)"

text \<open>Freeing a slot leaves room for the push in progress.\<close>

lemma prod_inv_advance_head:
  assumes "spsc_inv q" and "sq_head q \<noteq> sq_tail q" and "prod_inv q p"
  shows "prod_inv (q\<lparr>sq_head := (sq_head q + 1) AND spsc_kMask q\<rparr>) p"
proof -
  let ?q = "q\<lparr>sq_head := (sq_head q + 1) AND spsc_kMask q\<rparr>"
  note adv = spsc_advance_head [OF assms(1,2)]
  have mask: "spsc_kMask ?q = spsc_kMask q" by (simp add: spsc_kMask_def)
  have "Suc (length (spsc_contents ?q)) \<noteq> unat (sq_n ?q)"
    using spsc_contents_length [OF assms(1)] adv(2) by simp
  then have "(sq_tail ?q + 1) AND spsc_kMask ?q \<noteq> sq_head ?q"
    using spsc_full_iff [OF adv(1)] by simp
  then show ?thesis using assms(3) mask by (cases p) auto
qed

lemma cons_inv_write_slot:
  assumes "cons_inv q c"
  shows "cons_inv (q\<lparr>sq_slots := (sq_slots q)[unat (sq_tail q) := v]\<rparr>) c"
  using assms by (cases c) (auto simp: word_unat_eq_iff)

lemma cons_inv_advance_tail:
  assumes "cons_inv q c" and "next \<noteq> sq_head q"
  shows "cons_inv (q\<lparr>sq_tail := next\<rparr>) c"
  using assms by (cases c) auto

lemma spsc_step_inv:
  assumes "spsc_step s t" and "spsc_sys_inv n s"
  shows "spsc_sys_inv n t"
  using assms
proof (induction rule: spsc_step.induct)
  case (push_write s val tail "next")
  then show ?case
    using spsc_write_slot [of "sy_q s" val] cons_inv_write_slot [of "sy_q s" "sy_cons s" val]
    by (auto simp: spsc_sys_inv_def spsc_kMask_def)
next
  case (push_store_tail s val "next")
  then show ?case
    using spsc_advance_tail [of "sy_q s"] cons_inv_advance_tail [of "sy_q s" "sy_cons s" "next"]
    by (auto simp: spsc_sys_inv_def)
next
  case (pop_store_head s head val)
  then show ?case
    using spsc_advance_head [of "sy_q s"] prod_inv_advance_head [of "sy_q s" "sy_prod s"]
    by (auto simp: spsc_sys_inv_def)
qed (auto simp: spsc_sys_inv_def)

lemma spsc_reach_inv: "spsc_reach n raw s \<Longrightarrow> spsc_sys_inv n s"
proof (induction rule: spsc_reach.induct)
  case start
  then show ?case
    using spsc_new_inv [of n raw] by (simp add: spsc_sys_inv_def spsc_start_def) (simp add: spsc_new_def)
next
  case (step s t)
  then show ?case by (blast intro: spsc_step_inv)
qed

text \<open>A concrete run, for the witnesses: one push is complete, a second one is about to write its
  slot while a pop is about to read.\<close>

lemma spsc_demo_run:
  "spsc_reach 4 [0, 0, 0, 0 :: nat]
     \<lparr>sy_q = \<lparr>sq_n = 4, sq_head = 0, sq_tail = 1, sq_slots = [7, 0, 0, 0]\<rparr>,
      sy_prod = PRoom 8 1 2, sy_cons = CAvail 0, sy_pushed = [7], sy_popped = []\<rparr>"
proof -
  let ?S = "\<lambda>t xs p c us. \<lparr>sy_q = \<lparr>sq_n = 4, sq_head = 0, sq_tail = t, sq_slots = xs\<rparr>,
    sy_prod = p, sy_cons = c, sy_pushed = us, sy_popped = []\<rparr> :: nat spsc_sys"
  let ?R = "spsc_reach 4 [0, 0, 0, 0 :: nat]"
  have "?R (?S 0 [0, 0, 0, 0] PIdle CIdle [])"
    using spsc_reach.start [of 4 "[0, 0, 0, 0 :: nat]"]
    by (simp add: spsc_static_assert_def pow2_def spsc_start_def spsc_new_def)
  from spsc_reach.step [OF this spsc_step.push_load_tail [of _ 7]]
  have "?R (?S 0 [0, 0, 0, 0] (PLoadedTail 7 0) CIdle [])" by simp
  from spsc_reach.step [OF this spsc_step.push_room [of _ 7 0 1]]
  have "?R (?S 0 [0, 0, 0, 0] (PRoom 7 0 1) CIdle [])" by (simp add: spsc_kMask_def)
  from spsc_reach.step [OF this spsc_step.push_write [of _ 7 0 1]]
  have "?R (?S 0 [7, 0, 0, 0] (PWritten 7 1) CIdle [])" by simp
  from spsc_reach.step [OF this spsc_step.push_store_tail [of _ 7 1]]
  have "?R (?S 1 [7, 0, 0, 0] PIdle CIdle [7])" by simp
  from spsc_reach.step [OF this spsc_step.push_load_tail [of _ 8]]
  have "?R (?S 1 [7, 0, 0, 0] (PLoadedTail 8 1) CIdle [7])" by simp
  from spsc_reach.step [OF this spsc_step.push_room [of _ 8 1 2]]
  have "?R (?S 1 [7, 0, 0, 0] (PRoom 8 1 2) CIdle [7])" by (simp add: spsc_kMask_def)
  from spsc_reach.step [OF this spsc_step.pop_load_head]
  have "?R (?S 1 [7, 0, 0, 0] (PRoom 8 1 2) (CLoadedHead 0) [7])" by simp
  from spsc_reach.step [OF this spsc_step.pop_avail [of _ 0]]
  show ?thesis by simp
qed

section \<open>Properties\<close>

text \<open>
  C1. In every interleaving of one producer and one consumer, the values popped so far followed by
  the values still in the ring are exactly the values pushed so far, in order: nothing is lost,
  duplicated or reordered, and at most \<open>N - 1\<close> items are in the ring.
\<close>

theorem spsc_fifo_exactly_once:
  assumes "spsc_reach n raw s"
  shows "sy_pushed s = sy_popped s @ spsc_contents (sy_q s) \<and>
    length (spsc_contents (sy_q s)) \<le> unat n - 1"
  using spsc_reach_inv [OF assms] spsc_contents_length [of "sy_q s"]
  by (auto simp: spsc_sys_inv_def)

theorem spsc_fifo_exactly_once_witness:
  "\<exists>s. spsc_reach 4 [0, 0, 0, 0 :: nat] s \<and> sy_pushed s = [7] \<and>
     sy_pushed s = sy_popped s @ spsc_contents (sy_q s) \<and>
     length (spsc_contents (sy_q s)) \<le> unat (4 :: u64) - 1"
  using spsc_fifo_exactly_once [OF spsc_demo_run] spsc_demo_run by fastforce

text \<open>
  No slot is accessed by both threads at once: when the producer is about to write a slot and
  the consumer is about to read one, the two slots differ, and both are inside the array.
\<close>

theorem spsc_no_slot_race:
  assumes "spsc_reach n raw s" and "sy_prod s = PRoom val tail next" and "sy_cons s = CAvail head"
  shows "unat tail \<noteq> unat head \<and> unat tail < length (sq_slots (sy_q s)) \<and>
    unat head < length (sq_slots (sy_q s))"
  using spsc_reach_inv [OF assms(1)] assms(2,3)
  by (auto simp: spsc_sys_inv_def spsc_inv_def word_unat_eq_iff)

theorem spsc_no_slot_race_witness:
  "\<exists>s. spsc_reach 4 [0, 0, 0, 0 :: nat] s \<and> sy_prod s = PRoom 8 1 2 \<and> sy_cons s = CAvail 0 \<and>
     unat (1 :: u64) \<noteq> unat (0 :: u64) \<and> unat (1 :: u64) < length (sq_slots (sy_q s)) \<and>
     unat (0 :: u64) < length (sq_slots (sy_q s))"
  using spsc_no_slot_race [OF spsc_demo_run, of 8 1 2 0] spsc_demo_run by fastforce

end
