(* ===== verification/Paged_Kv.thy ===== *)
theory Paged_Kv
  imports Prelude
begin

text \<open>
  \<open>inference_serving/paged_kv\<close>: the block allocator of the KV cache (a stack of free block ids)
  and the per-sequence block tables drawn from it. The invariant says that every physical block
  is either free or owned by exactly one sequence, and that each table has exactly the blocks its
  tokens need; every operation keeps it, and the locale \<open>block_pool\<close> states the part of the
  allocator's behaviour the cache relies on.
\<close>

section \<open>Block allocator\<close>

datatype kv_error = AssertFailed | DivideByZero

record block_allocator =
  ba_free_list :: "int list"
  ba_num_blocks :: int

text \<open>The vector's back is the end of the list; the loop pushes \<open>num_blocks - 1\<close> down to 0.\<close>

definition allocator_new :: "int \<Rightarrow> block_allocator" where
  "allocator_new num_blocks = \<lparr>ba_free_list = rev [0..num_blocks - 1], ba_num_blocks = num_blocks\<rparr>"

definition allocate :: "block_allocator \<Rightarrow> int \<times> block_allocator" where
  "allocate a =
     (if ba_free_list a = [] then (-1, a)
      else (last (ba_free_list a), a\<lparr>ba_free_list := butlast (ba_free_list a)\<rparr>))"

definition allocator_free :: "int \<Rightarrow> block_allocator \<Rightarrow> kv_error + block_allocator" where
  "allocator_free block_id a =
     (if 0 \<le> block_id \<and> block_id < ba_num_blocks a
      then Inr (a\<lparr>ba_free_list := ba_free_list a @ [block_id]\<rparr>)
      else Inl AssertFailed)"

definition num_free :: "block_allocator \<Rightarrow> int" where
  "num_free a = int (length (ba_free_list a))"

section \<open>Paged cache\<close>

record block_table =
  bt_physical_blocks :: "int list"
  bt_seq_len :: int

record paged_kv =
  kv_allocator :: block_allocator
  kv_seq_tables :: "int \<rightharpoonup> block_table"
  kv_num_layers :: int
  kv_num_heads :: int
  kv_head_dim :: int
  kv_block_size :: int

definition paged_kv_new :: "int \<Rightarrow> int \<Rightarrow> int \<Rightarrow> int \<Rightarrow> int \<Rightarrow> paged_kv" where
  "paged_kv_new num_layers num_heads head_dim block_size max_blocks =
     \<lparr>kv_allocator = allocator_new max_blocks, kv_seq_tables = Map.empty,
      kv_num_layers = num_layers, kv_num_heads = num_heads, kv_head_dim = head_dim,
      kv_block_size = block_size\<rparr>"

definition empty_table :: block_table where
  "empty_table = \<lparr>bt_physical_blocks = [], bt_seq_len = 0\<rparr>"

text \<open>
  \<open>seq_tables_[seq_id]\<close> creates the entry when it is missing, so the error path for a new sequence
  erases it again. The remainder by \<open>block_size_\<close> is only evaluated for a non-empty table.
\<close>

definition append_token :: "int \<Rightarrow> paged_kv \<Rightarrow> kv_error + bool \<times> paged_kv" where
  "append_token seq_id c =
     (let table = (case kv_seq_tables c seq_id of None \<Rightarrow> empty_table | Some t \<Rightarrow> t);
          tables = (kv_seq_tables c)(seq_id \<mapsto> table)
      in if bt_physical_blocks table \<noteq> [] \<and> kv_block_size c = 0 then Inl DivideByZero
         else if bt_physical_blocks table = [] \<or> bt_seq_len table mod kv_block_size c = 0 then
           (let (block, a) = allocate (kv_allocator c)
            in if block = -1 then
                 (if bt_physical_blocks table = [] \<and> bt_seq_len table = 0
                  then Inr (False, c\<lparr>kv_allocator := a, kv_seq_tables := tables(seq_id := None)\<rparr>)
                  else Inr (False, c\<lparr>kv_allocator := a, kv_seq_tables := tables\<rparr>))
               else Inr (True, c\<lparr>kv_allocator := a,
                      kv_seq_tables := tables(seq_id \<mapsto>
                        \<lparr>bt_physical_blocks = bt_physical_blocks table @ [block],
                         bt_seq_len = bt_seq_len table + 1\<rparr>)\<rparr>))
         else Inr (True, c\<lparr>kv_seq_tables := tables(seq_id \<mapsto> table\<lparr>bt_seq_len := bt_seq_len table + 1\<rparr>)\<rparr>))"

definition get_block_table :: "int \<Rightarrow> paged_kv \<Rightarrow> block_table option" where
  "get_block_table seq_id c = kv_seq_tables c seq_id"

fun free_blocks :: "int list \<Rightarrow> block_allocator \<Rightarrow> kv_error + block_allocator" where
  "free_blocks [] a = Inr a"
| "free_blocks (b # bs) a = (case allocator_free b a of Inl e \<Rightarrow> Inl e | Inr a' \<Rightarrow> free_blocks bs a')"

definition free_sequence :: "int \<Rightarrow> paged_kv \<Rightarrow> kv_error + paged_kv" where
  "free_sequence seq_id c =
     (case kv_seq_tables c seq_id of
        None \<Rightarrow> Inr c
      | Some t \<Rightarrow> (case free_blocks (bt_physical_blocks t) (kv_allocator c) of
            Inl e \<Rightarrow> Inl e
          | Inr a \<Rightarrow> Inr (c\<lparr>kv_allocator := a, kv_seq_tables := (kv_seq_tables c)(seq_id := None)\<rparr>)))"

definition num_free_blocks :: "paged_kv \<Rightarrow> int" where
  "num_free_blocks c = num_free (kv_allocator c)"

text \<open>\<open>sizeof(float)\<close> is 4; the products are taken in \<open>size_t\<close>.\<close>

definition bytes_per_block :: "paged_kv \<Rightarrow> u64" where
  "bytes_per_block c = word_of_int (kv_num_layers c) * word_of_int (kv_num_heads c) *
     word_of_int (kv_head_dim c) * word_of_int (kv_block_size c) * 2 * 4"

section \<open>What the cache relies on: a pool of distinct blocks\<close>

text \<open>
  \<open>take\<close> hands out a block of the pool or reports that there is none; \<open>give\<close> puts a block that is
  not in the pool back. The client lemma is the one the cache needs: giving back a list of
  blocks that were taken returns exactly those blocks.
\<close>

locale block_pool =
  fixes take_block :: "'p \<Rightarrow> 'b option \<times> 'p"
    and give :: "'b \<Rightarrow> 'p \<Rightarrow> 'p option"
    and blocks :: "'p \<Rightarrow> 'b set"
    and universe :: "'p \<Rightarrow> 'b set"
    and pool_ok :: "'p \<Rightarrow> bool"
  assumes take_none: "pool_ok p \<Longrightarrow> blocks p = {} \<Longrightarrow> take_block p = (None, p)"
    and take_some: "pool_ok p \<Longrightarrow> blocks p \<noteq> {} \<Longrightarrow>
      \<exists>b p'. take_block p = (Some b, p') \<and> b \<in> blocks p \<and> blocks p' = blocks p - {b} \<and>
        pool_ok p' \<and> universe p' = universe p"
    and give_fresh: "pool_ok p \<Longrightarrow> b \<in> universe p - blocks p \<Longrightarrow>
      \<exists>p'. give b p = Some p' \<and> blocks p' = insert b (blocks p) \<and> pool_ok p' \<and> universe p' = universe p"
begin

fun give_all :: "'b list \<Rightarrow> 'p \<Rightarrow> 'p option" where
  "give_all [] p = Some p"
| "give_all (b # bs) p = (case give b p of None \<Rightarrow> None | Some p' \<Rightarrow> give_all bs p')"

lemma give_all_fresh:
  assumes "pool_ok p" and "distinct bs" and "set bs \<subseteq> universe p - blocks p"
  shows "\<exists>p'. give_all bs p = Some p' \<and> blocks p' = blocks p \<union> set bs \<and> pool_ok p' \<and>
    universe p' = universe p"
  using assms
proof (induction bs arbitrary: p)
  case Nil
  then show ?case by simp
next
  case (Cons b bs)
  then obtain p1 where p1: "give b p = Some p1" "blocks p1 = insert b (blocks p)"
      "pool_ok p1" "universe p1 = universe p"
    using give_fresh [of p b] by auto
  have "distinct bs" and "set bs \<subseteq> universe p1 - blocks p1" using Cons.prems p1(2,4) by auto
  from Cons.IH [OF p1(3) this] obtain p' where "give_all bs p1 = Some p'"
      "blocks p' = blocks p1 \<union> set bs" "pool_ok p'" "universe p' = universe p1"
    by blast
  with p1 show ?case by simp
qed

end

section \<open>The allocator is such a pool\<close>

definition allocator_inv :: "block_allocator \<Rightarrow> bool" where
  "allocator_inv a \<longleftrightarrow> distinct (ba_free_list a) \<and> set (ba_free_list a) \<subseteq> {0..<ba_num_blocks a}"

definition allocator_take :: "block_allocator \<Rightarrow> int option \<times> block_allocator" where
  "allocator_take a = (case allocate a of (b, a') \<Rightarrow> (if b = -1 then None else Some b, a'))"

definition allocator_give :: "int \<Rightarrow> block_allocator \<Rightarrow> block_allocator option" where
  "allocator_give b a = (case allocator_free b a of Inl _ \<Rightarrow> None | Inr a' \<Rightarrow> Some a')"

lemma allocator_new_inv:
  "allocator_inv (allocator_new n)" and "set (ba_free_list (allocator_new n)) = {0..<n}"
  by (auto simp: allocator_inv_def allocator_new_def)

lemma allocate_some:
  assumes "allocator_inv a" and "ba_free_list a \<noteq> []"
  shows "\<exists>b a'. allocate a = (b, a') \<and> 0 \<le> b \<and> b \<in> set (ba_free_list a) \<and> allocator_inv a' \<and>
    set (ba_free_list a') = set (ba_free_list a) - {b} \<and> ba_num_blocks a' = ba_num_blocks a"
proof -
  obtain bs b where free: "ba_free_list a = bs @ [b]" using assms(2) by (metis rev_exhaust)
  then have "allocate a = (b, a\<lparr>ba_free_list := bs\<rparr>)" by (simp add: allocate_def)
  moreover have "0 \<le> b" and "b \<notin> set bs" and "allocator_inv (a\<lparr>ba_free_list := bs\<rparr>)"
    using assms(1) free by (auto simp: allocator_inv_def)
  ultimately show ?thesis using free by auto
qed

interpretation allocator: block_pool allocator_take allocator_give
  "\<lambda>a. set (ba_free_list a)" "\<lambda>a. {0..<ba_num_blocks a}" allocator_inv
proof unfold_locales
  fix a
  show "allocator_inv a \<Longrightarrow> set (ba_free_list a) = {} \<Longrightarrow> allocator_take a = (None, a)"
    by (simp add: allocator_take_def allocate_def)
  show "allocator_inv a \<Longrightarrow> set (ba_free_list a) \<noteq> {} \<Longrightarrow>
      \<exists>b a'. allocator_take a = (Some b, a') \<and> b \<in> set (ba_free_list a) \<and>
        set (ba_free_list a') = set (ba_free_list a) - {b} \<and> allocator_inv a' \<and>
        {0..<ba_num_blocks a'} = {0..<ba_num_blocks a}"
    using allocate_some [of a] by (auto simp: allocator_take_def)
  show "allocator_inv a \<Longrightarrow> b \<in> {0..<ba_num_blocks a} - set (ba_free_list a) \<Longrightarrow>
      \<exists>a'. allocator_give b a = Some a' \<and> set (ba_free_list a') = insert b (set (ba_free_list a)) \<and>
        allocator_inv a' \<and> {0..<ba_num_blocks a'} = {0..<ba_num_blocks a}" for b
    by (auto simp: allocator_give_def allocator_free_def allocator_inv_def)
qed

lemma free_blocks_give_all:
  "allocator.give_all bs a = (case free_blocks bs a of Inl _ \<Rightarrow> None | Inr a' \<Rightarrow> Some a')"
  by (induction bs arbitrary: a) (auto simp: allocator_give_def split: sum.splits)

lemma free_blocks_num: "free_blocks bs a = Inr a' \<Longrightarrow> ba_num_blocks a' = ba_num_blocks a"
  by (induction bs arbitrary: a) (auto simp: allocator_free_def split: sum.splits if_splits)

lemma free_blocks_fresh:
  assumes "allocator_inv a" and "distinct bs" and "set bs \<subseteq> {0..<ba_num_blocks a} - set (ba_free_list a)"
  obtains a' where "free_blocks bs a = Inr a'" and "allocator_inv a'"
    and "set (ba_free_list a') = set (ba_free_list a) \<union> set bs" and "ba_num_blocks a' = ba_num_blocks a"
proof -
  obtain a' where give: "allocator.give_all bs a = Some a'"
    and a': "set (ba_free_list a') = set (ba_free_list a) \<union> set bs" "allocator_inv a'"
    using allocator.give_all_fresh [OF assms] by blast
  from give have fb: "free_blocks bs a = Inr a'"
    by (simp add: free_blocks_give_all split: sum.splits)
  from that [OF fb a'(2,1) free_blocks_num [OF fb]] show thesis .
qed

section \<open>Invariant of the cache\<close>

definition owned :: "paged_kv \<Rightarrow> int \<Rightarrow> int list" where
  "owned c s = (case kv_seq_tables c s of None \<Rightarrow> [] | Some t \<Rightarrow> bt_physical_blocks t)"

text \<open>A table with \<open>k\<close> blocks holds more than \<open>(k - 1) * block_size\<close> and at most
  \<open>k * block_size\<close> tokens, so every token position has a block and no block is idle.\<close>

definition table_ok :: "int \<Rightarrow> block_table \<Rightarrow> bool" where
  "table_ok bs t \<longleftrightarrow> 0 < bt_seq_len t \<and>
     (int (length (bt_physical_blocks t)) - 1) * bs < bt_seq_len t \<and>
     bt_seq_len t \<le> int (length (bt_physical_blocks t)) * bs"

definition kv_inv :: "paged_kv \<Rightarrow> bool" where
  "kv_inv c \<longleftrightarrow> allocator_inv (kv_allocator c) \<and> 0 < kv_block_size c \<and>
     finite (dom (kv_seq_tables c)) \<and>
     (\<forall>s t. kv_seq_tables c s = Some t \<longrightarrow> table_ok (kv_block_size c) t) \<and>
     (\<forall>s. distinct (owned c s)) \<and>
     (\<forall>s. set (owned c s) \<inter> set (ba_free_list (kv_allocator c)) = {}) \<and>
     (\<forall>s s'. s \<noteq> s' \<longrightarrow> set (owned c s) \<inter> set (owned c s') = {}) \<and>
     set (ba_free_list (kv_allocator c)) \<union> (\<Union>s. set (owned c s)) = {0..<ba_num_blocks (kv_allocator c)}"

lemma kv_invD:
  assumes "kv_inv c"
  shows "allocator_inv (kv_allocator c)" and "0 < kv_block_size c" and "finite (dom (kv_seq_tables c))"
    and "\<And>s t. kv_seq_tables c s = Some t \<Longrightarrow> table_ok (kv_block_size c) t"
    and "\<And>s. distinct (owned c s)"
    and "\<And>s. set (owned c s) \<inter> set (ba_free_list (kv_allocator c)) = {}"
    and "\<And>s s'. s \<noteq> s' \<Longrightarrow> set (owned c s) \<inter> set (owned c s') = {}"
    and "set (ba_free_list (kv_allocator c)) \<union> (\<Union>s. set (owned c s)) = {0..<ba_num_blocks (kv_allocator c)}"
  using assms by (simp_all add: kv_inv_def)

lemma paged_kv_new_inv:
  "0 < block_size \<Longrightarrow> kv_inv (paged_kv_new nl nh dim block_size max_blocks)"
  by (auto simp: kv_inv_def paged_kv_new_def owned_def allocator_new_inv) (auto simp: allocator_new_def)

lemma owned_nonempty:
  assumes "kv_inv c" and "kv_seq_tables c s = Some t"
  shows "bt_physical_blocks t \<noteq> []"
proof
  assume "bt_physical_blocks t = []"
  with kv_invD(4) [OF assms] show False by (auto simp: table_ok_def)
qed

text \<open>The state after a successful append that took block \<open>b\<close>.\<close>

lemma kv_inv_take:
  assumes inv: "kv_inv c" and b: "b \<in> set (ba_free_list (kv_allocator c))"
    and a: "allocator_inv a" "set (ba_free_list a) = set (ba_free_list (kv_allocator c)) - {b}"
      "ba_num_blocks a = ba_num_blocks (kv_allocator c)"
    and t: "table_ok (kv_block_size c) t" "bt_physical_blocks t = owned c s @ [b]"
  shows "kv_inv (c\<lparr>kv_allocator := a, kv_seq_tables := (kv_seq_tables c)(s \<mapsto> t)\<rparr>)"
    (is "kv_inv ?c")
proof -
  have ow: "owned ?c r = (if r = s then owned c s @ [b] else owned c r)" for r
    by (simp add: owned_def t(2))
  note D = kv_invD [OF inv]
  have b_free: "b \<notin> set (owned c r)" for r using D(6) [of r] b by blast
  have "(\<Union>r. set (owned ?c r)) = insert b (\<Union>r. set (owned c r))"
    by (auto simp: ow split: if_splits)
  then have cover: "set (ba_free_list a) \<union> (\<Union>r. set (owned ?c r)) = {0..<ba_num_blocks a}"
    using D(8) a(2,3) b by auto
  have disj: "set (owned ?c r) \<inter> set (owned ?c r') = {}" if "r \<noteq> r'" for r r'
    using D(7) [OF that] b_free that by (auto simp: ow)
  have free: "set (owned ?c r) \<inter> set (ba_free_list a) = {}" for r
    using D(6) [of r] D(6) [of s] a(2) by (auto simp: ow)
  have dist: "distinct (owned ?c r)" for r using D(5) b_free by (simp add: ow)
  show ?thesis
    unfolding kv_inv_def using a(1) D(2,3,4) t(1) cover disj free dist by auto
qed

section \<open>The operations keep the invariant\<close>

text \<open>The outcome of an append, on every branch.\<close>

definition needs_block :: "paged_kv \<Rightarrow> int \<Rightarrow> bool" where
  "needs_block c s \<longleftrightarrow>
     (case kv_seq_tables c s of None \<Rightarrow> True | Some t \<Rightarrow> bt_seq_len t mod kv_block_size c = 0)"

definition seq_len_of :: "paged_kv \<Rightarrow> int \<Rightarrow> int" where
  "seq_len_of c s = (case kv_seq_tables c s of None \<Rightarrow> 0 | Some t \<Rightarrow> bt_seq_len t)"

lemma append_exhausted:
  assumes "kv_inv c" and "needs_block c s" and "num_free_blocks c = 0"
  shows "append_token s c = Inr (False, c)"
proof -
  have "allocate (kv_allocator c) = (-1, kv_allocator c)"
    using assms(3) by (simp add: allocate_def num_free_blocks_def num_free_def)
  moreover have "kv_seq_tables c s = Some t \<Longrightarrow> bt_physical_blocks t \<noteq> []" for t
    using owned_nonempty [OF assms(1)] .
  ultimately show ?thesis
    using assms(2) kv_invD(2) [OF assms(1)]
    by (auto simp: append_token_def needs_block_def Let_def empty_table_def fun_upd_idem split: option.splits)
qed

lemma table_ok_extend:
  assumes "0 < bs" and "table_ok bs t"
  shows "bt_seq_len t mod bs \<noteq> 0 \<Longrightarrow> table_ok bs (t\<lparr>bt_seq_len := bt_seq_len t + 1\<rparr>)"
    and "bt_seq_len t mod bs = 0 \<Longrightarrow> bt_seq_len t = int (length (bt_physical_blocks t)) * bs"
proof -
  let ?k = "int (length (bt_physical_blocks t))"
  from assms(2) have b: "0 < bt_seq_len t" "(?k - 1) * bs < bt_seq_len t" "bt_seq_len t \<le> ?k * bs"
    by (auto simp: table_ok_def)
  show "bt_seq_len t mod bs \<noteq> 0 \<Longrightarrow> table_ok bs (t\<lparr>bt_seq_len := bt_seq_len t + 1\<rparr>)"
  proof -
    assume "bt_seq_len t mod bs \<noteq> 0"
    then have "bt_seq_len t \<noteq> ?k * bs" by auto
    then show ?thesis using b by (simp add: table_ok_def)
  qed
  assume "bt_seq_len t mod bs = 0"
  then obtain m where m: "bt_seq_len t = m * bs" by (metis dvd_def mod_eq_0_iff_dvd mult.commute)
  then have "?k - 1 < m" and "m \<le> ?k" using b assms(1) by (simp_all add: m)
  then show "bt_seq_len t = ?k * bs" using m by simp
qed

lemma append_new_block:
  assumes inv: "kv_inv c" and need: "needs_block c s" and free: "num_free_blocks c \<noteq> 0"
  obtains b c' where "append_token s c = Inr (True, c')" and "kv_inv c'"
    and "b \<in> set (ba_free_list (kv_allocator c))"
    and "owned c' = (owned c)(s := owned c s @ [b])" and "seq_len_of c' s = seq_len_of c s + 1"
    and "set (ba_free_list (kv_allocator c')) = set (ba_free_list (kv_allocator c)) - {b}"
    and "ba_num_blocks (kv_allocator c') = ba_num_blocks (kv_allocator c)"
proof -
  from free have "ba_free_list (kv_allocator c) \<noteq> []" by (simp add: num_free_blocks_def num_free_def)
  from allocate_some [OF kv_invD(1) [OF inv] this] obtain b a where
    al: "allocate (kv_allocator c) = (b, a)" and b0: "0 \<le> b" and b: "b \<in> set (ba_free_list (kv_allocator c))"
    and a: "allocator_inv a" "set (ba_free_list a) = set (ba_free_list (kv_allocator c)) - {b}"
      "ba_num_blocks a = ba_num_blocks (kv_allocator c)"
    by blast
  let ?t = "\<lparr>bt_physical_blocks = owned c s @ [b], bt_seq_len = seq_len_of c s + 1\<rparr>"
  let ?c = "c\<lparr>kv_allocator := a, kv_seq_tables := (kv_seq_tables c)(s \<mapsto> ?t)\<rparr>"
  have "append_token s c = Inr (True, ?c)"
    using need al b0 owned_nonempty [OF inv, of s] kv_invD(2) [OF inv]
    by (auto simp: append_token_def needs_block_def Let_def empty_table_def owned_def seq_len_of_def
        split: option.splits)
  moreover have "table_ok (kv_block_size c) ?t"
  proof (cases "kv_seq_tables c s")
    case None
    then show ?thesis using kv_invD(2) [OF inv] by (simp add: table_ok_def owned_def seq_len_of_def)
  next
    case (Some t)
    then have "bt_seq_len t = int (length (bt_physical_blocks t)) * kv_block_size c"
      using table_ok_extend(2) [OF kv_invD(2) [OF inv] kv_invD(4) [OF inv Some]] need
      by (simp add: needs_block_def)
    then show ?thesis
      using Some kv_invD(2) [OF inv]
      by (simp add: table_ok_def owned_def seq_len_of_def algebra_simps add_pos_nonneg)
  qed
  then have "kv_inv ?c" using kv_inv_take [OF inv b a] by simp
  moreover have "owned ?c = (owned c)(s := owned c s @ [b])" by (auto simp: owned_def)
  ultimately show thesis using that [of ?c b] b a by (simp add: seq_len_of_def)
qed

lemma append_same_block:
  assumes inv: "kv_inv c" and need: "\<not> needs_block c s"
  obtains c' where "append_token s c = Inr (True, c')" and "kv_inv c'" and "owned c' = owned c"
    and "seq_len_of c' s = seq_len_of c s + 1" and "kv_allocator c' = kv_allocator c"
proof -
  from need obtain t where t: "kv_seq_tables c s = Some t" and m: "bt_seq_len t mod kv_block_size c \<noteq> 0"
    by (auto simp: needs_block_def split: option.splits)
  let ?c = "c\<lparr>kv_seq_tables := (kv_seq_tables c)(s \<mapsto> t\<lparr>bt_seq_len := bt_seq_len t + 1\<rparr>)\<rparr>"
  have "append_token s c = Inr (True, ?c)"
    using t m owned_nonempty [OF inv t] kv_invD(2) [OF inv]
    by (simp add: append_token_def Let_def)
  moreover have ow: "owned ?c = owned c" using t by (auto simp: owned_def)
  moreover have "kv_inv ?c"
    using inv table_ok_extend(1) [OF kv_invD(2) [OF inv] kv_invD(4) [OF inv t] m]
    unfolding kv_inv_def ow by (auto simp del: fun_upd_apply) (auto split: if_splits)
  ultimately show thesis using that [of ?c] t by (simp add: seq_len_of_def)
qed

lemma free_sequence_releases:
  assumes inv: "kv_inv c"
  obtains c' where "free_sequence s c = Inr c'" and "kv_inv c'" and "owned c' = (owned c)(s := [])"
    and "seq_len_of c' s = 0"
    and "set (ba_free_list (kv_allocator c')) = set (ba_free_list (kv_allocator c)) \<union> set (owned c s)"
    and "ba_num_blocks (kv_allocator c') = ba_num_blocks (kv_allocator c)"
proof (cases "kv_seq_tables c s")
  case None
  then have "owned c s = []" by (simp add: owned_def)
  then have "(owned c)(s := []) = owned c" by (simp add: fun_upd_idem)
  with None show thesis using that [of c] inv by (simp add: free_sequence_def seq_len_of_def owned_def)
next
  case (Some t)
  note D = kv_invD [OF inv]
  from Some have ows: "owned c s = bt_physical_blocks t" by (simp add: owned_def)
  have "set (owned c s) \<subseteq> {0..<ba_num_blocks (kv_allocator c)} - set (ba_free_list (kv_allocator c))"
    using D(6) [of s] D(8) by blast
  then obtain a where a: "free_blocks (owned c s) (kv_allocator c) = Inr a" "allocator_inv a"
      "set (ba_free_list a) = set (ba_free_list (kv_allocator c)) \<union> set (owned c s)"
      "ba_num_blocks a = ba_num_blocks (kv_allocator c)"
    using free_blocks_fresh [OF D(1) D(5)] by blast
  let ?c = "c\<lparr>kv_allocator := a, kv_seq_tables := (kv_seq_tables c)(s := None)\<rparr>"
  have fs: "free_sequence s c = Inr ?c" using Some a(1) ows by (simp add: free_sequence_def)
  have ow: "owned ?c = (owned c)(s := [])" by (auto simp: owned_def)
  have "(\<Union>r. set (owned c r)) = set (owned c s) \<union> (\<Union>r. set (owned ?c r))"
    unfolding ow by (auto split: if_splits)
  then have cover: "set (ba_free_list a) \<union> (\<Union>r. set (owned ?c r)) = {0..<ba_num_blocks a}"
    using D(8) a(3,4) by auto
  have "set (owned ?c r) \<inter> set (ba_free_list a) = {}" for r
    using D(6) [of r] D(7) [of r s] a(3) by (auto simp: ow)
  moreover have "set (owned ?c r) \<inter> set (owned ?c r') = {}" if "r \<noteq> r'" for r r'
    using D(7) [OF that] by (auto simp: ow)
  moreover have "distinct (owned ?c r)" for r using D(5) by (simp add: ow)
  ultimately have "kv_inv ?c"
    unfolding kv_inv_def using D(2,3,4) a(2) cover by auto
  then show thesis using that [OF fs _ ow] a(3,4) by (simp add: seq_len_of_def)
qed

section \<open>Whole runs of the cache\<close>

datatype kv_op = Append int | Release int

fun kv_exec :: "kv_op \<Rightarrow> paged_kv \<Rightarrow> kv_error + paged_kv" where
  "kv_exec (Append s) c = (case append_token s c of Inl e \<Rightarrow> Inl e | Inr (_, c') \<Rightarrow> Inr c')"
| "kv_exec (Release s) c = free_sequence s c"

fun kv_run :: "kv_op list \<Rightarrow> paged_kv \<Rightarrow> kv_error + paged_kv" where
  "kv_run [] c = Inr c"
| "kv_run (x # xs) c = (case kv_exec x c of Inl e \<Rightarrow> Inl e | Inr c' \<Rightarrow> kv_run xs c')"

lemma kv_exec_inv:
  assumes "kv_inv c"
  obtains c' where "kv_exec x c = Inr c'" and "kv_inv c'"
    and "ba_num_blocks (kv_allocator c') = ba_num_blocks (kv_allocator c)"
proof (cases x)
  case (Append s)
  consider (same) "\<not> needs_block c s" | (new) "needs_block c s" "num_free_blocks c \<noteq> 0"
    | (out) "needs_block c s" "num_free_blocks c = 0" by blast
  then show thesis
  proof cases
    case same
    from append_same_block [OF assms same] obtain c' where "append_token s c = Inr (True, c')"
      and "kv_inv c'" and "kv_allocator c' = kv_allocator c" by blast
    then show thesis using that [of c'] Append by simp
  next
    case new
    from append_new_block [OF assms new] obtain c' where "append_token s c = Inr (True, c')"
      and "kv_inv c'" and "ba_num_blocks (kv_allocator c') = ba_num_blocks (kv_allocator c)" by blast
    then show thesis using that [of c'] Append by simp
  next
    case out
    from append_exhausted [OF assms out] show thesis using that [of c] Append assms by simp
  qed
next
  case (Release s)
  from free_sequence_releases [OF assms] obtain c' where "free_sequence s c = Inr c'" and "kv_inv c'"
    and "ba_num_blocks (kv_allocator c') = ba_num_blocks (kv_allocator c)" by blast
  then show thesis using that [of c'] Release by simp
qed

lemma kv_run_inv:
  assumes "kv_inv c"
  shows "\<exists>c'. kv_run ops c = Inr c' \<and> kv_inv c' \<and>
    ba_num_blocks (kv_allocator c') = ba_num_blocks (kv_allocator c)"
  using assms
proof (induction ops arbitrary: c)
  case Nil
  then show ?case by simp
next
  case (Cons x ops)
  obtain c1 where c1: "kv_exec x c = Inr c1" "kv_inv c1"
      "ba_num_blocks (kv_allocator c1) = ba_num_blocks (kv_allocator c)"
    using kv_exec_inv [OF Cons.prems] .
  from Cons.IH [OF c1(2)] c1 show ?case by auto
qed

lemma kv_blocks_counted:
  assumes "kv_inv c" and "0 \<le> ba_num_blocks (kv_allocator c)"
  shows "num_free_blocks c + (\<Sum>s\<in>dom (kv_seq_tables c). int (length (owned c s))) =
    ba_num_blocks (kv_allocator c)"
proof -
  note D = kv_invD [OF assms(1)]
  let ?F = "set (ba_free_list (kv_allocator c))" and ?S = "dom (kv_seq_tables c)"
  have "owned c s = []" if "s \<notin> ?S" for s using that by (auto simp: owned_def domIff)
  then have un: "(\<Union>s. set (owned c s)) = (\<Union>s\<in>?S. set (owned c s))" by fastforce
  have len: "card (set (owned c s)) = length (owned c s)" for s by (simp add: distinct_card D(5))
  have "card (\<Union>s\<in>?S. set (owned c s)) = (\<Sum>s\<in>?S. length (owned c s))"
    using D(3,7) by (subst card_UN_disjoint) (auto simp: len)
  moreover have "?F \<inter> (\<Union>s\<in>?S. set (owned c s)) = {}" using D(6) by blast
  then have "card (?F \<union> (\<Union>s\<in>?S. set (owned c s))) = card ?F + card (\<Union>s\<in>?S. set (owned c s))"
    using D(3) by (intro card_Un_disjoint) auto
  moreover have "card ?F = length (ba_free_list (kv_allocator c))"
    using D(1) by (simp add: allocator_inv_def distinct_card)
  moreover have "card (?F \<union> (\<Union>s\<in>?S. set (owned c s))) = nat (ba_num_blocks (kv_allocator c))"
    using D(8) un by simp
  ultimately show ?thesis
    using assms(2) by (simp add: num_free_blocks_def num_free_def flip: of_nat_sum of_nat_add)
qed

section \<open>Properties\<close>

text \<open>
  C2. Whatever sequence of appends and releases the cache serves, no operation fails an assertion or
  divides by zero, no physical block is owned by two sequences or by a sequence and the free
  list, and the free blocks plus the blocks of all sequences are exactly the blocks of the pool:
  none leaks.
\<close>

theorem kv_blocks_exclusive_and_conserved:
  assumes "0 < block_size" and "0 \<le> max_blocks"
  shows "\<exists>c. kv_run ops (paged_kv_new nl nh dim block_size max_blocks) = Inr c \<and>
    (\<forall>s s'. s \<noteq> s' \<longrightarrow> set (owned c s) \<inter> set (owned c s') = {}) \<and>
    (\<forall>s. set (owned c s) \<inter> set (ba_free_list (kv_allocator c)) = {}) \<and>
    num_free_blocks c + (\<Sum>s\<in>dom (kv_seq_tables c). int (length (owned c s))) = max_blocks"
proof -
  let ?c0 = "paged_kv_new nl nh dim block_size max_blocks"
  obtain c where run: "kv_run ops ?c0 = Inr c" and inv: "kv_inv c"
    and num: "ba_num_blocks (kv_allocator c) = ba_num_blocks (kv_allocator ?c0)"
    using kv_run_inv [OF paged_kv_new_inv [OF assms(1)]] by blast
  have "ba_num_blocks (kv_allocator c) = max_blocks"
    using num by (simp add: paged_kv_new_def allocator_new_def)
  then show ?thesis
    using run kv_invD(6,7) [OF inv] kv_blocks_counted [OF inv] assms(2) by auto
qed

theorem kv_blocks_exclusive_and_conserved_witness:
  "\<exists>c. kv_run [Append 1, Append 2, Append 1, Release 1, Append 2] (paged_kv_new 1 1 1 2 3) = Inr c \<and>
    num_free_blocks c + (\<Sum>s\<in>dom (kv_seq_tables c). int (length (owned c s))) = 3"
  using kv_blocks_exclusive_and_conserved
    [of 2 3 "[Append 1, Append 2, Append 1, Release 1, Append 2]" 1 1 1] by auto

text \<open>
  An append is refused exactly when the sequence needs a new block and the pool is empty, and a
  refused append changes nothing; otherwise the sequence grows by one token, and it takes a block
  from the pool exactly when its last block is full.
\<close>

theorem append_token_outcome:
  assumes "kv_inv c"
  shows "if needs_block c s \<and> num_free_blocks c = 0 then append_token s c = Inr (False, c)
    else (\<exists>c'. append_token s c = Inr (True, c') \<and> seq_len_of c' s = seq_len_of c s + 1 \<and>
      int (length (owned c' s)) = int (length (owned c s)) + (if needs_block c s then 1 else 0))"
proof (cases "needs_block c s")
  case need: True
  show ?thesis
  proof (cases "num_free_blocks c = 0")
    case True
    then show ?thesis using append_exhausted [OF assms need] need by simp
  next
    case False
    from append_new_block [OF assms need False] obtain b c' where "append_token s c = Inr (True, c')"
      and "owned c' = (owned c)(s := owned c s @ [b])" and "seq_len_of c' s = seq_len_of c s + 1"
      by blast
    then show ?thesis using need False by simp
  qed
next
  case False
  from append_same_block [OF assms False] obtain c' where "append_token s c = Inr (True, c')"
    and "owned c' = owned c" and "seq_len_of c' s = seq_len_of c s + 1" by blast
  then show ?thesis using False by simp
qed

theorem append_token_outcome_witness:
  "kv_inv (paged_kv_new 1 1 1 2 0) \<and> append_token 5 (paged_kv_new 1 1 1 2 0) = Inr (False, paged_kv_new 1 1 1 2 0)"
proof -
  have inv: "kv_inv (paged_kv_new 1 1 1 2 0)" by (rule paged_kv_new_inv) simp
  have "needs_block (paged_kv_new 1 1 1 2 0) 5" and "num_free_blocks (paged_kv_new 1 1 1 2 0) = 0"
    by (simp_all add: needs_block_def paged_kv_new_def num_free_blocks_def num_free_def allocator_new_def)
  then show ?thesis using append_token_outcome [OF inv, of 5] inv by simp
qed

text \<open>
  The block table serves every token: position \<open>i\<close> of a sequence lies in the logical block
  \<open>i div block_size\<close>, which the table maps to a physical block of the pool.
\<close>

theorem block_table_covers_tokens:
  assumes "kv_inv c" and "get_block_table s c = Some t" and "0 \<le> i" and "i < bt_seq_len t"
  shows "nat (i div kv_block_size c) < length (bt_physical_blocks t) \<and>
    bt_physical_blocks t ! nat (i div kv_block_size c) \<in> {0..<ba_num_blocks (kv_allocator c)}"
proof -
  note D = kv_invD [OF assms(1)]
  from assms(2) have t: "kv_seq_tables c s = Some t" by (simp add: get_block_table_def)
  have "i < int (length (bt_physical_blocks t)) * kv_block_size c"
    using D(4) [OF t] assms(4) by (simp add: table_ok_def)
  then have "i div kv_block_size c < int (length (bt_physical_blocks t))"
    using D(2) by (intro int_div_less)
  moreover have "0 \<le> i div kv_block_size c" using assms(3) D(2) by (simp add: pos_imp_zdiv_nonneg_iff)
  ultimately have lt: "nat (i div kv_block_size c) < length (bt_physical_blocks t)" by simp
  have "set (bt_physical_blocks t) = set (owned c s)" using t by (simp add: owned_def)
  then have "set (bt_physical_blocks t) \<subseteq> {0..<ba_num_blocks (kv_allocator c)}" using D(8) by blast
  then show ?thesis using lt nth_mem by blast
qed

lemma kv_demo:
  "kv_run [Append 7, Append 7, Append 7] (paged_kv_new 1 1 1 2 3) =
     Inr (\<lparr>kv_allocator = \<lparr>ba_free_list = [2], ba_num_blocks = 3\<rparr>,
       kv_seq_tables = Map.empty(7 \<mapsto> \<lparr>bt_physical_blocks = [0, 1], bt_seq_len = 3\<rparr>),
       kv_num_layers = 1, kv_num_heads = 1, kv_head_dim = 1, kv_block_size = 2\<rparr>)"
  by (simp add: paged_kv_new_def allocator_new_def append_token_def allocate_def empty_table_def
      Let_def upto.simps)

theorem block_table_covers_tokens_witness:
  "\<exists>c t. kv_run [Append 7, Append 7, Append 7] (paged_kv_new 1 1 1 2 3) = Inr c \<and>
     get_block_table 7 c = Some t \<and> bt_physical_blocks t ! nat (2 div kv_block_size c) \<in> {0..<3}"
proof -
  obtain c where run: "kv_run [Append 7, Append 7, Append 7] (paged_kv_new 1 1 1 2 3) = Inr c"
    and inv: "kv_inv c"
    using kv_run_inv [OF paged_kv_new_inv, of 2 "[Append 7, Append 7, Append 7]" 1 1 1 3] by auto
  with kv_demo show ?thesis
    using block_table_covers_tokens [OF inv, of 7 _ 2] by (auto simp: get_block_table_def)
qed

end
