(* ===== verification/Raft_Node.thy ===== *)
theory Raft_Node
  imports Prelude
begin

text \<open>
  \<open>networking/raft\<close>: one Raft node. Each handler is the critical section the source runs under
  \<open>mu_\<close>, as a function from the node's state to the new state, the messages it sends after
  releasing the lock and the entries it hands to the commit callback. The 64-bit terms and
  indices are natural numbers here (they grow by one per election and per proposal); \<open>Raft_Wire\<close>
  has their encoding. An unchecked vector access outside the log is the error \<open>OutOfRange\<close>.
  \<open>dl\<close> is the value \<open>Clock::now() + randomElectionTimeoutMs()\<close> that a handler may store.
\<close>

section \<open>State\<close>

datatype raft_state = FOLLOWER | CANDIDATE | LEADER

record log_entry =
  le_term :: nat
  le_index :: nat
  le_command :: string

record peer_rpc_state =
  ps_nextIndex :: nat
  ps_matchIndex :: nat

record raft_node =
  rn_selfId :: nat
  rn_peers :: "nat list"
  rn_state :: raft_state
  rn_currentTerm :: nat
  rn_votedFor :: "nat option"
  rn_leaderId :: "nat option"
  rn_log :: "log_entry list"
  rn_commitIndex :: nat
  rn_lastApplied :: nat
  rn_peerState :: "peer_rpc_state list"
  rn_votesGranted :: int
  rn_electionDeadline :: nat

datatype raft_error = OutOfRange

datatype raft_msg =
    RequestVote nat nat nat nat
  | RequestVoteResp nat bool
  | AppendEntries nat nat nat nat nat "log_entry list"
  | AppendEntriesResp nat bool nat

text \<open>The constructor: every other rank is a peer, and the log holds the sentinel at index 0.\<close>

definition raft_new :: "nat \<Rightarrow> nat \<Rightarrow> nat \<Rightarrow> raft_node" where
  "raft_new rank world dl =
     \<lparr>rn_selfId = rank, rn_peers = filter (\<lambda>p. p \<noteq> rank) [0..<world], rn_state = FOLLOWER,
      rn_currentTerm = 0, rn_votedFor = None, rn_leaderId = None,
      rn_log = [\<lparr>le_term = 0, le_index = 0, le_command = []\<rparr>], rn_commitIndex = 0, rn_lastApplied = 0,
      rn_peerState = replicate world \<lparr>ps_nextIndex = 1, ps_matchIndex = 0\<rparr>, rn_votesGranted = 0,
      rn_electionDeadline = dl\<rparr>"

definition last_index :: "raft_node \<Rightarrow> nat" where
  "last_index s = le_index (last (rn_log s))"

definition last_term :: "raft_node \<Rightarrow> nat" where
  "last_term s = le_term (last (rn_log s))"

section \<open>Role transitions\<close>

definition becomeFollower :: "nat \<Rightarrow> nat \<Rightarrow> raft_node \<Rightarrow> raft_node" where
  "becomeFollower newTerm dl s =
     s\<lparr>rn_state := FOLLOWER, rn_currentTerm := newTerm, rn_votedFor := None, rn_electionDeadline := dl\<rparr>"

definition becomeCandidate :: "nat \<Rightarrow> raft_node \<Rightarrow> raft_node" where
  "becomeCandidate dl s =
     s\<lparr>rn_state := CANDIDATE, rn_currentTerm := rn_currentTerm s + 1, rn_votedFor := Some (rn_selfId s),
       rn_votesGranted := 1, rn_leaderId := None, rn_electionDeadline := dl\<rparr>"

definition becomeLeader :: "raft_node \<Rightarrow> raft_node" where
  "becomeLeader s =
     s\<lparr>rn_state := LEADER, rn_leaderId := Some (rn_selfId s),
       rn_peerState := map (\<lambda>ps. ps\<lparr>ps_nextIndex := last_index s + 1, ps_matchIndex := 0\<rparr>) (rn_peerState s)\<rparr>"

section \<open>Elections\<close>

definition startElection :: "nat \<Rightarrow> raft_node \<Rightarrow> raft_node \<times> (nat \<times> raft_msg) list" where
  "startElection dl s =
     (let s1 = becomeCandidate dl s
      in if rn_peers s1 = [] then (becomeLeader s1, [])
         else (s1, map (\<lambda>peer. (peer, RequestVote (rn_currentTerm s1) (rn_selfId s1) (last_index s1) (last_term s1)))
                     (rn_peers s1)))"

definition handleRequestVote ::
  "nat \<Rightarrow> nat \<Rightarrow> nat \<Rightarrow> nat \<Rightarrow> nat \<Rightarrow> nat \<Rightarrow> raft_node \<Rightarrow> raft_node \<times> (nat \<times> raft_msg) list" where
  "handleRequestVote fromPeer term candidateId lastLogIndex lastLogTerm dl s =
     (let s1 = (if term > rn_currentTerm s then becomeFollower term dl s else s);
          logOk = (lastLogTerm > last_term s1 \<or> lastLogTerm = last_term s1 \<and> lastLogIndex \<ge> last_index s1);
          voteGranted = (term = rn_currentTerm s1 \<and>
             (rn_votedFor s1 = None \<or> rn_votedFor s1 = Some candidateId) \<and> logOk);
          s2 = (if voteGranted then s1\<lparr>rn_votedFor := Some candidateId, rn_electionDeadline := dl\<rparr> else s1)
      in (s2, [(fromPeer, RequestVoteResp (rn_currentTerm s2) voteGranted)]))"

definition handleRequestVoteResponse :: "nat \<Rightarrow> nat \<Rightarrow> bool \<Rightarrow> nat \<Rightarrow> raft_node \<Rightarrow> raft_node" where
  "handleRequestVoteResponse fromPeer term voteGranted dl s =
     (if term > rn_currentTerm s then becomeFollower term dl s
      else if rn_state s \<noteq> CANDIDATE \<or> term \<noteq> rn_currentTerm s \<or> \<not> voteGranted then s
      else (let s1 = s\<lparr>rn_votesGranted := rn_votesGranted s + 1\<rparr>
            in if rn_votesGranted s1 * 2 > int (length (rn_peers s1)) + 1 then becomeLeader s1 else s1))"

section \<open>Log replication\<close>

text \<open>A \<open>nextIndex\<close> of zero would wrap \<open>prevLogIndex\<close> to the largest word, which is no position of the log.\<close>

definition sendAppendEntriesTo :: "nat \<Rightarrow> raft_node \<Rightarrow> raft_error + (nat \<times> raft_msg) list" where
  "sendAppendEntriesTo peer s =
     (if rn_state s \<noteq> LEADER then Inr []
      else (let nextIndex = ps_nextIndex (rn_peerState s ! peer); prevLogIndex = nextIndex - 1
            in if nextIndex = 0 \<or> length (rn_log s) \<le> prevLogIndex \<or> nextIndex \<le> last_index s \<and> length (rn_log s) \<le> last_index s
               then Inl OutOfRange
               else Inr [(peer, AppendEntries (rn_currentTerm s) (rn_selfId s) prevLogIndex
                       (le_term (rn_log s ! prevLogIndex)) (rn_commitIndex s)
                       (map (\<lambda>i. rn_log s ! i) [nextIndex..<Suc (last_index s)]))]))"

text \<open>The loop over the entries of an AppendEntries message: \<open>idx\<close> is the position of \<open>e\<close>.\<close>

fun append_loop :: "nat \<Rightarrow> log_entry list \<Rightarrow> log_entry list \<Rightarrow> log_entry list" where
  "append_loop idx [] log = log"
| "append_loop idx (e # es) log =
     (if idx < length log then
        (if le_term (log ! idx) \<noteq> le_term e then append_loop (idx + 1) es (take idx log @ [e])
         else append_loop (idx + 1) es log)
      else append_loop (idx + 1) es (log @ [e]))"

text \<open>The loop \<open>while (lastApplied_ < commitIndex_)\<close>, collecting what the callback receives.\<close>

function drain_committed :: "raft_node \<Rightarrow> raft_error + raft_node \<times> log_entry list" where
  "drain_committed s =
     (if rn_lastApplied s < rn_commitIndex s then
        (if Suc (rn_lastApplied s) < length (rn_log s) then
           (case drain_committed (s\<lparr>rn_lastApplied := Suc (rn_lastApplied s)\<rparr>) of
              Inl e \<Rightarrow> Inl e
            | Inr (s', es) \<Rightarrow> Inr (s', rn_log s ! Suc (rn_lastApplied s) # es))
         else Inl OutOfRange)
      else Inr (s, []))"
  by pat_completeness auto
termination
  by (relation "measure (\<lambda>s. rn_commitIndex s - rn_lastApplied s)") auto

declare drain_committed.simps [simp del]

definition handleAppendEntries ::
  "nat \<Rightarrow> nat \<Rightarrow> nat \<Rightarrow> nat \<Rightarrow> nat \<Rightarrow> log_entry list \<Rightarrow> nat \<Rightarrow> nat \<Rightarrow> raft_node \<Rightarrow>
     raft_error + raft_node \<times> (nat \<times> raft_msg) list \<times> log_entry list" where
  "handleAppendEntries fromPeer term leaderIdIncoming prevLogIndex prevLogTerm entries leaderCommit dl s =
     (if term < rn_currentTerm s then
        Inr (s, [(fromPeer, AppendEntriesResp (rn_currentTerm s) False 0)], [])
      else
        (let s1 = (if term > rn_currentTerm s \<or> rn_state s \<noteq> FOLLOWER then becomeFollower term dl s else s);
             s2 = s1\<lparr>rn_leaderId := Some leaderIdIncoming, rn_electionDeadline := dl\<rparr>;
             success = (prevLogIndex < length (rn_log s2) \<and> le_term (rn_log s2 ! prevLogIndex) = prevLogTerm);
             s3 = (if success then s2\<lparr>rn_log := append_loop (prevLogIndex + 1) entries (rn_log s2)\<rparr> else s2);
             s4 = (if success \<and> leaderCommit > rn_commitIndex s3
                   then s3\<lparr>rn_commitIndex := min leaderCommit (last_index s3)\<rparr> else s3);
             matchIndex = (if success then prevLogIndex + length entries else 0)
         in (case drain_committed s4 of
               Inl e \<Rightarrow> Inl e
             | Inr (s5, newlyCommitted) \<Rightarrow>
                 Inr (s5, [(fromPeer, AppendEntriesResp (rn_currentTerm s4) success matchIndex)], newlyCommitted))))"

definition replica_count :: "raft_node \<Rightarrow> nat \<Rightarrow> int" where
  "replica_count s n = 1 + int (length (filter (\<lambda>ps. ps_matchIndex ps \<ge> n) (rn_peerState s)))"

text \<open>The scan of \<open>advanceCommitIndex\<close>, from the last index down to the commit index.\<close>

fun commit_scan :: "nat \<Rightarrow> raft_node \<Rightarrow> raft_error + raft_node" where
  "commit_scan 0 s = Inr s"
| "commit_scan (Suc n) s =
     (if Suc n > rn_commitIndex s then
        (if length (rn_log s) \<le> Suc n then Inl OutOfRange
         else if le_term (rn_log s ! Suc n) \<noteq> rn_currentTerm s then commit_scan n s
         else if replica_count s (Suc n) * 2 > int (length (rn_peers s)) + 1
           then Inr (s\<lparr>rn_commitIndex := Suc n\<rparr>)
         else commit_scan n s)
      else Inr s)"

definition advanceCommitIndex :: "raft_node \<Rightarrow> raft_error + raft_node" where
  "advanceCommitIndex s = commit_scan (last_index s) s"

definition handleAppendEntriesResponse ::
  "nat \<Rightarrow> nat \<Rightarrow> bool \<Rightarrow> nat \<Rightarrow> nat \<Rightarrow> raft_node \<Rightarrow> raft_error + raft_node \<times> log_entry list" where
  "handleAppendEntriesResponse fromPeer term success matchIndex dl s =
     (if term > rn_currentTerm s then Inr (becomeFollower term dl s, [])
      else if rn_state s \<noteq> LEADER \<or> term \<noteq> rn_currentTerm s then Inr (s, [])
      else
        (let ps = rn_peerState s ! fromPeer
         in if success then
              (let s1 = s\<lparr>rn_peerState := (rn_peerState s)[fromPeer :=
                     ps\<lparr>ps_matchIndex := max (ps_matchIndex ps) matchIndex, ps_nextIndex := matchIndex + 1\<rparr>]\<rparr>
               in (case advanceCommitIndex s1 of Inl e \<Rightarrow> Inl e | Inr s2 \<Rightarrow> drain_committed s2))
            else if ps_nextIndex ps > 1 then
              Inr (s\<lparr>rn_peerState := (rn_peerState s)[fromPeer := ps\<lparr>ps_nextIndex := ps_nextIndex ps - 1\<rparr>]\<rparr>, [])
            else Inr (s, [])))"

text \<open>\<open>propose\<close> up to the release of the lock; the replication it triggers is \<open>sendAppendEntriesTo\<close>
  for every peer, and the wait that follows only reads \<open>commitIndex_\<close>.\<close>

definition propose :: "string \<Rightarrow> raft_node \<Rightarrow> bool \<times> raft_node" where
  "propose command s =
     (if rn_state s \<noteq> LEADER then (False, s)
      else (True, s\<lparr>rn_log := rn_log s @ [\<lparr>le_term = rn_currentTerm s, le_index = last_index s + 1,
                                           le_command = command\<rparr>]\<rparr>))"

text \<open>The dispatch of \<open>receiverLoop\<close> on a decoded frame.\<close>

definition raft_receive ::
  "nat \<Rightarrow> raft_msg \<Rightarrow> nat \<Rightarrow> raft_node \<Rightarrow> raft_error + raft_node \<times> (nat \<times> raft_msg) list \<times> log_entry list" where
  "raft_receive peer m dl s =
     (case m of
        RequestVote term candidateId lastLogIndex lastLogTerm \<Rightarrow>
          (case handleRequestVote peer term candidateId lastLogIndex lastLogTerm dl s of
             (s', out) \<Rightarrow> Inr (s', out, []))
      | RequestVoteResp term voteGranted \<Rightarrow>
          Inr (handleRequestVoteResponse peer term voteGranted dl s, [], [])
      | AppendEntries term leaderIdIncoming prevLogIndex prevLogTerm leaderCommit entries \<Rightarrow>
          handleAppendEntries peer term leaderIdIncoming prevLogIndex prevLogTerm entries leaderCommit dl s
      | AppendEntriesResp term success matchIndex \<Rightarrow>
          (case handleAppendEntriesResponse peer term success matchIndex dl s of
             Inl e \<Rightarrow> Inl e
           | Inr (s', es) \<Rightarrow> Inr (s', [], es)))"

section \<open>Well-formed logs\<close>

text \<open>Position \<open>i\<close> of the vector holds the entry with index \<open>i\<close>; the sentinel is never dropped.\<close>

definition log_ok :: "log_entry list \<Rightarrow> bool" where
  "log_ok log \<longleftrightarrow> log \<noteq> [] \<and> (\<forall>i < length log. le_index (log ! i) = i)"

definition entries_from :: "nat \<Rightarrow> log_entry list \<Rightarrow> bool" where
  "entries_from idx es \<longleftrightarrow> (\<forall>i < length es. le_index (es ! i) = idx + i)"

text \<open>What holds between two critical sections.\<close>

definition node_ok :: "raft_node \<Rightarrow> bool" where
  "node_ok s \<longleftrightarrow> log_ok (rn_log s) \<and> rn_commitIndex s \<le> rn_lastApplied s"

lemma log_ok_last: "log_ok log \<Longrightarrow> Suc (le_index (last log)) = length log"
  by (cases log rule: rev_cases) (auto simp: log_ok_def nth_append)

lemma log_ok_last_index: "log_ok (rn_log s) \<Longrightarrow> Suc (last_index s) = length (rn_log s)"
  by (simp add: last_index_def log_ok_last)

lemma log_ok_snoc: "log_ok log \<Longrightarrow> le_index e = length log \<Longrightarrow> log_ok (log @ [e])"
  by (auto simp: log_ok_def nth_append less_Suc_eq)

lemma log_ok_take: "log_ok log \<Longrightarrow> 0 < k \<Longrightarrow> log_ok (take k log)"
  by (auto simp: log_ok_def)

lemma entries_from_Cons: "entries_from idx (e # es) \<longleftrightarrow> le_index e = idx \<and> entries_from (Suc idx) es"
  by (auto simp: entries_from_def nth_Cons' less_Suc_eq_0_disj)

lemma log_ok_append:
  "log_ok log \<Longrightarrow> entries_from (length log) es \<Longrightarrow> log_ok (log @ es)"
proof (induction es arbitrary: log)
  case Nil
  then show ?case by simp
next
  case (Cons e es)
  then have "log_ok (log @ [e])" and "entries_from (length (log @ [e])) es"
    by (auto simp: entries_from_Cons log_ok_snoc)
  from Cons.IH [OF this] show ?case by simp
qed

section \<open>The append loop\<close>

text \<open>
  \<open>match_len idx es log\<close> counts the leading entries of \<open>es\<close> that the log already has from \<open>idx\<close> on,
  compared by term as the source compares them.
\<close>

fun match_len :: "nat \<Rightarrow> log_entry list \<Rightarrow> log_entry list \<Rightarrow> nat" where
  "match_len idx [] log = 0"
| "match_len idx (e # es) log =
     (if idx < length log \<and> le_term (log ! idx) = le_term e then Suc (match_len (Suc idx) es log) else 0)"

lemma append_loop_beyond: "length log \<le> idx \<Longrightarrow> append_loop idx es log = log @ es"
  by (induction es arbitrary: idx log) auto

lemma append_loop_closed:
  assumes "idx \<le> length log"
  shows "append_loop idx es log =
    (if match_len idx es log = length es then log
     else take (idx + match_len idx es log) log @ drop (match_len idx es log) es)"
  using assms
proof (induction es arbitrary: idx)
  case Nil
  then show ?case by simp
next
  case (Cons e es)
  show ?case
  proof (cases "idx < length log \<and> le_term (log ! idx) = le_term e")
    case True
    then show ?thesis using Cons.IH [of "Suc idx"] by simp
  next
    case False
    then show ?thesis using Cons.prems append_loop_beyond [of "take idx log @ [e]" "Suc idx" es]
        append_loop_beyond [of "log @ [e]" "Suc idx" es] by (auto simp: not_less)
  qed
qed

lemma match_len_le: "match_len idx es log \<le> length es"
  by (induction es arbitrary: idx) auto

lemma match_len_bound: "0 < match_len idx es log \<Longrightarrow> idx + match_len idx es log \<le> length log"
proof (induction es arbitrary: idx)
  case Nil
  then show ?case by simp
next
  case (Cons e es)
  then show ?case
    using Cons.IH [of "Suc idx"] by (cases "match_len (Suc idx) es log") (auto split: if_splits)
qed

lemma match_len_terms:
  "i < match_len idx es log \<Longrightarrow> le_term (log ! (idx + i)) = le_term (es ! i)"
proof (induction es arbitrary: idx i)
  case Nil
  then show ?case by simp
next
  case (Cons e es)
  then show ?case using Cons.IH [of "i - 1" "Suc idx"] by (cases i) (auto split: if_splits)
qed

lemma entries_from_drop: "entries_from idx es \<Longrightarrow> entries_from (idx + k) (drop k es)"
  by (auto simp: entries_from_def add.assoc)

lemma append_loop_log_ok:
  assumes "log_ok log" and "0 < idx" and "idx \<le> length log" and "entries_from idx es"
  shows "log_ok (append_loop idx es log)"
proof (cases "match_len idx es log = length es")
  case True
  then show ?thesis using assms by (simp add: append_loop_closed)
next
  case False
  let ?k = "match_len idx es log"
  have k: "idx + ?k \<le> length log"
    using match_len_bound [of idx es log] assms(3) by (cases "?k = 0") auto
  then have "entries_from (length (take (idx + ?k) log)) (drop ?k es)"
    using entries_from_drop [OF assms(4)] by simp
  then show ?thesis
    using False assms by (simp add: append_loop_closed log_ok_append log_ok_take)
qed

section \<open>Applying and committing\<close>

lemma drain_committed_spec:
  assumes "rn_commitIndex s \<le> rn_lastApplied s \<or> rn_commitIndex s < length (rn_log s)"
  shows "drain_committed s =
    Inr (s\<lparr>rn_lastApplied := max (rn_lastApplied s) (rn_commitIndex s)\<rparr>,
         map (\<lambda>i. rn_log s ! i) [Suc (rn_lastApplied s)..<Suc (rn_commitIndex s)])"
  using assms
proof (induction s rule: drain_committed.induct)
  case (1 s)
  show ?case
  proof (cases "rn_lastApplied s < rn_commitIndex s")
    case True
    then have len: "Suc (rn_lastApplied s) < length (rn_log s)" using "1.prems" by auto
    have "[Suc (rn_lastApplied s)..<Suc (rn_commitIndex s)] =
        Suc (rn_lastApplied s) # [Suc (Suc (rn_lastApplied s))..<Suc (rn_commitIndex s)]"
      using True by (simp add: upt_conv_Cons)
    then show ?thesis
      using "1.IH" [OF True len] True len "1.prems" by (simp add: drain_committed.simps [of s] max_def)
  next
    case False
    then show ?thesis by (simp add: drain_committed.simps [of s] max_def)
  qed
qed

definition committable :: "raft_node \<Rightarrow> nat \<Rightarrow> bool" where
  "committable s n \<longleftrightarrow> le_term (rn_log s ! n) = rn_currentTerm s \<and>
     replica_count s n * 2 > int (length (rn_peers s)) + 1"

lemma commit_scan_spec:
  assumes "n < length (rn_log s)"
  shows "\<exists>m. commit_scan n s = Inr (s\<lparr>rn_commitIndex := m\<rparr>) \<and> rn_commitIndex s \<le> m \<and>
    (m = rn_commitIndex s \<or> m \<le> n \<and> committable s m) \<and>
    (\<forall>i. m < i \<and> i \<le> n \<longrightarrow> \<not> committable s i)"
  using assms
proof (induction n)
  case 0
  then show ?case by (intro exI [of _ "rn_commitIndex s"]) auto
next
  case (Suc n)
  show ?case
  proof (cases "Suc n > rn_commitIndex s")
    case True
    show ?thesis
    proof (cases "committable s (Suc n)")
      case com: True
      then have "commit_scan (Suc n) s = Inr (s\<lparr>rn_commitIndex := Suc n\<rparr>)"
        using True Suc.prems by (simp add: committable_def)
      then show ?thesis using True com by (intro exI [of _ "Suc n"]) auto
    next
      case False
      then have "commit_scan (Suc n) s = commit_scan n s"
        using True Suc.prems by (auto simp: committable_def)
      moreover obtain m where "commit_scan n s = Inr (s\<lparr>rn_commitIndex := m\<rparr>)" "rn_commitIndex s \<le> m"
          "m = rn_commitIndex s \<or> m \<le> n \<and> committable s m" "\<forall>i. m < i \<and> i \<le> n \<longrightarrow> \<not> committable s i"
        using Suc by auto
      ultimately show ?thesis using False by (intro exI [of _ m]) (auto simp: le_Suc_eq)
    qed
  next
    case False
    then show ?thesis by (intro exI [of _ "rn_commitIndex s"]) auto
  qed
qed

lemma advanceCommitIndex_spec:
  assumes "log_ok (rn_log s)"
  obtains m where "advanceCommitIndex s = Inr (s\<lparr>rn_commitIndex := m\<rparr>)" and "rn_commitIndex s \<le> m"
    and "m = rn_commitIndex s \<or> m < length (rn_log s) \<and> committable s m"
    and "\<And>i. m < i \<Longrightarrow> i < length (rn_log s) \<Longrightarrow> \<not> committable s i"
proof -
  have len: "Suc (last_index s) = length (rn_log s)" using log_ok_last_index [OF assms] .
  then obtain m where "commit_scan (last_index s) s = Inr (s\<lparr>rn_commitIndex := m\<rparr>)" "rn_commitIndex s \<le> m"
      "m = rn_commitIndex s \<or> m \<le> last_index s \<and> committable s m"
      "\<forall>i. m < i \<and> i \<le> last_index s \<longrightarrow> \<not> committable s i"
    using commit_scan_spec [of "last_index s" s] by auto
  with len that [of m] show thesis by (auto simp: advanceCommitIndex_def)
qed

section \<open>Every handler keeps the node well formed\<close>

definition msg_ok :: "raft_msg \<Rightarrow> bool" where
  "msg_ok m \<longleftrightarrow> (case m of
     AppendEntries term l prevLogIndex pt lc entries \<Rightarrow> entries_from (prevLogIndex + 1) entries | _ \<Rightarrow> True)"

text \<open>The entries handed to the callback are the next ones of the log, each index once.\<close>

definition applied_next :: "raft_node \<Rightarrow> raft_node \<Rightarrow> log_entry list \<Rightarrow> bool" where
  "applied_next s s' es \<longleftrightarrow> rn_lastApplied s \<le> rn_lastApplied s' \<and>
     es = map (\<lambda>i. rn_log s' ! i) [Suc (rn_lastApplied s)..<Suc (rn_lastApplied s')]"

lemma applied_next_refl: "rn_lastApplied s' = rn_lastApplied s \<Longrightarrow> applied_next s s' []"
  by (simp add: applied_next_def)

lemma becomeFollower_ok: "node_ok s \<Longrightarrow> node_ok (becomeFollower t dl s)"
  by (simp add: node_ok_def becomeFollower_def)

lemma drain_committed_ok:
  assumes "log_ok (rn_log s)"
    and "rn_commitIndex s \<le> rn_lastApplied s \<or> rn_commitIndex s < length (rn_log s)"
  obtains s' es where "drain_committed s = Inr (s', es)" and "node_ok s'" and "applied_next s s' es"
    and "s' = s\<lparr>rn_lastApplied := max (rn_lastApplied s) (rn_commitIndex s)\<rparr>"
proof -
  have "[Suc (rn_lastApplied s)..<Suc (rn_commitIndex s)] =
      [Suc (rn_lastApplied s)..<Suc (max (rn_lastApplied s) (rn_commitIndex s))]"
    by (auto simp: max_def)
  then show thesis
    using that drain_committed_spec [OF assms(2)] assms(1) by (simp add: node_ok_def applied_next_def)
qed

lemma applied_next_from:
  "applied_next s1 s' es \<Longrightarrow> rn_lastApplied s1 = rn_lastApplied s \<Longrightarrow> applied_next s s' es"
  by (simp add: applied_next_def)

lemma handleAppendEntries_ok:
  assumes "node_ok s" and "entries_from (prevLogIndex + 1) entries"
  shows "\<exists>s' out es. handleAppendEntries p term l prevLogIndex prevLogTerm entries leaderCommit dl s =
    Inr (s', out, es) \<and> node_ok s' \<and> applied_next s s' es"
proof (cases "term < rn_currentTerm s")
  case True
  then show ?thesis using assms by (simp add: handleAppendEntries_def applied_next_refl)
next
  case False
  define s2 where "s2 = (if term > rn_currentTerm s \<or> rn_state s \<noteq> FOLLOWER then becomeFollower term dl s else s)
    \<lparr>rn_leaderId := Some l, rn_electionDeadline := dl\<rparr>"
  define success where "success = (prevLogIndex < length (rn_log s2) \<and> le_term (rn_log s2 ! prevLogIndex) = prevLogTerm)"
  define s3 where "s3 = (if success then s2\<lparr>rn_log := append_loop (prevLogIndex + 1) entries (rn_log s2)\<rparr> else s2)"
  define s4 where "s4 = (if success \<and> leaderCommit > rn_commitIndex s3
    then s3\<lparr>rn_commitIndex := min leaderCommit (last_index s3)\<rparr> else s3)"
  have s2: "rn_log s2 = rn_log s" "rn_lastApplied s2 = rn_lastApplied s" "rn_commitIndex s2 = rn_commitIndex s"
    by (simp_all add: s2_def becomeFollower_def)
  from assms(1) have log: "log_ok (rn_log s)" and la: "rn_commitIndex s \<le> rn_lastApplied s"
    by (simp_all add: node_ok_def)
  have log3: "log_ok (rn_log s3)"
    using append_loop_log_ok [OF log, of "prevLogIndex + 1" entries] assms(2) log s2
    by (auto simp: s3_def success_def Suc_le_eq)
  have "last_index s3 < length (rn_log s3)" using log_ok_last_index [OF log3] by simp
  then have "rn_commitIndex s4 \<le> rn_lastApplied s4 \<or> rn_commitIndex s4 < length (rn_log s4)"
    using s2 la by (auto simp: s4_def s3_def)
  moreover have "log_ok (rn_log s4)" using log3 by (simp add: s4_def)
  ultimately obtain s5 es where d: "drain_committed s4 = Inr (s5, es)" "node_ok s5" "applied_next s4 s5 es"
    using drain_committed_ok by blast
  have "rn_lastApplied s4 = rn_lastApplied s" using s2 by (simp add: s4_def s3_def)
  with d(3) have "applied_next s s5 es" by (rule applied_next_from)
  moreover have "handleAppendEntries p term l prevLogIndex prevLogTerm entries leaderCommit dl s =
      Inr (s5, [(p, AppendEntriesResp (rn_currentTerm s4) success
        (if success then prevLogIndex + length entries else 0))], es)"
    unfolding handleAppendEntries_def Let_def s2_def [symmetric] success_def [symmetric]
      s3_def [symmetric] s4_def [symmetric] using False d(1) by simp
  ultimately show ?thesis using d(2) by blast
qed

lemma handleAppendEntriesResponse_ok:
  assumes "node_ok s"
  shows "\<exists>s' es. handleAppendEntriesResponse p term success matchIndex dl s = Inr (s', es) \<and>
    node_ok s' \<and> applied_next s s' es"
proof (cases "term \<le> rn_currentTerm s \<and> rn_state s = LEADER \<and> term = rn_currentTerm s \<and> success")
  case False
  then show ?thesis
    using assms becomeFollower_ok [OF assms]
    by (auto simp: handleAppendEntriesResponse_def Let_def node_ok_def becomeFollower_def intro: applied_next_refl)
next
  case True
  let ?ps = "rn_peerState s ! p"
  define s1 where "s1 = s\<lparr>rn_peerState := (rn_peerState s)[p :=
    ?ps\<lparr>ps_matchIndex := max (ps_matchIndex ?ps) matchIndex, ps_nextIndex := matchIndex + 1\<rparr>]\<rparr>"
  from assms have log: "log_ok (rn_log s1)" and la: "rn_commitIndex s1 \<le> rn_lastApplied s1"
    by (simp_all add: node_ok_def s1_def)
  obtain m where m: "advanceCommitIndex s1 = Inr (s1\<lparr>rn_commitIndex := m\<rparr>)"
      "m = rn_commitIndex s1 \<or> m < length (rn_log s1) \<and> committable s1 m"
    using advanceCommitIndex_spec [OF log] by blast
  let ?s2 = "s1\<lparr>rn_commitIndex := m\<rparr>"
  have "log_ok (rn_log ?s2)" using log by simp
  moreover have "rn_commitIndex ?s2 \<le> rn_lastApplied ?s2 \<or> rn_commitIndex ?s2 < length (rn_log ?s2)"
    using m(2) la by auto
  ultimately obtain s5 es where d: "drain_committed ?s2 = Inr (s5, es)" "node_ok s5" "applied_next ?s2 s5 es"
    using drain_committed_ok by blast
  have "rn_lastApplied ?s2 = rn_lastApplied s" by (simp add: s1_def)
  with d(3) have "applied_next s s5 es" by (rule applied_next_from)
  moreover have "handleAppendEntriesResponse p term success matchIndex dl s = Inr (s5, es)"
    unfolding handleAppendEntriesResponse_def Let_def s1_def [symmetric] using True m(1) d(1) by simp
  ultimately show ?thesis using d(2) by blast
qed

lemma raft_receive_ok:
  assumes "node_ok s" and "msg_ok m"
  shows "\<exists>s' out es. raft_receive p m dl s = Inr (s', out, es) \<and> node_ok s' \<and> applied_next s s' es"
proof (cases m)
  case (RequestVote t c li lt)
  then show ?thesis using assms(1)
    by (auto simp: raft_receive_def handleRequestVote_def Let_def node_ok_def becomeFollower_def
        intro: applied_next_refl)
next
  case (RequestVoteResp t b)
  then show ?thesis using assms(1)
    by (auto simp: raft_receive_def handleRequestVoteResponse_def Let_def node_ok_def becomeFollower_def
        becomeLeader_def intro: applied_next_refl)
next
  case (AppendEntries t l pi pt lc es)
  then show ?thesis
    using handleAppendEntries_ok [OF assms(1), of pi es p t l pt lc dl] assms(2)
    by (simp add: raft_receive_def msg_ok_def)
next
  case (AppendEntriesResp t b mi)
  then show ?thesis
    using handleAppendEntriesResponse_ok [OF assms(1), of p t b mi dl] by (auto simp: raft_receive_def)
qed

section \<open>What the handlers leave alone\<close>

text \<open>The part of a node that elections depend on.\<close>

record role =
  ro_state :: raft_state
  ro_term :: nat
  ro_voted :: "nat option"
  ro_count :: int

definition role_of :: "raft_node \<Rightarrow> role" where
  "role_of s = \<lparr>ro_state = rn_state s, ro_term = rn_currentTerm s, ro_voted = rn_votedFor s,
     ro_count = rn_votesGranted s\<rparr>"

lemma role_of_simps [simp]:
  "ro_state (role_of s) = rn_state s" "ro_term (role_of s) = rn_currentTerm s"
  "ro_voted (role_of s) = rn_votedFor s" "ro_count (role_of s) = rn_votesGranted s"
  by (simp_all add: role_of_def)

lemma drain_committed_frame:
  "drain_committed s = Inr (s', es) \<Longrightarrow> s' = s\<lparr>rn_lastApplied := rn_lastApplied s'\<rparr>"
proof (induction s arbitrary: es rule: drain_committed.induct)
  case (1 s)
  show ?case
  proof (cases "rn_lastApplied s < rn_commitIndex s \<and> Suc (rn_lastApplied s) < length (rn_log s)")
    case True
    then obtain es' where "drain_committed (s\<lparr>rn_lastApplied := Suc (rn_lastApplied s)\<rparr>) = Inr (s', es')"
      using "1.prems" drain_committed.simps [of s] by (auto split: sum.splits)
    from "1.IH" [OF _ _ this] True show ?thesis by auto
  next
    case False
    then show ?thesis using "1.prems" drain_committed.simps [of s] by (auto split: if_splits)
  qed
qed

lemma commit_scan_frame: "commit_scan k s = Inr s' \<Longrightarrow> s' = s\<lparr>rn_commitIndex := rn_commitIndex s'\<rparr>"
  by (induction k) (auto split: if_splits)

lemma append_resp_frame:
  assumes "handleAppendEntriesResponse src T ok mi dl s = Inr (s', es)"
  shows "s' = (if T > rn_currentTerm s then becomeFollower T dl s
    else s\<lparr>rn_peerState := rn_peerState s', rn_commitIndex := rn_commitIndex s', rn_lastApplied := rn_lastApplied s'\<rparr>)"
proof (cases "rn_state s = LEADER \<and> T = rn_currentTerm s \<and> ok")
  case True
  let ?s1 = "s\<lparr>rn_peerState := (rn_peerState s)[src := (rn_peerState s ! src)
    \<lparr>ps_matchIndex := max (ps_matchIndex (rn_peerState s ! src)) mi, ps_nextIndex := mi + 1\<rparr>]\<rparr>"
  obtain s2 where s2: "advanceCommitIndex ?s1 = Inr s2" "drain_committed s2 = Inr (s', es)"
    using True assms by (auto simp: handleAppendEntriesResponse_def Let_def split: sum.splits)
  have "s2 = ?s1\<lparr>rn_commitIndex := rn_commitIndex s2\<rparr>"
    using s2(1) commit_scan_frame unfolding advanceCommitIndex_def by blast
  moreover have "s' = s2\<lparr>rn_lastApplied := rn_lastApplied s'\<rparr>" using drain_committed_frame [OF s2(2)] .
  ultimately obtain ci la where "s' = ?s1\<lparr>rn_commitIndex := ci, rn_lastApplied := la\<rparr>" by metis
  then show ?thesis using True by simp
next
  case False
  then show ?thesis using assms by (auto simp: handleAppendEntriesResponse_def Let_def split: if_splits)
qed

lemma append_frame:
  assumes "handleAppendEntries src T l pi pt es lc dl s = Inr (s', out, ap)" and "\<not> T < rn_currentTerm s"
  defines "success \<equiv> pi < length (rn_log s) \<and> le_term (rn_log s ! pi) = pt"
  shows "role_of s' = (role_of s)\<lparr>ro_state := FOLLOWER, ro_term := T,
      ro_voted := if T > rn_currentTerm s \<or> rn_state s \<noteq> FOLLOWER then None else rn_votedFor s\<rparr>"
    and "rn_selfId s' = rn_selfId s" and "rn_peers s' = rn_peers s"
    and "rn_log s' = (if success then append_loop (pi + 1) es (rn_log s) else rn_log s)"
    and "rn_peerState s' = rn_peerState s"
    and "out = [(src, AppendEntriesResp T success (if success then pi + length es else 0))]"
proof -
  define s2 where "s2 = (if T > rn_currentTerm s \<or> rn_state s \<noteq> FOLLOWER then becomeFollower T dl s else s)
    \<lparr>rn_leaderId := Some l, rn_electionDeadline := dl\<rparr>"
  define s3 where "s3 = (if success then s2\<lparr>rn_log := append_loop (pi + 1) es (rn_log s2)\<rparr> else s2)"
  define s4 where "s4 = (if success \<and> lc > rn_commitIndex s3
    then s3\<lparr>rn_commitIndex := min lc (last_index s3)\<rparr> else s3)"
  have s2: "rn_log s2 = rn_log s" "rn_peerState s2 = rn_peerState s" "rn_selfId s2 = rn_selfId s" "rn_peers s2 = rn_peers s"
    "role_of s2 = (role_of s)\<lparr>ro_state := FOLLOWER, ro_term := T,
      ro_voted := if T > rn_currentTerm s \<or> rn_state s \<noteq> FOLLOWER then None else rn_votedFor s\<rparr>"
    using assms(2) by (auto simp: s2_def becomeFollower_def role_of_def)
  have suc: "success = (pi < length (rn_log s2) \<and> le_term (rn_log s2 ! pi) = pt)"
    unfolding s2 success_def ..
  have s4: "rn_selfId s4 = rn_selfId s" "rn_peers s4 = rn_peers s" "rn_peerState s4 = rn_peerState s"
    "rn_log s4 = (if success then append_loop (pi + 1) es (rn_log s) else rn_log s)" "role_of s4 = role_of s2"
    using s2 by (simp_all add: s4_def s3_def role_of_def)
  have T: "rn_currentTerm s4 = T" using s4(5) s2(5) role_of_simps(2) [of s4] by simp
  have "(case drain_committed s4 of Inl e \<Rightarrow> Inl e
      | Inr (s5, nc) \<Rightarrow> Inr (s5, [(src, AppendEntriesResp (rn_currentTerm s4) success
          (if success then pi + length es else 0))], nc)) = Inr (s', out, ap)"
    using assms(1,2) unfolding handleAppendEntries_def Let_def s2_def [symmetric] suc [symmetric]
      s3_def [symmetric] s4_def [symmetric] by simp
  then have d: "drain_committed s4 = Inr (s', ap)"
      "out = [(src, AppendEntriesResp T success (if success then pi + length es else 0))]"
    using T by (auto split: sum.splits)
  then obtain la where s': "s' = s4\<lparr>rn_lastApplied := la\<rparr>" using drain_committed_frame by blast
  show "role_of s' = (role_of s)\<lparr>ro_state := FOLLOWER, ro_term := T,
      ro_voted := if T > rn_currentTerm s \<or> rn_state s \<noteq> FOLLOWER then None else rn_votedFor s\<rparr>"
    unfolding s2(5) [symmetric] s4(5) [symmetric] s' by (simp add: role_of_def)
  show "rn_selfId s' = rn_selfId s" "rn_peers s' = rn_peers s" "rn_peerState s' = rn_peerState s"
    "rn_log s' = (if success then append_loop (pi + 1) es (rn_log s) else rn_log s)"
    unfolding s' s4(1-4) [symmetric] by simp_all
  show "out = [(src, AppendEntriesResp T success (if success then pi + length es else 0))]" by (rule d(2))
qed

text \<open>A follower of term 2 with a stale tail, and a leader of term 2 one of whose followers caught up.\<close>

definition sample_entry :: "nat \<Rightarrow> nat \<Rightarrow> log_entry" where
  "sample_entry t i = \<lparr>le_term = t, le_index = i, le_command = []\<rparr>"

definition sample_follower :: raft_node where
  "sample_follower = (raft_new 1 3 0)\<lparr>rn_currentTerm := 2,
     rn_log := [sample_entry 0 0, sample_entry 1 1, sample_entry 1 2, sample_entry 1 3]\<rparr>"

definition sample_leader :: raft_node where
  "sample_leader = (raft_new 0 3 0)\<lparr>rn_state := LEADER, rn_currentTerm := 2,
     rn_log := map (\<lambda>i. sample_entry (min i 2) i) [0..<4],
     rn_peerState := [\<lparr>ps_nextIndex = 1, ps_matchIndex = 0\<rparr>, \<lparr>ps_nextIndex = 3, ps_matchIndex = 2\<rparr>,
       \<lparr>ps_nextIndex = 1, ps_matchIndex = 0\<rparr>]\<rparr>"

section \<open>Properties\<close>

text \<open>How far a message agrees with the log: the first \<open>k\<close> of its entries are there with the same terms, the next one is not.\<close>

definition agrees_for :: "nat \<Rightarrow> log_entry list \<Rightarrow> log_entry list \<Rightarrow> nat \<Rightarrow> bool" where
  "agrees_for idx es log k \<longleftrightarrow> k \<le> length es \<and> (\<forall>i < k. idx + i < length log \<and> le_term (log ! (idx + i)) = le_term (es ! i)) \<and>
     (k < length es \<longrightarrow> idx + k < length log \<longrightarrow> le_term (log ! (idx + k)) \<noteq> le_term (es ! k))"

lemma match_len_agrees: "idx \<le> length log \<Longrightarrow> agrees_for idx es log (match_len idx es log)"
proof (induction es arbitrary: idx)
  case (Cons e es)
  show ?case
  proof (cases "idx < length log \<and> le_term (log ! idx) = le_term e")
    case True
    then have "agrees_for (Suc idx) es log (match_len (Suc idx) es log)" by (intro Cons.IH) simp
    then show ?thesis using True by (auto simp: agrees_for_def nth_Cons' less_Suc_eq_0_disj)
  qed (auto simp: agrees_for_def)
qed (simp add: agrees_for_def)

lemma drain_committed_result:
  "drain_committed s = Inr (s', es) \<Longrightarrow> s' = s\<lparr>rn_lastApplied := max (rn_lastApplied s) (rn_commitIndex s)\<rparr>"
proof (induction s arbitrary: es rule: drain_committed.induct)
  case (1 s)
  show ?case
  proof (cases "rn_lastApplied s < rn_commitIndex s \<and> Suc (rn_lastApplied s) < length (rn_log s)")
    case True
    then obtain es' where "drain_committed (s\<lparr>rn_lastApplied := Suc (rn_lastApplied s)\<rparr>) = Inr (s', es')"
      using "1.prems" drain_committed.simps [of s] by (auto split: sum.splits)
    from "1.IH" [OF _ _ this] True show ?thesis by (auto simp: max_def)
  next
    case False
    then show ?thesis using "1.prems" drain_committed.simps [of s] by (auto simp: max_def split: if_splits)
  qed
qed

text \<open>
  C6. Log reconciliation on AppendEntries. A message of an old term changes nothing and is answered with the current term. Otherwise
  the node becomes a follower of the message's term and its sender, with its vote cleared when it was not already a follower of that
  term, and a new election deadline. If the log has the previous entry, let \<open>k\<close> be the number of leading entries of the message whose
  terms the log already has behind it: if that is all of them the log is unchanged, otherwise the log is cut behind these entries and
  ends in exactly the remaining entries of the message; the commit index rises to the leader's or the last index, and the answer
  reports the covered prefix. If the log does not have the previous entry, log and commit index stay and the answer is false.
  Nothing else of the node changes but \<open>lastApplied_\<close>, which reaches the commit index.
\<close>

theorem append_entries_reconciles:
  assumes "handleAppendEntries src T l pi pt es lc dl s = Inr (s', out, ap)"
  shows "if T < rn_currentTerm s then s' = s \<and> out = [(src, AppendEntriesResp (rn_currentTerm s) False 0)] \<and> ap = []
    else let vote = (if T > rn_currentTerm s \<or> rn_state s \<noteq> FOLLOWER then None else rn_votedFor s);
             f = s\<lparr>rn_state := FOLLOWER, rn_currentTerm := T, rn_votedFor := vote, rn_leaderId := Some l, rn_electionDeadline := dl\<rparr> in
      if pi < length (rn_log s) \<and> le_term (rn_log s ! pi) = pt then
        \<exists>k. agrees_for (Suc pi) es (rn_log s) k \<and>
          (let log = (if k = length es then rn_log s else take (Suc pi + k) (rn_log s) @ drop k es);
               ci = (if lc > rn_commitIndex s then min lc (le_index (last log)) else rn_commitIndex s) in
           s' = f\<lparr>rn_log := log, rn_commitIndex := ci, rn_lastApplied := max (rn_lastApplied s) ci\<rparr>) \<and>
          out = [(src, AppendEntriesResp T True (pi + length es))]
      else s' = f\<lparr>rn_lastApplied := max (rn_lastApplied s) (rn_commitIndex s)\<rparr> \<and> out = [(src, AppendEntriesResp T False 0)]"
proof (cases "T < rn_currentTerm s")
  case True
  then show ?thesis using assms by (auto simp: handleAppendEntries_def)
next
  case False
  define f where "f = s\<lparr>rn_state := FOLLOWER, rn_currentTerm := T,
    rn_votedFor := if T > rn_currentTerm s \<or> rn_state s \<noteq> FOLLOWER then None else rn_votedFor s, rn_leaderId := Some l, rn_electionDeadline := dl\<rparr>"
  have f: "(if T > rn_currentTerm s \<or> rn_state s \<noteq> FOLLOWER then becomeFollower T dl s else s)\<lparr>rn_leaderId := Some l, rn_electionDeadline := dl\<rparr> = f"
    using False by (auto simp: f_def becomeFollower_def)
  have ff: "rn_log f = rn_log s" "rn_commitIndex f = rn_commitIndex s" "rn_lastApplied f = rn_lastApplied s" "rn_currentTerm f = T" by (simp_all add: f_def)
  show ?thesis
  proof (cases "pi < length (rn_log s) \<and> le_term (rn_log s ! pi) = pt")
    case True
    let ?k = "match_len (Suc pi) es (rn_log s)" and ?log = "append_loop (Suc pi) es (rn_log s)"
    let ?ci = "if lc > rn_commitIndex s then min lc (le_index (last ?log)) else rn_commitIndex s"
    have log: "?log = (if ?k = length es then rn_log s else take (Suc pi + ?k) (rn_log s) @ drop ?k es)" using True by (intro append_loop_closed) simp
    have k: "agrees_for (Suc pi) es (rn_log s) ?k" using True by (intro match_len_agrees) simp
    define s4 where "s4 = f\<lparr>rn_log := ?log, rn_commitIndex := ?ci\<rparr>"
    have s4: "s4 = (if lc > rn_commitIndex s then f\<lparr>rn_log := ?log, rn_commitIndex := min lc (le_index (last ?log))\<rparr> else f\<lparr>rn_log := ?log\<rparr>)"
      by (simp add: s4_def f_def)
    have "(case drain_committed s4 of Inl e \<Rightarrow> Inl e | Inr (s5, nc) \<Rightarrow> Inr (s5, [(src, AppendEntriesResp T True (pi + length es))], nc)) = Inr (s', out, ap)"
      using assms unfolding handleAppendEntries_def Let_def f s4
      by (cases "lc > rn_commitIndex s") (simp_all add: ff last_index_def False True cong: sum.case_cong)
    then have d: "drain_committed s4 = Inr (s', ap)" and out: "out = [(src, AppendEntriesResp T True (pi + length es))]" by (auto split: sum.splits)
    have "s' = f\<lparr>rn_log := ?log, rn_commitIndex := ?ci, rn_lastApplied := max (rn_lastApplied s) ?ci\<rparr>"
      unfolding drain_committed_result [OF d] by (simp add: s4_def ff)
    then have "agrees_for (Suc pi) es (rn_log s) ?k \<and> s' = f\<lparr>rn_log := ?log, rn_commitIndex := ?ci, rn_lastApplied := max (rn_lastApplied s) ?ci\<rparr> \<and>
        out = [(src, AppendEntriesResp T True (pi + length es))]" using k out by (intro conjI)
    then show ?thesis unfolding Let_def f_def [symmetric] if_not_P [OF False] if_P [OF True] log by (rule exI [of _ ?k])
  next
    case mis: False
    have "(case drain_committed f of Inl e \<Rightarrow> Inl e | Inr (s5, nc) \<Rightarrow> Inr (s5, [(src, AppendEntriesResp T False 0)], nc)) = Inr (s', out, ap)"
      using assms unfolding handleAppendEntries_def Let_def f by (simp add: ff False mis cong: sum.case_cong)
    then have d: "drain_committed f = Inr (s', ap)" and out: "out = [(src, AppendEntriesResp T False 0)]" by (auto split: sum.splits)
    show ?thesis unfolding Let_def f_def [symmetric] if_not_P [OF False] if_not_P [OF mis] drain_committed_result [OF d] using out by (simp add: ff)
  qed
qed

theorem append_entries_reconciles_witness:
  "\<exists>s' out ap. handleAppendEntries 0 2 0 1 1 [sample_entry 1 2, sample_entry 2 3] 0 7 sample_follower = Inr (s', out, ap) \<and>
    rn_log s' = [sample_entry 0 0, sample_entry 1 1, sample_entry 1 2, sample_entry 2 3]"
proof -
  obtain s' out ap where h: "handleAppendEntries 0 2 0 1 1 [sample_entry 1 2, sample_entry 2 3] 0 7 sample_follower = Inr (s', out, ap)"
    by (simp add: handleAppendEntries_def Let_def sample_follower_def sample_entry_def raft_new_def last_index_def drain_committed.simps)
  have a: "\<not> 2 < rn_currentTerm sample_follower" "1 < length (rn_log sample_follower) \<and> le_term (rn_log sample_follower ! 1) = 1"
    by (simp_all add: sample_follower_def sample_entry_def)
  obtain k where k: "agrees_for 2 [sample_entry 1 2, sample_entry 2 3] (rn_log sample_follower) k"
    "rn_log s' = (if k = 2 then rn_log sample_follower else take (2 + k) (rn_log sample_follower) @ drop k [sample_entry 1 2, sample_entry 2 3])"
    using append_entries_reconciles [OF h] a by (auto simp: Let_def numeral_2_eq_2)
  have "k \<noteq> 0" using k(1) by (intro notI) (simp add: agrees_for_def sample_follower_def sample_entry_def)
  moreover have "\<not> 1 < k"
  proof
    assume "1 < k"
    then have "le_term (rn_log sample_follower ! (2 + 1)) = le_term ([sample_entry 1 2, sample_entry 2 3] ! 1)" using k(1) unfolding agrees_for_def by blast
    then show False by (simp add: sample_follower_def sample_entry_def)
  qed
  ultimately have "k = 1" by simp
  then show ?thesis using h k(2) by (auto simp: sample_follower_def numeral_eq_Suc)
qed

text \<open>
  C7. The commit rule: on a well-formed log \<open>advanceCommitIndex\<close> never fails and never lowers the commit
  index; when it raises it, the new index holds an entry of the leader's own term that a majority of the
  cluster stores, and no higher index qualifies.
\<close>

theorem commit_rule:
  assumes "log_ok (rn_log s)"
  shows "\<exists>m. advanceCommitIndex s = Inr (s\<lparr>rn_commitIndex := m\<rparr>) \<and> rn_commitIndex s \<le> m \<and>
    (m \<noteq> rn_commitIndex s \<longrightarrow> m < length (rn_log s) \<and> le_term (rn_log s ! m) = rn_currentTerm s \<and>
       2 * (1 + length (filter (\<lambda>ps. m \<le> ps_matchIndex ps) (rn_peerState s))) > length (rn_peers s) + 1) \<and>
    (\<forall>i. m < i \<and> i < length (rn_log s) \<and> le_term (rn_log s ! i) = rn_currentTerm s \<longrightarrow>
       2 * (1 + length (filter (\<lambda>ps. i \<le> ps_matchIndex ps) (rn_peerState s))) \<le> length (rn_peers s) + 1)"
proof -
  have arith: "int a + 1 < (1 + int b) * 2 \<longleftrightarrow> a + 1 < 2 * (1 + b)" for a b by presburger
  have C: "committable s m \<longleftrightarrow> le_term (rn_log s ! m) = rn_currentTerm s \<and>
      2 * (1 + length (filter (\<lambda>ps. m \<le> ps_matchIndex ps) (rn_peerState s))) > length (rn_peers s) + 1" for m
    by (simp only: committable_def replica_count_def arith)
  obtain m where m: "advanceCommitIndex s = Inr (s\<lparr>rn_commitIndex := m\<rparr>)" "rn_commitIndex s \<le> m"
    "m = rn_commitIndex s \<or> m < length (rn_log s) \<and> committable s m"
    "\<forall>i. m < i \<longrightarrow> i < length (rn_log s) \<longrightarrow> \<not> committable s i"
    using advanceCommitIndex_spec [OF assms] by metis
  show ?thesis using m by (intro exI [of _ m]) (auto simp: C not_less)
qed

theorem commit_rule_witness:
  "\<exists>m. advanceCommitIndex sample_leader = Inr (sample_leader\<lparr>rn_commitIndex := m\<rparr>) \<and> m = 2 \<and>
    le_term (rn_log sample_leader ! m) = rn_currentTerm sample_leader"
proof -
  have "log_ok (rn_log sample_leader)" by (simp add: sample_leader_def sample_entry_def log_ok_def)
  from commit_rule [OF this] obtain m where m: "advanceCommitIndex sample_leader = Inr (sample_leader\<lparr>rn_commitIndex := m\<rparr>)"
    "m \<noteq> rn_commitIndex sample_leader \<longrightarrow> le_term (rn_log sample_leader ! m) = rn_currentTerm sample_leader" by blast
  moreover have "advanceCommitIndex sample_leader = Inr (sample_leader\<lparr>rn_commitIndex := 2\<rparr>)"
    by (simp add: advanceCommitIndex_def sample_leader_def sample_entry_def last_index_def replica_count_def raft_new_def numeral_eq_Suc)
  ultimately have "rn_commitIndex (sample_leader\<lparr>rn_commitIndex := m\<rparr>) = rn_commitIndex (sample_leader\<lparr>rn_commitIndex := 2\<rparr>)" by simp
  then have "m = 2" by simp
  then show ?thesis using m by (simp add: sample_leader_def raft_new_def)
qed

text \<open>
  C8. Receiving any message with consecutive entries on a well-formed node succeeds, keeps the node well
  formed, and hands to the commit callback exactly the log entries after \<open>lastApplied\<close>, in order: every
  index is applied at most once and none is skipped.
\<close>

theorem receive_applies_in_order:
  assumes "node_ok s" and "msg_ok m"
  shows "\<exists>s' out es. raft_receive p m dl s = Inr (s', out, es) \<and> node_ok s' \<and>
    rn_lastApplied s \<le> rn_lastApplied s' \<and>
    es = map (\<lambda>i. rn_log s' ! i) [Suc (rn_lastApplied s)..<Suc (rn_lastApplied s')]"
  using raft_receive_ok [OF assms] unfolding applied_next_def by blast

theorem receive_applies_in_order_witness:
  "\<exists>s' out es. raft_receive 0 (AppendEntries 1 0 0 0 1 [\<lparr>le_term = 1, le_index = 1, le_command = ''x''\<rparr>]) 5
     (raft_new 1 3 0) = Inr (s', out, es) \<and> node_ok s'"
proof -
  have "node_ok (raft_new 1 3 0)" "msg_ok (AppendEntries 1 0 0 0 1 [\<lparr>le_term = 1, le_index = 1, le_command = ''x''\<rparr>])"
    by (simp_all add: node_ok_def log_ok_def raft_new_def msg_ok_def entries_from_def)
  from receive_applies_in_order [OF this] show ?thesis by blast
qed

end
