(* ===== verification/Raft_Election.thy ===== *)
theory Raft_Election
  imports Raft_Node "HOL-Library.Multiset"
begin

text \<open>
  The election part of Raft as an abstract protocol: per node only its role, term, vote and vote
  counter; per message only who asks whom for a vote in which term. The history variables record
  every vote ever cast and every leader ever made, so that "at most one leader per term" can be
  said of whole executions. \<open>Raft_Cluster\<close> shows that the code's handlers implement these steps.
\<close>

section \<open>The protocol\<close>

text \<open>\<open>el_req\<close> holds the vote requests \<open>(candidate, voter, term)\<close> in flight, \<open>el_grant\<close> the granted
  replies \<open>(voter, candidate, term)\<close>; \<open>el_counted i\<close> the voters node \<open>i\<close> has counted since its last
  election started.\<close>

record election =
  el_role :: "nat \<Rightarrow> role"
  el_req :: "(nat \<times> nat \<times> nat) multiset"
  el_grant :: "(nat \<times> nat \<times> nat) multiset"
  el_votes :: "(nat \<times> nat \<times> nat) set"
  el_leaders :: "(nat \<times> nat) set"
  el_counted :: "nat \<Rightarrow> nat set"

abbreviation elterm :: "election \<Rightarrow> nat \<Rightarrow> nat" where
  "elterm e i \<equiv> ro_term (el_role e i)"

definition set_role :: "nat \<Rightarrow> role \<Rightarrow> election \<Rightarrow> election" where
  "set_role i r e = e\<lparr>el_role := (el_role e)(i := r)\<rparr>"

inductive el_step :: "nat \<Rightarrow> election \<Rightarrow> election \<Rightarrow> bool" for n where
  el_candidate:
    "i < n \<Longrightarrow> peers = filter (\<lambda>p. p \<noteq> i) [0..<n] \<Longrightarrow> peers \<noteq> [] \<Longrightarrow>
     r = \<lparr>ro_state = CANDIDATE, ro_term = elterm e i + 1, ro_voted = Some i, ro_count = 1\<rparr> \<Longrightarrow>
     el_step n e ((set_role i r e)\<lparr>el_req := el_req e + mset (map (\<lambda>q. (i, q, elterm e i + 1)) peers),
       el_votes := insert (i, elterm e i + 1, i) (el_votes e), el_counted := (el_counted e)(i := {})\<rparr>)"
| el_alone:
    "i < n \<Longrightarrow> filter (\<lambda>p. p \<noteq> i) [0..<n] = [] \<Longrightarrow>
     r = \<lparr>ro_state = LEADER, ro_term = elterm e i + 1, ro_voted = Some i, ro_count = 1\<rparr> \<Longrightarrow>
     el_step n e ((set_role i r e)\<lparr>el_votes := insert (i, elterm e i + 1, i) (el_votes e),
       el_leaders := insert (i, elterm e i + 1) (el_leaders e), el_counted := (el_counted e)(i := {})\<rparr>)"
| el_newer_term:
    "i < n \<Longrightarrow> T > elterm e i \<Longrightarrow>
     el_step n e (set_role i ((el_role e i)\<lparr>ro_state := FOLLOWER, ro_term := T, ro_voted := None\<rparr>) e)"
| el_vote:
    "(l, q, T) \<in># el_req e \<Longrightarrow> elterm e q = T \<Longrightarrow>
     ro_voted (el_role e q) = None \<or> ro_voted (el_role e q) = Some l \<Longrightarrow>
     el_step n e ((set_role q ((el_role e q)\<lparr>ro_voted := Some l\<rparr>) e)\<lparr>el_req := el_req e - {#(l, q, T)#},
       el_grant := add_mset (q, l, T) (el_grant e), el_votes := insert (q, T, l) (el_votes e)\<rparr>)"
| el_count:
    "(q, l, T) \<in># el_grant e \<Longrightarrow> elterm e l = T \<Longrightarrow> ro_state (el_role e l) = CANDIDATE \<Longrightarrow>
     \<not> 2 * (ro_count (el_role e l) + 1) > int n \<Longrightarrow>
     el_step n e ((set_role l ((el_role e l)\<lparr>ro_count := ro_count (el_role e l) + 1\<rparr>) e)
       \<lparr>el_grant := el_grant e - {#(q, l, T)#},
        el_counted := (el_counted e)(l := insert q (el_counted e l))\<rparr>)"
| el_win:
    "(q, l, T) \<in># el_grant e \<Longrightarrow> elterm e l = T \<Longrightarrow> ro_state (el_role e l) = CANDIDATE \<Longrightarrow>
     2 * (ro_count (el_role e l) + 1) > int n \<Longrightarrow>
     el_step n e ((set_role l ((el_role e l)\<lparr>ro_state := LEADER, ro_count := ro_count (el_role e l) + 1\<rparr>) e)
       \<lparr>el_grant := el_grant e - {#(q, l, T)#}, el_leaders := insert (l, T) (el_leaders e),
        el_counted := (el_counted e)(l := insert q (el_counted e l))\<rparr>)"
| el_step_down:
    "i < n \<Longrightarrow> (l, elterm e i) \<in> el_leaders e \<Longrightarrow> l \<noteq> i \<Longrightarrow> ro_state (el_role e i) \<noteq> FOLLOWER \<Longrightarrow>
     el_step n e (set_role i ((el_role e i)\<lparr>ro_state := FOLLOWER, ro_voted := None\<rparr>) e)"
| el_drop_req:
    "x \<in># el_req e \<Longrightarrow> el_step n e (e\<lparr>el_req := el_req e - {#x#}\<rparr>)"
| el_drop_grant:
    "x \<in># el_grant e \<Longrightarrow> el_step n e (e\<lparr>el_grant := el_grant e - {#x#}\<rparr>)"

definition el_start :: election where
  "el_start = \<lparr>el_role = (\<lambda>_. \<lparr>ro_state = FOLLOWER, ro_term = 0, ro_voted = None, ro_count = 0\<rparr>),
     el_req = {#}, el_grant = {#}, el_votes = {}, el_leaders = {}, el_counted = (\<lambda>_. {})\<rparr>"

inductive el_reach :: "nat \<Rightarrow> election \<Rightarrow> bool" for n where
  start: "el_reach n el_start"
| step: "el_reach n e \<Longrightarrow> el_step n e e' \<Longrightarrow> el_reach n e'"

section \<open>The invariant\<close>

text \<open>Requests and grants come from real elections and real votes.\<close>

definition net_inv :: "nat \<Rightarrow> election \<Rightarrow> bool" where
  "net_inv n e \<longleftrightarrow>
     (\<forall>l q T. (l, q, T) \<in># el_req e \<longrightarrow> l < n \<and> q < n \<and> l \<noteq> q \<and> T \<le> elterm e l) \<and>
     (\<forall>q l T. (q, l, T) \<in># el_grant e \<longrightarrow>
        l < n \<and> q < n \<and> l \<noteq> q \<and> T \<le> elterm e l \<and> (q, T, l) \<in> el_votes e)"

text \<open>A node's votes: its current vote is on record; a vote for another node pins it as a follower for
  the rest of the term, so it cannot cast a second one and cannot lead that term.\<close>

definition vote_inv :: "nat \<Rightarrow> election \<Rightarrow> bool" where
  "vote_inv n e \<longleftrightarrow>
     (\<forall>q T a. (q, T, a) \<in> el_votes e \<longrightarrow> q < n \<and> T \<le> elterm e q) \<and>
     (\<forall>q a. ro_voted (el_role e q) = Some a \<longrightarrow> (q, elterm e q, a) \<in> el_votes e) \<and>
     (\<forall>q. ro_state (el_role e q) \<noteq> FOLLOWER \<longrightarrow> ro_voted (el_role e q) = Some q) \<and>
     (\<forall>q a. (q, elterm e q, a) \<in> el_votes e \<longrightarrow> a \<noteq> q \<longrightarrow>
        ro_state (el_role e q) = FOLLOWER \<and> ro_voted (el_role e q) = Some a) \<and>
     (\<forall>q T a. (q, T, a) \<in> el_votes e \<longrightarrow> a \<noteq> q \<longrightarrow> (q, T) \<notin> el_leaders e) \<and>
     (\<forall>q T a b. (q, T, a) \<in> el_votes e \<longrightarrow> (q, T, b) \<in> el_votes e \<longrightarrow> a \<noteq> q \<longrightarrow> b \<noteq> q \<longrightarrow> a = b)"

text \<open>Leaders have a majority of votes of their term and stay leader until the term ends.\<close>

definition quorum :: "nat \<Rightarrow> election \<Rightarrow> nat \<Rightarrow> nat \<Rightarrow> bool" where
  "quorum n e l T \<longleftrightarrow> (\<exists>Q \<subseteq> {..<n}. 2 * card Q > n \<and> (\<forall>q \<in> Q. (q, T, l) \<in> el_votes e))"

definition leader_inv :: "nat \<Rightarrow> election \<Rightarrow> bool" where
  "leader_inv n e \<longleftrightarrow>
     (\<forall>l T. (l, T) \<in> el_leaders e \<longrightarrow> l < n \<and> T \<le> elterm e l \<and> quorum n e l T \<and>
        (T = elterm e l \<longrightarrow> ro_state (el_role e l) = LEADER)) \<and>
     (\<forall>l. ro_state (el_role e l) = LEADER \<longrightarrow> (l, elterm e l) \<in> el_leaders e) \<and>
     (\<forall>l l' T. (l, T) \<in> el_leaders e \<longrightarrow> (l', T) \<in> el_leaders e \<longrightarrow> l' = l)"

text \<open>Counting: a candidate's counter is the number of voters it counted, and each voter's answer
  exists at most once, as a request, a grant or a counted vote.\<close>

definition tokens :: "election \<Rightarrow> nat \<Rightarrow> nat \<Rightarrow> nat \<Rightarrow> nat" where
  "tokens e l q T = count (el_req e) (l, q, T) + count (el_grant e) (q, l, T) +
     (if T = elterm e l \<and> q \<in> el_counted e l then 1 else 0)"

definition count_inv :: "nat \<Rightarrow> election \<Rightarrow> bool" where
  "count_inv n e \<longleftrightarrow>
     (\<forall>l. ro_state (el_role e l) = CANDIDATE \<longrightarrow> l < n \<and> l \<notin> el_counted e l \<and> el_counted e l \<subseteq> {..<n} \<and>
        ro_count (el_role e l) = 1 + int (card (el_counted e l)) \<and>
        (\<forall>q \<in> el_counted e l. (q, elterm e l, l) \<in> el_votes e)) \<and>
     (\<forall>l q T. tokens e l q T \<le> 1)"

definition el_inv :: "nat \<Rightarrow> election \<Rightarrow> bool" where
  "el_inv n e \<longleftrightarrow> net_inv n e \<and> vote_inv n e \<and> leader_inv n e \<and> count_inv n e"

lemma el_start_inv: "el_inv n el_start"
  by (simp add: el_inv_def net_inv_def vote_inv_def leader_inv_def count_inv_def tokens_def el_start_def)

subsection \<open>Rules for the invariant\<close>

lemma net_invI:
  assumes "\<And>l q T. (l, q, T) \<in># el_req e \<Longrightarrow> l < n \<and> q < n \<and> l \<noteq> q \<and> T \<le> elterm e l"
    and "\<And>q l T. (q, l, T) \<in># el_grant e \<Longrightarrow> l < n \<and> q < n \<and> l \<noteq> q \<and> T \<le> elterm e l \<and> (q, T, l) \<in> el_votes e"
  shows "net_inv n e"
  unfolding net_inv_def using assms by (intro conjI allI impI) simp_all

lemma net_invD:
  assumes "net_inv n e"
  shows "(l, q, T) \<in># el_req e \<Longrightarrow> l < n \<and> q < n \<and> l \<noteq> q \<and> T \<le> elterm e l"
    and "(q, l, T) \<in># el_grant e \<Longrightarrow> l < n \<and> q < n \<and> l \<noteq> q \<and> T \<le> elterm e l \<and> (q, T, l) \<in> el_votes e"
  using assms unfolding net_inv_def by simp_all

lemma vote_invI:
  assumes "\<And>q T a. (q, T, a) \<in> el_votes e \<Longrightarrow> q < n \<and> T \<le> elterm e q"
    and "\<And>q a. ro_voted (el_role e q) = Some a \<Longrightarrow> (q, elterm e q, a) \<in> el_votes e"
    and "\<And>q. ro_state (el_role e q) \<noteq> FOLLOWER \<Longrightarrow> ro_voted (el_role e q) = Some q"
    and "\<And>q a. (q, elterm e q, a) \<in> el_votes e \<Longrightarrow> a \<noteq> q \<Longrightarrow>
      ro_state (el_role e q) = FOLLOWER \<and> ro_voted (el_role e q) = Some a"
    and "\<And>q T a. (q, T, a) \<in> el_votes e \<Longrightarrow> a \<noteq> q \<Longrightarrow> (q, T) \<notin> el_leaders e"
    and "\<And>q T a b. (q, T, a) \<in> el_votes e \<Longrightarrow> (q, T, b) \<in> el_votes e \<Longrightarrow> a \<noteq> q \<Longrightarrow> b \<noteq> q \<Longrightarrow> a = b"
  shows "vote_inv n e"
  unfolding vote_inv_def using assms by (intro conjI allI impI) (assumption | blast)+

lemma vote_invD:
  assumes "vote_inv n e"
  shows "(q, T, a) \<in> el_votes e \<Longrightarrow> q < n \<and> T \<le> elterm e q"
    and "ro_voted (el_role e q) = Some a \<Longrightarrow> (q, elterm e q, a) \<in> el_votes e"
    and "ro_state (el_role e q) \<noteq> FOLLOWER \<Longrightarrow> ro_voted (el_role e q) = Some q"
    and "(q, elterm e q, a) \<in> el_votes e \<Longrightarrow> a \<noteq> q \<Longrightarrow>
      ro_state (el_role e q) = FOLLOWER \<and> ro_voted (el_role e q) = Some a"
    and "(q, T, a) \<in> el_votes e \<Longrightarrow> a \<noteq> q \<Longrightarrow> (q, T) \<notin> el_leaders e"
    and "(q, T, a) \<in> el_votes e \<Longrightarrow> (q, T, b) \<in> el_votes e \<Longrightarrow> a \<noteq> q \<Longrightarrow> b \<noteq> q \<Longrightarrow> a = b"
  using assms unfolding vote_inv_def by blast+

lemma leader_invI:
  assumes "\<And>l T. (l, T) \<in> el_leaders e \<Longrightarrow> l < n \<and> T \<le> elterm e l \<and> quorum n e l T \<and>
      (T = elterm e l \<longrightarrow> ro_state (el_role e l) = LEADER)"
    and "\<And>l. ro_state (el_role e l) = LEADER \<Longrightarrow> (l, elterm e l) \<in> el_leaders e"
    and "\<And>l l' T. (l, T) \<in> el_leaders e \<Longrightarrow> (l', T) \<in> el_leaders e \<Longrightarrow> l' = l"
  shows "leader_inv n e"
  unfolding leader_inv_def using assms by (intro conjI allI impI) (assumption | blast)+

lemma leader_invD:
  assumes "leader_inv n e"
  shows "(l, T) \<in> el_leaders e \<Longrightarrow> l < n \<and> T \<le> elterm e l \<and> quorum n e l T \<and>
      (T = elterm e l \<longrightarrow> ro_state (el_role e l) = LEADER)"
    and "ro_state (el_role e l) = LEADER \<Longrightarrow> (l, elterm e l) \<in> el_leaders e"
    and "(l, T) \<in> el_leaders e \<Longrightarrow> (l', T) \<in> el_leaders e \<Longrightarrow> l' = l"
  using assms unfolding leader_inv_def by blast+

lemma count_invI:
  assumes "\<And>l. ro_state (el_role e l) = CANDIDATE \<Longrightarrow> l < n \<and> l \<notin> el_counted e l \<and> el_counted e l \<subseteq> {..<n} \<and>
        ro_count (el_role e l) = 1 + int (card (el_counted e l)) \<and>
        (\<forall>q \<in> el_counted e l. (q, elterm e l, l) \<in> el_votes e)"
    and "\<And>l q T. tokens e l q T \<le> 1"
  shows "count_inv n e"
  using assms by (simp add: count_inv_def)

lemma count_invD:
  assumes "count_inv n e"
  shows "ro_state (el_role e l) = CANDIDATE \<Longrightarrow> l < n \<and> l \<notin> el_counted e l \<and> el_counted e l \<subseteq> {..<n} \<and>
        ro_count (el_role e l) = 1 + int (card (el_counted e l)) \<and>
        (\<forall>q \<in> el_counted e l. (q, elterm e l, l) \<in> el_votes e)"
    and "tokens e l q T \<le> 1"
  using assms by (simp_all add: count_inv_def)

lemma quorum_mono: "quorum n e l T \<Longrightarrow> el_votes e \<subseteq> el_votes e' \<Longrightarrow> quorum n e' l T"
  unfolding quorum_def by (meson subsetD)

lemma set_role_simps [simp]:
  "el_role (set_role i r e) = (el_role e)(i := r)" "el_req (set_role i r e) = el_req e"
  "el_grant (set_role i r e) = el_grant e" "el_votes (set_role i r e) = el_votes e"
  "el_leaders (set_role i r e) = el_leaders e" "el_counted (set_role i r e) = el_counted e"
  by (simp_all add: set_role_def)

text \<open>Two majorities share a voter; the shared voter's two votes cannot both stand.\<close>

lemma quorums_meet:
  assumes "quorum n e l T" and "quorum n e l' T"
  obtains q where "(q, T, l) \<in> el_votes e" and "(q, T, l') \<in> el_votes e"
proof -
  obtain Q where Q: "Q \<subseteq> {..<n}" "2 * card Q > n" "\<forall>q \<in> Q. (q, T, l) \<in> el_votes e"
    using assms(1) by (auto simp: quorum_def)
  obtain Q' where Q': "Q' \<subseteq> {..<n}" "2 * card Q' > n" "\<forall>q \<in> Q'. (q, T, l') \<in> el_votes e"
    using assms(2) by (auto simp: quorum_def)
  have "Q \<inter> Q' \<noteq> {}"
  proof
    assume "Q \<inter> Q' = {}"
    then have "card Q + card Q' = card (Q \<union> Q')"
      using Q(1) Q'(1) finite_subset [OF _ finite_lessThan] by (metis card_Un_disjoint)
    also have "\<dots> \<le> n" using Q(1) Q'(1) card_mono [of "{..<n}" "Q \<union> Q'"] by simp
    finally show False using Q(2) Q'(2) by simp
  qed
  then show thesis using that Q(3) Q'(3) by blast
qed

lemma no_second_leader:
  assumes "vote_inv n e" and "(l', T) \<in> el_leaders e" and "quorum n e l' T"
    and "quorum n e l T" and "elterm e l = T" and "ro_state (el_role e l) = CANDIDATE"
  shows "l' = l"
proof (rule ccontr)
  assume "l' \<noteq> l"
  obtain q where q: "(q, T, l) \<in> el_votes e" "(q, T, l') \<in> el_votes e"
    using quorums_meet [OF assms(4,3)] .
  from \<open>l' \<noteq> l\<close> vote_invD(6) [OF assms(1) q] have "q = l \<or> q = l'" by auto
  then show False
  proof
    assume "q = l"
    then show False using vote_invD(4) [OF assms(1), of l l'] q(2) assms(5,6) \<open>l' \<noteq> l\<close> by simp
  next
    assume "q = l'"
    then show False using vote_invD(5) [OF assms(1) q(1)] \<open>l' \<noteq> l\<close> assms(2) by simp
  qed
qed

section \<open>Every step keeps the invariant\<close>


lemma el_step_net:
  assumes "el_step n e e'" and "net_inv n e"
  shows "net_inv n e'"
  using assms(1)
proof cases
  case (el_vote l q T)
  have "l < n \<and> q < n \<and> l \<noteq> q \<and> T \<le> elterm e l" using net_invD(1) [OF assms(2) el_vote(2)] .
  then show ?thesis unfolding el_vote(1)
    by (intro net_invI) (auto dest!: in_diffD net_invD [OF assms(2)])
qed (rule net_invI; force dest!: in_diffD net_invD [OF assms(2)])+

text \<open>A step changes one node: \<open>vote_inv\<close> survives when the changed node's own part holds and every
  new vote and leadership is of its current term.\<close>

lemma vote_inv_local:
  assumes inv: "vote_inv n e" and i: "i < n"
    and role: "el_role e' = (el_role e)(i := r)" and up: "elterm e i \<le> ro_term r"
    and votes: "el_votes e \<subseteq> el_votes e'" "el_votes e' \<subseteq> el_votes e \<union> {(i, ro_term r, a) |a. True}"
    and leaders: "el_leaders e' \<subseteq> insert (i, ro_term r) (el_leaders e)"
    and voted: "\<And>a. ro_voted r = Some a \<Longrightarrow> (i, ro_term r, a) \<in> el_votes e'"
    and self: "ro_state r \<noteq> FOLLOWER \<Longrightarrow> ro_voted r = Some i"
    and pinned: "\<And>a. (i, ro_term r, a) \<in> el_votes e' \<Longrightarrow> a \<noteq> i \<Longrightarrow>
      ro_state r = FOLLOWER \<and> ro_voted r = Some a \<and> (i, ro_term r) \<notin> el_leaders e'"
  shows "vote_inv n e'"
proof (rule vote_invI)
  fix q T a assume v: "(q, T, a) \<in> el_votes e'"
  show "q < n \<and> T \<le> elterm e' q"
    using v votes(2) i up role vote_invD(1) [OF inv, of q T a] by auto
next
  fix q a assume v: "ro_voted (el_role e' q) = Some a"
  show "(q, elterm e' q, a) \<in> el_votes e'"
    using v role voted votes(1) vote_invD(2) [OF inv, of q a] by (auto split: if_splits)
next
  fix q assume v: "ro_state (el_role e' q) \<noteq> FOLLOWER"
  show "ro_voted (el_role e' q) = Some q"
    using v role self vote_invD(3) [OF inv, of q] by (auto split: if_splits)
next
  fix q a assume v: "(q, elterm e' q, a) \<in> el_votes e'" "a \<noteq> q"
  show "ro_state (el_role e' q) = FOLLOWER \<and> ro_voted (el_role e' q) = Some a"
    using v role pinned votes(2) vote_invD(4) [OF inv, of q a] by (auto split: if_splits)
next
  fix q T a assume v: "(q, T, a) \<in> el_votes e'" "a \<noteq> q"
  show "(q, T) \<notin> el_leaders e'"
  proof (cases "(q, T) = (i, ro_term r)")
    case True then show ?thesis using pinned [of a] v by simp
  next
    case False
    then have "(q, T, a) \<in> el_votes e" using v votes(2) by auto
    then show ?thesis using False v(2) leaders vote_invD(5) [OF inv, of q T a] by auto
  qed
next
  fix q T a b assume v: "(q, T, a) \<in> el_votes e'" "(q, T, b) \<in> el_votes e'" "a \<noteq> q" "b \<noteq> q"
  show "a = b"
  proof (cases "(q, T) = (i, ro_term r)")
    case True then show ?thesis using pinned [of a] pinned [of b] v by simp
  next
    case False
    then have "(q, T, a) \<in> el_votes e" "(q, T, b) \<in> el_votes e" using v votes(2) by auto
    then show ?thesis using vote_invD(6) [OF inv] v by blast
  qed
qed

lemma vote_inv_cong:
  assumes "vote_inv n e" and "el_role e' = el_role e" and "el_votes e' = el_votes e" and "el_leaders e' = el_leaders e"
  shows "vote_inv n e'"
  unfolding vote_inv_def assms(2-4) using assms(1) [unfolded vote_inv_def] .

lemma no_future_vote:
  "vote_inv n e \<Longrightarrow> elterm e i < T \<Longrightarrow> (i, T, a) \<notin> el_votes e"
  using vote_invD(1) [of n e i T a] by auto

lemma no_future_leader:
  "leader_inv n e \<Longrightarrow> elterm e i < T \<Longrightarrow> (i, T) \<notin> el_leaders e"
  using leader_invD(1) [of n e i T] by auto

lemma el_step_vote:
  assumes step: "el_step n e e'" and inv: "net_inv n e" "vote_inv n e" "leader_inv n e"
  shows "vote_inv n e'"
  using step
proof cases
  case (el_candidate i peers r)
  then show ?thesis
    by (intro vote_inv_local [OF inv(2), of i e' r]) (auto simp: no_future_vote [OF inv(2)])
next
  case (el_alone i r)
  then show ?thesis
    by (intro vote_inv_local [OF inv(2), of i e' r]) (auto simp: no_future_vote [OF inv(2)])
next
  case (el_newer_term i T)
  then show ?thesis
    by (intro vote_inv_local [OF inv(2), of i e']) (auto simp: no_future_vote [OF inv(2)])
next
  case (el_vote l q T)
  have lq: "l \<noteq> q" "q < n" using net_invD(1) [OF inv(1) el_vote(2)] by auto
  have F: "ro_state (el_role e q) = FOLLOWER"
    using vote_invD(3) [OF inv(2), of q] el_vote(4) lq(1) by fastforce
  then have L: "(q, T) \<notin> el_leaders e" using leader_invD(1) [OF inv(3), of q T] el_vote(3) by auto
  have V: "a = l" if "(q, elterm e q, a) \<in> el_votes e" "a \<noteq> q" for a
    using vote_invD(4) [OF inv(2) that] el_vote(4) by simp
  show ?thesis unfolding el_vote(1)
    by (rule vote_inv_local [OF inv(2) lq(2)]) (use F L V el_vote(3) in \<open>auto\<close>)
next
  case (el_count q l T)
  have "l < n" using net_invD(2) [OF inv(1) el_count(2)] by auto
  then show ?thesis unfolding el_count(1)
    by (rule vote_inv_local [OF inv(2), where r = "(el_role e l)\<lparr>ro_count := ro_count (el_role e l) + 1\<rparr>"])
      (use el_count(3,4) vote_invD(2-5) [OF inv(2), of l] in \<open>auto\<close>)
next
  case (el_win q l T)
  have "l < n" using net_invD(2) [OF inv(1) el_win(2)] by auto
  then show ?thesis unfolding el_win(1)
    by (rule vote_inv_local [OF inv(2),
          where r = "(el_role e l)\<lparr>ro_state := LEADER, ro_count := ro_count (el_role e l) + 1\<rparr>"])
      (use el_win(3,4) vote_invD(2-4) [OF inv(2), of l] in \<open>auto\<close>)
next
  case (el_step_down i l)
  show ?thesis unfolding el_step_down(1)
    by (rule vote_inv_local [OF inv(2) el_step_down(2)])
      (use el_step_down(5) vote_invD(4) [OF inv(2), of i] in \<open>auto\<close>)
next
  case (el_drop_req x)
  show ?thesis by (rule vote_inv_cong [OF inv(2)]) (simp_all add: el_drop_req)
next
  case (el_drop_grant x)
  show ?thesis by (rule vote_inv_cong [OF inv(2)]) (simp_all add: el_drop_grant)
qed

lemma leader_inv_local:
  assumes inv: "leader_inv n e" and role: "el_role e' = (el_role e)(i := r)" and up: "elterm e i \<le> ro_term r"
    and votes: "el_votes e \<subseteq> el_votes e'"
    and leaders: "el_leaders e \<subseteq> el_leaders e'" "el_leaders e' \<subseteq> insert (i, ro_term r) (el_leaders e)"
    and mine: "(i, ro_term r) \<in> el_leaders e' \<longleftrightarrow> ro_state r = LEADER"
    and new: "(i, ro_term r) \<in> el_leaders e' \<Longrightarrow> i < n \<and> quorum n e' i (ro_term r) \<and>
      (\<forall>l. (l, ro_term r) \<in> el_leaders e \<longrightarrow> l = i)"
  shows "leader_inv n e'"
proof (rule leader_invI)
  fix l T assume l: "(l, T) \<in> el_leaders e'"
  show "l < n \<and> T \<le> elterm e' l \<and> quorum n e' l T \<and> (T = elterm e' l \<longrightarrow> ro_state (el_role e' l) = LEADER)"
  proof (cases "(l, T) = (i, ro_term r)")
    case True then show ?thesis using l new mine role by simp
  next
    case False
    then have "(l, T) \<in> el_leaders e" using l leaders(2) by auto
    from leader_invD(1) [OF inv this] show ?thesis
      using False role up quorum_mono [OF _ votes] by auto
  qed
next
  fix l assume "ro_state (el_role e' l) = LEADER"
  then show "(l, elterm e' l) \<in> el_leaders e'"
    using role mine leaders(1) leader_invD(2) [OF inv, of l] by (auto split: if_splits)
next
  fix l l' T assume "(l, T) \<in> el_leaders e'" "(l', T) \<in> el_leaders e'"
  then show "l' = l" using leaders(2) new leader_invD(3) [OF inv, of l T l'] by auto
qed

lemma quorum_self:
  assumes "count_inv n e" and "vote_inv n e" and "ro_state (el_role e l) = CANDIDATE" and "q < n"
    and "(q, elterm e l, l) \<in> el_votes e" and "l \<noteq> q" and "q \<notin> el_counted e l"
    and "2 * (ro_count (el_role e l) + 1) > int n"
  shows "quorum n e l (elterm e l)"
proof -
  let ?Q = "insert l (insert q (el_counted e l))"
  have C: "l < n \<and> l \<notin> el_counted e l \<and> el_counted e l \<subseteq> {..<n} \<and>
      ro_count (el_role e l) = 1 + int (card (el_counted e l)) \<and>
      (\<forall>q \<in> el_counted e l. (q, elterm e l, l) \<in> el_votes e)"
    using count_invD(1) [OF assms(1,3)] .
  have fin: "finite (el_counted e l)" using C finite_subset by blast
  have own: "(l, elterm e l, l) \<in> el_votes e"
    using vote_invD(2,3) [OF assms(2)] assms(3) by simp
  have "card ?Q = card (el_counted e l) + 2" using C fin assms(6,7) by simp
  then have "2 * card ?Q > n" using C assms(8) by auto
  moreover have "?Q \<subseteq> {..<n}" "\<forall>q \<in> ?Q. (q, elterm e l, l) \<in> el_votes e"
    using C assms(4,5) own by auto
  ultimately show ?thesis unfolding quorum_def by blast
qed

lemma grant_token:
  assumes "count_inv n e" and "(q, l, elterm e l) \<in># el_grant e"
  shows grant_uncounted: "q \<notin> el_counted e l"
    and grant_once: "count (el_req e) (l, q, elterm e l) = 0" "count (el_grant e) (q, l, elterm e l) = 1"
proof -
  have pos: "count (el_grant e) (q, l, elterm e l) \<noteq> 0" using assms(2) by (simp add: count_eq_zero_iff)
  have sum: "count (el_req e) (l, q, elterm e l) + count (el_grant e) (q, l, elterm e l) +
      (if q \<in> el_counted e l then 1 else 0) \<le> 1"
    using count_invD(2) [OF assms(1), of l q "elterm e l"] by (simp add: tokens_def)
  show "q \<notin> el_counted e l" using sum pos by (cases "q \<in> el_counted e l") simp_all
  show "count (el_req e) (l, q, elterm e l) = 0" "count (el_grant e) (q, l, elterm e l) = 1"
    using sum pos by linarith+
qed

lemma el_step_leader:
  assumes step: "el_step n e e'" and inv: "net_inv n e" "vote_inv n e" "leader_inv n e" "count_inv n e"
  shows "leader_inv n e'"
  using step
proof cases
  case (el_candidate i peers r)
  then show ?thesis
    by (intro leader_inv_local [OF inv(3), of e' i r]) (auto simp: no_future_leader [OF inv(3)])
next
  case (el_alone i r)
  have "x = i" if "x < n" for x using el_alone(3) that by (simp add: filter_empty_conv)
  from this [of 0] this [of 1] have n: "n = 1" using el_alone(2) by linarith
  then have "quorum n e' i (ro_term r)" using el_alone by (auto simp: quorum_def intro!: exI [of _ "{i}"])
  moreover have "l < n" if "(l, T) \<in> el_leaders e" for l T using leader_invD(1) [OF inv(3) that] by simp
  ultimately show ?thesis using el_alone n
    by (intro leader_inv_local [OF inv(3), of e' i r]) (auto simp: no_future_leader [OF inv(3)])
next
  case (el_newer_term i T)
  then show ?thesis
    by (intro leader_inv_local [OF inv(3), of e' i]) (auto simp: no_future_leader [OF inv(3)])
next
  case (el_vote l q T)
  show ?thesis unfolding el_vote(1)
    by (rule leader_inv_local [OF inv(3)])
      (use leader_invD(1) [OF inv(3), of q "elterm e q"] leader_invD(2) [OF inv(3), of q] in \<open>auto intro: leader_invD(3) [OF inv(3)] quorum_mono\<close>)
next
  case (el_count q l T)
  show ?thesis unfolding el_count(1)
    by (rule leader_inv_local [OF inv(3)])
      (use el_count(4) leader_invD(1) [OF inv(3), of l "elterm e l"] in \<open>auto\<close>)
next
  case (el_win q l T)
  have g: "l < n \<and> q < n \<and> l \<noteq> q \<and> (q, T, l) \<in> el_votes e" using net_invD(2) [OF inv(1) el_win(2)] by auto
  have Q: "quorum n e l T"
    using quorum_self [OF inv(4,2) el_win(4)] g el_win(2,3,5) grant_uncounted [OF inv(4)] by blast
  have uniq: "l' = l" if "(l', T) \<in> el_leaders e" for l'
    using no_second_leader [OF inv(2) that _ Q el_win(3,4)] leader_invD(1) [OF inv(3) that] by blast
  have Q': "quorum n e' l T" by (rule quorum_mono [OF Q]) (simp add: el_win(1))
  show ?thesis
    by (rule leader_inv_local [OF inv(3), of e' l]) (use g Q' uniq el_win(1,3) in \<open>auto\<close>)
next
  case (el_step_down i l)
  have "ro_state (el_role e i) \<noteq> LEADER"
    using leader_invD(2,3) [OF inv(3)] el_step_down(3,4) by metis
  then have "(i, elterm e i) \<notin> el_leaders e" using leader_invD(1) [OF inv(3), of i "elterm e i"] by auto
  then show ?thesis unfolding el_step_down(1) by (intro leader_inv_local [OF inv(3)]) auto
next
  case (el_drop_req x)
  then show ?thesis using inv(3) by (simp add: leader_inv_def quorum_def)
next
  case (el_drop_grant x)
  then show ?thesis using inv(3) by (simp add: leader_inv_def quorum_def)
qed

lemma tokens_fresh:
  assumes "net_inv n e" and "elterm e l < T"
  shows "count (el_req e) (l, q, T) = 0" and "count (el_grant e) (q, l, T) = 0"
  using net_invD [OF assms(1), of l q T] net_invD(2) [OF assms(1), of q l T] assms(2)
  by (auto simp: count_eq_zero_iff)

lemma count_mset_tag:
  "count (mset (map (\<lambda>q. (i, q, T)) (filter P [0..<n]))) (l, q, T') = (if l = i \<and> T' = T \<and> q < n \<and> P q then 1 else 0)"
proof -
  have "distinct (map (\<lambda>q. (i, q, T)) (filter P [0..<n]))" by (simp add: distinct_map inj_on_def)
  then show ?thesis by (auto simp: distinct_count_atmost_1)
qed

lemma el_step_count:
  assumes step: "el_step n e e'" and inv: "net_inv n e" "vote_inv n e" "leader_inv n e" "count_inv n e"
  shows "count_inv n e'"
proof (rule count_invI)
  fix l assume c: "ro_state (el_role e' l) = CANDIDATE"
  show "l < n \<and> l \<notin> el_counted e' l \<and> el_counted e' l \<subseteq> {..<n} \<and>
        ro_count (el_role e' l) = 1 + int (card (el_counted e' l)) \<and>
        (\<forall>q \<in> el_counted e' l. (q, elterm e' l, l) \<in> el_votes e')"
    using step
  proof cases
    case (el_count q l' T)
    have g: "l' < n \<and> q < n \<and> l' \<noteq> q \<and> (q, T, l') \<in> el_votes e" "q \<notin> el_counted e l'"
      using net_invD(2) [OF inv(1) el_count(2)] grant_uncounted [OF inv(4)] el_count(2,3) by auto
    have "finite (el_counted e l')" using count_invD(1) [OF inv(4) el_count(4)] finite_subset by blast
    then show ?thesis using g el_count(1,3,4) c count_invD(1) [OF inv(4), of l] by (auto split: if_splits)
  qed (use c count_invD(1) [OF inv(4), of l] in \<open>auto split: if_splits\<close>)
next
  fix l q T
  show "tokens e' l q T \<le> 1"
    using step
  proof cases
    case (el_candidate i peers r)
    have req: "count (el_req e') (l, q, T) = count (el_req e) (l, q, T) +
        (if l = i \<and> T = elterm e i + 1 \<and> q < n \<and> q \<noteq> i then 1 else 0)"
      unfolding el_candidate(1,3) by (simp add: count_mset_tag del: mset_map mset_filter)
    have rest: "el_grant e' = el_grant e" "el_counted e' = (el_counted e)(i := {})"
      "el_role e' = (el_role e)(i := r)" "ro_term r = elterm e i + 1"
      unfolding el_candidate by simp_all
    show ?thesis
      using tokens_fresh [OF inv(1), of l T q] count_invD(2) [OF inv(4), of l q T] req rest
      by (cases "l = i") (auto simp: tokens_def)
  next
    case (el_alone i r)
    then show ?thesis using tokens_fresh [OF inv(1), of l T q] count_invD(2) [OF inv(4), of l q T]
      by (auto simp: tokens_def split: if_splits)
  next
    case (el_newer_term i T')
    then show ?thesis using tokens_fresh [OF inv(1), of l T q] count_invD(2) [OF inv(4), of l q T]
      by (auto simp: tokens_def split: if_splits)
  next
    case (el_vote l' q' T')
    have pos: "count (el_req e) (l', q', T') \<ge> 1" using el_vote(2) by (simp add: Suc_le_eq)
    have "count (el_req e') (l, q, T) + count (el_grant e') (q, l, T) =
        count (el_req e) (l, q, T) + count (el_grant e) (q, l, T)"
      unfolding el_vote(1) using pos by auto
    moreover have "elterm e' l = elterm e l" "el_counted e' = el_counted e"
      unfolding el_vote(1) by simp_all
    ultimately have "tokens e' l q T = tokens e l q T" by (simp only: tokens_def)
    then show ?thesis using count_invD(2) [OF inv(4), of l q T] by simp
  next
    case (el_count q' l' T')
    show ?thesis
      using count_invD(2) [OF inv(4), of l q T] grant_token [OF inv(4), of q' l'] el_count(2,3)
      unfolding el_count(1) by (cases "l = l' \<and> q = q' \<and> T = T'") (auto simp: tokens_def)
  next
    case (el_win q' l' T')
    show ?thesis
      using count_invD(2) [OF inv(4), of l q T] grant_token [OF inv(4), of q' l'] el_win(2,3)
      unfolding el_win(1) by (cases "l = l' \<and> q = q' \<and> T = T'") (auto simp: tokens_def)
  qed (use count_invD(2) [OF inv(4), of l q T] in \<open>auto simp: tokens_def split: if_splits\<close>)
qed

lemma el_reach_inv: "el_reach n e \<Longrightarrow> el_inv n e"
proof (induction rule: el_reach.induct)
  case start show ?case by (rule el_start_inv)
next
  case (step e e')
  then show ?case
    using el_step_net el_step_vote el_step_leader el_step_count unfolding el_inv_def by blast
qed

lemma el_step_leaders_mono: "el_step n e e' \<Longrightarrow> el_leaders e \<subseteq> el_leaders e'"
  by (erule el_step.cases) auto

end
