(* ===== verification/Raft_Cluster.thy ===== *)
theory Raft_Cluster
  imports Raft_Election
begin

text \<open>
  A cluster of \<open>n\<close> Raft nodes running the handlers of \<open>Raft_Node\<close>. A step is one critical section of
  one node (its messages enter the network at once; the network may delay them), or the loss of a
  message. The channel is TCP, so a message is delivered at most once; the model delivers in any
  order, which includes the per-peer order TCP keeps. An election may start at any moment: the
  ticker decides under the lock but \<open>startElection\<close> takes the lock again, so the role may have
  changed in between.
\<close>

section \<open>The cluster\<close>

type_synonym packet = "nat \<times> nat \<times> raft_msg"

record cluster =
  cl_nodes :: "nat \<Rightarrow> raft_node"
  cl_net :: "packet multiset"

definition cluster_new :: "nat \<Rightarrow> cluster" where
  "cluster_new n = \<lparr>cl_nodes = (\<lambda>i. raft_new i n 0), cl_net = {#}\<rparr>"

definition post :: "nat \<Rightarrow> (nat \<times> raft_msg) list \<Rightarrow> packet multiset" where
  "post i out = mset (map (\<lambda>(d, m). (i, d, m)) out)"

definition deliver :: "nat \<Rightarrow> raft_node \<Rightarrow> packet multiset \<Rightarrow> (nat \<times> raft_msg) list \<Rightarrow> cluster \<Rightarrow> cluster" where
  "deliver i s taken out c =
     c\<lparr>cl_nodes := (cl_nodes c)(i := s), cl_net := cl_net c - taken + post i out\<rparr>"

inductive cl_step :: "nat \<Rightarrow> cluster \<Rightarrow> cluster \<Rightarrow> bool" for n where
  elect: "i < n \<Longrightarrow> startElection dl (cl_nodes c i) = (s, out) \<Longrightarrow> cl_step n c (deliver i s {#} out c)"
| replicate_log: "i < n \<Longrightarrow> p \<in> set (rn_peers (cl_nodes c i)) \<Longrightarrow>
    sendAppendEntriesTo p (cl_nodes c i) = Inr out \<Longrightarrow>
    cl_step n c (deliver i (cl_nodes c i) {#} out c)"
| client: "i < n \<Longrightarrow> propose cmd (cl_nodes c i) = (ok, s) \<Longrightarrow> cl_step n c (deliver i s {#} [] c)"
| receive: "(src, i, m) \<in># cl_net c \<Longrightarrow> raft_receive src m dl (cl_nodes c i) = Inr (s, out, es) \<Longrightarrow>
    cl_step n c (deliver i s {#(src, i, m)#} out c)"
| lose: "x \<in># cl_net c \<Longrightarrow> cl_step n c (c\<lparr>cl_net := cl_net c - {#x#}\<rparr>)"

abbreviation cl_steps :: "nat \<Rightarrow> cluster \<Rightarrow> cluster \<Rightarrow> bool" where
  "cl_steps n \<equiv> (cl_step n)\<^sup>*\<^sup>*"

text \<open>The same steps as a function of a schedule.\<close>

datatype cl_action =
    Elect nat nat
  | Replicate nat nat
  | Client nat string
  | Receive nat nat raft_msg nat
  | Lose packet

fun cl_act :: "nat \<Rightarrow> cl_action \<Rightarrow> cluster \<Rightarrow> cluster option" where
  "cl_act n (Elect i dl) c =
     (if i < n then (case startElection dl (cl_nodes c i) of (s, out) \<Rightarrow> Some (deliver i s {#} out c)) else None)"
| "cl_act n (Replicate i p) c =
     (if i < n \<and> p \<in> set (rn_peers (cl_nodes c i)) then
        (case sendAppendEntriesTo p (cl_nodes c i) of
           Inl e \<Rightarrow> None | Inr out \<Rightarrow> Some (deliver i (cl_nodes c i) {#} out c))
      else None)"
| "cl_act n (Client i cmd) c =
     (if i < n then (case propose cmd (cl_nodes c i) of (ok, s) \<Rightarrow> Some (deliver i s {#} [] c)) else None)"
| "cl_act n (Receive src i m dl) c =
     (if (src, i, m) \<in># cl_net c then
        (case raft_receive src m dl (cl_nodes c i) of
           Inl e \<Rightarrow> None | Inr (s, out, es) \<Rightarrow> Some (deliver i s {#(src, i, m)#} out c))
      else None)"
| "cl_act n (Lose x) c = (if x \<in># cl_net c then Some (c\<lparr>cl_net := cl_net c - {#x#}\<rparr>) else None)"

fun cl_run :: "nat \<Rightarrow> cl_action list \<Rightarrow> cluster \<Rightarrow> cluster option" where
  "cl_run n [] c = Some c"
| "cl_run n (a # acts) c = (case cl_act n a c of None \<Rightarrow> None | Some c' \<Rightarrow> cl_run n acts c')"

lemma cl_act_step: "cl_act n a c = Some c' \<Longrightarrow> cl_step n c c'"
  by (cases a) (auto split: if_splits prod.splits sum.splits intro: cl_step.intros)

lemma cl_run_steps: "cl_run n acts c = Some c' \<Longrightarrow> cl_steps n c c'"
  by (induction acts arbitrary: c)
    (auto split: option.splits intro: cl_act_step converse_rtranclp_into_rtranclp)

lemma deliver_simps [simp]:
  "cl_nodes (deliver i s taken out c) = (cl_nodes c)(i := s)"
  "cl_net (deliver i s taken out c) = cl_net c - taken + post i out"
  by (simp_all add: deliver_def)

lemma post_simps [simp]:
  "post i [] = {#}" "post i ((d, m) # out) = add_mset (i, d, m) (post i out)"
  by (simp_all add: post_def)

lemma post_member: "x \<in># post i out \<longleftrightarrow> (\<exists>d m. (d, m) \<in> set out \<and> x = (i, d, m))"
  by (auto simp: post_def)

section \<open>The election seen in the code's state\<close>

fun is_req :: "packet \<Rightarrow> bool" where
  "is_req (src, d, RequestVote T cand li lt) = True"
| "is_req _ = False"

fun is_grant :: "packet \<Rightarrow> bool" where
  "is_grant (src, d, RequestVoteResp T g) = g"
| "is_grant _ = False"

fun msg_term :: "raft_msg \<Rightarrow> nat" where
  "msg_term (RequestVote T cand li lt) = T"
| "msg_term (RequestVoteResp T g) = T"
| "msg_term (AppendEntries T l pi pt lc es) = T"
| "msg_term (AppendEntriesResp T ok mi) = T"

definition tag :: "packet \<Rightarrow> nat \<times> nat \<times> nat" where
  "tag x = (case x of (src, d, m) \<Rightarrow> (src, d, msg_term m))"

definition reqs :: "packet multiset \<Rightarrow> (nat \<times> nat \<times> nat) multiset" where
  "reqs N = image_mset tag (filter_mset is_req N)"

definition grants :: "packet multiset \<Rightarrow> (nat \<times> nat \<times> nat) multiset" where
  "grants N = image_mset tag (filter_mset is_grant N)"

fun from_leader :: "(nat \<times> nat) set \<Rightarrow> packet \<Rightarrow> bool" where
  "from_leader L (src, d, RequestVote T cand li lt) \<longleftrightarrow> cand = src"
| "from_leader L (src, d, AppendEntries T l pi pt lc es) \<longleftrightarrow> (src, T) \<in> L"
| "from_leader L _ \<longleftrightarrow> True"

definition packet_ok :: "nat \<Rightarrow> (nat \<times> nat) set \<Rightarrow> packet \<Rightarrow> bool" where
  "packet_ok n L x \<longleftrightarrow> (case x of (src, d, m) \<Rightarrow> src < n \<and> d < n \<and> src \<noteq> d) \<and> from_leader L x"

text \<open>The simulation relation between a cluster and a state of the election protocol.\<close>

definition sim :: "nat \<Rightarrow> cluster \<Rightarrow> election \<Rightarrow> bool" where
  "sim n c e \<longleftrightarrow>
     (\<forall>i. el_role e i = role_of (cl_nodes c i)) \<and>
     (\<forall>i. rn_selfId (cl_nodes c i) = i \<and> rn_peers (cl_nodes c i) = filter (\<lambda>p. p \<noteq> i) [0..<n]) \<and>
     el_req e = reqs (cl_net c) \<and> el_grant e = grants (cl_net c) \<and>
     (\<forall>x. x \<in># cl_net c \<longrightarrow> packet_ok n (el_leaders e) x)"

lemma reqs_simps [simp]:
  "reqs {#} = {#}" "reqs (A + B) = reqs A + reqs B"
  "reqs (add_mset x A) = (if is_req x then add_mset (tag x) (reqs A) else reqs A)"
  by (simp_all add: reqs_def)

lemma grants_simps [simp]:
  "grants {#} = {#}" "grants (A + B) = grants A + grants B"
  "grants (add_mset x A) = (if is_grant x then add_mset (tag x) (grants A) else grants A)"
  by (simp_all add: grants_def)

lemma reqs_diff [simp]: "x \<in># N \<Longrightarrow> reqs (N - {#x#}) = (if is_req x then reqs N - {#tag x#} else reqs N)"
  by (auto simp: reqs_def dest!: multi_member_split)

lemma grants_diff [simp]: "x \<in># N \<Longrightarrow> grants (N - {#x#}) = (if is_grant x then grants N - {#tag x#} else grants N)"
  by (auto simp: grants_def dest!: multi_member_split)

lemma tag_in_reqs: "x \<in># N \<Longrightarrow> is_req x \<Longrightarrow> tag x \<in># reqs N"
  by (auto simp: reqs_def)

lemma tag_in_grants: "x \<in># N \<Longrightarrow> is_grant x \<Longrightarrow> tag x \<in># grants N"
  by (auto simp: grants_def)

lemma tag_simp [simp]: "tag (src, d, m) = (src, d, msg_term m)"
  by (simp add: tag_def)

lemma sim_start: "sim n (cluster_new n) el_start"
  by (simp add: sim_def cluster_new_def el_start_def role_of_def raft_new_def)

section \<open>The handlers implement the election protocol\<close>

abbreviation el_steps :: "nat \<Rightarrow> election \<Rightarrow> election \<Rightarrow> bool" where
  "el_steps n \<equiv> (el_step n)\<^sup>*\<^sup>*"

definition leads :: "cluster \<Rightarrow> (nat \<times> nat) set" where
  "leads c = {(i, T). rn_state (cl_nodes c i) = LEADER \<and> rn_currentTerm (cl_nodes c i) = T}"

definition el_matches :: "nat \<Rightarrow> election \<Rightarrow> cluster \<Rightarrow> bool" where
  "el_matches n e c' \<longleftrightarrow> (\<exists>e'. el_steps n e e' \<and> sim n c' e' \<and> el_leaders e \<subseteq> el_leaders e' \<and>
     el_leaders e' \<subseteq> el_leaders e \<union> leads c')"

lemma packet_ok_mono: "packet_ok n L x \<Longrightarrow> L \<subseteq> L' \<Longrightarrow> packet_ok n L' x"
  by (cases "(L, x)" rule: from_leader.cases) (auto simp: packet_ok_def)

lemma simD:
  assumes "sim n c e"
  shows "el_role e i = role_of (cl_nodes c i)" and "rn_selfId (cl_nodes c i) = i"
    and "rn_peers (cl_nodes c i) = filter (\<lambda>p. p \<noteq> i) [0..<n]"
    and "el_req e = reqs (cl_net c)" and "el_grant e = grants (cl_net c)"
    and "x \<in># cl_net c \<Longrightarrow> packet_ok n (el_leaders e) x"
  using assms unfolding sim_def by blast+

lemma el_matchesI:
  assumes "sim n c e" and "el_steps n e e'" and "taken \<subseteq># cl_net c"
    and "el_role e' = (el_role e)(i := role_of s)"
    and "rn_selfId s = i" and "rn_peers s = rn_peers (cl_nodes c i)"
    and "el_req e' = reqs (cl_net c - taken + post i out)"
    and "el_grant e' = grants (cl_net c - taken + post i out)"
    and "el_leaders e \<subseteq> el_leaders e'"
    and "el_leaders e' \<subseteq> (if rn_state s = LEADER then insert (i, rn_currentTerm s) (el_leaders e) else el_leaders e)"
    and "\<And>x. x \<in># post i out \<Longrightarrow> packet_ok n (el_leaders e') x"
  shows "el_matches n e (deliver i s taken out c)"
proof -
  have "sim n (deliver i s taken out c) e'"
    using assms(4-9,11) simD [OF assms(1)] packet_ok_mono [OF _ assms(9)]
    by (auto simp: sim_def dest: in_diffD)
  moreover have "el_leaders e' \<subseteq> el_leaders e \<union> leads (deliver i s taken out c)"
    using assms(10) by (auto simp: leads_def split: if_splits)
  ultimately show ?thesis using assms(2,9) unfolding el_matches_def by blast
qed

lemma post_reqs:
  "reqs (post i (map (\<lambda>q. (q, RequestVote T a b k)) ps)) = mset (map (\<lambda>q. (i, q, T)) ps)"
  "grants (post i (map (\<lambda>q. (q, RequestVote T a b k)) ps)) = {#}"
  by (induction ps) auto

lemma elect_matches:
  assumes "sim n c e" and "i < n" and "startElection dl (cl_nodes c i) = (s, out)"
  shows "el_matches n e (deliver i s {#} out c)"
proof (cases "filter (\<lambda>p. p \<noteq> i) [0..<n] = []")
  case True
  show ?thesis
    by (rule el_matchesI [OF assms(1) r_into_rtranclp [where r = "el_step n", OF el_alone [where e = e, OF assms(2) True refl]]])
      (use True assms(3) simD(1-3) [OF assms(1), of i] simD(4,5) [OF assms(1)] in
        \<open>auto simp: startElection_def becomeCandidate_def becomeLeader_def Let_def role_of_def\<close>)
next
  case False
  have out: "s = becomeCandidate dl (cl_nodes c i)"
    "out = map (\<lambda>q. (q, RequestVote (elterm e i + 1) i (last_index s) (last_term s))) (filter (\<lambda>p. p \<noteq> i) [0..<n])"
    using False assms(3) simD(1-3) [OF assms(1), of i]
    by (auto simp: startElection_def becomeCandidate_def Let_def)
  show ?thesis
    by (rule el_matchesI [OF assms(1) r_into_rtranclp [where r = "el_step n", OF el_candidate [where e = e, OF assms(2) refl False refl]]])
      (use assms(2) out simD(1-3) [OF assms(1), of i] simD(4,5) [OF assms(1)] in
        \<open>auto simp: becomeCandidate_def role_of_def post_reqs post_member packet_ok_def simp del: mset_map mset_filter\<close>)
qed

lemma silent_matches:
  assumes "sim n c e" and "role_of s = role_of (cl_nodes c i)"
    and "rn_selfId s = i" and "rn_peers s = rn_peers (cl_nodes c i)"
    and "reqs (post i out) = {#}" and "grants (post i out) = {#}"
    and "\<And>x. x \<in># post i out \<Longrightarrow> packet_ok n (el_leaders e) x"
  shows "el_matches n e (deliver i s {#} out c)"
  by (rule el_matchesI [OF assms(1) rtranclp.rtrancl_refl]) (use assms simD [OF assms(1)] in \<open>auto simp: fun_upd_idem\<close>)

text \<open>Seeing a newer term is one protocol step; everything else a handler does follows it.\<close>

definition caught_up :: "nat \<Rightarrow> nat \<Rightarrow> election \<Rightarrow> election" where
  "caught_up i T e = (if T > elterm e i
     then set_role i ((el_role e i)\<lparr>ro_state := FOLLOWER, ro_term := T, ro_voted := None\<rparr>) e else e)"

lemma caught_up_steps: "i < n \<Longrightarrow> el_steps n e (caught_up i T e)"
  by (auto simp: caught_up_def intro: r_into_rtranclp el_newer_term)

lemma caught_up_simps [simp]:
  "el_req (caught_up i T e) = el_req e" "el_grant (caught_up i T e) = el_grant e"
  "el_leaders (caught_up i T e) = el_leaders e"
  by (simp_all add: caught_up_def)

lemma request_matches:
  assumes "sim n c e" and "(src, i, RequestVote T cand li lt) \<in># cl_net c"
    and "handleRequestVote src T cand li lt dl (cl_nodes c i) = (s, out)"
  shows "el_matches n e (deliver i s {#(src, i, RequestVote T cand li lt)#} out c)"
proof -
  let ?x = "(src, i, RequestVote T cand li lt)" and ?e1 = "caught_up i T e"
  have x: "src < n" "i < n" "src \<noteq> i" "cand = src"
    using simD(6) [OF assms(1,2)] by (auto simp: packet_ok_def)
  note S = simD(1-3) [OF assms(1), of i] simD(4,5) [OF assms(1)]
  have inreq: "(src, i, T) \<in># el_req ?e1" using tag_in_reqs [OF assms(2)] S(4) by simp
  define granted where "granted = (case out of [(_, RequestVoteResp _ g)] \<Rightarrow> g | _ \<Rightarrow> False)"
  have out: "out = [(src, RequestVoteResp (rn_currentTerm s) granted)]"
    using assms(3) by (auto simp: handleRequestVote_def Let_def granted_def split: if_splits)
  show ?thesis
  proof (cases granted)
    case True
    then have v: "rn_currentTerm s = T" "elterm ?e1 i = T"
      "ro_voted (el_role ?e1 i) = None \<or> ro_voted (el_role ?e1 i) = Some src"
      "role_of s = (el_role ?e1 i)\<lparr>ro_voted := Some src\<rparr>" "rn_selfId s = i" "rn_peers s = rn_peers (cl_nodes c i)"
      using assms(3) x(4) S(1,2)
      by (auto simp: granted_def handleRequestVote_def Let_def becomeFollower_def caught_up_def role_of_def split: if_splits)
    show ?thesis
      by (rule el_matchesI [OF assms(1) rtranclp.rtrancl_into_rtrancl [where r = "el_step n", OF caught_up_steps [OF x(2)] el_vote [OF inreq v(2,3)]]])
        (use x v S out True assms(2) in \<open>auto simp: packet_ok_def caught_up_def\<close>)
  next
    case False
    then have v: "role_of s = el_role ?e1 i" "rn_selfId s = i" "rn_peers s = rn_peers (cl_nodes c i)"
      using assms(3) S(1,2)
      by (auto simp: granted_def handleRequestVote_def Let_def becomeFollower_def caught_up_def role_of_def split: if_splits)
    show ?thesis
      by (rule el_matchesI [OF assms(1) rtranclp.rtrancl_into_rtrancl [where r = "el_step n", OF caught_up_steps [OF x(2)] el_drop_req [OF inreq]]])
        (use x v S out False assms(2) in \<open>auto simp: packet_ok_def caught_up_def\<close>)
  qed
qed

text \<open>A received packet that is not a vote request changes the role at most by catching up.\<close>

lemma drop_grant_steps:
  "x \<in># N \<Longrightarrow> el_grant e = grants N \<Longrightarrow>
   el_steps n e (if is_grant x then e\<lparr>el_grant := el_grant e - {#tag x#}\<rparr> else e)"
  using tag_in_grants [of x N] el_drop_grant [of "tag x" e n] by auto

lemma catch_up_matches:
  assumes "sim n c e" and "(src, i, m) \<in># cl_net c" and "\<not> is_req (src, i, m)"
    and "role_of s = el_role (caught_up i T e) i" and "rn_selfId s = i" and "rn_peers s = rn_peers (cl_nodes c i)"
    and "reqs (post i out) = {#}" and "grants (post i out) = {#}"
    and "\<And>x. x \<in># post i out \<Longrightarrow> packet_ok n (el_leaders e) x"
  shows "el_matches n e (deliver i s {#(src, i, m)#} out c)"
proof -
  let ?x = "(src, i, m)" and ?e1 = "caught_up i T e"
  let ?e2 = "if is_grant ?x then ?e1\<lparr>el_grant := el_grant ?e1 - {#tag ?x#}\<rparr> else ?e1"
  have i: "i < n" using simD(6) [OF assms(1,2)] by (auto simp: packet_ok_def)
  note S = simD(1-3) [OF assms(1), of i] simD(4,5) [OF assms(1)]
  have "el_steps n ?e1 ?e2" by (rule drop_grant_steps [OF assms(2)]) (simp add: S)
  then have "el_steps n e ?e2" using caught_up_steps [OF i] by (rule rtranclp_trans [rotated])
  then show ?thesis
    by (rule el_matchesI [OF assms(1)]) (use assms(2-) S in \<open>auto simp: caught_up_def\<close>)
qed

lemma response_matches:
  assumes "sim n c e" and "(src, i, RequestVoteResp T g) \<in># cl_net c"
  shows "el_matches n e (deliver i (handleRequestVoteResponse src T g dl (cl_nodes c i)) {#(src, i, RequestVoteResp T g)#} [] c)"
    (is "el_matches n e (deliver i ?s {#?x#} [] c)")
proof (cases "g \<and> T = elterm e i \<and> ro_state (el_role e i) = CANDIDATE")
  case False
  then show ?thesis using simD(1,2) [OF assms(1), of i]
    by (intro catch_up_matches [OF assms, of _ T])
      (auto simp: handleRequestVoteResponse_def caught_up_def becomeFollower_def role_of_def)
next
  case True
  note S = simD(1-3) [OF assms(1), of i] simD(4,5) [OF assms(1)]
  have i: "i < n" using simD(6) [OF assms] by (auto simp: packet_ok_def)
  have ing: "(src, i, T) \<in># el_grant e" using tag_in_grants [OF assms(2)] S(5) True by simp
  have n: "int (length (rn_peers (cl_nodes c i))) + 1 = int n"
  proof -
    have "length (filter (\<lambda>p. p \<noteq> i) [0..<n]) = card ({..<n} - {i})"
      by (subst distinct_card [symmetric]) (auto intro: arg_cong [where f = card])
    then show ?thesis using i S(3) by simp
  qed
  have role: "elterm e i = T" "ro_state (el_role e i) = CANDIDATE" using True by auto
  show ?thesis
  proof (cases "2 * (ro_count (el_role e i) + 1) > int n")
    case win: True
    show ?thesis
      by (rule el_matchesI [OF assms(1) r_into_rtranclp [where r = "el_step n", OF el_win [OF ing role win]]])
        (use S n win role True assms(2) in
          \<open>auto simp: handleRequestVoteResponse_def becomeLeader_def Let_def role_of_def split: if_splits\<close>)
  next
    case few: False
    show ?thesis
      by (rule el_matchesI [OF assms(1) r_into_rtranclp [where r = "el_step n", OF el_count [OF ing role few]]])
        (use S n few role True assms(2) in
          \<open>auto simp: handleRequestVoteResponse_def becomeLeader_def Let_def role_of_def split: if_splits\<close>)
  qed
qed

lemma append_matches:
  assumes "sim n c e" and "(src, i, AppendEntries T l pi pt lc es) \<in># cl_net c"
    and "handleAppendEntries src T l pi pt es lc dl (cl_nodes c i) = Inr (s, out, ap)"
  shows "el_matches n e (deliver i s {#(src, i, AppendEntries T l pi pt lc es)#} out c)"
proof -
  note S = simD(1-3) [OF assms(1), of i] simD(4,5) [OF assms(1)]
  have x: "src < n" "i < n" "src \<noteq> i" "(src, T) \<in> el_leaders e"
    using simD(6) [OF assms(1,2)] by (auto simp: packet_ok_def)
  show ?thesis
  proof (cases "T < rn_currentTerm (cl_nodes c i)")
    case True
    then have "s = cl_nodes c i \<and> out = [(src, AppendEntriesResp (rn_currentTerm (cl_nodes c i)) False 0)]"
      using assms(3) by (auto simp: handleAppendEntries_def)
    then show ?thesis using S x True
      by (intro catch_up_matches [OF assms(1,2), of _ T]) (auto simp: caught_up_def packet_ok_def)
  next
    case False
    note F = append_frame [OF assms(3) False]
    show ?thesis
    proof (cases "T = elterm e i \<and> ro_state (el_role e i) \<noteq> FOLLOWER")
      case down: True
      have lead: "(src, elterm e i) \<in> el_leaders e" using x(4) down by simp
      show ?thesis
        by (rule el_matchesI [OF assms(1) r_into_rtranclp [where r = "el_step n",
                OF el_step_down [OF x(2) lead x(3)]]])
          (use S F down x assms(2) in \<open>auto simp: packet_ok_def\<close>)
    next
      case keep: False
      have "role_of s = el_role (caught_up i T e) i"
        using F(1) S(1) False keep by (auto simp: caught_up_def role_of_def)
      then show ?thesis using S F x keep
        by (intro catch_up_matches [OF assms(1,2), of _ T]) (auto simp: packet_ok_def)
    qed
  qed
qed

lemma cl_step_matches:
  assumes "cl_step n c c'" and "sim n c e" and "el_inv n e"
  shows "el_matches n e c'"
  using assms(1)
proof cases
  case (elect i dl s out)
  then show ?thesis using elect_matches [OF assms(2)] by blast
next
  case (replicate_log i p out)
  note S = simD(1-3) [OF assms(2), of i] simD(4,5) [OF assms(2)]
  have p: "p < n" "p \<noteq> i" using replicate_log(3) S(3) by auto
  have "out = [] \<or> rn_state (cl_nodes c i) = LEADER \<and> (\<exists>a b l d es. out = [(p, AppendEntries (rn_currentTerm (cl_nodes c i)) a b l d es)])"
    using replicate_log(4) by (auto simp: sendAppendEntriesTo_def Let_def split: if_splits)
  moreover have "rn_state (cl_nodes c i) = LEADER \<Longrightarrow> (i, rn_currentTerm (cl_nodes c i)) \<in> el_leaders e"
    using leader_invD(2) [of n e i] assms(3) S(1) by (simp add: el_inv_def)
  ultimately show ?thesis unfolding replicate_log(1) using S p replicate_log(2)
    by (intro silent_matches [OF assms(2)]) (auto simp: packet_ok_def)
next
  case (client i cmd ok s)
  then show ?thesis using simD(1-3) [OF assms(2), of i]
    by (auto intro!: silent_matches [OF assms(2)] simp: propose_def role_of_def split: if_splits)
next
  case (receive src i m dl s out es)
  show ?thesis
  proof (cases m)
    case (RequestVote t cd li lt)
    then show ?thesis using receive request_matches [OF assms(2)]
      by (auto simp: raft_receive_def split: prod.splits)
  next
    case (RequestVoteResp t g)
    then show ?thesis using receive response_matches [OF assms(2)] by (auto simp: raft_receive_def)
  next
    case (AppendEntries t l pi pt lc en)
    then show ?thesis using receive append_matches [OF assms(2)] by (auto simp: raft_receive_def)
  next
    case (AppendEntriesResp t ok mi)
    then have h: "handleAppendEntriesResponse src t ok mi dl (cl_nodes c i) = Inr (s, es)" "out = []"
      using receive(3) by (auto simp: raft_receive_def split: sum.splits)
    have "role_of s = el_role (caught_up i t e) i \<and> rn_selfId s = i \<and> rn_peers s = rn_peers (cl_nodes c i)"
      using simD(1,2) [OF assms(2), of i]
      by (subst (1 2 3) append_resp_frame [OF h(1)]) (auto simp: caught_up_def becomeFollower_def role_of_def)
    then show ?thesis unfolding receive(1) using receive(2) AppendEntriesResp h(2)
      by (intro catch_up_matches [OF assms(2), of _ _ _ _ t]) auto
  qed
next
  case (lose x)
  let ?e1 = "if is_req x then e\<lparr>el_req := el_req e - {#tag x#}\<rparr> else e"
  let ?e2 = "if is_grant x then ?e1\<lparr>el_grant := el_grant ?e1 - {#tag x#}\<rparr> else ?e1"
  note S = simD [OF assms(2)]
  have "el_steps n e ?e1" using tag_in_reqs [OF lose(2)] S(4) el_drop_req [of "tag x" e n] by auto
  moreover have "el_steps n ?e1 ?e2" by (rule drop_grant_steps [OF lose(2)]) (simp add: S(5))
  ultimately have "el_steps n e ?e2" by (rule rtranclp_trans)
  moreover have "sim n c' ?e2" unfolding lose(1) sim_def using S lose(2) by (auto dest: in_diffD)
  moreover have "el_leaders ?e2 = el_leaders e" by simp
  ultimately show ?thesis unfolding el_matches_def by blast
qed

section \<open>Executions\<close>

lemma el_steps_inv: "el_steps n e e' \<Longrightarrow> el_inv n e \<Longrightarrow> el_inv n e'"
proof (induction rule: rtranclp_induct)
  case (step e1 e2)
  then show ?case
    using el_step_net el_step_vote el_step_leader el_step_count unfolding el_inv_def by blast
qed

definition elected :: "nat \<Rightarrow> cluster \<Rightarrow> election \<Rightarrow> bool" where
  "elected n c e \<longleftrightarrow> sim n c e \<and> el_inv n e"

lemma elected_start: "elected n (cluster_new n) el_start"
  by (simp add: elected_def sim_start el_start_inv)

lemma elected_step:
  assumes "cl_step n c c'" and "elected n c e"
  obtains e' where "elected n c' e'" and "el_leaders e \<subseteq> el_leaders e'" and "el_leaders e' \<subseteq> el_leaders e \<union> leads c'"
  using cl_step_matches [OF assms(1), of e] el_steps_inv assms(2) that
  unfolding elected_def el_matches_def by blast

lemma elected_steps:
  assumes "cl_steps n c c'" and "elected n c e"
  obtains e' where "elected n c' e'" and "el_leaders e \<subseteq> el_leaders e'"
proof -
  from assms(1) have "\<exists>e'. elected n c' e' \<and> el_leaders e \<subseteq> el_leaders e'"
  proof (induction rule: rtranclp_induct)
    case base
    show ?case using assms(2) by blast
  next
    case (step c1 c2)
    then obtain e1 where e1: "elected n c1 e1" "el_leaders e \<subseteq> el_leaders e1" by blast
    obtain e2 where "elected n c2 e2" "el_leaders e1 \<subseteq> el_leaders e2" "el_leaders e2 \<subseteq> el_leaders e1 \<union> leads c2"
      using elected_step [OF step.hyps(2) e1(1)] .
    then show ?case using e1(2) by (intro exI [of _ e2]) simp
  qed
  then show thesis using that by blast
qed

lemma elected_leader:
  assumes "elected n c e" and "rn_state (cl_nodes c i) = LEADER"
  shows "(i, rn_currentTerm (cl_nodes c i)) \<in> el_leaders e"
  using assms leader_invD(2) [of n e i] simD(1) [of n c e i] by (simp add: elected_def el_inv_def)

lemma elected_unique:
  "elected n c e \<Longrightarrow> (l, T) \<in> el_leaders e \<Longrightarrow> (l', T) \<in> el_leaders e \<Longrightarrow> l' = l"
  using leader_invD(3) by (auto simp: elected_def el_inv_def)

end
