(* ===== verification/Raft_Log.thy ===== *)
theory Raft_Log
  imports Raft_Cluster "HOL-Library.Sublist"
begin

text \<open>
  The replicated logs of a cluster. The history \<open>H\<close> holds for every term the longest log its leader
  has had; every log in the cluster, and every slice of a log in a message, is a slice of these.
  From this follow the Log Matching property and that no handler reads its log out of range.
\<close>

section \<open>Logs made of leader logs\<close>

definition chain :: "(nat \<Rightarrow> log_entry list) \<Rightarrow> log_entry list \<Rightarrow> bool" where
  "chain H log \<longleftrightarrow> (\<forall>i < length log. i < length (H (le_term (log ! i))) \<and>
     take (Suc i) log = take (Suc i) (H (le_term (log ! i))))"

definition extends :: "(nat \<Rightarrow> log_entry list) \<Rightarrow> (nat \<Rightarrow> log_entry list) \<Rightarrow> bool" where
  "extends H H' \<longleftrightarrow> (\<forall>T. prefix (H T) (H' T))"

lemma chainD:
  assumes "chain H log" and "i < length log"
  shows "i < length (H (le_term (log ! i)))" and "take (Suc i) log = take (Suc i) (H (le_term (log ! i)))"
  using assms by (auto simp: chain_def)

lemma prefix_take: "prefix xs ys \<Longrightarrow> k \<le> length xs \<Longrightarrow> take k ys = take k xs"
  by (auto simp: prefix_def)

lemma chain_mono: "chain H log \<Longrightarrow> extends H H' \<Longrightarrow> chain H' log"
  unfolding chain_def extends_def
  by (metis Suc_leI order_less_le_trans prefix_length_le prefix_take)

lemma chain_take: "chain H log \<Longrightarrow> chain H (take k log)"
  unfolding chain_def by (auto simp: min_def)

lemma chain_agree:
  assumes "chain H xs" and "chain H ys" and "k < length xs" and "k < length ys"
    and "le_term (xs ! k) = le_term (ys ! k)"
  shows "take (Suc k) xs = take (Suc k) ys"
  using chainD(2) [OF assms(1,3)] chainD(2) [OF assms(2,4)] assms(5) by simp

lemma chain_snoc:
  assumes "chain H log" and "H (le_term e) = log @ [e]"
  shows "chain H (log @ [e])"
  unfolding chain_def
proof (intro allI impI)
  fix i assume i: "i < length (log @ [e])"
  show "i < length (H (le_term ((log @ [e]) ! i))) \<and>
    take (Suc i) (log @ [e]) = take (Suc i) (H (le_term ((log @ [e]) ! i)))"
  proof (cases "i < length log")
    case True
    then show ?thesis using chainD [OF assms(1) True] by (simp add: nth_append)
  next
    case False
    then show ?thesis using i assms(2) by (auto simp: less_Suc_eq nth_append)
  qed
qed

lemma slice_nth:
  assumes "es = take (length es) (drop k G)" and "j < length es"
  shows "es ! j = G ! (k + j)"
proof -
  have "es ! j = take (length es) (drop k G) ! j" using assms(1) by metis
  moreover have "length es \<le> length G - k" by (subst assms(1)) simp
  ultimately show ?thesis using assms(2) by simp
qed

text \<open>What the append loop makes of a log when the message is a slice of the leader's log \<open>G\<close>: either
  the log already had the slice, or it becomes the leader's log up to the end of the slice.\<close>

lemma append_loop_slice:
  assumes "chain H log" and "chain H G" and "pi < length log" and "pi + length es < length G"
    and "le_term (log ! pi) = le_term (G ! pi)" and "es = take (length es) (drop (Suc pi) G)"
  shows "append_loop (pi + 1) es log = log \<or>
    append_loop (pi + 1) es log = take (Suc (pi + length es)) G"
proof (cases "match_len (pi + 1) es log = length es")
  case True
  then show ?thesis using append_loop_closed [of "pi + 1" log es] assms(3) by simp
next
  case False
  let ?k = "match_len (pi + 1) es log"
  have k: "?k < length es" using False match_len_le [of "pi + 1" es log] by simp
  have es: "es ! j = G ! (pi + 1 + j)" if "j < length es" for j
    using slice_nth [OF assms(6) that] by simp
  have "take (pi + 1 + ?k) log = take (pi + 1 + ?k) G"
  proof (cases "?k")
    case 0
    then show ?thesis using chain_agree [OF assms(1,2,3) _ assms(5)] assms(4) by simp
  next
    case (Suc j)
    have "pi + 1 + j < length log" using match_len_bound [of "pi + 1" es log] Suc by simp
    moreover have "le_term (log ! (pi + 1 + j)) = le_term (G ! (pi + 1 + j))"
      using match_len_terms [of j "pi + 1" es log] Suc es [of j] k by simp
    ultimately show ?thesis using chain_agree [OF assms(1,2), of "pi + 1 + j"] k assms(4) Suc by simp
  qed
  moreover have "drop ?k es = take (length es - ?k) (drop (pi + 1 + ?k) G)"
    by (subst assms(6)) (simp add: drop_take add.commute)
  moreover have "take (Suc (pi + length es)) G = take (pi + 1 + ?k) G @ take (length es - ?k) (drop (pi + 1 + ?k) G)"
    using take_add [of "pi + 1 + ?k" "length es - ?k" G] k by simp
  ultimately show ?thesis using False append_loop_closed [of "pi + 1" log es] assms(3) by simp
qed

section \<open>The invariant\<close>

fun packet_log :: "(nat \<Rightarrow> log_entry list) \<Rightarrow> packet \<Rightarrow> bool" where
  "packet_log H (src, d, AppendEntries T l pi pt lc es) \<longleftrightarrow>
     pi + length es < length (H T) \<and> pt = le_term (H T ! pi) \<and> es = take (length es) (drop (Suc pi) (H T))"
| "packet_log H (src, d, AppendEntriesResp T ok mi) \<longleftrightarrow> (ok \<longrightarrow> mi < length (H T))"
| "packet_log H _ \<longleftrightarrow> True"

definition node_log :: "nat \<Rightarrow> (nat \<Rightarrow> log_entry list) \<Rightarrow> raft_node \<Rightarrow> bool" where
  "node_log n H s \<longleftrightarrow> node_ok s \<and> chain H (rn_log s) \<and> (rn_state s \<noteq> FOLLOWER \<longrightarrow> 0 < rn_currentTerm s) \<and>
     length (rn_peerState s) = n \<and>
     (rn_state s = LEADER \<longrightarrow> rn_log s = H (rn_currentTerm s) \<and>
       (\<forall>ps \<in> set (rn_peerState s). 1 \<le> ps_nextIndex ps \<and> ps_nextIndex ps \<le> length (rn_log s)))"

definition hist_ok :: "(nat \<times> nat) set \<Rightarrow> (nat \<Rightarrow> log_entry list) \<Rightarrow> bool" where
  "hist_ok L H \<longleftrightarrow> (\<forall>T. chain H (H T)) \<and> (\<forall>T. H T \<noteq> [] \<longrightarrow> log_ok (H T) \<and> (T = 0 \<or> (\<exists>l. (l, T) \<in> L)))"

definition log_inv :: "nat \<Rightarrow> cluster \<Rightarrow> (nat \<times> nat) set \<Rightarrow> (nat \<Rightarrow> log_entry list) \<Rightarrow> bool" where
  "log_inv n c L H \<longleftrightarrow> hist_ok L H \<and> (\<forall>i. node_log n H (cl_nodes c i)) \<and> (\<forall>x. x \<in># cl_net c \<longrightarrow> packet_log H x)"

lemma packet_log_mono: "packet_log H x \<Longrightarrow> extends H H' \<Longrightarrow> packet_log H' x"
proof (cases "(H, x)" rule: packet_log.cases)
  case (1 H1 src d T l pi pt lc es)
  assume "packet_log H x" and "extends H H'"
  moreover obtain zs where "H' T = H T @ zs" using \<open>extends H H'\<close> by (auto simp: extends_def prefix_def)
  ultimately show ?thesis using 1 by (auto simp: nth_append)
next
  case (2 H1 src d T ok mi)
  assume "packet_log H x" and "extends H H'"
  then show ?thesis using 2 prefix_length_le [of "H T" "H' T"] by (auto simp: extends_def)
qed auto

lemma log_inv_start: "\<exists>H. log_inv n (cluster_new n) {} H"
proof
  let ?H = "\<lambda>T::nat. if T = 0 then [\<lparr>le_term = 0, le_index = 0, le_command = []\<rparr>] else []"
  show "log_inv n (cluster_new n) {} ?H"
    by (simp add: log_inv_def hist_ok_def node_log_def node_ok_def log_ok_def chain_def cluster_new_def raft_new_def)
qed

lemma log_inv_deliver:
  assumes "log_inv n c L H" and "extends H H'" and "L \<subseteq> L'" and "hist_ok L' H'" and "node_log n H' s"
    and "\<And>j. j \<noteq> i \<Longrightarrow> rn_state (cl_nodes c j) = LEADER \<Longrightarrow>
      H' (rn_currentTerm (cl_nodes c j)) = H (rn_currentTerm (cl_nodes c j))"
    and "\<And>x. x \<in># post i out \<Longrightarrow> packet_log H' x"
  shows "log_inv n (deliver i s taken out c) L' H'"
proof -
  have "node_log n H' (cl_nodes c j)" if "j \<noteq> i" for j
    using assms(1) assms(6) [OF that] chain_mono [OF _ assms(2)] by (auto simp: log_inv_def node_log_def)
  moreover have "packet_log H' x" if "x \<in># cl_net c - taken" for x
    using assms(1) packet_log_mono [OF _ assms(2)] in_diffD [OF that] unfolding log_inv_def by blast
  ultimately show ?thesis using assms(4,5,7) by (auto simp: log_inv_def)
qed

lemma extends_refl [simp]: "extends H H"
  by (simp add: extends_def)

lemma hist_ok_mono: "hist_ok L H \<Longrightarrow> L \<subseteq> L' \<Longrightarrow> hist_ok L' H"
  unfolding hist_ok_def by blast

text \<open>The common case: the history does not change.\<close>

lemma log_inv_keep:
  assumes "log_inv n c L H" and "L \<subseteq> L'" and "node_log n H s" and "\<And>x. x \<in># post i out \<Longrightarrow> packet_log H x"
  shows "log_inv n (deliver i s taken out c) L' H"
  using log_inv_deliver [OF assms(1) extends_refl assms(2) _ assms(3) refl assms(4)] assms(1) hist_ok_mono [OF _ assms(2)]
  by (auto simp: log_inv_def)

section \<open>Every step keeps the invariant\<close>

lemma elected_rules:
  assumes "elected n c e"
  shows "(l, T) \<in> el_leaders e \<Longrightarrow> T \<le> rn_currentTerm (cl_nodes c l) \<and>
      (T = rn_currentTerm (cl_nodes c l) \<longrightarrow> rn_state (cl_nodes c l) = LEADER)"
    and "rn_selfId (cl_nodes c i) = i" and "rn_peers (cl_nodes c i) = filter (\<lambda>p. p \<noteq> i) [0..<n]"
    and "x \<in># cl_net c \<Longrightarrow> packet_ok n (el_leaders e) x"
  using assms leader_invD(1) [of n e l T] simD [of n c e] by (auto simp: elected_def el_inv_def)

text \<open>A new leader's term has no leader log yet.\<close>

lemma crown:
  assumes e: "elected n c e" and e': "elected n (deliver i s taken out c) e'" and sub: "el_leaders e \<subseteq> el_leaders e'"
    and inv: "log_inv n c (el_leaders e) H" and lead: "rn_state s = LEADER" "0 < rn_currentTerm s"
    and new: "(i, rn_currentTerm s) \<notin> el_leaders e" and log: "rn_log s = rn_log (cl_nodes c i)" "node_ok s"
    and ps: "length (rn_peerState s) = n"
      "\<And>ps. ps \<in> set (rn_peerState s) \<Longrightarrow> 1 \<le> ps_nextIndex ps \<and> ps_nextIndex ps \<le> length (rn_log s)"
    and out: "out = []"
  shows "\<exists>H'. log_inv n (deliver i s taken out c) (el_leaders e') H'"
proof
  let ?T = "rn_currentTerm s" and ?H = "H(rn_currentTerm s := rn_log s)"
  have me: "(i, ?T) \<in> el_leaders e'" using elected_leader [OF e', of i] lead by simp
  have none: "(l, ?T) \<notin> el_leaders e" for l
    using elected_unique [OF e' me, of l] sub new by blast
  have nil: "H ?T = []" using inv none lead(2) by (auto simp: log_inv_def hist_ok_def)
  have ext: "extends H ?H" using nil by (simp add: extends_def)
  have ch: "chain ?H (rn_log s)"
    using inv chain_mono [OF _ ext] log by (auto simp: log_inv_def node_log_def)
  have "hist_ok (el_leaders e') H" using inv sub hist_ok_mono by (auto simp: log_inv_def)
  then have "hist_ok (el_leaders e') ?H" using chain_mono [OF _ ext] ch log me
    by (auto simp: hist_ok_def node_ok_def)
  moreover have "node_log n ?H s" using ch log lead ps by (auto simp: node_log_def)
  moreover have "?H (rn_currentTerm (cl_nodes c j)) = H (rn_currentTerm (cl_nodes c j))"
    if "rn_state (cl_nodes c j) = LEADER" for j
    using elected_leader [OF e that] none by auto
  ultimately show "log_inv n (deliver i s taken out c) (el_leaders e') ?H"
    by (rule log_inv_deliver [OF inv ext sub]) (simp_all add: out)
qed

lemma becomeLeader_log:
  assumes "node_log n H s"
  shows "node_ok (becomeLeader s)" and "length (rn_peerState (becomeLeader s)) = n"
    and "ps \<in> set (rn_peerState (becomeLeader s)) \<Longrightarrow> 1 \<le> ps_nextIndex ps \<and> ps_nextIndex ps \<le> length (rn_log s)"
  using assms log_ok_last_index [of s] by (auto simp: node_log_def node_ok_def becomeLeader_def)

lemma elect_log:
  assumes e: "elected n c e" and e': "elected n (deliver i s {#} out c) e'" and sub: "el_leaders e \<subseteq> el_leaders e'"
    and inv: "log_inv n c (el_leaders e) H" and step: "startElection dl (cl_nodes c i) = (s, out)"
  shows "\<exists>H'. log_inv n (deliver i s {#} out c) (el_leaders e') H'"
proof -
  have ni: "node_log n H (cl_nodes c i)" using inv by (simp add: log_inv_def)
  then have cand: "node_log n H (becomeCandidate dl (cl_nodes c i))"
    by (simp add: node_log_def becomeCandidate_def node_ok_def)
  show ?thesis
  proof (cases "rn_peers (cl_nodes c i) = []")
    case True
    then have s: "s = becomeLeader (becomeCandidate dl (cl_nodes c i))" "out = []"
      using step by (auto simp: startElection_def becomeCandidate_def Let_def)
    have "(i, rn_currentTerm s) \<notin> el_leaders e"
      using elected_rules(1) [OF e, of i "rn_currentTerm s"] by (auto simp: s becomeLeader_def becomeCandidate_def)
    then show ?thesis
      by (intro crown [OF e e' sub inv])
        (use becomeLeader_log [OF cand] s in \<open>auto simp: becomeLeader_def becomeCandidate_def\<close>)
  next
    case False
    then have "s = becomeCandidate dl (cl_nodes c i)"
      "out = map (\<lambda>p. (p, RequestVote (rn_currentTerm s) (rn_selfId s) (last_index s) (last_term s))) (rn_peers (cl_nodes c i))"
      using step by (auto simp: startElection_def becomeCandidate_def Let_def)
    then have "log_inv n (deliver i s {#} out c) (el_leaders e') H"
      using cand by (intro log_inv_keep [OF inv sub]) (auto simp: post_member)
    then show ?thesis by blast
  qed
qed

lemma client_log:
  assumes e: "elected n c e" and sub: "el_leaders e \<subseteq> el_leaders e'"
    and inv: "log_inv n c (el_leaders e) H" and step: "propose cmd (cl_nodes c i) = (ok, s)"
  shows "\<exists>H'. log_inv n (deliver i s {#} [] c) (el_leaders e') H'"
proof (cases "rn_state (cl_nodes c i) = LEADER")
  case False
  then have "s = cl_nodes c i" using step by (simp add: propose_def)
  then have "log_inv n (deliver i s {#} [] c) (el_leaders e') H"
    using inv by (intro log_inv_keep [OF inv sub]) (auto simp: log_inv_def)
  then show ?thesis by blast
next
  case True
  let ?s = "cl_nodes c i" and ?T = "rn_currentTerm (cl_nodes c i)"
  let ?new = "\<lparr>le_term = ?T, le_index = last_index ?s + 1, le_command = cmd\<rparr>"
  let ?H = "H(?T := H ?T @ [?new])"
  have s: "s = ?s\<lparr>rn_log := rn_log ?s @ [?new]\<rparr>" using step True by (auto simp: propose_def)
  have ni: "node_log n H ?s" using inv by (simp add: log_inv_def)
  then have log: "rn_log ?s = H ?T" "log_ok (rn_log ?s)" "chain H (rn_log ?s)"
    using True by (auto simp: node_log_def node_ok_def)
  have ext: "extends H ?H" by (simp add: extends_def)
  have ch: "chain ?H (H ?T @ [?new])"
    using chain_mono [OF log(3) ext] log(1) by (intro chain_snoc) auto
  have ok: "log_ok (H ?T @ [?new])"
    using log_ok_snoc [OF log(2), of ?new] log_ok_last_index [OF log(2)] log(1) by simp
  have "hist_ok (el_leaders e) ?H"
    using inv chain_mono [OF _ ext] ch ok elected_leader [OF e True] by (auto simp: log_inv_def hist_ok_def)
  then have "hist_ok (el_leaders e') ?H" using sub by (rule hist_ok_mono)
  moreover have "node_log n ?H s"
    using ni ch ok log(1) True unfolding s by (auto simp: node_log_def node_ok_def)
  moreover have "?H (rn_currentTerm (cl_nodes c j)) = H (rn_currentTerm (cl_nodes c j))"
    if "j \<noteq> i" "rn_state (cl_nodes c j) = LEADER" for j
    using elected_unique [OF e elected_leader [OF e True], of j] elected_leader [OF e that(2)] that(1) by auto
  ultimately have "log_inv n (deliver i s {#} [] c) (el_leaders e') ?H"
    by (rule log_inv_deliver [OF inv ext sub]) simp_all
  then show ?thesis by blast
qed

lemma send_log:
  assumes "log_inv n c L H" and "p < n" and "rn_state (cl_nodes c i) = LEADER"
  shows "\<exists>pi pt es. sendAppendEntriesTo p (cl_nodes c i) = Inr [(p, AppendEntries (rn_currentTerm (cl_nodes c i))
      (rn_selfId (cl_nodes c i)) pi pt (rn_commitIndex (cl_nodes c i)) es)] \<and>
    packet_log H (i, p, AppendEntries (rn_currentTerm (cl_nodes c i)) (rn_selfId (cl_nodes c i)) pi pt
      (rn_commitIndex (cl_nodes c i)) es)"
proof -
  let ?s = "cl_nodes c i"
  let ?ni = "ps_nextIndex (rn_peerState ?s ! p)"
  have ni: "node_log n H ?s" using assms(1) by (simp add: log_inv_def)
  then have log: "rn_log ?s = H (rn_currentTerm ?s)" "log_ok (rn_log ?s)"
    and ps: "1 \<le> ?ni" "?ni \<le> length (rn_log ?s)"
    using assms(2,3) by (auto simp: node_log_def node_ok_def)
  have last: "Suc (last_index ?s) = length (rn_log ?s)" using log_ok_last_index [OF log(2)] .
  let ?es = "map (\<lambda>i. rn_log ?s ! i) [?ni..<Suc (last_index ?s)]"
  have es: "?es = drop ?ni (rn_log ?s)"
    by (rule nth_equalityI) (auto simp: last)
  have "sendAppendEntriesTo p ?s = Inr [(p, AppendEntries (rn_currentTerm ?s) (rn_selfId ?s) (?ni - 1)
      (le_term (rn_log ?s ! (?ni - 1))) (rn_commitIndex ?s) ?es)]"
    using assms(3) ps last by (auto simp: sendAppendEntriesTo_def Let_def)
  moreover have "packet_log H (i, p, AppendEntries (rn_currentTerm ?s) (rn_selfId ?s) (?ni - 1)
      (le_term (rn_log ?s ! (?ni - 1))) (rn_commitIndex ?s) ?es)"
    unfolding es using ps log(1) by auto
  ultimately show ?thesis by blast
qed

lemma node_log_frame:
  assumes "node_log n H s" and "rn_log s' = rn_log s" and "rn_peerState s' = rn_peerState s" and "node_ok s'"
    and "rn_state s' = FOLLOWER \<or> rn_state s' = rn_state s \<and> rn_currentTerm s' = rn_currentTerm s"
  shows "node_log n H s'"
  using assms by (auto simp: node_log_def)

lemma response_log:
  assumes e: "elected n c e" and e': "elected n (deliver i (handleRequestVoteResponse src T g dl (cl_nodes c i)) {#x#} [] c) e'"
    and sub: "el_leaders e \<subseteq> el_leaders e'" and inv: "log_inv n c (el_leaders e) H"
  shows "\<exists>H'. log_inv n (deliver i (handleRequestVoteResponse src T g dl (cl_nodes c i)) {#x#} [] c) (el_leaders e') H'"
proof -
  let ?s = "cl_nodes c i" and ?s' = "handleRequestVoteResponse src T g dl (cl_nodes c i)"
  let ?s1 = "?s\<lparr>rn_votesGranted := rn_votesGranted ?s + 1\<rparr>"
  have ni: "node_log n H ?s" using inv by (simp add: log_inv_def)
  show ?thesis
  proof (cases "rn_state ?s = CANDIDATE \<and> rn_state ?s' = LEADER")
    case True
    then have s': "?s' = becomeLeader ?s1" and T: "rn_currentTerm ?s' = rn_currentTerm ?s"
      by (auto simp: handleRequestVoteResponse_def becomeFollower_def becomeLeader_def Let_def split: if_splits)
    have n1: "node_log n H ?s1" using node_log_frame [OF ni, of ?s1] ni by (auto simp: node_log_def node_ok_def)
    have "(i, rn_currentTerm ?s') \<notin> el_leaders e" using elected_rules(1) [OF e, of i "rn_currentTerm ?s"] True T by auto
    moreover have "0 < rn_currentTerm ?s'" using ni True T by (simp add: node_log_def)
    ultimately show ?thesis using True becomeLeader_log [OF n1] unfolding s'
      by (intro crown [OF e e' [unfolded s'] sub inv]) (auto simp: becomeLeader_def)
  next
    case False
    have "node_log n H ?s'"
      by (rule node_log_frame [OF ni]) (use False ni in \<open>auto simp: handleRequestVoteResponse_def becomeFollower_def
        becomeLeader_def Let_def node_log_def node_ok_def split: if_splits\<close>)
    then have "log_inv n (deliver i ?s' {#x#} [] c) (el_leaders e') H"
      by (rule log_inv_keep [OF inv sub]) simp
    then show ?thesis by blast
  qed
qed

lemma request_log:
  assumes "log_inv n c L H" and "L \<subseteq> L'" and "handleRequestVote src T cand li lt dl (cl_nodes c i) = (s, out)"
  shows "log_inv n (deliver i s taken out c) L' H"
proof (rule log_inv_keep [OF assms(1,2)])
  have ni: "node_log n H (cl_nodes c i)" using assms(1) by (simp add: log_inv_def)
  show "node_log n H s"
    by (rule node_log_frame [OF ni]) (use assms(3) ni in \<open>force simp: handleRequestVote_def becomeFollower_def
      Let_def node_log_def node_ok_def split: if_splits\<close>)+
  show "packet_log H x" if "x \<in># post i out" for x
    using assms(3) that by (auto simp: handleRequestVote_def Let_def)
qed

lemma slice_entries:
  assumes "hist_ok L H" and "packet_log H (src, d, AppendEntries T l pi pt lc es)"
  shows "entries_from (pi + 1) es"
proof -
  have "H T \<noteq> []" using assms(2) by auto
  then have "log_ok (H T)" using assms(1) unfolding hist_ok_def by blast
  moreover have "es ! j = H T ! (pi + 1 + j)" if "j < length es" for j
    using slice_nth [OF _ that, of "Suc pi" "H T"] assms(2) by simp
  ultimately show ?thesis using assms(2) by (auto simp: entries_from_def log_ok_def)
qed

lemma append_log:
  assumes inv: "log_inv n c L H" and sub: "L \<subseteq> L'" and x: "(src, i, AppendEntries T l pi pt lc es) \<in># cl_net c"
    and step: "handleAppendEntries src T l pi pt es lc dl (cl_nodes c i) = Inr (s, out, ap)"
  shows "log_inv n (deliver i s taken out c) L' H"
proof (rule log_inv_keep [OF inv sub])
  let ?s = "cl_nodes c i"
  have ni: "node_log n H ?s" and hist: "hist_ok L H" and pk: "packet_log H (src, i, AppendEntries T l pi pt lc es)"
    using inv x unfolding log_inv_def by blast+
  have ok: "node_ok s" using handleAppendEntries_ok [of ?s pi es src T l pt lc dl] step ni slice_entries [OF hist pk]
    by (auto simp: node_log_def)
  show "node_log n H s"
  proof (cases "T < rn_currentTerm ?s")
    case True
    then show ?thesis using step ni by (auto simp: handleAppendEntries_def)
  next
    case False
    note F = append_frame [OF step False]
    have F': "rn_state s = FOLLOWER" using arg_cong [OF F(1), of ro_state] by simp
    have ch: "chain H (rn_log ?s)" "chain H (H T)" using ni hist by (auto simp: node_log_def hist_ok_def)
    have "chain H (rn_log s)"
    proof (cases "pi < length (rn_log ?s) \<and> le_term (rn_log ?s ! pi) = pt")
      case True
      then have "rn_log s = rn_log ?s \<or> rn_log s = take (Suc (pi + length es)) (H T)"
        using append_loop_slice [OF ch, of pi es] pk F(4) by simp
      then show ?thesis using ch chain_take by auto
    next
      case False
      then show ?thesis using F(4) ch by auto
    qed
    then show ?thesis using ok F' F(5) ni by (simp add: node_log_def)
  qed
  show "packet_log H y" if "y \<in># post i out" for y
  proof (cases "T < rn_currentTerm ?s")
    case True
    then show ?thesis using step that by (auto simp: handleAppendEntries_def)
  next
    case False
    then show ?thesis using append_frame(6) [OF step False] that pk by auto
  qed
qed

lemma resp_peerState:
  assumes "handleAppendEntriesResponse src T ok mi dl s = Inr (s', es)"
    and "rn_state s = LEADER" and "T = rn_currentTerm s"
  shows "rn_peerState s' =
    (if ok then (rn_peerState s)[src := (rn_peerState s ! src)
       \<lparr>ps_matchIndex := max (ps_matchIndex (rn_peerState s ! src)) mi, ps_nextIndex := mi + 1\<rparr>]
     else if ps_nextIndex (rn_peerState s ! src) > 1 then (rn_peerState s)[src := (rn_peerState s ! src)
       \<lparr>ps_nextIndex := ps_nextIndex (rn_peerState s ! src) - 1\<rparr>]
     else rn_peerState s)"
proof (cases ok)
  case True
  let ?s1 = "s\<lparr>rn_peerState := (rn_peerState s)[src := (rn_peerState s ! src)
    \<lparr>ps_matchIndex := max (ps_matchIndex (rn_peerState s ! src)) mi, ps_nextIndex := mi + 1\<rparr>]\<rparr>"
  obtain s2 where s2: "advanceCommitIndex ?s1 = Inr s2" "drain_committed s2 = Inr (s', es)"
    using True assms by (auto simp: handleAppendEntriesResponse_def Let_def split: sum.splits)
  have "s2 = ?s1\<lparr>rn_commitIndex := rn_commitIndex s2\<rparr>" "s' = s2\<lparr>rn_lastApplied := rn_lastApplied s'\<rparr>"
    using s2 commit_scan_frame drain_committed_frame unfolding advanceCommitIndex_def by blast+
  from this [THEN arg_cong, of rn_peerState] have "rn_peerState s' = rn_peerState ?s1" by simp
  then show ?thesis using True by simp
next
  case False
  then show ?thesis using assms by (auto simp: handleAppendEntriesResponse_def Let_def)
qed

lemma resp_log:
  assumes inv: "log_inv n c L H" and sub: "L \<subseteq> L'" and x: "(src, i, AppendEntriesResp T ok mi) \<in># cl_net c" and "src < n"
    and step: "handleAppendEntriesResponse src T ok mi dl (cl_nodes c i) = Inr (s, ap)"
  shows "log_inv n (deliver i s taken [] c) L' H"
proof (rule log_inv_keep [OF inv sub])
  let ?s = "cl_nodes c i"
  have ni: "node_log n H ?s" and pk: "packet_log H (src, i, AppendEntriesResp T ok mi)"
    using inv x unfolding log_inv_def by blast+
  have ok: "node_ok s" using handleAppendEntriesResponse_ok [of ?s src T ok mi dl] step ni by (auto simp: node_log_def)
  have F: "rn_log s = rn_log ?s \<and> rn_state s = rn_state ?s \<and> rn_currentTerm s = rn_currentTerm ?s"
    if "\<not> T > rn_currentTerm ?s"
  proof -
    have E: "s = ?s\<lparr>rn_peerState := rn_peerState s, rn_commitIndex := rn_commitIndex s, rn_lastApplied := rn_lastApplied s\<rparr>"
      using append_resp_frame [OF step] that by simp
    from E [THEN arg_cong, of rn_log] E [THEN arg_cong, of rn_state] E [THEN arg_cong, of rn_currentTerm]
    show ?thesis by simp
  qed
  show "node_log n H s"
  proof (cases "rn_state ?s = LEADER \<and> T = rn_currentTerm ?s")
    case True
    note P = resp_peerState [OF step]
    have old: "1 \<le> ps_nextIndex ps \<and> ps_nextIndex ps \<le> length (rn_log ?s)" if "ps \<in> set (rn_peerState ?s)" for ps
      using that ni True unfolding node_log_def by blast
    have src: "rn_peerState ?s ! src \<in> set (rn_peerState ?s)" using ni assms(4) by (simp add: node_log_def)
    have mi: "ok \<Longrightarrow> mi < length (rn_log ?s)" using pk ni True by (simp add: node_log_def)
    have "1 \<le> ps_nextIndex ps \<and> ps_nextIndex ps \<le> length (rn_log ?s)" if "ps \<in> set (rn_peerState s)" for ps
    proof (cases "ps \<in> set (rn_peerState ?s)")
      case True then show ?thesis by (rule old)
    next
      case False
      then show ?thesis using that P True old [OF src] mi \<open>rn_state ?s = LEADER \<and> T = rn_currentTerm ?s\<close>
        by (auto split: if_splits dest!: set_update_subset_insert [THEN subsetD])
    qed
    then show ?thesis using ni ok F P True by (auto simp: node_log_def)
  next
    case False
    then show ?thesis
      by (intro node_log_frame [OF ni]) (use step ok in \<open>auto simp: handleAppendEntriesResponse_def becomeFollower_def split: if_splits\<close>)
  qed
qed simp

lemma log_inv_step:
  assumes "cl_step n c c'" and "elected n c e" and "elected n c' e'" and "el_leaders e \<subseteq> el_leaders e'"
    and "log_inv n c (el_leaders e) H"
  shows "\<exists>H'. log_inv n c' (el_leaders e') H'"
  using assms(1)
proof cases
  case (elect i dl s out)
  then show ?thesis using elect_log [OF assms(2) _ assms(4,5)] assms(3) by blast
next
  case (replicate_log i p out)
  have "node_log n H (cl_nodes c i)" using assms(5) by (simp add: log_inv_def)
  moreover have "packet_log H x" if "x \<in># post i out" for x
  proof (cases "rn_state (cl_nodes c i) = LEADER")
    case True
    have "p < n" using replicate_log(3) elected_rules(3) [OF assms(2)] by auto
    then show ?thesis using send_log [OF assms(5) _ True, of p] replicate_log(4) that by auto
  next
    case False
    then show ?thesis using replicate_log(4) that by (auto simp: sendAppendEntriesTo_def)
  qed
  ultimately show ?thesis unfolding replicate_log(1) using log_inv_keep [OF assms(5,4)] by blast
next
  case (client i cmd ok s)
  then show ?thesis using client_log [OF assms(2,4,5)] by blast
next
  case (receive src i m dl s out es)
  have src: "src < n" using elected_rules(4) [OF assms(2) receive(2)] by (auto simp: packet_ok_def)
  show ?thesis
  proof (cases m)
    case (RequestVote t cd li lt)
    then show ?thesis using receive request_log [OF assms(5,4)]
      by (fastforce simp: raft_receive_def split: prod.splits)
  next
    case (RequestVoteResp t g)
    then have "s = handleRequestVoteResponse src t g dl (cl_nodes c i)" "out = []"
      using receive(3) by (auto simp: raft_receive_def)
    then show ?thesis using response_log [OF assms(2) _ assms(4,5)] assms(3) receive(1) by blast
  next
    case (AppendEntries t l pi pt lc en)
    then show ?thesis using receive append_log [OF assms(5,4)] by (fastforce simp: raft_receive_def)
  next
    case (AppendEntriesResp t ok mi)
    then show ?thesis using receive src resp_log [OF assms(5,4)]
      by (fastforce simp: raft_receive_def split: sum.splits)
  qed
next
  case (lose x)
  have "log_inv n c' (el_leaders e') H"
    using assms(5) hist_ok_mono [OF _ assms(4)] unfolding lose(1) log_inv_def by (auto dest: in_diffD)
  then show ?thesis by blast
qed

lemma reach_log_inv:
  assumes "cl_steps n (cluster_new n) c"
  obtains e H where "elected n c e" and "log_inv n c (el_leaders e) H"
proof -
  from assms have "\<exists>e H. elected n c e \<and> log_inv n c (el_leaders e) H"
  proof (induction rule: rtranclp_induct)
    case base
    have "el_leaders el_start = {}" by (simp add: el_start_def)
    then show ?case using elected_start [of n] log_inv_start [of n] by metis
  next
    case (step c1 c2)
    then obtain e H where e: "elected n c1 e" "log_inv n c1 (el_leaders e) H" by blast
    obtain e' where e': "elected n c2 e'" "el_leaders e \<subseteq> el_leaders e'" and "el_leaders e' \<subseteq> el_leaders e \<union> leads c2"
      using elected_step [OF step.hyps(2) e(1)] .
    then show ?case using log_inv_step [OF step.hyps(2) e(1) e' e(2)] by blast
  qed
  then show thesis using that by blast
qed

section \<open>A sample execution\<close>

text \<open>Three nodes: node 0 stands for election, node 1 votes for it, node 0 wins, accepts a command and
  replicates it to node 1.\<close>

definition demo_run :: "cl_action list" where
  "demo_run = [Elect 0 0, Receive 0 1 (RequestVote 1 0 0 0) 0, Receive 1 0 (RequestVoteResp 1 True) 0,
     Client 0 ''x'', Replicate 0 1,
     Receive 0 1 (AppendEntries 1 0 0 0 0 [\<lparr>le_term = 1, le_index = 1, le_command = ''x''\<rparr>]) 0]"

definition demo :: "nat \<Rightarrow> cluster" where
  "demo k = the (cl_run 3 (take k demo_run) (cluster_new 3))"

lemma cl_run_append:
  "cl_run n (as @ bs) c = (case cl_run n as c of None \<Rightarrow> None | Some c' \<Rightarrow> cl_run n bs c')"
  by (induction as arbitrary: c) (auto split: option.splits)

lemma demo_run_ok: "cl_run 3 demo_run (cluster_new 3) \<noteq> None"
proof -
  have "\<not> Option.is_none (cl_run 3 demo_run (cluster_new 3))" by code_simp
  then show ?thesis by (simp add: Option.is_none_def)
qed

lemma demo_steps: "cl_steps 3 (cluster_new 3) (demo k)"
proof (rule cl_run_steps)
  show "cl_run 3 (take k demo_run) (cluster_new 3) = Some (demo k)"
    using demo_run_ok cl_run_append [of 3 "take k demo_run" "drop k demo_run" "cluster_new 3"]
    by (auto simp: demo_def split: option.splits)
qed

section \<open>Properties\<close>

text \<open>
  C4. Log Matching: in every reachable state of the cluster, if the logs of two nodes have an entry of
  the same term at the same index, they are equal up to and including that index.
\<close>

theorem raft_log_matching:
  assumes "cl_steps n (cluster_new n) c"
    and "k < length (rn_log (cl_nodes c i))" and "k < length (rn_log (cl_nodes c j))"
    and "le_term (rn_log (cl_nodes c i) ! k) = le_term (rn_log (cl_nodes c j) ! k)"
  shows "take (Suc k) (rn_log (cl_nodes c i)) = take (Suc k) (rn_log (cl_nodes c j))"
proof -
  obtain e H where "elected n c e" and inv: "log_inv n c (el_leaders e) H" using reach_log_inv [OF assms(1)] .
  from inv have "chain H (rn_log (cl_nodes c i))" "chain H (rn_log (cl_nodes c j))"
    by (simp_all add: log_inv_def node_log_def)
  then show ?thesis using assms(2-) by (rule chain_agree)
qed

theorem raft_log_matching_witness:
  "take 2 (rn_log (cl_nodes (demo 6) 0)) = take 2 (rn_log (cl_nodes (demo 6) 1)) \<and>
   length (rn_log (cl_nodes (demo 6) 1)) = 2"
proof
  have "Suc 1 \<le> length (rn_log (cl_nodes (demo 6) 0))" "Suc 1 \<le> length (rn_log (cl_nodes (demo 6) 1))"
    "le_term (rn_log (cl_nodes (demo 6) 0) ! 1) = le_term (rn_log (cl_nodes (demo 6) 1) ! 1)" by code_simp+
  then show "take 2 (rn_log (cl_nodes (demo 6) 0)) = take 2 (rn_log (cl_nodes (demo 6) 1))"
    using raft_log_matching [OF demo_steps [of 6], of 1 0 1] by (simp add: numeral_2_eq_2)
  show "length (rn_log (cl_nodes (demo 6) 1)) = 2" by code_simp
qed

text \<open>
  C5. In every reachable state of the cluster no handler reads its log out of range: any packet in
  flight can be received, and a leader can build the message for any peer.
\<close>

theorem raft_never_out_of_range:
  assumes "cl_steps n (cluster_new n) c" and "i < n"
  shows "(\<forall>src m dl. (src, i, m) \<in># cl_net c \<longrightarrow> (\<exists>r. raft_receive src m dl (cl_nodes c i) = Inr r)) \<and>
    (\<forall>p < n. \<exists>out. sendAppendEntriesTo p (cl_nodes c i) = Inr out)"
proof -
  obtain e H where "elected n c e" and inv: "log_inv n c (el_leaders e) H" using reach_log_inv [OF assms(1)] .
  have "\<exists>r. raft_receive src m dl (cl_nodes c i) = Inr r" if "(src, i, m) \<in># cl_net c" for src m dl
  proof -
    have p: "packet_log H (src, i, m)" "hist_ok (el_leaders e) H" "node_ok (cl_nodes c i)"
      using inv that unfolding log_inv_def node_log_def by blast+
    have "msg_ok m" using slice_entries [OF p(2), of src i] p(1) by (cases m) (simp_all add: msg_ok_def)
    then show ?thesis using raft_receive_ok [OF p(3)] by blast
  qed
  moreover have "\<exists>out. sendAppendEntriesTo p (cl_nodes c i) = Inr out" if "p < n" for p
    using send_log [OF inv that, of i] by (cases "rn_state (cl_nodes c i) = LEADER") (auto simp: sendAppendEntriesTo_def)
  ultimately show ?thesis by blast
qed

theorem raft_never_out_of_range_witness:
  "(\<exists>r. raft_receive 0 (RequestVote 1 0 0 0) 0 (cl_nodes (demo 3) 2) = Inr r) \<and>
   (\<exists>out. sendAppendEntriesTo 1 (cl_nodes (demo 4) 0) = Inr out)"
proof
  have "(0, 2, RequestVote 1 0 0 0) \<in># cl_net (demo 3)" by code_simp
  then show "\<exists>r. raft_receive 0 (RequestVote 1 0 0 0) 0 (cl_nodes (demo 3) 2) = Inr r"
    using raft_never_out_of_range [OF demo_steps [of 3], of 2] by simp
  show "\<exists>out. sendAppendEntriesTo 1 (cl_nodes (demo 4) 0) = Inr out"
    using raft_never_out_of_range [OF demo_steps [of 4], of 0] by simp
qed

text \<open>
  C3. Election safety: over a whole execution at most one node is ever leader in a term, even when the
  two moments of leadership are far apart.
\<close>

theorem raft_election_safety:
  assumes "cl_steps n (cluster_new n) c" and "cl_steps n c c'"
    and "rn_state (cl_nodes c i) = LEADER" and "rn_state (cl_nodes c' j) = LEADER"
    and "rn_currentTerm (cl_nodes c i) = rn_currentTerm (cl_nodes c' j)"
  shows "i = j"
proof -
  obtain e where e: "elected n c e" using elected_steps [OF assms(1) elected_start] by blast
  obtain e' where e': "elected n c' e'" "el_leaders e \<subseteq> el_leaders e'" using elected_steps [OF assms(2) e] by blast
  show ?thesis
    using elected_unique [OF e'(1)] elected_leader [OF e assms(3)] elected_leader [OF e'(1) assms(4)] e'(2) assms(5)
    by auto
qed

theorem raft_election_safety_witness:
  "\<exists>j. rn_state (cl_nodes (demo 6) j) = LEADER \<and> rn_currentTerm (cl_nodes (demo 6) j) = 1 \<and> j = 0"
proof -
  have l: "rn_state (cl_nodes (demo 6) 0) = LEADER" "rn_currentTerm (cl_nodes (demo 6) 0) = 1"
    "rn_state (cl_nodes (demo 3) 0) = LEADER" "rn_currentTerm (cl_nodes (demo 3) 0) = 1" by code_simp+
  have all: "take 6 demo_run = demo_run" by (simp add: demo_run_def)
  have "cl_steps 3 (demo 3) (demo 6)"
  proof (rule cl_run_steps)
    show "cl_run 3 (drop 3 demo_run) (demo 3) = Some (demo 6)"
      using demo_run_ok cl_run_append [of 3 "take 3 demo_run" "drop 3 demo_run" "cluster_new 3"] all
      by (auto simp: demo_def split: option.splits)
  qed
  from raft_election_safety [OF demo_steps this l(3,1)] l show ?thesis by auto
qed

end
