(* ===== verification/Raft_Wire.thy ===== *)
theory Raft_Wire
  imports Raft_Node "HOL-Library.Monad_Syntax"
begin

text \<open>
  The wire format of \<open>networking/raft\<close>: the \<open>Writer\<close> and \<open>Reader\<close> helpers, one encoder per message and
  the decoding switch of \<open>receiverLoop\<close>, on lists of bytes. The source reads without checking the
  remaining length; a read past the end of the frame is \<open>None\<close> here.
\<close>

section \<open>Writer and Reader\<close>

type_synonym bytes = "u8 list"

definition w_u8 :: "u8 \<Rightarrow> bytes" where
  "w_u8 v = [v]"

text \<open>\<open>htonl\<close> followed by a copy of the four bytes: most significant byte first.\<close>

definition w_u32 :: "u32 \<Rightarrow> bytes" where
  "w_u32 v = [ucast (drop_bit 24 v), ucast (drop_bit 16 v), ucast (drop_bit 8 v), ucast v]"

definition w_u64 :: "u64 \<Rightarrow> bytes" where
  "w_u64 v = w_u32 (ucast (drop_bit 32 v)) @ w_u32 (ucast (v AND 0xffffffff))"

definition byte_of_char :: "char \<Rightarrow> u8" where
  "byte_of_char c = word_of_nat (of_char c)"

definition char_of_byte :: "u8 \<Rightarrow> char" where
  "char_of_byte b = char_of (unat b)"

definition w_str :: "string \<Rightarrow> bytes" where
  "w_str s = w_u32 (word_of_nat (length s)) @ map byte_of_char s"

fun r_u8 :: "bytes \<Rightarrow> (u8 \<times> bytes) option" where
  "r_u8 (v # p) = Some (v, p)"
| "r_u8 [] = None"

fun r_u32 :: "bytes \<Rightarrow> (u32 \<times> bytes) option" where
  "r_u32 (a # b # c # d # p) =
     Some (push_bit 24 (ucast a) OR push_bit 16 (ucast b) OR push_bit 8 (ucast c) OR ucast d, p)"
| "r_u32 _ = None"

definition r_u64 :: "bytes \<Rightarrow> (u64 \<times> bytes) option" where
  "r_u64 p = (case r_u32 p of
     None \<Rightarrow> None
   | Some (hi, p) \<Rightarrow> (case r_u32 p of
       None \<Rightarrow> None
     | Some (lo, p) \<Rightarrow> Some (push_bit 32 (ucast hi) OR ucast lo, p)))"

definition r_str :: "bytes \<Rightarrow> (string \<times> bytes) option" where
  "r_str p = (case r_u32 p of
     None \<Rightarrow> None
   | Some (len, p) \<Rightarrow> if length p < unat len then None
       else Some (map char_of_byte (take (unat len) p), drop (unat len) p))"

section \<open>Messages\<close>

definition bool_u8 :: "bool \<Rightarrow> u8" where
  "bool_u8 b = (if b then 1 else 0)"

definition w_entry :: "log_entry \<Rightarrow> bytes" where
  "w_entry e = w_u64 (word_of_nat (le_term e)) @ w_str (le_command e)"

fun encode_msg :: "raft_msg \<Rightarrow> bytes" where
  "encode_msg (RequestVote term candidateId lastLogIndex lastLogTerm) =
     w_u8 1 @ w_u64 (word_of_nat term) @ w_u32 (word_of_nat candidateId) @
     w_u64 (word_of_nat lastLogIndex) @ w_u64 (word_of_nat lastLogTerm)"
| "encode_msg (RequestVoteResp term voteGranted) =
     w_u8 2 @ w_u64 (word_of_nat term) @ w_u8 (bool_u8 voteGranted)"
| "encode_msg (AppendEntries term leaderId prevLogIndex prevLogTerm leaderCommit entries) =
     w_u8 3 @ w_u64 (word_of_nat term) @ w_u32 (word_of_nat leaderId) @ w_u64 (word_of_nat prevLogIndex) @
     w_u64 (word_of_nat prevLogTerm) @ w_u64 (word_of_nat leaderCommit) @
     w_u32 (word_of_nat (length entries)) @ concat (map w_entry entries)"
| "encode_msg (AppendEntriesResp term success matchIndex) =
     w_u8 4 @ w_u64 (word_of_nat term) @ w_u8 (bool_u8 success) @ w_u64 (word_of_nat matchIndex)"

text \<open>The loop over \<open>numEntries\<close>: an entry's index is not sent but recomputed from its position.\<close>

fun r_entries :: "nat \<Rightarrow> nat \<Rightarrow> bytes \<Rightarrow> (log_entry list \<times> bytes) option" where
  "r_entries 0 idx p = Some ([], p)"
| "r_entries (Suc k) idx p = (case r_u64 p of
     None \<Rightarrow> None
   | Some (t, p) \<Rightarrow> (case r_str p of
       None \<Rightarrow> None
     | Some (cmd, p) \<Rightarrow> (case r_entries k (Suc idx) p of
         None \<Rightarrow> None
       | Some (es, p) \<Rightarrow> Some (\<lparr>le_term = unat t, le_index = idx, le_command = cmd\<rparr> # es, p))))"

datatype received = Shutdown | Ignored | Msg raft_msg

definition decode_frame :: "bytes \<Rightarrow> received option" where
  "decode_frame frame =
     (if frame = [] then Some Ignored
      else do {
        (tag, p) \<leftarrow> r_u8 frame;
        if tag = 0 then Some Shutdown
        else if tag = 1 then do {
          (term, p) \<leftarrow> r_u64 p; (candidateId, p) \<leftarrow> r_u32 p; (li, p) \<leftarrow> r_u64 p; (lt, p) \<leftarrow> r_u64 p;
          Some (Msg (RequestVote (unat term) (unat candidateId) (unat li) (unat lt))) }
        else if tag = 2 then do {
          (term, p) \<leftarrow> r_u64 p; (g, p) \<leftarrow> r_u8 p;
          Some (Msg (RequestVoteResp (unat term) (g \<noteq> 0))) }
        else if tag = 3 then do {
          (term, p) \<leftarrow> r_u64 p; (leaderId, p) \<leftarrow> r_u32 p; (pi, p) \<leftarrow> r_u64 p; (pt, p) \<leftarrow> r_u64 p;
          (lc, p) \<leftarrow> r_u64 p; (num, p) \<leftarrow> r_u32 p; (es, p) \<leftarrow> r_entries (unat num) (unat pi + 1) p;
          Some (Msg (AppendEntries (unat term) (unat leaderId) (unat pi) (unat pt) (unat lc) es)) }
        else if tag = 4 then do {
          (term, p) \<leftarrow> r_u64 p; (ok, p) \<leftarrow> r_u8 p; (mi, p) \<leftarrow> r_u64 p;
          Some (Msg (AppendEntriesResp (unat term) (ok \<noteq> 0) (unat mi))) }
        else Some Ignored })"

text \<open>Frames on the stream of one peer: a four-byte length and the payload.\<close>

definition sendFrame :: "bytes \<Rightarrow> bytes" where
  "sendFrame payload = w_u32 (word_of_nat (length payload)) @ payload"

definition recvFrame :: "bytes \<Rightarrow> (bytes \<times> bytes) option" where
  "recvFrame stream = (case r_u32 stream of
     None \<Rightarrow> None
   | Some (len, p) \<Rightarrow> if length p < unat len then None else Some (take (unat len) p, drop (unat len) p))"

text \<open>\<open>receiverLoop\<close> on a stream that ends: the messages it dispatches until the stream is exhausted
  (\<open>recv\<close> throws) or a shutdown frame arrives.\<close>

function receive_all :: "bytes \<Rightarrow> raft_msg list option" where
  "receive_all stream = (case recvFrame stream of
     None \<Rightarrow> Some []
   | Some (frame, rest) \<Rightarrow> (case decode_frame frame of
       None \<Rightarrow> None
     | Some Shutdown \<Rightarrow> Some []
     | Some Ignored \<Rightarrow> receive_all rest
     | Some (Msg m) \<Rightarrow> (case receive_all rest of None \<Rightarrow> None | Some ms \<Rightarrow> Some (m # ms))))"
  by pat_completeness auto

lemma r_u32_shorter: "r_u32 p = Some (v, p') \<Longrightarrow> length p' < length p"
  by (cases p rule: r_u32.cases) auto

termination receive_all
proof (relation "measure length")
qed (auto simp: recvFrame_def split: option.splits if_splits dest!: r_u32_shorter)

declare receive_all.simps [simp del]

section \<open>Round trips\<close>

lemma r_w_u8 [simp]: "r_u8 (w_u8 v @ p) = Some (v, p)"
  by (simp add: w_u8_def)

lemma u32_bytes:
  "push_bit 24 (ucast (ucast (drop_bit 24 v) :: u8)) OR push_bit 16 (ucast (ucast (drop_bit 16 v) :: u8)) OR
   push_bit 8 (ucast (ucast (drop_bit 8 v) :: u8)) OR ucast (ucast v :: u8) = (v :: u32)" (is "?l = v")
proof (rule bit_word_eqI)
  fix n assume "n < LENGTH(32)"
  then consider "n < 8" | "8 \<le> n" "n < 16" | "16 \<le> n" "n < 24" | "24 \<le> n" "n < 32" by fastforce
  then show "bit ?l n = bit v n"
    by cases (auto simp: bit_simps)
qed

lemma r_w_u32 [simp]: "r_u32 (w_u32 v @ p) = Some (v, p)"
  by (simp add: w_u32_def u32_bytes)

lemma u64_halves:
  "push_bit 32 (ucast (ucast (drop_bit 32 v) :: u32)) OR ucast (ucast (v AND 0xffffffff) :: u32) = (v :: u64)" (is "?l = v")
proof (rule bit_word_eqI)
  fix n assume "n < LENGTH(64)"
  moreover have "(0xffffffff :: u64) = mask 32" by (simp add: mask_eq_exp_minus_1)
  then have "bit (0xffffffff :: u64) n \<longleftrightarrow> n < 32" using bit_mask_iff [where ?'a = u64, of 32 n] calculation by simp
  ultimately show "bit ?l n = bit v n"
    by (cases "n < 32") (auto simp: bit_simps)
qed

lemma r_w_u64 [simp]: "r_u64 (w_u64 v @ p) = Some (v, p)"
  by (simp add: r_u64_def w_u64_def u64_halves)

lemma char_byte [simp]: "char_of_byte (byte_of_char c) = c"
proof -
  have "of_char c < (256::nat)" by simp
  then have "unat (word_of_nat (of_char c) :: u8) = of_char c" by (simp add: unsigned_of_nat take_bit_nat_eq_self)
  then show ?thesis by (simp add: char_of_byte_def byte_of_char_def)
qed

lemma length_w_u32 [simp]: "length (w_u32 v) = 4"
  by (simp add: w_u32_def)

lemma unat_u32 [simp]: "n < 2 ^ 32 \<Longrightarrow> unat (word_of_nat n :: u32) = n"
  by (simp add: unsigned_of_nat take_bit_nat_eq_self)

lemma unat_u64 [simp]: "n < 2 ^ 64 \<Longrightarrow> unat (word_of_nat n :: u64) = n"
  by (simp add: unsigned_of_nat take_bit_nat_eq_self)

lemma r_w_str [simp]: "length s < 2 ^ 32 \<Longrightarrow> r_str (w_str s @ p) = Some (s, p)"
  by (simp add: r_str_def w_str_def comp_def)

text \<open>What a message needs to fit the format: 64-bit terms and indices, 32-bit ids and sizes, and
  entries numbered from the previous index on.\<close>

definition entry_fits :: "log_entry \<Rightarrow> bool" where
  "entry_fits e \<longleftrightarrow> le_term e < 2 ^ 64 \<and> length (le_command e) < 2 ^ 32"

fun msg_fits :: "raft_msg \<Rightarrow> bool" where
  "msg_fits (RequestVote t cd li lt) \<longleftrightarrow> t < 2 ^ 64 \<and> cd < 2 ^ 31 \<and> li < 2 ^ 64 \<and> lt < 2 ^ 64"
| "msg_fits (RequestVoteResp t g) \<longleftrightarrow> t < 2 ^ 64"
| "msg_fits (AppendEntries t l pi pt lc es) \<longleftrightarrow> t < 2 ^ 64 \<and> l < 2 ^ 31 \<and> pi < 2 ^ 64 \<and> pt < 2 ^ 64 \<and> lc < 2 ^ 64 \<and>
     length es < 2 ^ 32 \<and> list_all entry_fits es \<and> entries_from (pi + 1) es"
| "msg_fits (AppendEntriesResp t ok mi) \<longleftrightarrow> t < 2 ^ 64 \<and> mi < 2 ^ 64"

lemma r_w_entries:
  "list_all entry_fits es \<Longrightarrow> entries_from idx es \<Longrightarrow>
   r_entries (length es) idx (concat (map w_entry es) @ p) = Some (es, p)"
proof (induction es arbitrary: idx)
  case (Cons e es)
  then show ?case by (cases e) (simp add: w_entry_def entry_fits_def entries_from_Cons)
qed simp

lemma decode_encode: "msg_fits m \<Longrightarrow> decode_frame (encode_msg m) = Some (Msg m)"
proof (cases m)
  case (RequestVote t cd li lt)
  assume "msg_fits m"
  then show ?thesis using RequestVote r_w_u64 [of _ "[]"]
    by (simp add: decode_frame_def bool_u8_def w_u8_def del: r_w_u64) (simp)
next
  case (RequestVoteResp t g)
  assume "msg_fits m"
  then show ?thesis using RequestVoteResp r_w_u8 [of _ "[]"] by (simp add: decode_frame_def bool_u8_def w_u8_def)
next
  case (AppendEntries t l pi pt lc es)
  assume "msg_fits m"
  then show ?thesis using AppendEntries r_w_entries [of es "pi + 1" "[]"] by (simp add: decode_frame_def w_u8_def)
next
  case (AppendEntriesResp t ok mi)
  assume "msg_fits m"
  then show ?thesis using AppendEntriesResp r_w_u64 [of _ "[]"] by (simp add: decode_frame_def bool_u8_def w_u8_def)
qed

lemma recv_send: "length payload < 2 ^ 32 \<Longrightarrow> recvFrame (sendFrame payload @ rest) = Some (payload, rest)"
  by (simp add: recvFrame_def sendFrame_def)

lemma recv_nil: "recvFrame [] = None"
  by (simp add: recvFrame_def)

section \<open>Properties\<close>

text \<open>
  C9. The wire format loses nothing: a stream that a node wrote by sending any sequence of messages that
  fit the field widths is decoded by the peer's receiver loop into exactly that sequence, whatever
  lengths, commands and entry counts the messages have.
\<close>

theorem raft_wire_roundtrip:
  assumes "\<forall>m \<in> set ms. msg_fits m \<and> length (encode_msg m) < 2 ^ 32"
  shows "receive_all (concat (map (\<lambda>m. sendFrame (encode_msg m)) ms)) = Some ms"
  using assms
proof (induction ms)
  case Nil
  then show ?case by (simp add: receive_all.simps recv_nil)
next
  case (Cons m ms)
  then show ?case
    by (simp add: receive_all.simps [of "sendFrame (encode_msg m) @ _"] recv_send decode_encode)
qed

theorem raft_wire_roundtrip_witness:
  "receive_all (sendFrame (encode_msg (RequestVote 5 2 7 4)) @
     sendFrame (encode_msg (AppendEntries 5 2 7 4 6 [\<lparr>le_term = 5, le_index = 8, le_command = ''set x''\<rparr>]))) =
   Some [RequestVote 5 2 7 4, AppendEntries 5 2 7 4 6 [\<lparr>le_term = 5, le_index = 8, le_command = ''set x''\<rparr>]]"
  using raft_wire_roundtrip [of "[RequestVote 5 2 7 4, AppendEntries 5 2 7 4 6 [\<lparr>le_term = 5, le_index = 8, le_command = ''set x''\<rparr>]]"]
  by (simp add: entry_fits_def entries_from_def w_u8_def w_u64_def w_entry_def w_str_def)

end
