(* ===== verification/Mpmc_Ring.thy ===== *)
theory Mpmc_Ring
  imports Prelude
begin

text \<open>
  The multi-producer multi-consumer ring of \<open>foundation/mpmc_queue.h\<close>, split at its atomic accesses.
  The record and the program counters are polymorphic in the type of positions: \<open>Mpmc_Queue\<close> runs the
  code on 64-bit words, this theory proves the algorithm on natural numbers, and \<open>Mpmc_Queue\<close> shows
  that the two agree while the position counters stay below 2^63.

  \<open>mq_pushed\<close> and \<open>mq_popped\<close> are histories: the values in the order their positions were claimed by a
  successful exchange on \<open>tail_\<close>, and the (position, value) pairs that completed pops returned.
\<close>

datatype ('p, 'a) mpmc_pc =
    Idle
  | PushReload 'a
  | PushLoad 'a 'p
  | PushCas 'a 'p
  | PushWrite 'a 'p
  | PushPub 'a 'p
  | PopReload
  | PopLoad 'p
  | PopCas 'p
  | PopRead 'p
  | PopRel 'p 'a

record ('p, 'a) mpmc =
  mq_tail :: 'p
  mq_head :: 'p
  mq_seq :: "'p list"
  mq_data :: "'a list"
  mq_pc :: "nat \<Rightarrow> ('p, 'a) mpmc_pc"
  mq_pushed :: "'a list"
  mq_popped :: "('p \<times> 'a) list"

definition goto :: "nat \<Rightarrow> ('p, 'a) mpmc_pc \<Rightarrow> ('p, 'a) mpmc \<Rightarrow> ('p, 'a) mpmc" where
  "goto i pc s = s\<lparr>mq_pc := (mq_pc s)(i := pc)\<rparr>"

lemma goto_simps [simp]:
  "mq_tail (goto i pc s) = mq_tail s" "mq_head (goto i pc s) = mq_head s" "mq_seq (goto i pc s) = mq_seq s"
  "mq_data (goto i pc s) = mq_data s" "mq_pc (goto i pc s) = (mq_pc s)(i := pc)"
  "mq_pushed (goto i pc s) = mq_pushed s" "mq_popped (goto i pc s) = mq_popped s"
  by (simp_all add: goto_def)

section \<open>The algorithm on natural numbers\<close>

type_synonym 'a ring = "(nat, 'a) mpmc"

abbreviation slot :: "'a ring \<Rightarrow> nat \<Rightarrow> nat" where
  "slot s p \<equiv> p mod length (mq_seq s)"

inductive ring_step :: "'a ring \<Rightarrow> 'a ring \<Rightarrow> bool" where
  push_start: "mq_pc s i = Idle \<Longrightarrow> ring_step s (goto i (PushReload v) s)"
| push_reload: "mq_pc s i = PushReload v \<Longrightarrow> ring_step s (goto i (PushLoad v (mq_tail s)) s)"
| push_free: "mq_pc s i = PushLoad v pos \<Longrightarrow> mq_seq s ! slot s pos = pos \<Longrightarrow> ring_step s (goto i (PushCas v pos) s)"
| push_full: "mq_pc s i = PushLoad v pos \<Longrightarrow> mq_seq s ! slot s pos < pos \<Longrightarrow> ring_step s (goto i Idle s)"
| push_stale: "mq_pc s i = PushLoad v pos \<Longrightarrow> mq_seq s ! slot s pos > pos \<Longrightarrow> ring_step s (goto i (PushReload v) s)"
| push_cas: "mq_pc s i = PushCas v pos \<Longrightarrow> mq_tail s = pos \<Longrightarrow>
    ring_step s ((goto i (PushWrite v pos) s)\<lparr>mq_tail := pos + 1, mq_pushed := mq_pushed s @ [v]\<rparr>)"
| push_cas_fail: "mq_pc s i = PushCas v pos \<Longrightarrow> ring_step s (goto i (PushLoad v (mq_tail s)) s)"
| push_write: "mq_pc s i = PushWrite v pos \<Longrightarrow>
    ring_step s ((goto i (PushPub v pos) s)\<lparr>mq_data := (mq_data s)[slot s pos := v]\<rparr>)"
| push_pub: "mq_pc s i = PushPub v pos \<Longrightarrow>
    ring_step s ((goto i Idle s)\<lparr>mq_seq := (mq_seq s)[slot s pos := pos + 1]\<rparr>)"
| pop_start: "mq_pc s i = Idle \<Longrightarrow> ring_step s (goto i PopReload s)"
| pop_reload: "mq_pc s i = PopReload \<Longrightarrow> ring_step s (goto i (PopLoad (mq_head s)) s)"
| pop_ready: "mq_pc s i = PopLoad pos \<Longrightarrow> mq_seq s ! slot s pos = pos + 1 \<Longrightarrow> ring_step s (goto i (PopCas pos) s)"
| pop_empty: "mq_pc s i = PopLoad pos \<Longrightarrow> mq_seq s ! slot s pos < pos + 1 \<Longrightarrow> ring_step s (goto i Idle s)"
| pop_stale: "mq_pc s i = PopLoad pos \<Longrightarrow> mq_seq s ! slot s pos > pos + 1 \<Longrightarrow> ring_step s (goto i PopReload s)"
| pop_cas: "mq_pc s i = PopCas pos \<Longrightarrow> mq_head s = pos \<Longrightarrow>
    ring_step s ((goto i (PopRead pos) s)\<lparr>mq_head := pos + 1\<rparr>)"
| pop_cas_fail: "mq_pc s i = PopCas pos \<Longrightarrow> ring_step s (goto i (PopLoad (mq_head s)) s)"
| pop_read: "mq_pc s i = PopRead pos \<Longrightarrow> ring_step s (goto i (PopRel pos (mq_data s ! slot s pos)) s)"
| pop_rel: "mq_pc s i = PopRel pos v \<Longrightarrow>
    ring_step s ((goto i Idle s)\<lparr>mq_seq := (mq_seq s)[slot s pos := pos + length (mq_seq s)],
      mq_popped := mq_popped s @ [(pos, v)]\<rparr>)"

section \<open>The invariant\<close>

text \<open>Who owns a position: a producer between its claim and its publication, a consumer between its claim
  and its release.\<close>

fun writes :: "(nat, 'a) mpmc_pc \<Rightarrow> nat option" where
  "writes (PushWrite v pos) = Some pos"
| "writes (PushPub v pos) = Some pos"
| "writes _ = None"

fun reads :: "(nat, 'a) mpmc_pc \<Rightarrow> nat option" where
  "reads (PopRead pos) = Some pos"
| "reads (PopRel pos v) = Some pos"
| "reads _ = None"

definition owned :: "('x \<Rightarrow> nat option) \<Rightarrow> (nat \<Rightarrow> 'x) \<Rightarrow> nat \<Rightarrow> bool" where
  "owned f P q \<longleftrightarrow> (\<exists>i. f (P i) = Some q)"

definition single_owner :: "('x \<Rightarrow> nat option) \<Rightarrow> (nat \<Rightarrow> 'x) \<Rightarrow> bool" where
  "single_owner f P \<longleftrightarrow> (\<forall>i j q. f (P i) = Some q \<longrightarrow> f (P j) = Some q \<longrightarrow> i = j)"

abbreviation writing :: "'a ring \<Rightarrow> nat \<Rightarrow> bool" where
  "writing s \<equiv> owned writes (mq_pc s)"

abbreviation reading :: "'a ring \<Rightarrow> nat \<Rightarrow> bool" where
  "reading s \<equiv> owned reads (mq_pc s)"

lemma owned_upd:
  assumes "single_owner f P"
  shows "owned f (P(i := x)) q \<longleftrightarrow> f x = Some q \<or> owned f P q \<and> f (P i) \<noteq> Some q"
proof -
  have "owned f (P(i := x)) q \<longleftrightarrow> f x = Some q \<or> (\<exists>j. j \<noteq> i \<and> f (P j) = Some q)"
    unfolding owned_def by (metis fun_upd_other fun_upd_same)
  moreover have "(\<exists>j. j \<noteq> i \<and> f (P j) = Some q) \<longleftrightarrow> owned f P q \<and> f (P i) \<noteq> Some q"
    using assms unfolding owned_def single_owner_def by metis
  ultimately show ?thesis by blast
qed

lemma single_owner_upd:
  assumes "single_owner f P" and "\<And>q. f x = Some q \<Longrightarrow> f (P i) = Some q \<or> \<not> owned f P q"
  shows "single_owner f (P(i := x))"
  unfolding single_owner_def
proof (intro allI impI)
  fix j k q assume "f ((P(i := x)) j) = Some q" "f ((P(i := x)) k) = Some q"
  then show "j = k" using assms unfolding single_owner_def owned_def by (metis fun_upd_other fun_upd_same)
qed

lemma ownedI: "f (P i) = Some q \<Longrightarrow> owned f P q"
  by (auto simp: owned_def)

text \<open>The sequence number of the slot that position \<open>p\<close> will use next, from the fate of its last use.\<close>

definition slot_val :: "'a ring \<Rightarrow> nat \<Rightarrow> nat" where
  "slot_val s p =
     (if p < length (mq_seq s) then p
      else if writing s (p - length (mq_seq s)) then p - length (mq_seq s)
      else if mq_head s \<le> p - length (mq_seq s) \<or> reading s (p - length (mq_seq s)) then p - length (mq_seq s) + 1
      else p)"

definition inv_counts :: "'a ring \<Rightarrow> bool" where
  "inv_counts s \<longleftrightarrow> 2 \<le> length (mq_seq s) \<and> length (mq_data s) = length (mq_seq s) \<and>
     mq_head s \<le> mq_tail s \<and> mq_tail s \<le> mq_head s + length (mq_seq s) \<and> length (mq_pushed s) = mq_tail s"

definition inv_own :: "'a ring \<Rightarrow> bool" where
  "inv_own s \<longleftrightarrow>
     (\<forall>q. writing s q \<longrightarrow> mq_head s \<le> q \<and> q < mq_tail s) \<and>
     (\<forall>q. reading s q \<longrightarrow> q < mq_head s \<and> mq_tail s \<le> q + length (mq_seq s)) \<and>
     single_owner writes (mq_pc s) \<and> single_owner reads (mq_pc s)"

definition inv_seq :: "'a ring \<Rightarrow> bool" where
  "inv_seq s \<longleftrightarrow> (\<forall>p. mq_tail s \<le> p \<longrightarrow> p < mq_tail s + length (mq_seq s) \<longrightarrow> mq_seq s ! slot s p = slot_val s p)"

fun pc_ok :: "'a ring \<Rightarrow> (nat, 'a) mpmc_pc \<Rightarrow> bool" where
  "pc_ok s (PushLoad v pos) \<longleftrightarrow> pos \<le> mq_tail s"
| "pc_ok s (PushCas v pos) \<longleftrightarrow> pos < mq_tail s \<or> pos = mq_tail s \<and> mq_seq s ! slot s pos = pos"
| "pc_ok s (PushWrite v pos) \<longleftrightarrow> v = mq_pushed s ! pos"
| "pc_ok s (PushPub v pos) \<longleftrightarrow> v = mq_pushed s ! pos \<and> mq_data s ! slot s pos = v"
| "pc_ok s (PopLoad pos) \<longleftrightarrow> pos \<le> mq_head s"
| "pc_ok s (PopCas pos) \<longleftrightarrow> pos < mq_head s \<or> pos = mq_head s \<and> mq_seq s ! slot s pos = pos + 1"
| "pc_ok s (PopRead pos) \<longleftrightarrow> mq_data s ! slot s pos = mq_pushed s ! pos"
| "pc_ok s (PopRel pos v) \<longleftrightarrow> v = mq_pushed s ! pos"
| "pc_ok s _ \<longleftrightarrow> True"

definition inv_pc :: "'a ring \<Rightarrow> bool" where
  "inv_pc s \<longleftrightarrow> (\<forall>i. pc_ok s (mq_pc s i)) \<and>
     (\<forall>q. mq_head s \<le> q \<longrightarrow> q < mq_tail s \<longrightarrow> \<not> writing s q \<longrightarrow> mq_data s ! slot s q = mq_pushed s ! q)"

definition inv_popped :: "'a ring \<Rightarrow> bool" where
  "inv_popped s \<longleftrightarrow> distinct (map fst (mq_popped s)) \<and>
     (\<forall>p v. (p, v) \<in> set (mq_popped s) \<longrightarrow> p < mq_head s \<and> v = mq_pushed s ! p \<and> \<not> reading s p) \<and>
     (\<forall>p < mq_head s. p \<in> fst ` set (mq_popped s) \<or> reading s p)"

definition ring_inv :: "'a ring \<Rightarrow> bool" where
  "ring_inv s \<longleftrightarrow> inv_counts s \<and> inv_own s \<and> inv_seq s \<and> inv_pc s \<and> inv_popped s"

definition ring_new :: "'a list \<Rightarrow> 'a ring" where
  "ring_new d = \<lparr>mq_tail = 0, mq_head = 0, mq_seq = [0..<length d], mq_data = d, mq_pc = (\<lambda>_. Idle),
     mq_pushed = [], mq_popped = []\<rparr>"

lemma ring_new_inv: "2 \<le> length d \<Longrightarrow> ring_inv (ring_new d)"
  by (auto simp: ring_inv_def inv_counts_def inv_own_def inv_seq_def inv_pc_def inv_popped_def ring_new_def
      owned_def single_owner_def slot_val_def)

lemma window_neq:
  assumes "t \<le> p" "p < t + n" "t \<le> p'" "p' < t + (n::nat)" "p \<noteq> p'"
  shows "p mod n \<noteq> p' mod n"
proof -
  have "p mod n \<noteq> p' mod n" if "t \<le> p" "p < p'" "p' < t + n" for p p'
    using mod_add_neq [of 0 "p' - p" n p] that by simp
  then show ?thesis using assms by (metis nat_neq_iff)
qed

lemma ring_invD:
  assumes "ring_inv s"
  shows "inv_counts s" "inv_own s" "inv_seq s" "inv_pc s" "inv_popped s"
  using assms by (simp_all add: ring_inv_def)

text \<open>Steps that only move a thread between program points that own nothing new.\<close>

lemma pc_ok_goto [simp]: "pc_ok (goto i pc s) x = pc_ok s x"
  by (cases x) simp_all

lemma owner_simps:
  assumes "inv_own s"
  shows "owned writes ((mq_pc s)(i := x)) q \<longleftrightarrow> writes x = Some q \<or> writing s q \<and> writes (mq_pc s i) \<noteq> Some q"
    and "owned reads ((mq_pc s)(i := x)) q \<longleftrightarrow> reads x = Some q \<or> reading s q \<and> reads (mq_pc s i) \<noteq> Some q"
  using assms by (auto simp: inv_own_def owned_upd)

lemma quiet_inv:
  assumes inv: "ring_inv s" and w: "writes pc = writes (mq_pc s i)" and r: "reads pc = reads (mq_pc s i)" and ok: "pc_ok s pc"
  shows "ring_inv (goto i pc s)"
proof -
  have W: "owned writes ((mq_pc s)(i := pc)) q = writing s q" and R: "owned reads ((mq_pc s)(i := pc)) q = reading s q" for q
    using owner_simps [OF ring_invD(2) [OF inv]] w r by (auto intro: ownedI)
  have "inv_counts (goto i pc s)" using ring_invD(1) [OF inv] by (simp add: inv_counts_def)
  moreover have "inv_own (goto i pc s)"
    using ring_invD(2) [OF inv] w r by (auto simp: inv_own_def W R intro: single_owner_upd)
  moreover have "inv_seq (goto i pc s)" using ring_invD(3) [OF inv] by (simp add: inv_seq_def slot_val_def W R)
  moreover have "inv_pc (goto i pc s)" using ring_invD(4) [OF inv] ok by (simp add: inv_pc_def W)
  moreover have "inv_popped (goto i pc s)" using ring_invD(5) [OF inv] by (simp add: inv_popped_def R)
  ultimately show ?thesis by (simp add: ring_inv_def)
qed

lemma slot_bounds:
  assumes "ring_inv s"
  shows "mq_seq s \<noteq> []" and "slot s p < length (mq_seq s)" and "slot s p < length (mq_data s)"
proof -
  have N: "0 < length (mq_seq s)" "length (mq_data s) = length (mq_seq s)"
    using ring_invD(1) [OF assms] by (auto simp: inv_counts_def)
  then show "mq_seq s \<noteq> []" and "slot s p < length (mq_seq s)" and "slot s p < length (mq_data s)" by simp_all
qed

lemma own_bounds:
  assumes "ring_inv s"
  shows "writes (mq_pc s j) = Some q \<Longrightarrow> mq_head s \<le> q \<and> q < mq_tail s \<and> mq_tail s \<le> q + length (mq_seq s)"
    and "reads (mq_pc s j) = Some q \<Longrightarrow> q < mq_head s \<and> q < mq_tail s \<and> mq_tail s \<le> q + length (mq_seq s)"
  using ring_invD(1,2) [OF assms] ownedI [of writes "mq_pc s" j q] ownedI [of reads "mq_pc s" j q]
  unfolding inv_own_def inv_counts_def by (meson add_le_mono1 order.trans, meson order_less_le_trans)

lemma own_unique:
  assumes "ring_inv s"
  shows "writes (mq_pc s j) = Some q \<Longrightarrow> writes (mq_pc s i) = Some q \<Longrightarrow> i = j"
    and "reads (mq_pc s j) = Some q \<Longrightarrow> reads (mq_pc s i) = Some q \<Longrightarrow> i = j"
  using ring_invD(2) [OF assms] unfolding inv_own_def single_owner_def by blast+

text \<open>A producer claims position \<open>t = tail\<close>: its slot was free.\<close>

lemma inv_seqD: "inv_seq s \<Longrightarrow> mq_tail s \<le> p \<Longrightarrow> p < mq_tail s + length (mq_seq s) \<Longrightarrow> mq_seq s ! slot s p = slot_val s p"
  by (simp add: inv_seq_def)

lemma free_slot:
  assumes inv: "ring_inv s" and free: "mq_seq s ! slot s (mq_tail s) = mq_tail s"
  shows "mq_tail s < mq_head s + length (mq_seq s)"
    and "reading s q \<Longrightarrow> mq_tail s < q + length (mq_seq s)"
proof -
  let ?t = "mq_tail s" and ?N = "length (mq_seq s)"
  have N: "2 \<le> ?N" using ring_invD(1) [OF inv] by (simp add: inv_counts_def)
  then have "mq_seq s ! slot s ?t = slot_val s ?t" by (intro inv_seqD [OF ring_invD(3) [OF inv]]) auto
  then have val: "slot_val s ?t = ?t" using free by simp
  have c: "?t < ?N \<or> ?N \<le> ?t \<and> ?t - ?N < mq_head s \<and> \<not> reading s (?t - ?N)"
    using val N by (auto simp: slot_val_def split: if_splits)
  then show "?t < mq_head s + ?N" by auto
  show "?t < q + ?N" if r: "reading s q"
  proof -
    have "?t \<le> q + ?N" using ring_invD(2) [OF inv] r by (auto simp: inv_own_def)
    moreover have "?t \<noteq> q + ?N" using c r by auto
    ultimately show ?thesis by simp
  qed
qed

lemma push_cas_inv:
  assumes inv: "ring_inv s" and pc: "mq_pc s i = PushCas v (mq_tail s)"
  shows "ring_inv ((goto i (PushWrite v (mq_tail s)) s)\<lparr>mq_tail := mq_tail s + 1, mq_pushed := mq_pushed s @ [v]\<rparr>)"
    (is "ring_inv ?s'")
proof -
  let ?t = "mq_tail s" and ?N = "length (mq_seq s)"
  note C = ring_invD(1) [OF inv, unfolded inv_counts_def] and O = ring_invD(2) [OF inv, unfolded inv_own_def]
  note I = ring_invD(4) [OF inv, unfolded inv_pc_def] and U = ring_invD(5) [OF inv, unfolded inv_popped_def]
  have "pc_ok s (mq_pc s i)" using I by blast
  then have free: "mq_seq s ! slot s ?t = ?t" unfolding pc by simp
  note F = free_slot [OF inv free]
  have W: "owned writes ((mq_pc s)(i := PushWrite v ?t)) q \<longleftrightarrow> q = ?t \<or> writing s q"
    and R: "owned reads ((mq_pc s)(i := PushWrite v ?t)) q \<longleftrightarrow> reading s q" for q
    using owner_simps [OF ring_invD(2) [OF inv], of i] pc by auto
  have nw: "\<not> writing s ?t" using O by blast
  have "inv_counts ?s'" using C F(1) by (simp add: inv_counts_def)
  moreover have "inv_own ?s'"
    using O C F(2) nw pc by (auto simp: inv_own_def W R Suc_le_eq less_Suc_eq intro!: single_owner_upd)
  moreover have "inv_seq ?s'"
    unfolding inv_seq_def
  proof (intro allI impI)
    fix p assume p: "mq_tail ?s' \<le> p" "p < mq_tail ?s' + length (mq_seq ?s')"
    show "mq_seq ?s' ! slot ?s' p = slot_val ?s' p"
    proof (cases "p = ?t + ?N")
      case True
      then show ?thesis using free C by (simp add: slot_val_def W R)
    next
      case False
      then show ?thesis using p inv_seqD [OF ring_invD(3) [OF inv], of p] by (auto simp: slot_val_def W R)
    qed
  qed
  moreover have "inv_pc ?s'"
    unfolding inv_pc_def
  proof (intro conjI allI impI)
    fix j
    have ok: "pc_ok s (mq_pc s j)" using I by blast
    have own: "writes (mq_pc s j) = Some q \<Longrightarrow> q < ?t" "reads (mq_pc s j) = Some q \<Longrightarrow> q < ?t" for q
      using own_bounds [OF inv, of j q] by auto
    show "pc_ok ?s' (mq_pc ?s' j)"
      using ok own C by (cases "mq_pc s j") (auto simp: nth_append)
  next
    fix q assume "mq_head ?s' \<le> q" "q < mq_tail ?s'" "\<not> writing ?s' q"
    then show "mq_data ?s' ! slot ?s' q = mq_pushed ?s' ! q"
      using I C by (auto simp: W nth_append less_Suc_eq)
  qed
  moreover have "inv_popped ?s'" using U C by (fastforce simp: inv_popped_def R nth_append)
  ultimately show ?thesis by (simp add: ring_inv_def)
qed

lemma push_write_inv:
  assumes inv: "ring_inv s" and pc: "mq_pc s i = PushWrite v pos"
  shows "ring_inv ((goto i (PushPub v pos) s)\<lparr>mq_data := (mq_data s)[slot s pos := v]\<rparr>)" (is "ring_inv ?s'")
proof -
  let ?t = "mq_tail s" and ?N = "length (mq_seq s)"
  note C = ring_invD(1) [OF inv, unfolded inv_counts_def] and O = ring_invD(2) [OF inv, unfolded inv_own_def]
  note I = ring_invD(4) [OF inv, unfolded inv_pc_def] and U = ring_invD(5) [OF inv, unfolded inv_popped_def]
  have wpos: "writing s pos" using pc by (intro ownedI [of _ _ i]) simp
  then have pos: "mq_head s \<le> pos" "pos < ?t" "?t \<le> pos + ?N" using O C by force+
  have W: "owned writes ((mq_pc s)(i := PushPub v pos)) q \<longleftrightarrow> writing s q"
    and R: "owned reads ((mq_pc s)(i := PushPub v pos)) q \<longleftrightarrow> reading s q" for q
    using owner_simps [OF ring_invD(2) [OF inv], of i] pc wpos by auto
  have other: "slot s q \<noteq> slot s pos" if "q \<noteq> pos" "q < ?t" "?t \<le> q + ?N" for q
    using window_neq [of ?t "q + ?N" ?N "pos + ?N"] that pos by simp
  have "inv_counts ?s'" using C by (simp add: inv_counts_def)
  moreover have "inv_own ?s'" using O pc by (auto simp: inv_own_def W R intro!: single_owner_upd)
  moreover have "inv_seq ?s'" using ring_invD(3) [OF inv] by (simp add: inv_seq_def slot_val_def W R)
  moreover have "inv_pc ?s'"
    unfolding inv_pc_def
  proof (intro conjI allI impI)
    fix j
    have ok: "pc_ok s (mq_pc s j)" "pc_ok s (mq_pc s i)" using I by blast+
    have own: "j \<noteq> i \<Longrightarrow> writes (mq_pc s j) = Some q \<Longrightarrow> slot s q \<noteq> slot s pos" "reads (mq_pc s j) = Some q \<Longrightarrow> slot s q \<noteq> slot s pos" for q
      using own_bounds [OF inv, of j q] own_unique [OF inv, of j q i] pos other [of q] pc by auto
    show "pc_ok ?s' (mq_pc ?s' j)"
      using ok own pc slot_bounds(3) [OF inv, of pos] by (cases "j = i"; cases "mq_pc s j") auto
  next
    fix q assume "mq_head ?s' \<le> q" "q < mq_tail ?s'" "\<not> writing ?s' q"
    then show "mq_data ?s' ! slot ?s' q = mq_pushed ?s' ! q"
      using I C other [of q] wpos by (cases "q = pos") (auto simp: W)
  qed
  moreover have "inv_popped ?s'" using U by (auto simp: inv_popped_def R)
  ultimately show ?thesis by (simp add: ring_inv_def)
qed

text \<open>A store to the sequence number of an owned position \<open>pos\<close>: no other slot of the window changes, and
  the threads about to exchange \<open>tail_\<close> or \<open>head_\<close> looked at other slots.\<close>

lemma cas_slots:
  assumes inv: "ring_inv s" and "writing s pos \<or> reading s pos"
  shows "mq_seq s ! slot s (mq_tail s) = mq_tail s \<Longrightarrow> slot s (mq_tail s) \<noteq> slot s pos"
    and "mq_seq s ! slot s (mq_head s) = mq_head s + 1 \<Longrightarrow>
      mq_head s < mq_tail s \<and> \<not> writing s (mq_head s) \<and> slot s (mq_head s) \<noteq> slot s pos"
proof -
  let ?t = "mq_tail s" and ?h = "mq_head s" and ?N = "length (mq_seq s)"
  note C = ring_invD(1) [OF inv, unfolded inv_counts_def] and O = ring_invD(2) [OF inv, unfolded inv_own_def]
  have b: "pos < ?t" "?t \<le> pos + ?N" using assms(2) O C by force+
  have val: "mq_seq s ! slot s p = slot_val s p" if "?t \<le> p" "p < ?t + ?N" for p
    using inv_seqD [OF ring_invD(3) [OF inv] that] .
  have at: "slot_val s (pos + ?N) \<in> {pos, pos + 1}" using assms(2) by (auto simp: slot_val_def)
  show "slot s ?t \<noteq> slot s pos" if "mq_seq s ! slot s ?t = ?t"
  proof
    assume eq: "slot s ?t = slot s pos"
    then have "?t = pos + ?N" using window_neq [of ?t ?t ?N "pos + ?N"] b slot_bounds(1) [OF inv] by auto
    moreover have "slot_val s ?t = ?t" using that val [of ?t] slot_bounds(1) [OF inv] by simp
    ultimately show False using at C by auto
  qed
  show "?h < ?t \<and> \<not> writing s ?h \<and> slot s ?h \<noteq> slot s pos" if hd: "mq_seq s ! slot s ?h = ?h + 1"
  proof -
    have lt: "?h < ?t"
    proof (rule ccontr)
      assume "\<not> ?h < ?t"
      then have "?h = ?t" using C by simp
      then show False using hd val [of ?t] slot_bounds(1) [OF inv] C by (auto simp: slot_val_def split: if_splits)
    qed
    then have v: "slot_val s (?h + ?N) = ?h + 1" using hd val [of "?h + ?N"] C by simp
    then have nw: "\<not> writing s ?h" by (auto simp: slot_val_def)
    have "slot s ?h \<noteq> slot s pos"
    proof
      assume "slot s ?h = slot s pos"
      then have "?h = pos" using window_neq [of ?t "?h + ?N" ?N "pos + ?N"] b lt C by auto
      then show False using nw assms(2) O by auto
    qed
    then show ?thesis using lt nw by blast
  qed
qed

lemma push_pub_inv:
  assumes inv: "ring_inv s" and pc: "mq_pc s i = PushPub v pos"
  shows "ring_inv ((goto i Idle s)\<lparr>mq_seq := (mq_seq s)[slot s pos := pos + 1]\<rparr>)" (is "ring_inv ?s'")
proof -
  let ?t = "mq_tail s" and ?N = "length (mq_seq s)"
  note C = ring_invD(1) [OF inv, unfolded inv_counts_def] and O = ring_invD(2) [OF inv, unfolded inv_own_def]
  note I = ring_invD(4) [OF inv, unfolded inv_pc_def] and U = ring_invD(5) [OF inv, unfolded inv_popped_def]
  have w: "writes (mq_pc s i) = Some pos" using pc by simp
  note pos = own_bounds(1) [OF inv w]
  have W: "owned writes ((mq_pc s)(i := Idle)) q \<longleftrightarrow> writing s q \<and> q \<noteq> pos"
    and R: "owned reads ((mq_pc s)(i := Idle)) q \<longleftrightarrow> reading s q" for q
    using owner_simps [OF ring_invD(2) [OF inv], of i] pc by auto
  have nr: "\<not> reading s pos" using O pos by auto
  have "inv_counts ?s'" using C by (simp add: inv_counts_def)
  moreover have "inv_own ?s'" using O by (auto simp: inv_own_def W R intro!: single_owner_upd)
  moreover have "inv_seq ?s'"
    unfolding inv_seq_def
  proof (intro allI impI)
    fix p assume p: "mq_tail ?s' \<le> p" "p < mq_tail ?s' + length (mq_seq ?s')"
    show "mq_seq ?s' ! slot ?s' p = slot_val ?s' p"
    proof (cases "p = pos + ?N")
      case True
      then show ?thesis using pos slot_bounds(2) [OF inv, of pos] by (simp add: slot_val_def W)
    next
      case False
      then have "slot s p \<noteq> slot s pos" using window_neq [of ?t p ?N "pos + ?N"] p pos by auto
      then show ?thesis using False p inv_seqD [OF ring_invD(3) [OF inv], of p] by (auto simp: slot_val_def W R)
    qed
  qed
  moreover have "inv_pc ?s'"
    unfolding inv_pc_def
  proof (intro conjI allI impI)
    fix j
    have ok: "pc_ok s (mq_pc s j)" using I by blast
    have "writing s pos" by (rule ownedI) (rule w)
    note cs = cas_slots [OF inv disjI1 [OF this]]
    show "pc_ok ?s' (mq_pc ?s' j)" using ok cs by (cases "mq_pc s j") auto
  next
    fix q assume q: "mq_head ?s' \<le> q" "q < mq_tail ?s'" "\<not> writing ?s' q"
    show "mq_data ?s' ! slot ?s' q = mq_pushed ?s' ! q"
    proof (cases "q = pos")
      case True
      have "pc_ok s (mq_pc s i)" using I by blast
      then show ?thesis using True pc by simp
    next
      case False
      then show ?thesis using q I by (auto simp: W)
    qed
  qed
  moreover have "inv_popped ?s'" using U by (simp add: inv_popped_def R)
  ultimately show ?thesis by (simp add: ring_inv_def)
qed

lemma pop_cas_inv:
  assumes inv: "ring_inv s" and pc: "mq_pc s i = PopCas (mq_head s)"
  shows "ring_inv ((goto i (PopRead (mq_head s)) s)\<lparr>mq_head := mq_head s + 1\<rparr>)" (is "ring_inv ?s'")
proof -
  let ?t = "mq_tail s" and ?h = "mq_head s" and ?N = "length (mq_seq s)"
  note C = ring_invD(1) [OF inv, unfolded inv_counts_def] and O = ring_invD(2) [OF inv, unfolded inv_own_def]
  note I = ring_invD(4) [OF inv, unfolded inv_pc_def] and U = ring_invD(5) [OF inv, unfolded inv_popped_def]
  have "pc_ok s (mq_pc s i)" using I by blast
  then have ready: "mq_seq s ! slot s ?h = ?h + 1" unfolding pc by simp
  have lt: "?h < ?t"
  proof (rule ccontr)
    assume "\<not> ?h < ?t"
    then have "?h = ?t" using C by simp
    then show False using ready inv_seqD [OF ring_invD(3) [OF inv], of ?t] slot_bounds(1) [OF inv] C
      by (auto simp: slot_val_def split: if_splits)
  qed
  then have "slot_val s (?h + ?N) = ?h + 1" using ready inv_seqD [OF ring_invD(3) [OF inv], of "?h + ?N"] C by simp
  then have nw: "\<not> writing s ?h" by (auto simp: slot_val_def)
  have nr: "\<not> reading s ?h" using O by blast
  have W: "owned writes ((mq_pc s)(i := PopRead ?h)) q \<longleftrightarrow> writing s q"
    and R: "owned reads ((mq_pc s)(i := PopRead ?h)) q \<longleftrightarrow> q = ?h \<or> reading s q" for q
    using owner_simps [OF ring_invD(2) [OF inv], of i] pc by auto
  have "inv_counts ?s'" using C lt by (simp add: inv_counts_def)
  moreover have "inv_own ?s'"
  proof -
    have "single_owner writes ((mq_pc s)(i := PopRead ?h))" "single_owner reads ((mq_pc s)(i := PopRead ?h))"
      using O nr by (auto intro!: single_owner_upd)
    moreover have "?h + 1 \<le> q \<and> q < ?t" if "writing s q" for q
      using that O nw by (metis Suc_eq_plus1 Suc_leI le_neq_implies_less)
    ultimately show ?thesis using O C by (auto simp: inv_own_def W R)
  qed
  moreover have "inv_seq ?s'"
    using ring_invD(3) [OF inv] nw by (auto simp: inv_seq_def slot_val_def W R Suc_le_eq le_less)
  moreover have "inv_pc ?s'"
    unfolding inv_pc_def
  proof (intro conjI allI impI)
    fix j
    have ok: "pc_ok s (mq_pc s j)" using I by blast
    have data: "mq_data s ! slot s ?h = mq_pushed s ! ?h" using I nw lt by auto
    show "pc_ok ?s' (mq_pc ?s' j)" using ok data by (cases "mq_pc s j") auto
  next
    fix q assume "mq_head ?s' \<le> q" "q < mq_tail ?s'" "\<not> writing ?s' q"
    then show "mq_data ?s' ! slot ?s' q = mq_pushed ?s' ! q" using I by (auto simp: W)
  qed
  moreover have "inv_popped ?s'" using U by (fastforce simp: inv_popped_def R less_Suc_eq)
  ultimately show ?thesis by (simp add: ring_inv_def)
qed

lemma pop_rel_inv:
  assumes inv: "ring_inv s" and pc: "mq_pc s i = PopRel pos v"
  shows "ring_inv ((goto i Idle s)\<lparr>mq_seq := (mq_seq s)[slot s pos := pos + length (mq_seq s)],
      mq_popped := mq_popped s @ [(pos, v)]\<rparr>)" (is "ring_inv ?s'")
proof -
  let ?t = "mq_tail s" and ?N = "length (mq_seq s)"
  note C = ring_invD(1) [OF inv, unfolded inv_counts_def] and O = ring_invD(2) [OF inv, unfolded inv_own_def]
  note I = ring_invD(4) [OF inv, unfolded inv_pc_def] and U = ring_invD(5) [OF inv, unfolded inv_popped_def]
  have r: "reads (mq_pc s i) = Some pos" using pc by simp
  note pos = own_bounds(2) [OF inv r]
  have rd: "reading s pos" by (rule ownedI) (rule r)
  have W: "owned writes ((mq_pc s)(i := Idle)) q \<longleftrightarrow> writing s q"
    and R: "owned reads ((mq_pc s)(i := Idle)) q \<longleftrightarrow> reading s q \<and> q \<noteq> pos" for q
    using owner_simps [OF ring_invD(2) [OF inv], of i] pc by auto
  have nw: "\<not> writing s pos" using O pos by auto
  have "inv_counts ?s'" using C by (simp add: inv_counts_def)
  moreover have "inv_own ?s'" using O by (auto simp: inv_own_def W R intro!: single_owner_upd)
  moreover have "inv_seq ?s'"
    unfolding inv_seq_def
  proof (intro allI impI)
    fix p assume p: "mq_tail ?s' \<le> p" "p < mq_tail ?s' + length (mq_seq ?s')"
    show "mq_seq ?s' ! slot ?s' p = slot_val ?s' p"
    proof (cases "p = pos + ?N")
      case True
      then show ?thesis using pos nw slot_bounds(2) [OF inv, of pos] by (simp add: slot_val_def W R)
    next
      case False
      then have "slot s p \<noteq> slot s pos" using window_neq [of ?t p ?N "pos + ?N"] p pos by auto
      then show ?thesis using False p inv_seqD [OF ring_invD(3) [OF inv], of p] by (auto simp: slot_val_def W R)
    qed
  qed
  moreover have "inv_pc ?s'"
    unfolding inv_pc_def
  proof (intro conjI allI impI)
    fix j
    have ok: "pc_ok s (mq_pc s j)" using I by blast
    note cs = cas_slots [OF inv disjI2 [OF rd]]
    show "pc_ok ?s' (mq_pc ?s' j)" using ok cs by (cases "mq_pc s j") auto
  next
    fix q assume "mq_head ?s' \<le> q" "q < mq_tail ?s'" "\<not> writing ?s' q"
    then show "mq_data ?s' ! slot ?s' q = mq_pushed ?s' ! q" using I by (auto simp: W)
  qed
  moreover have "inv_popped ?s'"
  proof -
    have "pc_ok s (mq_pc s i)" using I by blast
    then have "v = mq_pushed s ! pos" using pc by simp
    moreover have "pos \<notin> fst ` set (mq_popped s)" using U rd by auto
    ultimately show ?thesis using U pos by (auto simp: inv_popped_def R)
  qed
  ultimately show ?thesis by (simp add: ring_inv_def)
qed

lemma ring_step_inv:
  assumes "ring_step s s'" and inv: "ring_inv s"
  shows "ring_inv s'"
proof -
  have ok: "pc_ok s (mq_pc s i)" for i using ring_invD(4) [OF inv] by (simp add: inv_pc_def)
  show ?thesis
    using assms(1)
  proof cases
    case (push_free i v pos)
    show ?thesis unfolding push_free(1) using ok [of i] push_free(2-) by (intro quiet_inv [OF inv]) (auto simp: le_less)
  next
    case (pop_ready i pos)
    show ?thesis unfolding pop_ready(1) using ok [of i] pop_ready(2-) by (intro quiet_inv [OF inv]) (auto simp: le_less)
  next
    case (pop_read i pos)
    show ?thesis unfolding pop_read(1) using ok [of i] pop_read(2-) by (intro quiet_inv [OF inv]) auto
  next
    case (push_cas i v pos)
    then show ?thesis using push_cas_inv [OF inv, of i v] by simp
  next
    case (pop_cas i pos)
    then show ?thesis using pop_cas_inv [OF inv, of i] by simp
  qed (use push_write_inv push_pub_inv pop_rel_inv inv quiet_inv [OF inv] in \<open>auto\<close>)
qed

end
