(* ===== verification/Mpmc_Queue.thy ===== *)
theory Mpmc_Queue
  imports Mpmc_Ring
begin

text \<open>
  \<open>foundation/mpmc_queue.h\<close>: \<open>push\<close> and \<open>pop\<close> of any number of threads, split at their atomic accesses,
  on 64-bit positions. A rule is one atomic access together with the local work up to the next one;
  \<open>compare_exchange_weak\<close> may fail spuriously. The signed difference \<open>dif\<close> is exact as long as it does not
  overflow, which the bound on \<open>tail_\<close> in \<open>mpmc_reach\<close> rules out (fewer than 2^63 pushes).
\<close>

section \<open>The code\<close>

type_synonym 'a mpmc_queue = "(u64, 'a) mpmc"

definition mpmc_static_assert :: "u64 \<Rightarrow> bool" where
  "mpmc_static_assert n \<longleftrightarrow> 2 \<le> n \<and> pow2 n"

definition mpmc_new :: "u64 \<Rightarrow> 'a \<Rightarrow> 'a mpmc_queue" where
  "mpmc_new n junk = \<lparr>mq_tail = 0, mq_head = 0, mq_seq = map word_of_nat [0..<unat n],
     mq_data = replicate (unat n) junk, mq_pc = (\<lambda>_. Idle), mq_pushed = [], mq_popped = []\<rparr>"

definition mpmc_index :: "u64 \<Rightarrow> u64 \<Rightarrow> nat" where
  "mpmc_index n pos = unat (pos AND (n - 1))"

definition push_dif :: "u64 \<Rightarrow> 'a mpmc_queue \<Rightarrow> u64 \<Rightarrow> int" where
  "push_dif n s pos = sint (mq_seq s ! mpmc_index n pos) - sint pos"

definition pop_dif :: "u64 \<Rightarrow> 'a mpmc_queue \<Rightarrow> u64 \<Rightarrow> int" where
  "pop_dif n s pos = sint (mq_seq s ! mpmc_index n pos) - sint (pos + 1)"

definition mpmc_capacity :: "u64 \<Rightarrow> u64" where
  "mpmc_capacity n = n"

inductive mpmc_step :: "u64 \<Rightarrow> 'a mpmc_queue \<Rightarrow> 'a mpmc_queue \<Rightarrow> bool" for n where
  wpush_start: "mq_pc s i = Idle \<Longrightarrow> mpmc_step n s (goto i (PushReload v) s)"
| wpush_reload: "mq_pc s i = PushReload v \<Longrightarrow> mpmc_step n s (goto i (PushLoad v (mq_tail s)) s)"
| wpush_free: "mq_pc s i = PushLoad v pos \<Longrightarrow> push_dif n s pos = 0 \<Longrightarrow> mpmc_step n s (goto i (PushCas v pos) s)"
| wpush_full: "mq_pc s i = PushLoad v pos \<Longrightarrow> push_dif n s pos < 0 \<Longrightarrow> mpmc_step n s (goto i Idle s)"
| wpush_stale: "mq_pc s i = PushLoad v pos \<Longrightarrow> push_dif n s pos > 0 \<Longrightarrow> mpmc_step n s (goto i (PushReload v) s)"
| wpush_cas: "mq_pc s i = PushCas v pos \<Longrightarrow> mq_tail s = pos \<Longrightarrow>
    mpmc_step n s ((goto i (PushWrite v pos) s)\<lparr>mq_tail := pos + 1, mq_pushed := mq_pushed s @ [v]\<rparr>)"
| wpush_cas_fail: "mq_pc s i = PushCas v pos \<Longrightarrow> mpmc_step n s (goto i (PushLoad v (mq_tail s)) s)"
| wpush_write: "mq_pc s i = PushWrite v pos \<Longrightarrow>
    mpmc_step n s ((goto i (PushPub v pos) s)\<lparr>mq_data := (mq_data s)[mpmc_index n pos := v]\<rparr>)"
| wpush_pub: "mq_pc s i = PushPub v pos \<Longrightarrow>
    mpmc_step n s ((goto i Idle s)\<lparr>mq_seq := (mq_seq s)[mpmc_index n pos := pos + 1]\<rparr>)"
| wpop_start: "mq_pc s i = Idle \<Longrightarrow> mpmc_step n s (goto i PopReload s)"
| wpop_reload: "mq_pc s i = PopReload \<Longrightarrow> mpmc_step n s (goto i (PopLoad (mq_head s)) s)"
| wpop_ready: "mq_pc s i = PopLoad pos \<Longrightarrow> pop_dif n s pos = 0 \<Longrightarrow> mpmc_step n s (goto i (PopCas pos) s)"
| wpop_empty: "mq_pc s i = PopLoad pos \<Longrightarrow> pop_dif n s pos < 0 \<Longrightarrow> mpmc_step n s (goto i Idle s)"
| wpop_stale: "mq_pc s i = PopLoad pos \<Longrightarrow> pop_dif n s pos > 0 \<Longrightarrow> mpmc_step n s (goto i PopReload s)"
| wpop_cas: "mq_pc s i = PopCas pos \<Longrightarrow> mq_head s = pos \<Longrightarrow>
    mpmc_step n s ((goto i (PopRead pos) s)\<lparr>mq_head := pos + 1\<rparr>)"
| wpop_cas_fail: "mq_pc s i = PopCas pos \<Longrightarrow> mpmc_step n s (goto i (PopLoad (mq_head s)) s)"
| wpop_read: "mq_pc s i = PopRead pos \<Longrightarrow> mpmc_step n s (goto i (PopRel pos (mq_data s ! mpmc_index n pos)) s)"
| wpop_rel: "mq_pc s i = PopRel pos v \<Longrightarrow>
    mpmc_step n s ((goto i Idle s)\<lparr>mq_seq := (mq_seq s)[mpmc_index n pos := pos + n],
      mq_popped := mq_popped s @ [(pos, v)]\<rparr>)"

inductive mpmc_reach :: "u64 \<Rightarrow> 'a mpmc_queue \<Rightarrow> bool" for n where
  reach_new: "mpmc_static_assert n \<Longrightarrow> 2 * unat n < 2 ^ 63 \<Longrightarrow> mpmc_reach n (mpmc_new n junk)"
| reach_step: "mpmc_reach n s \<Longrightarrow> mpmc_step n s s' \<Longrightarrow> unat (mq_tail s') + 2 * unat n < 2 ^ 63 \<Longrightarrow> mpmc_reach n s'"

text \<open>One thread's next access as a function: \<open>Some v\<close> starts a push of \<open>v\<close> and \<open>None\<close> a pop when the thread
  is idle; the exchange succeeds whenever it can.\<close>

fun mpmc_next :: "u64 \<Rightarrow> nat \<times> 'a option \<Rightarrow> 'a mpmc_queue \<Rightarrow> 'a mpmc_queue" where
  "mpmc_next n (i, oper) s = (case mq_pc s i of
     Idle \<Rightarrow> goto i (case oper of Some v \<Rightarrow> PushReload v | None \<Rightarrow> PopReload) s
   | PushReload v \<Rightarrow> goto i (PushLoad v (mq_tail s)) s
   | PushLoad v pos \<Rightarrow> goto i (if push_dif n s pos = 0 then PushCas v pos else if push_dif n s pos < 0 then Idle else PushReload v) s
   | PushCas v pos \<Rightarrow> if mq_tail s = pos
       then (goto i (PushWrite v pos) s)\<lparr>mq_tail := pos + 1, mq_pushed := mq_pushed s @ [v]\<rparr>
       else goto i (PushLoad v (mq_tail s)) s
   | PushWrite v pos \<Rightarrow> (goto i (PushPub v pos) s)\<lparr>mq_data := (mq_data s)[mpmc_index n pos := v]\<rparr>
   | PushPub v pos \<Rightarrow> (goto i Idle s)\<lparr>mq_seq := (mq_seq s)[mpmc_index n pos := pos + 1]\<rparr>
   | PopReload \<Rightarrow> goto i (PopLoad (mq_head s)) s
   | PopLoad pos \<Rightarrow> goto i (if pop_dif n s pos = 0 then PopCas pos else if pop_dif n s pos < 0 then Idle else PopReload) s
   | PopCas pos \<Rightarrow> if mq_head s = pos then (goto i (PopRead pos) s)\<lparr>mq_head := pos + 1\<rparr> else goto i (PopLoad (mq_head s)) s
   | PopRead pos \<Rightarrow> goto i (PopRel pos (mq_data s ! mpmc_index n pos)) s
   | PopRel pos v \<Rightarrow> (goto i Idle s)\<lparr>mq_seq := (mq_seq s)[mpmc_index n pos := pos + n], mq_popped := mq_popped s @ [(pos, v)]\<rparr>)"

fun mpmc_run :: "u64 \<Rightarrow> (nat \<times> 'a option) list \<Rightarrow> 'a mpmc_queue \<Rightarrow> 'a mpmc_queue option" where
  "mpmc_run n [] s = Some s"
| "mpmc_run n (x # xs) s =
     (let s' = mpmc_next n x s in if uint (mq_tail s') + 2 * uint n < 2 ^ 63 then mpmc_run n xs s' else None)"

lemma mpmc_next_step: "mpmc_step n s (mpmc_next n (i, oper) s)"
proof (cases "mq_pc s i")
  case Idle
  then show ?thesis using wpush_start [OF Idle] wpop_start [OF Idle] by (cases oper) auto
next
  case (PushLoad v pos)
  then show ?thesis using wpush_free [OF PushLoad] wpush_full [OF PushLoad] wpush_stale [OF PushLoad]
    by (cases "push_dif n s pos" "0::int" rule: linorder_cases) auto
next
  case (PopLoad pos)
  then show ?thesis using wpop_ready [OF PopLoad] wpop_empty [OF PopLoad] wpop_stale [OF PopLoad]
    by (cases "pop_dif n s pos" "0::int" rule: linorder_cases) auto
next
  case (PushCas v pos)
  then show ?thesis using wpush_cas [OF PushCas] wpush_cas_fail [OF PushCas] by simp
next
  case (PopCas pos)
  then show ?thesis using wpop_cas [OF PopCas] wpop_cas_fail [OF PopCas] by simp
qed (simp_all add: wpush_reload wpush_write wpush_pub wpop_reload wpop_read wpop_rel)

lemma bound_nat:
  assumes "uint (a :: u64) + 2 * uint b < 2 ^ 63"
  shows "unat a + 2 * unat (b :: u64) < 2 ^ 63"
proof -
  have "int (unat a + 2 * unat b) < int (2 ^ 63)" using assms by simp
  then show ?thesis by (simp only: of_nat_less_iff)
qed

lemma mpmc_run_reach: "mpmc_run n xs s = Some s' \<Longrightarrow> mpmc_reach n s \<Longrightarrow> mpmc_reach n s'"
proof (induction xs arbitrary: s)
  case (Cons x xs)
  moreover have "mpmc_step n s (mpmc_next n x s)" using mpmc_next_step by (cases x) blast
  moreover have "uint (mq_tail (mpmc_next n x s)) + 2 * uint n < 2 ^ 63 \<Longrightarrow>
      unat (mq_tail (mpmc_next n x s)) + 2 * unat n < 2 ^ 63"
    by (rule bound_nat)
  moreover have "uint (mq_tail (mpmc_next n x s)) + 2 * uint n < 2 ^ 63" "mpmc_run n xs (mpmc_next n x s) = Some s'"
    using Cons.prems(1) by (simp_all add: Let_def split: if_splits)
  ultimately show ?case using Cons.IH Cons.prems(2) reach_step by blast
qed simp

section \<open>Simulation by the ring on natural numbers\<close>

definition ring_of :: "'a mpmc_queue \<Rightarrow> 'a ring" where
  "ring_of s = \<lparr>mq_tail = unat (mq_tail s), mq_head = unat (mq_head s), mq_seq = map unat (mq_seq s),
     mq_data = mq_data s, mq_pc = (\<lambda>i. map_mpmc_pc unat id (mq_pc s i)), mq_pushed = mq_pushed s,
     mq_popped = map (\<lambda>(p, v). (unat p, v)) (mq_popped s)\<rparr>"

definition fits :: "u64 \<Rightarrow> 'a mpmc_queue \<Rightarrow> bool" where
  "fits n s \<longleftrightarrow> mpmc_static_assert n \<and> length (mq_seq s) = unat n \<and> unat (mq_tail s) + 2 * unat n < 2 ^ 63 \<and>
     ring_inv (ring_of s)"

lemma ring_of_simps [simp]:
  "mq_tail (ring_of s) = unat (mq_tail s)" "mq_head (ring_of s) = unat (mq_head s)"
  "mq_seq (ring_of s) = map unat (mq_seq s)" "mq_data (ring_of s) = mq_data s"
  "mq_pc (ring_of s) i = map_mpmc_pc unat id (mq_pc s i)" "mq_pushed (ring_of s) = mq_pushed s"
  by (simp_all add: ring_of_def)

lemma sint_small: "unat (x :: u64) < 2 ^ 63 \<Longrightarrow> sint x = int (unat x)"
proof -
  assume "unat x < 2 ^ 63"
  then have "int (unat x) < int (2 ^ 63)" by (simp only: of_nat_less_iff)
  then have "uint x < 2 ^ 63" by simp
  moreover have "- (2 ^ 63) \<le> uint x" by (rule order_trans [OF _ uint_ge_0]) simp
  ultimately have "signed_take_bit 63 (uint x) = uint x" by (intro signed_take_bit_int_eq_self)
  then have "sint x = uint x" by (simp add: sint_uint)
  then show "sint x = int (unat x)" by simp
qed

lemma unat_Suc: "unat (x :: u64) < 2 ^ 63 \<Longrightarrow> unat (x + 1) = unat x + 1"
  by (simp add: unat_word_ariths)

lemma window_hits:
  assumes "i < (n::nat)"
  obtains p where "t \<le> p" "p < t + n" "p mod n = i"
proof -
  let ?p = "t + (i + (n - t mod n)) mod n"
  have "?p mod n = (t mod n + (i + (n - t mod n))) mod n" by (simp add: mod_simps)
  also have "t mod n + (i + (n - t mod n)) = i + n" using assms mod_less_divisor [of n t] by linarith
  finally have "?p mod n = i" using assms by simp
  then show thesis using that [of ?p] assms by simp
qed

lemma fitsD:
  assumes "fits n s"
  shows "pow2 n" "n \<noteq> 0" "length (mq_seq s) = unat n" "unat (mq_tail s) + 2 * unat n < 2 ^ 63" "ring_inv (ring_of s)"
    and "mpmc_index n pos = unat pos mod unat n"
proof -
  show p: "pow2 n" "n \<noteq> 0" "length (mq_seq s) = unat n" "unat (mq_tail s) + 2 * unat n < 2 ^ 63" "ring_inv (ring_of s)"
    using assms by (auto simp: fits_def mpmc_static_assert_def)
  show "mpmc_index n pos = unat pos mod unat n" using unat_and_mask [OF p(1,2)] by (simp add: mpmc_index_def)
qed

lemma seq_small:
  assumes "fits n s" and "i < unat n"
  shows "unat (mq_seq s ! i) < 2 ^ 63"
proof -
  note f = fitsD [OF assms(1)]
  obtain p where p: "unat (mq_tail s) \<le> p" "p < unat (mq_tail s) + unat n" "p mod unat n = i"
    using window_hits [OF assms(2)] .
  have "2 \<le> length (mq_seq (ring_of s))" using ring_invD(1) [OF f(5)] by (simp only: inv_counts_def)
  then have "slot_val (ring_of s) p \<le> p" unfolding slot_val_def by auto
  moreover have "mq_seq (ring_of s) ! (p mod unat n) = slot_val (ring_of s) p"
    using inv_seqD [OF ring_invD(3) [OF f(5)], of p] p f(3) by simp
  ultimately show ?thesis using p f(3,4) assms(2) by simp
qed

lemma pos_small:
  assumes "fits n s"
  shows "unat (mq_tail s) < 2 ^ 63" "unat (mq_head s) \<le> unat (mq_tail s)"
    and "mq_pc s i = PushLoad v pos \<or> mq_pc s i = PushCas v pos \<or> mq_pc s i = PopLoad pos \<or> mq_pc s i = PopCas pos \<or>
      mq_pc s i = PushWrite v pos \<or> mq_pc s i = PushPub v pos \<or> mq_pc s i = PopRead pos \<or> mq_pc s i = PopRel pos v \<Longrightarrow>
      unat pos \<le> unat (mq_tail s)"
proof -
  note f = fitsD [OF assms]
  show "unat (mq_tail s) < 2 ^ 63" using f(4) by simp
  show h: "unat (mq_head s) \<le> unat (mq_tail s)" using ring_invD(1) [OF f(5)] by (simp add: inv_counts_def)
  have "pc_ok (ring_of s) (mq_pc (ring_of s) i)" using ring_invD(4) [OF f(5)] unfolding inv_pc_def by blast
  then show "unat pos \<le> unat (mq_tail s)" if "mq_pc s i = PushLoad v pos \<or> mq_pc s i = PushCas v pos \<or>
      mq_pc s i = PopLoad pos \<or> mq_pc s i = PopCas pos \<or> mq_pc s i = PushWrite v pos \<or> mq_pc s i = PushPub v pos \<or>
      mq_pc s i = PopRead pos \<or> mq_pc s i = PopRel pos v"
    using that h own_bounds [OF f(5), of i "unat pos"] by auto
qed

lemma dif_nat:
  assumes "fits n s" and "unat pos \<le> unat (mq_tail s)"
  defines "sq \<equiv> mq_seq (ring_of s) ! slot (ring_of s) (unat pos)"
  shows "push_dif n s pos = 0 \<longleftrightarrow> sq = unat pos" "push_dif n s pos < 0 \<longleftrightarrow> sq < unat pos"
    "push_dif n s pos > 0 \<longleftrightarrow> sq > unat pos"
    and "pop_dif n s pos = 0 \<longleftrightarrow> sq = unat pos + 1" "pop_dif n s pos < 0 \<longleftrightarrow> sq < unat pos + 1"
    "pop_dif n s pos > 0 \<longleftrightarrow> sq > unat pos + 1"
proof -
  note f = fitsD [OF assms(1)]
  have small: "unat pos < 2 ^ 63" using assms(2) f(4) by simp
  have n0: "0 < unat n" using f(2) by (simp add: unat_gt_0)
  have suc: "unat (pos + 1) = unat pos + 1" using unat_Suc [OF small] .
  then have small1: "unat (pos + 1) < 2 ^ 63" using assms(2) f(4) n0 by simp
  have i: "unat pos mod unat n < unat n" using n0 by simp
  then have sq: "sq = unat (mq_seq s ! mpmc_index n pos)" by (simp add: sq_def f(3,6))
  have "sint (mq_seq s ! mpmc_index n pos) = int sq"
    unfolding sq using sint_small [OF seq_small [OF assms(1) i]] by (simp only: f(6))
  moreover have "sint pos = int (unat pos)" "sint (pos + 1) = int (unat pos + 1)"
    using sint_small [OF small] sint_small [OF small1] suc by simp_all
  ultimately have "push_dif n s pos = int sq - int (unat pos)" "pop_dif n s pos = int sq - int (unat pos + 1)"
    by (simp_all only: push_dif_def pop_dif_def)
  then show "push_dif n s pos = 0 \<longleftrightarrow> sq = unat pos" "push_dif n s pos < 0 \<longleftrightarrow> sq < unat pos"
    "push_dif n s pos > 0 \<longleftrightarrow> sq > unat pos" "pop_dif n s pos = 0 \<longleftrightarrow> sq = unat pos + 1"
    "pop_dif n s pos < 0 \<longleftrightarrow> sq < unat pos + 1" "pop_dif n s pos > 0 \<longleftrightarrow> sq > unat pos + 1"
    by linarith+
qed

lemma ring_of_goto [simp]: "ring_of (goto i pc s) = goto i (map_mpmc_pc unat id pc) (ring_of s)"
  by (auto simp: ring_of_def goto_def fun_eq_iff)

lemma simulates:
  assumes "mpmc_step n s s'" and "fits n s"
  shows "ring_step (ring_of s) (ring_of s') \<and> length (mq_seq s') = length (mq_seq s)"
  using assms(1)
proof cases
  case (wpush_start i v)
  then show ?thesis using push_start [of "ring_of s" i v] by simp
next
  case (wpush_reload i v)
  then show ?thesis using push_reload [of "ring_of s" i v] by simp
next
  case (wpush_free i v pos)
  then show ?thesis using push_free [of "ring_of s" i v "unat pos"] dif_nat(1-3) [OF assms(2), of pos] pos_small(3) [OF assms(2), of i v pos] by simp
next
  case (wpush_full i v pos)
  then show ?thesis using push_full [of "ring_of s" i v "unat pos"] dif_nat(1-3) [OF assms(2), of pos] pos_small(3) [OF assms(2), of i v pos] by simp
next
  case (wpush_stale i v pos)
  then show ?thesis using push_stale [of "ring_of s" i v "unat pos"] dif_nat(1-3) [OF assms(2), of pos] pos_small(3) [OF assms(2), of i v pos] by simp
next
  case (wpush_cas i v pos)
  then show ?thesis using push_cas [of "ring_of s" i v "unat pos"] unat_Suc [OF pos_small(1) [OF assms(2)]]
    by (simp add: ring_of_def goto_def fun_upd_def comp_def if_distrib [of "map_mpmc_pc unat id"] cong: if_cong)
next
  case (wpush_cas_fail i v pos)
  then show ?thesis using push_cas_fail [of "ring_of s" i v "unat pos"] by simp
next
  case (wpush_write i v pos)
  then show ?thesis using push_write [of "ring_of s" i v "unat pos"] fitsD(3,6) [OF assms(2)]
    by (simp add: ring_of_def goto_def fun_upd_def if_distrib [of "map_mpmc_pc unat id"] cong: if_cong)
next
  case (wpush_pub i v pos)
  have "unat (pos + 1) = unat pos + 1"
    using pos_small(1,3) [OF assms(2)] wpush_pub(2) by (intro unat_Suc) (meson order.strict_trans1)
  then show ?thesis using wpush_pub push_pub [of "ring_of s" i v "unat pos"] fitsD(3,6) [OF assms(2)]
    by (simp add: ring_of_def goto_def fun_upd_def map_update if_distrib [of "map_mpmc_pc unat id"] cong: if_cong)
next
  case (wpop_start i)
  then show ?thesis using pop_start [of "ring_of s" i] by simp
next
  case (wpop_reload i)
  then show ?thesis using pop_reload [of "ring_of s" i] by simp
next
  case (wpop_ready i pos)
  then show ?thesis using pop_ready [of "ring_of s" i "unat pos"] dif_nat(4-6) [OF assms(2), of pos] pos_small(3) [OF assms(2), of i _ pos] by simp
next
  case (wpop_empty i pos)
  then show ?thesis using pop_empty [of "ring_of s" i "unat pos"] dif_nat(4-6) [OF assms(2), of pos] pos_small(3) [OF assms(2), of i _ pos] by simp
next
  case (wpop_stale i pos)
  then show ?thesis using pop_stale [of "ring_of s" i "unat pos"] dif_nat(4-6) [OF assms(2), of pos] pos_small(3) [OF assms(2), of i _ pos] by simp
next
  case (wpop_cas i pos)
  then show ?thesis using pop_cas [of "ring_of s" i "unat pos"] unat_Suc [of "mq_head s"] pos_small(1,2) [OF assms(2)]
    by (simp add: ring_of_def goto_def fun_upd_def if_distrib [of "map_mpmc_pc unat id"] cong: if_cong)
next
  case (wpop_cas_fail i pos)
  then show ?thesis using pop_cas_fail [of "ring_of s" i "unat pos"] by simp
next
  case (wpop_read i pos)
  then show ?thesis using pop_read [of "ring_of s" i "unat pos"] fitsD(3,6) [OF assms(2)] by simp
next
  case (wpop_rel i pos v)
  have "unat pos + unat n < 2 ^ 64"
    using pos_small(3) [OF assms(2), of i v pos] fitsD(4) [OF assms(2)] wpop_rel(2) by simp
  then have "unat (pos + n) = unat pos + unat n" by (simp add: unat_word_ariths)
  then show ?thesis using wpop_rel pop_rel [of "ring_of s" i "unat pos" v] fitsD(3,6) [OF assms(2)]
    by (simp add: ring_of_def goto_def fun_upd_def map_update if_distrib [of "map_mpmc_pc unat id"] cong: if_cong)
qed

lemma fits_new:
  assumes "mpmc_static_assert n" and "2 * unat n < 2 ^ 63"
  shows "fits n (mpmc_new n junk)"
proof -
  have "2 \<le> unat n" using assms(1) by (simp add: mpmc_static_assert_def word_le_nat_alt)
  moreover have "map unat (map word_of_nat [0..<unat n] :: u64 list) = [0..<unat n]"
    using unsigned_less [of n, where ?'a = nat] by (intro nth_equalityI) (auto simp: unsigned_of_nat take_bit_nat_eq_self)
  ultimately have "ring_of (mpmc_new n junk) = ring_new (replicate (unat n) junk)"
    by (simp add: ring_of_def mpmc_new_def ring_new_def)
  then show ?thesis using assms ring_new_inv [of "replicate (unat n) junk"] \<open>2 \<le> unat n\<close>
    by (simp add: fits_def) (simp add: mpmc_new_def)
qed

lemma reach_fits: "mpmc_reach n s \<Longrightarrow> fits n s"
proof (induction rule: mpmc_reach.induct)
  case (reach_new junk)
  then show ?case by (rule fits_new)
next
  case (reach_step s s')
  then show ?case using simulates [OF reach_step.hyps(2) reach_step.IH] ring_step_inv
    by (auto simp: fits_def)
qed

section \<open>Properties\<close>

text \<open>
  C10. Exactly once, in order: in every interleaving of any number of producers and consumers, every
  completed pop returned the value whose push claimed the same position, no position is popped twice,
  positions below \<open>head_\<close> are exactly the popped ones once no pop is in progress, and the queue never
  holds more than \<open>N\<close> items.
\<close>

theorem mpmc_exactly_once:
  assumes "mpmc_reach n s"
  shows "distinct (map (unat \<circ> fst) (mq_popped s)) \<and>
    (\<forall>p v. (p, v) \<in> set (mq_popped s) \<longrightarrow> unat p < unat (mq_head s) \<and> v = mq_pushed s ! unat p) \<and>
    ((\<forall>i. mq_pc s i = Idle) \<longrightarrow> unat ` fst ` set (mq_popped s) = {..<unat (mq_head s)}) \<and>
    length (mq_pushed s) = unat (mq_tail s) \<and> unat (mq_tail s) \<le> unat (mq_head s) + unat (mpmc_capacity n)"
proof -
  have f: "fits n s" using reach_fits [OF assms] .
  note inv = fitsD(5) [OF f]
  note U = ring_invD(5) [OF inv, unfolded inv_popped_def] and C = ring_invD(1) [OF inv, unfolded inv_counts_def]
  have pop: "mq_popped (ring_of s) = map (\<lambda>(p, v). (unat p, v)) (mq_popped s)" by (simp add: ring_of_def)
  have fst: "map fst (mq_popped (ring_of s)) = map (unat \<circ> fst) (mq_popped s)" unfolding pop by auto
  have d: "distinct (map (unat \<circ> fst) (mq_popped s))" using U unfolding fst by blast
  have v: "unat p < unat (mq_head s) \<and> v = mq_pushed s ! unat p" if "(p, v) \<in> set (mq_popped s)" for p v
  proof -
    have "(unat p, v) \<in> set (mq_popped (ring_of s))" using that by (force simp: pop)
    then show ?thesis using U by simp
  qed
  have q: "unat ` fst ` set (mq_popped s) = {..<unat (mq_head s)}" if "\<forall>i. mq_pc s i = Idle"
  proof -
    have nr: "\<not> reading (ring_of s) p" for p using that by (simp add: owned_def)
    have "{..<unat (mq_head s)} \<subseteq> fst ` set (mq_popped (ring_of s))" using U nr by auto
    also have "\<dots> = unat ` fst ` set (mq_popped s)" by (force simp: pop image_iff)
    finally show ?thesis using v by fastforce
  qed
  show ?thesis using d v q C fitsD(3) [OF f] by (simp add: mpmc_capacity_def)
qed

text \<open>Thread 0 pushes 5, thread 1 has claimed position 1 for 6, thread 2 has popped.\<close>

definition mpmc_sample :: "nat mpmc_queue option" where
  "mpmc_sample = mpmc_run 4 (replicate 6 (0, Some 5) @ replicate 4 (1, Some 6) @ replicate 6 (2, None)) (mpmc_new 4 0)"

lemma mpmc_sample_reach:
  assumes "mpmc_sample = Some s"
  shows "mpmc_reach 4 s"
proof (rule mpmc_run_reach)
  show "mpmc_run 4 (replicate 6 (0, Some 5) @ replicate 4 (1, Some 6) @ replicate 6 (2, None)) (mpmc_new 4 0) = Some s"
    using assms by (simp only: mpmc_sample_def)
  show "mpmc_reach 4 (mpmc_new 4 0)" by (rule reach_new) (simp_all add: mpmc_static_assert_def pow2_def)
qed

theorem mpmc_exactly_once_witness:
  "\<exists>s. mpmc_sample = Some s \<and> mq_popped s = [(0, 5)] \<and> mq_pushed s ! unat (0::u64) = 5 \<and>
     length (mq_pushed s) = unat (mq_tail s)"
proof -
  have "map_option mq_popped mpmc_sample = Some [(0, 5)]" by code_simp
  then obtain s where s: "mpmc_sample = Some s" "mq_popped s = [(0, 5)]" by auto
  from mpmc_exactly_once [OF mpmc_sample_reach [OF s(1)]] s show ?thesis by auto
qed

fun mpmc_claim :: "(u64, 'a) mpmc_pc \<Rightarrow> u64 option" where
  "mpmc_claim (PushWrite v pos) = Some pos"
| "mpmc_claim (PushPub v pos) = Some pos"
| "mpmc_claim (PopRead pos) = Some pos"
| "mpmc_claim (PopRel pos v) = Some pos"
| "mpmc_claim _ = None"

lemma claim_owner:
  "mpmc_claim pc = Some p \<Longrightarrow> writes (map_mpmc_pc unat id pc) = Some (unat p) \<or> reads (map_mpmc_pc unat id pc) = Some (unat p)"
  by (cases pc) auto

text \<open>
  No data race on the slots: two different threads that are between claiming and releasing a position
  never work on the same slot, whether they write or read it.
\<close>

theorem mpmc_no_slot_race:
  assumes "mpmc_reach n s" and "i \<noteq> j" and "mpmc_claim (mq_pc s i) = Some p" and "mpmc_claim (mq_pc s j) = Some q"
  shows "mpmc_index n p \<noteq> mpmc_index n q \<and> mpmc_index n p < length (mq_data s)"
proof -
  have f: "fits n s" using reach_fits [OF assms(1)] .
  note inv = fitsD(5) [OF f]
  let ?r = "ring_of s"
  have own: "(writes (mq_pc ?r k) = Some (unat x) \<or> reads (mq_pc ?r k) = Some (unat x))"
    if "mpmc_claim (mq_pc s k) = Some x" for k x using claim_owner [OF that] by simp
  have win: "unat x < unat (mq_tail s) \<and> unat (mq_tail s) \<le> unat x + unat n"
    if "mpmc_claim (mq_pc s k) = Some x" for k x
    using own [OF that] own_bounds [OF inv, of k "unat x"] fitsD(3) [OF f] by auto
  have "unat p \<noteq> unat q"
    using own [OF assms(3)] own [OF assms(4)] own_unique [OF inv, of i "unat p" j] own_bounds [OF inv, of i "unat p"]
      own_bounds [OF inv, of j "unat q"] assms(2) by auto
  then have "unat p mod unat n \<noteq> unat q mod unat n"
    using window_neq [of "unat (mq_tail s)" "unat p + unat n" "unat n" "unat q + unat n"] win [OF assms(3)] win [OF assms(4)] by simp
  moreover have "mpmc_index n p < length (mq_data s)"
    using slot_bounds(3) [OF inv, of "unat p"] fitsD(3,6) [OF f] by simp
  ultimately show ?thesis by (simp add: fitsD(6) [OF f])
qed

theorem mpmc_no_slot_race_witness:
  "\<exists>s. mpmc_run 4 (replicate 6 (0, Some (5::nat)) @ replicate 4 (1, Some 6) @ replicate 4 (2, None)) (mpmc_new 4 0) = Some s \<and>
     mq_pc s 1 = PushWrite 6 1 \<and> mq_pc s 2 = PopRead 0 \<and> mpmc_index 4 1 \<noteq> mpmc_index 4 0 \<and>
     mpmc_index 4 1 < length (mq_data s)"
proof -
  let ?s = "mpmc_run 4 (replicate 6 (0, Some (5::nat)) @ replicate 4 (1, Some 6) @ replicate 4 (2, None)) (mpmc_new 4 0)"
  have "map_option (\<lambda>s. (mq_pc s 1, mq_pc s 2)) ?s = Some (PushWrite (6::nat) 1, PopRead 0)" by code_simp
  then obtain s where s: "?s = Some s" "mq_pc s 1 = PushWrite 6 1" "mq_pc s 2 = PopRead 0" by auto
  have "mpmc_reach 4 (mpmc_new 4 (0::nat))" by (rule reach_new) (simp_all add: mpmc_static_assert_def pow2_def)
  then have "mpmc_reach 4 s" using mpmc_run_reach [OF s(1)] by blast
  from mpmc_no_slot_race [OF this, of 1 2 1 0] s show ?thesis by auto
qed

end
