(* ===== verification/Arena.thy ===== *)
theory Arena
  imports Prelude
begin

text \<open>
  \<open>foundation/arena/arena.h\<close>, first part: the bump allocator \<open>Arena\<close>. Addresses and sizes are 64-bit
  words and every addition wraps as it does in the code; a null pointer is 0. \<open>mmap\<close> is a parameter:
  given a length and whether \<open>MAP_HUGETLB\<close> is asked for, it returns an address or fails. The failed
  \<open>assert\<close>s are the error \<open>AssertFailed\<close>. \<open>madvise\<close> in \<open>reset\<close> has no effect on the modelled state.
\<close>

section \<open>Blocks\<close>

text \<open>A block is a start address and a length; the allocators promise pairwise disjoint blocks.\<close>

type_synonym block = "nat \<times> nat"

definition block_end :: "block \<Rightarrow> nat" where
  "block_end b = fst b + snd b"

definition apart :: "block \<Rightarrow> block \<Rightarrow> bool" where
  "apart b c \<longleftrightarrow> block_end b \<le> fst c \<or> block_end c \<le> fst b"

definition pairwise_apart :: "block list \<Rightarrow> bool" where
  "pairwise_apart bs \<longleftrightarrow> (\<forall>i < length bs. \<forall>j < length bs. i \<noteq> j \<longrightarrow> apart (bs ! i) (bs ! j))"

lemma apart_sym: "apart b c \<Longrightarrow> apart c b"
  by (auto simp: apart_def)

lemma pairwise_apart_Nil [simp]: "pairwise_apart []"
  by (simp add: pairwise_apart_def)

lemma pairwise_apart_Cons:
  "pairwise_apart (b # bs) \<longleftrightarrow> (\<forall>c \<in> set bs. apart b c) \<and> pairwise_apart bs"
  unfolding pairwise_apart_def
proof (intro iffI conjI ballI allI impI)
  fix c assume *: "\<forall>i<length (b # bs). \<forall>j<length (b # bs). i \<noteq> j \<longrightarrow> apart ((b # bs) ! i) ((b # bs) ! j)"
    and "c \<in> set bs"
  then obtain k where "k < length bs" "c = bs ! k" by (auto simp: in_set_conv_nth)
  then show "apart b c" using * [rule_format, of 0 "Suc k"] by simp
next
  fix i j assume *: "\<forall>i<length (b # bs). \<forall>j<length (b # bs). i \<noteq> j \<longrightarrow> apart ((b # bs) ! i) ((b # bs) ! j)"
    and "i < length bs" "j < length bs" "i \<noteq> j"
  then show "apart (bs ! i) (bs ! j)" using * [rule_format, of "Suc i" "Suc j"] by simp
next
  fix i j assume *: "(\<forall>c\<in>set bs. apart b c) \<and> (\<forall>i<length bs. \<forall>j<length bs. i \<noteq> j \<longrightarrow> apart (bs ! i) (bs ! j))"
    and ij: "i < length (b # bs)" "j < length (b # bs)" "i \<noteq> j"
  show "apart ((b # bs) ! i) ((b # bs) ! j)"
    using * ij by (cases i; cases j) (auto intro: apart_sym)
qed

lemma pairwise_apart_perm:
  assumes "pairwise_apart (xs @ b # ys)"
  shows "pairwise_apart (b # xs @ ys)"
  using assms by (induction xs) (auto simp: pairwise_apart_Cons intro: apart_sym)

lemma pairwise_apart_insert:
  assumes "pairwise_apart (b # xs @ ys)"
  shows "pairwise_apart (xs @ b # ys)"
  using assms by (induction xs) (auto simp: pairwise_apart_Cons intro: apart_sym)

section \<open>The bump allocator\<close>

record arena =
  ar_base :: u64
  ar_cursor :: u64
  ar_end :: u64
  ar_capacity :: u64
  ar_hugepage :: bool

datatype arena_error = AssertFailed

definition map_slab :: "(u64 \<Rightarrow> bool \<Rightarrow> u64 option) \<Rightarrow> u64 \<Rightarrow> bool \<Rightarrow> u64 \<times> u64 \<times> bool" where
  "map_slab mmap sz try_hugepage =
     (let aligned = align_up sz (push_bit 20 2)
      in case (if try_hugepage then mmap aligned True else None) of
           Some p \<Rightarrow> (p, aligned, True)
         | None \<Rightarrow> (case mmap sz False of Some p \<Rightarrow> (p, sz, False) | None \<Rightarrow> (0, sz, False)))"

definition arena_new :: "(u64 \<Rightarrow> bool \<Rightarrow> u64 option) \<Rightarrow> u64 \<Rightarrow> bool \<Rightarrow> arena" where
  "arena_new mmap sz try_hugepage =
     (case map_slab mmap sz try_hugepage of (base, capacity, huge) \<Rightarrow>
        \<lparr>ar_base = base, ar_cursor = base, ar_end = (if base \<noteq> 0 then base + capacity else 0),
         ar_capacity = capacity, ar_hugepage = huge\<rparr>)"

definition arena_alloc :: "u64 \<Rightarrow> u64 \<Rightarrow> arena \<Rightarrow> arena_error + u64 \<times> arena" where
  "arena_alloc sz align a =
     (if sz = 0 \<or> \<not> pow2 align then Inl AssertFailed
      else (let p = align_up (ar_cursor a) align
            in if p + sz > ar_end a then Inr (0, a)
               else Inr (p, a\<lparr>ar_cursor := p + sz\<rparr>)))"

definition arena_reset :: "bool \<Rightarrow> arena \<Rightarrow> arena" where
  "arena_reset release_pages a = a\<lparr>ar_cursor := ar_base a\<rparr>"

definition arena_owns :: "u64 \<Rightarrow> arena \<Rightarrow> bool" where
  "arena_owns p a \<longleftrightarrow> p \<ge> ar_base a \<and> p < ar_end a"

definition arena_used :: "arena \<Rightarrow> u64" where
  "arena_used a = ar_cursor a - ar_base a"

definition arena_ok :: "arena \<Rightarrow> bool" where
  "arena_ok a \<longleftrightarrow> ar_base a \<noteq> 0"

section \<open>What a slab promises\<close>

text \<open>A slab whose end leaves room for one more request below 2^64; then no addition wraps.\<close>

definition arena_inv :: "arena \<Rightarrow> bool" where
  "arena_inv a \<longleftrightarrow> 0 < unat (ar_base a) \<and> unat (ar_base a) \<le> unat (ar_cursor a) \<and>
     unat (ar_cursor a) \<le> unat (ar_end a) \<and> unat (ar_end a) < 2 ^ 62"

definition request_ok :: "u64 \<Rightarrow> u64 \<Rightarrow> bool" where
  "request_ok sz align \<longleftrightarrow> 0 < sz \<and> unat sz < 2 ^ 62 \<and> pow2 align \<and> align \<noteq> 0 \<and> unat align < 2 ^ 62"

lemma arena_alloc_spec:
  assumes "arena_inv a" and "request_ok sz align"
  obtains (full) "arena_alloc sz align a = Inr (0, a)"
      "unat (ar_end a) < unat (ar_cursor a) + unat align + unat sz"
    | (block) p where "arena_alloc sz align a = Inr (p, a\<lparr>ar_cursor := p + sz\<rparr>)"
        "unat (ar_cursor a) \<le> unat p" "unat p mod unat align = 0" "0 < unat p"
        "unat (p + sz) = unat p + unat sz" "unat p + unat sz \<le> unat (ar_end a)"
proof -
  let ?p = "align_up (ar_cursor a) align"
  note i = assms(1) [unfolded arena_inv_def] and r = assms(2) [unfolded request_ok_def]
  have b: "unat (ar_cursor a) \<le> unat ?p" "unat ?p < unat (ar_cursor a) + unat align" "unat ?p mod unat align = 0"
    by (rule align_up_bounds; use i r in simp)+
  have "unat ?p + unat sz < 2 ^ 64" using b i r by simp
  then have s: "unat (?p + sz) = unat ?p + unat sz" by (rule unat_plus_small)
  show thesis
  proof (cases "?p + sz > ar_end a")
    case True
    then have "unat (ar_end a) < unat (ar_cursor a) + unat align + unat sz"
      using b(2) s by (simp add: word_less_nat_alt)
    moreover have "arena_alloc sz align a = Inr (0, a)"
      using True r by (auto simp: arena_alloc_def Let_def)
    ultimately show thesis using full by blast
  next
    case False
    then have "unat ?p + unat sz \<le> unat (ar_end a)" using s by (simp add: word_less_nat_alt)
    moreover have "arena_alloc sz align a = Inr (?p, a\<lparr>ar_cursor := ?p + sz\<rparr>)"
      using False r by (auto simp: arena_alloc_def Let_def)
    ultimately show thesis using block [of ?p] b s i by simp
  qed
qed

lemma arena_alloc_frame:
  "arena_alloc sz align a = Inr (p, a') \<Longrightarrow> ar_base a' = ar_base a \<and> ar_end a' = ar_end a"
  by (auto simp: arena_alloc_def Let_def split: if_splits)

text \<open>The interface the size-classed allocator relies on.\<close>

locale slab_source =
  fixes grab :: "u64 \<Rightarrow> u64 \<Rightarrow> 's \<Rightarrow> 'e + u64 \<times> 's"
    and mark :: "'s \<Rightarrow> nat"
    and limit :: "'s \<Rightarrow> nat"
    and invar :: "'s \<Rightarrow> bool"
    and allowed :: "u64 \<Rightarrow> u64 \<Rightarrow> bool"
  assumes grab_total: "invar s \<Longrightarrow> allowed sz al \<Longrightarrow> \<exists>r. grab sz al s = Inr r"
    and grab_null: "invar s \<Longrightarrow> allowed sz al \<Longrightarrow> grab sz al s = Inr (0, s') \<Longrightarrow> s' = s"
    and grab_block: "invar s \<Longrightarrow> allowed sz al \<Longrightarrow> grab sz al s = Inr (p, s') \<Longrightarrow> p \<noteq> 0 \<Longrightarrow>
      invar s' \<and> mark s \<le> unat p \<and> unat p + unat sz = mark s' \<and> mark s' \<le> limit s \<and> limit s' = limit s \<and>
      unat p mod unat al = 0"
begin

text \<open>A new block lies beyond all blocks handed out so far.\<close>

lemma grab_fresh:
  assumes "invar s" and "allowed sz al" and "grab sz al s = Inr (p, s')" and "p \<noteq> 0"
    and "\<forall>b \<in> set bs. block_end b \<le> mark s" and "pairwise_apart bs"
  shows "pairwise_apart ((unat p, unat sz) # bs) \<and> (\<forall>b \<in> set ((unat p, unat sz) # bs). block_end b \<le> mark s')"
  using grab_block [OF assms(1-4)] assms(5,6)
  by (fastforce simp: pairwise_apart_Cons apart_def block_end_def)

end

interpretation arena: slab_source arena_alloc "\<lambda>a. unat (ar_cursor a)" "\<lambda>a. unat (ar_end a)" arena_inv request_ok
proof
  fix s sz al
  assume "arena_inv s" "request_ok sz al"
  then show "\<exists>r. arena_alloc sz al s = Inr r" by (cases rule: arena_alloc_spec) auto
next
  fix s sz al s'
  assume h: "arena_inv s" "request_ok sz al" "arena_alloc sz al s = Inr (0, s')"
  show "s' = s" using h(1,2) by (cases rule: arena_alloc_spec) (use h(3) in auto)
next
  fix s sz al p s'
  assume h: "arena_inv s" "request_ok sz al" "arena_alloc sz al s = Inr (p, s')" "p \<noteq> 0"
  show "arena_inv s' \<and> unat (ar_cursor s) \<le> unat p \<and> unat p + unat sz = unat (ar_cursor s') \<and>
      unat (ar_cursor s') \<le> unat (ar_end s) \<and> unat (ar_end s') = unat (ar_end s) \<and> unat p mod unat al = 0"
    using h(1,2) by (cases rule: arena_alloc_spec) (use h in \<open>auto simp: arena_inv_def\<close>)
qed

section \<open>Properties\<close>

text \<open>The pointers a list of requests gets, in order; a refused request gets 0.\<close>

fun arena_allocs :: "(u64 \<times> u64) list \<Rightarrow> arena \<Rightarrow> arena_error + u64 list \<times> arena" where
  "arena_allocs [] a = Inr ([], a)"
| "arena_allocs ((sz, align) # rs) a =
     (case arena_alloc sz align a of
        Inl e \<Rightarrow> Inl e
      | Inr (p, a') \<Rightarrow> (case arena_allocs rs a' of Inl e \<Rightarrow> Inl e | Inr (ps, a'') \<Rightarrow> Inr (p # ps, a'')))"

definition granted :: "(u64 \<times> u64) list \<Rightarrow> u64 list \<Rightarrow> block list" where
  "granted rs ps = map (\<lambda>((sz, align), p). (unat p, unat sz)) (filter (\<lambda>(r, p). p \<noteq> 0) (zip rs ps))"

text \<open>Bump allocation on natural numbers: each request gets the least multiple of its alignment from the cursor on, if the
  block still ends inside the slab.\<close>

definition next_multiple :: "nat \<Rightarrow> nat \<Rightarrow> nat" where
  "next_multiple al c = (c + al - 1) div al * al"

fun bump_all :: "nat \<Rightarrow> nat \<Rightarrow> (nat \<times> nat) list \<Rightarrow> nat option list" where
  "bump_all c e [] = []"
| "bump_all c e ((sz, al) # rs) = (let p = next_multiple al c in if p + sz > e then None # bump_all c e rs else Some p # bump_all (p + sz) e rs)"

lemma next_multiple_unique:
  assumes "0 < al" "c \<le> p" "p < c + al" "p mod al = 0"
  shows "next_multiple al c = p"
proof -
  obtain k where k: "p = k * al" using assms(4) by (metis mod_0_imp_dvd dvd_def mult.commute)
  have "(c + al - 1) div al = k" using assms(1-3) unfolding k by (intro div_nat_eqI) (auto simp: algebra_simps)
  then show ?thesis by (simp add: next_multiple_def k)
qed

lemma arena_alloc_exact:
  assumes "arena_inv a" "request_ok sz align" "arena_alloc sz align a = Inr (p, a')"
  shows "if next_multiple (unat align) (unat (ar_cursor a)) + unat sz > unat (ar_end a) then p = 0 \<and> a' = a
    else p \<noteq> 0 \<and> unat p = next_multiple (unat align) (unat (ar_cursor a)) \<and> unat p mod unat align = 0 \<and> unat (ar_cursor a') = unat p + unat sz"
proof -
  let ?p = "align_up (ar_cursor a) align"
  note i = assms(1) [unfolded arena_inv_def] and r = assms(2) [unfolded request_ok_def]
  have b: "unat (ar_cursor a) \<le> unat ?p" "unat ?p < unat (ar_cursor a) + unat align" "unat ?p mod unat align = 0"
    by (rule align_up_bounds; use i r in simp)+
  have m: "next_multiple (unat align) (unat (ar_cursor a)) = unat ?p" using r b by (intro next_multiple_unique) (auto simp: unat_gt_0)
  have "unat (?p + sz) = unat ?p + unat sz" using b i r by (intro unat_plus_small) simp
  moreover have "?p \<noteq> 0" using b(1) i by auto
  ultimately show ?thesis using assms(3) r b(3) unfolding m by (auto simp: arena_alloc_def Let_def word_less_nat_alt split: if_splits)
qed

lemma granted_Cons: "granted (r # rs) (p # ps) = (if p = 0 then [] else [(unat p, unat (fst r))]) @ granted rs ps"
  by (cases r) (simp add: granted_def)

lemma arena_allocs_blocks:
  assumes "arena_inv a" and "\<forall>(sz, align) \<in> set rs. request_ok sz align"
  shows "\<exists>ps a'. arena_allocs rs a = Inr (ps, a') \<and> arena_inv a' \<and> ar_end a' = ar_end a \<and> unat (ar_cursor a) \<le> unat (ar_cursor a') \<and>
    map (\<lambda>p. if p = 0 then None else Some (unat p)) ps = bump_all (unat (ar_cursor a)) (unat (ar_end a)) (map (map_prod unat unat) rs) \<and>
    list_all2 (\<lambda>r p. p = 0 \<or> unat p mod unat (snd r) = 0) rs ps \<and> pairwise_apart (granted rs ps) \<and>
    (\<forall>b \<in> set (granted rs ps). unat (ar_cursor a) \<le> fst b \<and> block_end b \<le> unat (ar_cursor a'))"
  using assms
proof (induction rs arbitrary: a)
  case Nil
  then show ?case by (auto simp: granted_def)
next
  case (Cons r rs)
  obtain sz align where r: "r = (sz, align)" by (cases r)
  then have ok: "request_ok sz align" using Cons.prems(2) by auto
  obtain p a1 where al: "arena_alloc sz align a = Inr (p, a1)"
    using arena.grab_total [OF Cons.prems(1) ok] by auto
  have inv: "arena_inv a1" "p \<noteq> 0 \<Longrightarrow> unat (ar_cursor a) \<le> unat p"
    using arena.grab_null [OF Cons.prems(1) ok] arena.grab_block [OF Cons.prems(1) ok al] al Cons.prems(1) by (cases "p = 0"; auto)+
  note ex = arena_alloc_exact [OF Cons.prems(1) ok al] and fr = arena_alloc_frame [OF al]
  obtain ps a' where IH: "arena_allocs rs a1 = Inr (ps, a')" "arena_inv a'" "ar_end a' = ar_end a1" "unat (ar_cursor a1) \<le> unat (ar_cursor a')"
    "map (\<lambda>p. if p = 0 then None else Some (unat p)) ps = bump_all (unat (ar_cursor a1)) (unat (ar_end a1)) (map (map_prod unat unat) rs)"
    "list_all2 (\<lambda>r p. p = 0 \<or> unat p mod unat (snd r) = 0) rs ps" "pairwise_apart (granted rs ps)"
    "\<forall>b \<in> set (granted rs ps). unat (ar_cursor a1) \<le> fst b \<and> block_end b \<le> unat (ar_cursor a')"
    using Cons.IH [OF inv(1)] Cons.prems(2) by auto
  show ?case
  proof (cases "p = 0")
    case True
    then have "a1 = a" "next_multiple (unat align) (unat (ar_cursor a)) + unat sz > unat (ar_end a)" using ex by (auto split: if_splits)
    then show ?thesis using True al r IH by (simp add: granted_Cons Let_def)
  next
    case False
    then have x: "\<not> next_multiple (unat align) (unat (ar_cursor a)) + unat sz > unat (ar_end a)" "unat p = next_multiple (unat align) (unat (ar_cursor a))"
      "unat p mod unat align = 0" "unat (ar_cursor a1) = unat p + unat sz" using ex by (auto split: if_splits)
    have "\<forall>c \<in> set (granted rs ps). apart (unat p, unat sz) c" using IH(8) x(4) by (auto simp: apart_def block_end_def)
    then have "pairwise_apart (granted (r # rs) (p # ps))" using IH(7) False r by (simp add: granted_Cons pairwise_apart_Cons)
    moreover have "\<forall>b \<in> set (granted (r # rs) (p # ps)). unat (ar_cursor a) \<le> fst b \<and> block_end b \<le> unat (ar_cursor a')"
      using IH(4,8) x(4) inv(2) False r by (fastforce simp: granted_Cons block_end_def)
    ultimately show ?thesis using al r IH x inv(2) False fr by (simp add: Let_def)
  qed
qed

text \<open>
  C19. The bump allocator hands out disjoint, aligned memory. On a fresh slab that ends below 2^62, any list of requests with a size
  between 1 and 2^62 - 1 and a power-of-two alignment below 2^62 runs without a failed assertion and gets exactly the addresses of
  bump allocation on unbounded numbers: the least multiple of the alignment from the cursor on, or null only when the block would end
  behind the slab. Every block starts at a multiple of its alignment, lies inside the slab and overlaps no other, and the cursor stays
  in the slab. Without the bound on the size the end of a block wraps and the check passes (\<open>arena_alloc_wraps\<close>).
\<close>

theorem arena_blocks_disjoint:
  assumes "arena_inv a" and "ar_cursor a = ar_base a" and "\<forall>(sz, align) \<in> set rs. request_ok sz align"
  shows "\<exists>ps a'. arena_allocs rs a = Inr (ps, a') \<and>
    map (\<lambda>p. if p = 0 then None else Some (unat p)) ps = bump_all (unat (ar_base a)) (unat (ar_end a)) (map (map_prod unat unat) rs) \<and>
    list_all2 (\<lambda>r p. p = 0 \<or> unat p mod unat (snd r) = 0) rs ps \<and> pairwise_apart (granted rs ps) \<and>
    (\<forall>b \<in> set (granted rs ps). unat (ar_base a) \<le> fst b \<and> block_end b \<le> unat (ar_end a)) \<and>
    unat (ar_base a) \<le> unat (ar_cursor a') \<and> unat (ar_cursor a') \<le> unat (ar_end a)"
proof -
  obtain ps a' where "arena_allocs rs a = Inr (ps, a')" and inv: "arena_inv a'" "ar_end a' = ar_end a"
    and c: "unat (ar_base a) \<le> unat (ar_cursor a')"
    and rest: "map (\<lambda>p. if p = 0 then None else Some (unat p)) ps = bump_all (unat (ar_base a)) (unat (ar_end a)) (map (map_prod unat unat) rs)"
    "list_all2 (\<lambda>r p. p = 0 \<or> unat p mod unat (snd r) = 0) rs ps" "pairwise_apart (granted rs ps)"
    "\<forall>b \<in> set (granted rs ps). unat (ar_base a) \<le> fst b \<and> block_end b \<le> unat (ar_cursor a')"
    using arena_allocs_blocks [OF assms(1,3)] unfolding assms(2) by auto
  moreover have "unat (ar_cursor a') \<le> unat (ar_end a)" using inv by (simp add: arena_inv_def)
  ultimately show ?thesis by (intro exI [of _ ps] exI [of _ a']) auto
qed

definition sample_arena :: arena where
  "sample_arena = arena_new (\<lambda>len huge. if huge then None else Some 4096) 256 True"

theorem arena_blocks_disjoint_witness:
  "arena_allocs [(10, 8), (3, 4), (64, 64), (200, 16)] sample_arena = Inr ([4096, 4108, 4160, 0], sample_arena\<lparr>ar_cursor := 4224\<rparr>) \<and>
   pairwise_apart (granted [(10, 8), (3, 4), (64, 64), (200, 16)] [4096, 4108, 4160, 0])"
proof -
  have run: "arena_allocs [(10, 8), (3, 4), (64, 64), (200, 16)] sample_arena = Inr ([4096, 4108, 4160, 0], sample_arena\<lparr>ar_cursor := 4224\<rparr>)"
    by (simp add: sample_arena_def arena_new_def map_slab_def arena_alloc_def Let_def pow2_def align_up_def)
  have "arena_inv sample_arena" "ar_cursor sample_arena = ar_base sample_arena"
    by (simp_all add: sample_arena_def arena_new_def map_slab_def arena_inv_def)
  from arena_blocks_disjoint [OF this, of "[(10, 8), (3, 4), (64, 64), (200, 16)]"] run show ?thesis
    by (simp add: request_ok_def pow2_def)
qed

text \<open>
  Without a bound on the request the check \<open>p + size > end\<close> can be passed by wrapping around: a request
  of almost 2^64 bytes on a 256-byte slab succeeds and moves the cursor below the start of the slab.
\<close>

theorem arena_alloc_wraps:
  "arena_alloc (- 8) 8 sample_arena = Inr (4096, sample_arena\<lparr>ar_cursor := 4088\<rparr>) \<and>
   unat (ar_cursor (sample_arena\<lparr>ar_cursor := 4088\<rparr>)) < unat (ar_base sample_arena)"
  by (simp add: sample_arena_def arena_new_def map_slab_def arena_alloc_def Let_def pow2_def align_up_def)

end
