(* ===== verification/Size_Classed_Arena.thy ===== *)
theory Size_Classed_Arena
  imports Arena "HOL-Library.Multiset"
begin

text \<open>
  \<open>foundation/arena/arena.h\<close>, second part: \<open>SizeClassedArena\<close>, which recycles small blocks through eight
  free lists kept inside the freed blocks themselves, and \<open>ThreadLocalArena\<close>. \<open>sa_mem\<close> is the memory the
  list nodes live in: the word at the start of a freed block is the \<open>next\<close> pointer, and a client that
  still owns a block may overwrite any word in it.
\<close>

section \<open>Size classes\<close>

definition kSizes :: "nat list" where
  "kSizes = [8, 16, 32, 64, 128, 256, 512, 1024]"

function bit_ceil_from :: "nat \<Rightarrow> nat \<Rightarrow> nat" where
  "bit_ceil_from c n = (if n \<le> c \<or> c = 0 then c else bit_ceil_from (2 * c) n)"
  by pat_completeness auto
termination
  by (relation "measure (\<lambda>(c, n). n - c)") auto

declare bit_ceil_from.simps [simp del]

definition bit_ceil :: "nat \<Rightarrow> nat" where
  "bit_ceil n = bit_ceil_from 1 n"

fun ctz :: "nat \<Rightarrow> nat" where
  "ctz n = (if n = 0 \<or> odd n then 0 else Suc (ctz (n div 2)))"

declare ctz.simps [simp del]

definition class_index :: "u64 \<Rightarrow> int" where
  "class_index n = (if n > 1024 then - 1 else int (ctz (bit_ceil (max (unat n) 8))) - 3)"

definition class_size :: "u64 \<Rightarrow> u64" where
  "class_size n = (let idx = class_index n in if idx \<ge> 0 then word_of_nat (kSizes ! nat idx) else n)"

section \<open>The allocator\<close>

record sca =
  sa_arena :: arena
  sa_free :: "u64 list"
  sa_mem :: "u64 \<Rightarrow> u64"

definition sca_new :: "(u64 \<Rightarrow> bool \<Rightarrow> u64 option) \<Rightarrow> u64 \<Rightarrow> bool \<Rightarrow> sca" where
  "sca_new mmap slab_size try_hugepage =
     \<lparr>sa_arena = arena_new mmap slab_size try_hugepage, sa_free = replicate 8 0, sa_mem = (\<lambda>_. 0)\<rparr>"

definition sca_bump :: "u64 \<Rightarrow> u64 \<Rightarrow> sca \<Rightarrow> arena_error + u64 \<times> sca" where
  "sca_bump sz align s = (case arena_alloc sz align (sa_arena s) of
     Inl e \<Rightarrow> Inl e | Inr (p, a) \<Rightarrow> Inr (p, s\<lparr>sa_arena := a\<rparr>))"

definition sca_alloc :: "u64 \<Rightarrow> sca \<Rightarrow> arena_error + u64 \<times> sca" where
  "sca_alloc sz s =
     (if sz = 0 then Inr (0, s)
      else if class_index sz < 0 then sca_bump sz 16 s
      else (let idx = nat (class_index sz); cls = word_of_nat (kSizes ! idx); node = sa_free s ! idx
            in if node \<noteq> 0 then Inr (node, s\<lparr>sa_free := (sa_free s)[idx := sa_mem s node]\<rparr>)
               else sca_bump cls cls s))"

definition sca_free :: "u64 \<Rightarrow> u64 \<Rightarrow> sca \<Rightarrow> sca" where
  "sca_free ptr sz s =
     (if ptr = 0 \<or> sz = 0 \<or> class_index sz < 0 then s
      else (let idx = nat (class_index sz)
            in s\<lparr>sa_mem := (sa_mem s)(ptr := sa_free s ! idx), sa_free := (sa_free s)[idx := ptr]\<rparr>))"

definition sca_reset :: "bool \<Rightarrow> sca \<Rightarrow> sca" where
  "sca_reset release_pages s =
     s\<lparr>sa_free := map (\<lambda>_. 0) (sa_free s), sa_arena := arena_reset release_pages (sa_arena s)\<rparr>"

text \<open>\<open>ThreadLocalArena\<close>: one allocator per thread, made on first use with a 4 MiB slab.\<close>

definition tla_local :: "(u64 \<Rightarrow> bool \<Rightarrow> u64 option) \<Rightarrow> nat \<Rightarrow> (nat \<Rightarrow> sca option) \<Rightarrow> sca" where
  "tla_local mmap tid st = (case st tid of Some s \<Rightarrow> s | None \<Rightarrow> sca_new mmap (push_bit 20 4) False)"

definition tla_alloc :: "(u64 \<Rightarrow> bool \<Rightarrow> u64 option) \<Rightarrow> nat \<Rightarrow> u64 \<Rightarrow> (nat \<Rightarrow> sca option) \<Rightarrow>
    arena_error + u64 \<times> (nat \<Rightarrow> sca option)" where
  "tla_alloc mmap tid sz st = (case sca_alloc sz (tla_local mmap tid st) of
     Inl e \<Rightarrow> Inl e | Inr (p, s) \<Rightarrow> Inr (p, st(tid \<mapsto> s)))"

definition tla_free :: "(u64 \<Rightarrow> bool \<Rightarrow> u64 option) \<Rightarrow> nat \<Rightarrow> u64 \<Rightarrow> u64 \<Rightarrow> (nat \<Rightarrow> sca option) \<Rightarrow> (nat \<Rightarrow> sca option)" where
  "tla_free mmap tid ptr sz st = st(tid \<mapsto> sca_free ptr sz (tla_local mmap tid st))"

definition tla_reset :: "(u64 \<Rightarrow> bool \<Rightarrow> u64 option) \<Rightarrow> nat \<Rightarrow> bool \<Rightarrow> (nat \<Rightarrow> sca option) \<Rightarrow> (nat \<Rightarrow> sca option)" where
  "tla_reset mmap tid release_pages st = st(tid \<mapsto> sca_reset release_pages (tla_local mmap tid st))"

section \<open>Size classes, characterised\<close>

lemma bit_ceil_values:
  "bit_ceil 8 = 8"
  "8 < n \<Longrightarrow> n \<le> 16 \<Longrightarrow> bit_ceil n = 16" "16 < n \<Longrightarrow> n \<le> 32 \<Longrightarrow> bit_ceil n = 32"
  "32 < n \<Longrightarrow> n \<le> 64 \<Longrightarrow> bit_ceil n = 64" "64 < n \<Longrightarrow> n \<le> 128 \<Longrightarrow> bit_ceil n = 128"
  "128 < n \<Longrightarrow> n \<le> 256 \<Longrightarrow> bit_ceil n = 256" "256 < n \<Longrightarrow> n \<le> 512 \<Longrightarrow> bit_ceil n = 512"
  "512 < n \<Longrightarrow> n \<le> 1024 \<Longrightarrow> bit_ceil n = 1024"
  by (simp_all add: bit_ceil_def max_def bit_ceil_from.simps)

lemma ctz_values: "ctz 8 = 3" "ctz 16 = 4" "ctz 32 = 5" "ctz 64 = 6" "ctz 128 = 7" "ctz 256 = 8" "ctz 512 = 9" "ctz 1024 = 10"
  by (simp_all add: ctz.simps)

lemma class_cases:
  assumes "n \<le> 1024"
  obtains idx where "idx < 8" and "class_index n = int idx" and "unat n \<le> kSizes ! idx"
    and "idx = 0 \<or> kSizes ! idx < 2 * unat n"
proof -
  have n: "unat n \<le> 1024" using assms by (simp add: word_le_nat_alt)
  have ci: "class_index n = int (ctz (bit_ceil (max (unat n) 8))) - 3" using assms by (auto simp: class_index_def)
  consider "unat n \<le> 8" | "8 < unat n" "unat n \<le> 16" | "16 < unat n" "unat n \<le> 32" | "32 < unat n" "unat n \<le> 64"
    | "64 < unat n" "unat n \<le> 128" | "128 < unat n" "unat n \<le> 256" | "256 < unat n" "unat n \<le> 512"
    | "512 < unat n" "unat n \<le> 1024" using n by linarith
  then show thesis
  proof cases
    case 1 then show ?thesis using that [of 0] ci by (simp add: bit_ceil_values ctz_values kSizes_def)
  next
    case 2 then show ?thesis using that [of 1] ci by (simp add: max_def bit_ceil_values ctz_values kSizes_def)
  next
    case 3 then show ?thesis using that [of 2] ci by (simp add: max_def bit_ceil_values ctz_values kSizes_def)
  next
    case 4 then show ?thesis using that [of 3] ci by (simp add: max_def bit_ceil_values ctz_values kSizes_def)
  next
    case 5 then show ?thesis using that [of 4] ci by (simp add: max_def bit_ceil_values ctz_values kSizes_def)
  next
    case 6 then show ?thesis using that [of 5] ci by (simp add: max_def bit_ceil_values ctz_values kSizes_def)
  next
    case 7 then show ?thesis using that [of 6] ci by (simp add: max_def bit_ceil_values ctz_values kSizes_def)
  next
    case 8 then show ?thesis using that [of 7] ci by (simp add: max_def bit_ceil_values ctz_values kSizes_def)
  qed
qed

lemma kSizes_ok:
  assumes "idx < 8"
  shows "request_ok (word_of_nat (kSizes ! idx)) (word_of_nat (kSizes ! idx))" and "unat (word_of_nat (kSizes ! idx) :: u64) = kSizes ! idx"
    and "0 < kSizes ! idx"
proof -
  have "idx \<in> {0, 1, 2, 3, 4, 5, 6, 7}" using assms by auto
  then show "request_ok (word_of_nat (kSizes ! idx)) (word_of_nat (kSizes ! idx))"
    "unat (word_of_nat (kSizes ! idx) :: u64) = kSizes ! idx" "0 < kSizes ! idx"
    by (auto simp: kSizes_def request_ok_def pow2_def)
qed

section \<open>Clients\<close>

text \<open>What a client may do: allocate, free a block it owns with a size of the same class, write into a
  block it owns, and reset when it gives up all blocks. The client's blocks are \<open>(pointer, size)\<close> pairs.\<close>

datatype sca_op = SAlloc u64 | SFree u64 u64 | SWrite u64 u64 | SReset bool

definition live_block :: "u64 \<times> u64 \<Rightarrow> block" where
  "live_block x = (unat (fst x), unat (class_size (snd x)))"

fun sca_exec :: "sca_op \<Rightarrow> sca \<times> (u64 \<times> u64) list \<Rightarrow> (arena_error + sca \<times> (u64 \<times> u64) list) option" where
  "sca_exec (SAlloc sz) (s, live) =
     Some (case sca_alloc sz s of
        Inl e \<Rightarrow> Inl e | Inr (p, s') \<Rightarrow> Inr (s', if p = 0 then live else (p, sz) # live))"
| "sca_exec (SFree p sz) (s, live) =
     (if (p, sz) \<in> set live then Some (Inr (sca_free p sz s, remove1 (p, sz) live)) else None)"
| "sca_exec (SWrite a v) (s, live) =
     (if list_ex (\<lambda>x. fst (live_block x) \<le> unat a \<and> unat a < block_end (live_block x)) live
      then Some (Inr (s\<lparr>sa_mem := (sa_mem s)(a := v)\<rparr>, live)) else None)"
| "sca_exec (SReset rel) (s, live) = Some (Inr (sca_reset rel s, []))"

fun sca_run :: "sca_op list \<Rightarrow> sca \<times> (u64 \<times> u64) list \<Rightarrow> (arena_error + sca \<times> (u64 \<times> u64) list) option" where
  "sca_run [] st = Some (Inr st)"
| "sca_run (x # xs) st = (case sca_exec x st of
     None \<Rightarrow> None | Some (Inl e) \<Rightarrow> Some (Inl e) | Some (Inr st') \<Rightarrow> sca_run xs st')"

text \<open>The bound on requests under which the end of a block does not wrap.\<close>

fun small_request :: "sca_op \<Rightarrow> bool" where
  "small_request (SAlloc sz) \<longleftrightarrow> unat sz < 2 ^ 62"
| "small_request _ \<longleftrightarrow> True"

section \<open>The invariant\<close>

text \<open>\<open>free_chain\<close> reads a free list out of memory; \<open>free_blocks\<close> are the blocks on all eight lists.\<close>

fun free_chain :: "(u64 \<Rightarrow> u64) \<Rightarrow> u64 \<Rightarrow> u64 list \<Rightarrow> bool" where
  "free_chain m h [] \<longleftrightarrow> h = 0"
| "free_chain m h (x # xs) \<longleftrightarrow> h = x \<and> x \<noteq> 0 \<and> free_chain m (m x) xs"

definition free_blocks :: "u64 list list \<Rightarrow> block list" where
  "free_blocks F = concat (map (\<lambda>i. map (\<lambda>x. (unat x, kSizes ! i)) (F ! i)) [0..<8])"

definition sca_inv :: "sca \<Rightarrow> (u64 \<times> u64) list \<Rightarrow> u64 list list \<Rightarrow> bool" where
  "sca_inv s live F \<longleftrightarrow> arena_inv (sa_arena s) \<and> length (sa_free s) = 8 \<and> length F = 8 \<and>
     (\<forall>i < 8. free_chain (sa_mem s) (sa_free s ! i) (F ! i)) \<and>
     pairwise_apart (map live_block live @ free_blocks F) \<and>
     (\<forall>b \<in> set (map live_block live @ free_blocks F). unat (ar_base (sa_arena s)) \<le> fst b \<and>
        block_end b \<le> unat (ar_cursor (sa_arena s))) \<and>
     (\<forall>x \<in> set live. fst x \<noteq> 0 \<and> snd x \<noteq> 0)"

lemma free_blocks_empty [simp]: "free_blocks (replicate 8 []) = []"
  by (simp add: free_blocks_def)

lemma pairwise_apart_mset: "mset xs = mset ys \<Longrightarrow> pairwise_apart xs \<Longrightarrow> pairwise_apart ys"
proof (induction xs arbitrary: ys)
  case Nil
  then show ?case by simp
next
  case (Cons x xs)
  from Cons.prems(1) have "x \<in> set ys" by (metis list.set_intros(1) set_mset_mset)
  then obtain us vs where ys: "ys = us @ x # vs" by (auto dest: split_list)
  then have ms: "mset xs = mset (us @ vs)" using Cons.prems(1) by simp
  then have "pairwise_apart (us @ vs)" using Cons by (auto simp: pairwise_apart_Cons)
  moreover have "set xs = set (us @ vs)" using ms by (rule mset_eq_setD)
  ultimately show ?case
    using Cons.prems(2) pairwise_apart_insert [of x us vs] by (simp add: ys pairwise_apart_Cons)
qed

lemma free_blocks_upd:
  assumes "i < 8" and "length F = 8"
  shows "mset (free_blocks (F[i := x # F ! i])) = add_mset (unat x, kSizes ! i) (mset (free_blocks F))"
proof -
  let ?g = "\<lambda>F j. mset (map (\<lambda>x. (unat x, kSizes ! j)) (F ! j))"
  have sum: "mset (free_blocks F) = (\<Sum>j<8. ?g F j)" for F :: "u64 list list"
    by (simp add: free_blocks_def mset_concat sum_list_sum_nth atLeast0LessThan comp_def)
  have "(\<Sum>j<8. ?g (F[i := x # F ! i]) j) = ?g (F[i := x # F ! i]) i + (\<Sum>j \<in> {..<8} - {i}. ?g (F[i := x # F ! i]) j)"
    using assms(1) by (intro sum.remove) auto
  also have "(\<Sum>j \<in> {..<8} - {i}. ?g (F[i := x # F ! i]) j) = (\<Sum>j \<in> {..<8} - {i}. ?g F j)"
    by (rule sum.cong) auto
  also have "?g (F[i := x # F ! i]) i = add_mset (unat x, kSizes ! i) (?g F i)" using assms by simp
  finally have "(\<Sum>j<8. ?g (F[i := x # F ! i]) j) = add_mset (unat x, kSizes ! i) (?g F i + (\<Sum>j \<in> {..<8} - {i}. ?g F j))"
    by simp
  moreover have "(\<Sum>j<8. ?g F j) = ?g F i + (\<Sum>j \<in> {..<8} - {i}. ?g F j)" using assms(1) by (intro sum.remove) auto
  ultimately show ?thesis by (simp only: sum)
qed

lemma free_chain_upd: "a \<notin> set xs \<Longrightarrow> free_chain (m(a := v)) h xs = free_chain m h xs"
  by (induction xs arbitrary: h) auto

lemma sca_invD:
  assumes "sca_inv s live F"
  shows "arena_inv (sa_arena s)" "length (sa_free s) = 8" "length F = 8"
    "i < 8 \<Longrightarrow> free_chain (sa_mem s) (sa_free s ! i) (F ! i)"
    "pairwise_apart (map live_block live @ free_blocks F)"
    "b \<in> set (map live_block live @ free_blocks F) \<Longrightarrow> unat (ar_base (sa_arena s)) \<le> fst b \<and>
        block_end b \<le> unat (ar_cursor (sa_arena s))"
    "x \<in> set live \<Longrightarrow> fst x \<noteq> 0 \<and> snd x \<noteq> 0"
  using assms unfolding sca_inv_def by blast+

text \<open>Moving blocks between the client and the free lists keeps the blocks as a multiset.\<close>

lemma sca_inv_same_blocks:
  assumes "sca_inv s live F" and "mset (map live_block live' @ free_blocks F') = mset (map live_block live @ free_blocks F)"
    and "sa_arena s' = sa_arena s" and "length (sa_free s') = 8" and "length F' = 8"
    and "\<And>i. i < 8 \<Longrightarrow> free_chain (sa_mem s') (sa_free s' ! i) (F' ! i)"
    and "\<forall>x \<in> set live'. fst x \<noteq> 0 \<and> snd x \<noteq> 0"
  shows "sca_inv s' live' F'"
proof -
  have "pairwise_apart (map live_block live' @ free_blocks F')"
    using pairwise_apart_mset [OF assms(2) [symmetric]] sca_invD(5) [OF assms(1)] .
  moreover have "set (map live_block live' @ free_blocks F') = set (map live_block live @ free_blocks F)"
    using assms(2) by (rule mset_eq_setD)
  ultimately show ?thesis using assms by (simp add: sca_inv_def)
qed

lemma block_pos: "x \<in> set live \<Longrightarrow> sca_inv s live F \<Longrightarrow> 0 < snd (live_block x)"
proof -
  assume x: "x \<in> set live" "sca_inv s live F"
  then have nz: "snd x \<noteq> 0" using sca_invD(7) by blast
  show "0 < snd (live_block x)"
  proof (cases "snd x \<le> 1024")
    case True
    then obtain idx where "idx < 8" "class_index (snd x) = int idx" by (rule class_cases)
    then show ?thesis using kSizes_ok(2,3) [of idx] by (simp add: live_block_def class_size_def)
  next
    case False
    then show ?thesis using nz by (simp add: live_block_def class_size_def class_index_def unat_gt_0 not_le)
  qed
qed

lemma free_member: "i < 8 \<Longrightarrow> a \<in> set (F ! i) \<Longrightarrow> (unat a, kSizes ! i) \<in> set (free_blocks F)"
  by (auto simp: free_blocks_def)

text \<open>An address inside a client block is on no free list.\<close>

lemma apart_append:
  "pairwise_apart (xs @ ys) \<Longrightarrow> b \<in> set xs \<Longrightarrow> c \<in> set ys \<Longrightarrow> apart b c"
  by (induction xs) (auto simp: pairwise_apart_Cons)

lemma live_not_free:
  assumes "sca_inv s live F" and "x \<in> set live" and "fst (live_block x) \<le> unat a" and "unat a < block_end (live_block x)" and "i < 8"
  shows "a \<notin> set (F ! i)"
proof
  assume "a \<in> set (F ! i)"
  then have "apart (live_block x) (unat a, kSizes ! i)"
    using apart_append [OF sca_invD(5) [OF assms(1)]] assms(2) free_member [OF assms(5)] by simp
  then show False using assms(3,4) kSizes_ok(3) [OF assms(5)] by (auto simp: apart_def block_end_def)
qed

lemma mset_live_remove:
  assumes "x \<in> set live"
  shows "image_mset live_block (mset live) = add_mset (live_block x) (image_mset live_block (mset live - {#x#}))"
proof -
  have "mset live = add_mset x (mset live - {#x#})" using assms by simp
  then show ?thesis by (metis image_mset_add_mset)
qed

lemma sca_free_inv:
  assumes "sca_inv s live F" and "(p, sz) \<in> set live"
  shows "\<exists>F'. sca_inv (sca_free p sz s) (remove1 (p, sz) live) F'"
proof (cases "sz \<le> 1024")
  case True
  then obtain idx where idx: "idx < 8" "class_index sz = int idx" by (rule class_cases)
  have nz: "p \<noteq> 0" "sz \<noteq> 0" using sca_invD(7) [OF assms] by auto
  let ?F = "F[idx := p # F ! idx]"
  have s': "sca_free p sz s = s\<lparr>sa_mem := (sa_mem s)(p := sa_free s ! idx), sa_free := (sa_free s)[idx := p]\<rparr>"
    using nz idx by (simp add: sca_free_def)
  have lb: "live_block (p, sz) = (unat p, kSizes ! idx)"
    using idx kSizes_ok(2) [OF idx(1)] by (simp add: live_block_def class_size_def)
  have "p \<notin> set (F ! i)" if "i < 8" for i
    using live_not_free [OF assms(1,2) _ _ that] block_pos [OF assms(2,1)] by (simp add: live_block_def block_end_def)
  then have "free_chain ((sa_mem s)(p := sa_free s ! idx)) ((sa_free s)[idx := p] ! i) (?F ! i)" if "i < 8" for i
    using that sca_invD(2-4) [OF assms(1)] idx nz by (cases "i = idx") (auto simp: free_chain_upd)
  moreover have "mset (map live_block (remove1 (p, sz) live) @ free_blocks ?F) = mset (map live_block live @ free_blocks F)"
    using free_blocks_upd [OF idx(1) sca_invD(3) [OF assms(1)], of p] lb mset_live_remove [OF assms(2)] by simp
  ultimately have "sca_inv (sca_free p sz s) (remove1 (p, sz) live) ?F"
    using sca_invD [OF assms(1)] set_remove1_subset [of "(p, sz)" live] unfolding s'
    by (intro sca_inv_same_blocks [OF assms(1)]) auto
  then show ?thesis by blast
next
  case False
  then have "sca_free p sz s = s" by (simp add: sca_free_def class_index_def not_le)
  moreover have "mset (map live_block live @ free_blocks F) =
      mset (live_block (p, sz) # map live_block (remove1 (p, sz) live) @ free_blocks F)"
    using mset_live_remove [OF assms(2)] by simp
  then have "pairwise_apart (map live_block (remove1 (p, sz) live) @ free_blocks F)"
    using pairwise_apart_mset sca_invD(5) [OF assms(1)] by (metis pairwise_apart_Cons)
  then have "sca_inv s (remove1 (p, sz) live) F"
    using assms(1) set_remove1_subset [of "(p, sz)" live] by (auto simp: sca_inv_def)
  ultimately show ?thesis by auto
qed

lemma sca_bump_inv:
  assumes "sca_inv s live F" and "request_ok n al" and "unat (class_size sz) = unat n" and "sz \<noteq> 0"
  shows "\<exists>p s'. sca_bump n al s = Inr (p, s') \<and> sca_inv s' (if p = 0 then live else (p, sz) # live) F"
proof -
  note A = sca_invD(1) [OF assms(1)]
  obtain p a where g: "arena_alloc n al (sa_arena s) = Inr (p, a)" using arena.grab_total [OF A assms(2)] by auto
  then have b: "sca_bump n al s = Inr (p, s\<lparr>sa_arena := a\<rparr>)" by (simp add: sca_bump_def)
  show ?thesis
  proof (cases "p = 0")
    case True
    then have "a = sa_arena s" using arena.grab_null [OF A assms(2)] g by blast
    then show ?thesis using b True assms(1) by simp
  next
    case False
    let ?bs = "map live_block live @ free_blocks F"
    have "\<forall>b \<in> set ?bs. block_end b \<le> unat (ar_cursor (sa_arena s))" using sca_invD(6) [OF assms(1)] by blast
    note fresh = arena.grab_fresh [OF A assms(2) g False this sca_invD(5) [OF assms(1)]]
    note blk = arena.grab_block [OF A assms(2) g False] and fr = arena_alloc_frame [OF g]
    have lb: "live_block (p, sz) = (unat p, unat n)" using assms(3) by (simp add: live_block_def)
    have "unat (ar_base a) \<le> unat p" using blk fr A by (simp add: arena_inv_def)
    then have "sca_inv (s\<lparr>sa_arena := a\<rparr>) ((p, sz) # live) F"
      using fresh blk fr lb False assms(1,4) unfolding sca_inv_def by auto
    then show ?thesis using b False by simp
  qed
qed

lemma sca_alloc_inv:
  assumes "sca_inv s live F" and "unat sz < 2 ^ 62"
  shows "\<exists>p s' F'. sca_alloc sz s = Inr (p, s') \<and> sca_inv s' (if p = 0 then live else (p, sz) # live) F'"
proof (cases "sz = 0")
  case True
  then show ?thesis using assms(1) by (auto simp: sca_alloc_def)
next
  case nz: False
  show ?thesis
  proof (cases "sz \<le> 1024")
    case False
    have "request_ok sz 16" using assms(2) nz by (simp add: request_ok_def pow2_def word_gt_0)
    moreover have "class_index sz < 0" "class_size sz = sz" using False by (simp_all add: class_index_def class_size_def not_le)
    moreover from this(1) have "sca_alloc sz s = sca_bump sz 16 s" using nz by (simp add: sca_alloc_def)
    ultimately show ?thesis using sca_bump_inv [OF assms(1), of sz 16 sz] nz by metis
  next
    case True
    then obtain idx where idx: "idx < 8" "class_index sz = int idx" by (rule class_cases)
    let ?cls = "word_of_nat (kSizes ! idx) :: u64"
    have cs: "class_size sz = ?cls" using idx by (simp add: class_size_def)
    show ?thesis
    proof (cases "sa_free s ! idx = 0")
      case True
      then have "sca_alloc sz s = sca_bump ?cls ?cls s" using nz idx by (simp add: sca_alloc_def Let_def)
      then show ?thesis using sca_bump_inv [OF assms(1) kSizes_ok(1) [OF idx(1)], of sz] cs nz by metis
    next
      case False
      let ?n = "sa_free s ! idx"
      let ?s = "s\<lparr>sa_free := (sa_free s)[idx := sa_mem s ?n]\<rparr>"
      have al: "sca_alloc sz s = Inr (?n, ?s)" using nz idx False by (simp add: sca_alloc_def Let_def)
      obtain xs where xs: "F ! idx = ?n # xs" "free_chain (sa_mem s) (sa_mem s ?n) xs"
        using sca_invD(4) [OF assms(1) idx(1)] False by (cases "F ! idx") auto
      let ?F = "F[idx := xs]"
      have F: "?F[idx := ?n # ?F ! idx] = F" using xs(1) sca_invD(3) [OF assms(1)] idx(1) by (simp add: list_update_same_conv)
      have lb: "live_block (?n, sz) = (unat ?n, kSizes ! idx)" using cs kSizes_ok(2) [OF idx(1)] by (simp add: live_block_def)
      have "mset (free_blocks F) = add_mset (unat ?n, kSizes ! idx) (mset (free_blocks ?F))"
        using free_blocks_upd [OF idx(1), of ?F ?n] sca_invD(3) [OF assms(1)] F by simp
      then have "mset (map live_block ((?n, sz) # live) @ free_blocks ?F) = mset (map live_block live @ free_blocks F)"
        using lb by simp
      then have "sca_inv ?s ((?n, sz) # live) ?F"
        using xs sca_invD [OF assms(1)] idx nz False by (intro sca_inv_same_blocks [OF assms(1)]) (auto simp: nth_list_update)
      then show ?thesis using al False by auto
    qed
  qed
qed

lemma sca_exec_inv:
  assumes "sca_inv s live F" and "sca_exec x (s, live) = Some r" and "small_request x"
  shows "\<exists>s' live' F'. r = Inr (s', live') \<and> sca_inv s' live' F' \<and> sa_arena s' = sa_arena s\<lparr>ar_cursor := ar_cursor (sa_arena s')\<rparr>"
proof (cases x)
  case (SAlloc sz)
  then have "unat sz < 2 ^ 62" using assms(3) by simp
  then obtain p s' F' where al: "sca_alloc sz s = Inr (p, s')" "sca_inv s' (if p = 0 then live else (p, sz) # live) F'"
    using sca_alloc_inv [OF assms(1)] by blast
  moreover have "sa_arena s' = sa_arena s\<lparr>ar_cursor := ar_cursor (sa_arena s')\<rparr>"
    using al(1) by (auto simp: sca_alloc_def sca_bump_def arena_alloc_def Let_def split: if_splits)
  ultimately show ?thesis using SAlloc assms(2) by (auto split: if_splits)
next
  case (SFree p sz)
  then have x: "(p, sz) \<in> set live" "r = Inr (sca_free p sz s, remove1 (p, sz) live)"
    using assms(2) by (auto split: if_splits)
  moreover have "sa_arena (sca_free p sz s) = sa_arena s" by (simp add: sca_free_def Let_def)
  ultimately show ?thesis using sca_free_inv [OF assms(1) x(1)] by auto
next
  case (SWrite a v)
  then obtain b where b: "b \<in> set live" "fst (live_block b) \<le> unat a" "unat a < block_end (live_block b)"
    and r: "r = Inr (s\<lparr>sa_mem := (sa_mem s)(a := v)\<rparr>, live)"
    using assms(2) by (auto simp: list_ex_iff split: if_splits)
  have "sca_inv (s\<lparr>sa_mem := (sa_mem s)(a := v)\<rparr>) live F"
    using assms(1) live_not_free [OF assms(1) b] by (auto simp: sca_inv_def free_chain_upd)
  then show ?thesis using r by auto
next
  case (SReset rel)
  have "sca_inv (sca_reset rel s) [] (replicate 8 [])"
    using assms(1) by (auto simp: sca_inv_def sca_reset_def arena_reset_def arena_inv_def)
  then show ?thesis using SReset assms(2) by (auto simp: sca_reset_def arena_reset_def)
qed

lemma sca_run_inv:
  assumes "sca_inv s live F" and "sca_run ops (s, live) = Some r" and "list_all small_request ops"
  shows "\<exists>s' live' F'. r = Inr (s', live') \<and> sca_inv s' live' F' \<and> ar_end (sa_arena s') = ar_end (sa_arena s) \<and>
    ar_base (sa_arena s') = ar_base (sa_arena s)"
  using assms
proof (induction ops arbitrary: s live F)
  case Nil
  then show ?case by auto
next
  case (Cons x ops)
  obtain r1 where r1: "sca_exec x (s, live) = Some r1" using Cons.prems(2) by (auto split: option.splits)
  obtain s1 live1 F1 where s1: "r1 = Inr (s1, live1)" "sca_inv s1 live1 F1"
      "sa_arena s1 = sa_arena s\<lparr>ar_cursor := ar_cursor (sa_arena s1)\<rparr>"
    using sca_exec_inv [OF Cons.prems(1) r1] Cons.prems(3) by auto
  have "ar_end (sa_arena s1) = ar_end (sa_arena s)" "ar_base (sa_arena s1) = ar_base (sa_arena s)"
    using arg_cong [OF s1(3), of ar_end] arg_cong [OF s1(3), of ar_base] by simp_all
  then show ?case using Cons.IH [OF s1(2)] Cons.prems(2,3) r1 s1(1) by auto
qed

section \<open>Properties\<close>

text \<open>A request is refused only when the rest of the slab is smaller than its block and the padding in front of it.\<close>

lemma sca_alloc_refused:
  assumes "sca_inv s live F" and "unat sz < 2 ^ 62" and "0 < sz" and "sca_alloc sz s = Inr (0, s')"
  shows "unat (ar_end (sa_arena s)) < unat (ar_cursor (sa_arena s)) + unat (class_size sz) + max 16 (unat (class_size sz))"
proof -
  have "\<exists>al. request_ok (class_size sz) al \<and> unat al \<le> max 16 (unat (class_size sz)) \<and> (\<exists>a. arena_alloc (class_size sz) al (sa_arena s) = Inr (0, a))"
  proof (cases "sz \<le> 1024")
    case False
    have "request_ok sz 16" using assms(2,3) by (simp add: request_ok_def pow2_def)
    then show ?thesis using False assms(3,4)
      by (intro exI [of _ 16]) (auto simp: sca_alloc_def sca_bump_def class_index_def class_size_def not_le split: if_splits sum.splits)
  next
    case True
    then obtain idx where idx: "idx < 8" "class_index sz = int idx" by (rule class_cases)
    then show ?thesis using assms(3,4) kSizes_ok(1,2) [OF idx(1)]
      by (intro exI [of _ "class_size sz"]) (auto simp: sca_alloc_def sca_bump_def class_size_def Let_def split: if_splits sum.splits)
  qed
  then obtain al a where al: "request_ok (class_size sz) al" "unat al \<le> max 16 (unat (class_size sz))" "arena_alloc (class_size sz) al (sa_arena s) = Inr (0, a)" by blast
  show ?thesis using sca_invD(1) [OF assms(1)] al(1) by (cases rule: arena_alloc_spec) (use al in auto)
qed

text \<open>
  C20. The size-classed allocator never hands out memory that is still in use: whatever sequence of allocations of less than 2^62
  bytes, frees of owned blocks, writes into owned blocks and resets a client performs on a fresh slab that ends below 2^62, no operation
  fails an assertion, and at every point the client's blocks are pairwise disjoint, at least as long as requested and inside the slab,
  although freed blocks are recycled through links stored in client memory. A further request of that size is refused only when the
  rest of the slab is smaller than its block with its alignment. Without the bound the end of a block wraps, and the allocator hands
  out overlapping blocks (\<open>sca_large_request_overlaps\<close>).
\<close>

theorem sca_live_blocks_disjoint:
  assumes "arena_inv (sa_arena s)" and "ar_cursor (sa_arena s) = ar_base (sa_arena s)" and "sa_free s = replicate 8 0"
    and "list_all small_request ops" and "sca_run ops (s, []) = Some r"
  shows "\<exists>s' live. r = Inr (s', live) \<and> pairwise_apart (map live_block live) \<and>
    (\<forall>x \<in> set live. unat (snd x) \<le> snd (live_block x) \<and> unat (ar_base (sa_arena s)) \<le> fst (live_block x) \<and>
       block_end (live_block x) \<le> unat (ar_end (sa_arena s))) \<and>
    (\<forall>sz s''. 0 < sz \<and> unat sz < 2 ^ 62 \<and> sca_alloc sz s' = Inr (0, s'') \<longrightarrow>
       unat (ar_end (sa_arena s)) < unat (ar_cursor (sa_arena s')) + unat (class_size sz) + max 16 (unat (class_size sz)))"
proof -
  have "sca_inv s [] (replicate 8 [])" using assms(1,3) by (simp add: sca_inv_def)
  then obtain s' live F where r: "r = Inr (s', live)" "sca_inv s' live F" "ar_end (sa_arena s') = ar_end (sa_arena s)"
      "ar_base (sa_arena s') = ar_base (sa_arena s)"
    using sca_run_inv [OF _ assms(5,4)] by blast
  have "pairwise_apart (map live_block live)"
    using sca_invD(5) [OF r(2)] by (induction live) (auto simp: pairwise_apart_Cons)
  moreover have "unat (snd x) \<le> snd (live_block x)" for x :: "u64 \<times> u64"
  proof (cases "snd x \<le> 1024")
    case True
    then obtain idx where idx: "idx < 8" "class_index (snd x) = int idx" "unat (snd x) \<le> kSizes ! idx" by (rule class_cases)
    then show ?thesis using kSizes_ok(2) [OF idx(1)] by (simp add: live_block_def class_size_def)
  next
    case False
    then show ?thesis by (simp add: live_block_def class_size_def class_index_def not_le)
  qed
  moreover have "block_end (live_block x) \<le> unat (ar_end (sa_arena s))" "unat (ar_base (sa_arena s)) \<le> fst (live_block x)"
    if "x \<in> set live" for x
    using sca_invD(6) [OF r(2), of "live_block x"] sca_invD(1) [OF r(2)] that r(3,4) by (auto simp: arena_inv_def)
  moreover have "unat (ar_end (sa_arena s)) < unat (ar_cursor (sa_arena s')) + unat (class_size sz) + max 16 (unat (class_size sz))"
    if "0 < sz \<and> unat sz < 2 ^ 62 \<and> sca_alloc sz s' = Inr (0, s'')" for sz s''
    using sca_alloc_refused [OF r(2), of sz s''] that r(3) by simp
  ultimately show ?thesis using r(1) by blast
qed

definition sample_sca :: sca where
  "sample_sca = sca_new (\<lambda>len huge. if huge then None else Some 4096) 256 False"

theorem sca_live_blocks_disjoint_witness:
  "\<exists>s' live. sca_run [SAlloc 10, SAlloc 20, SWrite 4096 99, SFree 4096 10, SAlloc 9, SAlloc 16] (sample_sca, []) = Some (Inr (s', live)) \<and>
     live = [(4160, 16), (4096, 9), (4128, 20)] \<and> pairwise_apart (map live_block live)"
proof -
  let ?r = "sca_run [SAlloc 10, SAlloc 20, SWrite 4096 99, SFree 4096 10, SAlloc 9, SAlloc 16] (sample_sca, [])"
  have "map_option (map_sum id snd) ?r = Some (Inr [(4160, 16), (4096, 9), (4128, 20)])" by code_simp
  then obtain s' where s': "?r = Some (Inr (s', [(4160, 16), (4096, 9), (4128, 20)]))"
    by (cases ?r; cases "the ?r") auto
  have init: "arena_inv (sa_arena sample_sca)" "ar_cursor (sa_arena sample_sca) = ar_base (sa_arena sample_sca)"
      "sa_free sample_sca = replicate 8 0"
    by (simp_all add: sample_sca_def sca_new_def arena_new_def map_slab_def arena_inv_def)
  have "list_all small_request [SAlloc 10, SAlloc 20, SWrite 4096 99, SFree 4096 10, SAlloc 9, SAlloc 16]" by simp
  from sca_live_blocks_disjoint [OF init this s'] show ?thesis using s' by auto
qed

theorem sca_large_request_overlaps:
  "map_option (map_sum id snd) (sca_run [SAlloc (- 8), SAlloc 16] (sample_sca, [])) = Some (Inr [(4096, 16), (4096, - 8)])"
  by code_simp

end
