(* ===== verification/Treiber.thy ===== *)
theory Treiber
  imports Prelude "HOL-Library.Multiset"
begin

text \<open>
  The three lock-free stacks of \<open>foundation\<close> that share one algorithm and differ in the tag that guards
  the head: \<open>aba/aba_demo.h\<close> (\<open>BuggyStack\<close>, no tag), \<open>aba/aba_stack.h\<close> (\<open>AbaStack\<close>, a 64-bit tag) and
  \<open>freelist/freelist.h\<close> (\<open>FreeList\<close>, a 32-bit tag and slot indices for pointers). The tag counts modulo
  \<open>W\<close>: 1, 2^64 and 2^32. Each rule is one atomic access; \<open>compare_exchange_weak\<close> may fail spuriously.

  \<open>th_cnt\<close> counts the successful exchanges and the snapshots carry its value at the load of the head;
  the code never reads them. \<open>th_owned\<close> collects the nodes that completed pops handed to clients; a
  client may write to the \<open>next\<close> field of a node it owns, and may push it back.
\<close>

section \<open>The algorithm\<close>

record 'n snapshot =
  sn_ptr :: "'n option"
  sn_tag :: nat
  sn_cnt :: nat

datatype 'n tpc =
    TIdle
  | PushStore 'n "'n snapshot"
  | PushXchg 'n "'n snapshot"
  | PopNext 'n "'n snapshot"
  | PopXchg 'n "'n option" "'n snapshot"

record 'n treiber =
  th_head :: "'n option"
  th_tag :: nat
  th_next :: "'n \<Rightarrow> 'n option"
  th_pc :: "'n tpc list"
  th_cnt :: nat
  th_owned :: "'n multiset"

definition snap :: "'n treiber \<Rightarrow> 'n snapshot" where
  "snap s = \<lparr>sn_ptr = th_head s, sn_tag = th_tag s, sn_cnt = th_cnt s\<rparr>"

definition at :: "nat \<Rightarrow> 'n tpc \<Rightarrow> 'n treiber \<Rightarrow> 'n treiber" where
  "at i pc s = s\<lparr>th_pc := (th_pc s)[i := pc]\<rparr>"

text \<open>What a pop does with a freshly loaded head: return null or go on to read its \<open>next\<close>.\<close>

definition pop_from :: "'n snapshot \<Rightarrow> 'n tpc" where
  "pop_from sn = (case sn_ptr sn of None \<Rightarrow> TIdle | Some h \<Rightarrow> PopNext h sn)"

definition xchg :: "nat \<Rightarrow> 'n option \<Rightarrow> 'n treiber \<Rightarrow> 'n treiber" where
  "xchg W new s = s\<lparr>th_head := new, th_tag := (th_tag s + 1) mod W, th_cnt := th_cnt s + 1\<rparr>"

definition head_is :: "'n snapshot \<Rightarrow> 'n treiber \<Rightarrow> bool" where
  "head_is sn s \<longleftrightarrow> th_head s = sn_ptr sn \<and> th_tag s = sn_tag sn"

inductive treiber_step :: "nat \<Rightarrow> 'n treiber \<Rightarrow> 'n treiber \<Rightarrow> bool" for W where
  t_push: "i < length (th_pc s) \<Longrightarrow> th_pc s ! i = TIdle \<Longrightarrow> n \<in># th_owned s \<Longrightarrow>
    treiber_step W s ((at i (PushStore n (snap s)) s)\<lparr>th_owned := th_owned s - {#n#}\<rparr>)"
| t_push_store: "i < length (th_pc s) \<Longrightarrow> th_pc s ! i = PushStore n sn \<Longrightarrow>
    treiber_step W s ((at i (PushXchg n sn) s)\<lparr>th_next := (th_next s)(n := sn_ptr sn)\<rparr>)"
| t_push_xchg: "i < length (th_pc s) \<Longrightarrow> th_pc s ! i = PushXchg n sn \<Longrightarrow> head_is sn s \<Longrightarrow>
    treiber_step W s (xchg W (Some n) (at i TIdle s))"
| t_push_fail: "i < length (th_pc s) \<Longrightarrow> th_pc s ! i = PushXchg n sn \<Longrightarrow>
    treiber_step W s (at i (PushStore n (snap s)) s)"
| t_pop: "i < length (th_pc s) \<Longrightarrow> th_pc s ! i = TIdle \<Longrightarrow> treiber_step W s (at i (pop_from (snap s)) s)"
| t_pop_next: "i < length (th_pc s) \<Longrightarrow> th_pc s ! i = PopNext h sn \<Longrightarrow>
    treiber_step W s (at i (PopXchg h (th_next s h) sn) s)"
| t_pop_xchg: "i < length (th_pc s) \<Longrightarrow> th_pc s ! i = PopXchg h nx sn \<Longrightarrow> head_is sn s \<Longrightarrow>
    treiber_step W s ((xchg W nx (at i TIdle s))\<lparr>th_owned := add_mset h (th_owned s)\<rparr>)"
| t_pop_fail: "i < length (th_pc s) \<Longrightarrow> th_pc s ! i = PopXchg h nx sn \<Longrightarrow>
    treiber_step W s (at i (pop_from (snap s)) s)"
| t_scribble: "n \<in># th_owned s \<Longrightarrow> treiber_step W s (s\<lparr>th_next := (th_next s)(n := v)\<rparr>)"

section \<open>The invariant\<close>

fun chain_from :: "('n \<Rightarrow> 'n option) \<Rightarrow> 'n option \<Rightarrow> 'n list \<Rightarrow> bool" where
  "chain_from nx h [] \<longleftrightarrow> h = None"
| "chain_from nx h (x # xs) \<longleftrightarrow> h = Some x \<and> chain_from nx (nx x) xs"

fun in_push :: "'n tpc \<Rightarrow> 'n list" where
  "in_push (PushStore n sn) = [n]"
| "in_push (PushXchg n sn) = [n]"
| "in_push _ = []"

definition pushing :: "'n treiber \<Rightarrow> 'n multiset" where
  "pushing s = mset (concat (map in_push (th_pc s)))"

definition sn_ok :: "nat \<Rightarrow> 'n treiber \<Rightarrow> 'n snapshot \<Rightarrow> bool" where
  "sn_ok W s sn \<longleftrightarrow> sn_cnt sn \<le> th_cnt s \<and> sn_tag sn = sn_cnt sn mod W \<and> (sn_cnt sn = th_cnt s \<longrightarrow> sn_ptr sn = th_head s)"

fun tpc_ok :: "nat \<Rightarrow> 'n treiber \<Rightarrow> 'n tpc \<Rightarrow> bool" where
  "tpc_ok W s TIdle \<longleftrightarrow> True"
| "tpc_ok W s (PushStore n sn) \<longleftrightarrow> sn_ok W s sn"
| "tpc_ok W s (PushXchg n sn) \<longleftrightarrow> sn_ok W s sn \<and> th_next s n = sn_ptr sn"
| "tpc_ok W s (PopNext h sn) \<longleftrightarrow> sn_ok W s sn \<and> sn_ptr sn = Some h"
| "tpc_ok W s (PopXchg h nx sn) \<longleftrightarrow> sn_ok W s sn \<and> sn_ptr sn = Some h \<and> (sn_cnt sn = th_cnt s \<longrightarrow> nx = th_next s h)"

definition treiber_inv :: "nat \<Rightarrow> 'n multiset \<Rightarrow> 'n treiber \<Rightarrow> 'n list \<Rightarrow> bool" where
  "treiber_inv W M s xs \<longleftrightarrow> chain_from (th_next s) (th_head s) xs \<and> mset xs + th_owned s + pushing s = M \<and>
     th_tag s = th_cnt s mod W \<and> (\<forall>i < length (th_pc s). tpc_ok W s (th_pc s ! i))"

text \<open>No thread is overtaken by \<open>W\<close> or more exchanges between its load of the head and its exchange.\<close>

fun tpc_snap :: "'n tpc \<Rightarrow> 'n snapshot option" where
  "tpc_snap TIdle = None"
| "tpc_snap (PushStore n sn) = Some sn"
| "tpc_snap (PushXchg n sn) = Some sn"
| "tpc_snap (PopNext h sn) = Some sn"
| "tpc_snap (PopXchg h nx sn) = Some sn"

definition no_wrap :: "nat \<Rightarrow> 'n treiber \<Rightarrow> bool" where
  "no_wrap W s \<longleftrightarrow> list_all (\<lambda>pc. case tpc_snap pc of None \<Rightarrow> True | Some sn \<Rightarrow> th_cnt s < sn_cnt sn + W) (th_pc s)"

lemma chain_from_upd: "n \<notin> set xs \<Longrightarrow> chain_from (nx(n := v)) h xs = chain_from nx h xs"
  by (induction xs arbitrary: h) auto

lemma pushing_at:
  assumes "i < length (th_pc s)"
  shows "pushing (at i pc s) + mset (in_push (th_pc s ! i)) = pushing s + mset (in_push pc)"
proof -
  have split: "th_pc s = take i (th_pc s) @ th_pc s ! i # drop (Suc i) (th_pc s)" using assms by (rule id_take_nth_drop)
  have "(th_pc s)[i := pc] = take i (th_pc s) @ pc # drop (Suc i) (th_pc s)" using assms by (rule upd_conv_take_nth_drop)
  then show ?thesis unfolding pushing_def at_def by (subst (3) split) (simp add: ac_simps)
qed

lemma at_simps [simp]:
  "th_head (at i pc s) = th_head s" "th_tag (at i pc s) = th_tag s" "th_next (at i pc s) = th_next s"
  "th_pc (at i pc s) = (th_pc s)[i := pc]" "th_cnt (at i pc s) = th_cnt s" "th_owned (at i pc s) = th_owned s"
  by (simp_all add: at_def)

lemma xchg_simps [simp]:
  "th_head (xchg W h s) = h" "th_tag (xchg W h s) = (th_tag s + 1) mod W" "th_next (xchg W h s) = th_next s"
  "th_pc (xchg W h s) = th_pc s" "th_cnt (xchg W h s) = th_cnt s + 1" "th_owned (xchg W h s) = th_owned s"
  "pushing (xchg W h s) = pushing s"
  by (simp_all add: xchg_def pushing_def)

lemma pushing_simps [simp]:
  "pushing (s\<lparr>th_owned := M\<rparr>) = pushing s" "pushing (s\<lparr>th_next := N\<rparr>) = pushing s"
  by (simp_all add: pushing_def)

lemma tpc_ok_at [simp]: "tpc_ok W (at i pc s) x = tpc_ok W s x"
  by (cases x) (simp_all add: sn_ok_def)

lemma tpc_ok_owned [simp]: "tpc_ok W (s\<lparr>th_owned := M\<rparr>) x = tpc_ok W s x"
  by (cases x) (simp_all add: sn_ok_def)

lemma snap_ok: "th_tag s = th_cnt s mod W \<Longrightarrow> sn_ok W s (snap s)"
  by (simp add: sn_ok_def snap_def)

text \<open>The heart of the argument: if the tag still matches, nothing was exchanged since the load.\<close>

lemma tag_decides:
  assumes "sn_ok W s sn" and "th_tag s = th_cnt s mod W" and "head_is sn s" and "th_cnt s < sn_cnt sn + W"
  shows "sn_cnt sn = th_cnt s"
proof (rule ccontr)
  assume "sn_cnt sn \<noteq> th_cnt s"
  then have "0 < th_cnt s - sn_cnt sn" "th_cnt s - sn_cnt sn < W" using assms(1,4) by (auto simp: sn_ok_def)
  moreover have "sn_cnt sn mod W = th_cnt s mod W" using assms by (simp add: sn_ok_def head_is_def)
  then have "W dvd th_cnt s - sn_cnt sn" using assms(1) mod_eq_dvd_iff_nat [of "sn_cnt sn" "th_cnt s" W] by (simp add: sn_ok_def)
  ultimately show False by (simp add: nat_dvd_not_less)
qed

lemma tpc_ok_xchg:
  assumes "tpc_ok W s pc"
  shows "tpc_ok W (xchg W h s) pc"
  using assms by (cases pc) (auto simp: sn_ok_def)

lemma tpc_ok_next:
  assumes "tpc_ok W s pc" and "n \<notin> set (in_push pc)" and "chain_from (th_next s) (th_head s) xs" and "n \<notin> set xs"
  shows "tpc_ok W (s\<lparr>th_next := (th_next s)(n := v)\<rparr>) pc"
proof (cases pc)
  case (PopXchg h nx sn)
  have "h \<noteq> n" if "sn_cnt sn = th_cnt s"
    using that assms PopXchg by (cases xs) (auto simp: sn_ok_def)
  then show ?thesis using assms PopXchg by (auto simp: sn_ok_def)
qed (use assms in \<open>auto simp: sn_ok_def\<close>)

lemma in_pushing: "j < length (th_pc s) \<Longrightarrow> n \<in> set (in_push (th_pc s ! j)) \<Longrightarrow> n \<in># pushing s"
  by (force simp: pushing_def)

lemma pushing_twice:
  assumes "i < length (th_pc s)" "j < length (th_pc s)" "i \<noteq> j"
    and "n \<in> set (in_push (th_pc s ! i))" "n \<in> set (in_push (th_pc s ! j))"
  shows "2 \<le> count (pushing s) n"
proof -
  have "pushing (at i TIdle s) + mset (in_push (th_pc s ! i)) = pushing s"
    using pushing_at [OF assms(1), of TIdle] by simp
  moreover have "n \<in># pushing (at i TIdle s)" using in_pushing [of j "at i TIdle s"] assms by simp
  moreover have "n \<in># mset (in_push (th_pc s ! i))" using assms(4) by simp
  ultimately have "count (pushing s) n = count (pushing (at i TIdle s)) n + count (mset (in_push (th_pc s ! i))) n"
      "0 < count (pushing (at i TIdle s)) n" "0 < count (mset (in_push (th_pc s ! i))) n"
    by (metis count_union, simp_all only: count_greater_zero_iff)
  then show ?thesis by linarith
qed

lemma treiber_invD:
  assumes "treiber_inv W M s xs"
  shows "chain_from (th_next s) (th_head s) xs" "mset xs + th_owned s + pushing s = M" "th_tag s = th_cnt s mod W"
    "i < length (th_pc s) \<Longrightarrow> tpc_ok W s (th_pc s ! i)"
  using assms by (auto simp: treiber_inv_def)

lemma treiber_invI:
  assumes "chain_from (th_next s') (th_head s') xs" and "mset xs + th_owned s' + pushing s' = M" and "th_tag s' = th_cnt s' mod W"
    and "th_pc s' = (th_pc s)[i := pc]" and "tpc_ok W s' pc" and "\<And>j. j < length (th_pc s) \<Longrightarrow> j \<noteq> i \<Longrightarrow> tpc_ok W s' (th_pc s ! j)"
  shows "treiber_inv W M s' xs"
proof -
  have "tpc_ok W s' ((th_pc s)[i := pc] ! j)" if "j < length (th_pc s)" for j
    using that assms(5,6) by (cases "j = i") auto
  then show ?thesis using assms(1-4) by (simp add: treiber_inv_def)
qed

text \<open>Nodes are conserved, so a node is in one place only.\<close>

lemma one_place:
  assumes "treiber_inv W M s xs" and "\<And>n. count M n \<le> 1"
  shows "n \<in># pushing s \<Longrightarrow> n \<notin> set xs \<and> n \<notin># th_owned s" and "n \<in># th_owned s \<Longrightarrow> n \<notin> set xs \<and> n \<notin># pushing s"
    and "count (pushing s) n \<le> 1"
proof -
  have c: "count (mset xs) n + count (th_owned s) n + count (pushing s) n \<le> 1"
    using assms(2) [of n] treiber_invD(2) [OF assms(1)] by (metis count_union)
  show "n \<notin> set xs \<and> n \<notin># th_owned s" if "n \<in># pushing s"
  proof -
    have "0 < count (pushing s) n" using that by simp
    then have "count (mset xs) n = 0" "count (th_owned s) n = 0" using c by linarith+
    then show ?thesis by (simp add: count_eq_zero_iff)
  qed
  show "n \<notin> set xs \<and> n \<notin># pushing s" if "n \<in># th_owned s"
  proof -
    have "0 < count (th_owned s) n" using that by simp
    then have "count (mset xs) n = 0" "count (pushing s) n = 0" using c by linarith+
    then show ?thesis by (simp add: count_eq_zero_iff)
  qed
  show "count (pushing s) n \<le> 1" using c by linarith
qed

lemma tpc_ok_owned_next [simp]:
  "tpc_ok W (at i x s\<lparr>th_next := N\<rparr>) pc = tpc_ok W (s\<lparr>th_next := N\<rparr>) pc"
  by (cases pc) (simp_all add: sn_ok_def)

lemma quiet_step:
  assumes "treiber_inv W M s xs" and "i < length (th_pc s)" and "in_push pc = in_push (th_pc s ! i)" and "tpc_ok W s pc"
  shows "treiber_inv W M (at i pc s) xs"
  using treiber_invD [OF assms(1)] pushing_at [OF assms(2), of pc] assms(3,4)
  by (intro treiber_invI [where i = i and pc = pc and s = s]) auto

lemma push_store_step:
  assumes inv: "treiber_inv W M s xs" and M: "\<And>n. count M n \<le> 1" and i: "i < length (th_pc s)" and pc: "th_pc s ! i = PushStore n sn"
  shows "treiber_inv W M ((at i (PushXchg n sn) s)\<lparr>th_next := (th_next s)(n := sn_ptr sn)\<rparr>) xs"
proof -
  note I = treiber_invD [OF inv]
  have n: "n \<in># pushing s" using in_pushing [OF i, of n] pc by simp
  note P = one_place [OF inv M]
  have other: "n \<notin> set (in_push (th_pc s ! j))" if "j < length (th_pc s)" "j \<noteq> i" for j
    using pushing_twice [OF that(1) i that(2), of n] pc P(3) [of n] by auto
  have "tpc_ok W s (th_pc s ! i)" using I(4) [OF i] .
  then have "sn_ok W s sn" using pc by simp
  moreover have "pushing (at i (PushXchg n sn) s) = pushing s" using pushing_at [OF i, of "PushXchg n sn"] pc by simp
  ultimately show ?thesis using I P(1) [OF n] tpc_ok_next [OF I(4) other I(1)]
    by (intro treiber_invI [where i = i and pc = "PushXchg n sn" and s = s]) (auto simp: chain_from_upd sn_ok_def)
qed

lemma scribble_step:
  assumes inv: "treiber_inv W M s xs" and M: "\<And>n. count M n \<le> 1" and n: "n \<in># th_owned s"
  shows "treiber_inv W M (s\<lparr>th_next := (th_next s)(n := v)\<rparr>) xs"
proof -
  note I = treiber_invD [OF inv] and P = one_place(2) [OF inv M n]
  have "n \<notin> set (in_push (th_pc s ! j))" if "j < length (th_pc s)" for j
    using in_pushing [OF that, of n] P by blast
  then show ?thesis using I P tpc_ok_next [OF I(4) _ I(1)] by (simp add: treiber_inv_def chain_from_upd)
qed

lemma push_xchg_step:
  assumes inv: "treiber_inv W M s xs" and i: "i < length (th_pc s)" and pc: "th_pc s ! i = PushXchg n sn"
    and same: "sn_cnt sn = th_cnt s"
  shows "treiber_inv W M (xchg W (Some n) (at i TIdle s)) (n # xs)"
proof -
  note I = treiber_invD [OF inv]
  have ok: "tpc_ok W s (th_pc s ! i)" using I(4) [OF i] .
  then have "th_next s n = th_head s" using pc same by (simp add: sn_ok_def)
  moreover have "add_mset n (pushing (at i TIdle s)) = pushing s" using pushing_at [OF i, of TIdle] pc by simp
  then have "mset (n # xs) + th_owned s + pushing (at i TIdle s) = M" using I(2) by (metis (no_types, opaque_lifting) add.commute mset.simps(2) union_mset_add_mset_left union_mset_add_mset_right)
  moreover have "(th_cnt s mod W + 1) mod W = (th_cnt s + 1) mod W" by (rule mod_add_left_eq)
  ultimately show ?thesis using I(1,3) tpc_ok_xchg [of W "at i TIdle s"] I(4)
    by (intro treiber_invI [where i = i and pc = TIdle and s = s]) (auto simp: mod_simps)
qed

lemma pop_xchg_step:
  assumes inv: "treiber_inv W M s xs" and i: "i < length (th_pc s)" and pc: "th_pc s ! i = PopXchg h nx sn"
    and same: "sn_cnt sn = th_cnt s"
  shows "\<exists>ys. xs = h # ys \<and> treiber_inv W M ((xchg W nx (at i TIdle s))\<lparr>th_owned := add_mset h (th_owned s)\<rparr>) ys"
proof -
  note I = treiber_invD [OF inv]
  have ok: "tpc_ok W s (th_pc s ! i)" using I(4) [OF i] .
  then have h: "th_head s = Some h" "nx = th_next s h" using pc same by (auto simp: sn_ok_def)
  then obtain ys where ys: "xs = h # ys" "chain_from (th_next s) nx ys" using I(1) by (cases xs) auto
  moreover have "pushing (at i TIdle s) = pushing s" using pushing_at [OF i, of TIdle] pc by simp
  ultimately have "treiber_inv W M ((xchg W nx (at i TIdle s))\<lparr>th_owned := add_mset h (th_owned s)\<rparr>) ys"
    using I tpc_ok_xchg [of W "at i TIdle s"]
    by (intro treiber_invI [where i = i and pc = TIdle and s = s]) (auto simp: mod_simps)
  then show ?thesis using ys(1) by blast
qed

lemma treiber_step_inv:
  assumes step: "treiber_step W s s'" and inv: "treiber_inv W M s xs" and M: "\<And>n. count M n \<le> 1" and W: "no_wrap W s"
  shows "\<exists>xs'. treiber_inv W M s' xs'"
proof -
  note I = treiber_invD [OF inv]
  have win: "th_cnt s < sn_cnt sn + W" if "i < length (th_pc s)" "tpc_snap (th_pc s ! i) = Some sn" for i sn
    using W that by (auto simp: no_wrap_def list_all_length split: option.splits)
  have same: "sn_cnt sn = th_cnt s" if "i < length (th_pc s)" "tpc_snap (th_pc s ! i) = Some sn" "head_is sn s" for i sn
  proof -
    have "tpc_ok W s (th_pc s ! i)" using I(4) [OF that(1)] .
    then have "sn_ok W s sn" using that(2) by (cases "th_pc s ! i") auto
    then show ?thesis using tag_decides I(3) that(3) win [OF that(1,2)] by blast
  qed
  have popf: "tpc_ok W s (pop_from (snap s))" "in_push (pop_from (snap s)) = []"
    using snap_ok [OF I(3)] by (auto simp: pop_from_def split: option.split)
  note quiet = quiet_step [OF inv]
  show ?thesis
    using step
  proof cases
    case (t_push i n)
    let ?s = "at i (PushStore n (snap s)) s"
    have "pushing ?s = add_mset n (pushing s)" using pushing_at [OF t_push(2), of "PushStore n (snap s)"] t_push(3) by simp
    moreover obtain Ow where Ow: "th_owned s = add_mset n Ow" using t_push(4) by (auto dest: multi_member_split)
    ultimately have "treiber_inv W M (?s\<lparr>th_owned := th_owned s - {#n#}\<rparr>) xs"
      using I snap_ok [OF I(3)] by (intro treiber_invI [where i = i and pc = "PushStore n (snap s)" and s = s]) (auto simp: sn_ok_def)
    then show ?thesis using t_push(1) by blast
  next
    case (t_push_store i n sn)
    then show ?thesis using push_store_step [OF inv M] by blast
  next
    case (t_push_xchg i n sn)
    then show ?thesis using push_xchg_step [OF inv, of i n sn] same [of i sn] by auto
  next
    case (t_push_fail i n sn)
    then show ?thesis using quiet [of i "PushStore n (snap s)"] snap_ok [OF I(3)] by auto
  next
    case (t_pop i)
    then show ?thesis using quiet [of i "pop_from (snap s)"] popf by auto
  next
    case (t_pop_next i h sn)
    then show ?thesis using quiet [of i "PopXchg h (th_next s h) sn"] I(4) [of i] by auto
  next
    case (t_pop_xchg i h nx sn)
    then show ?thesis using pop_xchg_step [OF inv, of i h nx sn] same [of i sn] by auto
  next
    case (t_pop_fail i h nx sn)
    then show ?thesis using quiet [of i "pop_from (snap s)"] popf by auto
  next
    case (t_scribble n v)
    then show ?thesis using scribble_step [OF inv M] by blast
  qed
qed


section \<open>Runs\<close>

text \<open>Runs in which no pending exchange is overtaken by a whole turn of the tag: every step starts in a state with \<open>no_wrap\<close>.\<close>

lemma treiber_run_inv:
  assumes "(\<lambda>a b. no_wrap W a \<and> treiber_step W a b)\<^sup>*\<^sup>* s0 s" "treiber_inv W M s0 xs0" "\<And>n. count M n \<le> 1"
  shows "\<exists>xs. treiber_inv W M s xs"
  using assms(1)
proof induction
  case base
  show ?case using assms(2) by blast
next
  case (step s s')
  then show ?case using treiber_step_inv assms(3) by blast
qed

text \<open>A schedule as data: which thread moves, and what it attempts. An exchange that cannot succeed retries.\<close>

datatype 'n tmove = MPush nat 'n | MPop nat | MGo nat | MWrite 'n "'n option"

fun treiber_move :: "nat \<Rightarrow> 'n tmove \<Rightarrow> 'n treiber \<Rightarrow> 'n treiber option" where
  "treiber_move W (MPush i n) s = (if i < length (th_pc s) \<and> n \<in># th_owned s then
     (case th_pc s ! i of TIdle \<Rightarrow> Some ((at i (PushStore n (snap s)) s)\<lparr>th_owned := th_owned s - {#n#}\<rparr>) | _ \<Rightarrow> None) else None)"
| "treiber_move W (MPop i) s = (if i < length (th_pc s) then
     (case th_pc s ! i of TIdle \<Rightarrow> Some (at i (pop_from (snap s)) s) | _ \<Rightarrow> None) else None)"
| "treiber_move W (MGo i) s = (if i < length (th_pc s) then (case th_pc s ! i of
       TIdle \<Rightarrow> None
     | PushStore n sn \<Rightarrow> Some ((at i (PushXchg n sn) s)\<lparr>th_next := (th_next s)(n := sn_ptr sn)\<rparr>)
     | PushXchg n sn \<Rightarrow> Some (if head_is sn s then xchg W (Some n) (at i TIdle s) else at i (PushStore n (snap s)) s)
     | PopNext h sn \<Rightarrow> Some (at i (PopXchg h (th_next s h) sn) s)
     | PopXchg h nx sn \<Rightarrow> Some (if head_is sn s then (xchg W nx (at i TIdle s))\<lparr>th_owned := add_mset h (th_owned s)\<rparr>
                                else at i (pop_from (snap s)) s)) else None)"
| "treiber_move W (MWrite n v) s = (if n \<in># th_owned s then Some (s\<lparr>th_next := (th_next s)(n := v)\<rparr>) else None)"

lemma treiber_move_step: "treiber_move W m s = Some s' \<Longrightarrow> treiber_step W s s'"
  by (cases m) (auto split: if_splits tpc.splits intro: treiber_step.intros)

fun treiber_run :: "nat \<Rightarrow> 'n tmove list \<Rightarrow> 'n treiber \<Rightarrow> 'n treiber option" where
  "treiber_run W [] s = Some s"
| "treiber_run W (m # ms) s = (if no_wrap W s then Option.bind (treiber_move W m s) (treiber_run W ms) else None)"

lemma treiber_run_steps: "treiber_run W ms s = Some s' \<Longrightarrow> (\<lambda>a b. no_wrap W a \<and> treiber_step W a b)\<^sup>*\<^sup>* s s'"
  by (induction ms arbitrary: s)
    (auto simp: Option.bind_eq_Some_conv split: if_splits dest!: treiber_move_step intro: converse_rtranclp_into_rtranclp)

section \<open>FreeList: slot indices and a 32-bit tag\<close>

definition fl_pack :: "32 word \<Rightarrow> 32 word \<Rightarrow> 64 word" where
  "fl_pack idx tag = ucast idx + push_bit 32 (ucast tag)"

definition fl_unpack :: "64 word \<Rightarrow> 32 word \<times> 32 word" where
  "fl_unpack v = (ucast v, ucast (drop_bit 32 v))"

text \<open>\<open>next_\<close> holds \<open>i + 1\<close> below the last slot and the sentinel \<open>kNone\<close> in the last; the head is slot 0.\<close>

definition fl_new :: "nat \<Rightarrow> nat \<Rightarrow> nat treiber option" where
  "fl_new threads capacity = (if 0 < capacity \<and> capacity < 2 ^ 32 - 1 then
     Some \<lparr>th_head = Some 0, th_tag = 0, th_next = (\<lambda>i. if i + 1 < capacity then Some (i + 1) else None),
       th_pc = replicate threads TIdle, th_cnt = 0, th_owned = {#}\<rparr> else None)"

definition freelist_step :: "nat treiber \<Rightarrow> nat treiber \<Rightarrow> bool" where
  "freelist_step = treiber_step (2 ^ 32)"

fun fl_count :: "nat \<Rightarrow> ('n \<Rightarrow> 'n option) \<Rightarrow> 'n option \<Rightarrow> nat \<Rightarrow> nat option" where
  "fl_count fuel nx None acc = Some acc"
| "fl_count 0 nx (Some i) acc = None"
| "fl_count (Suc fuel) nx (Some i) acc = fl_count fuel nx (nx i) (acc + 1)"

definition fl_available :: "nat \<Rightarrow> 'n treiber \<Rightarrow> nat option" where
  "fl_available fuel s = fl_count fuel (th_next s) (th_head s) 0"

definition slot_ptr :: "nat \<Rightarrow> nat \<Rightarrow> nat \<Rightarrow> nat" where
  "slot_ptr storage sizeof_T idx = (storage + idx * sizeof_T) mod 2 ^ 64"

definition slot_idx :: "nat \<Rightarrow> nat \<Rightarrow> nat \<Rightarrow> nat" where
  "slot_idx storage sizeof_T p = nat ((int p - int storage) div int sizeof_T mod 2 ^ 32)"

lemma fl_unpack_pack [simp]: "fl_unpack (fl_pack idx tag) = (idx, tag)"
proof -
  have "(ucast idx + push_bit 32 (ucast tag) :: 64 word) = or (ucast idx) (push_bit 32 (ucast tag))"
    by (rule disjunctive_add) (auto simp: bit_simps dest: bit_imp_le_length)
  moreover have "\<not> bit idx (32 + n)" for n by (auto dest: bit_imp_le_length)
  ultimately show ?thesis
    unfolding fl_pack_def fl_unpack_def by (auto intro!: bit_word_eqI simp: bit_simps)
qed

lemma slot_idx_ptr:
  assumes "0 < sizeof_T" "idx < 2 ^ 32" "storage + idx * sizeof_T < 2 ^ 64"
  shows "slot_idx storage sizeof_T (slot_ptr storage sizeof_T idx) = idx"
  using assms by (simp add: slot_idx_def slot_ptr_def)

lemma fl_chain: "chain_from (\<lambda>i. if i + 1 < c then Some (i + 1) else None) (if k < c then Some k else None) [k..<c]"
proof (induction "c - k" arbitrary: k)
  case (Suc d)
  then have "k < c" "d = c - Suc k" "[k..<c] = k # [Suc k..<c]" by (simp_all add: upt_conv_Cons)
  then show ?case using Suc(1) [of "Suc k"] by (cases "Suc k < c") (simp_all del: upt_Suc)
qed simp

lemma distinct_upt_count: "count (mset [0..<c]) n \<le> 1"
  by (simp add: count_mset_set')

lemma fl_new_inv: "fl_new threads capacity = Some s \<Longrightarrow> treiber_inv (2 ^ 32) (mset [0..<capacity]) s [0..<capacity]"
  using fl_chain [of capacity 0]
  by (auto simp: fl_new_def treiber_inv_def pushing_def split: if_splits)

lemma fl_count_chain: "chain_from nx h xs \<Longrightarrow> length xs \<le> fuel \<Longrightarrow> fl_count fuel nx h acc = Some (acc + length xs)"
proof (induction xs arbitrary: h fuel acc)
  case (Cons x xs)
  then obtain f where "fuel = Suc f" by (cases fuel) auto
  then show ?case using Cons by simp
qed simp

text \<open>
  C21. In every interleaving of acquires and releases in which fewer than 2^32 successful exchanges happen between the load of the
  head by an operation and any later step of that operation, a slot is handed to at most one client, every slot handed out belongs
  to the pool, and when no operation is pending \<open>available\<close> returns, with the number of slots not handed out. The condition is the
  one under which the 32-bit tag tells the heads apart.
\<close>

theorem freelist_exclusive_and_conserved:
  assumes "fl_new threads capacity = Some s0" and "(\<lambda>a b. no_wrap (2 ^ 32) a \<and> freelist_step a b)\<^sup>*\<^sup>* s0 s"
  shows "(\<forall>n. count (th_owned s) n \<le> 1) \<and> (\<forall>n. n \<in># th_owned s \<longrightarrow> n < capacity) \<and>
    (list_all (\<lambda>pc. pc = TIdle) (th_pc s) \<longrightarrow> fl_available capacity s = Some (capacity - size (th_owned s)))"
proof -
  obtain xs where inv: "treiber_inv (2 ^ 32) (mset [0..<capacity]) s xs"
    using treiber_run_inv [OF assms(2) [unfolded freelist_step_def] fl_new_inv [OF assms(1)] distinct_upt_count] by blast
  then have M: "mset xs + th_owned s + pushing s = mset [0..<capacity]" by (simp add: treiber_inv_def)
  have one: "count (th_owned s) n \<le> 1" for n
    using distinct_upt_count [of capacity n] unfolding M [symmetric] by simp
  have "length xs + size (th_owned s) = capacity" if "list_all (\<lambda>pc. pc = TIdle) (th_pc s)"
  proof -
    have "pushing s = {#}" using that by (auto simp: pushing_def list_all_iff)
    then show ?thesis using arg_cong [OF M, of size] by simp
  qed
  then have "list_all (\<lambda>pc. pc = TIdle) (th_pc s) \<longrightarrow> fl_available capacity s = Some (capacity - size (th_owned s))"
    using fl_count_chain [of "th_next s" "th_head s" xs capacity 0] inv by (auto simp: fl_available_def treiber_inv_def)
  moreover have "n < capacity" if "n \<in># th_owned s" for n using that arg_cong [OF M, of set_mset] by auto
  ultimately show ?thesis using one by blast
qed

lemma replicate_2: "replicate 2 x = [x, x]"
  by (simp add: numeral_2_eq_2)

lemmas treiber_eval = at_def snap_def pop_from_def xchg_def head_is_def no_wrap_def

theorem freelist_exclusive_and_conserved_witness:
  "\<exists>s0 s. fl_new 2 3 = Some s0 \<and> (\<lambda>a b. no_wrap (2 ^ 32) a \<and> freelist_step a b)\<^sup>*\<^sup>* s0 s \<and> (\<forall>n. count (th_owned s) n \<le> 1) \<and>
     th_owned s = {#0#} \<and> fl_available 3 s = Some 2"
proof -
  let ?ms = "[MPop 0, MPop 1, MGo 0, MGo 1, MGo 0, MGo 1, MGo 1, MGo 1, MPush 1 1, MGo 1, MGo 1]"
  obtain s0 where s0: "fl_new 2 3 = Some s0" by (simp add: fl_new_def)
  obtain s where run: "treiber_run (2 ^ 32) ?ms s0 = Some s" and s: "th_owned s = {#0#}" "th_pc s = [TIdle, TIdle]"
    using s0 by (auto simp: fl_new_def treiber_eval replicate_2)
  have "(\<lambda>a b. no_wrap (2 ^ 32) a \<and> freelist_step a b)\<^sup>*\<^sup>* s0 s" using treiber_run_steps [OF run] unfolding freelist_step_def .
  from this freelist_exclusive_and_conserved [OF s0 this] s s0 show ?thesis by (intro exI [of _ s0] exI [of _ s]) simp
qed

section \<open>AbaStack and BuggyStack\<close>

text \<open>Nodes are addresses; \<open>AbaStack\<close> counts exchanges in a 64-bit tag, \<open>BuggyStack\<close> compares the pointer alone.\<close>

definition stack_new :: "nat \<Rightarrow> 'n multiset \<Rightarrow> 'n treiber" where
  "stack_new threads nodes = \<lparr>th_head = None, th_tag = 0, th_next = (\<lambda>_. None),
     th_pc = replicate threads TIdle, th_cnt = 0, th_owned = nodes\<rparr>"

definition aba_step :: "'n treiber \<Rightarrow> 'n treiber \<Rightarrow> bool" where
  "aba_step = treiber_step (2 ^ 64)"

definition buggy_step :: "'n treiber \<Rightarrow> 'n treiber \<Rightarrow> bool" where
  "buggy_step = treiber_step 1"

definition stack_empty :: "'n treiber \<Rightarrow> bool" where
  "stack_empty s \<longleftrightarrow> th_head s = None"

definition aba_reach :: "nat \<Rightarrow> 'n multiset \<Rightarrow> 'n treiber \<Rightarrow> bool" where
  "aba_reach threads nodes = (\<lambda>a b. no_wrap (2 ^ 64) a \<and> aba_step a b)\<^sup>*\<^sup>* (stack_new threads nodes)"

fun treiber_exec :: "nat \<Rightarrow> 'n tmove list \<Rightarrow> 'n treiber \<Rightarrow> 'n treiber option" where
  "treiber_exec W [] s = Some s"
| "treiber_exec W (m # ms) s = Option.bind (treiber_move W m s) (treiber_exec W ms)"

lemma treiber_exec_steps: "treiber_exec W ms s = Some s' \<Longrightarrow> (treiber_step W)\<^sup>*\<^sup>* s s'"
  by (induction ms arbitrary: s)
    (auto simp: Option.bind_eq_Some_conv dest!: treiber_move_step intro: converse_rtranclp_into_rtranclp)

lemma stack_new_inv: "treiber_inv W nodes (stack_new threads nodes) []"
  by (simp add: treiber_inv_def stack_new_def pushing_def)

text \<open>
  In every interleaving of pushes and pops on an \<open>AbaStack\<close> in which no operation is overtaken by 2^64 exchanges, with clients free to overwrite the links of
  nodes they own, the list reachable from the head is finite and acyclic, and it, the nodes handed out and
  the nodes being pushed are exactly the initial nodes: none is lost, none has two owners.
\<close>

theorem aba_stack_conserves_nodes:
  assumes "aba_reach threads nodes s" and "\<And>n. count nodes n \<le> 1"
  shows "\<exists>xs. chain_from (th_next s) (th_head s) xs \<and> distinct xs \<and> mset xs + th_owned s + pushing s = nodes"
proof -
  have "\<exists>xs. treiber_inv (2 ^ 64) nodes s xs"
    using treiber_run_inv [OF assms(1) [unfolded aba_reach_def aba_step_def] stack_new_inv assms(2)] .
  then obtain xs where inv: "treiber_inv (2 ^ 64) nodes s xs" by blast
  then have M: "mset xs + th_owned s + pushing s = nodes" by (simp add: treiber_inv_def)
  have "count (mset xs) n \<le> 1" for n using assms(2) [of n] unfolding M [symmetric] by simp
  then have "distinct xs" by (auto simp: distinct_count_atmost_1 Suc_le_eq intro: le_antisym)
  then show ?thesis using inv by (auto simp: treiber_inv_def)
qed

theorem aba_stack_conserves_nodes_witness:
  "\<exists>s xs. aba_reach 2 {#0, 1 :: nat#} s \<and> chain_from (th_next s) (th_head s) xs \<and> distinct xs \<and> mset xs + {#0#} = {#0, 1#}"
proof -
  obtain s where run: "treiber_run (2 ^ 64) [MPush 1 1, MPush 0 0, MGo 0, MGo 1, MGo 0, MGo 1, MGo 1, MGo 1, MPop 0, MGo 0, MGo 0, MPop 0,
      MGo 0, MGo 0, MPush 1 1, MGo 1, MGo 1] (stack_new 2 {#0, 1 :: nat#}) = Some s"
    and s: "th_owned s = {#0#}" "th_pc s = [TIdle, TIdle]"
    by (simp add: stack_new_def treiber_eval replicate_2)
  have reach: "aba_reach 2 {#0, 1 :: nat#} s"
    using treiber_run_steps [OF run] unfolding aba_reach_def aba_step_def .
  moreover have "pushing s = {#}" using s by (simp add: pushing_def)
  ultimately show ?thesis using aba_stack_conserves_nodes [OF reach] s by auto
qed

text \<open>
  The untagged \<open>BuggyStack\<close> hands one node to two owners: a pop that has read \<open>A\<close> and its successor
  \<open>B\<close> is overtaken by pops of \<open>A\<close> and \<open>B\<close> and a push of \<open>A\<close>; its exchange succeeds and puts \<open>B\<close> back.
\<close>

theorem buggy_stack_hands_out_twice:
  "\<exists>s. buggy_step\<^sup>*\<^sup>* (stack_new 2 {#0, 1#}) s \<and> count (th_owned s) (1 :: nat) = 2"
proof -
  let ?ms = "[MPush 1 1, MGo 1, MGo 1, MPush 1 0, MGo 1, MGo 1, MPop 0, MGo 0, MPop 1, MGo 1, MGo 1, MPop 1, MGo 1, MGo 1,
     MPush 1 0, MGo 1, MGo 1, MGo 0, MPop 1, MGo 1, MGo 1]"
  obtain s where "treiber_exec 1 ?ms (stack_new 2 {#0, 1 :: nat#}) = Some s" "count (th_owned s) 1 = 2"
    by (simp add: stack_new_def treiber_eval replicate_2)
  then show ?thesis using treiber_exec_steps unfolding buggy_step_def by blast
qed

end
