(* ===== verification/Tensor.thy ===== *)
theory Tensor
  imports Prelude "HOL-Library.Multiset"
begin

text \<open>
  The tensor handle of \<open>foundation/tensor/tensor.h\<close>: element types and devices, the factories, the layout
  queries, element access and the zero-copy views. Shapes and strides are \<open>int64_t\<close> in the code and integers
  here (signed overflow is undefined there); the byte count of an allocation is computed modulo \<open>2^64\<close> as in
  the code. A pointer is its address, 0 the null pointer; \<open>malloc\<close> is an argument of the factories. A failed
  assertion is \<open>None\<close>.
\<close>

section \<open>Element types and devices\<close>

datatype dtype = KFloat32 | KFloat64 | KFloat16 | KBFloat16 | KInt64 | KInt32 | KInt8 | KUInt8

fun dtype_size :: "dtype \<Rightarrow> nat" where
  "dtype_size KFloat64 = 8"
| "dtype_size KFloat32 = 4"
| "dtype_size KInt64 = 8"
| "dtype_size KInt32 = 4"
| "dtype_size KFloat16 = 2"
| "dtype_size KBFloat16 = 2"
| "dtype_size KInt8 = 1"
| "dtype_size KUInt8 = 1"

fun dtype_name :: "dtype \<Rightarrow> string" where
  "dtype_name KFloat32 = ''float32''"
| "dtype_name KFloat64 = ''float64''"
| "dtype_name KFloat16 = ''float16''"
| "dtype_name KBFloat16 = ''bfloat16''"
| "dtype_name KInt64 = ''int64''"
| "dtype_name KInt32 = ''int32''"
| "dtype_name KInt8 = ''int8''"
| "dtype_name KUInt8 = ''uint8''"

datatype device_type = DevCPU | DevCUDA | DevFPGA

fun device_type_name :: "device_type \<Rightarrow> string" where
  "device_type_name DevCPU = ''cpu''"
| "device_type_name DevCUDA = ''cuda''"
| "device_type_name DevFPGA = ''fpga''"

record device =
  dev_type :: device_type
  dev_index :: int

definition kCPU :: device where
  "kCPU = \<lparr>dev_type = DevCPU, dev_index = 0\<rparr>"

section \<open>Handles\<close>

record tensor =
  t_buffer :: "nat option"
  t_data :: int
  t_shape :: "int list"
  t_strides :: "int list"
  t_dtype :: dtype
  t_device :: device

definition tensor_null :: tensor where
  "tensor_null = \<lparr>t_buffer = None, t_data = 0, t_shape = [], t_strides = [], t_dtype = KFloat32, t_device = kCPU\<rparr>"

fun numel_loop :: "int \<Rightarrow> int list \<Rightarrow> int" where
  "numel_loop n [] = n"
| "numel_loop n (s # ss) = numel_loop (n * s) ss"

definition numel_of :: "int list \<Rightarrow> int" where
  "numel_of shape = numel_loop 1 shape"

text \<open>The strides from the last dimension to the first.\<close>

fun contiguous_strides :: "int list \<Rightarrow> dtype \<Rightarrow> int list" where
  "contiguous_strides [] d = []"
| "contiguous_strides [n] d = [int (dtype_size d)]"
| "contiguous_strides (n # m # ns) d = (let ss = contiguous_strides (m # ns) d in (hd ss * m) # ss)"

definition tensor_bytes :: "int list \<Rightarrow> dtype \<Rightarrow> nat" where
  "tensor_bytes shape d = nat (numel_of shape mod 2 ^ 64 * int (dtype_size d) mod 2 ^ 64)"

definition tensor_empty :: "(nat \<Rightarrow> nat option) \<Rightarrow> int list \<Rightarrow> dtype \<Rightarrow> device \<Rightarrow> tensor" where
  "tensor_empty malloc shape d dev =
    (let bytes = tensor_bytes shape d in
     case malloc (if bytes = 0 then 1 else bytes) of
       None \<Rightarrow> tensor_null
     | Some raw \<Rightarrow> \<lparr>t_buffer = Some raw, t_data = int raw, t_shape = shape, t_strides = contiguous_strides shape d,
                   t_dtype = d, t_device = dev\<rparr>)"

definition tensor_valid :: "tensor \<Rightarrow> bool" where
  "tensor_valid t \<longleftrightarrow> t_data t \<noteq> 0"

definition tensor_ndim :: "tensor \<Rightarrow> int" where
  "tensor_ndim t = int (length (t_shape t))"

definition tensor_numel :: "tensor \<Rightarrow> int" where
  "tensor_numel t = numel_of (t_shape t)"

definition memset :: "(int \<Rightarrow> nat) \<Rightarrow> int \<Rightarrow> nat \<Rightarrow> nat \<Rightarrow> int \<Rightarrow> nat" where
  "memset mem p v n = (\<lambda>a. if p \<le> a \<and> a < p + int n then v else mem a)"

definition tensor_zeros :: "(nat \<Rightarrow> nat option) \<Rightarrow> (int \<Rightarrow> nat) \<Rightarrow> int list \<Rightarrow> dtype \<Rightarrow> device \<Rightarrow> tensor \<times> (int \<Rightarrow> nat)" where
  "tensor_zeros malloc mem shape d dev =
    (let t = tensor_empty malloc shape d dev in
     if tensor_valid t then (t, memset mem (t_data t) 0 (tensor_bytes (t_shape t) d)) else (t, mem))"

definition tensor_from_buffer :: "nat \<Rightarrow> int \<Rightarrow> int list \<Rightarrow> int list \<Rightarrow> dtype \<Rightarrow> device \<Rightarrow> tensor" where
  "tensor_from_buffer buffer p shape strides d dev =
    \<lparr>t_buffer = Some buffer, t_data = p, t_shape = shape, t_strides = strides, t_dtype = d, t_device = dev\<rparr>"

definition tensor_borrow :: "int \<Rightarrow> int list \<Rightarrow> int list \<Rightarrow> dtype \<Rightarrow> device \<Rightarrow> tensor" where
  "tensor_borrow p shape strides d dev =
    \<lparr>t_buffer = None, t_data = p, t_shape = shape, t_strides = strides, t_dtype = d, t_device = dev\<rparr>"

text \<open>
  \<open>from_buffer\<close> and \<open>borrow\<close> take any strides; reading a stride that is not there is undefined in the code and
  \<open>None\<close> here.
\<close>

definition has_stride :: "tensor \<Rightarrow> int \<Rightarrow> bool" where
  "has_stride t dim \<longleftrightarrow> nat dim < length (t_strides t)"

definition dim_ok :: "tensor \<Rightarrow> int \<Rightarrow> bool" where
  "dim_ok t dim \<longleftrightarrow> 0 \<le> dim \<and> dim < tensor_ndim t"

definition tensor_size :: "tensor \<Rightarrow> int \<Rightarrow> int option" where
  "tensor_size t dim = (if dim_ok t dim then Some (t_shape t ! nat dim) else None)"

definition tensor_stride :: "tensor \<Rightarrow> int \<Rightarrow> int option" where
  "tensor_stride t dim = (if dim_ok t dim \<and> has_stride t dim then Some (t_strides t ! nat dim) else None)"

fun contiguous_loop :: "int \<Rightarrow> (int \<times> int) list \<Rightarrow> bool" where
  "contiguous_loop expected [] = True"
| "contiguous_loop expected ((n, s) # ds) =
    (if n = 0 then True else if s \<noteq> expected then False else contiguous_loop (expected * n) ds)"

definition is_contiguous :: "tensor \<Rightarrow> bool" where
  "is_contiguous t = (t_shape t = [] \<or> contiguous_loop (int (dtype_size (t_dtype t))) (rev (zip (t_shape t) (t_strides t))))"

fun offset_loop :: "int \<Rightarrow> int list \<Rightarrow> int list \<Rightarrow> int list \<Rightarrow> int option" where
  "offset_loop offset [] [] ss = Some offset"
| "offset_loop offset (i # is) (n # ns) (s # ss) =
    (if 0 \<le> i \<and> i < n then offset_loop (offset + i * s) is ns ss else None)"
| "offset_loop offset _ _ _ = None"

definition byte_ptr :: "tensor \<Rightarrow> int list \<Rightarrow> int option" where
  "byte_ptr t indices = map_option ((+) (t_data t)) (offset_loop 0 indices (t_shape t) (t_strides t))"

definition tensor_at :: "nat \<Rightarrow> tensor \<Rightarrow> int list \<Rightarrow> int option" where
  "tensor_at sizeof_T t indices = (if sizeof_T = dtype_size (t_dtype t) then byte_ptr t indices else None)"

section \<open>Views\<close>

definition swap_at :: "nat \<Rightarrow> nat \<Rightarrow> 'a list \<Rightarrow> 'a list" where
  "swap_at i j xs = xs[j := xs ! i, i := xs ! j]"

definition tensor_transpose :: "int \<Rightarrow> int \<Rightarrow> tensor \<Rightarrow> tensor option" where
  "tensor_transpose d0 d1 t = (if tensor_valid t \<and> dim_ok t d0 \<and> dim_ok t d1 \<and> has_stride t d0 \<and> has_stride t d1 then
     Some (t\<lparr>t_shape := swap_at (nat d0) (nat d1) (t_shape t), t_strides := swap_at (nat d0) (nat d1) (t_strides t)\<rparr>) else None)"

definition tensor_slice :: "int \<Rightarrow> int \<Rightarrow> int \<Rightarrow> int \<Rightarrow> tensor \<Rightarrow> tensor option" where
  "tensor_slice dim start stop step t =
    (if tensor_valid t \<and> dim_ok t dim \<and> 0 < step \<and> 0 \<le> start \<and> start \<le> stop \<and> stop \<le> t_shape t ! nat dim \<and> has_stride t dim then
       Some (t\<lparr>t_shape := (t_shape t)[nat dim := (stop - start + step - 1) div step],
               t_strides := (t_strides t)[nat dim := t_strides t ! nat dim * step],
               t_data := t_data t + start * t_strides t ! nat dim\<rparr>) else None)"

definition tensor_reshape :: "int list \<Rightarrow> tensor \<Rightarrow> tensor option" where
  "tensor_reshape new_shape t =
    (if tensor_valid t \<and> is_contiguous t \<and> numel_of new_shape = tensor_numel t then
       Some (t\<lparr>t_shape := new_shape, t_strides := contiguous_strides new_shape (t_dtype t)\<rparr>) else None)"

datatype view = VTranspose int int | VSlice int int int int | VReshape "int list"

fun apply_view :: "view \<Rightarrow> tensor \<Rightarrow> tensor option" where
  "apply_view (VTranspose d0 d1) t = tensor_transpose d0 d1 t"
| "apply_view (VSlice dim start stop step) t = tensor_slice dim start stop step t"
| "apply_view (VReshape ns) t = tensor_reshape ns t"

fun apply_views :: "view list \<Rightarrow> tensor \<Rightarrow> tensor option" where
  "apply_views [] t = Some t"
| "apply_views (v # vs) t = Option.bind (apply_view v t) (apply_views vs)"

section \<open>Addressing\<close>

lemma dtype_size_pos [simp]: "0 < dtype_size d"
  by (cases d) auto

lemma numel_loop: "numel_loop n ss = n * prod_list ss"
  by (induction ss arbitrary: n) auto

lemma numel_of [simp]: "numel_of ss = prod_list ss"
  by (simp add: numel_of_def numel_loop)

text \<open>In-range indices, and the weighted sum the code accumulates.\<close>

definition in_range :: "int list \<Rightarrow> int list \<Rightarrow> bool" where
  "in_range is ns \<longleftrightarrow> list_all2 (\<lambda>i n. 0 \<le> i \<and> i < n) is ns"

definition dot :: "int list \<Rightarrow> int list \<Rightarrow> int" where
  "dot is ss = sum_list (map2 (*) is ss)"

lemma offset_loop_dot:
  "length ss = length ns \<Longrightarrow> offset_loop off is ns ss = (if in_range is ns then Some (off + dot is ss) else None)"
  by (induction off "is" ns ss rule: offset_loop.induct) (auto simp: in_range_def dot_def)

definition strided :: "tensor \<Rightarrow> bool" where
  "strided t \<longleftrightarrow> length (t_strides t) = length (t_shape t)"

lemma byte_ptr_dot:
  "strided t \<Longrightarrow> byte_ptr t is = (if in_range is (t_shape t) then Some (t_data t + dot is (t_strides t)) else None)"
  by (simp add: byte_ptr_def offset_loop_dot strided_def)

lemma in_range_nth: "in_range is ns \<longleftrightarrow> length is = length ns \<and> (\<forall>k < length ns. 0 \<le> is ! k \<and> is ! k < ns ! k)"
  by (auto simp: in_range_def list_all2_conv_all_nth)

lemma dot_nth: "length is = length ss \<Longrightarrow> dot is ss = (\<Sum>k<length ss. is ! k * ss ! k)"
  by (simp add: dot_def sum_list_sum_nth atLeast0LessThan)

lemma length_swap_at [simp]: "length (swap_at i j xs) = length xs"
  by (simp add: swap_at_def)

lemma nth_swap_at:
  "i < length xs \<Longrightarrow> j < length xs \<Longrightarrow> k < length xs \<Longrightarrow> swap_at i j xs ! k = xs ! (if k = i then j else if k = j then i else k)"
  by (auto simp: swap_at_def nth_list_update)

lemma swap_at_zip: "i < length xs \<Longrightarrow> j < length xs \<Longrightarrow> length xs = length ys \<Longrightarrow> zip (swap_at i j xs) (swap_at i j ys) = swap_at i j (zip xs ys)"
  by (simp add: swap_at_def zip_update [symmetric])

lemma swap_at_swap_at: "i < length xs \<Longrightarrow> j < length xs \<Longrightarrow> swap_at i j (swap_at i j xs) = xs"
  by (rule nth_equalityI) (auto simp: nth_swap_at)

lemma dot_swap:
  assumes "i < length is" "j < length is" "length is = length ss"
  shows "dot (swap_at i j is) (swap_at i j ss) = dot is ss"
proof -
  have "mset (swap_at i j (zip is ss)) = mset (zip is ss)"
    unfolding swap_at_def by (rule mset_swap) (use assms in auto)
  then have "mset (map2 (*) (swap_at i j is) (swap_at i j ss)) = mset (map2 (*) is ss)"
    using assms by (simp add: swap_at_zip)
  then show ?thesis unfolding dot_def by (metis sum_mset_sum_list)
qed

lemma in_range_swapI:
  "i < length ns \<Longrightarrow> j < length ns \<Longrightarrow> in_range is ns \<Longrightarrow> in_range (swap_at i j is) (swap_at i j ns)"
  by (auto simp: in_range_nth nth_swap_at)

lemma in_range_swap:
  assumes "i < length ns" "j < length ns" "length is = length ns"
  shows "in_range (swap_at i j is) (swap_at i j ns) \<longleftrightarrow> in_range is ns"
  using in_range_swapI [of i ns j "is"] in_range_swapI [of i "swap_at i j ns" j "swap_at i j is"] assms
  by (auto simp: swap_at_swap_at)

text \<open>Row-major order.\<close>

fun row_major :: "int list \<Rightarrow> int list \<Rightarrow> int" where
  "row_major (n # ns) (i # is) = i * prod_list ns + row_major ns is"
| "row_major _ _ = 0"

lemma contiguous_strides_Cons: "contiguous_strides (n # ns) d = (int (dtype_size d) * prod_list ns) # contiguous_strides ns d"
  by (induction ns arbitrary: n) (auto simp: Let_def algebra_simps)

lemma length_contiguous_strides [simp]: "length (contiguous_strides ns d) = length ns"
  by (induction ns) (auto simp: contiguous_strides_Cons)

lemma dot_contiguous: "length is = length ns \<Longrightarrow> dot is (contiguous_strides ns d) = int (dtype_size d) * row_major ns is"
  by (induction "is" ns rule: list_induct2) (auto simp: contiguous_strides_Cons dot_def algebra_simps)

lemma in_range_prod_pos: "in_range is ns \<Longrightarrow> 0 < prod_list ns"
  unfolding in_range_def by (induction rule: list_all2_induct) auto

lemma row_major_bounds: "in_range is ns \<Longrightarrow> 0 \<le> row_major ns is \<and> row_major ns is < prod_list ns"
  unfolding in_range_def
proof (induction rule: list_all2_induct)
  case (Cons i "is" n ns)
  then have "i * prod_list ns \<le> (n - 1) * prod_list ns" by (intro mult_right_mono) auto
  then show ?case using Cons by (auto simp: algebra_simps)
qed simp

lemma contiguous_loop_append:
  "contiguous_loop e (xs @ ys) \<longleftrightarrow> contiguous_loop e xs \<and> (0 \<in> fst ` set xs \<or> contiguous_loop (e * prod_list (map fst xs)) ys)"
  by (induction e xs rule: contiguous_loop.induct) (simp_all add: mult.assoc)

lemma prod_list_rev_int: "prod_list (rev xs) = prod_list (xs :: int list)"
  by (induction xs) auto

lemma contiguous_loop_iff:
  "length ns = length ss \<Longrightarrow> 0 \<notin> set ns \<Longrightarrow>
    contiguous_loop (int (dtype_size d)) (rev (zip ns ss)) \<longleftrightarrow> ss = contiguous_strides ns d"
proof (induction ns ss rule: list_induct2)
  case (Cons n ns s ss)
  have "map fst (rev (zip ns ss)) = rev ns" using Cons by (simp add: rev_map [symmetric])
  then show ?case using Cons by (auto simp: contiguous_loop_append contiguous_strides_Cons prod_list_rev_int dest: set_zip_leftD)
qed simp

section \<open>The views keep element accesses inside the allocation\<close>

text \<open>Every element that a handle can address lies between \<open>lo\<close> and \<open>hi\<close>.\<close>

definition tensor_inv :: "int \<Rightarrow> int \<Rightarrow> tensor \<Rightarrow> bool" where
  "tensor_inv lo hi t \<longleftrightarrow> strided t \<and> list_all (\<lambda>n. 0 \<le> n) (t_shape t) \<and>
     (\<forall>is p. byte_ptr t is = Some p \<longrightarrow> lo \<le> p \<and> p + int (dtype_size (t_dtype t)) \<le> hi)"

lemma tensor_transposeD:
  assumes "tensor_transpose d0 d1 t = Some t'" "strided t"
  shows "strided t'" "length is = length (t_shape t) \<Longrightarrow> byte_ptr t' (swap_at (nat d0) (nat d1) is) = byte_ptr t is"
    "t_dtype t' = t_dtype t" "t_shape t' = swap_at (nat d0) (nat d1) (t_shape t)"
proof -
  have d: "nat d0 < length (t_shape t)" "nat d1 < length (t_shape t)" and t': "t' = t\<lparr>t_shape := swap_at (nat d0) (nat d1) (t_shape t), t_strides := swap_at (nat d0) (nat d1) (t_strides t)\<rparr>"
    using assms(1) by (auto simp: tensor_transpose_def dim_ok_def tensor_ndim_def split: if_splits)
  show st: "strided t'" "t_dtype t' = t_dtype t" "t_shape t' = swap_at (nat d0) (nat d1) (t_shape t)"
    using assms(2) t' by (auto simp: strided_def)
  assume "length is = length (t_shape t)"
  then show "byte_ptr t' (swap_at (nat d0) (nat d1) is) = byte_ptr t is"
    using d assms(2) st(1) by (simp add: byte_ptr_dot in_range_swap dot_swap t') (simp add: strided_def dot_swap)
qed

lemma dot_update:
  "k < length is \<Longrightarrow> length is = length ss \<Longrightarrow> dot (is[k := a + is ! k * c]) ss = a * ss ! k + dot is (ss[k := ss ! k * c])"
proof (induction "is" arbitrary: k ss)
  case (Cons i "is")
  then show ?case by (cases ss; cases k) (auto simp: dot_def algebra_simps)
qed simp

lemma slice_index:
  assumes "0 < step" "0 \<le> i" "i < (stop - start + step - 1) div step" "0 \<le> (start :: int)"
  shows "0 \<le> start + i * step" "start + i * step < stop"
proof -
  have "(i + 1) * step \<le> (stop - start + step - 1) div step * step" using assms by (intro mult_right_mono) auto
  also have "\<dots> \<le> stop - start + step - 1"
    using pos_mod_sign [OF assms(1), of "stop - start + step - 1"] by (simp add: minus_mod_eq_div_mult [symmetric])
  finally show "start + i * step < stop" by (simp add: algebra_simps)
  show "0 \<le> start + i * step" using assms by simp
qed

lemma tensor_sliceD:
  assumes "tensor_slice dim start stop step t = Some t'" "strided t"
  shows "strided t'" "t_dtype t' = t_dtype t"
    "t_shape t' = (t_shape t)[nat dim := (stop - start + step - 1) div step]"
    "0 \<le> (stop - start + step - 1) div step"
    "byte_ptr t' is = Some p \<Longrightarrow> byte_ptr t (is[nat dim := start + is ! nat dim * step]) = Some p"
proof -
  let ?k = "nat dim" and ?n = "(stop - start + step - 1) div step"
  have g: "?k < length (t_shape t)" "0 < step" "0 \<le> start" "start \<le> stop" "stop \<le> t_shape t ! ?k"
    and t': "t' = t\<lparr>t_shape := (t_shape t)[?k := ?n], t_strides := (t_strides t)[?k := t_strides t ! ?k * step],
               t_data := t_data t + start * t_strides t ! ?k\<rparr>"
    using assms(1) by (auto simp: tensor_slice_def dim_ok_def tensor_ndim_def split: if_splits)
  show st: "strided t'" "t_dtype t' = t_dtype t" "t_shape t' = (t_shape t)[?k := ?n]" "0 \<le> ?n"
    using assms(2) t' g by (auto simp: strided_def pos_imp_zdiv_nonneg_iff)
  assume "byte_ptr t' is = Some p"
  then have r: "in_range is (t_shape t')" and p: "p = t_data t' + dot is (t_strides t')"
    using byte_ptr_dot [OF st(1)] by (auto split: if_splits)
  then have len: "length is = length (t_shape t)" and i: "0 \<le> is ! ?k" "is ! ?k < ?n"
    using g(1) by (auto simp: st(3) in_range_nth nth_list_update dest: spec [of _ ?k])
  have "in_range (is[?k := start + is ! ?k * step]) (t_shape t)"
    using r slice_index [OF g(2) i g(3)] g(1,5) len by (auto simp: st(3) in_range_nth nth_list_update split: if_splits)
  then show "byte_ptr t (is[?k := start + is ! ?k * step]) = Some p"
    using dot_update [of ?k "is" "t_strides t" start step] g(1) len assms(2) p t' byte_ptr_dot [OF assms(2)]
    by (simp add: strided_def)
qed

lemma contiguous_addr:
  assumes "strided t" "is_contiguous t" "in_range is (t_shape t)"
  shows "byte_ptr t is = Some (t_data t + int (dtype_size (t_dtype t)) * row_major (t_shape t) is)"
proof -
  have "0 \<notin> set (t_shape t)" using assms(3) by (auto simp: in_range_nth in_set_conv_nth)
  then have "t_strides t = contiguous_strides (t_shape t) (t_dtype t)"
    using assms(1,2) contiguous_loop_iff [of "t_shape t" "t_strides t" "t_dtype t"] by (auto simp: is_contiguous_def strided_def)
  then show ?thesis using assms byte_ptr_dot [OF assms(1)] dot_contiguous by (simp add: in_range_nth)
qed

text \<open>The last element of a non-empty contiguous tensor.\<close>

lemma row_major_last:
  "list_all (\<lambda>n. 0 < n) ns \<Longrightarrow> in_range (map (\<lambda>n. n - 1) ns) ns \<and> row_major ns (map (\<lambda>n. n - 1) ns) = prod_list ns - 1"
  by (induction ns) (auto simp: in_range_def algebra_simps)

lemma row_major_first:
  "list_all (\<lambda>n. 0 < n) ns \<Longrightarrow> in_range (map (\<lambda>n. 0) ns) ns \<and> row_major ns (map (\<lambda>n. 0) ns) = 0"
  by (induction ns) (auto simp: in_range_def)

lemma prod_pos_all_pos: "list_all (\<lambda>n. 0 \<le> n) ns \<Longrightarrow> 0 < prod_list ns \<Longrightarrow> list_all (\<lambda>n :: int. 0 < n) ns"
  by (induction ns) (auto simp: zero_less_mult_iff)

lemma contiguous_extent:
  assumes "tensor_inv lo hi t" "is_contiguous t" "0 < prod_list (t_shape t)"
  shows "lo \<le> t_data t" "t_data t + int (dtype_size (t_dtype t)) * prod_list (t_shape t) \<le> hi"
proof -
  have st: "strided t" and pos: "list_all (\<lambda>n. 0 < n) (t_shape t)"
    using assms prod_pos_all_pos by (auto simp: tensor_inv_def)
  have I: "lo \<le> p \<and> p + int (dtype_size (t_dtype t)) \<le> hi" if "byte_ptr t is = Some p" for "is" p
    using assms(1) that by (auto simp: tensor_inv_def)
  show "lo \<le> t_data t" using I contiguous_addr [OF st assms(2)] row_major_first [OF pos] by fastforce
  show "t_data t + int (dtype_size (t_dtype t)) * prod_list (t_shape t) \<le> hi"
    using I [OF contiguous_addr [OF st assms(2) conjunct1 [OF row_major_last [OF pos]]]] row_major_last [OF pos]
    by (simp add: algebra_simps)
qed

lemma contiguous_inv:
  assumes "t_strides t = contiguous_strides (t_shape t) (t_dtype t)" "list_all (\<lambda>n. 0 \<le> n) (t_shape t)"
    and "0 < prod_list (t_shape t) \<Longrightarrow> lo \<le> t_data t \<and> t_data t + int (dtype_size (t_dtype t)) * prod_list (t_shape t) \<le> hi"
  shows "tensor_inv lo hi t"
proof -
  have st: "strided t" using assms(1) by (simp add: strided_def)
  let ?e = "int (dtype_size (t_dtype t))"
  have "lo \<le> p \<and> p + ?e \<le> hi" if "byte_ptr t is = Some p" for "is" p
  proof -
    have r: "in_range is (t_shape t)" and p: "p = t_data t + ?e * row_major (t_shape t) is"
      using that byte_ptr_dot [OF st] assms(1) dot_contiguous by (auto simp: in_range_nth split: if_splits)
    have "?e * (row_major (t_shape t) is + 1) \<le> ?e * prod_list (t_shape t)"
      using row_major_bounds [OF r] by (intro mult_left_mono) auto
    moreover have "0 \<le> ?e * row_major (t_shape t) is" using row_major_bounds [OF r] by simp
    ultimately show ?thesis using p assms(3) in_range_prod_pos [OF r] by (auto simp: algebra_simps)
  qed
  then show ?thesis using st assms(2) by (auto simp: tensor_inv_def)
qed

lemma apply_view_inv:
  assumes "tensor_inv lo hi t" "apply_view v t = Some t'" "\<And>ns. v = VReshape ns \<Longrightarrow> list_all (\<lambda>n. 0 \<le> n) ns"
  shows "tensor_inv lo hi t' \<and> t_dtype t' = t_dtype t"
proof (cases v)
  case (VTranspose d0 d1)
  then have tr: "tensor_transpose d0 d1 t = Some t'" and st: "strided t" using assms by (auto simp: tensor_inv_def)
  note T = tensor_transposeD [OF tr st]
  have d: "nat d0 < length (t_shape t)" "nat d1 < length (t_shape t)"
    using tr by (auto simp: tensor_transpose_def dim_ok_def tensor_ndim_def split: if_splits)
  have "set (t_shape t') = set (t_shape t)" using d by (simp add: T(4) swap_at_def set_swap)
  moreover have "byte_ptr t (swap_at (nat d0) (nat d1) is) = Some p" if b: "byte_ptr t' is = Some p" for "is" p
  proof -
    have "length is = length (t_shape t)" using b byte_ptr_dot [OF T(1)] T(4) by (auto simp: in_range_nth split: if_splits)
    then show ?thesis using T(2) [of "swap_at (nat d0) (nat d1) is"] b d by (simp add: swap_at_swap_at)
  qed
  ultimately show ?thesis using assms(1) T(1,3) by (fastforce simp: tensor_inv_def list_all_iff)
next
  case (VSlice dim start stop step)
  then have sl: "tensor_slice dim start stop step t = Some t'" and st: "strided t" using assms by (auto simp: tensor_inv_def)
  note S = tensor_sliceD [OF sl st]
  have "list_all (\<lambda>n. 0 \<le> n) (t_shape t')"
    using assms(1) S(3,4) set_update_subset_insert by (fastforce simp: tensor_inv_def list_all_iff)
  then show ?thesis using assms(1) S by (fastforce simp: tensor_inv_def)
next
  case (VReshape ns)
  then have t': "t' = t\<lparr>t_shape := ns, t_strides := contiguous_strides ns (t_dtype t)\<rparr>" "is_contiguous t" "prod_list ns = prod_list (t_shape t)"
    using assms(2) by (auto simp: tensor_reshape_def tensor_numel_def split: if_splits)
  have "tensor_inv lo hi t'"
    by (rule contiguous_inv) (use t' assms(3) [OF VReshape] contiguous_extent [OF assms(1) t'(2)] in auto)
  then show ?thesis using t' by simp
qed

fun view_shape_ok :: "view \<Rightarrow> bool" where
  "view_shape_ok (VReshape ns) = list_all (\<lambda>n. 0 \<le> n) ns"
| "view_shape_ok _ = True"

lemma apply_views_inv:
  "tensor_inv lo hi t \<Longrightarrow> apply_views vs t = Some t' \<Longrightarrow> list_all view_shape_ok vs \<Longrightarrow>
    tensor_inv lo hi t' \<and> t_dtype t' = t_dtype t"
proof (induction vs arbitrary: t)
  case (Cons v vs)
  then obtain u where u: "apply_view v t = Some u" "apply_views vs u = Some t'" by (auto simp: Option.bind_eq_Some_conv)
  have "tensor_inv lo hi u \<and> t_dtype u = t_dtype t"
    by (rule apply_view_inv [OF Cons.prems(1) u(1)]) (use Cons.prems(3) in auto)
  then show ?case using Cons.IH [of u] u(2) Cons.prems(3) by auto
qed simp

lemma tensor_empty_inv:
  assumes "tensor_valid (tensor_empty malloc shape d dev)" "list_all (\<lambda>n. 0 \<le> n) shape" "prod_list shape * int (dtype_size d) < 2 ^ 64"
  shows "tensor_inv (t_data (tensor_empty malloc shape d dev)) (t_data (tensor_empty malloc shape d dev) + int (tensor_bytes shape d)) (tensor_empty malloc shape d dev)"
    "t_dtype (tensor_empty malloc shape d dev) = d"
proof -
  obtain raw where t: "tensor_empty malloc shape d dev = \<lparr>t_buffer = Some raw, t_data = int raw, t_shape = shape,
      t_strides = contiguous_strides shape d, t_dtype = d, t_device = dev\<rparr>"
    using assms(1) by (auto simp: tensor_empty_def Let_def tensor_valid_def tensor_null_def split: option.splits)
  have nn: "0 \<le> prod_list shape" using assms(2) by (induction shape) auto
  have "prod_list shape * 1 \<le> prod_list shape * int (dtype_size d)" using nn by (intro mult_left_mono) (auto simp: Suc_le_eq)
  then have "int (tensor_bytes shape d) = prod_list shape * int (dtype_size d)"
    using assms(3) nn by (simp add: tensor_bytes_def)
  then show "tensor_inv (t_data (tensor_empty malloc shape d dev)) (t_data (tensor_empty malloc shape d dev) + int (tensor_bytes shape d)) (tensor_empty malloc shape d dev)"
    by (intro contiguous_inv) (use assms(2) in \<open>auto simp: t\<close>)
qed (use assms(1) in \<open>auto simp: tensor_empty_def Let_def tensor_valid_def tensor_null_def split: option.splits\<close>)

text \<open>
  C22. Element access through any chain of transposes, slices and reshapes of an allocated tensor stays inside the allocation, for
  shapes without a negative dimension whose elements take fewer than 2^64 bytes: \<open>at\<close> passes its assertions exactly for an element
  type of the tensor's size and indices inside the shape of the view, and the pointer it returns addresses a whole element between
  the start of the buffer and its size in bytes. Beyond that size the byte count wraps (\<open>tensor_empty_wraps\<close>).
\<close>

theorem tensor_views_in_bounds:
  assumes "tensor_empty malloc shape d dev = t" "tensor_valid t"
    and "list_all (\<lambda>n. 0 \<le> n) shape" "numel_of shape * int (dtype_size d) < 2 ^ 64"
    and "apply_views vs t = Some t'" "list_all view_shape_ok vs"
  shows "(tensor_at sizeof_T t' is \<noteq> None \<longleftrightarrow> sizeof_T = dtype_size d \<and> in_range is (t_shape t')) \<and>
    (\<forall>p. tensor_at sizeof_T t' is = Some p \<longrightarrow> t_data t \<le> p \<and> p + int sizeof_T \<le> t_data t + int (tensor_bytes shape d))"
proof -
  have "tensor_inv (t_data t) (t_data t + int (tensor_bytes shape d)) t' \<and> t_dtype t' = d"
    using apply_views_inv [OF _ assms(5,6)] tensor_empty_inv [of malloc shape d dev] assms(1-4) by auto
  then show ?thesis using byte_ptr_dot [of t' "is"] by (auto simp: tensor_inv_def tensor_at_def split: if_splits)
qed

theorem tensor_views_in_bounds_witness:
  "\<exists>t'. apply_views [VTranspose 0 1, VSlice 0 1 4 2, VSlice 1 1 3 1] (tensor_empty (\<lambda>n. Some 4096) [3, 4] KFloat32 kCPU) = Some t' \<and>
     tensor_at 4 t' [1, 1] = Some 4140 \<and> (4096 :: int) \<le> 4140 \<and> (4140 :: int) + int 4 \<le> 4096 + int (tensor_bytes [3, 4] KFloat32)"
proof -
  let ?t = "tensor_empty (\<lambda>n. Some 4096) [3, 4] KFloat32 kCPU"
  obtain t' where t': "apply_views [VTranspose 0 1, VSlice 0 1 4 2, VSlice 1 1 3 1] ?t = Some t'" and p: "tensor_at 4 t' [1, 1] = Some 4140"
    by (simp add: tensor_empty_def tensor_bytes_def tensor_transpose_def tensor_slice_def tensor_valid_def dim_ok_def has_stride_def
        tensor_ndim_def swap_at_def tensor_at_def byte_ptr_def)
  have "t_data ?t = 4096" by (simp add: tensor_empty_def)
  then show ?thesis using tensor_views_in_bounds [OF refl, of "\<lambda>n. Some 4096" "[3, 4]" KFloat32 kCPU "[VTranspose 0 1, VSlice 0 1 4 2, VSlice 1 1 3 1]" t' 4 "[1, 1]"] t' p
    by (simp add: tensor_valid_def)
qed

text \<open>A tensor of 2^61 doubles: the byte count is 0, one byte is allocated, and the second element is outside of it.\<close>

theorem tensor_empty_wraps:
  "tensor_bytes [2 ^ 61] KFloat64 = 0 \<and> tensor_at 8 (tensor_empty (\<lambda>n. if n \<le> 4096 then Some 65536 else None) [2 ^ 61] KFloat64 kCPU) [1] = Some (65536 + 8)"
  by (simp add: tensor_bytes_def tensor_empty_def tensor_at_def byte_ptr_def)

text \<open>
  \<open>is_contiguous\<close> decides C order: for a tensor without an empty dimension it holds exactly when the strides
  are the ones \<open>empty\<close> computes, and then element \<open>[i0, ..., in]\<close> is the row-major one, at \<open>elem * index\<close> bytes.
\<close>

theorem is_contiguous_row_major:
  assumes "length (t_strides t) = length (t_shape t)" "0 \<notin> set (t_shape t)"
  shows "(is_contiguous t \<longleftrightarrow> t_strides t = contiguous_strides (t_shape t) (t_dtype t)) \<and>
    (is_contiguous t \<and> in_range is (t_shape t) \<longrightarrow>
       byte_ptr t is = Some (t_data t + int (dtype_size (t_dtype t)) * row_major (t_shape t) is))"
  using contiguous_loop_iff [of "t_shape t" "t_strides t" "t_dtype t"] contiguous_addr [of t "is"] assms
  by (auto simp: is_contiguous_def strided_def)

theorem is_contiguous_row_major_witness:
  "is_contiguous (tensor_borrow 100 [2, 3] [12, 4] KFloat32 kCPU) \<and> \<not> is_contiguous (tensor_borrow 100 [3, 2] [4, 12] KFloat32 kCPU) \<and>
   byte_ptr (tensor_borrow 100 [2, 3] [12, 4] KFloat32 kCPU) [1, 2] = Some 120"
  using is_contiguous_row_major [of "tensor_borrow 100 [2, 3] [12, 4] KFloat32 kCPU" "[1, 2]"]
    is_contiguous_row_major [of "tensor_borrow 100 [3, 2] [4, 12] KFloat32 kCPU" "[1, 1]"]
  by (simp add: tensor_borrow_def in_range_def)

end
