(* ===== verification/Channel.thy ===== *)
theory Channel
  imports Prelude
begin

text \<open>
  The byte level of \<open>networking/common/channel.cpp\<close>: \<open>sendAll\<close> and \<open>recvAll\<close>, the loops below \<open>TcpChannel::send\<close>
  and \<open>recv\<close>. The results of the socket calls are an argument, one number per call: the bytes the kernel took or
  gave, or a value below 1 for an error or a closed connection. When the list ends the call blocks.
\<close>

datatype 'a io = Done 'a | Threw | Blocked

fun sendAll :: "int list \<Rightarrow> 'b list \<Rightarrow> nat \<Rightarrow> 'b list \<Rightarrow> 'b list io" where
  "sendAll rets data sent out = (if sent < length data then
     (case rets of
        [] \<Rightarrow> Blocked
      | n # rets' \<Rightarrow> if n \<le> 0 then Threw else sendAll rets' data (sent + nat n) (out @ take (nat n) (drop sent data)))
     else Done out)"

fun recvAll :: "int list \<Rightarrow> 'b list \<Rightarrow> nat \<Rightarrow> 'b list \<Rightarrow> ('b list \<times> 'b list) io" where
  "recvAll rets stream len got = (if length got < len then
     (case rets of
        [] \<Rightarrow> Blocked
      | n # rets' \<Rightarrow> if n \<le> 0 then Threw else recvAll rets' (drop (nat n) stream) len (got @ take (nat n) stream))
     else Done (got, stream))"

declare sendAll.simps [simp del] recvAll.simps [simp del]

text \<open>A socket call returns at most the number of bytes asked for.\<close>

fun within :: "int list \<Rightarrow> nat \<Rightarrow> bool" where
  "within [] len \<longleftrightarrow> True"
| "within (n # ns) len \<longleftrightarrow> (0 < len \<and> 0 < n \<longrightarrow> nat n \<le> len \<and> within ns (len - nat n))"

lemma sendAll_bytes:
  "within rets (length data - sent) \<Longrightarrow> sent \<le> length data \<Longrightarrow> out = take sent data \<Longrightarrow>
    sendAll rets data sent out = Done res \<Longrightarrow> res = data"
proof (induction rets arbitrary: sent out)
  case Nil
  then show ?case by (auto simp: sendAll.simps split: if_splits)
next
  case (Cons n rets)
  show ?case
  proof (cases "sent < length data")
    case True
    then have n: "0 < n" "sendAll rets data (sent + nat n) (out @ take (nat n) (drop sent data)) = Done res"
      using Cons.prems(4) by (auto simp: sendAll.simps [of "n # rets"] split: if_splits)
    have "nat n \<le> length data - sent" "within rets (length data - (sent + nat n))" using Cons.prems(1) n(1) True by (auto simp: diff_diff_left)
    then show ?thesis using Cons.IH [of "sent + nat n" "out @ take (nat n) (drop sent data)"] n(2) Cons.prems(3) True by (simp add: take_add)
  next
    case False
    then show ?thesis using Cons.prems by (simp add: sendAll.simps)
  qed
qed

lemma recvAll_bytes:
  "length stream = (len - length got) + length rest \<Longrightarrow> within rets (len - length got) \<Longrightarrow> length got \<le> len \<Longrightarrow>
    recvAll rets stream len got = Done (res, rest') \<Longrightarrow> res @ rest' = got @ stream \<and> length res = len"
proof (induction rets arbitrary: stream got)
  case Nil
  then show ?case by (auto simp: recvAll.simps split: if_splits)
next
  case (Cons n rets)
  show ?case
  proof (cases "length got < len")
    case True
    then have n: "0 < n" "recvAll rets (drop (nat n) stream) len (got @ take (nat n) stream) = Done (res, rest')"
      using Cons.prems(4) by (auto simp: recvAll.simps [of "n # rets"] split: if_splits)
    have w: "nat n \<le> len - length got" "within rets (len - length got - nat n)" using Cons.prems(2) n(1) True by auto
    then have l: "length (take (nat n) stream) = nat n" using Cons.prems(1) by simp
    show ?thesis using Cons.IH [of "drop (nat n) stream" "got @ take (nat n) stream"] n(2) w l Cons.prems(1,3) by simp
  next
    case False
    then show ?thesis using Cons.prems by (auto simp: recvAll.simps [of "n # rets"])
  qed
qed

text \<open>
  C23. However the kernel splits the transfer, a \<open>send\<close> that returns has put exactly its bytes on the stream and
  a \<open>recv\<close> of that many bytes that returns yields them and leaves the rest of the stream in place.
\<close>

theorem channel_transfer_exact:
  assumes "within srets (length data)" and "sendAll srets data 0 [] = Done wire"
    and "within rrets (length data)" and "recvAll rrets (wire @ rest) (length data) [] = Done (got, left)"
  shows "got = data \<and> left = rest"
proof -
  have "wire = data" using sendAll_bytes [OF _ _ _ assms(2)] assms(1) by simp
  then show ?thesis using recvAll_bytes [of "wire @ rest" "length data" "[]" rest rrets got left] assms(3,4) by (auto simp: append_eq_append_conv)
qed

theorem channel_transfer_exact_witness:
  "sendAll [2, 1, 3] [1, 2, 3, 4, 5, 6] 0 [] = Done [1, 2, 3, 4, 5, 6 :: nat] \<and>
   (case recvAll [5, 1] ([1, 2, 3, 4, 5, 6] @ [9]) 6 [] of Done (got, left) \<Rightarrow> got = [1, 2, 3, 4, 5, 6 :: nat] \<and> left = [9] | _ \<Rightarrow> False)"
proof -
  have s: "sendAll [2, 1, 3] [1, 2, 3, 4, 5, 6] 0 [] = Done [1, 2, 3, 4, 5, 6 :: nat]" by (simp add: sendAll.simps)
  obtain got left where r: "recvAll [5, 1] ([1, 2, 3, 4, 5, 6] @ [9]) 6 [] = Done (got, left :: nat list)" by (simp add: recvAll.simps)
  have "got = [1, 2, 3, 4, 5, 6] \<and> left = [9]"
    by (rule channel_transfer_exact [where srets = "[2, 1, 3]" and wire = "[1, 2, 3, 4, 5, 6]" and rrets = "[5, 1]"])
      (use s r in \<open>simp_all add: eval_nat_numeral\<close>)
  then show ?thesis using s r by simp
qed

text \<open>
  C24. The transport never completes a transfer short: the first socket call that fails or finds the connection
  closed before all bytes have moved makes \<open>send\<close> and \<open>recv\<close> throw.
\<close>

theorem channel_short_transfer_throws:
  fixes data :: "'b list"
  assumes "list_all (\<lambda>n. 0 < n) ns" and "sum_list ns < int len" and "f \<le> 0" and "length data = len"
  shows "sendAll (ns @ f # more) data 0 [] = Threw \<and>
    (\<forall>stream :: 'b list. len \<le> length stream \<longrightarrow> recvAll (ns @ f # more) stream len [] = Threw)"
proof -
  have "sendAll (ns @ f # more) data sent out = Threw" if "int sent + sum_list ns < int len" for sent out
    using assms(1) that
  proof (induction ns arbitrary: sent out)
    case Nil
    then show ?case using assms(3,4) by (simp add: sendAll.simps)
  next
    case (Cons n ns)
    have "0 \<le> sum_list ns" using Cons.prems(1) by (induction ns) auto
    then show ?case using Cons assms(4) by (subst sendAll.simps) auto
  qed
  moreover have "recvAll (ns @ f # more) stream len got = Threw"
    if "int (length got) + sum_list ns < int len" "len \<le> length got + length stream" for stream got :: "'b list"
    using assms(1) that
  proof (induction ns arbitrary: stream got)
    case Nil
    then show ?case using assms(3) by (simp add: recvAll.simps)
  next
    case (Cons n ns)
    have "0 \<le> sum_list ns" using Cons.prems(1) by (induction ns) auto
    then show ?case using Cons by (subst recvAll.simps) auto
  qed
  ultimately show ?thesis using assms(2) by simp
qed

theorem channel_short_transfer_throws_witness:
  "sendAll ([2, 1] @ 0 # [4]) [1, 2, 3, 4 :: nat] 0 [] = Threw \<and> recvAll ([2, 1] @ 0 # [4]) [1, 2, 3, 4 :: nat] 4 [] = Threw"
  using channel_short_transfer_throws [of "[2, 1]" 4 0 "[1, 2, 3, 4 :: nat]" "[4]"]
  by (auto dest: spec [of _ "[1, 2, 3, 4 :: nat]"])

end
