(* ===== verification/Rank_Net.thy ===== *)
theory Rank_Net
  imports Prelude
begin

text \<open>
  Ranks that exchange messages through \<open>networking/common/channel.h\<close>: blocking, reliable, ordered transport,
  one FIFO per ordered pair of ranks. What a rank executes is a list of operations; each collective builds it
  from the rank number, the world size and the element count, as its loops do.

  A send returns when the transport has room, \<open>cap\<close> messages per direction, or when the receiver already waits
  for it; with \<open>cap = 0\<close> both sides have to meet. The capacity is arbitrary, so what is proved covers any size of
  kernel socket buffer. The locale \<open>rank_net\<close> is the contract of a collective: given the messages it intends to
  send, with a time for each exchange, every schedule ends, and ends in the intended states.
\<close>

section \<open>Semantics\<close>

datatype ('s, 'm) rank_op =
    Send nat "'s \<Rightarrow> 'm"
  | Recv nat "'s \<Rightarrow> 'm \<Rightarrow> 's"
  | Local "'s \<Rightarrow> 's"

record ('s, 'm) net =
  n_prog :: "nat \<Rightarrow> ('s, 'm) rank_op list"
  n_loc :: "nat \<Rightarrow> 's"
  n_chan :: "nat \<Rightarrow> nat \<Rightarrow> 'm list"

definition waits_for :: "nat \<Rightarrow> ('s, 'm) rank_op list \<Rightarrow> bool" where
  "waits_for p ops = (case ops of Recv q g # _ \<Rightarrow> q = p | _ \<Rightarrow> False)"

definition can_send :: "nat \<Rightarrow> nat \<Rightarrow> nat \<Rightarrow> ('s, 'm) net \<Rightarrow> bool" where
  "can_send cap p d S \<longleftrightarrow> length (n_chan S p d) < cap \<or> (n_chan S p d = [] \<and> waits_for p (n_prog S d))"

definition net_move :: "nat \<Rightarrow> nat \<Rightarrow> ('s, 'm) net \<Rightarrow> ('s, 'm) net option" where
  "net_move cap p S = (case n_prog S p of
      [] \<Rightarrow> None
    | Send d f # ops \<Rightarrow> if can_send cap p d S
        then Some (S\<lparr>n_prog := (n_prog S)(p := ops), n_chan := (n_chan S)(p := (n_chan S p)(d := n_chan S p d @ [f (n_loc S p)]))\<rparr>)
        else None
    | Recv q g # ops \<Rightarrow> (case n_chan S q p of
        [] \<Rightarrow> None
      | m # ms \<Rightarrow> Some (S\<lparr>n_prog := (n_prog S)(p := ops), n_loc := (n_loc S)(p := g (n_loc S p) m),
                        n_chan := (n_chan S)(q := (n_chan S q)(p := ms))\<rparr>))
    | Local g # ops \<Rightarrow> Some (S\<lparr>n_prog := (n_prog S)(p := ops), n_loc := (n_loc S)(p := g (n_loc S p))\<rparr>))"

definition net_start :: "(nat \<Rightarrow> ('s, 'm) rank_op list) \<Rightarrow> (nat \<Rightarrow> 's) \<Rightarrow> ('s, 'm) net" where
  "net_start prog loc = \<lparr>n_prog = prog, n_loc = loc, n_chan = (\<lambda>p q. [])\<rparr>"

inductive net_reach :: "nat \<Rightarrow> nat \<Rightarrow> ('s, 'm) net \<Rightarrow> nat \<Rightarrow> ('s, 'm) net \<Rightarrow> bool" for cap n S0 where
  nr_start: "net_reach cap n S0 0 S0"
| nr_move: "net_reach cap n S0 k S \<Longrightarrow> p < n \<Longrightarrow> net_move cap p S = Some S' \<Longrightarrow> net_reach cap n S0 (Suc k) S'"

definition net_stuck :: "nat \<Rightarrow> nat \<Rightarrow> ('s, 'm) net \<Rightarrow> bool" where
  "net_stuck cap n S \<longleftrightarrow> (\<forall>p < n. net_move cap p S = None)"

definition net_done :: "nat \<Rightarrow> ('s, 'm) net \<Rightarrow> bool" where
  "net_done n S \<longleftrightarrow> (\<forall>p < n. n_prog S p = [] \<and> (\<forall>q < n. n_chan S p q = []))"

text \<open>A schedule as the list of ranks that move.\<close>

fun net_run :: "nat \<Rightarrow> nat list \<Rightarrow> ('s, 'm) net \<Rightarrow> ('s, 'm) net option" where
  "net_run cap [] S = Some S"
| "net_run cap (p # ps) S = Option.bind (net_move cap p S) (net_run cap ps)"

lemma net_run_reach:
  "net_reach cap n S0 k S \<Longrightarrow> list_all (\<lambda>p. p < n) ps \<Longrightarrow> net_run cap ps S = Some S' \<Longrightarrow> net_reach cap n S0 (k + length ps) S'"
proof (induction ps arbitrary: S k)
  case (Cons p ps)
  then obtain T where T: "net_move cap p S = Some T" "net_run cap ps T = Some S'" by (auto simp: Option.bind_eq_Some_conv)
  then show ?case using Cons.IH [of "Suc k" T] nr_move [OF Cons.prems(1) _ T(1)] Cons.prems(2) by simp
qed simp

section \<open>The contract of a collective\<close>

text \<open>Operations carry the time of their exchange; these are the exchanges of a rank with one partner.\<close>

fun stimes :: "(nat \<times> ('s, 'm) rank_op) list \<Rightarrow> nat \<Rightarrow> nat list" where
  "stimes [] p = []"
| "stimes ((t, Send d f) # ops) p = (if d = p then t # stimes ops p else stimes ops p)"
| "stimes ((t, _) # ops) p = stimes ops p"

fun rtimes :: "(nat \<times> ('s, 'm) rank_op) list \<Rightarrow> nat \<Rightarrow> nat list" where
  "rtimes [] p = []"
| "rtimes ((t, Recv q g) # ops) p = (if q = p then t # rtimes ops p else rtimes ops p)"
| "rtimes ((t, _) # ops) p = rtimes ops p"

text \<open>The operations take state \<open>s\<close> to \<open>s'\<close>, sending and receiving the intended messages \<open>M\<close>.\<close>

fun plays :: "(nat \<Rightarrow> nat \<Rightarrow> nat \<Rightarrow> 'm) \<Rightarrow> nat \<Rightarrow> 's \<Rightarrow> (nat \<times> ('s, 'm) rank_op) list \<Rightarrow> 's \<Rightarrow> bool" where
  "plays M r s [] s' \<longleftrightarrow> s = s'"
| "plays M r s ((t, Send d f) # ops) s' \<longleftrightarrow> f s = M r d t \<and> plays M r s ops s'"
| "plays M r s ((t, Recv q g) # ops) s' \<longleftrightarrow> plays M r (g s (M q r t)) ops s'"
| "plays M r s ((t, Local g) # ops) s' \<longleftrightarrow> plays M r (g s) ops s'"

fun op_partner :: "('s, 'm) rank_op \<Rightarrow> nat option" where
  "op_partner (Send d f) = Some d"
| "op_partner (Recv q g) = Some q"
| "op_partner (Local g) = None"

lemma stimes_append [simp]: "stimes (xs @ ys) p = stimes xs p @ stimes ys p"
  by (induction xs p rule: stimes.induct) auto

lemma rtimes_append [simp]: "rtimes (xs @ ys) p = rtimes xs p @ rtimes ys p"
  by (induction xs p rule: rtimes.induct) auto

lemma plays_append: "plays M r s (xs @ ys) s' \<longleftrightarrow> (\<exists>u. plays M r s xs u \<and> plays M r u ys s')"
  by (induction M r s xs s' rule: plays.induct) auto

lemma stimes_mem: "t \<in> set (stimes ops p) \<longleftrightarrow> (\<exists>f. (t, Send p f) \<in> set ops)"
  by (induction ops p rule: stimes.induct) auto

lemma rtimes_mem: "t \<in> set (rtimes ops p) \<longleftrightarrow> (\<exists>g. (t, Recv p g) \<in> set ops)"
  by (induction ops p rule: rtimes.induct) auto

lemma rtimes_distinct: "sorted_wrt (<) (map fst ops) \<Longrightarrow> distinct (rtimes ops p)"
proof (induction ops p rule: rtimes.induct)
  case (2 t q g ops p)
  then show ?case using rtimes_mem [of t ops p] by (force simp: less_imp_neq)
qed auto

locale rank_net =
  fixes n :: nat
    and aprog :: "nat \<Rightarrow> (nat \<times> ('s, 'm) rank_op) list"
    and init :: "nat \<Rightarrow> 's"
    and M :: "nat \<Rightarrow> nat \<Rightarrow> nat \<Rightarrow> 'm"
    and final :: "nat \<Rightarrow> 's"
  assumes times: "r < n \<Longrightarrow> sorted_wrt (<) (map fst (aprog r))"
    and match: "q < n \<Longrightarrow> p < n \<Longrightarrow> stimes (aprog q) p = rtimes (aprog p) q"
    and partners: "r < n \<Longrightarrow> (t, a) \<in> set (aprog r) \<Longrightarrow> op_partner a = Some q \<Longrightarrow> q < n"
    and plays: "r < n \<Longrightarrow> plays M r (init r) (aprog r) (final r)"
begin

definition starts :: "('s, 'm) net \<Rightarrow> bool" where
  "starts S \<longleftrightarrow> (\<forall>r < n. n_prog S r = map snd (aprog r) \<and> n_loc S r = init r \<and> (\<forall>q < n. n_chan S r q = []))"

lemma startsI:
  "(\<And>r. r < n \<Longrightarrow> prog r = map snd (aprog r)) \<Longrightarrow> (\<And>r. r < n \<Longrightarrow> loc r = init r) \<Longrightarrow> starts (net_start prog loc)"
  by (simp add: starts_def net_start_def)

text \<open>\<open>D r\<close> is what rank \<open>r\<close> has executed and \<open>R r\<close> what remains.\<close>

definition inv :: "(nat \<Rightarrow> (nat \<times> ('s, 'm) rank_op) list) \<Rightarrow> (nat \<Rightarrow> (nat \<times> ('s, 'm) rank_op) list) \<Rightarrow> ('s, 'm) net \<Rightarrow> bool" where
  "inv D R S \<longleftrightarrow> (\<forall>r < n. aprog r = D r @ R r \<and> n_prog S r = map snd (R r) \<and> plays M r (n_loc S r) (R r) (final r)) \<and>
     (\<forall>q < n. \<forall>p < n. \<exists>X. stimes (D q) p = rtimes (D p) q @ X \<and> n_chan S q p = map (M q p) X)"

lemma inv_start: "starts S \<Longrightarrow> inv (\<lambda>r. []) aprog S"
  using plays by (simp add: inv_def starts_def)

lemma inv_chan:
  assumes "inv D R S" "q < n" "p < n"
  obtains X where "stimes (D q) p = rtimes (D p) q @ X" "n_chan S q p = map (M q p) X" "rtimes (R p) q = X @ stimes (R q) p"
proof -
  obtain X where X: "stimes (D q) p = rtimes (D p) q @ X" "n_chan S q p = map (M q p) X" using assms unfolding inv_def by blast
  have "aprog q = D q @ R q" "aprog p = D p @ R p" using assms unfolding inv_def by auto
  then have "stimes (D q) p @ stimes (R q) p = rtimes (D p) q @ rtimes (R p) q" using match [OF assms(2,3)] by simp
  then show ?thesis using that X by simp
qed

lemma inv_move:
  assumes I: "inv D R S" and p: "p < n" and mv: "net_move cap p S = Some S'"
  shows "\<exists>a ops. R p = a # ops \<and> inv (D(p := D p @ [a])) (R(p := ops)) S'"
proof -
  have P: "aprog p = D p @ R p" "n_prog S p = map snd (R p)" "plays M p (n_loc S p) (R p) (final p)"
    using I p unfolding inv_def by auto
  obtain t a ops where R: "R p = (t, a) # ops"
    using mv P(2) by (cases "R p") (auto simp: net_move_def)
  have part: "op_partner a = Some q \<Longrightarrow> q < n" for q using partners [OF p] P(1) R by force
  let ?D = "D(p := D p @ [(t, a)])" and ?R = "R(p := ops)"
  have D: "\<forall>r < n. aprog r = ?D r @ ?R r" using I R unfolding inv_def by auto
  have "inv ?D ?R S'"
  proof (cases a)
    case (Send d f)
    have S': "S' = S\<lparr>n_prog := (n_prog S)(p := map snd ops), n_chan := (n_chan S)(p := (n_chan S p)(d := n_chan S p d @ [f (n_loc S p)]))\<rparr>"
      using mv P(2) R Send by (auto simp: net_move_def split: if_splits)
    have f: "f (n_loc S p) = M p d t" "plays M p (n_loc S p) ops (final p)" using P(3) R Send by auto
    have "\<exists>X. stimes (?D q) p' = rtimes (?D p') q @ X \<and> n_chan S' q p' = map (M q p') X" if qp: "q < n" "p' < n" for q p'
    proof -
      obtain X where X: "stimes (D q) p' = rtimes (D p') q @ X" "n_chan S q p' = map (M q p') X"
        by (rule inv_chan [OF I qp])
      then show ?thesis
        using S' Send f(1) by (cases "q = p \<and> p' = d") (auto intro: exI [of _ "X @ [t]"])
    qed
    then show ?thesis using D S' f(2) I unfolding inv_def by auto
  next
    case (Recv q g)
    obtain X where X: "stimes (D q) p = rtimes (D p) q @ X" "n_chan S q p = map (M q p) X" "rtimes (R p) q = X @ stimes (R q) p"
      by (rule inv_chan [OF I _ p]) (use part Recv in auto)
    obtain m ms where c: "n_chan S q p = m # ms" using mv P(2) R Recv by (auto simp: net_move_def split: list.splits)
    then obtain X' where X': "X = t # X'" "m = M q p t" "ms = map (M q p) X'" using X R Recv by (cases X) auto
    have S': "S' = S\<lparr>n_prog := (n_prog S)(p := map snd ops), n_loc := (n_loc S)(p := g (n_loc S p) (M q p t)),
        n_chan := (n_chan S)(q := (n_chan S q)(p := map (M q p) X'))\<rparr>"
      using mv P(2) R Recv c X' by (auto simp: net_move_def)
    have "\<exists>Y. stimes (?D q') p' = rtimes (?D p') q' @ Y \<and> n_chan S' q' p' = map (M q' p') Y" if qp: "q' < n" "p' < n" for q' p'
    proof -
      obtain Y where Y: "stimes (D q') p' = rtimes (D p') q' @ Y" "n_chan S q' p' = map (M q' p') Y"
        by (rule inv_chan [OF I qp])
      then show ?thesis
        using S' Recv X X' by (cases "q' = q \<and> p' = p") auto
    qed
    then show ?thesis using D S' P(3) R Recv I unfolding inv_def by auto
  next
    case (Local g)
    have S': "S' = S\<lparr>n_prog := (n_prog S)(p := map snd ops), n_loc := (n_loc S)(p := g (n_loc S p))\<rparr>"
      using mv P(2) R Local by (auto simp: net_move_def)
    have "\<exists>X. stimes (?D q) p' = rtimes (?D p') q @ X \<and> n_chan S' q p' = map (M q p') X" if qp: "q < n" "p' < n" for q p'
      using inv_chan [OF I qp] S' Local by auto
    then show ?thesis using D S' P(3) R Local I unfolding inv_def by auto
  qed
  then show ?thesis using R by blast
qed

definition total :: nat where
  "total = (\<Sum>r<n. length (aprog r))"

lemma inv_reach:
  "net_reach cap n S0 k S \<Longrightarrow> starts S0 \<Longrightarrow> \<exists>D R. inv D R S \<and> k + (\<Sum>r<n. length (R r)) = total"
proof (induction rule: net_reach.induct)
  case nr_start
  then show ?case using inv_start unfolding total_def by fastforce
next
  case (nr_move k S p S')
  then obtain D R where I: "inv D R S" and k: "k + (\<Sum>r<n. length (R r)) = total" by blast
  obtain a ops where R: "R p = a # ops" and I': "inv (D(p := D p @ [a])) (R(p := ops)) S'"
    using inv_move [OF I nr_move(2,3)] by blast
  have "(\<Sum>r<n. length (R r)) = Suc (\<Sum>r<n. length ((R(p := ops)) r))"
    using nr_move(2) R by (simp add: sum.remove [of "{..<n}" p] cong: sum.cong_simp)
  then have "Suc k + (\<Sum>r<n. length ((R(p := ops)) r)) = total" using k by simp
  then show ?case using I' by blast
qed

text \<open>The remaining operations are in order of time, so one found there with the least time comes first.\<close>

lemma remaining_sorted: "inv D R S \<Longrightarrow> r < n \<Longrightarrow> sorted_wrt (<) (map fst (R r))"
  using times [of r] unfolding inv_def by (auto simp: sorted_wrt_append)

lemma remaining_first:
  assumes "inv D R S" "r < n" "(t, a) \<in> set (R r)" "\<And>t' b ops. R r = (t', b) # ops \<Longrightarrow> t \<le> t'"
  shows "\<exists>ops. R r = (t, a) # ops"
proof -
  have "sorted_wrt (<) (map fst (R r))" using remaining_sorted [OF assms(1,2)] .
  moreover obtain t' b ops where R: "R r = (t', b) # ops" using assms(3) by (cases "R r") auto
  moreover have "t \<le> t'" using assms(4) [OF R] .
  ultimately show ?thesis using assms(3) by force
qed

lemma executed_or_remaining: "inv D R S \<Longrightarrow> r < n \<Longrightarrow> x \<in> set (aprog r) \<Longrightarrow> x \<in> set (D r) \<or> x \<in> set (R r)"
  unfolding inv_def by auto

text \<open>Among the ranks that are not finished, the one whose next operation has the least time can move, or its partner can.\<close>

lemma least_time:
  fixes R :: "nat \<Rightarrow> (nat \<times> ('s, 'm) rank_op) list"
  assumes "\<exists>r < n. R r \<noteq> []"
  obtains r t a ops where "r < n" "R r = (t, a) # ops" "\<And>q t' b ops'. q < n \<Longrightarrow> R q = (t', b) # ops' \<Longrightarrow> t \<le> t'"
proof -
  let ?T = "{fst (hd (R r)) | r. r < n \<and> R r \<noteq> []}"
  have "Min ?T \<in> ?T" by (rule Min_in) (use assms in auto)
  then obtain r where r: "r < n" "R r \<noteq> []" "Min ?T = fst (hd (R r))" by blast
  have "fst (hd (R r)) \<le> t'" if "q < n" "R q = (t', b) # ops'" for q t' b ops'
    unfolding r(3) [symmetric] by (rule Min_le) (use that in force)+
  then show ?thesis using that [of r "fst (hd (R r))" "snd (hd (R r))" "tl (R r)"] r by (cases "R r") auto
qed

lemma meet:
  assumes I: "inv D R S" and q: "q < n" and p: "p < n" and s: "R q = (t, Send p f) # ops" and r: "R p = (t, Recv q g) # ops'"
  shows "net_move cap q S \<noteq> None"
proof -
  obtain X where X: "n_chan S q p = map (M q p) X" "rtimes (R p) q = X @ stimes (R q) p" by (rule inv_chan [OF I q p])
  have "distinct (rtimes (R p) q)" using rtimes_distinct remaining_sorted [OF I p] by blast
  then have "X = []" using X(2) s r by (cases X) auto
  moreover have "n_prog S q = Send p f # map snd ops" "n_prog S p = Recv q g # map snd ops'"
    using I q p s r unfolding inv_def by auto
  ultimately show ?thesis using X(1) by (simp add: net_move_def can_send_def waits_for_def)
qed

lemma progress:
  assumes I: "inv D R S" and "\<exists>r < n. R r \<noteq> []"
  shows "\<exists>p < n. net_move cap p S \<noteq> None"
proof -
  obtain r t a ops where r: "r < n" "R r = (t, a) # ops" and least: "\<And>q t' b ops'. q < n \<Longrightarrow> R q = (t', b) # ops' \<Longrightarrow> t \<le> t'"
    using least_time [OF assms(2)] by blast
  have part: "op_partner a = Some q \<Longrightarrow> q < n" for q using partners [OF r(1)] I r unfolding inv_def by force
  have pr: "n_prog S r = a # map snd ops" using I r unfolding inv_def by auto
  show ?thesis
  proof (cases a)
    case (Send d f)
    then have d: "d < n" using part by simp
    obtain X where X: "rtimes (R d) r = X @ stimes (R r) d" by (rule inv_chan [OF I r(1) d])
    then have "t \<in> set (rtimes (R d) r)" using r Send by simp
    then obtain g where "(t, Recv r g) \<in> set (R d)" unfolding rtimes_mem by blast
    then obtain ops' where "R d = (t, Recv r g) # ops'" using remaining_first [OF I d] least [OF d] by blast
    then show ?thesis using meet [OF I r(1) d] r Send by blast
  next
    case (Recv q g)
    then have q: "q < n" using part by simp
    obtain X where X: "n_chan S q r = map (M q r) X" "rtimes (R r) q = X @ stimes (R q) r" by (rule inv_chan [OF I q r(1)])
    show ?thesis
    proof (cases X)
      case Nil
      then have "t \<in> set (stimes (R q) r)" using X(2) r Recv by (metis append_Nil list.set_intros(1) rtimes.simps(2))
      then obtain f where "(t, Send r f) \<in> set (R q)" unfolding stimes_mem by blast
      then obtain ops' where "R q = (t, Send r f) # ops'" using remaining_first [OF I q] least [OF q] by blast
      then show ?thesis using meet [OF I q r(1)] r Recv q by blast
    next
      case (Cons x X')
      then show ?thesis using X(1) pr Recv r(1) by (auto simp: net_move_def)
    qed
  next
    case (Local g)
    then show ?thesis using pr r(1) by (auto simp: net_move_def)
  qed
qed

text \<open>Every run is finite; it can stop only when all ranks have finished, and then with the intended states.\<close>

lemma runs_end:
  assumes "starts S0" "net_reach cap n S0 k S"
  shows "k \<le> total" and "net_stuck cap n S \<Longrightarrow> net_done n S \<and> (\<forall>r < n. n_loc S r = final r)"
proof -
  obtain D R where I: "inv D R S" and k: "k + (\<Sum>r<n. length (R r)) = total" using inv_reach [OF assms(2,1)] by blast
  show "k \<le> total" using k by simp
  assume "net_stuck cap n S"
  then have "\<not> (\<exists>r < n. R r \<noteq> [])" using progress [OF I, of cap] unfolding net_stuck_def by metis
  then have R: "R r = []" if "r < n" for r using that by blast
  have "n_chan S q p = []" if qp: "q < n" "p < n" for q p
  proof -
    obtain X where "n_chan S q p = map (M q p) X" "rtimes (R p) q = X @ stimes (R q) p" by (rule inv_chan [OF I qp])
    then show ?thesis using R qp by simp
  qed
  moreover have "n_prog S r = []" "n_loc S r = final r" if "r < n" for r using that R I unfolding inv_def by auto
  ultimately show "net_done n S \<and> (\<forall>r < n. n_loc S r = final r)" unfolding net_done_def by blast
qed

lemma runs_stop:
  assumes "starts S0"
  obtains k S where "net_reach cap n S0 k S" "net_stuck cap n S"
proof -
  let ?K = "{k. \<exists>S. net_reach cap n S0 k S}"
  have "?K \<subseteq> {..total}" using runs_end(1) [OF assms] by auto
  then have fin: "finite ?K" by (rule finite_subset) simp
  moreover have "0 \<in> ?K" using nr_start by blast
  ultimately have "Max ?K \<in> ?K" using Max_in by blast
  then obtain S where S: "net_reach cap n S0 (Max ?K) S" by blast
  have "net_stuck cap n S" unfolding net_stuck_def
  proof (intro allI impI)
    fix p
    assume p: "p < n"
    show "net_move cap p S = None"
    proof (cases "net_move cap p S")
      case (Some S')
      then have "Suc (Max ?K) \<in> ?K" using nr_move [OF S p] by blast
      then show ?thesis using Max_ge [OF fin] by force
    qed
  qed
  then show ?thesis using that S by blast
qed

end

section \<open>Collectives that proceed in rounds\<close>

lemma stimes_concat: "stimes (concat xss) p = concat (map (\<lambda>xs. stimes xs p) xss)"
  by (induction xss) auto

lemma rtimes_concat: "rtimes (concat xss) p = concat (map (\<lambda>xs. rtimes xs p) xss)"
  by (induction xss) auto

lemma plays_rounds:
  "(\<And>k. k < K \<Longrightarrow> plays M r (B k) (f k) (B (Suc k))) \<Longrightarrow> plays M r (B 0) (concat (map f [0..<K])) (B K)"
  by (induction K) (auto simp: plays_append)

lemma times_rounds:
  assumes "\<And>k. k < K \<Longrightarrow> sorted_wrt (<) (map fst (f k))" "\<And>k t a. k < K \<Longrightarrow> (t, a) \<in> set (f k) \<Longrightarrow> W * k \<le> t \<and> t < W * k + W"
  shows "sorted_wrt (<) (map fst (concat (map f [0..<K])))"
  using assms
proof (induction K)
  case (Suc K)
  have "t < t'" if "(t, a) \<in> set (f k)" "k < K" "(t', b) \<in> set (f K)" for t a t' b k
  proof -
    have "t < W * k + W" "W * K \<le> t'" using Suc.prems(2) that by auto
    moreover have "W * k + W \<le> W * K" using \<open>k < K\<close> by (metis Suc_leI mult_Suc_right add.commute mult_le_mono2)
    ultimately show ?thesis by simp
  qed
  then show ?case using Suc by (auto simp: sorted_wrt_append map_concat)
qed simp

locale round_net =
  fixes n K W :: nat
    and rnd :: "nat \<Rightarrow> nat \<Rightarrow> (nat \<times> ('s, 'm) rank_op) list"
    and B :: "nat \<Rightarrow> nat \<Rightarrow> 's"
    and M :: "nat \<Rightarrow> nat \<Rightarrow> nat \<Rightarrow> 'm"
  assumes round_sorted: "r < n \<Longrightarrow> k < K \<Longrightarrow> sorted_wrt (<) (map fst (rnd r k))"
    and round_window: "r < n \<Longrightarrow> k < K \<Longrightarrow> (t, a) \<in> set (rnd r k) \<Longrightarrow> W * k \<le> t \<and> t < W * k + W"
    and round_match: "q < n \<Longrightarrow> p < n \<Longrightarrow> k < K \<Longrightarrow> stimes (rnd q k) p = rtimes (rnd p k) q"
    and round_partners: "r < n \<Longrightarrow> k < K \<Longrightarrow> (t, a) \<in> set (rnd r k) \<Longrightarrow> op_partner a = Some q \<Longrightarrow> q < n"
    and round_plays: "r < n \<Longrightarrow> k < K \<Longrightarrow> plays M r (B r k) (rnd r k) (B r (Suc k))"

sublocale round_net \<subseteq> rank_net n "\<lambda>r. concat (map (rnd r) [0..<K])" "\<lambda>r. B r 0" M "\<lambda>r. B r K"
proof
  show "sorted_wrt (<) (map fst (concat (map (rnd r) [0..<K])))" if "r < n" for r
    using times_rounds [of K "rnd r" W] round_sorted round_window that by blast
  show "stimes (concat (map (rnd q) [0..<K])) p = rtimes (concat (map (rnd p) [0..<K])) q" if "q < n" "p < n" for q p
    using round_match [OF that] by (auto simp: stimes_concat rtimes_concat comp_def intro!: arg_cong [of _ _ concat])
  show "q < n" if "r < n" "(t, a) \<in> set (concat (map (rnd r) [0..<K]))" "op_partner a = Some q" for r t a q
    using that round_partners by auto
  show "plays M r (B r 0) (concat (map (rnd r) [0..<K])) (B r K)" if "r < n" for r
    by (rule plays_rounds) (use round_plays that in blast)
qed

section \<open>One collective after another\<close>

definition shift :: "nat \<Rightarrow> (nat \<times> ('s, 'm) rank_op) list \<Rightarrow> (nat \<times> ('s, 'm) rank_op) list" where
  "shift T = map (\<lambda>(t, a). (T + t, a))"

lemma shift_simps [simp]:
  "shift T [] = []" "shift T (x # xs) = (T + fst x, snd x) # shift T xs" "map snd (shift T xs) = map snd xs"
  by (auto simp: shift_def case_prod_beta comp_def)

lemma stimes_shift [simp]: "stimes (shift T xs) p = map ((+) T) (stimes xs p)"
  by (induction xs p rule: stimes.induct) auto

lemma rtimes_shift [simp]: "rtimes (shift T xs) p = map ((+) T) (rtimes xs p)"
  by (induction xs p rule: rtimes.induct) auto

lemma plays_shift: "plays (\<lambda>q p t. if t < T then M q p t else N q p (t - T)) r s (shift T xs) s' \<longleftrightarrow> plays N r s xs s'"
  by (induction N r s xs s' rule: plays.induct) auto

lemma plays_before:
  "(\<And>t a. (t, a) \<in> set xs \<Longrightarrow> t < T) \<Longrightarrow> plays (\<lambda>q p t. if t < T then M q p t else N q p (t - T)) r s xs s' \<longleftrightarrow> plays M r s xs s'"
  by (induction M r s xs s' rule: plays.induct) auto

lemma rank_net_seq:
  assumes P: "rank_net n P i M f" and Q: "rank_net n Q f' N g" and f: "\<And>r. r < n \<Longrightarrow> f r = f' r" and T: "\<And>r t a. r < n \<Longrightarrow> (t, a) \<in> set (P r) \<Longrightarrow> t < T"
  shows "rank_net n (\<lambda>r. P r @ shift T (Q r)) i (\<lambda>q p t. if t < T then M q p t else N q p (t - T)) g"
proof
  fix r
  assume r: "r < n"
  have "map fst (shift T (Q r)) = map ((+) T) (map fst (Q r))" by (auto simp: shift_def)
  then have "sorted_wrt (<) (map fst (shift T (Q r)))" using rank_net.times [OF Q r] by (simp add: sorted_wrt_map)
  moreover have "t < t'" if "t \<in> set (map fst (P r))" "t' \<in> set (map fst (shift T (Q r)))" for t t'
  proof -
    have "t < T" using that(1) T [OF r] by auto
    moreover have "T \<le> t'" using that(2) by (auto simp: shift_def)
    ultimately show ?thesis by simp
  qed
  ultimately show "sorted_wrt (<) (map fst (P r @ shift T (Q r)))"
    using rank_net.times [OF P r] unfolding map_append sorted_wrt_append by blast
  show "plays (\<lambda>q p t. if t < T then M q p t else N q p (t - T)) r (i r) (P r @ shift T (Q r)) (g r)"
    using rank_net.plays [OF P r] rank_net.plays [OF Q r] T [OF r] f [OF r] unfolding plays_append plays_shift
    by (intro exI [of _ "f r"] conjI) (blast intro: plays_before [THEN iffD2], simp)
next
  fix q p
  assume "q < n" "p < n"
  then show "stimes (P q @ shift T (Q q)) p = rtimes (P p @ shift T (Q p)) q"
    using rank_net.match [OF P] rank_net.match [OF Q] by simp
next
  fix r t a q
  assume r: "r < n" and ta: "(t, a) \<in> set (P r @ shift T (Q r))" and a: "op_partner a = Some q"
  then consider "(t, a) \<in> set (P r)" | t' where "(t', a) \<in> set (Q r)" by (auto simp: shift_def)
  then show "q < n" using rank_net.partners [OF P r _ a] rank_net.partners [OF Q r _ a] by cases
qed

section \<open>Programs and what they compute\<close>

text \<open>\<open>net_computes n prog i f\<close>: started in states \<open>i\<close>, the ranks running \<open>prog\<close> always finish, in states \<open>f\<close>.\<close>

definition net_computes :: "nat \<Rightarrow> (nat \<Rightarrow> ('s, 'm) rank_op list) \<Rightarrow> (nat \<Rightarrow> 's) \<Rightarrow> (nat \<Rightarrow> 's) \<Rightarrow> bool" where
  "net_computes n prog i f \<longleftrightarrow> (\<exists>P M. rank_net n P i M f \<and> (\<forall>r < n. map snd (P r) = prog r))"

lemma net_computesI: "rank_net n P i M f \<Longrightarrow> (\<And>r. r < n \<Longrightarrow> map snd (P r) = prog r) \<Longrightarrow> net_computes n prog i f"
  unfolding net_computes_def by blast

lemma net_computes_runs:
  assumes "net_computes n prog i f" "net_reach cap n (net_start prog i) k S" "net_stuck cap n S"
  shows "net_done n S \<and> (\<forall>r < n. n_loc S r = f r)"
proof -
  obtain P M where P: "rank_net n P i M f" "\<And>r. r < n \<Longrightarrow> map snd (P r) = prog r" using assms(1) unfolding net_computes_def by blast
  have "rank_net.starts n P i (net_start prog i)" by (rule rank_net.startsI [OF P(1)]) (simp_all add: P(2))
  then show ?thesis by (rule rank_net.runs_end(2) [OF P(1) _ assms(2,3)])
qed

lemma net_computes_stops:
  assumes "net_computes n prog i f"
  obtains k S where "net_reach cap n (net_start prog i) k S" "net_stuck cap n S"
proof -
  obtain P M where P: "rank_net n P i M f" "\<And>r. r < n \<Longrightarrow> map snd (P r) = prog r" using assms unfolding net_computes_def by blast
  have "rank_net.starts n P i (net_start prog i)" by (rule rank_net.startsI [OF P(1)]) (simp_all add: P(2))
  then show ?thesis using rank_net.runs_stop [OF P(1)] that by blast
qed

lemma net_computes_local: "net_computes n (\<lambda>r. [Local (f r)]) i (\<lambda>r. f r (i r))"
proof (rule net_computesI)
  show "rank_net n (\<lambda>r. [(0, Local (f r))]) i undefined (\<lambda>r. f r (i r))" by unfold_locales auto
qed simp

lemma net_computes_seq:
  assumes "net_computes n p i f" "net_computes n q f' g" "\<And>r. r < n \<Longrightarrow> f r = f' r"
  shows "net_computes n (\<lambda>r. p r @ q r) i g"
proof -
  obtain P M where P: "rank_net n P i M f" "\<And>r. r < n \<Longrightarrow> map snd (P r) = p r" using assms(1) unfolding net_computes_def by blast
  obtain Q N where Q: "rank_net n Q f' N g" "\<And>r. r < n \<Longrightarrow> map snd (Q r) = q r" using assms(2) unfolding net_computes_def by blast
  have "finite (\<Union>r < n. fst ` set (P r))" by simp
  then obtain T where "\<And>t. t \<in> (\<Union>r < n. fst ` set (P r)) \<Longrightarrow> t < T" unfolding finite_nat_set_iff_bounded by blast
  then have "t < T" if "r < n" "(t, a) \<in> set (P r)" for r t a using that by force
  from rank_net_seq [OF P(1) Q(1) assms(3) this] show ?thesis by (rule net_computesI) (simp_all add: P(2) Q(2))
qed

lemma net_computes_then: "net_computes n p i f \<Longrightarrow> net_computes n (\<lambda>r. p r @ [Local (h r)]) i (\<lambda>r. h r (f r))"
  by (rule net_computes_seq [OF _ net_computes_local]) simp_all

lemma net_computes_first: "net_computes n p (\<lambda>r. h r (i r)) f \<Longrightarrow> net_computes n (\<lambda>r. Local (h r) # p r) i f"
  using net_computes_seq [OF net_computes_local, where q = p and f' = "\<lambda>r. h r (i r)"] by simp

lemma net_computes_cong:
  assumes "net_computes n p i f" "\<And>r. r < n \<Longrightarrow> p r = p' r" "\<And>r. r < n \<Longrightarrow> i r = i' r" "\<And>r. r < n \<Longrightarrow> f r = f' r"
  shows "net_computes n p' i' f'"
proof -
  obtain P M where P: "rank_net n P i M f" "\<And>r. r < n \<Longrightarrow> map snd (P r) = p r" using assms(1) unfolding net_computes_def by blast
  have "rank_net n P i' M f'"
    by unfold_locales (use P(1) assms(3,4) in \<open>auto simp: rank_net_def\<close>)
  then show ?thesis by (rule net_computesI) (simp add: P(2) assms(2))
qed

text \<open>A program run on a part of a larger state, which \<open>get\<close> reads and \<open>put\<close> writes.\<close>

fun op_on :: "('t \<Rightarrow> 's) \<Rightarrow> ('s \<Rightarrow> 't \<Rightarrow> 't) \<Rightarrow> ('s, 'm) rank_op \<Rightarrow> ('t, 'm) rank_op" where
  "op_on get put (Send d f) = Send d (\<lambda>t. f (get t))"
| "op_on get put (Recv q g) = Recv q (\<lambda>t m. put (g (get t) m) t)"
| "op_on get put (Local g) = Local (\<lambda>t. put (g (get t)) t)"

definition ops_on :: "('t \<Rightarrow> 's) \<Rightarrow> ('s \<Rightarrow> 't \<Rightarrow> 't) \<Rightarrow> ('s, 'm) rank_op list \<Rightarrow> ('t, 'm) rank_op list" where
  "ops_on get put ops = map (op_on get put) ops"

definition is_part :: "('t \<Rightarrow> 's) \<Rightarrow> ('s \<Rightarrow> 't \<Rightarrow> 't) \<Rightarrow> bool" where
  "is_part get put \<longleftrightarrow> (\<forall>s t. get (put s t) = s) \<and> (\<forall>s s' t. put s' (put s t) = put s' t) \<and> (\<forall>t. put (get t) t = t)"

lemma op_partner_on [simp]: "op_partner (op_on get put a) = op_partner a"
  by (cases a) auto

lemma times_on [simp]:
  "stimes (map (apsnd (op_on get put)) ops) p = stimes ops p" "rtimes (map (apsnd (op_on get put)) ops) p = rtimes ops p"
  by (induction ops p rule: stimes.induct) auto

lemma plays_on:
  "is_part get put \<Longrightarrow> plays M r (get t) ops s' \<Longrightarrow> plays M r t (map (apsnd (op_on get put)) ops) (put s' t)"
proof (induction M r "get t" ops s' arbitrary: t rule: plays.induct)
  case (3 M r u q g ops s')
  then show ?case using "3.hyps" [of "put (g (get t) (M q r u)) t"] by (auto simp: is_part_def)
next
  case (4 M r u g ops s')
  then show ?case using "4.hyps" [of "put (g (get t)) t"] by (auto simp: is_part_def)
qed (auto simp: is_part_def)

lemma net_computes_on:
  assumes "is_part get put" "net_computes n p (\<lambda>r. get (t r)) f"
  shows "net_computes n (\<lambda>r. ops_on get put (p r)) t (\<lambda>r. put (f r) (t r))"
proof -
  obtain P M where P: "rank_net n P (\<lambda>r. get (t r)) M f" "\<And>r. r < n \<Longrightarrow> map snd (P r) = p r" using assms(2) unfolding net_computes_def by blast
  have "rank_net n (\<lambda>r. map (apsnd (op_on get put)) (P r)) t M (\<lambda>r. put (f r) (t r))"
  proof
    show "plays M r (t r) (map (apsnd (op_on get put)) (P r)) (put (f r) (t r))" if "r < n" for r
      using plays_on [OF assms(1)] rank_net.plays [OF P(1) that] .
    show "sorted_wrt (<) (map fst (map (apsnd (op_on get put)) (P r)))" if "r < n" for r
      using rank_net.times [OF P(1) that] by (simp add: comp_def)
    show "q < n" if "r < n" "(u, a) \<in> set (map (apsnd (op_on get put)) (P r))" "op_partner a = Some q" for r u a q
      using that rank_net.partners [OF P(1) that(1)] by auto
  qed (use rank_net.match [OF P(1)] in simp)
  then show ?thesis by (rule net_computesI) (simp add: P(2) [symmetric] ops_on_def comp_def)
qed

end
