(* ===== verification/Ring_Allreduce.thy ===== *)
theory Ring_Allreduce
  imports Rank_Net
begin

text \<open>
  \<open>networking/ring_allreduce\<close>: the chunk layout, the ring reduce-scatter and the ring all-gather, and their
  composition; \<open>networking/collectives\<close>: \<open>ReduceScatter\<close> and \<open>AllGather\<close>. A rank's state is its buffer and the
  scratch vector \<open>recvTmp\<close>, of which only the chunk last received is ever read. Elements are of any type with
  an addition: nothing is assumed of it until the last corollary, so the results hold for floating point, in
  the order of additions they state.
\<close>

section \<open>Buffers\<close>

definition chunk :: "nat \<Rightarrow> nat \<Rightarrow> 'a list \<Rightarrow> 'a list" where
  "chunk st sz buf = take sz (drop st buf)"

definition put_chunk :: "nat \<Rightarrow> 'a list \<Rightarrow> 'a list \<Rightarrow> 'a list" where
  "put_chunk st xs buf = take st buf @ xs @ drop (st + length xs) buf"

fun add_chunk :: "nat \<Rightarrow> 'a :: plus list \<Rightarrow> 'a list \<Rightarrow> 'a list" where
  "add_chunk st [] buf = buf"
| "add_chunk st (x # xs) buf = add_chunk (Suc st) xs (buf[st := buf ! st + x])"

lemma length_chunk [simp]: "st + sz \<le> length buf \<Longrightarrow> length (chunk st sz buf) = sz"
  by (simp add: chunk_def)

lemma nth_chunk: "i < sz \<Longrightarrow> st + sz \<le> length buf \<Longrightarrow> chunk st sz buf ! i = buf ! (st + i)"
  by (simp add: chunk_def)

lemma length_put_chunk [simp]: "st + length xs \<le> length buf \<Longrightarrow> length (put_chunk st xs buf) = length buf"
  by (simp add: put_chunk_def)

lemma nth_put_chunk:
  "st + length xs \<le> length buf \<Longrightarrow> j < length buf \<Longrightarrow>
    put_chunk st xs buf ! j = (if st \<le> j \<and> j < st + length xs then xs ! (j - st) else buf ! j)"
  by (auto simp: put_chunk_def nth_append)

lemma length_add_chunk [simp]: "length (add_chunk st xs buf) = length buf"
  by (induction st xs buf rule: add_chunk.induct) auto

lemma nth_add_chunk:
  "st + length xs \<le> length buf \<Longrightarrow> j < length buf \<Longrightarrow>
    add_chunk st xs buf ! j = (if st \<le> j \<and> j < st + length xs then buf ! j + xs ! (j - st) else buf ! j)"
proof (induction st xs buf rule: add_chunk.induct)
  case (2 st x xs buf)
  then show ?case by (cases "j = st") (auto simp: nth_Cons' nth_list_update)
qed auto

lemma chunk_cong:
  "length a = length b \<Longrightarrow> st + sz \<le> length a \<Longrightarrow> (\<And>j. st \<le> j \<Longrightarrow> j < st + sz \<Longrightarrow> a ! j = b ! j) \<Longrightarrow> chunk st sz a = chunk st sz b"
  by (rule nth_equalityI) (auto simp: nth_chunk)

section \<open>Chunk layout\<close>

record chunk_layout =
  cl_start :: "nat list"
  cl_size :: "nat list"

fun chunks_loop :: "nat \<Rightarrow> nat \<Rightarrow> nat \<Rightarrow> nat list \<Rightarrow> (nat \<times> nat) list" where
  "chunks_loop base remainder offset [] = []"
| "chunks_loop base remainder offset (i # is) =
    (let sz = base + (if i < remainder then 1 else 0) in (offset, sz) # chunks_loop base remainder (offset + sz) is)"

definition computeChunks :: "nat \<Rightarrow> nat \<Rightarrow> chunk_layout" where
  "computeChunks count n =
    (let cs = chunks_loop (count div n) (count mod n) 0 [0..<n] in \<lparr>cl_start = map fst cs, cl_size = map snd cs\<rparr>)"

definition cstart :: "nat \<Rightarrow> nat \<Rightarrow> nat \<Rightarrow> nat" where
  "cstart count n c = c * (count div n) + min c (count mod n)"

definition csize :: "nat \<Rightarrow> nat \<Rightarrow> nat \<Rightarrow> nat" where
  "csize count n c = count div n + (if c < count mod n then 1 else 0)"

lemma chunks_loop_map:
  "chunks_loop b rm (i * b + min i rm) [i..<n] = map (\<lambda>c. (c * b + min c rm, b + (if c < rm then 1 else 0))) [i..<n]"
proof (induction "n - i" arbitrary: i)
  case (Suc d)
  then have "[i..<n] = i # [Suc i..<n]" by (simp add: upt_conv_Cons)
  moreover have "i * b + min i rm + (b + (if i < rm then 1 else 0)) = Suc i * b + min (Suc i) rm" by auto
  ultimately have "chunks_loop b rm (i * b + min i rm) [i..<n] =
      (i * b + min i rm, b + (if i < rm then 1 else 0)) # chunks_loop b rm (Suc i * b + min (Suc i) rm) [Suc i..<n]"
    by (simp only: chunks_loop.simps Let_def)
  then show ?case using Suc(1) [of "Suc i"] Suc(2) \<open>[i..<n] = i # [Suc i..<n]\<close> by simp
qed simp

lemma computeChunks_nth:
  assumes "c < n"
  shows "cl_start (computeChunks count n) ! c = cstart count n c" "cl_size (computeChunks count n) ! c = csize count n c"
  using chunks_loop_map [of "count div n" "count mod n" 0 n] assms
  by (simp_all add: computeChunks_def Let_def cstart_def csize_def)

lemma cstart_Suc: "cstart count n (Suc c) = cstart count n c + csize count n c"
  by (simp add: cstart_def csize_def min_def)

lemma cstart_mono: "c \<le> d \<Longrightarrow> cstart count n c \<le> cstart count n d"
  by (simp add: cstart_def add_mono min.coboundedI1 min_le_iff_disj)

lemma cstart_last: "0 < n \<Longrightarrow> cstart count n n = count"
  by (simp add: cstart_def min_absorb2 mult.commute)

lemma chunk_fits: "c < n \<Longrightarrow> cstart count n c + csize count n c \<le> count"
  using cstart_mono [of "Suc c" n count n] cstart_last [of n count] by (simp add: cstart_Suc)

text \<open>The chunk of an element.\<close>

definition chunk_of :: "nat \<Rightarrow> nat \<Rightarrow> nat \<Rightarrow> nat" where
  "chunk_of count n j = (LEAST c. j < cstart count n (Suc c))"

definition in_chunk :: "nat \<Rightarrow> nat \<Rightarrow> nat \<Rightarrow> nat \<Rightarrow> bool" where
  "in_chunk count n c j \<longleftrightarrow> cstart count n c \<le> j \<and> j < cstart count n c + csize count n c"

lemma in_chunk_iff:
  assumes "c < n" "j < count"
  shows "in_chunk count n c j \<longleftrightarrow> chunk_of count n j = c"
proof
  assume "in_chunk count n c j"
  then have "j < cstart count n (Suc c)" "\<And>d. j < cstart count n (Suc d) \<Longrightarrow> c \<le> d"
    using cstart_mono [of "Suc _" c count n] by (auto simp: in_chunk_def cstart_Suc not_less_eq_eq [symmetric]) (metis leD not_less_eq_eq order.trans cstart_Suc)
  then show "chunk_of count n j = c" unfolding chunk_of_def by (rule Least_equality)
next
  assume c: "chunk_of count n j = c"
  have "j < cstart count n (Suc (n - 1))" using assms cstart_last [of n count] by simp
  then have "j < cstart count n (Suc c)" unfolding c [symmetric] chunk_of_def by (rule LeastI)
  moreover have "cstart count n c \<le> j"
  proof (cases c)
    case (Suc d)
    then show ?thesis using not_less_Least [of d "\<lambda>c. j < cstart count n (Suc c)"] c unfolding chunk_of_def by simp
  qed (simp add: cstart_def)
  ultimately show "in_chunk count n c j" by (simp add: in_chunk_def cstart_Suc)
qed

lemma chunk_of_less: "0 < n \<Longrightarrow> j < count \<Longrightarrow> chunk_of count n j < n"
proof -
  assume "0 < n" "j < count"
  then have "j < cstart count n (Suc (n - 1))" using cstart_last [of n count] by simp
  then have "chunk_of count n j \<le> n - 1" unfolding chunk_of_def by (rule Least_le)
  then show ?thesis using \<open>0 < n\<close> by simp
qed

section \<open>The two phases\<close>

type_synonym 'a ring_state = "'a list \<times> 'a list"

definition ring_send :: "nat \<Rightarrow> nat \<Rightarrow> nat \<Rightarrow> nat \<Rightarrow> ('a ring_state, 'a list) rank_op" where
  "ring_send count n dst idx = (let layout = computeChunks count n in
     Send dst (\<lambda>(buf, tmp). chunk (cl_start layout ! idx) (cl_size layout ! idx) buf))"

definition in_order :: "nat \<Rightarrow> 'b \<Rightarrow> 'b \<Rightarrow> 'b list" where
  "in_order rank doSend doRecv = (if rank mod 2 = 0 then [doSend, doRecv] else [doRecv, doSend])"

definition ring_right :: "nat \<Rightarrow> nat \<Rightarrow> nat" where
  "ring_right n rank = (rank + 1) mod n"

definition ring_left :: "nat \<Rightarrow> nat \<Rightarrow> nat" where
  "ring_left n rank = (rank + n - 1) mod n"

definition rs_round :: "nat \<Rightarrow> nat \<Rightarrow> nat \<Rightarrow> nat \<Rightarrow> ('a :: plus ring_state, 'a list) rank_op list" where
  "rs_round count n rank step =
    (let right = ring_right n rank; left = ring_left n rank; layout = computeChunks count n;
         sendIdx = (rank + n - step) mod n; recvIdx = (rank + n - step - 1) mod n in
     in_order rank (ring_send count n right sendIdx) (Recv left (\<lambda>(buf, tmp) m. (buf, m))) @
     [Local (\<lambda>(buf, tmp). (add_chunk (cl_start layout ! recvIdx) (take (cl_size layout ! recvIdx) tmp) buf, tmp))])"

definition ring_reduce_scatter :: "nat \<Rightarrow> nat \<Rightarrow> nat \<Rightarrow> ('a :: plus ring_state, 'a list) rank_op list" where
  "ring_reduce_scatter count n rank = (if n \<le> 1 then [] else concat (map (rs_round count n rank) [0..<n - 1]))"

definition ag_round :: "nat \<Rightarrow> nat \<Rightarrow> nat \<Rightarrow> nat \<Rightarrow> ('a ring_state, 'a list) rank_op list" where
  "ag_round count n rank step =
    (let right = ring_right n rank; left = ring_left n rank; layout = computeChunks count n;
         sendIdx = (rank + n + 1 - step) mod n; recvIdx = (rank + n - step) mod n in
     in_order rank (ring_send count n right sendIdx) (Recv left (\<lambda>(buf, tmp) m. (put_chunk (cl_start layout ! recvIdx) m buf, tmp))))"

definition ring_all_gather :: "nat \<Rightarrow> nat \<Rightarrow> nat \<Rightarrow> ('a ring_state, 'a list) rank_op list" where
  "ring_all_gather count n rank = (if n \<le> 1 then [] else concat (map (ag_round count n rank) [0..<n - 1]))"

definition ring_allreduce :: "nat \<Rightarrow> nat \<Rightarrow> nat \<Rightarrow> ('a :: plus ring_state, 'a list) rank_op list" where
  "ring_allreduce count n rank = (if n \<le> 1 then [] else ring_reduce_scatter count n rank @ ring_all_gather count n rank)"

section \<open>Exchanges around the ring\<close>

definition rsub :: "nat \<Rightarrow> nat \<Rightarrow> nat \<Rightarrow> nat" where
  "rsub n a b = (a + n - b) mod n"

lemma rsub_cases: "a < n \<Longrightarrow> b < n \<Longrightarrow> rsub n a b = (if b \<le> a then a - b else a + n - b)"
  by (auto simp: rsub_def mod_if)

lemma rsub_less: "0 < n \<Longrightarrow> rsub n a b < n"
  by (simp add: rsub_def)

lemma ring_right_cases: "r < n \<Longrightarrow> ring_right n r = (if r + 1 = n then 0 else r + 1)"
  by (auto simp: ring_right_def)

lemma ring_left_cases: "r < n \<Longrightarrow> ring_left n r = (if r = 0 then n - 1 else r - 1)"
  by (auto simp: ring_left_def mod_if)

lemma ring_neighbours_less [simp]: "0 < n \<Longrightarrow> ring_left n r < n" "0 < n \<Longrightarrow> ring_right n r < n"
  by (simp_all add: ring_left_def ring_right_def)

lemma rsub_left:
  assumes "r < n" "k < n"
  shows "rsub n (ring_left n r) (ring_left n (rsub n r k)) = k"
proof (cases "k \<le> r")
  case True
  then have "rsub n r k = r - k" using assms by (simp add: rsub_cases)
  then show ?thesis using True assms by (cases "r = k") (auto simp: ring_left_cases rsub_cases)
next
  case False
  then have "rsub n r k = r + n - k" using assms by (simp add: rsub_cases)
  then show ?thesis using False assms by (cases "r = 0") (auto simp: ring_left_cases rsub_cases)
qed

text \<open>
  Even ranks send to an odd neighbour at time 0 of a round; with an odd world size the last rank sends to rank 0
  at time 1; odd ranks send at time 2.
\<close>

definition send_time :: "nat \<Rightarrow> nat \<Rightarrow> nat" where
  "send_time n r = (if r mod 2 = 1 then 2 else if r + 1 < n then 0 else 1)"

definition ring_annot :: "nat \<Rightarrow> nat \<Rightarrow> nat \<Rightarrow> ('s, 'm) rank_op list \<Rightarrow> (nat \<times> ('s, 'm) rank_op) list" where
  "ring_annot n r k ops = zip (map ((+) (4 * k)) (in_order r (send_time n r) (send_time n (ring_left n r)) @ [3])) ops"

definition ring_ops :: "nat \<Rightarrow> nat \<Rightarrow> ('s \<Rightarrow> 'm) \<Rightarrow> ('s \<Rightarrow> 'm \<Rightarrow> 's) \<Rightarrow> ('s \<Rightarrow> 's) list \<Rightarrow> ('s, 'm) rank_op list" where
  "ring_ops n r f g hs = in_order r (Send (ring_right n r) f) (Recv (ring_left n r) g) @ map Local (take 1 hs)"

lemma annot_ops:
  "ring_annot n r k (ring_ops n r f g hs) =
    in_order r (4 * k + send_time n r, Send (ring_right n r) f) (4 * k + send_time n (ring_left n r), Recv (ring_left n r) g) @
    map (\<lambda>h. (4 * k + 3, Local h)) (take 1 hs)"
  by (cases hs) (auto simp: ring_annot_def ring_ops_def in_order_def)

lemma send_time_bound [simp]: "send_time n r < 3"
  by (simp add: send_time_def)

lemma send_time_div [simp]: "(4 * k + send_time n r) div 4 = k"
  by (simp add: send_time_def)

lemma send_before_recv:
  assumes "2 \<le> n" "r < n"
  shows "if r mod 2 = 0 then send_time n r < send_time n (ring_left n r) else send_time n (ring_left n r) < send_time n r"
proof (cases r)
  case 0
  then show ?thesis using assms by (auto simp: send_time_def ring_left_cases) presburger?
next
  case (Suc l)
  then have "ring_left n r = l" using ring_left_cases [OF assms(2)] by simp
  then show ?thesis using Suc assms by (auto simp: send_time_def; presburger)
qed

lemma ring_sorted: "2 \<le> n \<Longrightarrow> r < n \<Longrightarrow> sorted_wrt (<) (map fst (ring_annot n r k (ring_ops n r f g hs)))"
  using send_before_recv [of n r] send_time_bound [of n r] send_time_bound [of n "ring_left n r"]
  unfolding annot_ops in_order_def by (cases hs) (auto split: if_splits simp del: send_time_bound)

lemma ring_window: "(t, a) \<in> set (ring_annot n r k (ring_ops n r f g hs)) \<Longrightarrow> 4 * k \<le> t \<and> t < 4 * k + 4"
  using send_time_bound [of n r] send_time_bound [of n "ring_left n r"]
  unfolding annot_ops in_order_def by (cases hs) (auto split: if_splits simp del: send_time_bound)

lemma ring_partners: "0 < n \<Longrightarrow> (t, a) \<in> set (ring_annot n r k (ring_ops n r f g hs)) \<Longrightarrow> op_partner a = Some q \<Longrightarrow> q < n"
  unfolding annot_ops in_order_def by (cases hs) (auto split: if_splits)

lemma ring_stimes: "stimes (ring_annot n r k (ring_ops n r f g hs)) p = (if p = ring_right n r then [4 * k + send_time n r] else [])"
  unfolding annot_ops in_order_def by (cases hs) auto

lemma ring_rtimes:
  "rtimes (ring_annot n r k (ring_ops n r f g hs)) q =
    (if q = ring_left n r then [4 * k + send_time n (ring_left n r)] else [])"
  unfolding annot_ops in_order_def by (cases hs) auto

lemma ring_match:
  "q < n \<Longrightarrow> p < n \<Longrightarrow>
    stimes (ring_annot n q k (ring_ops n q f g hs)) p = rtimes (ring_annot n p k (ring_ops n p f' g' hs')) q"
  unfolding ring_stimes ring_rtimes by (auto simp: ring_right_cases ring_left_cases split: if_splits)

lemma ring_plays:
  assumes "f s = M r (ring_right n r) (4 * k + send_time n r)"
    and "m = M (ring_left n r) r (4 * k + send_time n (ring_left n r))" and "f (g s m) = f s"
    and "s' = (case hs of [] \<Rightarrow> g s m | h # _ \<Rightarrow> h (g s m))"
  shows "plays M r s (ring_annot n r k (ring_ops n r f g hs)) s'"
  using assms unfolding annot_ops in_order_def by (cases hs) auto

section \<open>What each phase computes\<close>

text \<open>The sum for chunk \<open>c\<close> starts at rank \<open>c\<close>; each rank on the way adds what it receives to its own element.\<close>

fun ring_acc :: "nat \<Rightarrow> (nat \<Rightarrow> nat \<Rightarrow> 'a :: plus) \<Rightarrow> nat \<Rightarrow> nat \<Rightarrow> nat \<Rightarrow> 'a" where
  "ring_acc n x c 0 j = x c j"
| "ring_acc n x c (Suc d) j = x ((c + Suc d) mod n) j + ring_acc n x c d j"

definition rs_buf :: "nat \<Rightarrow> nat \<Rightarrow> (nat \<Rightarrow> nat \<Rightarrow> 'a :: plus) \<Rightarrow> nat \<Rightarrow> nat \<Rightarrow> 'a list" where
  "rs_buf count n x k r = map (\<lambda>j. let c = chunk_of count n j; d = rsub n r c in if d \<le> k then ring_acc n x c d j else x r j) [0..<count]"

definition the_chunk :: "nat \<Rightarrow> nat \<Rightarrow> nat \<Rightarrow> 'a list \<Rightarrow> 'a list" where
  "the_chunk count n c = chunk (cstart count n c) (csize count n c)"

lemma in_the_chunk:
  "c < n \<Longrightarrow> j < count \<Longrightarrow> (cstart count n c \<le> j \<and> j < cstart count n c + csize count n c) = (chunk_of count n j = c)"
  using in_chunk_iff by (simp add: in_chunk_def)

lemma length_the_chunk [simp]: "c < n \<Longrightarrow> length buf = count \<Longrightarrow> length (the_chunk count n c buf) = csize count n c"
  by (simp add: the_chunk_def chunk_fits)

lemma nth_the_chunk:
  assumes "c < n" "j < count" "length buf = count" "chunk_of count n j = c"
  shows "the_chunk count n c buf ! (j - cstart count n c) = buf ! j"
proof -
  have "cstart count n c \<le> j" "j - cstart count n c < csize count n c" using in_the_chunk [OF assms(1,2)] assms(4) by auto
  then show ?thesis using chunk_fits [OF assms(1)] assms(3) by (simp add: the_chunk_def nth_chunk)
qed

lemma the_chunk_put:
  assumes "c < n" "d < n" "c \<noteq> d" "length buf = count" "length xs = csize count n d"
  shows "the_chunk count n c (put_chunk (cstart count n d) xs buf) = the_chunk count n c buf"
proof -
  note fits = chunk_fits [OF assms(1), of count] chunk_fits [OF assms(2), of count]
  show ?thesis
    unfolding the_chunk_def
  proof (rule chunk_cong)
    fix j
    assume j: "cstart count n c \<le> j" "j < cstart count n c + csize count n c"
    then have "j < count" using fits by simp
    then have "\<not> (cstart count n d \<le> j \<and> j < cstart count n d + csize count n d)"
      using in_the_chunk [OF assms(1) \<open>j < count\<close>] in_the_chunk [OF assms(2) \<open>j < count\<close>] j assms(3) by simp
    then show "put_chunk (cstart count n d) xs buf ! j = buf ! j" using \<open>j < count\<close> assms(4,5) fits by (auto simp: nth_put_chunk)
  qed (use fits assms in simp_all)
qed

definition rs_msg :: "nat \<Rightarrow> nat \<Rightarrow> (nat \<Rightarrow> nat \<Rightarrow> 'a :: plus) \<Rightarrow> nat \<Rightarrow> nat \<Rightarrow> nat \<Rightarrow> 'a list" where
  "rs_msg count n x q p t = the_chunk count n (rsub n q (t div 4)) (rs_buf count n x (t div 4) q)"

definition rs_state :: "nat \<Rightarrow> nat \<Rightarrow> (nat \<Rightarrow> nat \<Rightarrow> 'a :: plus) \<Rightarrow> nat \<Rightarrow> nat \<Rightarrow> 'a ring_state" where
  "rs_state count n x r k = (rs_buf count n x k r, case k of 0 \<Rightarrow> [] | Suc k' \<Rightarrow>
     the_chunk count n (rsub n r (Suc k')) (rs_buf count n x k' (ring_left n r)))"

lemma rs_round_ops:
  assumes "2 \<le> n" "r < n" "k < n - 1"
  shows "rs_round count n r k = ring_ops n r (\<lambda>(buf, tmp). the_chunk count n (rsub n r k) buf) (\<lambda>(buf, tmp) m. (buf, m))
    [\<lambda>(buf, tmp). (add_chunk (cstart count n (rsub n r (Suc k))) (take (csize count n (rsub n r (Suc k))) tmp) buf, tmp)]"
proof -
  have "(r + n - k) mod n < n" "(r + n - k - 1) mod n < n" using assms by auto
  then show ?thesis
    using assms by (simp add: rs_round_def ring_ops_def ring_send_def Let_def computeChunks_nth the_chunk_def rsub_def)
qed

lemma rs_round_plays:
  assumes "2 \<le> n" "r < n" "k < n - 1"
  shows "plays (rs_msg count n x) r (rs_state count n x r k) (ring_annot n r k (rs_round count n r k)) (rs_state count n x r (Suc k))"
proof -
  let ?l = "ring_left n r" and ?c = "rsub n r (Suc k)"
  have c: "?c < n" "?l < n" using assms by (auto simp: rsub_def)
  have lc: "rsub n ?l k = ?c" using assms by (simp add: rsub_cases ring_left_cases)
  have fits: "cstart count n ?c + csize count n ?c \<le> count" by (rule chunk_fits [OF c(1)])
  let ?m = "the_chunk count n ?c (rs_buf count n x k ?l)"
  have len [simp]: "length (rs_buf count n x k q) = count" for q k by (simp add: rs_buf_def)
  have m: "length ?m = csize count n ?c" using fits by (simp add: the_chunk_def)
  have "add_chunk (cstart count n ?c) ?m (rs_buf count n x k r) = rs_buf count n x (Suc k) r"
  proof (rule nth_equalityI)
    fix j
    assume "j < length (add_chunk (cstart count n ?c) ?m (rs_buf count n x k r))"
    then have j: "j < count" by simp
    have cj: "chunk_of count n j < n" using chunk_of_less assms(1) j by simp
    have dk: "rsub n r (chunk_of count n j) = Suc k \<longleftrightarrow> chunk_of count n j = ?c" using assms cj by (auto simp: rsub_cases)
    have iff: "(cstart count n ?c \<le> j \<and> j < cstart count n ?c + length ?m) = (chunk_of count n j = ?c)"
      using in_chunk_iff [OF c(1) j] m by (simp add: in_chunk_def)
    show "add_chunk (cstart count n ?c) ?m (rs_buf count n x k r) ! j = rs_buf count n x (Suc k) r ! j"
    proof (cases "chunk_of count n j = ?c")
      case True
      have "rsub n ?l ?c = k" using assms by (auto simp: rsub_cases ring_left_cases)
      then have "rs_buf count n x k ?l ! j = ring_acc n x ?c k j" using j True by (simp add: rs_buf_def Let_def)
      then have "?m ! (j - cstart count n ?c) = ring_acc n x ?c k j" using nth_the_chunk [OF c(1) j len True] by simp
      moreover have "(?c + Suc k) mod n = r" using assms by (auto simp: rsub_cases mod_if)
      ultimately show ?thesis using iff True m fits j dk by (simp add: nth_add_chunk rs_buf_def Let_def)
    next
      case False
      then show ?thesis using iff m fits j dk by (auto simp: nth_add_chunk rs_buf_def Let_def)
    qed
  qed simp
  moreover have "rs_msg count n x ?l r (4 * k + send_time n ?l) = ?m"
    using lc by (simp add: rs_msg_def)
  moreover have "rs_msg count n x r (ring_right n r) (4 * k + send_time n r) = the_chunk count n (rsub n r k) (rs_buf count n x k r)"
    by (simp add: rs_msg_def)
  ultimately show ?thesis
    unfolding rs_round_ops [OF assms] by (intro ring_plays [OF _ refl]) (simp_all add: rs_state_def m)
qed

text \<open>The all-gather circulates, for each chunk \<open>c\<close>, what rank \<open>c - 1\<close> holds there.\<close>

definition ag_buf :: "nat \<Rightarrow> nat \<Rightarrow> (nat \<Rightarrow> 'a list) \<Rightarrow> nat \<Rightarrow> nat \<Rightarrow> 'a list" where
  "ag_buf count n y k r =
    map (\<lambda>j. let c = chunk_of count n j in if rsub n r (ring_left n c) \<le> k then y (ring_left n c) ! j else y r ! j) [0..<count]"

definition ag_msg :: "nat \<Rightarrow> nat \<Rightarrow> (nat \<Rightarrow> 'a list) \<Rightarrow> nat \<Rightarrow> nat \<Rightarrow> nat \<Rightarrow> 'a list" where
  "ag_msg count n y q p t = the_chunk count n (rsub n (ring_right n q) (t div 4)) (ag_buf count n y (t div 4) q)"

definition ag_state :: "nat \<Rightarrow> nat \<Rightarrow> (nat \<Rightarrow> 'a list) \<Rightarrow> (nat \<Rightarrow> 'a list) \<Rightarrow> nat \<Rightarrow> nat \<Rightarrow> 'a ring_state" where
  "ag_state count n y tmp r k = (ag_buf count n y k r, tmp r)"

lemma rsub_mod: "0 < n \<Longrightarrow> k \<le> n \<Longrightarrow> (r + n + 1 - k) mod n = rsub n (ring_right n r) k"
proof -
  assume k: "0 < n" "k \<le> n"
  have "(r + n + 1 - k) mod n = ((r + 1) + (n - k)) mod n" using k by (simp add: Suc_diff_le)
  also have "\<dots> = (ring_right n r + (n - k)) mod n" unfolding ring_right_def by (simp only: mod_add_left_eq)
  finally show ?thesis using k by (simp add: rsub_def)
qed

lemma ag_round_ops:
  assumes "2 \<le> n" "r < n" "k < n - 1"
  shows "ag_round count n r k = ring_ops n r (\<lambda>(buf, tmp). the_chunk count n (rsub n (ring_right n r) k) buf)
    (\<lambda>(buf, tmp) m. (put_chunk (cstart count n (rsub n r k)) m buf, tmp)) []"
proof -
  have "rsub n (ring_right n r) k < n" "rsub n r k < n" using assms by (auto simp: rsub_def)
  moreover have "(r + n + 1 - k) mod n = rsub n (ring_right n r) k" "(r + n - k) mod n = rsub n r k"
    using rsub_mod assms by (simp_all add: rsub_def)
  ultimately show ?thesis
    using assms by (simp add: ag_round_def ring_ops_def ring_send_def Let_def computeChunks_nth the_chunk_def del: One_nat_def)
qed

lemma ag_round_plays:
  assumes "2 \<le> n" "r < n" "k < n - 1"
  shows "plays (ag_msg count n y) r (ag_state count n y tmp r k) (ring_annot n r k (ag_round count n r k)) (ag_state count n y tmp r (Suc k))"
proof -
  let ?l = "ring_left n r" and ?c = "rsub n r k" and ?s = "rsub n (ring_right n r) k"
  have c: "?c < n" "?l < n" "?s < n" using assms by (simp_all add: rsub_less)
  have sc: "?s \<noteq> ?c" using assms by (auto simp: rsub_cases ring_right_cases split: if_splits)
  have lc: "rsub n (ring_right n ?l) k = ?c" using assms by (simp add: rsub_cases ring_left_cases ring_right_cases)
  let ?m = "the_chunk count n ?c (ag_buf count n y k ?l)"
  have len [simp]: "length (ag_buf count n y k q) = count" for q k by (simp add: ag_buf_def)
  have m: "length ?m = csize count n ?c" using c by simp
  note fits = chunk_fits [OF c(1), of count]
  have "put_chunk (cstart count n ?c) ?m (ag_buf count n y k r) = ag_buf count n y (Suc k) r"
  proof (rule nth_equalityI)
    fix j
    assume "j < length (put_chunk (cstart count n ?c) ?m (ag_buf count n y k r))"
    then have j: "j < count" using m fits by simp
    have cj: "chunk_of count n j < n" using chunk_of_less assms(1) j by simp
    have dk: "rsub n r (ring_left n (chunk_of count n j)) = Suc k \<longleftrightarrow> chunk_of count n j = ?c"
      using assms cj by (auto simp: rsub_cases ring_left_cases split: if_splits)
    note iff = in_the_chunk [OF c(1) j]
    show "put_chunk (cstart count n ?c) ?m (ag_buf count n y k r) ! j = ag_buf count n y (Suc k) r ! j"
    proof (cases "chunk_of count n j = ?c")
      case True
      have "rsub n ?l (ring_left n ?c) = k" by (rule rsub_left) (use assms in auto)
      then have "?m ! (j - cstart count n ?c) = y (ring_left n ?c) ! j"
        using nth_the_chunk [OF c(1) j len True] True j by (simp add: ag_buf_def Let_def)
      then show ?thesis using iff True m fits j dk by (simp add: nth_put_chunk ag_buf_def Let_def)
    next
      case False
      then show ?thesis using iff m fits j dk by (auto simp: nth_put_chunk ag_buf_def Let_def le_Suc_eq)
    qed
  qed (use m fits in simp)
  moreover have "ag_msg count n y ?l r (4 * k + send_time n ?l) = ?m"
    using lc by (simp add: ag_msg_def)
  moreover have "ag_msg count n y r (ring_right n r) (4 * k + send_time n r) = the_chunk count n ?s (ag_buf count n y k r)"
    by (simp add: ag_msg_def)
  moreover have "the_chunk count n ?s (put_chunk (cstart count n ?c) ?m (ag_buf count n y k r)) = the_chunk count n ?s (ag_buf count n y k r)"
    using c sc m by (intro the_chunk_put) simp_all
  ultimately show ?thesis
    unfolding ag_round_ops [OF assms] by (intro ring_plays [OF _ refl]) (simp_all add: ag_state_def)
qed

section \<open>The phases as networks\<close>

lemma ring_round_net:
  assumes "2 \<le> n" and ops: "\<And>r k. r < n \<Longrightarrow> k < K \<Longrightarrow> \<exists>f g hs. ops r k = ring_ops n r f g hs"
    and "\<And>r k. r < n \<Longrightarrow> k < K \<Longrightarrow> plays M r (B r k) (ring_annot n r k (ops r k)) (B r (Suc k))"
  shows "round_net n K 4 (\<lambda>r k. ring_annot n r k (ops r k)) B M"
proof
  fix r q p t k :: nat and a
  assume k: "k < K"
  show "sorted_wrt (<) (map fst (ring_annot n r k (ops r k)))" if "r < n"
    using ops [OF that k] ring_sorted [OF assms(1) that] by metis
  show "4 * k \<le> t \<and> t < 4 * k + 4" if "r < n" "(t, a) \<in> set (ring_annot n r k (ops r k))"
    using ops [OF that(1) k] ring_window that(2) by metis
  show "stimes (ring_annot n q k (ops q k)) p = rtimes (ring_annot n p k (ops p k)) q" if "q < n" "p < n"
    using ops [OF that(1) k] ops [OF that(2) k] ring_match [OF that] by metis
  show "q < n" if "r < n" "(t, a) \<in> set (ring_annot n r k (ops r k))" "op_partner a = Some q"
    using ops [OF that(1) k] ring_partners [of n t a r k] that(2,3) assms(1) by force
qed (use assms(3) in blast)

interpretation ring_rs: round_net "Suc (Suc m)" "Suc m" 4
    "\<lambda>r k. ring_annot (Suc (Suc m)) r k (rs_round count (Suc (Suc m)) r k)" "rs_state count (Suc (Suc m)) x" "rs_msg count (Suc (Suc m)) x"
  for m count :: nat and x :: "nat \<Rightarrow> nat \<Rightarrow> 'a :: plus"
  proof (rule ring_round_net)
  show "\<exists>f g hs. rs_round count (Suc (Suc m)) r k = ring_ops (Suc (Suc m)) r f g hs" if "r < Suc (Suc m)" "k < Suc m" for r k
    using that by (auto simp: rs_round_ops)
qed (auto intro!: rs_round_plays)

interpretation ring_ag: round_net "Suc (Suc m)" "Suc m" 4
    "\<lambda>r k. ring_annot (Suc (Suc m)) r k (ag_round count (Suc (Suc m)) r k)" "ag_state count (Suc (Suc m)) y tmp" "ag_msg count (Suc (Suc m)) y"
  for m count :: nat and y :: "nat \<Rightarrow> 'a list" and tmp :: "nat \<Rightarrow> 'a list"
  proof (rule ring_round_net)
  show "\<exists>f g hs. ag_round count (Suc (Suc m)) r k = ring_ops (Suc (Suc m)) r f g hs" if "r < Suc (Suc m)" "k < Suc m" for r k
    using that by (auto simp: ag_round_ops)
qed (auto intro!: ag_round_plays)

lemma ring_annot_snd: "length ops \<le> 3 \<Longrightarrow> map snd (ring_annot n r k ops) = ops"
  by (simp add: ring_annot_def in_order_def map_snd_zip_take)

lemma round_lengths: "length (rs_round count n r k) = 3" "length (ag_round count n r k) = 2"
  by (simp_all add: rs_round_def ag_round_def in_order_def Let_def)

lemma rs_annot_snd:
  "map snd (concat (map (\<lambda>k. ring_annot (Suc (Suc m)) r k (rs_round count (Suc (Suc m)) r k)) [0..<Suc m])) = ring_reduce_scatter count (Suc (Suc m)) r"
  by (simp add: ring_reduce_scatter_def map_concat comp_def ring_annot_snd round_lengths del: upt_Suc)

lemma ag_annot_snd:
  "map snd (concat (map (\<lambda>k. ring_annot (Suc (Suc m)) r k (ag_round count (Suc (Suc m)) r k)) [0..<Suc m])) = ring_all_gather count (Suc (Suc m)) r"
  by (simp add: ring_all_gather_def map_concat comp_def ring_annot_snd round_lengths del: upt_Suc)

section \<open>Results\<close>

lemma length_rs_buf [simp]: "length (rs_buf count n x k r) = count"
  by (simp add: rs_buf_def)

lemma rsub_0: "0 < n \<Longrightarrow> r < n \<Longrightarrow> c < n \<Longrightarrow> rsub n r c = 0 \<longleftrightarrow> r = c"
  by (auto simp: rsub_cases)

lemma rs_start:
  assumes "r < n" "length (xs r) = count"
  shows "rs_state count n (\<lambda>q j. xs q ! j) r 0 = (xs r, [])"
proof -
  have "xs (chunk_of count n j) ! j = xs r ! j" if "rsub n r (chunk_of count n j) = 0" "j < count" for j
    using that assms(1) chunk_of_less [of n j count] rsub_0 [of n r "chunk_of count n j"] by simp
  then show ?thesis using assms by (auto simp: rs_state_def rs_buf_def Let_def intro!: nth_equalityI)
qed

lemma ag_buf_0:
  assumes "r < n" "2 \<le> n" "length (y r) = count"
  shows "ag_buf count n y 0 r = y r"
proof -
  have "y (ring_left n (chunk_of count n j)) ! j = y r ! j" if "rsub n r (ring_left n (chunk_of count n j)) = 0" for j
    using that assms(1,2) rsub_0 [of n r "ring_left n (chunk_of count n j)"] by simp
  then show ?thesis using assms by (auto simp: ag_buf_def Let_def intro!: nth_equalityI)
qed

lemma ag_buf_end:
  assumes "2 \<le> n" "r < n"
  shows "ag_buf count n y (n - 1) r = map (\<lambda>j. y (ring_left n (chunk_of count n j)) ! j) [0..<count]"
  using assms rsub_less [of n r] by (auto simp: ag_buf_def Let_def not_le less_Suc_eq_le [symmetric])

lemma rs_buf_owned:
  assumes "2 \<le> n" "j < count"
  shows "rs_buf count n x (n - 1) (ring_left n (chunk_of count n j)) ! j = ring_acc n x (chunk_of count n j) (n - 1) j"
proof -
  have "rsub n (ring_left n (chunk_of count n j)) (chunk_of count n j) = n - 1"
    using assms chunk_of_less [of n j count] by (auto simp: rsub_cases ring_left_cases)
  then show ?thesis using assms by (simp add: rs_buf_def Let_def)
qed

definition ring_net :: "nat \<Rightarrow> nat \<Rightarrow> nat \<Rightarrow> (nat \<times> ('a :: plus ring_state, 'a list) rank_op) list" where
  "ring_net count n r = concat (map (\<lambda>k. ring_annot n r k (rs_round count n r k)) [0..<n - 1]) @
     shift (4 * (n - 1)) (concat (map (\<lambda>k. ring_annot n r k (ag_round count n r k)) [0..<n - 1]))"

lemma ring_net_snd: "2 \<le> n \<Longrightarrow> map snd (ring_net count n r) = ring_allreduce count n r"
proof -
  assume "2 \<le> n"
  then obtain m where n: "n = Suc (Suc m)" by (metis Suc_le_D numeral_2_eq_2 Suc_le_mono)
  show ?thesis unfolding n ring_net_def ring_allreduce_def by (simp add: rs_annot_snd [simplified] ag_annot_snd [simplified])
qed

lemma ring_net_length: "length (ring_net count n r) = 5 * (n - 1)"
  by (simp add: ring_net_def shift_def length_concat comp_def ring_annot_def in_order_def round_lengths sum_list_triv)

lemma ring_net_rank_net:
  assumes "2 \<le> n"
  shows "\<exists>M. rank_net n (ring_net count n) (\<lambda>r. rs_state count n x r 0) M
    (\<lambda>r. ag_state count n (\<lambda>q. rs_buf count n x (n - 1) q) (\<lambda>q. snd (rs_state count n x q (n - 1))) r (n - 1))"
proof -
  obtain m where n: "n = Suc (Suc m)" using assms by (metis Suc_le_D numeral_2_eq_2 Suc_le_mono)
  have "t < 4 * Suc m" if "(t, a) \<in> set (concat (map (\<lambda>k. ring_annot n r k (rs_round count n r k)) [0..<Suc m]))" "r < n" for r t a
  proof -
    obtain k where "k < Suc m" "(t, a) \<in> set (ring_annot n r k (rs_round count n r k))" using \<open>(t, a) \<in> _\<close> by (auto simp del: upt_Suc)
    then show ?thesis using ring_rs.round_window [of r m k t a count] \<open>r < n\<close> unfolding n by fastforce
  qed
  moreover have "rs_state count n x r (Suc m) = ag_state count n (\<lambda>q. rs_buf count n x (Suc m) q) (\<lambda>q. snd (rs_state count n x q (Suc m))) r 0" if "r < n" for r
    using ag_buf_0 [OF that, of "rs_buf count n x (Suc m)" count] n by (simp add: rs_state_def ag_state_def)
  ultimately have "rank_net n (\<lambda>r. concat (map (\<lambda>k. ring_annot n r k (rs_round count n r k)) [0..<Suc m]) @
       shift (4 * Suc m) (concat (map (\<lambda>k. ring_annot n r k (ag_round count n r k)) [0..<Suc m])))
     (\<lambda>r. rs_state count n x r 0)
     (\<lambda>q p t. if t < 4 * Suc m then rs_msg count n x q p t else ag_msg count n (\<lambda>q. rs_buf count n x (Suc m) q) q p (t - 4 * Suc m))
     (\<lambda>r. ag_state count n (\<lambda>q. rs_buf count n x (Suc m) q) (\<lambda>q. snd (rs_state count n x q (Suc m))) r (Suc m))"
    unfolding n by (intro rank_net_seq [OF ring_rs.rank_net_axioms ring_ag.rank_net_axioms]) blast+
  moreover have "Suc m = n - 1" using n by simp
  ultimately show ?thesis unfolding ring_net_def by auto
qed

lemma ring_run_result:
  fixes xs :: "nat \<Rightarrow> 'a :: plus list"
  assumes "2 \<le> n" and "\<And>r. r < n \<Longrightarrow> length (xs r) = count"
    and "net_reach cap n (net_start (ring_allreduce count n) (\<lambda>r. (xs r, []))) k S"
  shows "k \<le> 5 * n * (n - 1) \<and> (net_stuck cap n S \<longrightarrow> net_done n S \<and>
    (\<forall>r < n. fst (n_loc S r) = map (\<lambda>j. ring_acc n (\<lambda>q j. xs q ! j) (chunk_of count n j) (n - 1) j) [0..<count]))"
proof -
  let ?x = "\<lambda>q j. xs q ! j"
  obtain M where net: "rank_net n (ring_net count n) (\<lambda>r. rs_state count n ?x r 0) M
      (\<lambda>r. ag_state count n (\<lambda>q. rs_buf count n ?x (n - 1) q) (\<lambda>q. snd (rs_state count n ?x q (n - 1))) r (n - 1))"
    using ring_net_rank_net [OF assms(1)] by blast
  have "rs_state count n ?x r 0 = (xs r, [])" if "r < n" for r
    using rs_start [of r n xs count] assms(2) [OF that] that by simp
  then have st: "rank_net.starts n (ring_net count n) (\<lambda>r. rs_state count n ?x r 0) (net_start (ring_allreduce count n) (\<lambda>r. (xs r, [])))"
    by (intro rank_net.startsI [OF net]) (simp_all add: ring_net_snd assms(1))
  note E = rank_net.runs_end [OF net st assms(3)]
  have "rank_net.total n (ring_net count n :: nat \<Rightarrow> (nat \<times> ('a ring_state, 'a list) rank_op) list) = 5 * n * (n - 1)"
    using rank_net.total_def [OF net] by (simp add: ring_net_length)
  moreover have "fst (ag_state count n (\<lambda>q. rs_buf count n ?x (n - 1) q) (\<lambda>q. snd (rs_state count n ?x q (n - 1))) r (n - 1)) =
      map (\<lambda>j. ring_acc n ?x (chunk_of count n j) (n - 1) j) [0..<count]" if "r < n" for r
    unfolding ag_state_def fst_conv ag_buf_end [OF assms(1) that] using rs_buf_owned [OF assms(1), of _ count ?x] by simp
  ultimately show ?thesis using E by auto
qed

text \<open>
  C25. Ring all-reduce, in every schedule and for every capacity of the transport, ends within \<open>5 n (n - 1)\<close>
  steps and never deadlocks; when no rank can move, all are done, no message is left, and every rank holds the
  same buffer: element \<open>j\<close> is the sum over all ranks, added in ring order from the rank that owns its chunk.
\<close>

theorem ring_allreduce_correct:
  fixes xs :: "nat \<Rightarrow> 'a :: plus list"
  assumes "2 \<le> n" and "\<And>r. r < n \<Longrightarrow> length (xs r) = count"
    and "net_reach cap n (net_start (ring_allreduce count n) (\<lambda>r. (xs r, []))) k S"
  shows "k \<le> 5 * n * (n - 1) \<and> (net_stuck cap n S \<longrightarrow> net_done n S \<and>
    (\<forall>r < n. fst (n_loc S r) = map (\<lambda>j. ring_acc n (\<lambda>q j. xs q ! j) (chunk_of count n j) (n - 1) j) [0..<count]))"
  using assms by (rule ring_run_result)

definition ring_example :: "(int ring_state, int list) net" where
  "ring_example = net_start (ring_allreduce 3 2) (\<lambda>r. (if r = 0 then [1, 2, 3] else [10, 20, 30], []))"

lemma ring_example_run:
  "\<exists>S. net_run 0 [0, 1, 1, 0, 0, 1, 0, 1, 1, 0] ring_example = Some S \<and> net_stuck 0 2 S"
  by (simp add: ring_example_def net_start_def ring_allreduce_def ring_reduce_scatter_def ring_all_gather_def rs_round_def ag_round_def
      in_order_def ring_send_def ring_right_def ring_left_def Let_def net_move_def can_send_def waits_for_def net_stuck_def less_2_cases_iff)

theorem ring_allreduce_correct_witness:
  "\<exists>S. net_reach 0 2 ring_example 10 S \<and> net_stuck 0 2 S \<and> net_done 2 S \<and> fst (n_loc S 1) = [11, 22, 33]"
proof -
  obtain S where S: "net_run 0 [0, 1, 1, 0, 0, 1, 0, 1, 1, 0] ring_example = Some S" "net_stuck 0 2 S" using ring_example_run by blast
  then have reach: "net_reach 0 2 ring_example 10 S" using net_run_reach [OF nr_start _ S(1), of 2] by (simp add: numeral_eq_Suc)
  have c: "chunk_of 3 2 0 = 0" "chunk_of 3 2 1 = 0" "chunk_of 3 2 2 = 1"
    using in_chunk_iff [of 0 2 0 3] in_chunk_iff [of 0 2 1 3] in_chunk_iff [of 1 2 2 3] by (simp_all add: in_chunk_def cstart_def csize_def)
  have "[0..<3] = [0, 1, 2 :: nat]" by (simp add: upt_rec)
  then have "fst (n_loc S 1) = [11, 22, 33]"
    using ring_allreduce_correct [of 2 "\<lambda>r. if r = 0 then [1, 2, 3] else [10, 20, 30 :: int]" 3 0 10 S] reach S(2) c
    by (simp add: ring_example_def)
  moreover have "net_done 2 S"
    using ring_allreduce_correct [of 2 "\<lambda>r. if r = 0 then [1, 2, 3] else [10, 20, 30 :: int]" 3 0 10 S] reach S(2)
    by (simp add: ring_example_def)
  ultimately show ?thesis using reach S(2) by blast
qed

lemma ring_acc_sum: "ring_acc n x c d j = (\<Sum>i\<le>d. x ((c + i) mod n) j)" if "c < n" for x :: "nat \<Rightarrow> nat \<Rightarrow> 'a :: comm_monoid_add"
  using that by (induction d) (auto simp: add.commute)

lemma ring_acc_total:
  fixes x :: "nat \<Rightarrow> nat \<Rightarrow> 'a :: comm_monoid_add"
  assumes "c < n"
  shows "ring_acc n x c (n - 1) j = (\<Sum>q<n. x q j)"
proof -
  have "{..n - 1} = {..<n}" using assms by auto
  moreover have "(\<Sum>i<n. x ((c + i) mod n) j) = (\<Sum>q<n. x q j)"
    by (rule sum.reindex_bij_witness [where i = "\<lambda>q. rsub n q c" and j = "\<lambda>i. (c + i) mod n"])
      (use assms in \<open>auto simp: rsub_cases rsub_less mod_if\<close>)
  ultimately show ?thesis using ring_acc_sum [OF assms, of x "n - 1" j] by simp
qed

text \<open>
  With exact addition, the result of the ring all-reduce is the element-wise sum of the ranks' buffers,
  whatever the schedule and the capacity of the transport.
\<close>

theorem ring_allreduce_sum:
  fixes xs :: "nat \<Rightarrow> 'a :: comm_monoid_add list"
  assumes "2 \<le> n" and "\<And>r. r < n \<Longrightarrow> length (xs r) = count"
    and "net_reach cap n (net_start (ring_allreduce count n) (\<lambda>r. (xs r, []))) k S" and "net_stuck cap n S"
  shows "\<forall>r < n. fst (n_loc S r) = map (\<lambda>j. \<Sum>q<n. xs q ! j) [0..<count]"
proof -
  have "ring_acc n (\<lambda>q j. xs q ! j) (chunk_of count n j) (n - 1) j = (\<Sum>q<n. xs q ! j)" if "j < count" for j
    using assms(1) that by (intro ring_acc_total chunk_of_less) auto
  then show ?thesis using ring_run_result [OF assms(1-3)] assms(4) by auto
qed

theorem ring_allreduce_sum_witness:
  "\<exists>S. net_reach 0 2 ring_example 10 S \<and> fst (n_loc S 0) = map (\<lambda>j. \<Sum>q<(2 :: nat). (if q = 0 then [1, 2, 3] else [10, 20, 30 :: int]) ! j) [0..<3]"
proof -
  obtain S where S: "net_run 0 [0, 1, 1, 0, 0, 1, 0, 1, 1, 0] ring_example = Some S" "net_stuck 0 2 S" using ring_example_run by blast
  then have reach: "net_reach 0 2 ring_example 10 S" using net_run_reach [OF nr_start _ S(1), of 2] by (simp add: numeral_eq_Suc)
  have "\<forall>r < 2. fst (n_loc S r) = map (\<lambda>j. \<Sum>q<(2 :: nat). (if q = 0 then [1, 2, 3] else [10, 20, 30 :: int]) ! j) [0..<3]"
    by (rule ring_allreduce_sum [where cap = 0 and k = 10]) (use reach S(2) in \<open>simp_all add: ring_example_def\<close>)
  then show ?thesis using reach by (intro exI [of _ S]) simp
qed

text \<open>
  The header gives chunk \<open>i\<close> as \<open>[i * count / N, (i + 1) * count / N)\<close>; the layout puts the larger chunks first.
\<close>

lemma chunk_layout_not_as_documented: "cl_start (computeChunks 5 3) ! 1 = 2 \<and> (1 * 5) div 3 = (1 :: nat)"
  by (simp add: computeChunks_nth cstart_def)

end
