(* ===== verification/Tree_Allreduce.thy ===== *)
theory Tree_Allreduce
  imports Ring_Allreduce
begin

text \<open>
  \<open>networking/tree_allreduce\<close>: binomial-tree reduction to a root, binomial broadcast and their composition, and
  the \<open>Broadcast\<close> of \<open>networking/collectives\<close>. The loops over \<open>mask\<close> are functions that build the operations of
  a rank. As for the ring, elements are of any type with an addition.
\<close>

unbundle bit_operations_syntax

section \<open>Operations\<close>

definition toActual :: "nat \<Rightarrow> nat \<Rightarrow> nat \<Rightarrow> nat" where
  "toActual relative root p = (relative + root) mod p"

definition to_relative :: "nat \<Rightarrow> nat \<Rightarrow> nat \<Rightarrow> nat" where
  "to_relative rank root p = (rank + p - root) mod p"

definition and_not :: "nat \<Rightarrow> nat \<Rightarrow> nat" where
  "and_not a b = nat (int a AND NOT (int b))"

function tree_reduce_loop :: "nat \<Rightarrow> nat \<Rightarrow> nat \<Rightarrow> nat \<Rightarrow> nat \<Rightarrow> ('a :: plus ring_state, 'a list) rank_op list" where
  "tree_reduce_loop count p root relative msk =
    (if 0 < msk \<and> msk < p then
       if relative AND msk \<noteq> 0 then [Send (toActual (and_not relative msk) root p) (\<lambda>(buf, tmp). chunk 0 count buf)]
       else (if relative OR msk < p
             then [Recv (toActual (relative OR msk) root p) (\<lambda>(buf, tmp) m. (buf, m)),
                   Local (\<lambda>(buf, tmp). (add_chunk 0 (take count tmp) buf, tmp))]
             else []) @ tree_reduce_loop count p root relative (2 * msk)
     else [])"
  by auto
termination by (relation "measure (\<lambda>(count, p, root, relative, msk). p - msk)") auto

definition tree_reduce_to_root :: "nat \<Rightarrow> nat \<Rightarrow> nat \<Rightarrow> nat \<Rightarrow> ('a :: plus ring_state, 'a list) rank_op list" where
  "tree_reduce_to_root count p root rank =
    (if p \<le> 1 then [] else tree_reduce_loop count p root (to_relative rank root p) 1)"

function tree_broadcast_loop :: "nat \<Rightarrow> nat \<Rightarrow> nat \<Rightarrow> nat \<Rightarrow> nat \<Rightarrow> ('a ring_state, 'a list) rank_op list" where
  "tree_broadcast_loop count p root relative msk =
    (if 0 < msk \<and> msk < p then
       (if relative < msk then
          (if relative + msk < p then [Send (toActual (relative + msk) root p) (\<lambda>(buf, tmp). chunk 0 count buf)] else [])
        else if relative < 2 * msk then
          [Recv (toActual (relative - msk) root p) (\<lambda>(buf, tmp) m. (put_chunk 0 m buf, tmp))]
        else []) @ tree_broadcast_loop count p root relative (2 * msk)
     else [])"
  by auto
termination by (relation "measure (\<lambda>(count, p, root, relative, msk). p - msk)") auto

definition tree_broadcast :: "nat \<Rightarrow> nat \<Rightarrow> nat \<Rightarrow> nat \<Rightarrow> ('a ring_state, 'a list) rank_op list" where
  "tree_broadcast count p root rank =
    (if p \<le> 1 then [] else tree_broadcast_loop count p root (to_relative rank root p) 1)"

declare tree_reduce_loop.simps [simp del] tree_broadcast_loop.simps [simp del]

definition tree_allreduce :: "nat \<Rightarrow> nat \<Rightarrow> nat \<Rightarrow> ('a :: plus ring_state, 'a list) rank_op list" where
  "tree_allreduce count p rank = tree_reduce_to_root count p 0 rank @ tree_broadcast count p 0 rank"

definition Broadcast :: "nat \<Rightarrow> nat \<Rightarrow> nat \<Rightarrow> nat \<Rightarrow> ('a ring_state, 'a list) rank_op list" where
  "Broadcast count p root rank = tree_broadcast count p root rank"

section \<open>Ranks relative to the root, and masks\<close>

lemma rel_less [simp]: "0 < p \<Longrightarrow> to_relative r root p < p"
  by (simp add: to_relative_def)

lemma actual_rel: "r < p \<Longrightarrow> root < p \<Longrightarrow> toActual (to_relative r root p) root p = r"
  by (auto simp: toActual_def to_relative_def mod_if)

lemma rel_actual: "c < p \<Longrightarrow> root < p \<Longrightarrow> to_relative (toActual c root p) root p = c"
  by (auto simp: toActual_def to_relative_def mod_if)

lemma actual_less [simp]: "0 < p \<Longrightarrow> toActual c root p < p"
  by (simp add: toActual_def)

lemma actual_eq_iff: "r < p \<Longrightarrow> root < p \<Longrightarrow> c < p \<Longrightarrow> toActual c root p = r \<longleftrightarrow> to_relative r root p = c"
  using actual_rel rel_actual by metis

lemma and_mask: "(rel :: nat) AND 2 ^ k = (if odd (rel div 2 ^ k) then 2 ^ k else 0)"
  unfolding bit_iff_odd [symmetric] by (rule bit_eqI) (auto simp: bit_simps)

lemma and_not_mask:
  assumes "odd (rel div 2 ^ k)"
  shows "and_not rel (2 ^ k) = rel - 2 ^ k"
proof -
  have "bit (int rel) k" using assms unfolding bit_iff_odd [symmetric] by (simp add: bit_of_nat_iff_bit)
  then have "int rel AND NOT (2 ^ k) = int rel - 2 ^ k"
    using unset_bit_eq_and_not [of k "int rel"] unset_bit_eq [of k "int rel"] by (simp add: push_bit_eq_mult)
  then show ?thesis by (simp add: and_not_def nat_diff_distrib' nat_power_eq)
qed

lemma or_mask: "even (rel div 2 ^ k) \<Longrightarrow> (rel :: nat) OR 2 ^ k = rel + 2 ^ k"
  using set_bit_eq [of k rel] set_bit_eq_or [of k rel] by (simp add: bit_iff_odd push_bit_eq_mult)

section \<open>The reduction in rounds\<close>

text \<open>In round \<open>k\<close> the relative ranks with lowest set bit \<open>k\<close> send; those with none up to \<open>k\<close> receive, if there is a peer.\<close>

definition tr_sends :: "nat \<Rightarrow> nat \<Rightarrow> bool" where
  "tr_sends k rel \<longleftrightarrow> rel mod 2 ^ k = 0 \<and> odd (rel div 2 ^ k)"

definition tr_recvs :: "nat \<Rightarrow> nat \<Rightarrow> nat \<Rightarrow> bool" where
  "tr_recvs p k rel \<longleftrightarrow> rel mod 2 ^ k = 0 \<and> even (rel div 2 ^ k) \<and> rel + 2 ^ k < p"

lemma tr_sends_recvs: "tr_sends k c \<Longrightarrow> \<not> tr_recvs p k c"
  by (auto simp: tr_sends_def tr_recvs_def)

lemma tr_sends_pair:
  assumes "c < p" "tr_sends k c"
  shows "2 ^ k \<le> c \<and> tr_recvs p k (c - 2 ^ k)"
proof -
  obtain m where m: "c = 2 ^ k * m" using assms(2) by (auto simp: tr_sends_def)
  then have "odd m" using assms(2) by (simp add: tr_sends_def)
  then obtain l where "m = Suc l" "even l" by (cases m) auto
  then show ?thesis using m assms(1) by (simp add: tr_recvs_def)
qed

lemma tr_recvs_pair:
  assumes "tr_recvs p k c"
  shows "tr_sends k (c + 2 ^ k)"
proof -
  obtain m where m: "c = 2 ^ k * m" using assms by (auto simp: tr_recvs_def)
  then have "even m" using assms by (simp add: tr_recvs_def)
  moreover have "c + 2 ^ k = 2 ^ k * Suc m" using m by simp
  ultimately show ?thesis unfolding tr_sends_def by (metis even_Suc mod_mult_self1_is_0 nonzero_mult_div_cancel_left power_not_zero zero_neq_numeral)
qed

definition tr_round :: "nat \<Rightarrow> nat \<Rightarrow> nat \<Rightarrow> nat \<Rightarrow> nat \<Rightarrow> (nat \<times> ('a :: plus ring_state, 'a list) rank_op) list" where
  "tr_round count p root r k = (let rel = to_relative r root p in
     if tr_sends k rel then [(2 * k, Send (toActual (rel - 2 ^ k) root p) (\<lambda>(buf, tmp). chunk 0 count buf))]
     else if tr_recvs p k rel then [(2 * k, Recv (toActual (rel + 2 ^ k) root p) (\<lambda>(buf, tmp) m. (buf, m))),
       (2 * k + 1, Local (\<lambda>(buf, tmp). (add_chunk 0 (take count tmp) buf, tmp)))]
     else [])"

lemma mod_Suc_pow: "(rel :: nat) mod 2 ^ Suc k = 0 \<longleftrightarrow> rel mod 2 ^ k = 0 \<and> even (rel div 2 ^ k)"
  using mod_mult2_eq [of rel "2 ^ k" 2] by (auto simp: mult.commute even_iff_mod_2_eq_zero)

lemma mod_pow_mono: "(rel :: nat) mod 2 ^ k = 0 \<Longrightarrow> i \<le> k \<Longrightarrow> rel mod 2 ^ i = 0"
  using power_le_dvd [of 2 k rel i] by (simp add: dvd_eq_mod_eq_0)

lemma tr_round_idle: "to_relative r root p mod 2 ^ i \<noteq> 0 \<Longrightarrow> i \<le> k \<Longrightarrow> tr_round count p root r k = []"
  using mod_pow_mono [of "to_relative r root p" k i] by (auto simp: tr_round_def Let_def tr_sends_def tr_recvs_def)

lemma tree_reduce_loop_rounds:
  assumes "to_relative r root p mod 2 ^ i = 0" "p \<le> 2 ^ K" "i \<le> K" "0 < p"
  shows "(tree_reduce_loop count p root (to_relative r root p) (2 ^ i) :: ('a :: plus ring_state, 'a list) rank_op list) = map snd (concat (map (tr_round count p root r) [i..<K]))"
  using assms(1,3)
proof (induction "K - i" arbitrary: i)
  case 0
  then show ?case using assms(2) by (simp add: tree_reduce_loop.simps)
next
  case (Suc d)
  let ?rel = "to_relative r root p" and ?R = "tr_round count p root r :: nat \<Rightarrow> (nat \<times> ('a ring_state, 'a list) rank_op) list"
  have upt: "[i..<K] = i # [Suc i..<K]" using Suc(2) by (simp add: upt_conv_Cons)
  show ?case
  proof (cases "2 ^ i < p")
    case True
    show ?thesis
    proof (cases "odd (?rel div 2 ^ i)")
      case True
      then have "?rel mod 2 ^ Suc i \<noteq> 0" unfolding mod_Suc_pow by simp
      then have "?R k = []" if "Suc i \<le> k" for k using tr_round_idle that by blast
      then have rest: "concat (map ?R [Suc i..<K]) = []" unfolding concat_eq_Nil_conv by auto
      have "?R i = [(2 * i, Send (toActual (?rel - 2 ^ i) root p) (\<lambda>(buf, tmp). chunk 0 count buf))]"
        using True Suc.prems(1) by (simp add: tr_round_def Let_def tr_sends_def)
      then show ?thesis using True \<open>2 ^ i < p\<close> upt rest by (subst tree_reduce_loop.simps) (simp add: and_mask and_not_mask del: concat_eq_Nil_conv)
    next
      case False
      then have "?rel mod 2 ^ Suc i = 0" using Suc.prems(1) unfolding mod_Suc_pow by simp
      then have "tree_reduce_loop count p root ?rel (2 ^ Suc i) = map snd (concat (map ?R [Suc i..<K]))"
        using Suc(1) [of "Suc i"] Suc(2) by simp
      then show ?thesis using False \<open>2 ^ i < p\<close> Suc.prems(1) upt
        by (subst tree_reduce_loop.simps) (simp add: tr_round_def Let_def tr_sends_def tr_recvs_def and_mask or_mask)
    qed
  next
    case False
    have "?rel = 0" using Suc.prems(1) rel_less [OF assms(4), of r root] False by simp
    moreover have "\<not> 2 ^ k < p" if "i \<le> k" for k :: nat
      using False that power_increasing [of i k "2 :: nat"] by linarith
    ultimately have "map ?R [i..<K] = map (\<lambda>_. []) [i..<K]"
      by (auto simp: tr_round_def Let_def tr_sends_def tr_recvs_def)
    then show ?thesis using False by (simp add: tree_reduce_loop.simps)
  qed
qed

text \<open>What relative rank \<open>c\<close> has accumulated after \<open>k\<close> rounds.\<close>

fun tree_acc :: "nat \<Rightarrow> (nat \<Rightarrow> nat \<Rightarrow> 'a :: plus) \<Rightarrow> nat \<Rightarrow> nat \<Rightarrow> nat \<Rightarrow> 'a" where
  "tree_acc p x 0 c j = x c j"
| "tree_acc p x (Suc k) c j = (if tr_recvs p k c then tree_acc p x k c j + tree_acc p x k (c + 2 ^ k) j else tree_acc p x k c j)"

definition tr_buf :: "nat \<Rightarrow> nat \<Rightarrow> (nat \<Rightarrow> nat \<Rightarrow> 'a :: plus) \<Rightarrow> nat \<Rightarrow> nat \<Rightarrow> 'a list" where
  "tr_buf count p x k c = map (tree_acc p x k c) [0..<count]"

fun tr_tmp :: "nat \<Rightarrow> nat \<Rightarrow> (nat \<Rightarrow> nat \<Rightarrow> 'a :: plus) \<Rightarrow> nat \<Rightarrow> nat \<Rightarrow> 'a list" where
  "tr_tmp count p x 0 c = []"
| "tr_tmp count p x (Suc k) c = (if tr_recvs p k c then tr_buf count p x k (c + 2 ^ k) else tr_tmp count p x k c)"

definition tr_state :: "nat \<Rightarrow> nat \<Rightarrow> nat \<Rightarrow> (nat \<Rightarrow> nat \<Rightarrow> 'a :: plus) \<Rightarrow> nat \<Rightarrow> nat \<Rightarrow> 'a ring_state" where
  "tr_state count p root x r k = (tr_buf count p x k (to_relative r root p), tr_tmp count p x k (to_relative r root p))"

definition tr_msg :: "nat \<Rightarrow> nat \<Rightarrow> nat \<Rightarrow> (nat \<Rightarrow> nat \<Rightarrow> 'a :: plus) \<Rightarrow> nat \<Rightarrow> nat \<Rightarrow> nat \<Rightarrow> 'a list" where
  "tr_msg count p root x q d t = tr_buf count p x (t div 2) (to_relative q root p)"

lemma length_tr_buf [simp]: "length (tr_buf count p x k c) = count"
  by (simp add: tr_buf_def)

lemma chunk_all [simp]: "length buf = count \<Longrightarrow> chunk 0 count buf = buf"
  by (simp add: chunk_def)

lemma tr_buf_recv: "tr_recvs p k c \<Longrightarrow> add_chunk 0 (tr_buf count p x k (c + 2 ^ k)) (tr_buf count p x k c) = tr_buf count p x (Suc k) c"
  by (rule nth_equalityI) (auto simp: nth_add_chunk tr_buf_def)

lemma tr_buf_keep: "\<not> tr_recvs p k c \<Longrightarrow> tr_buf count p x (Suc k) c = tr_buf count p x k c"
  by (simp add: tr_buf_def)

lemma tr_round_plays:
  assumes "r < p" "root < p"
  shows "plays (tr_msg count p root x) r (tr_state count p root x r k) (tr_round count p root r k) (tr_state count p root x r (Suc k))"
proof -
  let ?c = "to_relative r root p"
  consider "tr_sends k ?c" "\<not> tr_recvs p k ?c" | "tr_recvs p k ?c" "\<not> tr_sends k ?c" | "\<not> tr_sends k ?c" "\<not> tr_recvs p k ?c"
    using tr_sends_recvs by metis
  then show ?thesis
  proof cases
    case 2
    then have "to_relative (toActual (?c + 2 ^ k) root p) root p = ?c + 2 ^ k"
      using assms(2) by (intro rel_actual) (auto simp: tr_recvs_def)
    then show ?thesis using 2 by (simp add: tr_round_def Let_def tr_state_def tr_msg_def tr_buf_recv del: tree_acc.simps)
  qed (simp_all add: tr_round_def Let_def tr_state_def tr_msg_def tr_buf_keep)
qed

lemma tr_stimes:
  assumes "q < p" "d < p" "root < p"
  shows "stimes (tr_round count p root q k) d =
    (if tr_sends k (to_relative q root p) \<and> to_relative d root p = to_relative q root p - 2 ^ k then [2 * k] else [])"
  using actual_eq_iff [OF assms(2,3), of "to_relative q root p - 2 ^ k"] less_imp_diff_less [OF rel_less [of p q root]] assms
  by (auto simp: tr_round_def Let_def)

lemma tr_rtimes:
  assumes "q < p" "d < p" "root < p"
  shows "rtimes (tr_round count p root d k) q =
    (if tr_recvs p k (to_relative d root p) \<and> to_relative q root p = to_relative d root p + 2 ^ k then [2 * k] else [])"
proof (cases "tr_recvs p k (to_relative d root p)")
  case True
  then have "to_relative d root p + 2 ^ k < p" by (simp add: tr_recvs_def)
  then show ?thesis using True actual_eq_iff [OF assms(1,3), of "to_relative d root p + 2 ^ k"] tr_sends_recvs [of k "to_relative d root p" p]
    by (auto simp: tr_round_def Let_def)
qed (auto simp: tr_round_def Let_def)

lemma tr_match:
  assumes "q < p" "d < p" "root < p"
  shows "stimes (tr_round count p root q k) d = rtimes (tr_round count p root d k) q"
  using tr_sends_pair [of "to_relative q root p" p k] tr_recvs_pair [of p k "to_relative d root p"] assms
  by (auto simp: tr_stimes tr_rtimes)

text \<open>The world needs \<open>K\<close> rounds when \<open>p \<le> 2 ^ K\<close>; \<open>p\<close> rounds are always enough.\<close>

interpretation tree_reduce: round_net "Suc p" "Suc p" 2 "tr_round count (Suc p) (root mod Suc p)" "tr_state count (Suc p) (root mod Suc p) x"
    "tr_msg count (Suc p) (root mod Suc p) x"
  for p count root :: nat and x :: "nat \<Rightarrow> nat \<Rightarrow> 'a :: plus"
proof
  fix r q d k :: nat
  assume "r < Suc p"
  then show "plays (tr_msg count (Suc p) (root mod Suc p) x) r (tr_state count (Suc p) (root mod Suc p) x r k)
      (tr_round count (Suc p) (root mod Suc p) r k) (tr_state count (Suc p) (root mod Suc p) x r (Suc k))"
    by (simp add: tr_round_plays)
next
  fix q d k :: nat
  assume "q < Suc p" "d < Suc p"
  then show "stimes (tr_round count (Suc p) (root mod Suc p) q k :: (nat \<times> ('a ring_state, 'a list) rank_op) list) d = rtimes (tr_round count (Suc p) (root mod Suc p) d k :: (nat \<times> ('a ring_state, 'a list) rank_op) list) q"
    by (simp add: tr_match)
qed (auto simp: tr_round_def Let_def split: if_splits)

section \<open>The broadcast in rounds\<close>

definition tb_round :: "nat \<Rightarrow> nat \<Rightarrow> nat \<Rightarrow> nat \<Rightarrow> nat \<Rightarrow> (nat \<times> ('a ring_state, 'a list) rank_op) list" where
  "tb_round count p root r k = (let rel = to_relative r root p in
     if rel < 2 ^ k then
       (if rel + 2 ^ k < p then [(k, Send (toActual (rel + 2 ^ k) root p) (\<lambda>(buf, tmp). chunk 0 count buf))] else [])
     else if rel < 2 * 2 ^ k then [(k, Recv (toActual (rel - 2 ^ k) root p) (\<lambda>(buf, tmp) m. (put_chunk 0 m buf, tmp)))]
     else [])"

lemma tree_broadcast_loop_rounds:
  assumes "p \<le> 2 ^ K" "i \<le> K" "0 < p"
  shows "(tree_broadcast_loop count p root (to_relative r root p) (2 ^ i) :: ('a ring_state, 'a list) rank_op list) =
    map snd (concat (map (tb_round count p root r) [i..<K]))"
  using assms(2)
proof (induction "K - i" arbitrary: i)
  case 0
  then show ?case using assms(1) by (simp add: tree_broadcast_loop.simps)
next
  case (Suc d)
  let ?rel = "to_relative r root p" and ?R = "tb_round count p root r :: nat \<Rightarrow> (nat \<times> ('a ring_state, 'a list) rank_op) list"
  have upt: "[i..<K] = i # [Suc i..<K]" using Suc(2) by (simp add: upt_conv_Cons)
  show ?case
  proof (cases "2 ^ i < p")
    case True
    have "(tree_broadcast_loop count p root ?rel (2 ^ Suc i) :: ('a ring_state, 'a list) rank_op list) = map snd (concat (map ?R [Suc i..<K]))"
      using Suc(1) [of "Suc i"] Suc(2) by simp
    then show ?thesis using True upt
      by (subst tree_broadcast_loop.simps) (simp add: tb_round_def Let_def)
  next
    case False
    have "?R k = []" if "i \<le> k" for k
    proof -
      have "p \<le> 2 ^ k" using False that power_increasing [of i k "2 :: nat"] by linarith
      then show ?thesis using rel_less [OF assms(3), of r root] unfolding tb_round_def Let_def by (auto simp del: rel_less)
    qed
    then have "concat (map ?R [i..<K]) = []" unfolding concat_eq_Nil_conv by auto
    then show ?thesis using False by (simp add: tree_broadcast_loop.simps del: concat_eq_Nil_conv)
  qed
qed

definition tb_buf :: "(nat \<Rightarrow> 'a list) \<Rightarrow> nat \<Rightarrow> nat \<Rightarrow> 'a list" where
  "tb_buf y k c = (if c < 2 ^ k then y 0 else y c)"

definition tb_state :: "nat \<Rightarrow> nat \<Rightarrow> nat \<Rightarrow> (nat \<Rightarrow> nat \<Rightarrow> 'a) \<Rightarrow> (nat \<Rightarrow> 'a list) \<Rightarrow> nat \<Rightarrow> nat \<Rightarrow> 'a ring_state" where
  "tb_state count p root y tmp r k = (tb_buf (\<lambda>c. map (y c) [0..<count]) k (to_relative r root p), tmp r)"

definition tb_msg :: "nat \<Rightarrow> (nat \<Rightarrow> nat \<Rightarrow> 'a) \<Rightarrow> nat \<Rightarrow> nat \<Rightarrow> nat \<Rightarrow> 'a list" where
  "tb_msg count y q d t = map (y 0) [0..<count]"

lemma tb_round_plays:
  "plays (tb_msg count y) r (tb_state count p root y tmp r k) (tb_round count p root r k) (tb_state count p root y tmp r (Suc k))"
  by (auto simp: tb_round_def Let_def tb_state_def tb_buf_def tb_msg_def put_chunk_def)

lemma tb_stimes:
  assumes "q < p" "d < p" "root < p"
  shows "stimes (tb_round count p root q k) d =
    (if to_relative q root p < 2 ^ k \<and> to_relative d root p = to_relative q root p + 2 ^ k then [k] else [])"
  using actual_eq_iff [OF assms(2,3), of "to_relative q root p + 2 ^ k"] rel_less [of p d root] assms
  by (auto simp: tb_round_def Let_def simp del: rel_less)

lemma tb_rtimes:
  assumes "q < p" "d < p" "root < p"
  shows "rtimes (tb_round count p root d k) q =
    (if to_relative q root p < 2 ^ k \<and> to_relative d root p = to_relative q root p + 2 ^ k then [k] else [])"
  using actual_eq_iff [OF assms(1,3), of "to_relative d root p - 2 ^ k"] less_imp_diff_less [OF rel_less [of p d root]] assms
  by (auto simp: tb_round_def Let_def)

interpretation tree_bcast: round_net "Suc p" "Suc p" 1 "tb_round count (Suc p) (root mod Suc p)" "tb_state count (Suc p) (root mod Suc p) y tmp"
    "tb_msg count y"
  for p count root :: nat and y :: "nat \<Rightarrow> nat \<Rightarrow> 'a" and tmp :: "nat \<Rightarrow> 'a list"
proof
  fix q d k :: nat
  assume "q < Suc p" "d < Suc p"
  then show "stimes (tb_round count (Suc p) (root mod Suc p) q k :: (nat \<times> ('a ring_state, 'a list) rank_op) list) d = rtimes (tb_round count (Suc p) (root mod Suc p) d k :: (nat \<times> ('a ring_state, 'a list) rank_op) list) q"
    by (simp add: tb_stimes tb_rtimes)
qed (auto simp: tb_round_plays, auto simp: tb_round_def Let_def split: if_splits)

section \<open>Results\<close>

lemma pow_ge: "(p :: nat) \<le> 2 ^ p"
  by (simp add: less_imp_le)

lemma tree_broadcast_net:
  assumes "2 \<le> n" "root < n"
  shows "rank_net n (\<lambda>r. concat (map (tb_round count n root r) [0..<n])) (\<lambda>r. tb_state count n root y tmp r 0) (tb_msg count y)
      (\<lambda>r. tb_state count n root y tmp r n)"
    and "map snd (concat (map (tb_round count n root r) [0..<n])) = tree_broadcast count n root r"
proof -
  obtain p where n: "n = Suc p" using assms(1) by (cases n) auto
  show "rank_net n (\<lambda>r. concat (map (tb_round count n root r) [0..<n])) (\<lambda>r. tb_state count n root y tmp r 0) (tb_msg count y)
      (\<lambda>r. tb_state count n root y tmp r n)"
    using tree_bcast.rank_net_axioms [of p count root y tmp] assms(2) unfolding n by (simp del: upt_Suc)
  show "map snd (concat (map (tb_round count n root r) [0..<n])) = tree_broadcast count n root r"
    using assms by (simp add: tree_broadcast_def tree_broadcast_loop_rounds [where K = n and i = 0, simplified] less_imp_le)
qed

lemma tree_reduce_net:
  fixes x :: "nat \<Rightarrow> nat \<Rightarrow> 'a :: plus"
  assumes "2 \<le> n" "root < n"
  shows "rank_net n (\<lambda>r. concat (map (tr_round count n root r) [0..<n])) (\<lambda>r. tr_state count n root x r 0) (tr_msg count n root x)
      (\<lambda>r. tr_state count n root x r n)"
    and "map snd (concat (map (tr_round count n root r) [0..<n])) = (tree_reduce_to_root count n root r :: ('a ring_state, 'a list) rank_op list)"
proof -
  obtain p where n: "n = Suc p" using assms(1) by (cases n) auto
  show "rank_net n (\<lambda>r. concat (map (tr_round count n root r) [0..<n])) (\<lambda>r. tr_state count n root x r 0) (tr_msg count n root x)
      (\<lambda>r. tr_state count n root x r n)"
    using tree_reduce.rank_net_axioms [of p count root x] assms(2) unfolding n by (simp del: upt_Suc)
  show "map snd (concat (map (tr_round count n root r) [0..<n])) = (tree_reduce_to_root count n root r :: ('a ring_state, 'a list) rank_op list)"
    using assms by (simp add: tree_reduce_to_root_def tree_reduce_loop_rounds [where K = n and i = 0, simplified] less_imp_le)
qed

lemma round_length_bounds: "length (tb_round count p root r k) \<le> 1" "length (tr_round count p root r k) \<le> 2"
  by (auto simp: tb_round_def tr_round_def Let_def)

lemma concat_length_bound: "(\<And>k. length (f k) \<le> b) \<Longrightarrow> length (concat (map f [0..<m])) \<le> b * m"
  by (induction m) (auto simp: add_mono add.commute)

text \<open>
  \<open>Broadcast\<close>, for any root, schedule and capacity of the transport, ends within \<open>n * n\<close> steps and never
  deadlocks; when no rank can move, all are done and every rank holds the root's buffer.
\<close>

theorem broadcast_correct:
  fixes xs :: "nat \<Rightarrow> 'a list"
  assumes "2 \<le> n" and "root < n" and "\<And>r. r < n \<Longrightarrow> length (xs r) = count"
    and "net_reach cap n (net_start (Broadcast count n root) (\<lambda>r. (xs r, tmp r))) k S"
  shows "k \<le> n * n \<and> (net_stuck cap n S \<longrightarrow> net_done n S \<and> (\<forall>r < n. fst (n_loc S r) = xs root))"
proof -
  let ?y = "\<lambda>c j. xs (toActual c root n) ! j"
  let ?P = "\<lambda>r. concat (map (tb_round count n root r) [0..<n]) :: (nat \<times> ('a ring_state, 'a list) rank_op) list"
  note net = tree_broadcast_net(1) [OF assms(1,2), of count ?y tmp]
  have list: "map (?y c) [0..<count] = xs (toActual c root n)" for c
    using assms(1,3) by (intro nth_equalityI) simp_all
  have root: "toActual 0 root n = root" using assms(2) by (simp add: toActual_def)
  have "tb_state count n root ?y tmp r 0 = (xs r, tmp r)" if "r < n" for r
    using list actual_rel [OF that assms(2)] by (auto simp: tb_state_def tb_buf_def)
  then have st: "rank_net.starts n ?P (\<lambda>r. tb_state count n root ?y tmp r 0) (net_start (Broadcast count n root) (\<lambda>r. (xs r, tmp r)))"
    by (intro rank_net.startsI [OF net]) (simp_all add: tree_broadcast_net(2) [OF assms(1,2)] Broadcast_def)
  note E = rank_net.runs_end [OF net st assms(4)]
  have "rank_net.total n ?P \<le> (\<Sum>r<n. n)"
    unfolding rank_net.total_def [OF net] by (intro sum_mono order_trans [OF concat_length_bound [OF round_length_bounds(1)]]) simp
  moreover have "fst (tb_state count n root ?y tmp r n) = xs root" if "r < n" for r
  proof -
    have "to_relative r root n < 2 ^ n" using rel_less [of n r root] pow_ge [of n] assms(1) by linarith
    then show ?thesis using list root by (simp add: tb_state_def tb_buf_def)
  qed
  ultimately show ?thesis using E by auto
qed

definition bcast_example :: "(int ring_state, int list) net" where
  "bcast_example = net_start (Broadcast 1 3 2) (\<lambda>r. ([10 + int r], []))"

lemma less_3: "(p :: nat) < 3 \<longleftrightarrow> p = 0 \<or> p = 1 \<or> p = 2"
  by auto

lemma bcast_example_progs:
  "Broadcast 1 3 2 0 = [Recv 2 (\<lambda>(buf, tmp) m. (put_chunk 0 m buf, tmp))]"
  "Broadcast 1 3 2 1 = [Recv 2 (\<lambda>(buf, tmp) m. (put_chunk 0 m buf, tmp))]"
  "Broadcast 1 3 2 2 = [Send 0 (\<lambda>(buf, tmp). chunk 0 1 buf), Send 1 (\<lambda>(buf, tmp). chunk 0 1 buf)]"
  by (simp_all add: Broadcast_def tree_broadcast_def to_relative_def toActual_def
      tree_broadcast_loop.simps [of _ 3 2 _ "Suc 0"] tree_broadcast_loop.simps [of _ 3 2 _ 2] tree_broadcast_loop.simps [of _ 3 2 _ 4])

theorem broadcast_correct_witness:
  "\<exists>S. net_reach 0 3 bcast_example 4 S \<and> net_stuck 0 3 S \<and> net_done 3 S \<and> fst (n_loc S 0) = [12] \<and> fst (n_loc S 1) = [12]"
proof -
  have "\<exists>S. net_run 0 [2, 0, 2, 1] bcast_example = Some S \<and> net_stuck 0 3 S"
    by (simp add: bcast_example_progs [simplified] bcast_example_def net_start_def net_move_def can_send_def waits_for_def net_stuck_def less_3)
  then obtain S where S: "net_run 0 [2, 0, 2, 1] bcast_example = Some S" "net_stuck 0 3 S" by blast
  have reach: "net_reach 0 3 bcast_example 4 S" using net_run_reach [OF nr_start _ S(1), of 3] by (simp add: numeral_eq_Suc)
  have "4 \<le> 3 * (3 :: nat) \<and> (net_stuck 0 3 S \<longrightarrow> net_done 3 S \<and> (\<forall>r < 3. fst (n_loc S r) = [10 + int 2]))"
    by (rule broadcast_correct [where cap = 0 and count = 1 and xs = "\<lambda>r. [10 + int r]" and root = 2 and tmp = "\<lambda>r. []"])
      (use reach in \<open>simp_all add: bcast_example_def\<close>)
  then show ?thesis using reach S(2) by (intro exI [of _ S]) simp
qed

definition tree_net :: "nat \<Rightarrow> nat \<Rightarrow> nat \<Rightarrow> (nat \<times> ('a :: plus ring_state, 'a list) rank_op) list" where
  "tree_net count n r = concat (map (tr_round count n 0 r) [0..<n]) @ shift (2 * n) (concat (map (tb_round count n 0 r) [0..<n]))"

lemma tree_net_rank_net:
  assumes "2 \<le> n"
  shows "\<exists>M. rank_net n (tree_net count n) (\<lambda>r. tr_state count n 0 x r 0) M
    (\<lambda>r. tb_state count n 0 (\<lambda>c j. tree_acc n x n c j) (\<lambda>r. snd (tr_state count n 0 x r n)) r n)"
proof -
  have 0: "0 < n" using assms by simp
  have "t < 2 * n" if "(t, a) \<in> set (concat (map (tr_round count n 0 r) [0..<n]))" for r t a
    using that by (auto simp: tr_round_def Let_def split: if_splits)
  moreover have "tr_state count n 0 x r n = tb_state count n 0 (\<lambda>c j. tree_acc n x n c j) (\<lambda>r. snd (tr_state count n 0 x r n)) r 0" for r
    by (auto simp: tr_state_def tb_state_def tb_buf_def tr_buf_def)
  ultimately have "rank_net n (\<lambda>r. concat (map (tr_round count n 0 r) [0..<n]) @ shift (2 * n) (concat (map (tb_round count n 0 r) [0..<n])))
     (\<lambda>r. tr_state count n 0 x r 0)
     (\<lambda>q p t. if t < 2 * n then tr_msg count n 0 x q p t else tb_msg count (\<lambda>c j. tree_acc n x n c j) q p (t - 2 * n))
     (\<lambda>r. tb_state count n 0 (\<lambda>c j. tree_acc n x n c j) (\<lambda>r. snd (tr_state count n 0 x r n)) r n)"
    by (intro rank_net_seq [OF tree_reduce_net(1) [OF assms 0] tree_broadcast_net(1) [OF assms 0]]) blast+
  then show ?thesis unfolding tree_net_def by blast
qed

lemma tree_net_snd: "2 \<le> n \<Longrightarrow> map snd (tree_net count n r) = tree_allreduce count n r"
  by (simp add: tree_net_def tree_allreduce_def tree_reduce_net(2) tree_broadcast_net(2))

lemma tree_net_length: "length (tree_net count n r :: (nat \<times> ('a :: plus ring_state, 'a list) rank_op) list) \<le> 3 * n"
proof -
  have "length (concat (map (tb_round count n 0 r) [0..<n]) :: (nat \<times> ('a ring_state, 'a list) rank_op) list) \<le> 1 * n" by (rule concat_length_bound) (rule round_length_bounds)
  moreover have "length (concat (map (tr_round count n 0 r) [0..<n]) :: (nat \<times> ('a ring_state, 'a list) rank_op) list) \<le> 2 * n" by (rule concat_length_bound) (rule round_length_bounds)
  ultimately show ?thesis by (simp add: tree_net_def shift_def length_concat)
qed

text \<open>The tree adds up blocks of ranks: with exact addition, after \<open>k\<close> rounds the block of \<open>2 ^ k\<close> ranks from \<open>c\<close>.\<close>

lemma tree_acc_block:
  fixes x :: "nat \<Rightarrow> nat \<Rightarrow> 'a :: comm_monoid_add"
  shows "c mod 2 ^ k = 0 \<Longrightarrow> c < p \<Longrightarrow> tree_acc p x k c j = (\<Sum>q = c..<min p (c + 2 ^ k). x q j)"
proof (induction k arbitrary: c)
  case (Suc k)
  then have c: "c mod 2 ^ k = 0" "even (c div 2 ^ k)" by (simp_all only: mod_Suc_pow)
  show ?case
  proof (cases "c + 2 ^ k < p")
    case True
    then have "tr_recvs p k c" using c by (simp add: tr_recvs_def)
    moreover have "(\<Sum>q = c..<min p (c + 2 ^ k). x q j) + (\<Sum>q = c + 2 ^ k..<min p (c + 2 ^ k + 2 ^ k). x q j) = (\<Sum>q = c..<min p (c + 2 ^ Suc k). x q j)"
      using True by (subst min_absorb2) (simp, subst sum.atLeastLessThan_concat, auto simp: mult_2 add.assoc)
    ultimately show ?thesis using Suc.IH [of c] Suc.IH [of "c + 2 ^ k"] c True Suc.prems(2) by simp
  next
    case False
    then show ?thesis using Suc.IH [of c] c Suc.prems(2) by (simp add: tr_recvs_def min_absorb1)
  qed
qed simp

text \<open>
  C26. Tree all-reduce, in every schedule and for every capacity of the transport, ends within \<open>3 n * n\<close> steps and
  never deadlocks; when no rank can move, all are done and every rank holds the same buffer, and with exact
  addition it is the element-wise sum of the ranks' buffers.
\<close>

theorem tree_allreduce_correct:
  fixes xs :: "nat \<Rightarrow> 'a :: comm_monoid_add list"
  assumes "2 \<le> n" and "\<And>r. r < n \<Longrightarrow> length (xs r) = count"
    and "net_reach cap n (net_start (tree_allreduce count n) (\<lambda>r. (xs r, []))) k S"
  shows "k \<le> 3 * n * n \<and> (net_stuck cap n S \<longrightarrow> net_done n S \<and>
    (\<forall>r < n. fst (n_loc S r) = map (\<lambda>j. \<Sum>q<n. xs q ! j) [0..<count]))"
proof -
  let ?x = "\<lambda>q j. xs q ! j" and ?P = "tree_net count n :: nat \<Rightarrow> (nat \<times> ('a ring_state, 'a list) rank_op) list"
  let ?F = "\<lambda>r. tb_state count n 0 (\<lambda>c j. tree_acc n ?x n c j) (\<lambda>r. snd (tr_state count n 0 ?x r n)) r n"
  obtain M where net: "rank_net n ?P (\<lambda>r. tr_state count n 0 ?x r 0) M ?F" using tree_net_rank_net [OF assms(1)] by blast
  have rel: "to_relative r 0 n = r" if "r < n" for r using that by (simp add: to_relative_def)
  have "tr_state count n 0 ?x r 0 = (xs r, [])" if "r < n" for r
    using rel [OF that] assms(2) [OF that] by (auto simp: tr_state_def tr_buf_def intro!: nth_equalityI)
  then have st: "rank_net.starts n ?P (\<lambda>r. tr_state count n 0 ?x r 0) (net_start (tree_allreduce count n) (\<lambda>r. (xs r, [])))"
    by (intro rank_net.startsI [OF net]) (simp_all add: tree_net_snd assms(1))
  note E = rank_net.runs_end [OF net st assms(3)]
  have "rank_net.total n ?P \<le> (\<Sum>r<n. 3 * n)"
    unfolding rank_net.total_def [OF net] by (intro sum_mono tree_net_length)
  moreover have "fst (?F r) = map (\<lambda>j. \<Sum>q<n. xs q ! j) [0..<count]" if "r < n" for r
  proof -
    have "r < 2 ^ n" "n \<le> 2 ^ n" using that pow_ge [of n] by linarith+
    then show ?thesis using rel [OF that] tree_acc_block [of 0 n n ?x] assms(1) by (simp add: tb_state_def tb_buf_def min_absorb1 atLeast0LessThan)
  qed
  ultimately show ?thesis using E by auto
qed

definition tree_example :: "(int ring_state, int list) net" where
  "tree_example = net_start (tree_allreduce 1 2) (\<lambda>r. ([10 + int r], []))"

lemma tree_example_progs:
  "tree_allreduce 1 2 0 = [Recv 1 (\<lambda>(buf, tmp) m. (buf, m)), Local (\<lambda>(buf, tmp). (add_chunk 0 (take 1 tmp) buf, tmp)), Send 1 (\<lambda>(buf, tmp). chunk 0 1 buf)]"
  "tree_allreduce 1 2 1 = [Send 0 (\<lambda>(buf, tmp). chunk 0 1 buf), Recv 0 (\<lambda>(buf, tmp) m. (put_chunk 0 m buf, tmp))]"
  by (simp_all add: tree_allreduce_def tree_broadcast_def tree_reduce_to_root_def to_relative_def toActual_def and_not_def
      tree_broadcast_loop.simps [of _ 2 0 _ "Suc 0"] tree_broadcast_loop.simps [of _ 2 0 _ 2]
      tree_reduce_loop.simps [of _ 2 0 _ "Suc 0"] tree_reduce_loop.simps [of _ 2 0 _ 2])

theorem tree_allreduce_correct_witness:
  "\<exists>S. net_reach 0 2 tree_example 5 S \<and> net_stuck 0 2 S \<and> net_done 2 S \<and> fst (n_loc S 0) = [21] \<and> fst (n_loc S 1) = [21]"
proof -
  have "\<exists>S. net_run 0 [1, 0, 0, 0, 1] tree_example = Some S \<and> net_stuck 0 2 S"
    by (simp add: tree_example_progs [simplified] tree_example_def net_start_def net_move_def can_send_def waits_for_def net_stuck_def less_2_cases_iff)
  then obtain S where S: "net_run 0 [1, 0, 0, 0, 1] tree_example = Some S" "net_stuck 0 2 S" by blast
  have reach: "net_reach 0 2 tree_example 5 S" using net_run_reach [OF nr_start _ S(1), of 2] by (simp add: numeral_eq_Suc)
  have "5 \<le> 3 * 2 * (2 :: nat) \<and> (net_stuck 0 2 S \<longrightarrow> net_done 2 S \<and>
      (\<forall>r < 2. fst (n_loc S r) = map (\<lambda>j. \<Sum>q<(2 :: nat). [10 + int q] ! j) [0..<1]))"
    by (rule tree_allreduce_correct [where cap = 0 and count = 1 and xs = "\<lambda>r. [10 + int r]"]) (use reach in \<open>simp_all add: tree_example_def\<close>)
  then show ?thesis using reach S(2) by (intro exI [of _ S]) (simp add: numeral_2_eq_2)
qed

end
