(* ===== verification/Collectives.thy ===== *)
theory Collectives
  imports Tree_Allreduce
begin

text \<open>
  The assembly layer \<open>networking/collectives\<close> over the ring phases: \<open>ReduceScatter\<close> is the ring reduce-scatter and
  \<open>AllGather\<close> copies a rank's contribution to its slot and runs the ring all-gather. The state of an \<open>AllGather\<close> is the
  send buffer with the ring's receive buffer and scratch vector.
\<close>

definition ReduceScatter :: "nat \<Rightarrow> nat \<Rightarrow> nat \<Rightarrow> ('a :: plus ring_state, 'a list) rank_op list" where
  "ReduceScatter count n rank = ring_reduce_scatter count n rank"

type_synonym 'a gather_state = "'a list \<times> 'a ring_state"

definition AllGather :: "nat \<Rightarrow> nat \<Rightarrow> nat \<Rightarrow> ('a gather_state, 'a list) rank_op list" where
  "AllGather send_count n rank =
    (let slot = (rank + 1) mod n in
     Local (\<lambda>(send_buf, recv_buf, tmp). (send_buf, put_chunk (slot * send_count) (take send_count send_buf) recv_buf, tmp)) #
     ops_on snd (\<lambda>s t. (fst t, s)) (ring_all_gather (send_count * n) n rank))"

lemma ring_ag_net:
  assumes "2 \<le> n"
  shows "rank_net n (\<lambda>r. concat (map (\<lambda>k. ring_annot n r k (ag_round count n r k)) [0..<n - 1])) (\<lambda>r. ag_state count n y tmp r 0)
      (ag_msg count n y) (\<lambda>r. ag_state count n y tmp r (n - 1))"
    and "map snd (concat (map (\<lambda>k. ring_annot n r k (ag_round count n r k)) [0..<n - 1])) = ring_all_gather count n r"
proof -
  obtain m where n: "n = Suc (Suc m)" using assms by (metis Suc_le_D numeral_2_eq_2 Suc_le_mono)
  show "rank_net n (\<lambda>r. concat (map (\<lambda>k. ring_annot n r k (ag_round count n r k)) [0..<n - 1])) (\<lambda>r. ag_state count n y tmp r 0)
      (ag_msg count n y) (\<lambda>r. ag_state count n y tmp r (n - 1))"
    using ring_ag.rank_net_axioms [of m count y tmp] unfolding n by (simp del: upt_Suc)
  show "map snd (concat (map (\<lambda>k. ring_annot n r k (ag_round count n r k)) [0..<n - 1])) = ring_all_gather count n r"
    unfolding n by (simp add: ag_annot_snd [simplified])
qed

text \<open>With equal contributions the chunks are the slots.\<close>

lemma slot_chunk: "0 < n \<Longrightarrow> cstart (sc * n) n c = c * sc" "0 < n \<Longrightarrow> csize (sc * n) n c = sc"
  by (simp_all add: cstart_def csize_def)

lemma chunk_of_slot: "c < n \<Longrightarrow> i < sc \<Longrightarrow> chunk_of (sc * n) n (c * sc + i) = c"
proof -
  assume c: "c < n" "i < sc"
  have "Suc c * sc \<le> n * sc" using c by (intro mult_right_mono) auto
  then have "c * sc + i < sc * n" using c by (simp add: mult.commute)
  then show ?thesis using in_the_chunk [OF c(1), of "c * sc + i" "sc * n"] c by (simp add: slot_chunk)
qed

lemma ring_rs_net:
  assumes "2 \<le> n"
  shows "net_computes n (ReduceScatter count n) (\<lambda>r. rs_state count n x r 0) (\<lambda>r. rs_state count n x r (n - 1))"
proof -
  obtain m where n: "n = Suc (Suc m)" using assms by (metis Suc_le_D numeral_2_eq_2 Suc_le_mono)
  have "rank_net n (\<lambda>r. concat (map (\<lambda>k. ring_annot n r k (rs_round count n r k)) [0..<n - 1])) (\<lambda>r. rs_state count n x r 0)
      (rs_msg count n x) (\<lambda>r. rs_state count n x r (n - 1))"
    using ring_rs.rank_net_axioms [of m count x] unfolding n by (simp del: upt_Suc)
  then show ?thesis
    by (rule net_computesI) (simp add: n ReduceScatter_def rs_annot_snd [simplified])
qed

text \<open>After the reduce-scatter rank \<open>r\<close> holds the sum of every rank's elements in slot \<open>(r + 1) mod n\<close>.\<close>

lemma reduce_scatter_computes:
  assumes "2 \<le> n" "\<And>r. r < n \<Longrightarrow> length (xs r) = count"
  shows "net_computes n (ReduceScatter count n) (\<lambda>r. (xs r, [])) (\<lambda>r. rs_state count n (\<lambda>q j. xs q ! j) r (n - 1))"
  by (rule net_computes_cong [OF ring_rs_net [OF assms(1), of count "\<lambda>q j. xs q ! j"]]) (use assms rs_start [of _ n xs count] in auto)

lemma reduce_scatter_owned:
  fixes xs :: "nat \<Rightarrow> 'a :: comm_monoid_add list"
  assumes "2 \<le> n" "r < n"
  shows "chunk ((r + 1) mod n * sc) sc (fst (rs_state (sc * n) n (\<lambda>q j. xs q ! j) r (n - 1))) =
    chunk ((r + 1) mod n * sc) sc (map (\<lambda>j. \<Sum>q<n. xs q ! j) [0..<sc * n])"
proof (rule chunk_cong)
  let ?c = "(r + 1) mod n"
  have c: "?c < n" "ring_left n ?c = r" using assms by (auto simp: ring_left_cases mod_if)
  then have "Suc ?c * sc \<le> n * sc" by (intro mult_right_mono) auto
  then have fit: "?c * sc + sc \<le> sc * n" by (simp add: mult.commute)
  then show "?c * sc + sc \<le> length (fst (rs_state (sc * n) n (\<lambda>q j. xs q ! j) r (n - 1)))" by (simp add: rs_state_def)
  fix j
  assume j: "?c * sc \<le> j" "j < ?c * sc + sc"
  then have co: "chunk_of (sc * n) n j = ?c" using chunk_of_slot [OF c(1), of "j - ?c * sc" sc] by simp
  have "rs_buf (sc * n) n (\<lambda>q j. xs q ! j) (n - 1) r ! j = ring_acc n (\<lambda>q j. xs q ! j) ?c (n - 1) j"
    using rs_buf_owned [OF assms(1), of j "sc * n" "\<lambda>q j. xs q ! j"] j fit co c(2) by simp
  also have "\<dots> = (\<Sum>q<n. xs q ! j)" by (rule ring_acc_total [OF c(1)])
  finally show "fst (rs_state (sc * n) n (\<lambda>q j. xs q ! j) r (n - 1)) ! j = map (\<lambda>j. \<Sum>q<n. xs q ! j) [0..<sc * n] ! j"
    using j fit by (simp add: rs_state_def)
qed (simp add: rs_state_def)

text \<open>The buffer every rank has after the all-gather: slot \<open>c\<close> is the contribution of rank \<open>c - 1\<close>.\<close>

definition gathered :: "nat \<Rightarrow> nat \<Rightarrow> (nat \<Rightarrow> 'a list) \<Rightarrow> 'a list" where
  "gathered sc n sb = map (\<lambda>j. sb (ring_left n (j div sc)) ! (j mod sc)) [0..<sc * n]"

lemma slot_fits: "c < n \<Longrightarrow> c * sc + sc \<le> sc * (n :: nat)"
  using mult_le_mono1 [of "Suc c" n sc] by (simp add: mult.commute)

lemma gathered_slot:
  assumes "q < n" "length (sb q) = sc"
  shows "chunk ((q + 1) mod n * sc) sc (gathered sc n sb) = sb q"
proof (rule nth_equalityI)
  let ?c = "(q + 1) mod n"
  have c: "?c < n" "ring_left n ?c = q" using assms by (auto simp: ring_left_cases mod_if)
  note fit = slot_fits [OF c(1), of sc]
  show "length (chunk (?c * sc) sc (gathered sc n sb)) = length (sb q)" using fit assms by (simp add: gathered_def)
  fix i
  assume "i < length (chunk (?c * sc) sc (gathered sc n sb))"
  then have i: "i < sc" using fit by (simp add: gathered_def)
  then have "gathered sc n sb ! (?c * sc + i) = sb (ring_left n ((?c * sc + i) div sc)) ! ((?c * sc + i) mod sc)"
    using fit unfolding gathered_def by simp
  then show "chunk (?c * sc) sc (gathered sc n sb) ! i = sb q ! i"
    using i fit c(2) by (simp add: gathered_def nth_chunk)
qed

lemma all_gather_computes:
  assumes "2 \<le> n" and "\<And>r. r < n \<Longrightarrow> length (sb r) = sc" and "\<And>r. r < n \<Longrightarrow> length (rb r) = sc * n"
  shows "net_computes n (AllGather sc n) (\<lambda>r. (sb r, rb r, tmp r)) (\<lambda>r. (sb r, gathered sc n sb, tmp r))"
proof -
  let ?y = "\<lambda>r. put_chunk (ring_right n r * sc) (sb r) (rb r)" and ?c = "sc * n"
  have n: "0 < n" using assms(1) by simp
  have fit: "ring_right n r * sc + sc \<le> ?c" for r by (rule slot_fits) (simp add: n)
  have len: "length (?y r) = ?c" if "r < n" for r using fit [of r] assms(2,3) that by simp
  have ag: "net_computes n (ring_all_gather ?c n) (\<lambda>r. ag_state ?c n ?y tmp r 0) (\<lambda>r. ag_state ?c n ?y tmp r (n - 1))"
    using ring_ag_net [OF assms(1)] by (rule net_computesI)
  have st: "ag_state ?c n ?y tmp r 0 = (?y r, tmp r)" if "r < n" for r
    using ag_buf_0 [OF that assms(1), of ?y ?c] len [OF that] by (simp add: ag_state_def)
  have en: "ag_state ?c n ?y tmp r (n - 1) = (gathered sc n sb, tmp r)" if "r < n" for r
  proof -
    have "?y (ring_left n (chunk_of ?c n j)) ! j = sb (ring_left n (j div sc)) ! (j mod sc)" if j: "j < ?c" for j
    proof -
      have sc: "0 < sc" using j by (cases sc) auto
      have d: "j div sc < n" using j sc by (simp add: less_mult_imp_div_less mult.commute)
      have co: "chunk_of ?c n j = j div sc" using chunk_of_slot [OF d, of "j mod sc" sc] sc by simp
      let ?q = "ring_left n (j div sc)"
      have q: "?q < n" "ring_right n ?q = j div sc" using d n by (auto simp: ring_left_cases ring_right_cases)
      have "j div sc * sc \<le> j" "j < j div sc * sc + sc" "j - j div sc * sc = j mod sc"
        using sc by (auto simp: minus_div_mult_eq_mod [symmetric]) (metis add.commute dividend_less_div_times)
      then show ?thesis using fit [of ?q] assms(2,3) q j co by (simp add: nth_put_chunk)
    qed
    then have "ag_buf ?c n ?y (n - 1) r = gathered sc n sb" unfolding ag_buf_end [OF assms(1) that] gathered_def by simp
    then show ?thesis by (simp add: ag_state_def)
  qed
  have "net_computes n (ring_all_gather ?c n) (\<lambda>r. snd (sb r, ?y r, tmp r)) (\<lambda>r. (gathered sc n sb, tmp r))"
    by (rule net_computes_cong [OF ag]) (use st en in simp_all)
  from net_computes_on [where get = snd and put = "\<lambda>s t. (fst t, s)" and t = "\<lambda>r. (sb r, ?y r, tmp r)", OF _ this]
  have on: "net_computes n (\<lambda>r. ops_on snd (\<lambda>s t. (fst t, s)) (ring_all_gather ?c n r)) (\<lambda>r. (sb r, ?y r, tmp r)) (\<lambda>r. (sb r, gathered sc n sb, tmp r))"
    by (simp add: is_part_def)
  let ?f = "\<lambda>r (send_buf, recv_buf, tmp). (send_buf, put_chunk (ring_right n r * sc) (take sc send_buf) recv_buf, tmp :: 'a list)"
  have "net_computes n (\<lambda>r. Local (?f r) # ops_on snd (\<lambda>s t. (fst t, s)) (ring_all_gather ?c n r)) (\<lambda>r. (sb r, rb r, tmp r)) (\<lambda>r. (sb r, gathered sc n sb, tmp r))"
    by (rule net_computes_first, rule net_computes_cong [OF on]) (simp_all add: assms(2))
  then show ?thesis by (simp add: AllGather_def [abs_def] Let_def ring_right_def)
qed

text \<open>
  \<open>AllGather\<close>, in every schedule and for every capacity of the transport, never deadlocks; when no rank can
  move, all are done and on every rank slot \<open>(q + 1) mod n\<close> of the receive buffer is rank \<open>q\<close>'s contribution.
\<close>

theorem all_gather_correct:
  fixes sb :: "nat \<Rightarrow> 'a list"
  assumes "2 \<le> n" and "\<And>r. r < n \<Longrightarrow> length (sb r) = sc" and "\<And>r. r < n \<Longrightarrow> length (rb r) = sc * n"
    and "net_reach cap n (net_start (AllGather sc n) (\<lambda>r. (sb r, rb r, tmp r))) k S" and "net_stuck cap n S"
  shows "net_done n S \<and> (\<forall>r < n. \<forall>q < n. chunk ((q + 1) mod n * sc) sc (fst (snd (n_loc S r))) = sb q)"
  using net_computes_runs [OF all_gather_computes [OF assms(1-3)] assms(4,5)] gathered_slot [of _ n sb sc] assms(2) by simp

definition gather_example :: "(int gather_state, int list) net" where
  "gather_example = net_start (AllGather 1 2) (\<lambda>r. ([7 + int r], [0, 0], []))"

theorem all_gather_correct_witness:
  "\<exists>S. net_reach 0 2 gather_example 6 S \<and> net_done 2 S \<and> chunk 0 1 (fst (snd (n_loc S 0))) = [8] \<and> chunk 1 1 (fst (snd (n_loc S 0))) = [7]"
proof -
  have "\<exists>S. net_run 0 [0, 1, 0, 1, 1, 0] gather_example = Some S \<and> net_stuck 0 2 S"
    by (simp add: gather_example_def net_start_def AllGather_def ops_on_def ring_all_gather_def ag_round_def in_order_def ring_send_def ring_right_def ring_left_def
        Let_def net_move_def can_send_def waits_for_def net_stuck_def less_2_cases_iff)
  then obtain S where S: "net_run 0 [0, 1, 0, 1, 1, 0] gather_example = Some S" "net_stuck 0 2 S" by blast
  have reach: "net_reach 0 2 gather_example 6 S" using net_run_reach [OF nr_start _ S(1), of 2] by (simp add: numeral_eq_Suc)
  have "net_done 2 S \<and> (\<forall>r < 2. \<forall>q < 2. chunk ((q + 1) mod 2 * 1) 1 (fst (snd (n_loc S r))) = [7 + int q])"
    by (rule all_gather_correct [where cap = 0 and k = 6 and sb = "\<lambda>r. [7 + int r]" and sc = 1 and rb = "\<lambda>r. [0, 0]" and tmp = "\<lambda>r. []"])
      (use reach S(2) in \<open>simp_all add: gather_example_def\<close>)
  then show ?thesis using reach by (intro exI [of _ S]) (auto simp: less_2_cases_iff)
qed

end
