(* ===== verification/Pipeline_Schedule.thy ===== *)
theory Pipeline_Schedule
  imports Prelude
begin

text \<open>
  \<open>distributed_training/pipeline_1f1b/pipeline_schedule.h\<close>: the GPipe and 1F1B schedules of \<open>p\<close> stages and \<open>m\<close>
  microbatches and the sweep that simulates them under the dependencies between stages. Times are of any
  ordered type with an addition; \<open>kUnset\<close> is \<open>None\<close>.
\<close>

section \<open>Schedules\<close>

record pipeline_op =
  microbatch :: nat
  is_forward :: bool

abbreviation fwd :: "nat \<Rightarrow> pipeline_op" where
  "fwd j \<equiv> \<lparr>microbatch = j, is_forward = True\<rparr>"

abbreviation bwd :: "nat \<Rightarrow> pipeline_op" where
  "bwd j \<equiv> \<lparr>microbatch = j, is_forward = False\<rparr>"

definition gpipe_schedule :: "nat \<Rightarrow> nat \<Rightarrow> pipeline_op list list" where
  "gpipe_schedule num_stages num_microbatches =
    map (\<lambda>i. map fwd [0..<num_microbatches] @ map bwd [0..<num_microbatches]) [0..<num_stages]"

fun steady_loop :: "nat \<Rightarrow> nat \<Rightarrow> nat \<Rightarrow> pipeline_op list" where
  "steady_loop 0 next_forward next_backward = []"
| "steady_loop (Suc k) next_forward next_backward =
    fwd next_forward # bwd next_backward # steady_loop k (Suc next_forward) (Suc next_backward)"

definition one_f_one_b_stage :: "nat \<Rightarrow> nat \<Rightarrow> nat \<Rightarrow> pipeline_op list" where
  "one_f_one_b_stage num_stages num_microbatches i =
    (let num_warmup = min num_microbatches (num_stages - i - 1); steady_state = num_microbatches - num_warmup in
     map fwd [0..<num_warmup] @ steady_loop steady_state num_warmup 0 @ map bwd [steady_state..<steady_state + num_warmup])"

definition one_f_one_b_schedule :: "nat \<Rightarrow> nat \<Rightarrow> pipeline_op list list" where
  "one_f_one_b_schedule num_stages num_microbatches = map (one_f_one_b_stage num_stages num_microbatches) [0..<num_stages]"

section \<open>Simulation\<close>

record 't sim =
  forward_done :: "nat \<Rightarrow> nat \<Rightarrow> 't option"
  backward_done :: "nat \<Rightarrow> nat \<Rightarrow> 't option"
  sim_ptr :: "nat \<Rightarrow> nat"
  stage_free_at :: "nat \<Rightarrow> 't"
  busy_time :: "nat \<Rightarrow> 't"
  progress :: bool

definition sim_new :: "'t :: zero sim" where
  "sim_new = \<lparr>forward_done = (\<lambda>i j. None), backward_done = (\<lambda>i j. None), sim_ptr = (\<lambda>i. 0), stage_free_at = (\<lambda>i. 0),
     busy_time = (\<lambda>i. 0), progress = True\<rparr>"

text \<open>When the dependencies of an operation are met: the time it can start.\<close>

definition op_ready :: "nat \<Rightarrow> nat \<Rightarrow> pipeline_op \<Rightarrow> 't :: linorder sim \<Rightarrow> 't option" where
  "op_ready p i op s = (let ready = stage_free_at s i; j = microbatch op in
     if is_forward op then
       (if 0 < i then (case forward_done s (i - 1) j of None \<Rightarrow> None | Some dep \<Rightarrow> Some (max ready dep)) else Some ready)
     else (case forward_done s i j of None \<Rightarrow> None | Some own_forward \<Rightarrow>
       (let ready = max ready own_forward in
        if i + 1 < p then (case backward_done s (i + 1) j of None \<Rightarrow> None | Some dep \<Rightarrow> Some (max ready dep)) else Some ready)))"

definition sim_stage :: "pipeline_op list list \<Rightarrow> 't :: {linorder, plus} \<Rightarrow> 't \<Rightarrow> nat \<Rightarrow> 't sim \<Rightarrow> 't sim" where
  "sim_stage schedule forward_time backward_time i s =
    (if length (schedule ! i) \<le> sim_ptr s i then s
     else let op = schedule ! i ! sim_ptr s i in
       case op_ready (length schedule) i op s of
         None \<Rightarrow> s
       | Some ready \<Rightarrow>
           (let duration = if is_forward op then forward_time else backward_time;
                finish = ready + duration;
                s' = if is_forward op
                  then s\<lparr>forward_done := (forward_done s)(i := (forward_done s i)(microbatch op := Some finish))\<rparr>
                  else s\<lparr>backward_done := (backward_done s)(i := (backward_done s i)(microbatch op := Some finish))\<rparr> in
            s'\<lparr>stage_free_at := (stage_free_at s)(i := finish), busy_time := (busy_time s)(i := busy_time s i + duration),
               sim_ptr := (sim_ptr s)(i := sim_ptr s i + 1), progress := True\<rparr>))"

definition sim_sweep :: "pipeline_op list list \<Rightarrow> 't :: {linorder, plus} \<Rightarrow> 't \<Rightarrow> 't sim \<Rightarrow> 't sim" where
  "sim_sweep schedule f b s = foldl (\<lambda>s i. sim_stage schedule f b i s) (s\<lparr>progress := False\<rparr>) [0..<length schedule]"

fun sim_loop :: "nat \<Rightarrow> pipeline_op list list \<Rightarrow> 't :: {linorder, plus} \<Rightarrow> 't \<Rightarrow> 't sim \<Rightarrow> 't sim" where
  "sim_loop 0 schedule f b s = s"
| "sim_loop (Suc left) schedule f b s = (if progress s then sim_loop left schedule f b (sim_sweep schedule f b s) else s)"

definition sim_microbatches :: "pipeline_op list list \<Rightarrow> nat" where
  "sim_microbatches schedule = foldl (\<lambda>m op. max m (microbatch op + 1)) 0 (concat schedule)"

text \<open>The main loop of \<open>simulate\<close>, with its bound on the number of sweeps.\<close>

definition simulate_ops :: "pipeline_op list list \<Rightarrow> 't :: {linorder, plus, zero} \<Rightarrow> 't \<Rightarrow> 't sim" where
  "simulate_ops schedule f b = sim_loop (length schedule * sim_microbatches schedule * 4 + 10) schedule f b sim_new"

definition makespan :: "pipeline_op list list \<Rightarrow> 't :: {linorder, plus, zero} sim \<Rightarrow> 't" where
  "makespan schedule s = foldl (\<lambda>m i. max m (stage_free_at s i)) 0 [0..<length schedule]"

section \<open>The schedules list every operation once\<close>

lemma set_steady_loop: "set (steady_loop k nf nb) = fwd ` {nf..<nf + k} \<union> bwd ` {nb..<nb + k}"
proof (induction k arbitrary: nf nb)
  case (Suc k)
  have "{nf..<nf + Suc k} = insert nf {Suc nf..<Suc nf + k}" "{nb..<nb + Suc k} = insert nb {Suc nb..<Suc nb + k}" by auto
  then show ?case using Suc by auto
qed simp

lemma set_stage: "set (one_f_one_b_stage p m i) = fwd ` {..<m} \<union> bwd ` {..<m}"
proof -
  let ?w = "min m (p - i - 1)"
  have "{..<m} = {0..<?w} \<union> {?w..<?w + (m - ?w)}" "{..<m} = {0..<m - ?w} \<union> {m - ?w..<m - ?w + ?w}" by auto
  then have "fwd ` {..<m} = fwd ` {0..<?w} \<union> fwd ` {?w..<?w + (m - ?w)}" "bwd ` {..<m} = bwd ` {0..<m - ?w} \<union> bwd ` {m - ?w..<m - ?w + ?w}"
    by (metis image_Un)+
  then show ?thesis by (auto simp: one_f_one_b_stage_def Let_def set_steady_loop)
qed

text \<open>A time for every operation that respects the order within a stage and the dependencies between stages.\<close>

definition op_time :: "nat \<Rightarrow> nat \<Rightarrow> pipeline_op \<Rightarrow> nat" where
  "op_time p i op = (if is_forward op then i + 2 * microbatch op else 2 * p - 1 - i + 2 * microbatch op)"

lemma op_time_simps [simp]: "op_time p i (fwd j) = i + 2 * j" "op_time p i (bwd j) = 2 * p - 1 - i + 2 * j"
  by (simp_all add: op_time_def)

lemma steady_sorted:
  assumes "i < p" "w = p - i - 1"
  shows "sorted_wrt (<) (map (op_time p i) (steady_loop k (w + nb) nb)) \<and>
    (\<forall>op \<in> set (steady_loop k (w + nb) nb). i + 2 * (w + nb) \<le> op_time p i op \<and> op_time p i op < 2 * p - 1 - i + 2 * (nb + k))"
proof (induction k arbitrary: nb)
  case (Suc k)
  have c: "2 * p - 1 - i + 2 * nb = Suc (i + 2 * (w + nb))" using assms by auto
  have w: "w + Suc nb = Suc (w + nb)" by simp
  have "i + 2 * (w + Suc nb) \<le> op_time p i op" "op_time p i op < 2 * p - 1 - i + 2 * (Suc nb + k)"
    if "op \<in> set (steady_loop k (Suc (w + nb)) (Suc nb))" for op
    using Suc [of "Suc nb"] that unfolding w by auto
  moreover have "sorted_wrt (<) (map (op_time p i) (steady_loop k (Suc (w + nb)) (Suc nb)))" using Suc [of "Suc nb"] by simp
  ultimately show ?case using c by fastforce
qed simp

lemma stage_sorted:
  assumes "i < p"
  shows "sorted_wrt (<) (map (op_time p i) (one_f_one_b_stage p m i))"
proof -
  let ?w = "min m (p - i - 1)" and ?s = "m - min m (p - i - 1)"
  have up: "sorted_wrt (<) (map (\<lambda>j. c + 2 * j) [a..<b])" for a b c :: nat
    by (simp add: sorted_wrt_map sorted_wrt_iff_nth_less)
  have steady: "sorted_wrt (<) (map (op_time p i) (steady_loop ?s ?w 0)) \<and>
      (\<forall>op \<in> set (steady_loop ?s ?w 0). i + 2 * ?w \<le> op_time p i op \<and> op_time p i op < 2 * p - 1 - i + 2 * ?s)"
  proof (cases "?s = 0")
    case False
    then have "?w = p - i - 1" by auto
    then show ?thesis using steady_sorted [OF assms \<open>?w = p - i - 1\<close>, of ?s 0] by simp
  qed simp
  have "i + 2 * j < 2 * p - 1 - i + 2 * j'" if "j < ?w" "?s \<le> j'" for j j' using that assms by auto
  then have "\<forall>x \<in> set (map (op_time p i) (map fwd [0..<?w])). \<forall>y \<in> set (map (op_time p i) (map bwd [?s..<?s + ?w])). x < y" by auto
  moreover have "\<forall>x \<in> set (map (op_time p i) (map fwd [0..<?w])). \<forall>y \<in> set (map (op_time p i) (steady_loop ?s ?w 0)). x < y"
  proof -
    have "i + 2 * x < op_time p i y" if "x < ?w" "y \<in> set (steady_loop ?s ?w 0)" for x y
    proof -
      have "i + 2 * ?w \<le> op_time p i y" using conjunct2 [OF steady] that(2) by blast
      then show ?thesis using that(1) by linarith
    qed
    then show ?thesis by auto
  qed
  moreover have "\<forall>x \<in> set (map (op_time p i) (steady_loop ?s ?w 0)). \<forall>y \<in> set (map (op_time p i) (map bwd [?s..<?s + ?w])). x < y"
  proof -
    have "op_time p i x < 2 * p - 1 - i + 2 * y" if "x \<in> set (steady_loop ?s ?w 0)" "?s \<le> y" for x y
    proof -
      have "op_time p i x < 2 * p - 1 - i + 2 * ?s" using conjunct2 [OF steady] that(1) by blast
      then show ?thesis using that(2) by linarith
    qed
    then show ?thesis by auto
  qed
  ultimately show ?thesis
    using conjunct1 [OF steady] up [of i 0 ?w] up [of "2 * p - 1 - i" ?s "?s + ?w"]
    unfolding one_f_one_b_stage_def Let_def map_append sorted_wrt_append map_map comp_def op_time_simps set_append by blast
qed

section \<open>The simulation runs a well-ordered schedule to the end\<close>

definition ordered :: "pipeline_op list list \<Rightarrow> (nat \<Rightarrow> pipeline_op \<Rightarrow> nat) \<Rightarrow> bool" where
  "ordered sched T \<longleftrightarrow> (\<forall>i < length sched. sorted_wrt (<) (map (T i) (sched ! i)) \<and>
     (\<forall>op \<in> set (sched ! i).
        (is_forward op \<and> 0 < i \<longrightarrow> (fwd (microbatch op) \<in> set (sched ! (i - 1)) \<and> T (i - 1) (fwd (microbatch op)) < T i op)) \<and>
        (\<not> is_forward op \<longrightarrow> (fwd (microbatch op) \<in> set (sched ! i) \<and> T i (fwd (microbatch op)) < T i op) \<and>
           (i + 1 < length sched \<longrightarrow> bwd (microbatch op) \<in> set (sched ! (i + 1)) \<and> T (i + 1) (bwd (microbatch op)) < T i op))))"

lemma one_f_one_b_ordered: "ordered (one_f_one_b_schedule p m) (op_time p)"
proof -
  have "(\<exists>j < m. op = fwd j) \<or> (\<exists>j < m. op = bwd j)" if "op \<in> set (one_f_one_b_stage p m i)" for op i
    using that unfolding set_stage by auto
  then show ?thesis
    unfolding ordered_def one_f_one_b_schedule_def using stage_sorted
    by (fastforce simp: set_stage)
qed

definition sim_inv :: "pipeline_op list list \<Rightarrow> 't sim \<Rightarrow> bool" where
  "sim_inv sched s \<longleftrightarrow> (\<forall>i < length sched. \<forall>op \<in> set (take (sim_ptr s i) (sched ! i)).
     if is_forward op then forward_done s i (microbatch op) \<noteq> None else backward_done s i (microbatch op) \<noteq> None)"

definition pending :: "pipeline_op list list \<Rightarrow> 't sim \<Rightarrow> nat" where
  "pending sched s = (\<Sum>i<length sched. length (sched ! i) - sim_ptr s i)"

lemma sim_stage_cases:
  fixes s :: "'t :: {linorder, plus} sim"
  assumes "sim_inv sched s" "i < length sched"
  obtains (skip) "sim_stage sched f b i s = s" "length (sched ! i) \<le> sim_ptr s i \<or> op_ready (length sched) i (sched ! i ! sim_ptr s i) s = None"
  | (run) "sim_inv sched (sim_stage sched f b i s)" "sim_ptr (sim_stage sched f b i s) = (sim_ptr s)(i := sim_ptr s i + 1)"
      "progress (sim_stage sched f b i s)" "sim_ptr s i < length (sched ! i)"
proof (cases "length (sched ! i) \<le> sim_ptr s i \<or> op_ready (length sched) i (sched ! i ! sim_ptr s i) s = None")
  case True
  then have "sim_stage sched f b i s = s" by (auto simp: sim_stage_def Let_def)
  then show ?thesis using skip True by blast
next
  case False
  let ?op = "sched ! i ! sim_ptr s i"
  obtain r where r: "op_ready (length sched) i ?op s = Some r" and l: "sim_ptr s i < length (sched ! i)" using False by auto
  have take: "take (Suc (sim_ptr s i)) (sched ! i) = take (sim_ptr s i) (sched ! i) @ [?op]" using l by (rule take_Suc_conv_app_nth)
  have "sim_inv sched (sim_stage sched f b i s)"
    using assms(1) r l take unfolding sim_inv_def sim_stage_def Let_def by (auto split: if_splits)
  moreover have "sim_ptr (sim_stage sched f b i s) = (sim_ptr s)(i := sim_ptr s i + 1)" "progress (sim_stage sched f b i s)"
    using r l by (simp_all add: sim_stage_def Let_def)
  ultimately show ?thesis using run l by blast
qed

abbreviation sweep_over :: "pipeline_op list list \<Rightarrow> 't :: {linorder, plus} \<Rightarrow> 't \<Rightarrow> 't sim \<Rightarrow> nat list \<Rightarrow> 't sim" where
  "sweep_over sched f b \<equiv> foldl (\<lambda>s i. sim_stage sched f b i s)"

lemma sweep_over_inv:
  assumes "sim_inv sched s" "set xs \<subseteq> {..<length sched}"
  shows "sim_inv sched (sweep_over sched f b s xs) \<and> sim_ptr s j \<le> sim_ptr (sweep_over sched f b s xs) j \<and>
    (j \<notin> set xs \<longrightarrow> sim_ptr (sweep_over sched f b s xs) j = sim_ptr s j) \<and>
    (progress s \<longrightarrow> progress (sweep_over sched f b s xs))"
  using assms
proof (induction xs arbitrary: s)
  case (Cons i xs)
  have i: "i < length sched" and xs: "set xs \<subseteq> {..<length sched}" using Cons.prems(2) by auto
  show ?case
    using Cons.prems(1) i
  proof (cases rule: sim_stage_cases [where f = f and b = b])
    case skip
    then show ?thesis using Cons.IH [OF Cons.prems(1) xs] by auto
  next
    case run
    then show ?thesis using Cons.IH [OF run(1) xs] by (auto simp: fun_upd_def split: if_splits)
  qed
qed simp

lemma sim_inv_progress [simp]: "sim_inv sched (s\<lparr>progress := x\<rparr>) = sim_inv sched s"
  by (simp add: sim_inv_def)

lemma upt_subset: "i \<le> n \<Longrightarrow> set [k..<i] \<subseteq> {..<n}"
  by auto

lemma sweep_inv: "sim_inv sched s \<Longrightarrow> sim_inv sched (sim_sweep sched f b s) \<and> sim_ptr s j \<le> sim_ptr (sim_sweep sched f b s) j"
  using sweep_over_inv [of sched "s\<lparr>progress := False\<rparr>" "[0..<length sched]" f b j] by (auto simp: sim_sweep_def atLeast0LessThan)

lemma pending_mono: "(\<And>j. sim_ptr s j \<le> sim_ptr s' j) \<Longrightarrow> pending sched s' \<le> pending sched s"
  unfolding pending_def by (intro sum_mono diff_le_mono2)

lemma executed:
  assumes "ordered sched T" "q < length sched" "x \<in> set (sched ! q)"
    and least: "\<And>k. k < length sched \<Longrightarrow> sim_ptr s k < length (sched ! k) \<Longrightarrow> t \<le> T k (sched ! k ! sim_ptr s k)" and "T q x < t"
  shows "x \<in> set (take (sim_ptr s q) (sched ! q))"
proof (rule ccontr)
  assume "x \<notin> set (take (sim_ptr s q) (sched ! q))"
  then have x: "x \<in> set (drop (sim_ptr s q) (sched ! q))" using assms(3) by (metis append_take_drop_id Un_iff set_append)
  then have l: "sim_ptr s q < length (sched ! q)" by (metis drop_all empty_iff linorder_not_le list.set(1))
  then have d: "drop (sim_ptr s q) (sched ! q) = sched ! q ! sim_ptr s q # drop (Suc (sim_ptr s q)) (sched ! q)" by (simp add: Cons_nth_drop_Suc)
  have "sorted_wrt (<) (map (T q) (sched ! q))" using assms(1,2) unfolding ordered_def by blast
  then have "sorted_wrt (<) (map (T q) (drop (sim_ptr s q) (sched ! q)))" by (metis drop_map sorted_wrt_drop)
  then have "T q (sched ! q ! sim_ptr s q) \<le> T q x" using x d by (auto simp: less_imp_le)
  then show False using least [OF assms(2) l] assms(5) by simp
qed

lemma executed_done:
  assumes "sim_inv sched s'" "q < length sched" "x \<in> set (take (sim_ptr s q) (sched ! q))" "sim_ptr s q \<le> sim_ptr s' q"
  shows "if is_forward x then forward_done s' q (microbatch x) \<noteq> None else backward_done s' q (microbatch x) \<noteq> None"
proof -
  have "x \<in> set (take (sim_ptr s' q) (sched ! q))" using assms(3,4) set_take_subset_set_take by fastforce
  then show ?thesis using assms(1,2) unfolding sim_inv_def by blast
qed

lemma ready:
  fixes s s' :: "'t :: {linorder, plus} sim"
  assumes ord: "ordered sched T" and inv: "sim_inv sched s'" and mono: "\<And>j. sim_ptr s j \<le> sim_ptr s' j" and i: "i < length sched"
    and l: "sim_ptr s i < length (sched ! i)"
    and least: "\<And>k. k < length sched \<Longrightarrow> sim_ptr s k < length (sched ! k) \<Longrightarrow> T i (sched ! i ! sim_ptr s i) \<le> T k (sched ! k ! sim_ptr s k)"
  shows "op_ready (length sched) i (sched ! i ! sim_ptr s i) s' \<noteq> None"
proof -
  let ?op = "sched ! i ! sim_ptr s i"
  have op: "?op \<in> set (sched ! i)" using l by simp
  note O = ord [unfolded ordered_def, rule_format, OF i, THEN conjunct2, rule_format, OF op]
  have dep: "if is_forward x then forward_done s' q (microbatch x) \<noteq> None else backward_done s' q (microbatch x) \<noteq> None"
    if "q < length sched" "x \<in> set (sched ! q)" "T q x < T i ?op" for q x
    using executed_done [OF inv that(1) executed [OF ord that(1,2) least that(3)] mono] .
  show ?thesis
  proof (cases "is_forward ?op")
    case True
    have "i - 1 < length sched" using i by simp
    then show ?thesis using True O dep [of "i - 1" "fwd (microbatch ?op)"] by (auto simp: op_ready_def Let_def)
  next
    case False
    then show ?thesis using O dep [of i "fwd (microbatch ?op)"] dep [of "i + 1" "bwd (microbatch ?op)"] i
      by (auto simp: op_ready_def Let_def)
  qed
qed

lemma sweep_progress:
  fixes s :: "'t :: {linorder, plus} sim"
  assumes "ordered sched T" "sim_inv sched s" "0 < pending sched s"
  shows "progress (sim_sweep sched f b s) \<and> pending sched (sim_sweep sched f b s) < pending sched s"
proof -
  let ?P = "\<lambda>k. k < length sched \<and> sim_ptr s k < length (sched ! k)" and ?init = "s\<lparr>progress := False\<rparr>"
  have "\<exists>k. ?P k"
  proof (rule ccontr)
    assume "\<not> (\<exists>k. ?P k)"
    then have "length (sched ! k) - sim_ptr s k = 0" if "k < length sched" for k using that by auto
    then show False using assms(3) by (simp add: pending_def)
  qed
  then obtain k0 where "?P k0" by blast
  then obtain i where i: "?P i" and least: "\<And>k. ?P k \<Longrightarrow> T i (sched ! i ! sim_ptr s i) \<le> T k (sched ! k ! sim_ptr s k)"
    using ex_has_least_nat [of ?P k0 "\<lambda>k. T k (sched ! k ! sim_ptr s k)"] by blast
  define s1 where "s1 = sweep_over sched f b ?init [0..<i]"
  have s1: "sim_inv sched s1" "\<And>j. sim_ptr s j \<le> sim_ptr s1 j" "sim_ptr s1 i = sim_ptr s i"
    using sweep_over_inv [of sched ?init "[0..<i]" f b] assms(2) i upt_subset [of i "length sched"] unfolding s1_def by auto
  have rd: "op_ready (length sched) i (sched ! i ! sim_ptr s1 i) s1 \<noteq> None"
    unfolding s1(3) by (rule ready [OF assms(1) s1(1,2)]) (use i least in auto)
  define s2 where "s2 = sim_stage sched f b i s1"
  have s2: "sim_inv sched s2" "sim_ptr s2 i = Suc (sim_ptr s i)" "progress s2"
    using s1(1) conjunct1 [OF i]
    by (cases rule: sim_stage_cases [where f = f and b = b]; use rd i s1(3) in \<open>auto simp: s2_def\<close>)+
  have "[0..<length sched] = [0..<i] @ i # [Suc i..<length sched]"
    using i by (metis le_add_diff_inverse less_imp_le upt_add_eq_append upt_conv_Cons zero_le)
  then have sw: "sim_sweep sched f b s = sweep_over sched f b s2 [Suc i..<length sched]"
    by (simp add: sim_sweep_def s1_def s2_def)
  have end_: "progress (sim_sweep sched f b s)" "sim_ptr s2 i \<le> sim_ptr (sim_sweep sched f b s) i"
    using sweep_over_inv [OF s2(1) upt_subset [OF order_refl, of "Suc i"], of f b i] s2(3) unfolding sw by auto
  have "pending sched (sim_sweep sched f b s) < pending sched s"
    unfolding pending_def
  proof (rule sum_strict_mono_ex1)
    show "\<forall>j\<in>{..<length sched}. length (sched ! j) - sim_ptr (sim_sweep sched f b s) j \<le> length (sched ! j) - sim_ptr s j"
      using sweep_inv [OF assms(2)] by (auto intro: diff_le_mono2)
    show "\<exists>a\<in>{..<length sched}. length (sched ! a) - sim_ptr (sim_sweep sched f b s) a < length (sched ! a) - sim_ptr s a"
      using i end_(2) s2(2) by (intro bexI [of _ i]) auto
  qed simp
  then show ?thesis using end_(1) by blast
qed

lemma sim_loop_pending:
  fixes s :: "'t :: {linorder, plus} sim"
  assumes "ordered sched T"
  shows "sim_inv sched s \<Longrightarrow> progress s \<Longrightarrow> pending sched s \<le> left \<Longrightarrow> pending sched (sim_loop left sched f b s) = 0"
proof (induction left arbitrary: s)
  case (Suc left)
  let ?s = "sim_sweep sched f b s"
  have inv: "sim_inv sched ?s" "\<And>j. sim_ptr s j \<le> sim_ptr ?s j" using sweep_inv [OF Suc.prems(1)] by blast+
  show ?case
  proof (cases "pending sched s = 0")
    case True
    have "pending sched (sim_loop left sched f b u) \<le> pending sched u" if "sim_inv sched u" for u
      using that
    proof (induction left arbitrary: u)
      case (Suc left)
      have "pending sched (sim_sweep sched f b u) \<le> pending sched u" using sweep_inv [OF Suc.prems] by (intro pending_mono) blast
      moreover have "sim_inv sched (sim_sweep sched f b u)" using sweep_inv [OF Suc.prems] by blast
      ultimately show ?case using Suc.IH [of "sim_sweep sched f b u"] by auto
    qed simp
    then show ?thesis using inv(1) pending_mono [OF inv(2), of sched] True Suc.prems(2) by (metis le_zero_eq sim_loop.simps(2))
  next
    case False
    then have "progress ?s \<and> pending sched ?s < pending sched s" using sweep_progress [OF assms Suc.prems(1)] by simp
    then show ?thesis using Suc.IH [OF inv(1)] Suc.prems by simp
  qed
qed simp

lemma sim_loop_inv: "sim_inv sched s \<Longrightarrow> sim_inv sched (sim_loop left sched f b s)"
  by (induction left arbitrary: s) (auto simp: sweep_inv)

lemma foldl_max_ge: "(a :: nat) \<le> foldl (\<lambda>m op. max m (microbatch op + 1)) a ops \<and>
   (\<forall>op \<in> set ops. microbatch op + 1 \<le> foldl (\<lambda>m op. max m (microbatch op + 1)) a ops)"
proof (induction ops arbitrary: a)
  case (Cons x ops)
  show ?case using Cons [of "max a (microbatch x + 1)"] by auto
qed simp

lemma length_steady_loop: "length (steady_loop k nf nb) = 2 * k"
  by (induction k arbitrary: nf nb) auto

lemma length_stage: "length (one_f_one_b_stage p m i) = 2 * m"
  by (simp add: one_f_one_b_stage_def Let_def length_steady_loop)

text \<open>
  C28. The simulated 1F1B schedule never stalls on a dependency: within the bound on the number of sweeps every
  stage executes its whole list, so each stage has run the forward and the backward pass of every microbatch.
\<close>

theorem one_f_one_b_completes:
  fixes f b :: "'t :: {linorder, plus, zero}"
  assumes "i < p" and "j < m"
  shows "sim_ptr (simulate_ops (one_f_one_b_schedule p m) f b) i \<ge> length (one_f_one_b_schedule p m ! i) \<and>
    forward_done (simulate_ops (one_f_one_b_schedule p m) f b) i j \<noteq> None \<and> backward_done (simulate_ops (one_f_one_b_schedule p m) f b) i j \<noteq> None"
proof -
  let ?sched = "one_f_one_b_schedule p m" and ?init = "sim_new :: 't sim"
  let ?s = "simulate_ops ?sched f b"
  have len: "length ?sched = p" "?sched ! i = one_f_one_b_stage p m i" if "i < p" for i using that by (simp_all add: one_f_one_b_schedule_def)
  have "fwd (m - 1) \<in> set (concat ?sched)" using assms by (auto simp: one_f_one_b_schedule_def set_stage intro!: bexI [of _ i])
  then have m: "m \<le> sim_microbatches ?sched" using foldl_max_ge [of 0 "concat ?sched"] assms(2) unfolding sim_microbatches_def by fastforce
  have "pending ?sched ?init = p * (2 * m)" using len assms by (simp add: pending_def sim_new_def length_stage)
  also have "\<dots> \<le> length ?sched * sim_microbatches ?sched * 4 + 10" using m len(1) [OF assms(1)] by (simp add: mult_le_mono trans_le_add1)
  finally have bound: "pending ?sched ?init \<le> length ?sched * sim_microbatches ?sched * 4 + 10" .
  have inv0: "sim_inv ?sched ?init" by (simp add: sim_inv_def sim_new_def)
  have "pending ?sched ?s = 0"
    unfolding simulate_ops_def using inv0 bound by (intro sim_loop_pending [OF one_f_one_b_ordered]) (simp_all add: sim_new_def)
  then have ptr: "length (?sched ! i) \<le> sim_ptr ?s i" using assms(1) len(1) [OF assms(1)] by (simp add: pending_def)
  have "sim_inv ?sched ?s" unfolding simulate_ops_def using sim_loop_inv [OF inv0] .
  then have D: "if is_forward op then forward_done ?s i (microbatch op) \<noteq> None else backward_done ?s i (microbatch op) \<noteq> None"
    if "op \<in> set (one_f_one_b_stage p m i)" for op
    using ptr len assms(1) that unfolding sim_inv_def by auto
  have "forward_done ?s i j \<noteq> None" "backward_done ?s i j \<noteq> None"
    using D [of "fwd j"] D [of "bwd j"] assms(2) by (simp_all add: set_stage)
  then show ?thesis using ptr by blast
qed

theorem one_f_one_b_completes_witness:
  "forward_done (simulate_ops (one_f_one_b_schedule 3 4) (1 :: nat) 2) 2 3 \<noteq> None \<and> backward_done (simulate_ops (one_f_one_b_schedule 3 4) (1 :: nat) 2) 0 3 \<noteq> None"
  using one_f_one_b_completes [of 2 3 3 4 "1 :: nat" 2] one_f_one_b_completes [of 0 3 3 4 "1 :: nat" 2] by simp

text \<open>Activations held: forward passes executed whose backward pass is not.\<close>

definition in_flight :: "pipeline_op list \<Rightarrow> nat" where
  "in_flight ops = length (filter is_forward ops) - length (filter (\<lambda>op. \<not> is_forward op) ops)"

lemma in_flight_arith: "a = min n w + f \<Longrightarrow> f \<le> Suc b \<Longrightarrow> b \<le> c \<Longrightarrow> a - c \<le> Suc w" for a :: nat
  by linarith

lemma steady_in_flight:
  "length (filter is_forward (take n (steady_loop k nf nb))) \<le> Suc (length (filter (\<lambda>op. \<not> is_forward op) (take n (steady_loop k nf nb))))"
  (is "?F n k nf nb \<le> Suc (?B n k nf nb)")
proof (induction k arbitrary: n nf nb)
  case (Suc k)
  show ?case
  proof (cases n)
    case (Suc l)
    then show ?thesis using Suc.IH [of "l - 1" "Suc nf" "Suc nb"] by (cases l) auto
  qed simp
qed simp

text \<open>
  C29. Under 1F1B stage \<open>i\<close> of \<open>p\<close> never holds more than \<open>p - i\<close> activations, however many microbatches there are,
  while GPipe holds all \<open>m\<close> of them.
\<close>

theorem one_f_one_b_memory:
  assumes "i < p"
  shows "in_flight (take n (one_f_one_b_schedule p m ! i)) \<le> p - i \<and> in_flight (take m (gpipe_schedule p m ! i)) = m"
proof -
  let ?w = "min m (p - i - 1)" and ?s = "m - min m (p - i - 1)"
  let ?L = "steady_loop ?s ?w 0"
  have cnt: "filter is_forward (map fwd xs) = map fwd xs" "filter is_forward (map bwd xs) = []"
      "filter (\<lambda>op. \<not> is_forward op) (map fwd xs) = []" "filter (\<lambda>op. \<not> is_forward op) (map bwd xs) = map bwd xs" for xs
    by (induction xs) auto
  have steady: "length (filter is_forward (take k ?L)) \<le> Suc (length (filter (\<lambda>op. \<not> is_forward op) (take k ?L)))" for k by (rule steady_in_flight)
  have F: "length (filter is_forward (take n (one_f_one_b_stage p m i))) = min n ?w + length (filter is_forward (take (n - ?w) ?L))"
    by (simp add: one_f_one_b_stage_def Let_def take_map cnt)
  have B: "length (filter (\<lambda>op. \<not> is_forward op) (take (n - ?w) ?L)) \<le> length (filter (\<lambda>op. \<not> is_forward op) (take n (one_f_one_b_stage p m i)))"
    by (simp add: one_f_one_b_stage_def Let_def take_map cnt)
  have "in_flight (take n (one_f_one_b_stage p m i)) \<le> Suc ?w"
    unfolding in_flight_def by (rule in_flight_arith [OF F steady B])
  moreover have "Suc ?w \<le> p - i" using assms by auto
  ultimately show ?thesis using assms by (simp add: one_f_one_b_schedule_def gpipe_schedule_def in_flight_def cnt)
qed

theorem one_f_one_b_memory_witness:
  "in_flight (take 5 (one_f_one_b_schedule 3 8 ! 0)) \<le> 3 \<and> in_flight (take 8 (gpipe_schedule 3 8 ! 0)) = 8"
  using one_f_one_b_memory [of 0 3 5 8] by simp

end
