(* ===== verification/Web_Dataset.thy ===== *)
theory Web_Dataset
  imports Prelude
begin

text \<open>
  The tar-shard codec of \<open>distributed_training/data_loading/webdataset_shard\<close>: the USTAR writer and reader and the
  grouping of entries into samples. Bytes and characters are numbers below 256; a file is the list of bytes that
  remain to be read. Opening the file is left out: a reader starts from its contents.
\<close>

type_synonym byte = nat

definition kBlockSize :: nat where
  "kBlockSize = 512"

section \<open>Writer\<close>

definition put_bytes :: "nat \<Rightarrow> byte list \<Rightarrow> byte list \<Rightarrow> byte list" where
  "put_bytes off xs h = take off h @ xs @ drop (off + length xs) h"

fun oct_digits :: "nat \<Rightarrow> byte list" where
  "oct_digits v = (if v < 8 then [48 + v] else oct_digits (v div 8) @ [48 + v mod 8])"

declare oct_digits.simps [simp del]

definition fmt_octal :: "nat \<Rightarrow> nat \<Rightarrow> byte list" where
  "fmt_octal w v = replicate (w - length (oct_digits v)) 48 @ oct_digits v"

definition write_octal :: "nat \<Rightarrow> nat \<Rightarrow> nat \<Rightarrow> byte list \<Rightarrow> byte list" where
  "write_octal off width value h = put_bytes off (take (width - 1) (fmt_octal (width - 1) value) @ [0]) h"

definition compute_checksum :: "byte list \<Rightarrow> nat" where
  "compute_checksum header = (\<Sum>i<kBlockSize. if 148 \<le> i \<and> i < 156 then 32 else header ! i)"

definition ustar :: "byte list" where
  "ustar = [117, 115, 116, 97, 114]"

definition tar_fields :: "byte list \<Rightarrow> nat \<Rightarrow> byte list" where
  "tar_fields name sz =
    (let h = replicate kBlockSize 0;
         h = put_bytes 0 (take 99 (takeWhile (\<lambda>c. c \<noteq> 0) name) @ [0]) h;
         h = write_octal 100 8 420 h;
         h = write_octal 108 8 0 h;
         h = write_octal 116 8 0 h;
         h = write_octal 124 12 sz h;
         h = write_octal 136 12 0 h;
         h = put_bytes 148 (replicate 8 32) h;
         h = put_bytes 156 [48] h;
         h = put_bytes 257 ustar h
     in put_bytes 262 [0, 48, 48] h)"

definition tar_header :: "byte list \<Rightarrow> nat \<Rightarrow> byte list" where
  "tar_header name sz =
    (let h = tar_fields name sz; chksum = compute_checksum h in put_bytes 155 [0] (write_octal 148 7 chksum h))"

definition tar_padding :: "nat \<Rightarrow> nat" where
  "tar_padding n = (kBlockSize - n mod kBlockSize) mod kBlockSize"

definition tar_append :: "byte list \<Rightarrow> byte list \<Rightarrow> byte list \<Rightarrow> byte list" where
  "tar_append out name data = out @ tar_header name (length data) @ data @ replicate (tar_padding (length data)) 0"

definition tar_finish :: "byte list \<Rightarrow> byte list" where
  "tar_finish out = out @ replicate (2 * kBlockSize) 0"

section \<open>Reader\<close>

fun octal_loop :: "nat \<Rightarrow> byte list \<Rightarrow> nat" where
  "octal_loop value [] = value"
| "octal_loop value (c # cs) = (if 48 \<le> c \<and> c \<le> 55 then octal_loop (value * 8 + (c - 48)) cs else value)"

definition parse_octal :: "byte list \<Rightarrow> nat \<Rightarrow> nat" where
  "parse_octal field width = octal_loop 0 (take width field)"

definition c_string :: "byte list \<Rightarrow> byte list" where
  "c_string = takeWhile (\<lambda>c. c \<noteq> 0)"

type_synonym entry = "byte list \<times> byte list"

text \<open>One header block and its data: the end of the archive, or the type flag, the entry and what follows it.\<close>

definition tar_entry :: "byte list \<Rightarrow> byte list + byte \<times> entry \<times> byte list" where
  "tar_entry f =
    (if length f < kBlockSize then Inl []
     else let header = take kBlockSize f; rest = drop kBlockSize f in
       if \<forall>b \<in> set header. b = 0 then Inl rest
       else if take 5 (drop 257 header) \<noteq> ustar then Inl rest
       else let typeflag = header ! 156;
                sz = parse_octal (drop 124 header) 12;
                prefix = c_string (drop 345 header);
                name = c_string header;
                full_name = if prefix = [] then name else prefix @ [47] @ name in
         if 0 < sz \<and> length rest < sz then Inl []
         else Inr (typeflag, (full_name, take sz rest), drop (tar_padding sz) (drop sz rest)))"

lemma tar_entry_shorter: "tar_entry f = Inr (t, e, rest) \<Longrightarrow> length rest < length f"
  by (auto simp: tar_entry_def Let_def kBlockSize_def split: if_splits)

function tar_next :: "byte list \<Rightarrow> entry option \<times> byte list" where
  "tar_next f = (case tar_entry f of
      Inl rest \<Rightarrow> (None, rest)
    | Inr (typeflag, e, rest) \<Rightarrow> if typeflag \<noteq> 48 \<and> typeflag \<noteq> 0 then tar_next rest else (Some e, rest))"
  by auto
termination by (relation "measure length") (auto dest: tar_entry_shorter)

declare tar_next.simps [simp del]

fun find_from :: "byte \<Rightarrow> nat \<Rightarrow> byte list \<Rightarrow> nat option" where
  "find_from c i [] = None"
| "find_from c i (x # xs) = (if x = c then Some i else find_from c (Suc i) xs)"

fun find_last :: "byte \<Rightarrow> nat \<Rightarrow> byte list \<Rightarrow> nat option \<Rightarrow> nat option" where
  "find_last c i [] r = r"
| "find_last c i (x # xs) r = find_last c (Suc i) xs (if x = c then Some i else r)"

definition split_key_ext :: "byte list \<Rightarrow> byte list \<times> byte list" where
  "split_key_ext name =
    (let from = (case find_last 47 0 name None of None \<Rightarrow> 0 | Some slash \<Rightarrow> slash + 1) in
     case find_from 46 from (drop from name) of
       None \<Rightarrow> (name, [])
     | Some dot \<Rightarrow> (take dot name, drop (dot + 1) name))"

record sample =
  s_key :: "byte list"
  s_files :: "byte list \<rightharpoonup> byte list"

record shard_reader =
  sr_file :: "byte list"
  sr_pending :: "sample option"

lemma tar_next_shorter: "tar_next f = (Some e, rest) \<Longrightarrow> length rest < length f"
proof (induction f rule: tar_next.induct)
  case (1 f)
  obtain t e' r where E: "tar_entry f = Inr (t, e', r)" using 1(2) by (cases "tar_entry f") (auto simp: tar_next.simps [of f])
  have r: "length r < length f" using tar_entry_shorter [OF E] .
  show ?case
  proof (cases "t \<noteq> 48 \<and> t \<noteq> 0")
    case True
    then have "tar_next r = (Some e, rest)" using 1(2) E by (simp add: tar_next.simps [of f])
    then show ?thesis using 1(1) [OF E refl refl True] r by simp
  next
    case False
    then show ?thesis using 1(2) E r by (auto simp: tar_next.simps [of f])
  qed
qed

function shard_loop :: "byte list \<Rightarrow> sample option \<Rightarrow> sample option \<times> shard_reader" where
  "shard_loop f cur = (case tar_next f of
      (None, rest) \<Rightarrow> (cur, \<lparr>sr_file = rest, sr_pending = None\<rparr>)
    | (Some (name, data), rest) \<Rightarrow>
       (let (key, ext) = split_key_ext name in
        case cur of
          None \<Rightarrow> shard_loop rest (Some \<lparr>s_key = key, s_files = [ext \<mapsto> data]\<rparr>)
        | Some s \<Rightarrow>
            if key \<noteq> s_key s then (Some s, \<lparr>sr_file = rest, sr_pending = Some \<lparr>s_key = key, s_files = [ext \<mapsto> data]\<rparr>\<rparr>)
            else shard_loop rest (Some (s\<lparr>s_files := (s_files s)(ext \<mapsto> data)\<rparr>))))"
  by auto
termination
  by (relation "measure (\<lambda>(f, cur). length f)") (auto dest!: sym [of _ "tar_next _"] dest: tar_next_shorter)

declare shard_loop.simps [simp del]

definition shard_next :: "shard_reader \<Rightarrow> sample option \<times> shard_reader" where
  "shard_next r = shard_loop (sr_file r) (sr_pending r)"

section \<open>Octal fields\<close>

lemma octal_loop_digits:
  "list_all (\<lambda>c. 48 \<le> c \<and> c \<le> 55) ds \<Longrightarrow> octal_loop acc (ds @ rest) = octal_loop (foldl (\<lambda>a c. a * 8 + (c - 48)) acc ds) rest"
  by (induction ds arbitrary: acc) auto

lemma oct_digits_ok: "list_all (\<lambda>c. 48 \<le> c \<and> c \<le> 55) (oct_digits v) \<and> foldl (\<lambda>a c. a * 8 + (c - 48)) 0 (oct_digits v) = v"
proof (induction v rule: oct_digits.induct)
  case (1 v)
  show ?case
  proof (cases "v < 8")
    case False
    have "v mod 8 < 8" by simp
    then show ?thesis using 1 [OF False] False by (subst (1 2) oct_digits.simps) (auto simp: less_Suc_eq_le)
  qed (auto simp: oct_digits.simps [of v])
qed

lemma oct_digits_length: "v < 8 ^ Suc k \<Longrightarrow> length (oct_digits v) \<le> Suc k"
proof (induction k arbitrary: v)
  case (Suc k)
  show ?case
  proof (cases "v < 8")
    case False
    have "v div 8 < 8 ^ Suc k" using Suc.prems by (simp add: less_mult_imp_div_less mult.commute)
    then show ?thesis using Suc.IH [of "v div 8"] False by (simp add: oct_digits.simps [of v])
  qed (simp add: oct_digits.simps)
qed (simp add: oct_digits.simps)

lemma foldl_zeros: "foldl (\<lambda>a c. a * 8 + (c - 48)) 0 (replicate n 48) = (0 :: nat)"
  by (induction n) auto

definition octal_field :: "nat \<Rightarrow> nat \<Rightarrow> byte list" where
  "octal_field width value = take (width - 1) (fmt_octal (width - 1) value) @ [0]"

lemma write_octal_put: "write_octal off width value h = put_bytes off (octal_field width value) h"
  by (simp add: write_octal_def octal_field_def)

lemma length_octal_field [simp]: "0 < width \<Longrightarrow> length (octal_field width value) = width"
  by (simp add: octal_field_def fmt_octal_def)

lemma parse_octal_field:
  assumes "v < 8 ^ Suc k"
  shows "octal_loop 0 (octal_field (Suc (Suc k)) v) = v"
proof -
  have l: "length (oct_digits v) \<le> Suc k" using oct_digits_length [OF assms] .
  then have "octal_field (Suc (Suc k)) v = (replicate (Suc k - length (oct_digits v)) 48 @ oct_digits v) @ [0]"
    by (simp add: octal_field_def fmt_octal_def)
  moreover have "list_all (\<lambda>c. 48 \<le> c \<and> c \<le> 55) (replicate (Suc k - length (oct_digits v)) 48 @ oct_digits v)"
    using oct_digits_ok [of v] by (auto simp: list_all_iff)
  ultimately show ?thesis using oct_digits_ok [of v] by (simp add: octal_loop_digits foldl_zeros)
qed

section \<open>Header fields\<close>

definition slice :: "nat \<Rightarrow> nat \<Rightarrow> 'a list \<Rightarrow> 'a list" where
  "slice off n h = take n (drop off h)"

lemma length_put_bytes [simp]: "off + length xs \<le> length h \<Longrightarrow> length (put_bytes off xs h) = length h"
  by (simp add: put_bytes_def)

lemma slice_put_same: "off + length xs \<le> length h \<Longrightarrow> n = length xs \<Longrightarrow> slice off n (put_bytes off xs h) = xs"
  by (simp add: slice_def put_bytes_def)

lemma slice_put_other:
  "off + length xs \<le> length h \<Longrightarrow> o' + n \<le> off \<or> off + length xs \<le> o' \<Longrightarrow> slice o' n (put_bytes off xs h) = slice o' n h"
  by (auto simp: slice_def put_bytes_def drop_take min_absorb1)

lemma slice_replicate: "o' + n \<le> k \<Longrightarrow> slice o' n (replicate k x) = replicate n x"
  by (simp add: slice_def)

lemmas header_simps = Let_def write_octal_put kBlockSize_def ustar_def slice_put_same slice_put_other slice_replicate

lemma fields_length: "length (tar_fields name sz) = 512"
  by (simp add: tar_fields_def header_simps)

lemma header_length: "length (tar_header name sz) = 512"
  by (simp add: tar_header_def header_simps fields_length)

lemma header_slice: "off + n \<le> 148 \<or> 156 \<le> off \<Longrightarrow> slice off n (tar_header name sz) = slice off n (tar_fields name sz)"
  by (auto simp: tar_header_def Let_def write_octal_put slice_put_other fields_length)

lemma header_size: "slice 124 12 (tar_header name sz) = octal_field 12 sz"
  by (simp add: header_slice, simp add: tar_fields_def header_simps)

lemma header_type: "slice 156 1 (tar_header name sz) = [48]"
  by (simp add: header_slice, simp add: tar_fields_def header_simps)

lemma header_magic: "slice 257 5 (tar_header name sz) = ustar"
  by (simp add: header_slice, simp add: tar_fields_def header_simps)

lemma header_prefix: "slice 345 1 (tar_header name sz) = [0]"
  by (simp add: header_slice, simp add: tar_fields_def header_simps)

lemma take_to_zero:
  "0 \<notin> set s \<Longrightarrow> takeWhile (\<lambda>c. c \<noteq> 0) s = s" "0 \<notin> set s \<Longrightarrow> takeWhile (\<lambda>c. c \<noteq> 0) (s @ 0 # ys) = s" for s :: "nat list"
  by (induction s) auto

lemma header_name:
  assumes "length name \<le> 99" "0 \<notin> set name"
  shows "slice 0 (Suc (length name)) (tar_header name sz) = name @ [0]"
proof -
  have "slice 0 (Suc (length name)) (tar_header name sz) = slice 0 (Suc (length name)) (tar_fields name sz)"
    using assms(1) by (intro header_slice) simp
  also have "\<dots> = name @ [0]" using assms(1) unfolding tar_fields_def take_to_zero(1) [OF assms(2)] by (simp add: header_simps)
  finally show ?thesis .
qed

section \<open>Reading back what was written\<close>

definition entry_ok :: "entry \<Rightarrow> bool" where
  "entry_ok e \<longleftrightarrow> length (fst e) \<le> 99 \<and> 0 \<notin> set (fst e) \<and> length (snd e) < 8 ^ 11"

definition tar_block :: "entry \<Rightarrow> byte list" where
  "tar_block e = tar_header (fst e) (length (snd e)) @ snd e @ replicate (tar_padding (length (snd e))) 0"

lemma tar_append_block: "tar_append out name data = out @ tar_block (name, data)"
  by (simp add: tar_append_def tar_block_def)

lemma c_string_prefix: "take (Suc (length s)) xs = s @ [0] \<Longrightarrow> 0 \<notin> set s \<Longrightarrow> c_string xs = s"
proof -
  assume t: "take (Suc (length s)) xs = s @ [0]" "0 \<notin> set s"
  then have "xs = s @ 0 # drop (Suc (length s)) xs" by (metis append_Cons append_assoc append_eq_append_conv2 append_take_drop_id self_append_conv2)
  then have "c_string xs = takeWhile (\<lambda>c. c \<noteq> 0) (s @ 0 # drop (Suc (length s)) xs)" by (simp add: c_string_def)
  also have "\<dots> = s" using take_to_zero(2) [OF t(2)] .
  finally show ?thesis .
qed

lemma tar_entry_block:
  assumes "entry_ok e"
  shows "tar_entry (tar_block e @ rst) = Inr (48, e, rst)"
proof -
  obtain name data where e: "e = (name, data)" by (cases e)
  let ?h = "tar_header name (length data)" and ?rest = "data @ replicate (tar_padding (length data)) 0 @ rst"
  have f: "tar_block e @ rst = ?h @ ?rest" by (simp add: e tar_block_def)
  have th: "take 512 (?h @ ?rest) = ?h" "drop 512 (?h @ ?rest) = ?rest" "\<not> length (?h @ ?rest) < 512" by (simp_all add: header_length)
  have t: "?h ! 156 = 48" using header_type [of name "length data"] header_length [of name "length data"] by (simp add: slice_def take_Suc_conv_app_nth)
  then have nz: "\<not> (\<forall>b \<in> set ?h. b = 0)" using header_length [of name "length data"] nth_mem [of 156 ?h] by force
  have sz: "parse_octal (drop 124 ?h) 12 = length data"
    using header_size [of name "length data"] parse_octal_field [of "length data" 10] assms by (simp add: parse_octal_def slice_def e entry_ok_def)
  have pre: "c_string (drop 345 ?h) = []" using header_prefix [of name "length data"] by (intro c_string_prefix) (simp_all add: slice_def)
  have nm: "c_string ?h = name" using header_name [of name "length data"] assms by (intro c_string_prefix) (simp_all add: slice_def e entry_ok_def)
  have mg: "take 5 (drop 257 ?h) = ustar" using header_magic [of name "length data"] by (simp add: slice_def)
  show ?thesis
    unfolding f tar_entry_def kBlockSize_def th Let_def using th(3) nz t sz pre nm mg by (simp add: e)
qed

lemma tar_next_block: "entry_ok e \<Longrightarrow> tar_next (tar_block e @ rst) = (Some e, rst)"
  by (simp add: tar_next.simps [of "tar_block e @ rst"] tar_entry_block)

lemma tar_next_end: "tar_next (replicate (2 * kBlockSize) 0) = (None, replicate kBlockSize 0)" "tar_next (replicate kBlockSize 0) = (None, [])" "tar_next [] = (None, [])"
  by (simp_all add: tar_next.simps [of "replicate _ _"] tar_next.simps [of "[]"] tar_entry_def kBlockSize_def Let_def)

definition tar_write :: "entry list \<Rightarrow> byte list" where
  "tar_write es = tar_finish (foldl (\<lambda>out (name, data). tar_append out name data) [] es)"

lemma tar_write_blocks: "tar_write es = concat (map tar_block es) @ replicate (2 * kBlockSize) 0"
proof -
  have "foldl (\<lambda>out (name, data). tar_append out name data) out es = out @ concat (map tar_block es)" for out
    by (induction es arbitrary: out) (auto simp: tar_append_block)
  then show ?thesis by (simp add: tar_write_def tar_finish_def)
qed

text \<open>
  What a name is split into, without indices: the directory part ends with the last slash; the key is the directory part and the
  rest up to its first dot, the extension what follows that dot.
\<close>

definition dir_part :: "byte list \<Rightarrow> byte list" where
  "dir_part name = rev (dropWhile (\<lambda>b. b \<noteq> 47) (rev name))"

definition base_part :: "byte list \<Rightarrow> byte list" where
  "base_part name = rev (takeWhile (\<lambda>b. b \<noteq> 47) (rev name))"

definition key_of :: "byte list \<Rightarrow> byte list" where
  "key_of name = dir_part name @ takeWhile (\<lambda>b. b \<noteq> 46) (base_part name)"

definition ext_of :: "byte list \<Rightarrow> byte list" where
  "ext_of name = drop 1 (dropWhile (\<lambda>b. b \<noteq> 46) (base_part name))"

lemma dir_base: "dir_part name @ base_part name = name"
  by (simp add: dir_part_def base_part_def flip: rev_append)

lemma find_from_takeWhile: "find_from c i xs = (if c \<in> set xs then Some (i + length (takeWhile (\<lambda>b. b \<noteq> c) xs)) else None)"
  by (induction c i xs rule: find_from.induct) auto

lemma find_last_append: "find_last c i (xs @ ys) r = find_last c (i + length xs) ys (find_last c i xs r)"
  by (induction c i xs r rule: find_last.induct) auto

lemma find_last_absent: "c \<notin> set xs \<Longrightarrow> find_last c i xs r = r"
  by (induction c i xs r rule: find_last.induct) auto

lemma slash_position: "(case find_last 47 0 name None of None \<Rightarrow> 0 | Some slash \<Rightarrow> slash + 1) = length (dir_part name)"
proof -
  have b: "47 \<notin> set (base_part name)" by (auto simp: base_part_def dest: set_takeWhileD)
  have "find_last 47 0 (dir_part name @ base_part name) None = find_last 47 0 (dir_part name) None"
    by (simp add: find_last_append find_last_absent [OF b])
  moreover have "(case find_last 47 0 (dir_part name) None of None \<Rightarrow> 0 | Some slash \<Rightarrow> slash + 1) = length (dir_part name)"
  proof (cases "dropWhile (\<lambda>b. b \<noteq> 47) (rev name)")
    case (Cons c cs)
    then have "c = 47" using hd_dropWhile [of "\<lambda>b. b \<noteq> 47" "rev name"] by auto
    then show ?thesis using Cons by (simp add: dir_part_def find_last_append)
  next
    case Nil
    then have "dir_part name = []" by (simp only: dir_part_def rev.simps)
    then show ?thesis by simp
  qed
  ultimately show ?thesis by (simp add: dir_base)
qed

lemma split_key_ext_eq: "split_key_ext name = (key_of name, ext_of name)"
proof -
  obtain d b where db: "dir_part name = d" "base_part name = b" by simp
  let ?t = "takeWhile (\<lambda>b. b \<noteq> 46) b"
  have n: "name = d @ b" using dir_base [of name] db by simp
  have "split_key_ext name = (case find_from 46 (length d) b of None \<Rightarrow> (d @ b, []) | Some dot \<Rightarrow> (take dot (d @ b), drop (dot + 1) (d @ b)))"
    using slash_position [of name] unfolding split_key_ext_def Let_def db by (simp add: n split: option.split)
  also have "\<dots> = (d @ ?t, drop 1 (dropWhile (\<lambda>b. b \<noteq> 46) b))"
  proof (cases "46 \<in> set b")
    case True
    have "drop (Suc (length ?t)) b = drop 1 (dropWhile (\<lambda>b. b \<noteq> 46) b)" by (simp add: dropWhile_eq_drop)
    then show ?thesis using True by (simp add: find_from_takeWhile flip: takeWhile_eq_take)
  next
    case False
    then have t: "?t = b" and d: "dropWhile (\<lambda>b. b \<noteq> 46) b = []" by (auto simp: takeWhile_eq_all_conv dropWhile_eq_Nil_conv)
    show ?thesis unfolding t d using False by (simp add: find_from_takeWhile)
  qed
  finally show ?thesis by (simp add: db key_of_def ext_of_def)
qed

text \<open>Samples: maximal runs of entries with one key.\<close>

definition add_file :: "sample \<Rightarrow> entry \<Rightarrow> sample" where
  "add_file s e = s\<lparr>s_files := (s_files s)(ext_of (fst e) \<mapsto> snd e)\<rparr>"

definition new_sample :: "entry \<Rightarrow> sample" where
  "new_sample e = \<lparr>s_key = key_of (fst e), s_files = [ext_of (fst e) \<mapsto> snd e]\<rparr>"

fun group_entries :: "sample option \<Rightarrow> entry list \<Rightarrow> sample list" where
  "group_entries None [] = []"
| "group_entries (Some s) [] = [s]"
| "group_entries None (e # es) = group_entries (Some (new_sample e)) es"
| "group_entries (Some s) (e # es) = (if key_of (fst e) \<noteq> s_key s then s # group_entries (Some (new_sample e)) es
     else group_entries (Some (add_file s e)) es)"

fun read_samples :: "nat \<Rightarrow> shard_reader \<Rightarrow> sample list" where
  "read_samples 0 r = []"
| "read_samples (Suc n) r = (case shard_next r of (None, r') \<Rightarrow> [] | (Some s, r') \<Rightarrow> s # read_samples n r')"

lemma shard_loop_step:
  assumes "entry_ok e"
  shows "shard_loop (tar_block e @ rst) cur = (case cur of None \<Rightarrow> shard_loop rst (Some (new_sample e))
    | Some s \<Rightarrow> if key_of (fst e) \<noteq> s_key s then (Some s, \<lparr>sr_file = rst, sr_pending = Some (new_sample e)\<rparr>)
        else shard_loop rst (Some (add_file s e)))"
proof -
  obtain a b where e: "e = (a, b)" by (cases e)
  show ?thesis
    using tar_next_block [OF assms, of rst]
    by (subst shard_loop.simps) (simp add: e split_key_ext_eq new_sample_def add_file_def split: option.split)
qed

lemma shard_next_groups:
  assumes "list_all entry_ok es"
  shows "\<exists>r'. (case group_entries cur es of
      [] \<Rightarrow> shard_loop (concat (map tar_block es) @ replicate (2 * kBlockSize) 0) cur = (None, r')
    | s # ss \<Rightarrow> shard_loop (concat (map tar_block es) @ replicate (2 * kBlockSize) 0) cur = (Some s, r') \<and>
        (sr_pending r' = None \<and> ss = [] \<and> sr_file r' = replicate kBlockSize 0 \<or>
         (\<exists>es' cur'. sr_pending r' = Some cur' \<and> list_all entry_ok es' \<and> length es' < length es \<and> ss = group_entries (Some cur') es' \<and>
            sr_file r' = concat (map tar_block es') @ replicate (2 * kBlockSize) 0)))"
  using assms
proof (induction cur es rule: group_entries.induct)
  case (3 e es)
  then show ?case by (auto simp: shard_loop_step split: list.splits) (metis less_SucI)+
next
  case (4 s e es)
  show ?case
  proof (cases "key_of (fst e) = s_key s")
    case True
    then show ?thesis using 4 by (auto simp: shard_loop_step split: list.splits) (metis less_SucI)+
  next
    case False
    then show ?thesis using 4 by (auto simp: shard_loop_step split: list.splits)
  qed
qed (auto simp: shard_loop.simps [of "replicate _ _"] tar_next_end)

lemma read_samples_groups:
  assumes "list_all entry_ok es" "length es < fuel"
  shows "read_samples (Suc fuel) \<lparr>sr_file = concat (map tar_block es) @ replicate (2 * kBlockSize) 0, sr_pending = cur\<rparr> = group_entries cur es"
  using assms
proof (induction fuel arbitrary: es cur)
  case (Suc fuel)
  let ?f = "concat (map tar_block es) @ replicate (2 * kBlockSize) 0"
  obtain r' where r': "case group_entries cur es of [] \<Rightarrow> shard_loop ?f cur = (None, r')
    | s # ss \<Rightarrow> shard_loop ?f cur = (Some s, r') \<and>
        (sr_pending r' = None \<and> ss = [] \<and> sr_file r' = replicate kBlockSize 0 \<or>
         (\<exists>es' cur'. sr_pending r' = Some cur' \<and> list_all entry_ok es' \<and> length es' < length es \<and> ss = group_entries (Some cur') es' \<and>
            sr_file r' = concat (map tar_block es') @ replicate (2 * kBlockSize) 0))"
    using shard_next_groups [OF Suc.prems(1)] by blast
  show ?case
  proof (cases "group_entries cur es")
    case Nil
    then show ?thesis using r' by (simp add: shard_next_def)
  next
    case (Cons s ss)
    then have sl: "shard_loop ?f cur = (Some s, r')" using r' by simp
    have "read_samples (Suc fuel) r' = ss"
    proof (cases "sr_pending r' = None")
      case True
      then have "ss = []" "sr_file r' = replicate kBlockSize 0" using r' Cons by auto
      then show ?thesis using True by (simp add: shard_next_def shard_loop.simps [of "replicate _ _"] tar_next_end)
    next
      case False
      then obtain es' cur' where e: "sr_pending r' = Some cur'" "list_all entry_ok es'" "length es' < length es" "ss = group_entries (Some cur') es'"
          "sr_file r' = concat (map tar_block es') @ replicate (2 * kBlockSize) 0"
        using r' Cons by auto
      then have eq: "r' = \<lparr>sr_file = concat (map tar_block es') @ replicate (2 * kBlockSize) 0, sr_pending = Some cur'\<rparr>" by simp
      show ?thesis unfolding eq e(4) by (rule Suc.IH) (use e Suc.prems(2) in auto)
    qed
    then show ?thesis using sl Cons by (simp add: shard_next_def)
  qed
qed simp

text \<open>
  C30. A shard written entry by entry reads back as its samples: the reader returns, for any entries with names of
  at most 99 bytes without NUL and less than \<open>8^11\<close> bytes of data, exactly the maximal runs of entries with one
  key, in order, and then the end of the shard.
\<close>

theorem shard_roundtrip:
  assumes "list_all entry_ok es" and "length es < fuel"
  shows "read_samples (Suc fuel) \<lparr>sr_file = tar_write es, sr_pending = None\<rparr> = group_entries None es"
  using read_samples_groups [OF assms, of None] by (simp add: tar_write_blocks)

theorem shard_roundtrip_witness:
  "map s_key (read_samples 5 \<lparr>sr_file = tar_write [([97, 46, 106], [1, 2]), ([97, 46, 99], []), ([98, 46, 106], [3])], sr_pending = None\<rparr>) = [[97], [98]]"
proof -
  have "read_samples (Suc 4) \<lparr>sr_file = tar_write [([97, 46, 106], [1, 2]), ([97, 46, 99], []), ([98, 46, 106], [3])], sr_pending = None\<rparr> =
      group_entries None [([97, 46, 106], [1, 2]), ([97, 46, 99], []), ([98, 46, 106], [3])]"
    by (rule shard_roundtrip) (simp_all add: entry_ok_def)
  then show ?thesis by (simp add: numeral_eq_Suc new_sample_def add_file_def key_of_def ext_of_def dir_part_def base_part_def)
qed

end
