(* ===== verification/Data_Loader.thy ===== *)
theory Data_Loader
  imports Web_Dataset "HOL-Library.Multiset"
begin

text \<open>
  \<open>distributed_training/data_loading\<close>: the bounded blocking queue of \<open>prefetch_queue.h\<close> and the loader of
  \<open>data_loader.cpp\<close>, whose worker threads claim shards through an atomic cursor and push samples. Every queue
  operation holds the queue's mutex, so it is one step; \<open>None\<close> is a wait on a condition variable. The samples of a
  shard, what its reader returns before the end, are an argument: \<open>None\<close> for a shard that cannot be opened.
\<close>

section \<open>The prefetch queue\<close>

record 's prefetch_queue =
  pq_items :: "'s list"
  pq_capacity :: nat
  pq_closed :: bool

definition pq_new :: "nat \<Rightarrow> 's prefetch_queue" where
  "pq_new capacity = \<lparr>pq_items = [], pq_capacity = capacity, pq_closed = False\<rparr>"

definition pq_push :: "'s \<Rightarrow> 's prefetch_queue \<Rightarrow> 's prefetch_queue option" where
  "pq_push item q = (if length (pq_items q) < pq_capacity q then Some (q\<lparr>pq_items := pq_items q @ [item]\<rparr>) else None)"

definition pq_pop :: "'s prefetch_queue \<Rightarrow> ('s option \<times> 's prefetch_queue) option" where
  "pq_pop q = (case pq_items q of
      [] \<Rightarrow> if pq_closed q then Some (None, q) else None
    | item # rest \<Rightarrow> Some (Some item, q\<lparr>pq_items := rest\<rparr>))"

definition pq_close :: "'s prefetch_queue \<Rightarrow> 's prefetch_queue" where
  "pq_close q = q\<lparr>pq_closed := True\<rparr>"

definition pq_size :: "'s prefetch_queue \<Rightarrow> nat" where
  "pq_size q = length (pq_items q)"

section \<open>The loader\<close>

definition rank_shards :: "'p list \<Rightarrow> nat \<Rightarrow> nat \<Rightarrow> 'p list" where
  "rank_shards shard_paths world_size rank = map (\<lambda>i. shard_paths ! i) (filter (\<lambda>i. i mod world_size = rank) [0..<length shard_paths])"

datatype 's worker = WFetch | WRead "'s list" | WExit | WClose | WDone

record ('p, 's) loader =
  dl_shards :: "'p list"
  dl_next :: nat
  dl_active :: nat
  dl_queue :: "'s prefetch_queue"
  dl_pc :: "'s worker list"
  dl_out :: "'s list"
  dl_end :: bool

text \<open>Construction and \<open>start\<close>; \<open>dl_out\<close> records what \<open>next\<close> has returned and \<open>dl_end\<close> that it returned the end.\<close>

definition loader_start :: "'p list \<Rightarrow> nat \<Rightarrow> nat \<Rightarrow> nat \<Rightarrow> nat \<Rightarrow> ('p, 's) loader" where
  "loader_start shard_paths world_size rank num_workers queue_capacity =
    (let shards = rank_shards shard_paths world_size rank; q = pq_new queue_capacity in
     if shards = [] \<or> num_workers = 0
     then \<lparr>dl_shards = shards, dl_next = 0, dl_active = num_workers, dl_queue = pq_close q, dl_pc = [], dl_out = [], dl_end = False\<rparr>
     else \<lparr>dl_shards = shards, dl_next = 0, dl_active = num_workers, dl_queue = q, dl_pc = replicate num_workers WFetch, dl_out = [], dl_end = False\<rparr>)"

definition worker_step :: "('p \<Rightarrow> 's list option) \<Rightarrow> nat \<Rightarrow> ('p, 's) loader \<Rightarrow> ('p, 's) loader option" where
  "worker_step samples i l = (case dl_pc l ! i of
      WFetch \<Rightarrow> (let idx = dl_next l; l = l\<lparr>dl_next := dl_next l + 1\<rparr> in
        if length (dl_shards l) \<le> idx then Some (l\<lparr>dl_pc := (dl_pc l)[i := WExit]\<rparr>)
        else (case samples (dl_shards l ! idx) of None \<Rightarrow> Some l | Some ss \<Rightarrow> Some (l\<lparr>dl_pc := (dl_pc l)[i := WRead ss]\<rparr>)))
    | WRead [] \<Rightarrow> Some (l\<lparr>dl_pc := (dl_pc l)[i := WFetch]\<rparr>)
    | WRead (s # ss) \<Rightarrow> map_option (\<lambda>q. l\<lparr>dl_queue := q, dl_pc := (dl_pc l)[i := WRead ss]\<rparr>) (pq_push s (dl_queue l))
    | WExit \<Rightarrow> Some (l\<lparr>dl_active := dl_active l - 1, dl_pc := (dl_pc l)[i := if dl_active l = 1 then WClose else WDone]\<rparr>)
    | WClose \<Rightarrow> Some (l\<lparr>dl_queue := pq_close (dl_queue l), dl_pc := (dl_pc l)[i := WDone]\<rparr>)
    | WDone \<Rightarrow> None)"

definition loader_next :: "('p, 's) loader \<Rightarrow> ('p, 's) loader option" where
  "loader_next l = map_option (\<lambda>(item, q). case item of
      None \<Rightarrow> l\<lparr>dl_queue := q, dl_end := True\<rparr>
    | Some s \<Rightarrow> l\<lparr>dl_queue := q, dl_out := dl_out l @ [s]\<rparr>) (pq_pop (dl_queue l))"

inductive loader_reach :: "('p \<Rightarrow> 's list option) \<Rightarrow> ('p, 's) loader \<Rightarrow> ('p, 's) loader \<Rightarrow> bool" for samples l0 where
  lr_start: "loader_reach samples l0 l0"
| lr_worker: "loader_reach samples l0 l \<Longrightarrow> i < length (dl_pc l) \<Longrightarrow> worker_step samples i l = Some l' \<Longrightarrow> loader_reach samples l0 l'"
| lr_next: "loader_reach samples l0 l \<Longrightarrow> loader_next l = Some l' \<Longrightarrow> loader_reach samples l0 l'"

section \<open>Every sample once\<close>

definition shard_samples :: "('p \<Rightarrow> 's list option) \<Rightarrow> 'p list \<Rightarrow> 's multiset" where
  "shard_samples samples ps = mset (concat (map (\<lambda>p. case samples p of None \<Rightarrow> [] | Some ss \<Rightarrow> ss) ps))"

fun held :: "'s worker \<Rightarrow> 's list" where
  "held (WRead ss) = ss"
| "held _ = []"

fun working :: "'s worker \<Rightarrow> bool" where
  "working WClose = False"
| "working WDone = False"
| "working _ = True"

definition loader_inv :: "('p \<Rightarrow> 's list option) \<Rightarrow> ('p, 's) loader \<Rightarrow> bool" where
  "loader_inv samples l \<longleftrightarrow>
     mset (dl_out l) + mset (pq_items (dl_queue l)) + mset (concat (map held (dl_pc l))) + shard_samples samples (drop (dl_next l) (dl_shards l)) =
       shard_samples samples (dl_shards l) \<and>
     (dl_pc l \<noteq> [] \<longrightarrow> dl_active l = length (filter working (dl_pc l))) \<and>
     ((\<exists>pc \<in> set (dl_pc l). pc = WExit \<or> pc = WClose \<or> pc = WDone) \<longrightarrow> length (dl_shards l) \<le> dl_next l) \<and>
     (WClose \<in> set (dl_pc l) \<longrightarrow> dl_active l = 0) \<and>
     (pq_closed (dl_queue l) \<longrightarrow> filter working (dl_pc l) = [] \<and> length (dl_shards l) \<le> dl_next l) \<and>
     (dl_end l \<longrightarrow> pq_closed (dl_queue l) \<and> pq_items (dl_queue l) = []) \<and>
     length (pq_items (dl_queue l)) \<le> pq_capacity (dl_queue l)"

lemma mset_held_update:
  "i < length pcs \<Longrightarrow> mset (concat (map held (pcs[i := pc]))) + mset (held (pcs ! i)) = mset (concat (map held pcs)) + mset (held pc)"
proof (induction pcs arbitrary: i)
  case (Cons p pcs)
  show ?case
  proof (cases i)
    case (Suc k)
    then show ?thesis using Cons.IH [of k] Cons.prems by (simp add: add.assoc)
  qed (simp add: ac_simps)
qed simp

lemma working_update:
  "i < length pcs \<Longrightarrow> length (filter working (pcs[i := pc])) + (if working (pcs ! i) then 1 else 0) = length (filter working pcs) + (if working pc then 1 else 0)"
proof (induction pcs arbitrary: i)
  case (Cons p pcs)
  show ?case
  proof (cases i)
    case (Suc k)
    then show ?thesis using Cons.IH [of k] Cons.prems by simp
  qed simp
qed simp

lemma shard_samples_Cons: "shard_samples samples (p # ps) = mset (case samples p of None \<Rightarrow> [] | Some ss \<Rightarrow> ss) + shard_samples samples ps"
  by (simp add: shard_samples_def)

lemma loader_inv_start: "loader_inv samples (loader_start paths w r nw cap)" if "0 < nw"
  using that by (auto simp: loader_inv_def loader_start_def Let_def pq_new_def pq_close_def shard_samples_def)

lemma last_worker: "length (filter working pcs) = 0 \<Longrightarrow> pc \<in> set pcs \<Longrightarrow> \<not> working pc"
  by (simp add: filter_empty_conv)

lemma worker_step_inv:
  assumes inv: "loader_inv samples l" and i: "i < length (dl_pc l)" and st: "worker_step samples i l = Some l'"
  shows "loader_inv samples l'"
proof -
  note I = inv [unfolded loader_inv_def]
  note H = mset_held_update [OF i] and W = working_update [OF i]
  have S: "pc' \<in> set ((dl_pc l)[i := pc]) \<Longrightarrow> pc' = pc \<or> pc' \<in> set (dl_pc l)" for pc pc' using set_update_subset_insert by fastforce
  have mem: "dl_pc l ! i \<in> set (dl_pc l)" using i by simp
  show ?thesis
  proof (cases "dl_pc l ! i")
    case WFetch
    show ?thesis
    proof (cases "length (dl_shards l) \<le> dl_next l")
      case True
      then have l': "l' = l\<lparr>dl_next := dl_next l + 1, dl_pc := (dl_pc l)[i := WExit]\<rparr>" using st WFetch by (simp add: worker_step_def)
      show ?thesis unfolding l' loader_inv_def
        using I True H [of WExit] W [of WExit] WFetch by (auto dest!: S simp: shard_samples_def)
    next
      case False
      then have d: "drop (dl_next l) (dl_shards l) = dl_shards l ! dl_next l # drop (Suc (dl_next l)) (dl_shards l)" by (simp add: Cons_nth_drop_Suc)
      have nox: "WExit \<notin> set (dl_pc l)" "WClose \<notin> set (dl_pc l)" "WDone \<notin> set (dl_pc l)" "\<not> pq_closed (dl_queue l)" using I False by auto
      show ?thesis
      proof (cases "samples (dl_shards l ! dl_next l)")
        case None
        then have l': "l' = l\<lparr>dl_next := dl_next l + 1\<rparr>" using st WFetch False by (simp add: worker_step_def)
        show ?thesis unfolding l' loader_inv_def using I d None nox by (auto simp: shard_samples_Cons)
      next
        case (Some ss)
        then have l': "l' = l\<lparr>dl_next := dl_next l + 1, dl_pc := (dl_pc l)[i := WRead ss]\<rparr>" using st WFetch False by (simp add: worker_step_def)
        show ?thesis unfolding l' loader_inv_def using I d Some nox H [of "WRead ss"] W [of "WRead ss"] WFetch by (auto simp: shard_samples_Cons ac_simps dest!: S)
      qed
    qed
  next
    case (WRead ss)
    show ?thesis
    proof (cases ss)
      case Nil
      then have l': "l' = l\<lparr>dl_pc := (dl_pc l)[i := WFetch]\<rparr>" using st WRead by (simp add: worker_step_def)
      have act: "filter working (dl_pc l) \<noteq> []" using WRead mem last_worker [of "dl_pc l" "WRead ss"] by fastforce
      have wf: "\<exists>pc \<in> set ((dl_pc l)[i := WFetch]). pc = WExit \<or> pc = WClose \<or> pc = WDone \<Longrightarrow> \<exists>pc \<in> set (dl_pc l). pc = WExit \<or> pc = WClose \<or> pc = WDone"
          "WClose \<in> set ((dl_pc l)[i := WFetch]) \<Longrightarrow> WClose \<in> set (dl_pc l)" "\<not> pq_closed (dl_queue l)"
        using S [of _ WFetch] I act by blast+
      show ?thesis unfolding l' loader_inv_def using I Nil WRead H [of WFetch] W [of WFetch] wf by simp
    next
      case (Cons s ss')
      then have l': "l' = l\<lparr>dl_queue := (dl_queue l)\<lparr>pq_items := pq_items (dl_queue l) @ [s]\<rparr>, dl_pc := (dl_pc l)[i := WRead ss']\<rparr>"
          "length (pq_items (dl_queue l)) < pq_capacity (dl_queue l)"
        using st WRead by (auto simp: worker_step_def pq_push_def split: if_splits)
      have act: "filter working (dl_pc l) \<noteq> []" using WRead mem last_worker [of "dl_pc l" "WRead ss"] by fastforce
      have wf: "\<exists>pc \<in> set ((dl_pc l)[i := WRead ss']). pc = WExit \<or> pc = WClose \<or> pc = WDone \<Longrightarrow> \<exists>pc \<in> set (dl_pc l). pc = WExit \<or> pc = WClose \<or> pc = WDone"
          "WClose \<in> set ((dl_pc l)[i := WRead ss']) \<Longrightarrow> WClose \<in> set (dl_pc l)" "\<not> pq_closed (dl_queue l)"
        using S [of _ "WRead ss'"] I act by blast+
      have "\<not> dl_end l" using I wf(3) by blast
      moreover have "mset (concat (map held (dl_pc l))) = add_mset s (mset (concat (map held ((dl_pc l)[i := WRead ss']))))"
        using H [of "WRead ss'"] Cons WRead by simp
      ultimately show ?thesis unfolding l'(1) loader_inv_def using I Cons WRead W [of "WRead ss'"] l'(2) wf by simp
    qed
  next
    case WExit
    have act: "filter working (dl_pc l) \<noteq> []" "dl_active l = length (filter working (dl_pc l))"
      using I i WExit mem last_worker [of "dl_pc l" WExit] by fastforce+
    have l': "l' = l\<lparr>dl_active := dl_active l - 1, dl_pc := (dl_pc l)[i := if dl_active l = 1 then WClose else WDone]\<rparr>"
      using st WExit by (simp add: worker_step_def)
    have nx: "length (dl_shards l) \<le> dl_next l" using I WExit mem by auto
    show ?thesis unfolding l' loader_inv_def
      using I act nx WExit H [of "if dl_active l = 1 then WClose else WDone"] W [of "if dl_active l = 1 then WClose else WDone"]
      by (auto dest!: S split: if_splits)
  next
    case WClose
    have l': "l' = l\<lparr>dl_queue := (dl_queue l)\<lparr>pq_closed := True\<rparr>, dl_pc := (dl_pc l)[i := WDone]\<rparr>"
      using st WClose by (simp add: worker_step_def pq_close_def)
    have "dl_active l = 0" "length (dl_shards l) \<le> dl_next l" using I WClose mem by auto
    then show ?thesis unfolding l' loader_inv_def using I WClose H [of WDone] W [of WDone] by (auto dest!: S)
  next
    case WDone
    then show ?thesis using st by (simp add: worker_step_def)
  qed
qed

lemma loader_next_inv:
  assumes "loader_inv samples l" "loader_next l = Some l'"
  shows "loader_inv samples l'"
proof (cases "pq_items (dl_queue l)")
  case Nil
  then have "l' = l\<lparr>dl_queue := dl_queue l, dl_end := True\<rparr>" "pq_closed (dl_queue l)"
    using assms(2) by (auto simp: loader_next_def pq_pop_def split: if_splits)
  then show ?thesis using assms(1) Nil unfolding loader_inv_def by (simp del: drop_all)
next
  case (Cons s ss)
  then have "l' = l\<lparr>dl_queue := (dl_queue l)\<lparr>pq_items := ss\<rparr>, dl_out := dl_out l @ [s]\<rparr>"
    using assms(2) by (auto simp: loader_next_def pq_pop_def)
  then show ?thesis using assms(1) Cons unfolding loader_inv_def by simp
qed

lemma loader_reach_inv: "loader_reach samples l0 l \<Longrightarrow> loader_inv samples l0 \<Longrightarrow> loader_inv samples l \<and> dl_shards l = dl_shards l0"
proof (induction rule: loader_reach.induct)
  case (lr_worker l i l')
  have "dl_shards l' = dl_shards l" using lr_worker(3) by (auto simp: worker_step_def Let_def pq_push_def split: worker.splits list.splits if_splits option.splits)
  then show ?case using lr_worker worker_step_inv by auto
next
  case (lr_next l l')
  have "dl_shards l' = dl_shards l" using lr_next(2) by (auto simp: loader_next_def split: option.splits)
  then show ?case using lr_next loader_next_inv by auto
qed simp

lemma rank_shards_partition:
  assumes "0 < world_size"
  shows "(\<Sum>rank < world_size. mset (rank_shards shard_paths world_size rank)) = mset shard_paths"
proof -
  let ?n = "[0..<length shard_paths]"
  have "(\<Sum>rank < w. mset (map ((!) shard_paths) (filter (\<lambda>i. i mod world_size = rank) ks))) = mset (map ((!) shard_paths) (filter (\<lambda>i. i mod world_size < w) ks))" for w ks
  proof (induction w)
    case (Suc w)
    have "mset (filter (\<lambda>i. i mod world_size < Suc w) ks) = mset (filter (\<lambda>i. i mod world_size < w) ks) + mset (filter (\<lambda>i. i mod world_size = w) ks)"
      by (induction ks) (auto simp: less_Suc_eq)
    then show ?case using Suc by simp
  qed simp
  then show ?thesis using assms by (simp only: rank_shards_def) (simp add: map_nth del: mset_map mset_filter)
qed

text \<open>A schedule names at each step the worker that moves, or the consumer.\<close>

fun loader_run :: "('p \<Rightarrow> 's list option) \<Rightarrow> nat option list \<Rightarrow> ('p, 's) loader \<Rightarrow> ('p, 's) loader option" where
  "loader_run samples [] l = Some l"
| "loader_run samples (None # sched) l = Option.bind (loader_next l) (loader_run samples sched)"
| "loader_run samples (Some i # sched) l = (if i < length (dl_pc l) then Option.bind (worker_step samples i l) (loader_run samples sched) else None)"

lemma loader_run_reach: "loader_run samples sched l = Some l' \<Longrightarrow> loader_reach samples l0 l \<Longrightarrow> loader_reach samples l0 l'"
  by (induction samples sched l rule: loader_run.induct) (auto simp: bind_eq_Some_conv split: if_splits intro: loader_reach.intros)

text \<open>
  C31. The loader delivers every sample exactly once. For any interleaving of the workers and the consumer, the prefetch
  queue never holds more than its capacity, and once \<open>next\<close> has reported the end, what it returned before is, as a
  multiset, exactly the samples of the rank's readable shards: none lost, none duplicated, whatever the order in which
  workers claim shards, fill the queue and close it.
\<close>

theorem loader_delivers_all:
  assumes "0 < num_workers"
      and "loader_reach samples (loader_start shard_paths world_size rank num_workers queue_capacity) l"
  shows "pq_size (dl_queue l) \<le> pq_capacity (dl_queue l) \<and>
    (dl_end l \<longrightarrow> mset (dl_out l) = shard_samples samples (rank_shards shard_paths world_size rank))"
proof (intro conjI impI)
  have "dl_shards (loader_start shard_paths world_size rank num_workers queue_capacity) = rank_shards shard_paths world_size rank"
    by (simp add: loader_start_def Let_def)
  then have inv: "loader_inv samples l" and sh: "dl_shards l = rank_shards shard_paths world_size rank"
    using loader_reach_inv [OF assms(2) loader_inv_start [OF assms(1)]] by auto
  show "pq_size (dl_queue l) \<le> pq_capacity (dl_queue l)" using inv by (simp add: loader_inv_def pq_size_def)
  assume "dl_end l"
  then have e: "filter working (dl_pc l) = []" "length (dl_shards l) \<le> dl_next l" "pq_items (dl_queue l) = []" using inv unfolding loader_inv_def by blast+
  have "\<forall>pc \<in> set (dl_pc l). held pc = []"
  proof
    fix pc
    assume "pc \<in> set (dl_pc l)"
    then have idle: "\<not> working pc" using e(1) by (simp add: filter_empty_conv)
    show "held pc = []" using idle by (induction pc) simp_all
  qed
  then have none: "mset (concat (map held (dl_pc l))) = {#}" by simp
  have "mset (dl_out l) + mset (pq_items (dl_queue l)) + mset (concat (map held (dl_pc l))) + shard_samples samples (drop (dl_next l) (dl_shards l)) =
      shard_samples samples (dl_shards l)" using inv unfolding loader_inv_def by blast
  then show "mset (dl_out l) = shard_samples samples (rank_shards shard_paths world_size rank)"
    unfolding none using e(2,3) sh by (simp add: shard_samples_def)
qed

lemma no_workers_no_samples:
  "Option.bind (Some (loader_start shard_paths world_size rank 0 queue_capacity)) loader_next =
     Some ((loader_start shard_paths world_size rank 0 queue_capacity)\<lparr>dl_end := True\<rparr>)"
  by (simp add: loader_start_def loader_next_def pq_pop_def pq_close_def pq_new_def Let_def)

definition example_samples :: "nat \<Rightarrow> nat list option" where
  "example_samples p = (if p = 4 then None else Some [10 * p, 10 * p + 1])"

definition example_schedule :: "nat option list" where
  "example_schedule = map Some [0, 1, 0, 1] @ [None, None] @ map Some [0, 1, 0, 1, 0, 1] @ [None] @ map Some [1, 0, 0, 0] @ [None, None]"

definition example_end :: "(nat, nat) loader" where
  "example_end = the (loader_run example_samples example_schedule (loader_start [0, 1, 2, 3, 4, 5] 2 0 2 2))"

lemma example_end_run: "loader_run example_samples example_schedule (loader_start [0, 1, 2, 3, 4, 5] 2 0 2 2) = Some example_end"
  unfolding example_end_def by code_simp

theorem loader_delivers_all_witness:
  "dl_end example_end \<and> mset (dl_out example_end) = shard_samples example_samples (rank_shards [0, 1, 2, 3, 4, 5] 2 0)"
proof -
  have "dl_end example_end" by code_simp
  then show ?thesis using loader_delivers_all [OF _ loader_run_reach [OF example_end_run lr_start]] by simp
qed

end
