(* ===== verification/Vector_Clock.thy ===== *)
theory Vector_Clock
  imports Prelude
begin

text \<open>
  \<open>networking/vector_clocks\<close>: Lamport timestamps and vector clocks, with 64-bit counters that wrap. Clocks are driven by
  an arbitrary trace of local events and message deliveries; the theorem is the one clients of the component rely on,
  that \<open>compare\<close> on two captured clocks decides happened-before between the events they were captured at.
\<close>

section \<open>The clocks\<close>

record lamport_clock =
  lc_counter :: "64 word"

definition lamport_new :: lamport_clock where
  "lamport_new = \<lparr>lc_counter = 0\<rparr>"

definition lamport_tick :: "lamport_clock \<Rightarrow> 64 word \<times> lamport_clock" where
  "lamport_tick c = (let v = lc_counter c + 1 in (v, c\<lparr>lc_counter := v\<rparr>))"

definition lamport_onReceive :: "64 word \<Rightarrow> lamport_clock \<Rightarrow> 64 word \<times> lamport_clock" where
  "lamport_onReceive receivedTimestamp c = (let v = max (lc_counter c) receivedTimestamp + 1 in (v, c\<lparr>lc_counter := v\<rparr>))"

datatype order = Before | After | Concurrent | Equal

record vector_clock =
  vc_process :: nat
  vc_clock :: "64 word list"

definition vc_new :: "nat \<Rightarrow> nat \<Rightarrow> vector_clock" where
  "vc_new process_id num_processes = \<lparr>vc_process = process_id, vc_clock = replicate num_processes 0\<rparr>"

definition vc_tick :: "vector_clock \<Rightarrow> vector_clock" where
  "vc_tick c = c\<lparr>vc_clock := (vc_clock c)[vc_process c := vc_clock c ! vc_process c + 1]\<rparr>"

definition vc_onReceive :: "64 word list \<Rightarrow> vector_clock \<Rightarrow> vector_clock" where
  "vc_onReceive received c = vc_tick (c\<lparr>vc_clock := map (\<lambda>i. max (vc_clock c ! i) (received ! i)) [0..<length (vc_clock c)]\<rparr>)"

fun compare_loop :: "64 word list \<Rightarrow> 64 word list \<Rightarrow> bool \<times> bool \<Rightarrow> bool \<times> bool" where
  "compare_loop (x # a) (y # b) (aLessEq, bLessEq) = compare_loop a b (if x > y then False else aLessEq, if y > x then False else bLessEq)"
| "compare_loop _ _ r = r"

definition vc_compare :: "64 word list \<Rightarrow> 64 word list \<Rightarrow> order" where
  "vc_compare a b = (let (aLessEq, bLessEq) = compare_loop a b (True, True) in
     if aLessEq \<and> bLessEq then Equal else if aLessEq then Before else if bLessEq then After else Concurrent)"

section \<open>Traces\<close>

text \<open>\<open>Deliver p s\<close>: process \<open>p\<close> receives a message that carries the clock captured at event \<open>s\<close>.\<close>

datatype event = Tick nat | Deliver nat nat

fun proc :: "event \<Rightarrow> nat" where
  "proc (Tick p) = p"
| "proc (Deliver p s) = p"

definition valid :: "nat \<Rightarrow> event list \<Rightarrow> bool" where
  "valid n evs \<longleftrightarrow> (\<forall>j < length evs. proc (evs ! j) < n \<and> (\<forall>p s. evs ! j = Deliver p s \<longrightarrow> s < j))"

fun vc_step :: "vector_clock list \<times> 64 word list list \<Rightarrow> event \<Rightarrow> vector_clock list \<times> 64 word list list" where
  "vc_step (cs, hist) (Tick p) = (let c = vc_tick (cs ! p) in (cs[p := c], hist @ [vc_clock c]))"
| "vc_step (cs, hist) (Deliver p s) = (let c = vc_onReceive (hist ! s) (cs ! p) in (cs[p := c], hist @ [vc_clock c]))"

definition vc_run :: "nat \<Rightarrow> event list \<Rightarrow> vector_clock list \<times> 64 word list list" where
  "vc_run n evs = foldl vc_step (map (\<lambda>p. vc_new p n) [0..<n], []) evs"

definition captured :: "nat \<Rightarrow> event list \<Rightarrow> nat \<Rightarrow> 64 word list" where
  "captured n evs j = snd (vc_run n evs) ! j"

text \<open>Lamport's relation: program order, message order and their transitive closure.\<close>

definition direct :: "event list \<Rightarrow> nat \<Rightarrow> nat \<Rightarrow> bool" where
  "direct evs i j \<longleftrightarrow> i < j \<and> j < length evs \<and> (proc (evs ! i) = proc (evs ! j) \<or> (\<exists>p. evs ! j = Deliver p i))"

definition happened_before :: "event list \<Rightarrow> nat \<Rightarrow> nat \<Rightarrow> bool" where
  "happened_before evs = (direct evs)\<^sup>+\<^sup>+"

definition past :: "event list \<Rightarrow> nat \<Rightarrow> nat set" where
  "past evs j = {i. (direct evs)\<^sup>*\<^sup>* i j}"

section \<open>Causal pasts\<close>

lemma direct_less: "(direct evs)\<^sup>*\<^sup>* i j \<Longrightarrow> i \<le> j"
  by (induction rule: rtranclp_induct) (auto simp: direct_def)

lemma past_finite [simp]: "finite (past evs j)"
  by (rule finite_subset [of _ "{..j}"]) (auto simp: past_def dest: direct_less)

lemma direct_snoc: "j < length evs \<Longrightarrow> direct (evs @ [e]) i j \<longleftrightarrow> direct evs i j"
  by (auto simp: direct_def nth_append)

lemma past_snoc: "past (evs @ [e]) j = past evs j" if "j < length evs"
proof -
  have "(direct (evs @ [e]))\<^sup>*\<^sup>* i j \<longleftrightarrow> (direct evs)\<^sup>*\<^sup>* i j" for i
  proof
    assume "(direct (evs @ [e]))\<^sup>*\<^sup>* i j"
    then show "(direct evs)\<^sup>*\<^sup>* i j" using that
    proof (induction rule: converse_rtranclp_induct)
      case (step x y)
      then show ?case using direct_snoc direct_less by (metis converse_rtranclp_into_rtranclp le_less_trans)
    qed simp
  next
    assume "(direct evs)\<^sup>*\<^sup>* i j"
    then show "(direct (evs @ [e]))\<^sup>*\<^sup>* i j"
      by (rule rtranclp_mono [THEN predicate2D, rotated]) (auto simp: direct_def nth_append)
  qed
  then show ?thesis by (simp add: past_def)
qed

text \<open>The past of a process: what happened before any of its events.\<close>

definition ppast :: "event list \<Rightarrow> nat \<Rightarrow> nat set" where
  "ppast evs p = (\<Union>k \<in> {k. k < length evs \<and> proc (evs ! k) = p}. past evs k)"

lemma ppast_finite [simp]: "finite (ppast evs p)"
  by (simp add: ppast_def)

lemma past_new:
  "past (evs @ [e]) (length evs) = insert (length evs) (ppast evs (proc e) \<union> (case e of Deliver p s \<Rightarrow> if s < length evs then past evs s else {} | _ \<Rightarrow> {}))"
  (is "_ = insert ?m ?R")
proof -
  have d: "direct (evs @ [e]) k ?m \<longleftrightarrow> k < ?m \<and> (proc (evs ! k) = proc e \<or> (\<exists>p. e = Deliver p k))" for k
    by (auto simp: direct_def nth_append)
  have "(direct (evs @ [e]))\<^sup>*\<^sup>* i ?m \<longleftrightarrow> i = ?m \<or> (\<exists>k. i \<in> past (evs @ [e]) k \<and> direct (evs @ [e]) k ?m)" for i
    unfolding past_def by (auto elim: rtranclp.cases intro: rtranclp.rtrancl_into_rtrancl)
  then have "past (evs @ [e]) ?m = insert ?m (\<Union>k \<in> {k. k < ?m \<and> (proc (evs ! k) = proc e \<or> (\<exists>p. e = Deliver p k))}. past evs k)"
    unfolding past_def [of _ "?m"] using past_snoc by (auto simp: d)
  also have "(\<Union>k \<in> {k. k < ?m \<and> (proc (evs ! k) = proc e \<or> (\<exists>p. e = Deliver p k))}. past evs k) = ?R"
    by (cases e) (auto simp: ppast_def)
  finally show ?thesis .
qed

text \<open>The events of one process in a past are an initial segment of that process.\<close>

definition initial :: "event list \<Rightarrow> nat \<Rightarrow> nat set \<Rightarrow> bool" where
  "initial evs q S \<longleftrightarrow> S \<subseteq> {i. i < length evs \<and> proc (evs ! i) = q} \<and> (\<forall>i \<in> S. \<forall>k \<le> i. proc (evs ! k) = q \<longrightarrow> k \<in> S)"

definition part :: "event list \<Rightarrow> nat \<Rightarrow> nat set \<Rightarrow> nat set" where
  "part evs q S = {i \<in> S. proc (evs ! i) = q}"

lemma initialD: "initial evs q S \<Longrightarrow> i \<in> S \<Longrightarrow> k \<le> i \<Longrightarrow> proc (evs ! k) = q \<Longrightarrow> k \<in> S"
  unfolding initial_def by blast

lemma initial_proc: "initial evs q S \<Longrightarrow> i \<in> S \<Longrightarrow> proc (evs ! i) = q"
  unfolding initial_def by blast

lemma initial_linear:
  assumes "initial evs q A" "initial evs q B"
  shows "A \<subseteq> B \<or> B \<subseteq> A"
proof (rule ccontr)
  assume "\<not> ?thesis"
  then obtain a b where ab: "a \<in> A" "a \<notin> B" "b \<in> B" "b \<notin> A" by auto
  show False
  proof (cases "a \<le> b")
    case True
    then show False using ab initialD [OF assms(2), of b a] initial_proc [OF assms(1), of a] by simp
  next
    case False
    then show False using ab initialD [OF assms(1), of a b] initial_proc [OF assms(2), of b] by simp
  qed
qed

lemma initial_card:
  assumes "initial evs q A" "initial evs q B"
  shows "card A \<le> card B \<longleftrightarrow> A \<subseteq> B" "card (A \<union> B) = max (card A) (card B)"
proof -
  have fin: "finite A" "finite B" using assms by (auto simp: initial_def intro: finite_subset [of _ "{..<length evs}"])
  show "card A \<le> card B \<longleftrightarrow> A \<subseteq> B"
    using initial_linear [OF assms] fin by (metis card_mono card_seteq)
  show "card (A \<union> B) = max (card A) (card B)"
    using initial_linear [OF assms] fin by (metis Un_absorb1 Un_absorb2 card_mono max.absorb1 max.absorb2)
qed

lemma initial_past: "j < length evs \<Longrightarrow> initial evs q (part evs q (past evs j))"
proof -
  assume j: "j < length evs"
  have "k \<in> past evs j" if "i \<in> past evs j" "k \<le> i" "proc (evs ! k) = proc (evs ! i)" for i k
  proof (cases "k = i")
    case False
    have "i < length evs" using direct_less j that(1) by (fastforce simp: past_def)
    then have "direct evs k i" using False that by (simp add: direct_def)
    then show ?thesis using that(1) by (simp add: past_def converse_rtranclp_into_rtranclp)
  qed (use that in simp)
  moreover have "i < length evs" if "i \<in> past evs j" for i using direct_less [of evs i j] j that by (simp add: past_def)
  ultimately show ?thesis unfolding initial_def part_def by auto
qed

lemma initial_Union: "(\<And>S. S \<in> X \<Longrightarrow> initial evs q (part evs q S)) \<Longrightarrow> initial evs q (part evs q (\<Union>X))"
  unfolding initial_def part_def by fast

lemma initial_ppast: "initial evs q (part evs q (ppast evs p))"
  unfolding ppast_def by (rule initial_Union) (auto intro: initial_past)

lemma part_snoc: "S \<subseteq> {..<length evs} \<Longrightarrow> part (evs @ [e]) q S = part evs q S"
  by (auto simp: part_def nth_append)

lemma past_bound: "j < length evs \<Longrightarrow> past evs j \<subseteq> {..<length evs}"
  using direct_less by (fastforce simp: past_def)

lemma ppast_bound: "ppast evs p \<subseteq> {..<length evs}"
  unfolding ppast_def using past_bound by fastforce

lemma ppast_new: "ppast (evs @ [e]) p = (if p = proc e then past (evs @ [e]) (length evs) else ppast evs p)"
proof -
  have ks: "{k. k < length (evs @ [e]) \<and> proc ((evs @ [e]) ! k) = p} =
      {k. k < length evs \<and> proc (evs ! k) = p} \<union> (if p = proc e then {length evs} else {})"
    by (auto simp: less_Suc_eq nth_append)
  have "ppast (evs @ [e]) p = ppast evs p \<union> (if p = proc e then past (evs @ [e]) (length evs) else {})"
    unfolding ppast_def ks by (simp add: past_snoc)
  then show ?thesis using past_new [of evs e] by (simp split: event.split)
qed

lemma card_part_less: "S \<subseteq> {..<m} \<Longrightarrow> card (part evs q S) \<le> m"
  using card_mono [of "{..<m}" "part evs q S"] by (auto simp: part_def)

text \<open>What a clock counts.\<close>

definition vec :: "nat \<Rightarrow> event list \<Rightarrow> nat set \<Rightarrow> 64 word list" where
  "vec n evs S = map (\<lambda>q. word_of_nat (card (part evs q S))) [0..<n]"

lemma length_vec [simp]: "length (vec n evs S) = n"
  by (simp add: vec_def)

lemma nth_vec [simp]: "q < n \<Longrightarrow> vec n evs S ! q = word_of_nat (card (part evs q S))"
  by (simp add: vec_def)

lemma word_of_nat_le: "a < 2 ^ 64 \<Longrightarrow> b < 2 ^ 64 \<Longrightarrow> (word_of_nat a :: 64 word) \<le> word_of_nat b \<longleftrightarrow> a \<le> b"
  by (simp add: word_of_nat_less_eq_iff take_bit_nat_eq_self)

lemma word_of_nat_max: "a < 2 ^ 64 \<Longrightarrow> b < 2 ^ 64 \<Longrightarrow> max (word_of_nat a :: 64 word) (word_of_nat b) = word_of_nat (max a b)"
  by (simp add: max_def word_of_nat_le)

lemma vec_tick:
  assumes "proc e < n" "S \<subseteq> {..<length evs}"
  shows "(vec n evs S)[proc e := vec n evs S ! proc e + 1] = vec n (evs @ [e]) (insert (length evs) S)"
proof (rule nth_equalityI)
  fix q
  assume "q < length ((vec n evs S)[proc e := vec n evs S ! proc e + 1])"
  then have q: "q < n" by simp
  have "part (evs @ [e]) q (insert (length evs) S) = (if q = proc e then insert (length evs) (part evs q S) else part evs q S)"
    using assms(2) by (auto simp: part_def nth_append)
  moreover have "length evs \<notin> part evs q S" "finite (part evs q S)" using assms(2) finite_subset [of S "{..<length evs}"] by (auto simp: part_def)
  ultimately show "(vec n evs S)[proc e := vec n evs S ! proc e + 1] ! q = vec n (evs @ [e]) (insert (length evs) S) ! q"
    using q assms(1) by (simp add: nth_list_update add.commute)
qed simp

lemma vec_join:
  assumes "length evs < 2 ^ 64" "s < length evs"
  shows "map (\<lambda>i. max (vec n evs (ppast evs p) ! i) (vec n evs (past evs s) ! i)) [0..<n] = vec n evs (ppast evs p \<union> past evs s)"
proof (rule nth_equalityI)
  fix q
  assume "q < length (map (\<lambda>i. max (vec n evs (ppast evs p) ! i) (vec n evs (past evs s) ! i)) [0..<n])"
  then have q: "q < n" by simp
  have "part evs q (ppast evs p \<union> past evs s) = part evs q (ppast evs p) \<union> part evs q (past evs s)" by (auto simp: part_def)
  then have "card (part evs q (ppast evs p \<union> past evs s)) = max (card (part evs q (ppast evs p))) (card (part evs q (past evs s)))"
    using initial_card(2) [OF initial_ppast initial_past [OF assms(2)]] by simp
  moreover have "card (part evs q (ppast evs p)) < 2 ^ 64" "card (part evs q (past evs s)) < 2 ^ 64"
    using card_part_less [OF ppast_bound] card_part_less [OF past_bound] assms le_less_trans by blast+
  ultimately show "map (\<lambda>i. max (vec n evs (ppast evs p) ! i) (vec n evs (past evs s) ! i)) [0..<n] ! q = vec n evs (ppast evs p \<union> past evs s) ! q"
    using q word_of_nat_max by simp
qed simp

definition run_inv :: "nat \<Rightarrow> event list \<Rightarrow> vector_clock list \<times> 64 word list list \<Rightarrow> bool" where
  "run_inv n evs r \<longleftrightarrow> fst r = map (\<lambda>p. \<lparr>vc_process = p, vc_clock = vec n evs (ppast evs p)\<rparr>) [0..<n] \<and>
     snd r = map (\<lambda>j. vec n evs (past evs j)) [0..<length evs]"

lemma run_inv_step:
  assumes inv: "run_inv n evs r" and p: "proc e < n" and s: "\<And>p s. e = Deliver p s \<Longrightarrow> s < length evs" and len: "length evs < 2 ^ 64"
  shows "run_inv n (evs @ [e]) (vc_step r e)"
proof -
  let ?m = "length evs" and ?c = "vec n (evs @ [e]) (past (evs @ [e]) (length evs))"
  obtain cs hist where r: "r = (cs, hist)" by (cases r)
  have cs: "cs = map (\<lambda>p. \<lparr>vc_process = p, vc_clock = vec n evs (ppast evs p)\<rparr>) [0..<n]"
    and hist: "hist = map (\<lambda>j. vec n evs (past evs j)) [0..<?m]" using inv by (simp_all add: run_inv_def r)
  have new: "vc_step r e = (cs[proc e := \<lparr>vc_process = proc e, vc_clock = ?c\<rparr>], hist @ [?c])"
  proof (cases e)
    case (Tick q)
    then show ?thesis using p vec_tick [OF p ppast_bound, of evs "proc e"] past_new [of evs e]
      by (simp add: r cs Let_def vc_tick_def)
  next
    case (Deliver q t)
    have "ppast evs q \<union> past evs t \<subseteq> {..<?m}" using ppast_bound past_bound s Deliver by blast
    then show ?thesis using p s [OF Deliver] vec_tick [OF p, of "ppast evs q \<union> past evs t" evs] vec_join [OF len s [OF Deliver]] past_new [of evs e] Deliver
      by (simp add: r cs hist Let_def vc_tick_def vc_onReceive_def)
  qed
  have "cs[proc e := \<lparr>vc_process = proc e, vc_clock = ?c\<rparr>] = map (\<lambda>p. \<lparr>vc_process = p, vc_clock = vec n (evs @ [e]) (ppast (evs @ [e]) p)\<rparr>) [0..<n]"
    by (rule nth_equalityI) (auto simp: cs nth_list_update ppast_new vec_def part_snoc [OF ppast_bound])
  moreover have "hist @ [?c] = map (\<lambda>j. vec n (evs @ [e]) (past (evs @ [e]) j)) [0..<length (evs @ [e])]"
    by (rule nth_equalityI) (auto simp: hist nth_append past_snoc vec_def part_snoc [OF past_bound] less_Suc_eq)
  ultimately show ?thesis by (simp add: run_inv_def new)
qed

lemma vc_run_inv: "valid n evs \<Longrightarrow> length evs < 2 ^ 64 \<Longrightarrow> run_inv n evs (vc_run n evs)"
proof (induction evs rule: rev_induct)
  case Nil
  have "vec n [] (ppast [] p) = replicate n 0" for p by (rule nth_equalityI) (auto simp: ppast_def part_def)
  then show ?case by (simp add: run_inv_def vc_run_def vc_new_def)
next
  case (snoc e evs)
  have "valid n evs" using snoc.prems(1) unfolding valid_def by (metis length_append_singleton less_SucI nth_append)
  moreover have "proc e < n" "\<And>p s. e = Deliver p s \<Longrightarrow> s < length evs" using snoc.prems(1) unfolding valid_def by (metis length_append_singleton lessI nth_append_length)+
  ultimately show ?case using snoc run_inv_step [of n evs "vc_run n evs" e] by (simp add: vc_run_def)
qed

section \<open>Comparison\<close>

lemma compare_loop_iff:
  "length a = length b \<Longrightarrow> compare_loop a b (x, y) = (x \<and> list_all2 (\<le>) a b, y \<and> list_all2 (\<le>) b a)"
  by (induction a b "(x, y)" arbitrary: x y rule: compare_loop.induct) auto

lemma captured_le_iff:
  assumes v: "valid n evs" and len: "length evs < 2 ^ 64" and i: "i < length evs" and j: "j < length evs"
  shows "list_all2 (\<le>) (captured n evs i) (captured n evs j) \<longleftrightarrow> i \<in> past evs j"
proof -
  have cap: "captured n evs k = vec n evs (past evs k)" if "k < length evs" for k
    using vc_run_inv [OF v len] that by (simp add: captured_def run_inv_def)
  have small: "card (part evs q (past evs k)) < 2 ^ 64" if "k < length evs" for q k
    using card_part_less [OF past_bound [OF that]] len le_less_trans by blast
  have "list_all2 (\<le>) (captured n evs i) (captured n evs j) \<longleftrightarrow> (\<forall>q < n. card (part evs q (past evs i)) \<le> card (part evs q (past evs j)))"
    by (simp add: cap [OF i] cap [OF j] list_all2_conv_all_nth word_of_nat_le [OF small [OF i] small [OF j]])
  also have "\<dots> \<longleftrightarrow> (\<forall>q < n. part evs q (past evs i) \<subseteq> part evs q (past evs j))"
    using initial_card(1) [OF initial_past [OF i] initial_past [OF j]] by simp
  also have "\<dots> \<longleftrightarrow> i \<in> past evs j"
  proof
    assume "\<forall>q < n. part evs q (past evs i) \<subseteq> part evs q (past evs j)"
    moreover have "proc (evs ! i) < n" "i \<in> part evs (proc (evs ! i)) (past evs i)" using v i by (auto simp: valid_def part_def past_def)
    ultimately show "i \<in> past evs j" by (auto simp: part_def)
  next
    assume "i \<in> past evs j"
    then have "past evs i \<subseteq> past evs j" unfolding past_def by (auto intro: rtranclp_trans)
    then show "\<forall>q < n. part evs q (past evs i) \<subseteq> part evs q (past evs j)" by (auto simp: part_def)
  qed
  finally show ?thesis .
qed

lemma past_cases: "i \<in> past evs j \<longleftrightarrow> i = j \<or> happened_before evs i j"
  unfolding past_def happened_before_def by (metis rtranclpD rtranclp.rtrancl_refl tranclp_into_rtranclp mem_Collect_eq)

lemma happened_before_less: "happened_before evs i j \<Longrightarrow> i < j"
  unfolding happened_before_def by (induction rule: tranclp_induct) (auto simp: direct_def)

text \<open>
  C32. \<open>VectorClock::compare\<close> decides causality. For every trace of local events and message deliveries, fewer than
  \<open>2 ^ 64\<close> of them so that no counter wraps, comparing the clocks captured at two events gives \<open>Before\<close> exactly when
  the first happened before the second, \<open>After\<close> exactly when it happened after, \<open>Equal\<close> only for the same event and
  \<open>Concurrent\<close> exactly when neither happened before the other.
\<close>

theorem compare_decides_causality:
  assumes "valid n evs" and "length evs < 2 ^ 64" and "i < length evs" and "j < length evs"
  shows "vc_compare (captured n evs i) (captured n evs j) =
    (if i = j then Equal else if happened_before evs i j then Before else if happened_before evs j i then After else Concurrent)"
proof -
  have "length (captured n evs i) = length (captured n evs j)"
    using vc_run_inv [OF assms(1,2)] assms(3,4) by (simp add: captured_def run_inv_def)
  then show ?thesis
    using captured_le_iff [OF assms(1,2,3,4)] captured_le_iff [OF assms(1,2,4,3)] happened_before_less [of evs i j] happened_before_less [of evs j i]
    by (auto simp: vc_compare_def compare_loop_iff past_cases)
qed

definition example_trace :: "event list" where
  "example_trace = [Tick 0, Tick 1, Deliver 1 0, Tick 0]"

theorem compare_decides_causality_witness:
  "vc_compare (captured 2 example_trace 0) (captured 2 example_trace 2) = Before \<and>
   vc_compare (captured 2 example_trace 1) (captured 2 example_trace 3) = Concurrent \<and> \<not> happened_before example_trace 1 3"
proof -
  have v: "valid 2 example_trace" unfolding valid_def example_trace_def by (auto simp: less_Suc_eq nth_Cons')
  have l: "length example_trace = 4" by (simp add: example_trace_def)
  have hb: "happened_before example_trace 0 2" unfolding happened_before_def
    by (rule tranclp.r_into_trancl) (simp add: direct_def example_trace_def)
  have c: "vc_compare (captured 2 example_trace 1) (captured 2 example_trace 3) = Concurrent" by code_simp
  show ?thesis using compare_decides_causality [OF v, of 0 2] compare_decides_causality [OF v, of 1 3] hb c by (simp add: l split: if_splits)
qed

end
