(* ===== verification/Fair_Scheduler.thy ===== *)
theory Fair_Scheduler
  imports Prelude
begin

text \<open>
  \<open>networking/multitenancy\<close>: the fair scheduler. Tenants are registered with a priority, a weight and a quota; tasks are
  queued up to the quota and \<open>run\<close> drains the queues by priority class, weighted round robin within a class. Running a
  task is recording it, with its tenant, in \<open>fs_ran\<close>. The draining loop of a class is a partial function: \<open>None\<close> means
  that it does not end.
\<close>

section \<open>The scheduler\<close>

record tenant_config =
  tc_priority :: int
  tc_weight :: int
  tc_quota :: nat

record tenant_stats =
  ts_submitted :: nat
  ts_rejected :: nat
  ts_completed :: nat

record 't tenant_queue =
  tq_config :: tenant_config
  tq_tasks :: "'t list"
  tq_stats :: tenant_stats

record 't fair_scheduler =
  fs_tenants :: "string \<rightharpoonup> 't tenant_queue"
  fs_order :: "string list"
  fs_ran :: "(string \<times> 't) list"

definition zero_stats :: tenant_stats where
  "zero_stats = \<lparr>ts_submitted = 0, ts_rejected = 0, ts_completed = 0\<rparr>"

definition fs_new :: "'t fair_scheduler" where
  "fs_new = \<lparr>fs_tenants = Map.empty, fs_order = [], fs_ran = []\<rparr>"

definition registerTenant :: "string \<Rightarrow> tenant_config \<Rightarrow> 't fair_scheduler \<Rightarrow> 't fair_scheduler" where
  "registerTenant name config s = s\<lparr>fs_tenants := (fs_tenants s)(name \<mapsto> \<lparr>tq_config = config, tq_tasks = [], tq_stats = zero_stats\<rparr>),
     fs_order := fs_order s @ [name]\<rparr>"

text \<open>\<open>None\<close> is the exception of \<open>at\<close> for an unknown tenant.\<close>

definition fs_submit :: "string \<Rightarrow> 't \<Rightarrow> 't fair_scheduler \<Rightarrow> (bool \<times> 't fair_scheduler) option" where
  "fs_submit tenant task s = (case fs_tenants s tenant of
      None \<Rightarrow> None
    | Some tq \<Rightarrow> if tc_quota (tq_config tq) \<le> length (tq_tasks tq)
        then Some (False, s\<lparr>fs_tenants := (fs_tenants s)(tenant \<mapsto> tq\<lparr>tq_stats := (tq_stats tq)\<lparr>ts_rejected := ts_rejected (tq_stats tq) + 1\<rparr>\<rparr>)\<rparr>)
        else Some (True, s\<lparr>fs_tenants := (fs_tenants s)(tenant \<mapsto>
          tq\<lparr>tq_tasks := tq_tasks tq @ [task], tq_stats := (tq_stats tq)\<lparr>ts_submitted := ts_submitted (tq_stats tq) + 1\<rparr>\<rparr>)\<rparr>))"

definition statsFor :: "string \<Rightarrow> 't fair_scheduler \<Rightarrow> tenant_stats option" where
  "statsFor tenant s = map_option tq_stats (fs_tenants s tenant)"

text \<open>\<open>tenants_[name]\<close>, a value-initialised queue for a name that is not there.\<close>

definition tenant :: "'t fair_scheduler \<Rightarrow> string \<Rightarrow> 't tenant_queue" where
  "tenant s name = (case fs_tenants s name of
      None \<Rightarrow> \<lparr>tq_config = \<lparr>tc_priority = 0, tc_weight = 0, tc_quota = 0\<rparr>, tq_tasks = [], tq_stats = zero_stats\<rparr> | Some tq \<Rightarrow> tq)"

abbreviation queued :: "'t fair_scheduler \<Rightarrow> string \<Rightarrow> 't list" where
  "queued s name \<equiv> tq_tasks (tenant s name)"

abbreviation priority :: "'t fair_scheduler \<Rightarrow> string \<Rightarrow> int" where
  "priority s name \<equiv> tc_priority (tq_config (tenant s name))"

abbreviation weight :: "'t fair_scheduler \<Rightarrow> string \<Rightarrow> int" where
  "weight s name \<equiv> tc_weight (tq_config (tenant s name))"

definition run_task :: "string \<Rightarrow> 't fair_scheduler \<Rightarrow> 't fair_scheduler" where
  "run_task name s = (let tq = tenant s name in
     s\<lparr>fs_tenants := (fs_tenants s)(name \<mapsto>
         tq\<lparr>tq_tasks := tl (tq_tasks tq), tq_stats := (tq_stats tq)\<lparr>ts_completed := ts_completed (tq_stats tq) + 1\<rparr>\<rparr>),
       fs_ran := fs_ran s @ [(name, hd (tq_tasks tq))]\<rparr>)"

fun serve :: "nat \<Rightarrow> string \<Rightarrow> 't fair_scheduler \<Rightarrow> 't fair_scheduler" where
  "serve 0 name s = s"
| "serve (Suc i) name s = (if queued s name = [] then s else serve i name (run_task name s))"

definition round_robin :: "string list \<Rightarrow> 't fair_scheduler \<Rightarrow> 't fair_scheduler" where
  "round_robin grp s = fold (\<lambda>name s. serve (nat (weight s name)) name s) grp s"

partial_function (option) drain :: "string list \<Rightarrow> 't fair_scheduler \<Rightarrow> 't fair_scheduler option" where
  "drain grp s = (if list_ex (\<lambda>name. queued s name \<noteq> []) grp then drain grp (round_robin grp s) else Some s)"

definition priorities :: "'t fair_scheduler \<Rightarrow> int list" where
  "priorities s = rev (sort (remdups (map (priority s) (fs_order s))))"

definition class_of :: "'t fair_scheduler \<Rightarrow> int \<Rightarrow> string list" where
  "class_of s prio = filter (\<lambda>name. priority s name = prio) (fs_order s)"

fun run_classes :: "int list \<Rightarrow> 't fair_scheduler \<Rightarrow> 't fair_scheduler option" where
  "run_classes [] s = Some s"
| "run_classes (prio # prios) s = Option.bind (drain (class_of s prio) s) (run_classes prios)"

definition fs_run :: "'t fair_scheduler \<Rightarrow> 't fair_scheduler option" where
  "fs_run s = run_classes (priorities s) s"

declare drain.simps [code]

section \<open>What running leaves unchanged\<close>

text \<open>
  From \<open>s\<close> to \<open>s'\<close> the tasks \<open>log\<close> have run: per tenant they are, in order, the head of its queue, and counted.
\<close>

definition ran :: "'t fair_scheduler \<Rightarrow> (string \<times> 't) list \<Rightarrow> 't fair_scheduler \<Rightarrow> bool" where
  "ran s log s' \<longleftrightarrow> fs_ran s' = fs_ran s @ log \<and> fs_order s' = fs_order s \<and>
     (\<forall>name. tq_config (tenant s' name) = tq_config (tenant s name) \<and>
        queued s name = map snd (filter (\<lambda>x. fst x = name) log) @ queued s' name \<and>
        ts_completed (tq_stats (tenant s' name)) = ts_completed (tq_stats (tenant s name)) + length (filter (\<lambda>x. fst x = name) log))"

lemma ran_refl [simp]: "ran s [] s"
  by (simp add: ran_def)

lemma ran_trans: "ran s xs s' \<Longrightarrow> ran s' ys s'' \<Longrightarrow> ran s (xs @ ys) s''"
  by (simp add: ran_def)

lemma ran_config: "ran s log s' \<Longrightarrow> tq_config (tenant s' name) = tq_config (tenant s name)"
  by (simp add: ran_def)

lemma ran_queued: "ran s log s' \<Longrightarrow> queued s name = map snd (filter (\<lambda>x. fst x = name) log) @ queued s' name"
  by (simp add: ran_def)

lemma ran_order: "ran s log s' \<Longrightarrow> fs_order s' = fs_order s"
  by (simp add: ran_def)

lemma ran_shorter: "ran s log s' \<Longrightarrow> length (queued s' name) \<le> length (queued s name)"
  using ran_queued [of s log s' name] by simp

lemma run_task_ran: "queued s name \<noteq> [] \<Longrightarrow> ran s [(name, hd (queued s name))] (run_task name s)"
  by (simp add: ran_def run_task_def Let_def tenant_def)

lemma serve_ran: "\<exists>log. ran s log (serve i name s) \<and> set (map fst log) \<subseteq> {name} \<and> queued (serve i name s) name = drop i (queued s name)"
proof (induction i name s rule: serve.induct)
  case (2 i name s)
  show ?case
  proof (cases "queued s name = []")
    case False
    have step: "ran s [(name, hd (queued s name))] (run_task name s)" using False by (rule run_task_ran)
    have "queued (run_task name s) name = tl (queued s name)" by (simp add: run_task_def Let_def tenant_def)
    then show ?thesis using 2 False ran_trans [OF step] by (fastforce simp: drop_Suc)
  qed (auto intro: exI [of _ "[]"])
qed (auto intro: exI [of _ "[]"])

lemma round_robin_ran: "\<exists>log. ran s log (round_robin grp s) \<and> set (map fst log) \<subseteq> set grp"
proof (induction grp arbitrary: s)
  case (Cons name grp)
  let ?s = "serve (nat (weight s name)) name s"
  obtain xs where xs: "ran s xs ?s" "set (map fst xs) \<subseteq> {name}" using serve_ran by blast
  obtain ys where ys: "ran ?s ys (round_robin grp ?s)" "set (map fst ys) \<subseteq> set grp" using Cons.IH by blast
  have "ran s (xs @ ys) (round_robin (name # grp) s)" using ran_trans [OF xs(1) ys(1)] by (simp add: round_robin_def)
  then show ?case using xs(2) ys(2) by (intro exI [of _ "xs @ ys"]) auto
qed (auto simp: round_robin_def intro: exI [of _ "[]"])

text \<open>A pass gives every tenant of the group its quantum, so a pass with work left does some.\<close>

lemma round_robin_quantum:
  assumes "name \<in> set grp" and "0 < weight s name"
  shows "length (queued (round_robin grp s) name) \<le> length (queued s name) - nat (weight s name)"
  using assms
proof (induction grp arbitrary: s)
  case (Cons other grp)
  let ?s = "serve (nat (weight s other)) other s"
  obtain xs where xs: "ran s xs ?s" "queued ?s other = drop (nat (weight s other)) (queued s other)" using serve_ran by blast
  obtain ys where ys: "ran ?s ys (round_robin grp ?s)" using round_robin_ran by blast
  show ?case
  proof (cases "name = other")
    case True
    then show ?thesis using xs(2) ran_shorter [OF ys, of name] by (simp add: round_robin_def)
  next
    case False
    then have "length (queued (round_robin grp ?s) name) \<le> length (queued ?s name) - nat (weight ?s name)"
      using Cons.IH [of ?s] Cons.prems ran_config [OF xs(1), of name] by simp
    then show ?thesis using ran_config [OF xs(1), of name] ran_shorter [OF xs(1), of name] by (simp add: round_robin_def)
  qed
qed simp

definition backlog :: "string list \<Rightarrow> 't fair_scheduler \<Rightarrow> nat" where
  "backlog grp s = (\<Sum>name \<in> set grp. length (queued s name))"

lemma round_robin_backlog:
  assumes "name \<in> set grp" "queued s name \<noteq> []" "0 < weight s name"
  shows "backlog grp (round_robin grp s) < backlog grp s"
  unfolding backlog_def
proof (rule sum_strict_mono_ex1)
  obtain xs where xs: "ran s xs (round_robin grp s)" using round_robin_ran by blast
  show "\<forall>name \<in> set grp. length (queued (round_robin grp s) name) \<le> length (queued s name)" using ran_shorter [OF xs] by simp
  show "\<exists>name \<in> set grp. length (queued (round_robin grp s) name) < length (queued s name)"
  proof (intro bexI [of _ name])
    have "0 < length (queued s name)" "0 < nat (weight s name)" using assms(2,3) by simp_all
    then show "length (queued (round_robin grp s) name) < length (queued s name)" using round_robin_quantum [OF assms(1,3)] by linarith
  qed (rule assms(1))
qed simp

section \<open>Draining\<close>

lemma drain_ends:
  assumes "\<And>name. name \<in> set grp \<Longrightarrow> queued s name \<noteq> [] \<Longrightarrow> 0 < weight s name"
  shows "\<exists>s' log. drain grp s = Some s' \<and> ran s log s' \<and> set (map fst log) \<subseteq> set grp \<and> (\<forall>name \<in> set grp. queued s' name = [])"
  using assms
proof (induction "backlog grp s" arbitrary: s rule: less_induct)
  case less
  show ?case
  proof (cases "list_ex (\<lambda>name. queued s name \<noteq> []) grp")
    case True
    then obtain name where n: "name \<in> set grp" "queued s name \<noteq> []" by (auto simp: list_ex_iff)
    let ?s = "round_robin grp s"
    obtain xs where xs: "ran s xs ?s" "set (map fst xs) \<subseteq> set grp" using round_robin_ran by blast
    have "0 < weight ?s other" if "other \<in> set grp" "queued ?s other \<noteq> []" for other
      using less.prems [of other] that ran_config [OF xs(1), of other] ran_queued [OF xs(1), of other] by simp
    then obtain s' ys where ys: "drain grp ?s = Some s'" "ran ?s ys s'" "set (map fst ys) \<subseteq> set grp" "\<forall>name \<in> set grp. queued s' name = []"
      using less.hyps [OF round_robin_backlog [OF n less.prems [OF n]]] by blast
    have "drain grp s = Some s'" using True ys(1) by (simp add: drain.simps)
    then show ?thesis using ran_trans [OF xs(1) ys(2)] xs(2) ys(3,4) by (intro exI [of _ s'] exI [of _ "xs @ ys"]) auto
  next
    case False
    then have "drain grp s = Some s" by (simp add: drain.simps)
    then show ?thesis using False by (auto simp: list_ex_iff intro!: exI [of _ s] exI [of _ "[]"])
  qed
qed

text \<open>Without a positive weight nothing of the class ever runs: the loop does not end.\<close>

lemma serve_idle: "queued s name = [] \<Longrightarrow> serve i name s = s"
  by (cases i) auto

lemma round_robin_stuck: "\<forall>name \<in> set grp. weight s name \<le> 0 \<or> queued s name = [] \<Longrightarrow> round_robin grp s = s"
proof (induction grp)
  case (Cons name grp)
  then have "serve (nat (weight s name)) name s = s" by (auto simp: serve_idle)
  then show ?case using Cons by (simp add: round_robin_def)
qed (simp add: round_robin_def)

lemma drain_stuck:
  assumes "\<forall>name \<in> set grp. weight s name \<le> 0 \<or> queued s name = []" "name \<in> set grp" "queued s name \<noteq> []"
  shows "drain grp s = None"
proof (cases "drain grp s")
  case (Some s')
  then have "\<not> (list_ex (\<lambda>name. queued s name \<noteq> []) grp \<and> round_robin grp s = s)"
    by (rule drain.raw_induct [where P = "\<lambda>grp s y. \<not> (list_ex (\<lambda>name. queued s name \<noteq> []) grp \<and> round_robin grp s = s)", rotated])
      (auto split: if_splits)
  then show ?thesis using round_robin_stuck [OF assms(1)] assms(2,3) by (auto simp: list_ex_iff)
qed simp

section \<open>Running\<close>

definition by_priority :: "'t fair_scheduler \<Rightarrow> (string \<times> 't) list \<Rightarrow> bool" where
  "by_priority s log \<longleftrightarrow> sorted_wrt (\<lambda>x y. priority s (fst y) \<le> priority s (fst x)) log"

lemma run_classes_ends:
  assumes "\<And>name. queued s name \<noteq> [] \<Longrightarrow> 0 < weight s name" and "sorted_wrt (>) prios"
  shows "\<exists>s' log. run_classes prios s = Some s' \<and> ran s log s' \<and> by_priority s log \<and>
    (\<forall>x \<in> set log. priority s (fst x) \<in> set prios) \<and> (\<forall>name \<in> set (fs_order s). priority s name \<in> set prios \<longrightarrow> queued s' name = [])"
  using assms
proof (induction prios arbitrary: s)
  case (Cons prio prios)
  obtain s1 xs where xs: "drain (class_of s prio) s = Some s1" "ran s xs s1" "set (map fst xs) \<subseteq> set (class_of s prio)"
      "\<forall>name \<in> set (class_of s prio). queued s1 name = []"
    using drain_ends [of "class_of s prio" s] Cons.prems(1) by blast
  have same: "tq_config (tenant s1 name) = tq_config (tenant s name)" for name using ran_config [OF xs(2)] .
  have "0 < weight s1 name" if "queued s1 name \<noteq> []" for name
    using Cons.prems(1) [of name] ran_queued [OF xs(2), of name] that same by simp
  then obtain s2 ys where ys: "run_classes prios s1 = Some s2" "ran s1 ys s2" "by_priority s1 ys"
      "\<forall>x \<in> set ys. priority s1 (fst x) \<in> set prios" "\<forall>name \<in> set (fs_order s1). priority s1 name \<in> set prios \<longrightarrow> queued s2 name = []"
    using Cons.IH [of s1] Cons.prems(2) by auto
  have px: "priority s (fst x) = prio" if "x \<in> set xs" for x using xs(3) that by (auto simp: class_of_def)
  have "by_priority s (xs @ ys)"
    unfolding by_priority_def sorted_wrt_append
  proof (intro conjI ballI)
    show "sorted_wrt (\<lambda>x y. priority s (fst y) \<le> priority s (fst x)) xs" using px by (simp add: sorted_wrt_iff_nth_less)
    show "sorted_wrt (\<lambda>x y. priority s (fst y) \<le> priority s (fst x)) ys" using ys(3) by (simp add: by_priority_def same)
    show "priority s (fst y) \<le> priority s (fst x)" if "x \<in> set xs" "y \<in> set ys" for x y
      using px [OF that(1)] ys(4) that(2) Cons.prems(2) by (auto simp: same intro: less_imp_le)
  qed
  moreover have "queued s2 name = []" if "name \<in> set (fs_order s)" "priority s name \<in> set (prio # prios)" for name
  proof (cases "priority s name = prio")
    case True
    then have "queued s1 name = []" using xs(4) that by (simp add: class_of_def)
    then show ?thesis using ran_queued [OF ys(2), of name] by simp
  next
    case False
    then show ?thesis using ys(5) that same ran_order [OF xs(2)] by simp
  qed
  ultimately show ?case using xs(1) ys(1,4) px same ran_trans [OF xs(2) ys(2)]
    by (intro exI [of _ s2] exI [of _ "xs @ ys"]) auto
qed (auto simp: by_priority_def intro: exI [of _ "[]"])

definition fs_inv :: "'t fair_scheduler \<Rightarrow> bool" where
  "fs_inv s \<longleftrightarrow> dom (fs_tenants s) = set (fs_order s) \<and> (\<forall>name tq. fs_tenants s name = Some tq \<longrightarrow> length (tq_tasks tq) \<le> tc_quota (tq_config tq))"

lemma fs_inv_new [simp]: "fs_inv fs_new"
  by (simp add: fs_inv_def fs_new_def)

lemma fs_inv_register [simp]: "fs_inv s \<Longrightarrow> fs_inv (registerTenant name config s)"
  by (auto simp: fs_inv_def registerTenant_def)

lemma fs_inv_update:
  "fs_inv s \<Longrightarrow> fs_tenants s name = Some tq \<Longrightarrow> length (tq_tasks tq') \<le> tc_quota (tq_config tq') \<Longrightarrow> fs_inv (s\<lparr>fs_tenants := (fs_tenants s)(name \<mapsto> tq')\<rparr>)"
  by (auto simp: fs_inv_def domIff)

lemma fs_inv_submit: "fs_inv s \<Longrightarrow> fs_submit name task s = Some (ok, s') \<Longrightarrow> fs_inv s'"
  by (auto simp: fs_submit_def fs_inv_def [of s] split: option.splits if_splits intro!: fs_inv_update)

lemma fs_inv_queued: "fs_inv s \<Longrightarrow> queued s name \<noteq> [] \<Longrightarrow> name \<in> set (fs_order s)"
  by (auto simp: fs_inv_def tenant_def split: option.splits)

text \<open>
  C34. When every tenant with queued tasks has a positive weight, \<open>run\<close> returns: it runs every queued task exactly once,
  each tenant's tasks in the order they were submitted, no task before all tasks of a higher priority class, leaves every
  queue empty and counts the tasks in the tenant's statistics.
\<close>

theorem fair_scheduler_run:
  assumes "fs_inv s" and "\<And>name. queued s name \<noteq> [] \<Longrightarrow> 0 < weight s name"
  shows "\<exists>s' log. fs_run s = Some s' \<and> fs_ran s' = fs_ran s @ log \<and> by_priority s log \<and>
    (\<forall>name. map snd (filter (\<lambda>x. fst x = name) log) = queued s name \<and> queued s' name = [] \<and>
       ts_completed (tq_stats (tenant s' name)) = ts_completed (tq_stats (tenant s name)) + length (queued s name))"
proof -
  have "sorted_wrt (>) (priorities s)"
    by (simp add: priorities_def sorted_wrt_rev strict_sorted_iff)
  then obtain s' log where r: "run_classes (priorities s) s = Some s'" "ran s log s'" "by_priority s log"
      "\<forall>name \<in> set (fs_order s). priority s name \<in> set (priorities s) \<longrightarrow> queued s' name = []"
    using run_classes_ends [OF assms(2), of "priorities s"] by blast
  have "queued s' name = []" for name
  proof (cases "queued s name = []")
    case False
    then show ?thesis using r(4) fs_inv_queued [OF assms(1) False] by (simp add: priorities_def)
  qed (use ran_queued [OF r(2), of name] in simp)
  moreover have "map snd (filter (\<lambda>x. fst x = name) log) = queued s name" for name
    using ran_queued [OF r(2), of name] calculation by simp
  moreover have "length (filter (\<lambda>x. fst x = name) log) = length (queued s name)" for name
    using calculation(2) [of name] by (metis length_map)
  ultimately show ?thesis using r(1-3) unfolding fs_run_def ran_def by auto
qed

definition example_fs :: "nat fair_scheduler" where
  "example_fs = (let s = registerTenant ''a'' \<lparr>tc_priority = 1, tc_weight = 1, tc_quota = 2\<rparr> (registerTenant ''b'' \<lparr>tc_priority = 2, tc_weight = 2, tc_quota = 4\<rparr> fs_new) in
     snd (the (fs_submit ''b'' 20 (snd (the (fs_submit ''b'' 21 (snd (the (fs_submit ''a'' 10 s)))))))))"

theorem fair_scheduler_run_witness:
  "\<exists>s' log. fs_run example_fs = Some s' \<and> fs_ran s' = fs_ran example_fs @ log \<and> map snd (filter (\<lambda>x. fst x = ''b'') log) = [21, 20] \<and> queued s' ''b'' = []"
proof -
  have inv: "fs_inv example_fs"
    by (auto simp: fs_inv_def example_fs_def Let_def registerTenant_def fs_submit_def fs_new_def zero_stats_def)
  have w: "0 < weight example_fs name" if "queued example_fs name \<noteq> []" for name
    using that by (auto simp: example_fs_def Let_def registerTenant_def fs_submit_def fs_new_def tenant_def zero_stats_def split: if_splits)
  have "queued example_fs ''b'' = [21, 20]"
    by (simp add: example_fs_def Let_def registerTenant_def fs_submit_def fs_new_def tenant_def)
  then show ?thesis using fair_scheduler_run [OF inv w] by metis
qed

end
