(* ===== verification/Backpressure.thy ===== *)
theory Backpressure
  imports Prelude Complex_Main
begin

text \<open>
  \<open>networking/backpressure\<close>: the token bucket and credit-based flow control. The bucket is modelled with exact real
  arithmetic, the reading of the steady clock being an argument of every call. The sender's atomic accesses and the
  listener thread are the steps of a transition system in which any number of threads acquire credits.
\<close>

section \<open>Token bucket\<close>

record token_bucket =
  tb_capacity :: real
  tb_refillPerSec :: real
  tb_tokens :: real
  tb_lastRefill :: real

definition tb_new :: "real \<Rightarrow> real \<Rightarrow> real \<Rightarrow> token_bucket" where
  "tb_new now capacity refill_per_sec = \<lparr>tb_capacity = capacity, tb_refillPerSec = refill_per_sec, tb_tokens = capacity, tb_lastRefill = now\<rparr>"

definition refillLocked :: "real \<Rightarrow> token_bucket \<Rightarrow> token_bucket" where
  "refillLocked now b = (let elapsedSec = now - tb_lastRefill b in
     b\<lparr>tb_tokens := min (tb_capacity b) (tb_tokens b + elapsedSec * tb_refillPerSec b), tb_lastRefill := now\<rparr>)"

definition tryAcquire :: "real \<Rightarrow> real \<Rightarrow> token_bucket \<Rightarrow> bool \<times> token_bucket" where
  "tryAcquire now tokens b = (let b = refillLocked now b in
     if tb_tokens b < tokens then (False, b) else (True, b\<lparr>tb_tokens := tb_tokens b - tokens\<rparr>))"

definition available :: "real \<Rightarrow> token_bucket \<Rightarrow> real \<times> token_bucket" where
  "available now b = (let b = refillLocked now b in (tb_tokens b, b))"

text \<open>A sequence of requests, each a time and a number of tokens, and the tokens granted in all.\<close>

fun acquire_all :: "(real \<times> real) list \<Rightarrow> real \<times> token_bucket \<Rightarrow> real \<times> token_bucket" where
  "acquire_all [] r = r"
| "acquire_all ((now, tokens) # reqs) (granted, b) =
     (let (ok, b') = tryAcquire now tokens b in acquire_all reqs (if ok then granted + tokens else granted, b'))"

definition tb_inv :: "real \<Rightarrow> real \<Rightarrow> token_bucket \<Rightarrow> bool" where
  "tb_inv start granted b \<longleftrightarrow> 0 \<le> tb_tokens b \<and> tb_tokens b \<le> tb_capacity b \<and> 0 \<le> tb_refillPerSec b \<and>
     granted + tb_tokens b \<le> tb_capacity b + tb_refillPerSec b * (tb_lastRefill b - start)"

lemma tryAcquire_inv:
  assumes "tb_inv start granted b" "tb_lastRefill b \<le> now" "0 \<le> tokens" "tryAcquire now tokens b = (ok, b')"
  shows "tb_inv start (if ok then granted + tokens else granted) b' \<and> tb_lastRefill b' = now \<and>
    tb_capacity b' = tb_capacity b \<and> tb_refillPerSec b' = tb_refillPerSec b"
proof -
  have pos: "0 \<le> (now - tb_lastRefill b) * tb_refillPerSec b" using assms(1,2) by (simp add: tb_inv_def)
  have eq: "tb_refillPerSec b * (now - start) = tb_refillPerSec b * (tb_lastRefill b - start) + (now - tb_lastRefill b) * tb_refillPerSec b"
    by (simp add: algebra_simps)
  show ?thesis using assms pos unfolding tb_inv_def
    by (auto simp: tryAcquire_def refillLocked_def Let_def eq split: if_splits)
qed

lemma acquire_all_inv:
  assumes "tb_inv start granted b" "sorted (tb_lastRefill b # map fst reqs)" "list_all (\<lambda>r. 0 \<le> snd r) reqs" "acquire_all reqs (granted, b) = (granted', b')"
  shows "tb_inv start granted' b' \<and> tb_lastRefill b' = last (tb_lastRefill b # map fst reqs) \<and> tb_capacity b' = tb_capacity b \<and> tb_refillPerSec b' = tb_refillPerSec b"
  using assms
proof (induction reqs arbitrary: granted b)
  case (Cons r reqs)
  obtain now tokens ok b1 where r: "r = (now, tokens)" "tryAcquire now tokens b = (ok, b1)" by (metis surj_pair)
  have b1: "tb_inv start (if ok then granted + tokens else granted) b1" "tb_lastRefill b1 = now" "tb_capacity b1 = tb_capacity b" "tb_refillPerSec b1 = tb_refillPerSec b"
    using tryAcquire_inv [OF Cons.prems(1) _ _ r(2)] Cons.prems(2,3) r(1) by auto
  show ?case using Cons.IH [OF b1(1)] Cons.prems(2-4) r b1(2-4) by simp
qed simp

lemma token_bucket_rate:
  assumes "0 \<le> capacity" "0 \<le> refill_per_sec" "sorted (start # map fst reqs)" "list_all (\<lambda>r. 0 \<le> snd r) reqs"
    and "acquire_all reqs (0, tb_new start capacity refill_per_sec) = (granted, b)"
  shows "granted \<le> capacity + refill_per_sec * (last (start # map fst reqs) - start)"
proof -
  have "tb_inv start 0 (tb_new start capacity refill_per_sec)" using assms(1,2) by (simp add: tb_inv_def tb_new_def)
  then show ?thesis using acquire_all_inv [of start 0 "tb_new start capacity refill_per_sec" reqs granted b] assms(3-5)
    by (auto simp: tb_inv_def tb_new_def)
qed

section \<open>Credits\<close>

text \<open>The program points of \<open>acquireCredit\<close>, with \<open>waited\<close> and the value loaded, and of the listener.\<close>

datatype acquirer = AIdle | ALoad bool | ACas bool nat | ACount

datatype listener = LNone | LCheck | LRecv | LAdd | LDone

text \<open>
  \<open>bp_grants\<close> counts the grant bytes in the channel, \<open>bp_flight\<close> the data units whose credit was acquired and which the
  receiver has not finished processing.
\<close>

record bp =
  bp_credits :: nat
  bp_blocked :: nat
  bp_running :: bool
  bp_closed :: bool
  bp_grants :: nat
  bp_flight :: nat
  bp_acq :: "nat \<Rightarrow> acquirer"
  bp_listen :: listener

definition bp_new :: "nat \<Rightarrow> bp" where
  "bp_new windowSize = \<lparr>bp_credits = windowSize, bp_blocked = 0, bp_running = False, bp_closed = False, bp_grants = 0, bp_flight = 0,
     bp_acq = (\<lambda>_. AIdle), bp_listen = LNone\<rparr>"

definition bp_start :: "bp \<Rightarrow> bp option" where
  "bp_start s = (if bp_listen s = LNone then Some (s\<lparr>bp_running := True, bp_listen := LCheck\<rparr>) else None)"

definition bp_stop :: "bp \<Rightarrow> bp" where
  "bp_stop s = (if \<not> bp_running s then s else s\<lparr>bp_running := False, bp_closed := True\<rparr>)"

text \<open>A compare-exchange may fail spuriously.\<close>

definition acquireCredit_step :: "bool \<Rightarrow> nat \<Rightarrow> bp \<Rightarrow> bp" where
  "acquireCredit_step spurious t s = (case bp_acq s t of
      AIdle \<Rightarrow> s\<lparr>bp_acq := (bp_acq s)(t := ALoad False)\<rparr>
    | ALoad waited \<Rightarrow> s\<lparr>bp_acq := (bp_acq s)(t := ACas waited (bp_credits s))\<rparr>
    | ACas waited cur \<Rightarrow> if cur > 0 \<and> bp_credits s = cur \<and> \<not> spurious
        then s\<lparr>bp_credits := cur - 1, bp_flight := bp_flight s + 1, bp_acq := (bp_acq s)(t := if waited then ACount else AIdle)\<rparr>
        else s\<lparr>bp_acq := (bp_acq s)(t := ALoad True)\<rparr>
    | ACount \<Rightarrow> s\<lparr>bp_blocked := bp_blocked s + 1, bp_acq := (bp_acq s)(t := AIdle)\<rparr>)"

text \<open>On a closed channel \<open>recv\<close> fails, or still returns a byte that had arrived; with nothing to read it waits.\<close>

definition listenLoop_step :: "bool \<Rightarrow> bp \<Rightarrow> bp option" where
  "listenLoop_step fails s = (case bp_listen s of
      LCheck \<Rightarrow> Some (s\<lparr>bp_listen := if bp_running s then LRecv else LDone\<rparr>)
    | LRecv \<Rightarrow> if bp_closed s \<and> (fails \<or> bp_grants s = 0) then Some (s\<lparr>bp_listen := LDone\<rparr>)
        else if bp_grants s > 0 then Some (s\<lparr>bp_grants := bp_grants s - 1, bp_listen := LAdd\<rparr>) else None
    | LAdd \<Rightarrow> Some (s\<lparr>bp_credits := bp_credits s + 1, bp_listen := LCheck\<rparr>)
    | _ \<Rightarrow> None)"

definition grantCredit :: "bp \<Rightarrow> bp" where
  "grantCredit s = s\<lparr>bp_grants := bp_grants s + 1\<rparr>"

text \<open>The receiver calls \<open>grantCredit\<close> after finishing one data unit.\<close>

definition process_unit :: "bp \<Rightarrow> bp option" where
  "process_unit s = (if bp_flight s > 0 then Some (grantCredit (s\<lparr>bp_flight := bp_flight s - 1\<rparr>)) else None)"

inductive bp_reach :: "nat \<Rightarrow> bp \<Rightarrow> bool" for windowSize where
  bpr_new: "bp_reach windowSize (bp_new windowSize)"
| bpr_start: "bp_reach windowSize s \<Longrightarrow> bp_start s = Some s' \<Longrightarrow> bp_reach windowSize s'"
| bpr_stop: "bp_reach windowSize s \<Longrightarrow> bp_reach windowSize (bp_stop s)"
| bpr_acquire: "bp_reach windowSize s \<Longrightarrow> bp_reach windowSize (acquireCredit_step spurious t s)"
| bpr_listen: "bp_reach windowSize s \<Longrightarrow> listenLoop_step fails s = Some s' \<Longrightarrow> bp_reach windowSize s'"
| bpr_process: "bp_reach windowSize s \<Longrightarrow> process_unit s = Some s' \<Longrightarrow> bp_reach windowSize s'"

definition bp_total :: "bp \<Rightarrow> nat" where
  "bp_total s = bp_credits s + bp_flight s + bp_grants s + (if bp_listen s = LAdd then 1 else 0)"

lemma bp_conserved: "bp_reach windowSize s \<Longrightarrow> bp_total s = windowSize"
proof (induction rule: bp_reach.induct)
  case (bpr_acquire s spurious t)
  then show ?case by (auto simp: bp_total_def acquireCredit_step_def split: acquirer.splits)
next
  case (bpr_listen s fails s')
  then show ?case by (auto simp: bp_total_def listenLoop_step_def split: listener.splits if_splits)
qed (auto simp: bp_total_def bp_new_def bp_start_def bp_stop_def process_unit_def grantCredit_def split: if_splits)

text \<open>After \<open>stop\<close> the listener leaves its loop within three steps of its own, so that joining it returns.\<close>

lemma stop_joins:
  assumes "\<not> bp_running s" "bp_closed s" "bp_listen s \<noteq> LNone" "bp_listen s \<noteq> LDone"
  shows "\<exists>s1. listenLoop_step True s = Some s1 \<and> (bp_listen s1 = LDone \<or> (\<exists>s2. listenLoop_step True s1 = Some s2 \<and> bp_listen s2 = LDone))"
  using assms by (cases "bp_listen s") (auto simp: listenLoop_step_def)

text \<open>
  C35. Credit-based flow control keeps its window whatever the delays: in every interleaving of any number of threads
  acquiring credits, the listener and the receiver, the data units in flight never exceed \<open>windowSize\<close>, the credits never
  exceed it either (so the unsigned counter does not wrap), and no credit is lost or invented: available credits, units
  in flight and grants on their way add up to the window.
\<close>

theorem backpressure_window:
  assumes "bp_reach windowSize s"
  shows "bp_flight s \<le> windowSize \<and> bp_credits s \<le> windowSize \<and>
    bp_credits s + bp_flight s + bp_grants s + (if bp_listen s = LAdd then 1 else 0) = windowSize"
  using bp_conserved [OF assms] by (auto simp: bp_total_def)

definition bp_example :: bp where
  "bp_example = fold (acquireCredit_step False) [0, 1, 0, 1, 0, 1, 1, 1, 0, 0, 1] (bp_new 2)"

theorem backpressure_window_witness: "bp_flight bp_example \<le> 2 \<and> bp_credits bp_example = 0 \<and> bp_flight bp_example = 2"
proof -
  have "bp_reach w (fold (acquireCredit_step False) ts s)" if "bp_reach w s" for w ts s
    using that by (induction ts arbitrary: s) (auto intro: bpr_acquire)
  then have "bp_reach 2 bp_example" unfolding bp_example_def using bpr_new .
  moreover have "bp_credits bp_example = 0" by code_simp
  moreover have "bp_grants bp_example = 0" by code_simp
  moreover have "bp_listen bp_example = LNone" by code_simp
  ultimately show ?thesis using backpressure_window [of 2 bp_example] by simp
qed

end
