(* ===== verification/Scheduler_Service.thy ===== *)
theory Scheduler_Service
  imports Prelude
begin

text \<open>
  The control plane: the task scheduler of \<open>networking/grpc_control\<close> and the hedged call of
  \<open>networking/hedged_requests\<close>. The generated message types are type variables. Every handler of the service holds its
  mutex, so it is one step; \<open>None\<close> is a wait on the condition variable. A hedged call is a transition system over the
  caller and the backend threads it launches.
\<close>

section \<open>Scheduler service\<close>

record node_record =
  nd_hostname :: string
  nd_devices :: "string list"
  nd_healthy :: bool

record ('spec, 'res) scheduler =
  ss_nextId :: "64 word"
  ss_nodes :: "string \<rightharpoonup> node_record"
  ss_completed :: "string \<rightharpoonup> 'res"
  ss_pending :: "string \<rightharpoonup> 'spec"

definition scheduler_new :: "('spec, 'res) scheduler" where
  "scheduler_new = \<lparr>ss_nextId = 0, ss_nodes = Map.empty, ss_completed = Map.empty, ss_pending = Map.empty\<rparr>"

fun to_string :: "nat \<Rightarrow> string" where
  "to_string n = (if n < 10 then [char_of (48 + n)] else to_string (n div 10) @ [char_of (48 + n mod 10)])"

declare to_string.simps [simp del]

definition newId :: "string \<Rightarrow> ('spec, 'res) scheduler \<Rightarrow> string \<times> ('spec, 'res) scheduler" where
  "newId prefix s = (prefix @ ''-'' @ to_string (unat (ss_nextId s)), s\<lparr>ss_nextId := ss_nextId s + 1\<rparr>)"

text \<open>\<open>emplace\<close> keeps the entry of a key that is already there.\<close>

definition emplace :: "'k \<Rightarrow> 'v \<Rightarrow> ('k \<rightharpoonup> 'v) \<Rightarrow> 'k \<rightharpoonup> 'v" where
  "emplace k v m = (case m k of None \<Rightarrow> m(k \<mapsto> v) | Some _ \<Rightarrow> m)"

definition RegisterNode :: "string \<Rightarrow> string list \<Rightarrow> ('spec, 'res) scheduler \<Rightarrow> string \<times> ('spec, 'res) scheduler" where
  "RegisterNode hostname devices s = (let (nodeId, s) = newId ''node'' s in
     (nodeId, s\<lparr>ss_nodes := emplace nodeId \<lparr>nd_hostname = hostname, nd_devices = devices, nd_healthy = True\<rparr> (ss_nodes s)\<rparr>))"

definition HealthCheck :: "string \<Rightarrow> ('spec, 'res) scheduler \<Rightarrow> bool \<times> string" where
  "HealthCheck i s = (case ss_nodes s i of
      None \<Rightarrow> (False, ''unknown node id: '' @ i)
    | Some r \<Rightarrow> (nd_healthy r, if nd_healthy r then ''ok'' else ''marked unhealthy''))"

definition DispatchTask :: "'spec \<Rightarrow> ('spec, 'res) scheduler \<Rightarrow> string \<times> ('spec, 'res) scheduler" where
  "DispatchTask spec s = (let (taskId, s) = newId ''task'' s in (taskId, s\<lparr>ss_pending := emplace taskId spec (ss_pending s)\<rparr>))"

definition WaitTask :: "string \<Rightarrow> ('spec, 'res) scheduler \<Rightarrow> 'res option" where
  "WaitTask i s = ss_completed s i"

definition completeTask :: "string \<Rightarrow> 'res \<Rightarrow> ('spec, 'res) scheduler \<Rightarrow> ('spec, 'res) scheduler" where
  "completeTask task_id result s = s\<lparr>ss_pending := (ss_pending s)(task_id := None), ss_completed := (ss_completed s)(task_id \<mapsto> result)\<rparr>"

text \<open>Decimal numerals are unambiguous, so ids are.\<close>

definition from_string :: "string \<Rightarrow> nat" where
  "from_string = foldl (\<lambda>a c. 10 * a + (of_char c - 48)) 0"

lemma of_char_digit: "d < 10 \<Longrightarrow> (of_char (char_of (48 + d) :: char) :: nat) = 48 + d"
  by simp

lemma from_to_string: "from_string (to_string n) = n"
proof (induction n rule: to_string.induct)
  case (1 n)
  have d: "n mod 10 < 10" by simp
  show ?case
  proof (cases "n < 10")
    case True
    then show ?thesis by (simp add: to_string.simps [of n] from_string_def)
  next
    case False
    then show ?thesis using 1 of_char_digit [OF d] by (simp add: to_string.simps [of n] from_string_def)
  qed
qed

lemma to_string_inject: "to_string m = to_string n \<longleftrightarrow> m = n"
  by (metis from_to_string)

text \<open>Ids issued so far are numbered below the counter; hence a new id is unused until the counter wraps.\<close>

definition task_id :: "nat \<Rightarrow> string" where
  "task_id k = ''task-'' @ to_string k"

definition ids_inv :: "('spec, 'res) scheduler \<Rightarrow> bool" where
  "ids_inv s \<longleftrightarrow> (\<forall>i \<in> dom (ss_pending s). \<exists>k < unat (ss_nextId s). i = task_id k)"

lemma ids_inv_new: "ids_inv scheduler_new"
  by (simp add: ids_inv_def scheduler_new_def)

lemma unat_next: "s \<noteq> - 1 \<Longrightarrow> unat (s + 1 :: 64 word) = unat s + 1"
  by (metis Suc_eq_plus1 add.commute add_eq_0_iff unatSuc)

lemma ids_inv_register: "ids_inv s \<Longrightarrow> ss_nextId s \<noteq> - 1 \<Longrightarrow> ids_inv (snd (RegisterNode h ds s))"
  unfolding ids_inv_def by (simp add: RegisterNode_def newId_def unat_next) (meson less_SucI)

lemma ids_inv_complete: "ids_inv s \<Longrightarrow> ids_inv (completeTask i r s)"
  by (auto simp: ids_inv_def completeTask_def)

lemma dispatch_fresh:
  assumes "ids_inv s" "ss_nextId s \<noteq> - 1"
  shows "ss_pending s (fst (DispatchTask spec s)) = None \<and> ss_pending (snd (DispatchTask spec s)) = (ss_pending s)(fst (DispatchTask spec s) \<mapsto> spec) \<and>
    ids_inv (snd (DispatchTask spec s))"
proof -
  let ?i = "task_id (unat (ss_nextId s))"
  have i: "fst (DispatchTask spec s) = ?i" by (simp add: DispatchTask_def newId_def task_id_def)
  have new: "ss_pending s ?i = None"
  proof (rule ccontr)
    assume "ss_pending s ?i \<noteq> None"
    then obtain k where "k < unat (ss_nextId s)" "?i = task_id k" using assms(1) unfolding ids_inv_def by blast
    then show False by (simp add: task_id_def to_string_inject)
  qed
  have p: "ss_pending (snd (DispatchTask spec s)) = (ss_pending s)(?i \<mapsto> spec)"
    using new by (simp add: DispatchTask_def newId_def emplace_def task_id_def)
  moreover have "unat (ss_nextId (snd (DispatchTask spec s))) = unat (ss_nextId s) + 1"
    using assms(2) by (simp add: DispatchTask_def newId_def unat_next)
  ultimately have "ids_inv (snd (DispatchTask spec s))"
    using assms(1) unfolding ids_inv_def p by (simp add: less_Suc_eq) blast
  then show ?thesis using new p i by simp
qed

lemma wait_after_complete:
  "WaitTask i (completeTask i r s) = Some r" "j \<noteq> i \<Longrightarrow> WaitTask j (completeTask i r s) = WaitTask j s"
  by (simp_all add: WaitTask_def completeTask_def)

section \<open>Hedged calls\<close>

record 'r hedged_result =
  hr_response :: 'r
  hr_winningBackend :: nat
  hr_wasHedged :: bool

datatype hedge_pc = HWait | HGet | HReturned

text \<open>
  \<open>hg_running\<close>: launched backends that have not returned; \<open>hg_winner\<close>: the backend whose compare-exchange on
  \<open>fulfilled\<close> succeeded; \<open>hg_promise\<close>: the value of the shared future.
\<close>

record 'r hedge =
  hg_running :: "nat set"
  hg_winner :: "(nat \<times> 'r) option"
  hg_promise :: "(nat \<times> 'r) option"
  hg_hedged :: bool
  hg_pc :: hedge_pc
  hg_result :: "'r hedged_result option"

definition hedge_start :: "'r hedge" where
  "hedge_start = \<lparr>hg_running = {0}, hg_winner = None, hg_promise = None, hg_hedged = False, hg_pc = HWait, hg_result = None\<rparr>"

definition backend_returns :: "(nat \<Rightarrow> 'r) \<Rightarrow> nat \<Rightarrow> 'r hedge \<Rightarrow> 'r hedge option" where
  "backend_returns fn idx s = (if idx \<in> hg_running s
     then Some (s\<lparr>hg_running := hg_running s - {idx}, hg_winner := (case hg_winner s of None \<Rightarrow> Some (idx, fn idx) | Some w \<Rightarrow> Some w)\<rparr>)
     else None)"

definition set_value :: "'r hedge \<Rightarrow> 'r hedge option" where
  "set_value s = (if hg_winner s \<noteq> None \<and> hg_promise s = None then Some (s\<lparr>hg_promise := hg_winner s\<rparr>) else None)"

text \<open>The caller: the bounded wait, which may time out only while the future is not ready, then \<open>get\<close>.\<close>

definition caller_step :: "nat \<Rightarrow> bool \<Rightarrow> 'r hedge \<Rightarrow> 'r hedge option" where
  "caller_step backends timeout s = (case hg_pc s of
      HWait \<Rightarrow> if hg_promise s \<noteq> None then Some (s\<lparr>hg_pc := HGet\<rparr>)
        else if timeout then Some (s\<lparr>hg_hedged := True, hg_running := hg_running s \<union> {1..<backends}, hg_pc := HGet\<rparr>) else None
    | HGet \<Rightarrow> (case hg_promise s of None \<Rightarrow> None
        | Some (winner, response) \<Rightarrow> Some (s\<lparr>hg_result := Some \<lparr>hr_response = response, hr_winningBackend = winner, hr_wasHedged = hg_hedged s\<rparr>, hg_pc := HReturned\<rparr>))
    | HReturned \<Rightarrow> None)"

inductive hedge_reach :: "(nat \<Rightarrow> 'r) \<Rightarrow> nat \<Rightarrow> 'r hedge \<Rightarrow> bool" for fn backends where
  hr_start: "hedge_reach fn backends hedge_start"
| hr_backend: "hedge_reach fn backends s \<Longrightarrow> backend_returns fn idx s = Some s' \<Longrightarrow> hedge_reach fn backends s'"
| hr_set: "hedge_reach fn backends s \<Longrightarrow> set_value s = Some s' \<Longrightarrow> hedge_reach fn backends s'"
| hr_caller: "hedge_reach fn backends s \<Longrightarrow> caller_step backends timeout s = Some s' \<Longrightarrow> hedge_reach fn backends s'"

definition winner_ok :: "(nat \<Rightarrow> 'r) \<Rightarrow> nat \<Rightarrow> bool \<Rightarrow> nat \<times> 'r \<Rightarrow> bool" where
  "winner_ok fn backends hedged x \<longleftrightarrow> snd x = fn (fst x) \<and> fst x < max 1 backends \<and> (fst x \<noteq> 0 \<longrightarrow> hedged)"

lemma winner_ok_hedged: "winner_ok fn backends h x \<Longrightarrow> winner_ok fn backends True x"
  by (simp add: winner_ok_def)

definition hedge_inv :: "(nat \<Rightarrow> 'r) \<Rightarrow> nat \<Rightarrow> 'r hedge \<Rightarrow> bool" where
  "hedge_inv fn backends s \<longleftrightarrow> (\<forall>i \<in> hg_running s. i < max 1 backends \<and> (i \<noteq> 0 \<longrightarrow> hg_hedged s)) \<and>
     (\<forall>x. hg_winner s = Some x \<longrightarrow> winner_ok fn backends (hg_hedged s) x) \<and>
     (hg_promise s = None \<or> hg_promise s = hg_winner s) \<and> (hg_hedged s \<longrightarrow> hg_pc s \<noteq> HWait) \<and> (hg_result s \<noteq> None \<longleftrightarrow> hg_pc s = HReturned) \<and>
     (\<forall>r. hg_result s = Some r \<longrightarrow> hg_winner s = Some (hr_winningBackend r, hr_response r) \<and> hr_wasHedged r = hg_hedged s)"

lemma hedge_inv_reach: "hedge_reach fn backends s \<Longrightarrow> hedge_inv fn backends s"
proof (induction rule: hedge_reach.induct)
  case (hr_backend s idx s')
  note I = hr_backend(3) [unfolded hedge_inv_def]
  have idx: "idx \<in> hg_running s"
    and s': "s' = s\<lparr>hg_running := hg_running s - {idx}, hg_winner := (case hg_winner s of None \<Rightarrow> Some (idx, fn idx) | Some w \<Rightarrow> Some w)\<rparr>"
    using hr_backend(2) by (auto simp: backend_returns_def split: if_splits)
  show ?case
  proof (cases "hg_winner s")
    case None
    then have "hg_promise s = None" using I by simp
    moreover have "hg_result s = None" using I None by (cases "hg_result s") simp_all
    moreover have "winner_ok fn backends (hg_hedged s) (idx, fn idx)" using I idx by (simp add: winner_ok_def)
    ultimately show ?thesis using I idx None by (simp add: hedge_inv_def s') blast
  next
    case (Some w)
    then show ?thesis using I by (simp add: hedge_inv_def s') blast
  qed
next
  case (hr_set s s')
  then show ?case by (auto simp: hedge_inv_def set_value_def split: if_splits)
next
  case (hr_caller s timeout s')
  note I = hr_caller(3) [unfolded hedge_inv_def]
  show ?case
  proof (cases "hg_pc s")
    case HWait
    then consider "s' = s\<lparr>hg_pc := HGet\<rparr>" | "s' = s\<lparr>hg_hedged := True, hg_running := hg_running s \<union> {1..<backends}, hg_pc := HGet\<rparr>"
      using hr_caller(2) by (auto simp: caller_step_def split: if_splits)
    then show ?thesis using I HWait by cases (auto simp: hedge_inv_def intro: winner_ok_hedged)
  next
    case HGet
    then obtain w r where p: "hg_promise s = Some (w, r)" "s' = s\<lparr>hg_result := Some \<lparr>hr_response = r, hr_winningBackend = w, hr_wasHedged = hg_hedged s\<rparr>, hg_pc := HReturned\<rparr>"
      using hr_caller(2) by (auto simp: caller_step_def split: option.splits)
    then show ?thesis using I HGet by (simp add: hedge_inv_def)
  next
    case HReturned
    then show ?thesis using hr_caller(2) by (simp add: caller_step_def)
  qed
qed (auto simp: hedge_inv_def hedge_start_def)

text \<open>The response is the winner's, and a backup can only have won when the call was hedged.\<close>

lemma hedged_call_result:
  assumes "hedge_reach fn backends s" "hg_result s = Some r"
  shows "hr_response r = fn (hr_winningBackend r) \<and> hr_winningBackend r < max 1 backends \<and> (hr_winningBackend r \<noteq> 0 \<longrightarrow> hr_wasHedged r)"
  using hedge_inv_reach [OF assms(1)] assms(2) by (auto simp: hedge_inv_def winner_ok_def)

text \<open>A call whose caller waits in \<open>get\<close> can always complete once one launched backend returns.\<close>

lemma hedged_call_progress:
  assumes "hedge_inv fn backends s" "hg_pc s = HGet" "hg_winner s \<noteq> None"
  shows "\<exists>s1. (s1 = s \<or> set_value s = Some s1) \<and> (\<exists>s2. caller_step backends False s1 = Some s2 \<and> hg_pc s2 = HReturned)"
  using assms
  by (cases "hg_promise s") (auto simp: set_value_def caller_step_def split: prod.splits)

end
