(* ===== verification/Option_Lists.thy ===== *)
theory Option_Lists
  imports Prelude "HOL-Library.Multiset"
begin

text \<open>
  Tables of slots that hold a value or nothing: placements of tasks, guards that own a handle, buffers that own memory.
  \<open>owner_simps\<close> collects the rules that say what an update of one slot does to the values held.
\<close>

named_theorems owner_simps "values held by a table of slots after an update"

fun somes :: "'a option list \<Rightarrow> 'a list" where
  "somes [] = []"
| "somes (None # xs) = somes xs"
| "somes (Some x # xs) = x # somes xs"

lemma somes_append [owner_simps]: "somes (xs @ ys) = somes xs @ somes ys"
  by (induction xs rule: somes.induct) auto

lemma somes_take: "mset (somes xs) = mset (somes [xs ! i]) + mset (somes (xs[i := None]))" if "i < length xs"
  using that
proof (induction xs arbitrary: i rule: somes.induct)
  case (2 xs)
  then show ?case by (cases i) auto
next
  case (3 x xs)
  then show ?case by (cases i) auto
qed simp

lemma somes_put [owner_simps]: "i < length xs \<Longrightarrow> xs ! i = None \<Longrightarrow> mset (somes (xs[i := y])) = mset (somes [y]) + mset (somes xs)"
proof (induction xs arbitrary: i rule: somes.induct)
  case (2 xs)
  then show ?case by (cases i; cases y) auto
next
  case (3 x xs)
  then show ?case by (cases i) auto
qed simp

lemma somes_clear [owner_simps]: "i < length xs \<Longrightarrow> xs ! i = Some h \<Longrightarrow> add_mset h (mset (somes (xs[i := None]))) = mset (somes xs)"
  using somes_take [of i xs] by simp

lemma somes_length: "length (somes xs) = length xs - length (filter (\<lambda>x. x = None) xs)"
proof (induction xs rule: somes.induct)
  case (3 x xs)
  have "length (filter (\<lambda>x. x = None) xs) \<le> length xs" by simp
  then show ?case using 3 by (simp add: Suc_diff_le)
qed auto

lemma somes_nth: "i < length xs \<Longrightarrow> xs ! i = Some x \<Longrightarrow> x \<in> set (somes xs)"
  using somes_take [of i xs] by (metis list.set_intros(1) set_mset_mset somes.simps(1,3) union_iff)

lemma somes_replicate [simp]: "somes (replicate n None) = []"
  by (induction n) auto

lemma somes_all: "\<forall>i < length xs. xs ! i \<noteq> None \<Longrightarrow> map Some (somes xs) = xs"
proof (induction xs rule: somes.induct)
  case (2 xs)
  then have "(None # xs) ! 0 \<noteq> None" by blast
  then show ?case by simp
qed (auto simp: All_less_Suc2)

text \<open>Distinct values: no value sits in two slots.\<close>

lemma somes_distinct:
  assumes "distinct (somes xs)" "i < length xs" "j < length xs" "xs ! i = Some x" "xs ! j = Some x"
  shows "i = j"
proof (rule ccontr)
  assume ne: "i \<noteq> j"
  have "x \<in> set (somes (xs[i := None]))" using ne assms(2,3,5) by (intro somes_nth [of j]) simp_all
  moreover have "mset (somes xs) = mset (x # somes (xs[i := None]))" using somes_clear [OF assms(2,4)] by simp
  then have "distinct (x # somes (xs[i := None]))" using assms(1) mset_eq_imp_distinct_iff by blast
  ultimately show False by simp
qed

end
