(* ===== verification/Topo_Scheduler.thy ===== *)
theory Topo_Scheduler
  imports Option_Lists Complex_Main
begin

text \<open>
  \<open>networking/topo_scheduler\<close>: all-pairs costs by Floyd-Warshall on the reciprocal bandwidths and the greedy placement of
  tasks on nodes. Costs are exact reals with an infinity of their own. \<open>std::sort\<close> does not say how it orders pairs of
  equal volume, so the sorting of the pairs is an argument; \<open>None\<close> is an access outside of a vector, undefined in the
  source.
\<close>

section \<open>The topology\<close>

record edge =
  ed_to :: nat
  ed_bandwidth :: real

record topology_graph =
  nodeNames :: "string list"
  links :: "edge list list"

definition addNode :: "string \<Rightarrow> topology_graph \<Rightarrow> nat \<times> topology_graph" where
  "addNode name g = (let g = g\<lparr>nodeNames := nodeNames g @ [name], links := links g @ [[]]\<rparr> in (length (nodeNames g) - 1, g))"

definition add_edge :: "nat \<Rightarrow> edge \<Rightarrow> topology_graph \<Rightarrow> topology_graph option" where
  "add_edge a e g = (if a < length (links g) then Some (g\<lparr>links := (links g)[a := links g ! a @ [e]]\<rparr>) else None)"

definition addLink :: "nat \<Rightarrow> nat \<Rightarrow> real \<Rightarrow> topology_graph \<Rightarrow> topology_graph option" where
  "addLink a b bandwidth_gbs g = Option.bind (add_edge a \<lparr>ed_to = b, ed_bandwidth = bandwidth_gbs\<rparr> g)
     (add_edge b \<lparr>ed_to = a, ed_bandwidth = bandwidth_gbs\<rparr>)"

record workload =
  numTasks :: nat
  commVolumeGb :: "real list list"

section \<open>All-pairs costs\<close>

datatype cost = Cost real | Inf

fun cadd :: "cost \<Rightarrow> cost \<Rightarrow> cost" where
  "cadd (Cost x) (Cost y) = Cost (x + y)"
| "cadd _ _ = Inf"

fun cless :: "cost \<Rightarrow> cost \<Rightarrow> bool" where
  "cless (Cost x) (Cost y) = (x < y)"
| "cless (Cost x) Inf = True"
| "cless Inf _ = False"

definition cmin :: "cost \<Rightarrow> cost \<Rightarrow> cost" where
  "cmin a b = (if cless b a then b else a)"

definition edge_cost :: "edge \<Rightarrow> cost" where
  "edge_cost e = (if ed_bandwidth e = 0 then Inf else Cost (1 / ed_bandwidth e))"

definition cget :: "cost list list \<Rightarrow> nat \<Rightarrow> nat \<Rightarrow> cost" where
  "cget c i j = c ! i ! j"

definition cset :: "nat \<Rightarrow> nat \<Rightarrow> cost \<Rightarrow> cost list list \<Rightarrow> cost list list" where
  "cset i j v c = c[i := (c ! i)[j := v]]"

definition cost_start :: "nat \<Rightarrow> cost list list" where
  "cost_start n = fold (\<lambda>i. cset i i (Cost 0)) [0..<n] (replicate n (replicate n Inf))"

definition cost_edges :: "topology_graph \<Rightarrow> cost list list \<Rightarrow> cost list list" where
  "cost_edges g = fold (\<lambda>i. fold (\<lambda>e c. cset i (ed_to e) (cmin (cget c i (ed_to e)) (edge_cost e)) c) (links g ! i)) [0..<length (nodeNames g)]"

definition relax :: "nat \<Rightarrow> nat \<Rightarrow> nat \<Rightarrow> cost list list \<Rightarrow> cost list list" where
  "relax k i j c = (if cless (cadd (cget c i k) (cget c k j)) (cget c i j) then cset i j (cadd (cget c i k) (cget c k j)) c else c)"

definition relax_all :: "nat \<Rightarrow> cost list list \<Rightarrow> cost list list" where
  "relax_all n = fold (\<lambda>k. fold (\<lambda>i. fold (\<lambda>j. relax k i j) [0..<n]) [0..<n]) [0..<n]"

definition allPairsCost :: "topology_graph \<Rightarrow> cost list list" where
  "allPairsCost g = relax_all (length (nodeNames g)) (cost_edges g (cost_start (length (nodeNames g))))"

section \<open>Placement\<close>

text \<open>The search for the cheapest candidate; \<open>None\<close> stands for the index \<open>-1\<close> of a search that found nothing.\<close>

fun best_loop :: "('a \<Rightarrow> bool) \<Rightarrow> ('a \<Rightarrow> cost) \<Rightarrow> 'a list \<Rightarrow> 'a option \<times> cost \<Rightarrow> 'a option \<times> cost" where
  "best_loop ok c [] r = r"
| "best_loop ok c (x # xs) (best, bestCost) =
     (if ok x \<and> cless (c x) bestCost then best_loop ok c xs (Some x, c x) else best_loop ok c xs (best, bestCost))"

type_synonym placement = "nat option list \<times> bool list"

definition bestFreeNode :: "cost list list \<Rightarrow> bool list \<Rightarrow> nat option \<Rightarrow> nat option" where
  "bestFreeNode cost nodeUsed fixedNode = fst (best_loop (\<lambda>n. \<not> nodeUsed ! n)
     (\<lambda>n. case fixedNode of None \<Rightarrow> Cost 0 | Some f \<Rightarrow> cget cost f n) [0..<length nodeUsed] (None, Inf))"

definition bestFreePair :: "cost list list \<Rightarrow> bool list \<Rightarrow> (nat \<times> nat) option" where
  "bestFreePair cost nodeUsed = fst (best_loop (\<lambda>(a, b). \<not> nodeUsed ! a \<and> b \<noteq> a \<and> \<not> nodeUsed ! b) (\<lambda>(a, b). cget cost a b)
     (concat (map (\<lambda>a. map (Pair a) [0..<length nodeUsed]) [0..<length nodeUsed])) (None, Inf))"

text \<open>\<open>taskToNode[t] = node; nodeUsed[node] = true\<close>, undefined for the node \<open>-1\<close>.\<close>

definition assign :: "nat \<Rightarrow> nat option \<Rightarrow> placement \<Rightarrow> placement option" where
  "assign t node s = (case node of None \<Rightarrow> None | Some n \<Rightarrow> Some ((fst s)[t := Some n], (snd s)[n := True]))"

record vpair =
  vp_i :: nat
  vp_j :: nat
  vp_volume :: real

definition comm_pairs :: "workload \<Rightarrow> vpair list" where
  "comm_pairs w = concat (map (\<lambda>i. map (\<lambda>j. \<lparr>vp_i = i, vp_j = j, vp_volume = commVolumeGb w ! i ! j\<rparr>)
     (filter (\<lambda>j. commVolumeGb w ! i ! j > 0) [i + 1..<numTasks w])) [0..<numTasks w])"

definition place_pair :: "cost list list \<Rightarrow> vpair \<Rightarrow> placement \<Rightarrow> placement option" where
  "place_pair cost p s = (case (fst s ! vp_i p, fst s ! vp_j p) of
      (Some a, Some b) \<Rightarrow> Some s
    | (None, None) \<Rightarrow> (case bestFreePair cost (snd s) of None \<Rightarrow> None
        | Some (a, b) \<Rightarrow> Option.bind (assign (vp_i p) (Some a) s) (assign (vp_j p) (Some b)))
    | (None, Some b) \<Rightarrow> assign (vp_i p) (bestFreeNode cost (snd s) (Some b)) s
    | (Some a, None) \<Rightarrow> assign (vp_j p) (bestFreeNode cost (snd s) (Some a)) s)"

fun place_pairs :: "cost list list \<Rightarrow> vpair list \<Rightarrow> placement \<Rightarrow> placement option" where
  "place_pairs cost [] s = Some s"
| "place_pairs cost (p # ps) s = Option.bind (place_pair cost p s) (place_pairs cost ps)"

fun place_rest :: "cost list list \<Rightarrow> nat list \<Rightarrow> placement \<Rightarrow> placement option" where
  "place_rest cost [] s = Some s"
| "place_rest cost (t # ts) s = (if fst s ! t \<noteq> None then place_rest cost ts s
     else Option.bind (assign t (bestFreeNode cost (snd s) None) s) (place_rest cost ts))"

definition place :: "(vpair list \<Rightarrow> vpair list) \<Rightarrow> topology_graph \<Rightarrow> workload \<Rightarrow> nat option list option" where
  "place srt topology workload = (let cost = allPairsCost topology in
     map_option fst (Option.bind (place_pairs cost (srt (comm_pairs workload))
         (replicate (numTasks workload) None, replicate (length (nodeNames topology)) False))
       (place_rest cost [0..<numTasks workload])))"

section \<open>Connected topologies have finite costs\<close>

definition square :: "nat \<Rightarrow> cost list list \<Rightarrow> bool" where
  "square n c \<longleftrightarrow> length c = n \<and> (\<forall>row \<in> set c. length row = n)"

lemma cget_cset [simp]: "square n c \<Longrightarrow> i < n \<Longrightarrow> j < n \<Longrightarrow> i' < n \<Longrightarrow> j' < n \<Longrightarrow> cget (cset i j v c) i' j' = (if i' = i \<and> j' = j then v else cget c i' j')"
  by (auto simp: cget_def cset_def square_def nth_list_update)

lemma square_cset [simp]: "square n c \<Longrightarrow> i < n \<Longrightarrow> square n (cset i j v c)"
  unfolding square_def cset_def by (auto dest!: set_update_subset_insert [THEN subsetD])

text \<open>\<open>c'\<close> has at least the finite entries of \<open>c\<close>.\<close>

definition fin_mono :: "nat \<Rightarrow> cost list list \<Rightarrow> cost list list \<Rightarrow> bool" where
  "fin_mono n c c' \<longleftrightarrow> square n c' \<and> (\<forall>i < n. \<forall>j < n. cget c i j \<noteq> Inf \<longrightarrow> cget c' i j \<noteq> Inf)"

lemma fin_mono_refl: "square n c \<Longrightarrow> fin_mono n c c"
  by (simp add: fin_mono_def)

lemma fin_mono_trans: "fin_mono n a b \<Longrightarrow> fin_mono n b c \<Longrightarrow> fin_mono n a c"
  by (simp add: fin_mono_def)

lemma fin_mono_square: "fin_mono n c c' \<Longrightarrow> square n c'"
  by (simp add: fin_mono_def)

lemma fin_mono_fold:
  assumes "\<And>x c. x \<in> set xs \<Longrightarrow> square n c \<Longrightarrow> fin_mono n c (f x c)" and "square n c"
  shows "fin_mono n c (fold f xs c)"
  using assms
proof (induction xs arbitrary: c)
  case (Cons x xs)
  have "fin_mono n c (f x c)" using Cons.prems by simp
  then show ?case using Cons.IH [of "f x c"] Cons.prems(1) fin_mono_trans [of n c "f x c"] fin_mono_square [of n c "f x c"] by simp
qed (simp add: fin_mono_refl)

text \<open>A property that one step establishes and the others keep holds after the loop.\<close>

lemma fold_establishes:
  assumes "x \<in> set xs" "square n c" and mono: "\<And>y c. y \<in> set xs \<Longrightarrow> square n c \<Longrightarrow> fin_mono n c (f y c)"
    and est: "\<And>c'. fin_mono n c c' \<Longrightarrow> cget (f x c') i j \<noteq> Inf" and "i < n" "j < n"
  shows "cget (fold f xs c) i j \<noteq> Inf"
proof -
  obtain ys zs where xs: "xs = ys @ x # zs" using assms(1) by (meson split_list)
  have pre: "fin_mono n c (fold f ys c)" using mono assms(2) by (intro fin_mono_fold) (auto simp: xs)
  then have "fin_mono n (fold f ys c) (f x (fold f ys c))" using mono fin_mono_square by (auto simp: xs)
  then have "fin_mono n (f x (fold f ys c)) (fold f zs (f x (fold f ys c)))" using mono fin_mono_square by (intro fin_mono_fold) (auto simp: xs)
  then show ?thesis using est [OF pre] assms(5,6) by (simp add: xs fin_mono_def)
qed

lemma fin_mono_cset: "square n c \<Longrightarrow> i < n \<Longrightarrow> j < n \<Longrightarrow> (cget c i j \<noteq> Inf \<Longrightarrow> v \<noteq> Inf) \<Longrightarrow> fin_mono n c (cset i j v c)"
  by (auto simp: fin_mono_def)

lemma cmin_fin: "cmin a b \<noteq> Inf \<longleftrightarrow> a \<noteq> Inf \<or> b \<noteq> Inf"
  by (cases a; cases b) (auto simp: cmin_def)

lemma cadd_fin: "cadd a b \<noteq> Inf \<longleftrightarrow> a \<noteq> Inf \<and> b \<noteq> Inf"
  by (cases a; cases b) auto

lemma not_less_fin: "\<not> cless a b \<Longrightarrow> a \<noteq> Inf \<Longrightarrow> b \<noteq> Inf"
  by (cases a; cases b) auto

lemma less_fin: "cless a b \<Longrightarrow> a \<noteq> Inf"
  by (cases a; cases b) auto

lemma relax_mono: "square n c \<Longrightarrow> i < n \<Longrightarrow> j < n \<Longrightarrow> fin_mono n c (relax k i j c)"
  by (auto simp: relax_def fin_mono_refl less_fin intro!: fin_mono_cset dest: less_fin)

lemma relax_fin: "square n c \<Longrightarrow> i < n \<Longrightarrow> j < n \<Longrightarrow> cget c i k \<noteq> Inf \<Longrightarrow> cget c k j \<noteq> Inf \<Longrightarrow> cget (relax k i j c) i j \<noteq> Inf"
  using not_less_fin [of "cadd (cget c i k) (cget c k j)" "cget c i j"] by (auto simp: relax_def cadd_fin)

abbreviation relax_via :: "nat \<Rightarrow> nat \<Rightarrow> cost list list \<Rightarrow> cost list list" where
  "relax_via n k \<equiv> fold (\<lambda>i. fold (\<lambda>j. relax k i j) [0..<n]) [0..<n]"

lemma relax_row_mono: "square n c \<Longrightarrow> i < n \<Longrightarrow> fin_mono n c (fold (\<lambda>j. relax k i j) [0..<n] c)"
  by (rule fin_mono_fold) (auto intro: relax_mono)

lemma relax_via_mono: "square n c \<Longrightarrow> fin_mono n c (relax_via n k c)"
  by (rule fin_mono_fold) (auto intro: relax_row_mono)

lemma relax_via_fin:
  assumes "square n c" "k < n" "i < n" "j < n" "cget c i k \<noteq> Inf" "cget c k j \<noteq> Inf"
  shows "cget (relax_via n k c) i j \<noteq> Inf"
proof (rule fold_establishes [where x = i])
  fix c'
  assume c': "fin_mono n c c'"
  show "cget (fold (\<lambda>j. relax k i j) [0..<n] c') i j \<noteq> Inf"
  proof (rule fold_establishes [where x = j])
    fix c''
    assume "fin_mono n c' c''"
    then have "fin_mono n c c''" using c' fin_mono_trans by blast
    then show "cget (relax k i j c'') i j \<noteq> Inf" using assms by (intro relax_fin) (auto simp: fin_mono_def)
  qed (use assms c' fin_mono_square in \<open>auto intro: relax_mono\<close>)
qed (use assms in \<open>auto intro: relax_row_mono\<close>)

definition adjacent :: "topology_graph \<Rightarrow> nat \<Rightarrow> nat \<Rightarrow> bool" where
  "adjacent g i j \<longleftrightarrow> i < length (nodeNames g) \<and> (\<exists>e \<in> set (links g ! i). ed_to e = j \<and> ed_bandwidth e \<noteq> 0)"

definition graph_ok :: "topology_graph \<Rightarrow> bool" where
  "graph_ok g \<longleftrightarrow> length (links g) = length (nodeNames g) \<and> (\<forall>es \<in> set (links g). \<forall>e \<in> set es. ed_to e < length (nodeNames g))"

definition connected :: "topology_graph \<Rightarrow> bool" where
  "connected g \<longleftrightarrow> (\<forall>i < length (nodeNames g). \<forall>j < length (nodeNames g). (adjacent g)\<^sup>*\<^sup>* i j)"

inductive clos :: "topology_graph \<Rightarrow> nat \<Rightarrow> nat \<Rightarrow> nat \<Rightarrow> bool" for g k where
  clos_refl: "i < length (nodeNames g) \<Longrightarrow> clos g k i i"
| clos_edge: "adjacent g i j \<Longrightarrow> j < length (nodeNames g) \<Longrightarrow> clos g k i j"
| clos_via: "clos g k i z \<Longrightarrow> clos g k z j \<Longrightarrow> z < k \<Longrightarrow> clos g k i j"

lemma clos_bound: "clos g k i j \<Longrightarrow> i < length (nodeNames g) \<and> j < length (nodeNames g)"
  by (induction rule: clos.induct) (auto simp: adjacent_def)

lemma clos_Suc: "clos g (Suc k) i j \<Longrightarrow> clos g k i j \<or> (clos g k i k \<and> clos g k k j)"
proof (induction rule: clos.induct)
  case (clos_via i z j)
  then show ?case by (cases "z = k") (auto intro: clos.clos_via)
qed (auto intro: clos.intros)

lemma clos_all:
  assumes "graph_ok g" "(adjacent g)\<^sup>*\<^sup>* i j" "i < length (nodeNames g)"
  shows "clos g (length (nodeNames g)) i j"
  using assms(2,3)
proof (induction rule: rtranclp_induct)
  case (step y z)
  have "z < length (nodeNames g)" using assms(1) step(2) unfolding graph_ok_def adjacent_def by (metis nth_mem)
  then show ?case using step clos_bound [OF step(3)] by (auto intro: clos_via clos_edge)
qed (rule clos_refl)

lemma cost_start_fin: "square n (cost_start n) \<and> (\<forall>i < n. cget (cost_start n) i i \<noteq> Inf)"
proof -
  have sq: "square n (replicate n (replicate n Inf))" by (simp add: square_def)
  have "cget (cost_start n) i i \<noteq> Inf" if "i < n" for i
    unfolding cost_start_def
    by (rule fold_establishes [where x = i and n = n]) (use that sq in \<open>auto intro!: fin_mono_cset dest: fin_mono_square\<close>)
  moreover have "fin_mono n (replicate n (replicate n Inf)) (cost_start n)"
    unfolding cost_start_def by (rule fin_mono_fold) (use sq in \<open>auto intro!: fin_mono_cset\<close>)
  ultimately show ?thesis using fin_mono_square by blast
qed

abbreviation edge_step :: "nat \<Rightarrow> edge \<Rightarrow> cost list list \<Rightarrow> cost list list" where
  "edge_step i e c \<equiv> cset i (ed_to e) (cmin (cget c i (ed_to e)) (edge_cost e)) c"

lemma edge_row_mono:
  assumes "graph_ok g" "i < length (nodeNames g)" "square (length (nodeNames g)) c"
  shows "fin_mono (length (nodeNames g)) c (fold (edge_step i) (links g ! i) c)"
proof (rule fin_mono_fold [OF _ assms(3)])
  fix e c
  assume "e \<in> set (links g ! i)" and c: "square (length (nodeNames g)) c"
  then have "ed_to e < length (nodeNames g)" using assms(1,2) unfolding graph_ok_def by (metis nth_mem)
  then show "fin_mono (length (nodeNames g)) c (edge_step i e c)" using assms(2) c by (intro fin_mono_cset) (simp_all add: cmin_fin)
qed

lemma cost_edges_fin:
  assumes "graph_ok g"
  shows "fin_mono (length (nodeNames g)) (cost_start (length (nodeNames g))) (cost_edges g (cost_start (length (nodeNames g))))"
    and "adjacent g i j \<Longrightarrow> j < length (nodeNames g) \<Longrightarrow> cget (cost_edges g (cost_start (length (nodeNames g)))) i j \<noteq> Inf"
proof -
  let ?n = "length (nodeNames g)"
  have sq: "square ?n (cost_start ?n)" using cost_start_fin by blast
  show "fin_mono ?n (cost_start ?n) (cost_edges g (cost_start ?n))"
    unfolding cost_edges_def by (rule fin_mono_fold [OF _ sq]) (use edge_row_mono [OF assms] in auto)
  assume "adjacent g i j" and j: "j < ?n"
  then obtain e where i: "i < ?n" and e: "e \<in> set (links g ! i)" "ed_to e = j" "ed_bandwidth e \<noteq> 0" unfolding adjacent_def by blast
  show "cget (cost_edges g (cost_start ?n)) i j \<noteq> Inf"
    unfolding cost_edges_def
  proof (rule fold_establishes [where x = i, OF _ sq _ _ i j])
    fix c
    assume "fin_mono ?n (cost_start ?n) c"
    then have c: "square ?n c" by (rule fin_mono_square)
    show "cget (fold (edge_step i) (links g ! i) c) i j \<noteq> Inf"
    proof (rule fold_establishes [where x = e, OF e(1) c _ _ i j])
      fix c'
      assume "fin_mono ?n c c'"
      then have "square ?n c'" by (rule fin_mono_square)
      then show "cget (edge_step i e c') i j \<noteq> Inf" using i j e by (simp add: cget_cset [of ?n] cmin_fin edge_cost_def)
    next
      fix e' c'
      assume "e' \<in> set (links g ! i)" and c': "square ?n c'"
      then have "ed_to e' < ?n" using assms i unfolding graph_ok_def by (metis nth_mem)
      then show "fin_mono ?n c' (edge_step i e' c')" using i c' by (intro fin_mono_cset) (simp_all add: cmin_fin)
    qed
  qed (use i edge_row_mono [OF assms] in auto)
qed

lemma warshall:
  assumes "square n c" and "n = length (nodeNames g)"
    and "\<And>i. i < n \<Longrightarrow> cget c i i \<noteq> Inf" and "\<And>i j. adjacent g i j \<Longrightarrow> j < n \<Longrightarrow> cget c i j \<noteq> Inf"
  shows "k \<le> n \<Longrightarrow> square n (fold (relax_via n) [0..<k] c) \<and> (\<forall>i j. clos g k i j \<longrightarrow> cget (fold (relax_via n) [0..<k] c) i j \<noteq> Inf)"
proof (induction k)
  case 0
  have "cget c i j \<noteq> Inf" if "clos g 0 i j" for i j
    using that assms(2-4) by (cases rule: clos.cases) auto
  then show ?case using assms(1) by simp
next
  case (Suc k)
  let ?c = "fold (relax_via n) [0..<k] c"
  have sq: "square n ?c" and fin: "clos g k i j \<Longrightarrow> cget ?c i j \<noteq> Inf" for i j using Suc by auto
  have "cget (relax_via n k ?c) i j \<noteq> Inf" if ij: "clos g (Suc k) i j" for i j
  proof -
    have b: "i < n" "j < n" using clos_bound [OF ij] assms(2) by auto
    from clos_Suc [OF ij] show ?thesis
    proof
      assume "clos g k i j"
      then show ?thesis using relax_via_mono [OF sq] fin b unfolding fin_mono_def by blast
    next
      assume "clos g k i k \<and> clos g k k j"
      then show ?thesis using relax_via_fin [OF sq _ b] Suc.prems fin by simp
    qed
  qed
  then show ?case using fin_mono_square [OF relax_via_mono [OF sq]] by simp
qed

lemma connected_costs_finite:
  assumes "graph_ok g" "connected g" "i < length (nodeNames g)" "j < length (nodeNames g)"
  shows "cget (allPairsCost g) i j \<noteq> Inf"
proof -
  let ?n = "length (nodeNames g)" and ?c = "cost_edges g (cost_start (length (nodeNames g)))"
  note m = cost_edges_fin [OF assms(1)]
  have "cget ?c i i \<noteq> Inf" if "i < ?n" for i using m(1) cost_start_fin that unfolding fin_mono_def by blast
  then have "clos g ?n i j \<longrightarrow> cget (fold (relax_via ?n) [0..<?n] ?c) i j \<noteq> Inf"
    using warshall [OF fin_mono_square [OF m(1)] refl _ m(2)] by blast
  then show ?thesis using clos_all [OF assms(1) _ assms(3)] assms(2-4) unfolding connected_def allPairsCost_def relax_all_def by blast
qed

section \<open>Placements\<close>

lemma best_loop_mem: "fst (best_loop ok c xs r) = Some x \<Longrightarrow> (x \<in> set xs \<and> ok x) \<or> fst r = Some x"
  by (induction ok c xs r rule: best_loop.induct) (auto split: if_splits)

lemma best_loop_some: "fst r \<noteq> None \<Longrightarrow> fst (best_loop ok c xs r) \<noteq> None"
  by (induction ok c xs r rule: best_loop.induct) (auto split: if_splits)

lemma best_loop_finds:
  assumes "x \<in> set xs" "ok x" "c x \<noteq> Inf"
  shows "\<exists>y. fst (best_loop ok c xs (None, Inf)) = Some y \<and> y \<in> set xs \<and> ok y"
proof -
  have "fst (best_loop ok c xs (None, Inf)) \<noteq> None"
    using assms
  proof (induction xs)
    case (Cons y ys)
    show ?case
    proof (cases "ok y \<and> cless (c y) Inf")
      case True
      then show ?thesis using best_loop_some by fastforce
    next
      case False
      then have "x \<noteq> y" using Cons.prems by (cases "c y") auto
      then show ?thesis using False Cons by auto
    qed
  qed simp
  then obtain y where "fst (best_loop ok c xs (None, Inf)) = Some y" by blast
  then show ?thesis using best_loop_mem by fastforce
qed

text \<open>The placed tasks have distinct nodes, which are exactly the used ones.\<close>

definition place_inv :: "nat \<Rightarrow> nat \<Rightarrow> placement \<Rightarrow> bool" where
  "place_inv tasks nodes s \<longleftrightarrow> length (fst s) = tasks \<and> length (snd s) = nodes \<and> distinct (somes (fst s)) \<and>
     set (somes (fst s)) = {n. n < nodes \<and> snd s ! n}"

lemma assign_inv:
  assumes "place_inv tasks nodes s" "t < tasks" "fst s ! t = None" "n < nodes" "\<not> snd s ! n"
  shows "place_inv tasks nodes ((fst s)[t := Some n], (snd s)[n := True])"
proof -
  have m: "mset (somes ((fst s)[t := Some n])) = mset (n # somes (fst s))" using assms somes_put [of t "fst s" "Some n"] by (simp add: place_inv_def)
  then have "distinct (somes ((fst s)[t := Some n]))" using assms by (subst mset_eq_imp_distinct_iff [OF m]) (auto simp: place_inv_def)
  moreover have "set (somes ((fst s)[t := Some n])) = insert n (set (somes (fst s)))" using m by (metis list.set(2) set_mset_mset)
  ultimately show ?thesis using assms by (auto simp: place_inv_def nth_list_update)
qed

lemma free_nodes:
  assumes "place_inv tasks nodes s" "tasks \<le> nodes"
  shows "length (filter (\<lambda>x. x = None) (fst s)) \<le> card {n. n < nodes \<and> \<not> snd s ! n}"
proof -
  have "card {n. n < nodes \<and> snd s ! n} = length (somes (fst s))" using assms distinct_card [of "somes (fst s)"] by (simp add: place_inv_def)
  moreover have "card {n. n < nodes \<and> snd s ! n} + card {n. n < nodes \<and> \<not> snd s ! n} = card ({n. n < nodes \<and> snd s ! n} \<union> {n. n < nodes \<and> \<not> snd s ! n})"
    by (rule card_Un_disjoint [symmetric]) auto
  moreover have "{n. n < nodes \<and> snd s ! n} \<union> {n. n < nodes \<and> \<not> snd s ! n} = {..<nodes}" by auto
  moreover have "length (fst s) = tasks" using assms(1) by (simp add: place_inv_def)
  moreover have "length (filter (\<lambda>x. x = None) (fst s)) \<le> length (fst s)" by (rule length_filter_le)
  ultimately show ?thesis using somes_length [of "fst s"] assms(2) by simp
qed

lemma unplaced_count: "t < length xs \<Longrightarrow> xs ! t = None \<Longrightarrow> 0 < length (filter (\<lambda>x. x = None) xs)"
  by (auto simp: filter_empty_conv) (metis nth_mem)

lemma unplaced_count2:
  assumes "t < u" "u < length xs" "xs ! t = None" "xs ! u = None"
  shows "2 \<le> length (filter (\<lambda>x. x = None) xs)"
proof -
  have "take u xs ! t = None" "t < length (take u xs)" "drop u xs ! 0 = None" "0 < length (drop u xs)" using assms by auto
  then have "0 < length (filter (\<lambda>x. x = None) (take u xs))" "0 < length (filter (\<lambda>x. x = None) (drop u xs))" using unplaced_count by blast+
  moreover have "length (filter (\<lambda>x. x = None) xs) = length (filter (\<lambda>x. x = None) (take u xs)) + length (filter (\<lambda>x. x = None) (drop u xs))"
    by (metis append_take_drop_id filter_append length_append)
  ultimately show ?thesis by linarith
qed

lemma card_pos_ex: "0 < card {n. n < nodes \<and> \<not> (used :: bool list) ! n} \<Longrightarrow> \<exists>n < nodes. \<not> used ! n"
  by (metis (no_types, lifting) card.empty empty_Collect_eq less_numeral_extra(3))

definition costs_finite :: "nat \<Rightarrow> cost list list \<Rightarrow> bool" where
  "costs_finite nodes cost \<longleftrightarrow> (\<forall>i < nodes. \<forall>j < nodes. cget cost i j \<noteq> Inf)"

lemma bestFreeNode_finds:
  assumes "place_inv tasks nodes s" "tasks \<le> nodes" "t < tasks" "fst s ! t = None" "costs_finite nodes cost" "\<And>f. fixed = Some f \<Longrightarrow> f < nodes"
  shows "\<exists>n < nodes. bestFreeNode cost (snd s) fixed = Some n \<and> \<not> snd s ! n"
proof -
  have len: "length (snd s) = nodes" "length (fst s) = tasks" using assms(1) by (auto simp: place_inv_def)
  have "0 < card {n. n < nodes \<and> \<not> snd s ! n}" using free_nodes [OF assms(1,2)] unplaced_count [of t "fst s"] assms(3,4) len by linarith
  then obtain n where n: "n < nodes" "\<not> snd s ! n" using card_pos_ex by blast
  have "\<exists>y. bestFreeNode cost (snd s) fixed = Some y \<and> y \<in> set [0..<length (snd s)] \<and> \<not> snd s ! y"
    unfolding bestFreeNode_def by (rule best_loop_finds [of n]) (use n assms(5,6) len in \<open>auto simp: costs_finite_def split: option.split\<close>)
  then show ?thesis using len by auto
qed

lemma two_elems:
  assumes "2 \<le> card {n. n < nodes \<and> \<not> (used :: bool list) ! n}"
  shows "\<exists>a b. a < nodes \<and> b < nodes \<and> a \<noteq> b \<and> \<not> used ! a \<and> \<not> used ! b"
proof -
  obtain T where T: "T \<subseteq> {n. n < nodes \<and> \<not> used ! n}" "card T = 2" using obtain_subset_with_card_n [OF assms] by blast
  then obtain a b where "T = {a, b}" "a \<noteq> b" by (meson card_2_iff)
  then show ?thesis using T(1) by (intro exI [of _ a] exI [of _ b]) simp
qed

lemma bestFreePair_finds:
  assumes "place_inv tasks nodes s" "tasks \<le> nodes" "t < u" "u < tasks" "fst s ! t = None" "fst s ! u = None" "costs_finite nodes cost"
  shows "\<exists>a b. bestFreePair cost (snd s) = Some (a, b) \<and> a < nodes \<and> b < nodes \<and> a \<noteq> b \<and> \<not> snd s ! a \<and> \<not> snd s ! b"
proof -
  have len: "length (snd s) = nodes" "length (fst s) = tasks" using assms(1) by (auto simp: place_inv_def)
  have "2 \<le> card {n. n < nodes \<and> \<not> snd s ! n}" using free_nodes [OF assms(1,2)] unplaced_count2 [of t u "fst s"] assms len by simp
  then obtain a b where ab: "a < nodes" "b < nodes" "a \<noteq> b" "\<not> snd s ! a" "\<not> snd s ! b" using two_elems [of nodes "snd s"] by blast
  have "\<exists>y. bestFreePair cost (snd s) = Some y \<and> y \<in> set (concat (map (\<lambda>a. map (Pair a) [0..<length (snd s)]) [0..<length (snd s)])) \<and>
      (case y of (a, b) \<Rightarrow> \<not> snd s ! a \<and> b \<noteq> a \<and> \<not> snd s ! b)"
    unfolding bestFreePair_def
  proof (rule best_loop_finds [of "(a, b)"])
    show "(a, b) \<in> set (concat (map (\<lambda>a. map (Pair a) [0..<length (snd s)]) [0..<length (snd s)]))"
      using ab len by (auto intro!: bexI [of _ a])
  qed (use ab assms(7) len in \<open>auto simp: costs_finite_def\<close>)
  then show ?thesis using len by auto
qed

lemma place_inv_node: "place_inv tasks nodes s \<Longrightarrow> t < tasks \<Longrightarrow> fst s ! t = Some n \<Longrightarrow> n < nodes"
  using somes_nth [of t "fst s" n] by (auto simp: place_inv_def)

lemma place_pair_ok:
  assumes "place_inv tasks nodes s" "tasks \<le> nodes" "vp_i p < vp_j p" "vp_j p < tasks" "costs_finite nodes cost"
  shows "\<exists>s'. place_pair cost p s = Some s' \<and> place_inv tasks nodes s'"
proof -
  have i: "vp_i p < tasks" using assms by simp
  show ?thesis
  proof (cases "fst s ! vp_i p")
    case None
    show ?thesis
    proof (cases "fst s ! vp_j p")
      case N: None
      obtain a b where ab: "bestFreePair cost (snd s) = Some (a, b)" "a < nodes" "b < nodes" "a \<noteq> b" "\<not> snd s ! a" "\<not> snd s ! b"
        using bestFreePair_finds [OF assms(1-4) None N assms(5)] by blast
      have "place_inv tasks nodes ((fst s)[vp_i p := Some a], (snd s)[a := True])" by (rule assign_inv [OF assms(1) i None ab(2,5)])
      then have "place_inv tasks nodes ((fst s)[vp_i p := Some a, vp_j p := Some b], (snd s)[a := True, b := True])"
        using assign_inv [of tasks nodes "((fst s)[vp_i p := Some a], (snd s)[a := True])" "vp_j p" b] assms(3,4) N ab by simp
      then show ?thesis using None N ab by (simp add: place_pair_def assign_def)
    next
      case (Some b)
      obtain n where "n < nodes" "bestFreeNode cost (snd s) (Some b) = Some n" "\<not> snd s ! n"
        using bestFreeNode_finds [OF assms(1,2) i None assms(5), of "Some b"] place_inv_node [OF assms(1,4) Some] by auto
      then show ?thesis using assign_inv [OF assms(1) i None] None Some by (simp add: place_pair_def assign_def)
    qed
  next
    case (Some a)
    show ?thesis
    proof (cases "fst s ! vp_j p")
      case N: None
      obtain n where "n < nodes" "bestFreeNode cost (snd s) (Some a) = Some n" "\<not> snd s ! n"
        using bestFreeNode_finds [OF assms(1,2,4) N assms(5), of "Some a"] place_inv_node [OF assms(1) i Some] by auto
      then show ?thesis using assign_inv [OF assms(1,4) N] N Some by (simp add: place_pair_def assign_def)
    qed (use Some assms(1) in \<open>simp add: place_pair_def\<close>)
  qed
qed

lemma place_pairs_ok:
  assumes "place_inv tasks nodes s" "tasks \<le> nodes" "\<And>p. p \<in> set ps \<Longrightarrow> vp_i p < vp_j p \<and> vp_j p < tasks" "costs_finite nodes cost"
  shows "\<exists>s'. place_pairs cost ps s = Some s' \<and> place_inv tasks nodes s'"
  using assms(1,3)
proof (induction ps arbitrary: s)
  case (Cons p ps)
  have p: "vp_i p < vp_j p" "vp_j p < tasks" using Cons.prems(2) [of p] by simp_all
  obtain s1 where "place_pair cost p s = Some s1" "place_inv tasks nodes s1" using place_pair_ok [OF Cons.prems(1) assms(2) p assms(4)] by blast
  then show ?case using Cons by simp
qed simp

lemma place_rest_ok:
  assumes "place_inv tasks nodes s" "tasks \<le> nodes" "\<And>t. t \<in> set ts \<Longrightarrow> t < tasks" "costs_finite nodes cost"
  shows "\<exists>s'. place_rest cost ts s = Some s' \<and> place_inv tasks nodes s' \<and> (\<forall>t. t \<in> set ts \<or> fst s ! t \<noteq> None \<longrightarrow> t < tasks \<longrightarrow> fst s' ! t \<noteq> None)"
  using assms(1,3)
proof (induction ts arbitrary: s)
  case (Cons t ts)
  show ?case
  proof (cases "fst s ! t")
    case None
    obtain n where n: "n < nodes" "bestFreeNode cost (snd s) None = Some n" "\<not> snd s ! n"
      using bestFreeNode_finds [OF Cons.prems(1) assms(2) _ None assms(4), of None] Cons.prems(2) by auto
    let ?s = "((fst s)[t := Some n], (snd s)[n := True])"
    have inv: "place_inv tasks nodes ?s" using assign_inv [OF Cons.prems(1) _ None n(1,3)] Cons.prems(2) by simp
    have "fst ?s ! u \<noteq> None" if "u = t \<or> fst s ! u \<noteq> None" "u < tasks" for u
      using that Cons.prems(1) by (cases "u = t") (auto simp: place_inv_def)
    then show ?thesis using Cons.IH [OF inv] Cons.prems(2) None n(2) by (fastforce simp: assign_def)
  next
    case (Some n)
    then show ?thesis using Cons by fastforce
  qed
qed simp

lemma comm_pairs_ok: "p \<in> set (comm_pairs w) \<Longrightarrow> vp_i p < vp_j p \<and> vp_j p < numTasks w"
  by (auto simp: comm_pairs_def)

text \<open>
  On a connected topology with at least as many nodes as tasks, \<open>place\<close> succeeds whatever order the sort gives to
  pairs of equal volume: no access outside of a vector happens, every task gets a node of the topology and no two tasks
  share one.
\<close>

theorem place_injective:
  assumes "graph_ok topology" and "connected topology" and "numTasks workload \<le> length (nodeNames topology)"
    and "mset (srt (comm_pairs workload)) = mset (comm_pairs workload)"
  shows "\<exists>nodes. place srt topology workload = Some (map Some nodes) \<and> length nodes = numTasks workload \<and>
    distinct nodes \<and> (\<forall>n \<in> set nodes. n < length (nodeNames topology))"
proof -
  let ?n = "length (nodeNames topology)" and ?t = "numTasks workload" and ?c = "allPairsCost topology"
  let ?s = "(replicate ?t None, replicate ?n False)"
  have fin: "costs_finite ?n ?c" using connected_costs_finite [OF assms(1,2)] by (simp add: costs_finite_def)
  have "place_inv ?t ?n ?s" by (simp add: place_inv_def)
  moreover have "vp_i p < vp_j p \<and> vp_j p < ?t" if "p \<in> set (srt (comm_pairs workload))" for p
    using that comm_pairs_ok mset_eq_setD [OF assms(4)] by blast
  ultimately obtain s1 where s1: "place_pairs ?c (srt (comm_pairs workload)) ?s = Some s1" "place_inv ?t ?n s1"
    using place_pairs_ok [OF _ assms(3) _ fin] by blast
  obtain s2 where s2: "place_rest ?c [0..<?t] s1 = Some s2" "place_inv ?t ?n s2" "\<forall>t < ?t. fst s2 ! t \<noteq> None"
    using place_rest_ok [OF s1(2) assms(3) _ fin, of "[0..<?t]"] by auto
  have len: "length (fst s2) = ?t" using s2(2) by (simp add: place_inv_def)
  have all: "map Some (somes (fst s2)) = fst s2" using somes_all [of "fst s2"] s2(3) len by simp
  then have "length (somes (fst s2)) = ?t" using len by (metis length_map)
  moreover have "place srt topology workload = Some (map Some (somes (fst s2)))" using s1(1) s2(1) all by (simp add: place_def)
  ultimately show ?thesis using s2(2) unfolding place_inv_def by auto
qed

definition example_topology :: topology_graph where
  "example_topology = \<lparr>nodeNames = [''a'', ''b'', ''c''],
     links = [[\<lparr>ed_to = 1, ed_bandwidth = 10\<rparr>], [\<lparr>ed_to = 0, ed_bandwidth = 10\<rparr>, \<lparr>ed_to = 2, ed_bandwidth = 5\<rparr>], [\<lparr>ed_to = 1, ed_bandwidth = 5\<rparr>]]\<rparr>"

definition example_workload :: workload where
  "example_workload = \<lparr>numTasks = 3, commVolumeGb = [[0, 1, 4], [1, 0, 0], [4, 0, 0]]\<rparr>"

lemma example_connected: "connected example_topology"
proof -
  have e: "adjacent example_topology 0 1" "adjacent example_topology 1 0" "adjacent example_topology 1 2" "adjacent example_topology 2 1"
    by (simp_all add: adjacent_def example_topology_def)
  have "(adjacent example_topology)\<^sup>*\<^sup>* i 1 \<and> (adjacent example_topology)\<^sup>*\<^sup>* 1 i" if "i < 3" for i :: nat
  proof -
    have "i = 0 \<or> i = 1 \<or> i = 2" using that by linarith
    then show ?thesis using e by auto
  qed
  moreover have "length (nodeNames example_topology) = 3" by (simp add: example_topology_def)
  ultimately show ?thesis unfolding connected_def by (metis rtranclp_trans)
qed

theorem place_injective_witness:
  "\<exists>nodes. place (sort_key (\<lambda>p. - vp_volume p)) example_topology example_workload = Some (map Some nodes) \<and> length nodes = 3 \<and> distinct nodes"
proof -
  have "graph_ok example_topology" by (simp add: graph_ok_def example_topology_def)
  moreover have "numTasks example_workload = 3" by (simp add: example_workload_def)
  moreover have "length (nodeNames example_topology) = 3" by (simp add: example_topology_def)
  ultimately show ?thesis using place_injective [OF _ example_connected, of example_workload "sort_key (\<lambda>p. - vp_volume p)"] by auto
qed

end
