(* ===== verification/Dense_Matrix.thy ===== *)
theory Dense_Matrix
  imports Prelude "HOL-Library.Multiset"
begin

text \<open>
  \<open>distributed_training/autograd/matrix.h\<close>, the row-major matrix every training and inference component computes with,
  and the 2:4 sparsity masks of \<open>distributed_training/sparsity_training\<close>. Entries are of any ring (exact arithmetic; the
  order in which the loops add is kept). \<open>None\<close> is a failed assertion.
\<close>

section \<open>Matrices\<close>

record 'a matrix =
  mx_rows :: nat
  mx_cols :: nat
  mx_data :: "'a list"

definition mx_new :: "nat \<Rightarrow> nat \<Rightarrow> 'a :: zero matrix" where
  "mx_new rows cols = \<lparr>mx_rows = rows, mx_cols = cols, mx_data = replicate (rows * cols) 0\<rparr>"

definition mx_index :: "nat \<Rightarrow> nat \<Rightarrow> 'a matrix \<Rightarrow> nat option" where
  "mx_index r c m = (if r < mx_rows m \<and> c < mx_cols m then Some (r * mx_cols m + c) else None)"

definition mx_at :: "'a matrix \<Rightarrow> nat \<Rightarrow> nat \<Rightarrow> 'a option" where
  "mx_at m r c = map_option (\<lambda>i. mx_data m ! i) (mx_index r c m)"

definition mx_put :: "nat \<Rightarrow> nat \<Rightarrow> 'a \<Rightarrow> 'a matrix \<Rightarrow> 'a matrix option" where
  "mx_put r c v m = map_option (\<lambda>i. m\<lparr>mx_data := (mx_data m)[i := v]\<rparr>) (mx_index r c m)"

definition mx_size :: "'a matrix \<Rightarrow> nat" where
  "mx_size m = length (mx_data m)"

definition mx_fill :: "'a \<Rightarrow> 'a matrix \<Rightarrow> 'a matrix" where
  "mx_fill v m = m\<lparr>mx_data := map (\<lambda>_. v) (mx_data m)\<rparr>"

text \<open>The entry at a position known to be in range.\<close>

definition mx_get :: "'a matrix \<Rightarrow> nat \<Rightarrow> nat \<Rightarrow> 'a" where
  "mx_get m r c = mx_data m ! (r * mx_cols m + c)"

text \<open>The loops that assign every entry \<open>out(r, c)\<close> of a fresh matrix once.\<close>

definition mx_build :: "nat \<Rightarrow> nat \<Rightarrow> (nat \<Rightarrow> nat \<Rightarrow> 'a) \<Rightarrow> 'a matrix" where
  "mx_build rows cols f = \<lparr>mx_rows = rows, mx_cols = cols, mx_data = concat (map (\<lambda>r. map (f r) [0..<cols]) [0..<rows])\<rparr>"

definition mx_transpose :: "'a matrix \<Rightarrow> 'a matrix" where
  "mx_transpose m = mx_build (mx_cols m) (mx_rows m) (\<lambda>r c. mx_get m c r)"

text \<open>The accumulation of \<open>out(i, j)\<close> over \<open>k\<close>, which skips zero factors.\<close>

fun dot_loop :: "(nat \<Rightarrow> 'a :: semiring_0) \<Rightarrow> (nat \<Rightarrow> 'a) \<Rightarrow> nat list \<Rightarrow> 'a \<Rightarrow> 'a" where
  "dot_loop a b [] acc = acc"
| "dot_loop a b (k # ks) acc = dot_loop a b ks (if a k = 0 then acc else acc + a k * b k)"

definition mx_matmul :: "'a :: semiring_0 matrix \<Rightarrow> 'a matrix \<Rightarrow> 'a matrix option" where
  "mx_matmul m other = (if mx_cols m = mx_rows other
     then Some (mx_build (mx_rows m) (mx_cols other) (\<lambda>i j. dot_loop (\<lambda>k. mx_get m i k) (\<lambda>k. mx_get other k j) [0..<mx_cols m] 0)) else None)"

definition mx_zip :: "('a \<Rightarrow> 'a \<Rightarrow> 'a) \<Rightarrow> 'a matrix \<Rightarrow> 'a matrix \<Rightarrow> 'a matrix option" where
  "mx_zip f m other = (if mx_rows m = mx_rows other \<and> mx_cols m = mx_cols other
     then Some (m\<lparr>mx_data := map2 f (mx_data m) (mx_data other)\<rparr>) else None)"

definition mx_add :: "'a :: plus matrix \<Rightarrow> 'a matrix \<Rightarrow> 'a matrix option" where
  "mx_add = mx_zip (+)"

definition mx_sub :: "'a :: minus matrix \<Rightarrow> 'a matrix \<Rightarrow> 'a matrix option" where
  "mx_sub = mx_zip (-)"

definition mx_elementwise_mul :: "'a :: times matrix \<Rightarrow> 'a matrix \<Rightarrow> 'a matrix option" where
  "mx_elementwise_mul = mx_zip (*)"

definition mx_apply :: "('a \<Rightarrow> 'b) \<Rightarrow> 'a matrix \<Rightarrow> 'b matrix" where
  "mx_apply fn m = \<lparr>mx_rows = mx_rows m, mx_cols = mx_cols m, mx_data = map fn (mx_data m)\<rparr>"

definition mx_scale :: "'a :: times matrix \<Rightarrow> 'a \<Rightarrow> 'a matrix" where
  "mx_scale m scalar = mx_apply (\<lambda>v. v * scalar) m"

definition mx_add_row_broadcast :: "'a :: plus matrix \<Rightarrow> 'a matrix \<Rightarrow> 'a matrix option" where
  "mx_add_row_broadcast m row = (if mx_rows row = 1 \<and> mx_cols row = mx_cols m
     then Some (mx_build (mx_rows m) (mx_cols m) (\<lambda>r c. mx_get m r c + mx_get row 0 c)) else None)"

definition mx_sum_rows :: "'a :: comm_monoid_add matrix \<Rightarrow> 'a matrix" where
  "mx_sum_rows m = mx_build 1 (mx_cols m) (\<lambda>_ c. foldl (\<lambda>acc r. acc + mx_get m r c) 0 [0..<mx_rows m])"

definition mx_sum :: "'a :: comm_monoid_add matrix \<Rightarrow> 'a" where
  "mx_sum m = foldl (+) 0 (mx_data m)"

definition mx_add_inplace :: "'a :: semiring_0 matrix \<Rightarrow> 'a matrix \<Rightarrow> 'a \<Rightarrow> 'a matrix option" where
  "mx_add_inplace m other scale = mx_zip (\<lambda>x y. x + y * scale) m other"

section \<open>Laws\<close>

definition mx_ok :: "'a matrix \<Rightarrow> bool" where
  "mx_ok m \<longleftrightarrow> length (mx_data m) = mx_rows m * mx_cols m"

lemma length_build [simp]: "length (concat (map (\<lambda>r. map (f r) [0..<cols]) [0..<rows])) = rows * cols"
  by (induction rows) auto

lemma row_col_bound: "r < rows \<Longrightarrow> c < cols \<Longrightarrow> r * cols + c < rows * (cols :: nat)"
proof -
  assume "r < rows" "c < cols"
  then have "r * cols + c < Suc r * cols" "Suc r * cols \<le> rows * cols" by (simp, intro mult_le_mono1, simp)
  then show ?thesis by simp
qed

lemma nth_build: "r < rows \<Longrightarrow> c < cols \<Longrightarrow> concat (map (\<lambda>r. map (f r) [0..<cols]) [0..<rows]) ! (r * cols + c) = f r c"
proof (induction rows)
  case (Suc rows)
  show ?case
  proof (cases "r = rows")
    case True
    then show ?thesis using Suc.prems by (simp add: nth_append)
  next
    case False
    then have r: "r < rows" using Suc.prems by simp
    have "r * cols + c < rows * cols" using r Suc.prems(2) by (rule row_col_bound)
    then show ?thesis using Suc.IH [OF r Suc.prems(2)] by (simp add: nth_append)
  qed
qed simp

lemma build_simps [simp]: "mx_rows (mx_build r c f) = r" "mx_cols (mx_build r c f) = c" "mx_ok (mx_build r c f)"
  by (simp_all add: mx_build_def mx_ok_def)

lemma get_build [simp]: "i < r \<Longrightarrow> j < c \<Longrightarrow> mx_get (mx_build r c f) i j = f i j"
  by (simp add: mx_get_def mx_build_def nth_build)

lemma index_bound: "mx_ok m \<Longrightarrow> r < mx_rows m \<Longrightarrow> c < mx_cols m \<Longrightarrow> r * mx_cols m + c < length (mx_data m)"
  by (simp add: mx_ok_def row_col_bound)

text \<open>In-range accesses of a well-formed matrix stay inside of its data.\<close>

lemma mx_at_ok: "mx_ok m \<Longrightarrow> mx_at m r c = (if r < mx_rows m \<and> c < mx_cols m then Some (mx_get m r c) else None)"
  by (simp add: mx_at_def mx_index_def mx_get_def)

lemma mx_eqI:
  assumes "mx_ok a" "mx_ok b" "mx_rows a = mx_rows b" "mx_cols a = mx_cols b"
    and "\<And>i j. i < mx_rows a \<Longrightarrow> j < mx_cols a \<Longrightarrow> mx_get a i j = mx_get b i j"
  shows "a = (b :: 'a matrix)"
proof -
  have "mx_data a = mx_data b"
  proof (rule nth_equalityI)
    show "length (mx_data a) = length (mx_data b)" using assms(1-4) by (simp add: mx_ok_def)
    fix k
    assume k: "k < length (mx_data a)"
    have lt: "k < mx_rows a * mx_cols a" using k assms(1) by (simp add: mx_ok_def)
    then have c: "0 < mx_cols a" by (cases "mx_cols a") auto
    have "k div mx_cols a < mx_rows a" using lt by (simp add: less_mult_imp_div_less)
    then show "mx_data a ! k = mx_data b ! k" using assms(4) assms(5) [of "k div mx_cols a" "k mod mx_cols a"] c by (simp add: mx_get_def)
  qed
  then show ?thesis using assms(3,4) by simp
qed

lemma transpose_transpose: "mx_ok m \<Longrightarrow> mx_transpose (mx_transpose m) = m"
  by (rule mx_eqI) (simp_all add: mx_transpose_def)

lemma dot_loop_sum: "dot_loop a b ks acc = acc + (\<Sum>k \<leftarrow> ks. a k * b k)"
  by (induction a b ks acc rule: dot_loop.induct) (auto simp: add.assoc)

lemma dot_sum: "dot_loop a b [0..<n] 0 = (\<Sum>k < n. a k * b k)"
  by (simp add: dot_loop_sum interv_sum_list_conv_sum_set_nat atLeast0LessThan)

text \<open>Skipping zero factors does not change the product.\<close>

lemma matmul_entry:
  assumes "mx_matmul a b = Some c" "i < mx_rows a" "j < mx_cols b"
  shows "mx_get c i j = (\<Sum>k < mx_cols a. mx_get a i k * mx_get b k j)"
  using assms by (auto simp: mx_matmul_def dot_sum split: if_splits)

lemma matmul_shape: "mx_matmul a b = Some c \<Longrightarrow> mx_ok c \<and> mx_rows c = mx_rows a \<and> mx_cols c = mx_cols b"
  by (auto simp: mx_matmul_def split: if_splits)

lemma matmul_transpose:
  fixes a :: "'a :: comm_semiring_0 matrix"
  assumes "mx_matmul a b = Some c"
  shows "mx_matmul (mx_transpose b) (mx_transpose a) = Some (mx_transpose c)"
proof -
  have sh: "mx_cols a = mx_rows b" using assms by (simp add: mx_matmul_def split: if_splits)
  then obtain d where d: "mx_matmul (mx_transpose b) (mx_transpose a) = Some d" by (simp add: mx_matmul_def mx_transpose_def)
  have "d = mx_transpose c"
  proof (rule mx_eqI)
    fix i j
    assume ij: "i < mx_rows d" "j < mx_cols d"
    then have i: "i < mx_cols b" and j: "j < mx_rows a" using matmul_shape [OF d] by (simp_all add: mx_transpose_def)
    have "mx_get d i j = (\<Sum>k < mx_rows b. mx_get b k i * mx_get a j k)"
      using matmul_entry [OF d, of i j] i j sh by (simp add: mx_transpose_def)
    also have "\<dots> = mx_get c j i" using matmul_entry [OF assms j i] sh by (simp add: mult.commute)
    finally show "mx_get d i j = mx_get (mx_transpose c) i j" using i j matmul_shape [OF assms] by (simp add: mx_transpose_def)
  qed (use matmul_shape [OF d] matmul_shape [OF assms] in \<open>simp_all add: mx_transpose_def\<close>)
  then show ?thesis using d by simp
qed

lemma matmul_assoc:
  fixes a :: "'a :: semiring_0 matrix"
  assumes "mx_matmul a b = Some ab" "mx_matmul b c = Some bc"
  shows "mx_matmul ab c = mx_matmul a bc"
proof -
  have sh: "mx_cols a = mx_rows b" "mx_cols b = mx_rows c" using assms by (auto simp: mx_matmul_def split: if_splits)
  note s1 = matmul_shape [OF assms(1)] and s2 = matmul_shape [OF assms(2)]
  obtain x y where xy: "mx_matmul ab c = Some x" "mx_matmul a bc = Some y" using sh s1 s2 by (simp add: mx_matmul_def)
  have "x = y"
  proof (rule mx_eqI)
    fix i j
    assume "i < mx_rows x" "j < mx_cols x"
    then have i: "i < mx_rows a" and j: "j < mx_cols c" using matmul_shape [OF xy(1)] s1 by auto
    have "mx_get x i j = (\<Sum>k < mx_cols b. (\<Sum>l < mx_cols a. mx_get a i l * mx_get b l k) * mx_get c k j)"
      using matmul_entry [OF xy(1), of i j] matmul_entry [OF assms(1) i] i j s1 by simp
    also have "\<dots> = (\<Sum>l < mx_cols a. \<Sum>k < mx_cols b. mx_get a i l * (mx_get b l k * mx_get c k j))"
      by (simp add: sum_distrib_right mult.assoc) (rule sum.swap)
    also have "\<dots> = mx_get y i j"
      using matmul_entry [OF xy(2), of i j] matmul_entry [OF assms(2) _ j] i j s2 sh by (simp add: sum_distrib_left)
    finally show "mx_get x i j = mx_get y i j" .
  qed (use matmul_shape [OF xy(1)] matmul_shape [OF xy(2)] s1 s2 in simp_all)
  then show ?thesis using xy by simp
qed

text \<open>\<open>sum_rows\<close> is the adjoint of \<open>add_row_broadcast\<close>, as its comment says.\<close>

lemma foldl_sum: "foldl (\<lambda>acc r. acc + f r) (x :: 'a :: comm_monoid_add) [0..<n] = x + (\<Sum>r < n. f r)"
  by (induction n) (auto simp: ac_simps)

lemma sum_rows_adjoint:
  fixes g :: "'a :: comm_semiring_0 matrix"
  shows "(\<Sum>r < mx_rows g. \<Sum>c < mx_cols g. mx_get g r c * mx_get b 0 c) = (\<Sum>c < mx_cols g. mx_get (mx_sum_rows g) 0 c * mx_get b 0 c)"
  by (simp add: mx_sum_rows_def foldl_sum sum_distrib_right) (rule sum.swap)

section \<open>2:4 sparsity\<close>

text \<open>
  \<open>std::sort\<close> on the four rows of a group by descending magnitude; it does not fix the order of equal magnitudes, so it is
  an argument, with \<open>sorts\<close> what it promises.
\<close>

definition sorts :: "((nat \<Rightarrow> 'a :: linorder) \<Rightarrow> nat list \<Rightarrow> nat list) \<Rightarrow> bool" where
  "sorts srt \<longleftrightarrow> (\<forall>key idx. mset (srt key idx) = mset idx \<and> sorted_wrt (\<lambda>a b. key b \<le> key a) (srt key idx))"

definition group_order :: "((nat \<Rightarrow> 'a :: linordered_idom) \<Rightarrow> nat list \<Rightarrow> nat list) \<Rightarrow> 'a matrix \<Rightarrow> nat \<Rightarrow> nat \<Rightarrow> nat list" where
  "group_order srt w g c = srt (\<lambda>a. \<bar>mx_get w a c\<bar>) [g, g + 1, g + 2, g + 3]"

definition compute_2_4_mask :: "((nat \<Rightarrow> 'a :: linordered_idom) \<Rightarrow> nat list \<Rightarrow> nat list) \<Rightarrow> 'a matrix \<Rightarrow> 'a matrix option" where
  "compute_2_4_mask srt w = (if mx_rows w mod 4 \<noteq> 0 \<and> mx_cols w \<noteq> 0 then None
     else Some (mx_build (mx_rows w) (mx_cols w) (\<lambda>r c. if r \<in> set (take 2 (group_order srt w (4 * (r div 4)) c)) then 1 else 0)))"

definition apply_mask_inplace :: "'a :: times matrix \<Rightarrow> 'a matrix \<Rightarrow> 'a matrix" where
  "apply_mask_inplace m msk = mx_build (mx_rows m) (mx_cols m) (\<lambda>r c. mx_get m r c * mx_get msk r c)"

definition verify_2_4_property :: "'a :: zero matrix \<Rightarrow> bool option" where
  "verify_2_4_property w = (if mx_rows w mod 4 \<noteq> 0 \<and> mx_cols w \<noteq> 0 then None
     else Some (list_all (\<lambda>c. list_all (\<lambda>g. length (filter (\<lambda>k. mx_get w (4 * g + k) c \<noteq> 0) [0..<4]) = 2) [0..<mx_rows w div 4]) [0..<mx_cols w]))"

lemma group_order_props:
  assumes "sorts srt"
  shows "distinct (group_order srt w g c)" "set (group_order srt w g c) = {g, g + 1, g + 2, g + 3}" "length (group_order srt w g c) = 4"
    "sorted_wrt (\<lambda>a b. \<bar>mx_get w b c\<bar> \<le> \<bar>mx_get w a c\<bar>) (group_order srt w g c)"
proof -
  have m: "mset (group_order srt w g c) = mset [g, g + 1, g + 2, g + 3]" using assms by (simp add: sorts_def group_order_def)
  show "distinct (group_order srt w g c)" by (subst mset_eq_imp_distinct_iff [OF m]) simp
  show "set (group_order srt w g c) = {g, g + 1, g + 2, g + 3}" using mset_eq_setD [OF m] by simp
  show "length (group_order srt w g c) = 4" using mset_eq_length [OF m] by simp
  show "sorted_wrt (\<lambda>a b. \<bar>mx_get w b c\<bar> \<le> \<bar>mx_get w a c\<bar>) (group_order srt w g c)" using assms by (simp add: sorts_def group_order_def)
qed

lemma mask_entry:
  assumes "compute_2_4_mask srt w = Some msk" "g < mx_rows w div 4" "k < 4" "c < mx_cols w"
  shows "mx_get msk (4 * g + k) c = (if 4 * g + k \<in> set (take 2 (group_order srt w (4 * g) c)) then 1 else 0)"
proof -
  have "4 * g + k < mx_rows w" using assms(2,3) by linarith
  moreover have "(4 * g + k) div 4 = g" using assms(3) by simp
  ultimately show ?thesis using assms by (auto simp: compute_2_4_mask_def split: if_splits)
qed

text \<open>the mask keeps two entries of every group, and these are largest in magnitude.\<close>

lemma group_kept:
  assumes "sorts srt"
  shows "length (filter (\<lambda>k. 4 * g + k \<in> set (take 2 (group_order srt w (4 * g) c))) [0..<4]) = 2"
proof -
  let ?o = "group_order srt w (4 * g) c"
  note G = group_order_props [OF assms, of w "4 * g" c]
  have T: "set (take 2 ?o) \<subseteq> {4 * g, 4 * g + 1, 4 * g + 2, 4 * g + 3}" using G(2) set_take_subset [of 2 ?o] by simp
  have "bij_betw (\<lambda>k. 4 * g + k) {k. k < 4 \<and> 4 * g + k \<in> set (take 2 ?o)} (set (take 2 ?o))"
    unfolding bij_betw_def
  proof
    show "inj_on (\<lambda>k. 4 * g + k) {k. k < 4 \<and> 4 * g + k \<in> set (take 2 ?o)}" by (simp add: inj_on_def)
    have "\<exists>k < 4. x = 4 * g + k" if "x \<in> set (take 2 ?o)" for x
    proof -
      have "x = 4 * g + 0 \<or> x = 4 * g + 1 \<or> x = 4 * g + 2 \<or> x = 4 * g + 3" using T that by auto
      then show ?thesis by (elim disjE) (rule exI, rule conjI [rotated], assumption, simp)+
    qed
    then show "(\<lambda>k. 4 * g + k) ` {k. k < 4 \<and> 4 * g + k \<in> set (take 2 ?o)} = set (take 2 ?o)" by fastforce
  qed
  then have "card {k. k < 4 \<and> 4 * g + k \<in> set (take 2 ?o)} = card (set (take 2 ?o))" by (rule bij_betw_same_card)
  also have "\<dots> = 2" using distinct_card [of "take 2 ?o"] G(1,3) by simp
  finally show ?thesis by (simp add: length_filter_conv_card cong: conj_cong)
qed

lemma mask_2_4:
  assumes "sorts srt" "compute_2_4_mask srt w = Some msk"
  shows "verify_2_4_property msk = Some True"
proof -
  have sh: "mx_rows msk = mx_rows w" "mx_cols msk = mx_cols w" "\<not> (mx_rows w mod 4 \<noteq> 0 \<and> mx_cols w \<noteq> 0)"
    using assms(2) by (auto simp: compute_2_4_mask_def split: if_splits)
  have "length (filter (\<lambda>k. mx_get msk (4 * g + k) c \<noteq> 0) [0..<4]) = 2" if "g < mx_rows w div 4" "c < mx_cols w" for g c
  proof -
    have "filter (\<lambda>k. mx_get msk (4 * g + k) c \<noteq> 0) [0..<4] = filter (\<lambda>k. 4 * g + k \<in> set (take 2 (group_order srt w (4 * g) c))) [0..<4]"
      by (rule filter_cong) (auto simp: mask_entry [OF assms(2) that(1) _ that(2)])
    then show ?thesis using group_kept [OF assms(1)] by simp
  qed
  then show ?thesis using sh by (simp add: verify_2_4_property_def list_all_iff)
qed

lemma mask_keeps_largest:
  assumes "sorts srt" "compute_2_4_mask srt w = Some msk" "g < mx_rows w div 4" "c < mx_cols w" "j < 4" "k < 4"
    and "mx_get msk (4 * g + j) c = 1" "mx_get msk (4 * g + k) c = 0"
  shows "\<bar>mx_get w (4 * g + k) c\<bar> \<le> \<bar>mx_get w (4 * g + j) c\<bar>"
proof -
  let ?o = "group_order srt w (4 * g) c"
  note G = group_order_props [OF assms(1), of w "4 * g" c]
  have kept: "4 * g + j \<in> set (take 2 ?o)" "4 * g + k \<notin> set (take 2 ?o)"
    using assms(7,8) mask_entry [OF assms(2,3) assms(5) assms(4)] mask_entry [OF assms(2,3) assms(6) assms(4)] by (auto split: if_splits)
  have "k = 0 \<or> k = 1 \<or> k = 2 \<or> k = 3" using assms(6) by linarith
  then have "4 * g + k \<in> set ?o" using G(2) by auto
  then have "4 * g + k \<in> set (drop 2 ?o)" using kept(2) append_take_drop_id [of 2 ?o] by (metis UnE set_append)
  moreover have "sorted_wrt (\<lambda>a b. \<bar>mx_get w b c\<bar> \<le> \<bar>mx_get w a c\<bar>) (take 2 ?o @ drop 2 ?o)" using group_order_props(4) [OF assms(1), of w c "4 * g"] by simp
  ultimately show ?thesis using kept(1) unfolding sorted_wrt_append by blast
qed

lemma masked_weights_2_4:
  assumes "sorts srt" "compute_2_4_mask srt w = Some msk" "\<And>r c. r < mx_rows w \<Longrightarrow> c < mx_cols w \<Longrightarrow> mx_get w r c \<noteq> 0"
  shows "verify_2_4_property (apply_mask_inplace w msk) = Some True"
proof -
  have sh: "mx_rows msk = mx_rows w" "mx_cols msk = mx_cols w" using assms(2) by (auto simp: compute_2_4_mask_def split: if_splits)
  have "filter (\<lambda>k. mx_get (apply_mask_inplace w msk) (4 * g + k) c \<noteq> 0) [0..<4] = filter (\<lambda>k. mx_get msk (4 * g + k) c \<noteq> 0) [0..<4]"
    if "g < mx_rows w div 4" "c < mx_cols w" for g c
  proof (rule filter_cong)
    fix k :: nat
    assume "k \<in> set [0..<4]"
    then have "k < 4" by simp
    then have "4 * g + k < mx_rows w" using that(1) by linarith
    then show "(mx_get (apply_mask_inplace w msk) (4 * g + k) c \<noteq> 0) = (mx_get msk (4 * g + k) c \<noteq> 0)"
      using assms(3) that(2) by (simp add: apply_mask_inplace_def)
  qed simp
  then show ?thesis using mask_2_4 [OF assms(1,2)] sh by (auto simp: verify_2_4_property_def list_all_iff apply_mask_inplace_def split: if_splits)
qed

end
