(* ===== verification/Transformer.thy ===== *)
theory Transformer
  imports Dense_Matrix "HOL-Library.Monad_Syntax"
begin

text \<open>
  The forward pass of \<open>transformer/transformer_model.h\<close> with the layer normalisation of
  \<open>distributed_training/seq_parallel/layernorm.h\<close> and the row softmax of \<open>distributed_training/tensor_parallel_attn/attention.h\<close>.
  The arithmetic of \<open>float\<close> is a record of operations, so that nothing is assumed of it that the proofs do not name; every sum is
  accumulated in the order of the loops. A failed assertion of \<open>Matrix\<close>, a read behind the end of a vector and a division by a head
  count of zero are \<open>None\<close>. The caches the pass fills for training are left out.

  The result shown is causality: the logits of a position do not depend on later tokens. It is not a matter of the structure alone:
  later positions get the score \<open>-1e9\<close> and take part in the softmax, so it needs their weights to vanish (\<open>row_masked\<close>).
\<close>

section \<open>Arithmetic and matrices\<close>

record 'f float_ops =
  f_zero :: 'f
  f_one :: 'f
  f_add :: "'f \<Rightarrow> 'f \<Rightarrow> 'f"
  f_sub :: "'f \<Rightarrow> 'f \<Rightarrow> 'f"
  f_mul :: "'f \<Rightarrow> 'f \<Rightarrow> 'f"
  f_div :: "'f \<Rightarrow> 'f \<Rightarrow> 'f"
  f_less :: "'f \<Rightarrow> 'f \<Rightarrow> bool"
  f_eq :: "'f \<Rightarrow> 'f \<Rightarrow> bool"
  f_sqrt :: "'f \<Rightarrow> 'f"
  f_exp :: "'f \<Rightarrow> 'f"
  f_of_int :: "nat \<Rightarrow> 'f"
  f_eps :: 'f
  f_mask :: 'f

text \<open>\<open>Matrix::matmul\<close>, which skips a factor that compares equal to zero, and the operations built on the loops of \<open>Dense_Matrix\<close>.\<close>

fun fdot_loop :: "'f float_ops \<Rightarrow> (nat \<Rightarrow> 'f) \<Rightarrow> (nat \<Rightarrow> 'f) \<Rightarrow> nat list \<Rightarrow> 'f \<Rightarrow> 'f" where
  "fdot_loop fo a b [] acc = acc"
| "fdot_loop fo a b (k # ks) acc = fdot_loop fo a b ks (if f_eq fo (a k) (f_zero fo) then acc else f_add fo acc (f_mul fo (a k) (b k)))"

definition fm_matmul :: "'f float_ops \<Rightarrow> 'f matrix \<Rightarrow> 'f matrix \<Rightarrow> 'f matrix option" where
  "fm_matmul fo m other = (if mx_cols m = mx_rows other
     then Some (mx_build (mx_rows m) (mx_cols other) (\<lambda>i j. fdot_loop fo (mx_get m i) (\<lambda>k. mx_get other k j) [0..<mx_cols m] (f_zero fo))) else None)"

definition fm_add :: "'f float_ops \<Rightarrow> 'f matrix \<Rightarrow> 'f matrix \<Rightarrow> 'f matrix option" where
  "fm_add fo = mx_zip (f_add fo)"

definition fm_scale :: "'f float_ops \<Rightarrow> 'f matrix \<Rightarrow> 'f \<Rightarrow> 'f matrix" where
  "fm_scale fo m scalar = mx_apply (\<lambda>v. f_mul fo v scalar) m"

definition fm_add_row_broadcast :: "'f float_ops \<Rightarrow> 'f matrix \<Rightarrow> 'f matrix \<Rightarrow> 'f matrix option" where
  "fm_add_row_broadcast fo m row = (if mx_rows row = 1 \<and> mx_cols row = mx_cols m
     then Some (mx_build (mx_rows m) (mx_cols m) (\<lambda>r c. f_add fo (mx_get m r c) (mx_get row 0 c))) else None)"

section \<open>Layers\<close>

definition layernorm_row :: "'f float_ops \<Rightarrow> nat \<Rightarrow> (nat \<Rightarrow> 'f) \<Rightarrow> 'f matrix \<Rightarrow> 'f matrix \<Rightarrow> nat \<Rightarrow> 'f" where
  "layernorm_row fo h x gamma beta =
     (let mean = f_div fo (fold (\<lambda>j m. f_add fo m (x j)) [0..<h] (f_zero fo)) (f_of_int fo h);
          centered = (\<lambda>j. f_sub fo (x j) mean);
          var = f_div fo (fold (\<lambda>j v. f_add fo v (f_mul fo (centered j) (centered j))) [0..<h] (f_zero fo)) (f_of_int fo h);
          istd = f_div fo (f_one fo) (f_sqrt fo (f_add fo var (f_eps fo))) in
      (\<lambda>j. f_add fo (f_mul fo (f_mul fo (centered j) istd) (mx_get gamma 0 j)) (mx_get beta 0 j)))"

definition layernorm_forward :: "'f float_ops \<Rightarrow> 'f matrix \<Rightarrow> 'f matrix \<Rightarrow> 'f matrix \<Rightarrow> 'f matrix option" where
  "layernorm_forward fo x gamma beta = (let n = mx_rows x; h = mx_cols x in
     if n = 0 \<or> h = 0 \<or> (0 < mx_rows gamma \<and> h \<le> mx_cols gamma \<and> 0 < mx_rows beta \<and> h \<le> mx_cols beta)
     then Some (mx_build n h (\<lambda>i. layernorm_row fo h (mx_get x i) gamma beta)) else None)"

definition row_max :: "'f float_ops \<Rightarrow> (nat \<Rightarrow> 'f) \<Rightarrow> nat \<Rightarrow> 'f" where
  "row_max fo s n = fold (\<lambda>j m. if f_less fo m (s j) then s j else m) [1..<n] (s 0)"

definition row_denom :: "'f float_ops \<Rightarrow> (nat \<Rightarrow> 'f) \<Rightarrow> 'f \<Rightarrow> nat \<Rightarrow> 'f" where
  "row_denom fo s max_val n = fold (\<lambda>j d. f_add fo d (f_exp fo (f_sub fo (s j) max_val))) [0..<n] (f_zero fo)"

definition softmax_rows :: "'f float_ops \<Rightarrow> 'f matrix \<Rightarrow> 'f matrix option" where
  "softmax_rows fo s = (if mx_rows s = 0 \<or> 0 < mx_cols s
     then Some (mx_build (mx_rows s) (mx_cols s) (\<lambda>i j. let m = row_max fo (mx_get s i) (mx_cols s) in
       f_div fo (f_exp fo (f_sub fo (mx_get s i j) m)) (row_denom fo (mx_get s i) m (mx_cols s)))) else None)"

text \<open>The scores of an attention head before and after the mask.\<close>

definition attention_scores :: "'f float_ops \<Rightarrow> 'f matrix \<Rightarrow> 'f matrix \<Rightarrow> 'f matrix option" where
  "attention_scores fo q k = map_option (\<lambda>s. fm_scale fo s (f_div fo (f_one fo) (f_sqrt fo (f_of_int fo (mx_cols q))))) (fm_matmul fo q (mx_transpose k))"

definition causal_mask :: "'f float_ops \<Rightarrow> 'f matrix \<Rightarrow> 'f matrix" where
  "causal_mask fo s = mx_build (mx_rows s) (mx_cols s) (\<lambda>i j. if i < j then f_mask fo else mx_get s i j)"

definition causal_attention_forward :: "'f float_ops \<Rightarrow> 'f matrix \<Rightarrow> 'f matrix \<Rightarrow> 'f matrix \<Rightarrow> 'f matrix option" where
  "causal_attention_forward fo q k v = do {
     s \<leftarrow> attention_scores fo q k;
     a \<leftarrow> softmax_rows fo (causal_mask fo s);
     fm_matmul fo a v }"

record transformer_config =
  cf_vocab_size :: nat
  cf_d_model :: nat
  cf_num_heads :: nat
  cf_num_layers :: nat
  cf_d_ff :: nat
  cf_max_seq_len :: nat

definition head_dim :: "transformer_config \<Rightarrow> nat" where
  "head_dim cfg = cf_d_model cfg div cf_num_heads cfg"

record 'f block_params =
  bp_gamma1 :: "'f matrix"
  bp_beta1 :: "'f matrix"
  bp_wq :: "'f matrix"
  bp_wk :: "'f matrix"
  bp_wv :: "'f matrix"
  bp_wo :: "'f matrix"
  bp_gamma2 :: "'f matrix"
  bp_beta2 :: "'f matrix"
  bp_w1 :: "'f matrix"
  bp_b1 :: "'f matrix"
  bp_w2 :: "'f matrix"
  bp_b2 :: "'f matrix"

record 'f model_params =
  mp_token_emb :: "'f matrix"
  mp_pos_emb :: "'f matrix"
  mp_blocks :: "'f block_params list"
  mp_final_gamma :: "'f matrix"
  mp_final_beta :: "'f matrix"
  mp_w_out :: "'f matrix"
  mp_config :: transformer_config

text \<open>The columns of a head, and the heads side by side; columns no head covers stay zero.\<close>

definition head_cols :: "nat \<Rightarrow> nat \<Rightarrow> 'f matrix \<Rightarrow> 'f matrix option" where
  "head_cols hdim h m = (if mx_rows m = 0 \<or> hdim = 0 \<or> h * hdim + hdim \<le> mx_cols m then Some (mx_build (mx_rows m) hdim (\<lambda>i j. mx_get m i (h * hdim + j))) else None)"

definition concat_heads :: "'f float_ops \<Rightarrow> nat \<Rightarrow> nat \<Rightarrow> nat \<Rightarrow> 'f matrix list \<Rightarrow> 'f matrix" where
  "concat_heads fo seq d_model hdim ohs = mx_build seq d_model (\<lambda>i c. if c < length ohs * hdim then mx_get (ohs ! (c div hdim)) i (c mod hdim) else f_zero fo)"

definition head_forward :: "'f float_ops \<Rightarrow> nat \<Rightarrow> 'f matrix \<Rightarrow> 'f matrix \<Rightarrow> 'f matrix \<Rightarrow> nat \<Rightarrow> 'f matrix option" where
  "head_forward fo hdim q k v h = do {
     qh \<leftarrow> head_cols hdim h q;
     kh \<leftarrow> head_cols hdim h k;
     vh \<leftarrow> head_cols hdim h v;
     causal_attention_forward fo qh kh vh }"

fun all_heads :: "(nat \<Rightarrow> 'f matrix option) \<Rightarrow> nat list \<Rightarrow> 'f matrix list option" where
  "all_heads hf [] = Some []"
| "all_heads hf (h # hs) = do { oh \<leftarrow> hf h; ohs \<leftarrow> all_heads hf hs; Some (oh # ohs) }"

definition block_qkv :: "'f float_ops \<Rightarrow> 'f block_params \<Rightarrow> 'f matrix \<Rightarrow> ('f matrix \<times> 'f matrix \<times> 'f matrix) option" where
  "block_qkv fo p x = do {
     ln1_out \<leftarrow> layernorm_forward fo x (bp_gamma1 p) (bp_beta1 p);
     q \<leftarrow> fm_matmul fo ln1_out (bp_wq p);
     k \<leftarrow> fm_matmul fo ln1_out (bp_wk p);
     v \<leftarrow> fm_matmul fo ln1_out (bp_wv p);
     Some (q, k, v) }"

definition block_attention :: "'f float_ops \<Rightarrow> transformer_config \<Rightarrow> 'f block_params \<Rightarrow> 'f matrix \<Rightarrow> 'f matrix option" where
  "block_attention fo cfg p x = do {
     (q, k, v) \<leftarrow> block_qkv fo p x;
     ohs \<leftarrow> all_heads (head_forward fo (head_dim cfg) q k v) [0..<cf_num_heads cfg];
     attn_out \<leftarrow> fm_matmul fo (concat_heads fo (mx_rows x) (cf_d_model cfg) (head_dim cfg) ohs) (bp_wo p);
     fm_add fo x attn_out }"

definition relu :: "'f float_ops \<Rightarrow> 'f \<Rightarrow> 'f" where
  "relu fo v = (if f_less fo (f_zero fo) v then v else f_zero fo)"

definition block_mlp :: "'f float_ops \<Rightarrow> 'f block_params \<Rightarrow> 'f matrix \<Rightarrow> 'f matrix option" where
  "block_mlp fo p x_after_attn = do {
     ln2_out \<leftarrow> layernorm_forward fo x_after_attn (bp_gamma2 p) (bp_beta2 p);
     t1 \<leftarrow> fm_matmul fo ln2_out (bp_w1 p);
     mlp_pre1 \<leftarrow> fm_add_row_broadcast fo t1 (bp_b1 p);
     t2 \<leftarrow> fm_matmul fo (mx_apply (relu fo) mlp_pre1) (bp_w2 p);
     mlp_out \<leftarrow> fm_add_row_broadcast fo t2 (bp_b2 p);
     fm_add fo x_after_attn mlp_out }"

definition block_forward :: "'f float_ops \<Rightarrow> transformer_config \<Rightarrow> 'f block_params \<Rightarrow> 'f matrix \<Rightarrow> 'f matrix option" where
  "block_forward fo cfg p x = (if cf_num_heads cfg = 0 then None
     else do { x_after_attn \<leftarrow> block_attention fo cfg p x; block_mlp fo p x_after_attn })"

definition embed :: "'f float_ops \<Rightarrow> 'f model_params \<Rightarrow> nat list \<Rightarrow> 'f matrix option" where
  "embed fo p token_ids = (let d = cf_d_model (mp_config p) in
     if d = 0 \<or> list_all (\<lambda>t. t < mx_rows (mp_token_emb p)) token_ids \<and> length token_ids \<le> mx_rows (mp_pos_emb p) \<and>
          (token_ids = [] \<or> d \<le> mx_cols (mp_token_emb p) \<and> d \<le> mx_cols (mp_pos_emb p))
     then Some (mx_build (length token_ids) d (\<lambda>i j. f_add fo (mx_get (mp_token_emb p) (token_ids ! i) j) (mx_get (mp_pos_emb p) i j))) else None)"

fun run_blocks :: "'f float_ops \<Rightarrow> transformer_config \<Rightarrow> 'f block_params list \<Rightarrow> nat \<Rightarrow> 'f matrix \<Rightarrow> 'f matrix option" where
  "run_blocks fo cfg bs 0 x = Some x"
| "run_blocks fo cfg [] (Suc n) x = None"
| "run_blocks fo cfg (b # bs) (Suc n) x = do { y \<leftarrow> block_forward fo cfg b x; run_blocks fo cfg bs n y }"

definition model_forward :: "'f float_ops \<Rightarrow> 'f model_params \<Rightarrow> nat list \<Rightarrow> 'f matrix option" where
  "model_forward fo p token_ids = do {
     x0 \<leftarrow> embed fo p token_ids;
     x \<leftarrow> run_blocks fo (mp_config p) (mp_blocks p) (cf_num_layers (mp_config p)) x0;
     final_ln_out \<leftarrow> layernorm_forward fo x (mp_final_gamma p) (mp_final_beta p);
     fm_matmul fo final_ln_out (mp_w_out p) }"

section \<open>The mask\<close>

text \<open>
  The mask takes effect in a row of scores when \<open>-1e9\<close> is not above the maximum \<open>m\<close> of the positions up to the row's own, the
  exponential of \<open>-1e9 - m\<close> is zero, and zero divided by the denominator compares equal to zero. In IEEE arithmetic this holds unless
  the scores are extremely low or not finite.
\<close>

definition row_masked :: "'f float_ops \<Rightarrow> (nat \<Rightarrow> 'f) \<Rightarrow> nat \<Rightarrow> bool" where
  "row_masked fo s i \<longleftrightarrow> (let m = row_max fo s (Suc i) in \<not> f_less fo m (f_mask fo) \<and> f_exp fo (f_sub fo (f_mask fo) m) = f_zero fo \<and>
     f_eq fo (f_div fo (f_zero fo) (row_denom fo s m (Suc i))) (f_zero fo))"

definition head_masked :: "'f float_ops \<Rightarrow> nat \<Rightarrow> 'f matrix \<Rightarrow> 'f matrix \<Rightarrow> nat \<Rightarrow> bool" where
  "head_masked fo hdim q k h = (case do { qh \<leftarrow> head_cols hdim h q; kh \<leftarrow> head_cols hdim h k; attention_scores fo qh kh } of
     None \<Rightarrow> True | Some s \<Rightarrow> list_all (\<lambda>i. row_masked fo (mx_get s i) i) [0..<mx_rows s])"

definition block_masked :: "'f float_ops \<Rightarrow> transformer_config \<Rightarrow> 'f block_params \<Rightarrow> 'f matrix \<Rightarrow> bool" where
  "block_masked fo cfg p x = (case block_qkv fo p x of None \<Rightarrow> True
     | Some (q, k, v) \<Rightarrow> list_all (head_masked fo (head_dim cfg) q k) [0..<cf_num_heads cfg])"

fun blocks_masked :: "'f float_ops \<Rightarrow> transformer_config \<Rightarrow> 'f block_params list \<Rightarrow> nat \<Rightarrow> 'f matrix \<Rightarrow> bool" where
  "blocks_masked fo cfg (b # bs) (Suc n) x \<longleftrightarrow> block_masked fo cfg b x \<and> (case block_forward fo cfg b x of None \<Rightarrow> True | Some y \<Rightarrow> blocks_masked fo cfg bs n y)"
| "blocks_masked fo cfg bs n x \<longleftrightarrow> True"

definition model_masked :: "'f float_ops \<Rightarrow> 'f model_params \<Rightarrow> nat list \<Rightarrow> bool" where
  "model_masked fo p token_ids = (case embed fo p token_ids of None \<Rightarrow> True
     | Some x0 \<Rightarrow> blocks_masked fo (mp_config p) (mp_blocks p) (cf_num_layers (mp_config p)) x0)"

text \<open>Adding zero to a sum that ends in an exponential does not change it: IEEE addition, as the sum is not negative zero.\<close>

definition adds_zero :: "'f float_ops \<Rightarrow> bool" where
  "adds_zero fo \<longleftrightarrow> (\<forall>y x. f_add fo (f_add fo y (f_exp fo x)) (f_zero fo) = f_add fo y (f_exp fo x))"

lemma row_max_cong: "(\<And>j. j < n \<Longrightarrow> s j = t j) \<Longrightarrow> 0 < n \<Longrightarrow> row_max fo s n = row_max fo t n"
  unfolding row_max_def by (intro fold_cong) auto

lemma row_denom_cong: "(\<And>j. j < n \<Longrightarrow> s j = t j) \<Longrightarrow> row_denom fo s m n = row_denom fo t m n"
  unfolding row_denom_def by (intro fold_cong) auto

lemma row_masked_cong: "(\<And>j. j \<le> i \<Longrightarrow> s j = t j) \<Longrightarrow> row_masked fo s i = row_masked fo t i"
  unfolding row_masked_def Let_def using row_max_cong [of "Suc i" s t fo] row_denom_cong [of "Suc i" s t fo] by simp

lemma upt_split: "a \<le> Suc i \<Longrightarrow> i < n \<Longrightarrow> [a..<n] = [a..<Suc i] @ [Suc i..<n]"
  using upt_add_eq_append [of a "Suc i" "n - Suc i"] by simp

lemma row_max_masked:
  assumes "row_masked fo s i" "i < n" "\<And>j. i < j \<Longrightarrow> j < n \<Longrightarrow> s j = f_mask fo"
  shows "row_max fo s n = row_max fo s (Suc i)"
proof -
  have "fold (\<lambda>j m. if f_less fo m (s j) then s j else m) js m = m" if "\<forall>j \<in> set js. s j = f_mask fo" "\<not> f_less fo m (f_mask fo)" for js m
    using that by (induction js arbitrary: m) auto
  moreover have "[1..<n] = [1..<Suc i] @ [Suc i..<n]" using assms(2) by (intro upt_split) auto
  ultimately show ?thesis using assms(1,3) unfolding row_max_def row_masked_def Let_def by (simp del: upt_Suc)
qed

lemma row_denom_masked:
  assumes "adds_zero fo" "f_exp fo (f_sub fo (f_mask fo) m) = f_zero fo" "i < n" "\<And>j. i < j \<Longrightarrow> j < n \<Longrightarrow> s j = f_mask fo"
  shows "row_denom fo s m n = row_denom fo s m (Suc i)"
proof -
  let ?g = "\<lambda>j d. f_add fo d (f_exp fo (f_sub fo (s j) m))"
  have z: "fold ?g js d = d" if "\<forall>j \<in> set js. s j = f_mask fo" "f_add fo d (f_zero fo) = d" for js d
    using that assms(2) by (induction js) auto
  have "[0..<n] = [0..<Suc i] @ [Suc i..<n]" using assms(3) by (intro upt_split) auto
  moreover have "f_add fo (row_denom fo s m (Suc i)) (f_zero fo) = row_denom fo s m (Suc i)" using assms(1) by (simp add: row_denom_def adds_zero_def)
  ultimately show ?thesis using z [of "[Suc i..<n]"] assms(4) unfolding row_denom_def by (simp del: upt_Suc)
qed

lemma fdot_append: "fdot_loop fo a b (ks @ ls) acc = fdot_loop fo a b ls (fdot_loop fo a b ks acc)"
  by (induction ks arbitrary: acc) auto

lemma fdot_skip: "\<forall>k \<in> set ks. f_eq fo (a k) (f_zero fo) \<Longrightarrow> fdot_loop fo a b ks acc = acc"
  by (induction ks) auto

lemma fdot_cong: "(\<And>k. k \<in> set ks \<Longrightarrow> a k = a' k \<and> b k = b' k) \<Longrightarrow> fdot_loop fo a b ks acc = fdot_loop fo a' b' ks acc"
  by (induction ks arbitrary: acc) auto

text \<open>What a position attends to when the mask takes effect: the positions up to its own.\<close>

definition attend_row :: "'f float_ops \<Rightarrow> (nat \<Rightarrow> 'f) \<Rightarrow> (nat \<Rightarrow> 'f) \<Rightarrow> nat \<Rightarrow> 'f" where
  "attend_row fo s v i = (let m = row_max fo s (Suc i); d = row_denom fo s m (Suc i) in
     fdot_loop fo (\<lambda>j. f_div fo (f_exp fo (f_sub fo (s j) m)) d) v [0..<Suc i] (f_zero fo))"

lemma attend_row_cong: "(\<And>j. j \<le> i \<Longrightarrow> s j = t j \<and> v j = w j) \<Longrightarrow> attend_row fo s v i = attend_row fo t w i"
  unfolding attend_row_def Let_def using row_max_cong [of "Suc i" s t fo] row_denom_cong [of "Suc i" s t fo] by (simp, intro fdot_cong) auto

lemma attention_entry:
  assumes law: "adds_zero fo" and att: "causal_attention_forward fo q k v = Some r" and S: "attention_scores fo q k = Some s"
    and i: "i < mx_rows s" "i < mx_cols s" and c: "c < mx_cols v" and masked: "row_masked fo (mx_get s i) i"
  shows "mx_get r i c = attend_row fo (mx_get s i) (\<lambda>j. mx_get v j c) i"
proof -
  define n t where "n = mx_cols s" and "t = (\<lambda>j. if i < j then f_mask fo else mx_get s i j)"
  let ?M = "causal_mask fo s" and ?m = "row_max fo t (Suc i)"
  let ?d = "row_denom fo t ?m (Suc i)"
  have t: "mx_get ?M i j = t j" if "j < n" for j using that i by (simp add: causal_mask_def n_def t_def)
  have mt: "row_masked fo t i" using masked row_masked_cong [of i "mx_get s i" t fo] by (simp add: t_def)
  have n: "i < n" using i n_def by simp
  have "row_max fo (mx_get ?M i) n = row_max fo t n" "row_denom fo (mx_get ?M i) x n = row_denom fo t x n" for x
    using t n by (intro row_max_cong row_denom_cong; simp)+
  moreover have "row_max fo t n = ?m" using row_max_masked [OF mt n] by (simp add: t_def)
  moreover have e: "f_exp fo (f_sub fo (f_mask fo) ?m) = f_zero fo" "f_eq fo (f_div fo (f_zero fo) ?d) (f_zero fo)" using mt by (simp_all add: row_masked_def Let_def)
  moreover have "row_denom fo t ?m n = ?d" using row_denom_masked [OF law e(1) n] by (simp add: t_def)
  ultimately have md: "row_max fo (mx_get ?M i) n = ?m" "row_denom fo (mx_get ?M i) ?m n = ?d" by simp_all
  obtain a where a: "softmax_rows fo ?M = Some a" "fm_matmul fo a v = Some r" using att S by (auto simp: causal_attention_forward_def split: Option.bind_splits)
  have an: "mx_get a i j = f_div fo (f_exp fo (f_sub fo (t j) ?m)) ?d" "mx_cols a = n" "mx_rows a = mx_rows s" if "j < n" for j
    using a(1) md t [OF that] that i by (auto simp: softmax_rows_def causal_mask_def n_def Let_def split: if_splits)
  have "mx_get r i c = fdot_loop fo (mx_get a i) (\<lambda>j. mx_get v j c) [0..<n] (f_zero fo)"
    using a(2) an(2,3) [OF n] i(1) c by (auto simp: fm_matmul_def split: if_splits)
  also have "\<dots> = fdot_loop fo (\<lambda>j. f_div fo (f_exp fo (f_sub fo (t j) ?m)) ?d) (\<lambda>j. mx_get v j c) ([0..<Suc i] @ [Suc i..<n]) (f_zero fo)"
    unfolding upt_split [of 0 i n, OF le0 n, symmetric] by (intro fdot_cong) (use an(1) in auto)
  also have "\<dots> = fdot_loop fo (\<lambda>j. f_div fo (f_exp fo (f_sub fo (t j) ?m)) ?d) (\<lambda>j. mx_get v j c) [0..<Suc i] (f_zero fo)"
    unfolding fdot_append by (rule fdot_skip) (use e in \<open>auto simp: t_def\<close>)
  also have "\<dots> = attend_row fo t (\<lambda>j. mx_get v j c) i" by (simp add: attend_row_def Let_def)
  also have "\<dots> = attend_row fo (mx_get s i) (\<lambda>j. mx_get v j c) i" by (rule attend_row_cong) (simp add: t_def)
  finally show ?thesis .
qed

section \<open>Causality\<close>

text \<open>The run on a sequence and the run on its first \<open>n\<close> tokens agree on the first \<open>n\<close> rows; each layer keeps that.\<close>

definition same_rows :: "nat \<Rightarrow> 'f matrix \<Rightarrow> 'f matrix \<Rightarrow> bool" where
  "same_rows n A B \<longleftrightarrow> mx_ok A \<and> mx_ok B \<and> mx_rows B = n \<and> n \<le> mx_rows A \<and> mx_cols A = mx_cols B \<and>
     (\<forall>i < n. \<forall>j < mx_cols B. mx_get A i j = mx_get B i j)"

lemma same_rowsD:
  assumes "same_rows n A B"
  shows "mx_ok A" "mx_ok B" "mx_rows B = n" "n \<le> mx_rows A" "mx_cols A = mx_cols B" "i < n \<Longrightarrow> j < mx_cols B \<Longrightarrow> mx_get A i j = mx_get B i j"
  using assms by (auto simp: same_rows_def)

lemma same_rows_build: "n \<le> N \<Longrightarrow> (\<And>i j. i < n \<Longrightarrow> j < c \<Longrightarrow> f i j = g i j) \<Longrightarrow> same_rows n (mx_build N c f) (mx_build n c g)"
  by (simp add: same_rows_def)

lemma same_rows_matmul:
  assumes "same_rows n A B" "fm_matmul fo A W = Some A'"
  obtains B' where "fm_matmul fo B W = Some B'" "same_rows n A' B'" "mx_rows A' = mx_rows A"
proof -
  note S = same_rowsD [OF assms(1)]
  have w: "mx_cols B = mx_rows W" and A': "A' = mx_build (mx_rows A) (mx_cols W) (\<lambda>i j. fdot_loop fo (mx_get A i) (\<lambda>k. mx_get W k j) [0..<mx_cols B] (f_zero fo))"
    using assms(2) S(5) by (auto simp: fm_matmul_def split: if_splits)
  show thesis
  proof (rule that)
    show "fm_matmul fo B W = Some (mx_build n (mx_cols W) (\<lambda>i j. fdot_loop fo (mx_get B i) (\<lambda>k. mx_get W k j) [0..<mx_cols B] (f_zero fo)))"
      using w S(3) by (simp add: fm_matmul_def)
    show "same_rows n A' (mx_build n (mx_cols W) (\<lambda>i j. fdot_loop fo (mx_get B i) (\<lambda>k. mx_get W k j) [0..<mx_cols B] (f_zero fo)))"
      unfolding A' using S(4,6) by (intro same_rows_build fdot_cong) auto
  qed (simp add: A')
qed

lemma get_zip: "mx_ok A \<Longrightarrow> mx_ok B \<Longrightarrow> mx_zip f A B = Some C \<Longrightarrow> i < mx_rows A \<Longrightarrow> j < mx_cols A \<Longrightarrow> mx_get C i j = f (mx_get A i j) (mx_get B i j)"
  using index_bound [of A i j] index_bound [of B i j] by (auto simp: mx_zip_def mx_get_def split: if_splits)

lemma zip_shape: "mx_ok A \<Longrightarrow> mx_ok B \<Longrightarrow> mx_zip f A B = Some C \<Longrightarrow> mx_ok C \<and> mx_rows C = mx_rows A \<and> mx_cols C = mx_cols A"
  by (auto simp: mx_zip_def mx_ok_def split: if_splits)

lemma same_rows_add:
  assumes "same_rows n A B" "same_rows n A2 B2" "fm_add fo A A2 = Some A'"
  obtains B' where "fm_add fo B B2 = Some B'" "same_rows n A' B'" "mx_rows A' = mx_rows A"
proof -
  note S = same_rowsD [OF assms(1)] and T = same_rowsD [OF assms(2)]
  have c: "mx_cols B = mx_cols B2" using assms(3) S(5) T(5) by (auto simp: fm_add_def mx_zip_def split: if_splits)
  then obtain B' where B': "mx_zip (f_add fo) B B2 = Some B'" using S(3) T(3) by (simp add: mx_zip_def)
  note zA = get_zip [OF S(1) T(1) assms(3) [unfolded fm_add_def]] and zB = get_zip [OF S(2) T(2) B']
  note sA = zip_shape [OF S(1) T(1) assms(3) [unfolded fm_add_def]] and sB = zip_shape [OF S(2) T(2) B']
  have "same_rows n A' B'" unfolding same_rows_def using sA sB S T zA zB c by auto
  then show thesis using that B' sA by (simp add: fm_add_def)
qed

lemma same_rows_broadcast:
  assumes "same_rows n A B" "fm_add_row_broadcast fo A w = Some A'"
  obtains B' where "fm_add_row_broadcast fo B w = Some B'" "same_rows n A' B'" "mx_rows A' = mx_rows A"
proof -
  note S = same_rowsD [OF assms(1)]
  have w: "mx_rows w = 1 \<and> mx_cols w = mx_cols B" and A': "A' = mx_build (mx_rows A) (mx_cols B) (\<lambda>r c. f_add fo (mx_get A r c) (mx_get w 0 c))"
    using assms(2) S(5) by (auto simp: fm_add_row_broadcast_def split: if_splits)
  show thesis
    by (rule that [of "mx_build n (mx_cols B) (\<lambda>r c. f_add fo (mx_get B r c) (mx_get w 0 c))"])
      (use w S in \<open>auto simp: fm_add_row_broadcast_def A' intro: same_rows_build\<close>)
qed

lemma get_apply: "mx_ok A \<Longrightarrow> i < mx_rows A \<Longrightarrow> j < mx_cols A \<Longrightarrow> mx_get (mx_apply f A) i j = f (mx_get A i j)"
  using index_bound [of A i j] by (simp add: mx_apply_def mx_get_def)

lemma apply_shape [simp]: "mx_rows (mx_apply f A) = mx_rows A" "mx_cols (mx_apply f A) = mx_cols A" "mx_ok (mx_apply f A) = mx_ok A"
  by (simp_all add: mx_apply_def mx_ok_def)

lemma same_rows_apply: "same_rows n A B \<Longrightarrow> same_rows n (mx_apply f A) (mx_apply f B)"
  unfolding same_rows_def by (auto simp: get_apply)

lemma layernorm_row_cong:
  assumes "\<And>j. j < h \<Longrightarrow> x j = y j" "j < h"
  shows "layernorm_row fo h x gamma beta j = layernorm_row fo h y gamma beta j"
proof -
  have f: "fold (\<lambda>j m. F m (x j)) [0..<h] z = fold (\<lambda>j m. F m (y j)) [0..<h] z" for F z using assms(1) by (intro fold_cong) auto
  show ?thesis unfolding layernorm_row_def Let_def using assms f [of "f_add fo"] f [of "\<lambda>v u. f_add fo v (f_mul fo (f_sub fo u e) (f_sub fo u e))" for e] by simp
qed

lemma same_rows_layernorm:
  assumes "same_rows n A B" "layernorm_forward fo A gamma beta = Some A'"
  obtains B' where "layernorm_forward fo B gamma beta = Some B'" "same_rows n A' B'" "mx_rows A' = mx_rows A"
proof -
  note S = same_rowsD [OF assms(1)]
  have A': "A' = mx_build (mx_rows A) (mx_cols B) (\<lambda>i. layernorm_row fo (mx_cols B) (mx_get A i) gamma beta)"
    using assms(2) S(5) by (auto simp: layernorm_forward_def Let_def split: if_splits)
  show thesis
  proof (rule that [of "mx_build n (mx_cols B) (\<lambda>i. layernorm_row fo (mx_cols B) (mx_get B i) gamma beta)"])
    show "layernorm_forward fo B gamma beta = Some (mx_build n (mx_cols B) (\<lambda>i. layernorm_row fo (mx_cols B) (mx_get B i) gamma beta))"
      using assms(2) S by (auto simp: layernorm_forward_def Let_def split: if_splits)
  qed (use S in \<open>auto simp: A' intro!: same_rows_build layernorm_row_cong\<close>)
qed

lemma same_rows_head_cols:
  assumes "same_rows n A B" "head_cols hdim h A = Some A'"
  obtains B' where "head_cols hdim h B = Some B'" "same_rows n A' B'" "mx_rows A' = mx_rows A"
proof -
  note S = same_rowsD [OF assms(1)]
  have A': "A' = mx_build (mx_rows A) hdim (\<lambda>i j. mx_get A i (h * hdim + j))" using assms(2) by (auto simp: head_cols_def split: if_splits)
  have "n = 0 \<or> hdim = 0 \<or> h * hdim + hdim \<le> mx_cols B" using assms(2) S(4,5) by (auto simp: head_cols_def split: if_splits)
  then show thesis
    by (intro that [of "mx_build n hdim (\<lambda>i j. mx_get B i (h * hdim + j))"]) (use S in \<open>auto simp: A' head_cols_def intro!: same_rows_build\<close>)
qed

lemma scores_get:
  assumes "attention_scores fo q k = Some s" "i < mx_rows q" "j < mx_rows k"
  shows "mx_get s i j = f_mul fo (fdot_loop fo (mx_get q i) (mx_get k j) [0..<mx_cols q] (f_zero fo)) (f_div fo (f_one fo) (f_sqrt fo (f_of_int fo (mx_cols q))))"
proof -
  have c: "mx_cols k = mx_cols q" using assms(1) by (auto simp: attention_scores_def fm_matmul_def mx_transpose_def split: if_splits)
  have "fdot_loop fo (mx_get q i) (\<lambda>l. mx_get (mx_transpose k) l j) [0..<mx_cols q] z = fdot_loop fo (mx_get q i) (mx_get k j) [0..<mx_cols q] z" for z
    using assms(3) c by (intro fdot_cong) (simp add: mx_transpose_def)
  then show ?thesis using assms by (auto simp: attention_scores_def fm_matmul_def fm_scale_def get_apply mx_transpose_def split: if_splits)
qed

lemma scores_shape: "attention_scores fo q k = Some s \<Longrightarrow> mx_rows s = mx_rows q \<and> mx_cols s = mx_rows k \<and> mx_ok s \<and> mx_cols k = mx_cols q"
  by (auto simp: attention_scores_def fm_matmul_def fm_scale_def mx_transpose_def split: if_splits)

lemma attention_shape: "causal_attention_forward fo q k v = Some r \<Longrightarrow> mx_ok r \<and> mx_rows r = mx_rows q \<and> mx_cols r = mx_cols v \<and> mx_rows k = mx_rows v"
  by (auto simp: causal_attention_forward_def softmax_rows_def fm_matmul_def causal_mask_def dest: scores_shape split: Option.bind_splits if_splits)

lemma same_rows_attention:
  assumes law: "adds_zero fo" and q: "same_rows n q q'" and k: "same_rows n k k'" and v: "same_rows n v v'"
    and N: "mx_rows q = N" "mx_rows k = N" "mx_rows v = N"
    and att: "causal_attention_forward fo q k v = Some r" and S: "attention_scores fo q k = Some s"
    and masked: "\<And>i. i < N \<Longrightarrow> row_masked fo (mx_get s i) i"
  obtains r' where "causal_attention_forward fo q' k' v' = Some r'" "same_rows n r r'" "mx_rows r = N"
proof -
  note Q = same_rowsD [OF q] and K = same_rowsD [OF k] and V = same_rowsD [OF v]
  note sh = scores_shape [OF S]
  obtain s' where S': "attention_scores fo q' k' = Some s'" using sh Q K by (auto simp: attention_scores_def fm_matmul_def mx_transpose_def)
  note sh' = scores_shape [OF S']
  have same: "mx_get s i j = mx_get s' i j" if "i < n" "j < n" for i j
  proof -
    have "fdot_loop fo (mx_get q i) (mx_get k j) [0..<mx_cols q] z = fdot_loop fo (mx_get q' i) (mx_get k' j) [0..<mx_cols q] z" for z
      using that Q(5,6) K(5,6) sh by (intro fdot_cong) auto
    then show ?thesis using scores_get [OF S, of i j] scores_get [OF S', of i j] that Q K by simp
  qed
  have soft: "softmax_rows fo M = Some (mx_build (mx_rows M) (mx_cols M) (\<lambda>i j. let m = row_max fo (mx_get M i) (mx_cols M) in
       f_div fo (f_exp fo (f_sub fo (mx_get M i j) m)) (row_denom fo (mx_get M i) m (mx_cols M))))" if "mx_rows M = mx_cols M" for M
    using that by (auto simp: softmax_rows_def)
  have "mx_rows (causal_mask fo s') = n" "mx_cols (causal_mask fo s') = n" using sh' Q(3) K(3) by (simp_all add: causal_mask_def)
  then obtain r' where R': "causal_attention_forward fo q' k' v' = Some r'"
    using S' soft [of "causal_mask fo s'"] V(3) by (simp add: causal_attention_forward_def fm_matmul_def)
  have "mx_get r i c = mx_get r' i c" if i: "i < n" and c: "c < mx_cols v'" for i c
  proof -
    have m: "row_masked fo (mx_get s i) i" using masked i Q(4) N by simp
    have m': "row_masked fo (mx_get s' i) i" using m row_masked_cong [of i "mx_get s i" "mx_get s' i" fo] same i by simp
    have "mx_get r i c = attend_row fo (mx_get s i) (\<lambda>j. mx_get v j c) i"
      by (rule attention_entry [OF law att S _ _ _ m]) (use i c Q(4) N sh V(5) in auto)
    also have "\<dots> = attend_row fo (mx_get s' i) (\<lambda>j. mx_get v' j c) i" using same i c V(6) by (intro attend_row_cong) auto
    also have "\<dots> = mx_get r' i c" by (rule attention_entry [OF law R' S' _ _ _ m', symmetric]) (use i c Q(3) K(3) sh' in auto)
    finally show ?thesis .
  qed
  then have "same_rows n r r'" using attention_shape [OF att] attention_shape [OF R'] Q V N unfolding same_rows_def by simp
  then show thesis using that R' attention_shape [OF att] N by simp
qed

text \<open>Two computations related step by step: when the first has a value, so has the second, and the values are related.\<close>

definition follows :: "('a \<Rightarrow> 'b \<Rightarrow> bool) \<Rightarrow> 'a option \<Rightarrow> 'b option \<Rightarrow> bool" where
  "follows R a b \<longleftrightarrow> (\<forall>x. a = Some x \<longrightarrow> (\<exists>y. b = Some y \<and> R x y))"

lemma follows_bind: "follows R a b \<Longrightarrow> (\<And>x y. a = Some x \<Longrightarrow> R x y \<Longrightarrow> follows S (f x) (g y)) \<Longrightarrow> follows S (Option.bind a f) (Option.bind b g)"
  unfolding follows_def by (cases a; cases b) auto

lemma follows_Some: "R x y \<Longrightarrow> follows R (Some x) (Some y)"
  by (simp add: follows_def)

definition agree :: "nat \<Rightarrow> nat \<Rightarrow> 'f matrix \<Rightarrow> 'f matrix \<Rightarrow> bool" where
  "agree n N A B \<longleftrightarrow> same_rows n A B \<and> mx_rows A = N"

lemma follows_matmul: "agree n N A B \<Longrightarrow> follows (agree n N) (fm_matmul fo A W) (fm_matmul fo B W)"
  unfolding follows_def agree_def by (metis same_rows_matmul)

lemma follows_add: "agree n N A B \<Longrightarrow> agree n N A2 B2 \<Longrightarrow> follows (agree n N) (fm_add fo A A2) (fm_add fo B B2)"
  unfolding follows_def agree_def by (metis same_rows_add)

lemma follows_broadcast: "agree n N A B \<Longrightarrow> follows (agree n N) (fm_add_row_broadcast fo A w) (fm_add_row_broadcast fo B w)"
  unfolding follows_def agree_def by (metis same_rows_broadcast)

lemma follows_layernorm: "agree n N A B \<Longrightarrow> follows (agree n N) (layernorm_forward fo A gamma beta) (layernorm_forward fo B gamma beta)"
  unfolding follows_def agree_def by (metis same_rows_layernorm)

lemma follows_head_cols: "agree n N A B \<Longrightarrow> follows (agree n N) (head_cols hdim h A) (head_cols hdim h B)"
  unfolding follows_def agree_def by (metis same_rows_head_cols)

lemma agree_apply: "agree n N A B \<Longrightarrow> agree n N (mx_apply f A) (mx_apply f B)"
  by (simp add: agree_def same_rows_apply)

lemmas follows_layers = follows_matmul follows_add follows_broadcast follows_layernorm follows_head_cols

lemma follows_attention:
  assumes "adds_zero fo" "agree n N q q'" "agree n N k k'" "agree n N v v'"
    and masked: "\<And>s. attention_scores fo q k = Some s \<Longrightarrow> list_all (\<lambda>i. row_masked fo (mx_get s i) i) [0..<mx_rows s]"
  shows "follows (agree n N) (causal_attention_forward fo q k v) (causal_attention_forward fo q' k' v')"
  unfolding follows_def
proof (intro allI impI)
  fix r
  assume r: "causal_attention_forward fo q k v = Some r"
  then obtain s where s: "attention_scores fo q k = Some s" by (auto simp: causal_attention_forward_def split: Option.bind_splits)
  have m: "row_masked fo (mx_get s i) i" if "i < N" for i using masked [OF s] scores_shape [OF s] assms(2) that by (simp add: agree_def list_all_iff)
  obtain r' where "causal_attention_forward fo q' k' v' = Some r'" "same_rows n r r'" "mx_rows r = N"
    using same_rows_attention [OF assms(1) _ _ _ _ _ _ r s m, of n q' k' v'] assms(2-4) by (auto simp: agree_def)
  then show "\<exists>r'. causal_attention_forward fo q' k' v' = Some r' \<and> agree n N r r'" by (auto simp: agree_def)
qed

lemma follows_head:
  assumes "adds_zero fo" "agree n N q q'" "agree n N k k'" "agree n N v v'" "head_masked fo hdim q k h"
  shows "follows (agree n N) (head_forward fo hdim q k v h) (head_forward fo hdim q' k' v' h)"
  unfolding head_forward_def
  by (rule follows_bind [OF follows_head_cols [OF assms(2)]], rule follows_bind [OF follows_head_cols [OF assms(3)]],
      rule follows_bind [OF follows_head_cols [OF assms(4)]], rule follows_attention [OF assms(1)])
    (use assms(5) in \<open>auto simp: head_masked_def\<close>)

lemma follows_heads:
  assumes "\<And>h. h \<in> set hs \<Longrightarrow> follows R (f h) (g h)"
  shows "follows (list_all2 R) (all_heads f hs) (all_heads g hs)"
  using assms by (induction hs) (auto intro!: follows_bind follows_Some)

lemma all_heads_length: "all_heads f hs = Some ohs \<Longrightarrow> length ohs = length hs"
  by (induction hs arbitrary: ohs) (auto split: Option.bind_splits)

lemma head_cols_shape: "head_cols hdim h A = Some B \<Longrightarrow> mx_cols B = hdim"
  by (auto simp: head_cols_def split: if_splits)

lemma head_forward_cols: "head_forward fo hdim q k v h = Some r \<Longrightarrow> mx_cols r = hdim"
  by (auto simp: head_forward_def dest!: attention_shape dest: head_cols_shape split: Option.bind_splits)

lemma all_heads_nth: "all_heads f hs = Some ohs \<Longrightarrow> i < length hs \<Longrightarrow> f (hs ! i) = Some (ohs ! i)"
  by (induction hs arbitrary: ohs i) (auto simp: nth_Cons split: Option.bind_splits nat.splits)

lemma agree_concat:
  assumes "list_all2 (agree n N) ohs ohs'" "n \<le> N" "\<And>A. A \<in> set ohs \<Longrightarrow> mx_cols A = hdim"
  shows "agree n N (concat_heads fo N d hdim ohs) (concat_heads fo n d hdim ohs')"
proof -
  note L = list_all2_lengthD [OF assms(1)] list_all2_nthD [OF assms(1)]
  have "mx_get (ohs ! (c div hdim)) i (c mod hdim) = mx_get (ohs' ! (c div hdim)) i (c mod hdim)" if "i < n" "c < length ohs * hdim" for i c
  proof -
    have h: "c div hdim < length ohs" "0 < hdim" using that(2) by (auto simp: less_mult_imp_div_less intro: Nat.gr0I)
    have "same_rows n (ohs ! (c div hdim)) (ohs' ! (c div hdim))" using L(2) [OF h(1)] by (simp add: agree_def)
    from same_rowsD(5,6) [OF this] show ?thesis using that(1) h assms(3) [OF nth_mem [OF h(1)]] by simp
  qed
  then show ?thesis using assms(2) L(1) unfolding agree_def concat_heads_def by (auto intro!: same_rows_build)
qed

lemma follows_qkv:
  fixes fo :: "'f float_ops"
  assumes "agree n N x x'"
  shows "follows (\<lambda>(q, k, v) (q', k', v'). agree n N q q' \<and> agree n N k k' \<and> agree n N v v') (block_qkv fo p x) (block_qkv fo p x')"
  unfolding block_qkv_def
proof (rule follows_bind [OF follows_layernorm [OF assms]])
  fix y y' :: "'f matrix"
  assume "agree n N y y'"
  note m = follows_bind [OF follows_matmul [OF this]]
  show "follows (\<lambda>(q, k, v) (q', k', v'). agree n N q q' \<and> agree n N k k' \<and> agree n N v v')
      (fm_matmul fo y (bp_wq p) \<bind> (\<lambda>q. fm_matmul fo y (bp_wk p) \<bind> (\<lambda>k. fm_matmul fo y (bp_wv p) \<bind> (\<lambda>v. Some (q, k, v)))))
      (fm_matmul fo y' (bp_wq p) \<bind> (\<lambda>q. fm_matmul fo y' (bp_wk p) \<bind> (\<lambda>k. fm_matmul fo y' (bp_wv p) \<bind> (\<lambda>v. Some (q, k, v)))))"
    by (rule m, rule m, rule m) (simp add: follows_Some)
qed

lemma follows_attention_block:
  assumes law: "adds_zero fo" and x: "agree n N x x'" and masked: "block_masked fo cfg p x"
  shows "follows (agree n N) (block_attention fo cfg p x) (block_attention fo cfg p x')"
  unfolding block_attention_def
proof (rule follows_bind [OF follows_qkv [OF x]], clarify)
  fix q k v q' k' v'
  let ?H = "head_dim cfg"
  assume e: "block_qkv fo p x = Some (q, k, v)" and q: "agree n N q q'" and k: "agree n N k k'" and v: "agree n N v v'"
  have hd: "follows (agree n N) (head_forward fo ?H q k v h) (head_forward fo ?H q' k' v' h)" if "h \<in> set [0..<cf_num_heads cfg]" for h
    by (rule follows_head [OF law q k v]) (use masked e that in \<open>auto simp: block_masked_def list_all_iff\<close>)
  have N: "mx_rows x = N" "mx_rows x' = n" "n \<le> N" using x by (auto simp: agree_def same_rows_def)
  show "follows (agree n N)
      (all_heads (head_forward fo ?H q k v) [0..<cf_num_heads cfg] \<bind> (\<lambda>ohs. fm_matmul fo (concat_heads fo (mx_rows x) (cf_d_model cfg) ?H ohs) (bp_wo p) \<bind> fm_add fo x))
      (all_heads (head_forward fo ?H q' k' v') [0..<cf_num_heads cfg] \<bind> (\<lambda>ohs. fm_matmul fo (concat_heads fo (mx_rows x') (cf_d_model cfg) ?H ohs) (bp_wo p) \<bind> fm_add fo x'))"
  proof (rule follows_bind [OF follows_heads [OF hd]], assumption)
    fix ohs ohs'
    assume o: "all_heads (head_forward fo ?H q k v) [0..<cf_num_heads cfg] = Some ohs" and oo: "list_all2 (agree n N) ohs ohs'"
    have "mx_cols A = ?H" if "A \<in> set ohs" for A
      using that all_heads_nth [OF o] all_heads_length [OF o] by (auto simp: in_set_conv_nth dest!: head_forward_cols)
    from agree_concat [OF oo N(3) this]
    have c: "agree n N (concat_heads fo (mx_rows x) (cf_d_model cfg) ?H ohs) (concat_heads fo (mx_rows x') (cf_d_model cfg) ?H ohs')"
      by (simp add: N)
    show "follows (agree n N) (fm_matmul fo (concat_heads fo (mx_rows x) (cf_d_model cfg) ?H ohs) (bp_wo p) \<bind> fm_add fo x)
        (fm_matmul fo (concat_heads fo (mx_rows x') (cf_d_model cfg) ?H ohs') (bp_wo p) \<bind> fm_add fo x')"
      by (rule follows_bind [OF follows_matmul [OF c]], rule follows_add [OF x])
  qed
qed

lemma follows_mlp:
  assumes x: "agree n N x x'"
  shows "follows (agree n N) (block_mlp fo p x) (block_mlp fo p x')"
  unfolding block_mlp_def
  by (rule follows_bind [OF follows_layernorm [OF x]], erule follows_bind [OF follows_matmul], erule follows_bind [OF follows_broadcast],
      rule follows_bind, erule follows_matmul [OF agree_apply], erule follows_bind [OF follows_broadcast], erule follows_add [OF x])

lemma follows_block:
  assumes "adds_zero fo" "agree n N x x'" "block_masked fo cfg p x"
  shows "follows (agree n N) (block_forward fo cfg p x) (block_forward fo cfg p x')"
proof (cases "cf_num_heads cfg = 0")
  case False
  then show ?thesis unfolding block_forward_def
    by (simp, intro follows_bind [OF follows_attention_block [OF assms]] follows_mlp)
qed (simp add: block_forward_def follows_def)

lemma follows_run_blocks:
  assumes "adds_zero fo" "agree n N x x'" "blocks_masked fo cfg bs l x"
  shows "follows (agree n N) (run_blocks fo cfg bs l x) (run_blocks fo cfg bs l x')"
  using assms
proof (induction fo cfg bs l x arbitrary: x' rule: run_blocks.induct)
  case (3 fo cfg b bs l x)
  then show ?case unfolding run_blocks.simps
  proof (intro follows_bind [OF follows_block])
    fix y y' assume "block_forward fo cfg b x = Some y" "agree n N y y'"
    then show "follows (agree n N) (run_blocks fo cfg bs l y) (run_blocks fo cfg bs l y')" using 3 by simp
  qed (use 3 in auto)
qed (simp_all add: follows_def)

text \<open>Causality of the whole pass.\<close>

lemma model_forward_prefix:
  assumes law: "adds_zero fo" and masked: "model_masked fo p (xs @ ys)"
  shows "follows (same_rows (length xs)) (model_forward fo p (xs @ ys)) (model_forward fo p xs)"
proof -
  let ?n = "length xs" and ?N = "length (xs @ ys)" and ?l = "cf_num_layers (mp_config p)"
  have e: "follows (agree ?n ?N) (embed fo p (xs @ ys)) (embed fo p xs)"
    unfolding embed_def Let_def follows_def by (auto simp: agree_def nth_append intro!: same_rows_build)
  have r: "follows (agree ?n ?N) (run_blocks fo (mp_config p) (mp_blocks p) ?l x) (run_blocks fo (mp_config p) (mp_blocks p) ?l x')"
    if "embed fo p (xs @ ys) = Some x" "agree ?n ?N x x'" for x x'
    by (rule follows_run_blocks [OF law that(2)]) (use masked that(1) in \<open>simp add: model_masked_def\<close>)
  have "follows (agree ?n ?N) (model_forward fo p (xs @ ys)) (model_forward fo p xs)"
    unfolding model_forward_def
    by (rule follows_bind [OF e], rule follows_bind [OF r], assumption, assumption, erule follows_bind [OF follows_layernorm], erule follows_matmul)
  then show ?thesis by (auto simp: follows_def agree_def)
qed

section \<open>Shapes\<close>

text \<open>A model whose matrices have the sizes of its configuration, as \<open>init_model\<close> makes them.\<close>

definition shaped :: "nat \<Rightarrow> nat \<Rightarrow> 'f matrix \<Rightarrow> bool" where
  "shaped r c m \<longleftrightarrow> mx_ok m \<and> mx_rows m = r \<and> mx_cols m = c"

definition block_ok :: "transformer_config \<Rightarrow> 'f block_params \<Rightarrow> bool" where
  "block_ok cfg p = (let d = cf_d_model cfg; f = cf_d_ff cfg in
     shaped 1 d (bp_gamma1 p) \<and> shaped 1 d (bp_beta1 p) \<and> shaped d d (bp_wq p) \<and> shaped d d (bp_wk p) \<and> shaped d d (bp_wv p) \<and> shaped d d (bp_wo p) \<and>
     shaped 1 d (bp_gamma2 p) \<and> shaped 1 d (bp_beta2 p) \<and> shaped d f (bp_w1 p) \<and> shaped 1 f (bp_b1 p) \<and> shaped f d (bp_w2 p) \<and> shaped 1 d (bp_b2 p))"

definition model_ok :: "'f model_params \<Rightarrow> bool" where
  "model_ok p = (let cfg = mp_config p; d = cf_d_model cfg in
     0 < d \<and> 0 < cf_num_heads cfg \<and> shaped (cf_vocab_size cfg) d (mp_token_emb p) \<and> shaped (cf_max_seq_len cfg) d (mp_pos_emb p) \<and>
     length (mp_blocks p) = cf_num_layers cfg \<and> list_all (block_ok cfg) (mp_blocks p) \<and>
     shaped 1 d (mp_final_gamma p) \<and> shaped 1 d (mp_final_beta p) \<and> shaped d (cf_vocab_size cfg) (mp_w_out p))"

definition yields :: "('a \<Rightarrow> bool) \<Rightarrow> 'a option \<Rightarrow> bool" where
  "yields P a \<longleftrightarrow> (\<exists>x. a = Some x \<and> P x)"

lemma yields_bind: "yields P a \<Longrightarrow> (\<And>x. P x \<Longrightarrow> yields Q (f x)) \<Longrightarrow> yields Q (Option.bind a f)"
  by (auto simp: yields_def)

lemma yields_Some [simp]: "yields P (Some x) = P x"
  by (simp add: yields_def)

lemma yields_matmul: "shaped n a A \<Longrightarrow> shaped a b W \<Longrightarrow> yields (shaped n b) (fm_matmul fo A W)"
  by (simp add: fm_matmul_def shaped_def)

lemma yields_add: "shaped n a A \<Longrightarrow> shaped n a B \<Longrightarrow> yields (shaped n a) (fm_add fo A B)"
  by (simp add: fm_add_def mx_zip_def shaped_def mx_ok_def)

lemma yields_broadcast: "shaped n a A \<Longrightarrow> shaped 1 a W \<Longrightarrow> yields (shaped n a) (fm_add_row_broadcast fo A W)"
  by (simp add: fm_add_row_broadcast_def shaped_def)

lemma yields_layernorm: "shaped n a A \<Longrightarrow> shaped 1 a gamma \<Longrightarrow> shaped 1 a beta \<Longrightarrow> yields (shaped n a) (layernorm_forward fo A gamma beta)"
  by (simp add: layernorm_forward_def shaped_def Let_def)

lemma yields_attention: "shaped n a q \<Longrightarrow> shaped n a k \<Longrightarrow> shaped n b v \<Longrightarrow> yields (shaped n b) (causal_attention_forward fo q k v)"
  by (auto simp: causal_attention_forward_def attention_scores_def fm_matmul_def softmax_rows_def causal_mask_def fm_scale_def mx_transpose_def shaped_def)

lemma yields_head:
  assumes "shaped n d q" "shaped n d k" "shaped n d v" "h * hdim + hdim \<le> d"
  shows "yields (shaped n hdim) (head_forward fo hdim q k v h)"
proof -
  have c: "yields (shaped n hdim) (head_cols hdim h A)" if "shaped n d A" for A :: "'a matrix" using that assms(4) by (simp add: head_cols_def shaped_def)
  show ?thesis unfolding head_forward_def
    by (rule yields_bind [OF c [OF assms(1)]], rule yields_bind [OF c [OF assms(2)]], rule yields_bind [OF c [OF assms(3)]], rule yields_attention)
qed

lemma head_cols_fit: "h < cf_num_heads cfg \<Longrightarrow> h * head_dim cfg + head_dim cfg \<le> cf_d_model cfg"
proof -
  assume "h < cf_num_heads cfg"
  then have "Suc h * head_dim cfg \<le> cf_num_heads cfg * head_dim cfg" by (intro mult_le_mono1) simp
  also have "\<dots> \<le> cf_d_model cfg" by (simp add: head_dim_def)
  finally show ?thesis by simp
qed

lemma yields_heads: "(\<And>h. h \<in> set hs \<Longrightarrow> yields P (f h)) \<Longrightarrow> yields (list_all P) (all_heads f hs)"
  by (induction hs) (auto intro!: yields_bind)

lemma yields_block:
  fixes fo :: "'f float_ops"
  assumes ok: "block_ok cfg p" and x: "shaped n (cf_d_model cfg) x" and nh: "0 < cf_num_heads cfg"
  shows "yields (shaped n (cf_d_model cfg)) (block_forward fo cfg p x)"
proof -
  let ?d = "cf_d_model cfg" and ?f = "cf_d_ff cfg" and ?H = "head_dim cfg"
  note ok = ok [unfolded block_ok_def Let_def]
  have qkv: "yields (\<lambda>(q, k, v). shaped n ?d q \<and> shaped n ?d k \<and> shaped n ?d v) (block_qkv fo p x)"
  proof -
    have ln: "yields (shaped n ?d) (layernorm_forward fo x (bp_gamma1 p) (bp_beta1 p))" by (rule yields_layernorm [OF x]) (use ok in auto)
    have "yields (\<lambda>(q, k, v). shaped n ?d q \<and> shaped n ?d k \<and> shaped n ?d v)
        (fm_matmul fo y (bp_wq p) \<bind> (\<lambda>q. fm_matmul fo y (bp_wk p) \<bind> (\<lambda>k. fm_matmul fo y (bp_wv p) \<bind> (\<lambda>v. Some (q, k, v)))))"
      if "shaped n ?d y" for y
    proof -
      note m = yields_bind [OF yields_matmul [OF that]]
      show ?thesis by (rule m [of ?d "bp_wq p"], use ok in blast, rule m [of ?d "bp_wk p"], use ok in blast, rule m [of ?d "bp_wv p"], use ok in blast, simp)
    qed
    then show ?thesis unfolding block_qkv_def by (intro yields_bind [OF ln])
  qed
  have att: "yields (shaped n ?d) (block_attention fo cfg p x)"
    unfolding block_attention_def
  proof (rule yields_bind [OF qkv], clarify)
    fix q k v :: "'f matrix"
    assume "shaped n ?d q" "shaped n ?d k" "shaped n ?d v"
    then have h: "yields (shaped n ?H) (head_forward fo ?H q k v h)" if "h \<in> set [0..<cf_num_heads cfg]" for h
      using that head_cols_fit [of h cfg] by (intro yields_head [where d = ?d]) auto
    have c: "shaped n ?d (concat_heads fo (mx_rows x) ?d ?H ohs)" for ohs using x by (simp add: concat_heads_def shaped_def)
    show "yields (shaped n ?d) (all_heads (head_forward fo ?H q k v) [0..<cf_num_heads cfg] \<bind>
        (\<lambda>ohs. fm_matmul fo (concat_heads fo (mx_rows x) ?d ?H ohs) (bp_wo p) \<bind> fm_add fo x))"
      by (rule yields_bind [OF yields_heads [OF h]], assumption, rule yields_bind [OF yields_matmul [OF c]], use ok in blast, erule yields_add [OF x])
  qed
  have "yields (shaped n ?d) (block_mlp fo p y)" if y: "shaped n ?d y" for y
    unfolding block_mlp_def
    by (rule yields_bind [OF yields_layernorm [OF y]], use ok in blast, use ok in blast,
        erule yields_bind [OF yields_matmul], use ok in blast, erule yields_bind [OF yields_broadcast], use ok in blast,
        rule yields_bind [OF yields_matmul [where a = ?f and b = ?d]], simp add: shaped_def, use ok in blast, erule yields_bind [OF yields_broadcast], use ok in blast, erule yields_add [OF y])
  then show ?thesis using nh unfolding block_forward_def by (auto intro: yields_bind [OF att])
qed

lemma yields_run_blocks:
  assumes "list_all (block_ok cfg) bs" "length bs = l" "shaped n (cf_d_model cfg) x" "0 < cf_num_heads cfg"
  shows "yields (shaped n (cf_d_model cfg)) (run_blocks fo cfg bs l x)"
  using assms
proof (induction fo cfg bs l x rule: run_blocks.induct)
  case (3 fo cfg b bs l x)
  obtain y where "block_forward fo cfg b x = Some y" "shaped n (cf_d_model cfg) y"
    using yields_block [of cfg b n x fo] 3 by (auto simp: yields_def)
  then show ?case using 3 by simp
qed simp_all

text \<open>On token ids of the vocabulary the pass succeeds exactly up to \<open>max_seq_len\<close> positions, with a row of logits for each.\<close>

lemma model_forward_total:
  assumes ok: "model_ok p" and tok: "list_all (\<lambda>t. t < cf_vocab_size (mp_config p)) ts" and len: "length ts \<le> cf_max_seq_len (mp_config p)"
  shows "yields (shaped (length ts) (cf_vocab_size (mp_config p))) (model_forward fo p ts)"
proof -
  note ok = ok [unfolded model_ok_def Let_def]
  have e: "yields (shaped (length ts) (cf_d_model (mp_config p))) (embed fo p ts)" using ok tok len by (simp add: embed_def shaped_def)
  show ?thesis unfolding model_forward_def
    by (rule yields_bind [OF e], rule yields_bind, erule yields_run_blocks [rotated 2], use ok in blast, use ok in blast, use ok in blast,
        erule yields_bind [OF yields_layernorm], use ok in blast, use ok in blast, erule yields_matmul, use ok in blast)
qed

lemma model_forward_too_long: "model_ok p \<Longrightarrow> cf_max_seq_len (mp_config p) < length ts \<Longrightarrow> model_forward fo p ts = None"
  by (auto simp: model_forward_def embed_def model_ok_def shaped_def Let_def)

end
