(* ===== verification/Serving.thy ===== *)
theory Serving
  imports Transformer Complex_Main
begin

text \<open>
  The serving path: the character tokenizer of \<open>transformer/char_tokenizer.h\<close>, the router and CPU backend of
  \<open>inference_serving/serving_backend/serving_router.cpp\<close>, the connection loop of \<open>serving_daemon.cpp\<close> and the
  speculative decoder of \<open>inference_serving/speculative_decoding\<close>, over the forward pass of \<open>Transformer\<close>. \<open>Inl\<close> is an
  exception and \<open>None\<close> the abort of a failed assertion: an access outside of a matrix, in particular a sequence of more than
  \<open>max_seq_len\<close> tokens.
\<close>

section \<open>Tokenizer\<close>

record char_tokenizer =
  tk_char_to_id :: "char \<rightharpoonup> nat"
  tk_id_to_char :: "char list"

definition tk_add :: "char \<Rightarrow> char_tokenizer \<Rightarrow> char_tokenizer" where
  "tk_add c tok = (if tk_char_to_id tok c = None
     then tok\<lparr>tk_char_to_id := (tk_char_to_id tok)(c \<mapsto> length (tk_id_to_char tok)), tk_id_to_char := tk_id_to_char tok @ [c]\<rparr> else tok)"

definition tk_new :: "string \<Rightarrow> char_tokenizer" where
  "tk_new corpus = fold tk_add corpus \<lparr>tk_char_to_id = Map.empty, tk_id_to_char = []\<rparr>"

definition tk_vocab_size :: "char_tokenizer \<Rightarrow> nat" where
  "tk_vocab_size tok = length (tk_id_to_char tok)"

fun tk_encode :: "char_tokenizer \<Rightarrow> string \<Rightarrow> string + nat list" where
  "tk_encode tok [] = Inr []"
| "tk_encode tok (c # str) = (case tk_char_to_id tok c of
      None \<Rightarrow> Inl ''CharTokenizer::encode: character not in vocabulary''
    | Some i \<Rightarrow> map_sum id ((#) i) (tk_encode tok str))"

fun tk_decode :: "char_tokenizer \<Rightarrow> nat list \<Rightarrow> string + string" where
  "tk_decode tok [] = Inr []"
| "tk_decode tok (i # ids) = (if tk_vocab_size tok \<le> i then Inl ''CharTokenizer::decode: id out of range''
     else map_sum id ((#) (tk_id_to_char tok ! i)) (tk_decode tok ids))"

definition tk_ok :: "char_tokenizer \<Rightarrow> bool" where
  "tk_ok tok \<longleftrightarrow> (\<forall>c i. tk_char_to_id tok c = Some i \<longleftrightarrow> i < length (tk_id_to_char tok) \<and> tk_id_to_char tok ! i = c)"

lemma tk_ok_add: "tk_ok tok \<Longrightarrow> tk_ok (tk_add c tok)"
  unfolding tk_ok_def tk_add_def by (auto simp: nth_append less_Suc_eq) (metis option.distinct(1))+

lemma tk_ok_new: "tk_ok (tk_new corpus)"
proof -
  have "tk_ok (fold tk_add cs tok)" if "tk_ok tok" for cs tok using that by (induction cs arbitrary: tok) (auto simp: tk_ok_add)
  then show ?thesis by (simp add: tk_new_def tk_ok_def)
qed

lemma tk_new_knows: "c \<in> set corpus \<Longrightarrow> tk_char_to_id (tk_new corpus) c \<noteq> None"
proof -
  have keep: "tk_char_to_id tok c \<noteq> None \<Longrightarrow> tk_char_to_id (fold tk_add cs tok) c \<noteq> None" for cs tok
    by (induction cs arbitrary: tok) (auto simp: tk_add_def)
  have "c \<in> set cs \<Longrightarrow> tk_char_to_id (fold tk_add cs tok) c \<noteq> None" for cs tok
  proof (induction cs arbitrary: tok)
    case (Cons x cs)
    have "tk_char_to_id (tk_add c tok) c \<noteq> None" by (auto simp: tk_add_def)
    then show ?case using Cons keep [of "tk_add c tok" cs] by auto
  qed simp
  then show "c \<in> set corpus \<Longrightarrow> tk_char_to_id (tk_new corpus) c \<noteq> None" by (simp add: tk_new_def)
qed

text \<open>Encoding text over the corpus succeeds, and decoding gives the text back.\<close>

lemma tk_roundtrip:
  assumes "set str \<subseteq> set corpus"
  shows "\<exists>ids. tk_encode (tk_new corpus) str = Inr ids \<and> length ids = length str \<and> tk_decode (tk_new corpus) ids = Inr str"
  using assms
proof (induction str)
  case (Cons c str)
  obtain i where i: "tk_char_to_id (tk_new corpus) c = Some i" using tk_new_knows [of c corpus] Cons.prems by auto
  then have "i < length (tk_id_to_char (tk_new corpus)) \<and> tk_id_to_char (tk_new corpus) ! i = c"
    using tk_ok_new [of corpus] unfolding tk_ok_def by blast
  then show ?case using i Cons by (auto simp: tk_vocab_size_def)
qed simp

lemma tk_encode_decode: "tk_ok tok \<Longrightarrow> tk_encode tok str = Inr ids \<Longrightarrow> tk_decode tok ids = Inr str \<and> length ids = length str"
proof (induction str arbitrary: ids)
  case (Cons c str)
  then obtain i js where i: "tk_char_to_id tok c = Some i" "tk_encode tok str = Inr js" "ids = i # js"
    by (cases "tk_encode tok str") (auto split: option.splits)
  moreover have "i < length (tk_id_to_char tok) \<and> tk_id_to_char tok ! i = c" using Cons.prems(1) i(1) unfolding tk_ok_def by blast
  ultimately show ?case using Cons by (simp add: tk_vocab_size_def)
qed simp

lemma tk_decode_ok: "list_all (\<lambda>i. i < tk_vocab_size tok) ids \<Longrightarrow> tk_decode tok ids = Inr (map ((!) (tk_id_to_char tok)) ids)"
  by (induction ids) auto

lemma tk_encode_range: "tk_ok tok \<Longrightarrow> tk_encode tok str = Inr ids \<Longrightarrow> list_all (\<lambda>i. i < tk_vocab_size tok) ids"
proof (induction str arbitrary: ids)
  case (Cons c str)
  then obtain i js where i: "tk_char_to_id tok c = Some i" "tk_encode tok str = Inr js" "ids = i # js"
    by (cases "tk_encode tok str") (auto split: option.splits)
  moreover have "i < length (tk_id_to_char tok)" using Cons.prems(1) i(1) unfolding tk_ok_def by blast
  ultimately show ?case using Cons by (simp add: tk_vocab_size_def)
qed simp

section \<open>Greedy choice\<close>

fun argmax_loop :: "'f float_ops \<Rightarrow> (nat \<Rightarrow> 'f) \<Rightarrow> nat list \<Rightarrow> nat \<Rightarrow> 'f \<Rightarrow> nat" where
  "argmax_loop fo f [] best_idx best_val = best_idx"
| "argmax_loop fo f (v # vs) best_idx best_val =
     (if f_less fo best_val (f v) then argmax_loop fo f vs v (f v) else argmax_loop fo f vs best_idx best_val)"

definition argmax_at :: "'f float_ops \<Rightarrow> 'f matrix \<Rightarrow> int \<Rightarrow> nat \<Rightarrow> nat option" where
  "argmax_at fo logits row vocab_size = (if row < 0 \<or> int (mx_rows logits) \<le> row \<or> mx_cols logits < max 1 vocab_size then None
     else Some (argmax_loop fo (mx_get logits (nat row)) [1..<vocab_size] 0 (mx_get logits (nat row) 0)))"

text \<open>One step of greedy decoding: a forward pass over all tokens, and the choice at the last position.\<close>

definition greedy_token :: "'f float_ops \<Rightarrow> 'f model_params \<Rightarrow> nat list \<Rightarrow> nat option" where
  "greedy_token fo model tokens = do {
     logits \<leftarrow> model_forward fo model tokens;
     argmax_at fo logits (int (length tokens) - 1) (cf_vocab_size (mp_config model)) }"

text \<open>The vocabulary size and the longest sequence of a model, and token ids of its vocabulary.\<close>

abbreviation model_vocab :: "'f model_params \<Rightarrow> nat" where
  "model_vocab p \<equiv> cf_vocab_size (mp_config p)"

abbreviation model_max_len :: "'f model_params \<Rightarrow> nat" where
  "model_max_len p \<equiv> cf_max_seq_len (mp_config p)"

definition known_tokens :: "'f model_params \<Rightarrow> nat list \<Rightarrow> bool" where
  "known_tokens p ts = list_all (\<lambda>t. t < model_vocab p) ts"

lemma known_tokens_append [simp]: "known_tokens p (xs @ ys) \<longleftrightarrow> known_tokens p xs \<and> known_tokens p ys"
  and known_tokens_Cons [simp]: "known_tokens p (x # xs) \<longleftrightarrow> x < model_vocab p \<and> known_tokens p xs"
  and known_tokens_Nil [simp]: "known_tokens p []"
  by (simp_all add: known_tokens_def)

lemma argmax_loop_in: "argmax_loop fo f vs b best \<in> set (b # vs)"
  by (induction fo f vs b best rule: argmax_loop.induct) auto

lemma argmax_at_range: "0 < vocab_size \<Longrightarrow> argmax_at fo logits row vocab_size = Some t \<Longrightarrow> t < vocab_size"
  using argmax_loop_in [of fo "mx_get logits (nat row)" "[1..<vocab_size]" 0 "mx_get logits (nat row) 0"] by (auto simp: argmax_at_def split: if_splits)

text \<open>On a non-empty sequence that fits, every step gives a token of the vocabulary; on a longer one it aborts.\<close>

lemma greedy_token_total:
  assumes "model_ok p" "known_tokens p ts" "ts \<noteq> []" "length ts \<le> model_max_len p"
  shows "\<exists>t. greedy_token fo p ts = Some t \<and> t < model_vocab p"
proof -
  obtain L where L: "model_forward fo p ts = Some L" "shaped (length ts) (model_vocab p) L"
    using model_forward_total [OF assms(1) _ assms(4), of fo] assms(2) by (auto simp: yields_def known_tokens_def)
  have v: "0 < model_vocab p" using assms(2,3) by (cases ts) auto
  then obtain t where t: "argmax_at fo L (int (length ts) - 1) (model_vocab p) = Some t" using L(2) assms(3) by (cases ts) (auto simp: argmax_at_def shaped_def)
  then show ?thesis using L(1) argmax_at_range [OF v t] by (simp add: greedy_token_def)
qed

lemma greedy_token_too_long: "model_ok p \<Longrightarrow> model_max_len p < length ts \<Longrightarrow> greedy_token fo p ts = None"
  by (simp add: greedy_token_def model_forward_too_long)

text \<open>The row of a position in a longer run gives the same choice as the run up to that position.\<close>

lemma argmax_loop_cong: "(\<And>v. v \<in> set vs \<Longrightarrow> f v = g v) \<Longrightarrow> argmax_loop fo f vs b best = argmax_loop fo g vs b best"
  by (induction fo f vs b best rule: argmax_loop.induct) auto

lemma argmax_at_rows:
  assumes "same_rows n A B" "0 < n" "max 1 v \<le> mx_cols B"
  shows "argmax_at fo A (int n - 1) v = argmax_at fo B (int n - 1) v"
proof -
  note S = same_rowsD [OF assms(1)]
  have "nat (int n - 1) < n" using assms(2) by simp
  then show ?thesis using assms(2,3) S(3-6) argmax_loop_cong [of "[1..<v]" "mx_get A (nat (int n - 1))" "mx_get B (nat (int n - 1))" fo]
    by (simp add: argmax_at_def)
qed

lemma greedy_token_row:
  assumes law: "adds_zero fo" and ok: "model_ok p" and tok: "known_tokens p (xs @ ys)" and xs: "xs \<noteq> []" and len: "length (xs @ ys) \<le> model_max_len p"
    and masked: "model_masked fo p (xs @ ys)" and L: "model_forward fo p (xs @ ys) = Some L"
  shows "argmax_at fo L (int (length xs) - 1) (model_vocab p) = greedy_token fo p xs"
proof -
  obtain B where B: "model_forward fo p xs = Some B" "same_rows (length xs) L B" using model_forward_prefix [OF law masked] L by (auto simp: follows_def)
  have "shaped (length xs) (model_vocab p) B"
    using model_forward_total [OF ok, of xs fo] tok len B(1) by (auto simp: yields_def known_tokens_def)
  moreover have "0 < model_vocab p" using tok xs by (cases xs) auto
  ultimately show ?thesis using argmax_at_rows [OF B(2), of "model_vocab p" fo] xs B(1) by (simp add: shaped_def greedy_token_def)
qed

section \<open>Router\<close>

datatype backend = CPU | GPU | FPGA | TPU | NPU | QPU

fun backend_to_string :: "backend \<Rightarrow> string" where
  "backend_to_string CPU = ''cpu''"
| "backend_to_string GPU = ''gpu''"
| "backend_to_string FPGA = ''fpga''"
| "backend_to_string TPU = ''tpu''"
| "backend_to_string NPU = ''npu''"
| "backend_to_string QPU = ''qpu''"

record backend_info =
  bi_available :: bool
  bi_reason :: string

type_synonym 'm generate_fn = "'m \<Rightarrow> nat list \<Rightarrow> nat \<Rightarrow> nat list option"

record route_result =
  rr_backend :: backend
  rr_tokens :: "nat list option"
  rr_fell_back :: bool

record 'm router =
  ro_infos :: "backend \<rightharpoonup> backend_info"
  ro_fns :: "backend \<rightharpoonup> 'm generate_fn"

definition router_new :: "'m router" where
  "router_new = \<lparr>ro_infos = Map.empty, ro_fns = Map.empty\<rparr>"

definition register_backend :: "backend \<Rightarrow> backend_info \<Rightarrow> 'm generate_fn option \<Rightarrow> 'm router \<Rightarrow> 'm router" where
  "register_backend b info fn r = (let r = r\<lparr>ro_infos := (ro_infos r)(b \<mapsto> info)\<rparr> in
     case fn of None \<Rightarrow> r | Some f \<Rightarrow> r\<lparr>ro_fns := (ro_fns r)(b \<mapsto> f)\<rparr>)"

definition router_info :: "backend \<Rightarrow> 'm router \<Rightarrow> backend_info" where
  "router_info b r = (case ro_infos r b of None \<Rightarrow> \<lparr>bi_available = False, bi_reason = ''backend not registered''\<rparr> | Some i \<Rightarrow> i)"

definition qualifies :: "'m router \<Rightarrow> backend \<Rightarrow> bool" where
  "qualifies r b = (case ro_infos r b of None \<Rightarrow> False | Some i \<Rightarrow> bi_available i \<and> ro_fns r b \<noteq> None)"

definition kPriorityOrder :: "backend list" where
  "kPriorityOrder = [GPU, TPU, FPGA, NPU, QPU, CPU]"

definition route :: "backend \<Rightarrow> 'm \<Rightarrow> nat list \<Rightarrow> nat \<Rightarrow> 'm router \<Rightarrow> string + route_result" where
  "route preferred model prompt max_new_tokens r =
     (if qualifies r preferred
      then Inr \<lparr>rr_backend = preferred, rr_tokens = the (ro_fns r preferred) model prompt max_new_tokens, rr_fell_back = False\<rparr>
      else (case List.find (qualifies r) kPriorityOrder of
          None \<Rightarrow> Inl ''ServingRouter::route: no available backend with a registered generate function''
        | Some b \<Rightarrow> Inr \<lparr>rr_backend = b, rr_tokens = the (ro_fns r b) model prompt max_new_tokens, rr_fell_back = True\<rparr>))"

lemma route_error_iff: "(\<exists>e. route preferred model prompt n r = Inl e) \<longleftrightarrow> (\<forall>b. \<not> qualifies r b)"
proof -
  have all: "b \<in> set kPriorityOrder" for b by (cases b) (simp_all add: kPriorityOrder_def)
  then show ?thesis by (auto simp: route_def find_None_iff find_Some_iff split: option.split)
qed

lemma route_first:
  assumes "route preferred model prompt n r = Inr x"
  shows "qualifies r (rr_backend x) \<and> (rr_fell_back x \<longleftrightarrow> \<not> qualifies r preferred) \<and> (\<not> rr_fell_back x \<longrightarrow> rr_backend x = preferred) \<and>
    (rr_fell_back x \<longrightarrow> (\<exists>pre post. kPriorityOrder = pre @ rr_backend x # post \<and> (\<forall>b \<in> set pre. \<not> qualifies r b)))"
proof (cases "qualifies r preferred")
  case False
  then obtain b where b: "List.find (qualifies r) kPriorityOrder = Some b" "x = \<lparr>rr_backend = b, rr_tokens = the (ro_fns r b) model prompt n, rr_fell_back = True\<rparr>"
    using assms by (auto simp: route_def split: option.splits)
  have "\<exists>pre post. xs = pre @ b # post \<and> qualifies r b \<and> (\<forall>b \<in> set pre. \<not> qualifies r b)" if "List.find (qualifies r) xs = Some b" for xs
    using that
  proof (induction xs)
    case (Cons y xs)
    show ?case
    proof (cases "qualifies r y")
      case True
      then show ?thesis using Cons.prems by (intro exI [of _ "[]"] exI [of _ xs]) auto
    next
      case F: False
      then obtain pre post where "xs = pre @ b # post" "qualifies r b" "\<forall>b \<in> set pre. \<not> qualifies r b" using Cons by auto
      then show ?thesis using F by (intro exI [of _ "y # pre"] exI [of _ post]) auto
    qed
  qed simp
  then obtain pre post where "kPriorityOrder = pre @ b # post" "qualifies r b" "\<forall>b \<in> set pre. \<not> qualifies r b" using b(1) by blast
  then show ?thesis using b(2) False by auto
qed (use assms in \<open>auto simp: route_def\<close>)

text \<open>The CPU backend decodes greedily.\<close>

fun cpu_backend :: "'f float_ops \<Rightarrow> 'f model_params \<Rightarrow> nat list \<Rightarrow> nat \<Rightarrow> nat list option" where
  "cpu_backend fo model generated 0 = Some generated"
| "cpu_backend fo model generated (Suc i) = do { argmax \<leftarrow> greedy_token fo model generated; cpu_backend fo model (generated @ [argmax]) i }"

lemma cpu_backend_result:
  assumes "model_ok model" "generated \<noteq> []" "known_tokens model generated" "length generated + n \<le> Suc (model_max_len model)"
  shows "\<exists>new. cpu_backend fo model generated n = Some (generated @ new) \<and> length new = n \<and> known_tokens model new"
  using assms
proof (induction n arbitrary: generated)
  case (Suc n)
  then obtain t where t: "greedy_token fo model generated = Some t" "t < model_vocab model" using greedy_token_total [of model generated fo] by auto
  obtain new where "cpu_backend fo model (generated @ [t]) n = Some ((generated @ [t]) @ new)" "length new = n" "known_tokens model new"
    using Suc.IH [of "generated @ [t]"] Suc.prems t by auto
  then show ?case using t by (intro exI [of _ "t # new"]) auto
qed simp

section \<open>Connections of the daemon\<close>

text \<open>What \<open>recv\<close> of one byte returns: a byte or an error; the end of the list is the end of the stream.\<close>

datatype recv_result = Byte char | RecvError

definition newline :: char where
  "newline = CHR 0x0A"

fun read_line :: "string \<Rightarrow> recv_result list \<Rightarrow> bool \<times> string \<times> recv_result list" where
  "read_line out [] = (out \<noteq> [], out, [])"
| "read_line out (RecvError # input) = (False, out, input)"
| "read_line out (Byte c # input) = (if c = newline then (True, out, input) else read_line (out @ [c]) input)"

definition make_router :: "'m generate_fn \<Rightarrow> 'm router" where
  "make_router cpu = register_backend CPU \<lparr>bi_available = True, bi_reason = []\<rparr> (Some cpu)
     (register_backend TPU \<lparr>bi_available = False, bi_reason = ''no TPU device''\<rparr> None
     (register_backend FPGA \<lparr>bi_available = False, bi_reason = ''XILINX_VITIS not set''\<rparr> None
     (register_backend GPU \<lparr>bi_available = False, bi_reason = ''CUDA not found -- gpu_engine skipped''\<rparr> None router_new)))"

text \<open>The reply to one line; \<open>None\<close> is the abort of an access outside of a matrix, which no handler catches.\<close>

definition respond :: "'m router \<Rightarrow> char_tokenizer \<Rightarrow> 'm \<Rightarrow> nat \<Rightarrow> nat \<Rightarrow> string \<Rightarrow> string option" where
  "respond r tok model max_new_tokens max_seq_len line = (case tk_encode tok line of
      Inl e \<Rightarrow> Some (''ERROR: '' @ e @ [newline])
    | Inr prompt \<Rightarrow>
        if max_seq_len \<le> length prompt then Some (''ERROR: '' @ ''prompt too long for this model's max_seq_len'' @ [newline])
        else (let allowed_new_tokens = min max_new_tokens (max_seq_len - length prompt) in
          case route CPU model prompt allowed_new_tokens r of
            Inl e \<Rightarrow> Some (''ERROR: '' @ e @ [newline])
          | Inr result \<Rightarrow> (case rr_tokens result of
                None \<Rightarrow> None
              | Some tokens \<Rightarrow> (case tk_decode tok tokens of
                    Inl e \<Rightarrow> Some (''ERROR: '' @ e @ [newline])
                  | Inr str \<Rightarrow> Some (str @ [newline])))))"

text \<open>The loop over the partial results of \<open>send\<close>; with no more results given, all is accepted at once.\<close>

fun send_response :: "nat \<Rightarrow> int list \<Rightarrow> bool \<times> int list" where
  "send_response 0 results = (True, results)"
| "send_response left [] = (True, [])"
| "send_response left (n # results) = (if n \<le> 0 then (False, results) else send_response (left - nat n) results)"

lemma read_line_shorter: "read_line out input = (True, line, rest) \<Longrightarrow> length rest \<le> length input \<and> (out = [] \<longrightarrow> length rest < length input)"
  by (induction out input rule: read_line.induct) (auto split: if_splits)

function serve_connection :: "(string \<Rightarrow> string option) \<Rightarrow> recv_result list \<Rightarrow> int list \<Rightarrow> string list \<Rightarrow> string list option" where
  "serve_connection reply input results sent = (case read_line [] input of (ok, line, rest) \<Rightarrow>
     if \<not> ok then Some sent
     else if line = [] then serve_connection reply rest results sent
     else (case reply line of
         None \<Rightarrow> None
       | Some response \<Rightarrow> (case send_response (length response) results of (done, results) \<Rightarrow>
           if done then serve_connection reply rest results (sent @ [response]) else Some sent)))"
  by pat_completeness auto

termination serve_connection
  by (relation "measure (\<lambda>(reply, input, results, sent). length input)") (auto dest!: read_line_shorter [OF sym])

declare serve_connection.simps [simp del]

text \<open>
  With the daemon's router and a model over the tokenizer's vocabulary, every line over the vocabulary shorter than the context
  gets its own text back, continued; the model is never asked for more than \<open>max_seq_len\<close> positions, and no reply aborts.
\<close>

lemma respond_continues:
  assumes tok: "tk_ok tok" and enc: "tk_encode tok line = Inr prompt" and len: "length prompt < model_max_len model" "line \<noteq> []"
    and voc: "model_vocab model = tk_vocab_size tok" and ok: "model_ok model"
  shows "\<exists>new. respond (make_router (cpu_backend fo)) tok model n (model_max_len model) line = Some (line @ new @ [newline]) \<and>
    length (line @ new) \<le> model_max_len model"
proof -
  let ?k = "min n (model_max_len model - length prompt)"
  have p: "prompt \<noteq> []" "length prompt = length line" "tk_decode tok prompt = Inr line"
    using tk_encode_decode [OF tok enc] len(2) by auto
  have rng: "list_all (\<lambda>i. i < tk_vocab_size tok) prompt" using tk_encode_range [OF tok enc] .
  obtain new where new: "cpu_backend fo model prompt ?k = Some (prompt @ new)" "length new = ?k" "known_tokens model new"
    using cpu_backend_result [OF ok p(1), of ?k fo] rng voc len(1) by (force simp: known_tokens_def)
  have "tk_decode tok (prompt @ new) = Inr (map ((!) (tk_id_to_char tok)) prompt @ map ((!) (tk_id_to_char tok)) new)"
    using tk_decode_ok [of tok "prompt @ new"] rng new(3) voc by (simp add: known_tokens_def)
  moreover have "map ((!) (tk_id_to_char tok)) prompt = line" using tk_decode_ok [OF rng] p(3) by simp
  moreover have "route CPU model prompt ?k (make_router (cpu_backend fo)) =
      Inr \<lparr>rr_backend = CPU, rr_tokens = Some (prompt @ new), rr_fell_back = False\<rparr>"
    using new(1) by (simp add: route_def qualifies_def make_router_def register_backend_def router_new_def)
  ultimately have "respond (make_router (cpu_backend fo)) tok model n (model_max_len model) line = Some (line @ map ((!) (tk_id_to_char tok)) new @ [newline])"
    using enc len(1) by (simp add: respond_def)
  then show ?thesis using new(2) p(2) len(1) by (intro exI [of _ "map ((!) (tk_id_to_char tok)) new"]) auto
qed

lemma serve_connection_total: "(\<And>line. line \<noteq> [] \<Longrightarrow> reply line \<noteq> None) \<Longrightarrow> serve_connection reply input results sent \<noteq> None"
proof (induction reply input results sent rule: serve_connection.induct)
  case (1 reply input results sent)
  obtain ok line rest where rl: "read_line [] input = (ok, line, rest)" by (metis prod_cases3)
  show ?case
  proof (cases "ok \<and> line \<noteq> []")
    case True
    then obtain response where r: "reply line = Some response" using "1.prems" by blast
    obtain fin results' where sr: "send_response (length response) results = (fin, results')" by (cases "send_response (length response) results")
    show ?thesis using "1.IH"(2) [OF rl [symmetric] refl] "1.prems" True rl r sr
      by (cases fin) (simp_all add: serve_connection.simps [of reply input])
  next
    case False
    then show ?thesis using "1.IH"(1) [OF rl [symmetric] refl] "1.prems" rl by (cases ok) (simp_all add: serve_connection.simps [of reply input])
  qed
qed

section \<open>Speculative decoding\<close>

record 'f spec_decoder =
  sd_draft :: "'f model_params"
  sd_verifier :: "'f model_params"
  sd_draft_len :: nat
  sd_total_proposed :: int
  sd_total_accepted :: int
  sd_num_verifier_calls :: int
  sd_num_draft_calls :: int

definition sd_new :: "'f model_params \<Rightarrow> 'f model_params \<Rightarrow> nat \<Rightarrow> 'f spec_decoder" where
  "sd_new draft verifier draft_len = \<lparr>sd_draft = draft, sd_verifier = verifier, sd_draft_len = draft_len, sd_total_proposed = 0,
     sd_total_accepted = 0, sd_num_verifier_calls = 0, sd_num_draft_calls = 0\<rparr>"

fun propose_loop :: "'f float_ops \<Rightarrow> nat \<Rightarrow> nat list \<Rightarrow> nat list \<Rightarrow> 'f spec_decoder \<Rightarrow> (nat list \<times> 'f spec_decoder) option" where
  "propose_loop fo 0 ctxt proposed sd = Some (proposed, sd)"
| "propose_loop fo (Suc i) ctxt proposed sd = do {
     token \<leftarrow> greedy_token fo (sd_draft sd) ctxt;
     propose_loop fo i (ctxt @ [token]) (proposed @ [token]) (sd\<lparr>sd_num_draft_calls := sd_num_draft_calls sd + 1\<rparr>) }"

definition sd_propose :: "'f float_ops \<Rightarrow> nat list \<Rightarrow> 'f spec_decoder \<Rightarrow> (nat list \<times> 'f spec_decoder) option" where
  "sd_propose fo prompt_ids sd = propose_loop fo (sd_draft_len sd) prompt_ids [] sd"

text \<open>The acceptance loop from position \<open>i\<close>: the number accepted and the correction at the rejection point, if any.\<close>

fun accept_loop :: "'f float_ops \<Rightarrow> 'f matrix \<Rightarrow> nat \<Rightarrow> nat \<Rightarrow> nat \<Rightarrow> nat list \<Rightarrow> (nat \<times> nat option) option" where
  "accept_loop fo logits vocab_size context_len i [] = Some (i, None)"
| "accept_loop fo logits vocab_size context_len i (t # ts) = do {
     verifier_argmax \<leftarrow> argmax_at fo logits (int context_len + int i - 1) vocab_size;
     if verifier_argmax = t then accept_loop fo logits vocab_size context_len (i + 1) ts else Some (i, Some verifier_argmax) }"

definition verify_full :: "'f float_ops \<Rightarrow> nat list \<Rightarrow> nat list \<Rightarrow> 'f spec_decoder \<Rightarrow> ((nat \<times> nat) \<times> 'f spec_decoder) option" where
  "verify_full fo prompt_ids proposed_tokens sd = (let vocab_size = model_vocab (sd_verifier sd) in do {
     logits \<leftarrow> model_forward fo (sd_verifier sd) (prompt_ids @ proposed_tokens);
     (accepted, correction) \<leftarrow> accept_loop fo logits vocab_size (length prompt_ids) 0 proposed_tokens;
     bonus_token \<leftarrow> (case correction of Some b \<Rightarrow> Some b
                      | None \<Rightarrow> argmax_at fo logits (int (length prompt_ids) + int accepted - 1) vocab_size);
     Some ((accepted, bonus_token), sd\<lparr>sd_num_verifier_calls := sd_num_verifier_calls sd + 1,
       sd_total_proposed := sd_total_proposed sd + int (length proposed_tokens), sd_total_accepted := sd_total_accepted sd + int accepted\<rparr>) })"

definition verify :: "'f float_ops \<Rightarrow> nat list \<Rightarrow> nat list \<Rightarrow> 'f spec_decoder \<Rightarrow> (nat \<times> 'f spec_decoder) option" where
  "verify fo prompt_ids proposed_tokens sd = map_option (map_prod fst id) (verify_full fo prompt_ids proposed_tokens sd)"

definition generate_round :: "'f float_ops \<Rightarrow> nat list \<Rightarrow> 'f spec_decoder \<Rightarrow> (nat list \<times> nat list \<times> 'f spec_decoder) option" where
  "generate_round fo ctxt sd = do {
     (proposed, sd) \<leftarrow> sd_propose fo ctxt sd;
     ((accepted_count, bonus_token), sd) \<leftarrow> verify_full fo ctxt proposed sd;
     let accepted_tokens = take accepted_count proposed @ [bonus_token];
     Some (accepted_tokens, ctxt @ accepted_tokens, sd) }"

definition acceptance_rate :: "'f spec_decoder \<Rightarrow> real" where
  "acceptance_rate sd = (if sd_total_proposed sd = 0 then 0 else of_int (sd_total_accepted sd) / of_int (sd_total_proposed sd))"

lemma propose_loop_keeps:
  assumes "propose_loop fo n ctxt proposed sd = Some (ts, sd')"
  shows "length ts = length proposed + n \<and> sd_verifier sd' = sd_verifier sd \<and> sd_total_proposed sd' = sd_total_proposed sd \<and> sd_total_accepted sd' = sd_total_accepted sd \<and>
    sd_num_verifier_calls sd' = sd_num_verifier_calls sd \<and> sd_num_draft_calls sd' = sd_num_draft_calls sd + int n"
  using assms by (induction fo n ctxt proposed sd rule: propose_loop.induct) (auto split: Option.bind_splits)

lemma propose_loop_ok:
  assumes "model_ok (sd_draft sd)" "ctxt \<noteq> []" "known_tokens (sd_draft sd) ctxt" "length ctxt + n \<le> Suc (model_max_len (sd_draft sd))" "known_tokens (sd_draft sd) proposed"
  shows "\<exists>ts sd'. propose_loop fo n ctxt proposed sd = Some (ts, sd') \<and> known_tokens (sd_draft sd) ts"
  using assms
proof (induction n arbitrary: ctxt proposed sd)
  case (Suc n)
  then obtain t where t: "greedy_token fo (sd_draft sd) ctxt = Some t" "t < model_vocab (sd_draft sd)" using greedy_token_total [of "sd_draft sd" ctxt fo] by auto
  then show ?case using Suc.prems Suc.IH [of "sd\<lparr>sd_num_draft_calls := sd_num_draft_calls sd + 1\<rparr>" "ctxt @ [t]" "proposed @ [t]"] by auto
qed simp

text \<open>Greedy decoding in steps.\<close>

lemma cpu_backend_append:
  assumes "cpu_backend fo model xs i = Some ys" "greedy_token fo model ys = Some t"
  shows "cpu_backend fo model xs (Suc i) = Some (ys @ [t])"
  using assms(1)
proof (induction i arbitrary: xs)
  case (Suc i)
  then obtain a where a: "greedy_token fo model xs = Some a" "cpu_backend fo model (xs @ [a]) i = Some ys" by (auto split: Option.bind_splits)
  then show ?case using Suc.IH [OF a(2)] by simp
qed (use assms(2) in simp)

text \<open>When the rows of the verifier's pass choose what greedy decoding would, the loop accepts the greedy prefix and corrects with the greedy token.\<close>

lemma accept_loop_greedy:
  assumes rows: "\<And>k. k \<le> length (pre @ ts) \<Longrightarrow> argmax_at fo L (int (length ctxt) + int k - 1) v = greedy_token fo model (ctxt @ take k (pre @ ts)) \<and>
      greedy_token fo model (ctxt @ take k (pre @ ts)) \<noteq> None"
    and "cpu_backend fo model ctxt i = Some (ctxt @ pre)" "length pre = i"
  shows "\<exists>k b. accept_loop fo L v (length ctxt) i ts = Some (i + k, b) \<and> k \<le> length ts \<and>
    cpu_backend fo model ctxt (i + k) = Some (ctxt @ pre @ take k ts) \<and>
    (b = None \<longrightarrow> k = length ts) \<and> (\<forall>t. b = Some t \<longrightarrow> cpu_backend fo model ctxt (Suc (i + k)) = Some (ctxt @ pre @ take k ts @ [t]))"
  using assms
proof (induction ts arbitrary: i pre)
  case (Cons t ts)
  obtain a where a: "argmax_at fo L (int (length ctxt) + int i - 1) v = Some a" "greedy_token fo model (ctxt @ pre) = Some a"
    using Cons.prems(1) [of i] Cons.prems(3) by auto
  have g: "cpu_backend fo model ctxt (Suc i) = Some ((ctxt @ pre) @ [a])" using cpu_backend_append [OF Cons.prems(2) a(2)] .
  show ?case
  proof (cases "a = t")
    case True
    obtain k b where "accept_loop fo L v (length ctxt) (Suc i) ts = Some (Suc i + k, b)" "k \<le> length ts"
        "cpu_backend fo model ctxt (Suc i + k) = Some (ctxt @ (pre @ [t]) @ take k ts)" "b = None \<longrightarrow> k = length ts"
        "\<forall>u. b = Some u \<longrightarrow> cpu_backend fo model ctxt (Suc (Suc i + k)) = Some (ctxt @ (pre @ [t]) @ take k ts @ [u])"
      using Cons.IH [of "pre @ [t]" "Suc i"] Cons.prems(1,3) g True by auto
    then show ?thesis using a True by (intro exI [of _ "Suc k"] exI [of _ b]) (simp del: cpu_backend.simps(2))
  next
    case False
    then show ?thesis using a g Cons.prems(2) by (intro exI [of _ 0] exI [of _ "Some a"]) (simp del: cpu_backend.simps(2))
  qed
qed (intro exI [of _ 0] exI [of _ None]; simp)

lemma verify_full_greedy:
  assumes law: "adds_zero fo" and ok: "model_ok (sd_verifier sd)" and ne: "ctxt \<noteq> []" and tok: "known_tokens (sd_verifier sd) (ctxt @ ts)"
    and len: "length (ctxt @ ts) \<le> model_max_len (sd_verifier sd)" and masked: "model_masked fo (sd_verifier sd) (ctxt @ ts)"
  shows "\<exists>k t. verify_full fo ctxt ts sd = Some ((k, t), sd\<lparr>sd_num_verifier_calls := sd_num_verifier_calls sd + 1,
        sd_total_proposed := sd_total_proposed sd + int (length ts), sd_total_accepted := sd_total_accepted sd + int k\<rparr>) \<and>
      k \<le> length ts \<and> cpu_backend fo (sd_verifier sd) ctxt (Suc k) = Some (ctxt @ take k ts @ [t])"
proof -
  let ?v = "sd_verifier sd"
  obtain L where L: "model_forward fo ?v (ctxt @ ts) = Some L"
    using model_forward_total [OF ok, of "ctxt @ ts" fo] tok len by (auto simp: yields_def known_tokens_def)
  have rows: "argmax_at fo L (int (length ctxt) + int k - 1) (model_vocab ?v) = greedy_token fo ?v (ctxt @ take k ts) \<and> greedy_token fo ?v (ctxt @ take k ts) \<noteq> None"
    if "k \<le> length ts" for k
  proof -
    have e: "(ctxt @ take k ts) @ drop k ts = ctxt @ ts" by simp
    have kn: "known_tokens ?v (ctxt @ take k ts)" using tok by (auto simp: known_tokens_def list_all_iff dest: in_set_takeD)
    from greedy_token_row [OF law ok, of "ctxt @ take k ts" "drop k ts" L, unfolded e, OF tok _ len masked L]
    have "argmax_at fo L (int (length (ctxt @ take k ts)) - 1) (model_vocab ?v) = greedy_token fo ?v (ctxt @ take k ts)" using ne by simp
    moreover have "\<exists>t. greedy_token fo ?v (ctxt @ take k ts) = Some t" using greedy_token_total [OF ok kn, of fo] ne len that by auto
    moreover have "int (length (ctxt @ take k ts)) - 1 = int (length ctxt) + int k - 1" using that by simp
    ultimately show ?thesis by (metis option.distinct(1))
  qed
  obtain k b where k: "accept_loop fo L (model_vocab ?v) (length ctxt) 0 ts = Some (k, b)" "k \<le> length ts"
      "cpu_backend fo ?v ctxt k = Some (ctxt @ take k ts)" "b = None \<longrightarrow> k = length ts"
      "\<forall>t. b = Some t \<longrightarrow> cpu_backend fo ?v ctxt (Suc k) = Some (ctxt @ take k ts @ [t])"
    using accept_loop_greedy [of "[]" ts fo L ctxt "model_vocab ?v" ?v 0] rows by auto
  have "\<exists>t. (case b of Some t \<Rightarrow> Some t | None \<Rightarrow> argmax_at fo L (int (length ctxt) + int k - 1) (model_vocab ?v)) = Some t \<and>
      cpu_backend fo ?v ctxt (Suc k) = Some (ctxt @ take k ts @ [t])"
  proof (cases b)
    case None
    obtain t where t: "greedy_token fo ?v (ctxt @ take k ts) = Some t" using rows [OF k(2)] by auto
    then show ?thesis using cpu_backend_append [OF k(3) t] rows [OF k(2)] None by simp
  qed (use k in auto)
  then obtain t where "(case b of Some t \<Rightarrow> Some t | None \<Rightarrow> argmax_at fo L (int (length ctxt) + int k - 1) (model_vocab ?v)) = Some t"
      "cpu_backend fo ?v ctxt (Suc k) = Some (ctxt @ take k ts @ [t])" by blast
  then show ?thesis using L k(1,2) by (intro exI [of _ k] exI [of _ t]) (simp add: verify_full_def Let_def)
qed

text \<open>
  C36. Speculative decoding is lossless. Let both models have the matrix sizes of their configurations, the draft model's
  vocabulary be part of the verifier's, and the context and \<open>draft_len\<close> more tokens fit both models' \<open>max_seq_len\<close> (the draft
  model needs one less). Let the causal mask take effect in the verifier's pass: the softmax weight of every masked position comes
  out as zero (\<open>model_masked\<close>), and adding that zero to a sum of exponentials does not change it (\<open>adds_zero\<close>). Then one round on
  a non-empty context aborts nowhere and appends between one and \<open>draft_len + 1\<close> tokens, whatever the draft model proposes, and
  exactly those that the router's greedy CPU backend generates with the verifier; the counters record \<open>draft_len\<close> proposals and
  draft calls, one verifier call, and all appended tokens but the bonus token as accepted. The forward passes are those of
  \<open>transformer_model.h\<close>, for any operations on \<open>float\<close>.
\<close>

theorem speculative_decoding_lossless:
  assumes "adds_zero fo" and "model_ok (sd_draft sd)" and "model_ok (sd_verifier sd)"
    and "model_vocab (sd_draft sd) \<le> model_vocab (sd_verifier sd)"
    and "ctxt \<noteq> []" and "known_tokens (sd_draft sd) ctxt"
    and "length ctxt + sd_draft_len sd \<le> model_max_len (sd_draft sd) + 1" and "length ctxt + sd_draft_len sd \<le> model_max_len (sd_verifier sd)"
    and "\<And>ts. length ts = sd_draft_len sd \<Longrightarrow> known_tokens (sd_draft sd) ts \<Longrightarrow> model_masked fo (sd_verifier sd) (ctxt @ ts)"
  shows "\<exists>toks sd'. generate_round fo ctxt sd = Some (toks, ctxt @ toks, sd') \<and>
    1 \<le> length toks \<and> length toks \<le> sd_draft_len sd + 1 \<and>
    cpu_backend fo (sd_verifier sd) ctxt (length toks) = Some (ctxt @ toks) \<and>
    sd_total_proposed sd' = sd_total_proposed sd + int (sd_draft_len sd) \<and> sd_total_accepted sd' = sd_total_accepted sd + int (length toks) - 1 \<and>
    sd_num_draft_calls sd' = sd_num_draft_calls sd + int (sd_draft_len sd) \<and> sd_num_verifier_calls sd' = sd_num_verifier_calls sd + 1"
proof -
  obtain ts sd1 where p: "sd_propose fo ctxt sd = Some (ts, sd1)" "known_tokens (sd_draft sd) ts"
    using propose_loop_ok [of sd ctxt "sd_draft_len sd" "[]" fo] assms(2,5-7) by (auto simp: sd_propose_def)
  note keep = propose_loop_keeps [OF p(1) [unfolded sd_propose_def]]
  have tok: "known_tokens (sd_verifier sd) (ctxt @ ts)" using p(2) assms(4,6) by (auto simp: known_tokens_def list_all_iff)
  obtain k t where k: "verify_full fo ctxt ts sd1 = Some ((k, t), sd1\<lparr>sd_num_verifier_calls := sd_num_verifier_calls sd1 + 1,
        sd_total_proposed := sd_total_proposed sd1 + int (length ts), sd_total_accepted := sd_total_accepted sd1 + int k\<rparr>)"
      "k \<le> length ts" "cpu_backend fo (sd_verifier sd) ctxt (Suc k) = Some (ctxt @ take k ts @ [t])"
    using verify_full_greedy [of fo sd1 ctxt ts] keep tok assms p(2) by auto
  have "generate_round fo ctxt sd = Some (take k ts @ [t], ctxt @ take k ts @ [t], sd1\<lparr>sd_num_verifier_calls := sd_num_verifier_calls sd1 + 1,
      sd_total_proposed := sd_total_proposed sd1 + int (length ts), sd_total_accepted := sd_total_accepted sd1 + int k\<rparr>)"
    using p(1) k(1) by (simp add: generate_round_def Let_def)
  then show ?thesis using k(2,3) keep by (intro exI [of _ "take k ts @ [t]"] exI) auto
qed

text \<open>
  A round with two one-layer models of two tokens, over integers for the floats, with an exponential that vanishes below a bound as
  the one of \<open>float\<close> does. The verifier's logits favour the token other than the last one, the draft model's the last one.
\<close>

definition int_ops :: "int float_ops" where
  "int_ops = \<lparr>f_zero = 0, f_one = 1, f_add = (+), f_sub = (-), f_mul = (*), f_div = (\<lambda>a b. a div b), f_less = (<), f_eq = (=), f_sqrt = (\<lambda>x. 1),
     f_exp = (\<lambda>x. if x < -100 then 0 else 1), f_of_int = int, f_eps = 0, f_mask = -1000000000\<rparr>"

definition rows_matrix :: "int list list \<Rightarrow> int matrix" where
  "rows_matrix xss = \<lparr>mx_rows = length xss, mx_cols = length (hd xss), mx_data = concat xss\<rparr>"

definition tiny_model :: "int list list \<Rightarrow> int model_params" where
  "tiny_model w_out = (let one = rows_matrix [[1, 1]]; zero = rows_matrix [[0, 0]]; id2 = rows_matrix [[1, 0], [0, 1]] in
     \<lparr>mp_token_emb = rows_matrix [[1, -1], [-1, 1]], mp_pos_emb = rows_matrix (replicate 8 [0, 0]),
      mp_blocks = [\<lparr>bp_gamma1 = one, bp_beta1 = zero, bp_wq = id2, bp_wk = id2, bp_wv = id2, bp_wo = id2, bp_gamma2 = one, bp_beta2 = zero,
        bp_w1 = id2, bp_b1 = zero, bp_w2 = id2, bp_b2 = zero\<rparr>],
      mp_final_gamma = one, mp_final_beta = zero, mp_w_out = rows_matrix w_out,
      mp_config = \<lparr>cf_vocab_size = 2, cf_d_model = 2, cf_num_heads = 1, cf_num_layers = 1, cf_d_ff = 2, cf_max_seq_len = 8\<rparr>\<rparr>)"

theorem speculative_decoding_lossless_witness:
  "\<exists>toks sd'. generate_round int_ops [0] (sd_new (tiny_model [[1, 0], [0, 1]]) (tiny_model [[0, 1], [1, 0]]) 2) = Some (toks, [0] @ toks, sd') \<and>
    cpu_backend int_ops (tiny_model [[0, 1], [1, 0]]) [0] (length toks) = Some ([0] @ toks)"
proof -
  let ?d = "tiny_model [[1, 0], [0, 1]]" and ?v = "tiny_model [[0, 1], [1, 0]]"
  have ok: "model_ok ?d" "model_ok ?v" by code_simp+
  have cfg: "model_vocab ?d = 2" "model_vocab ?v = 2" "model_max_len ?d = 8" "model_max_len ?v = 8" by code_simp+
  have law: "adds_zero int_ops" by (simp add: adds_zero_def int_ops_def)
  have m: "model_masked int_ops ?v ([0] @ [0, 0])" "model_masked int_ops ?v ([0] @ [0, 1])" "model_masked int_ops ?v ([0] @ [1, 0])" "model_masked int_ops ?v ([0] @ [1, 1])"
    by code_simp+
  have masked: "model_masked int_ops ?v ([0] @ ts)" if len: "length ts = 2" and kn: "known_tokens ?d ts" for ts
  proof -
    obtain x y where xy: "ts = [x, y]" by (cases ts rule: remdups_adj.cases) (use len in auto)
    then have "x = 0 \<or> x = 1" "y = 0 \<or> y = 1" using kn cfg by auto
    then show ?thesis using m xy by auto
  qed
  show ?thesis using speculative_decoding_lossless [of int_ops "sd_new ?d ?v 2" "[0]"] law ok cfg masked by (auto simp: sd_new_def)
qed

text \<open>
  Near the end of the context the decoder is not a drop-in replacement: the verifier is run on the context and all proposals, so a
  round whose proposals would pass \<open>max_seq_len\<close> aborts, where greedy decoding with the same model still gives a token.
\<close>

lemma generate_round_aborts:
  assumes "model_ok (sd_verifier sd)" "model_max_len (sd_verifier sd) < length ctxt + sd_draft_len sd"
    and "ctxt \<noteq> []" "known_tokens (sd_verifier sd) ctxt" "length ctxt \<le> model_max_len (sd_verifier sd)"
  shows "generate_round fo ctxt sd = None \<and> (\<exists>t. cpu_backend fo (sd_verifier sd) ctxt 1 = Some (ctxt @ [t]))"
proof
  have "verify_full fo ctxt ts sd' = None" if "propose_loop fo (sd_draft_len sd) ctxt [] sd = Some (ts, sd')" for ts sd'
    using propose_loop_keeps [OF that] assms(1,2) model_forward_too_long [of "sd_verifier sd" "ctxt @ ts" fo] by (simp add: verify_full_def Let_def)
  then show "generate_round fo ctxt sd = None" by (auto simp: generate_round_def sd_propose_def split: Option.bind_splits)
  show "\<exists>t. cpu_backend fo (sd_verifier sd) ctxt 1 = Some (ctxt @ [t])" using greedy_token_total [OF assms(1,4,3,5), of fo] by auto
qed

end
