(* ===== verification/Batching.thy ===== *)
theory Batching
  imports Prelude Complex_Main "HOL-Library.Multiset"
begin

text \<open>
  \<open>inference_serving/continuous_batching\<close> and \<open>inference_serving/sla_scheduler\<close>: which sequences run one decode step this
  tick. Sets of sequence ids are modelled as sets; the order in which an unordered container is traversed, which the
  library leaves open, is an argument of the operations whose result lists the ids.
\<close>

section \<open>Continuous batching\<close>

record request =
  rq_id :: int
  rq_prompt :: string
  rq_max_new_tokens :: int
  rq_arrival_time_s :: real

record batcher =
  cb_waiting :: "request list"
  cb_active :: "int set"

definition batcher_new :: batcher where
  "batcher_new = \<lparr>cb_waiting = [], cb_active = {}\<rparr>"

definition add_request :: "request \<Rightarrow> batcher \<Rightarrow> batcher" where
  "add_request r b = b\<lparr>cb_waiting := cb_waiting b @ [r]\<rparr>"

fun admit :: "int \<Rightarrow> request list \<Rightarrow> int set \<Rightarrow> request list \<times> int set" where
  "admit max_batch_size [] active = ([], active)"
| "admit max_batch_size (r # waiting) active =
     (if int (card active) < max_batch_size then admit max_batch_size waiting (insert (rq_id r) active) else (r # waiting, active))"

definition next_batch :: "(int set \<Rightarrow> int list) \<Rightarrow> int \<Rightarrow> batcher \<Rightarrow> int list \<times> batcher" where
  "next_batch order max_batch_size b = (case admit max_batch_size (cb_waiting b) (cb_active b) of (waiting, active) \<Rightarrow>
     (order active, b\<lparr>cb_waiting := waiting, cb_active := active\<rparr>))"

definition finish_sequence :: "int \<Rightarrow> batcher \<Rightarrow> batcher" where
  "finish_sequence seq_id b = b\<lparr>cb_active := cb_active b - {seq_id}\<rparr>"

definition num_waiting :: "batcher \<Rightarrow> nat" where
  "num_waiting b = length (cb_waiting b)"

definition num_active :: "batcher \<Rightarrow> nat" where
  "num_active b = card (cb_active b)"

text \<open>
  Admission is in arrival order, never beyond the batch size, and stops early only when it is full: requests admitted are
  a prefix of the queue, and as long as ids are fresh every admission takes one slot.
\<close>

lemma admit_prefix:
  assumes "finite active"
  shows "\<exists>n. fst (admit m waiting active) = drop n waiting \<and> snd (admit m waiting active) = active \<union> rq_id ` set (take n waiting) \<and>
    (int (card active) \<le> m \<longrightarrow> int (card (snd (admit m waiting active))) \<le> m) \<and> (drop n waiting \<noteq> [] \<longrightarrow> m \<le> int (card (snd (admit m waiting active))))"
  using assms
proof (induction m waiting active rule: admit.induct)
  case (2 m r waiting active)
  show ?case
  proof (cases "int (card active) < m")
    case True
    obtain n where "fst (admit m waiting (insert (rq_id r) active)) = drop n waiting"
        "snd (admit m waiting (insert (rq_id r) active)) = insert (rq_id r) active \<union> rq_id ` set (take n waiting)"
        "int (card (insert (rq_id r) active)) \<le> m \<longrightarrow> int (card (snd (admit m waiting (insert (rq_id r) active)))) \<le> m"
        "drop n waiting \<noteq> [] \<longrightarrow> m \<le> int (card (snd (admit m waiting (insert (rq_id r) active))))"
      using 2 True by auto
    moreover have "int (card (insert (rq_id r) active)) \<le> m" using True 2(2) by (simp add: card_insert_if)
    ultimately show ?thesis using True by (intro exI [of _ "Suc n"]) auto
  qed (auto intro: exI [of _ 0])
qed (auto intro: exI [of _ 0])

lemma next_batch_full_or_drained:
  assumes "finite (cb_active b)" "int (num_active b) \<le> m" "next_batch order m b = (ids, b')" "\<And>A. finite A \<Longrightarrow> set (order A) = A"
  shows "set ids = cb_active b' \<and> int (num_active b') \<le> m \<and> (num_waiting b' = 0 \<or> int (num_active b') = m)"
proof -
  obtain n where n: "fst (admit m (cb_waiting b) (cb_active b)) = drop n (cb_waiting b)"
      "snd (admit m (cb_waiting b) (cb_active b)) = cb_active b \<union> rq_id ` set (take n (cb_waiting b))"
      "int (card (snd (admit m (cb_waiting b) (cb_active b)))) \<le> m"
      "drop n (cb_waiting b) \<noteq> [] \<longrightarrow> m \<le> int (card (snd (admit m (cb_waiting b) (cb_active b))))"
    using admit_prefix [OF assms(1), of m "cb_waiting b"] assms(2) by (auto simp: num_active_def)
  have b': "b' = b\<lparr>cb_waiting := fst (admit m (cb_waiting b) (cb_active b)), cb_active := snd (admit m (cb_waiting b) (cb_active b))\<rparr>"
      "ids = order (snd (admit m (cb_waiting b) (cb_active b)))"
    using assms(3) by (auto simp: next_batch_def split: prod.splits)
  have "finite (snd (admit m (cb_waiting b) (cb_active b)))" using n(2) assms(1) by simp
  then have "set ids = cb_active b'" using assms(4) b' by simp
  then show ?thesis using n(1,3,4) b' by (auto simp: num_active_def num_waiting_def)
qed

section \<open>Earliest deadline first\<close>

record sla_request =
  sla_id :: int
  sla_arrival_time_s :: real
  sla_latency_budget_s :: real

definition deadline_s :: "sla_request \<Rightarrow> real" where
  "deadline_s r = sla_arrival_time_s r + sla_latency_budget_s r"

record sla_scheduler =
  sl_pending :: "int \<rightharpoonup> sla_request"
  sl_active :: "int set"
  sl_violated :: "int set"
  sl_num_violations :: int
  sl_num_preemptions :: int

definition sla_new :: sla_scheduler where
  "sla_new = \<lparr>sl_pending = Map.empty, sl_active = {}, sl_violated = {}, sl_num_violations = 0, sl_num_preemptions = 0\<rparr>"

definition sla_add_request :: "sla_request \<Rightarrow> sla_scheduler \<Rightarrow> sla_scheduler" where
  "sla_add_request r s = s\<lparr>sl_pending := (sl_pending s)(sla_id r \<mapsto> r)\<rparr>"

text \<open>
  The loops over the unordered containers take the order of traversal as an argument. \<open>std::sort\<close> leaves the order of equal deadlines
  open; a stable sort of an arbitrary traversal covers every result it can have. A negative \<open>max_batch_size\<close> becomes a huge
  \<open>size_t\<close>.
\<close>

definition pending_deadline :: "sla_scheduler \<Rightarrow> int \<Rightarrow> real" where
  "pending_deadline s i = (case sl_pending s i of Some r \<Rightarrow> deadline_s r | None \<Rightarrow> 0)"

fun count_violations :: "real \<Rightarrow> int list \<Rightarrow> sla_scheduler \<Rightarrow> sla_scheduler" where
  "count_violations now_s [] s = s"
| "count_violations now_s (i # ids) s = count_violations now_s ids
     (if pending_deadline s i < now_s \<and> i \<notin> sl_violated s
      then s\<lparr>sl_violated := insert i (sl_violated s), sl_num_violations := sl_num_violations s + 1\<rparr> else s)"

fun preempt_loop :: "int set \<Rightarrow> int list \<Rightarrow> int \<Rightarrow> int list \<times> int" where
  "preempt_loop new_active [] n = ([], n)"
| "preempt_loop new_active (i # ids) n = (if i \<notin> new_active
     then (let (pre, n') = preempt_loop new_active ids (n + 1) in (i # pre, n')) else preempt_loop new_active ids n)"

definition schedule_tick :: "int list \<Rightarrow> int list \<Rightarrow> int \<Rightarrow> real \<Rightarrow> sla_scheduler \<Rightarrow> (int set \<times> int list) \<times> sla_scheduler" where
  "schedule_tick pending_order active_order max_batch_size now_s s0 =
     (let s = count_violations now_s pending_order s0;
          by_deadline = sort_key (pending_deadline s) pending_order;
          new_active_count = min (unat (word_of_int max_batch_size :: u64)) (length by_deadline);
          new_active = set (take new_active_count by_deadline);
          (preempted, n) = preempt_loop new_active active_order (sl_num_preemptions s) in
      ((new_active, preempted), s\<lparr>sl_active := new_active, sl_num_preemptions := n\<rparr>))"

definition sla_finish_sequence :: "int \<Rightarrow> sla_scheduler \<Rightarrow> sla_scheduler" where
  "sla_finish_sequence seq_id s = s\<lparr>sl_active := sl_active s - {seq_id}, sl_pending := (sl_pending s)(seq_id := None),
     sl_violated := sl_violated s - {seq_id}\<rparr>"

definition sla_inv :: "sla_scheduler \<Rightarrow> bool" where
  "sla_inv s \<longleftrightarrow> finite (dom (sl_pending s)) \<and> sl_active s \<subseteq> dom (sl_pending s) \<and> sl_violated s \<subseteq> dom (sl_pending s)"

lemma sla_inv_ops:
  "sla_inv sla_new" "sla_inv s \<Longrightarrow> sla_inv (sla_add_request r s)" "sla_inv s \<Longrightarrow> sla_inv (sla_finish_sequence i s)"
  by (auto simp: sla_inv_def sla_new_def sla_add_request_def sla_finish_sequence_def)

lemma preempt_loop_eq: "preempt_loop A ids n = (filter (\<lambda>i. i \<notin> A) ids, n + int (length (filter (\<lambda>i. i \<notin> A) ids)))"
  by (induction A ids n rule: preempt_loop.induct) auto

lemma count_violations_eq:
  "distinct ids \<Longrightarrow> count_violations now_s ids s = (let V = {i \<in> set ids. pending_deadline s i < now_s \<and> i \<notin> sl_violated s} in
     s\<lparr>sl_violated := sl_violated s \<union> V, sl_num_violations := sl_num_violations s + int (card V)\<rparr>)"
proof (induction ids arbitrary: s)
  case (Cons i ids)
  show ?case
  proof (cases "pending_deadline s i < now_s \<and> i \<notin> sl_violated s")
    case True
    let ?s = "s\<lparr>sl_violated := insert i (sl_violated s), sl_num_violations := sl_num_violations s + 1\<rparr>"
    let ?V = "{j \<in> set ids. pending_deadline s j < now_s \<and> j \<notin> sl_violated s}"
    have "{j \<in> set ids. pending_deadline ?s j < now_s \<and> j \<notin> sl_violated ?s} = ?V" using Cons.prems by (auto simp: pending_deadline_def)
    moreover have "{j \<in> set (i # ids). pending_deadline s j < now_s \<and> j \<notin> sl_violated s} = insert i ?V" "i \<notin> ?V" using True Cons.prems by auto
    ultimately show ?thesis using Cons True by (simp add: Let_def)
  next
    case False
    then have "{j \<in> set (i # ids). pending_deadline s j < now_s \<and> j \<notin> sl_violated s} = {j \<in> set ids. pending_deadline s j < now_s \<and> j \<notin> sl_violated s}" by auto
    then show ?thesis using Cons False by (simp only: count_violations.simps if_False) simp
  qed
qed (simp add: Let_def)

text \<open>A cast of a batch size of at least zero is exact; a negative one exceeds any number of requests.\<close>

lemma batch_size_cast:
  assumes "- (2 ^ 31) \<le> m" "m < 2 ^ 31"
  shows "unat (word_of_int m :: u64) = (if 0 \<le> m then nat m else nat (m + 2 ^ 64))"
proof (cases "0 \<le> m")
  case True
  then have "m mod 2 ^ 64 = m" using assms by simp
  then show ?thesis using True by (simp add: unat_eq_nat_uint uint_word_of_int)
next
  case False
  then have "(m + 2 ^ 64) mod 2 ^ 64 = m + 2 ^ 64" using assms by (intro mod_pos_pos_trivial) auto
  then have "m mod 2 ^ 64 = m + 2 ^ 64" by simp
  then show ?thesis using False by (simp add: unat_eq_nat_uint uint_word_of_int)
qed

text \<open>
  C37. One tick, with \<open>V\<close> the pending requests past their deadline that had not been counted: the new active set is an
  earliest-deadline-first choice of the pending requests, \<open>max_batch_size\<close> of them or all when there are fewer (a negative
  \<open>max_batch_size\<close> stands for all), and no request left waiting has an earlier deadline than one that runs; the requests reported as
  preempted, each once, are exactly those that ran before and do not run now; the preemption counter grows by their number, the
  violation counter by the number of \<open>V\<close>, and exactly \<open>V\<close> is marked as counted; nothing else changes. Requests keep pending, and the
  sets of the scheduler stay within the pending ids. Times are exact reals.
\<close>

theorem sla_earliest_deadline_first:
  fixes V
  assumes "sla_inv s" and "distinct pending_order" "set pending_order = dom (sl_pending s)" and "distinct active_order" "set active_order = sl_active s"
    and "- (2 ^ 31) \<le> max_batch_size" "max_batch_size < 2 ^ 31" "card (dom (sl_pending s)) < 2 ^ 31"
    and "schedule_tick pending_order active_order max_batch_size now_s s = ((active, preempted), s')"
  defines "V \<equiv> {i. \<exists>r. sl_pending s i = Some r \<and> deadline_s r < now_s \<and> i \<notin> sl_violated s}"
  shows "active \<subseteq> dom (sl_pending s) \<and>
    card active = (if 0 \<le> max_batch_size then min (nat max_batch_size) (card (dom (sl_pending s))) else card (dom (sl_pending s))) \<and>
    (\<forall>i \<in> active. \<forall>j \<in> dom (sl_pending s) - active. deadline_s (the (sl_pending s i)) \<le> deadline_s (the (sl_pending s j))) \<and>
    set preempted = sl_active s - active \<and> distinct preempted \<and>
    s' = s\<lparr>sl_active := active, sl_violated := sl_violated s \<union> V, sl_num_violations := sl_num_violations s + int (card V),
      sl_num_preemptions := sl_num_preemptions s + int (length preempted)\<rparr> \<and> sla_inv s'"
proof -
  let ?bd = "sort_key (pending_deadline s) pending_order"
  let ?n = "min (unat (word_of_int max_batch_size :: u64)) (length ?bd)"
  have V: "{i \<in> set pending_order. pending_deadline s i < now_s \<and> i \<notin> sl_violated s} = V"
    using assms(3) by (auto simp: V_def pending_deadline_def)
  have cv: "count_violations now_s pending_order s = s\<lparr>sl_violated := sl_violated s \<union> V, sl_num_violations := sl_num_violations s + int (card V)\<rparr>"
    using count_violations_eq [OF assms(2), of now_s s] unfolding Let_def V .
  have pd: "pending_deadline (s\<lparr>sl_violated := A, sl_num_violations := k\<rparr>) = pending_deadline s" for A k by (simp add: fun_eq_iff pending_deadline_def)
  have act: "active = set (take ?n ?bd)" and pre: "preempted = filter (\<lambda>i. i \<notin> active) active_order"
    and s': "s' = s\<lparr>sl_active := active, sl_violated := sl_violated s \<union> V, sl_num_violations := sl_num_violations s + int (card V),
      sl_num_preemptions := sl_num_preemptions s + int (length preempted)\<rparr>"
    using assms(9) unfolding schedule_tick_def Let_def cv pd preempt_loop_eq by auto
  have d: "distinct ?bd" "set ?bd = dom (sl_pending s)" using assms(2,3) by simp_all
  have len: "length ?bd = card (dom (sl_pending s))" using distinct_card [OF d(1)] d(2) by simp
  have "card active = ?n" using distinct_card [of "take ?n ?bd"] d(1) act by simp
  then have "card active = (if 0 \<le> max_batch_size then min (nat max_batch_size) (card (dom (sl_pending s))) else card (dom (sl_pending s)))"
    using assms(6-8) unfolding len batch_size_cast [OF assms(6,7)] by (simp add: min_def)
  moreover have sub: "active \<subseteq> dom (sl_pending s)" using act d(2) set_take_subset by metis
  moreover have "deadline_s (the (sl_pending s i)) \<le> deadline_s (the (sl_pending s j))" if "i \<in> active" "j \<in> dom (sl_pending s) - active" for i j
  proof -
    have "sorted (map (pending_deadline s) (take ?n ?bd) @ map (pending_deadline s) (drop ?n ?bd))"
      using sorted_sort_key [of "pending_deadline s" pending_order] by (simp flip: map_append)
    moreover have "j \<in> set (drop ?n ?bd)" using that(2) d(2) act by (metis DiffE UnE append_take_drop_id set_append)
    ultimately have "pending_deadline s i \<le> pending_deadline s j" using that(1) act by (auto simp: sorted_append)
    then show ?thesis using that sub by (auto simp: pending_deadline_def)
  qed
  moreover have "sla_inv s'" using assms(1) sub by (auto simp: sla_inv_def s' V_def)
  moreover have "set preempted = sl_active s - active" "distinct preempted" using pre assms(4,5) by auto
  ultimately show ?thesis using s' by blast
qed

definition example_sla :: sla_scheduler where
  "example_sla = (fold sla_add_request [\<lparr>sla_id = 1, sla_arrival_time_s = 0, sla_latency_budget_s = 9\<rparr>, \<lparr>sla_id = 2, sla_arrival_time_s = 1, sla_latency_budget_s = 2\<rparr>] sla_new)
     \<lparr>sl_active := {1}\<rparr>"

theorem sla_earliest_deadline_first_witness:
  "\<exists>active preempted s'. schedule_tick [1, 2] [1] 1 5 example_sla = ((active, preempted), s') \<and> card active = 1 \<and> set preempted = {1} - active \<and>
     sl_num_violations s' = 1 \<and> sl_violated s' = {2}"
proof -
  obtain active preempted s' where t: "schedule_tick [1, 2] [1] 1 5 example_sla = ((active, preempted), s')" by (metis surj_pair)
  have p: "sl_pending example_sla = [1 \<mapsto> \<lparr>sla_id = 1, sla_arrival_time_s = 0, sla_latency_budget_s = 9\<rparr>, 2 \<mapsto> \<lparr>sla_id = 2, sla_arrival_time_s = 1, sla_latency_budget_s = 2\<rparr>]"
    and e: "sl_active example_sla = {1}" "sl_violated example_sla = {}" "sl_num_violations example_sla = 0"
    by (simp_all add: example_sla_def sla_add_request_def sla_new_def fun_eq_iff)
  have d: "dom (sl_pending example_sla) = {1, 2}" by (auto simp: p)
  have inv: "sla_inv example_sla" by (simp add: sla_inv_def d e)
  have V: "{i. \<exists>r. sl_pending example_sla i = Some r \<and> deadline_s r < 5} = {2}"
    by (auto simp: p e deadline_s_def split: if_splits)
  from sla_earliest_deadline_first [OF inv _ _ _ _ _ _ _ t] have "card active = 1" "set preempted = {1} - active" "sl_num_violations s' = 1" "sl_violated s' = {2}"
    by (simp_all add: V d e)
  then show ?thesis using t by blast
qed

end
