(* ===== verification/Chunking.thy ===== *)
theory Chunking
  imports Prelude
begin

text \<open>
  \<open>rag/indexing_pipeline/chunking.h\<close>: sentence splitting and the greedy packing of sentences into overlapping chunks.
\<close>

section \<open>Sentences\<close>

definition is_boundary :: "char \<Rightarrow> bool" where
  "is_boundary c \<longleftrightarrow> c = CHR ''.'' \<or> c = CHR ''!'' \<or> c = CHR ''?''"

text \<open>\<open>current.substr(current.find_first_not_of(' '))\<close>, pushed unless there is no such position.\<close>

definition push_trimmed :: "string \<Rightarrow> string list \<Rightarrow> string list" where
  "push_trimmed current sentences = (let rest = dropWhile (\<lambda>c. c = CHR '' '') current in if rest = [] then sentences else sentences @ [rest])"

fun split_loop :: "string \<Rightarrow> string \<Rightarrow> string list \<Rightarrow> string \<times> string list" where
  "split_loop [] current sentences = (current, sentences)"
| "split_loop [c] current sentences =
     (if is_boundary c then split_loop [] [] (push_trimmed (current @ [c]) sentences) else split_loop [] (current @ [c]) sentences)"
| "split_loop (c # d # str) current sentences =
     (if is_boundary c \<and> d = CHR '' '' then split_loop str [] (push_trimmed (current @ [c]) sentences)
      else split_loop (d # str) (current @ [c]) sentences)"

definition split_sentences :: "string \<Rightarrow> string list" where
  "split_sentences str = (case split_loop str [] [] of (current, sentences) \<Rightarrow>
     if current \<noteq> [] then push_trimmed current sentences else sentences)"

section \<open>Chunks\<close>

definition overlap_tail :: "int \<Rightarrow> string \<Rightarrow> string" where
  "overlap_tail overlap_chars current = (if overlap_chars > 0 \<and> int (length current) > overlap_chars
     then drop (length current - nat overlap_chars) current else [])"

definition add_sentence :: "string \<Rightarrow> string \<Rightarrow> string" where
  "add_sentence current s = (if current \<noteq> [] then current @ '' '' else current) @ s"

fun chunk_loop :: "int \<Rightarrow> int \<Rightarrow> string list \<Rightarrow> string list \<Rightarrow> string \<Rightarrow> string list \<times> string" where
  "chunk_loop max_chunk_chars overlap_chars [] chunks current = (chunks, current)"
| "chunk_loop max_chunk_chars overlap_chars (s # sentences) chunks current =
     (if current \<noteq> [] \<and> int (length current + 1 + length s) > max_chunk_chars
      then chunk_loop max_chunk_chars overlap_chars sentences (chunks @ [current]) (add_sentence (overlap_tail overlap_chars current) s)
      else chunk_loop max_chunk_chars overlap_chars sentences chunks (add_sentence current s))"

definition chunk_text :: "string \<Rightarrow> int \<Rightarrow> int \<Rightarrow> string list" where
  "chunk_text str max_chunk_chars overlap_chars = (case chunk_loop max_chunk_chars overlap_chars (split_sentences str) [] [] of (chunks, current) \<Rightarrow>
     if current \<noteq> [] then chunks @ [current] else chunks)"

section \<open>Properties\<close>

text \<open>Sentences are non-empty and do not start with a space.\<close>

definition sentence_ok :: "string \<Rightarrow> bool" where
  "sentence_ok s \<longleftrightarrow> s \<noteq> [] \<and> hd s \<noteq> CHR '' ''"

lemma push_trimmed_ok: "list_all sentence_ok ss \<Longrightarrow> list_all sentence_ok (push_trimmed cur ss)"
  using hd_dropWhile [of "\<lambda>c. c = CHR '' ''" cur] by (auto simp: push_trimmed_def Let_def sentence_ok_def)

lemma split_loop_ok: "list_all sentence_ok ss \<Longrightarrow> list_all sentence_ok (snd (split_loop str cur ss))"
  by (induction str cur ss rule: split_loop.induct) (auto simp: push_trimmed_ok)

lemma split_sentences_ok: "list_all sentence_ok (split_sentences str)"
  using split_loop_ok [of "[]" str "[]"] by (auto simp: split_sentences_def push_trimmed_ok split: prod.splits)

text \<open>No character but spaces is lost: the sentences are the text without the spaces at their boundaries.\<close>

abbreviation nonblank :: "string \<Rightarrow> string" where
  "nonblank \<equiv> filter (\<lambda>c. c \<noteq> CHR '' '')"

lemma nonblank_dropWhile: "nonblank (dropWhile (\<lambda>c. c = CHR '' '') s) = nonblank s"
  by (induction s) auto

lemma nonblank_push: "concat (map nonblank (push_trimmed cur ss)) = concat (map nonblank ss) @ nonblank cur"
proof (cases "dropWhile (\<lambda>c. c = CHR '' '') cur = []")
  case True
  then have "nonblank cur = []" using nonblank_dropWhile [of cur] by simp
  then show ?thesis using True by (simp add: push_trimmed_def Let_def)
qed (simp add: push_trimmed_def Let_def nonblank_dropWhile)

lemma split_loop_nonblank:
  "concat (map nonblank (snd (split_loop str cur ss))) @ nonblank (fst (split_loop str cur ss)) = concat (map nonblank ss) @ nonblank cur @ nonblank str"
  by (induction str cur ss rule: split_loop.induct) (auto simp: nonblank_push is_boundary_def)

lemma split_sentences_nonblank: "concat (map nonblank (split_sentences str)) = nonblank str"
  using split_loop_nonblank [of str "[]" "[]"] by (auto simp: split_sentences_def nonblank_push split: prod.splits)

text \<open>Every sentence appears whole in some chunk.\<close>

definition contains :: "string \<Rightarrow> string \<Rightarrow> bool" where
  "contains chunk s \<longleftrightarrow> (\<exists>pre post. chunk = pre @ s @ post)"

lemma contains_add: "contains (add_sentence cur s) s" "contains cur t \<Longrightarrow> contains (add_sentence cur s) t"
proof -
  show "contains (add_sentence cur s) s"
    unfolding contains_def add_sentence_def by (intro exI [of _ "if cur \<noteq> [] then cur @ '' '' else cur"] exI [of _ "[]"]) simp
  assume "contains cur t"
  then obtain pre post where c: "cur = pre @ t @ post" unfolding contains_def by blast
  show "contains (add_sentence cur s) t"
    unfolding contains_def add_sentence_def c by (intro exI [of _ pre] exI [of _ "if pre @ t @ post \<noteq> [] then post @ '' '' @ s else s"]) simp
qed

lemma chunk_loop_contains:
  assumes "\<forall>t \<in> S. list_ex (\<lambda>c. contains c t) (chunks @ [current])"
  shows "\<forall>t \<in> S \<union> set sentences. case chunk_loop m ov sentences chunks current of (chunks', current') \<Rightarrow> list_ex (\<lambda>c. contains c t) (chunks' @ [current'])"
  using assms
proof (induction m ov sentences chunks current arbitrary: S rule: chunk_loop.induct)
  case (2 m ov s sentences chunks current)
  show ?case
  proof (cases "current \<noteq> [] \<and> int (length current + 1 + length s) > m")
    case True
    have "\<forall>t \<in> insert s S. list_ex (\<lambda>c. contains c t) ((chunks @ [current]) @ [add_sentence (overlap_tail ov current) s])"
      using 2(3) contains_add(1) by auto
    from 2(1) [OF True this] show ?thesis using True by simp
  next
    case False
    have "\<forall>t \<in> insert s S. list_ex (\<lambda>c. contains c t) (chunks @ [add_sentence current s])"
      using 2(3) contains_add by auto
    from 2(2) [OF False this] show ?thesis using False by (auto simp: if_not_P simp del: if_split)
  qed
qed simp

lemma chunk_text_covers:
  assumes "s \<in> set (split_sentences str)"
  shows "\<exists>c \<in> set (chunk_text str m ov). contains c s"
proof -
  obtain chunks current where cl: "chunk_loop m ov (split_sentences str) [] [] = (chunks, current)" by (metis surj_pair)
  have "list_ex (\<lambda>c. contains c s) (chunks @ [current])"
    using chunk_loop_contains [of "{}" "[]" "[]" "split_sentences str" m ov] assms cl by auto
  moreover have "s \<noteq> []" using split_sentences_ok [of str] assms by (auto simp: list_all_iff sentence_ok_def)
  ultimately show ?thesis by (auto simp: chunk_text_def cl list_ex_iff contains_def)
qed

text \<open>
  Without overlap the packing respects the limit, except for chunks that are a single over-long sentence.
\<close>

lemma chunk_loop_size:
  assumes "list_all (\<lambda>c. int (length c) \<le> m \<or> c \<in> SS) (chunks @ (if current = [] then [] else [current]))" "set sentences \<subseteq> SS"
  shows "case chunk_loop m 0 sentences chunks current of (chunks', current') \<Rightarrow>
    list_all (\<lambda>c. int (length c) \<le> m \<or> c \<in> SS) (chunks' @ (if current' = [] then [] else [current']))"
  using assms
proof (induction m "0 :: int" sentences chunks current rule: chunk_loop.induct)
  case (2 m s sentences chunks current)
  show ?case
  proof (cases "current \<noteq> [] \<and> int (length current + 1 + length s) > m")
    case True
    have "add_sentence (overlap_tail 0 current) s = s" by (simp add: overlap_tail_def add_sentence_def)
    then show ?thesis using 2(1) [OF True] 2(3,4) True by (auto split: if_splits)
  next
    case False
    have "int (length (add_sentence current s)) \<le> m \<or> add_sentence current s \<in> SS"
      using False 2(4) by (auto simp: add_sentence_def)
    then show ?thesis using 2(2) [OF False] 2(3,4) False by (auto split: if_splits)
  qed
qed simp

lemma chunk_text_size: "list_all (\<lambda>c. int (length c) \<le> m \<or> c \<in> set (split_sentences str)) (chunk_text str m 0)"
  using chunk_loop_size [of m "set (split_sentences str)" "[]" "[]" "split_sentences str"]
  by (auto simp: chunk_text_def split: prod.splits if_splits)

text \<open>With overlap a chunk can exceed the limit even though every sentence fits: the carried tail is not counted.\<close>

lemma chunk_text_overlap_exceeds: "map length (chunk_text ''aaaa. bbbb. cccc.'' 11 8) = [11, 14]"
  by code_simp

end
