(* ===== verification/Gpu_Resources.thy ===== *)
theory Gpu_Resources
  imports Option_Lists
begin

text \<open>
  Ownership of device resources in \<open>gpu_engine\<close>: the stream pool, the event pool and their guards, and the device and
  pinned buffers. Handles and addresses are opaque; what the CUDA runtime returns is an argument. Pool operations hold the
  pool's mutex, so each is one step; \<open>None\<close> is a wait for a free handle. Guards and buffers sit in a table of slots, a
  null guard being \<open>None\<close>.
\<close>

section \<open>Guards\<close>

text \<open>The destructor, the move assignment and the assignment of a fresh guard, for either pool.\<close>

definition guard_destroy :: "('h \<Rightarrow> 'p \<Rightarrow> 'p) \<Rightarrow> nat \<Rightarrow> 'p \<times> 'h option list \<Rightarrow> 'p \<times> 'h option list" where
  "guard_destroy release i s = (case snd s ! i of None \<Rightarrow> s | Some h \<Rightarrow> (release h (fst s), (snd s)[i := None]))"

definition guard_move :: "('h \<Rightarrow> 'p \<Rightarrow> 'p) \<Rightarrow> nat \<Rightarrow> nat \<Rightarrow> 'p \<times> 'h option list \<Rightarrow> 'p \<times> 'h option list" where
  "guard_move release i j s = (if i = j then s
     else (let s = guard_destroy release i s in (fst s, (snd s)[i := snd s ! j, j := None])))"

definition guard_acquire :: "('p \<Rightarrow> ('h \<times> 'p) option) \<Rightarrow> ('h \<Rightarrow> 'p \<Rightarrow> 'p) \<Rightarrow> nat \<Rightarrow> 'p \<times> 'h option list \<Rightarrow> ('p \<times> 'h option list) option" where
  "guard_acquire acquire release i s = map_option (\<lambda>(h, p). let s = guard_destroy release i (p, snd s) in (fst s, (snd s)[i := Some h])) (acquire (fst s))"

datatype guard_op = Acquire nat | Move nat nat | Destroy nat

fun guard_step :: "('p \<Rightarrow> ('h \<times> 'p) option) \<Rightarrow> ('h \<Rightarrow> 'p \<Rightarrow> 'p) \<Rightarrow> guard_op \<Rightarrow> 'p \<times> 'h option list \<Rightarrow> ('p \<times> 'h option list) option" where
  "guard_step acquire release (Acquire i) s = (if i < length (snd s) then guard_acquire acquire release i s else None)"
| "guard_step acquire release (Move i j) s = (if i < length (snd s) \<and> j < length (snd s) then Some (guard_move release i j s) else None)"
| "guard_step acquire release (Destroy i) s = (if i < length (snd s) then Some (guard_destroy release i s) else None)"

fun guard_run :: "('p \<Rightarrow> ('h \<times> 'p) option) \<Rightarrow> ('h \<Rightarrow> 'p \<Rightarrow> 'p) \<Rightarrow> guard_op list \<Rightarrow> 'p \<times> 'h option list \<Rightarrow> ('p \<times> 'h option list) option" where
  "guard_run acquire release [] s = Some s"
| "guard_run acquire release (op # ops) s = Option.bind (guard_step acquire release op s) (guard_run acquire release ops)"

text \<open>The contract of a pool of handles, and what follows for its guards.\<close>

locale handle_pool =
  fixes acquire :: "'p \<Rightarrow> ('h \<times> 'p) option"
    and release :: "'h \<Rightarrow> 'p \<Rightarrow> 'p"
    and handles :: "'p \<Rightarrow> 'h list"
    and free_handles :: "'p \<Rightarrow> 'h list"
  assumes acquire_some: "acquire p = Some (h, p') \<Longrightarrow> handles p' = handles p \<and> mset (free_handles p) = add_mset h (mset (free_handles p'))"
    and acquire_none: "acquire p = None \<longleftrightarrow> free_handles p = []"
    and release_free: "handles (release h p) = handles p \<and> mset (free_handles (release h p)) = add_mset h (mset (free_handles p))"
begin

text \<open>Every handle of the pool is free or in exactly one guard.\<close>

definition owned :: "'p \<times> 'h option list \<Rightarrow> bool" where
  "owned s \<longleftrightarrow> mset (free_handles (fst s)) + mset (somes (snd s)) = mset (handles (fst s))"

lemma destroy_owned:
  assumes "owned s" "i < length (snd s)"
  shows "owned (guard_destroy release i s) \<and> snd (guard_destroy release i s) ! i = None \<and> length (snd (guard_destroy release i s)) = length (snd s) \<and>
    handles (fst (guard_destroy release i s)) = handles (fst s)"
proof (cases "snd s ! i")
  case (Some h)
  have "mset (somes (snd s)) = add_mset h (mset (somes ((snd s)[i := None])))" using somes_clear [OF assms(2) Some] by simp
  then show ?thesis using assms Some release_free [of h "fst s"] by (simp add: owned_def guard_destroy_def)
qed (use assms in \<open>simp add: guard_destroy_def\<close>)

lemma move_owned:
  assumes "owned s" "i < length (snd s)" "j < length (snd s)"
  shows "owned (guard_move release i j s) \<and> handles (fst (guard_move release i j s)) = handles (fst s)"
proof (cases "i = j")
  case False
  let ?t = "guard_destroy release i s"
  note d = destroy_owned [OF assms(1,2)]
  have j: "j < length (snd ?t)" "i < length (snd ?t)" using d assms by auto
  have "mset (somes ((snd ?t)[i := snd ?t ! j, j := None])) = mset (somes (snd ?t))"
  proof -
    have "mset (somes ((snd ?t)[i := snd ?t ! j])) = mset (somes [snd ?t ! j]) + mset (somes (snd ?t))" using somes_put [OF j(2), of "snd ?t ! j"] d by simp
    moreover have "mset (somes ((snd ?t)[i := snd ?t ! j])) = mset (somes [snd ?t ! j]) + mset (somes ((snd ?t)[i := snd ?t ! j, j := None]))"
      using somes_take [of j "(snd ?t)[i := snd ?t ! j]"] j False by simp
    ultimately show ?thesis by simp
  qed
  then show ?thesis using d False by (simp add: guard_move_def Let_def owned_def)
qed (use assms in \<open>simp add: guard_move_def\<close>)

lemma acquire_owned:
  assumes "owned s" "i < length (snd s)" "guard_acquire acquire release i s = Some s'"
  shows "owned s' \<and> handles (fst s') = handles (fst s)"
proof -
  obtain h p where a: "acquire (fst s) = Some (h, p)" "s' = (let t = guard_destroy release i (p, snd s) in (fst t, (snd t)[i := Some h]))"
    using assms(3) by (auto simp: guard_acquire_def)
  have p: "handles p = handles (fst s)" "mset (free_handles (fst s)) = add_mset h (mset (free_handles p))" using acquire_some [OF a(1)] by auto
  show ?thesis
  proof (cases "snd s ! i")
    case None
    then have "mset (somes ((snd s)[i := Some h])) = add_mset h (mset (somes (snd s)))" using somes_put [OF assms(2) None, of "Some h"] by simp
    then show ?thesis using assms(1) a(2) p None by (simp add: guard_destroy_def owned_def)
  next
    case (Some k)
    have "mset (somes ((snd s)[i := Some h])) = add_mset h (mset (somes ((snd s)[i := None])))" using somes_put [of i "(snd s)[i := None]" "Some h"] assms(2) by simp
    moreover have "mset (somes (snd s)) = add_mset k (mset (somes ((snd s)[i := None])))" using somes_clear [OF assms(2) Some] by simp
    ultimately show ?thesis using assms(1) a(2) p Some release_free [of k p] by (simp add: guard_destroy_def owned_def Let_def add_mset_commute)
  qed
qed

lemma step_owned:
  "owned s \<Longrightarrow> guard_step acquire release op s = Some s' \<Longrightarrow> owned s' \<and> handles (fst s') = handles (fst s)"
  by (cases op) (auto simp: destroy_owned move_owned dest: acquire_owned split: if_splits)

lemma run_owned: "owned s \<Longrightarrow> guard_run acquire release ops s = Some s' \<Longrightarrow> owned s' \<and> handles (fst s') = handles (fst s)"
proof (induction ops arbitrary: s)
  case (Cons op ops)
  obtain s1 where s1: "guard_step acquire release op s = Some s1" "guard_run acquire release ops s1 = Some s'" using Cons.prems(2) by (auto simp: Option.bind_eq_Some_conv)
  have st: "owned s1" "handles (fst s1) = handles (fst s)" using step_owned [OF Cons.prems(1) s1(1)] by auto
  show ?case using Cons.IH [OF st(1) s1(2)] st(2) by simp
qed simp

text \<open>With distinct handles no two guards hold the same one and a held handle is not free.\<close>

lemma exclusive:
  assumes "owned s" "distinct (handles (fst s))" "i < length (snd s)" "snd s ! i = Some h"
  shows "h \<notin> set (free_handles (fst s)) \<and> (\<forall>j < length (snd s). snd s ! j = Some h \<longrightarrow> j = i)"
proof -
  have m: "mset (free_handles (fst s) @ somes (snd s)) = mset (handles (fst s))" using assms(1) by (simp add: owned_def)
  have d: "distinct (free_handles (fst s) @ somes (snd s))" using assms(2) by (subst mset_eq_imp_distinct_iff [OF m])
  have "h \<in> set (somes (snd s))" using somes_nth [OF assms(3,4)] .
  then show ?thesis using d somes_distinct [of "snd s" _ i h] assms(3,4) by auto
qed

text \<open>A wait ends as soon as a guard is destroyed: acquisition fails only while guards hold every handle.\<close>

lemma waits_only_when_empty: "guard_acquire acquire release i s = None \<longleftrightarrow> free_handles (fst s) = []"
  by (simp add: guard_acquire_def acquire_none)

end

section \<open>Stream pool\<close>

record 'h stream_pool =
  sp_streams :: "'h list"
  sp_free :: "'h list"

definition stream_pool_new :: "'h list \<Rightarrow> 'h stream_pool" where
  "stream_pool_new created = \<lparr>sp_streams = created, sp_free = created\<rparr>"

definition stream_acquire :: "'h stream_pool \<Rightarrow> ('h \<times> 'h stream_pool) option" where
  "stream_acquire p = (if sp_free p = [] then None else Some (last (sp_free p), p\<lparr>sp_free := butlast (sp_free p)\<rparr>))"

definition stream_release :: "'h \<Rightarrow> 'h stream_pool \<Rightarrow> 'h stream_pool" where
  "stream_release s p = p\<lparr>sp_free := sp_free p @ [s]\<rparr>"

definition stream_capacity :: "'h stream_pool \<Rightarrow> nat" where
  "stream_capacity p = length (sp_streams p)"

definition stream_available :: "'h stream_pool \<Rightarrow> nat" where
  "stream_available p = length (sp_free p)"

definition stream_guard_destroy :: "nat \<Rightarrow> 'h stream_pool \<times> 'h option list \<Rightarrow> 'h stream_pool \<times> 'h option list" where
  "stream_guard_destroy = guard_destroy stream_release"

definition stream_guard_move :: "nat \<Rightarrow> nat \<Rightarrow> 'h stream_pool \<times> 'h option list \<Rightarrow> 'h stream_pool \<times> 'h option list" where
  "stream_guard_move = guard_move stream_release"

lemma mset_last_butlast: "xs \<noteq> [] \<Longrightarrow> mset xs = add_mset (last xs) (mset (butlast xs))"
  by (metis append_butlast_last_id mset.simps(2) mset_append union_mset_add_mset_right mset_zero_iff add.right_neutral)

interpretation streams: handle_pool stream_acquire stream_release sp_streams sp_free
  by unfold_locales (auto simp: stream_acquire_def stream_release_def mset_last_butlast split: if_splits)

section \<open>Event pool\<close>

record 'h event_pool =
  ep_events :: "'h list"
  ep_free :: "'h list"

definition event_pool_new :: "'h list \<Rightarrow> 'h event_pool" where
  "event_pool_new created = \<lparr>ep_events = created, ep_free = created\<rparr>"

definition event_acquire :: "'h event_pool \<Rightarrow> ('h \<times> 'h event_pool) option" where
  "event_acquire p = (if ep_free p = [] then None else Some (last (ep_free p), p\<lparr>ep_free := butlast (ep_free p)\<rparr>))"

definition event_release :: "'h \<Rightarrow> 'h event_pool \<Rightarrow> 'h event_pool" where
  "event_release e p = p\<lparr>ep_free := ep_free p @ [e]\<rparr>"

definition event_capacity :: "'h event_pool \<Rightarrow> nat" where
  "event_capacity p = length (ep_events p)"

definition event_available :: "'h event_pool \<Rightarrow> nat" where
  "event_available p = length (ep_free p)"

definition event_guard_destroy :: "nat \<Rightarrow> 'h event_pool \<times> 'h option list \<Rightarrow> 'h event_pool \<times> 'h option list" where
  "event_guard_destroy = guard_destroy event_release"

definition event_guard_move :: "nat \<Rightarrow> nat \<Rightarrow> 'h event_pool \<times> 'h option list \<Rightarrow> 'h event_pool \<times> 'h option list" where
  "event_guard_move = guard_move event_release"

interpretation events: handle_pool event_acquire event_release ep_events ep_free
  by unfold_locales (auto simp: event_acquire_def event_release_def mset_last_butlast split: if_splits)

text \<open>
  Whatever sequence of acquisitions, moves and destructions of guards a program performs, a stream of the pool is
  never held by two guards at once and never handed out while held, and no stream is lost: when \<open>available\<close> equals
  \<open>capacity\<close> no guard holds one.
\<close>

theorem stream_guards_exclusive:
  assumes "distinct created" and "guard_run stream_acquire stream_release ops (stream_pool_new created, replicate n None) = Some (p, guards)"
  shows "(\<forall>i < n. \<forall>j < n. i \<noteq> j \<longrightarrow> guards ! i = None \<or> guards ! i \<noteq> guards ! j) \<and>
    (\<forall>i < n. \<forall>h. guards ! i = Some h \<longrightarrow> h \<notin> set (sp_free p) \<and> h \<in> set created) \<and>
    stream_available p + length (somes guards) = stream_capacity p"
proof -
  have "streams.owned (stream_pool_new created, replicate n None)" by (simp add: streams.owned_def stream_pool_new_def)
  then have o: "streams.owned (p, guards)" and hs: "sp_streams p = created"
    using streams.run_owned [OF _ assms(2)] by (auto simp: stream_pool_new_def)
  have len: "length guards = n"
  proof -
    have step: "length (snd s') = length (snd s)" if "guard_step stream_acquire stream_release op s = Some s'" for op s s'
      using that by (cases op) (auto simp: guard_acquire_def guard_move_def guard_destroy_def Let_def split: if_splits option.splits)
    have "length (snd s') = length (snd s)" if "guard_run stream_acquire stream_release ops s = Some s'" for s s'
      using that by (induction ops arbitrary: s) (auto simp: Option.bind_eq_Some_conv dest!: step)
    from this [OF assms(2)] show ?thesis by simp
  qed
  have m: "mset (sp_free p) + mset (somes guards) = mset created" using o hs by (simp add: streams.owned_def)
  have ex: "h \<notin> set (sp_free p) \<and> (\<forall>j < n. guards ! j = Some h \<longrightarrow> j = i)" if "i < n" "guards ! i = Some h" for i h
    using streams.exclusive [OF o, of i h] assms(1) hs len that by simp
  moreover have "h \<in> set created" if "i < n" "guards ! i = Some h" for i h
  proof -
    have "h \<in> set (somes guards)" using somes_nth [of i guards h] that len by simp
    then show ?thesis using m by (metis in_multiset_in_set union_iff)
  qed
  moreover have "length (sp_free p) + length (somes guards) = length created" using m by (metis size_mset size_union)
  ultimately show ?thesis using hs by (auto simp: stream_available_def stream_capacity_def) (metis option.exhaust)
qed

theorem stream_guards_exclusive_witness:
  "\<exists>p guards. guard_run stream_acquire stream_release [Acquire 0, Acquire 1, Move 2 0, Destroy 1] (stream_pool_new [7 :: nat, 8], replicate 3 None) = Some (p, guards) \<and>
     guards = [None, None, Some 8] \<and> stream_available p + length (somes guards) = stream_capacity p"
proof -
  have r: "guard_run stream_acquire stream_release [Acquire 0, Acquire 1, Move 2 0, Destroy 1] (stream_pool_new [7 :: nat, 8], replicate 3 None) =
      Some (\<lparr>sp_streams = [7, 8], sp_free = [7]\<rparr>, [None, None, Some 8])" by code_simp
  show ?thesis using stream_guards_exclusive [OF _ r] r by simp
qed

section \<open>Device and pinned buffers\<close>

record buffer =
  bf_ptr :: "nat option"
  bf_bytes :: nat

definition buffer_null :: buffer where
  "buffer_null = \<lparr>bf_ptr = None, bf_bytes = 0\<rparr>"

text \<open>The result of the allocation call, \<open>None\<close> for a failure, is an argument.\<close>

definition device_buffer :: "nat option \<Rightarrow> nat \<Rightarrow> buffer" where
  "device_buffer malloc bytes = (if bytes > 0 then (case malloc of None \<Rightarrow> \<lparr>bf_ptr = None, bf_bytes = 0\<rparr> | Some a \<Rightarrow> \<lparr>bf_ptr = Some a, bf_bytes = bytes\<rparr>)
     else \<lparr>bf_ptr = None, bf_bytes = bytes\<rparr>)"

text \<open>\<open>reset\<close> returns the address it frees.\<close>

definition device_reset :: "buffer \<Rightarrow> nat option \<times> buffer" where
  "device_reset b = (case bf_ptr b of None \<Rightarrow> (None, b) | Some a \<Rightarrow> (Some a, b\<lparr>bf_ptr := None, bf_bytes := 0\<rparr>))"

definition device_move :: "nat \<Rightarrow> nat \<Rightarrow> buffer list \<Rightarrow> nat option \<times> buffer list" where
  "device_move i j bs = (if i = j then (None, bs)
     else (case device_reset (bs ! i) of (freed, b) \<Rightarrow> (freed, bs[i := bs ! j, j := buffer_null])))"

definition pinned_buffer :: "nat option \<Rightarrow> nat \<Rightarrow> buffer" where
  "pinned_buffer mallocHost bytes = (if bytes > 0 then (case mallocHost of None \<Rightarrow> \<lparr>bf_ptr = None, bf_bytes = 0\<rparr> | Some a \<Rightarrow> \<lparr>bf_ptr = Some a, bf_bytes = bytes\<rparr>)
     else \<lparr>bf_ptr = None, bf_bytes = bytes\<rparr>)"

definition pinned_reset :: "buffer \<Rightarrow> nat option \<times> buffer" where
  "pinned_reset b = (case bf_ptr b of None \<Rightarrow> (None, b) | Some a \<Rightarrow> (Some a, b\<lparr>bf_ptr := None, bf_bytes := 0\<rparr>))"

definition pinned_move :: "nat \<Rightarrow> nat \<Rightarrow> buffer list \<Rightarrow> nat option \<times> buffer list" where
  "pinned_move i j bs = (if i = j then (None, bs)
     else (case pinned_reset (bs ! i) of (freed, b) \<Rightarrow> (freed, bs[i := bs ! j, j := buffer_null])))"

definition buffer_ok :: "buffer \<Rightarrow> bool" where
  "buffer_ok b \<longleftrightarrow> (bf_ptr b = None \<longleftrightarrow> bf_bytes b = 0)"

lemma buffer_ok_ops:
  "buffer_ok buffer_null" "buffer_ok (device_buffer m n)" "buffer_ok (pinned_buffer m n)"
  "buffer_ok b \<Longrightarrow> buffer_ok (snd (device_reset b))" "buffer_ok b \<Longrightarrow> buffer_ok (snd (pinned_reset b))"
  by (auto simp: buffer_ok_def buffer_null_def device_buffer_def pinned_buffer_def device_reset_def pinned_reset_def split: option.splits)

text \<open>A move frees what the target held and transfers the source's allocation: none is leaked or owned twice.\<close>

lemma move_conserves:
  assumes "i < length bs" "j < length bs" "device_move i j bs = (freed, bs')"
  shows "mset (somes (map bf_ptr bs')) + mset (somes [freed]) = mset (somes (map bf_ptr bs)) \<and> length bs' = length bs"
proof (cases "i = j")
  case False
  let ?p = "map bf_ptr bs" and ?a = "bf_ptr (bs ! i)"
  have f: "freed = ?a" "bs' = bs[i := bs ! j, j := buffer_null]" using assms(3) False by (auto simp: device_move_def device_reset_def split: option.splits)
  have p': "map bf_ptr bs' = ?p[i := ?p ! j, j := None]" using assms f by (simp add: map_update buffer_null_def)
  have "mset (somes ?p) = mset (somes [?a]) + mset (somes (?p[i := None]))" using somes_take [of i ?p] assms by simp
  moreover have "mset (somes (?p[i := ?p ! j])) = mset (somes [?p ! j]) + mset (somes (?p[i := None]))"
    using somes_put [of i "?p[i := None]" "?p ! j"] assms by simp
  moreover have "mset (somes (?p[i := ?p ! j])) = mset (somes [?p ! j]) + mset (somes (?p[i := ?p ! j, j := None]))"
    using somes_take [of j "?p[i := ?p ! j]"] assms False by simp
  ultimately show ?thesis using p' f by simp
qed (use assms in \<open>simp add: device_move_def\<close>)

lemma pinned_as_device: "pinned_reset b = device_reset b" "pinned_buffer m n = device_buffer m n" "pinned_move i j bs = device_move i j bs"
  unfolding pinned_reset_def device_reset_def pinned_buffer_def device_buffer_def pinned_move_def device_move_def by (rule refl)+

lemma pinned_conserves:
  "i < length bs \<Longrightarrow> j < length bs \<Longrightarrow> pinned_move i j bs = (freed, bs') \<Longrightarrow> mset (somes (map bf_ptr bs')) + mset (somes [freed]) = mset (somes (map bf_ptr bs))"
  unfolding pinned_as_device using move_conserves by blast

lemma reset_twice: "device_reset (snd (device_reset b)) = (None, snd (device_reset b))"
  by (simp add: device_reset_def split: option.split)

end
