(* ===== verification/Storage_Qos.thy ===== *)
theory Storage_Qos
  imports Fair_Scheduler Complex_Main
begin

text \<open>
  \<open>hpc_storage/storage_qos\<close>: storage requests admitted through the fair scheduler's quota and a per-tenant byte bucket.
  The bucket is modelled with exact real arithmetic. \<open>None\<close> is the exception of \<open>at\<close> for an unknown tenant.
\<close>

record storage_config =
  sc_priority :: int
  sc_weight :: int
  sc_quota :: nat
  sc_bandwidth :: real

record io_stats =
  io_submitted :: nat
  io_rejected_quota :: nat
  io_admitted :: nat
  io_throttled :: nat

definition io_zero :: io_stats where
  "io_zero = \<lparr>io_submitted = 0, io_rejected_quota = 0, io_admitted = 0, io_throttled = 0\<rparr>"

record qos =
  qs_scheduler :: "unit fair_scheduler"
  qs_configs :: "string \<rightharpoonup> storage_config"
  qs_buckets :: "string \<rightharpoonup> real"
  qs_stats :: "string \<rightharpoonup> io_stats"

definition qos_new :: qos where
  "qos_new = \<lparr>qs_scheduler = fs_new, qs_configs = Map.empty, qs_buckets = Map.empty, qs_stats = Map.empty\<rparr>"

definition qos_registerTenant :: "string \<Rightarrow> storage_config \<Rightarrow> qos \<Rightarrow> qos" where
  "qos_registerTenant name config q = q\<lparr>qs_configs := (qs_configs q)(name \<mapsto> config), qs_buckets := (qs_buckets q)(name \<mapsto> sc_bandwidth config),
     qs_scheduler := registerTenant name \<lparr>tc_priority = sc_priority config, tc_weight = sc_weight config, tc_quota = sc_quota config\<rparr> (qs_scheduler q)\<rparr>"

text \<open>Every bucket belongs to a registered tenant, so the lookup of its configuration succeeds.\<close>

definition qos_tick :: "real \<Rightarrow> qos \<Rightarrow> qos" where
  "qos_tick elapsed_sec q = q\<lparr>qs_buckets := (\<lambda>name. case (qs_buckets q name, qs_configs q name) of
      (Some b, Some c) \<Rightarrow> Some (min (sc_bandwidth c) (b + sc_bandwidth c * elapsed_sec)) | (b, _) \<Rightarrow> b)\<rparr>"

definition qos_submit :: "string \<Rightarrow> nat \<Rightarrow> qos \<Rightarrow> (bool \<times> qos) option" where
  "qos_submit tn bytes q = (case fs_submit tn () (qs_scheduler q) of
      None \<Rightarrow> None
    | Some (accepted, sched) \<Rightarrow>
        (let q = q\<lparr>qs_scheduler := sched\<rparr>;
             s = (case qs_stats q tn of None \<Rightarrow> io_zero | Some s \<Rightarrow> s);
             s = s\<lparr>io_submitted := io_submitted s + 1\<rparr> in
         if \<not> accepted then Some (False, q\<lparr>qs_stats := (qs_stats q)(tn \<mapsto> s\<lparr>io_rejected_quota := io_rejected_quota s + 1\<rparr>)\<rparr>)
         else (case qs_buckets q tn of
             None \<Rightarrow> None
           | Some bucket \<Rightarrow>
               if real bytes \<le> bucket
               then Some (True, q\<lparr>qs_buckets := (qs_buckets q)(tn \<mapsto> bucket - real bytes), qs_stats := (qs_stats q)(tn \<mapsto> s\<lparr>io_admitted := io_admitted s + bytes\<rparr>)\<rparr>)
               else Some (False, q\<lparr>qs_stats := (qs_stats q)(tn \<mapsto> s\<lparr>io_throttled := io_throttled s + bytes\<rparr>)\<rparr>))))"

definition qos_drain :: "qos \<Rightarrow> qos option" where
  "qos_drain q = map_option (\<lambda>sched. q\<lparr>qs_scheduler := sched\<rparr>) (fs_run (qs_scheduler q))"

definition qos_statsFor :: "string \<Rightarrow> qos \<Rightarrow> io_stats option" where
  "qos_statsFor tn q = qs_stats q tn"

section \<open>Bandwidth\<close>

text \<open>
  The bytes admitted for a tenant since registration are bounded by one second's budget plus the rate times the time
  elapsed: the bucket and what was admitted never exceed it.
\<close>

definition admitted :: "qos \<Rightarrow> string \<Rightarrow> nat" where
  "admitted q name = (case qs_stats q name of None \<Rightarrow> 0 | Some s \<Rightarrow> io_admitted s)"

definition within_budget :: "real \<Rightarrow> string \<Rightarrow> real \<Rightarrow> qos \<Rightarrow> bool" where
  "within_budget rate name elapsed q \<longleftrightarrow> (\<exists>c b. qs_configs q name = Some c \<and> sc_bandwidth c = rate \<and> qs_buckets q name = Some b \<and>
     0 \<le> b \<and> b \<le> rate \<and> real (admitted q name) + b \<le> rate + rate * elapsed)"

lemma within_register:
  assumes "qs_stats q name = None" "0 \<le> sc_bandwidth c"
  shows "within_budget (sc_bandwidth c) name 0 (qos_registerTenant name c q)"
  using assms by (simp add: within_budget_def qos_registerTenant_def admitted_def)

lemma within_tick:
  assumes "within_budget rate name e q" "0 \<le> dt"
  shows "within_budget rate name (e + dt) (qos_tick dt q)"
proof -
  obtain c b where w: "qs_configs q name = Some c" "sc_bandwidth c = rate" "qs_buckets q name = Some b" "0 \<le> b" "b \<le> rate" "real (admitted q name) + b \<le> rate + rate * e"
    using assms(1) unfolding within_budget_def by blast
  have "0 \<le> rate * dt" using w(4,5) assms(2) by simp
  then show ?thesis using w by (auto simp: within_budget_def qos_tick_def admitted_def distrib_left min_def)
qed

lemma fs_submit_only: "qs_configs (q\<lparr>qs_scheduler := x\<rparr>) = qs_configs q" "qs_buckets (q\<lparr>qs_scheduler := x\<rparr>) = qs_buckets q" "qs_stats (q\<lparr>qs_scheduler := x\<rparr>) = qs_stats q"
  by simp_all

lemma within_submit:
  assumes "within_budget rate name e q" "qos_submit tn bytes q = Some (ok, q')"
  shows "within_budget rate name e q'"
proof -
  obtain c b where w: "qs_configs q name = Some c" "sc_bandwidth c = rate" "qs_buckets q name = Some b" "0 \<le> b" "b \<le> rate" "real (admitted q name) + b \<le> rate + rate * e"
    using assms(1) unfolding within_budget_def by blast
  obtain accepted sched where f: "fs_submit tn () (qs_scheduler q) = Some (accepted, sched)"
    using assms(2) by (auto simp: qos_submit_def split: option.splits)
  have cfg: "qs_configs q' = qs_configs q" using assms(2) f by (auto simp: qos_submit_def Let_def split: option.splits if_splits)
  show ?thesis
  proof (cases "ok \<and> tn = name")
    case True
    then have "real bytes \<le> b" "qs_buckets q' name = Some (b - real bytes)" "admitted q' name = admitted q name + bytes"
      using assms(2) f w(3) by (auto simp: qos_submit_def Let_def admitted_def io_zero_def split: option.splits if_splits)
    then show ?thesis using w cfg by (auto simp: within_budget_def)
  next
    case False
    then have "qs_buckets q' name = qs_buckets q name" "admitted q' name = admitted q name"
      using assms(2) f w(3) by (auto simp: qos_submit_def Let_def admitted_def io_zero_def split: option.splits if_splits)
    then show ?thesis using w cfg by (auto simp: within_budget_def)
  qed
qed

lemma within_drain: "within_budget rate name e q \<Longrightarrow> qos_drain q = Some q' \<Longrightarrow> within_budget rate name e q'"
  by (auto simp: within_budget_def qos_drain_def admitted_def)

text \<open>
  A request that the byte bucket refuses has already been queued: it holds a slot of the tenant's quota and \<open>drain\<close> runs
  it, although \<open>submit\<close> returned false.
\<close>

definition throttle_example :: qos where
  "throttle_example = qos_registerTenant ''t'' \<lparr>sc_priority = 0, sc_weight = 1, sc_quota = 1, sc_bandwidth = 10\<rparr> qos_new"

lemma throttled_request_still_runs:
  "map_option (\<lambda>(ok, q). (ok, map_option (\<lambda>q. length (fs_ran (qs_scheduler q))) (qos_drain q))) (qos_submit ''t'' 11 throttle_example) = Some (False, Some 1)"
proof -
  let ?s = "\<lparr>fs_tenants = [''t'' \<mapsto> \<lparr>tq_config = \<lparr>tc_priority = 0, tc_weight = 1, tc_quota = 1\<rparr>, tq_tasks = [()], tq_stats = \<lparr>ts_submitted = 1, ts_rejected = 0, ts_completed = 0\<rparr>\<rparr>],
    fs_order = [''t''], fs_ran = []\<rparr> :: unit fair_scheduler"
  have sub: "fs_submit ''t'' () (qs_scheduler throttle_example) = Some (True, ?s)"
    by (simp add: throttle_example_def qos_registerTenant_def qos_new_def fs_new_def registerTenant_def fs_submit_def zero_stats_def)
  have "map_option (\<lambda>s. length (fs_ran s)) (fs_run ?s) = Some 1" by code_simp
  then obtain s' where "fs_run ?s = Some s'" "length (fs_ran s') = 1" by auto
  then show ?thesis using sub
    by (simp add: qos_submit_def qos_drain_def throttle_example_def qos_registerTenant_def qos_new_def Let_def)
qed

end
