(* ===== verification/Training_Layout.thy ===== *)
theory Training_Layout
  imports Prelude Complex_Main
begin

text \<open>
  Sequential pieces of \<open>distributed_training\<close>: the three-dimensional process grid, the double-buffered offload schedule and
  the sharded checkpoint files. A file is a list of bytes (numbers below 256) and a float its 32-bit pattern.
\<close>

section \<open>Process grid\<close>

record process_grid =
  dp_size :: nat
  tp_size :: nat
  pp_size :: nat

record coord =
  co_dp :: nat
  co_tp :: nat
  co_pp :: nat

definition world_size :: "process_grid \<Rightarrow> nat" where
  "world_size g = dp_size g * tp_size g * pp_size g"

definition rank_of :: "process_grid \<Rightarrow> nat \<Rightarrow> nat \<Rightarrow> nat \<Rightarrow> nat" where
  "rank_of g dp tp pp = dp * (tp_size g * pp_size g) + tp * pp_size g + pp"

definition coord_of :: "process_grid \<Rightarrow> nat \<Rightarrow> coord" where
  "coord_of g global_rank = (let pp = global_rank mod pp_size g; rest = global_rank div pp_size g in
     \<lparr>co_dp = rest div tp_size g, co_tp = rest mod tp_size g, co_pp = pp\<rparr>)"

definition tp_group :: "process_grid \<Rightarrow> nat \<Rightarrow> nat \<Rightarrow> nat list" where
  "tp_group g dp pp = map (\<lambda>tp. rank_of g dp tp pp) [0..<tp_size g]"

definition dp_group :: "process_grid \<Rightarrow> nat \<Rightarrow> nat \<Rightarrow> nat list" where
  "dp_group g tp pp = map (\<lambda>dp. rank_of g dp tp pp) [0..<dp_size g]"

definition pp_group :: "process_grid \<Rightarrow> nat \<Rightarrow> nat \<Rightarrow> nat list" where
  "pp_group g dp tp = map (\<lambda>pp. rank_of g dp tp pp) [0..<pp_size g]"

lemma rank_of_digits: "rank_of g dp tp pp = (dp * tp_size g + tp) * pp_size g + pp"
  by (simp add: rank_of_def algebra_simps)

lemma digit_bound: "a < m \<Longrightarrow> b < n \<Longrightarrow> a * n + b < m * (n :: nat)"
proof -
  assume "a < m" "b < n"
  then have "a * n + b < Suc a * n" "Suc a * n \<le> m * n" by (simp, intro mult_le_mono1, simp)
  then show ?thesis by simp
qed

lemma coord_of_rank_of:
  "tp < tp_size g \<Longrightarrow> pp < pp_size g \<Longrightarrow> coord_of g (rank_of g dp tp pp) = \<lparr>co_dp = dp, co_tp = tp, co_pp = pp\<rparr>"
  by (simp add: coord_of_def rank_of_digits Let_def)

lemma rank_of_coord_of: "rank_of g (co_dp (coord_of g r)) (co_tp (coord_of g r)) (co_pp (coord_of g r)) = r"
  by (simp add: coord_of_def rank_of_digits Let_def)

lemma rank_of_bound: "dp < dp_size g \<Longrightarrow> tp < tp_size g \<Longrightarrow> pp < pp_size g \<Longrightarrow> rank_of g dp tp pp < world_size g"
  unfolding rank_of_digits world_size_def by (intro digit_bound)

lemma coord_of_bound:
  assumes "r < world_size g"
  shows "co_dp (coord_of g r) < dp_size g" "co_tp (coord_of g r) < tp_size g" "co_pp (coord_of g r) < pp_size g"
proof -
  have pos: "0 < tp_size g" "0 < pp_size g" using assms by (auto simp: world_size_def intro: gr0I)
  show "co_tp (coord_of g r) < tp_size g" "co_pp (coord_of g r) < pp_size g" using pos by (simp_all add: coord_of_def Let_def)
  have "r div pp_size g < dp_size g * tp_size g" using assms by (simp add: world_size_def less_mult_imp_div_less)
  then show "co_dp (coord_of g r) < dp_size g" by (simp add: coord_of_def Let_def less_mult_imp_div_less)
qed

text \<open>Every rank is in exactly one group of each kind, the one its coordinates name; a group has no repetitions.\<close>

lemma group_membership:
  assumes "r < world_size g"
  shows "dp < dp_size g \<Longrightarrow> pp < pp_size g \<Longrightarrow> r \<in> set (tp_group g dp pp) \<longleftrightarrow> co_dp (coord_of g r) = dp \<and> co_pp (coord_of g r) = pp"
    and "tp < tp_size g \<Longrightarrow> pp < pp_size g \<Longrightarrow> r \<in> set (dp_group g tp pp) \<longleftrightarrow> co_tp (coord_of g r) = tp \<and> co_pp (coord_of g r) = pp"
    and "dp < dp_size g \<Longrightarrow> tp < tp_size g \<Longrightarrow> r \<in> set (pp_group g dp tp) \<longleftrightarrow> co_dp (coord_of g r) = dp \<and> co_tp (coord_of g r) = tp"
proof -
  note b = coord_of_bound [OF assms] and e = rank_of_coord_of [of g r, symmetric]
  show "dp < dp_size g \<Longrightarrow> pp < pp_size g \<Longrightarrow> r \<in> set (tp_group g dp pp) \<longleftrightarrow> co_dp (coord_of g r) = dp \<and> co_pp (coord_of g r) = pp"
    using b e by (auto simp: tp_group_def coord_of_rank_of)
  show "tp < tp_size g \<Longrightarrow> pp < pp_size g \<Longrightarrow> r \<in> set (dp_group g tp pp) \<longleftrightarrow> co_tp (coord_of g r) = tp \<and> co_pp (coord_of g r) = pp"
    using b e by (auto simp: dp_group_def coord_of_rank_of)
  show "dp < dp_size g \<Longrightarrow> tp < tp_size g \<Longrightarrow> r \<in> set (pp_group g dp tp) \<longleftrightarrow> co_dp (coord_of g r) = dp \<and> co_tp (coord_of g r) = tp"
    using b e by (auto simp: pp_group_def coord_of_rank_of)
qed

section \<open>Offload schedule\<close>

record offload_result =
  of_naive_total_ms :: real
  of_overlapped_total_ms :: real
  of_speedup :: real

definition simulate_offload_schedule :: "nat \<Rightarrow> real \<Rightarrow> real \<Rightarrow> offload_result" where
  "simulate_offload_schedule num_shards compute_time_ms transfer_time_ms =
     (let naive = real num_shards * (compute_time_ms + transfer_time_ms);
          overlapped = transfer_time_ms + real num_shards * max compute_time_ms transfer_time_ms in
      \<lparr>of_naive_total_ms = naive, of_overlapped_total_ms = overlapped, of_speedup = naive / overlapped\<rparr>)"

datatype offload_call = Transfer nat | Compute nat

text \<open>The calls made to the two callbacks, and the order returned.\<close>

fun buffered_loop :: "nat \<Rightarrow> nat list \<Rightarrow> offload_call list \<times> nat list \<Rightarrow> offload_call list \<times> nat list" where
  "buffered_loop num_shards [] r = r"
| "buffered_loop num_shards (i # is) (calls, order) =
     buffered_loop num_shards is (calls @ (if i + 1 < num_shards then [Transfer (i + 1)] else []) @ [Compute i], order @ [i])"

definition run_double_buffered :: "nat \<Rightarrow> offload_call list \<times> nat list" where
  "run_double_buffered num_shards = (if num_shards = 0 then ([], []) else buffered_loop num_shards [0..<num_shards] ([Transfer 0], []))"

lemma buffered_loop_order: "snd (buffered_loop n is (calls, order)) = order @ is"
  by (induction n "is" "(calls, order)" arbitrary: calls order rule: buffered_loop.induct) auto

text \<open>Shards are computed once each, in order, and every shard is transferred before it is computed.\<close>

lemma double_buffered_order: "snd (run_double_buffered n) = [0..<n]"
  by (simp add: run_double_buffered_def buffered_loop_order)

definition ready :: "offload_call list \<Rightarrow> bool" where
  "ready calls \<longleftrightarrow> (\<forall>k < length calls. \<forall>i. calls ! k = Compute i \<longrightarrow> Transfer i \<in> set (take k calls))"

lemma ready_append:
  assumes "ready calls" "\<forall>i. Compute i \<notin> set pre" "Transfer j \<in> set (calls @ pre)"
  shows "ready (calls @ pre @ [Compute j])"
  unfolding ready_def
proof (intro allI impI)
  fix k i
  assume k: "k < length (calls @ pre @ [Compute j])" and c: "(calls @ pre @ [Compute j]) ! k = Compute i"
  consider "k < length calls" | "length calls \<le> k" "k < length (calls @ pre)" | "k = length (calls @ pre)" using k by fastforce
  then show "Transfer i \<in> set (take k (calls @ pre @ [Compute j]))"
  proof cases
    case 1
    then show ?thesis using assms(1) c by (simp add: ready_def nth_append)
  next
    case 2
    then have l: "k - length calls < length pre" by simp
    then have "pre ! (k - length calls) = Compute i" using c 2(1) by (simp add: nth_append)
    then show ?thesis using assms(2) nth_mem [OF l] by simp
  next
    case 3
    then show ?thesis using assms(3) c by (simp add: nth_append)
  qed
qed

lemma buffered_loop_ready:
  "ready calls \<Longrightarrow> Transfer m \<in> set calls \<Longrightarrow> m \<le> n \<Longrightarrow> ready (fst (buffered_loop n [m..<n] (calls, order)))"
proof (induction "n - m" arbitrary: m calls order)
  case (Suc d)
  then have m: "[m..<n] = m # [Suc m..<n]" by (simp add: upt_conv_Cons)
  let ?pre = "if m + 1 < n then [Transfer (m + 1)] else []"
  have r: "ready (calls @ ?pre @ [Compute m])" using Suc.prems(1,2) by (intro ready_append) auto
  show ?case
  proof (cases "m + 1 < n")
    case True
    then show ?thesis using Suc.hyps(1) [of "Suc m" "calls @ ?pre @ [Compute m]"] Suc.hyps(2) r by (simp add: m)
  next
    case False
    then have "[Suc m..<n] = []" "\<not> Suc m < n" by simp_all
    then show ?thesis using r by (simp only: m buffered_loop.simps) simp
  qed
qed simp

lemma double_buffered_ready: "ready (fst (run_double_buffered n))"
  using buffered_loop_ready [of "[Transfer 0]" 0 n] by (simp add: run_double_buffered_def) (simp add: ready_def)

lemma offload_overlap_wins:
  assumes "0 \<le> c" "0 \<le> t" "t \<le> real n * min c t"
  shows "of_overlapped_total_ms (simulate_offload_schedule n c t) \<le> of_naive_total_ms (simulate_offload_schedule n c t)"
proof -
  have "real n * (c + t) = real n * max c t + real n * min c t" by (simp add: distrib_left [symmetric] max_def min_def)
  then show ?thesis using assms(3) by (simp add: simulate_offload_schedule_def Let_def)
qed

section \<open>Checkpoint files\<close>

definition le_bytes :: "nat \<Rightarrow> nat \<Rightarrow> nat list" where
  "le_bytes k v = map (\<lambda>i. v div 256 ^ i mod 256) [0..<k]"

fun from_le :: "nat list \<Rightarrow> nat" where
  "from_le [] = 0"
| "from_le (b # bs) = b + 256 * from_le bs"

definition write_shard_sync :: "nat list \<Rightarrow> nat list" where
  "write_shard_sync shard = le_bytes 8 (length shard) @ concat (map (le_bytes 4) shard)"

fun read_floats :: "nat \<Rightarrow> nat list \<Rightarrow> nat list" where
  "read_floats 0 bs = []"
| "read_floats (Suc n) bs = from_le (take 4 bs) # read_floats n (drop 4 bs)"

text \<open>The file is \<open>None\<close> when it cannot be opened.\<close>

definition read_shard :: "string \<Rightarrow> nat list option \<Rightarrow> string + nat list" where
  "read_shard path file = (case file of
      None \<Rightarrow> Inl (''read_shard: failed to open '' @ path)
    | Some bs \<Rightarrow> if length bs < 8 then Inl ''read_shard: truncated header''
        else (let count = from_le (take 8 bs) in
          if count > 0 \<and> length bs - 8 < 4 * count then Inl ''read_shard: truncated data'' else Inr (read_floats count (drop 8 bs))))"

lemma le_bytes_Suc: "le_bytes (Suc k) v = v mod 256 # le_bytes k (v div 256)"
  by (simp add: le_bytes_def upt_conv_Cons map_Suc_upt [symmetric] div_mult2_eq del: upt_Suc)

lemma from_le_bytes: "from_le (le_bytes k v) = v mod 256 ^ k"
proof (induction k arbitrary: v)
  case (Suc k)
  have "v mod 256 + 256 * (v div 256 mod 256 ^ k) = v mod (256 * 256 ^ k)" by (simp add: mod_mult2_eq)
  then show ?case using Suc by (simp add: le_bytes_Suc)
qed (simp add: le_bytes_def)

lemma length_le_bytes [simp]: "length (le_bytes k v) = k"
  by (simp add: le_bytes_def)

lemma length_concat_le [simp]: "length (concat (map (le_bytes 4) shard)) = 4 * length shard"
  by (induction shard) auto

lemma read_floats_concat: "\<forall>v \<in> set shard. v < 2 ^ 32 \<Longrightarrow> read_floats (length shard) (concat (map (le_bytes 4) shard)) = shard"
  by (induction shard) (auto simp: from_le_bytes)

text \<open>A shard reads back as written; a file cut anywhere is reported, not misread.\<close>

lemma shard_file_roundtrip:
  assumes "\<forall>v \<in> set shard. v < 2 ^ 32" "length shard < 2 ^ 64"
  shows "read_shard path (Some (write_shard_sync shard)) = Inr shard"
proof -
  have "from_le (take 8 (write_shard_sync shard)) = length shard" using assms(2) by (simp add: write_shard_sync_def from_le_bytes)
  then show ?thesis using read_floats_concat [OF assms(1)] by (simp add: read_shard_def write_shard_sync_def)
qed

lemma shard_file_truncated:
  assumes "k < length (write_shard_sync shard)" "length shard < 2 ^ 64"
  shows "\<exists>e. read_shard path (Some (take k (write_shard_sync shard))) = Inl e"
proof (cases "k < 8")
  case False
  have "take 8 (take k (write_shard_sync shard)) = le_bytes 8 (length shard)" using False by (simp add: write_shard_sync_def take_take min_def)
  then have "from_le (take 8 (take k (write_shard_sync shard))) = length shard" using assms(2) by (simp add: from_le_bytes)
  then show ?thesis using assms(1) False by (auto simp: read_shard_def write_shard_sync_def Let_def)
qed (auto simp: read_shard_def)

end
