(* ===== verification/Gpu_Profiling.thy ===== *)
theory Gpu_Profiling
  imports Prelude Complex_Main "HOL-Library.Mapping" "HOL-Library.AList_Mapping" "HOL-Library.Char_ord" "HOL-Library.List_Lexorder"
begin

text \<open>
  Host-side analysis of \<open>gpu_engine\<close>: the parser and report of the coalescing validator and the occupancy sweep. The output
  of the profiler, the conversion \<open>std::stod\<close> (\<open>None\<close> for its exception) and the answers of the CUDA occupancy calls are
  arguments. A C string is the list of its characters before the terminating zero.
\<close>

section \<open>CSV\<close>

abbreviation quote :: char where
  "quote \<equiv> CHR 0x22"

definition is_eol :: "char \<Rightarrow> bool" where
  "is_eol c \<longleftrightarrow> c = CHR 0x0D \<or> c = CHR 0x0A"

definition rtrim :: "string \<Rightarrow> string" where
  "rtrim s = rev (dropWhile is_eol (rev s))"

text \<open>The two loops of \<open>csv_field\<close>: the field read and the rest of the line.\<close>

fun quoted_field :: "string \<Rightarrow> string \<Rightarrow> string \<times> string" where
  "quoted_field out [] = (out, [])"
| "quoted_field out [c] = (if c = quote then (out, []) else (out @ [c], []))"
| "quoted_field out (c # d # p) =
     (if c = quote \<and> d = quote then quoted_field (out @ [quote]) p
      else if c = quote then (out, d # p)
      else quoted_field (out @ [c]) (d # p))"

fun bare_field :: "string \<Rightarrow> string \<Rightarrow> string \<times> string" where
  "bare_field out [] = (out, [])"
| "bare_field out (c # p) = (if c = CHR '','' \<or> is_eol c then (out, c # p) else bare_field (out @ [c]) p)"

definition csv_field :: "string \<Rightarrow> string \<times> string" where
  "csv_field p = (case (case p of c # p' \<Rightarrow> if c = quote then quoted_field [] p' else bare_field [] p | [] \<Rightarrow> bare_field [] p) of
     (out, rest) \<Rightarrow> (case rest of c # rest' \<Rightarrow> if c = CHR '','' then (out, rest') else (out, rest) | [] \<Rightarrow> (out, [])))"

lemma quoted_field_length: "length (snd (quoted_field out p)) \<le> length p"
  by (induction out p rule: quoted_field.induct) auto

lemma bare_field_length: "length (snd (bare_field out p)) \<le> length p"
  by (induction out p rule: bare_field.induct) auto

lemma bare_field_first: "\<not> is_eol c \<Longrightarrow> c \<noteq> CHR '','' \<Longrightarrow> length (snd (bare_field out (c # p))) \<le> length p"
  using bare_field_length [of "out @ [c]" p] by simp

lemma csv_field_shorter: "\<not> is_eol c \<Longrightarrow> length (snd (csv_field (c # p))) < length (c # p)"
  using quoted_field_length [of "[]" p] bare_field_first [of c "[]" p] bare_field_length [of "[]" "c # p"]
  by (auto simp: csv_field_def split: prod.splits list.splits if_splits)

function csv_split :: "string \<Rightarrow> string list" where
  "csv_split [] = []"
| "csv_split (c # p) = (if is_eol c then [] else (case csv_field (c # p) of (f, rest) \<Rightarrow> f # csv_split rest))"
  by pat_completeness auto
termination
  by (relation "measure length") (auto dest: csv_field_shorter split: prod.splits, metis csv_field_shorter length_Cons snd_conv)

section \<open>Coalescing report\<close>

record kernel_accum =
  ka_ld_sectors :: real
  ka_ld_requests :: real
  ka_st_sectors :: real
  ka_st_requests :: real

definition accum_zero :: kernel_accum where
  "accum_zero = \<lparr>ka_ld_sectors = 0, ka_ld_requests = 0, ka_st_sectors = 0, ka_st_requests = 0\<rparr>"

record ncu_parse =
  np_accum :: "(string, kernel_accum) mapping"
  np_kernel :: "nat option"
  np_metric :: "nat option"
  np_value :: "nat option"
  np_header_done :: bool

definition ncu_start :: ncu_parse where
  "ncu_start = \<lparr>np_accum = Mapping.empty, np_kernel = None, np_metric = None, np_value = None, np_header_done = False\<rparr>"

definition header_field :: "nat \<times> string \<Rightarrow> ncu_parse \<Rightarrow> ncu_parse" where
  "header_field x s = (case x of (i, f) \<Rightarrow>
     if f = ''Kernel Name'' then s\<lparr>np_kernel := Some i\<rparr>
     else if f = ''Metric Name'' then s\<lparr>np_metric := Some i\<rparr>
     else if f = ''Metric Value'' then s\<lparr>np_value := Some i\<rparr> else s)"

definition ncu_header :: "string list \<Rightarrow> ncu_parse \<Rightarrow> ncu_parse" where
  "ncu_header fs s = (let s = fold header_field (enumerate 0 fs) s in
     if np_kernel s \<noteq> None \<and> np_metric s \<noteq> None \<and> np_value s \<noteq> None then s\<lparr>np_header_done := True\<rparr> else s)"

definition add_metric :: "string \<Rightarrow> real \<Rightarrow> kernel_accum \<Rightarrow> kernel_accum" where
  "add_metric mname val k =
     (if mname = ''l1tex__t_sectors_pipe_lsu_mem_global_op_ld.sum'' then k\<lparr>ka_ld_sectors := ka_ld_sectors k + val\<rparr>
      else if mname = ''l1tex__t_requests_pipe_lsu_mem_global_op_ld.sum'' then k\<lparr>ka_ld_requests := ka_ld_requests k + val\<rparr>
      else if mname = ''l1tex__t_sectors_pipe_lsu_mem_global_op_st.sum'' then k\<lparr>ka_st_sectors := ka_st_sectors k + val\<rparr>
      else if mname = ''l1tex__t_requests_pipe_lsu_mem_global_op_st.sum'' then k\<lparr>ka_st_requests := ka_st_requests k + val\<rparr>
      else k)"

definition ncu_row :: "(string \<Rightarrow> real option) \<Rightarrow> string list \<Rightarrow> ncu_parse \<Rightarrow> ncu_parse" where
  "ncu_row stod fs s = (case (np_kernel s, np_metric s, np_value s) of
      (Some ck, Some cm, Some cv) \<Rightarrow>
        if length fs \<le> max ck (max cm cv) then s
        else if fs ! ck = [] \<or> fs ! cv = [] then s
        else (case stod (fs ! cv) of
            None \<Rightarrow> s
          | Some val \<Rightarrow> (let k = (case Mapping.lookup (np_accum s) (fs ! ck) of None \<Rightarrow> accum_zero | Some k \<Rightarrow> k) in
              s\<lparr>np_accum := Mapping.update (fs ! ck) (add_metric (fs ! cm) val k) (np_accum s)\<rparr>))
    | _ \<Rightarrow> s)"

definition ncu_line :: "(string \<Rightarrow> real option) \<Rightarrow> string \<Rightarrow> ncu_parse \<Rightarrow> ncu_parse" where
  "ncu_line stod line s = (let line = rtrim line in
     if line = [] then s
     else (let fs = csv_split line in
       if fs = [] then s else if \<not> np_header_done s then ncu_header fs s else ncu_row stod fs s))"

datatype ncu_error = Popen_failed | Kernel_not_found string

text \<open>\<open>None\<close> is a failed \<open>popen\<close>; the lines are those \<open>fgets\<close> returns.\<close>

definition run_ncu_coalescing :: "(string \<Rightarrow> real option) \<Rightarrow> string list option \<Rightarrow> ncu_error + (string, kernel_accum) mapping" where
  "run_ncu_coalescing stod pipe = (case pipe of
      None \<Rightarrow> Inl Popen_failed
    | Some lines \<Rightarrow> Inr (np_accum (fold (ncu_line stod) lines ncu_start)))"

record coalescing_report =
  cr_kernel_name :: string
  cr_load :: real
  cr_store :: real
  cr_pass :: bool

definition make_report :: "string \<Rightarrow> kernel_accum \<Rightarrow> real \<Rightarrow> real \<Rightarrow> coalescing_report" where
  "make_report name k ideal_ratio threshold =
     (let ld = (if ka_ld_requests k > 0 then ka_ld_sectors k / ka_ld_requests k else 0);
          st = (if ka_st_requests k > 0 then ka_st_sectors k / ka_st_requests k else 0);
          max_ratio = ideal_ratio / threshold;
          ld_ok = (ka_ld_requests k = 0 \<or> ld \<le> max_ratio);
          st_ok = (ka_st_requests k = 0 \<or> st \<le> max_ratio) in
      \<lparr>cr_kernel_name = name, cr_load = ld, cr_store = st, cr_pass = (ld_ok \<and> st_ok)\<rparr>)"

definition validate_kernel :: "(string \<Rightarrow> real option) \<Rightarrow> string list option \<Rightarrow> string \<Rightarrow> real \<Rightarrow> real \<Rightarrow> ncu_error + coalescing_report" where
  "validate_kernel stod pipe kernel_name threshold ideal_ratio = (case run_ncu_coalescing stod pipe of
      Inl e \<Rightarrow> Inl e
    | Inr accum \<Rightarrow> (case Mapping.lookup accum kernel_name of
        None \<Rightarrow> Inl (Kernel_not_found kernel_name)
      | Some k \<Rightarrow> Inr (make_report kernel_name k ideal_ratio threshold)))"

definition report_step :: "(string, kernel_accum) mapping \<Rightarrow> real \<Rightarrow> real \<Rightarrow> string \<Rightarrow> bool \<times> coalescing_report list \<Rightarrow> bool \<times> coalescing_report list" where
  "report_step accum threshold ideal_ratio name s =
     (let r = make_report name (the (Mapping.lookup accum name)) ideal_ratio threshold in
      (if \<not> cr_pass r then False else fst s, snd s @ [r]))"

definition validate_all_kernels :: "(string \<Rightarrow> real option) \<Rightarrow> string list option \<Rightarrow> real \<Rightarrow> coalescing_report list \<Rightarrow> real \<Rightarrow> ncu_error + bool \<times> coalescing_report list" where
  "validate_all_kernels stod pipe threshold reports ideal_ratio = (case run_ncu_coalescing stod pipe of
      Inl e \<Rightarrow> Inl e
    | Inr accum \<Rightarrow> Inr (fold (report_step accum threshold ideal_ratio) (Mapping.ordered_keys accum) (True, reports)))"

text \<open>What the writer of a CSV line does: every field quoted, quotes doubled.\<close>

fun escape :: "string \<Rightarrow> string" where
  "escape [] = []"
| "escape (c # s) = (if c = quote then [quote, quote] else [c]) @ escape s"

fun csv_line :: "string list \<Rightarrow> string" where
  "csv_line [] = []"
| "csv_line [f] = quote # escape f @ [quote]"
| "csv_line (f # fs) = quote # escape f @ [quote, CHR '',''] @ csv_line fs"

lemma quoted_field_escape: "(rest = [] \<or> hd rest \<noteq> quote) \<Longrightarrow> quoted_field out (escape f @ quote # rest) = (out @ f, rest)"
proof (induction f arbitrary: out)
  case Nil
  then show ?case by (cases rest) auto
next
  case (Cons c f)
  show ?case
  proof (cases "c = quote")
    case False
    obtain d p where "escape f @ quote # rest = d # p" by (cases "escape f") auto
    then show ?thesis using Cons False by simp
  qed (use Cons in simp)
qed

text \<open>Splitting a quoted line gives its fs back, whatever characters they contain.\<close>

lemma csv_split_line: "csv_split (csv_line fs) = fs"
proof (induction fs rule: csv_line.induct)
  case (2 f)
  have "csv_field (quote # escape f @ [quote]) = (f, [])" using quoted_field_escape [of "[]" "[]" f] by (simp add: csv_field_def)
  then show ?case by (simp add: is_eol_def)
next
  case (3 f g fs)
  have "csv_field (quote # escape f @ [quote, CHR '',''] @ csv_line (g # fs)) = (f, csv_line (g # fs))"
    using quoted_field_escape [of "CHR '','' # csv_line (g # fs)" "[]" f] by (simp add: csv_field_def)
  then show ?case using 3 by (simp add: is_eol_def)
qed simp

lemma make_report_pass:
  assumes "0 \<le> ka_ld_requests k" "0 \<le> ka_st_requests k" "0 < threshold"
  shows "cr_pass (make_report name k ideal_ratio threshold) \<longleftrightarrow>
    (ka_ld_requests k > 0 \<longrightarrow> threshold * ka_ld_sectors k \<le> ideal_ratio * ka_ld_requests k) \<and>
    (ka_st_requests k > 0 \<longrightarrow> threshold * ka_st_sectors k \<le> ideal_ratio * ka_st_requests k)"
  using assms by (auto simp: make_report_def Let_def field_simps)

lemma report_steps:
  "snd (fold (report_step accum t i) names s) = snd s @ map (\<lambda>n. make_report n (the (Mapping.lookup accum n)) i t) names"
  "fst (fold (report_step accum t i) names s) \<longleftrightarrow> fst s \<and> list_all (\<lambda>n. cr_pass (make_report n (the (Mapping.lookup accum n)) i t)) names"
  by (induction names arbitrary: s) (auto simp: report_step_def Let_def)

text \<open>One report per kernel is appended, in the order of the names; the result is true when all of them pass.\<close>

lemma validate_all_pass:
  assumes "validate_all_kernels stod (Some lines) t rs i = Inr (ok, out)"
  obtains news where "out = rs @ news" "ok \<longleftrightarrow> list_all cr_pass news"
    "map cr_kernel_name news = Mapping.ordered_keys (np_accum (fold (ncu_line stod) lines ncu_start))"
proof
  let ?m = "np_accum (fold (ncu_line stod) lines ncu_start)"
  let ?news = "map (\<lambda>n. make_report n (the (Mapping.lookup ?m n)) i t) (Mapping.ordered_keys ?m)"
  have f: "fold (report_step ?m t i) (Mapping.ordered_keys ?m) (True, rs) = (ok, out)"
    using assms by (simp add: validate_all_kernels_def run_ncu_coalescing_def)
  show "out = rs @ ?news" "ok \<longleftrightarrow> list_all cr_pass ?news"
    using report_steps [of ?m t i "Mapping.ordered_keys ?m" "(True, rs)"] by (simp_all add: f list.pred_map comp_def)
  show "map cr_kernel_name ?news = Mapping.ordered_keys ?m" by (simp add: comp_def make_report_def Let_def)
qed

section \<open>Occupancy\<close>

record occupancy_result =
  oc_block_size :: int
  oc_shared_mem :: nat
  oc_registers :: int
  oc_active_blocks :: int
  oc_occupancy :: real

text \<open>The answers of the driver: registers per thread, active blocks for a block size and shared memory, threads per processor.\<close>

record driver =
  dr_regs :: "int option"
  dr_active :: "int \<Rightarrow> nat \<Rightarrow> int option"
  dr_max_threads :: "int option"

definition max_warps_per_sm :: "driver \<Rightarrow> int option" where
  "max_warps_per_sm d = map_option (\<lambda>t. t div 32) (dr_max_threads d)"

definition measure_occupancy :: "driver \<Rightarrow> int \<Rightarrow> nat \<Rightarrow> occupancy_result option" where
  "measure_occupancy d block_size shared_mem = (case (dr_regs d, dr_active d block_size shared_mem, max_warps_per_sm d) of
      (Some regs, Some active_blocks, Some mwps) \<Rightarrow>
        Some \<lparr>oc_block_size = block_size, oc_shared_mem = shared_mem, oc_registers = regs, oc_active_blocks = active_blocks,
          oc_occupancy = (if mwps > 0 then real_of_int (active_blocks * (block_size div 32)) / real_of_int mwps else 0)\<rparr>
    | _ \<Rightarrow> None)"

text \<open>The best result starts with occupancy \<open>-1\<close>, written \<open>None\<close> here: any measured result replaces it.\<close>

definition sweep_step :: "driver \<Rightarrow> int \<times> nat \<Rightarrow> occupancy_result list \<times> occupancy_result option \<Rightarrow> occupancy_result list \<times> occupancy_result option" where
  "sweep_step d x s = (case measure_occupancy d (fst x) (snd x) of
      None \<Rightarrow> s
    | Some r \<Rightarrow> (fst s @ [r], if oc_occupancy r > (case snd s of None \<Rightarrow> - 1 | Some b \<Rightarrow> oc_occupancy b) then Some r else snd s))"

definition sweep_occupancy :: "driver \<Rightarrow> int list \<Rightarrow> nat list \<Rightarrow> occupancy_result list \<times> occupancy_result option" where
  "sweep_occupancy d block_sizes shared_mems =
     fold (sweep_step d) (concat (map (\<lambda>bs. map (Pair bs) shared_mems) (filter (\<lambda>bs. \<not> (bs \<le> 0 \<or> bs mod 32 \<noteq> 0 \<or> bs > 1024)) block_sizes))) ([], None)"

text \<open>The best entry has the highest occupancy of the sweep, as the report promises.\<close>

lemma sweep_best:
  assumes "\<forall>x \<in> set xs. \<forall>r. measure_occupancy d (fst x) (snd x) = Some r \<longrightarrow> oc_occupancy r > - 1"
    and "(snd s = None \<longleftrightarrow> fst s = []) \<and> (\<forall>b. snd s = Some b \<longrightarrow> b \<in> set (fst s) \<and> (\<forall>r \<in> set (fst s). oc_occupancy r \<le> oc_occupancy b))"
  shows "(snd (fold (sweep_step d) xs s) = None \<longleftrightarrow> fst (fold (sweep_step d) xs s) = []) \<and>
    (\<forall>b. snd (fold (sweep_step d) xs s) = Some b \<longrightarrow> b \<in> set (fst (fold (sweep_step d) xs s)) \<and> (\<forall>r \<in> set (fst (fold (sweep_step d) xs s)). oc_occupancy r \<le> oc_occupancy b))"
  using assms
proof (induction xs arbitrary: s)
  case (Cons x xs)
  have "(snd (sweep_step d x s) = None \<longleftrightarrow> fst (sweep_step d x s) = []) \<and>
      (\<forall>b. snd (sweep_step d x s) = Some b \<longrightarrow> b \<in> set (fst (sweep_step d x s)) \<and> (\<forall>r \<in> set (fst (sweep_step d x s)). oc_occupancy r \<le> oc_occupancy b))"
  proof (cases "measure_occupancy d (fst x) (snd x)")
    case None
    then show ?thesis using Cons.prems(2) by (simp add: sweep_step_def)
  next
    case (Some r)
    then have "oc_occupancy r > - 1" using Cons.prems(1) by simp
    then show ?thesis using Cons.prems(2) Some by (cases "snd s") (auto simp: sweep_step_def)
  qed
  then show ?case using Cons by simp
qed simp

end
