(* ===== verification/Zero_Optimizers.thy ===== *)
theory Zero_Optimizers
  imports Collectives Complex_Main
begin

text \<open>
  The sharded optimizers \<open>distributed_training/zero1\<close>, \<open>zero2\<close> and \<open>zero3\<close>: Adam on a flat vector, and its three distributed
  forms over the collectives. Numbers are exact reals, hyperparameters are arbitrary, vectors have the padded length the
  classes ask for. What a rank changes during a call is the record \<open>zframe\<close>; the members that never change are the
  record \<open>zero_config\<close>. A call is the list of operations of a rank, so the results hold for every schedule of the ranks and
  every capacity of the transport.
\<close>

section \<open>Adam\<close>

record adam_state =
  ad_m :: "real list"
  ad_v :: "real list"
  ad_t :: nat

definition adam_new :: "nat \<Rightarrow> adam_state" where
  "adam_new n = \<lparr>ad_m = replicate n 0, ad_v = replicate n 0, ad_t = 0\<rparr>"

record adam_rates =
  ar_lr :: real
  ar_beta1 :: real
  ar_beta2 :: real
  ar_eps :: real

definition adam_at :: "adam_rates \<Rightarrow> real \<Rightarrow> real \<Rightarrow> real list \<Rightarrow> nat \<Rightarrow> real list \<times> real list \<times> real list \<Rightarrow> real list \<times> real list \<times> real list" where
  "adam_at h bias_correction1 bias_correction2 grad i s = (case s of (param, m, v) \<Rightarrow>
     let m = m[i := ar_beta1 h * m ! i + (1 - ar_beta1 h) * grad ! i];
         v = v[i := ar_beta2 h * v ! i + (1 - ar_beta2 h) * grad ! i * grad ! i];
         mhat = m ! i / bias_correction1;
         vhat = v ! i / bias_correction2 in
     (param[i := param ! i - ar_lr h * mhat / (sqrt vhat + ar_eps h)], m, v))"

definition adam_step :: "adam_rates \<Rightarrow> real list \<Rightarrow> real list \<Rightarrow> adam_state \<Rightarrow> real list \<times> adam_state" where
  "adam_step h param grad s =
     (let t = ad_t s + 1;
          bias_correction1 = 1 - ar_beta1 h ^ t;
          bias_correction2 = 1 - ar_beta2 h ^ t in
      case fold (adam_at h bias_correction1 bias_correction2 grad) [0..<length param] (param, ad_m s, ad_v s) of
        (param, m, v) \<Rightarrow> (param, \<lparr>ad_m = m, ad_v = v, ad_t = t\<rparr>))"

text \<open>The same as functions of one element.\<close>

definition new_m :: "adam_rates \<Rightarrow> real \<Rightarrow> real \<Rightarrow> real" where
  "new_m h g m = ar_beta1 h * m + (1 - ar_beta1 h) * g"

definition new_v :: "adam_rates \<Rightarrow> real \<Rightarrow> real \<Rightarrow> real" where
  "new_v h g v = ar_beta2 h * v + (1 - ar_beta2 h) * g * g"

definition new_p :: "adam_rates \<Rightarrow> nat \<Rightarrow> real \<Rightarrow> real \<Rightarrow> real \<Rightarrow> real \<Rightarrow> real" where
  "new_p h t p g m v = p - ar_lr h * (new_m h g m / (1 - ar_beta1 h ^ t)) / (sqrt (new_v h g v / (1 - ar_beta2 h ^ t)) + ar_eps h)"

lemma adam_fold:
  assumes "k \<le> length p" "length m = length p" "length v = length p"
  shows "fold (adam_at h (1 - ar_beta1 h ^ t) (1 - ar_beta2 h ^ t) g) [0..<k] (p, m, v) =
    (map (\<lambda>j. if j < k then new_p h t (p ! j) (g ! j) (m ! j) (v ! j) else p ! j) [0..<length p],
     map (\<lambda>j. if j < k then new_m h (g ! j) (m ! j) else m ! j) [0..<length p],
     map (\<lambda>j. if j < k then new_v h (g ! j) (v ! j) else v ! j) [0..<length p])"
  using assms
proof (induction k)
  case 0
  then show ?case by (auto intro: nth_equalityI)
next
  case (Suc k)
  then show ?case
    by (auto simp: adam_at_def Let_def new_p_def new_m_def new_v_def nth_list_update intro!: nth_equalityI)
qed

lemma adam_step_map:
  assumes "length (ad_m s) = length p" "length (ad_v s) = length p"
  shows "adam_step h p g s =
    (map (\<lambda>j. new_p h (ad_t s + 1) (p ! j) (g ! j) (ad_m s ! j) (ad_v s ! j)) [0..<length p],
     \<lparr>ad_m = map (\<lambda>j. new_m h (g ! j) (ad_m s ! j)) [0..<length p], ad_v = map (\<lambda>j. new_v h (g ! j) (ad_v s ! j)) [0..<length p], ad_t = ad_t s + 1\<rparr>)"
  using adam_fold [of "length p" p "ad_m s" "ad_v s" h "ad_t s + 1" g] assms by (simp add: adam_step_def Let_def)

text \<open>A shard of the vectors, and the state of its owner.\<close>

definition adam_slice :: "nat \<Rightarrow> nat \<Rightarrow> adam_state \<Rightarrow> adam_state" where
  "adam_slice st sz s = \<lparr>ad_m = chunk st sz (ad_m s), ad_v = chunk st sz (ad_v s), ad_t = ad_t s\<rparr>"

definition adam_fits :: "nat \<Rightarrow> adam_state \<Rightarrow> bool" where
  "adam_fits n s \<longleftrightarrow> length (ad_m s) = n \<and> length (ad_v s) = n"

lemma chunk_map: "st + sz \<le> n \<Longrightarrow> chunk st sz (map f [0..<n]) = map (\<lambda>i. f (st + i)) [0..<sz]"
  by (rule nth_equalityI) (auto simp: nth_chunk)

lemma adam_shard:
  assumes "st + sz \<le> length p" "adam_fits (length p) s" "length g = length p"
  shows "adam_step h (chunk st sz p) (chunk st sz g) (adam_slice st sz s) =
    (chunk st sz (fst (adam_step h p g s)), adam_slice st sz (snd (adam_step h p g s)))"
  using assms by (simp add: adam_fits_def adam_slice_def adam_step_map chunk_map nth_chunk)

lemma adam_step_lengths:
  assumes "adam_fits (length p) s"
  shows "length (fst (adam_step h p g s)) = length p" "adam_fits (length p) (snd (adam_step h p g s))"
  using assms by (simp_all add: adam_fits_def adam_step_map)

section \<open>The three stages\<close>

record zero_config =
  zc_rank :: nat
  zc_world :: nat
  zc_rates :: adam_rates
  zc_shard_size :: nat

record sharded_config = zero_config +
  zc_owned :: nat

record zframe =
  zf_params :: "real list"
  zf_grad :: "real list"
  zf_shard :: "real list"
  zf_state :: adam_state
  zf_recv :: "real list"
  zf_tmp :: "real list"

type_synonym zops = "(zframe, real list) rank_op list"

definition default_rates :: "real \<Rightarrow> real \<Rightarrow> real \<Rightarrow> adam_rates" where
  "default_rates lr beta1 beta2 = \<lparr>ar_lr = lr, ar_beta1 = beta1, ar_beta2 = beta2, ar_eps = 1 / 100000000\<rparr>"

definition zero1_new :: "nat \<Rightarrow> nat \<Rightarrow> nat \<Rightarrow> real \<Rightarrow> real \<Rightarrow> real \<Rightarrow> zero_config \<times> adam_state" where
  "zero1_new total_params rank world lr beta1 beta2 =
     (let shard_size = (total_params + world - 1) div world in
      (\<lparr>zc_rank = rank, zc_world = world, zc_rates = default_rates lr beta1 beta2, zc_shard_size = shard_size\<rparr>, adam_new shard_size))"

definition zero2_new :: "nat \<Rightarrow> nat \<Rightarrow> nat \<Rightarrow> real \<Rightarrow> real \<Rightarrow> real \<Rightarrow> sharded_config \<times> adam_state" where
  "zero2_new total_params rank world lr beta1 beta2 =
     (let shard_size = (total_params + world - 1) div world in
      (\<lparr>zc_rank = rank, zc_world = world, zc_rates = default_rates lr beta1 beta2, zc_shard_size = shard_size, zc_owned = (rank + 1) mod world\<rparr>,
       adam_new shard_size))"

definition zero3_new :: "nat \<Rightarrow> nat \<Rightarrow> nat \<Rightarrow> real \<Rightarrow> real \<Rightarrow> real \<Rightarrow> sharded_config \<times> adam_state \<times> real list" where
  "zero3_new total_params rank world lr beta1 beta2 =
     (let shard_size = (total_params + world - 1) div world in
      (\<lparr>zc_rank = rank, zc_world = world, zc_rates = default_rates lr beta1 beta2, zc_shard_size = shard_size, zc_owned = (rank + 1) mod world\<rparr>,
       adam_new shard_size, replicate shard_size 0))"

definition padded_total_params :: "'x zero_config_scheme \<Rightarrow> nat" where
  "padded_total_params c = zc_shard_size c * zc_world c"

text \<open>Where the collectives find their buffers.\<close>

definition get_reduce :: "zframe \<Rightarrow> real ring_state" where
  "get_reduce f = (zf_grad f, zf_tmp f)"

definition put_reduce :: "real ring_state \<Rightarrow> zframe \<Rightarrow> zframe" where
  "put_reduce s f = f\<lparr>zf_grad := fst s, zf_tmp := snd s\<rparr>"

definition get_gather :: "zframe \<Rightarrow> real gather_state" where
  "get_gather f = (zf_shard f, zf_recv f, zf_tmp f)"

definition put_gather :: "real gather_state \<Rightarrow> zframe \<Rightarrow> zframe" where
  "put_gather s f = f\<lparr>zf_shard := fst s, zf_recv := fst (snd s), zf_tmp := snd (snd s)\<rparr>"

definition get_gather_params :: "zframe \<Rightarrow> real gather_state" where
  "get_gather_params f = (zf_shard f, zf_params f, zf_tmp f)"

definition put_gather_params :: "real gather_state \<Rightarrow> zframe \<Rightarrow> zframe" where
  "put_gather_params s f = f\<lparr>zf_shard := fst s, zf_params := fst (snd s), zf_tmp := snd (snd s)\<rparr>"

lemma parts: "is_part get_reduce put_reduce" "is_part get_gather put_gather" "is_part get_gather_params put_gather_params"
  by (simp_all add: is_part_def get_reduce_def put_reduce_def get_gather_def put_gather_def get_gather_params_def put_gather_params_def)

definition zero1_update :: "zero_config \<Rightarrow> zframe \<Rightarrow> zframe" where
  "zero1_update c f =
     (let shard_start = zc_rank c * zc_shard_size c;
          local_param_shard = chunk shard_start (zc_shard_size c) (zf_params f);
          local_grad_shard = chunk shard_start (zc_shard_size c) (zf_grad f);
          (shard', state') = adam_step (zc_rates c) local_param_shard local_grad_shard (zf_state f) in
      f\<lparr>zf_shard := shard', zf_state := state', zf_recv := replicate (zc_shard_size c * zc_world c) 0, zf_tmp := []\<rparr>)"

definition unrotate :: "zero_config \<Rightarrow> real list \<Rightarrow> real list \<Rightarrow> real list" where
  "unrotate c recv params =
     fold (\<lambda>owner params. let slot = (owner + 1) mod zc_world c in
       put_chunk (owner * zc_shard_size c) (chunk (slot * zc_shard_size c) (zc_shard_size c) recv) params) [0..<zc_world c] params"

definition zero1_step :: "zero_config \<Rightarrow> zops" where
  "zero1_step c =
     Local (zero1_update c) #
     ops_on get_gather put_gather (AllGather (zc_shard_size c) (zc_world c) (zc_rank c)) @
     [Local (\<lambda>f. f\<lparr>zf_params := unrotate c (zf_recv f) (zf_params f)\<rparr>)]"

definition zero2_update :: "sharded_config \<Rightarrow> zframe \<Rightarrow> zframe" where
  "zero2_update c f =
     (let start = zc_owned c * zc_shard_size c;
          owned_grad = chunk start (zc_shard_size c) (zf_grad f);
          local_param_shard = chunk start (zc_shard_size c) (zf_params f);
          (shard', state') = adam_step (zc_rates c) local_param_shard owned_grad (zf_state f) in
      f\<lparr>zf_shard := shard', zf_state := state', zf_params := replicate (padded_total_params c) 0, zf_tmp := []\<rparr>)"

definition zero2_step :: "sharded_config \<Rightarrow> nat \<Rightarrow> zops" where
  "zero2_step c grad_size =
     Local (\<lambda>f. f\<lparr>zf_tmp := []\<rparr>) #
     ops_on get_reduce put_reduce (ReduceScatter grad_size (zc_world c) (zc_rank c)) @
     Local (zero2_update c) #
     ops_on get_gather_params put_gather_params (AllGather (zc_shard_size c) (zc_world c) (zc_rank c))"

text \<open>Stage 3 keeps only the shard of the parameters, \<open>zf_params\<close>.\<close>

definition init_from_full :: "sharded_config \<Rightarrow> real list \<Rightarrow> zframe \<Rightarrow> zframe" where
  "init_from_full c full_params f = f\<lparr>zf_params := chunk (zc_owned c * zc_shard_size c) (zc_shard_size c) full_params\<rparr>"

definition gather_full_params :: "sharded_config \<Rightarrow> zops" where
  "gather_full_params c =
     Local (\<lambda>f. f\<lparr>zf_recv := replicate (padded_total_params c) 0, zf_shard := zf_params f, zf_tmp := []\<rparr>) #
     ops_on get_gather put_gather (AllGather (zc_shard_size c) (zc_world c) (zc_rank c))"

definition zero3_update :: "sharded_config \<Rightarrow> zframe \<Rightarrow> zframe" where
  "zero3_update c f =
     (let start = zc_owned c * zc_shard_size c;
          owned_grad = chunk start (zc_shard_size c) (zf_grad f);
          (params', state') = adam_step (zc_rates c) (zf_params f) owned_grad (zf_state f) in
      f\<lparr>zf_params := params', zf_state := state'\<rparr>)"

definition zero3_step :: "sharded_config \<Rightarrow> nat \<Rightarrow> zops" where
  "zero3_step c grad_size =
     Local (\<lambda>f. f\<lparr>zf_tmp := []\<rparr>) #
     ops_on get_reduce put_reduce (ReduceScatter grad_size (zc_world c) (zc_rank c)) @
     [Local (zero3_update c)]"

section \<open>A distributed step is a step\<close>

text \<open>Slots put together again, in the order of the shards and in the rotated order of the all-gather.\<close>

lemma gathered_shards:
  assumes "0 < n" "length xs = sc * n"
  shows "gathered sc n (\<lambda>r. chunk ((r + 1) mod n * sc) sc xs) = xs"
proof (rule nth_equalityI)
  fix j
  assume "j < length (gathered sc n (\<lambda>r. chunk ((r + 1) mod n * sc) sc xs))"
  then have j: "j < sc * n" by (simp add: gathered_def)
  then have sc: "0 < sc" by (cases sc) auto
  have d: "j div sc < n" using j sc by (simp add: less_mult_imp_div_less mult.commute)
  then have "(ring_left n (j div sc) + 1) mod n = j div sc" using ring_left_cases [OF d] by auto
  then show "gathered sc n (\<lambda>r. chunk ((r + 1) mod n * sc) sc xs) ! j = xs ! j"
    using j sc slot_fits [OF d, of sc] assms(2) by (simp add: gathered_def nth_chunk)
qed (simp add: gathered_def assms)

lemma unrotate_fold:
  fixes sc :: nat
  assumes "k \<le> n" "length params = sc * n" "\<And>q. q < n \<Longrightarrow> length (ys q) = sc"
  shows "fold (\<lambda>owner. put_chunk (owner * sc) (ys owner)) [0..<k] params =
    map (\<lambda>j. if j div sc < k then ys (j div sc) ! (j mod sc) else params ! j) [0..<sc * n]"
  using assms(1)
proof (induction k)
  case 0
  then show ?case using assms(2) by (auto intro!: nth_equalityI)
next
  case (Suc k)
  let ?f = "\<lambda>k. map (\<lambda>j. if j div sc < k then ys (j div sc) ! (j mod sc) else params ! j) [0..<sc * n]"
  have k: "k < n" using Suc.prems by simp
  note fit = slot_fits [OF k, of sc] and len = assms(3) [OF k]
  have "put_chunk (k * sc) (ys k) (?f k) = ?f (Suc k)"
  proof (rule nth_equalityI)
    fix j
    assume "j < length (put_chunk (k * sc) (ys k) (?f k))"
    then have j: "j < sc * n" using fit len by simp
    then have sc: "0 < sc" by (cases sc) auto
    have "k * sc \<le> j \<and> j < k * sc + sc \<longleftrightarrow> j div sc = k"
      using sc by (auto simp: div_nat_eqI mult.commute) (metis add.commute dividend_less_div_times mult.commute)
    moreover have "j - k * sc = j mod sc" if "j div sc = k" using that minus_div_mult_eq_mod [of j sc] by simp
    ultimately show "put_chunk (k * sc) (ys k) (?f k) ! j = ?f (Suc k) ! j"
      using j fit len by (auto simp: nth_put_chunk less_Suc_eq)
  qed (use fit len in simp)
  then show ?case using Suc by simp
qed

lemma unrotate_shards:
  assumes "zc_world c = n" "zc_shard_size c = sc" "0 < n" "length xs = sc * n" "length params = sc * n"
  shows "unrotate c (gathered sc n (\<lambda>r. chunk (r * sc) sc xs)) params = xs"
proof -
  let ?ys = "\<lambda>r. chunk (r * sc) sc xs"
  have len: "length (?ys q) = sc" if "q < n" for q using slot_fits [OF that, of sc] assms(4) by simp
  have "unrotate c (gathered sc n ?ys) params = fold (\<lambda>owner. put_chunk (owner * sc) (?ys owner)) [0..<n] params"
    unfolding unrotate_def Let_def assms(1,2) by (rule fold_cong) (use gathered_slot [of _ n ?ys sc] len in auto)
  also have "\<dots> = map (\<lambda>j. if j div sc < n then ?ys (j div sc) ! (j mod sc) else params ! j) [0..<sc * n]"
    by (rule unrotate_fold) (simp_all add: assms len)
  also have "\<dots> = xs"
  proof (rule nth_equalityI)
    fix j
    assume "j < length (map (\<lambda>j. if j div sc < n then ?ys (j div sc) ! (j mod sc) else params ! j) [0..<sc * n])"
    then have j: "j < sc * n" by simp
    then have sc: "0 < sc" by (cases sc) auto
    have d: "j div sc < n" using j sc by (simp add: less_mult_imp_div_less mult.commute)
    then show "map (\<lambda>j. if j div sc < n then ?ys (j div sc) ! (j mod sc) else params ! j) [0..<sc * n] ! j = xs ! j"
      using j sc slot_fits [OF d, of sc] assms(4) by (simp add: nth_chunk)
  qed (simp add: assms)
  finally show ?thesis .
qed

text \<open>The configurations of the ranks of one job: the constructors give them.\<close>

definition job_config :: "nat \<Rightarrow> nat \<Rightarrow> adam_rates \<Rightarrow> (nat \<Rightarrow> 'x zero_config_scheme) \<Rightarrow> bool" where
  "job_config n sc h c \<longleftrightarrow> (\<forall>r < n. zc_rank (c r) = r \<and> zc_world (c r) = n \<and> zc_rates (c r) = h \<and> zc_shard_size (c r) = sc)"

definition owns_next :: "nat \<Rightarrow> (nat \<Rightarrow> sharded_config) \<Rightarrow> bool" where
  "owns_next n c \<longleftrightarrow> (\<forall>r < n. zc_owned (c r) = (r + 1) mod n)"

lemma new_job_config:
  "job_config n ((tot + n - 1) div n) (default_rates lr b1 b2) (\<lambda>r. fst (zero1_new tot r n lr b1 b2))"
  "job_config n ((tot + n - 1) div n) (default_rates lr b1 b2) (\<lambda>r. fst (zero2_new tot r n lr b1 b2))"
  "owns_next n (\<lambda>r. fst (zero2_new tot r n lr b1 b2))"
  "fst (zero3_new tot r n lr b1 b2) = fst (zero2_new tot r n lr b1 b2)"
  by (simp_all add: job_config_def owns_next_def zero1_new_def zero2_new_def zero3_new_def Let_def)

lemma padded_enough: "0 < n \<Longrightarrow> tot \<le> (tot + n - 1) div n * (n :: nat)"
proof -
  assume "0 < n"
  then have "tot + n - 1 < (tot + n - 1) div n * n + n" by (metis add.commute dividend_less_div_times)
  then show ?thesis by simp
qed

lemma next_slot_fits: "0 < n \<Longrightarrow> (r + 1) mod n * sc + sc \<le> sc * (n :: nat)"
  by (rule slot_fits) simp

text \<open>The gradient the ranks reduce.\<close>

definition grad_sum :: "nat \<Rightarrow> nat \<Rightarrow> (nat \<Rightarrow> zframe) \<Rightarrow> real list" where
  "grad_sum n len f = map (\<lambda>j. \<Sum>q<n. zf_grad (f q) ! j) [0..<len]"

lemma reduce_phase:
  assumes "2 \<le> n" "\<And>r. r < n \<Longrightarrow> length (zf_grad (f r)) = sc * n"
  obtains g where "net_computes n (\<lambda>r. Local (\<lambda>f. f\<lparr>zf_tmp := []\<rparr>) # ops_on get_reduce put_reduce (ReduceScatter (sc * n) n r)) f g"
    "\<And>r. r < n \<Longrightarrow> zf_params (g r) = zf_params (f r) \<and> zf_state (g r) = zf_state (f r)"
    "\<And>r. r < n \<Longrightarrow> chunk ((r + 1) mod n * sc) sc (zf_grad (g r)) = chunk ((r + 1) mod n * sc) sc (grad_sum n (sc * n) f)"
proof
  let ?f = "\<lambda>r. (f r)\<lparr>zf_tmp := []\<rparr>" and ?s = "\<lambda>r. rs_state (sc * n) n (\<lambda>q j. zf_grad (f q) ! j) r (n - 1)"
  have "net_computes n (ReduceScatter (sc * n) n) (\<lambda>r. get_reduce (?f r)) ?s"
    using reduce_scatter_computes [OF assms] by (simp add: get_reduce_def)
  from net_computes_on [OF parts(1) this]
  show "net_computes n (\<lambda>r. Local (\<lambda>f. f\<lparr>zf_tmp := []\<rparr>) # ops_on get_reduce put_reduce (ReduceScatter (sc * n) n r)) f (\<lambda>r. put_reduce (?s r) (?f r))"
    by (rule net_computes_first)
  show "chunk ((r + 1) mod n * sc) sc (zf_grad (put_reduce (?s r) (?f r))) = chunk ((r + 1) mod n * sc) sc (grad_sum n (sc * n) f)" if "r < n" for r
    using reduce_scatter_owned [OF assms(1) that, of sc "\<lambda>q. zf_grad (f q)"] by (simp add: put_reduce_def grad_sum_def)
qed (simp add: put_reduce_def)

text \<open>The state of a job in stage 2, and what a step makes of it.\<close>

definition zero2_job :: "nat \<Rightarrow> nat \<Rightarrow> real list \<Rightarrow> adam_state \<Rightarrow> (nat \<Rightarrow> zframe) \<Rightarrow> bool" where
  "zero2_job n sc P F f \<longleftrightarrow> (\<forall>r < n. zf_params (f r) = P \<and> zf_state (f r) = adam_slice ((r + 1) mod n * sc) sc F)"

lemma zero2_step_computes:
  assumes n: "2 \<le> n" and c: "job_config n sc h c" "owns_next n c" and g: "\<And>r. r < n \<Longrightarrow> length (zf_grad (f r)) = sc * n"
    and P: "length P = sc * n" "adam_fits (sc * n) F" and f: "zero2_job n sc P F f"
  obtains f' where "net_computes n (\<lambda>r. zero2_step (c r) (sc * n)) f f'"
    "zero2_job n sc (fst (adam_step h P (grad_sum n (sc * n) f) F)) (snd (adam_step h P (grad_sum n (sc * n) f) F)) f'"
proof -
  define G where "G = grad_sum n (sc * n) f"
  obtain g where g: "net_computes n (\<lambda>r. Local (\<lambda>f. f\<lparr>zf_tmp := []\<rparr>) # ops_on get_reduce put_reduce (ReduceScatter (sc * n) n r)) f g"
      "\<And>r. r < n \<Longrightarrow> zf_params (g r) = zf_params (f r) \<and> zf_state (g r) = zf_state (f r)"
      "\<And>r. r < n \<Longrightarrow> chunk ((r + 1) mod n * sc) sc (zf_grad (g r)) = chunk ((r + 1) mod n * sc) sc G"
    using reduce_phase [where f = f, OF n g] unfolding G_def by blast
  let ?P = "fst (adam_step h P G F)" and ?F = "snd (adam_step h P G F)"
  have len: "length G = length P" "length ?P = sc * n" "adam_fits (length P) F" using P adam_step_lengths(1) [of P F] by (simp_all add: G_def grad_sum_def)
  let ?u = "\<lambda>r. zero2_update (c r) (g r)" and ?sb = "\<lambda>r. chunk ((r + 1) mod n * sc) sc ?P"
  have u: "zf_shard (?u r) = ?sb r" "zf_state (?u r) = adam_slice ((r + 1) mod n * sc) sc ?F" "zf_params (?u r) = replicate (sc * n) 0" "zf_tmp (?u r) = []" if "r < n" for r
    using adam_shard [of "(r + 1) mod n * sc" sc P F G h] next_slot_fits [of n r sc] len P(1) n c f g(2,3) [OF that] that
    by (simp_all add: zero2_update_def Let_def job_config_def owns_next_def zero2_job_def padded_total_params_def)
  have "net_computes n (AllGather sc n) (\<lambda>r. (?sb r, replicate (sc * n) 0, [])) (\<lambda>r. (?sb r, gathered sc n ?sb, []))"
    by (rule all_gather_computes [OF n]) (use next_slot_fits [of n _ sc] len n in auto)
  then have "net_computes n (AllGather sc n) (\<lambda>r. get_gather_params (?u r)) (\<lambda>r. (?sb r, ?P, []))"
    by (rule net_computes_cong) (use n len gathered_shards [of n ?P sc] in \<open>simp_all add: get_gather_params_def u\<close>)
  note ag = net_computes_first [where h = "\<lambda>r. zero2_update (c r)" and i = g, OF net_computes_on [OF parts(3) this]]
  have "net_computes n (\<lambda>r. zero2_step (c r) (sc * n)) f (\<lambda>r. put_gather_params (?sb r, ?P, []) (?u r))"
    by (rule net_computes_cong [OF net_computes_seq [OF g(1) ag]]) (use c in \<open>simp_all add: zero2_step_def job_config_def\<close>)
  moreover have "zero2_job n sc ?P ?F (\<lambda>r. put_gather_params (?sb r, ?P, []) (?u r))"
    unfolding zero2_job_def by (simp add: put_gather_params_def u)
  ultimately show ?thesis using that unfolding G_def by blast
qed

text \<open>
  C38. One step of the stage 2 optimizer, in every schedule of the ranks and for every capacity of the transport, is one Adam step
  on the whole parameter vector with the sum of the local gradients: all ranks finish with the same parameters, those of
  the unsharded step, and each owner's optimizer state is its shard of the unsharded state.
\<close>

theorem zero2_step_is_adam:
  assumes "2 \<le> n" and "job_config n sc h c" "owns_next n c" and "\<And>r. r < n \<Longrightarrow> length (zf_grad (f r)) = sc * n"
    and "length P = sc * n" "adam_fits (sc * n) F" and "zero2_job n sc P F f"
    and "net_reach cap n (net_start (\<lambda>r. zero2_step (c r) (sc * n)) f) k S" "net_stuck cap n S"
  shows "net_done n S \<and> zero2_job n sc (fst (adam_step h P (grad_sum n (sc * n) f) F)) (snd (adam_step h P (grad_sum n (sc * n) f) F)) (n_loc S)"
proof -
  obtain f' where f': "net_computes n (\<lambda>r. zero2_step (c r) (sc * n)) f f'"
      "zero2_job n sc (fst (adam_step h P (grad_sum n (sc * n) f) F)) (snd (adam_step h P (grad_sum n (sc * n) f) F)) f'"
    using zero2_step_computes [OF assms(1-7)] by blast
  show ?thesis using net_computes_runs [OF f'(1) assms(8,9)] f'(2) by (simp add: zero2_job_def)
qed

definition zero2_example :: "nat \<Rightarrow> zframe" where
  "zero2_example r = \<lparr>zf_params = [1, 2, 3, 0], zf_grad = [real r, 1, 2, 0], zf_shard = [], zf_state = snd (zero2_new 3 r 2 1 0 0), zf_recv = [], zf_tmp = []\<rparr>"

lemma zero2_example_job:
  "job_config 2 2 (default_rates 1 0 0) (\<lambda>r. fst (zero2_new 3 r 2 1 0 0))" "owns_next 2 (\<lambda>r. fst (zero2_new 3 r 2 1 0 0))"
  "length (zf_grad (zero2_example r)) = 2 * 2" "length [1, 2, 3, 0 :: real] = 2 * 2" "adam_fits (2 * 2) (adam_new 4)"
  "zero2_job 2 2 [1, 2, 3, 0] (adam_new 4) zero2_example"
proof -
  show "job_config 2 2 (default_rates 1 0 0) (\<lambda>r. fst (zero2_new 3 r 2 1 0 0))" using new_job_config(2) [of 2 3 1 0 0] by simp
  show "owns_next 2 (\<lambda>r. fst (zero2_new 3 r 2 1 0 0))" by (rule new_job_config(3))
  show "zero2_job 2 2 [1, 2, 3, 0] (adam_new 4) zero2_example"
    unfolding zero2_job_def less_2_cases_iff by (auto simp: zero2_example_def adam_new_def adam_slice_def zero2_new_def chunk_def)
qed (simp_all add: zero2_example_def adam_fits_def adam_new_def)

theorem zero2_step_is_adam_witness:
  "\<exists>k S. net_reach 1 2 (net_start (\<lambda>r. zero2_step (fst (zero2_new 3 r 2 1 0 0)) 4) zero2_example) k S \<and> net_done 2 S \<and>
     zf_params (n_loc S 0) = fst (adam_step (default_rates 1 0 0) [1, 2, 3, 0] [1, 2, 4, 0] (adam_new 4))"
proof -
  let ?P = "\<lambda>r. zero2_step (fst (zero2_new 3 r 2 1 0 0)) (2 * 2)"
  have "\<exists>f'. net_computes 2 ?P zero2_example f'"
    using zero2_step_computes [where f = zero2_example, OF order.refl zero2_example_job] by blast
  then obtain k S where S: "net_reach 1 2 (net_start ?P zero2_example) k S" "net_stuck 1 2 S" using net_computes_stops by blast
  have "grad_sum 2 (2 * 2) zero2_example = [1, 2, 4, 0]" by (simp add: grad_sum_def zero2_example_def numeral_eq_Suc)
  then show ?thesis using zero2_step_is_adam [where f = zero2_example, OF order.refl zero2_example_job S] S(1)
    by (intro exI [of _ k] exI [of _ S]) (simp add: zero2_job_def)
qed

text \<open>Stage 1, where every rank has the reduced gradient.\<close>

definition zero1_job :: "nat \<Rightarrow> nat \<Rightarrow> real list \<Rightarrow> adam_state \<Rightarrow> (nat \<Rightarrow> zframe) \<Rightarrow> bool" where
  "zero1_job n sc P F f \<longleftrightarrow> (\<forall>r < n. zf_params (f r) = P \<and> zf_state (f r) = adam_slice (r * sc) sc F)"

lemma zero1_step_computes:
  assumes n: "2 \<le> n" and c: "job_config n sc h c" and G: "\<And>r. r < n \<Longrightarrow> zf_grad (f r) = G" "length G = sc * n"
    and P: "length P = sc * n" "adam_fits (sc * n) F" and f: "zero1_job n sc P F f"
  obtains f' where "net_computes n (\<lambda>r. zero1_step (c r)) f f'"
    "zero1_job n sc (fst (adam_step h P G F)) (snd (adam_step h P G F)) f'"
proof -
  let ?P = "fst (adam_step h P G F)" and ?F = "snd (adam_step h P G F)"
  have len: "length G = length P" "length ?P = sc * n" "adam_fits (length P) F" using P G adam_step_lengths(1) [of P F] by simp_all
  let ?u = "\<lambda>r. zero1_update (c r) (f r)" and ?sb = "\<lambda>r. chunk (r * sc) sc ?P"
  have u: "zf_shard (?u r) = ?sb r" "zf_state (?u r) = adam_slice (r * sc) sc ?F" "zf_params (?u r) = P" "zf_recv (?u r) = replicate (sc * n) 0" "zf_tmp (?u r) = []" if "r < n" for r
    using adam_shard [of "r * sc" sc P F G h] slot_fits [OF that, of sc] len P(1) c f G(1) [OF that] that
    by (simp_all add: zero1_update_def Let_def job_config_def zero1_job_def)
  have "net_computes n (AllGather sc n) (\<lambda>r. (?sb r, replicate (sc * n) 0, [])) (\<lambda>r. (?sb r, gathered sc n ?sb, []))"
    by (rule all_gather_computes [OF n]) (use slot_fits [of _ n sc] len in auto)
  then have "net_computes n (AllGather sc n) (\<lambda>r. get_gather (?u r)) (\<lambda>r. (?sb r, gathered sc n ?sb, []))"
    by (rule net_computes_cong) (simp_all add: get_gather_def u)
  note ag = net_computes_then [OF net_computes_first [where h = "\<lambda>r. zero1_update (c r)" and i = f, OF net_computes_on [OF parts(2) this]],
      where h = "\<lambda>r f. f\<lparr>zf_params := unrotate (c r) (zf_recv f) (zf_params f)\<rparr>"]
  let ?e = "\<lambda>r. put_gather (?sb r, gathered sc n ?sb, []) (?u r)"
  have "net_computes n (\<lambda>r. zero1_step (c r)) f (\<lambda>r. (?e r)\<lparr>zf_params := unrotate (c r) (zf_recv (?e r)) (zf_params (?e r))\<rparr>)"
    by (rule net_computes_cong [OF ag]) (use c in \<open>simp_all add: zero1_step_def job_config_def\<close>)
  moreover have "zero1_job n sc ?P ?F (\<lambda>r. (?e r)\<lparr>zf_params := unrotate (c r) (zf_recv (?e r)) (zf_params (?e r))\<rparr>)"
    using c n len P(1) unrotate_shards [of "c _" n sc ?P P] by (simp add: zero1_job_def put_gather_def u job_config_def)
  ultimately show ?thesis using that by blast
qed

text \<open>Stage 3: the step keeps the shards, and gathering them gives the parameters of the unsharded run.\<close>

definition zero3_job :: "nat \<Rightarrow> nat \<Rightarrow> real list \<Rightarrow> adam_state \<Rightarrow> (nat \<Rightarrow> zframe) \<Rightarrow> bool" where
  "zero3_job n sc P F f \<longleftrightarrow> (\<forall>r < n. zf_params (f r) = chunk ((r + 1) mod n * sc) sc P \<and> zf_state (f r) = adam_slice ((r + 1) mod n * sc) sc F)"

lemma init_from_full_job:
  assumes "job_config n sc h c" "owns_next n c" "\<And>r. r < n \<Longrightarrow> zf_state (f r) = adam_slice ((r + 1) mod n * sc) sc F"
  shows "zero3_job n sc P F (\<lambda>r. init_from_full (c r) P (f r))"
  using assms by (simp add: zero3_job_def init_from_full_def job_config_def owns_next_def)

lemma zero3_step_computes:
  assumes n: "2 \<le> n" and c: "job_config n sc h c" "owns_next n c" and g: "\<And>r. r < n \<Longrightarrow> length (zf_grad (f r)) = sc * n"
    and P: "length P = sc * n" "adam_fits (sc * n) F" and f: "zero3_job n sc P F f"
  obtains f' where "net_computes n (\<lambda>r. zero3_step (c r) (sc * n)) f f'"
    "zero3_job n sc (fst (adam_step h P (grad_sum n (sc * n) f) F)) (snd (adam_step h P (grad_sum n (sc * n) f) F)) f'"
proof -
  define G where "G = grad_sum n (sc * n) f"
  obtain g where g: "net_computes n (\<lambda>r. Local (\<lambda>f. f\<lparr>zf_tmp := []\<rparr>) # ops_on get_reduce put_reduce (ReduceScatter (sc * n) n r)) f g"
      "\<And>r. r < n \<Longrightarrow> zf_params (g r) = zf_params (f r) \<and> zf_state (g r) = zf_state (f r)"
      "\<And>r. r < n \<Longrightarrow> chunk ((r + 1) mod n * sc) sc (zf_grad (g r)) = chunk ((r + 1) mod n * sc) sc G"
    using reduce_phase [where f = f, OF n g] unfolding G_def by blast
  have len: "length G = length P" "adam_fits (length P) F" using P by (simp_all add: G_def grad_sum_def)
  have "net_computes n (\<lambda>r. zero3_step (c r) (sc * n)) f (\<lambda>r. zero3_update (c r) (g r))"
    by (rule net_computes_cong [OF net_computes_then [where h = "\<lambda>r. zero3_update (c r)", OF g(1)]]) (use c in \<open>simp_all add: zero3_step_def job_config_def\<close>)
  moreover have "zero3_job n sc (fst (adam_step h P G F)) (snd (adam_step h P G F)) (\<lambda>r. zero3_update (c r) (g r))"
    using adam_shard [of "(_ + 1) mod n * sc" sc P F G h] next_slot_fits [of n _ sc] len P(1) n c f g(2,3)
    by (simp add: zero3_update_def Let_def job_config_def owns_next_def zero3_job_def)
  ultimately show ?thesis using that unfolding G_def by blast
qed

lemma gather_full_params_computes:
  assumes n: "2 \<le> n" and c: "job_config n sc h c" and P: "length P = sc * n" and f: "zero3_job n sc P F f"
  obtains f' where "net_computes n (\<lambda>r. gather_full_params (c r)) f f'" "zero3_job n sc P F f'" "\<And>r. r < n \<Longrightarrow> zf_recv (f' r) = P"
proof -
  let ?u = "\<lambda>r. (f r)\<lparr>zf_recv := replicate (padded_total_params (c r)) 0, zf_shard := zf_params (f r), zf_tmp := []\<rparr>"
  let ?sb = "\<lambda>r. chunk ((r + 1) mod n * sc) sc P"
  have "net_computes n (AllGather sc n) (\<lambda>r. (?sb r, replicate (sc * n) 0, [])) (\<lambda>r. (?sb r, gathered sc n ?sb, []))"
    by (rule all_gather_computes [OF n]) (use next_slot_fits [of n _ sc] P n in auto)
  then have "net_computes n (AllGather sc n) (\<lambda>r. get_gather (?u r)) (\<lambda>r. (?sb r, P, []))"
    by (rule net_computes_cong) (use n c f P gathered_shards [of n P sc] in \<open>simp_all add: get_gather_def zero3_job_def job_config_def padded_total_params_def\<close>)
  note ag = net_computes_first [where h = "\<lambda>r f. f\<lparr>zf_recv := replicate (padded_total_params (c r)) 0, zf_shard := zf_params f, zf_tmp := []\<rparr>" and i = f,
      OF net_computes_on [OF parts(2) this]]
  have "net_computes n (\<lambda>r. gather_full_params (c r)) f (\<lambda>r. put_gather (?sb r, P, []) (?u r))"
    by (rule net_computes_cong [OF ag]) (use c in \<open>simp_all add: gather_full_params_def job_config_def\<close>)
  then show ?thesis by (rule that) (use f in \<open>simp_all add: zero3_job_def put_gather_def\<close>)
qed

end
