(* ===== verification/Chase_Lev.thy ===== *)
theory Chase_Lev
  imports Prelude "HOL-Library.Multiset"
begin

text \<open>
  \<open>foundation/chase_lev/chase_lev.h\<close>: the work-stealing deque. The owner pushes and pops at the bottom and any number of
  thieves steal at the top, interleaved at every atomic access, all of them sequentially consistent; the fences of the
  source are what that needs. \<open>top_\<close> and \<open>bottom_\<close> are integers that never overflow here; \<open>bottom_\<close> is transiently \<open>-1\<close> when
  \<open>pop\<close> finds the first deque empty. Arrays are never freed before the deque, so \<open>cv_arrays\<close> holds all that were ever
  allocated, the current one and the trash.
\<close>

section \<open>Circular arrays\<close>

definition da_new :: "'a \<Rightarrow> nat \<Rightarrow> 'a list option" where
  "da_new junk c = (if c > 0 \<and> c AND (c - 1) = 0 then Some (replicate c junk) else None)"

definition da_index :: "'a list \<Rightarrow> int \<Rightarrow> nat" where
  "da_index a i = nat i AND (length a - 1)"

definition da_load :: "'a list \<Rightarrow> int \<Rightarrow> 'a" where
  "da_load a i = a ! da_index a i"

definition da_store :: "int \<Rightarrow> 'a \<Rightarrow> 'a list \<Rightarrow> 'a list" where
  "da_store i v a = a[da_index a i := v]"

text \<open>The copy of \<open>grow\<close>.\<close>

definition da_grow :: "'a \<Rightarrow> 'a list \<Rightarrow> int \<Rightarrow> int \<Rightarrow> 'a list" where
  "da_grow junk old t b = fold (\<lambda>i. da_store i (da_load old i)) [t..b - 1] (replicate (length old * 2) junk)"

definition da_ok :: "'a list \<Rightarrow> bool" where
  "da_ok a \<longleftrightarrow> (\<exists>k. length a = 2 ^ k)"

lemma da_index_mod: "da_ok a \<Longrightarrow> da_index a i = nat i mod length a"
  by (auto simp: da_ok_def da_index_def take_bit_eq_mod [symmetric] take_bit_eq_mask mask_eq_exp_minus_1)

lemma da_ok_store [simp]: "da_ok (da_store i v a) = da_ok a" "length (da_store i v a) = length a"
  by (simp_all add: da_ok_def da_store_def)

lemma da_load_store_same: "da_ok a \<Longrightarrow> da_load (da_store i v a) i = v"
proof -
  assume a: "da_ok a"
  then have "da_index a i < length a" unfolding da_index_mod [OF a] by (auto simp: da_ok_def)
  then show ?thesis by (simp add: da_load_def da_store_def da_index_def)
qed

lemma da_load_store_other:
  assumes "da_ok a" "0 \<le> p" "0 \<le> i" "p \<noteq> i" "\<bar>p - i\<bar> < int (length a)"
  shows "da_load (da_store i v a) p = da_load a p"
proof -
  have "nat p mod length a \<noteq> nat i mod length a"
  proof
    assume "nat p mod length a = nat i mod length a"
    then have "int (length a) dvd p - i" using assms(2,3) by (metis mod_eq_dvd_iff of_nat_mod nat_0_le)
    then show False using assms(4,5) zdvd_imp_le [of "int (length a)" "\<bar>p - i\<bar>"] by auto
  qed
  then have "da_index a p \<noteq> da_index a i" by (simp add: da_index_mod [OF assms(1)])
  then show ?thesis by (simp add: da_load_def da_store_def da_index_def)
qed

lemma da_grow_ok: "da_ok old \<Longrightarrow> da_ok (da_grow junk old t b)" "length (da_grow junk old t b) = length old * 2"
proof -
  have l: "length (fold (\<lambda>i. da_store i (da_load old i)) ps a) = length a" for ps a by (induction ps arbitrary: a) auto
  show "length (da_grow junk old t b) = length old * 2" by (simp add: da_grow_def l)
  moreover assume "da_ok old"
  ultimately show "da_ok (da_grow junk old t b)" unfolding da_ok_def by (metis mult.commute power_Suc)
qed

lemma da_copy:
  assumes "da_ok a" "0 \<le> t" "t \<le> p" "p < t + int n" "int n \<le> int (length a)"
  shows "da_load (fold (\<lambda>i. da_store i (da_load old i)) [t..t + int n - 1] a) p = da_load old p"
  using assms(3-)
proof (induction n arbitrary: p)
  case (Suc n)
  let ?c = "\<lambda>n. fold (\<lambda>i. da_store i (da_load old i)) [t..t + int n - 1] a"
  have ok: "da_ok (fold (\<lambda>i. da_store i (da_load old i)) ps a) \<and> length (fold (\<lambda>i. da_store i (da_load old i)) ps a) = length a" for ps
    using assms(1) by (induction ps arbitrary: a) auto
  have "[t..t + int (Suc n) - 1] = [t..t + int n - 1] @ [t + int n]" using upto_rec2 [of t "t + int n"] by simp
  then have c: "?c (Suc n) = da_store (t + int n) (da_load old (t + int n)) (?c n)" by simp
  show ?case
  proof (cases "p = t + int n")
    case False
    then have "da_load (?c (Suc n)) p = da_load (?c n) p"
      unfolding c by (intro da_load_store_other) (use ok assms(2) Suc.prems in auto)
    then show ?thesis using Suc False by simp
  next
    case True
    show ?thesis unfolding c True by (rule da_load_store_same) (use ok in blast)
  qed
qed simp

lemma da_load_grow:
  assumes "da_ok old" "0 \<le> t" "t \<le> p" "p < b" "b - t \<le> int (length old * 2)"
  shows "da_load (da_grow junk old t b) p = da_load old p"
proof -
  have "da_ok (replicate (length old * 2) junk)" using assms(1) unfolding da_ok_def by (metis length_replicate mult.commute power_Suc)
  then show ?thesis using da_copy [of _ t p "nat (b - t)" old] assms by (simp add: da_grow_def)
qed

section \<open>The deque\<close>

text \<open>Where the owner stands: the points of \<open>push\<close>, with the value, \<open>b\<close>, \<open>t\<close> or the array, and those of \<open>pop\<close>.\<close>

datatype 'a owner_pc =
    DIdle
  | DPushB 'a int
  | DPushT 'a int int
  | DPushNew 'a int nat
  | DPushA 'a int nat
  | DPushS 'a int
  | DPopB int
  | DPopA int nat
  | DPopS int nat
  | DPopT int nat int
  | DPopV int int 'a
  | DPopWon int 'a
  | DPopLost int

datatype 'a thief_pc = TfIdle | TfTop int | TfBottom int | TfArray int nat | TfValue int 'a

datatype 'a deque_event = Pushed 'a | Popped 'a | Stolen 'a

text \<open>\<open>cv_trace\<close> records the operations in the order they take effect.\<close>

record 'a chase_lev =
  cv_top :: int
  cv_bottom :: int
  cv_arrays :: "'a list list"
  cv_array :: nat
  cv_owner :: "'a owner_pc"
  cv_thief :: "nat \<Rightarrow> 'a thief_pc"
  cv_trace :: "'a deque_event list"

definition cl_new :: "'a \<Rightarrow> nat \<Rightarrow> 'a chase_lev option" where
  "cl_new junk initial_cap = (case da_new junk initial_cap of
      None \<Rightarrow> None
    | Some a \<Rightarrow> Some \<lparr>cv_top = 0, cv_bottom = 0, cv_arrays = [a], cv_array = 0, cv_owner = DIdle, cv_thief = (\<lambda>i. TfIdle), cv_trace = []\<rparr>)"

definition cl_size :: "'a chase_lev \<Rightarrow> nat" where
  "cl_size s = (if cv_bottom s > cv_top s then nat (cv_bottom s - cv_top s) else 0)"

definition cl_empty :: "'a chase_lev \<Rightarrow> bool" where
  "cl_empty s \<longleftrightarrow> cl_size s = 0"

abbreviation cl_cur :: "'a chase_lev \<Rightarrow> 'a list" where
  "cl_cur s \<equiv> cv_arrays s ! cv_array s"

text \<open>\<open>push\<close>; the comparison with the capacity is unsigned, so a negative difference counts as full.\<close>

inductive push_step :: "'a \<Rightarrow> 'a chase_lev \<Rightarrow> 'a chase_lev \<Rightarrow> bool" for junk where
  push_bottom: "cv_owner s = DIdle \<Longrightarrow> push_step junk s (s\<lparr>cv_owner := DPushB v (cv_bottom s)\<rparr>)"
| push_top: "cv_owner s = DPushB v b \<Longrightarrow> push_step junk s (s\<lparr>cv_owner := DPushT v b (cv_top s)\<rparr>)"
| push_fits: "cv_owner s = DPushT v b t \<Longrightarrow> 0 \<le> b - t \<and> b - t < int (length (cl_cur s)) \<Longrightarrow> push_step junk s (s\<lparr>cv_owner := DPushA v b (cv_array s)\<rparr>)"
| push_grow: "cv_owner s = DPushT v b t \<Longrightarrow> \<not> (0 \<le> b - t \<and> b - t < int (length (cl_cur s))) \<Longrightarrow>
    push_step junk s (s\<lparr>cv_arrays := cv_arrays s @ [da_grow junk (cl_cur s) t b], cv_owner := DPushNew v b (length (cv_arrays s))\<rparr>)"
| push_publish: "cv_owner s = DPushNew v b a \<Longrightarrow> push_step junk s (s\<lparr>cv_array := a, cv_owner := DPushA v b a\<rparr>)"
| push_store: "cv_owner s = DPushA v b a \<Longrightarrow>
    push_step junk s (s\<lparr>cv_arrays := (cv_arrays s)[a := da_store b v (cv_arrays s ! a)], cv_owner := DPushS v b\<rparr>)"
| push_done: "cv_owner s = DPushS v b \<Longrightarrow>
    push_step junk s (s\<lparr>cv_bottom := b + 1, cv_owner := DIdle, cv_trace := cv_trace s @ [Pushed v]\<rparr>)"

text \<open>\<open>pop\<close>.\<close>

inductive pop_step :: "'a chase_lev \<Rightarrow> 'a chase_lev \<Rightarrow> bool" where
  pop_bottom: "cv_owner s = DIdle \<Longrightarrow> pop_step s (s\<lparr>cv_owner := DPopB (cv_bottom s - 1)\<rparr>)"
| pop_array: "cv_owner s = DPopB b \<Longrightarrow> pop_step s (s\<lparr>cv_owner := DPopA b (cv_array s)\<rparr>)"
| pop_store: "cv_owner s = DPopA b a \<Longrightarrow> pop_step s (s\<lparr>cv_bottom := b, cv_owner := DPopS b a\<rparr>)"
| pop_top: "cv_owner s = DPopS b a \<Longrightarrow> pop_step s (s\<lparr>cv_owner := DPopT b a (cv_top s)\<rparr>)"
| pop_empty: "cv_owner s = DPopT b a t \<Longrightarrow> t > b \<Longrightarrow> pop_step s (s\<lparr>cv_bottom := b + 1, cv_owner := DIdle\<rparr>)"
| pop_value: "cv_owner s = DPopT b a t \<Longrightarrow> \<not> t > b \<Longrightarrow> pop_step s (s\<lparr>cv_owner := DPopV b t (da_load (cv_arrays s ! a) b)\<rparr>)"
| pop_more: "cv_owner s = DPopV b t v \<Longrightarrow> t \<noteq> b \<Longrightarrow> pop_step s (s\<lparr>cv_owner := DIdle, cv_trace := cv_trace s @ [Popped v]\<rparr>)"
| pop_cas: "cv_owner s = DPopV b t v \<Longrightarrow> t = b \<Longrightarrow> cv_top s = t \<Longrightarrow>
    pop_step s (s\<lparr>cv_top := t + 1, cv_owner := DPopWon b v, cv_trace := cv_trace s @ [Popped v]\<rparr>)"
| pop_cas_fail: "cv_owner s = DPopV b t v \<Longrightarrow> t = b \<Longrightarrow> cv_top s \<noteq> t \<Longrightarrow> pop_step s (s\<lparr>cv_owner := DPopLost b\<rparr>)"
| pop_won: "cv_owner s = DPopWon b v \<Longrightarrow> pop_step s (s\<lparr>cv_bottom := b + 1, cv_owner := DIdle\<rparr>)"
| pop_lost: "cv_owner s = DPopLost b \<Longrightarrow> pop_step s (s\<lparr>cv_bottom := b + 1, cv_owner := DIdle\<rparr>)"

text \<open>\<open>steal\<close>, of thief \<open>i\<close>.\<close>

definition thief_at :: "nat \<Rightarrow> 'a thief_pc \<Rightarrow> 'a chase_lev \<Rightarrow> 'a chase_lev" where
  "thief_at i pc s = s\<lparr>cv_thief := (cv_thief s)(i := pc)\<rparr>"

inductive steal_step :: "nat \<Rightarrow> 'a chase_lev \<Rightarrow> 'a chase_lev \<Rightarrow> bool" for i where
  steal_top: "cv_thief s i = TfIdle \<Longrightarrow> steal_step i s (thief_at i (TfTop (cv_top s)) s)"
| steal_empty: "cv_thief s i = TfTop t \<Longrightarrow> t \<ge> cv_bottom s \<Longrightarrow> steal_step i s (thief_at i TfIdle s)"
| steal_bottom: "cv_thief s i = TfTop t \<Longrightarrow> \<not> t \<ge> cv_bottom s \<Longrightarrow> steal_step i s (thief_at i (TfBottom t) s)"
| steal_array: "cv_thief s i = TfBottom t \<Longrightarrow> steal_step i s (thief_at i (TfArray t (cv_array s)) s)"
| steal_value: "cv_thief s i = TfArray t a \<Longrightarrow> steal_step i s (thief_at i (TfValue t (da_load (cv_arrays s ! a) t)) s)"
| steal_cas: "cv_thief s i = TfValue t v \<Longrightarrow> cv_top s = t \<Longrightarrow>
    steal_step i s ((thief_at i TfIdle s)\<lparr>cv_top := t + 1, cv_trace := cv_trace s @ [Stolen v]\<rparr>)"
| steal_cas_fail: "cv_thief s i = TfValue t v \<Longrightarrow> cv_top s \<noteq> t \<Longrightarrow> steal_step i s (thief_at i TfIdle s)"

inductive cl_reach :: "'a \<Rightarrow> nat \<Rightarrow> 'a chase_lev \<Rightarrow> bool" for junk cap where
  cl_start: "cl_new junk cap = Some s \<Longrightarrow> cl_reach junk cap s"
| cl_push: "cl_reach junk cap s \<Longrightarrow> push_step junk s s' \<Longrightarrow> cl_reach junk cap s'"
| cl_pop: "cl_reach junk cap s \<Longrightarrow> pop_step s s' \<Longrightarrow> cl_reach junk cap s'"
| cl_steal: "cl_reach junk cap s \<Longrightarrow> steal_step i s s' \<Longrightarrow> cl_reach junk cap s'"

section \<open>The deque as a sequence\<close>

fun deque_do :: "'a deque_event \<Rightarrow> 'a list \<Rightarrow> 'a list option" where
  "deque_do (Pushed v) q = Some (q @ [v])"
| "deque_do (Popped v) q = (if q \<noteq> [] \<and> last q = v then Some (butlast q) else None)"
| "deque_do (Stolen v) q = (if q \<noteq> [] \<and> hd q = v then Some (tl q) else None)"

fun deque_run :: "'a deque_event list \<Rightarrow> 'a list \<Rightarrow> 'a list option" where
  "deque_run [] q = Some q"
| "deque_run (e # es) q = (case deque_do e q of None \<Rightarrow> None | Some q' \<Rightarrow> deque_run es q')"

lemma deque_run_snoc: "deque_run es q = Some q' \<Longrightarrow> deque_run (es @ [e]) q = deque_do e q'"
  by (induction es arbitrary: q) (auto split: option.splits)

text \<open>The end of the live range: while \<open>pop\<close> has lowered \<open>bottom_\<close> and not decided yet, the claimed slot still belongs to it.\<close>

fun pop_claims :: "'a owner_pc \<Rightarrow> bool" where
  "pop_claims (DPopS b a) = True"
| "pop_claims (DPopT b a t) = True"
| "pop_claims (DPopV b t v) = True"
| "pop_claims (DPopWon b v) = True"
| "pop_claims (DPopLost b) = True"
| "pop_claims _ = False"

definition cl_end :: "'a chase_lev \<Rightarrow> int" where
  "cl_end s = cv_bottom s + (if pop_claims (cv_owner s) then 1 else 0)"

definition cl_contents :: "'a chase_lev \<Rightarrow> 'a list" where
  "cl_contents s = map (da_load (cl_cur s)) [cv_top s..cl_end s - 1]"

section \<open>Invariant\<close>

text \<open>No thief takes a position at or above the limit: a \<open>pop\<close> that saw more than one element owns the last.\<close>

definition cl_limit :: "'a chase_lev \<Rightarrow> int" where
  "cl_limit s = (case cv_owner s of
      DPopT b a t \<Rightarrow> if t < b then b else cl_end s
    | DPopV b t v \<Rightarrow> if t < b then b else cl_end s
    | _ \<Rightarrow> cl_end s)"

definition cl_memory :: "'a chase_lev \<Rightarrow> bool" where
  "cl_memory s \<longleftrightarrow> list_all da_ok (cv_arrays s) \<and> cv_array s < length (cv_arrays s) \<and>
     0 \<le> cv_top s \<and> cv_top s \<le> cl_end s \<and> cl_end s - cv_top s \<le> int (length (cl_cur s))"

definition owner_ok :: "'a chase_lev \<Rightarrow> bool" where
  "owner_ok s = (case cv_owner s of
      DIdle \<Rightarrow> True
    | DPushB v b \<Rightarrow> b = cv_bottom s
    | DPushT v b t \<Rightarrow> b = cv_bottom s \<and> 0 \<le> t \<and> t \<le> cv_top s \<and> b - t \<le> int (length (cl_cur s))
    | DPushNew v b a \<Rightarrow> b = cv_bottom s \<and> a < length (cv_arrays s) \<and> b - cv_top s < int (length (cv_arrays s ! a)) \<and>
        (\<forall>p. cv_top s \<le> p \<and> p < b \<longrightarrow> da_load (cv_arrays s ! a) p = da_load (cl_cur s) p)
    | DPushA v b a \<Rightarrow> b = cv_bottom s \<and> a = cv_array s \<and> b - cv_top s < int (length (cl_cur s))
    | DPushS v b \<Rightarrow> b = cv_bottom s \<and> b - cv_top s < int (length (cl_cur s)) \<and> da_load (cl_cur s) b = v
    | DPopB b \<Rightarrow> b = cv_bottom s - 1
    | DPopA b a \<Rightarrow> b = cv_bottom s - 1 \<and> a = cv_array s
    | DPopS b a \<Rightarrow> b = cv_bottom s \<and> a = cv_array s
    | DPopT b a t \<Rightarrow> b = cv_bottom s \<and> a = cv_array s \<and> t \<le> cv_top s \<and> (t < b \<longrightarrow> cv_top s \<le> b)
    | DPopV b t v \<Rightarrow> b = cv_bottom s \<and> t \<le> cv_top s \<and> t \<le> b \<and> (t < b \<longrightarrow> cv_top s \<le> b) \<and> v = da_load (cl_cur s) b
    | DPopWon b v \<Rightarrow> b = cv_bottom s \<and> cv_top s = b + 1
    | DPopLost b \<Rightarrow> b = cv_bottom s \<and> cv_top s = b + 1)"

definition thief_ok :: "'a chase_lev \<Rightarrow> 'a thief_pc \<Rightarrow> bool" where
  "thief_ok s pc = (case pc of
      TfIdle \<Rightarrow> True
    | TfTop t \<Rightarrow> 0 \<le> t \<and> t \<le> cv_top s
    | TfBottom t \<Rightarrow> 0 \<le> t \<and> t \<le> cv_top s \<and> (t = cv_top s \<longrightarrow> t < cl_limit s)
    | TfArray t a \<Rightarrow> t \<le> cv_top s \<and> a < length (cv_arrays s) \<and>
        (t = cv_top s \<longrightarrow> t < cl_limit s \<and> da_load (cv_arrays s ! a) t = da_load (cl_cur s) t)
    | TfValue t v \<Rightarrow> t \<le> cv_top s \<and> (t = cv_top s \<longrightarrow> t < cl_limit s \<and> v = da_load (cl_cur s) t))"

definition cl_inv :: "'a chase_lev \<Rightarrow> bool" where
  "cl_inv s \<longleftrightarrow> cl_memory s \<and> owner_ok s \<and> (\<forall>i. thief_ok s (cv_thief s i)) \<and> deque_run (cv_trace s) [] = Some (cl_contents s)"

lemma cl_invI:
  "cl_memory s \<Longrightarrow> owner_ok s \<Longrightarrow> (\<And>i. thief_ok s (cv_thief s i)) \<Longrightarrow> deque_run (cv_trace s) [] = Some (cl_contents s) \<Longrightarrow> cl_inv s"
  by (simp add: cl_inv_def)

lemma cl_limit_le: "cl_limit s \<le> cl_end s" if "owner_ok s"
  using that by (auto simp: cl_limit_def cl_end_def owner_ok_def split: owner_pc.splits)

lemma cl_inv_new: "cl_new junk cap = Some s \<Longrightarrow> cl_inv s"
  using pow2_nat [of cap]
  by (auto simp: cl_new_def da_new_def cl_inv_def cl_memory_def owner_ok_def thief_ok_def cl_contents_def cl_end_def da_ok_def split: if_splits option.splits)

text \<open>Steps of the owner that change only where it stands.\<close>

lemma thief_ok_cong:
  "cv_top s' = cv_top s \<Longrightarrow> (cv_top s < cl_limit s \<Longrightarrow> cv_top s < cl_limit s') \<Longrightarrow> cv_arrays s' = cv_arrays s \<Longrightarrow> cv_array s' = cv_array s \<Longrightarrow> thief_ok s pc \<Longrightarrow> thief_ok s' pc"
  by (auto simp: thief_ok_def split: thief_pc.splits)

lemma inv_moves:
  assumes "cl_inv s" "cv_top s' = cv_top s" "cv_top s < cl_limit s \<Longrightarrow> cv_top s < cl_limit s'" "cl_end s' = cl_end s" "cv_arrays s' = cv_arrays s" "cv_array s' = cv_array s"
    "cv_thief s' = cv_thief s" "cv_trace s' = cv_trace s" "owner_ok s'"
  shows "cl_inv s'"
  using assms thief_ok_cong [of s' s] by (auto simp: cl_inv_def cl_memory_def cl_contents_def)

lemmas cl_states = cl_limit_def cl_end_def owner_ok_def

text \<open>Steps of the owner that replace the current array or its contents keep the live range.\<close>

lemma inv_rewrites:
  assumes I: "cl_inv s" and ok: "owner_ok s'" "list_all da_ok (cv_arrays s')" "cv_array s' < length (cv_arrays s')" "length (cv_arrays s) \<le> length (cv_arrays s')"
    and eq: "cv_top s' = cv_top s" "cl_limit s' = cl_limit s" "cl_end s' = cl_end s" "cv_thief s' = cv_thief s" "cv_trace s' = cv_trace s"
    and room: "cl_end s - cv_top s \<le> int (length (cl_cur s'))"
    and cur: "\<And>p. cv_top s \<le> p \<Longrightarrow> p < cl_end s \<Longrightarrow> da_load (cl_cur s') p = da_load (cl_cur s) p"
    and arr: "\<And>a. a < length (cv_arrays s) \<Longrightarrow> cv_top s < cl_end s \<Longrightarrow>
      da_load (cv_arrays s ! a) (cv_top s) = da_load (cl_cur s) (cv_top s) \<Longrightarrow> da_load (cv_arrays s' ! a) (cv_top s) = da_load (cl_cur s) (cv_top s)"
  shows "cl_inv s'"
proof (rule cl_invI)
  have "cl_memory s" "owner_ok s" using I by (auto simp: cl_inv_def)
  then have lim: "cl_limit s \<le> cl_end s" using cl_limit_le by blast
  show "cl_memory s'" using \<open>cl_memory s\<close> ok(2,3) eq room by (simp add: cl_memory_def)
  have "cl_contents s' = cl_contents s" using cur by (simp add: cl_contents_def eq)
  then show "deque_run (cv_trace s') [] = Some (cl_contents s')" using I eq by (simp add: cl_inv_def)
  fix i
  have "thief_ok s (cv_thief s i)" using I by (simp add: cl_inv_def)
  then show "thief_ok s' (cv_thief s' i)"
    using lim ok(4) cur [of "cv_top s"] arr unfolding thief_ok_def eq by (auto split: thief_pc.splits)
qed (rule ok(1))

lemma cl_cur_ok: "cl_inv s \<Longrightarrow> da_ok (cl_cur s)"
  by (simp add: cl_inv_def cl_memory_def list_all_length)

lemma push_step_inv:
  assumes "push_step junk s s'" "cl_inv s"
  shows "cl_inv s'"
  using assms
proof (cases rule: push_step.cases)
  case (push_bottom v)
  then show ?thesis by (intro inv_moves [OF assms(2)]) (simp_all add: cl_states)
next
  case (push_top v b)
  then show ?thesis using assms(2) by (intro inv_moves [OF assms(2)]) (simp_all add: cl_states cl_inv_def cl_memory_def)
next
  case (push_fits v b t)
  then show ?thesis using assms(2) by (intro inv_moves [OF assms(2)]) (simp_all add: cl_states cl_inv_def)
next
  case (push_grow v b t)
  have o: "b = cv_bottom s" "0 \<le> t" "t \<le> cv_top s" "b - t \<le> int (length (cl_cur s))" and m: "cv_array s < length (cv_arrays s)" "list_all da_ok (cv_arrays s)"
      "cv_top s \<le> b" "b - cv_top s \<le> int (length (cl_cur s))"
    using assms(2) push_grow(2) by (simp_all add: cl_inv_def owner_ok_def cl_memory_def cl_end_def)
  note ok = cl_cur_ok [OF assms(2)]
  have len: "0 < length (cl_cur s)" using ok by (auto simp: da_ok_def)
  have "da_load (da_grow junk (cl_cur s) t b) p = da_load (cl_cur s) p" if "cv_top s \<le> p" "p < b" for p
    using da_load_grow [OF ok o(2), of p b junk] that o by simp
  moreover have "b - cv_top s < int (length (cl_cur s) * 2)" using m(4) len by linarith
  ultimately show ?thesis
    using push_grow(1,2) m o by (intro inv_rewrites [OF assms(2)]) (simp_all add: cl_states nth_append da_grow_ok ok)
next
  case (push_publish v b a)
  have o: "b = cv_bottom s" "a < length (cv_arrays s)" "b - cv_top s < int (length (cv_arrays s ! a))"
      "\<And>p. cv_top s \<le> p \<Longrightarrow> p < b \<Longrightarrow> da_load (cv_arrays s ! a) p = da_load (cl_cur s) p"
    using assms(2) push_publish(2) by (simp_all add: cl_inv_def owner_ok_def)
  then show ?thesis
    using push_publish(1,2) assms(2) by (intro inv_rewrites [OF assms(2)]) (simp_all add: cl_states cl_inv_def cl_memory_def)
next
  case (push_store v b a)
  have o: "b = cv_bottom s" "a = cv_array s" "b - cv_top s < int (length (cl_cur s))" and m: "cv_array s < length (cv_arrays s)" "list_all da_ok (cv_arrays s)" "0 \<le> cv_top s" "cv_top s \<le> b"
    using assms(2) push_store(2) by (simp_all add: cl_inv_def owner_ok_def cl_memory_def cl_end_def)
  note ok = cl_cur_ok [OF assms(2)]
  have ld: "da_load (da_store b v (cl_cur s)) p = da_load (cl_cur s) p" if "cv_top s \<le> p" "p < b" for p
    by (rule da_load_store_other [OF ok]) (use that o m in auto)
  have "list_all da_ok ((cv_arrays s)[a := da_store b v (cv_arrays s ! a)])" using m(1,2) ok o(2) by (auto simp: list_all_length nth_list_update)
  then have arrs: "list_all da_ok (cv_arrays s')" using push_store(1) by simp
  have cur: "cl_cur s' = da_store b v (cl_cur s)" using push_store(1) m o by simp
  have arr: "cv_arrays s' ! j = (if j = cv_array s then da_store b v (cl_cur s) else cv_arrays s ! j)" for j using push_store(1) m o by simp
  have e: "cl_end s = b" "cl_end s' = b" "cl_limit s' = b" "cl_limit s = b" using push_store(1,2) o(1) by (simp_all add: cl_states)
  show ?thesis
  proof (rule inv_rewrites [OF assms(2) _ arrs])
    show "owner_ok s'" using push_store(1) o m cur da_load_store_same [OF ok] by (simp add: owner_ok_def)
    show "da_load (cv_arrays s' ! j) (cv_top s) = da_load (cl_cur s) (cv_top s)"
      if "cv_top s < cl_end s" "da_load (cv_arrays s ! j) (cv_top s) = da_load (cl_cur s) (cv_top s)" for j
      using that ld [of "cv_top s"] e by (simp add: arr)
  qed (use push_store(1) m o e ld in \<open>simp_all add: cur\<close>)
next
  case (push_done v b)
  have o: "b = cv_bottom s" "b - cv_top s < int (length (cl_cur s))" "da_load (cl_cur s) b = v" and m: "cv_top s \<le> b"
    using assms(2) push_done(2) by (auto simp: cl_inv_def owner_ok_def cl_memory_def cl_end_def)
  have e: "cl_end s = b" "cl_end s' = b + 1" "cl_limit s' = b + 1" "cl_limit s = b" using push_done o(1) by (simp_all add: cl_states)
  show ?thesis
  proof (rule cl_invI)
    show "cl_memory s'" using assms(2) o e push_done(1) by (simp add: cl_inv_def cl_memory_def)
    show "owner_ok s'" using push_done(1) by (simp add: owner_ok_def)
    show "thief_ok s' (cv_thief s' i)" for i
      using thief_ok_cong [of s' s "cv_thief s i"] assms(2) e push_done(1) by (simp add: cl_inv_def)
    have "[cv_top s..b] = [cv_top s..b - 1] @ [b]" using m by (rule upto_rec2)
    then have "cl_contents s' = cl_contents s @ [v]" using e o(3) push_done(1) by (simp add: cl_contents_def)
    then show "deque_run (cv_trace s') [] = Some (cl_contents s')"
      using deque_run_snoc [of "cv_trace s" "[]" "cl_contents s" "Pushed v"] assms(2) push_done(1) by (simp add: cl_inv_def)
  qed
qed

text \<open>Taking an element: the top moves up, which no other thief has seen, or the owner takes the last of several.\<close>

lemma thief_ok_later: "cv_top s < cv_top s' \<Longrightarrow> cv_arrays s' = cv_arrays s \<Longrightarrow> thief_ok s pc \<Longrightarrow> thief_ok s' pc"
  by (auto simp: thief_ok_def split: thief_pc.splits)

lemma pop_step_inv:
  assumes "pop_step s s'" "cl_inv s"
  shows "cl_inv s'"
  using assms
proof (cases rule: pop_step.cases)
  case pop_bottom
  then show ?thesis by (intro inv_moves [OF assms(2)]) (simp_all add: cl_states)
next
  case (pop_array b)
  then show ?thesis using assms(2) by (intro inv_moves [OF assms(2)]) (simp_all add: cl_states cl_inv_def)
next
  case (pop_store b a)
  then show ?thesis using assms(2) by (intro inv_moves [OF assms(2)]) (simp_all add: cl_states cl_inv_def)
next
  case (pop_top b a)
  then show ?thesis using assms(2) by (intro inv_moves [OF assms(2)]) (auto simp: cl_states cl_inv_def)
next
  case (pop_empty b a t)
  then show ?thesis using assms(2) by (intro inv_moves [OF assms(2)]) (auto simp: cl_states cl_inv_def)
next
  case (pop_value b a t)
  then show ?thesis using assms(2) by (intro inv_moves [OF assms(2)]) (auto simp: cl_states cl_inv_def)
next
  case (pop_more b t v)
  have o: "b = cv_bottom s" "t < b" "cv_top s \<le> b" "v = da_load (cl_cur s) b"
    using assms(2) pop_more(2,3) by (auto simp: cl_inv_def owner_ok_def)
  have e: "cl_end s = b + 1" "cl_end s' = b" "cl_limit s' = b" "cl_limit s = b" using pop_more o(1,2) by (simp_all add: cl_states)
  show ?thesis
  proof (rule cl_invI)
    show "cl_memory s'" using assms(2) o e pop_more(1) by (simp add: cl_inv_def cl_memory_def)
    show "owner_ok s'" using pop_more(1) by (simp add: owner_ok_def)
    show "thief_ok s' (cv_thief s' i)" for i
      using thief_ok_cong [of s' s "cv_thief s i"] assms(2) e pop_more(1) by (simp add: cl_inv_def)
    have "[cv_top s..b] = [cv_top s..b - 1] @ [b]" using o(3) by (rule upto_rec2)
    then have "cl_contents s = cl_contents s' @ [v]" using e o(4) pop_more(1) by (simp add: cl_contents_def)
    then show "deque_run (cv_trace s') [] = Some (cl_contents s')"
      using deque_run_snoc [of "cv_trace s" "[]" "cl_contents s" "Popped v"] assms(2) pop_more(1) by (simp add: cl_inv_def)
  qed
next
  case (pop_cas b t v)
  have o: "b = cv_bottom s" "cv_top s = b" "v = da_load (cl_cur s) b"
    using assms(2) pop_cas(2-) by (auto simp: cl_inv_def owner_ok_def)
  have e: "cl_end s = b + 1" "cl_end s' = b + 1" "cv_top s' = b + 1" using pop_cas o(1,2) by (simp_all add: cl_states)
  show ?thesis
  proof (rule cl_invI)
    show "cl_memory s'" using assms(2) o e pop_cas(1) by (simp add: cl_inv_def cl_memory_def)
    show "owner_ok s'" using pop_cas(1,3) o(1) by (simp add: owner_ok_def)
    show "thief_ok s' (cv_thief s' i)" for i
      using thief_ok_later [of s s' "cv_thief s i"] assms(2) e o pop_cas(1) by (simp add: cl_inv_def)
    have "cl_contents s = [v]" "cl_contents s' = []" using e o by (simp_all add: cl_contents_def)
    then show "deque_run (cv_trace s') [] = Some (cl_contents s')"
      using deque_run_snoc [of "cv_trace s" "[]" "cl_contents s" "Popped v"] assms(2) pop_cas(1) by (simp add: cl_inv_def)
  qed
next
  case (pop_cas_fail b t v)
  then show ?thesis using assms(2) by (intro inv_moves [OF assms(2)]) (auto simp: cl_states cl_inv_def cl_memory_def)
next
  case (pop_won b v)
  then show ?thesis using assms(2) by (intro inv_moves [OF assms(2)]) (auto simp: cl_states cl_inv_def)
next
  case (pop_lost b)
  then show ?thesis using assms(2) by (intro inv_moves [OF assms(2)]) (auto simp: cl_states cl_inv_def)
qed

lemma inv_thief_moves:
  assumes "cl_inv s" "thief_ok s pc"
  shows "cl_inv (thief_at i pc s)"
proof (rule cl_invI)
  let ?s = "thief_at i pc s"
  have lim: "cl_limit ?s = cl_limit s" "cl_end ?s = cl_end s" by (auto simp: cl_states thief_at_def split: owner_pc.splits)
  show "cl_memory ?s" using assms(1) lim by (simp add: cl_inv_def cl_memory_def thief_at_def)
  have "owner_ok s" using assms(1) by (simp add: cl_inv_def)
  then show "owner_ok ?s" by (auto simp: owner_ok_def thief_at_def split: owner_pc.splits)
  show "deque_run (cv_trace ?s) [] = Some (cl_contents ?s)" using assms(1) lim by (simp add: cl_inv_def cl_contents_def thief_at_def)
  have "thief_ok ?s p = thief_ok s p" for p using lim by (simp add: thief_ok_def thief_at_def split: thief_pc.splits)
  then show "thief_ok ?s (cv_thief ?s j)" for j using assms by (simp add: cl_inv_def thief_at_def)
qed

lemma owner_ok_taken:
  assumes "owner_ok s" "cv_top s < cl_limit s" "cv_top s' = cv_top s + 1" "cv_bottom s' = cv_bottom s" "cv_arrays s' = cv_arrays s" "cv_array s' = cv_array s"
    "cv_owner s' = cv_owner s"
  shows "owner_ok s'"
  using assms by (auto simp: cl_states split: owner_pc.splits if_splits)

lemma steal_step_inv:
  assumes "steal_step i s s'" "cl_inv s"
  shows "cl_inv s'"
  using assms
proof (cases rule: steal_step.cases)
  case steal_top
  then show ?thesis using assms(2) inv_thief_moves [of s] by (simp add: thief_ok_def cl_inv_def cl_memory_def)
next
  case (steal_empty t)
  then show ?thesis using assms(2) inv_thief_moves [of s] by (simp add: thief_ok_def)
next
  case (steal_bottom t)
  then have "0 \<le> t" "t \<le> cv_top s" "owner_ok s" using assms(2) by (auto simp: cl_inv_def thief_ok_def dest: spec [of _ i])
  moreover have "t = cv_top s \<longrightarrow> t < cl_limit s" using steal_bottom(3) \<open>owner_ok s\<close> by (auto simp: cl_states split: owner_pc.splits)
  ultimately show ?thesis using steal_bottom(1) assms(2) inv_thief_moves [of s "TfBottom t"] by (simp add: thief_ok_def)
next
  case (steal_array t)
  then have "thief_ok s (TfBottom t)" "cv_array s < length (cv_arrays s)" using assms(2) by (auto simp: cl_inv_def cl_memory_def dest: spec [of _ i])
  then show ?thesis using steal_array(1) assms(2) inv_thief_moves [of s "TfArray t (cv_array s)"] by (simp add: thief_ok_def)
next
  case (steal_value t a)
  then have "thief_ok s (TfArray t a)" using assms(2) by (auto simp: cl_inv_def dest: spec [of _ i])
  then show ?thesis using steal_value(1) assms(2) inv_thief_moves [of s "TfValue t (da_load (cv_arrays s ! a) t)"] by (simp add: thief_ok_def)
next
  case (steal_cas t v)
  have "thief_ok s (TfValue t v)" using assms(2) steal_cas(2) by (auto simp: cl_inv_def dest: spec [of _ i])
  then have o: "cv_top s < cl_limit s" "v = da_load (cl_cur s) (cv_top s)" "owner_ok s" using steal_cas(3) assms(2) by (auto simp: thief_ok_def cl_inv_def)
  then have lt: "cv_top s < cl_end s" using cl_limit_le by fastforce
  have s': "cv_top s' = cv_top s + 1" "cv_bottom s' = cv_bottom s" "cv_arrays s' = cv_arrays s" "cv_array s' = cv_array s" "cv_owner s' = cv_owner s"
      "cv_thief s' = (cv_thief s)(i := TfIdle)" "cv_trace s' = cv_trace s @ [Stolen v]"
    using steal_cas(1,3) by (simp_all add: thief_at_def)
  have e: "cl_end s' = cl_end s" by (simp add: cl_end_def s')
  show ?thesis
  proof (rule cl_invI)
    show "cl_memory s'" using assms(2) lt e s' by (simp add: cl_inv_def cl_memory_def)
    show "owner_ok s'" by (rule owner_ok_taken [OF o(3,1) s'(1-5)])
    show "thief_ok s' (cv_thief s' j)" for j
      using thief_ok_later [of s s' "cv_thief s j"] assms(2) s' by (simp add: cl_inv_def) (simp add: thief_ok_def)
    have "[cv_top s..cl_end s - 1] = cv_top s # [cv_top s + 1..cl_end s - 1]" using lt by (intro upto_rec1) simp
    then have "cl_contents s = v # cl_contents s'" using e o(2) s' by (simp add: cl_contents_def)
    then show "deque_run (cv_trace s') [] = Some (cl_contents s')"
      using deque_run_snoc [of "cv_trace s" "[]" "cl_contents s" "Stolen v"] assms(2) s' by (simp add: cl_inv_def)
  qed
next
  case (steal_cas_fail t v)
  then show ?thesis using assms(2) inv_thief_moves [of s] by (simp add: thief_ok_def)
qed

lemma cl_reach_inv: "cl_reach junk cap s \<Longrightarrow> cl_inv s"
  by (induction rule: cl_reach.induct) (erule cl_inv_new, erule (1) push_step_inv, erule (1) pop_step_inv, erule (1) steal_step_inv)

section \<open>Results\<close>

fun pushed_values :: "'a deque_event list \<Rightarrow> 'a list" where
  "pushed_values [] = []"
| "pushed_values (Pushed v # es) = v # pushed_values es"
| "pushed_values (_ # es) = pushed_values es"

fun taken_values :: "'a deque_event list \<Rightarrow> 'a list" where
  "taken_values [] = []"
| "taken_values (Pushed v # es) = taken_values es"
| "taken_values (Popped v # es) = v # taken_values es"
| "taken_values (Stolen v # es) = v # taken_values es"

lemma deque_run_mset: "deque_run es q = Some q' \<Longrightarrow> mset q + mset (pushed_values es) = mset q' + mset (taken_values es)"
proof (induction es arbitrary: q)
  case (Cons e es)
  then obtain r where r: "deque_do e q = Some r" "deque_run es r = Some q'" by (auto split: option.splits)
  note IH = Cons.IH [OF r(2)]
  show ?case
  proof (cases e)
    case (Pushed v)
    then show ?thesis using r(1) IH by (auto simp: ac_simps)
  next
    case (Popped v)
    then have q: "q = r @ [v]" using r(1) by (auto split: if_splits)
    then show ?thesis using Popped IH by (simp add: ac_simps)
  next
    case (Stolen v)
    then have q: "q = v # r" using r(1) by (auto split: if_splits)
    then show ?thesis using Stolen IH by simp
  qed
qed simp

text \<open>What \<open>pop\<close> returns after losing a race or finding nothing is no element: its trace has no event. Once the owner is idle,
  \<open>size\<close> is the number of live elements.\<close>

lemma cl_size_idle:
  assumes "cl_reach junk cap s" "cv_owner s = DIdle"
  shows "cl_size s = length (cl_contents s)"
  using cl_reach_inv [OF assms(1)] assms(2) by (simp add: cl_size_def cl_contents_def cl_end_def cl_inv_def cl_memory_def)

text \<open>A schedule: the owner's next access, starting a push of \<open>v\<close> or a \<open>pop\<close> when it is idle, or a thief's.\<close>

datatype 'a turn = Owner "'a option" | Thief nat

definition push_next :: "'a \<Rightarrow> 'a chase_lev \<Rightarrow> 'a chase_lev" where
  "push_next junk s = (case cv_owner s of
      DPushB v b \<Rightarrow> s\<lparr>cv_owner := DPushT v b (cv_top s)\<rparr>
    | DPushT v b t \<Rightarrow> if 0 \<le> b - t \<and> b - t < int (length (cl_cur s)) then s\<lparr>cv_owner := DPushA v b (cv_array s)\<rparr>
        else s\<lparr>cv_arrays := cv_arrays s @ [da_grow junk (cl_cur s) t b], cv_owner := DPushNew v b (length (cv_arrays s))\<rparr>
    | DPushNew v b a \<Rightarrow> s\<lparr>cv_array := a, cv_owner := DPushA v b a\<rparr>
    | DPushA v b a \<Rightarrow> s\<lparr>cv_arrays := (cv_arrays s)[a := da_store b v (cv_arrays s ! a)], cv_owner := DPushS v b\<rparr>
    | DPushS v b \<Rightarrow> s\<lparr>cv_bottom := b + 1, cv_owner := DIdle, cv_trace := cv_trace s @ [Pushed v]\<rparr>
    | _ \<Rightarrow> s)"

definition pop_next :: "'a chase_lev \<Rightarrow> 'a chase_lev" where
  "pop_next s = (case cv_owner s of
      DPopB b \<Rightarrow> s\<lparr>cv_owner := DPopA b (cv_array s)\<rparr>
    | DPopA b a \<Rightarrow> s\<lparr>cv_bottom := b, cv_owner := DPopS b a\<rparr>
    | DPopS b a \<Rightarrow> s\<lparr>cv_owner := DPopT b a (cv_top s)\<rparr>
    | DPopT b a t \<Rightarrow> if t > b then s\<lparr>cv_bottom := b + 1, cv_owner := DIdle\<rparr> else s\<lparr>cv_owner := DPopV b t (da_load (cv_arrays s ! a) b)\<rparr>
    | DPopV b t v \<Rightarrow> if t \<noteq> b then s\<lparr>cv_owner := DIdle, cv_trace := cv_trace s @ [Popped v]\<rparr>
        else if cv_top s = t then s\<lparr>cv_top := t + 1, cv_owner := DPopWon b v, cv_trace := cv_trace s @ [Popped v]\<rparr>
        else s\<lparr>cv_owner := DPopLost b\<rparr>
    | DPopWon b v \<Rightarrow> s\<lparr>cv_bottom := b + 1, cv_owner := DIdle\<rparr>
    | DPopLost b \<Rightarrow> s\<lparr>cv_bottom := b + 1, cv_owner := DIdle\<rparr>
    | _ \<Rightarrow> s)"

definition steal_next :: "nat \<Rightarrow> 'a chase_lev \<Rightarrow> 'a chase_lev" where
  "steal_next i s = (case cv_thief s i of
      TfIdle \<Rightarrow> thief_at i (TfTop (cv_top s)) s
    | TfTop t \<Rightarrow> thief_at i (if t \<ge> cv_bottom s then TfIdle else TfBottom t) s
    | TfBottom t \<Rightarrow> thief_at i (TfArray t (cv_array s)) s
    | TfArray t a \<Rightarrow> thief_at i (TfValue t (da_load (cv_arrays s ! a) t)) s
    | TfValue t v \<Rightarrow> if cv_top s = t then (thief_at i TfIdle s)\<lparr>cv_top := t + 1, cv_trace := cv_trace s @ [Stolen v]\<rparr> else thief_at i TfIdle s)"

fun cl_next :: "'a \<Rightarrow> 'a turn \<Rightarrow> 'a chase_lev \<Rightarrow> 'a chase_lev" where
  "cl_next junk (Thief i) s = steal_next i s"
| "cl_next junk (Owner oper) s = (case cv_owner s of
      DIdle \<Rightarrow> (case oper of Some v \<Rightarrow> s\<lparr>cv_owner := DPushB v (cv_bottom s)\<rparr> | None \<Rightarrow> s\<lparr>cv_owner := DPopB (cv_bottom s - 1)\<rparr>)
    | _ \<Rightarrow> pop_next (push_next junk s))"

lemma push_next_step: "push_step junk s (push_next junk s) \<or> push_next junk s = s"
  by (cases "cv_owner s") (auto simp: push_next_def intro: push_step.intros)

lemma pop_next_step: "pop_step s (pop_next s) \<or> pop_next s = s"
  by (cases "cv_owner s") (auto simp: pop_next_def intro: pop_step.intros)

lemma steal_next_step: "steal_step i s (steal_next i s)"
proof (cases "cv_thief s i")
  case (TfTop t)
  then show ?thesis using steal_empty [OF TfTop] steal_bottom [OF TfTop] by (simp add: steal_next_def)
qed (auto simp: steal_next_def intro: steal_step.intros)

lemma cl_next_reach:
  assumes "cl_reach junk cap s"
  shows "cl_reach junk cap (cl_next junk x s)"
proof (cases x)
  case (Thief i)
  then show ?thesis using cl_steal [OF assms steal_next_step] by simp
next
  case (Owner oper)
  have "cl_reach junk cap (push_next junk s)" using push_next_step [of junk s] assms cl_push by metis
  then have "cl_reach junk cap (pop_next (push_next junk s))" using pop_next_step [of "push_next junk s"] cl_pop by metis
  moreover have "cv_owner s = DIdle \<Longrightarrow> cl_reach junk cap (s\<lparr>cv_owner := DPushB v (cv_bottom s)\<rparr>)" for v by (rule cl_push [OF assms push_bottom])
  moreover have "cv_owner s = DIdle \<Longrightarrow> cl_reach junk cap (s\<lparr>cv_owner := DPopB (cv_bottom s - 1)\<rparr>)" by (rule cl_pop [OF assms pop_bottom])
  ultimately show ?thesis using Owner by (auto split: owner_pc.splits option.splits)
qed

lemma cl_run_reach: "cl_reach junk cap s \<Longrightarrow> cl_reach junk cap (fold (cl_next junk) xs s)"
  by (induction xs arbitrary: s) (auto intro: cl_next_reach)

text \<open>
  C11. The deque is linearizable: in every interleaving of the owner's \<open>push\<close> and \<open>pop\<close> with any number of thieves, the operations
  that took effect form a run of a double-ended queue, \<open>push\<close> and \<open>pop\<close> at the back and \<open>steal\<close> at the front, whose contents
  are those of the array between the indices. So no element is lost or returned twice, through growth included.
\<close>

theorem chase_lev_linearizable:
  assumes "cl_reach junk cap s"
  shows "deque_run (cv_trace s) [] = Some (cl_contents s) \<and>
    mset (pushed_values (cv_trace s)) = mset (cl_contents s) + mset (taken_values (cv_trace s))"
  using cl_reach_inv [OF assms] deque_run_mset [of "cv_trace s" "[]" "cl_contents s"] by (simp add: cl_inv_def)

text \<open>A deque of capacity one grows for the second element; a thief that read the first one before the growth still gets it.\<close>

definition deque_example :: "nat chase_lev" where
  "deque_example = fold (cl_next 0) (replicate 5 (Owner (Some 7)) @ replicate 4 (Thief 0) @ replicate 6 (Owner (Some 8)) @ [Thief 0])
     (the (cl_new 0 1))"

theorem chase_lev_linearizable_witness:
  "cl_reach 0 1 deque_example \<and> cl_contents deque_example = [8] \<and> cv_trace deque_example = [Pushed 7, Pushed 8, Stolen 7] \<and>
   mset (pushed_values (cv_trace deque_example)) = {#8#} + mset (taken_values (cv_trace deque_example))"
proof -
  have "cl_reach 0 1 (the (cl_new (0 :: nat) 1))" by (rule cl_start) (simp add: cl_new_def da_new_def)
  then have r: "cl_reach 0 1 deque_example" unfolding deque_example_def by (rule cl_run_reach)
  have "cl_contents deque_example = [8] \<and> cv_trace deque_example = [Pushed 7, Pushed 8, Stolen 7]"
    by (simp add: deque_example_def cl_new_def da_new_def numeral_eq_Suc push_next_def pop_next_def steal_next_def thief_at_def da_grow_def da_store_def
        da_load_def da_index_def cl_contents_def cl_end_def upto.simps)
  then show ?thesis using chase_lev_linearizable [OF r] r by auto
qed

end
