(* ===== verification/Ws_Pool.thy ===== *)
theory Ws_Pool
  imports Chase_Lev
begin

text \<open>
  \<open>foundation/ws_pool/ws_pool.h\<close>: the work-stealing pool over the Chase-Lev deques. A deque is the sequence of its contents and
  an operation on it one step, as its linearizability allows; a \<open>steal\<close> may also come back empty-handed, as it may lose its
  race. What a task does is opaque, except that it may submit tasks of its own. The inbox is guarded by its mutex, the
  counters are atomic; a sleeping worker wakes at the latest by its timeout, so sleeping is a step that changes nothing.
\<close>

section \<open>Deques\<close>

text \<open>A \<open>pop\<close> that returns nothing has seen the deque empty.\<close>

lemma pop_none_empty:
  assumes "cl_reach junk cap s" "(\<exists>b a t. cv_owner s = DPopT b a t \<and> t > b) \<or> (\<exists>b. cv_owner s = DPopLost b)"
  shows "cl_contents s = []"
  using cl_reach_inv [OF assms(1)] assms(2) by (auto simp: cl_inv_def cl_memory_def owner_ok_def cl_contents_def cl_end_def)

definition dq_push :: "'t \<Rightarrow> 't list \<Rightarrow> 't list" where
  "dq_push t q = the (deque_do (Pushed t) q)"

definition dq_pop :: "'t list \<Rightarrow> ('t \<times> 't list) option" where
  "dq_pop q = (if q = [] then None else Some (last q, the (deque_do (Popped (last q)) q)))"

definition dq_steal :: "'t list \<Rightarrow> ('t \<times> 't list) option" where
  "dq_steal q = (if q = [] then None else Some (hd q, the (deque_do (Stolen (hd q)) q)))"

lemma mset_dq_push [simp]: "mset (dq_push t q) = add_mset t (mset q)"
  by (simp add: dq_push_def)

lemma mset_dq_pop: "dq_pop q = Some (t, q') \<Longrightarrow> mset q = add_mset t (mset q')"
  by (cases q rule: rev_cases) (auto simp: dq_pop_def)

lemma mset_dq_steal: "dq_steal q = Some (t, q') \<Longrightarrow> mset q = add_mset t (mset q')"
  by (cases q) (auto simp: dq_steal_def)

lemma dq_pop_None [simp]: "dq_pop q = None \<longleftrightarrow> q = []"
  by (simp add: dq_pop_def)

section \<open>The pool\<close>

text \<open>A task, and the group that counts it when it was submitted through \<open>TaskGroup::run\<close>.\<close>

record 'f task =
  tk_fn :: 'f
  tk_group :: "nat option"

text \<open>
  Where a worker stands: in \<open>worker_loop\<close>, searching; running a task, the flag telling whether it is draining after shutdown;
  inside \<open>submit\<close> of a second task, before and after the counter; done with the task's function but not with \<open>execute\<close>.
\<close>

datatype 'f worker_pc =
    WLoop
  | WPop
  | WInbox
  | WSteal nat
  | WIdle
  | WRun bool "'f task"
  | WSubmit bool "'f task" "'f task"
  | WPush bool "'f task" "'f task"
  | WDone bool "'f task"
  | WDrain
  | WDrainInbox
  | WExit

datatype 'f caller_pc = CReady | CSubmit "'f task" | CPush "'f task"

record 'f pool =
  pl_deques :: "'f task list list"
  pl_inbox :: "'f task list"
  pl_pending :: nat
  pl_remaining :: "nat \<Rightarrow> int"
  pl_shutdown :: bool
  pl_workers :: "'f worker_pc list"
  pl_callers :: "'f caller_pc list"
  pl_called :: "'f task list"
  pl_completed :: "'f task list"

definition pool_new :: "nat \<Rightarrow> nat \<Rightarrow> 'f pool" where
  "pool_new n_threads callers =
     (let n = (if n_threads = 0 then 1 else n_threads) in
      \<lparr>pl_deques = replicate n [], pl_inbox = [], pl_pending = 0, pl_remaining = (\<lambda>g. 0), pl_shutdown = False,
       pl_workers = replicate n WLoop, pl_callers = replicate callers CReady, pl_called = [], pl_completed = []\<rparr>)"

definition worker_at :: "nat \<Rightarrow> 'f worker_pc \<Rightarrow> 'f pool \<Rightarrow> 'f pool" where
  "worker_at i pc s = s\<lparr>pl_workers := (pl_workers s)[i := pc]\<rparr>"

definition caller_at :: "nat \<Rightarrow> 'f caller_pc \<Rightarrow> 'f pool \<Rightarrow> 'f pool" where
  "caller_at i pc s = s\<lparr>pl_callers := (pl_callers s)[i := pc]\<rparr>"

definition deque_at :: "nat \<Rightarrow> 'f task list \<Rightarrow> 'f pool \<Rightarrow> 'f pool" where
  "deque_at i q s = s\<lparr>pl_deques := (pl_deques s)[i := q]\<rparr>"

text \<open>\<open>TaskGroup::run\<close> counts the task before it submits it; a plain \<open>submit\<close> has no group.\<close>

definition group_add :: "'f task \<Rightarrow> int \<Rightarrow> 'f pool \<Rightarrow> 'f pool" where
  "group_add t k s = (case tk_group t of None \<Rightarrow> s | Some g \<Rightarrow> s\<lparr>pl_remaining := (pl_remaining s)(g := pl_remaining s g + k)\<rparr>)"

definition call_submit :: "'f task \<Rightarrow> 'f pool \<Rightarrow> 'f pool" where
  "call_submit t s = (group_add t 1 s)\<lparr>pl_called := pl_called s @ [t]\<rparr>"

inductive submit_step :: "nat \<Rightarrow> 'f pool \<Rightarrow> 'f pool \<Rightarrow> bool" for i where
  caller_call: "i < length (pl_callers s) \<Longrightarrow> pl_callers s ! i = CReady \<Longrightarrow> \<not> pl_shutdown s \<Longrightarrow> submit_step i s (caller_at i (CSubmit t) (call_submit t s))"
| caller_count: "i < length (pl_callers s) \<Longrightarrow> pl_callers s ! i = CSubmit t \<Longrightarrow> submit_step i s ((caller_at i (CPush t) s)\<lparr>pl_pending := pl_pending s + 1\<rparr>)"
| caller_push: "i < length (pl_callers s) \<Longrightarrow> pl_callers s ! i = CPush t \<Longrightarrow> submit_step i s ((caller_at i CReady s)\<lparr>pl_inbox := pl_inbox s @ [t]\<rparr>)"

text \<open>\<open>worker_loop\<close>, \<open>try_steal\<close> and \<open>execute\<close> of worker \<open>i\<close>.\<close>

inductive pool_step :: "nat \<Rightarrow> 'f pool \<Rightarrow> 'f pool \<Rightarrow> bool" for i where
  wk_loop: "i < length (pl_workers s) \<Longrightarrow> pl_workers s ! i = WLoop \<Longrightarrow> pool_step i s (worker_at i (if pl_shutdown s then WDrain else WPop) s)"
| wk_pop: "i < length (pl_workers s) \<Longrightarrow> pl_workers s ! i = WPop \<Longrightarrow> dq_pop (pl_deques s ! i) = Some (t, q) \<Longrightarrow>
    pool_step i s (worker_at i (WRun False t) (deque_at i q s))"
| wk_pop_none: "i < length (pl_workers s) \<Longrightarrow> pl_workers s ! i = WPop \<Longrightarrow> dq_pop (pl_deques s ! i) = None \<Longrightarrow> pool_step i s (worker_at i WInbox s)"
| wk_inbox: "i < length (pl_workers s) \<Longrightarrow> pl_workers s ! i = WInbox \<Longrightarrow> pl_inbox s \<noteq> [] \<Longrightarrow>
    pool_step i s ((worker_at i (WRun False (last (pl_inbox s))) s)\<lparr>pl_inbox := butlast (pl_inbox s)\<rparr>)"
| wk_inbox_none: "i < length (pl_workers s) \<Longrightarrow> pl_workers s ! i = WInbox \<Longrightarrow> pool_step i s (worker_at i (WSteal 1) s)"
| wk_steal: "i < length (pl_workers s) \<Longrightarrow> pl_workers s ! i = WSteal k \<Longrightarrow> k < length (pl_workers s) \<Longrightarrow> victim = (i + k) mod length (pl_workers s) \<Longrightarrow>
    dq_steal (pl_deques s ! victim) = Some (t, q) \<Longrightarrow> pool_step i s (worker_at i (WRun False t) (deque_at victim q s))"
| wk_steal_none: "i < length (pl_workers s) \<Longrightarrow> pl_workers s ! i = WSteal k \<Longrightarrow> k < length (pl_workers s) \<Longrightarrow> pool_step i s (worker_at i (WSteal (k + 1)) s)"
| wk_no_work: "i < length (pl_workers s) \<Longrightarrow> pl_workers s ! i = WSteal k \<Longrightarrow> \<not> k < length (pl_workers s) \<Longrightarrow> pool_step i s (worker_at i WIdle s)"
| wk_wake: "i < length (pl_workers s) \<Longrightarrow> pl_workers s ! i = WIdle \<Longrightarrow> pool_step i s (worker_at i WLoop s)"
| wk_call: "i < length (pl_workers s) \<Longrightarrow> pl_workers s ! i = WRun d t \<Longrightarrow> pool_step i s (worker_at i (WSubmit d t u) (call_submit u s))"
| wk_count: "i < length (pl_workers s) \<Longrightarrow> pl_workers s ! i = WSubmit d t u \<Longrightarrow> pool_step i s ((worker_at i (WPush d t u) s)\<lparr>pl_pending := pl_pending s + 1\<rparr>)"
| wk_push: "i < length (pl_workers s) \<Longrightarrow> pl_workers s ! i = WPush d t u \<Longrightarrow> pool_step i s (worker_at i (WRun d t) (deque_at i (dq_push u (pl_deques s ! i)) s))"
| wk_fn_done: "i < length (pl_workers s) \<Longrightarrow> pl_workers s ! i = WRun d t \<Longrightarrow>
    pool_step i s ((worker_at i (WDone d t) (group_add t (- 1) s))\<lparr>pl_completed := pl_completed s @ [t]\<rparr>)"
| wk_done: "i < length (pl_workers s) \<Longrightarrow> pl_workers s ! i = WDone d t \<Longrightarrow>
    pool_step i s ((worker_at i (if d then WDrain else WLoop) s)\<lparr>pl_pending := pl_pending s - 1\<rparr>)"
| wk_drain: "i < length (pl_workers s) \<Longrightarrow> pl_workers s ! i = WDrain \<Longrightarrow> dq_pop (pl_deques s ! i) = Some (t, q) \<Longrightarrow>
    pool_step i s (worker_at i (WRun True t) (deque_at i q s))"
| wk_drain_none: "i < length (pl_workers s) \<Longrightarrow> pl_workers s ! i = WDrain \<Longrightarrow> dq_pop (pl_deques s ! i) = None \<Longrightarrow> pool_step i s (worker_at i WDrainInbox s)"
| wk_drain_inbox: "i < length (pl_workers s) \<Longrightarrow> pl_workers s ! i = WDrainInbox \<Longrightarrow> pl_inbox s \<noteq> [] \<Longrightarrow>
    pool_step i s ((worker_at i (WRun True (last (pl_inbox s))) s)\<lparr>pl_inbox := butlast (pl_inbox s)\<rparr>)"
| wk_exit: "i < length (pl_workers s) \<Longrightarrow> pl_workers s ! i = WDrainInbox \<Longrightarrow> pl_inbox s = [] \<Longrightarrow> pool_step i s (worker_at i WExit s)"

text \<open>The destructor sets the flag; its caller must not let it overlap with calls of \<open>submit\<close> from outside the pool.\<close>

definition pool_shutdown :: "'f pool \<Rightarrow> 'f pool" where
  "pool_shutdown s = s\<lparr>pl_shutdown := True\<rparr>"

text \<open>The predicates \<open>wait\<close> blocks on.\<close>

definition pool_wait :: "'f pool \<Rightarrow> bool" where
  "pool_wait s \<longleftrightarrow> pl_pending s = 0"

definition group_wait :: "nat \<Rightarrow> 'f pool \<Rightarrow> bool" where
  "group_wait g s \<longleftrightarrow> pl_remaining s g = 0"

inductive pool_reach :: "nat \<Rightarrow> nat \<Rightarrow> 'f pool \<Rightarrow> bool" for n m where
  pool_start: "pool_reach n m (pool_new n m)"
| pool_caller: "pool_reach n m s \<Longrightarrow> submit_step i s s' \<Longrightarrow> pool_reach n m s'"
| pool_worker: "pool_reach n m s \<Longrightarrow> pool_step i s s' \<Longrightarrow> pool_reach n m s'"
| pool_destroy: "pool_reach n m s \<Longrightarrow> list_all (\<lambda>c. c = CReady) (pl_callers s) \<Longrightarrow> pool_reach n m (pool_shutdown s)"

section \<open>Accounting\<close>

text \<open>The tasks a thread holds that are called and not completed, and how many of what it holds the counter includes.\<close>

fun w_todo :: "'f worker_pc \<Rightarrow> 'f task multiset" where
  "w_todo (WRun d t) = {#t#}"
| "w_todo (WSubmit d t u) = {#t, u#}"
| "w_todo (WPush d t u) = {#t, u#}"
| "w_todo _ = {#}"

fun w_pend :: "'f worker_pc \<Rightarrow> nat" where
  "w_pend (WRun d t) = 1"
| "w_pend (WSubmit d t u) = 1"
| "w_pend (WPush d t u) = 2"
| "w_pend (WDone d t) = 1"
| "w_pend _ = 0"

fun c_todo :: "'f caller_pc \<Rightarrow> 'f task multiset" where
  "c_todo CReady = {#}"
| "c_todo (CSubmit t) = {#t#}"
| "c_todo (CPush t) = {#t#}"

fun c_pend :: "'f caller_pc \<Rightarrow> nat" where
  "c_pend (CPush t) = 1"
| "c_pend _ = 0"

definition pool_todo :: "'f pool \<Rightarrow> 'f task multiset" where
  "pool_todo s = sum_list (map mset (pl_deques s)) + mset (pl_inbox s) + sum_list (map w_todo (pl_workers s)) + sum_list (map c_todo (pl_callers s))"

definition pool_counted :: "'f pool \<Rightarrow> nat" where
  "pool_counted s = size (sum_list (map mset (pl_deques s))) + length (pl_inbox s) + sum_list (map w_pend (pl_workers s)) + sum_list (map c_pend (pl_callers s))"

definition in_group :: "nat \<Rightarrow> 'f task multiset \<Rightarrow> int" where
  "in_group g M = int (size (filter_mset (\<lambda>t. tk_group t = Some g) M))"

definition pool_acct :: "'f pool \<Rightarrow> bool" where
  "pool_acct s \<longleftrightarrow> length (pl_deques s) = length (pl_workers s) \<and> mset (pl_called s) = mset (pl_completed s) + pool_todo s \<and>
     pl_pending s = pool_counted s \<and> (\<forall>g. pl_remaining s g = in_group g (pool_todo s))"

lemma pool_acctI:
  "length (pl_deques s) = length (pl_workers s) \<Longrightarrow> mset (pl_called s) = mset (pl_completed s) + pool_todo s \<Longrightarrow> pl_pending s = pool_counted s \<Longrightarrow>
    (\<And>g. pl_remaining s g = in_group g (pool_todo s)) \<Longrightarrow> pool_acct s"
  by (simp add: pool_acct_def)

lemma in_group_simps [simp]:
  "in_group g {#} = 0" "in_group g (add_mset t M) = in_group g M + (if tk_group t = Some g then 1 else 0)" "in_group g (M + N) = in_group g M + in_group g N"
  by (simp_all add: in_group_def)

lemma sum_list_update:
  fixes f :: "'x \<Rightarrow> 'b :: comm_monoid_add"
  assumes "i < length xs"
  obtains S where "sum_list (map f xs) = f (xs ! i) + S" "\<And>y. sum_list (map f (xs[i := y])) = f y + S"
proof
  let ?S = "sum_list (map f (take i xs)) + sum_list (map f (drop (Suc i) xs))"
  have "sum_list (map f (take i xs @ y # drop (Suc i) xs)) = f y + ?S" for y by (simp add: ac_simps)
  then show "sum_list (map f xs) = f (xs ! i) + ?S" "\<And>y. sum_list (map f (xs[i := y])) = f y + ?S"
    using id_take_nth_drop [OF assms] upd_conv_take_nth_drop [OF assms] by metis+
qed

lemma group_add_simps [simp]:
  "pl_deques (group_add t k s) = pl_deques s" "pl_inbox (group_add t k s) = pl_inbox s" "pl_pending (group_add t k s) = pl_pending s"
  "pl_workers (group_add t k s) = pl_workers s" "pl_callers (group_add t k s) = pl_callers s" "pl_called (group_add t k s) = pl_called s"
  "pl_completed (group_add t k s) = pl_completed s" "pl_shutdown (group_add t k s) = pl_shutdown s"
  "pl_remaining (group_add t k s) g = pl_remaining s g + (if tk_group t = Some g then k else 0)"
  by (simp_all add: group_add_def split: option.splits)

lemmas pool_updates = worker_at_def caller_at_def deque_at_def call_submit_def

lemmas pool_sums = pool_todo_def pool_counted_def pool_updates

lemma submit_step_acct:
  assumes "submit_step i s s'" "pool_acct s"
  shows "pool_acct s'"
proof -
  have i: "i < length (pl_callers s)" using assms(1) by cases
  obtain C where C: "sum_list (map c_todo (pl_callers s)) = c_todo (pl_callers s ! i) + C" "\<And>y. sum_list (map c_todo ((pl_callers s)[i := y])) = c_todo y + C"
    using sum_list_update [OF i, where f = c_todo] by blast
  obtain P where P: "sum_list (map c_pend (pl_callers s)) = c_pend (pl_callers s ! i) + P" "\<And>y. sum_list (map c_pend ((pl_callers s)[i := y])) = c_pend y + P"
    using sum_list_update [OF i, where f = c_pend] by blast
  from assms(1) show ?thesis
    by cases (use assms(2) in \<open>simp_all add: pool_acct_def pool_sums C P ac_simps\<close>)
qed

lemma pool_step_acct:
  assumes "pool_step i s s'" "pool_acct s"
  shows "pool_acct s'"
proof -
  have i: "i < length (pl_workers s)" using assms(1) by cases
  obtain W where W: "sum_list (map w_todo (pl_workers s)) = w_todo (pl_workers s ! i) + W" "\<And>y. sum_list (map w_todo ((pl_workers s)[i := y])) = w_todo y + W"
    using sum_list_update [OF i, where f = w_todo] by blast
  obtain P where P: "sum_list (map w_pend (pl_workers s)) = w_pend (pl_workers s ! i) + P" "\<And>y. sum_list (map w_pend ((pl_workers s)[i := y])) = w_pend y + P"
    using sum_list_update [OF i, where f = w_pend] by blast
  have d: "\<exists>D. sum_list (map mset (pl_deques s)) = mset (pl_deques s ! v) + D \<and> (\<forall>y. sum_list (map mset ((pl_deques s)[v := y])) = mset y + D)"
    if "v < length (pl_workers s)" for v
    using sum_list_update [of v "pl_deques s" mset] assms(2) that unfolding pool_acct_def by metis
  obtain D where D: "sum_list (map mset (pl_deques s)) = mset (pl_deques s ! i) + D" "\<And>y. sum_list (map mset ((pl_deques s)[i := y])) = mset y + D" using d [OF i] by blast
  have keep: "pool_acct (worker_at i pc s)" if "w_todo pc = w_todo (pl_workers s ! i)" "w_pend pc = w_pend (pl_workers s ! i)" for pc
    using assms(2) that by (simp add: pool_acct_def pool_sums W P)
  from assms(1) show ?thesis
  proof cases
    case (wk_pop t q)
    then show ?thesis using assms(2) mset_dq_pop [OF wk_pop(4)] by (simp add: pool_acct_def pool_sums W P D ac_simps)
  next
    case (wk_drain t q)
    then show ?thesis using assms(2) mset_dq_pop [OF wk_drain(4)] by (simp add: pool_acct_def pool_sums W P D ac_simps)
  next
    case (wk_steal k v t q)
    have "v < length (pl_workers s)" unfolding wk_steal(5) by (rule mod_less_divisor) (use i in linarith)
    then obtain E where E: "sum_list (map mset (pl_deques s)) = mset (pl_deques s ! v) + E" "\<And>y. sum_list (map mset ((pl_deques s)[v := y])) = mset y + E" using d by blast
    have s': "pl_deques s' = (pl_deques s)[v := q]" "pl_workers s' = (pl_workers s)[i := WRun False t]" "pl_inbox s' = pl_inbox s" "pl_callers s' = pl_callers s"
        "pl_pending s' = pl_pending s" "pl_remaining s' = pl_remaining s" "pl_called s' = pl_called s" "pl_completed s' = pl_completed s"
      using wk_steal(1) by (simp_all add: pool_updates)
    have "pool_todo s' = pool_todo s" unfolding pool_todo_def s' W E wk_steal(3) mset_dq_steal [OF wk_steal(6)] by simp
    moreover have "pool_counted s' = pool_counted s" unfolding pool_counted_def s' P E wk_steal(3) mset_dq_steal [OF wk_steal(6)] by simp
    ultimately show ?thesis using assms(2) s' by (simp add: pool_acct_def)
  next
    case wk_inbox
    then obtain b t where "pl_inbox s = b @ [t]" by (cases "pl_inbox s" rule: rev_cases) auto
    then show ?thesis using assms(2) wk_inbox by (simp add: pool_acct_def pool_sums W P ac_simps)
  next
    case wk_drain_inbox
    then obtain b t where "pl_inbox s = b @ [t]" by (cases "pl_inbox s" rule: rev_cases) auto
    then show ?thesis using assms(2) wk_drain_inbox by (simp add: pool_acct_def pool_sums W P ac_simps)
  next
    case (wk_call d t u)
    then show ?thesis using assms(2) by (simp add: pool_acct_def pool_sums W P ac_simps)
  next
    case (wk_count d t u)
    then show ?thesis using assms(2) by (simp add: pool_acct_def pool_sums W P ac_simps)
  next
    case (wk_push d t u)
    then show ?thesis using assms(2) by (simp add: pool_acct_def pool_sums W P D ac_simps)
  next
    case (wk_fn_done d t)
    then show ?thesis using assms(2) by (simp add: pool_acct_def pool_sums W P ac_simps)
  next
    case (wk_done d t)
    then show ?thesis using assms(2) by (simp add: pool_acct_def pool_sums W P ac_simps)
  qed (simp_all add: keep)
qed

section \<open>Shutdown\<close>

fun w_draining :: "'f worker_pc \<Rightarrow> bool" where
  "w_draining WDrain = True"
| "w_draining WDrainInbox = True"
| "w_draining WExit = True"
| "w_draining (WRun d t) = d"
| "w_draining (WSubmit d t u) = d"
| "w_draining (WPush d t u) = d"
| "w_draining (WDone d t) = d"
| "w_draining _ = False"

text \<open>A worker that has seen its deque empty after shutdown keeps it empty; one that exits has seen the inbox empty, for good.\<close>

definition pool_quiet :: "'f pool \<Rightarrow> bool" where
  "pool_quiet s \<longleftrightarrow> length (pl_deques s) = length (pl_workers s) \<and> (pl_shutdown s \<longrightarrow> list_all (\<lambda>c. c = CReady) (pl_callers s)) \<and>
     (\<forall>i < length (pl_workers s). (w_draining (pl_workers s ! i) \<longrightarrow> pl_shutdown s) \<and>
        (pl_workers s ! i \<in> {WDrainInbox, WExit} \<longrightarrow> pl_deques s ! i = []) \<and> (pl_workers s ! i = WExit \<longrightarrow> pl_inbox s = []))"

lemma pool_quiet_callers: "pool_quiet s \<Longrightarrow> pl_shutdown s \<Longrightarrow> i < length (pl_callers s) \<Longrightarrow> pl_callers s ! i = CReady"
  by (simp add: pool_quiet_def list_all_length)

lemma pool_quiet_no_exit: "pool_quiet s \<Longrightarrow> \<not> pl_shutdown s \<Longrightarrow> i < length (pl_workers s) \<Longrightarrow> pl_workers s ! i \<noteq> WExit"
  by (auto simp: pool_quiet_def)

lemma submit_step_quiet:
  assumes "submit_step i s s'" "pool_quiet s"
  shows "pool_quiet s'"
proof -
  have ns: "\<not> pl_shutdown s" using assms(1)
  proof cases
    case (caller_count t)
    then show ?thesis using pool_quiet_callers [OF assms(2), of i] by auto
  next
    case (caller_push t)
    then show ?thesis using pool_quiet_callers [OF assms(2), of i] by auto
  qed simp
  note ne = pool_quiet_no_exit [OF assms(2) ns]
  from assms(1) show ?thesis
    by cases (use assms(2) ns ne in \<open>simp_all add: pool_quiet_def pool_updates\<close>)
qed

text \<open>Worker \<open>i\<close> moves; the deque of another worker can only lose its first element.\<close>

lemma pool_step_frame:
  assumes "pool_step i s s'"
  shows "length (pl_workers s') = length (pl_workers s)" "length (pl_deques s') = length (pl_deques s)" "pl_callers s' = pl_callers s" "pl_shutdown s' = pl_shutdown s"
    "\<And>j. j \<noteq> i \<Longrightarrow> pl_workers s' ! j = pl_workers s ! j" "\<And>j. j \<noteq> i \<Longrightarrow> pl_deques s ! j = [] \<Longrightarrow> pl_deques s' ! j = []" "pl_inbox s = [] \<Longrightarrow> pl_inbox s' = []"
proof -
  show "length (pl_workers s') = length (pl_workers s)" "length (pl_deques s') = length (pl_deques s)" "pl_callers s' = pl_callers s" "pl_shutdown s' = pl_shutdown s"
    using assms by (cases; simp add: pool_updates)+
  show "pl_workers s' ! j = pl_workers s ! j" if "j \<noteq> i" for j using assms that by cases (simp_all add: pool_updates)
  show "pl_inbox s' = []" if "pl_inbox s = []" using assms that by cases (simp_all add: pool_updates)
  show "pl_deques s' ! j = []" if "j \<noteq> i" "pl_deques s ! j = []" for j using assms
  proof cases
    case (wk_steal k v t q)
    then have "v \<noteq> j" using that(2) by (auto simp: dq_steal_def)
    then show ?thesis using wk_steal(1) that by (simp add: pool_updates)
  qed (use that in \<open>simp_all add: pool_updates\<close>)
qed

lemma pool_step_self:
  assumes "pool_step i s s'" "pool_quiet s"
  shows "(w_draining (pl_workers s' ! i) \<longrightarrow> pl_shutdown s) \<and> (pl_workers s' ! i \<in> {WDrainInbox, WExit} \<longrightarrow> pl_deques s' ! i = []) \<and>
    (pl_workers s' ! i = WExit \<longrightarrow> pl_inbox s' = [])"
proof -
  have i: "i < length (pl_workers s)" using assms(1) by cases
  then have q: "w_draining (pl_workers s ! i) \<longrightarrow> pl_shutdown s" "pl_workers s ! i = WDrainInbox \<longrightarrow> pl_deques s ! i = []"
    using assms(2) by (auto simp: pool_quiet_def)
  from assms(1) show ?thesis by cases (use q i in \<open>simp_all add: pool_updates\<close>)
qed

lemma pool_step_quiet:
  assumes "pool_step i s s'" "pool_quiet s"
  shows "pool_quiet s'"
proof -
  note f = pool_step_frame [OF assms(1)] and self = pool_step_self [OF assms]
  have "(w_draining (pl_workers s' ! j) \<longrightarrow> pl_shutdown s) \<and> (pl_workers s' ! j \<in> {WDrainInbox, WExit} \<longrightarrow> pl_deques s' ! j = []) \<and>
      (pl_workers s' ! j = WExit \<longrightarrow> pl_inbox s' = [])" if "j < length (pl_workers s)" for j
  proof (cases "j = i")
    case False
    then show ?thesis using f(5,6) [OF False] f(7) assms(2) that unfolding pool_quiet_def by auto
  qed (use self in simp)
  then show ?thesis using assms(2) f(1-4) unfolding pool_quiet_def by simp
qed

lemma pool_reach_inv: "pool_reach n m s \<Longrightarrow> pool_acct s \<and> pool_quiet s"
proof (induction rule: pool_reach.induct)
  case pool_start
  have "sum_list (replicate k {#}) = ({#} :: 'a task multiset)" "sum_list (replicate k 0) = (0 :: nat)" for k by (induction k) auto
  then show ?case by (simp add: pool_new_def Let_def pool_acct_def pool_quiet_def pool_todo_def pool_counted_def list_all_length map_replicate_const del: sum_list_replicate)
next
  case (pool_caller s i s')
  then show ?case using submit_step_acct submit_step_quiet by blast
next
  case (pool_worker s i s')
  then show ?case using pool_step_acct pool_step_quiet by blast
next
  case (pool_destroy s)
  then show ?case by (auto simp: pool_acct_def pool_quiet_def pool_shutdown_def pool_todo_def pool_counted_def)
qed

section \<open>Results\<close>

lemma counted_zero:
  assumes "pool_counted s = 0" "\<forall>t. CSubmit t \<notin> set (pl_callers s)"
  shows "pool_todo s = {#}"
proof -
  have "w_pend pc = 0 \<Longrightarrow> w_todo pc = {#}" for pc :: "'a worker_pc" by (cases pc) auto
  then have w: "sum_list (map w_todo ws) = {#}" if "sum_list (map w_pend ws) = 0" for ws :: "'a worker_pc list" using that by (induction ws) auto
  have "c_pend c = 0 \<Longrightarrow> (\<nexists>t. c = CSubmit t) \<Longrightarrow> c_todo c = {#}" for c :: "'a caller_pc" by (cases c) auto
  then have c: "sum_list (map c_todo cs) = {#}" if "sum_list (map c_pend cs) = 0" "\<forall>t. CSubmit t \<notin> set cs" for cs :: "'a caller_pc list"
    using that by (induction cs) auto
  show ?thesis using assms w [of "pl_workers s"] c [of "pl_callers s"] by (simp add: pool_counted_def pool_todo_def)
qed

lemma sum_list_zero: "(\<And>x. x \<in> set xs \<Longrightarrow> f x = 0) \<Longrightarrow> sum_list (map f xs) = (0 :: 'b :: monoid_add)"
  by (induction xs) auto

lemma exited_done:
  assumes "pool_quiet s" "list_all (\<lambda>w. w = WExit) (pl_workers s)" "pl_workers s \<noteq> []"
  shows "pool_todo s = {#}" "pool_counted s = 0"
proof -
  have e: "pl_workers s ! i = WExit" if "i < length (pl_workers s)" for i using assms(2) that by (simp add: list_all_length)
  have d: "length (pl_deques s) = length (pl_workers s)" "\<And>i. i < length (pl_workers s) \<Longrightarrow> pl_deques s ! i = []"
    using assms(1) e unfolding pool_quiet_def by auto
  have "pl_inbox s = []" "pl_shutdown s" using assms(1) e [of 0] assms(3) unfolding pool_quiet_def by auto
  then have c: "\<And>c. c \<in> set (pl_callers s) \<Longrightarrow> c = CReady" using assms(1) by (auto simp: pool_quiet_def list_all_iff)
  have w: "\<And>w. w \<in> set (pl_workers s) \<Longrightarrow> w = WExit" using assms(2) by (auto simp: list_all_iff)
  have q: "\<And>q. q \<in> set (pl_deques s) \<Longrightarrow> q = []" using d by (metis in_set_conv_nth)
  have "sum_list (map mset (pl_deques s)) = {#}" "sum_list (map w_todo (pl_workers s)) = {#}" "sum_list (map c_todo (pl_callers s)) = {#}"
      "sum_list (map w_pend (pl_workers s)) = 0" "sum_list (map c_pend (pl_callers s)) = 0"
    by (auto intro!: sum_list_zero dest: c w q)
  then show "pool_todo s = {#}" "pool_counted s = 0" using \<open>pl_inbox s = []\<close> by (simp_all add: pool_todo_def pool_counted_def)
qed

lemma pool_reach_workers: "pool_reach n m s \<Longrightarrow> pl_workers s \<noteq> []"
proof (induction rule: pool_reach.induct)
  case (pool_caller s i s')
  then show ?case by (auto elim!: submit_step.cases simp: pool_updates)
next
  case (pool_worker s i s')
  then show ?case using pool_step_frame(1) [OF pool_worker(2)] by auto
qed (simp_all add: pool_new_def Let_def pool_shutdown_def)

text \<open>
  C12. In every interleaving of workers and callers every task submitted is held by exactly one place until it has been
  run, once. When \<open>wait\<close> of the pool finds its counter at zero and no call of \<open>submit\<close> is under way, all have been run;
  when \<open>wait\<close> of a group returns, all of the group have; and when all workers have exited after the destructor asked
  them to, nothing submitted is left.
\<close>

theorem ws_pool_runs_every_task:
  assumes "pool_reach n m s"
  shows "mset (pl_called s) = mset (pl_completed s) + pool_todo s \<and>
    (pool_wait s \<and> (\<forall>t. CSubmit t \<notin> set (pl_callers s)) \<longrightarrow> mset (pl_completed s) = mset (pl_called s)) \<and>
    (group_wait g s \<longrightarrow> in_group g (mset (pl_completed s)) = in_group g (mset (pl_called s))) \<and>
    (list_all (\<lambda>w. w = WExit) (pl_workers s) \<longrightarrow> mset (pl_completed s) = mset (pl_called s) \<and> pl_pending s = 0)"
proof -
  have I: "pool_acct s" "pool_quiet s" using pool_reach_inv [OF assms] by auto
  show ?thesis
    using I(1) counted_zero [of s] exited_done [OF I(2)] pool_reach_workers [OF assms] by (auto simp: pool_acct_def pool_wait_def group_wait_def)
qed

text \<open>One worker and one caller: the task is submitted, taken from the inbox and run.\<close>

theorem ws_pool_runs_every_task_witness:
  "\<exists>s. pool_reach 1 1 s \<and> pool_wait s \<and> pl_called s = [\<lparr>tk_fn = (), tk_group = Some 3\<rparr>] \<and> mset (pl_completed s) = mset (pl_called s) \<and>
     in_group 3 (mset (pl_completed s)) = 1"
proof -
  let ?t = "\<lparr>tk_fn = (), tk_group = Some 3\<rparr>"
  let ?r = "(\<lambda>g. 0)(3 := 1)"
  let ?S = "\<lambda>inbox pending rem worker caller completed. \<lparr>pl_deques = [[]], pl_inbox = inbox, pl_pending = pending, pl_remaining = rem, pl_shutdown = False,
     pl_workers = [worker], pl_callers = [caller], pl_called = [?t], pl_completed = completed\<rparr> :: unit pool"
  note upd = pool_updates group_add_def
  have "pool_reach 1 1 (?S [] 0 ?r WLoop (CSubmit ?t) [])" using pool_caller [OF pool_start [of 1 1] caller_call [of 0 _ ?t]] by (simp add: pool_new_def upd)
  from pool_caller [OF this caller_count [of 0]] have "pool_reach 1 1 (?S [] 1 ?r WLoop (CPush ?t) [])" by (simp add: upd)
  from pool_caller [OF this caller_push [of 0]] have "pool_reach 1 1 (?S [?t] 1 ?r WLoop CReady [])" by (simp add: upd)
  from pool_worker [OF this wk_loop [of 0]] have "pool_reach 1 1 (?S [?t] 1 ?r WPop CReady [])" by (simp add: upd)
  from pool_worker [OF this wk_pop_none [of 0]] have "pool_reach 1 1 (?S [?t] 1 ?r WInbox CReady [])" by (simp add: upd)
  from pool_worker [OF this wk_inbox [of 0]] have "pool_reach 1 1 (?S [] 1 ?r (WRun False ?t) CReady [])" by (simp add: upd)
  from pool_worker [OF this wk_fn_done [of 0 _ False ?t]] have "pool_reach 1 1 (?S [] 1 (?r(3 := 0)) (WDone False ?t) CReady [?t])" by (simp add: upd)
  from pool_worker [OF this wk_done [of 0 _ False ?t]] have r: "pool_reach 1 1 (?S [] 0 (?r(3 := 0)) WLoop CReady [?t])" by (simp add: upd)
  let ?s = "?S [] 0 (?r(3 := 0)) WLoop CReady [?t]"
  have "pool_wait ?s" by (simp add: pool_wait_def)
  moreover have "mset (pl_completed ?s) = mset (pl_called ?s)"
    using ws_pool_runs_every_task [OF r, of 3] by (simp add: pool_wait_def)
  ultimately show ?thesis using r by (intro exI [of _ ?s]) simp
qed

end
