(* ===== verification/Ms_Queue.thy ===== *)
theory Ms_Queue
  imports Prelude
begin

text \<open>
  \<open>foundation/msqueue/ms_queue.h\<close> over \<open>foundation/hazard/hazard_ptr.h\<close>: the Michael-Scott queue whose nodes are reclaimed through
  hazard pointers. Any number of threads interleave at every atomic access and at every critical section of the retire
  list, all sequentially consistent. Addresses are natural numbers; an allocation may return any address that is not in
  use, so addresses are reused after a free. A compare-exchange may fail spuriously where the source uses the weak form.
  Thread \<open>i\<close> uses record \<open>i\<close>; records are registered on first use and stay, as the threads do.
\<close>

section \<open>State\<close>

record 'a ms_node =
  nd_data :: "'a option"
  nd_next :: "nat option"

text \<open>
  The program points of \<open>enqueue\<close> (with the new node \<open>n\<close> and the tail \<open>t\<close>), of \<open>dequeue\<close> (with the head \<open>h\<close> and its successor),
  of \<open>retire\<close> and of \<open>scan\<close>: the list taken, the slots still to read, the hazards found and the survivors.
\<close>

datatype 'a ms_pc =
    MIdle
  | EnqLoad nat
  | EnqSlot nat nat
  | EnqCheck nat nat
  | EnqNext nat nat
  | EnqAgain nat nat "nat option"
  | EnqLink nat nat
  | EnqHelp nat nat nat
  | EnqSwing nat nat
  | EnqEnd
  | DeqLoad
  | DeqSlot nat
  | DeqCheck nat
  | DeqNext nat
  | DeqSlot1 nat "nat option"
  | DeqCheck1 nat "nat option"
  | DeqAgain nat "nat option"
  | DeqTail nat nat
  | DeqHelp nat nat
  | DeqData nat nat
  | DeqCas nat nat 'a
  | DeqReset0 nat
  | DeqReset1 nat
  | DeqEnd
  | RetirePush nat
  | RetireTest nat
  | ScanTake
  | ScanHead "nat list"
  | ScanRead "nat list" "(nat \<times> nat) list" "nat list"
  | ScanFree "nat list" "nat list" "nat list"

text \<open>\<open>ms_enqueued\<close> and \<open>ms_dequeued\<close> record the values in the order the operations take effect.\<close>

record 'a ms_queue =
  ms_heap :: "nat \<rightharpoonup> 'a ms_node"
  ms_head :: nat
  ms_tail :: nat
  ms_records :: "nat list"
  ms_slots :: "nat \<Rightarrow> nat \<Rightarrow> nat option"
  ms_retired :: "nat list"
  ms_pc :: "nat \<Rightarrow> 'a ms_pc"
  ms_enqueued :: "'a list"
  ms_dequeued :: "'a list"

definition kHazardSlotsPerThread :: nat where
  "kHazardSlotsPerThread = 2"

definition kScanFactor :: nat where
  "kScanFactor = 2"

definition ms_new :: "nat \<Rightarrow> 'a ms_queue" where
  "ms_new p = \<lparr>ms_heap = [p \<mapsto> \<lparr>nd_data = None, nd_next = None\<rparr>], ms_head = p, ms_tail = p, ms_records = [], ms_slots = (\<lambda>i k. None), ms_retired = [],
     ms_pc = (\<lambda>i. MIdle), ms_enqueued = [], ms_dequeued = []\<rparr>"

definition at :: "nat \<Rightarrow> 'a ms_pc \<Rightarrow> 'a ms_queue \<Rightarrow> 'a ms_queue" where
  "at i pc s = s\<lparr>ms_pc := (ms_pc s)(i := pc)\<rparr>"

definition set_slot :: "nat \<Rightarrow> nat \<Rightarrow> nat option \<Rightarrow> 'a ms_queue \<Rightarrow> 'a ms_queue" where
  "set_slot i k p s = s\<lparr>ms_slots := (ms_slots s)(i := (ms_slots s i)(k := p))\<rparr>"

definition nxt :: "(nat \<rightharpoonup> 'a ms_node) \<Rightarrow> nat \<Rightarrow> nat option" where
  "nxt heap p = (case heap p of None \<Rightarrow> None | Some nd \<Rightarrow> nd_next nd)"

definition dat :: "(nat \<rightharpoonup> 'a ms_node) \<Rightarrow> nat \<Rightarrow> 'a option" where
  "dat heap p = (case heap p of None \<Rightarrow> None | Some nd \<Rightarrow> nd_data nd)"

definition set_next :: "nat \<Rightarrow> nat \<Rightarrow> (nat \<rightharpoonup> 'a ms_node) \<Rightarrow> nat \<rightharpoonup> 'a ms_node" where
  "set_next p n heap = heap(p := map_option (\<lambda>nd. nd\<lparr>nd_next := Some n\<rparr>) (heap p))"

text \<open>\<open>get_or_create_record\<close>: the first use of a slot by a thread prepends its record.\<close>

definition register :: "nat \<Rightarrow> 'a ms_queue \<Rightarrow> 'a ms_queue" where
  "register i s = (if i \<in> set (ms_records s) then s else s\<lparr>ms_records := i # ms_records s\<rparr>)"

definition scan_due :: "nat \<Rightarrow> nat \<Rightarrow> bool" where
  "scan_due list_size n = (let threshold = kScanFactor * n * kHazardSlotsPerThread; threshold = (if threshold = 0 then 1 else threshold) in list_size \<ge> threshold)"

definition scan_slots :: "nat list \<Rightarrow> (nat \<times> nat) list" where
  "scan_slots records = concat (map (\<lambda>r. map (Pair r) [0..<kHazardSlotsPerThread]) records)"

section \<open>Steps\<close>

inductive enq_step :: "nat \<Rightarrow> 'a ms_queue \<Rightarrow> 'a ms_queue \<Rightarrow> bool" for i where
  enq_new: "ms_pc s i = MIdle \<Longrightarrow> ms_heap s n = None \<Longrightarrow>
    enq_step i s ((at i (EnqLoad n) s)\<lparr>ms_heap := (ms_heap s)(n \<mapsto> \<lparr>nd_data = Some v, nd_next = None\<rparr>)\<rparr>)"
| enq_load: "ms_pc s i = EnqLoad n \<Longrightarrow> enq_step i s (at i (EnqSlot n (ms_tail s)) s)"
| enq_slot: "ms_pc s i = EnqSlot n t \<Longrightarrow> enq_step i s (at i (EnqCheck n t) (set_slot i 0 (Some t) (register i s)))"
| enq_check: "ms_pc s i = EnqCheck n t \<Longrightarrow> enq_step i s (at i (if ms_tail s \<noteq> t then EnqLoad n else EnqNext n t) s)"
| enq_next: "ms_pc s i = EnqNext n t \<Longrightarrow> enq_step i s (at i (EnqAgain n t (nxt (ms_heap s) t)) s)"
| enq_again: "ms_pc s i = EnqAgain n t nx \<Longrightarrow>
    enq_step i s (at i (if t \<noteq> ms_tail s then EnqLoad n else (case nx of None \<Rightarrow> EnqLink n t | Some x \<Rightarrow> EnqHelp n t x)) s)"
| enq_link: "ms_pc s i = EnqLink n t \<Longrightarrow> nxt (ms_heap s) t = None \<Longrightarrow>
    enq_step i s ((at i (EnqSwing n t) s)\<lparr>ms_heap := set_next t n (ms_heap s), ms_enqueued := ms_enqueued s @ [the (dat (ms_heap s) n)]\<rparr>)"
| enq_link_fail: "ms_pc s i = EnqLink n t \<Longrightarrow> enq_step i s (at i (EnqLoad n) s)"
| enq_help: "ms_pc s i = EnqHelp n t x \<Longrightarrow> enq_step i s ((at i (EnqLoad n) s)\<lparr>ms_tail := (if ms_tail s = t then x else ms_tail s)\<rparr>)"
| enq_swing: "ms_pc s i = EnqSwing n t \<Longrightarrow> enq_step i s ((at i EnqEnd s)\<lparr>ms_tail := (if ms_tail s = t then n else ms_tail s)\<rparr>)"
| enq_end: "ms_pc s i = EnqEnd \<Longrightarrow> enq_step i s (at i MIdle (set_slot i 0 None s))"

inductive deq_step :: "nat \<Rightarrow> 'a ms_queue \<Rightarrow> 'a ms_queue \<Rightarrow> bool" for i where
  deq_start: "ms_pc s i = MIdle \<Longrightarrow> deq_step i s (at i DeqLoad s)"
| deq_load: "ms_pc s i = DeqLoad \<Longrightarrow> deq_step i s (at i (DeqSlot (ms_head s)) s)"
| deq_slot: "ms_pc s i = DeqSlot h \<Longrightarrow> deq_step i s (at i (DeqCheck h) (set_slot i 0 (Some h) (register i s)))"
| deq_check: "ms_pc s i = DeqCheck h \<Longrightarrow> deq_step i s (at i (if ms_head s \<noteq> h then DeqLoad else DeqNext h) s)"
| deq_next: "ms_pc s i = DeqNext h \<Longrightarrow> deq_step i s (at i (DeqSlot1 h (nxt (ms_heap s) h)) s)"
| deq_slot1: "ms_pc s i = DeqSlot1 h nx \<Longrightarrow> deq_step i s (at i (DeqCheck1 h nx) (set_slot i 1 nx s))"
| deq_check1: "ms_pc s i = DeqCheck1 h nx \<Longrightarrow> deq_step i s (at i (if nxt (ms_heap s) h \<noteq> nx then DeqNext h else DeqAgain h nx) s)"
| deq_again: "ms_pc s i = DeqAgain h nx \<Longrightarrow>
    deq_step i s (at i (if h \<noteq> ms_head s then DeqLoad else (case nx of None \<Rightarrow> DeqEnd | Some x \<Rightarrow> DeqTail h x)) s)"
| deq_tail: "ms_pc s i = DeqTail h x \<Longrightarrow> deq_step i s (at i (if h = ms_tail s then DeqHelp h x else DeqData h x) s)"
| deq_help: "ms_pc s i = DeqHelp h x \<Longrightarrow> deq_step i s ((at i DeqLoad s)\<lparr>ms_tail := (if ms_tail s = h then x else ms_tail s)\<rparr>)"
| deq_data: "ms_pc s i = DeqData h x \<Longrightarrow> dat (ms_heap s) x = Some v \<Longrightarrow> deq_step i s (at i (DeqCas h x v) s)"
| deq_cas: "ms_pc s i = DeqCas h x v \<Longrightarrow> ms_head s = h \<Longrightarrow>
    deq_step i s ((at i (DeqReset0 h) s)\<lparr>ms_head := x, ms_dequeued := ms_dequeued s @ [v]\<rparr>)"
| deq_cas_fail: "ms_pc s i = DeqCas h x v \<Longrightarrow> deq_step i s (at i DeqLoad s)"
| deq_reset0: "ms_pc s i = DeqReset0 h \<Longrightarrow> deq_step i s (at i (DeqReset1 h) (set_slot i 0 None s))"
| deq_reset1: "ms_pc s i = DeqReset1 h \<Longrightarrow> deq_step i s (at i (RetirePush h) (set_slot i 1 None s))"
| deq_end: "ms_pc s i = DeqEnd \<Longrightarrow> deq_step i s (at i EnqEnd (set_slot i 1 None s))"

text \<open>\<open>retire\<close>, and \<open>scan\<close>, which \<open>drain\<close> also calls.\<close>

inductive hp_step :: "nat \<Rightarrow> 'a ms_queue \<Rightarrow> 'a ms_queue \<Rightarrow> bool" for i where
  hp_retire: "ms_pc s i = RetirePush h \<Longrightarrow> hp_step i s ((at i (RetireTest (length (ms_retired s) + 1)) s)\<lparr>ms_retired := ms_retired s @ [h]\<rparr>)"
| hp_test: "ms_pc s i = RetireTest sz \<Longrightarrow> hp_step i s (at i (if scan_due sz (length (ms_records s)) then ScanTake else DeqEnd) s)"
| hp_drain: "ms_pc s i = MIdle \<Longrightarrow> hp_step i s (at i ScanTake s)"
| hp_take: "ms_pc s i = ScanTake \<Longrightarrow> ms_retired s \<noteq> [] \<Longrightarrow> hp_step i s ((at i (ScanHead (ms_retired s)) s)\<lparr>ms_retired := []\<rparr>)"
| hp_take_none: "ms_pc s i = ScanTake \<Longrightarrow> ms_retired s = [] \<Longrightarrow> hp_step i s (at i DeqEnd s)"
| hp_records: "ms_pc s i = ScanHead ps \<Longrightarrow> hp_step i s (at i (ScanRead ps (scan_slots (ms_records s)) []) s)"
| hp_read: "ms_pc s i = ScanRead ps ((r, k) # rs) hz \<Longrightarrow> hp_step i s (at i (ScanRead ps rs (case ms_slots s r k of None \<Rightarrow> hz | Some p \<Rightarrow> hz @ [p])) s)"
| hp_sort: "ms_pc s i = ScanRead ps [] hz \<Longrightarrow> hp_step i s (at i (ScanFree ps hz []) s)"
| hp_free: "ms_pc s i = ScanFree (p # ps) hz sv \<Longrightarrow> p \<notin> set hz \<Longrightarrow> hp_step i s ((at i (ScanFree ps hz sv) s)\<lparr>ms_heap := (ms_heap s)(p := None)\<rparr>)"
| hp_keep: "ms_pc s i = ScanFree (p # ps) hz sv \<Longrightarrow> p \<in> set hz \<Longrightarrow> hp_step i s (at i (ScanFree ps hz (sv @ [p])) s)"
| hp_back: "ms_pc s i = ScanFree [] hz sv \<Longrightarrow> hp_step i s ((at i DeqEnd s)\<lparr>ms_retired := ms_retired s @ sv\<rparr>)"

inductive ms_reach :: "'a ms_queue \<Rightarrow> bool" where
  ms_start: "ms_reach (ms_new p)"
| ms_enq: "ms_reach s \<Longrightarrow> enq_step i s s' \<Longrightarrow> ms_reach s'"
| ms_deq: "ms_reach s \<Longrightarrow> deq_step i s s' \<Longrightarrow> ms_reach s'"
| ms_hp: "ms_reach s \<Longrightarrow> hp_step i s s' \<Longrightarrow> ms_reach s'"

section \<open>Invariant\<close>

text \<open>The nodes from the head to the last one.\<close>

fun linked :: "(nat \<rightharpoonup> 'a ms_node) \<Rightarrow> nat list \<Rightarrow> bool" where
  "linked heap [] \<longleftrightarrow> False"
| "linked heap [p] \<longleftrightarrow> heap p \<noteq> None \<and> nxt heap p = None"
| "linked heap (p # q # C) \<longleftrightarrow> nxt heap p = Some q \<and> linked heap (q # C)"

text \<open>A shared node: one of the chain, or one that was and so has a successor.\<close>

definition shared :: "(nat \<rightharpoonup> 'a ms_node) \<Rightarrow> nat list \<Rightarrow> nat \<Rightarrow> bool" where
  "shared heap C p \<longleftrightarrow> p \<in> set C \<or> nxt heap p \<noteq> None"

text \<open>A scan in progress that may still free \<open>p\<close> has seen the slot or has yet to read it.\<close>

fun scan_safe :: "nat \<Rightarrow> nat \<Rightarrow> nat \<Rightarrow> 'a ms_pc \<Rightarrow> bool" where
  "scan_safe j k p (ScanRead ps rs hz) \<longleftrightarrow> (p \<in> set ps \<longrightarrow> p \<in> set hz \<or> (j, k) \<in> set rs)"
| "scan_safe j k p (ScanFree ps hz sv) \<longleftrightarrow> (p \<in> set ps \<longrightarrow> p \<in> set hz)"
| "scan_safe j k p _ \<longleftrightarrow> True"

definition prot :: "nat list \<Rightarrow> 'a ms_queue \<Rightarrow> nat \<Rightarrow> nat \<Rightarrow> nat \<Rightarrow> bool" where
  "prot C s j k p \<longleftrightarrow> shared (ms_heap s) C p \<and> ms_slots s j k = Some p \<and> j \<in> set (ms_records s) \<and> k < 2 \<and> (\<forall>z. scan_safe j k p (ms_pc s z))"

definition enq_ok :: "nat list \<Rightarrow> 'a ms_queue \<Rightarrow> nat \<Rightarrow> nat \<Rightarrow> bool" where
  "enq_ok C s i t \<longleftrightarrow> prot C s i 0 t \<and> (nxt (ms_heap s) t = None \<longrightarrow> ms_tail s = t)"

definition deq_ok :: "nat list \<Rightarrow> 'a ms_queue \<Rightarrow> nat \<Rightarrow> nat \<Rightarrow> bool" where
  "deq_ok C s i h \<longleftrightarrow> prot C s i 0 h \<and> h \<notin> set (tl C)"

definition pair_ok :: "nat list \<Rightarrow> 'a ms_queue \<Rightarrow> nat \<Rightarrow> nat \<Rightarrow> nat \<Rightarrow> bool" where
  "pair_ok C s i h x \<longleftrightarrow> deq_ok C s i h \<and> prot C s i 1 x \<and> nxt (ms_heap s) h = Some x \<and> dat (ms_heap s) x \<noteq> None"

fun thread_ok :: "nat list \<Rightarrow> 'a ms_queue \<Rightarrow> nat \<Rightarrow> 'a ms_pc \<Rightarrow> bool" where
  "thread_ok C s i (EnqCheck n t) \<longleftrightarrow> ms_slots s i 0 = Some t \<and> i \<in> set (ms_records s)"
| "thread_ok C s i (EnqNext n t) \<longleftrightarrow> enq_ok C s i t"
| "thread_ok C s i (EnqAgain n t nx) \<longleftrightarrow> enq_ok C s i t \<and> (\<forall>x. nx = Some x \<longrightarrow> nxt (ms_heap s) t = Some x)"
| "thread_ok C s i (EnqLink n t) \<longleftrightarrow> enq_ok C s i t"
| "thread_ok C s i (EnqHelp n t x) \<longleftrightarrow> prot C s i 0 t \<and> nxt (ms_heap s) t = Some x"
| "thread_ok C s i (EnqSwing n t) \<longleftrightarrow> prot C s i 0 t \<and> nxt (ms_heap s) t = Some n"
| "thread_ok C s i (DeqCheck h) \<longleftrightarrow> ms_slots s i 0 = Some h \<and> i \<in> set (ms_records s)"
| "thread_ok C s i (DeqNext h) \<longleftrightarrow> deq_ok C s i h"
| "thread_ok C s i (DeqSlot1 h nx) \<longleftrightarrow> deq_ok C s i h"
| "thread_ok C s i (DeqCheck1 h nx) \<longleftrightarrow> deq_ok C s i h \<and> ms_slots s i 1 = nx"
| "thread_ok C s i (DeqAgain h nx) \<longleftrightarrow> deq_ok C s i h \<and> ms_slots s i 1 = nx \<and> (\<forall>x. nx = Some x \<longrightarrow> nxt (ms_heap s) h = Some x)"
| "thread_ok C s i (DeqTail h x) \<longleftrightarrow> pair_ok C s i h x"
| "thread_ok C s i (DeqHelp h x) \<longleftrightarrow> pair_ok C s i h x"
| "thread_ok C s i (DeqData h x) \<longleftrightarrow> pair_ok C s i h x \<and> (h = ms_head s \<longrightarrow> ms_tail s \<noteq> h)"
| "thread_ok C s i (DeqCas h x v) \<longleftrightarrow> pair_ok C s i h x \<and> (h = ms_head s \<longrightarrow> ms_tail s \<noteq> h) \<and> dat (ms_heap s) x = Some v"
| "thread_ok C s i _ \<longleftrightarrow> True"

text \<open>The nodes a thread holds: one not linked yet, or ones unlinked and not freed.\<close>

fun fresh :: "'a ms_pc \<Rightarrow> nat option" where
  "fresh (EnqLoad n) = Some n"
| "fresh (EnqSlot n t) = Some n"
| "fresh (EnqCheck n t) = Some n"
| "fresh (EnqNext n t) = Some n"
| "fresh (EnqAgain n t nx) = Some n"
| "fresh (EnqLink n t) = Some n"
| "fresh (EnqHelp n t x) = Some n"
| "fresh _ = None"

fun unlinked :: "'a ms_pc \<Rightarrow> nat list" where
  "unlinked (DeqReset0 h) = [h]"
| "unlinked (DeqReset1 h) = [h]"
| "unlinked (RetirePush h) = [h]"
| "unlinked (ScanHead ps) = ps"
| "unlinked (ScanRead ps rs hz) = ps"
| "unlinked (ScanFree ps hz sv) = ps @ sv"
| "unlinked _ = []"

definition held :: "'a ms_pc \<Rightarrow> nat list" where
  "held pc = (case fresh pc of None \<Rightarrow> unlinked pc | Some n \<Rightarrow> [n])"

definition chain_ok :: "nat list \<Rightarrow> 'a ms_queue \<Rightarrow> bool" where
  "chain_ok C s \<longleftrightarrow> linked (ms_heap s) C \<and> distinct C \<and> ms_head s = hd C \<and> ms_tail s \<in> set C \<and>
     (\<forall>x. nxt (ms_heap s) (ms_tail s) = Some x \<longrightarrow> x = last C) \<and>
     (\<forall>p \<in> set (tl C). dat (ms_heap s) p \<noteq> None) \<and> ms_enqueued s = ms_dequeued s @ map (\<lambda>p. the (dat (ms_heap s) p)) (tl C)"

definition held_ok :: "nat list \<Rightarrow> 'a ms_queue \<Rightarrow> bool" where
  "held_ok C s \<longleftrightarrow> distinct (ms_retired s) \<and> (\<forall>p \<in> set (ms_retired s). ms_heap s p \<noteq> None \<and> p \<notin> set C) \<and>
     (\<forall>i. distinct (held (ms_pc s i)) \<and> (\<forall>p \<in> set (held (ms_pc s i)). ms_heap s p \<noteq> None \<and> p \<notin> set C \<and> p \<notin> set (ms_retired s))) \<and>
     (\<forall>i j. i \<noteq> j \<longrightarrow> set (held (ms_pc s i)) \<inter> set (held (ms_pc s j)) = {}) \<and>
     (\<forall>i n. fresh (ms_pc s i) = Some n \<longrightarrow> nxt (ms_heap s) n = None \<and> dat (ms_heap s) n \<noteq> None)"

definition ms_inv :: "nat list \<Rightarrow> 'a ms_queue \<Rightarrow> bool" where
  "ms_inv C s \<longleftrightarrow> chain_ok C s \<and> held_ok C s \<and> (\<forall>i. thread_ok C s i (ms_pc s i))"

section \<open>Chains\<close>

lemma nxt_alloc: "nxt heap p = Some x \<Longrightarrow> heap p \<noteq> None"
  by (cases "heap p") (auto simp: nxt_def)

lemma linked_alloc: "linked heap C \<Longrightarrow> p \<in> set C \<Longrightarrow> heap p \<noteq> None"
  by (induction heap C rule: linked.induct) (auto dest: nxt_alloc)

lemma linked_last: "linked heap C \<Longrightarrow> p \<in> set C \<Longrightarrow> nxt heap p = None \<Longrightarrow> p = last C"
  by (induction heap C rule: linked.induct) auto

lemma linked_last_next: "linked heap C \<Longrightarrow> nxt heap (last C) = None"
  by (induction heap C rule: linked.induct) auto

lemma linked_next: "linked heap C \<Longrightarrow> p \<in> set C \<Longrightarrow> nxt heap p = Some x \<Longrightarrow> x \<in> set (tl C)"
proof (induction heap C rule: linked.induct)
  case (3 heap p' q C)
  then show ?case by (cases C) auto
qed auto

lemma linked_hd: "linked heap C \<Longrightarrow> nxt heap (hd C) = Some x \<Longrightarrow> \<exists>D. C = hd C # x # D"
  by (induction heap C rule: linked.induct) auto

lemma linked_cong: "linked heap C \<Longrightarrow> (\<And>p. p \<in> set C \<Longrightarrow> heap' p = heap p) \<Longrightarrow> linked heap' C"
  by (induction heap C rule: linked.induct) (auto simp: nxt_def)

lemma nxt_set_next: "heap t \<noteq> None \<Longrightarrow> nxt (set_next t n heap) p = (if p = t then Some n else nxt heap p)"
  by (auto simp: nxt_def set_next_def)

lemma dat_set_next [simp]: "dat (set_next t n heap) p = dat heap p"
  by (auto simp: dat_def set_next_def split: option.splits)

lemma alloc_set_next [simp]: "set_next t n heap p = None \<longleftrightarrow> heap p = None"
  by (simp add: set_next_def)

lemma linked_append:
  assumes "linked heap C" "distinct C" "n \<notin> set C" "heap n \<noteq> None" "nxt heap n = None"
  shows "linked (set_next (last C) n heap) (C @ [n])"
  using assms
proof (induction heap C rule: linked.induct)
  case (2 heap p)
  then show ?case by (auto simp: nxt_set_next)
next
  case (3 heap p q C)
  then have "heap (last (q # C)) \<noteq> None" using linked_alloc [of heap "q # C"] by simp
  then have "nxt (set_next (last (q # C)) n heap) p = nxt heap p" using 3(3) by (subst nxt_set_next) auto
  then show ?case using 3 by simp
qed auto

section \<open>Frames\<close>

definition no_scan :: "'a ms_pc \<Rightarrow> bool" where
  "no_scan pc \<longleftrightarrow> (\<forall>j k p. scan_safe j k p pc)"

lemma thread_ok_mono:
  assumes "thread_ok C s j pc" "ms_slots s' j = ms_slots s j" "set (ms_records s) \<subseteq> set (ms_records s')"
    and "\<And>k p. prot C s j k p \<Longrightarrow> prot C' s' j k p"
    and "\<And>k p x. prot C s j k p \<Longrightarrow> nxt (ms_heap s) p = Some x \<Longrightarrow> nxt (ms_heap s') p = Some x"
    and "\<And>k p v. prot C s j k p \<Longrightarrow> dat (ms_heap s) p = Some v \<Longrightarrow> dat (ms_heap s') p = Some v"
    and "\<And>k p. prot C s j k p \<Longrightarrow> p \<notin> set (tl C) \<Longrightarrow> p \<notin> set (tl C')"
    and "\<And>k p. prot C s j k p \<Longrightarrow> p \<notin> set (tl C) \<Longrightarrow> p = ms_head s \<longrightarrow> ms_tail s \<noteq> p \<Longrightarrow> p = ms_head s' \<longrightarrow> ms_tail s' \<noteq> p"
    and "\<And>k p. prot C s j k p \<Longrightarrow> nxt (ms_heap s) p = None \<longrightarrow> ms_tail s = p \<Longrightarrow> nxt (ms_heap s') p = None \<longrightarrow> ms_tail s' = p"
  shows "thread_ok C' s' j pc"
proof -
  have e: "enq_ok C s j t \<Longrightarrow> enq_ok C' s' j t" for t
    unfolding enq_ok_def by (elim conjE, intro conjI) (erule assms(4), erule (1) assms(9))
  have d: "deq_ok C s j h \<Longrightarrow> deq_ok C' s' j h" for h using assms(4,7) unfolding deq_ok_def by blast
  have q: "pair_ok C s j h x \<Longrightarrow> pair_ok C' s' j h x" for h x using d assms(4,5,6) unfolding pair_ok_def deq_ok_def by (metis not_None_eq)
  have l: "pair_ok C s j h x \<Longrightarrow> h = ms_head s \<longrightarrow> ms_tail s \<noteq> h \<Longrightarrow> h = ms_head s' \<longrightarrow> ms_tail s' \<noteq> h" for h x
    using assms(8) unfolding pair_ok_def deq_ok_def by blast
  show ?thesis
  proof (cases pc)
    case (DeqCas h x v)
    then have p: "pair_ok C s j h x" and c: "h = ms_head s \<longrightarrow> ms_tail s \<noteq> h" and v: "dat (ms_heap s) x = Some v" using assms(1) by simp_all
    have "prot C s j 1 x" using p by (simp add: pair_ok_def)
    then show ?thesis using q [OF p] l [OF p c] assms(6) [OF _ v] DeqCas by simp
  next
    case (DeqData h x)
    then have p: "pair_ok C s j h x" and c: "h = ms_head s \<longrightarrow> ms_tail s \<noteq> h" using assms(1) by simp_all
    then show ?thesis using q [OF p] l [OF p c] DeqData by simp
  next
    case (DeqAgain h nx)
    then show ?thesis using assms(1,2) d assms(5) by (auto simp: deq_ok_def)
  next
    case (EnqAgain n t nx)
    then show ?thesis using assms(1) e [of t] assms(5) by (auto simp: enq_ok_def)
  qed (use assms(1-5) d e q l in \<open>auto simp: deq_ok_def\<close>)
qed

text \<open>Steps that change neither the nodes nor the ends: they move thread \<open>i\<close> and its slots.\<close>

lemma ms_quiet_step:
  assumes I: "ms_inv C s"
    and eq: "ms_heap s' = ms_heap s" "ms_head s' = ms_head s" "ms_retired s' = ms_retired s" "ms_enqueued s' = ms_enqueued s" "ms_dequeued s' = ms_dequeued s"
    and tl: "ms_tail s' = ms_tail s \<or> nxt (ms_heap s) (ms_tail s) = Some (ms_tail s')"
    and pc: "ms_pc s' = (ms_pc s)(i := pc)" "set (held pc) = set (held (ms_pc s i))" "distinct (held pc)" "fresh pc = fresh (ms_pc s i)"
    and sl: "\<And>j. j \<noteq> i \<Longrightarrow> ms_slots s' j = ms_slots s j" "set (ms_records s) \<subseteq> set (ms_records s')"
    and safe: "\<And>j k p. j \<noteq> i \<Longrightarrow> prot C s j k p \<Longrightarrow> scan_safe j k p pc"
    and own: "thread_ok C s' i pc"
  shows "ms_inv C s'"
proof -
  have ch: "linked (ms_heap s) C" "ms_tail s \<in> set C" "\<And>x. nxt (ms_heap s) (ms_tail s) = Some x \<Longrightarrow> x = last C" using I by (simp_all add: ms_inv_def chain_ok_def)
  have "nxt (ms_heap s) (ms_tail s) = Some (ms_tail s') \<Longrightarrow> ms_tail s' \<in> set (tl C) \<and> ms_tail s' = last C" using linked_next [OF ch(1,2)] ch(3) by blast
  then have tl': "ms_tail s' = ms_tail s \<or> ms_tail s' \<in> set (tl C) \<and> ms_tail s' = last C" using tl by blast
  have "C \<noteq> []" using ch(1) by (cases C) auto
  then have "chain_ok C s'" using I eq tl' linked_last_next [OF ch(1)] by (auto simp: ms_inv_def chain_ok_def dest: list.set_sel(2))
  moreover have "held_ok C s'"
  proof -
    have h: "held_ok C s" using I by (simp add: ms_inv_def)
    have hd: "set (held (ms_pc s' j)) = set (held (ms_pc s j))" "distinct (held (ms_pc s' j))" "fresh (ms_pc s' j) = fresh (ms_pc s j)" for j
      using pc h by (auto simp: held_ok_def)
    show ?thesis using h unfolding held_ok_def hd(1,3) eq using hd(2) by simp
  qed
  moreover have "thread_ok C s' j (ms_pc s' j)" for j
  proof (cases "j = i")
    case False
    have P: "prot C s' j k p" if "prot C s j k p" for k p
      using that safe [OF False that] sl(1) [OF False] sl(2) pc(1) eq(1) unfolding prot_def by auto
    have "thread_ok C s j (ms_pc s j)" using I by (simp add: ms_inv_def)
    then have "thread_ok C s' j (ms_pc s j)"
      by (rule thread_ok_mono) (use P sl False eq tl tl' in auto)
    then show ?thesis using False pc(1) by simp
  qed (use own pc(1) in simp)
  ultimately show ?thesis by (simp add: ms_inv_def)
qed

lemma prot_same:
  assumes "prot C s j k p" "ms_heap s' = ms_heap s" "ms_slots s' j k = ms_slots s j k" "ms_records s' = ms_records s" "ms_pc s' = (ms_pc s)(i := pc)" "no_scan pc"
  shows "prot C s' j k p"
  using assms unfolding prot_def no_scan_def by auto

lemma no_scan_simps [simp]:
  "no_scan MIdle" "no_scan (EnqLoad n)" "no_scan (EnqSlot n t)" "no_scan (EnqCheck n t)" "no_scan (EnqNext n t)" "no_scan (EnqAgain n t nx)" "no_scan (EnqLink n t)"
  "no_scan (EnqHelp n t x)" "no_scan (EnqSwing n t)" "no_scan EnqEnd" "no_scan DeqLoad" "no_scan (DeqSlot h)" "no_scan (DeqCheck h)" "no_scan (DeqNext h)"
  "no_scan (DeqSlot1 h nx)" "no_scan (DeqCheck1 h nx)" "no_scan (DeqAgain h nx)" "no_scan (DeqTail h x)" "no_scan (DeqHelp h x)" "no_scan (DeqData h x)"
  "no_scan (DeqCas h x v)" "no_scan (DeqReset0 h)" "no_scan (DeqReset1 h)" "no_scan DeqEnd" "no_scan (RetirePush h)" "no_scan (RetireTest sz)" "no_scan ScanTake"
  "no_scan (ScanHead ps)"
  by (simp_all add: no_scan_def)

lemma ms_at_simps [simp]:
  "ms_heap (at i pc s) = ms_heap s" "ms_head (at i pc s) = ms_head s" "ms_tail (at i pc s) = ms_tail s" "ms_retired (at i pc s) = ms_retired s"
  "ms_enqueued (at i pc s) = ms_enqueued s" "ms_dequeued (at i pc s) = ms_dequeued s" "ms_slots (at i pc s) = ms_slots s" "ms_records (at i pc s) = ms_records s"
  "ms_pc (at i pc s) = (ms_pc s)(i := pc)"
  by (simp_all add: at_def)

lemma set_slot_simps [simp]:
  "ms_heap (set_slot i k p s) = ms_heap s" "ms_head (set_slot i k p s) = ms_head s" "ms_tail (set_slot i k p s) = ms_tail s"
  "ms_retired (set_slot i k p s) = ms_retired s" "ms_enqueued (set_slot i k p s) = ms_enqueued s" "ms_dequeued (set_slot i k p s) = ms_dequeued s"
  "ms_records (set_slot i k p s) = ms_records s" "ms_pc (set_slot i k p s) = ms_pc s" "ms_slots (set_slot i k p s) j = (if j = i then (ms_slots s i)(k := p) else ms_slots s j)"
  by (simp_all add: set_slot_def)

lemma register_simps [simp]:
  "ms_heap (register i s) = ms_heap s" "ms_head (register i s) = ms_head s" "ms_tail (register i s) = ms_tail s" "ms_retired (register i s) = ms_retired s"
  "ms_enqueued (register i s) = ms_enqueued s" "ms_dequeued (register i s) = ms_dequeued s" "ms_slots (register i s) = ms_slots s"
  "set (ms_records (register i s)) = insert i (set (ms_records s))" "ms_pc (register i s) = ms_pc s"
  by (auto simp: register_def)

lemma inv_thread: "ms_inv C s \<Longrightarrow> ms_pc s i = pc \<Longrightarrow> thread_ok C s i pc"
  by (auto simp: ms_inv_def)

lemma inv_distinct: "ms_inv C s \<Longrightarrow> ms_pc s i = pc \<Longrightarrow> distinct (held pc)"
  by (auto simp: ms_inv_def held_ok_def)

lemma enq_ok_at [simp]: "no_scan pc \<Longrightarrow> enq_ok C s j t \<Longrightarrow> enq_ok C (at i pc s) j t"
  unfolding enq_ok_def by (auto elim: prot_same)

text \<open>A quiet step of a thread that is not scanning afterwards.\<close>

lemma quiet_move:
  assumes "ms_inv C s" "held pc = held (ms_pc s i)" "fresh pc = fresh (ms_pc s i)" "no_scan pc" "thread_ok C (at i pc s) i pc"
  shows "ms_inv C (at i pc s)"
  by (rule ms_quiet_step [OF assms(1)]) (use assms inv_distinct [OF assms(1) refl] in \<open>auto simp: no_scan_def\<close>)

lemma quiet_slot:
  assumes "ms_inv C s" "held pc = held (ms_pc s i)" "fresh pc = fresh (ms_pc s i)" "no_scan pc" "thread_ok C (at i pc (set_slot i k p s)) i pc"
  shows "ms_inv C (at i pc (set_slot i k p s))"
  by (rule ms_quiet_step [OF assms(1)]) (use assms inv_distinct [OF assms(1) refl] in \<open>auto simp: no_scan_def\<close>)

lemma quiet_register:
  assumes "ms_inv C s" "held pc = held (ms_pc s i)" "fresh pc = fresh (ms_pc s i)" "no_scan pc" "thread_ok C (at i pc (set_slot i k p (register i s))) i pc"
  shows "ms_inv C (at i pc (set_slot i k p (register i s)))"
  by (rule ms_quiet_step [OF assms(1)]) (use assms inv_distinct [OF assms(1) refl] in \<open>auto simp: no_scan_def\<close>)

lemma prot_at [simp]: "no_scan pc \<Longrightarrow> prot C s j k p \<Longrightarrow> prot C (at i pc s) j k p"
  by (erule prot_same) simp_all

lemma deq_ok_at [simp]: "no_scan pc \<Longrightarrow> deq_ok C s j h \<Longrightarrow> deq_ok C (at i pc s) j h"
  by (simp add: deq_ok_def)

lemma pair_ok_at [simp]: "no_scan pc \<Longrightarrow> pair_ok C s j h x \<Longrightarrow> pair_ok C (at i pc s) j h x"
  by (simp add: pair_ok_def)

text \<open>Reading an end of the queue that agrees with the slot protects the node.\<close>

lemma chain_prot:
  assumes "ms_inv C s" "p \<in> set C" "ms_slots s i k = Some p" "i \<in> set (ms_records s)" "k < 2"
  shows "prot C s i k p"
proof -
  have "p \<notin> set (unlinked (ms_pc s z))" for z
  proof -
    have "p \<notin> set (held (ms_pc s z))" using assms(1,2) by (auto simp: ms_inv_def held_ok_def)
    then show ?thesis by (cases "ms_pc s z") (auto simp: held_def)
  qed
  then have "scan_safe i k p (ms_pc s z)" for z by (cases "ms_pc s z") (auto dest: meta_spec [of _ z])
  then show ?thesis using assms by (simp add: prot_def shared_def)
qed

lemma shared_alloc: "ms_inv C s \<Longrightarrow> shared (ms_heap s) C p \<Longrightarrow> ms_heap s p \<noteq> None"
  by (auto simp: shared_def ms_inv_def chain_ok_def dest: linked_alloc nxt_alloc)

lemma quiet_tail:
  assumes "ms_inv C s" "held pc = held (ms_pc s i)" "fresh pc = fresh (ms_pc s i)" "no_scan pc" "nxt (ms_heap s) t = Some x"
    "\<And>s'. thread_ok C s' i pc"
  shows "ms_inv C ((at i pc s)\<lparr>ms_tail := (if ms_tail s = t then x else ms_tail s)\<rparr>)"
  by (rule ms_quiet_step [OF assms(1), where i = i and pc = pc]) (use assms inv_distinct [OF assms(1) refl] in \<open>auto simp: no_scan_def\<close>)

section \<open>Steps that change nodes\<close>

lemma others_ok:
  assumes "ms_inv C s" "ms_pc s' = (ms_pc s)(i := pc)" "ms_slots s' = ms_slots s" "ms_records s' = ms_records s"
    and safe: "\<And>j k p. j \<noteq> i \<Longrightarrow> prot C s j k p \<Longrightarrow> scan_safe j k p pc"
    and P: "\<And>p. (\<exists>j k. j \<noteq> i \<and> prot C s j k p) \<Longrightarrow> shared (ms_heap s') C' p"
    and N: "\<And>p x. (\<exists>j k. j \<noteq> i \<and> prot C s j k p) \<Longrightarrow> nxt (ms_heap s) p = Some x \<Longrightarrow> nxt (ms_heap s') p = Some x"
    and V: "\<And>p v. (\<exists>j k. j \<noteq> i \<and> prot C s j k p) \<Longrightarrow> dat (ms_heap s) p = Some v \<Longrightarrow> dat (ms_heap s') p = Some v"
    and T: "\<And>p. (\<exists>j k. j \<noteq> i \<and> prot C s j k p) \<Longrightarrow> p \<notin> set (tl C) \<Longrightarrow> p \<notin> set (tl C')"
    and L: "\<And>p. p \<notin> set (tl C) \<Longrightarrow> p = ms_head s \<longrightarrow> ms_tail s \<noteq> p \<Longrightarrow> p = ms_head s' \<longrightarrow> ms_tail s' \<noteq> p"
    and E: "\<And>p. (\<exists>j k. j \<noteq> i \<and> prot C s j k p) \<Longrightarrow> nxt (ms_heap s) p = None \<longrightarrow> ms_tail s = p \<Longrightarrow> nxt (ms_heap s') p = None \<longrightarrow> ms_tail s' = p"
    and own: "thread_ok C' s' i pc"
  shows "thread_ok C' s' j (ms_pc s' j)"
proof (cases "j = i")
  case False
  have pr: "prot C' s' j k p" if "prot C s j k p" for k p
    using that P safe [OF False that] False assms(2-4) unfolding prot_def by (auto; metis)
  have "thread_ok C s j (ms_pc s j)" using assms(1) by (simp add: ms_inv_def)
  then have "thread_ok C' s' j (ms_pc s j)"
  proof (rule thread_ok_mono)
    fix k p
    assume "prot C s j k p"
    then have p: "\<exists>j k. j \<noteq> i \<and> prot C s j k p" using False by blast
    show "nxt (ms_heap s) p = Some x \<Longrightarrow> nxt (ms_heap s') p = Some x" for x by (rule N [OF p])
    show "dat (ms_heap s) p = Some v \<Longrightarrow> dat (ms_heap s') p = Some v" for v by (rule V [OF p])
    show "p \<notin> set (tl C) \<Longrightarrow> p \<notin> set (tl C')" by (rule T [OF p])
    show "p \<notin> set (tl C) \<Longrightarrow> p = ms_head s \<longrightarrow> ms_tail s \<noteq> p \<Longrightarrow> p = ms_head s' \<longrightarrow> ms_tail s' \<noteq> p" by (rule L)
    show "nxt (ms_heap s) p = None \<longrightarrow> ms_tail s = p \<Longrightarrow> nxt (ms_heap s') p = None \<longrightarrow> ms_tail s' = p" by (rule E [OF p])
  qed (use pr assms(3,4) in simp_all)
  then show ?thesis using False assms(2) by simp
qed (use own assms(2) in simp)

lemma held_okI:
  assumes "held_ok C s" "ms_pc s' = (ms_pc s)(i := pc)"
    and "distinct (ms_retired s')" "\<And>p. p \<in> set (ms_retired s') \<Longrightarrow> ms_heap s' p \<noteq> None \<and> p \<notin> set C'"
    and "distinct (held pc)" "\<And>p. p \<in> set (held pc) \<Longrightarrow> ms_heap s' p \<noteq> None \<and> p \<notin> set C' \<and> p \<notin> set (ms_retired s')"
    and "\<And>j. j \<noteq> i \<Longrightarrow> set (held pc) \<inter> set (held (ms_pc s j)) = {}"
    and "\<And>j p. j \<noteq> i \<Longrightarrow> p \<in> set (held (ms_pc s j)) \<Longrightarrow> ms_heap s' p \<noteq> None \<and> p \<notin> set C' \<and> p \<notin> set (ms_retired s')"
    and "\<And>n. fresh pc = Some n \<Longrightarrow> nxt (ms_heap s') n = None \<and> dat (ms_heap s') n \<noteq> None"
    and "\<And>j n. j \<noteq> i \<Longrightarrow> fresh (ms_pc s j) = Some n \<Longrightarrow> nxt (ms_heap s') n = None \<and> dat (ms_heap s') n \<noteq> None"
  shows "held_ok C' s'"
proof -
  have pc: "ms_pc s' j = (if j = i then pc else ms_pc s j)" for j using assms(2) by simp
  have disj: "set (held (ms_pc s' j)) \<inter> set (held (ms_pc s' k)) = {}" if "j \<noteq> k" for j k
    using assms(1,7) that unfolding pc held_ok_def by (auto split: if_splits)
  have "distinct (held (ms_pc s' j))" for j using assms(1,5) unfolding pc held_ok_def by auto
  moreover have "ms_heap s' p \<noteq> None \<and> p \<notin> set C' \<and> p \<notin> set (ms_retired s')" if "p \<in> set (held (ms_pc s' j))" for j p
    using assms(6) [of p] assms(8) [of j p] that unfolding pc by (auto split: if_splits)
  moreover have "nxt (ms_heap s') n = None \<and> dat (ms_heap s') n \<noteq> None" if "fresh (ms_pc s' j) = Some n" for j n
    using assms(9) [of n] assms(10) [of j n] that unfolding pc by (auto split: if_splits)
  ultimately show ?thesis using assms(3,4) disj unfolding held_ok_def by blast
qed

lemma heldD:
  assumes "ms_inv C s"
  shows "p \<in> set (held (ms_pc s i)) \<Longrightarrow> ms_heap s p \<noteq> None \<and> p \<notin> set C \<and> p \<notin> set (ms_retired s)"
    and "p \<in> set (ms_retired s) \<Longrightarrow> ms_heap s p \<noteq> None \<and> p \<notin> set C"
    and "i \<noteq> j \<Longrightarrow> set (held (ms_pc s i)) \<inter> set (held (ms_pc s j)) = {}"
    and "fresh (ms_pc s i) = Some n \<Longrightarrow> nxt (ms_heap s) n = None \<and> dat (ms_heap s) n \<noteq> None"
    and "distinct (ms_retired s)"
    and "distinct (held (ms_pc s i))"
  using assms by (auto simp: ms_inv_def held_ok_def)

lemma held_simps [simp]:
  "held MIdle = []" "held (EnqLoad n) = [n]" "held (EnqSlot n t) = [n]" "held (EnqCheck n t) = [n]" "held (EnqNext n t) = [n]" "held (EnqAgain n t nx) = [n]"
  "held (EnqLink n t) = [n]" "held (EnqHelp n t x) = [n]" "held (EnqSwing n t) = []" "held EnqEnd = []" "held DeqLoad = []" "held (DeqSlot h) = []"
  "held (DeqCheck h) = []" "held (DeqNext h) = []" "held (DeqSlot1 h nx) = []" "held (DeqCheck1 h nx) = []" "held (DeqAgain h nx) = []" "held (DeqTail h x) = []"
  "held (DeqHelp h x) = []" "held (DeqData h x) = []" "held (DeqCas h x v) = []" "held (DeqReset0 h) = [h]" "held (DeqReset1 h) = [h]" "held DeqEnd = []"
  "held (RetirePush h) = [h]" "held (RetireTest sz) = []" "held ScanTake = []" "held (ScanHead ps) = ps" "held (ScanRead ps rs hz) = ps" "held (ScanFree ps hz sv) = ps @ sv"
  by (simp_all add: held_def)

lemma fresh_held: "fresh pc = Some n \<Longrightarrow> held pc = [n]"
  by (simp add: held_def)

lemma inv_alloc:
  assumes I: "ms_inv C s" and pc: "ms_pc s i = MIdle" and n: "ms_heap s n = None"
  shows "ms_inv C ((at i (EnqLoad n) s)\<lparr>ms_heap := (ms_heap s)(n \<mapsto> \<lparr>nd_data = Some v, nd_next = None\<rparr>)\<rparr>)" (is "ms_inv C ?s")
proof -
  have hp: "ms_heap ?s p = ms_heap s p" "nxt (ms_heap ?s) p = nxt (ms_heap s) p" "dat (ms_heap ?s) p = dat (ms_heap s) p" if "p \<noteq> n" for p
    using that by (simp_all add: nxt_def dat_def)
  have nC: "n \<notin> set C" using I n linked_alloc [of "ms_heap s" C n] by (auto simp: ms_inv_def chain_ok_def)
  have sh: "shared (ms_heap s) C p \<Longrightarrow> p \<noteq> n" for p using shared_alloc [OF I, of p] n by auto
  have ch: "chain_ok C s" using I by (simp add: ms_inv_def)
  have tl: "set (tl C) \<subseteq> set C" by (cases C) auto
  have t: "ms_tail s \<noteq> n" using ch nC by (auto simp: chain_ok_def)
  have "linked (ms_heap ?s) C" by (rule linked_cong [of "ms_heap s"]) (use ch nC in \<open>auto simp: chain_ok_def\<close>)
  moreover have d: "dat (ms_heap ?s) p = dat (ms_heap s) p" if "p \<in> set (tl C)" for p using hp(3) [of p] that tl nC by blast
  ultimately have "chain_ok C ?s" using ch hp(2) [OF t] unfolding chain_ok_def by (simp cong: map_cong)
  moreover have "held_ok C ?s"
  proof (rule held_okI [where s = s and i = i and pc = "EnqLoad n"])
    show "held_ok C s" using I by (simp add: ms_inv_def)
    show "set (held (EnqLoad n)) \<inter> set (held (ms_pc s j)) = {}" for j using heldD(1) [OF I, of n j] n by auto
    show "nxt (ms_heap ?s) m = None \<and> dat (ms_heap ?s) m \<noteq> None" if "fresh (ms_pc s j) = Some m" for j m
      using heldD(1) [OF I, of m j] heldD(4) [OF I that] fresh_held [OF that] n hp [of m] by fastforce
    show "ms_heap ?s p \<noteq> None \<and> p \<notin> set C \<and> p \<notin> set (ms_retired ?s)" if "p \<in> set (held (EnqLoad n))" for p
      using that nC heldD(2) [OF I, of n] n by auto
  qed (use heldD [OF I] in \<open>auto simp: nxt_def dat_def\<close>)
  moreover have "thread_ok C ?s j (ms_pc ?s j)" for j
    by (rule others_ok [OF I, where i = i and pc = "EnqLoad n"]) (use hp sh in \<open>auto simp: prot_def shared_def\<close>)
  ultimately show ?thesis by (simp add: ms_inv_def)
qed

lemma inv_link:
  assumes I: "ms_inv C s" and pc: "ms_pc s i = EnqLink n t" and nx: "nxt (ms_heap s) t = None"
  shows "ms_inv (C @ [n]) ((at i (EnqSwing n t) s)\<lparr>ms_heap := set_next t n (ms_heap s), ms_enqueued := ms_enqueued s @ [the (dat (ms_heap s) n)]\<rparr>)"
    (is "ms_inv _ ?s")
proof -
  have pr: "prot C s i 0 t" "ms_tail s = t" using inv_thread [OF I pc] nx by (auto simp: enq_ok_def)
  have ch: "chain_ok C s" using I by (simp add: ms_inv_def)
  have tC: "t \<in> set C" using pr(1) nx by (simp add: prot_def shared_def)
  have lst: "t = last C" and C: "C \<noteq> []" using linked_last [of "ms_heap s" C t] ch tC nx by (auto simp: chain_ok_def)
  have n: "n \<notin> set C" "ms_heap s n \<noteq> None" "nxt (ms_heap s) n = None" "dat (ms_heap s) n \<noteq> None" "n \<notin> set (ms_retired s)"
    using heldD(1) [OF I, of n i] heldD(4) [OF I, of i n] pc by auto
  have ta: "ms_heap s t \<noteq> None" using shared_alloc [OF I] pr(1) by (simp add: prot_def)
  note N = nxt_set_next [where heap = "ms_heap s" and t = t and n = n, OF ta]
  have tl: "tl (C @ [n]) = tl C @ [n]" using C by simp
  have "linked (ms_heap ?s) (C @ [n])" using linked_append [of "ms_heap s" C n] ch n lst by (simp add: chain_ok_def)
  then have "chain_ok (C @ [n]) ?s" using ch n C pr(2) N unfolding chain_ok_def tl by (auto simp: hd_append)
  moreover have "held_ok (C @ [n]) ?s"
  proof (rule held_okI [where s = s and i = i and pc = "EnqSwing n t"])
    show "held_ok C s" using I by (simp add: ms_inv_def)
    show "ms_heap ?s p \<noteq> None \<and> p \<notin> set (C @ [n]) \<and> p \<notin> set (ms_retired ?s)" if "j \<noteq> i" "p \<in> set (held (ms_pc s j))" for j p
      using heldD(1) [OF I that(2)] heldD(3) [OF I that(1)] that(2) pc by auto
    show "ms_heap ?s p \<noteq> None \<and> p \<notin> set (C @ [n])" if "p \<in> set (ms_retired ?s)" for p using heldD(2) [OF I, of p] that n by auto
    show "nxt (ms_heap ?s) m = None \<and> dat (ms_heap ?s) m \<noteq> None" if "j \<noteq> i" "fresh (ms_pc s j) = Some m" for j m
      using heldD(1) [OF I, of m j] heldD(4) [OF I that(2)] fresh_held [OF that(2)] tC N by auto
  qed (use heldD [OF I] in auto)
  moreover have "thread_ok (C @ [n]) ?s j (ms_pc ?s j)" for j
  proof (rule others_ok [OF I, where i = i and pc = "EnqSwing n t"])
    show "p \<notin> set (tl (C @ [n]))" if "\<exists>j k. j \<noteq> i \<and> prot C s j k p" "p \<notin> set (tl C)" for p
      using that n tl by (auto simp: prot_def shared_def)
    show "nxt (ms_heap ?s) p = None \<longrightarrow> ms_tail ?s = p" if "nxt (ms_heap s) p = None \<longrightarrow> ms_tail s = p" for p using that N by auto
    show "shared (ms_heap ?s) (C @ [n]) p" if "\<exists>j k. j \<noteq> i \<and> prot C s j k p" for p using that N by (auto simp: prot_def shared_def)
    show "thread_ok (C @ [n]) ?s i (EnqSwing n t)" using pr(1) N by (auto simp: prot_def shared_def)
  qed (use N nx in auto)
  ultimately show ?thesis by (simp add: ms_inv_def)
qed

lemma inv_unlink:
  assumes I: "ms_inv C s" and pc: "ms_pc s i = DeqCas h x v" and hd: "ms_head s = h"
  shows "ms_inv (tl C) ((at i (DeqReset0 h) s)\<lparr>ms_head := x, ms_dequeued := ms_dequeued s @ [v]\<rparr>)" (is "ms_inv _ ?s")
proof -
  have ok: "nxt (ms_heap s) h = Some x" "ms_tail s \<noteq> h" "dat (ms_heap s) x = Some v" using inv_thread [OF I pc] hd by (auto simp: pair_ok_def)
  have ch: "chain_ok C s" using I by (simp add: ms_inv_def)
  then obtain D where C: "C = h # x # D" using linked_hd [of "ms_heap s" C x] ok(1) hd by (auto simp: chain_ok_def)
  have "chain_ok (tl C) ?s" using ch ok C by (auto simp: chain_ok_def)
  moreover have "held_ok (tl C) ?s"
  proof (rule held_okI [where s = s and i = i and pc = "DeqReset0 h"])
    show "held_ok C s" using I by (simp add: ms_inv_def)
    show "set (held (DeqReset0 h)) \<inter> set (held (ms_pc s j)) = {}" for j using heldD(1) [OF I, of h j] C by auto
    show "ms_heap ?s p \<noteq> None \<and> p \<notin> set (tl C) \<and> p \<notin> set (ms_retired ?s)" if "p \<in> set (held (DeqReset0 h))" for p
      using that ch C nxt_alloc [OF ok(1)] heldD(2) [OF I, of h] by (auto simp: chain_ok_def)
  qed (use heldD [OF I] C in auto)
  moreover have "thread_ok (tl C) ?s j (ms_pc ?s j)" for j
    by (rule others_ok [OF I, where i = i and pc = "DeqReset0 h"]) (use C ok in \<open>auto simp: prot_def shared_def\<close>)
  ultimately show ?thesis by (simp add: ms_inv_def)
qed

text \<open>Steps that move nodes between the retire list and a thread.\<close>

lemma inv_retired:
  assumes I: "ms_inv C s"
    and set: "set (held pc) \<union> set rt \<subseteq> set (held (ms_pc s i)) \<union> set (ms_retired s)" "set (held pc) \<inter> set rt = {}" "distinct rt" "distinct (held pc)"
    and pc: "fresh pc = None" "fresh (ms_pc s i) = None" "no_scan pc" "\<And>s'. thread_ok C s' i pc"
  shows "ms_inv C ((at i pc s)\<lparr>ms_retired := rt\<rparr>)" (is "ms_inv _ ?s")
proof -
  have "chain_ok C ?s" using I by (simp add: ms_inv_def chain_ok_def)
  moreover have "held_ok C ?s"
  proof (rule held_okI [where s = s and i = i and pc = pc])
    show "held_ok C s" using I by (simp add: ms_inv_def)
    have al: "ms_heap s p \<noteq> None \<and> p \<notin> set C" if "p \<in> set (held pc) \<union> set rt" for p using that set(1) heldD(1,2) [OF I] by blast
    then show "ms_heap ?s p \<noteq> None \<and> p \<notin> set C" if "p \<in> set (ms_retired ?s)" for p using that by simp
    show "ms_heap ?s p \<noteq> None \<and> p \<notin> set C \<and> p \<notin> set (ms_retired ?s)" if "p \<in> set (held pc)" for p using that al set(2) by auto
    fix j
    assume j: "j \<noteq> i"
    have dis: "p \<notin> set (held pc) \<union> set rt" if "p \<in> set (held (ms_pc s j))" for p
      using heldD(1) [OF I that] heldD(3) [OF I j] that set(1) by blast
    then show "set (held pc) \<inter> set (held (ms_pc s j)) = {}" by blast
    show "ms_heap ?s p \<noteq> None \<and> p \<notin> set C \<and> p \<notin> set (ms_retired ?s)" if "p \<in> set (held (ms_pc s j))" for p
      using heldD(1) [OF I that] dis [OF that] by simp
  qed (use heldD(4) [OF I] set pc in auto)
  moreover have "thread_ok C ?s j (ms_pc ?s j)" for j
    by (rule others_ok [OF I, where i = i and pc = pc]) (use pc in \<open>auto simp: prot_def no_scan_def\<close>)
  ultimately show ?thesis by (simp add: ms_inv_def)
qed

lemma inv_free:
  assumes I: "ms_inv C s" and pc: "ms_pc s i = ScanFree (p # ps) hz sv" and hz: "p \<notin> set hz"
  shows "ms_inv C ((at i (ScanFree ps hz sv) s)\<lparr>ms_heap := (ms_heap s)(p := None)\<rparr>)" (is "ms_inv _ ?s")
proof -
  have hp: "ms_heap ?s q = ms_heap s q" "nxt (ms_heap ?s) q = nxt (ms_heap s) q" "dat (ms_heap ?s) q = dat (ms_heap s) q" if "q \<noteq> p" for q
    using that by (simp_all add: nxt_def dat_def)
  have p: "p \<notin> set C" "p \<notin> set (ms_retired s)" "p \<notin> set ps" "p \<notin> set sv" using heldD(1) [OF I, of p i] heldD(6) [OF I, of i] pc by auto
  have ne: "q \<noteq> p" if "prot C s j k q" for j k q using that pc hz unfolding prot_def by (auto dest: spec [of _ i])
  have ch: "chain_ok C s" using I by (simp add: ms_inv_def)
  have tl: "set (tl C) \<subseteq> set C" by (cases C) auto
  have t: "ms_tail s \<noteq> p" using ch p by (auto simp: chain_ok_def)
  have "linked (ms_heap ?s) C" by (rule linked_cong [of "ms_heap s"]) (use ch p in \<open>auto simp: chain_ok_def\<close>)
  moreover have d: "dat (ms_heap ?s) q = dat (ms_heap s) q" if "q \<in> set (tl C)" for q using hp(3) [of q] that tl p by blast
  ultimately have "chain_ok C ?s" using ch hp(2) [OF t] unfolding chain_ok_def by (simp cong: map_cong)
  moreover have "held_ok C ?s"
  proof (rule held_okI [where s = s and i = i and pc = "ScanFree ps hz sv"])
    show "held_ok C s" using I by (simp add: ms_inv_def)
    show "distinct (held (ScanFree ps hz sv))" using heldD(6) [OF I, of i] pc by simp
    show "ms_heap ?s q \<noteq> None \<and> q \<notin> set C \<and> q \<notin> set (ms_retired ?s)" if "q \<in> set (held (ScanFree ps hz sv))" for q
      using heldD(1) [OF I, of q i] that pc p hp(1) [of q] by fastforce
    fix j
    assume j: "j \<noteq> i"
    have ne': "q \<noteq> p" if "q \<in> set (held (ms_pc s j))" for q using heldD(3) [OF I j] that pc by auto
    show "set (held (ScanFree ps hz sv)) \<inter> set (held (ms_pc s j)) = {}" using heldD(3) [OF I j] pc by auto
    show "ms_heap ?s q \<noteq> None \<and> q \<notin> set C \<and> q \<notin> set (ms_retired ?s)" if "q \<in> set (held (ms_pc s j))" for q
      using heldD(1) [OF I that] ne' [OF that] by simp
    show "nxt (ms_heap ?s) m = None \<and> dat (ms_heap ?s) m \<noteq> None" if "fresh (ms_pc s j) = Some m" for m
      using heldD(4) [OF I that] ne' [of m] fresh_held [OF that] hp [of m] by simp
  qed (use heldD [OF I] p in auto)
  moreover have "thread_ok C ?s j (ms_pc ?s j)" for j
  proof (rule others_ok [OF I, where i = i and pc = "ScanFree ps hz sv"])
    show "scan_safe j k q (ScanFree ps hz sv)" if "prot C s j k q" for j k q using that pc unfolding prot_def by (auto dest: spec [of _ i])
    fix q
    assume "\<exists>j k. j \<noteq> i \<and> prot C s j k q"
    then have q: "q \<noteq> p" "shared (ms_heap s) C q" using ne by (auto simp: prot_def)
    then show "shared (ms_heap ?s) C q" using hp by (simp add: shared_def)
    show "nxt (ms_heap s) q = Some x \<Longrightarrow> nxt (ms_heap ?s) q = Some x" for x using hp q by simp
    show "dat (ms_heap s) q = Some v \<Longrightarrow> dat (ms_heap ?s) q = Some v" for v using hp q by simp
    show "nxt (ms_heap s) q = None \<longrightarrow> ms_tail s = q \<Longrightarrow> nxt (ms_heap ?s) q = None \<longrightarrow> ms_tail ?s = q" using hp q by simp
  qed auto
  ultimately show ?thesis by (simp add: ms_inv_def)
qed

section \<open>Preservation\<close>

lemma enq_step_inv:
  assumes "enq_step i s s'" "ms_inv C s"
  shows "\<exists>C'. ms_inv C' s'"
  using assms(1)
proof cases
  case (enq_new n v)
  then show ?thesis using inv_alloc [OF assms(2)] by blast
next
  case (enq_load n)
  then show ?thesis using quiet_move [OF assms(2), of "EnqSlot n (ms_tail s)" i] by auto
next
  case (enq_slot n t)
  then show ?thesis using quiet_register [OF assms(2), of "EnqCheck n t" i 0 "Some t"] by auto
next
  case (enq_check n t)
  have "ms_tail s \<in> set C" using assms(2) by (simp add: ms_inv_def chain_ok_def)
  then have "enq_ok C s i t" if "ms_tail s = t" using that chain_prot [OF assms(2), of t i 0] inv_thread [OF assms(2) enq_check(2)] by (simp add: enq_ok_def)
  then show ?thesis
    using enq_check quiet_move [OF assms(2), of "EnqNext n t" i] quiet_move [OF assms(2), of "EnqLoad n" i] by (auto split: if_splits)
next
  case (enq_next n t)
  then show ?thesis using quiet_move [OF assms(2), of "EnqAgain n t (nxt (ms_heap s) t)" i] inv_thread [OF assms(2) enq_next(2)] by auto
next
  case (enq_again n t nx)
  then show ?thesis
    using quiet_move [OF assms(2), of "EnqLoad n" i] quiet_move [OF assms(2), of "EnqLink n t" i] quiet_move [OF assms(2), of "EnqHelp n t (the nx)" i]
      inv_thread [OF assms(2) enq_again(2)] by (cases nx) (auto simp: enq_ok_def)
next
  case (enq_link n t)
  then show ?thesis using inv_link [OF assms(2)] by blast
next
  case (enq_link_fail n t)
  then show ?thesis using quiet_move [OF assms(2), of "EnqLoad n" i] by auto
next
  case (enq_help n t x)
  then show ?thesis using quiet_tail [OF assms(2), of "EnqLoad n" i t x] inv_thread [OF assms(2) enq_help(2)] by auto
next
  case (enq_swing n t)
  then show ?thesis using quiet_tail [OF assms(2), of EnqEnd i t n] inv_thread [OF assms(2) enq_swing(2)] by auto
next
  case enq_end
  then show ?thesis using quiet_slot [OF assms(2), of MIdle i 0 None] by auto
qed

lemma deq_step_inv:
  assumes "deq_step i s s'" "ms_inv C s"
  shows "\<exists>C'. ms_inv C' s'"
  using assms(1)
proof cases
  case deq_start
  then show ?thesis using quiet_move [OF assms(2), of DeqLoad i] by auto
next
  case deq_load
  then show ?thesis using quiet_move [OF assms(2), of "DeqSlot (ms_head s)" i] by auto
next
  case (deq_slot h)
  then show ?thesis using quiet_register [OF assms(2), of "DeqCheck h" i 0 "Some h"] by auto
next
  case (deq_check h)
  have "ms_head s = hd C" "distinct C" "C \<noteq> []" using assms(2) by (auto simp: ms_inv_def chain_ok_def)
  then have "ms_head s \<in> set C" "ms_head s \<notin> set (tl C)" by (auto intro: hd_in_set) (metis distinct.simps(2) list.collapse)
  then have "deq_ok C s i h" if "ms_head s = h" using that chain_prot [OF assms(2), of h i 0] inv_thread [OF assms(2) deq_check(2)] by (simp add: deq_ok_def)
  then show ?thesis
    using deq_check quiet_move [OF assms(2), of "DeqNext h" i] quiet_move [OF assms(2), of DeqLoad i] by (auto split: if_splits)
next
  case (deq_next h)
  then show ?thesis using quiet_move [OF assms(2), of "DeqSlot1 h (nxt (ms_heap s) h)" i] inv_thread [OF assms(2) deq_next(2)] by auto
next
  case (deq_slot1 h nx)
  have "deq_ok C s i h" using inv_thread [OF assms(2) deq_slot1(2)] by simp
  then have "deq_ok C (at i (DeqCheck1 h nx) (set_slot i 1 nx s)) i h"
    unfolding deq_ok_def using prot_same [of C s i 0 h "at i (DeqCheck1 h nx) (set_slot i 1 nx s)" i "DeqCheck1 h nx"] by simp
  then show ?thesis using deq_slot1 quiet_slot [OF assms(2), of "DeqCheck1 h nx" i 1 nx] by auto
next
  case (deq_check1 h nx)
  then show ?thesis
    using quiet_move [OF assms(2), of "DeqNext h" i] quiet_move [OF assms(2), of "DeqAgain h nx" i] inv_thread [OF assms(2) deq_check1(2)] by auto
next
  case (deq_again h nx)
  have ok: "deq_ok C s i h" "ms_slots s i 1 = nx" "\<And>x. nx = Some x \<Longrightarrow> nxt (ms_heap s) h = Some x" using inv_thread [OF assms(2) deq_again(2)] by auto
  have "pair_ok C s i h x" if "nx = Some x" "h = ms_head s" for x
  proof -
    have ch: "linked (ms_heap s) C" "ms_head s = hd C" "C \<noteq> []" "\<forall>p \<in> set (tl C). dat (ms_heap s) p \<noteq> None" using assms(2) by (auto simp: ms_inv_def chain_ok_def)
    have "h \<in> set C" using ch that(2) by simp
    then have x: "x \<in> set (tl C)" using linked_next [OF ch(1)] ok(3) [OF that(1)] by blast
    then have "x \<in> set C" using ch(3) by (meson list.set_sel(2))
    then have "prot C s i 1 x" using chain_prot [OF assms(2), of x i 1] ok(1,2) that(1) by (simp add: deq_ok_def prot_def)
    then show ?thesis using ok that x ch(4) by (simp add: pair_ok_def)
  qed
  then show ?thesis
    using deq_again quiet_move [OF assms(2), of DeqLoad i] quiet_move [OF assms(2), of DeqEnd i] quiet_move [OF assms(2), of "DeqTail h (the nx)" i] by (cases nx) auto
next
  case (deq_tail h x)
  then show ?thesis
    using quiet_move [OF assms(2), of "DeqHelp h x" i] quiet_move [OF assms(2), of "DeqData h x" i] inv_thread [OF assms(2) deq_tail(2)] by auto
next
  case (deq_help h x)
  then show ?thesis using quiet_tail [OF assms(2), of DeqLoad i h x] inv_thread [OF assms(2) deq_help(2)] by (auto simp: pair_ok_def)
next
  case (deq_data h x v)
  then show ?thesis using quiet_move [OF assms(2), of "DeqCas h x v" i] inv_thread [OF assms(2) deq_data(2)] by auto
next
  case (deq_cas h x v)
  then show ?thesis using inv_unlink [OF assms(2)] by blast
next
  case (deq_cas_fail h x v)
  then show ?thesis using quiet_move [OF assms(2), of DeqLoad i] by auto
next
  case (deq_reset0 h)
  then show ?thesis using quiet_slot [OF assms(2), of "DeqReset1 h" i 0 None] by auto
next
  case (deq_reset1 h)
  then show ?thesis using quiet_slot [OF assms(2), of "RetirePush h" i 1 None] by auto
next
  case deq_end
  then show ?thesis using quiet_slot [OF assms(2), of EnqEnd i 1 None] by auto
qed

lemma scan_slots_mem: "(r, k) \<in> set (scan_slots rs) \<longleftrightarrow> r \<in> set rs \<and> k < 2"
  by (auto simp: scan_slots_def kHazardSlotsPerThread_def image_iff)

lemma hp_step_inv:
  assumes "hp_step i s s'" "ms_inv C s"
  shows "\<exists>C'. ms_inv C' s'"
  using assms(1)
proof cases
  case (hp_retire h)
  have "h \<notin> set (ms_retired s)" using heldD(1) [OF assms(2), of h i] hp_retire(2) by simp
  then show ?thesis
    using hp_retire inv_retired [OF assms(2), of "RetireTest (length (ms_retired s) + 1)" "ms_retired s @ [h]" i] heldD(5) [OF assms(2)] by auto
next
  case (hp_test sz)
  then show ?thesis using quiet_move [OF assms(2), of ScanTake i] quiet_move [OF assms(2), of DeqEnd i] by auto
next
  case hp_drain
  then show ?thesis using quiet_move [OF assms(2), of ScanTake i] by auto
next
  case hp_take
  then show ?thesis using inv_retired [OF assms(2), of "ScanHead (ms_retired s)" "[]" i] heldD(5) [OF assms(2)] by auto
next
  case hp_take_none
  then show ?thesis using quiet_move [OF assms(2), of DeqEnd i] by auto
next
  case (hp_records ps)
  have "ms_inv C s'" unfolding hp_records(1)
    by (rule ms_quiet_step [OF assms(2), where i = i and pc = "ScanRead ps (scan_slots (ms_records s)) []"])
      (use hp_records(2) heldD(6) [OF assms(2), of i] in \<open>auto simp: prot_def scan_slots_mem\<close>)
  then show ?thesis by blast
next
  case (hp_read ps r k rs hz)
  let ?hz = "case ms_slots s r k of None \<Rightarrow> hz | Some p \<Rightarrow> hz @ [p]"
  have "scan_safe j l p (ScanRead ps rs ?hz)" if "prot C s j l p" for j l p
    using that hp_read(2) unfolding prot_def by (auto dest!: spec [of _ i] split: option.splits)
  then have "ms_inv C s'" unfolding hp_read(1)
    by (intro ms_quiet_step [OF assms(2), where i = i and pc = "ScanRead ps rs ?hz"]) (use hp_read(2) heldD(6) [OF assms(2), of i] in auto)
  then show ?thesis by blast
next
  case (hp_sort ps hz)
  have "scan_safe j l p (ScanFree ps hz [])" if "prot C s j l p" for j l p using that hp_sort(2) unfolding prot_def by (auto dest!: spec [of _ i])
  then have "ms_inv C s'" unfolding hp_sort(1)
    by (intro ms_quiet_step [OF assms(2), where i = i and pc = "ScanFree ps hz []"]) (use hp_sort(2) heldD(6) [OF assms(2), of i] in auto)
  then show ?thesis by blast
next
  case (hp_free p ps hz sv)
  then show ?thesis using inv_free [OF assms(2)] by blast
next
  case (hp_keep p ps hz sv)
  have "scan_safe j l q (ScanFree ps hz (sv @ [p]))" if "prot C s j l q" for j l q using that hp_keep(2) unfolding prot_def by (auto dest!: spec [of _ i])
  then have "ms_inv C s'" unfolding hp_keep(1)
    by (intro ms_quiet_step [OF assms(2), where i = i and pc = "ScanFree ps hz (sv @ [p])"]) (use hp_keep(2) heldD(6) [OF assms(2), of i] in auto)
  then show ?thesis by blast
next
  case (hp_back hz sv)
  have "set sv \<inter> set (ms_retired s) = {}" "distinct sv" using heldD(1,3) [OF assms(2), of _ i] heldD(6) [OF assms(2), of i] hp_back(2) by auto
  then show ?thesis using hp_back inv_retired [OF assms(2), of DeqEnd "ms_retired s @ sv" i] heldD(5) [OF assms(2)] by auto
qed

lemma ms_reach_inv: "ms_reach s \<Longrightarrow> \<exists>C. ms_inv C s"
proof (induction rule: ms_reach.induct)
  case (ms_start p)
  have "ms_inv [p] (ms_new p)" by (auto simp: ms_inv_def ms_new_def chain_ok_def held_ok_def nxt_def dat_def)
  then show ?case by blast
next
  case (ms_enq s i s')
  then show ?case using enq_step_inv by blast
next
  case (ms_deq s i s')
  then show ?case using deq_step_inv by blast
next
  case (ms_hp s i s')
  then show ?case using hp_step_inv by blast
qed

section \<open>Results\<close>

text \<open>The node a thread is about to read, write or free.\<close>

fun touches :: "'a ms_pc \<Rightarrow> nat option" where
  "touches (EnqNext n t) = Some t"
| "touches (EnqLink n t) = Some t"
| "touches (DeqNext h) = Some h"
| "touches (DeqCheck1 h nx) = Some h"
| "touches (DeqData h x) = Some x"
| "touches (ScanFree (p # ps) hz sv) = Some p"
| "touches _ = None"

definition ms_empty :: "'a ms_queue \<Rightarrow> bool" where
  "ms_empty s \<longleftrightarrow> nxt (ms_heap s) (ms_head s) = None"

lemma touches_alloc:
  assumes "ms_inv C s" "touches (ms_pc s i) = Some p"
  shows "ms_heap s p \<noteq> None"
proof (cases "\<exists>ps hz sv. ms_pc s i = ScanFree (p # ps) hz sv")
  case True
  then show ?thesis using heldD(1) [OF assms(1), of p i] by auto
next
  case False
  then have "\<exists>k. prot C s i k p"
    using inv_thread [OF assms(1) refl, of i] assms(2) by (cases "ms_pc s i" rule: touches.cases) (auto simp: enq_ok_def deq_ok_def pair_ok_def)
  then show ?thesis using shared_alloc [OF assms(1)] by (auto simp: prot_def)
qed

lemma ms_empty_contents:
  assumes "ms_reach s"
  shows "ms_empty s \<longleftrightarrow> ms_enqueued s = ms_dequeued s"
proof -
  obtain C where C: "chain_ok C s" using ms_reach_inv [OF assms] by (auto simp: ms_inv_def)
  then show ?thesis
    using linked_last_next [of "ms_heap s" C] linked_hd [of "ms_heap s" C] unfolding ms_empty_def chain_ok_def
    by (cases C; cases "tl C") auto
qed

text \<open>
  C13. In every interleaving of enqueues, dequeues and reclamation by any number of threads, with addresses reused after they are
  freed: the nodes from the head are a chain that holds exactly the values enqueued and not yet dequeued, in order, so
  values leave in the order they entered and each once; and no thread ever reads, writes or frees a node that is not
  allocated.
\<close>

theorem ms_queue_safe:
  assumes "ms_reach s"
  shows "(\<exists>C. linked (ms_heap s) C \<and> hd C = ms_head s \<and> distinct C \<and> ms_enqueued s = ms_dequeued s @ map (\<lambda>p. the (dat (ms_heap s) p)) (tl C)) \<and>
    (touches (ms_pc s i) = Some p \<longrightarrow> ms_heap s p \<noteq> None)"
proof -
  obtain C where C: "ms_inv C s" using ms_reach_inv [OF assms] by blast
  then have "linked (ms_heap s) C \<and> hd C = ms_head s \<and> distinct C \<and> ms_enqueued s = ms_dequeued s @ map (\<lambda>p. the (dat (ms_heap s) p)) (tl C)"
    by (simp add: ms_inv_def chain_ok_def)
  then show ?thesis using touches_alloc [OF C] by blast
qed

text \<open>Thread 0 has linked a node at address 5 and has not moved the tail yet; thread 1 has protected the head and reads it.\<close>

theorem ms_queue_safe_witness:
  "\<exists>s :: nat ms_queue. ms_reach s \<and> ms_enqueued s = [7] \<and> ms_tail s = 3 \<and> touches (ms_pc s 1) = Some 3 \<and> ms_heap s 3 \<noteq> None"
proof -
  let ?n = "\<lambda>d x. \<lparr>nd_data = d, nd_next = x\<rparr> :: nat ms_node"
  let ?S = "\<lambda>heap records slots p0 p1 enq. \<lparr>ms_heap = heap, ms_head = 3, ms_tail = 3, ms_records = records, ms_slots = slots, ms_retired = [],
     ms_pc = (\<lambda>i. MIdle)(0 := p0, 1 := p1), ms_enqueued = enq, ms_dequeued = []\<rparr> :: nat ms_queue"
  let ?H = "[3 \<mapsto> ?n None None, 5 \<mapsto> ?n (Some 7) None]" and ?G = "[3 \<mapsto> ?n None (Some 5), 5 \<mapsto> ?n (Some 7) None]"
  let ?e = "\<lambda>i k :: nat. None :: nat option"
  let ?s0 = "?e(0 := (\<lambda>k. None)(0 := Some 3))"
  let ?s1 = "?s0(1 := (\<lambda>k. None)(0 := Some 3))"
  note upd = at_def set_slot_def register_def nxt_def dat_def set_next_def fun_upd_twist
  have "ms_reach (?S [3 \<mapsto> ?n None None] [] ?e MIdle MIdle [])" using ms_start [of 3] by (simp add: ms_new_def fun_upd_idem)
  from ms_enq [OF this enq_new [of _ 0 5 7]] have "ms_reach (?S ?H [] ?e (EnqLoad 5) MIdle [])" by (simp add: upd)
  from ms_enq [OF this enq_load [of _ 0]] have "ms_reach (?S ?H [] ?e (EnqSlot 5 3) MIdle [])" by (simp add: upd)
  from ms_enq [OF this enq_slot [of _ 0]] have "ms_reach (?S ?H [0] ?s0 (EnqCheck 5 3) MIdle [])" by (simp add: upd)
  from ms_enq [OF this enq_check [of _ 0]] have "ms_reach (?S ?H [0] ?s0 (EnqNext 5 3) MIdle [])" by (simp add: upd)
  from ms_enq [OF this enq_next [of _ 0]] have "ms_reach (?S ?H [0] ?s0 (EnqAgain 5 3 None) MIdle [])" by (simp add: upd)
  from ms_enq [OF this enq_again [of _ 0]] have "ms_reach (?S ?H [0] ?s0 (EnqLink 5 3) MIdle [])" by (simp add: upd)
  from ms_enq [OF this enq_link [of _ 0]] have "ms_reach (?S ?G [0] ?s0 (EnqSwing 5 3) MIdle [7])" by (simp add: upd)
  from ms_deq [OF this deq_start [of _ 1]] have "ms_reach (?S ?G [0] ?s0 (EnqSwing 5 3) DeqLoad [7])" by (simp add: upd)
  from ms_deq [OF this deq_load [of _ 1]] have "ms_reach (?S ?G [0] ?s0 (EnqSwing 5 3) (DeqSlot 3) [7])" by (simp add: upd)
  from ms_deq [OF this deq_slot [of _ 1]] have "ms_reach (?S ?G [1, 0] ?s1 (EnqSwing 5 3) (DeqCheck 3) [7])" by (simp add: upd)
  from ms_deq [OF this deq_check [of _ 1]] have r: "ms_reach (?S ?G [1, 0] ?s1 (EnqSwing 5 3) (DeqNext 3) [7])" by (simp add: upd)
  show ?thesis using r ms_queue_safe [OF r, of 1 3] by (intro exI [of _ "?S ?G [1, 0] ?s1 (EnqSwing 5 3) (DeqNext 3) [7]"]) simp
qed

end
