(* ===== verification/Chandy_Lamport.thy ===== *)
theory Chandy_Lamport
  imports Raft_Wire
begin

text \<open>
  \<open>networking/chandy_lamport\<close>: distributed snapshots over a reliable mesh of channels. Amounts and balances are the
  64-bit patterns of the \<open>int64_t\<close> values of the source, with wrapping addition. A system is one node per rank and a
  first-in first-out channel per ordered pair. Every region a node executes under its mutex is one step; the call of
  \<open>onTransfer_\<close>, which \<open>handleTransfer\<close> makes after releasing the mutex, is a step of its own.
\<close>

section \<open>Messages\<close>

type_synonym i64 = "64 word"

record wire_msg =
  wm_tag :: u8
  wm_amount :: i64

definition kTagMarker :: u8 where "kTagMarker = 0"
definition kTagTransfer :: u8 where "kTagTransfer = 1"
definition kTagShutdown :: u8 where "kTagShutdown = 2"

text \<open>The hosts are little-endian: \<open>htonl\<close> reverses the bytes, and copying a word stores its low byte first.\<close>

definition htonl :: "u32 \<Rightarrow> u32" where
  "htonl v = push_bit 24 (v AND 0xff) OR push_bit 8 (v AND 0xff00) OR (drop_bit 8 v AND 0xff00) OR drop_bit 24 v"

definition hton64 :: "u64 \<Rightarrow> u64" where
  "hton64 v = (let hi = htonl (ucast (drop_bit 32 v)); lo = htonl (ucast (v AND 0xffffffff)) in push_bit 32 (ucast lo) OR ucast hi)"

definition ntoh64 :: "u64 \<Rightarrow> u64" where
  "ntoh64 v = hton64 v"

fun store_bytes :: "nat \<Rightarrow> u64 \<Rightarrow> bytes" where
  "store_bytes 0 v = []"
| "store_bytes (Suc k) v = ucast v # store_bytes k (drop_bit 8 v)"

fun load_bytes :: "bytes \<Rightarrow> u64" where
  "load_bytes [] = 0"
| "load_bytes (b # bs) = ucast b OR push_bit 8 (load_bytes bs)"

definition sendMsg :: "u8 \<Rightarrow> i64 \<Rightarrow> bytes" where
  "sendMsg tag amount = tag # store_bytes 8 (hton64 amount)"

text \<open>\<open>recv\<close> takes nine bytes from the stream; on a stream that ends earlier it throws.\<close>

definition recvMsg :: "bytes \<Rightarrow> (wire_msg \<times> bytes) option" where
  "recvMsg buf = (if length buf < 9 then None
     else Some (\<lparr>wm_tag = hd buf, wm_amount = ntoh64 (load_bytes (take 8 (tl buf)))\<rparr>, drop 9 buf))"

lemma load_store_bytes: "load_bytes (store_bytes k v) = take_bit (8 * k) v"
proof (induction k arbitrary: v)
  case (Suc k)
  show ?case unfolding store_bytes.simps load_bytes.simps Suc.IH
    by (rule bit_word_eqI) (auto simp: bit_simps)
qed simp

lemma length_store_bytes [simp]: "length (store_bytes k v) = k"
  by (induction k arbitrary: v) auto

lemma byte_masks: "(0xff :: u32) = mask 8" "(0xff00 :: u32) = push_bit 8 (mask 8)" "(0xffffffff :: u64) = mask 32"
  by (simp_all add: mask_eq_exp_minus_1 push_bit_eq_mult)
lemma bit_htonl:
  "bit (htonl v) n \<longleftrightarrow> (if n < 8 then bit v (24 + n) else if n < 16 then bit v (8 + n)
     else if n < 24 then bit v (n - 8) else n < 32 \<and> bit v (n - 24))"
  unfolding htonl_def byte_masks by (simp add: bit_simps not_less) (use bit_imp_le_length [of v "24 + n"] in fastforce)

lemma htonl_htonl: "htonl (htonl v) = v"
  by (rule bit_word_eqI) (auto simp: bit_htonl)
lemma hton64_hton64: "hton64 (hton64 v) = v"
proof -
  have hi: "ucast (drop_bit 32 (push_bit 32 (ucast (a :: u32)) OR ucast (b :: u32) :: u64)) = a" for a b
    by (rule bit_word_eqI) (auto simp: bit_simps dest: bit_imp_le_length)
  have lo: "ucast ((push_bit 32 (ucast (a :: u32)) OR ucast (b :: u32) :: u64) AND 0xffffffff) = b" for a b
    unfolding byte_masks by (rule bit_word_eqI) (auto simp: bit_simps)
  have "push_bit 32 (ucast (ucast (drop_bit 32 v) :: u32)) OR ucast (ucast (v AND 0xffffffff) :: u32) = v"
    unfolding byte_masks by (rule bit_word_eqI) (auto simp: bit_simps)
  then show ?thesis by (simp only: hton64_def [of v] hton64_def [of "_ OR _"] Let_def hi lo htonl_htonl)
qed

lemma recvMsg_sendMsg:
  "recvMsg (sendMsg tag amount @ rest) = Some (\<lparr>wm_tag = tag, wm_amount = amount\<rparr>, rest)"
  by (simp add: recvMsg_def sendMsg_def load_store_bytes take_bit_word_eq_self ntoh64_def hton64_hton64)

section \<open>Nodes\<close>

record snapshot_result =
  localState :: i64
  channelMessages :: "nat \<rightharpoonup> i64 list"

text \<open>
  The receiver thread of one peer: blocked in \<open>recv\<close>, between the two halves of \<open>handleTransfer\<close>, or returned.
\<close>

datatype receiver = NotStarted | Receiving | Applying i64 | Returned

text \<open>
  \<open>sn_balance\<close> is the local state of the application, which \<open>getLocalState_\<close> reads and \<open>onTransfer_\<close> adds to;
  \<open>sn_result\<close> is what \<open>initiateSnapshot\<close> or \<open>waitForPassiveSnapshot\<close> returned to the caller.
\<close>

record snapshot_node =
  sn_balance :: i64
  sn_running :: bool
  sn_snapshotting :: bool
  sn_current :: snapshot_result
  sn_markerSeen :: "bool list"
  sn_markersOutstanding :: int
  sn_resultReady :: bool
  sn_thread :: "nat \<Rightarrow> receiver"
  sn_initiating :: bool
  sn_result :: "snapshot_result option"

text \<open>
  The system: the channels by sender and receiver, and the ghost \<open>ss_missed\<close>, the sum of the amounts that threads of
  a node had taken from their channels and not yet applied when the node recorded its state.
\<close>

record snapshot_sys =
  ss_world :: nat
  ss_node :: "nat \<Rightarrow> snapshot_node"
  ss_chan :: "nat \<Rightarrow> nat \<Rightarrow> wire_msg list"
  ss_missed :: i64

definition empty_result :: snapshot_result where
  "empty_result = \<lparr>localState = 0, channelMessages = Map.empty\<rparr>"

definition snapshot_node_new :: "nat \<Rightarrow> i64 \<Rightarrow> snapshot_node" where
  "snapshot_node_new world balance = \<lparr>sn_balance = balance, sn_running = False, sn_snapshotting = False, sn_current = empty_result,
     sn_markerSeen = replicate world False, sn_markersOutstanding = 0, sn_resultReady = False, sn_thread = (\<lambda>_. NotStarted),
     sn_initiating = False, sn_result = None\<rparr>"

definition snapshot_peers :: "nat \<Rightarrow> nat \<Rightarrow> nat list" where
  "snapshot_peers world rank = filter (\<lambda>p. p \<noteq> rank) [0..<world]"

definition snapshot_sys_new :: "i64 list \<Rightarrow> snapshot_sys" where
  "snapshot_sys_new balances = \<lparr>ss_world = length balances, ss_node = (\<lambda>i. snapshot_node_new (length balances) (balances ! i)),
     ss_chan = (\<lambda>_ _. []), ss_missed = 0\<rparr>"

definition set_node :: "nat \<Rightarrow> snapshot_node \<Rightarrow> snapshot_sys \<Rightarrow> snapshot_sys" where
  "set_node i nd s = s\<lparr>ss_node := (ss_node s)(i := nd)\<rparr>"

definition send_to :: "nat \<Rightarrow> nat \<Rightarrow> wire_msg \<Rightarrow> snapshot_sys \<Rightarrow> snapshot_sys" where
  "send_to i j m s = s\<lparr>ss_chan := (ss_chan s)(i := (ss_chan s i)(j := ss_chan s i j @ [m]))\<rparr>"

definition send_all :: "nat \<Rightarrow> wire_msg \<Rightarrow> snapshot_sys \<Rightarrow> snapshot_sys" where
  "send_all i m s = fold (\<lambda>p. send_to i p m) (snapshot_peers (ss_world s) i) s"

text \<open>What the threads of a node hold between the halves of \<open>handleTransfer\<close>.\<close>

definition applying :: "receiver \<Rightarrow> i64" where
  "applying r = (case r of Applying a \<Rightarrow> a | _ \<Rightarrow> 0)"

definition applying_sum :: "nat \<Rightarrow> snapshot_node \<Rightarrow> i64" where
  "applying_sum world nd = (\<Sum>p<world. applying (sn_thread nd p))"

section \<open>Operations\<close>

definition snapshot_start :: "nat \<Rightarrow> snapshot_sys \<Rightarrow> snapshot_sys" where
  "snapshot_start i s = (let nd = ss_node s i in
     set_node i (nd\<lparr>sn_running := True, sn_thread := (\<lambda>p. if p \<in> set (snapshot_peers (ss_world s) i) then Receiving else sn_thread nd p)\<rparr>) s)"

definition snapshot_stop :: "nat \<Rightarrow> snapshot_sys \<Rightarrow> snapshot_sys" where
  "snapshot_stop i s = (let nd = ss_node s i in
     if \<not> sn_running nd then s
     else send_all i \<lparr>wm_tag = kTagShutdown, wm_amount = 0\<rparr> (set_node i (nd\<lparr>sn_running := False\<rparr>) s))"

definition snapshot_join :: "nat \<Rightarrow> snapshot_sys \<Rightarrow> snapshot_sys" where
  "snapshot_join i s = set_node i ((ss_node s i)\<lparr>sn_thread := (\<lambda>_. NotStarted)\<rparr>) s"

definition sendTransfer :: "nat \<Rightarrow> nat \<Rightarrow> i64 \<Rightarrow> snapshot_sys \<Rightarrow> snapshot_sys" where
  "sendTransfer i peer amount s = send_to i peer \<lparr>wm_tag = kTagTransfer, wm_amount = amount\<rparr> s"

text \<open>The use of \<open>atomically\<close> its documentation expects: debit the local state and send.\<close>

definition atomically_transfer :: "nat \<Rightarrow> nat \<Rightarrow> i64 \<Rightarrow> snapshot_sys \<Rightarrow> snapshot_sys" where
  "atomically_transfer i peer amount s = (let nd = ss_node s i in
     sendTransfer i peer amount (set_node i (nd\<lparr>sn_balance := sn_balance nd - amount\<rparr>) s))"

text \<open>The critical section of \<open>handleTransfer\<close>; the thread goes on to \<open>onTransfer_\<close>.\<close>

definition handleTransfer :: "nat \<Rightarrow> nat \<Rightarrow> i64 \<Rightarrow> snapshot_sys \<Rightarrow> snapshot_sys" where
  "handleTransfer i fromPeer amount s = (let nd = ss_node s i; cur = sn_current nd; msgs = channelMessages cur;
       cur' = (if sn_snapshotting nd \<and> \<not> sn_markerSeen nd ! fromPeer
               then cur\<lparr>channelMessages := msgs(fromPeer \<mapsto> (case msgs fromPeer of None \<Rightarrow> [amount] | Some xs \<Rightarrow> xs @ [amount]))\<rparr> else cur) in
     set_node i (nd\<lparr>sn_current := cur', sn_thread := (sn_thread nd)(fromPeer := Applying amount)\<rparr>) s)"

definition onTransfer :: "nat \<Rightarrow> nat \<Rightarrow> i64 \<Rightarrow> snapshot_sys \<Rightarrow> snapshot_sys" where
  "onTransfer i fromPeer amount s = (let nd = ss_node s i in
     set_node i (nd\<lparr>sn_balance := sn_balance nd + amount, sn_thread := (sn_thread nd)(fromPeer := Receiving)\<rparr>) s)"

text \<open>The start of a snapshot, common to \<open>handleMarker\<close> and \<open>initiateSnapshot\<close>: record the state and clear the markers.\<close>

definition record_state :: "nat \<Rightarrow> int \<Rightarrow> snapshot_node \<Rightarrow> snapshot_node" where
  "record_state world outstanding nd = nd\<lparr>sn_snapshotting := True, sn_current := empty_result\<lparr>localState := sn_balance nd\<rparr>,
     sn_markerSeen := replicate world False, sn_markersOutstanding := outstanding\<rparr>"

definition note_missed :: "nat \<Rightarrow> snapshot_sys \<Rightarrow> snapshot_sys" where
  "note_missed i s = s\<lparr>ss_missed := ss_missed s + applying_sum (ss_world s) (ss_node s i)\<rparr>"

definition handleMarker :: "nat \<Rightarrow> nat \<Rightarrow> snapshot_sys \<Rightarrow> snapshot_sys" where
  "handleMarker i fromPeer s = (let nd = ss_node s i; outstanding = int (length (snapshot_peers (ss_world s) i)) - 1 in
     if \<not> sn_snapshotting nd then
       let nd = record_state (ss_world s) outstanding nd;
           nd = nd\<lparr>sn_markerSeen := (sn_markerSeen nd)[fromPeer := True]\<rparr>;
           nd = (if outstanding = 0 then nd\<lparr>sn_resultReady := True\<rparr> else nd) in
       send_all i \<lparr>wm_tag = kTagMarker, wm_amount = 0\<rparr> (set_node i nd (note_missed i s))
     else if \<not> sn_markerSeen nd ! fromPeer then
       let nd = nd\<lparr>sn_markerSeen := (sn_markerSeen nd)[fromPeer := True], sn_markersOutstanding := sn_markersOutstanding nd - 1\<rparr>;
           nd = (if sn_markersOutstanding nd = 0 then nd\<lparr>sn_resultReady := True\<rparr> else nd) in
       set_node i nd s
     else s)"

text \<open>\<open>initiateSnapshot\<close> up to its wait, and from the wait on; a waiting caller proceeds when \<open>resultReady_\<close> holds.\<close>

definition initiateSnapshot_start :: "nat \<Rightarrow> snapshot_sys \<Rightarrow> snapshot_sys" where
  "initiateSnapshot_start i s = (let nd = ss_node s i in
     send_all i \<lparr>wm_tag = kTagMarker, wm_amount = 0\<rparr>
       (set_node i ((record_state (ss_world s) (int (length (snapshot_peers (ss_world s) i))) nd)\<lparr>sn_resultReady := False, sn_initiating := True\<rparr>)
         (note_missed i s)))"

definition initiateSnapshot_return :: "nat \<Rightarrow> snapshot_sys \<Rightarrow> snapshot_sys" where
  "initiateSnapshot_return i s = (let nd = ss_node s i in
     set_node i (nd\<lparr>sn_snapshotting := False, sn_initiating := False, sn_result := Some (sn_current nd)\<rparr>) s)"

definition waitForPassiveSnapshot :: "nat \<Rightarrow> snapshot_sys \<Rightarrow> snapshot_sys" where
  "waitForPassiveSnapshot i s = (let nd = ss_node s i in
     set_node i (nd\<lparr>sn_snapshotting := False, sn_resultReady := False, sn_result := Some (sn_current nd)\<rparr>) s)"

text \<open>One turn of \<open>receiverLoop\<close> on the next message of the channel.\<close>

definition receiverLoop_step :: "nat \<Rightarrow> nat \<Rightarrow> snapshot_sys \<Rightarrow> snapshot_sys option" where
  "receiverLoop_step i peer s = (case ss_chan s peer i of
      [] \<Rightarrow> None
    | msg # rest \<Rightarrow>
        let s = s\<lparr>ss_chan := (ss_chan s)(peer := (ss_chan s peer)(i := rest))\<rparr>; nd = ss_node s i in
        Some (if wm_tag msg = kTagShutdown then set_node i (nd\<lparr>sn_thread := (sn_thread nd)(peer := Returned)\<rparr>) s
              else if wm_tag msg = kTagMarker then handleMarker i peer s
              else handleTransfer i peer (wm_amount msg) s))"

section \<open>Runs\<close>

datatype snap_action = Start nat | Stop nat | Join nat | Atomically nat nat i64 | Initiate nat | InitiateReturns nat
  | WaitPassive nat | Receive nat nat | ReceiveThrows nat nat | Apply nat nat

definition is_peer :: "snapshot_sys \<Rightarrow> nat \<Rightarrow> nat \<Rightarrow> bool" where
  "is_peer s i p \<longleftrightarrow> i < ss_world s \<and> p \<in> set (snapshot_peers (ss_world s) i)"

fun snap_step :: "snap_action \<Rightarrow> snapshot_sys \<Rightarrow> snapshot_sys option" where
  "snap_step (Start i) s = (if i < ss_world s \<and> \<not> sn_running (ss_node s i) \<and> list_all (\<lambda>p. sn_thread (ss_node s i) p = NotStarted) [0..<ss_world s]
     then Some (snapshot_start i s) else None)"
| "snap_step (Stop i) s = (if i < ss_world s then Some (snapshot_stop i s) else None)"
| "snap_step (Join i) s = (if i < ss_world s \<and> \<not> sn_running (ss_node s i) \<and> list_all (\<lambda>p. sn_thread (ss_node s i) p = Returned) (snapshot_peers (ss_world s) i)
     then Some (snapshot_join i s) else None)"
| "snap_step (Atomically i peer amount) s = (if is_peer s i peer then Some (atomically_transfer i peer amount s) else None)"
| "snap_step (Initiate i) s = (if i < ss_world s \<and> \<not> sn_initiating (ss_node s i) then Some (initiateSnapshot_start i s) else None)"
| "snap_step (InitiateReturns i) s = (if i < ss_world s \<and> sn_initiating (ss_node s i) \<and> sn_resultReady (ss_node s i)
     then Some (initiateSnapshot_return i s) else None)"
| "snap_step (WaitPassive i) s = (if i < ss_world s \<and> sn_resultReady (ss_node s i) then Some (waitForPassiveSnapshot i s) else None)"
| "snap_step (Receive i peer) s = (if is_peer s i peer \<and> sn_thread (ss_node s i) peer = Receiving then receiverLoop_step i peer s else None)"
| "snap_step (ReceiveThrows i peer) s = (if is_peer s i peer \<and> sn_thread (ss_node s i) peer = Receiving
     then Some (set_node i ((ss_node s i)\<lparr>sn_thread := (sn_thread (ss_node s i))(peer := Returned)\<rparr>) s) else None)"
| "snap_step (Apply i peer) s = (case sn_thread (ss_node s i) peer of
     Applying amount \<Rightarrow> if is_peer s i peer then Some (onTransfer i peer amount s) else None | _ \<Rightarrow> None)"

fun snap_run :: "snap_action list \<Rightarrow> snapshot_sys \<Rightarrow> snapshot_sys option" where
  "snap_run [] s = Some s"
| "snap_run (a # acts) s = (case snap_step a s of None \<Rightarrow> None | Some s' \<Rightarrow> snap_run acts s')"

definition initiations :: "snap_action list \<Rightarrow> nat" where
  "initiations acts = length (filter (\<lambda>a. case a of Initiate _ \<Rightarrow> True | _ \<Rightarrow> False) acts)"

text \<open>What a result accounts for in a system of \<open>world\<close> ranks.\<close>

definition recorded_total :: "nat \<Rightarrow> snapshot_result \<Rightarrow> i64" where
  "recorded_total world r = localState r + (\<Sum>p<world. sum_list (case channelMessages r p of None \<Rightarrow> [] | Some xs \<Rightarrow> xs))"

section \<open>The invariant\<close>

text \<open>A node takes part in the snapshot from the moment it records its state.\<close>

definition recorded :: "snapshot_node \<Rightarrow> bool" where
  "recorded nd \<longleftrightarrow> sn_snapshotting nd \<or> sn_result nd \<noteq> None"

abbreviation marker :: "wire_msg \<Rightarrow> bool" where
  "marker m \<equiv> wm_tag m = kTagMarker"

definition unseen :: "nat \<Rightarrow> nat \<Rightarrow> snapshot_node \<Rightarrow> nat set" where
  "unseen n i nd = {p. p < n \<and> p \<noteq> i \<and> \<not> sn_markerSeen nd ! p}"

definition snode_ok :: "nat \<Rightarrow> nat \<Rightarrow> snapshot_node \<Rightarrow> bool" where
  "snode_ok n i nd \<longleftrightarrow> length (sn_markerSeen nd) = n \<and> sn_thread nd i = NotStarted \<and>
     (\<not> recorded nd \<longrightarrow> (\<forall>p<n. \<not> sn_markerSeen nd ! p) \<and> \<not> sn_resultReady nd \<and> \<not> sn_initiating nd) \<and>
     (recorded nd \<longrightarrow> sn_markersOutstanding nd = int (card (unseen n i nd))) \<and>
     (sn_resultReady nd \<or> sn_result nd \<noteq> None \<longrightarrow> unseen n i nd = {}) \<and>
     (recorded nd \<and> unseen n i nd = {} \<and> 2 \<le> n \<longrightarrow> sn_resultReady nd \<or> sn_result nd \<noteq> None) \<and>
     (sn_result nd \<noteq> None \<longrightarrow> sn_result nd = Some (sn_current nd))"

text \<open>
  A channel from \<open>i\<close> to \<open>j\<close> holds one marker from the moment \<open>i\<close> records its state until \<open>j\<close> has seen it, and none
  otherwise; the messages before the marker belong to the snapshot.
\<close>

definition chan_ok :: "snapshot_sys \<Rightarrow> nat \<Rightarrow> nat \<Rightarrow> bool" where
  "chan_ok s i j \<longleftrightarrow> length (filter marker (ss_chan s i j)) = (if recorded (ss_node s i) \<and> \<not> sn_markerSeen (ss_node s j) ! i then 1 else 0) \<and>
     (sn_markerSeen (ss_node s j) ! i \<longrightarrow> recorded (ss_node s i))"

definition transfer_of :: "wire_msg \<Rightarrow> i64" where
  "transfer_of m = (if wm_tag m = kTagShutdown then 0 else wm_amount m)"

definition cut_sum :: "snapshot_sys \<Rightarrow> nat \<Rightarrow> nat \<Rightarrow> i64" where
  "cut_sum s i j = (if sn_markerSeen (ss_node s j) ! i then 0
     else sum_list (map transfer_of (takeWhile (\<lambda>m. \<not> marker m) (ss_chan s i j))))"

definition node_value :: "nat \<Rightarrow> snapshot_node \<Rightarrow> i64" where
  "node_value n nd = (if recorded nd then recorded_total n (sn_current nd) else sn_balance nd + applying_sum n nd)"

definition sys_total :: "snapshot_sys \<Rightarrow> i64" where
  "sys_total s = (\<Sum>i < ss_world s. node_value (ss_world s) (ss_node s i)) +
     (\<Sum>(i, j)\<in>{..< ss_world s} \<times> {..< ss_world s}. cut_sum s i j) + ss_missed s"

definition snap_inv :: "nat \<Rightarrow> i64 \<Rightarrow> nat \<Rightarrow> snapshot_sys \<Rightarrow> bool" where
  "snap_inv n tot k s \<longleftrightarrow> ss_world s = n \<and> (\<forall>i<n. snode_ok n i (ss_node s i)) \<and>
     (\<forall>i<n. \<forall>j<n. i \<noteq> j \<longrightarrow> chan_ok s i j) \<and> sys_total s = tot \<and>
     (\<forall>i<n. recorded (ss_node s i) \<longrightarrow> 0 < k) \<and> (0 < k \<longrightarrow> (\<exists>i<n. recorded (ss_node s i)))"

lemma snap_invI:
  assumes "ss_world s = n" "\<And>i. i < n \<Longrightarrow> snode_ok n i (ss_node s i)"
    and "\<And>i j. i < n \<Longrightarrow> j < n \<Longrightarrow> i \<noteq> j \<Longrightarrow> chan_ok s i j" "sys_total s = tot"
    and "\<And>i. i < n \<Longrightarrow> recorded (ss_node s i) \<Longrightarrow> 0 < k" "0 < k \<Longrightarrow> \<exists>i<n. recorded (ss_node s i)"
  shows "snap_inv n tot k s"
  using assms by (simp add: snap_inv_def)

lemma snap_invD:
  assumes "snap_inv n tot k s"
  shows "ss_world s = n" "\<And>i. i < n \<Longrightarrow> snode_ok n i (ss_node s i)"
    and "\<And>i j. i < n \<Longrightarrow> j < n \<Longrightarrow> i \<noteq> j \<Longrightarrow> chan_ok s i j" "sys_total s = tot"
    and "\<And>i. i < n \<Longrightarrow> recorded (ss_node s i) \<Longrightarrow> 0 < k" "0 < k \<Longrightarrow> \<exists>i<n. recorded (ss_node s i)"
  using assms unfolding snap_inv_def by blast+

section \<open>Frames\<close>

lemma set_peers [simp]: "p \<in> set (snapshot_peers n i) \<longleftrightarrow> p < n \<and> p \<noteq> i"
  by (auto simp: snapshot_peers_def)

lemma send_to_simps [simp]:
  "ss_world (send_to i j m s) = ss_world s" "ss_node (send_to i j m s) = ss_node s" "ss_missed (send_to i j m s) = ss_missed s"
  "ss_chan (send_to i j m s) a b = (if a = i \<and> b = j then ss_chan s a b @ [m] else ss_chan s a b)"
  by (simp_all add: send_to_def)

lemma set_node_simps [simp]:
  "ss_world (set_node i nd s) = ss_world s" "ss_chan (set_node i nd s) = ss_chan s" "ss_missed (set_node i nd s) = ss_missed s"
  "ss_node (set_node i nd s) j = (if j = i then nd else ss_node s j)"
  by (simp_all add: set_node_def)

lemma note_missed_simps [simp]:
  "ss_world (note_missed i s) = ss_world s" "ss_chan (note_missed i s) = ss_chan s" "ss_node (note_missed i s) = ss_node s"
  "ss_missed (note_missed i s) = ss_missed s + applying_sum (ss_world s) (ss_node s i)"
  by (simp_all add: note_missed_def)

lemma send_each:
  "distinct ps \<Longrightarrow> ss_world (fold (\<lambda>p. send_to i p m) ps s) = ss_world s \<and> ss_node (fold (\<lambda>p. send_to i p m) ps s) = ss_node s \<and>
     ss_missed (fold (\<lambda>p. send_to i p m) ps s) = ss_missed s \<and>
     ss_chan (fold (\<lambda>p. send_to i p m) ps s) a b = (if a = i \<and> b \<in> set ps then ss_chan s a b @ [m] else ss_chan s a b)"
  by (induction ps arbitrary: s) auto

lemma send_all_simps [simp]:
  "ss_world (send_all i m s) = ss_world s" "ss_node (send_all i m s) = ss_node s" "ss_missed (send_all i m s) = ss_missed s"
  "ss_chan (send_all i m s) a b = (if a = i \<and> b \<noteq> i \<and> b < ss_world s then ss_chan s a b @ [m] else ss_chan s a b)"
  using send_each [of "snapshot_peers (ss_world s) i" i m s a b] by (auto simp: send_all_def snapshot_peers_def)

lemma tags_differ [simp]:
  "kTagTransfer \<noteq> kTagMarker" "kTagShutdown \<noteq> kTagMarker" "kTagMarker \<noteq> kTagShutdown" "kTagTransfer \<noteq> kTagShutdown"
  by (simp_all add: kTagMarker_def kTagTransfer_def kTagShutdown_def)

lemma length_peers: "i < n \<Longrightarrow> length (snapshot_peers n i) = n - 1"
proof -
  assume i: "i < n"
  have "length (snapshot_peers n i) = card ({..<n} - {i})"
    unfolding snapshot_peers_def by (subst distinct_card [symmetric]) (auto intro: arg_cong [where f = card])
  then show ?thesis using i by simp
qed

lemma no_marker_takeWhile: "length (filter marker c) = 0 \<Longrightarrow> takeWhile (\<lambda>m. \<not> marker m) c = c"
  by (auto simp: filter_empty_conv takeWhile_eq_all_conv)

lemma marker_takeWhile_append: "length (filter marker c) \<noteq> 0 \<Longrightarrow> takeWhile (\<lambda>m. \<not> marker m) (c @ d) = takeWhile (\<lambda>m. \<not> marker m) c"
  by (induction c) auto

text \<open>Only one node and one channel change their share of the total.\<close>

lemma sum_one_changes:
  fixes f :: "'b \<Rightarrow> 'a::ab_group_add"
  assumes "finite A" "x \<in> A" "\<And>y. y \<in> A \<Longrightarrow> y \<noteq> x \<Longrightarrow> g y = f y"
  shows "sum g A = sum f A - f x + g x"
proof -
  have "sum g (A - {x}) = sum f (A - {x})" using assms(3) by (intro sum.cong) auto
  then show ?thesis using assms(1,2) by (simp add: sum.remove [of A x g] sum.remove [of A x f])
qed

lemma total_step:
  assumes "ss_world s' = ss_world s" "i < ss_world s" "p < ss_world s" "q < ss_world s"
    and "\<And>j. j \<noteq> i \<Longrightarrow> node_value (ss_world s) (ss_node s' j) = node_value (ss_world s) (ss_node s j)"
    and "\<And>j l. j < ss_world s \<Longrightarrow> l < ss_world s \<Longrightarrow> (j, l) \<noteq> (p, q) \<Longrightarrow> cut_sum s' j l = cut_sum s j l"
    and "node_value (ss_world s) (ss_node s' i) + cut_sum s' p q + ss_missed s' =
      node_value (ss_world s) (ss_node s i) + cut_sum s p q + ss_missed s"
  shows "sys_total s' = sys_total s"
proof -
  let ?n = "ss_world s"
  have a: "(\<Sum>j<?n. node_value ?n (ss_node s' j)) = (\<Sum>j<?n. node_value ?n (ss_node s j)) - node_value ?n (ss_node s i) + node_value ?n (ss_node s' i)"
    by (rule sum_one_changes) (use assms in auto)
  have b: "(\<Sum>(j, l)\<in>{..<?n} \<times> {..<?n}. cut_sum s' j l) = (\<Sum>(j, l)\<in>{..<?n} \<times> {..<?n}. cut_sum s j l) - cut_sum s p q + cut_sum s' p q"
    using sum_one_changes [of "{..<?n} \<times> {..<?n}" "(p, q)" "\<lambda>(j, l). cut_sum s' j l" "\<lambda>(j, l). cut_sum s j l"] assms(3,4,6) by fastforce
  show ?thesis unfolding sys_total_def assms(1) a b using assms(7) by (simp add: algebra_simps)
qed

section \<open>Steps\<close>

lemma applying_simps [simp]:
  "applying NotStarted = 0" "applying Receiving = 0" "applying (Applying a) = a" "applying Returned = 0"
  by (simp_all add: applying_def)

lemma applying_sum_upd:
  assumes "p < n" "\<And>q. q \<noteq> p \<Longrightarrow> sn_thread nd' q = sn_thread nd q"
  shows "applying_sum n nd' = applying_sum n nd - applying (sn_thread nd p) + applying (sn_thread nd' p)"
  unfolding applying_sum_def using assms by (intro sum_one_changes) auto

lemma recorded_simps [simp]:
  "recorded (nd\<lparr>sn_balance := b\<rparr>) = recorded nd" "recorded (nd\<lparr>sn_thread := t\<rparr>) = recorded nd" "recorded (nd\<lparr>sn_running := r\<rparr>) = recorded nd"
  "recorded (nd\<lparr>sn_current := c\<rparr>) = recorded nd" "recorded (nd\<lparr>sn_markerSeen := m\<rparr>) = recorded nd"
  "recorded (nd\<lparr>sn_markersOutstanding := x\<rparr>) = recorded nd" "recorded (nd\<lparr>sn_resultReady := y\<rparr>) = recorded nd"
  by (simp_all add: recorded_def)

lemma snode_ok_simps [simp]:
  "snode_ok n i (nd\<lparr>sn_balance := b\<rparr>) = snode_ok n i nd" "snode_ok n i (nd\<lparr>sn_running := r\<rparr>) = snode_ok n i nd"
  "p \<noteq> i \<Longrightarrow> snode_ok n i (nd\<lparr>sn_thread := (sn_thread nd)(p := t)\<rparr>) = snode_ok n i nd"
  by (simp_all add: snode_ok_def unseen_def)

lemma snap_quiet:
  assumes inv: "snap_inv n tot k s" and i: "i < n" and same: "recorded nd' = recorded (ss_node s i)" "sn_markerSeen nd' = sn_markerSeen (ss_node s i)"
    and ok: "snode_ok n i nd'" and nv: "node_value n nd' = node_value n (ss_node s i)"
  shows "snap_inv n tot k (set_node i nd' s)"
proof (rule snap_invI)
  note D = snap_invD [OF inv]
  have rec: "recorded (ss_node (set_node i nd' s) j) = recorded (ss_node s j)" for j using same by simp
  have seen: "sn_markerSeen (ss_node (set_node i nd' s) j) = sn_markerSeen (ss_node s j)" for j using same by simp
  have "cut_sum (set_node i nd' s) a b = cut_sum s a b" for a b unfolding cut_sum_def seen by simp
  then show "sys_total (set_node i nd' s) = tot"
    using total_step [of "set_node i nd' s" s i i i] D(1,4) i nv by simp
  show "chan_ok (set_node i nd' s) a b" if "a < n" "b < n" "a \<noteq> b" for a b
    using D(3) [OF that] unfolding chan_ok_def rec seen by simp
  show "\<exists>a<n. recorded (ss_node (set_node i nd' s) a)" if "0 < k" using D(6) [OF that] unfolding rec .
  show "0 < k" if "a < n" "recorded (ss_node (set_node i nd' s) a)" for a using that D(5) unfolding rec by blast
qed (use snap_invD(1,2) [OF inv] ok in auto)

lemma snode_okD:
  assumes "snode_ok n i nd"
  shows "length (sn_markerSeen nd) = n" "sn_thread nd i = NotStarted"
    and "\<not> recorded nd \<Longrightarrow> p < n \<Longrightarrow> \<not> sn_markerSeen nd ! p" "\<not> recorded nd \<Longrightarrow> \<not> sn_resultReady nd" "\<not> recorded nd \<Longrightarrow> \<not> sn_initiating nd"
    and "recorded nd \<Longrightarrow> sn_markersOutstanding nd = int (card (unseen n i nd))"
    and "sn_resultReady nd \<Longrightarrow> unseen n i nd = {}" "sn_result nd \<noteq> None \<Longrightarrow> unseen n i nd = {}"
    and "recorded nd \<Longrightarrow> unseen n i nd = {} \<Longrightarrow> 2 \<le> n \<Longrightarrow> sn_resultReady nd \<or> sn_result nd \<noteq> None"
    and "sn_result nd \<noteq> None \<Longrightarrow> sn_result nd = Some (sn_current nd)"
  using assms unfolding snode_ok_def by blast+

lemma start_inv:
  assumes inv: "snap_inv n tot k s" and st: "snap_step (Start i) s = Some s'"
  shows "snap_inv n tot k s'"
proof -
  note D = snap_invD [OF inv]
  have i: "i < n" and idle: "\<And>p. p < n \<Longrightarrow> sn_thread (ss_node s i) p = NotStarted"
    and s': "s' = snapshot_start i s" using st D(1) by (auto split: if_splits simp: list_all_iff)
  let ?nd = "(ss_node s i)\<lparr>sn_running := True, sn_thread := (\<lambda>p. if p \<in> set (snapshot_peers n i) then Receiving else sn_thread (ss_node s i) p)\<rparr>"
  have "applying_sum n ?nd = applying_sum n (ss_node s i)" unfolding applying_sum_def using idle by (intro sum.cong) auto
  then show ?thesis unfolding s' snapshot_start_def Let_def D(1)
    using D(2) [OF i] by (intro snap_quiet [OF inv i]) (simp_all add: recorded_def snode_ok_def unseen_def node_value_def)
qed

lemma join_inv:
  assumes inv: "snap_inv n tot k s" and st: "snap_step (Join i) s = Some s'"
  shows "snap_inv n tot k s'"
proof -
  note D = snap_invD [OF inv]
  have i: "i < n" and idle: "\<And>p. p < n \<Longrightarrow> p \<noteq> i \<Longrightarrow> sn_thread (ss_node s i) p = Returned"
    and s': "s' = snapshot_join i s" using st D(1) by (auto split: if_splits simp: list_all_iff)
  have "applying (sn_thread (ss_node s i) p) = 0" if "p < n" for p
    using idle [OF that] snode_okD(2) [OF D(2) [OF i]] by (cases "p = i") auto
  then show ?thesis unfolding s' snapshot_join_def Let_def
    using i D(2) [OF i]
    by (intro snap_quiet [OF inv i]) (auto simp: recorded_def snode_ok_def unseen_def node_value_def applying_sum_def)
qed

lemma return_inv:
  assumes inv: "snap_inv n tot k s" and st: "snap_step (InitiateReturns i) s = Some s' \<or> snap_step (WaitPassive i) s = Some s'"
  shows "snap_inv n tot k s'"
proof -
  note D = snap_invD [OF inv]
  have i: "i < n" and ready: "sn_resultReady (ss_node s i)"
    and s': "s' = initiateSnapshot_return i s \<or> s' = waitForPassiveSnapshot i s" using st D(1) by (auto split: if_splits)
  have rec: "recorded (ss_node s i)" "unseen n i (ss_node s i) = {}" using snode_okD(4,7) [OF D(2) [OF i]] ready by auto
  show ?thesis using s' unfolding initiateSnapshot_return_def waitForPassiveSnapshot_def Let_def
    using i D(2) [OF i] rec
    by (elim disjE; hypsubst; intro snap_quiet [OF inv i]) (auto simp: recorded_def snode_ok_def unseen_def node_value_def)
qed

lemma thread_inv:
  assumes inv: "snap_inv n tot k s" and st: "snap_step (ReceiveThrows i p) s = Some s' \<or> snap_step (Apply i p) s = Some s'"
  shows "snap_inv n tot k s'"
proof -
  note D = snap_invD [OF inv]
  obtain b r where i: "i < n" "p < n" "p \<noteq> i" and s': "s' = set_node i ((ss_node s i)\<lparr>sn_balance := b, sn_thread := (sn_thread (ss_node s i))(p := r)\<rparr>) s"
    and bal: "b + applying r = sn_balance (ss_node s i) + applying (sn_thread (ss_node s i) p)"
  proof (use st in \<open>elim disjE\<close>)
    assume "snap_step (ReceiveThrows i p) s = Some s'"
    then show thesis using that [where b = "sn_balance (ss_node s i)" and r = Returned] D(1) by (auto split: if_splits simp: is_peer_def)
  next
    assume "snap_step (Apply i p) s = Some s'"
    then obtain a where "sn_thread (ss_node s i) p = Applying a" "is_peer s i p" "s' = onTransfer i p a s"
      by (auto split: if_splits receiver.splits)
    then show thesis using that [where b = "sn_balance (ss_node s i) + a" and r = Receiving] D(1) by (auto simp: is_peer_def onTransfer_def Let_def)
  qed
  let ?nd = "(ss_node s i)\<lparr>sn_balance := b, sn_thread := (sn_thread (ss_node s i))(p := r)\<rparr>"
  have "applying_sum n ?nd = applying_sum n (ss_node s i) - applying (sn_thread (ss_node s i) p) + applying r"
    using applying_sum_upd [OF i(2), of ?nd "ss_node s i"] by simp
  then have "b + applying_sum n ?nd = (b + applying r) + (applying_sum n (ss_node s i) - applying (sn_thread (ss_node s i) p))"
    by (simp add: algebra_simps)
  then have "node_value n ?nd = node_value n (ss_node s i)" unfolding bal by (simp add: node_value_def)
  moreover have "snode_ok n i ?nd" using D(2) [OF i(1)] i(3) by (simp add: snode_ok_def recorded_def unseen_def)
  ultimately show ?thesis unfolding s' by (intro snap_quiet [OF inv i(1)]) (auto simp: recorded_def)
qed

text \<open>A message that is no marker joins the cut exactly when its sender has not recorded its state.\<close>

lemma cut_append:
  assumes "chan_ok s i j" "\<not> marker m" "ss_chan s' i j = ss_chan s i j @ [m]" "sn_markerSeen (ss_node s' j) = sn_markerSeen (ss_node s j)"
  shows "cut_sum s' i j = cut_sum s i j + (if recorded (ss_node s i) then 0 else transfer_of m)"
proof (cases "recorded (ss_node s i)")
  case True
  then show ?thesis using assms marker_takeWhile_append [of "ss_chan s i j" "[m]"] by (auto simp: cut_sum_def chan_ok_def)
next
  case False
  then have none: "length (filter marker (ss_chan s i j)) = 0" "\<not> sn_markerSeen (ss_node s j) ! i" using assms(1) by (auto simp: chan_ok_def)
  have "length (filter marker (ss_chan s i j @ [m])) = 0" using none(1) assms(2) by simp
  from no_marker_takeWhile [OF this] no_marker_takeWhile [OF none(1)]
  show ?thesis unfolding cut_sum_def assms(3,4) using False none(2) by (simp only: map_append sum_list.append) simp
qed

lemma chan_ok_append:
  assumes "chan_ok s i j" "\<not> marker m" "ss_chan s' i j = ss_chan s i j @ [m]" "sn_markerSeen (ss_node s' j) = sn_markerSeen (ss_node s j)"
    and "recorded (ss_node s' i) = recorded (ss_node s i)"
  shows "chan_ok s' i j"
  using assms by (simp add: chan_ok_def)

lemma stop_inv:
  assumes inv: "snap_inv n tot k s" and st: "snap_step (Stop i) s = Some s'"
  shows "snap_inv n tot k s'"
proof (cases "sn_running (ss_node s i)")
  case True
  note D = snap_invD [OF inv]
  let ?nd = "(ss_node s i)\<lparr>sn_running := False\<rparr>"
  let ?t = "set_node i ?nd s"
  have i: "i < n" and s': "s' = send_all i \<lparr>wm_tag = kTagShutdown, wm_amount = 0\<rparr> ?t"
    using st D(1) True by (auto split: if_splits simp: snapshot_stop_def Let_def)
  have t: "snap_inv n tot k ?t" using D(2) [OF i] by (intro snap_quiet [OF inv i]) (auto simp: recorded_def snode_ok_def unseen_def node_value_def applying_sum_def)
  note T = snap_invD [OF t]
  have cut: "cut_sum s' a b = cut_sum ?t a b" if "a < n" "b < n" for a b
  proof (cases "a = i \<and> b \<noteq> i")
    case True
    then show ?thesis using cut_append [OF T(3) [of a b], of "\<lparr>wm_tag = kTagShutdown, wm_amount = 0\<rparr>" s'] that s' T(1)
      by (simp add: transfer_of_def)
  qed (use s' in \<open>auto simp: cut_sum_def\<close>)
  show ?thesis
  proof (rule snap_invI)
    show "sys_total s' = tot" using total_step [of s' ?t i i i] cut T(1,4) s' i by simp
    show "chan_ok s' a b" if "a < n" "b < n" "a \<noteq> b" for a b
      using T(3) [OF that] s' by (auto simp: chan_ok_def)
  qed (use T(1,2,5,6) s' in auto)
qed (use assms in \<open>auto split: if_splits simp: snapshot_stop_def\<close>)

lemma atomically_inv:
  assumes inv: "snap_inv n tot k s" and st: "snap_step (Atomically i j a) s = Some s'"
  shows "snap_inv n tot k s'"
proof -
  note D = snap_invD [OF inv]
  let ?nd = "(ss_node s i)\<lparr>sn_balance := sn_balance (ss_node s i) - a\<rparr>" and ?m = "\<lparr>wm_tag = kTagTransfer, wm_amount = a\<rparr>"
  have ij: "i < n" "j < n" "j \<noteq> i" and s': "s' = send_to i j ?m (set_node i ?nd s)"
    using st D(1) by (auto split: if_splits simp: atomically_transfer_def sendTransfer_def Let_def is_peer_def)
  have node: "recorded (ss_node s' l) = recorded (ss_node s l)" "sn_markerSeen (ss_node s' l) = sn_markerSeen (ss_node s l)" for l
    by (auto simp: s' recorded_def)
  have cut: "cut_sum s' i j = cut_sum s i j + (if recorded (ss_node s i) then 0 else a)"
    using cut_append [OF D(3) [OF ij(1,2)], of ?m s'] ij node by (simp add: s' transfer_of_def)
  have cut': "cut_sum s' p q = cut_sum s p q" if "(p, q) \<noteq> (i, j)" for p q
    using that unfolding cut_sum_def node by (auto simp: s')
  show ?thesis
  proof (rule snap_invI)
    show "sys_total s' = tot" using total_step [of s' s i i j] cut cut' D(1,4) ij
      by (simp add: s' node_value_def recorded_def applying_sum_def)
    show "chan_ok s' p q" if "p < n" "q < n" "p \<noteq> q" for p q
    proof (cases "p = i \<and> q = j")
      case True
      then show ?thesis using chan_ok_append [OF D(3) [OF that], of ?m s'] node by (simp add: s')
    next
      case False
      then have "ss_chan s' p q = ss_chan s p q" by (auto simp: s')
      then show ?thesis using D(3) [OF that] unfolding chan_ok_def node by simp
    qed
    show "snode_ok n p (ss_node s' p)" if "p < n" for p
      using D(2) [OF that] by (auto simp: s')
  qed (use D(1,5,6) node s' in auto)
qed

text \<open>The start of a snapshot at node \<open>i\<close>, on its own or on the marker of \<open>from\<close>.\<close>

definition records_at :: "nat \<Rightarrow> nat option \<Rightarrow> snapshot_sys \<Rightarrow> snapshot_sys \<Rightarrow> bool" where
  "records_at i from s s' \<longleftrightarrow> ss_world s' = ss_world s \<and> (\<forall>j. j \<noteq> i \<longrightarrow> ss_node s' j = ss_node s j) \<and>
     ss_missed s' = ss_missed s + applying_sum (ss_world s) (ss_node s i) \<and>
     recorded (ss_node s' i) \<and> sn_current (ss_node s' i) = empty_result\<lparr>localState := sn_balance (ss_node s i)\<rparr> \<and>
     (\<forall>p < ss_world s. sn_markerSeen (ss_node s' i) ! p \<longleftrightarrow> from = Some p) \<and>
     (\<forall>p q. q < ss_world s \<longrightarrow> ss_chan s' p q = (if p = i \<and> q \<noteq> i then ss_chan s p q @ [\<lparr>wm_tag = kTagMarker, wm_amount = 0\<rparr>]
        else if q = i \<and> from = Some p then tl (ss_chan s p q) else ss_chan s p q))"

lemma records_at_inv:
  assumes inv: "snap_inv n tot k s" and i: "i < n" and fresh: "\<not> recorded (ss_node s i)" and R: "records_at i from s s'"
    and ok: "snode_ok n i (ss_node s' i)"
    and head: "\<And>p. from = Some p \<Longrightarrow> p < n \<and> p \<noteq> i \<and> (\<exists>m rest. ss_chan s p i = m # rest \<and> marker m)"
  shows "snap_inv n tot (Suc k') s'"
proof (rule snap_invI)
  note D = snap_invD [OF inv]
  note R = R [unfolded records_at_def D(1)]
  have unseen_i: "\<not> sn_markerSeen (ss_node s i) ! p" if "p < n" for p using snode_okD(3) [OF D(2) [OF i] fresh that] .
  have out: "length (filter marker (ss_chan s i q)) = 0" "\<not> sn_markerSeen (ss_node s q) ! i" if "q < n" "q \<noteq> i" for q
    using D(3) [OF i that(1)] that(2) fresh by (auto simp: chan_ok_def)
  have sender: "recorded (ss_node s p) \<and> length (filter marker (tl (ss_chan s p i))) = 0" if via: "from = Some p" for p
  proof -
    obtain m rest where "p < n" "p \<noteq> i" "ss_chan s p i = m # rest" "marker m" using head [OF via] by blast
    then show ?thesis using D(3) [of p i] i unseen_i [of p] by (auto simp: chan_ok_def split: if_splits)
  qed
  have cut: "cut_sum s' p q = cut_sum s p q" if "p < n" "q < n" for p q
  proof (cases "q = i")
    case True
    then show ?thesis using R that unseen_i [OF that(1)] head [of p] by (auto simp: cut_sum_def)
  next
    case False
    then have q: "ss_node s' q = ss_node s q" "ss_chan s' p q = (if p = i then ss_chan s p q @ [\<lparr>wm_tag = kTagMarker, wm_amount = 0\<rparr>] else ss_chan s p q)"
      using R that by auto
    have "\<forall>m \<in> set (ss_chan s i q). \<not> marker m" using out(1) [OF that(2) False] by (auto simp: filter_empty_conv)
    then show ?thesis unfolding cut_sum_def q by (cases "p = i") (simp_all add: takeWhile_append2 takeWhile_eq_all_conv [THEN iffD2])
  qed
  have "node_value n (ss_node s' i) + ss_missed s' = node_value n (ss_node s i) + ss_missed s"
    using R fresh by (simp add: node_value_def recorded_total_def empty_result_def)
  then show "sys_total s' = tot" using total_step [of s' s i i i] R D(1,4) i cut by (simp add: add_ac)
  show "chan_ok s' p q" if pq: "p < n" "q < n" "p \<noteq> q" for p q
  proof (cases "q = i")
    case True
    then have "p \<noteq> i" using pq by simp
    then show ?thesis using True R pq D(3) [OF pq] unseen_i [OF pq(1)] sender [of p] by (auto simp: chan_ok_def)
  next
    case False
    then show ?thesis using R pq D(3) [OF pq] out [of q] by (cases "p = i") (auto simp: chan_ok_def)
  qed
  show "snode_ok n p (ss_node s' p)" if "p < n" for p using that R D(2) [OF that] ok by (cases "p = i") auto
  show "\<exists>p<n. recorded (ss_node s' p)" using R i by blast
qed (use assms snap_invD(1) [OF inv] in \<open>auto simp: records_at_def\<close>)

lemma card_unseen_upd:
  assumes "p < n" "p \<noteq> i" "\<not> sn_markerSeen nd ! p" "length (sn_markerSeen nd) = n"
    and "sn_markerSeen nd' = (sn_markerSeen nd)[p := True]"
  shows "int (card (unseen n i nd')) = int (card (unseen n i nd)) - 1" "p \<in> unseen n i nd" "unseen n i nd' = unseen n i nd - {p}"
proof -
  show u: "unseen n i nd' = unseen n i nd - {p}" using assms by (auto simp: unseen_def nth_list_update)
  show p: "p \<in> unseen n i nd" using assms by (simp add: unseen_def)
  have f: "finite (unseen n i nd)" by (simp add: unseen_def)
  then have "0 < card (unseen n i nd)" using p card_gt_0_iff by blast
  then show "int (card (unseen n i nd')) = int (card (unseen n i nd)) - 1" unfolding u using p f by (simp add: of_nat_diff)
qed

lemma unseen_fresh:
  assumes "i < n" "sn_markerSeen nd = replicate n False"
  shows "card (unseen n i nd) = n - 1"
proof -
  have "unseen n i nd = {..<n} - {i}" using assms by (auto simp: unseen_def)
  then show ?thesis using assms(1) by simp
qed

lemma initiate_inv:
  assumes inv: "snap_inv n tot 0 s" and st: "snap_step (Initiate i) s = Some s'"
  shows "snap_inv n tot 1 s'"
proof -
  note D = snap_invD [OF inv]
  have i: "i < n" and s': "s' = initiateSnapshot_start i s" using st D(1) by (auto split: if_splits)
  have fresh: "\<not> recorded (ss_node s i)" using D(5) [OF i] by blast
  then have none: "sn_result (ss_node s i) = None" by (simp add: recorded_def)
  have node: "ss_node s' i = (record_state n (int (length (snapshot_peers n i))) (ss_node s i))\<lparr>sn_resultReady := False, sn_initiating := True\<rparr>"
    by (simp add: s' initiateSnapshot_start_def Let_def D(1))
  have card: "card (unseen n i (ss_node s' i)) = n - 1" using i by (intro unseen_fresh) (simp_all add: node record_state_def)
  then have "2 \<le> n \<longrightarrow> unseen n i (ss_node s' i) \<noteq> {}" by (metis card.empty diff_is_0_eq not_less_eq_eq numeral_2_eq_2 One_nat_def)
  moreover have "sn_result (ss_node s' i) = None" "\<not> sn_resultReady (ss_node s' i)" "recorded (ss_node s' i)" "sn_thread (ss_node s' i) i = NotStarted"
    "length (sn_markerSeen (ss_node s' i)) = n" "sn_markersOutstanding (ss_node s' i) = int (n - 1)"
    using none snode_okD(2) [OF D(2) [OF i]] by (simp_all add: node record_state_def recorded_def length_peers [OF i])
  ultimately have "snode_ok n i (ss_node s' i)" unfolding snode_ok_def card by blast
  moreover have "records_at i None s s'" using D(1)
    by (simp add: records_at_def s' initiateSnapshot_start_def Let_def record_state_def recorded_def)
  ultimately show ?thesis using records_at_inv [OF inv i fresh, of None s' 0] by simp
qed

lemma snode_ok_open:
  assumes "recorded nd" "sn_result nd = None" "length (sn_markerSeen nd) = n" "sn_thread nd i = NotStarted"
    and "sn_markersOutstanding nd = int (card (unseen n i nd))" "sn_resultReady nd = (sn_markersOutstanding nd = 0)"
  shows "snode_ok n i nd"
proof -
  have "finite (unseen n i nd)" by (simp add: unseen_def)
  then show ?thesis using assms by (simp add: snode_ok_def)
qed

lemma marker_inv:
  assumes inv: "snap_inv n tot k s" and ip: "i < n" "p < n" "p \<noteq> i" and c: "ss_chan s p i = m # rest" "marker m"
    and s': "s' = handleMarker i p (s\<lparr>ss_chan := (ss_chan s)(p := (ss_chan s p)(i := rest))\<rparr>)"
  shows "snap_inv n tot k s'"
proof -
  note D = snap_invD [OF inv]
  let ?t = "s\<lparr>ss_chan := (ss_chan s)(p := (ss_chan s p)(i := rest))\<rparr>" and ?nd = "ss_node s i"
  have len: "length (sn_markerSeen ?nd) = n" and th: "sn_thread ?nd i = NotStarted" using snode_okD(1,2) [OF D(2) [OF ip(1)]] .
  have unseen_p: "\<not> sn_markerSeen ?nd ! p" "recorded (ss_node s p)" "length (filter marker rest) = 0"
    using D(3) [OF ip(2,1,3)] c by (auto simp: chan_ok_def split: if_splits)
  have "p \<in> unseen n i ?nd" using unseen_p(1) ip by (simp add: unseen_def)
  then have open_i: "sn_result ?nd = None" using snode_okD(8) [OF D(2) [OF ip(1)]] by blast
  have k: "0 < k" using D(5) [OF ip(2) unseen_p(2)] .
  show ?thesis
  proof (cases "sn_snapshotting ?nd")
    case False
    then have fresh: "\<not> recorded ?nd" using open_i by (simp add: recorded_def)
    let ?out = "int (length (snapshot_peers n i)) - 1"
    let ?r = "record_state n ?out ?nd"
    have node: "ss_node s' i = ?r\<lparr>sn_markerSeen := (replicate n False)[p := True], sn_resultReady := (?out = 0)\<rparr>"
      using False snode_okD(4) [OF D(2) [OF ip(1)] fresh] by (simp add: s' handleMarker_def Let_def D(1) record_state_def)
    have R: "records_at i (Some p) s s'" using False D(1) c ip
      by (auto simp: records_at_def s' handleMarker_def Let_def record_state_def recorded_def note_missed_def nth_list_update)
    have u: "int (card (unseen n i (ss_node s' i))) = int (card (unseen n i ?r)) - 1"
      using ip by (intro card_unseen_upd [of p]) (simp_all add: node record_state_def)
    have card: "int (card (unseen n i (ss_node s' i))) = ?out"
      using u unseen_fresh [of i n ?r] ip(1) by (simp add: record_state_def length_peers)
    moreover have "sn_result (ss_node s' i) = None" "sn_resultReady (ss_node s' i) = (?out = 0)" "recorded (ss_node s' i)"
      "sn_thread (ss_node s' i) i = NotStarted" "length (sn_markerSeen (ss_node s' i)) = n" "sn_markersOutstanding (ss_node s' i) = ?out"
      using open_i th by (simp_all add: node record_state_def recorded_def)
    ultimately have "snode_ok n i (ss_node s' i)" by (intro snode_ok_open) simp_all
    then show ?thesis using records_at_inv [OF inv ip(1) fresh R, of "k - 1"] ip c k by simp
  next
    case True
    let ?nd' = "?nd\<lparr>sn_markerSeen := (sn_markerSeen ?nd)[p := True], sn_markersOutstanding := sn_markersOutstanding ?nd - 1,
      sn_resultReady := (sn_resultReady ?nd \<or> sn_markersOutstanding ?nd - 1 = 0)\<rparr>"
    have s'': "s' = set_node i ?nd' ?t" using True unseen_p(1) by (simp add: s' handleMarker_def Let_def)
    have rec: "recorded (ss_node s' j) = recorded (ss_node s j)" for j by (simp add: s'' recorded_def)
    have seen: "sn_markerSeen (ss_node s' j) = (if j = i then (sn_markerSeen ?nd)[p := True] else sn_markerSeen (ss_node s j))" for j by (simp add: s'')
    have chan: "ss_chan s' a b = (if a = p \<and> b = i then rest else ss_chan s a b)" for a b by (simp add: s'')
    have cut: "cut_sum s' a b = cut_sum s a b" for a b
      unfolding cut_sum_def seen chan using c unseen_p len ip by (auto simp: nth_list_update)
    show ?thesis
    proof (rule snap_invI)
      show "sys_total s' = tot" using total_step [of s' s i i i] cut D(1,4) ip
        by (simp add: s'' node_value_def applying_sum_def)
      show "chan_ok s' a b" if "a < n" "b < n" "a \<noteq> b" for a b
        using D(3) [OF that] unseen_p len ip unfolding chan_ok_def rec seen chan by (auto simp: nth_list_update)
      note card = card_unseen_upd [OF ip(2,3) unseen_p(1) len, of ?nd', simplified]
      have "sn_markersOutstanding ?nd' = int (card (unseen n i ?nd'))"
        using snode_okD(6) [OF D(2) [OF ip(1)]] card(1) True by (simp add: recorded_def)
      moreover have "\<not> sn_resultReady ?nd" using snode_okD(7) [OF D(2) [OF ip(1)]] card(2) by blast
      moreover have "recorded ?nd'" "sn_result ?nd' = None" "length (sn_markerSeen ?nd') = n" "sn_thread ?nd' i = NotStarted"
        using True open_i len th by (simp_all add: recorded_def)
      ultimately have "snode_ok n i ?nd'" by (intro snode_ok_open) simp_all
      then show "snode_ok n a (ss_node s' a)" if "a < n" for a using D(2) [OF that] by (simp add: s'')
    qed (use D(1,5,6) rec s'' in auto)
  qed
qed

text \<open>A message that is no marker leaves its channel: it leaves the cut if the marker has not been seen.\<close>

lemma cut_receive:
  assumes "ss_chan s p i = m # rest" "\<not> marker m" "ss_chan s' p i = rest" "sn_markerSeen (ss_node s' i) = sn_markerSeen (ss_node s i)"
  shows "cut_sum s p i = cut_sum s' p i + (if sn_markerSeen (ss_node s i) ! p then 0 else transfer_of m)"
  using assms by (simp add: cut_sum_def)

lemma receive_inv:
  assumes inv: "snap_inv n tot k s" and ip: "i < n" "p < n" "p \<noteq> i" and c: "ss_chan s p i = m # rest" "\<not> marker m"
    and s': "s' = set_node i nd' (s\<lparr>ss_chan := (ss_chan s)(p := (ss_chan s p)(i := rest))\<rparr>)"
    and same: "recorded nd' = recorded (ss_node s i)" "sn_markerSeen nd' = sn_markerSeen (ss_node s i)" "snode_ok n i nd'"
    and nv: "node_value n nd' = node_value n (ss_node s i) + (if sn_markerSeen (ss_node s i) ! p then 0 else transfer_of m)"
  shows "snap_inv n tot k s'"
proof (rule snap_invI)
  note D = snap_invD [OF inv]
  have node: "recorded (ss_node s' l) = recorded (ss_node s l)" "sn_markerSeen (ss_node s' l) = sn_markerSeen (ss_node s l)" for l
    using same by (auto simp: s')
  have chan: "ss_chan s' a b = (if a = p \<and> b = i then rest else ss_chan s a b)" for a b by (simp add: s')
  have cut: "cut_sum s p i = cut_sum s' p i + (if sn_markerSeen (ss_node s i) ! p then 0 else transfer_of m)"
    by (rule cut_receive [OF c]) (simp_all add: chan node)
  have cut': "cut_sum s' a b = cut_sum s a b" if "(a, b) \<noteq> (p, i)" for a b
    using that unfolding cut_sum_def node chan by auto
  have nodes: "ss_node s' i = nd'" "j \<noteq> i \<Longrightarrow> ss_node s' j = ss_node s j" "ss_world s' = n" "ss_missed s' = ss_missed s" for j using D(1) by (simp_all add: s')
  have "sys_total s' = sys_total s"
    by (rule total_step [of s' s i p i]) (use nodes D(1) ip cut cut' nv in \<open>simp_all add: add_ac\<close>)
  then show "sys_total s' = tot" using D(4) by simp
  show "chan_ok s' a b" if "a < n" "b < n" "a \<noteq> b" for a b
    using D(3) [OF that] c unfolding chan_ok_def node chan by (cases "a = p \<and> b = i") auto
  show "snode_ok n a (ss_node s' a)" if "a < n" for a using D(2) [OF that] same(3) nodes by (cases "a = i") auto
  show "0 < k" if "a < n" "recorded (ss_node s' a)" for a using D(5) that node(1) by blast
  show "\<exists>a<n. recorded (ss_node s' a)" if "0 < k" using D(6) [OF that] node(1) by blast
qed (use snap_invD(1) [OF inv] in \<open>simp add: s'\<close>)

lemma applying_next:
  assumes "p < n" "sn_thread nd p = Receiving" "sn_thread nd' = (sn_thread nd)(p := Applying a)"
  shows "applying_sum n nd' = applying_sum n nd + a"
  using applying_sum_upd [OF assms(1), of nd' nd] assms(2,3) by simp

lemma recorded_total_push:
  assumes "p < n" "localState r' = localState r"
    and "channelMessages r' = (channelMessages r)(p \<mapsto> (case channelMessages r p of None \<Rightarrow> [a] | Some xs \<Rightarrow> xs @ [a]))"
  shows "recorded_total n r' = recorded_total n r + a"
proof -
  let ?f = "\<lambda>r q. sum_list (case channelMessages r q of None \<Rightarrow> [] | Some xs \<Rightarrow> xs)"
  have "(\<Sum>q<n. ?f r' q) = (\<Sum>q<n. ?f r q) - ?f r p + ?f r' p" by (rule sum_one_changes) (use assms in auto)
  also have "?f r' p = ?f r p + a" using assms(3) by (simp split: option.splits)
  finally show ?thesis using assms(2) by (simp add: recorded_total_def)
qed

lemma step_receive_inv:
  assumes inv: "snap_inv n tot k s" and st: "snap_step (Receive i p) s = Some s'"
  shows "snap_inv n tot k s'"
proof -
  note D = snap_invD [OF inv]
  let ?nd = "ss_node s i"
  have ip: "i < n" "p < n" "p \<noteq> i" and rcv: "sn_thread ?nd p = Receiving" and st: "receiverLoop_step i p s = Some s'"
    using st D(1) by (auto simp: is_peer_def split: if_splits)
  obtain m rest where c: "ss_chan s p i = m # rest" using st by (auto simp: receiverLoop_step_def split: list.splits)
  let ?t = "s\<lparr>ss_chan := (ss_chan s)(p := (ss_chan s p)(i := rest))\<rparr>"
  consider "wm_tag m = kTagShutdown" | "marker m" | "wm_tag m \<noteq> kTagShutdown" "\<not> marker m" by blast
  then show ?thesis
  proof cases
    case 1
    let ?nd' = "?nd\<lparr>sn_thread := (sn_thread ?nd)(p := Returned)\<rparr>"
    have s': "s' = set_node i ?nd' ?t" and m: "\<not> marker m" "transfer_of m = 0"
      using st c 1 by (simp_all add: receiverLoop_step_def Let_def transfer_of_def)
    have "applying_sum n ?nd' = applying_sum n ?nd" using applying_sum_upd [OF ip(2), of ?nd' ?nd] rcv by simp
    then show ?thesis using m(2) ip D(2) [OF ip(1)] by (intro receive_inv [OF inv ip c m(1) s']) (simp_all add: node_value_def)
  next
    case 2
    then have "s' = handleMarker i p ?t" using st c by (simp add: receiverLoop_step_def Let_def)
    then show ?thesis using marker_inv [OF inv ip c 2] by blast
  next
    case 3
    let ?a = "wm_amount m" and ?cur = "sn_current ?nd"
    define cur' where "cur' = (if sn_snapshotting ?nd \<and> \<not> sn_markerSeen ?nd ! p
      then ?cur\<lparr>channelMessages := (channelMessages ?cur)(p \<mapsto> (case channelMessages ?cur p of None \<Rightarrow> [?a] | Some xs \<Rightarrow> xs @ [?a]))\<rparr> else ?cur)"
    let ?nd' = "?nd\<lparr>sn_current := cur', sn_thread := (sn_thread ?nd)(p := Applying ?a)\<rparr>"
    have s': "s' = set_node i ?nd' ?t" using st c 3 by (auto simp: receiverLoop_step_def handleTransfer_def Let_def cur'_def)
    have open_i: "sn_snapshotting ?nd" if "recorded ?nd" "\<not> sn_markerSeen ?nd ! p"
    proof -
      have "p \<in> unseen n i ?nd" using that(2) ip by (simp add: unseen_def)
      then have "sn_result ?nd = None" using snode_okD(8) [OF D(2) [OF ip(1)]] by blast
      then show ?thesis using that(1) by (simp add: recorded_def)
    qed
    have "applying_sum n ?nd' = applying_sum n ?nd + ?a" by (rule applying_next [OF ip(2) rcv]) simp
    moreover have "recorded_total n cur' = recorded_total n ?cur + (if sn_markerSeen ?nd ! p then 0 else ?a)" if "recorded ?nd"
      using open_i [OF that] recorded_total_push [OF ip(2), of cur' ?cur ?a] by (auto simp: cur'_def)
    moreover have "\<not> recorded ?nd \<Longrightarrow> \<not> sn_markerSeen ?nd ! p" using snode_okD(3) [OF D(2) [OF ip(1)] _ ip(2)] .
    ultimately have "node_value n ?nd' = node_value n ?nd + (if sn_markerSeen ?nd ! p then 0 else ?a)"
      by (simp add: node_value_def add_ac)
    moreover have "sn_result ?nd \<noteq> None \<longrightarrow> cur' = ?cur" using snode_okD(8) [OF D(2) [OF ip(1)]] ip by (auto simp: cur'_def unseen_def)
    then have "snode_ok n i ?nd'" using D(2) [OF ip(1)] by (simp add: snode_ok_def unseen_def ip(3) [symmetric])
    moreover note calculation
    ultimately show ?thesis using 3 by (intro receive_inv [OF inv ip c _ s']) (simp_all add: transfer_of_def)
  qed
qed

lemma snap_step_inv:
  assumes inv: "snap_inv n tot k s" and st: "snap_step a s = Some s'" and ini: "k + initiations [a] \<le> 1"
  shows "snap_inv n tot (k + initiations [a]) s'"
proof (cases "\<exists>i. a = Initiate i")
  case True
  then obtain i where a: "a = Initiate i" by blast
  then have "k = 0" "initiations [a] = 1" using ini by (simp_all add: initiations_def)
  then show ?thesis using initiate_inv [of n tot s i s'] inv st a by simp
next
  case False
  then have "initiations [a] = 0" by (cases a) (simp_all add: initiations_def)
  moreover have "snap_inv n tot k s'"
    using False st start_inv [OF inv] stop_inv [OF inv] join_inv [OF inv] atomically_inv [OF inv] return_inv [OF inv] thread_inv [OF inv]
      step_receive_inv [OF inv] by (metis snap_action.exhaust)
  ultimately show ?thesis by simp
qed

lemma snap_run_inv:
  "snap_inv n tot k s \<Longrightarrow> snap_run acts s = Some s' \<Longrightarrow> k + initiations acts \<le> 1 \<Longrightarrow> snap_inv n tot (k + initiations acts) s'"
proof (induction acts arbitrary: k s)
  case (Cons a acts)
  then obtain s1 where s1: "snap_step a s = Some s1" "snap_run acts s1 = Some s'" by (auto split: option.splits)
  have sum: "initiations (a # acts) = initiations [a] + initiations acts" by (simp add: initiations_def split: snap_action.split)
  have "snap_inv n tot (k + initiations [a]) s1" using snap_step_inv [OF Cons.prems(1) s1(1)] Cons.prems(3) sum by simp
  then show ?case using Cons.IH [OF _ s1(2), of "k + initiations [a]"] Cons.prems(3) sum by (simp add: add.assoc)
qed (simp add: initiations_def)

lemma snap_new_inv: "snap_inv (length bs) (sum_list bs) 0 (snapshot_sys_new bs)"
proof (rule snap_invI)
  have "(\<Sum>i<length bs. node_value (length bs) (snapshot_node_new (length bs) (bs ! i))) = (\<Sum>i<length bs. bs ! i)"
    by (rule sum.cong) (auto simp: node_value_def recorded_def snapshot_node_new_def applying_sum_def)
  moreover have "cut_sum (snapshot_sys_new bs) i j = 0" for i j by (simp add: cut_sum_def snapshot_sys_new_def)
  ultimately show "sys_total (snapshot_sys_new bs) = sum_list bs"
    by (simp add: sys_total_def snapshot_sys_new_def sum_list_sum_nth atLeast0LessThan)
  show "chan_ok (snapshot_sys_new bs) i j" if "i < length bs" "j < length bs" for i j
    using that by (simp add: chan_ok_def snapshot_sys_new_def recorded_def snapshot_node_new_def)
qed (auto simp: snapshot_sys_new_def snode_ok_def recorded_def snapshot_node_new_def unseen_def)

text \<open>No rank sends to itself.\<close>

lemma handleMarker_self: "ss_chan (handleMarker i p s) a a = ss_chan s a a"
  by (auto simp: handleMarker_def Let_def)

lemma snap_step_self: "snap_step act s = Some s' \<Longrightarrow> ss_chan s a a = [] \<Longrightarrow> ss_chan s' a a = []"
  by (cases act) (auto split: if_splits list.splits receiver.splits simp: snapshot_start_def snapshot_stop_def snapshot_join_def
    atomically_transfer_def sendTransfer_def initiateSnapshot_start_def initiateSnapshot_return_def waitForPassiveSnapshot_def
    receiverLoop_step_def handleMarker_self handleTransfer_def onTransfer_def Let_def is_peer_def)

lemma snap_run_self: "snap_run acts s = Some s' \<Longrightarrow> ss_chan s a a = [] \<Longrightarrow> ss_chan s' a a = []"
  by (induction acts arbitrary: s) (auto split: option.splits dest: snap_step_self)

section \<open>Consistency of a snapshot\<close>

text \<open>Three ranks: a transfer is in flight on one channel when rank 0 starts a snapshot, and every rank returns its result.\<close>

definition demo_balances :: "i64 list" where
  "demo_balances = [100, 100, 100]"

definition demo_start :: "snap_action list" where
  "demo_start = [Start 0, Start 1, Start 2]"

definition demo_markers :: "snap_action list" where
  "demo_markers = [Receive 1 0, Receive 2 0, Receive 0 1, Receive 2 1, Receive 0 2, Receive 1 2, InitiateReturns 0, WaitPassive 1, WaitPassive 2]"

definition demo_snapshot :: "snap_action list" where
  "demo_snapshot = demo_start @ [Atomically 1 0 7, Initiate 0, Receive 0 1, Apply 0 1] @ demo_markers"

text \<open>Rank 1 takes a transfer of rank 2 from its channel before the marker of rank 0 arrives and applies it after recording its state.\<close>

definition race_snapshot :: "snap_action list" where
  "race_snapshot = demo_start @ [Atomically 2 1 7, Receive 1 2, Initiate 0] @ [Receive 1 0, Apply 1 2, Receive 2 0, Receive 0 1, Receive 2 1,
     Receive 0 2, Receive 1 2, InitiateReturns 0, WaitPassive 1, WaitPassive 2]"

text \<open>
  C33. A snapshot accounts for the whole money. In every interleaving of transfers, receiver threads and callers with at
  most one initiated snapshot, once every rank has returned its result the recorded local states and the recorded
  channel messages add up, modulo 2^64, to the initial balances, but for the amounts that a receiver thread held
  between the two halves of \<open>handleTransfer\<close> while its node recorded its state. With two or more ranks the snapshot does
  not get lost: when the channels are empty every caller has returned or can return.
\<close>

theorem snapshot_consistent:
  assumes run: "snap_run acts (snapshot_sys_new balances) = Some s" and one: "initiations acts \<le> 1"
  shows "((\<forall>i<length balances. sn_result (ss_node s i) \<noteq> None) \<longrightarrow>
      (\<Sum>i<length balances. recorded_total (length balances) (the (sn_result (ss_node s i)))) + ss_missed s = sum_list balances) \<and>
    (initiations acts = 1 \<and> 2 \<le> length balances \<and> (\<forall>i<length balances. \<forall>j<length balances. ss_chan s i j = []) \<longrightarrow>
      (\<forall>i<length balances. sn_resultReady (ss_node s i) \<or> sn_result (ss_node s i) \<noteq> None))"
proof (intro conjI impI)
  let ?n = "length balances"
  note D = snap_invD [OF snap_run_inv [OF snap_new_inv run, simplified, OF one [simplified]]]
  have seen: "sn_markerSeen (ss_node s j) ! i" if "unseen ?n j (ss_node s j) = {}" "i < ?n" "i \<noteq> j" for i j
    using that by (auto simp: unseen_def)
  have self: "ss_chan s i i = []" for i by (rule snap_run_self [OF run]) (simp add: snapshot_sys_new_def)
  show "(\<Sum>i<?n. recorded_total ?n (the (sn_result (ss_node s i)))) + ss_missed s = sum_list balances"
    if ret: "\<forall>i<?n. sn_result (ss_node s i) \<noteq> None"
  proof -
    have "node_value ?n (ss_node s i) = recorded_total ?n (the (sn_result (ss_node s i)))" if "i < ?n" for i
      using ret that snode_okD(10) [OF D(2) [OF that]] by (auto simp: node_value_def recorded_def)
    moreover have "cut_sum s i j = 0" if "i < ?n" "j < ?n" for i j
      using seen [OF snode_okD(8) [OF D(2) [OF that(2)]] that(1)] ret that self by (cases "i = j") (auto simp: cut_sum_def)
    moreover have "(\<Sum>(i, j)\<in>{..<?n} \<times> {..<?n}. cut_sum s i j) = 0" using calculation(2) by (intro sum.neutral) auto
    ultimately show ?thesis using D(4) by (simp add: sys_total_def D(1))
  qed
  show "\<forall>i<?n. sn_resultReady (ss_node s i) \<or> sn_result (ss_node s i) \<noteq> None"
    if all: "initiations acts = 1 \<and> 2 \<le> ?n \<and> (\<forall>i<?n. \<forall>j<?n. ss_chan s i j = [])"
  proof -
    obtain i where i: "i < ?n" "recorded (ss_node s i)" using D(6) all by auto
    have arrived: "sn_markerSeen (ss_node s j) ! a" if "recorded (ss_node s a)" "a < ?n" "j < ?n" "a \<noteq> j" for a j
      using D(3) [OF that(2-4)] all that by (auto simp: chan_ok_def split: if_splits)
    have rec: "recorded (ss_node s j)" if "j < ?n" for j
      using arrived [OF i(2,1) that] snode_okD(3) [OF D(2) [OF that] _ i(1)] i(2) by blast
    have "unseen ?n j (ss_node s j) = {}" if "j < ?n" for j using arrived rec that by (auto simp: unseen_def)
    then show ?thesis using snode_okD(9) [OF D(2)] rec all by blast
  qed
qed

lemma demo_returns:
  "case snap_run demo_snapshot (snapshot_sys_new demo_balances) of None \<Rightarrow> False
   | Some s \<Rightarrow> list_all (\<lambda>i. \<not> Option.is_none (sn_result (ss_node s i))) [0, 1, 2] \<and> ss_missed s = 0"
  by code_simp

theorem snapshot_consistent_witness:
  "case snap_run demo_snapshot (snapshot_sys_new demo_balances) of None \<Rightarrow> False
   | Some s \<Rightarrow> (\<Sum>i<3. recorded_total 3 (the (sn_result (ss_node s i)))) = 300"
proof -
  obtain s where run: "snap_run demo_snapshot (snapshot_sys_new demo_balances) = Some s" and missed: "ss_missed s = 0"
    and ret: "sn_result (ss_node s 0) \<noteq> None" "sn_result (ss_node s 1) \<noteq> None" "sn_result (ss_node s 2) \<noteq> None"
    using demo_returns by (auto split: option.splits simp: Option.is_none_def)
  have "initiations demo_snapshot \<le> 1" by code_simp
  moreover have "\<forall>i<3. sn_result (ss_node s i) \<noteq> None" using ret by (auto simp: numeral_3_eq_3 less_Suc_eq numeral_2_eq_2)
  moreover have len: "length demo_balances = 3" "sum_list demo_balances = 300" by (simp_all add: demo_balances_def)
  ultimately show ?thesis using snapshot_consistent [OF run, unfolded len] missed unfolding run option.case by simp
qed

section \<open>Where the code falls short\<close>

text \<open>
  \<open>handleTransfer\<close> releases the mutex before it applies the amount. In this run rank 1 records its state in between: 7
  units are in no local state and on no channel of the snapshot.
\<close>

lemma snapshot_race_loses_money:
  "case snap_run race_snapshot (snapshot_sys_new demo_balances) of None \<Rightarrow> False
   | Some s \<Rightarrow> list_all (\<lambda>i. \<not> Option.is_none (sn_result (ss_node s i))) [0, 1, 2] \<and> ss_missed s = 7 \<and>
      sum_list (map (\<lambda>i. case sn_result (ss_node s i) of None \<Rightarrow> 0 | Some r \<Rightarrow> localState r + sum_list (map (\<lambda>p. case channelMessages r p of None \<Rightarrow> 0 | Some xs \<Rightarrow> sum_list xs) [0, 1, 2])) [0, 1, 2]) = 293"
  by code_simp

text \<open>A rank without peers waits for ever: nothing sets \<open>resultReady_\<close> after \<open>initiateSnapshot\<close> has cleared it.\<close>

lemma lone_step_not_ready:
  assumes "snap_step a s = Some s'" "ss_world s = 1" "\<not> sn_resultReady (ss_node s 0)"
  shows "ss_world s' = 1 \<and> \<not> sn_resultReady (ss_node s' 0)"
  using assms by (cases a) (auto split: if_splits receiver.splits simp: snapshot_start_def snapshot_stop_def snapshot_join_def
    atomically_transfer_def sendTransfer_def initiateSnapshot_start_def initiateSnapshot_return_def waitForPassiveSnapshot_def
    onTransfer_def Let_def is_peer_def record_state_def)

lemma lone_snapshot_never_returns:
  assumes "snap_run acts (snapshot_sys_new [b]) = Some s"
  shows "snap_step (InitiateReturns 0) s = None"
proof -
  have "snap_run acts s0 = Some s \<Longrightarrow> ss_world s0 = 1 \<Longrightarrow> \<not> sn_resultReady (ss_node s0 0) \<Longrightarrow> \<not> sn_resultReady (ss_node s 0)" for s0
    by (induction acts arbitrary: s0) (auto split: option.splits, use lone_step_not_ready in fastforce)
  then show ?thesis using assms by (simp add: snapshot_sys_new_def snapshot_node_new_def)
qed

text \<open>
  \<open>initiateSnapshot\<close> leaves \<open>resultReady_\<close> set: a later \<open>waitForPassiveSnapshot\<close> on the same node returns the finished
  snapshot at once instead of waiting for the next one.
\<close>

lemma initiator_returns_stale_snapshot:
  assumes "snap_step (InitiateReturns i) s = Some s1"
  shows "\<exists>s2. snap_step (WaitPassive i) s1 = Some s2 \<and> sn_result (ss_node s2 i) = sn_result (ss_node s1 i)"
  using assms by (auto split: if_splits simp: initiateSnapshot_return_def waitForPassiveSnapshot_def Let_def)

end
