(* ===== verification/Halving_Doubling.thy ===== *)
theory Halving_Doubling
  imports Collectives
begin

text \<open>
  \<open>networking/halving_doubling\<close>: reduce-scatter by recursive halving, then all-gather by recursive doubling, with the
  ring as fallback when the number of ranks is no power of two. As for the other collectives the loops build the
  operations of a rank, and elements are of any type with an addition. A read or write outside the buffer makes the
  whole program \<open>None\<close>.
\<close>

section \<open>Operations\<close>

definition isPowerOfTwo :: "nat \<Rightarrow> bool" where
  "isPowerOfTwo n \<longleftrightarrow> 0 < n \<and> n AND (n - 1) = 0"

text \<open>One exchange of a pair: the lower rank sends first.\<close>

definition pair_exchange :: "nat \<Rightarrow> nat \<Rightarrow> 'b \<Rightarrow> 'b \<Rightarrow> 'b list" where
  "pair_exchange rank partner doSend doRecv = (if rank < partner then [doSend, doRecv] else [doRecv, doSend])"

text \<open>The first loop returns the operations with the final \<open>myOffset\<close> and \<open>myCount\<close>.\<close>

function hd_reduce :: "nat \<Rightarrow> nat \<Rightarrow> nat \<Rightarrow> nat \<Rightarrow> ('a :: plus ring_state, 'a list) rank_op list \<times> nat \<times> nat" where
  "hd_reduce rank msk myOffset myCount =
    (if msk = 0 then ([], myOffset, myCount)
     else let partner = rank XOR msk; keepLower = (rank AND msk = 0);
              lowerCount = myCount div 2; upperCount = myCount - lowerCount;
              (sendCount, sendOffset, recvCount, recvOffset) =
                (if keepLower then (upperCount, myOffset + lowerCount, lowerCount, myOffset)
                 else (lowerCount, myOffset, upperCount, myOffset + lowerCount));
              (ops, off, cnt) = hd_reduce rank (msk div 2) recvOffset recvCount
          in (pair_exchange rank partner (Send partner (\<lambda>(buf, tmp). chunk sendOffset sendCount buf))
                (Recv partner (\<lambda>(buf, tmp) m. (buf, m))) @
              Local (\<lambda>(buf, tmp). (add_chunk recvOffset (take recvCount tmp) buf, tmp)) # ops, off, cnt))"
  by auto
termination by (relation "measure (\<lambda>(rank, msk, _). msk)") auto

declare hd_reduce.simps [simp del]

function hd_gather :: "nat \<Rightarrow> nat \<Rightarrow> nat \<Rightarrow> nat \<Rightarrow> nat \<Rightarrow> nat \<Rightarrow> ('a ring_state, 'a list) rank_op list option" where
  "hd_gather count p rank msk myOffset myCount =
    (if 0 < msk \<and> msk < p then
       let partner = rank XOR msk in
       if rank < partner then
         let partnerOffset = myOffset + myCount in
         if partnerOffset + myCount > count then None
         else map_option ((@) (pair_exchange rank partner (Send partner (\<lambda>(buf, tmp). chunk myOffset myCount buf))
                (Recv partner (\<lambda>(buf, tmp) m. (put_chunk partnerOffset (take myCount m) buf, tmp)))))
              (hd_gather count p rank (2 * msk) myOffset (2 * myCount))
       else if myOffset < myCount \<or> myOffset + myCount > count then None
       else let partnerOffset = myOffset - myCount; myOffset = partnerOffset in
         map_option ((@) (pair_exchange rank partner (Send partner (\<lambda>(buf, tmp). chunk (myOffset + myCount) myCount buf))
                (Recv partner (\<lambda>(buf, tmp) m. (put_chunk partnerOffset (take myCount m) buf, tmp)))))
              (hd_gather count p rank (2 * msk) myOffset (2 * myCount))
     else Some [])"
  by auto
termination by (relation "measure (\<lambda>(count, p, rank, msk, _). p - msk)") auto

declare hd_gather.simps [simp del]

definition halving_doubling_allreduce :: "nat \<Rightarrow> nat \<Rightarrow> nat \<Rightarrow> ('a :: plus ring_state, 'a list) rank_op list option" where
  "halving_doubling_allreduce count p rank =
    (if p \<le> 1 then Some []
     else if \<not> isPowerOfTwo p then Some (ring_allreduce count p rank)
     else let (ops, myOffset, myCount) = hd_reduce rank (p div 2) 0 count in
       map_option ((@) ops) (hd_gather count p rank 1 myOffset myCount))"

section \<open>Partners and blocks\<close>

abbreviation hd_partner :: "nat \<Rightarrow> nat \<Rightarrow> nat" where
  "hd_partner L r \<equiv> r XOR 2 ^ L"

text \<open>At level \<open>L\<close> rank \<open>r\<close> works on the block of \<open>2 ^ L\<close> slices of \<open>sc\<close> elements that contains slice \<open>r\<close>.\<close>

definition blk :: "nat \<Rightarrow> nat \<Rightarrow> nat \<Rightarrow> nat" where
  "blk sc L r = r div 2 ^ L * (sc * 2 ^ L)"

lemma partner_div: "L < M \<Longrightarrow> hd_partner L r div 2 ^ M = r div 2 ^ M"
  unfolding drop_bit_eq_div [symmetric] drop_bit_xor by (simp add: drop_bit_eq_div)

lemma partner_mod: "M \<le> L \<Longrightarrow> hd_partner L r mod 2 ^ M = r mod 2 ^ M"
  unfolding take_bit_eq_mod [symmetric] take_bit_xor by (simp add: take_bit_eq_mod le_imp_power_dvd)

lemma partner_partner [simp]: "hd_partner L (hd_partner L r) = (r :: nat)"
  by (simp add: xor.assoc)

lemma partner_less: "L < K \<Longrightarrow> r < 2 ^ K \<Longrightarrow> hd_partner L r < 2 ^ K"
  using partner_div [of L K r] by (metis div_eq_0_iff power_not_zero zero_neq_numeral)

lemma partner_eq: "hd_partner L r = (if even (r div 2 ^ L) then r + 2 ^ L else r - 2 ^ L)"
proof (cases "even (r div 2 ^ L)")
  case True
  then have "\<not> bit r L" by (simp add: bit_iff_odd)
  then have "hd_partner L r = r OR 2 ^ L" by (intro bit_eqI) (auto simp: bit_simps)
  then show ?thesis using True or_mask by simp
next
  case False
  then have "bit r L" by (simp add: bit_iff_odd)
  then have "\<not> bit (hd_partner L r) L" by (simp add: bit_simps)
  then have "even (hd_partner L r div 2 ^ L)" by (simp add: bit_iff_odd)
  moreover have "r = hd_partner L r OR 2 ^ L" by (intro bit_eqI) (use \<open>bit r L\<close> in \<open>auto simp: bit_simps\<close>)
  ultimately have "r = hd_partner L r + 2 ^ L" using or_mask by metis
  then show ?thesis using False by simp
qed

lemma odd_ge: "odd ((r :: nat) div 2 ^ L) \<Longrightarrow> 2 ^ L \<le> r"
  by (metis div_less even_zero not_less)

lemma partner_order: "r < hd_partner L r \<longleftrightarrow> even (r div 2 ^ L)"
  unfolding partner_eq using zero_less_power [of "2 :: nat" L] by auto

lemma partner_neq [simp]: "hd_partner L r \<noteq> r" "r \<noteq> hd_partner L r"
proof -
  have "bit (hd_partner L r) L \<noteq> bit r L" by (simp add: bit_simps)
  then show "hd_partner L r \<noteq> r" "r \<noteq> hd_partner L r" by metis+
qed

lemma blk_partner: "blk sc L (hd_partner L r) = (if even (r div 2 ^ L) then blk sc L r + sc * 2 ^ L else blk sc L r - sc * 2 ^ L)"
proof (cases "even (r div 2 ^ L)")
  case True
  then have "hd_partner L r div 2 ^ L = r div 2 ^ L + 1" unfolding partner_eq using div_add_self2 [of "2 ^ L" r] by simp
  then show ?thesis using True by (simp add: blk_def algebra_simps)
next
  case False
  then have "hd_partner L r div 2 ^ L = r div 2 ^ L - 1" unfolding partner_eq using odd_ge [OF False] by (simp add: le_div_geq)
  then show ?thesis using False by (simp add: blk_def diff_mult_distrib)
qed

lemma blk_Suc: "blk sc (Suc L) r = (if even (r div 2 ^ L) then blk sc L r else blk sc L r - sc * 2 ^ L)"
proof -
  have "r div 2 ^ Suc L = r div 2 ^ L div 2" by (simp add: power_Suc2 div_mult2_eq del: power_Suc)
  then have b: "blk sc (Suc L) r = r div 2 ^ L div 2 * 2 * (sc * 2 ^ L)" by (simp add: blk_def)
  show ?thesis
  proof (cases "even (r div 2 ^ L)")
    case False
    then have "r div 2 ^ L div 2 * 2 = r div 2 ^ L - 1" using odd_two_times_div_two_nat by (simp add: mult.commute)
    then show ?thesis using False unfolding b by (simp add: blk_def diff_mult_distrib)
  qed (use b in \<open>simp add: blk_def\<close>)
qed

lemma blk_ge: "odd (r div 2 ^ L) \<Longrightarrow> sc * 2 ^ L \<le> blk sc L r"
  by (cases "r div 2 ^ L") (auto simp: blk_def)

lemma blk_fits: "L \<le> K \<Longrightarrow> r < 2 ^ K \<Longrightarrow> blk sc L r + sc * 2 ^ L \<le> sc * 2 ^ K"
proof -
  assume L: "L \<le> K" and r: "r < 2 ^ K"
  have K: "2 ^ K = 2 ^ (K - L) * (2 ^ L :: nat)" using L by (simp add: power_add [symmetric])
  then have "r div 2 ^ L < 2 ^ (K - L)" using r by (simp add: less_mult_imp_div_less)
  then have "Suc (r div 2 ^ L) * (sc * 2 ^ L) \<le> 2 ^ (K - L) * (sc * 2 ^ L)" by (intro mult_right_mono) auto
  then show ?thesis using K by (simp add: blk_def algebra_simps)
qed

section \<open>The loops as rounds\<close>

definition hs_ops :: "nat \<Rightarrow> nat \<Rightarrow> nat \<Rightarrow> ('a :: plus ring_state, 'a list) rank_op list" where
  "hs_ops sc L r = (let q = hd_partner L r in
     pair_exchange r q (Send q (\<lambda>(buf, tmp). chunk (blk sc L q) (sc * 2 ^ L) buf)) (Recv q (\<lambda>(buf, tmp) m. (buf, m))) @
     [Local (\<lambda>(buf, tmp). (add_chunk (blk sc L r) (take (sc * 2 ^ L) tmp) buf, tmp))])"

definition dg_ops :: "nat \<Rightarrow> nat \<Rightarrow> nat \<Rightarrow> ('a ring_state, 'a list) rank_op list" where
  "dg_ops sc L r = (let q = hd_partner L r in
     pair_exchange r q (Send q (\<lambda>(buf, tmp). chunk (blk sc L r) (sc * 2 ^ L) buf))
       (Recv q (\<lambda>(buf, tmp) m. (put_chunk (blk sc L q) (take (sc * 2 ^ L) m) buf, tmp))))"

lemma hd_reduce_rounds:
  "hd_reduce r (2 ^ L div 2) (blk sc L r) (sc * 2 ^ L) = (concat (map (\<lambda>L. hs_ops sc L r) (rev [0..<L])), blk sc 0 r, sc)"
proof (induction L)
  case 0
  then show ?case by (subst hd_reduce.simps) (simp add: blk_def)
next
  case (Suc L)
  have half: "sc * 2 ^ Suc L div 2 = sc * 2 ^ L" "sc * 2 ^ Suc L - sc * 2 ^ L = sc * 2 ^ L" by simp_all
  have bit: "r AND 2 ^ L = 0 \<longleftrightarrow> even (r div 2 ^ L)" by (simp add: and_mask)
  have off: "blk sc (Suc L) r + (if even (r div 2 ^ L) then 0 else sc * 2 ^ L) = blk sc L r"
    "blk sc (Suc L) r + (if even (r div 2 ^ L) then sc * 2 ^ L else 0) = blk sc L (hd_partner L r)"
    using blk_ge [of r L sc] by (auto simp: blk_Suc blk_partner)
  show ?case
    by (subst hd_reduce.simps) (use off Suc.IH in \<open>auto simp: half bit Let_def hs_ops_def\<close>)
qed

lemma hd_gather_rounds:
  assumes "r < 2 ^ K" "L \<le> K"
  shows "hd_gather (sc * 2 ^ K) (2 ^ K) r (2 ^ L) (blk sc L r) (sc * 2 ^ L) = (Some (concat (map (\<lambda>L. dg_ops sc L r) [L..<K])) :: ('a ring_state, 'a list) rank_op list option)"
  using assms(2)
proof (induction "K - L" arbitrary: L)
  case 0
  then show ?case by (subst hd_gather.simps) simp
next
  case (Suc d)
  then have L: "L < K" by simp
  have IH: "hd_gather (sc * 2 ^ K) (2 ^ K) r (2 ^ Suc L) (blk sc (Suc L) r) (sc * 2 ^ Suc L) = (Some (concat (map (\<lambda>L. dg_ops sc L r) [Suc L..<K])) :: ('a ring_state, 'a list) rank_op list option)"
    by (rule Suc(1)) (use Suc(2) in simp_all)
  have "sc * 2 ^ Suc L = 2 * (sc * 2 ^ L)" by simp
  note IH = IH [unfolded this]
  have upt: "[L..<K] = L # [Suc L..<K]" using L by (simp add: upt_conv_Cons)
  have fit: "blk sc L r + sc * 2 ^ L \<le> sc * 2 ^ K" "blk sc L (hd_partner L r) + sc * 2 ^ L \<le> sc * 2 ^ K"
    using blk_fits [of L K] assms(1) L partner_less [OF L assms(1)] by auto
  show ?case
  proof (cases "even (r div 2 ^ L)")
    case True
    then show ?thesis using IH fit L by (subst hd_gather.simps) (simp add: Let_def partner_order blk_partner blk_Suc dg_ops_def upt)
  next
    case False
    then show ?thesis using IH fit L blk_ge [OF False, of sc]
      by (subst hd_gather.simps) (simp add: Let_def partner_order blk_partner blk_Suc dg_ops_def upt)
  qed
qed

text \<open>The operations with their times: in a round of a pair the message of the lower rank goes first.\<close>

definition pair_times :: "nat \<Rightarrow> nat \<Rightarrow> nat \<Rightarrow> ('s, 'm) rank_op \<Rightarrow> ('s, 'm) rank_op \<Rightarrow> (nat \<times> ('s, 'm) rank_op) list" where
  "pair_times t r q snd_op rcv_op = pair_exchange r q (if r < q then t else Suc t, snd_op) (if r < q then Suc t else t, rcv_op)"

lemma pair_times_snd [simp]: "map snd (pair_times t r q a b) = pair_exchange r q a b"
  by (simp add: pair_times_def pair_exchange_def)

lemma pair_times_sorted: "sorted_wrt (<) (map fst (pair_times t r q a b))"
  by (simp add: pair_times_def pair_exchange_def)

lemma pair_times_window: "(u, c) \<in> set (pair_times t r q a b) \<Longrightarrow> (c = a \<or> c = b) \<and> t \<le> u \<and> u \<le> Suc t"
  by (auto simp: pair_times_def pair_exchange_def split: if_splits)

lemma pair_times_match:
  assumes "d \<noteq> q"
  shows "stimes (pair_times t q (P q) (Send (P q) f) (Recv (P q) g)) d = (if d = P q then [if q < d then t else Suc t] else [])"
    "rtimes (pair_times t d (P d) (Send (P d) f) (Recv (P d) g)) q = (if q = P d then [if q < d then t else Suc t] else [])"
  using assms by (auto simp: pair_times_def pair_exchange_def)

definition hs_rnd :: "nat \<Rightarrow> nat \<Rightarrow> nat \<Rightarrow> nat \<Rightarrow> (nat \<times> ('a :: plus ring_state, 'a list) rank_op) list" where
  "hs_rnd sc K r k = (let L = K - 1 - k; q = hd_partner L r in
     pair_times (3 * k) r q (Send q (\<lambda>(buf, tmp). chunk (blk sc L q) (sc * 2 ^ L) buf)) (Recv q (\<lambda>(buf, tmp) m. (buf, m))) @
     [(3 * k + 2, Local (\<lambda>(buf, tmp). (add_chunk (blk sc L r) (take (sc * 2 ^ L) tmp) buf, tmp)))])"

definition dg_rnd :: "nat \<Rightarrow> nat \<Rightarrow> nat \<Rightarrow> (nat \<times> ('a ring_state, 'a list) rank_op) list" where
  "dg_rnd sc r k = (let q = hd_partner k r in
     pair_times (2 * k) r q (Send q (\<lambda>(buf, tmp). chunk (blk sc k r) (sc * 2 ^ k) buf))
       (Recv q (\<lambda>(buf, tmp) m. (put_chunk (blk sc k q) (take (sc * 2 ^ k) m) buf, tmp))))"

text \<open>The buffers after \<open>k\<close> rounds.\<close>

fun hs_buf :: "nat \<Rightarrow> nat \<Rightarrow> (nat \<Rightarrow> 'a :: plus list) \<Rightarrow> nat \<Rightarrow> nat \<Rightarrow> 'a list" where
  "hs_buf sc K x 0 r = x r"
| "hs_buf sc K x (Suc k) r = (let L = K - 1 - k in
     add_chunk (blk sc L r) (chunk (blk sc L r) (sc * 2 ^ L) (hs_buf sc K x k (hd_partner L r))) (hs_buf sc K x k r))"

fun hs_tmp :: "nat \<Rightarrow> nat \<Rightarrow> (nat \<Rightarrow> 'a :: plus list) \<Rightarrow> nat \<Rightarrow> nat \<Rightarrow> 'a list" where
  "hs_tmp sc K x 0 r = []"
| "hs_tmp sc K x (Suc k) r = (let L = K - 1 - k in chunk (blk sc L r) (sc * 2 ^ L) (hs_buf sc K x k (hd_partner L r)))"

definition hs_msg :: "nat \<Rightarrow> nat \<Rightarrow> (nat \<Rightarrow> 'a :: plus list) \<Rightarrow> nat \<Rightarrow> nat \<Rightarrow> nat \<Rightarrow> 'a list" where
  "hs_msg sc K x q d t = (let k = t div 3; L = K - 1 - k in chunk (blk sc L d) (sc * 2 ^ L) (hs_buf sc K x k q))"

fun dg_buf :: "nat \<Rightarrow> (nat \<Rightarrow> 'a list) \<Rightarrow> nat \<Rightarrow> nat \<Rightarrow> 'a list" where
  "dg_buf sc y 0 r = y r"
| "dg_buf sc y (Suc k) r = (let q = hd_partner k r in
     put_chunk (blk sc k q) (chunk (blk sc k q) (sc * 2 ^ k) (dg_buf sc y k q)) (dg_buf sc y k r))"

definition dg_msg :: "nat \<Rightarrow> (nat \<Rightarrow> 'a list) \<Rightarrow> nat \<Rightarrow> nat \<Rightarrow> nat \<Rightarrow> 'a list" where
  "dg_msg sc y q d t = (let k = t div 2 in chunk (blk sc k q) (sc * 2 ^ k) (dg_buf sc y k q))"

lemma take_chunk [simp]: "take sz (chunk st sz buf) = chunk st sz buf"
  by (simp add: chunk_def)

lemma partner_eq_iff: "q = hd_partner L d \<longleftrightarrow> d = hd_partner L q"
  by (metis partner_partner)

lemma times_third [simp]: "3 * k div 3 = k" "Suc (3 * k) div 3 = (k :: nat)" "Suc (2 * k) div 2 = k"
  by simp_all

interpretation halving: round_net "2 ^ K" K 3 "hs_rnd sc K" "\<lambda>r k. (hs_buf sc K x k r, hs_tmp sc K x k r)" "hs_msg sc K x"
  for sc K :: nat and x :: "nat \<Rightarrow> 'a :: plus list"
proof
  fix r q p k t :: nat and a :: "('a ring_state, 'a list) rank_op"
  assume k: "k < K"
  let ?L = "K - 1 - k"
  have L: "?L < K" using k by simp
  show "sorted_wrt (<) (map fst (hs_rnd sc K r k :: (nat \<times> ('a ring_state, 'a list) rank_op) list))"
    using pair_times_sorted [of "3 * k" r "hd_partner ?L r"]
    by (auto simp: hs_rnd_def Let_def sorted_wrt_append dest: pair_times_window)
  show "plays (hs_msg sc K x) r (hs_buf sc K x k r, hs_tmp sc K x k r) (hs_rnd sc K r k) (hs_buf sc K x (Suc k) r, hs_tmp sc K x (Suc k) r)"
    by (auto simp: hs_rnd_def pair_times_def pair_exchange_def hs_msg_def Let_def)
  show "3 * k \<le> t \<and> t < 3 * k + 3" if "(t, a) \<in> set (hs_rnd sc K r k)"
    using that by (auto simp: hs_rnd_def Let_def dest: pair_times_window)
  show "q < 2 ^ K" if "r < 2 ^ K" "(t, a) \<in> set (hs_rnd sc K r k)" "op_partner a = Some q"
    using that partner_less [OF L that(1)] by (auto simp: hs_rnd_def Let_def dest!: pair_times_window)
  show "stimes (hs_rnd sc K q k :: (nat \<times> ('a ring_state, 'a list) rank_op) list) p = rtimes (hs_rnd sc K p k :: (nat \<times> ('a ring_state, 'a list) rank_op) list) q"
    using partner_eq_iff [where q = q and L = ?L and d = p] by (cases "p = q") (auto simp: hs_rnd_def Let_def pair_times_match pair_times_def pair_exchange_def)
qed

lemma length_dg_buf:
  "(\<And>r. r < 2 ^ K \<Longrightarrow> length (y r) = sc * 2 ^ K) \<Longrightarrow> k \<le> K \<Longrightarrow> r < 2 ^ K \<Longrightarrow> length (dg_buf sc y k r) = sc * 2 ^ K"
proof (induction k arbitrary: r)
  case (Suc k)
  have q: "hd_partner k r < 2 ^ K" using partner_less [of k K r] Suc.prems by simp
  then show ?case using Suc blk_fits [of k K "hd_partner k r" sc] by (simp add: Let_def)
qed simp

text \<open>Receiving the partner's block leaves the own block as it was.\<close>

lemma chunk_put_other:
  assumes "b + length xs \<le> length buf" "a + sz \<le> length buf" "b + length xs \<le> a \<or> a + sz \<le> b"
  shows "chunk a sz (put_chunk b xs buf) = chunk a sz buf"
  by (rule chunk_cong) (use assms in \<open>auto simp: nth_put_chunk\<close>)

lemma dg_own_block:
  assumes "length buf = sc * 2 ^ K" "length m = sc * 2 ^ k" "k < K" "r < 2 ^ K"
  shows "chunk (blk sc k r) (sc * 2 ^ k) (put_chunk (blk sc k (hd_partner k r)) m buf) = chunk (blk sc k r) (sc * 2 ^ k) buf"
  using blk_fits [of k K r sc] blk_fits [of k K "hd_partner k r" sc] partner_less [OF assms(3,4)] assms blk_partner [of sc k r] blk_ge [of r k sc]
  by (intro chunk_put_other) (auto split: if_splits)

interpretation doubling: round_net "2 ^ K" K 2 "dg_rnd sc" "\<lambda>r k. (dg_buf sc (\<lambda>q. map (y q) [0..<sc * 2 ^ K]) k r, tmp r)"
    "dg_msg sc (\<lambda>q. map (y q) [0..<sc * 2 ^ K])"
  for sc K :: nat and y :: "nat \<Rightarrow> nat \<Rightarrow> 'a" and tmp :: "nat \<Rightarrow> 'a list"
proof
  fix r q p k t :: nat and a :: "('a ring_state, 'a list) rank_op"
  assume k: "k < K"
  show "sorted_wrt (<) (map fst (dg_rnd sc r k :: (nat \<times> ('a ring_state, 'a list) rank_op) list))"
    by (simp add: dg_rnd_def Let_def pair_times_sorted)
  let ?y = "\<lambda>q. map (y q) [0..<sc * 2 ^ K]"
  show "plays (dg_msg sc ?y) r (dg_buf sc ?y k r, tmp r) (dg_rnd sc r k) (dg_buf sc ?y (Suc k) r, tmp r)" if r: "r < 2 ^ K"
  proof -
    have q: "hd_partner k r < 2 ^ K" by (rule partner_less [OF k r])
    have len: "length (dg_buf sc ?y k r) = sc * 2 ^ K" "length (dg_buf sc ?y k (hd_partner k r)) = sc * 2 ^ K"
      by (rule length_dg_buf; use k r q in simp)+
    show ?thesis using dg_own_block [OF len(1) _ k r] blk_fits [of k K "hd_partner k r" sc] k q len(2)
      by (auto simp: dg_rnd_def pair_times_def pair_exchange_def dg_msg_def Let_def)
  qed
  show "2 * k \<le> t \<and> t < 2 * k + 2" if "(t, a) \<in> set (dg_rnd sc r k)"
    using that by (auto simp: dg_rnd_def Let_def dest: pair_times_window)
  show "q < 2 ^ K" if "r < 2 ^ K" "(t, a) \<in> set (dg_rnd sc r k)" "op_partner a = Some q"
    using that partner_less [OF k that(1)] by (auto simp: dg_rnd_def Let_def dest!: pair_times_window)
  show "stimes (dg_rnd sc q k :: (nat \<times> ('a ring_state, 'a list) rank_op) list) p = rtimes (dg_rnd sc p k :: (nat \<times> ('a ring_state, 'a list) rank_op) list) q"
    using partner_eq_iff [where q = q and L = k and d = p] by (cases "p = q") (auto simp: dg_rnd_def Let_def pair_times_match pair_times_def pair_exchange_def)
qed

section \<open>What the phases compute\<close>

lemma length_hs_buf [simp]: "(\<And>r. length (x r) = c) \<Longrightarrow> length (hs_buf sc K x k r) = c"
  by (induction k arbitrary: r) (simp_all add: Let_def)

lemma mod_two_blocks: "(q :: nat) mod 2 ^ L = r mod 2 ^ L \<longleftrightarrow> q mod 2 ^ Suc L = r mod 2 ^ Suc L \<or> q mod 2 ^ Suc L = hd_partner L r mod 2 ^ Suc L"
  unfolding take_bit_eq_mod [symmetric]
proof
  assume eq: "take_bit L q = take_bit L r"
  have p: "take_bit L (hd_partner L r) = take_bit L r" using partner_mod [of L L r] by (simp add: take_bit_eq_mod)
  have b: "bit (hd_partner L r) L = (\<not> bit r L)" by (simp add: bit_simps)
  show "take_bit (Suc L) q = take_bit (Suc L) r \<or> take_bit (Suc L) q = take_bit (Suc L) (hd_partner L r)"
    unfolding take_bit_Suc_from_most b p eq by (cases "bit q L"; cases "bit r L") simp_all
next
  have down: "take_bit L (take_bit (Suc L) a) = take_bit L a" for a :: nat by (simp add: min_def)
  assume "take_bit (Suc L) q = take_bit (Suc L) r \<or> take_bit (Suc L) q = take_bit (Suc L) (hd_partner L r)"
  then have "take_bit L q = take_bit L r \<or> take_bit L q = take_bit L (hd_partner L r)" using down by metis
  then show "take_bit L q = take_bit L r" using partner_mod [of L L r] by (simp add: take_bit_eq_mod)
qed

text \<open>After \<open>k\<close> rounds the block of a rank holds the sums over the ranks that agree with it in the low bits.\<close>

lemma hs_sum:
  fixes x :: "nat \<Rightarrow> 'a :: comm_monoid_add list"
  assumes "\<And>r. length (x r) = sc * 2 ^ K" "k \<le> K" "r < 2 ^ K" "blk sc (K - k) r \<le> j" "j < blk sc (K - k) r + sc * 2 ^ (K - k)"
  shows "hs_buf sc K x k r ! j = (\<Sum>q | q < 2 ^ K \<and> q mod 2 ^ (K - k) = r mod 2 ^ (K - k). x q ! j)"
  using assms(2-)
proof (induction k arbitrary: r)
  case 0
  then have "{q. q < 2 ^ K \<and> q mod 2 ^ K = r mod 2 ^ K} = {r}" by auto
  then show ?case by simp
next
  case (Suc k)
  let ?L = "K - Suc k" and ?q = "hd_partner (K - Suc k) r"
  let ?S = "\<lambda>r. {q. q < 2 ^ K \<and> q mod 2 ^ (K - k) = r mod 2 ^ (K - k)}"
  have L: "?L < K" "K - k = Suc ?L" using Suc.prems by simp_all
  have q: "?q < 2 ^ K" by (rule partner_less [OF L(1) Suc.prems(2)])
  have fit: "blk sc ?L r + sc * 2 ^ ?L \<le> sc * 2 ^ K" using blk_fits Suc.prems(2) L(1) by simp
  have in_r: "blk sc (K - k) r \<le> j" "j < blk sc (K - k) r + sc * 2 ^ (K - k)"
    using Suc.prems(3,4) blk_ge [of r ?L sc] unfolding L(2) blk_Suc by (auto split: if_splits)
  moreover have same: "blk sc (K - k) ?q = blk sc (K - k) r" unfolding blk_def L(2) using partner_div [of ?L "Suc ?L" r] by simp
  ultimately have IH: "hs_buf sc K x k r ! j = sum (\<lambda>q. x q ! j) (?S r)" "hs_buf sc K x k ?q ! j = sum (\<lambda>q. x q ! j) (?S ?q)"
    using Suc.IH [of r] Suc.IH [of ?q] q Suc.prems(1,2) by simp_all
  have "hs_buf sc K x (Suc k) r ! j = hs_buf sc K x k r ! j + hs_buf sc K x k ?q ! j"
    using Suc.prems(3,4) fit by (simp add: Let_def nth_add_chunk nth_chunk assms(1))
  also have "\<dots> = sum (\<lambda>q. x q ! j) (?S r \<union> ?S ?q)"
  proof -
    have "r mod 2 ^ Suc ?L \<noteq> ?q mod 2 ^ Suc ?L"
      unfolding take_bit_eq_mod [symmetric] by (auto simp: bit_eq_iff bit_simps)
    then have "?S r \<inter> ?S ?q = {}" unfolding L(2) by auto
    then show ?thesis unfolding IH by (subst sum.union_disjoint) auto
  qed
  also have "?S r \<union> ?S ?q = {q. q < 2 ^ K \<and> q mod 2 ^ ?L = r mod 2 ^ ?L}" unfolding L(2) using mod_two_blocks by blast
  finally show ?case .
qed

text \<open>After \<open>k\<close> rounds of doubling a rank has the slices of its block from their owners.\<close>

lemma dg_slices:
  assumes len: "\<And>r. r < 2 ^ K \<Longrightarrow> length (y r) = sc * 2 ^ K" and "k \<le> K" "r < 2 ^ K" "blk sc k r \<le> j" "j < blk sc k r + sc * 2 ^ k"
  shows "dg_buf sc y k r ! j = y (j div sc) ! j"
  using assms(2-)
proof (induction k arbitrary: r)
  case 0
  then have "j div sc = r" by (simp add: blk_def div_nat_eqI mult.commute)
  then show ?case by simp
next
  case (Suc k)
  let ?q = "hd_partner k r"
  have q: "?q < 2 ^ K" using partner_less Suc.prems by simp
  have fit: "blk sc k ?q + sc * 2 ^ k \<le> sc * 2 ^ K" "blk sc (Suc k) r + sc * 2 ^ Suc k \<le> sc * 2 ^ K"
    using blk_fits [of k K ?q sc] blk_fits [of "Suc k" K r sc] q Suc.prems by auto
  have lens: "length (dg_buf sc y k r) = sc * 2 ^ K" "length (dg_buf sc y k ?q) = sc * 2 ^ K"
    using length_dg_buf [of K y sc k] len q Suc.prems by auto
  have "(blk sc k ?q \<le> j \<and> j < blk sc k ?q + sc * 2 ^ k) \<or> (blk sc k r \<le> j \<and> j < blk sc k r + sc * 2 ^ k \<and> \<not> (blk sc k ?q \<le> j \<and> j < blk sc k ?q + sc * 2 ^ k))"
    using Suc.prems(3,4) blk_ge [of r k sc] unfolding blk_Suc blk_partner by (auto split: if_splits)
  then show ?case
  proof
    assume "blk sc k ?q \<le> j \<and> j < blk sc k ?q + sc * 2 ^ k"
    moreover from this have "j - blk sc k ?q < sc * 2 ^ k" by linarith
    ultimately show ?thesis using Suc.IH [of ?q] Suc.prems q fit lens by (simp add: Let_def nth_put_chunk nth_chunk)
  next
    assume "blk sc k r \<le> j \<and> j < blk sc k r + sc * 2 ^ k \<and> \<not> (blk sc k ?q \<le> j \<and> j < blk sc k ?q + sc * 2 ^ k)"
    then show ?thesis using Suc.IH [of r] Suc.prems q fit lens by (auto simp: Let_def nth_put_chunk nth_chunk)
  qed
qed

section \<open>Correctness\<close>

lemma isPowerOfTwoD: "isPowerOfTwo p \<Longrightarrow> \<exists>K. p = 2 ^ K"
  unfolding isPowerOfTwo_def using pow2_nat by blast

lemma isPowerOfTwo_pow: "isPowerOfTwo (2 ^ K)"
proof -
  have "(2 :: nat) ^ K AND mask K = 0" by (simp add: take_bit_eq_mask [symmetric] take_bit_eq_mod)
  then show ?thesis by (simp add: isPowerOfTwo_def mask_eq_exp_minus_1)
qed

definition hd_annot :: "nat \<Rightarrow> nat \<Rightarrow> nat \<Rightarrow> (nat \<times> ('a :: plus ring_state, 'a list) rank_op) list" where
  "hd_annot sc K r = concat (map (hs_rnd sc K r) [0..<K]) @ shift (3 * K) (concat (map (dg_rnd sc r) [0..<K]))"

lemma rev_levels: "rev [0..<K] = map (\<lambda>k. K - 1 - k) [0..<K]"
  by (rule nth_equalityI) (auto simp: rev_nth)

lemma hs_rnd_snd: "map snd (hs_rnd sc K r k) = hs_ops sc (K - 1 - k) r"
  by (simp add: hs_rnd_def hs_ops_def Let_def)

lemma dg_rnd_snd: "map snd (dg_rnd sc r k) = dg_ops sc k r"
  by (simp add: dg_rnd_def dg_ops_def Let_def)

lemma hd_program:
  assumes "r < 2 ^ K" "0 < K"
  shows "(halving_doubling_allreduce (sc * 2 ^ K) (2 ^ K) r :: ('a :: plus ring_state, 'a list) rank_op list option) = Some (map snd (hd_annot sc K r))"
proof -
  have "2 \<le> (2 :: nat) ^ K" using assms(2) by (cases K) auto
  moreover have "blk sc K r = 0" "blk sc 0 r = r * sc" using assms(1) by (simp_all add: blk_def)
  ultimately show ?thesis using hd_reduce_rounds [of r K sc, where ?'a = 'a] hd_gather_rounds [of r K 0 sc, where ?'a = 'a] assms isPowerOfTwo_pow [of K]
    by (simp add: halving_doubling_allreduce_def hd_annot_def map_concat comp_def hs_rnd_snd dg_rnd_snd rev_levels)
qed

lemma length_rnd [simp]: "length (hs_rnd sc K r k) = 3" "length (dg_rnd sc r k) = 2"
  by (simp_all add: hs_rnd_def dg_rnd_def pair_times_def pair_exchange_def Let_def)

lemma length_rnds: "length (concat (map (hs_rnd sc K r) [0..<k])) = 3 * k" "length (concat (map (dg_rnd sc r) [0..<k])) = 2 * k"
  by (induction k) simp_all

lemma hd_annot_length: "length (hd_annot sc K r) = 5 * K"
  by (simp add: hd_annot_def shift_def length_rnds)

lemma hd_net:
  fixes x :: "nat \<Rightarrow> nat \<Rightarrow> 'a :: comm_monoid_add"
  shows "\<exists>M f. rank_net (2 ^ K) (hd_annot sc K) (\<lambda>r. (map (x r) [0..<sc * 2 ^ K], [])) M f \<and>
    (\<forall>r < 2 ^ K. fst (f r) = map (\<lambda>j. \<Sum>q < 2 ^ K. x q j) [0..<sc * 2 ^ K])"
proof -
  let ?c = "sc * 2 ^ K"
  let ?x = "\<lambda>r. map (x r) [0..<?c]"
  let ?h = "\<lambda>r. hs_buf sc K ?x K r" and ?y = "\<lambda>r j. hs_buf sc K ?x K r ! j"
  have h: "map (?y r) [0..<?c] = ?h r" for r by (rule nth_equalityI) simp_all
  have P: "rank_net (2 ^ K) (\<lambda>r. concat (map (hs_rnd sc K r) [0..<K])) (\<lambda>r. (?x r, [])) (hs_msg sc K ?x) (\<lambda>r. (?h r, hs_tmp sc K ?x K r))"
    using halving.rank_net_axioms [of K sc ?x] by simp
  have Q: "rank_net (2 ^ K) (\<lambda>r. concat (map (dg_rnd sc r) [0..<K])) (\<lambda>r. (?h r, hs_tmp sc K ?x K r)) (dg_msg sc ?h) (\<lambda>r. (dg_buf sc ?h K r, hs_tmp sc K ?x K r))"
    using doubling.rank_net_axioms [of K sc ?y "hs_tmp sc K ?x K"] unfolding h by simp
  have T: "t < 3 * K" if mem: "(t, a) \<in> set (concat (map (hs_rnd sc K r) [0..<K]))" and r: "r < 2 ^ K" for r t and a :: "('a ring_state, 'a list) rank_op"
  proof -
    obtain k where k: "k < K" "(t, a) \<in> set (hs_rnd sc K r k)" using mem by auto
    then show ?thesis using halving.round_window [OF r k] by simp
  qed
  have "dg_buf sc ?h K r = map (\<lambda>j. \<Sum>q < 2 ^ K. x q j) [0..<?c]" if r: "r < 2 ^ K" for r
  proof (rule nth_equalityI)
    show len: "length (dg_buf sc ?h K r) = length (map (\<lambda>j. \<Sum>q < 2 ^ K. x q j) [0..<?c])"
      using length_dg_buf [of K ?h sc K r] r by simp
    fix j
    assume "j < length (dg_buf sc ?h K r)"
    then have j: "j < ?c" using len by simp
    have sc: "0 < sc" using j by (cases sc) auto
    have d: "j div sc < 2 ^ K" using j sc by (simp add: less_mult_imp_div_less mult.commute)
    have b: "blk sc K r = 0" "blk sc 0 (j div sc) \<le> j" "j < blk sc 0 (j div sc) + sc"
      using r sc dividend_less_div_times [OF sc, of j] by (simp_all add: blk_def)
    have "dg_buf sc ?h K r ! j = ?h (j div sc) ! j" by (rule dg_slices) (use r j b in simp_all)
    also have "\<dots> = (\<Sum>q | q < 2 ^ K \<and> q mod 2 ^ (K - K) = (j div sc) mod 2 ^ (K - K). ?x q ! j)"
      by (rule hs_sum) (use d b in simp_all)
    also have "\<dots> = (\<Sum>q < 2 ^ K. x q j)" using j by (simp add: lessThan_def)
    finally show "dg_buf sc ?h K r ! j = map (\<lambda>j. \<Sum>q < 2 ^ K. x q j) [0..<?c] ! j" using j by simp
  qed
  moreover have "rank_net (2 ^ K) (hd_annot sc K) (\<lambda>r. (?x r, []))
      (\<lambda>q p t. if t < 3 * K then hs_msg sc K ?x q p t else dg_msg sc ?h q p (t - 3 * K)) (\<lambda>r. (dg_buf sc ?h K r, hs_tmp sc K ?x K r))"
    unfolding hd_annot_def [abs_def] by (rule rank_net_seq [OF P Q]) (use T in auto)
  ultimately show ?thesis by fastforce
qed

text \<open>
  C27. When the number of ranks is a power of two that divides the element count, halving-doubling all-reduce stays inside its
  buffers on every rank (no offset leaves the buffer, which would make the program \<open>None\<close>), ends within \<open>5 p log p\<close> steps in every
  schedule and for every capacity of the transport, never deadlocks, and leaves the element-wise sum on every rank. The addition is
  exact: commutative and associative.
\<close>

theorem halving_doubling_correct:
  fixes xs :: "nat \<Rightarrow> 'a :: comm_monoid_add list"
  assumes "p = 2 ^ K" "0 < K" "count mod p = 0" and "\<And>r. r < p \<Longrightarrow> length (xs r) = count"
  shows "(\<forall>r < p. (halving_doubling_allreduce count p r :: ('a ring_state, 'a list) rank_op list option) \<noteq> None) \<and>
    (\<forall>cap k S. net_reach cap p (net_start (\<lambda>r. the (halving_doubling_allreduce count p r)) (\<lambda>r. (xs r, []))) k S \<longrightarrow>
       k \<le> 5 * p * K \<and> (net_stuck cap p S \<longrightarrow> net_done p S \<and> (\<forall>r < p. fst (n_loc S r) = map (\<lambda>j. \<Sum>q<p. xs q ! j) [0..<count])))"
proof -
  let ?prog = "\<lambda>r. halving_doubling_allreduce count p r :: ('a ring_state, 'a list) rank_op list option"
  obtain sc where c: "count = sc * 2 ^ K" using assms(1,3) by (metis mod_0_imp_dvd dvd_div_mult_self)
  let ?i = "\<lambda>r. (map (\<lambda>j. xs r ! j) [0..<sc * 2 ^ K], [])"
  obtain M f where net: "rank_net (2 ^ K) (hd_annot sc K) ?i M f"
    and f: "\<forall>r < 2 ^ K. fst (f r) = map (\<lambda>j. \<Sum>q < 2 ^ K. xs q ! j) [0..<sc * 2 ^ K]"
    using hd_net [of K sc "\<lambda>q j. xs q ! j"] by blast
  have "map (\<lambda>j. xs r ! j) [0..<count] = xs r" if "r < p" for r using assms(4) [OF that] by (metis map_nth)
  moreover have prog: "?prog r = Some (map snd (hd_annot sc K r))" if "r < p" for r using hd_program [of r K sc, where ?'a = 'a] assms(1,2) that c by simp
  ultimately have st: "rank_net.starts (2 ^ K) (hd_annot sc K) ?i (net_start (\<lambda>r. the (?prog r)) (\<lambda>r. (xs r, [])))"
    using assms(1) c by (intro rank_net.startsI [OF net]) simp_all
  have total: "rank_net.total (2 ^ K) (hd_annot sc K :: nat \<Rightarrow> (nat \<times> ('a ring_state, 'a list) rank_op) list) = 5 * p * K"
    unfolding rank_net.total_def [OF net] hd_annot_length by (simp add: assms(1))
  have "k \<le> 5 * p * K \<and> (net_stuck cap p S \<longrightarrow> net_done p S \<and> (\<forall>r < p. fst (n_loc S r) = map (\<lambda>j. \<Sum>q<p. xs q ! j) [0..<count]))"
    if "net_reach cap p (net_start (\<lambda>r. the (?prog r)) (\<lambda>r. (xs r, []))) k S" for cap k S
    using rank_net.runs_end [OF net st [unfolded assms(1)] that [unfolded assms(1)]] total f unfolding c assms(1) by simp
  then show ?thesis using prog by blast
qed

definition hd_prog :: "nat \<Rightarrow> (int ring_state, int list) rank_op list" where
  "hd_prog r = the (halving_doubling_allreduce 2 2 r)"

definition hd_example :: "(int ring_state, int list) net" where
  "hd_example = net_start hd_prog (\<lambda>r. ([1 + int r, 10 + int r], []))"

lemma hd_example_prog:
  assumes "r < 2"
  shows "hd_prog r = hs_ops 1 0 r @ dg_ops 1 0 r"
  using hd_program [of r 1 1, where ?'a = int] assms by (simp add: hd_prog_def hd_annot_def hs_rnd_snd dg_rnd_snd)

theorem halving_doubling_correct_witness:
  "\<exists>S. net_reach 0 2 hd_example 10 S \<and> net_stuck 0 2 S \<and> net_done 2 S \<and> fst (n_loc S 0) = [3, 21] \<and> fst (n_loc S 1) = [3, 21]"
proof -
  have "\<exists>S. net_run 0 [0, 1, 1, 0, 0, 1, 0, 1, 1, 0] hd_example = Some S \<and> net_stuck 0 2 S"
    by (simp add: hd_example_def net_start_def hd_example_prog hs_ops_def dg_ops_def pair_exchange_def Let_def net_move_def can_send_def
        waits_for_def net_stuck_def less_2_cases_iff)
  then obtain S where S: "net_run 0 [0, 1, 1, 0, 0, 1, 0, 1, 1, 0] hd_example = Some S" "net_stuck 0 2 S" by blast
  have reach: "net_reach 0 2 hd_example 10 S" using net_run_reach [OF nr_start _ S(1), of 2] by (simp add: numeral_eq_Suc)
  have "net_stuck 0 2 S \<longrightarrow> net_done 2 S \<and> (\<forall>r < 2. fst (n_loc S r) = map (\<lambda>j. \<Sum>q<(2 :: nat). [1 + int q, 10 + int q] ! j) [0..<2])"
    using halving_doubling_correct [of 2 1 2 "\<lambda>r. [1 + int r, 10 + int r]"] reach unfolding hd_example_def hd_prog_def [abs_def] by simp
  then show ?thesis using reach S(2) by (intro exI [of _ S]) (simp add: numeral_2_eq_2)
qed

text \<open>
  Without the divisibility the slices have different lengths, while the second phase takes the partner's slice to be as
  long as the own: with two ranks and an odd count rank 1 computes an offset before the start of the buffer.
\<close>

lemma hd_odd_count_out_of_bounds:
  assumes "odd count"
  shows "(halving_doubling_allreduce count 2 1 :: ('a :: plus ring_state, 'a list) rank_op list option) = None"
proof -
  have "count div 2 < count - count div 2" using assms by presburger
  then show ?thesis using isPowerOfTwo_pow [of 1]
    by (simp add: halving_doubling_allreduce_def hd_reduce.simps [of _ "Suc 0"] hd_reduce.simps [of _ 0] hd_gather.simps [of _ _ _ "Suc 0"] Let_def)
qed

end
