(* ===== verification/Rcu.thy ===== *)
theory Rcu
  imports Prelude
begin

text \<open>
  \<open>foundation/rcu\<close>: read-copy-update. Any number of threads read a shared pointer inside guards, replace it and reclaim
  the replaced objects, interleaved at every atomic access and critical section, all sequentially consistent. Addresses
  are natural numbers; an allocation may return any address that is not in use. The records form a list to which new
  ones are prepended: record \<open>i\<close> is the \<open>i\<close>-th created and its \<open>next\<close> is record \<open>i - 1\<close>, so position \<open>n\<close> in a walk
  stands for the pointer to record \<open>n - 1\<close> and position 0 for the end.
\<close>

section \<open>State\<close>

record rcu_record =
  rr_ctr :: u64
  rr_active :: bool

text \<open>
  Program points: the walk and the insertion of \<open>get_or_create_record\<close>, \<open>read_lock\<close>, a guard with the pointers read in it,
  \<open>store\<close> with the new and with the replaced object, the loops of \<open>synchronize\<close> with their wait list, and the end of
  \<open>reclaim_all\<close> with the objects it still has to free.
\<close>

datatype rcu_pc =
    RIdle
  | RWalk nat
  | RPush nat
  | RCount
  | RLock
  | RGuard "nat list"
  | WExchange nat
  | WRetire nat
  | SHead
  | SActive nat "(nat \<times> u64) list"
  | SCtr nat "(nat \<times> u64) list"
  | SWait "(nat \<times> u64) list"
  | WMove
  | WFree "nat list"

record rcu =
  rc_ptr :: "nat option"
  rc_heap :: "nat set"
  rc_recs :: "rcu_record list"
  rc_count :: nat
  rc_pending :: "nat list"
  rc_own :: "nat \<Rightarrow> nat option"
  rc_pc :: "nat \<Rightarrow> rcu_pc"

definition kRcuReclaimThreshold :: nat where
  "kRcuReclaimThreshold = 64"

text \<open>\<open>RcuPtr\<close> over a fresh domain, with an initial object.\<close>

definition rcu_new :: "nat option \<Rightarrow> rcu" where
  "rcu_new initial = \<lparr>rc_ptr = initial, rc_heap = set_option initial, rc_recs = [], rc_count = 0, rc_pending = [], rc_own = (\<lambda>_. None), rc_pc = (\<lambda>_. RIdle)\<rparr>"

definition rgo :: "nat \<Rightarrow> rcu_pc \<Rightarrow> rcu \<Rightarrow> rcu" where
  "rgo t pc s = s\<lparr>rc_pc := (rc_pc s)(t := pc)\<rparr>"

definition add_ctr :: "nat \<Rightarrow> rcu \<Rightarrow> rcu" where
  "add_ctr i s = s\<lparr>rc_recs := (rc_recs s)[i := (rc_recs s ! i)\<lparr>rr_ctr := rr_ctr (rc_recs s ! i) + 1\<rparr>]\<rparr>"

definition set_active :: "nat \<Rightarrow> bool \<Rightarrow> rcu \<Rightarrow> rcu" where
  "set_active i b s = s\<lparr>rc_recs := (rc_recs s)[i := (rc_recs s ! i)\<lparr>rr_active := b\<rparr>]\<rparr>"

section \<open>Steps\<close>

text \<open>What an idle thread or a reader does next, and whether a weak compare-exchange fails spuriously.\<close>

datatype rcu_choice = CLock | CStore nat | CReclaim | CExit | CGet | CUnlock | CNext | CSpurious

text \<open>The end of a thread: \<open>~ThreadState\<close> gives the record back.\<close>

definition thread_exit :: "nat \<Rightarrow> rcu \<Rightarrow> rcu" where
  "thread_exit t s = (case rc_own s t of None \<Rightarrow> s | Some i \<Rightarrow> (set_active i False s)\<lparr>rc_own := (rc_own s)(t := None)\<rparr>)"

definition walk_step :: "nat \<Rightarrow> nat \<Rightarrow> rcu \<Rightarrow> rcu" where
  "walk_step t n s = (case n of 0 \<Rightarrow> rgo t (RPush (length (rc_recs s))) s
     | Suc i \<Rightarrow> if \<not> rr_active (rc_recs s ! i) then rgo t RLock ((set_active i True s)\<lparr>rc_own := (rc_own s)(t := Some i)\<rparr>) else rgo t (RWalk i) s)"

definition push_record_step :: "bool \<Rightarrow> nat \<Rightarrow> nat \<Rightarrow> rcu \<Rightarrow> rcu" where
  "push_record_step spurious t old s = (if length (rc_recs s) = old \<and> \<not> spurious
     then rgo t RCount (s\<lparr>rc_recs := rc_recs s @ [\<lparr>rr_ctr = 0, rr_active = True\<rparr>], rc_own := (rc_own s)(t := Some old)\<rparr>)
     else rgo t (RPush (length (rc_recs s))) s)"

definition read_lock_start :: "nat \<Rightarrow> rcu \<Rightarrow> rcu" where
  "read_lock_start t s = rgo t (case rc_own s t of None \<Rightarrow> RWalk (length (rc_recs s)) | Some _ \<Rightarrow> RLock) s"

definition read_lock_step :: "nat \<Rightarrow> rcu \<Rightarrow> rcu option" where
  "read_lock_step t s = (case rc_own s t of None \<Rightarrow> None | Some i \<Rightarrow> Some (rgo t (RGuard []) (add_ctr i s)))"

definition read_unlock_step :: "nat \<Rightarrow> rcu \<Rightarrow> rcu option" where
  "read_unlock_step t s = (case rc_own s t of None \<Rightarrow> None | Some i \<Rightarrow> Some (rgo t RIdle (add_ctr i s)))"

definition get_step :: "nat \<Rightarrow> nat list \<Rightarrow> rcu \<Rightarrow> rcu" where
  "get_step t ps s = rgo t (RGuard (case rc_ptr s of None \<Rightarrow> ps | Some p \<Rightarrow> p # ps)) s"

definition exchange_step :: "nat \<Rightarrow> nat \<Rightarrow> rcu \<Rightarrow> rcu" where
  "exchange_step t new_val s = rgo t (case rc_ptr s of None \<Rightarrow> RIdle | Some old \<Rightarrow> WRetire old) (s\<lparr>rc_ptr := Some new_val\<rparr>)"

definition do_retire_step :: "nat \<Rightarrow> nat \<Rightarrow> rcu \<Rightarrow> rcu" where
  "do_retire_step t p s = (let pending = rc_pending s @ [p] in
     rgo t (if kRcuReclaimThreshold \<le> length pending then SHead else RIdle) (s\<lparr>rc_pending := pending\<rparr>))"

definition scan_active_step :: "nat \<Rightarrow> nat \<Rightarrow> (nat \<times> u64) list \<Rightarrow> rcu \<Rightarrow> rcu" where
  "scan_active_step t n waitlist s = (case n of 0 \<Rightarrow> rgo t (SWait waitlist) s
     | Suc i \<Rightarrow> rgo t (if rr_active (rc_recs s ! i) then SCtr i waitlist else SActive i waitlist) s)"

definition scan_ctr_step :: "nat \<Rightarrow> nat \<Rightarrow> (nat \<times> u64) list \<Rightarrow> rcu \<Rightarrow> rcu" where
  "scan_ctr_step t i waitlist s = (let c = rr_ctr (rc_recs s ! i) in
     rgo t (SActive i (if c AND 1 \<noteq> 0 then waitlist @ [(i, c)] else waitlist)) s)"

definition wait_step :: "nat \<Rightarrow> (nat \<times> u64) list \<Rightarrow> rcu \<Rightarrow> rcu" where
  "wait_step t waitlist s = (case waitlist of [] \<Rightarrow> rgo t WMove s
     | (i, snap) # rest \<Rightarrow> if rr_ctr (rc_recs s ! i) = snap then s else rgo t (SWait rest) s)"

definition reclaim_move_step :: "nat \<Rightarrow> rcu \<Rightarrow> rcu" where
  "reclaim_move_step t s = rgo t (WFree (rc_pending s)) (s\<lparr>rc_pending := []\<rparr>)"

definition reclaim_free_step :: "nat \<Rightarrow> nat list \<Rightarrow> rcu \<Rightarrow> rcu" where
  "reclaim_free_step t ps s = (case ps of [] \<Rightarrow> rgo t RIdle s | p # rest \<Rightarrow> rgo t (WFree rest) (s\<lparr>rc_heap := rc_heap s - {p}\<rparr>))"

fun writing :: "rcu_pc \<Rightarrow> bool" where
  "writing RIdle = False" | "writing (RWalk n) = False" | "writing (RPush n) = False" | "writing RCount = False" | "writing RLock = False"
| "writing (RGuard ps) = False" | "writing _ = True"

text \<open>
  A thread starts a \<open>store\<close> or a \<open>reclaim_all\<close> when it is idle; \<open>writers\<close> is the set of threads the discipline of the
  callers keeps apart from it: with all threads there, calls that write are serialized, with none they overlap freely.
\<close>

definition may_write :: "nat list \<Rightarrow> rcu \<Rightarrow> bool" where
  "may_write writers s \<longleftrightarrow> list_all (\<lambda>u. \<not> writing (rc_pc s u)) writers"

definition idle_step :: "nat list \<Rightarrow> nat \<Rightarrow> rcu_choice \<Rightarrow> rcu \<Rightarrow> rcu option" where
  "idle_step writers t c s = (case c of
      CLock \<Rightarrow> Some (read_lock_start t s)
    | CStore a \<Rightarrow> if a \<notin> rc_heap s \<and> may_write writers s then Some (rgo t (WExchange a) (s\<lparr>rc_heap := insert a (rc_heap s)\<rparr>)) else None
    | CReclaim \<Rightarrow> if may_write writers s then Some (rgo t SHead s) else None
    | CExit \<Rightarrow> Some (thread_exit t s)
    | _ \<Rightarrow> None)"

definition rcu_next :: "nat list \<Rightarrow> nat \<Rightarrow> rcu_choice \<Rightarrow> rcu \<Rightarrow> rcu option" where
  "rcu_next writers t c s = (case rc_pc s t of
      RIdle \<Rightarrow> idle_step writers t c s
    | RWalk n \<Rightarrow> Some (walk_step t n s)
    | RPush old \<Rightarrow> Some (push_record_step (c = CSpurious) t old s)
    | RCount \<Rightarrow> Some (rgo t RLock (s\<lparr>rc_count := rc_count s + 1\<rparr>))
    | RLock \<Rightarrow> read_lock_step t s
    | RGuard ps \<Rightarrow> (case c of CGet \<Rightarrow> Some (get_step t ps s) | CUnlock \<Rightarrow> read_unlock_step t s | _ \<Rightarrow> None)
    | WExchange a \<Rightarrow> Some (exchange_step t a s)
    | WRetire p \<Rightarrow> Some (do_retire_step t p s)
    | SHead \<Rightarrow> Some (rgo t (SActive (length (rc_recs s)) []) s)
    | SActive n w \<Rightarrow> Some (scan_active_step t n w s)
    | SCtr i w \<Rightarrow> Some (scan_ctr_step t i w s)
    | SWait w \<Rightarrow> Some (wait_step t w s)
    | WMove \<Rightarrow> Some (reclaim_move_step t s)
    | WFree ps \<Rightarrow> Some (reclaim_free_step t ps s))"

text \<open>A run of \<open>n\<close> threads as the list of moves.\<close>

fun rcu_run :: "nat \<Rightarrow> nat list \<Rightarrow> (nat \<times> rcu_choice) list \<Rightarrow> rcu \<Rightarrow> rcu option" where
  "rcu_run n writers [] s = Some s"
| "rcu_run n writers ((t, c) # moves) s = (if t < n then Option.bind (rcu_next writers t c s) (rcu_run n writers moves) else None)"

text \<open>The pointers a thread may dereference: those it read in its guard.\<close>

definition held :: "rcu \<Rightarrow> nat \<Rightarrow> nat list" where
  "held s t = (case rc_pc s t of RGuard ps \<Rightarrow> ps | _ \<Rightarrow> [])"

section \<open>The invariant\<close>

fun in_guard :: "rcu_pc \<Rightarrow> bool" where
  "in_guard (RGuard ps) = True" | "in_guard _ = False"

text \<open>The objects a writer works on besides the published one and the pending ones.\<close>

definition w_items :: "rcu_pc \<Rightarrow> nat list" where
  "w_items pc = (case pc of WExchange a \<Rightarrow> [a] | WRetire p \<Rightarrow> [p] | WFree ps \<Rightarrow> ps | _ \<Rightarrow> [])"

definition rc_items :: "rcu \<Rightarrow> nat \<Rightarrow> nat list" where
  "rc_items s t = (case rc_ptr s of None \<Rightarrow> [] | Some p \<Rightarrow> [p]) @ rc_pending s @ w_items (rc_pc s t)"

text \<open>\<open>synchronize\<close> at this point will still wait for the section in which record \<open>i\<close> has counter \<open>c\<close>.\<close>

definition covers :: "rcu_pc \<Rightarrow> nat \<Rightarrow> u64 \<Rightarrow> bool" where
  "covers pc i c = (case pc of SActive n w \<Rightarrow> i < n \<or> (i, c) \<in> set w | SCtr j w \<Rightarrow> i \<le> j \<or> (i, c) \<in> set w
     | SWait w \<Rightarrow> (i, c) \<in> set w | WMove \<Rightarrow> False | _ \<Rightarrow> True)"

definition pc_ok :: "rcu \<Rightarrow> nat \<Rightarrow> rcu_pc \<Rightarrow> bool" where
  "pc_ok s t pc = (case pc of RWalk k \<Rightarrow> rc_own s t = None \<and> k \<le> length (rc_recs s) | RPush k \<Rightarrow> rc_own s t = None
     | RCount \<Rightarrow> rc_own s t \<noteq> None | RLock \<Rightarrow> rc_own s t \<noteq> None | RGuard ps \<Rightarrow> rc_own s t \<noteq> None
     | SActive k w \<Rightarrow> k \<le> length (rc_recs s) | SCtr k w \<Rightarrow> k < length (rc_recs s) | _ \<Rightarrow> True)"

definition recs_ok :: "rcu \<Rightarrow> bool" where
  "recs_ok s \<longleftrightarrow> (\<forall>t i. rc_own s t = Some i \<longrightarrow> i < length (rc_recs s) \<and> rr_active (rc_recs s ! i) \<and> (odd (rr_ctr (rc_recs s ! i)) \<longleftrightarrow> in_guard (rc_pc s t))) \<and>
     (\<forall>t u i. rc_own s t = Some i \<longrightarrow> rc_own s u = Some i \<longrightarrow> t = u) \<and>
     (\<forall>i < length (rc_recs s). \<not> rr_active (rc_recs s ! i) \<longrightarrow> even (rr_ctr (rc_recs s ! i)))"

definition held_ok :: "rcu \<Rightarrow> bool" where
  "held_ok s \<longleftrightarrow> (\<forall>t. \<forall>p \<in> set (held s t). rc_ptr s = Some p \<or> p \<in> set (rc_pending s) \<or> (\<exists>u. rc_pc s u = WRetire p))"

definition cover_ok :: "rcu \<Rightarrow> bool" where
  "cover_ok s \<longleftrightarrow> (\<forall>t u i. \<forall>p \<in> set (held s t). p \<in> set (rc_pending s) \<longrightarrow> rc_own s t = Some i \<longrightarrow> covers (rc_pc s u) i (rr_ctr (rc_recs s ! i)))"

definition rcu_inv :: "nat \<Rightarrow> rcu \<Rightarrow> bool" where
  "rcu_inv n s \<longleftrightarrow> recs_ok s \<and> (\<forall>t. pc_ok s t (rc_pc s t)) \<and> (\<forall>t. writing (rc_pc s t) \<longrightarrow> t < n) \<and>
     (\<forall>t u. writing (rc_pc s t) \<longrightarrow> writing (rc_pc s u) \<longrightarrow> t = u) \<and> (\<forall>t. distinct (rc_items s t) \<and> set (rc_items s t) \<subseteq> rc_heap s) \<and>
     held_ok s \<and> cover_ok s"

lemma rcu_invI:
  assumes "recs_ok s" "\<And>t. pc_ok s t (rc_pc s t)" "\<And>t. writing (rc_pc s t) \<Longrightarrow> t < n"
    "\<And>t u. writing (rc_pc s t) \<Longrightarrow> writing (rc_pc s u) \<Longrightarrow> t = u" "\<And>t. distinct (rc_items s t)" "\<And>t. set (rc_items s t) \<subseteq> rc_heap s"
    "held_ok s" "cover_ok s"
  shows "rcu_inv n s"
  using assms unfolding rcu_inv_def by blast

lemma rcu_invD:
  assumes "rcu_inv n s"
  shows "recs_ok s" "pc_ok s t (rc_pc s t)" "writing (rc_pc s t) \<Longrightarrow> t < n"
    "writing (rc_pc s t) \<Longrightarrow> writing (rc_pc s u) \<Longrightarrow> t = u" "distinct (rc_items s t)" "set (rc_items s t) \<subseteq> rc_heap s"
    "held_ok s" "cover_ok s"
  using assms unfolding rcu_inv_def by blast+

lemma rgo_simps [simp]:
  "rc_ptr (rgo t pc s) = rc_ptr s" "rc_heap (rgo t pc s) = rc_heap s" "rc_recs (rgo t pc s) = rc_recs s" "rc_pending (rgo t pc s) = rc_pending s"
  "rc_own (rgo t pc s) = rc_own s" "rc_count (rgo t pc s) = rc_count s" "rc_pc (rgo t pc s) u = (if u = t then pc else rc_pc s u)"
  by (simp_all add: rgo_def)

lemma held_rgo: "held (rgo t pc s) u = (if u = t then (case pc of RGuard ps \<Rightarrow> ps | _ \<Rightarrow> []) else held s u)"
  by (simp add: held_def)

lemma held_idle: "\<not> in_guard (rc_pc s t) \<Longrightarrow> held s t = []"
  by (cases "rc_pc s t") (simp_all add: held_def)

lemma pc_ok_cong: "rc_own s' t = rc_own s t \<Longrightarrow> length (rc_recs s') = length (rc_recs s) \<Longrightarrow> pc_ok s' t pc = pc_ok s t pc"
  by (simp add: pc_ok_def cong: rcu_pc.case_cong)

text \<open>A move of the program counter alone, outside guards, between points that own the same objects.\<close>

lemma inv_go:
  assumes inv: "rcu_inv n s" and t: "t < n" and g: "\<not> in_guard (rc_pc s t)" "\<not> in_guard pc" and it: "w_items (rc_pc s t) = w_items pc" "\<And>p. rc_pc s t \<noteq> WRetire p"
    and ok: "pc_ok s t pc" and w: "writing pc \<Longrightarrow> writing (rc_pc s t) \<or> (\<forall>u. \<not> writing (rc_pc s u))"
    and cov: "\<And>u i p. p \<in> set (held s u) \<Longrightarrow> p \<in> set (rc_pending s) \<Longrightarrow> rc_own s u = Some i \<Longrightarrow> covers pc i (rr_ctr (rc_recs s ! i))"
  shows "rcu_inv n (rgo t pc s)"
proof (rule rcu_invI)
  note D = rcu_invD [OF inv]
  have held: "held (rgo t pc s) u = held s u" for u using held_idle [OF g(1)] g(2) by (cases pc) (auto simp: held_def)
  have guard: "in_guard (rc_pc (rgo t pc s) u) = in_guard (rc_pc s u)" for u using g by simp
  have items: "rc_items (rgo t pc s) u = rc_items s u" for u using it(1) by (simp add: rc_items_def)
  show "recs_ok (rgo t pc s)" using D(1) unfolding recs_ok_def guard by simp
  show "pc_ok (rgo t pc s) u (rc_pc (rgo t pc s) u)" for u using D(2) [of u] ok by (simp add: pc_ok_cong [of "rgo t pc s" _ s])
  show "u < n" if "writing (rc_pc (rgo t pc s) u)" for u using that D(3) [of u] t by (cases "u = t") auto
  show "u = v" if "writing (rc_pc (rgo t pc s) u)" "writing (rc_pc (rgo t pc s) v)" for u v
    using that D(4) [of u v] D(4) [of t v] D(4) [of u t] w by (auto split: if_splits)
  show "distinct (rc_items (rgo t pc s) u)" "set (rc_items (rgo t pc s) u) \<subseteq> rc_heap (rgo t pc s)" for u
    unfolding items using D(5,6) by simp_all
  have "\<exists>u. rc_pc (rgo t pc s) u = WRetire p" if "\<exists>u. rc_pc s u = WRetire p" for p using that it(2) by (metis rgo_simps(7))
  then show "held_ok (rgo t pc s)" using D(7) unfolding held_ok_def held by fastforce
  show "cover_ok (rgo t pc s)" using D(8) cov unfolding cover_ok_def held by auto
qed

section \<open>Steps keep the invariant\<close>

lemma recs_okD:
  assumes "recs_ok s"
  shows "rc_own s t = Some i \<Longrightarrow> i < length (rc_recs s)" "rc_own s t = Some i \<Longrightarrow> rr_active (rc_recs s ! i)"
    "rc_own s t = Some i \<Longrightarrow> odd (rr_ctr (rc_recs s ! i)) \<longleftrightarrow> in_guard (rc_pc s t)"
    "rc_own s t = Some i \<Longrightarrow> rc_own s u = Some i \<Longrightarrow> t = u"
    "i < length (rc_recs s) \<Longrightarrow> \<not> rr_active (rc_recs s ! i) \<Longrightarrow> even (rr_ctr (rc_recs s ! i))"
  using assms unfolding recs_ok_def by blast+

lemma held_guard: "p \<in> set (held s t) \<Longrightarrow> in_guard (rc_pc s t)"
  by (cases "rc_pc s t") (simp_all add: held_def)

lemma not_writing: "in_guard pc \<Longrightarrow> \<not> writing pc" "writing pc \<Longrightarrow> \<not> in_guard pc"
  by (cases pc; simp)+

text \<open>The loops of \<open>synchronize\<close>.\<close>

lemma scan_inv:
  assumes inv: "rcu_inv n s" and t: "t < n" and pc: "rc_pc s t = SHead \<or> rc_pc s t = SActive k w \<or> rc_pc s t = SCtr k w \<or> rc_pc s t = SWait w"
    and nx: "rcu_next ws t c s = Some s'"
  shows "rcu_inv n s'"
proof -
  note D = rcu_invD [OF inv]
  note R = recs_okD [OF D(1)]
  have go: "rcu_inv n (rgo t pc' s)" if "w_items pc' = []" "\<not> in_guard pc'" "pc_ok s t pc'" "writing pc'"
    "\<And>u i p. p \<in> set (held s u) \<Longrightarrow> p \<in> set (rc_pending s) \<Longrightarrow> rc_own s u = Some i \<Longrightarrow> covers pc' i (rr_ctr (rc_recs s ! i))" for pc'
    using pc that by (intro inv_go [OF inv t]) (auto simp: w_items_def)
  have cov: "covers (rc_pc s t) i (rr_ctr (rc_recs s ! i))" if "p \<in> set (held s u)" "p \<in> set (rc_pending s)" "rc_own s u = Some i" for u i p
    using D(8) that unfolding cover_ok_def by blast
  have odd_i: "odd (rr_ctr (rc_recs s ! i))" "i < length (rc_recs s)" "rr_active (rc_recs s ! i)" if "p \<in> set (held s u)" "rc_own s u = Some i" for u i p
    using R(1-3) [OF that(2)] held_guard [OF that(1)] by auto
  have ok: "pc_ok s t (rc_pc s t)" by (rule D(2))
  from pc show ?thesis
  proof (elim disjE)
    assume "rc_pc s t = SHead"
    then show ?thesis using nx odd_i by (auto simp: rcu_next_def w_items_def pc_ok_def covers_def intro!: go)
  next
    assume p: "rc_pc s t = SActive k w"
    then have s': "s' = scan_active_step t k w s" using nx by (simp add: rcu_next_def)
    show ?thesis
    proof (cases k)
      case 0
      then show ?thesis unfolding s' scan_active_step_def using cov p by (auto simp: w_items_def pc_ok_def covers_def intro!: go)
    next
      case (Suc i)
      have c: "covers (if rr_active (rc_recs s ! i) then SCtr i w else SActive i w) j (rr_ctr (rc_recs s ! j))"
        if h: "q \<in> set (held s u)" "q \<in> set (rc_pending s)" "rc_own s u = Some j" for u j q
        using cov [OF h] odd_i [OF h(1,3)] p Suc by (auto simp: covers_def less_Suc_eq)
      show ?thesis unfolding s' scan_active_step_def Suc nat.case using ok p Suc
        by (intro go c) (auto simp: w_items_def pc_ok_def)
    qed
  next
    assume p: "rc_pc s t = SCtr k w"
    then have s': "s' = scan_ctr_step t k w s" using nx by (simp add: rcu_next_def)
    have "covers (SActive k (if rr_ctr (rc_recs s ! k) AND 1 \<noteq> 0 then w @ [(k, rr_ctr (rc_recs s ! k))] else w)) j (rr_ctr (rc_recs s ! j))"
      if h: "q \<in> set (held s u)" "q \<in> set (rc_pending s)" "rc_own s u = Some j" for u j q
      using cov [OF h] odd_i [OF h(1,3)] p by (cases "j = k") (auto simp: covers_def and_one_eq odd_iff_mod_2_eq_one)
    then show ?thesis unfolding s' scan_ctr_step_def Let_def using ok p by (intro go) (auto simp: w_items_def pc_ok_def)
  next
    assume p: "rc_pc s t = SWait w"
    then have s': "s' = wait_step t w s" using nx by (simp add: rcu_next_def)
    show ?thesis
    proof (cases w)
      case Nil
      then show ?thesis unfolding s' wait_step_def using cov p by (auto simp: w_items_def pc_ok_def covers_def intro!: go)
    next
      case (Cons e rest)
      obtain i snap where e: "e = (i, snap)" by (cases e)
      show ?thesis
      proof (cases "rr_ctr (rc_recs s ! i) = snap")
        case False
        have "covers (SWait rest) j (rr_ctr (rc_recs s ! j))" if h: "q \<in> set (held s u)" "q \<in> set (rc_pending s)" "rc_own s u = Some j" for u j q
          using cov [OF h] p Cons e False by (auto simp: covers_def)
        then show ?thesis unfolding s' wait_step_def using Cons e False by (auto simp: w_items_def pc_ok_def intro!: go)
      qed (use inv s' Cons e in \<open>simp add: wait_step_def\<close>)
    qed
  qed
qed

text \<open>Taking or creating a record.\<close>

lemma register_inv:
  assumes inv: "rcu_inv n s" and t: "t < n" and pc: "rc_pc s t = RWalk k \<or> rc_pc s t = RPush k" and nx: "rcu_next ws t c s = Some s'"
  shows "rcu_inv n s'"
proof -
  note D = rcu_invD [OF inv]
  note R = recs_okD [OF D(1)]
  have none: "rc_own s t = None" and ok: "pc_ok s t (rc_pc s t)" using D(2) [of t] pc by (auto simp: pc_ok_def)
  have go: "rcu_inv n (rgo t pc' s)" if "pc' = RPush m \<or> (pc' = RWalk m \<and> m \<le> length (rc_recs s))" for pc' m
    using pc that none by (intro inv_go [OF inv t]) (auto simp: w_items_def pc_ok_def covers_def)
  have gain: "rcu_inv n s''" if s'': "rc_ptr s'' = rc_ptr s" "rc_heap s'' = rc_heap s" "rc_pending s'' = rc_pending s" "rc_own s'' = (rc_own s)(t := Some i)"
      "\<And>u. rc_pc s'' u = (if u = t then pc' else rc_pc s u)" "pc' = RLock \<or> pc' = RCount"
    and recs: "i < length (rc_recs s'')" "length (rc_recs s) \<le> length (rc_recs s'')" "rr_active (rc_recs s'' ! i)" "even (rr_ctr (rc_recs s'' ! i))"
      "\<And>j. j < length (rc_recs s'') \<Longrightarrow> j \<noteq> i \<Longrightarrow> j < length (rc_recs s) \<and> rc_recs s'' ! j = rc_recs s ! j" "\<And>u. rc_own s u \<noteq> Some i" for s'' i pc'
  proof (rule rcu_invI)
    have held: "held s'' u = held s u" for u using s''(5) [of u] s''(6) pc held_idle [of s t] by (cases "u = t") (auto simp: held_def)
    have old: "rc_recs s'' ! j = rc_recs s ! j" "j \<noteq> i" "j < length (rc_recs s'')" if "rc_own s u = Some j" for u j
      using recs(2) recs(5) [of j] recs(6) [of u] R(1) [OF that] that by auto
    show "recs_ok s''" unfolding recs_ok_def
    proof (intro conjI allI impI)
      fix u j
      assume u: "rc_own s'' u = Some j"
      show "j < length (rc_recs s'')" "rr_active (rc_recs s'' ! j)" "odd (rr_ctr (rc_recs s'' ! j)) = in_guard (rc_pc s'' u)"
        using u s''(4-6) recs(1,3,4) old [of u j] R(2,3) [of u j] by (auto split: if_splits)
    next
      fix u v j
      assume "rc_own s'' u = Some j" "rc_own s'' v = Some j"
      then show "u = v" using s''(4) old(2) [of u j] old(2) [of v j] R(4) [of u j v] by (auto split: if_splits)
    next
      fix j
      assume "j < length (rc_recs s'')" "\<not> rr_active (rc_recs s'' ! j)"
      then show "even (rr_ctr (rc_recs s'' ! j))" using recs(3) recs(5) [of j] R(5) [of j] by (cases "j = i") auto
    qed
    show "pc_ok s'' u (rc_pc s'' u)" for u
    proof (cases "u = t")
      case False
      then show ?thesis using D(2) [of u] s''(4,5) recs(2) by (auto simp: pc_ok_def split: rcu_pc.splits)
    qed (use s'' in \<open>auto simp: pc_ok_def\<close>)
    have w: "writing (rc_pc s'' u) \<longleftrightarrow> writing (rc_pc s u)" for u using s''(5,6) pc by auto
    show "u < n" if "writing (rc_pc s'' u)" for u using that D(3) unfolding w by blast
    show "u = v" if "writing (rc_pc s'' u)" "writing (rc_pc s'' v)" for u v using that D(4) unfolding w by blast
    have items: "rc_items s'' u = rc_items s u" for u using s'' pc by (auto simp: rc_items_def w_items_def)
    show "distinct (rc_items s'' u)" "set (rc_items s'' u) \<subseteq> rc_heap s''" for u using D(5,6) s''(2) unfolding items by simp_all
    have "\<exists>u. rc_pc s'' u = WRetire p" if ex: "\<exists>u. rc_pc s u = WRetire p" for p
    proof -
      obtain u where u: "rc_pc s u = WRetire p" using ex by blast
      then have "u \<noteq> t" using pc by auto
      then show ?thesis using u s''(5) by metis
    qed
    then show "held_ok s''" using D(7) s''(1,3) unfolding held_ok_def held by fastforce
    show "cover_ok s''" unfolding cover_ok_def held
    proof (intro allI ballI impI)
      fix u v j p
      assume h: "p \<in> set (held s u)" "p \<in> set (rc_pending s'')" "rc_own s'' u = Some j"
      then have "u \<noteq> t" using held_guard [OF h(1)] pc by auto
      then have j: "rc_own s u = Some j" using h(3) s''(4) by simp
      have "covers (rc_pc s v) j (rr_ctr (rc_recs s ! j))" using D(8) h(1,2) j s''(3) unfolding cover_ok_def by auto
      then show "covers (rc_pc s'' v) j (rr_ctr (rc_recs s'' ! j))" using old(1) [OF j] s''(5,6) by (auto simp: covers_def)
    qed
  qed
  show ?thesis
  proof (cases "\<exists>i. rc_pc s t = RWalk (Suc i) \<and> \<not> rr_active (rc_recs s ! i)")
    case True
    then obtain i where i: "rc_pc s t = RWalk (Suc i)" "\<not> rr_active (rc_recs s ! i)" by blast
    have lt: "i < length (rc_recs s)" using ok i(1) by (simp add: pc_ok_def)
    have s': "s' = rgo t RLock ((set_active i True s)\<lparr>rc_own := (rc_own s)(t := Some i)\<rparr>)" using nx i by (simp add: rcu_next_def walk_step_def)
    show ?thesis unfolding s' using lt R(5) [OF lt i(2)] R(2) i(2)
      by (intro gain [where i = i and pc' = RLock]) (auto simp: set_active_def nth_list_update)
  next
    case False
    show ?thesis
    proof (cases "\<exists>old. rc_pc s t = RPush old \<and> length (rc_recs s) = old \<and> c \<noteq> CSpurious")
      case True
      then obtain old where old: "rc_pc s t = RPush old" "old = length (rc_recs s)" "c \<noteq> CSpurious" by blast
      have s': "s' = rgo t RCount (s\<lparr>rc_recs := rc_recs s @ [\<lparr>rr_ctr = 0, rr_active = True\<rparr>], rc_own := (rc_own s)(t := Some old)\<rparr>)"
        using nx old by (simp add: rcu_next_def push_record_step_def)
      show ?thesis unfolding s' using old(2) R(1) by (intro gain [where i = old and pc' = RCount]) (auto simp: nth_append less_Suc_eq)
    next
      case no: False
      have "s' = rgo t (RPush (length (rc_recs s))) s \<or> (\<exists>i. s' = rgo t (RWalk i) s \<and> i \<le> length (rc_recs s))"
        using nx pc False no ok
        by (auto simp: rcu_next_def walk_step_def push_record_step_def pc_ok_def split: nat.splits if_splits intro: exI [of _ "k - 1"])
      then show ?thesis using go by blast
    qed
  qed
qed

text \<open>A step that changes the pointer, the heap or the pending list, taken outside guards.\<close>

lemma inv_mem:
  assumes inv: "rcu_inv n s" and t: "t < n" and g: "\<not> in_guard (rc_pc s t)" "\<not> in_guard pc"
    and s': "rc_recs s' = rc_recs s" "rc_own s' = rc_own s" "\<And>u. rc_pc s' u = (if u = t then pc else rc_pc s u)"
    and ok: "pc_ok s t pc" and w: "writing pc \<Longrightarrow> writing (rc_pc s t) \<or> (\<forall>u. \<not> writing (rc_pc s u))"
    and items: "\<And>u. distinct (rc_items s' u)" "\<And>u. set (rc_items s' u) \<subseteq> rc_heap s'"
    and held: "\<And>u p. p \<in> set (held s u) \<Longrightarrow> rc_ptr s' = Some p \<or> p \<in> set (rc_pending s') \<or> (\<exists>u. rc_pc s' u = WRetire p)"
    and cov: "\<And>u v i p. p \<in> set (held s u) \<Longrightarrow> p \<in> set (rc_pending s') \<Longrightarrow> rc_own s u = Some i \<Longrightarrow> covers (rc_pc s' v) i (rr_ctr (rc_recs s ! i))"
  shows "rcu_inv n s'"
proof (rule rcu_invI)
  note D = rcu_invD [OF inv]
  have h: "held s' u = held s u" for u using held_idle [OF g(1)] g(2) by (cases "u = t"; cases pc) (auto simp: held_def s'(3))
  have guard: "in_guard (rc_pc s' u) = in_guard (rc_pc s u)" for u using g s'(3) by simp
  show "recs_ok s'" using D(1) unfolding recs_ok_def guard s'(1,2) by simp
  show "pc_ok s' u (rc_pc s' u)" for u using D(2) [of u] ok by (simp add: pc_ok_cong [of s' _ s] s')
  show "u < n" if "writing (rc_pc s' u)" for u using that D(3) [of u] t s'(3) by (cases "u = t") auto
  show "u = v" if "writing (rc_pc s' u)" "writing (rc_pc s' v)" for u v
    using that D(4) [of u v] D(4) [of t v] D(4) [of u t] w s'(3) by (auto split: if_splits)
  show "held_ok s'" using held unfolding held_ok_def h by blast
  show "cover_ok s'" using cov unfolding cover_ok_def h s'(1,2) by blast
qed (use items in auto)

lemma no_writer: "may_write [0..<n] s \<Longrightarrow> rcu_inv n s \<Longrightarrow> \<not> writing (rc_pc s u)"
  using rcu_invD(3) [of n s u] by (auto simp: may_write_def list_all_iff)

lemma covers_other: "\<not> writing pc \<Longrightarrow> covers pc i c"
  by (cases pc) (simp_all add: covers_def)

lemma w_items_other: "\<not> writing pc \<Longrightarrow> w_items pc = []"
  by (cases pc) (simp_all add: w_items_def)

lemma held_inv:
  assumes "rcu_inv n s" "p \<in> set (held s u)"
  shows "rc_ptr s = Some p \<or> p \<in> set (rc_pending s) \<or> (\<exists>u. rc_pc s u = WRetire p)"
  using rcu_invD(7) [OF assms(1)] assms(2) unfolding held_ok_def by blast

lemma write_inv:
  assumes inv: "rcu_inv n s" and t: "t < n" and pc: "writing (rc_pc s t)" and nx: "rcu_next ws t c s = Some s'"
  shows "rcu_inv n s'"
proof -
  note D = rcu_invD [OF inv]
  have only: "writing (rc_pc s u) \<longleftrightarrow> u = t" for u using D(4) [of u t] pc by blast
  have g: "\<not> in_guard (rc_pc s t)" using not_writing(2) [OF pc] .
  have rest: "w_items (rc_pc s u) = []" "covers (rc_pc s u) i x" "rc_pc s u \<noteq> WRetire q" if "u \<noteq> t" for u i x q
    using w_items_other [of "rc_pc s u"] covers_other [of "rc_pc s u"] only [of u] that by auto
  have items: "distinct (rc_items s t)" "set (rc_items s t) \<subseteq> rc_heap s" using D(5,6) by blast+
  have held: "rc_ptr s = Some p \<or> p \<in> set (rc_pending s) \<or> rc_pc s t = WRetire p" if "p \<in> set (held s u)" for p u
    using held_inv [OF inv that] rest(3) by metis
  have pend: "\<not> writing pc' \<or> pc' = SHead \<or> (\<exists>q. pc' = WRetire q) \<or> (\<exists>qs. pc' = WFree qs) \<Longrightarrow> covers pc' i x" for pc' i x
    using covers_other [of pc' i x] by (auto simp: covers_def)
  consider a where "rc_pc s t = WExchange a" | p where "rc_pc s t = WRetire p" | "rc_pc s t = WMove" | ps where "rc_pc s t = WFree ps"
    | k w where "rc_pc s t = SHead \<or> rc_pc s t = SActive k w \<or> rc_pc s t = SCtr k w \<or> rc_pc s t = SWait w"
    using pc by (cases "rc_pc s t") auto
  then show ?thesis
  proof cases
    case (1 a)
    let ?pc = "case rc_ptr s of None \<Rightarrow> RIdle | Some old \<Rightarrow> WRetire old"
    have s': "s' = rgo t ?pc (s\<lparr>rc_ptr := Some a\<rparr>)" using nx 1 by (simp add: rcu_next_def exchange_step_def)
    have it: "distinct ((case rc_ptr s of None \<Rightarrow> [] | Some p \<Rightarrow> [p]) @ rc_pending s @ [a])" "set ((case rc_ptr s of None \<Rightarrow> [] | Some p \<Rightarrow> [p]) @ rc_pending s @ [a]) \<subseteq> rc_heap s"
      using items 1 by (simp_all add: rc_items_def w_items_def)
    have f: "rc_recs s' = rc_recs s" "rc_own s' = rc_own s" "\<And>u. rc_pc s' u = (if u = t then ?pc else rc_pc s u)" "rc_ptr s' = Some a" "rc_heap s' = rc_heap s" "rc_pending s' = rc_pending s"
      by (simp_all add: s')
    have ri: "rc_items s' u = a # rc_pending s @ (if u = t then w_items ?pc else [])" for u using rest(1) by (simp add: rc_items_def f)
    have "distinct (rc_items s' u)" "set (rc_items s' u) \<subseteq> rc_heap s'" for u using it by (auto simp: ri f w_items_def split: option.splits)
    moreover have "covers (rc_pc s' v) i x" for v i x using rest(2) [of v] pend [of ?pc] by (auto simp: f split: option.splits)
    moreover have "rc_ptr s' = Some p \<or> p \<in> set (rc_pending s') \<or> (\<exists>u. rc_pc s' u = WRetire p)" if "p \<in> set (held s u)" for p u
      using held [OF that] 1 by (auto simp: f intro: exI [of _ t])
    ultimately show ?thesis using g pc by (intro inv_mem [OF inv t _ _ f(1-3)]) (auto simp: pc_ok_def split: option.splits)
  next
    case (2 p)
    let ?pc = "if kRcuReclaimThreshold \<le> length (rc_pending s @ [p]) then SHead else RIdle"
    have s': "s' = rgo t ?pc (s\<lparr>rc_pending := rc_pending s @ [p]\<rparr>)" using nx 2 by (simp add: rcu_next_def do_retire_step_def Let_def)
    have f: "rc_recs s' = rc_recs s" "rc_own s' = rc_own s" "\<And>u. rc_pc s' u = (if u = t then ?pc else rc_pc s u)" "rc_ptr s' = rc_ptr s" "rc_heap s' = rc_heap s" "rc_pending s' = rc_pending s @ [p]"
      by (simp_all add: s')
    have ri: "rc_items s' u = rc_items s t" for u using 2 rest(1) by (auto simp: rc_items_def f w_items_def)
    have "covers (rc_pc s' v) i x" for v i x using rest(2) [of v] by (auto simp: f covers_def)
    then show ?thesis using g items pc 2 by (intro inv_mem [OF inv t _ _ f(1-3)]) (auto simp: pc_ok_def ri f(4-6) dest!: held)
  next
    case 3
    have s': "s' = rgo t (WFree (rc_pending s)) (s\<lparr>rc_pending := []\<rparr>)" using nx 3 by (simp add: rcu_next_def reclaim_move_step_def)
    have f: "rc_recs s' = rc_recs s" "rc_own s' = rc_own s" "\<And>u. rc_pc s' u = (if u = t then WFree (rc_pending s) else rc_pc s u)" "rc_ptr s' = rc_ptr s" "rc_heap s' = rc_heap s" "rc_pending s' = []"
      by (simp_all add: s')
    have ri: "set (rc_items s' u) \<subseteq> rc_heap s'" "distinct (rc_items s' u)" for u
      using items rest(1) [of u] 3 by (auto simp: rc_items_def f w_items_def split: option.splits)
    have "rc_ptr s = Some p" if h: "p \<in> set (held s u)" for p u
    proof -
      obtain i where i: "rc_own s u = Some i" using D(2) [of u] held_guard [OF h] by (cases "rc_pc s u") (auto simp: pc_ok_def)
      have "\<not> covers (rc_pc s t) i (rr_ctr (rc_recs s ! i))" by (simp add: 3 covers_def)
      then have "p \<notin> set (rc_pending s)" using D(8) h i unfolding cover_ok_def by blast
      then show ?thesis using held [OF h] 3 by simp
    qed
    then show ?thesis using g pc ri by (intro inv_mem [OF inv t _ _ f(1-3)]) (auto simp: pc_ok_def f(4,6))
  next
    case (4 ps)
    show ?thesis
    proof (cases ps)
      case Nil
      then have "s' = rgo t RIdle s" using nx 4 by (simp add: rcu_next_def reclaim_free_step_def)
      then show ?thesis using 4 Nil by (auto simp: w_items_def pc_ok_def covers_def intro!: inv_go [OF inv t])
    next
      case (Cons q rest')
      have s': "s' = rgo t (WFree rest') (s\<lparr>rc_heap := rc_heap s - {q}\<rparr>)" using nx 4 Cons by (simp add: rcu_next_def reclaim_free_step_def)
      have f: "rc_recs s' = rc_recs s" "rc_own s' = rc_own s" "\<And>u. rc_pc s' u = (if u = t then WFree rest' else rc_pc s u)" "rc_ptr s' = rc_ptr s" "rc_heap s' = rc_heap s - {q}" "rc_pending s' = rc_pending s"
        by (simp_all add: s')
      have ri: "set (rc_items s' u) \<subseteq> rc_heap s'" "distinct (rc_items s' u)" for u
        using items rest(1) [of u] 4 Cons by (auto simp: rc_items_def f w_items_def split: option.splits)
      have "covers (rc_pc s' v) i x" for v i x using rest(2) [of v] by (auto simp: f covers_def)
      then show ?thesis using g ri pc 4 by (intro inv_mem [OF inv t _ _ f(1-3)]) (auto simp: pc_ok_def f(4,6) dest!: held)
    qed
  next
    case (5 k w)
    then show ?thesis by (rule scan_inv [OF inv t _ nx])
  qed
qed

text \<open>Entering and leaving a guard changes the parity of the own counter only.\<close>

lemma ctr_inv:
  assumes inv: "rcu_inv n s" and pc: "\<not> writing (rc_pc s t)" "\<not> writing pc" "w_items pc = []" "pc = RIdle \<or> (\<exists>ps. pc = RGuard ps)" and own: "rc_own s t = Some i" and flip: "in_guard pc \<noteq> in_guard (rc_pc s t)"
    and s': "s' = rgo t pc (add_ctr i s)" and none: "held s' t = []"
  shows "rcu_inv n s'"
proof (rule rcu_invI)
  note D = rcu_invD [OF inv]
  note R = recs_okD [OF D(1)]
  have i: "i < length (rc_recs s)" using R(1) [OF own] .
  have f: "rc_ptr s' = rc_ptr s" "rc_heap s' = rc_heap s" "rc_pending s' = rc_pending s" "rc_own s' = rc_own s" "length (rc_recs s') = length (rc_recs s)"
    "\<And>u. rc_pc s' u = (if u = t then pc else rc_pc s u)" by (simp_all add: s' add_ctr_def)
  have rec: "rr_active (rc_recs s' ! j) = rr_active (rc_recs s ! j)" "rr_ctr (rc_recs s' ! j) = (if j = i then rr_ctr (rc_recs s ! j) + 1 else rr_ctr (rc_recs s ! j))"
    if "j < length (rc_recs s)" for j using i that by (auto simp: s' add_ctr_def nth_list_update)
  have other: "j \<noteq> i" if "rc_own s u = Some j" "u \<noteq> t" for u j using R(4) [OF that(1)] own that(2) by blast
  show "recs_ok s'" unfolding recs_ok_def f(4,5)
  proof (intro conjI allI impI)
    fix u j
    assume u: "rc_own s u = Some j"
    note j = R(1) [OF u]
    show "j < length (rc_recs s)" by (rule j)
    show "rr_active (rc_recs s' ! j)" using R(2) [OF u] rec(1) [OF j] by simp
    show "odd (rr_ctr (rc_recs s' ! j)) = in_guard (rc_pc s' u)"
      using R(3) [OF u] rec(2) [OF j] own u flip other [OF u] f(6) [of u] by (cases "u = t") auto
  next
    fix u v j
    assume "rc_own s u = Some j" "rc_own s v = Some j"
    then show "u = v" using R(4) by blast
  next
    fix j
    assume "j < length (rc_recs s)" "\<not> rr_active (rc_recs s' ! j)"
    then show "even (rr_ctr (rc_recs s' ! j))" using rec [of j] R(5) [of j] R(2) [OF own] by (cases "j = i") auto
  qed
  show "pc_ok s' u (rc_pc s' u)" for u
  proof (cases "u = t")
    case True
    then show ?thesis using pc(4) f own by (auto simp: pc_ok_def)
  qed (use D(2) [of u] f(4-6) in \<open>simp add: pc_ok_cong [of s' _ s]\<close>)
  have w: "writing (rc_pc s' u) \<longleftrightarrow> writing (rc_pc s u)" for u using f(6) pc by auto
  show "u < n" if "writing (rc_pc s' u)" for u using that D(3) unfolding w by blast
  show "u = v" if "writing (rc_pc s' u)" "writing (rc_pc s' v)" for u v using that D(4) unfolding w by blast
  have items: "rc_items s' u = rc_items s u" for u using f pc(3) w_items_other [OF pc(1)] by (simp add: rc_items_def)
  show "distinct (rc_items s' u)" "set (rc_items s' u) \<subseteq> rc_heap s'" for u using D(5,6) f(2) unfolding items by simp_all
  have held: "held s' u = (if u = t then [] else held s u)" for u using none f(6) by (cases "u = t") (auto simp: held_def)
  have "rc_pc s' u = WRetire p \<longleftrightarrow> rc_pc s u = WRetire p" for u p using f(6) pc by auto
  then show "held_ok s'" using D(7) f(1,3) unfolding held_ok_def held by (auto split: if_splits)
  show "cover_ok s'" unfolding cover_ok_def held
  proof (intro allI ballI impI)
    fix u v j p
    assume h: "p \<in> set (if u = t then [] else held s u)" "p \<in> set (rc_pending s')" "rc_own s' u = Some j"
    then have u: "u \<noteq> t" "p \<in> set (held s u)" "rc_own s u = Some j" using f(4) by (auto split: if_splits)
    have "covers (rc_pc s v) j (rr_ctr (rc_recs s ! j))" using D(8) u h(2) f(3) unfolding cover_ok_def by auto
    then show "covers (rc_pc s' v) j (rr_ctr (rc_recs s' ! j))"
      using rec(2) [OF R(1) [OF u(3)]] other [OF u(3,1)] f(6) [of v] pc(2) covers_other [of pc] by (cases "v = t") auto
  qed
qed

text \<open>Reading the pointer in a guard: what is published is not pending.\<close>

lemma get_inv:
  assumes inv: "rcu_inv n s" and pc: "rc_pc s t = RGuard ps" and nx: "s' = get_step t ps s"
  shows "rcu_inv n s'"
proof (cases "rc_ptr s")
  case None
  then have "s' = s" using nx pc by (simp add: get_step_def rgo_def fun_upd_idem_iff)
  then show ?thesis using inv by simp
next
  case (Some p)
  note D = rcu_invD [OF inv]
  have s': "s' = rgo t (RGuard (p # ps)) s" using nx Some by (simp add: get_step_def)
  have held: "held s' u = (if u = t then p # held s t else held s u)" for u by (simp add: s' held_def pc)
  have same: "in_guard (rc_pc s' u) = in_guard (rc_pc s u)" "writing (rc_pc s' u) = writing (rc_pc s u)" "pc_ok s u (rc_pc s' u) = pc_ok s u (rc_pc s u)"
    "w_items (rc_pc s' u) = w_items (rc_pc s u)" "rc_pc s' u = WRetire q \<longleftrightarrow> rc_pc s u = WRetire q" "covers (rc_pc s' u) i x = covers (rc_pc s u) i x" for u q i x
    using pc by (auto simp: s' pc_ok_def w_items_def covers_def)
  have p: "p \<notin> set (rc_pending s)" using D(5) [of t] Some by (simp add: rc_items_def)
  show ?thesis
  proof (rule rcu_invI)
    show "recs_ok s'" using D(1) unfolding recs_ok_def same by (simp add: s')
    show "pc_ok s' u (rc_pc s' u)" for u using D(2) [of u] same(3) [of u] pc_ok_cong [of s' u s] by (simp add: s')
    show "u < n" if "writing (rc_pc s' u)" for u using that D(3) unfolding same by blast
    show "u = v" if "writing (rc_pc s' u)" "writing (rc_pc s' v)" for u v using that D(4) unfolding same by blast
    have items: "rc_items s' u = rc_items s u" for u using same(4) [of u] by (simp add: rc_items_def s')
    show "distinct (rc_items s' u)" "set (rc_items s' u) \<subseteq> rc_heap s'" for u using D(5,6) unfolding items by (simp_all add: s')
    show "held_ok s'" using D(7) Some unfolding held_ok_def held same by (auto simp: s' split: if_splits)
    show "cover_ok s'" using D(8) p unfolding cover_ok_def held same by (auto simp: s' split: if_splits)
  qed
qed

lemma idle_inv:
  assumes inv: "rcu_inv n s" and t: "t < n" and pc: "rc_pc s t = RIdle" and nx: "idle_step [0..<n] t c s = Some s'"
  shows "rcu_inv n s'"
proof (cases c)
  case CLock
  then show ?thesis using nx pc
    by (cases "rc_own s t") (auto simp: idle_step_def read_lock_start_def w_items_def pc_ok_def covers_def intro!: inv_go [OF inv t])
next
  case (CStore a)
  then have s': "s' = rgo t (WExchange a) (s\<lparr>rc_heap := insert a (rc_heap s)\<rparr>)" and a: "a \<notin> rc_heap s" and free: "\<not> writing (rc_pc s u)" for u
    using nx no_writer [OF _ inv] by (auto simp: idle_step_def split: if_splits)
  note D = rcu_invD [OF inv]
  have f: "rc_recs s' = rc_recs s" "rc_own s' = rc_own s" "\<And>u. rc_pc s' u = (if u = t then WExchange a else rc_pc s u)" "rc_ptr s' = rc_ptr s" "rc_heap s' = insert a (rc_heap s)" "rc_pending s' = rc_pending s"
    by (simp_all add: s')
  have ri: "rc_items s' u = rc_items s u @ (if u = t then [a] else [])" for u using pc by (simp add: rc_items_def f w_items_def)
  have "distinct (rc_items s' u)" "set (rc_items s' u) \<subseteq> rc_heap s'" for u using D(5,6) [of u] a by (auto simp: ri f(5))
  moreover have "covers (rc_pc s' v) i x" for v i x using covers_other [OF free] by (auto simp: f covers_def)
  moreover have "rc_ptr s' = Some p \<or> p \<in> set (rc_pending s') \<or> (\<exists>u. rc_pc s' u = WRetire p)" if "p \<in> set (held s u)" for p u
    using held_inv [OF inv that] free by (metis f(4,6) writing.simps(8))
  ultimately show ?thesis using pc free by (intro inv_mem [OF inv t _ _ f(1-3)]) (auto simp: pc_ok_def)
next
  case CReclaim
  then show ?thesis using nx pc no_writer [OF _ inv]
    by (auto simp: idle_step_def w_items_def pc_ok_def covers_def split: if_splits intro!: inv_go [OF inv t])
next
  case CExit
  then have s': "s' = thread_exit t s" using nx by (simp add: idle_step_def)
  show ?thesis
  proof (cases "rc_own s t")
    case (Some i)
    note D = rcu_invD [OF inv]
    note R = recs_okD [OF D(1)]
    have i: "i < length (rc_recs s)" "even (rr_ctr (rc_recs s ! i))" using R(1,3) [OF Some] pc by simp_all
    have f: "rc_own s' = (rc_own s)(t := None)" "rc_pc s' = rc_pc s" "rc_pending s' = rc_pending s" "rc_ptr s' = rc_ptr s" "rc_heap s' = rc_heap s" "length (rc_recs s') = length (rc_recs s)"
      by (simp_all add: s' thread_exit_def Some set_active_def)
    have rec: "rr_ctr (rc_recs s' ! j) = rr_ctr (rc_recs s ! j)" "j \<noteq> i \<Longrightarrow> rc_recs s' ! j = rc_recs s ! j" for j
      using i by (auto simp: s' thread_exit_def Some set_active_def nth_list_update)
    have other: "j \<noteq> i" if "rc_own s u = Some j" "u \<noteq> t" for u j using R(4) [OF that(1)] Some that(2) by blast
    have held: "held s' u = held s u" for u by (simp add: held_def f)
    show ?thesis
    proof (rule rcu_invI)
      show "recs_ok s'" unfolding recs_ok_def f rec(1)
      proof (intro conjI allI impI)
        fix u j
        assume u: "((rc_own s)(t := None)) u = Some j"
        then have u': "rc_own s u = Some j" "j \<noteq> i" using other by (auto split: if_splits)
        show "j < length (rc_recs s)" "rr_active (rc_recs s' ! j)" "odd (rr_ctr (rc_recs s ! j)) = in_guard (rc_pc s u)"
          using R(1-3) [OF u'(1)] rec(2) [OF u'(2)] by simp_all
      next
        fix u v j
        assume "((rc_own s)(t := None)) u = Some j" "((rc_own s)(t := None)) v = Some j"
        then show "u = v" using R(4) by (auto split: if_splits)
      next
        fix j
        assume "j < length (rc_recs s)" "\<not> rr_active (rc_recs s' ! j)"
        then show "even (rr_ctr (rc_recs s ! j))" using rec(2) [of j] R(5) [of j] i(2) by (cases "j = i") auto
      qed
      show "pc_ok s' u (rc_pc s' u)" for u
        using D(2) [of u] pc f by (cases "u = t") (simp_all add: pc_ok_cong [of s' _ s], simp add: pc_ok_def)
      show "held_ok s'" using D(7) unfolding held_ok_def held f .
      show "cover_ok s'" using D(8) unfolding cover_ok_def held f rec(1) by (metis fun_upd_apply option.distinct(1))
    qed (use D(3-6) f in \<open>auto simp: rc_items_def\<close>)
  qed (use s' inv in \<open>simp add: thread_exit_def\<close>)
qed (use nx in \<open>simp_all add: idle_step_def\<close>)

lemma count_inv: "rcu_inv n (s\<lparr>rc_count := x\<rparr>) = rcu_inv n s"
proof -
  have "held (s\<lparr>rc_count := x\<rparr>) t = held s t" for t by (simp add: held_def)
  moreover have "pc_ok (s\<lparr>rc_count := x\<rparr>) t pc = pc_ok s t pc" for t pc by (rule pc_ok_cong) simp_all
  ultimately show ?thesis unfolding rcu_inv_def recs_ok_def held_ok_def cover_ok_def rc_items_def by simp
qed

lemma rcu_next_inv:
  assumes inv: "rcu_inv n s" and t: "t < n" and nx: "rcu_next [0..<n] t c s = Some s'"
  shows "rcu_inv n s'"
proof (cases "writing (rc_pc s t)")
  case True
  then show ?thesis by (rule write_inv [OF inv t _ nx])
next
  case False
  note ok = rcu_invD(2) [OF inv, of t]
  show ?thesis
  proof (cases "rc_pc s t")
    case RIdle
    then show ?thesis using nx idle_inv [OF inv t] by (simp add: rcu_next_def)
  next
    case (RWalk k)
    then show ?thesis by (intro register_inv [OF inv t _ nx, of k]) simp
  next
    case (RPush k)
    then show ?thesis by (intro register_inv [OF inv t _ nx, of k]) simp
  next
    case RCount
    have "rcu_inv n (rgo t RLock s)" using RCount ok by (intro inv_go [OF inv t]) (auto simp: w_items_def pc_ok_def covers_def)
    moreover have s': "s' = (rgo t RLock s)\<lparr>rc_count := rc_count s + 1\<rparr>" using nx RCount by (auto simp: rcu_next_def rgo_def)
    ultimately show ?thesis by (simp add: count_inv)
  next
    case RLock
    then obtain i where i: "rc_own s t = Some i" using ok by (auto simp: pc_ok_def)
    then have "s' = rgo t (RGuard []) (add_ctr i s)" using nx RLock by (simp add: rcu_next_def read_lock_step_def)
    then show ?thesis using RLock i by (intro ctr_inv [OF inv, where t = t and pc = "RGuard []"]) (auto simp: w_items_def held_def)
  next
    case (RGuard ps)
    then obtain i where i: "rc_own s t = Some i" using ok by (auto simp: pc_ok_def)
    have "s' = get_step t ps s \<or> s' = rgo t RIdle (add_ctr i s)"
      using nx RGuard i by (auto simp: rcu_next_def read_unlock_step_def split: rcu_choice.splits)
    then show ?thesis using get_inv [OF inv RGuard] RGuard i
      by (auto simp: w_items_def held_def intro: ctr_inv [OF inv, where t = t and pc = RIdle])
  qed (use False in auto)
qed

lemma rcu_run_inv: "rcu_inv n s \<Longrightarrow> rcu_run n [0..<n] moves s = Some s' \<Longrightarrow> rcu_inv n s'"
proof (induction moves arbitrary: s)
  case (Cons m moves)
  obtain t c where m: "m = (t, c)" by (cases m)
  then obtain s1 where "t < n" "rcu_next [0..<n] t c s = Some s1" "rcu_run n [0..<n] moves s1 = Some s'"
    using Cons.prems(2) by (auto split: if_splits simp: bind_eq_Some_conv)
  then show ?case using Cons.IH rcu_next_inv [OF Cons.prems(1)] by blast
qed simp

lemma rcu_new_inv: "rcu_inv n (rcu_new initial)"
  by (cases initial) (auto simp: rcu_inv_def rcu_new_def recs_ok_def pc_ok_def rc_items_def w_items_def held_ok_def cover_ok_def held_def)

section \<open>Safety\<close>

text \<open>
  C14. Readers never touch freed memory. In every interleaving of any number of threads that lock, read, unlock, exit,
  replace the pointer and reclaim, with the writing calls serialized by their callers, every pointer a thread has read in
  its current guard is allocated, and so is the published one; objects that are pending are allocated and not published.
\<close>

theorem rcu_readers_safe:
  assumes run: "rcu_run n [0..<n] moves (rcu_new initial) = Some s"
  shows "(\<forall>t. set (held s t) \<subseteq> rc_heap s) \<and> set_option (rc_ptr s) \<subseteq> rc_heap s \<and>
    distinct (rc_pending s) \<and> set (rc_pending s) \<subseteq> rc_heap s - set_option (rc_ptr s)"
proof -
  note inv = rcu_run_inv [OF rcu_new_inv run]
  note D = rcu_invD [OF inv]
  have p: "p \<in> rc_heap s" if "rc_ptr s = Some p \<or> p \<in> set (rc_pending s) \<or> rc_pc s u = WRetire p" for p u
    using D(6) [of u] that by (auto simp: rc_items_def w_items_def)
  have "set (held s t) \<subseteq> rc_heap s" for t using held_inv [OF inv] p by blast
  moreover have "set_option (rc_ptr s) \<subseteq> rc_heap s" using p by (cases "rc_ptr s") auto
  moreover have "distinct (rc_pending s)" "set (rc_pending s) \<inter> set_option (rc_ptr s) = {}"
    using D(5) [of 0] by (auto simp: rc_items_def split: option.splits)
  ultimately show ?thesis using p by blast
qed

text \<open>A reader holds object 0 while thread 1 replaces it and waits; after the unlock the object is freed.\<close>

definition rcu_demo :: "(nat \<times> rcu_choice) list" where
  "rcu_demo = [(0, CLock), (0, CNext), (0, CNext), (0, CNext), (0, CNext), (0, CGet), (1, CStore 1), (1, CNext), (1, CNext), (1, CReclaim),
     (1, CNext), (1, CNext), (1, CNext), (1, CNext), (1, CNext)]"

theorem rcu_readers_safe_witness:
  "case rcu_run 2 [0..<2] rcu_demo (rcu_new (Some 0)) of None \<Rightarrow> False
   | Some s \<Rightarrow> held s 0 = [0] \<and> rc_pending s = [0] \<and> rc_ptr s = Some 1 \<and> (0 :: nat) \<in> rc_heap s"
proof -
  have c: "case rcu_run 2 [0..<2] rcu_demo (rcu_new (Some 0)) of None \<Rightarrow> False | Some s \<Rightarrow> held s 0 = [0] \<and> rc_pending s = [0] \<and> rc_ptr s = Some 1" by code_simp
  then obtain s where s: "rcu_run 2 [0..<2] rcu_demo (rcu_new (Some 0)) = Some s" "held s 0 = [0]" by (auto split: option.splits)
  then show ?thesis using rcu_readers_safe [OF s(1)] c by auto
qed

text \<open>
  Without the serialization \<open>reclaim_all\<close> frees objects that were retired after its grace period: it takes the pending
  list only after \<open>synchronize\<close> has returned. Thread 1 finds no reader and returns from \<open>synchronize\<close>; thread 0 enters a guard and
  reads object 0; thread 2 replaces and retires it; thread 1 frees it while thread 0 still holds it.
\<close>

definition rcu_race :: "(nat \<times> rcu_choice) list" where
  "rcu_race = [(1, CReclaim), (1, CNext), (1, CNext), (1, CNext), (0, CLock), (0, CNext), (0, CNext), (0, CNext), (0, CNext), (0, CGet),
     (2, CStore 1), (2, CNext), (2, CNext), (1, CNext), (1, CNext)]"

lemma rcu_unserialized_use_after_free:
  "case rcu_run 3 [] rcu_race (rcu_new (Some 0)) of None \<Rightarrow> False | Some s \<Rightarrow> held s 0 = [0] \<and> 0 \<notin> rc_heap s"
  by code_simp

end
