(* ===== verification/Epoch.thy ===== *)
theory Epoch
  imports Prelude
begin

text \<open>
  \<open>foundation/epoch/epoch_reclaim.h\<close>: epoch-based reclamation. Any number of threads enter and leave guards, read linked
  objects, unlink them, retire them and advance the epoch, interleaved at every atomic access and critical section, all
  sequentially consistent. The structure the objects live in is a parameter of the domain: an object is linked until
  some thread unlinks it, and only linked objects can be found by a reader. An allocation may return any address that is
  not in use. Record \<open>i\<close> is the \<open>i\<close>-th created and its \<open>next\<close> is record \<open>i - 1\<close>; position \<open>n\<close> in a walk stands for the
  pointer to record \<open>n - 1\<close>, position 0 for the end. Epochs are natural numbers: the 64-bit counter does not wrap in a run.
\<close>

section \<open>State\<close>

definition kEBREpochs :: nat where
  "kEBREpochs = 3"

record epoch_record =
  er_local :: nat
  er_active :: bool

text \<open>Where an object is: not allocated, linked, unlinked by a thread, in a retire list, or taken out of it by a thread that frees it.\<close>

datatype obj_place = Unallocated | Linked | Unlinked nat | Retired nat | Doomed nat

text \<open>
  Program points: \<open>get_or_create_record\<close>; \<open>enter\<close> with the epoch read; \<open>do_retire\<close> with the object and the epoch read;
  \<open>try_advance\<close> with the epoch it saw, the position of its scan, and the objects it still has to free.
\<close>

datatype epoch_pc =
    EIdle
  | EWalk nat
  | EPush nat
  | ECount
  | EEnter
  | EStore nat
  | EActivate
  | TOwned nat
  | TGetEpoch nat
  | TPush nat nat
  | TLoad
  | THead nat
  | TScan nat nat
  | TLocal nat nat
  | TCas nat
  | TMove nat
  | TFree "nat list"

text \<open>
  \<open>ep_guard\<close> is what a thread has read in its guard, if it is in one. Two fields are ghosts: \<open>ep_since\<close>, the epoch when
  the guard became active, and the epoch stored with each retired object.
\<close>

record epoch_domain =
  ep_global :: nat
  ep_recs :: "epoch_record list"
  ep_count :: nat
  ep_retire :: "nat \<Rightarrow> (nat \<times> nat) list"
  ep_obj :: "nat \<Rightarrow> obj_place"
  ep_own :: "nat \<Rightarrow> nat option"
  ep_pc :: "nat \<Rightarrow> epoch_pc"
  ep_guard :: "nat \<Rightarrow> nat list option"
  ep_since :: "nat \<Rightarrow> nat"

definition epoch_new :: epoch_domain where
  "epoch_new = \<lparr>ep_global = 0, ep_recs = [], ep_count = 0, ep_retire = (\<lambda>_. []), ep_obj = (\<lambda>_. Unallocated), ep_own = (\<lambda>_. None),
     ep_pc = (\<lambda>_. EIdle), ep_guard = (\<lambda>_. None), ep_since = (\<lambda>_. 0)\<rparr>"

definition ego :: "nat \<Rightarrow> epoch_pc \<Rightarrow> epoch_domain \<Rightarrow> epoch_domain" where
  "ego t pc s = s\<lparr>ep_pc := (ep_pc s)(t := pc)\<rparr>"

definition set_rec :: "nat \<Rightarrow> epoch_record \<Rightarrow> epoch_domain \<Rightarrow> epoch_domain" where
  "set_rec i r s = s\<lparr>ep_recs := (ep_recs s)[i := r]\<rparr>"

section \<open>Registration and guards\<close>

text \<open>
  The callers' discipline: \<open>own_records\<close> forbids a thread to take over a record that another thread still uses, \<open>serial_retires\<close>
  forbids calls of \<open>retire\<close> and \<open>try_advance\<close> to overlap. The code checks neither.
\<close>

record discipline =
  own_records :: bool
  serial_retires :: bool

definition epoch_walk :: "discipline \<Rightarrow> nat list \<Rightarrow> nat \<Rightarrow> nat \<Rightarrow> epoch_domain \<Rightarrow> epoch_domain option" where
  "epoch_walk d threads t n s = (case n of 0 \<Rightarrow> Some (ego t (EPush (length (ep_recs s))) s)
     | Suc i \<Rightarrow> if er_active (ep_recs s ! i) then Some (ego t (EWalk i) s)
        else if own_records d \<and> list_ex (\<lambda>u. ep_own s u = Some i) threads then None
        else Some (ego t EEnter ((set_rec i ((ep_recs s ! i)\<lparr>er_active := True\<rparr>) s)\<lparr>ep_own := (ep_own s)(t := Some i)\<rparr>)))"

definition epoch_push :: "bool \<Rightarrow> nat \<Rightarrow> nat \<Rightarrow> epoch_domain \<Rightarrow> epoch_domain" where
  "epoch_push spurious t old s = (if length (ep_recs s) = old \<and> \<not> spurious
     then ego t ECount (s\<lparr>ep_recs := ep_recs s @ [\<lparr>er_local = 0, er_active = True\<rparr>], ep_own := (ep_own s)(t := Some old)\<rparr>)
     else ego t (EPush (length (ep_recs s))) s)"

definition enter_start :: "nat \<Rightarrow> epoch_domain \<Rightarrow> epoch_domain" where
  "enter_start t s = ego t (case ep_own s t of None \<Rightarrow> EWalk (length (ep_recs s)) | Some _ \<Rightarrow> EEnter) s"

definition enter_store :: "nat \<Rightarrow> nat \<Rightarrow> epoch_domain \<Rightarrow> epoch_domain option" where
  "enter_store t g s = (case ep_own s t of None \<Rightarrow> None
     | Some i \<Rightarrow> Some (ego t EActivate (set_rec i ((ep_recs s ! i)\<lparr>er_local := g\<rparr>) s)))"

definition enter_activate :: "nat \<Rightarrow> epoch_domain \<Rightarrow> epoch_domain option" where
  "enter_activate t s = (case ep_own s t of None \<Rightarrow> None
     | Some i \<Rightarrow> Some ((ego t EIdle (set_rec i ((ep_recs s ! i)\<lparr>er_active := True\<rparr>) s))
         \<lparr>ep_guard := (ep_guard s)(t := Some []), ep_since := (ep_since s)(t := ep_global s)\<rparr>))"

definition epoch_exit :: "nat \<Rightarrow> epoch_domain \<Rightarrow> epoch_domain option" where
  "epoch_exit t s = (case ep_own s t of None \<Rightarrow> None
     | Some i \<Rightarrow> Some ((set_rec i ((ep_recs s ! i)\<lparr>er_active := False\<rparr>) s)\<lparr>ep_guard := (ep_guard s)(t := None)\<rparr>))"

text \<open>The end of a thread: \<open>~ThreadState\<close>.\<close>

definition epoch_thread_end :: "nat \<Rightarrow> epoch_domain \<Rightarrow> epoch_domain" where
  "epoch_thread_end t s = (case ep_own s t of None \<Rightarrow> s
     | Some i \<Rightarrow> (set_rec i ((ep_recs s ! i)\<lparr>er_active := False\<rparr>) s)\<lparr>ep_own := (ep_own s)(t := None)\<rparr>)"

section \<open>Retiring and advancing\<close>

definition retire_push :: "nat \<Rightarrow> nat \<Rightarrow> nat \<Rightarrow> epoch_domain \<Rightarrow> epoch_domain" where
  "retire_push t p g s = (let k = g mod kEBREpochs in
     ego t TLoad (s\<lparr>ep_retire := (ep_retire s)(k := ep_retire s k @ [(p, g)]), ep_obj := (ep_obj s)(p := Retired k)\<rparr>))"

definition advance_scan :: "nat \<Rightarrow> nat \<Rightarrow> nat \<Rightarrow> epoch_domain \<Rightarrow> epoch_domain" where
  "advance_scan t G n s = (case n of 0 \<Rightarrow> ego t (TCas G) s
     | Suc i \<Rightarrow> ego t (if er_active (ep_recs s ! i) then TLocal G i else TScan G i) s)"

definition advance_local :: "nat \<Rightarrow> nat \<Rightarrow> nat \<Rightarrow> epoch_domain \<Rightarrow> epoch_domain" where
  "advance_local t G i s = ego t (if er_local (ep_recs s ! i) \<noteq> G then EIdle else TScan G i) s"

definition advance_cas :: "nat \<Rightarrow> nat \<Rightarrow> epoch_domain \<Rightarrow> epoch_domain" where
  "advance_cas t G s = (if ep_global s = G then ego t (TMove G) (s\<lparr>ep_global := G + 1\<rparr>) else ego t EIdle s)"

text \<open>\<open>(G - 1 + kEBREpochs) % kEBREpochs\<close> in unsigned arithmetic.\<close>

definition old_slot :: "nat \<Rightarrow> nat" where
  "old_slot G = (G + kEBREpochs - 1) mod kEBREpochs"

definition advance_move :: "nat \<Rightarrow> nat \<Rightarrow> epoch_domain \<Rightarrow> epoch_domain" where
  "advance_move t G s = (let ps = map fst (ep_retire s (old_slot G)) in
     ego t (TFree ps) (s\<lparr>ep_retire := (ep_retire s)(old_slot G := []), ep_obj := (\<lambda>p. if p \<in> set ps then Doomed t else ep_obj s p)\<rparr>))"

definition advance_free :: "nat \<Rightarrow> nat list \<Rightarrow> epoch_domain \<Rightarrow> epoch_domain" where
  "advance_free t ps s = (case ps of [] \<Rightarrow> ego t EIdle s | p # rest \<Rightarrow> ego t (TFree rest) (s\<lparr>ep_obj := (ep_obj s)(p := Unallocated)\<rparr>))"

definition pending_count :: "epoch_domain \<Rightarrow> nat" where
  "pending_count s = sum_list (map (\<lambda>i. length (ep_retire s i)) [0..<kEBREpochs])"

section \<open>Runs\<close>

text \<open>What an idle thread does next: enter or leave a guard, read, link, unlink, advance, end.\<close>

datatype epoch_choice = Enter | Exit | Read nat | Link nat | Unlink nat | TryAdvance | EndThread | Next | Spurious

fun reclaiming :: "epoch_pc \<Rightarrow> bool" where
  "reclaiming (TGetEpoch p) = True" | "reclaiming (TPush p g) = True" | "reclaiming TLoad = True" | "reclaiming (THead G) = True" | "reclaiming (TScan G n) = True"
| "reclaiming (TLocal G n) = True" | "reclaiming (TCas G) = True" | "reclaiming (TMove G) = True" | "reclaiming (TFree ps) = True" | "reclaiming _ = False"

definition may_reclaim :: "discipline \<Rightarrow> nat list \<Rightarrow> epoch_domain \<Rightarrow> bool" where
  "may_reclaim d threads s \<longleftrightarrow> (serial_retires d \<longrightarrow> list_all (\<lambda>u. \<not> reclaiming (ep_pc s u)) threads)"

definition epoch_idle :: "discipline \<Rightarrow> nat list \<Rightarrow> nat \<Rightarrow> epoch_choice \<Rightarrow> epoch_domain \<Rightarrow> epoch_domain option" where
  "epoch_idle d threads t c s = (case c of
      Enter \<Rightarrow> if ep_guard s t = None then Some (enter_start t s) else None
    | Exit \<Rightarrow> if ep_guard s t = None then None else epoch_exit t s
    | Read p \<Rightarrow> (case ep_guard s t of None \<Rightarrow> None
        | Some ps \<Rightarrow> if ep_obj s p = Linked then Some (s\<lparr>ep_guard := (ep_guard s)(t := Some (p # ps))\<rparr>) else None)
    | Link p \<Rightarrow> if ep_obj s p = Unallocated then Some (s\<lparr>ep_obj := (ep_obj s)(p := Linked)\<rparr>) else None
    | Unlink p \<Rightarrow> if ep_obj s p = Linked then Some (ego t (TOwned p) (s\<lparr>ep_obj := (ep_obj s)(p := Unlinked t)\<rparr>)) else None
    | TryAdvance \<Rightarrow> if may_reclaim d threads s then Some (ego t TLoad s) else None
    | EndThread \<Rightarrow> if ep_guard s t = None then Some (epoch_thread_end t s) else None
    | _ \<Rightarrow> None)"

definition epoch_next :: "discipline \<Rightarrow> nat list \<Rightarrow> nat \<Rightarrow> epoch_choice \<Rightarrow> epoch_domain \<Rightarrow> epoch_domain option" where
  "epoch_next d threads t c s = (case ep_pc s t of
      EIdle \<Rightarrow> epoch_idle d threads t c s
    | EWalk n \<Rightarrow> epoch_walk d threads t n s
    | EPush old \<Rightarrow> Some (epoch_push (c = Spurious) t old s)
    | ECount \<Rightarrow> Some (ego t EEnter (s\<lparr>ep_count := ep_count s + 1\<rparr>))
    | EEnter \<Rightarrow> Some (ego t (EStore (ep_global s)) s)
    | EStore g \<Rightarrow> enter_store t g s
    | EActivate \<Rightarrow> enter_activate t s
    | TOwned p \<Rightarrow> if c = Exit then (if ep_guard s t = None then None else epoch_exit t s)
        else if may_reclaim d threads s then Some (ego t (TGetEpoch p) s) else None
    | TGetEpoch p \<Rightarrow> Some (ego t (TPush p (ep_global s)) s)
    | TPush p g \<Rightarrow> Some (retire_push t p g s)
    | TLoad \<Rightarrow> Some (ego t (THead (ep_global s)) s)
    | THead G \<Rightarrow> Some (ego t (TScan G (length (ep_recs s))) s)
    | TScan G n \<Rightarrow> Some (advance_scan t G n s)
    | TLocal G i \<Rightarrow> Some (advance_local t G i s)
    | TCas G \<Rightarrow> Some (advance_cas t G s)
    | TMove G \<Rightarrow> Some (advance_move t G s)
    | TFree ps \<Rightarrow> Some (advance_free t ps s))"

fun epoch_run :: "discipline \<Rightarrow> nat list \<Rightarrow> (nat \<times> epoch_choice) list \<Rightarrow> epoch_domain \<Rightarrow> epoch_domain option" where
  "epoch_run d threads [] s = Some s"
| "epoch_run d threads ((t, c) # moves) s = (if t \<in> set threads then Option.bind (epoch_next d threads t c s) (epoch_run d threads moves) else None)"

section \<open>The invariant\<close>

definition own_ok :: "nat list \<Rightarrow> epoch_domain \<Rightarrow> bool" where
  "own_ok threads s \<longleftrightarrow> (\<forall>t i. ep_own s t = Some i \<longrightarrow> i < length (ep_recs s) \<and> t \<in> set threads) \<and>
     (\<forall>t u i. ep_own s t = Some i \<longrightarrow> ep_own s u = Some i \<longrightarrow> t = u)"

text \<open>While a thread is in a guard the epoch advances at most once.\<close>

definition guard_ok :: "epoch_domain \<Rightarrow> nat \<Rightarrow> bool" where
  "guard_ok s t \<longleftrightarrow> (ep_guard s t \<noteq> None \<longrightarrow> (\<exists>i. ep_own s t = Some i \<and> er_active (ep_recs s ! i) \<and> er_local (ep_recs s ! i) \<le> ep_since s t) \<and>
     ep_since s t \<le> ep_global s \<and> ep_global s \<le> ep_since s t + 1)"

definition epoch_pc_ok :: "epoch_domain \<Rightarrow> nat \<Rightarrow> epoch_pc \<Rightarrow> bool" where
  "epoch_pc_ok s t pc = (case pc of
      EWalk k \<Rightarrow> ep_own s t = None \<and> ep_guard s t = None \<and> k \<le> length (ep_recs s)
    | EPush k \<Rightarrow> ep_own s t = None \<and> ep_guard s t = None
    | ECount \<Rightarrow> ep_own s t \<noteq> None \<and> ep_guard s t = None
    | EEnter \<Rightarrow> ep_own s t \<noteq> None \<and> ep_guard s t = None
    | EStore g \<Rightarrow> ep_own s t \<noteq> None \<and> ep_guard s t = None \<and> g \<le> ep_global s
    | EActivate \<Rightarrow> ep_guard s t = None \<and> (\<exists>i. ep_own s t = Some i \<and> er_local (ep_recs s ! i) \<le> ep_global s)
    | TOwned p \<Rightarrow> ep_obj s p = Unlinked t
    | TGetEpoch p \<Rightarrow> ep_obj s p = Unlinked t
    | TPush p g \<Rightarrow> ep_obj s p = Unlinked t \<and> g \<le> ep_global s
    | THead G \<Rightarrow> G \<le> ep_global s
    | TScan G n \<Rightarrow> G \<le> ep_global s \<and> n \<le> length (ep_recs s)
    | TLocal G i \<Rightarrow> G \<le> ep_global s \<and> i < length (ep_recs s)
    | TCas G \<Rightarrow> G \<le> ep_global s
    | TMove G \<Rightarrow> ep_global s = G + 1
    | TFree ps \<Rightarrow> distinct ps \<and> (\<forall>p \<in> set ps. ep_obj s p = Doomed t)
    | _ \<Rightarrow> True)"

text \<open>A scan that can still succeed has not passed the record of a thread that entered in an earlier epoch.\<close>

definition passed_by :: "epoch_pc \<Rightarrow> nat \<Rightarrow> nat \<Rightarrow> nat \<Rightarrow> bool" where
  "passed_by pc G since i = (case pc of TScan E n \<Rightarrow> E = G \<and> G = since + 1 \<longrightarrow> i < n | TLocal E j \<Rightarrow> E = G \<and> G = since + 1 \<longrightarrow> i \<le> j
     | TCas E \<Rightarrow> \<not> (E = G \<and> G = since + 1) | _ \<Rightarrow> True)"

definition scan_ok :: "epoch_domain \<Rightarrow> bool" where
  "scan_ok s \<longleftrightarrow> (\<forall>t u i. ep_guard s t \<noteq> None \<longrightarrow> ep_own s t = Some i \<longrightarrow> passed_by (ep_pc s u) (ep_global s) (ep_since s t) i)"

definition slots_ok :: "epoch_domain \<Rightarrow> bool" where
  "slots_ok s \<longleftrightarrow> (\<forall>k. distinct (map fst (ep_retire s k)) \<and> (\<forall>(p, g) \<in> set (ep_retire s k). ep_obj s p = Retired k \<and> g mod kEBREpochs = k \<and> g \<le> ep_global s))"

text \<open>An object in a guard is linked, or was unlinked no earlier than the epoch in which the guard began.\<close>

definition keeps :: "epoch_domain \<Rightarrow> nat \<Rightarrow> nat \<Rightarrow> bool" where
  "keeps s since p \<longleftrightarrow> ep_obj s p = Linked \<or> (\<exists>u. ep_obj s p = Unlinked u \<and> (\<forall>g. ep_pc s u = TPush p g \<longrightarrow> since \<le> g)) \<or>
     (\<exists>k g. (p, g) \<in> set (ep_retire s k) \<and> since \<le> g)"

definition reads_ok :: "epoch_domain \<Rightarrow> bool" where
  "reads_ok s \<longleftrightarrow> (\<forall>t hs. ep_guard s t = Some hs \<longrightarrow> (\<forall>p \<in> set hs. keeps s (ep_since s t) p))"

definition serial_ok :: "nat list \<Rightarrow> epoch_domain \<Rightarrow> bool" where
  "serial_ok threads s \<longleftrightarrow> (\<forall>t. reclaiming (ep_pc s t) \<longrightarrow> t \<in> set threads) \<and> (\<forall>t u. reclaiming (ep_pc s t) \<longrightarrow> reclaiming (ep_pc s u) \<longrightarrow> t = u)"

definition epoch_inv :: "nat list \<Rightarrow> epoch_domain \<Rightarrow> bool" where
  "epoch_inv threads s \<longleftrightarrow> own_ok threads s \<and> (\<forall>t. guard_ok s t) \<and> (\<forall>t. epoch_pc_ok s t (ep_pc s t)) \<and> scan_ok s \<and> slots_ok s \<and> reads_ok s \<and> serial_ok threads s"

lemma epoch_invI:
  assumes "own_ok threads s" "\<And>t. guard_ok s t" "\<And>t. epoch_pc_ok s t (ep_pc s t)" "scan_ok s" "slots_ok s" "reads_ok s" "serial_ok threads s"
  shows "epoch_inv threads s"
  using assms by (simp add: epoch_inv_def)

lemma epoch_invD:
  assumes "epoch_inv threads s"
  shows "own_ok threads s" "guard_ok s t" "epoch_pc_ok s t (ep_pc s t)" "scan_ok s" "slots_ok s" "reads_ok s" "serial_ok threads s"
  using assms unfolding epoch_inv_def by blast+

lemma ego_simps [simp]:
  "ep_global (ego t pc s) = ep_global s" "ep_recs (ego t pc s) = ep_recs s" "ep_count (ego t pc s) = ep_count s" "ep_retire (ego t pc s) = ep_retire s"
  "ep_obj (ego t pc s) = ep_obj s" "ep_own (ego t pc s) = ep_own s" "ep_guard (ego t pc s) = ep_guard s" "ep_since (ego t pc s) = ep_since s"
  "ep_pc (ego t pc s) u = (if u = t then pc else ep_pc s u)"
  by (simp_all add: ego_def)

lemma set_rec_simps [simp]:
  "ep_global (set_rec i r s) = ep_global s" "length (ep_recs (set_rec i r s)) = length (ep_recs s)" "ep_count (set_rec i r s) = ep_count s" "ep_retire (set_rec i r s) = ep_retire s"
  "ep_obj (set_rec i r s) = ep_obj s" "ep_own (set_rec i r s) = ep_own s" "ep_guard (set_rec i r s) = ep_guard s" "ep_since (set_rec i r s) = ep_since s"
  "ep_pc (set_rec i r s) = ep_pc s"
  by (simp_all add: set_rec_def)

lemma own_okD:
  assumes "own_ok threads s" "ep_own s t = Some i"
  shows "i < length (ep_recs s)" "t \<in> set threads" "ep_own s u = Some i \<Longrightarrow> t = u"
  using assms unfolding own_ok_def by blast+

lemma slots_okD:
  assumes "slots_ok s"
  shows "distinct (map fst (ep_retire s k))" "(p, g) \<in> set (ep_retire s k) \<Longrightarrow> ep_obj s p = Retired k"
    "(p, g) \<in> set (ep_retire s k) \<Longrightarrow> g mod kEBREpochs = k" "(p, g) \<in> set (ep_retire s k) \<Longrightarrow> g \<le> ep_global s"
  using assms unfolding slots_ok_def by blast+

lemma slots_okI:
  assumes "\<And>k. distinct (map fst (ep_retire s k))"
    and "\<And>k p g. (p, g) \<in> set (ep_retire s k) \<Longrightarrow> ep_obj s p = Retired k \<and> g mod kEBREpochs = k \<and> g \<le> ep_global s"
  shows "slots_ok s"
  using assms unfolding slots_ok_def by blast

lemma serial_ok_upd:
  assumes "serial_ok threads s" "\<And>u. u \<noteq> t \<Longrightarrow> ep_pc s' u = ep_pc s u"
    and "reclaiming (ep_pc s' t) \<Longrightarrow> t \<in> set threads \<and> (reclaiming (ep_pc s t) \<or> (\<forall>u. \<not> reclaiming (ep_pc s u)))"
  shows "serial_ok threads s'"
  using assms unfolding serial_ok_def by metis

section \<open>Steps keep the invariant\<close>

text \<open>A step of the program counter alone.\<close>

lemma epoch_go:
  assumes inv: "epoch_inv threads s" and ok: "epoch_pc_ok s t pc" and pc: "\<And>p g. ep_pc s t \<noteq> TPush p g"
    and rec: "reclaiming pc \<Longrightarrow> t \<in> set threads \<and> (reclaiming (ep_pc s t) \<or> (\<forall>u. \<not> reclaiming (ep_pc s u)))"
    and scan: "\<And>u i. ep_guard s u \<noteq> None \<Longrightarrow> ep_own s u = Some i \<Longrightarrow> passed_by pc (ep_global s) (ep_since s u) i"
    and push: "\<And>p g. pc = TPush p g \<Longrightarrow> g = ep_global s"
  shows "epoch_inv threads (ego t pc s)"
proof (rule epoch_invI)
  note D = epoch_invD [OF inv]
  show "own_ok threads (ego t pc s)" using D(1) by (simp add: own_ok_def)
  show "guard_ok (ego t pc s) u" for u using D(2) [of u] by (simp add: guard_ok_def)
  have ok': "epoch_pc_ok (ego t pc s) u q = epoch_pc_ok s u q" for u q by (simp add: epoch_pc_ok_def cong: epoch_pc.case_cong)
  show "epoch_pc_ok (ego t pc s) u (ep_pc (ego t pc s) u)" for u unfolding ok' using D(3) [of u] ok by simp
  show "scan_ok (ego t pc s)" using D(4) scan unfolding scan_ok_def by auto
  show "slots_ok (ego t pc s)" using D(5) by (simp add: slots_ok_def)
  have "keeps (ego t pc s) (ep_since s u) p" if k: "keeps s (ep_since s u) p" and u: "ep_guard s u \<noteq> None" for u p
  proof -
    have le: "ep_since s u \<le> ep_global s" using D(2) [of u] u by (simp add: guard_ok_def)
    have "\<forall>g. ep_pc (ego t pc s) v = TPush p g \<longrightarrow> ep_since s u \<le> g" if "\<forall>g. ep_pc s v = TPush p g \<longrightarrow> ep_since s u \<le> g" for v
      using that push le by (cases "v = t") auto
    then show ?thesis using k unfolding keeps_def ego_simps(4,5) by blast
  qed
  then show "reads_ok (ego t pc s)" using D(6) unfolding reads_ok_def by auto
  show "serial_ok threads (ego t pc s)" by (rule serial_ok_upd [OF D(7), of t]) (use rec in simp_all)
qed

text \<open>A thread that is not reclaiming changes its own record, its guard or its registration.\<close>

lemma epoch_recs:
  assumes inv: "epoch_inv threads s" and pc: "\<not> reclaiming (ep_pc s t)" "\<not> reclaiming (ep_pc s' t)"
    and same: "ep_global s' = ep_global s" "ep_retire s' = ep_retire s" "ep_obj s' = ep_obj s" "length (ep_recs s) \<le> length (ep_recs s')"
    and other: "\<And>u. u \<noteq> t \<Longrightarrow> ep_own s' u = ep_own s u \<and> ep_pc s' u = ep_pc s u \<and> ep_guard s' u = ep_guard s u \<and> ep_since s' u = ep_since s u"
    and recs: "\<And>u j. u \<noteq> t \<Longrightarrow> ep_own s u = Some j \<Longrightarrow> ep_recs s' ! j = ep_recs s ! j"
    and own: "\<And>i. ep_own s' t = Some i \<Longrightarrow> i < length (ep_recs s') \<and> t \<in> set threads \<and> (\<forall>u. u \<noteq> t \<longrightarrow> ep_own s u \<noteq> Some i)"
    and new: "guard_ok s' t" "epoch_pc_ok s' t (ep_pc s' t)" "ep_guard s' t = None \<or> ep_guard s' t = Some [] \<and> ep_since s' t = ep_global s"
  shows "epoch_inv threads s'"
proof (rule epoch_invI)
  note D = epoch_invD [OF inv]
  show "own_ok threads s'" unfolding own_ok_def
  proof (intro conjI allI impI)
    fix u i
    assume u: "ep_own s' u = Some i"
    show "i < length (ep_recs s')" "u \<in> set threads"
      using u own [of i] other [of u] own_okD(1,2) [OF D(1), of u i] same(4) by (cases "u = t"; simp)+
  next
    fix u v i
    assume uv: "ep_own s' u = Some i" "ep_own s' v = Some i"
    consider "u = t" "v = t" | "u = t" "v \<noteq> t" | "u \<noteq> t" "v = t" | "u \<noteq> t" "v \<noteq> t" by blast
    then show "u = v"
    proof cases
      case 2
      then show ?thesis using uv own [of i] other [of v] by simp
    next
      case 3
      then show ?thesis using uv own [of i] other [of u] by simp
    next
      case 4
      then show ?thesis using uv own_okD(3) [OF D(1), of u i v] other [of u] other [of v] by simp
    qed simp
  qed
  show "guard_ok s' u" for u
  proof (cases "u = t")
    case False
    then show ?thesis using D(2) [of u] other [OF False] recs [OF False] same(1) by (auto simp: guard_ok_def)
  qed (use new(1) in simp)
  show "epoch_pc_ok s' u (ep_pc s' u)" for u
  proof (cases "u = t")
    case False
    then show ?thesis using D(3) [of u] other [OF False] recs [OF False] same
      by (auto simp: epoch_pc_ok_def split: epoch_pc.splits)
  qed (use new(2) in simp)
  show "scan_ok s'" unfolding scan_ok_def
  proof (intro allI impI)
    fix u v i
    assume u: "ep_guard s' u \<noteq> None" "ep_own s' u = Some i"
    show "passed_by (ep_pc s' v) (ep_global s') (ep_since s' u) i"
    proof (cases "u = t")
      case True
      then have "ep_since s' u = ep_global s'" using new(3) u(1) same(1) by auto
      then show ?thesis by (cases "ep_pc s' v") (simp_all add: passed_by_def)
    next
      case False
      then have "passed_by (ep_pc s v) (ep_global s) (ep_since s u) i" using D(4) u other [OF False] unfolding scan_ok_def by auto
      moreover have "passed_by (ep_pc s' t) G x i" for G x using pc(2) by (cases "ep_pc s' t") (auto simp: passed_by_def)
      ultimately show ?thesis using other [OF False] other [of v] same(1) by (cases "v = t") auto
    qed
  qed
  show "slots_ok s'" using D(5) same unfolding slots_ok_def by simp
  have push: "ep_pc s' v = TPush p g \<Longrightarrow> ep_pc s v = TPush p g" for v p g using pc(2) other [of v] by (cases "v = t") auto
  have "keeps s' x p" if "keeps s x p" for x p using that push same(2,3) unfolding keeps_def by metis
  then show "reads_ok s'" using D(6) other new(3) unfolding reads_ok_def by (metis empty_iff list.set(1) option.distinct(1) option.inject)
  show "serial_ok threads s'" by (rule serial_ok_upd [OF D(7), of t]) (use other pc(2) in simp_all)
qed

text \<open>A step that moves objects, taken outside the scan of \<open>try_advance\<close>.\<close>

lemma epoch_objs:
  assumes inv: "epoch_inv threads s"
    and same: "ep_global s' = ep_global s" "ep_recs s' = ep_recs s" "ep_own s' = ep_own s" "ep_guard s' = ep_guard s" "ep_since s' = ep_since s"
      "\<And>u. u \<noteq> t \<Longrightarrow> ep_pc s' u = ep_pc s u"
    and mine: "\<And>u p. u \<noteq> t \<Longrightarrow> ep_obj s p = Unlinked u \<or> ep_obj s p = Doomed u \<Longrightarrow> ep_obj s' p = ep_obj s p"
    and new: "epoch_pc_ok s' t (ep_pc s' t)" "slots_ok s'" "\<And>G x i. passed_by (ep_pc s' t) G x i"
    and rec: "reclaiming (ep_pc s' t) \<Longrightarrow> t \<in> set threads \<and> (reclaiming (ep_pc s t) \<or> (\<forall>u. \<not> reclaiming (ep_pc s u)))"
    and kept: "\<And>u hs p. ep_guard s u = Some hs \<Longrightarrow> p \<in> set hs \<Longrightarrow> keeps s (ep_since s u) p \<Longrightarrow> keeps s' (ep_since s u) p"
  shows "epoch_inv threads s'"
proof (rule epoch_invI)
  note D = epoch_invD [OF inv]
  show "own_ok threads s'" using D(1) same by (simp add: own_ok_def)
  show "guard_ok s' u" for u using D(2) [of u] same by (simp add: guard_ok_def)
  show "epoch_pc_ok s' u (ep_pc s' u)" for u
  proof (cases "u = t")
    case False
    then show ?thesis using D(3) [of u] same mine [OF False] by (auto simp: epoch_pc_ok_def split: epoch_pc.splits)
  qed (use new(1) in simp)
  show "scan_ok s'" using D(4) same new(3) unfolding scan_ok_def by metis
  show "reads_ok s'" using D(6) kept same(4,5) unfolding reads_ok_def by metis
  show "serial_ok threads s'" by (rule serial_ok_upd [OF D(7), of t]) (use same(6) rec in simp_all)
qed (use new(2) in simp)

lemma keeps_more:
  assumes "keeps s x p" "p \<noteq> q" "\<And>r. r \<noteq> q \<Longrightarrow> ep_obj s' r = ep_obj s r" "\<And>v g. ep_pc s' v = TPush p g \<Longrightarrow> ep_pc s v = TPush p g"
    and "\<And>k. set (ep_retire s k) \<subseteq> set (ep_retire s' k)"
  shows "keeps s' x p"
  using assms unfolding keeps_def by (metis subsetD)

lemma retire_push_inv:
  assumes inv: "epoch_inv threads s" and pc: "ep_pc s t = TPush p g" and s': "s' = retire_push t p g s"
  shows "epoch_inv threads s'"
proof -
  note D = epoch_invD [OF inv]
  let ?k = "g mod kEBREpochs"
  have obj: "ep_obj s p = Unlinked t" "g \<le> ep_global s" using D(3) [of t] pc by (simp_all add: epoch_pc_ok_def)
  have f: "ep_global s' = ep_global s" "ep_recs s' = ep_recs s" "ep_own s' = ep_own s" "ep_guard s' = ep_guard s" "ep_since s' = ep_since s" "\<And>u. u \<noteq> t \<Longrightarrow> ep_pc s' u = ep_pc s u"
    "ep_pc s' t = TLoad" "ep_obj s' = (ep_obj s)(p := Retired ?k)" "ep_retire s' = (ep_retire s)(?k := ep_retire s ?k @ [(p, g)])"
    by (simp_all add: s' retire_push_def Let_def)
  note S = slots_okD [OF D(5)]
  have fresh: "(p, h) \<notin> set (ep_retire s k)" for k h using S(2) obj(1) by fastforce
  have "slots_ok s'"
  proof (rule slots_okI)
    show "distinct (map fst (ep_retire s' k))" for k using S(1) [of k] fresh by (auto simp: f(9))
    show "ep_obj s' q = Retired k \<and> h mod kEBREpochs = k \<and> h \<le> ep_global s'" if q: "(q, h) \<in> set (ep_retire s' k)" for k q h
    proof (cases "q = p")
      case True
      then show ?thesis using q fresh obj(2) by (auto simp: f split: if_splits)
    next
      case False
      then have "(q, h) \<in> set (ep_retire s k)" using q by (auto simp: f(9) split: if_splits)
      then show ?thesis using S(2-4) False by (simp add: f)
    qed
  qed
  moreover have "keeps s' (ep_since s u) q" if k: "keeps s (ep_since s u) q" for u q
  proof (cases "q = p")
    case True
    then have "ep_since s u \<le> g" using k obj(1) pc fresh unfolding keeps_def by force
    then show ?thesis using True unfolding keeps_def f by auto
  next
    case False
    have "ep_pc s v = TPush q h" if "ep_pc s' v = TPush q h" for v h using that f(6) [of v] f(7) by (cases "v = t") auto
    then show ?thesis by (intro keeps_more [OF k False]) (auto simp: f(8,9))
  qed
  ultimately show ?thesis using obj(1) pc D(7) unfolding serial_ok_def
    by (intro epoch_objs [OF inv f(1-6)]) (auto simp: f(7,8) epoch_pc_ok_def passed_by_def)
qed

lemma old_slot_misses:
  assumes "G' = G + 1" "since \<le> G'" "G' \<le> since + 1" "since \<le> g" "g \<le> G'"
  shows "g mod kEBREpochs \<noteq> old_slot G"
proof -
  have "g = G \<or> g = G + 1" using assms by linarith
  then show ?thesis unfolding old_slot_def kEBREpochs_def by (elim disjE; simp) presburger+
qed

lemma advance_move_inv:
  assumes inv: "epoch_inv threads s" and pc: "ep_pc s t = TMove G" and s': "s' = advance_move t G s"
  shows "epoch_inv threads s'"
proof -
  note D = epoch_invD [OF inv]
  note S = slots_okD [OF D(5)]
  let ?k = "old_slot G"
  let ?ps = "map fst (ep_retire s ?k)"
  have G: "ep_global s = G + 1" using D(3) [of t] pc by (simp add: epoch_pc_ok_def)
  have f: "ep_global s' = ep_global s" "ep_recs s' = ep_recs s" "ep_own s' = ep_own s" "ep_guard s' = ep_guard s" "ep_since s' = ep_since s" "\<And>u. u \<noteq> t \<Longrightarrow> ep_pc s' u = ep_pc s u"
    "ep_pc s' t = TFree ?ps" "ep_obj s' = (\<lambda>p. if p \<in> set ?ps then Doomed t else ep_obj s p)" "ep_retire s' = (ep_retire s)(?k := [])"
    by (simp_all add: s' advance_move_def Let_def)
  have taken: "ep_obj s p = Retired ?k" if "p \<in> set ?ps" for p using that S(2) by auto
  have left: "(p, g) \<in> set (ep_retire s k)" "k \<noteq> ?k" "p \<notin> set ?ps" if "(p, g) \<in> set (ep_retire s' k)" for p g k
  proof -
    show m: "(p, g) \<in> set (ep_retire s k)" "k \<noteq> ?k" using that by (auto simp: f(9) split: if_splits)
    show "p \<notin> set ?ps" using S(2) [OF m(1)] taken [of p] m(2) by auto
  qed
  have "slots_ok s'"
  proof (rule slots_okI)
    show "distinct (map fst (ep_retire s' k))" for k using S(1) by (simp add: f(9))
    show "ep_obj s' q = Retired k \<and> h mod kEBREpochs = k \<and> h \<le> ep_global s'" if q: "(q, h) \<in> set (ep_retire s' k)" for k q h
      using left [OF q] S(2-4) by (simp add: f(1,8))
  qed
  moreover have "keeps s' (ep_since s u) p" if u: "ep_guard s u = Some hs" and k: "keeps s (ep_since s u) p" for u hs p
  proof -
    have since: "ep_since s u \<le> ep_global s" "ep_global s \<le> ep_since s u + 1" using D(2) [of u] u by (auto simp: guard_ok_def)
    have out: "p \<notin> set ?ps"
    proof
      assume p: "p \<in> set ?ps"
      then obtain k g where g: "(p, g) \<in> set (ep_retire s k)" "ep_since s u \<le> g" using k taken [OF p] unfolding keeps_def by auto
      then have "k = ?k" using S(2) [OF g(1)] taken [OF p] by simp
      then show False using old_slot_misses [OF G since g(2) S(4) [OF g(1)]] S(3) [OF g(1)] by simp
    qed
    then have "(p, g) \<in> set (ep_retire s j) \<Longrightarrow> (p, g) \<in> set (ep_retire s' j)" for g j by (cases "j = ?k") (force simp: f(9))+
    moreover have "ep_pc s v = TPush p g" if "ep_pc s' v = TPush p g" for v g using that f(6) [of v] f(7) by (cases "v = t") auto
    ultimately show ?thesis using k out unfolding keeps_def f(8) by (metis (full_types))
  qed
  moreover have "ep_obj s' p = ep_obj s p" if "u \<noteq> t" "ep_obj s p = Unlinked u \<or> ep_obj s p = Doomed u" for u p
  proof -
    have "p \<notin> set ?ps" using that(2) taken by (metis obj_place.distinct(15) obj_place.distinct(19))
    then show ?thesis by (simp add: f(8))
  qed
  moreover have "epoch_pc_ok s' t (ep_pc s' t)" using S(1) [of ?k] unfolding f(7) by (simp add: epoch_pc_ok_def f(8))
  moreover have "passed_by (ep_pc s' t) E x i" for E x i unfolding f(7) by (simp add: passed_by_def)
  moreover have "t \<in> set threads" "reclaiming (ep_pc s t)" using D(7) pc unfolding serial_ok_def by force+
  ultimately show ?thesis by (intro epoch_objs [OF inv f(1-6)]) blast+
qed

lemma advance_free_inv:
  assumes inv: "epoch_inv threads s" and pc: "ep_pc s t = TFree (p # ps)" and s': "s' = ego t (TFree ps) (s\<lparr>ep_obj := (ep_obj s)(p := Unallocated)\<rparr>)"
  shows "epoch_inv threads s'"
proof -
  note D = epoch_invD [OF inv]
  note S = slots_okD [OF D(5)]
  have own: "distinct (p # ps)" "\<forall>q \<in> set (p # ps). ep_obj s q = Doomed t" using D(3) [of t] pc by (simp_all add: epoch_pc_ok_def)
  have f: "ep_global s' = ep_global s" "ep_recs s' = ep_recs s" "ep_own s' = ep_own s" "ep_guard s' = ep_guard s" "ep_since s' = ep_since s" "\<And>u. u \<noteq> t \<Longrightarrow> ep_pc s' u = ep_pc s u"
    "ep_pc s' t = TFree ps" "ep_obj s' = (ep_obj s)(p := Unallocated)" "ep_retire s' = ep_retire s"
    by (simp_all add: s')
  have "(p, g) \<notin> set (ep_retire s k)" for g k using S(2) own(2) by fastforce
  then have "slots_ok s'" using S by (intro slots_okI) (auto simp: f(1,8,9))
  moreover have "keeps s' (ep_since s u) q" if k: "keeps s (ep_since s u) q" for u q
  proof (rule keeps_more [OF k])
    show "q \<noteq> p" using k own(2) S(2) unfolding keeps_def by force
    show "ep_pc s v = TPush q g" if "ep_pc s' v = TPush q g" for v g using that f(6) [of v] f(7) by (cases "v = t") auto
  qed (simp_all add: f(8,9))
  moreover have "ep_obj s' q = ep_obj s q" if "u \<noteq> t" "ep_obj s q = Unlinked u \<or> ep_obj s q = Doomed u" for u q
    using that own(2) by (auto simp: f(8))
  ultimately show ?thesis using pc D(7) own unfolding serial_ok_def
    by (intro epoch_objs [OF inv f(1-6)]) (auto simp: f(7,8) epoch_pc_ok_def passed_by_def)
qed

lemma link_inv:
  assumes inv: "epoch_inv threads s" and p: "ep_obj s p = Unallocated"
  shows "epoch_inv threads (s\<lparr>ep_obj := (ep_obj s)(p := Linked)\<rparr>)"
proof -
  note D = epoch_invD [OF inv]
  note S = slots_okD [OF D(5)]
  let ?s = "s\<lparr>ep_obj := (ep_obj s)(p := Linked)\<rparr>"
  have fresh: "(p, g) \<notin> set (ep_retire s k)" for g k using S(2) p by fastforce
  then have slots: "slots_ok ?s" using S by (intro slots_okI) auto
  have "keeps ?s x q" if k: "keeps s x q" for x q
    by (rule keeps_more [OF k, of p]) (use k p fresh in \<open>auto simp: keeps_def\<close>)
  then have reads: "reads_ok ?s" using D(6) unfolding reads_ok_def by simp
  have pcs: "epoch_pc_ok ?s u (ep_pc ?s u)" for u using D(3) [of u] p by (auto simp: epoch_pc_ok_def split: epoch_pc.splits)
  show ?thesis using D(1,2,4,7) slots reads pcs by (intro epoch_invI) (simp_all add: own_ok_def guard_ok_def scan_ok_def serial_ok_def)
qed

lemma unlink_inv:
  assumes inv: "epoch_inv threads s" and p: "ep_obj s p = Linked" and pc: "ep_pc s t = EIdle"
    and s': "s' = ego t (TOwned p) (s\<lparr>ep_obj := (ep_obj s)(p := Unlinked t)\<rparr>)"
  shows "epoch_inv threads s'"
proof -
  note D = epoch_invD [OF inv]
  note S = slots_okD [OF D(5)]
  have f: "ep_global s' = ep_global s" "ep_recs s' = ep_recs s" "ep_own s' = ep_own s" "ep_guard s' = ep_guard s" "ep_since s' = ep_since s" "\<And>u. u \<noteq> t \<Longrightarrow> ep_pc s' u = ep_pc s u"
    "ep_pc s' t = TOwned p" "ep_obj s' = (ep_obj s)(p := Unlinked t)" "ep_retire s' = ep_retire s"
    by (simp_all add: s')
  have "(p, g) \<notin> set (ep_retire s k)" for g k using S(2) p by fastforce
  then have "slots_ok s'" using S by (intro slots_okI) (auto simp: f(1,8,9))
  moreover have "keeps s' x q" if k: "keeps s x q" for x q
  proof (cases "q = p")
    case True
    then show ?thesis by (simp add: keeps_def f(7,8))
  next
    case False
    have "ep_pc s v = TPush q g" if "ep_pc s' v = TPush q g" for v g using that f(6) [of v] f(7) by (cases "v = t") auto
    then show ?thesis by (intro keeps_more [OF k False]) (simp_all add: f(8,9))
  qed
  moreover have "ep_obj s' q = ep_obj s q" if "ep_obj s q = Unlinked u \<or> ep_obj s q = Doomed u" for u q using that p by (auto simp: f(8))
  ultimately show ?thesis by (intro epoch_objs [OF inv f(1-6)]) (auto simp: f(7,8) epoch_pc_ok_def passed_by_def)
qed

lemma read_inv:
  assumes inv: "epoch_inv threads s" and p: "ep_obj s p = Linked" and g: "ep_guard s t = Some ps"
  shows "epoch_inv threads (s\<lparr>ep_guard := (ep_guard s)(t := Some (p # ps))\<rparr>)"
proof -
  note D = epoch_invD [OF inv]
  let ?s = "s\<lparr>ep_guard := (ep_guard s)(t := Some (p # ps))\<rparr>"
  have none: "ep_guard ?s u = None \<longleftrightarrow> ep_guard s u = None" for u using g by simp
  have keep: "keeps ?s x q = keeps s x q" for x q by (simp add: keeps_def)
  have "keeps s x p" for x using p by (simp add: keeps_def)
  then have reads: "reads_ok ?s" using D(6) g unfolding reads_ok_def keep by auto
  have guards: "guard_ok ?s u" for u using D(2) [of u] unfolding guard_ok_def none by simp
  have pcs: "epoch_pc_ok ?s u (ep_pc ?s u)" for u using D(3) [of u] unfolding epoch_pc_ok_def none by (cases "ep_pc s u") simp_all
  have scan: "scan_ok ?s" using D(4) unfolding scan_ok_def none by simp
  have "slots_ok ?s" "own_ok threads ?s" "serial_ok threads ?s" using D(1,5,7) by (simp_all add: own_ok_def slots_ok_def serial_ok_def)
  then show ?thesis using reads guards pcs scan by (intro epoch_invI)
qed

lemma passed_by_idle: "\<not> reclaiming pc \<Longrightarrow> passed_by pc G x i"
  by (cases pc) (simp_all add: passed_by_def)

text \<open>The epoch advances only when every guard began in the current one.\<close>

lemma advance_cas_inv:
  assumes inv: "epoch_inv threads s" and pc: "ep_pc s t = TCas G" and G: "ep_global s = G"
    and s': "s' = ego t (TMove G) (s\<lparr>ep_global := G + 1\<rparr>)"
  shows "epoch_inv threads s'"
proof (rule epoch_invI)
  note D = epoch_invD [OF inv]
  have quiet: "\<not> reclaiming (ep_pc s u)" if "u \<noteq> t" for u using D(7) that pc unfolding serial_ok_def by (metis reclaiming.simps(7))
  show "own_ok threads s'" using D(1) by (simp add: s' own_ok_def)
  show "guard_ok s' u" for u
  proof (cases "ep_guard s u")
    case (Some hs)
    then obtain i where i: "ep_own s u = Some i" using D(2) [of u] by (auto simp: guard_ok_def)
    have "passed_by (TCas G) G (ep_since s u) i" using D(4) Some i pc G unfolding scan_ok_def by (metis option.distinct(1))
    then show ?thesis using D(2) [of u] Some G by (auto simp: s' guard_ok_def passed_by_def)
  qed (simp add: s' guard_ok_def)
  show "epoch_pc_ok s' u (ep_pc s' u)" for u
  proof (cases "u = t")
    case False
    then show ?thesis using D(3) [of u] quiet [OF False] G by (cases "ep_pc s u") (auto simp: s' epoch_pc_ok_def)
  qed (simp add: s' epoch_pc_ok_def)
  have "passed_by (ep_pc s' u) E x i" for u E x i using quiet by (cases "u = t") (simp_all add: s' passed_by_idle, simp add: passed_by_def)
  then show "scan_ok s'" unfolding scan_ok_def by blast
  show "slots_ok s'" using slots_okD [OF D(5)] G by (intro slots_okI) (fastforce simp: s')+
  have "keeps s' x p" if "keeps s x p" for x p using that unfolding keeps_def by (auto simp: s')
  then show "reads_ok s'" using D(6) unfolding reads_ok_def by (simp add: s')
  show "serial_ok threads s'" by (rule serial_ok_upd [OF D(7), of t]) (use pc D(7) in \<open>simp_all add: s' serial_ok_def\<close>)
qed

lemma advance_scan_inv:
  assumes inv: "epoch_inv threads s" and pc: "ep_pc s t = TScan G n"
  shows "epoch_inv threads (advance_scan t G n s)"
proof -
  note D = epoch_invD [OF inv]
  have t: "t \<in> set threads" using D(7) pc unfolding serial_ok_def by force
  have n: "G \<le> ep_global s" "n \<le> length (ep_recs s)" using D(3) [of t] pc by (simp_all add: epoch_pc_ok_def)
  have beyond: "j < n" if "ep_guard s u \<noteq> None" "ep_own s u = Some j" "G = ep_global s" "ep_global s = ep_since s u + 1" for u j
  proof -
    have "passed_by (TScan G n) (ep_global s) (ep_since s u) j" using D(4) that(1,2) pc unfolding scan_ok_def by metis
    then show ?thesis using that(3,4) by (simp add: passed_by_def)
  qed
  have active: "er_active (ep_recs s ! j)" if "ep_guard s u \<noteq> None" "ep_own s u = Some j" for u j
    using D(2) [of u] that by (auto simp: guard_ok_def)
  show ?thesis
  proof (cases n)
    case 0
    have "epoch_inv threads (ego t (TCas G) s)"
      by (rule epoch_go [OF inv]) (use pc t n beyond 0 in \<open>auto simp: epoch_pc_ok_def passed_by_def\<close>)
    then show ?thesis by (simp add: advance_scan_def 0)
  next
    case (Suc i)
    show ?thesis
    proof (cases "er_active (ep_recs s ! i)")
      case True
      have "epoch_inv threads (ego t (TLocal G i) s)"
        by (rule epoch_go [OF inv]) (use pc t n beyond Suc in \<open>force simp: epoch_pc_ok_def passed_by_def less_Suc_eq_le\<close>)+
      then show ?thesis by (simp add: advance_scan_def Suc True)
    next
      case False
      have "passed_by (TScan G i) (ep_global s) (ep_since s u) j" if u: "ep_guard s u \<noteq> None" "ep_own s u = Some j" for u j
        using beyond [OF u] active [OF u] Suc False by (auto simp: passed_by_def less_Suc_eq)
      then have "epoch_inv threads (ego t (TScan G i) s)"
        using pc t n Suc by (intro epoch_go [OF inv]) (auto simp: epoch_pc_ok_def)
      then show ?thesis by (simp add: advance_scan_def Suc False)
    qed
  qed
qed

lemma advance_local_inv:
  assumes inv: "epoch_inv threads s" and pc: "ep_pc s t = TLocal G i"
  shows "epoch_inv threads (advance_local t G i s)"
proof -
  note D = epoch_invD [OF inv]
  have t: "t \<in> set threads" using D(7) pc unfolding serial_ok_def by force
  have n: "G \<le> ep_global s" "i < length (ep_recs s)" using D(3) [of t] pc by (simp_all add: epoch_pc_ok_def)
  show ?thesis
  proof (cases "er_local (ep_recs s ! i) = G")
    case True
    have "passed_by (TScan G i) (ep_global s) (ep_since s u) j" if u: "ep_guard s u \<noteq> None" "ep_own s u = Some j" for u j
    proof -
      have "passed_by (TLocal G i) (ep_global s) (ep_since s u) j" using D(4) u pc unfolding scan_ok_def by metis
      moreover have "er_local (ep_recs s ! j) \<le> ep_since s u" using D(2) [of u] u by (auto simp: guard_ok_def)
      ultimately show ?thesis using True by (cases "j = i") (auto simp: passed_by_def)
    qed
    then have "epoch_inv threads (ego t (TScan G i) s)" using pc t n by (intro epoch_go [OF inv]) (auto simp: epoch_pc_ok_def)
    then show ?thesis by (simp add: advance_local_def True)
  next
    case False
    have "epoch_inv threads (ego t EIdle s)" by (rule epoch_go [OF inv]) (use pc in \<open>simp_all add: epoch_pc_ok_def passed_by_def\<close>)
    then show ?thesis by (simp add: advance_local_def False)
  qed
qed

lemma may_reclaim_all:
  assumes "epoch_inv threads s" "may_reclaim d threads s" "serial_retires d"
  shows "\<not> reclaiming (ep_pc s u)"
  using assms epoch_invD(7) [OF assms(1)] by (auto simp: may_reclaim_def list_all_iff serial_ok_def)

section \<open>Registration and guards keep the invariant\<close>

lemma epoch_walk_inv:
  assumes inv: "epoch_inv threads s" and pc: "ep_pc s t = EWalk n" and t: "t \<in> set threads" and d: "own_records d"
    and step: "epoch_walk d threads t n s = Some s'"
  shows "epoch_inv threads s'"
proof -
  note D = epoch_invD [OF inv]
  have n: "ep_own s t = None" "ep_guard s t = None" "n \<le> length (ep_recs s)" using D(3) [of t] pc by (simp_all add: epoch_pc_ok_def)
  have go: "epoch_inv threads (ego t pc' s)" if "epoch_pc_ok s t pc'" "\<not> reclaiming pc'" "\<And>p g. pc' \<noteq> TPush p g" for pc'
    by (rule epoch_go [OF inv that(1)]) (use that pc passed_by_idle in auto)
  show ?thesis
  proof (cases n)
    case 0
    then show ?thesis using step n go [of "EPush (length (ep_recs s))"] by (simp add: epoch_walk_def epoch_pc_ok_def)
  next
    case (Suc i)
    show ?thesis
    proof (cases "er_active (ep_recs s ! i)")
      case True
      then show ?thesis using step n Suc go [of "EWalk i"] by (simp add: epoch_walk_def epoch_pc_ok_def)
    next
      case False
      then have free: "ep_own s u \<noteq> Some i" for u
        using step Suc d own_okD(2) [OF D(1), of u i] by (auto simp: epoch_walk_def list_ex_iff split: if_splits)
      have s': "s' = ego t EEnter ((set_rec i ((ep_recs s ! i)\<lparr>er_active := True\<rparr>) s)\<lparr>ep_own := (ep_own s)(t := Some i)\<rparr>)"
        using step False Suc by (auto simp: epoch_walk_def split: if_splits)
      show ?thesis
        by (rule epoch_recs [OF inv, of t]) (use pc n Suc t free in \<open>auto simp: s' guard_ok_def epoch_pc_ok_def set_rec_def nth_list_update\<close>)
    qed
  qed
qed

lemma epoch_push_inv:
  assumes inv: "epoch_inv threads s" and pc: "ep_pc s t = EPush old" and t: "t \<in> set threads"
  shows "epoch_inv threads (epoch_push c t old s)"
proof -
  note D = epoch_invD [OF inv]
  have n: "ep_own s t = None" "ep_guard s t = None" using D(3) [of t] pc by (simp_all add: epoch_pc_ok_def)
  show ?thesis
  proof (cases "length (ep_recs s) = old \<and> \<not> c")
    case True
    have free: "ep_own s u \<noteq> Some (length (ep_recs s))" for u using own_okD(1) [OF D(1)] by blast
    have old: "j < length (ep_recs s)" if "ep_own s u = Some j" for u j using own_okD(1) [OF D(1) that] .
    show ?thesis
      by (rule epoch_recs [OF inv, of t])
        (use pc n t True free old in \<open>auto simp: epoch_push_def guard_ok_def epoch_pc_ok_def nth_append\<close>)
  next
    case False
    have "epoch_inv threads (ego t (EPush (length (ep_recs s))) s)"
      by (rule epoch_go [OF inv]) (use n pc in \<open>simp_all add: epoch_pc_ok_def passed_by_def\<close>)
    then show ?thesis unfolding epoch_push_def if_not_P [OF False] .
  qed
qed

text \<open>The owner's record, changed by its owner.\<close>

lemma own_rec_inv:
  assumes inv: "epoch_inv threads s" and own: "ep_own s t = Some i" and pc: "\<not> reclaiming (ep_pc s t)" "\<not> reclaiming (ep_pc s' t)"
    and s': "ep_global s' = ep_global s" "ep_retire s' = ep_retire s" "ep_obj s' = ep_obj s" "ep_recs s' = (ep_recs s)[i := r]"
      "\<And>u. u \<noteq> t \<Longrightarrow> ep_own s' u = ep_own s u \<and> ep_pc s' u = ep_pc s u \<and> ep_guard s' u = ep_guard s u \<and> ep_since s' u = ep_since s u"
      "ep_own s' t = Some i \<or> ep_own s' t = None"
    and new: "guard_ok s' t" "epoch_pc_ok s' t (ep_pc s' t)" "ep_guard s' t = None \<or> ep_guard s' t = Some [] \<and> ep_since s' t = ep_global s"
  shows "epoch_inv threads s'"
proof (rule epoch_recs [OF inv pc s'(1-3) _ s'(5) _ _ new])
  note O = own_okD [OF epoch_invD(1) [OF inv] own]
  show "ep_recs s' ! j = ep_recs s ! j" if "u \<noteq> t" "ep_own s u = Some j" for u j
    using O(3) [of u] that s'(4) by (cases "j = i") auto
  show "j < length (ep_recs s') \<and> t \<in> set threads \<and> (\<forall>u. u \<noteq> t \<longrightarrow> ep_own s u \<noteq> Some j)" if "ep_own s' t = Some j" for j
    using O s'(4,6) that by auto
qed (simp add: s'(4))

lemma enter_store_inv:
  assumes inv: "epoch_inv threads s" and pc: "ep_pc s t = EStore g" and step: "enter_store t g s = Some s'"
  shows "epoch_inv threads s'"
proof -
  note D = epoch_invD [OF inv]
  have n: "ep_guard s t = None" "g \<le> ep_global s" using D(3) [of t] pc by (simp_all add: epoch_pc_ok_def)
  obtain i where i: "ep_own s t = Some i" and s': "s' = ego t EActivate (set_rec i ((ep_recs s ! i)\<lparr>er_local := g\<rparr>) s)"
    using step by (auto simp: enter_store_def split: option.splits)
  show ?thesis
    by (rule own_rec_inv [OF inv i, of s' "(ep_recs s ! i)\<lparr>er_local := g\<rparr>"])
      (use pc n i own_okD(1) [OF D(1) i] in \<open>auto simp: s' set_rec_def guard_ok_def epoch_pc_ok_def\<close>)
qed

lemma enter_activate_inv:
  assumes inv: "epoch_inv threads s" and pc: "ep_pc s t = EActivate" and step: "enter_activate t s = Some s'"
  shows "epoch_inv threads s'"
proof -
  note D = epoch_invD [OF inv]
  obtain i where i: "ep_own s t = Some i" and s': "s' = (ego t EIdle (set_rec i ((ep_recs s ! i)\<lparr>er_active := True\<rparr>) s))
         \<lparr>ep_guard := (ep_guard s)(t := Some []), ep_since := (ep_since s)(t := ep_global s)\<rparr>"
    using step by (auto simp: enter_activate_def split: option.splits)
  have n: "er_local (ep_recs s ! i) \<le> ep_global s" using D(3) [of t] pc i by (auto simp: epoch_pc_ok_def)
  show ?thesis
    by (rule own_rec_inv [OF inv i, of s' "(ep_recs s ! i)\<lparr>er_active := True\<rparr>"])
      (use pc n i own_okD(1) [OF D(1) i] in \<open>auto simp: s' set_rec_def guard_ok_def epoch_pc_ok_def\<close>)
qed

lemma epoch_exit_inv:
  assumes inv: "epoch_inv threads s" and pc: "ep_pc s t = EIdle \<or> ep_pc s t = TOwned p" and step: "epoch_exit t s = Some s'"
  shows "epoch_inv threads s'"
proof -
  note D = epoch_invD [OF inv]
  obtain i where i: "ep_own s t = Some i" and s': "s' = (set_rec i ((ep_recs s ! i)\<lparr>er_active := False\<rparr>) s)\<lparr>ep_guard := (ep_guard s)(t := None)\<rparr>"
    using step by (auto simp: epoch_exit_def split: option.splits)
  show ?thesis
    by (rule own_rec_inv [OF inv i, of s' "(ep_recs s ! i)\<lparr>er_active := False\<rparr>"])
      (use pc D(3) [of t] i in \<open>auto simp: s' set_rec_def guard_ok_def epoch_pc_ok_def\<close>)
qed

lemma epoch_thread_end_inv:
  assumes inv: "epoch_inv threads s" and pc: "ep_pc s t = EIdle" and g: "ep_guard s t = None"
  shows "epoch_inv threads (epoch_thread_end t s)"
proof (cases "ep_own s t")
  case (Some i)
  show ?thesis
    by (rule own_rec_inv [OF inv Some, of _ "(ep_recs s ! i)\<lparr>er_active := False\<rparr>"])
      (use pc g Some in \<open>auto simp: epoch_thread_end_def set_rec_def guard_ok_def epoch_pc_ok_def\<close>)
qed (use inv in \<open>simp add: epoch_thread_end_def\<close>)

section \<open>Runs keep the invariant\<close>

lemma epoch_idle_inv:
  assumes inv: "epoch_inv threads s" and pc: "ep_pc s t = EIdle" and t: "t \<in> set threads" and d: "serial_retires d"
    and step: "epoch_idle d threads t c s = Some s'"
  shows "epoch_inv threads s'"
proof (cases c)
  case Enter
  then have g: "ep_guard s t = None" and s': "s' = enter_start t s" using step by (auto simp: epoch_idle_def split: if_splits)
  have "epoch_pc_ok s t (case ep_own s t of None \<Rightarrow> EWalk (length (ep_recs s)) | Some _ \<Rightarrow> EEnter)"
    using g by (simp add: epoch_pc_ok_def split: option.split)
  then show ?thesis unfolding s' enter_start_def
    by (rule epoch_go [OF inv]) (use pc in \<open>auto simp: passed_by_def split: option.splits\<close>)
next
  case Exit
  then show ?thesis using step epoch_exit_inv [OF inv disjI1 [OF pc]] by (simp add: epoch_idle_def split: if_splits)
next
  case (Read p)
  then show ?thesis using step read_inv [OF inv, of p t] by (auto simp: epoch_idle_def split: if_splits option.splits)
next
  case (Link p)
  then show ?thesis using step link_inv [OF inv, of p] by (auto simp: epoch_idle_def split: if_splits)
next
  case (Unlink p)
  then show ?thesis using step unlink_inv [OF inv _ pc, of p] by (auto simp: epoch_idle_def split: if_splits)
next
  case TryAdvance
  then have m: "may_reclaim d threads s" and s': "s' = ego t TLoad s" using step by (auto simp: epoch_idle_def split: if_splits)
  show ?thesis unfolding s'
    by (rule epoch_go [OF inv]) (use pc t may_reclaim_all [OF inv m d] in \<open>simp_all add: epoch_pc_ok_def passed_by_def\<close>)
next
  case EndThread
  then show ?thesis using step epoch_thread_end_inv [OF inv pc] by (auto simp: epoch_idle_def split: if_splits)
qed (use step in \<open>simp_all add: epoch_idle_def\<close>)

lemma epoch_count_inv: "epoch_inv threads s \<Longrightarrow> epoch_inv threads (s\<lparr>ep_count := n\<rparr>)"
  by (simp add: epoch_inv_def own_ok_def guard_ok_def epoch_pc_ok_def scan_ok_def slots_ok_def reads_ok_def serial_ok_def keeps_def cong: epoch_pc.case_cong)

lemma epoch_next_inv:
  assumes inv: "epoch_inv threads s" and t: "t \<in> set threads" and d: "own_records d" "serial_retires d"
    and step: "epoch_next d threads t c s = Some s'"
  shows "epoch_inv threads s'"
proof -
  note D = epoch_invD [OF inv]
  have ok: "epoch_pc_ok s t (ep_pc s t)" by (rule D(3))
  show ?thesis
  proof (cases "ep_pc s t")
    case EIdle
    then show ?thesis using step epoch_idle_inv [OF inv EIdle t d(2)] by (simp add: epoch_next_def)
  next
    case (EWalk n)
    then show ?thesis using step epoch_walk_inv [OF inv EWalk t d(1)] by (simp add: epoch_next_def)
  next
    case (EPush old)
    then show ?thesis using step epoch_push_inv [OF inv EPush t] by (auto simp: epoch_next_def)
  next
    case ECount
    then have s': "s' = ego t EEnter (s\<lparr>ep_count := ep_count s + 1\<rparr>)" using step by (simp add: epoch_next_def)
    show ?thesis unfolding s'
      by (rule epoch_go [OF epoch_count_inv [OF inv]]) (use ECount ok in \<open>simp_all add: epoch_pc_ok_def passed_by_def\<close>)
  next
    case EEnter
    then have s': "s' = ego t (EStore (ep_global s)) s" using step by (simp add: epoch_next_def)
    show ?thesis unfolding s' by (rule epoch_go [OF inv]) (use EEnter ok in \<open>simp_all add: epoch_pc_ok_def passed_by_def\<close>)
  next
    case (EStore g)
    then show ?thesis using step enter_store_inv [OF inv EStore] by (simp add: epoch_next_def)
  next
    case EActivate
    then show ?thesis using step enter_activate_inv [OF inv EActivate] by (simp add: epoch_next_def)
  next
    case (TOwned p)
    show ?thesis
    proof (cases "c = Exit")
      case True
      then show ?thesis using step TOwned epoch_exit_inv [OF inv disjI2 [OF TOwned]] by (simp add: epoch_next_def split: if_splits)
    next
      case False
      then have m: "may_reclaim d threads s" and s': "s' = ego t (TGetEpoch p) s" using step TOwned by (auto simp: epoch_next_def split: if_splits)
      show ?thesis unfolding s'
        by (rule epoch_go [OF inv]) (use TOwned ok t may_reclaim_all [OF inv m d(2)] in \<open>simp_all add: epoch_pc_ok_def passed_by_def\<close>)
    qed
  next
    case (TGetEpoch p)
    then have s': "s' = ego t (TPush p (ep_global s)) s" using step by (simp add: epoch_next_def)
    show ?thesis unfolding s' by (rule epoch_go [OF inv]) (use TGetEpoch ok t in \<open>auto simp: epoch_pc_ok_def passed_by_def\<close>)
  next
    case (TPush p g)
    then show ?thesis using step retire_push_inv [OF inv TPush] by (simp add: epoch_next_def)
  next
    case TLoad
    then have s': "s' = ego t (THead (ep_global s)) s" using step by (simp add: epoch_next_def)
    show ?thesis unfolding s' by (rule epoch_go [OF inv]) (use TLoad t in \<open>simp_all add: epoch_pc_ok_def passed_by_def\<close>)
  next
    case (THead G)
    then have s': "s' = ego t (TScan G (length (ep_recs s))) s" using step by (simp add: epoch_next_def)
    show ?thesis unfolding s'
      by (rule epoch_go [OF inv]) (use THead ok t own_okD(1) [OF D(1)] in \<open>auto simp: epoch_pc_ok_def passed_by_def\<close>)
  next
    case (TScan G n)
    then show ?thesis using step advance_scan_inv [OF inv TScan] by (simp add: epoch_next_def)
  next
    case (TLocal G i)
    then show ?thesis using step advance_local_inv [OF inv TLocal] by (simp add: epoch_next_def)
  next
    case (TCas G)
    have "epoch_inv threads (ego t EIdle s)" by (rule epoch_go [OF inv]) (use TCas in \<open>simp_all add: epoch_pc_ok_def passed_by_def\<close>)
    then show ?thesis using step TCas advance_cas_inv [OF inv TCas _ refl] by (auto simp: epoch_next_def advance_cas_def split: if_splits)
  next
    case (TMove G)
    then show ?thesis using step advance_move_inv [OF inv TMove] by (simp add: epoch_next_def)
  next
    case (TFree ps)
    have "epoch_inv threads (ego t EIdle s)" by (rule epoch_go [OF inv]) (use TFree in \<open>simp_all add: epoch_pc_ok_def passed_by_def\<close>)
    then show ?thesis using step TFree advance_free_inv [OF inv, of t]
      by (cases ps) (auto simp: epoch_next_def advance_free_def)
  qed
qed

lemma epoch_new_inv: "epoch_inv threads epoch_new"
  by (rule epoch_invI) (simp_all add: epoch_new_def own_ok_def guard_ok_def epoch_pc_ok_def scan_ok_def slots_ok_def reads_ok_def serial_ok_def)

lemma epoch_run_inv:
  assumes "epoch_inv threads s" "epoch_run d threads moves s = Some s'" "own_records d" "serial_retires d"
  shows "epoch_inv threads s'"
  using assms(1,2)
proof (induction moves arbitrary: s)
  case (Cons m moves)
  obtain t c where m: "m = (t, c)" by force
  then obtain s1 where "t \<in> set threads" "epoch_next d threads t c s = Some s1" "epoch_run d threads moves s1 = Some s'"
    using Cons.prems(2) by (auto split: if_splits simp: bind_eq_Some_conv)
  then show ?case using Cons.IH epoch_next_inv [OF Cons.prems(1) _ assms(3,4)] by blast
qed simp

text \<open>
  C15. When no thread takes over the record of a live one and calls that retire do not overlap, every object that a thread
  has read in its current guard is still allocated and nobody is about to free it, after any interleaving.
\<close>

theorem epoch_readers_safe:
  assumes "own_records d" "serial_retires d" "epoch_run d threads moves epoch_new = Some s" "ep_guard s t = Some ps" "p \<in> set ps"
  shows "ep_obj s p \<noteq> Unallocated \<and> (\<forall>u. ep_obj s p \<noteq> Doomed u)"
proof -
  have inv: "epoch_inv threads s" by (rule epoch_run_inv [OF epoch_new_inv assms(3,1,2)])
  have "keeps s (ep_since s t) p" using epoch_invD(6) [OF inv] assms(4,5) unfolding reads_ok_def by blast
  then show ?thesis using slots_okD(2) [OF epoch_invD(5) [OF inv]] unfolding keeps_def by force
qed

text \<open>Thread 1 unlinks and retires object 5 while thread 0 reads it: the epoch advances once, and the object stays in its list.\<close>

definition steps_of :: "nat \<Rightarrow> epoch_choice \<Rightarrow> nat \<Rightarrow> (nat \<times> epoch_choice) list" where
  "steps_of t c n = (t, c) # replicate n (t, Next)"

definition read_while_retired :: "(nat \<times> epoch_choice) list" where
  "read_while_retired = steps_of 1 (Link 5) 0 @ steps_of 0 Enter 6 @ steps_of 0 (Read 5) 0 @ steps_of 1 (Unlink 5) 11 @ steps_of 1 TryAdvance 4"

theorem epoch_readers_safe_witness:
  "\<exists>s. epoch_run \<lparr>own_records = True, serial_retires = True\<rparr> [0, 1] read_while_retired epoch_new = Some s \<and> ep_guard s 0 = Some [5] \<and> ep_global s = 1 \<and>
     pending_count s = 1 \<and> ep_obj s 5 \<noteq> Unallocated \<and> (\<forall>u. ep_obj s 5 \<noteq> Doomed u)"
proof -
  let ?d = "\<lparr>own_records = True, serial_retires = True\<rparr>"
  have r: "map_option (\<lambda>s. (ep_guard s 0, ep_global s, pending_count s)) (epoch_run ?d [0, 1] read_while_retired epoch_new) = Some (Some [5], 1, 1)"
    by code_simp
  then obtain s where s: "epoch_run ?d [0, 1] read_while_retired epoch_new = Some s" "ep_guard s 0 = Some [5]" "ep_global s = 1" "pending_count s = 1"
    by auto
  then show ?thesis using epoch_readers_safe [of ?d "[0, 1]" read_while_retired s 0 "[5]" 5] by simp
qed

text \<open>
  Without the discipline both fail. A thread that registers takes a record whose owner is merely outside a guard, and its exit
  deactivates the record while the first owner reads; and a thread that has advanced the epoch but not yet taken the old list
  takes it after further advances, when the list holds newly retired objects.
\<close>

definition shared_record_run :: "(nat \<times> epoch_choice) list" where
  "shared_record_run = steps_of 2 (Link 5) 0 @ steps_of 0 Enter 6 @ steps_of 0 Exit 0 @ steps_of 1 Enter 4 @ steps_of 0 Enter 3 @ steps_of 0 (Read 5) 0 @
     steps_of 1 Exit 0 @ steps_of 2 (Unlink 5) 10 @ steps_of 2 TryAdvance 7"

lemma epoch_shared_record_use_after_free:
  "map_option (\<lambda>s. (ep_guard s 0, ep_obj s 5)) (epoch_run \<lparr>own_records = False, serial_retires = True\<rparr> [0, 1, 2] shared_record_run epoch_new)
   = Some (Some [5], Unallocated)"
  by code_simp

definition late_reclaim_run :: "(nat \<times> epoch_choice) list" where
  "late_reclaim_run = steps_of 2 (Link 5) 0 @ steps_of 1 TryAdvance 4 @ steps_of 2 TryAdvance 6 @ steps_of 0 Enter 6 @ steps_of 0 (Read 5) 0 @
     steps_of 2 (Unlink 5) 3 @ replicate 2 (1, Next)"

lemma epoch_late_reclaim_use_after_free:
  "map_option (\<lambda>s. (ep_guard s 0, ep_obj s 5)) (epoch_run \<lparr>own_records = True, serial_retires = False\<rparr> [0, 1, 2] late_reclaim_run epoch_new)
   = Some (Some [5], Unallocated)"
  by code_simp

end
