(* ===== verification/Epoch_Stack.thy ===== *)
theory Epoch_Stack
  imports Epoch
begin

text \<open>
  \<open>foundation/epoch/epoch_stack.h\<close>: the Treiber stack on the epoch domain of \<open>Epoch\<close>, with a plain pointer exchange and no tag.
  Each step is one access to the stack or one step of the domain. \<open>push\<close> allocates an address the domain does not use (a link of
  the domain), \<open>pop\<close> enters a guard, reads the head under it, unlinks by the exchange, leaves the guard and retires.
\<close>

section \<open>State and steps\<close>

datatype 'a stack_op = SPush 'a | SPop 'a | SEmpty

datatype 'a stack_pc =
    SIdle
  | PushLoad nat
  | PushStore nat "nat option"
  | PushCas nat "nat option"
  | PopEnter
  | PopNext nat
  | PopCas nat "nat option"
  | PopExit
  | PopRetire
  | EmptyExit

record 'a epoch_stack =
  es_dom :: epoch_domain
  es_head :: "nat option"
  es_next :: "nat \<Rightarrow> nat option"
  es_data :: "nat \<Rightarrow> 'a"
  es_pc :: "nat \<Rightarrow> 'a stack_pc"
  es_log :: "'a stack_op list"

definition epoch_stack_new :: "'a \<Rightarrow> 'a epoch_stack" where
  "epoch_stack_new a = \<lparr>es_dom = epoch_new, es_head = None, es_next = (\<lambda>_. None), es_data = (\<lambda>_. a), es_pc = (\<lambda>_. SIdle), es_log = []\<rparr>"

definition sgo :: "nat \<Rightarrow> 'a stack_pc \<Rightarrow> 'a epoch_stack \<Rightarrow> 'a epoch_stack" where
  "sgo t pc s = s\<lparr>es_pc := (es_pc s)(t := pc)\<rparr>"

text \<open>What an idle thread calls: \<open>push(v)\<close> with the address \<open>new\<close> returns, or \<open>pop\<close>.\<close>

datatype 'a stack_call = CallPush 'a nat | CallPop | Go bool

definition stack_push_new :: "discipline \<Rightarrow> nat list \<Rightarrow> nat \<Rightarrow> 'a \<Rightarrow> nat \<Rightarrow> 'a epoch_stack \<Rightarrow> 'a epoch_stack option" where
  "stack_push_new d threads t v p s = map_option (\<lambda>dom. sgo t (PushLoad p) (s\<lparr>es_dom := dom, es_data := (es_data s)(p := v), es_next := (es_next s)(p := None)\<rparr>))
     (epoch_next d threads t (Link p) (es_dom s))"

definition stack_push_cas :: "bool \<Rightarrow> nat \<Rightarrow> nat \<Rightarrow> nat option \<Rightarrow> 'a epoch_stack \<Rightarrow> 'a epoch_stack" where
  "stack_push_cas spurious t p old s = (if es_head s = old \<and> \<not> spurious
     then sgo t SIdle (s\<lparr>es_head := Some p, es_log := es_log s @ [SPush (es_data s p)]\<rparr>) else sgo t (PushStore p (es_head s)) s)"

text \<open>The head is loaded into \<open>old\<close>, under the guard: at the start of the loop and by a failed exchange.\<close>

definition stack_pop_load :: "discipline \<Rightarrow> nat list \<Rightarrow> nat \<Rightarrow> 'a epoch_stack \<Rightarrow> 'a epoch_stack option" where
  "stack_pop_load d threads t s = (case es_head s of None \<Rightarrow> Some (sgo t EmptyExit (s\<lparr>es_log := es_log s @ [SEmpty]\<rparr>))
     | Some q \<Rightarrow> map_option (\<lambda>dom. sgo t (PopNext q) (s\<lparr>es_dom := dom\<rparr>)) (epoch_next d threads t (Read q) (es_dom s)))"

definition stack_pop_cas :: "discipline \<Rightarrow> nat list \<Rightarrow> bool \<Rightarrow> nat \<Rightarrow> nat \<Rightarrow> nat option \<Rightarrow> 'a epoch_stack \<Rightarrow> 'a epoch_stack option" where
  "stack_pop_cas d threads spurious t q nx s = (if es_head s = Some q \<and> \<not> spurious
     then map_option (\<lambda>dom. sgo t PopExit (s\<lparr>es_dom := dom, es_head := nx, es_log := es_log s @ [SPop (es_data s q)]\<rparr>)) (epoch_next d threads t (Unlink q) (es_dom s))
     else stack_pop_load d threads t s)"

definition epoch_stack_empty :: "'a epoch_stack \<Rightarrow> bool" where
  "epoch_stack_empty s \<longleftrightarrow> es_head s = None"

text \<open>A step of the domain alone.\<close>

definition stack_dom :: "discipline \<Rightarrow> nat list \<Rightarrow> nat \<Rightarrow> epoch_choice \<Rightarrow> 'a stack_pc \<Rightarrow> 'a epoch_stack \<Rightarrow> 'a epoch_stack option" where
  "stack_dom d threads t c pc s = map_option (\<lambda>dom. sgo t pc (s\<lparr>es_dom := dom\<rparr>)) (epoch_next d threads t c (es_dom s))"

definition stack_next :: "discipline \<Rightarrow> nat list \<Rightarrow> nat \<Rightarrow> 'a stack_call \<Rightarrow> 'a epoch_stack \<Rightarrow> 'a epoch_stack option" where
  "stack_next d threads t call s = (case es_pc s t of
      SIdle \<Rightarrow> (case call of CallPush v p \<Rightarrow> stack_push_new d threads t v p s | CallPop \<Rightarrow> stack_dom d threads t Enter PopEnter s | Go _ \<Rightarrow> None)
    | PushLoad p \<Rightarrow> Some (sgo t (PushStore p (es_head s)) s)
    | PushStore p old \<Rightarrow> Some (sgo t (PushCas p old) (s\<lparr>es_next := (es_next s)(p := old)\<rparr>))
    | PushCas p old \<Rightarrow> Some (stack_push_cas (call = Go True) t p old s)
    | PopEnter \<Rightarrow> if ep_pc (es_dom s) t = EIdle then stack_pop_load d threads t s
        else stack_dom d threads t (if call = Go True then Spurious else Next) PopEnter s
    | PopNext q \<Rightarrow> Some (sgo t (PopCas q (es_next s q)) s)
    | PopCas q nx \<Rightarrow> stack_pop_cas d threads (call = Go True) t q nx s
    | PopExit \<Rightarrow> stack_dom d threads t Exit PopRetire s
    | PopRetire \<Rightarrow> if ep_pc (es_dom s) t = EIdle then Some (sgo t SIdle s) else stack_dom d threads t Next PopRetire s
    | EmptyExit \<Rightarrow> stack_dom d threads t Exit SIdle s)"

fun stack_run :: "discipline \<Rightarrow> nat list \<Rightarrow> (nat \<times> 'a stack_call) list \<Rightarrow> 'a epoch_stack \<Rightarrow> 'a epoch_stack option" where
  "stack_run d threads [] s = Some s"
| "stack_run d threads ((t, c) # moves) s = (if t \<in> set threads then Option.bind (stack_next d threads t c s) (stack_run d threads moves) else None)"

text \<open>The stack as a list: what a history leaves, if it is a history of a stack.\<close>

fun lifo :: "'a stack_op list \<Rightarrow> 'a list \<Rightarrow> 'a list option" where
  "lifo [] xs = Some xs"
| "lifo (SPush v # ops) xs = lifo ops (v # xs)"
| "lifo (SPop v # ops) (x # xs) = (if v = x then lifo ops xs else None)"
| "lifo (SPop v # ops) [] = None"
| "lifo (SEmpty # ops) xs = (if xs = [] then lifo ops xs else None)"

section \<open>Invariant\<close>

fun linked_list :: "(nat \<Rightarrow> nat option) \<Rightarrow> nat option \<Rightarrow> nat list \<Rightarrow> bool" where
  "linked_list nx h [] \<longleftrightarrow> h = None"
| "linked_list nx h (q # qs) \<longleftrightarrow> h = Some q \<and> linked_list nx (nx q) qs"

fun pushing_node :: "'a stack_pc \<Rightarrow> nat option" where
  "pushing_node (PushLoad p) = Some p" | "pushing_node (PushStore p old) = Some p" | "pushing_node (PushCas p old) = Some p" | "pushing_node _ = None"

definition guarded :: "'a epoch_stack \<Rightarrow> nat \<Rightarrow> nat \<Rightarrow> bool" where
  "guarded s t q \<longleftrightarrow> (\<exists>hs. ep_guard (es_dom s) t = Some hs \<and> q \<in> set hs)"

text \<open>Outside \<open>enter\<close> and \<open>retire\<close> a thread is idle in the domain; between exchange and exit it owns what it removed.\<close>

fun dom_idle :: "'a stack_pc \<Rightarrow> bool" where
  "dom_idle PopEnter = False" | "dom_idle PopExit = False" | "dom_idle PopRetire = False" | "dom_idle _ = True"

definition stack_pc_ok :: "'a epoch_stack \<Rightarrow> nat \<Rightarrow> 'a stack_pc \<Rightarrow> bool" where
  "stack_pc_ok s t pc \<longleftrightarrow> (dom_idle pc \<longrightarrow> ep_pc (es_dom s) t = EIdle) \<and>
     (case pc of PushCas p old \<Rightarrow> es_next s p = old | PopNext q \<Rightarrow> guarded s t q | PopCas q nx \<Rightarrow> guarded s t q \<and> es_next s q = nx
      | PopExit \<Rightarrow> (\<exists>q. ep_pc (es_dom s) t = TOwned q) | _ \<Rightarrow> True)"

definition node_ok :: "'a epoch_stack \<Rightarrow> nat list \<Rightarrow> nat \<Rightarrow> nat \<Rightarrow> bool" where
  "node_ok s ch t p \<longleftrightarrow> ep_obj (es_dom s) p = Linked \<and> p \<notin> set ch \<and> (\<forall>u. \<not> guarded s u p) \<and> (\<forall>u. pushing_node (es_pc s u) = Some p \<longrightarrow> u = t)"

definition stack_inv :: "nat list \<Rightarrow> 'a epoch_stack \<Rightarrow> nat list \<Rightarrow> bool" where
  "stack_inv threads s ch \<longleftrightarrow> epoch_inv threads (es_dom s) \<and> linked_list (es_next s) (es_head s) ch \<and> distinct ch \<and> (\<forall>q \<in> set ch. ep_obj (es_dom s) q = Linked) \<and>
     lifo (es_log s) [] = Some (map (es_data s) ch) \<and> (\<forall>t. stack_pc_ok s t (es_pc s t)) \<and> (\<forall>t p. pushing_node (es_pc s t) = Some p \<longrightarrow> node_ok s ch t p)"

lemma stack_invD:
  assumes "stack_inv threads s ch"
  shows "epoch_inv threads (es_dom s)" "linked_list (es_next s) (es_head s) ch" "distinct ch" "q \<in> set ch \<Longrightarrow> ep_obj (es_dom s) q = Linked"
    "lifo (es_log s) [] = Some (map (es_data s) ch)" "stack_pc_ok s t (es_pc s t)" "pushing_node (es_pc s t) = Some p \<Longrightarrow> node_ok s ch t p"
  using assms unfolding stack_inv_def by blast+

lemma stack_invI:
  assumes "epoch_inv threads (es_dom s)" "linked_list (es_next s) (es_head s) ch" "distinct ch" "\<And>q. q \<in> set ch \<Longrightarrow> ep_obj (es_dom s) q = Linked"
    "lifo (es_log s) [] = Some (map (es_data s) ch)" "\<And>t. stack_pc_ok s t (es_pc s t)" "\<And>t p. pushing_node (es_pc s t) = Some p \<Longrightarrow> node_ok s ch t p"
  shows "stack_inv threads s ch"
  using assms unfolding stack_inv_def by blast

lemma linked_list_upd: "p \<notin> set ch \<Longrightarrow> linked_list (nx(p := v)) h ch = linked_list nx h ch"
  by (induction ch arbitrary: h) auto

lemma lifo_append: "lifo ops xs = Some ys \<Longrightarrow> lifo (ops @ ops2) xs = lifo ops2 ys"
  by (induction ops xs rule: lifo.induct) (auto split: if_splits)

lemma sgo_simps [simp]:
  "es_dom (sgo t pc s) = es_dom s" "es_head (sgo t pc s) = es_head s" "es_next (sgo t pc s) = es_next s" "es_data (sgo t pc s) = es_data s" "es_log (sgo t pc s) = es_log s"
  "es_pc (sgo t pc s) u = (if u = t then pc else es_pc s u)"
  by (simp_all add: sgo_def)

lemma stack_pc_ok_cong:
  assumes "ep_pc (es_dom s') t = ep_pc (es_dom s) t" "es_next s' = es_next s" "\<And>q. guarded s' t q \<longleftrightarrow> guarded s t q"
  shows "stack_pc_ok s' t pc \<longleftrightarrow> stack_pc_ok s t pc"
  using assms by (cases pc) (simp_all add: stack_pc_ok_def)

text \<open>What a guard holds is allocated.\<close>

lemma guarded_allocated:
  assumes "epoch_inv threads (es_dom s)" "guarded s t q"
  shows "ep_obj (es_dom s) q \<noteq> Unallocated"
proof -
  have "keeps (es_dom s) (ep_since (es_dom s) t) q" using assms epoch_invD(6) [OF assms(1)] unfolding reads_ok_def guarded_def by blast
  then show ?thesis using slots_okD(2) [OF epoch_invD(5) [OF assms(1)]] unfolding keeps_def by force
qed

section \<open>Steps of the domain under the stack\<close>

text \<open>Entering, leaving, retiring and advancing link nothing and unlink nothing, and no guard grows.\<close>

lemma epoch_next_frame:
  assumes inv: "epoch_inv threads s" and step: "epoch_next d threads t c s = Some s'" and c: "c \<in> {Enter, Exit, Next, Spurious}"
  shows "ep_obj s' q = Linked \<longleftrightarrow> ep_obj s q = Linked" and "ep_guard s' u = Some hs \<Longrightarrow> q \<in> set hs \<Longrightarrow> ep_guard s u = Some hs"
    and "u \<noteq> t \<Longrightarrow> ep_guard s' u = ep_guard s u \<and> ep_pc s' u = ep_pc s u"
proof -
  note D = epoch_invD [OF inv]
  have ok: "epoch_pc_ok s t (ep_pc s t)" by (rule D(3))
  have doomed: "a \<notin> fst ` set (ep_retire s k)" if "ep_obj s a = Linked" for a k using slots_okD(2) [OF D(5)] that by fastforce
  have "(\<forall>q. ep_obj s' q = Linked \<longleftrightarrow> ep_obj s q = Linked) \<and> (\<forall>u hs q. ep_guard s' u = Some hs \<longrightarrow> q \<in> set hs \<longrightarrow> ep_guard s u = Some hs) \<and>
    (\<forall>u. u \<noteq> t \<longrightarrow> ep_guard s' u = ep_guard s u \<and> ep_pc s' u = ep_pc s u)"
  proof (cases "ep_pc s t")
    case EIdle
    then show ?thesis using step c by (auto simp: epoch_next_def epoch_idle_def enter_start_def epoch_exit_def set_rec_def split: if_splits option.splits)
  next
    case (EWalk n)
    then show ?thesis using step by (auto simp: epoch_next_def epoch_walk_def set_rec_def split: if_splits nat.splits)
  next
    case (TOwned p)
    then show ?thesis using step by (auto simp: epoch_next_def epoch_exit_def set_rec_def split: if_splits option.splits)
  next
    case (EStore g)
    then show ?thesis using step by (auto simp: epoch_next_def enter_store_def set_rec_def split: option.splits)
  next
    case EActivate
    then show ?thesis using step by (auto simp: epoch_next_def enter_activate_def set_rec_def split: option.splits if_splits)
  next
    case (TPush p g)
    then show ?thesis using step ok by (auto simp: epoch_next_def retire_push_def Let_def epoch_pc_ok_def split: if_splits)
  next
    case (TMove G)
    then have s': "s' = advance_move t G s" using step by (simp add: epoch_next_def)
    have "ep_obj s' q = Linked \<longleftrightarrow> ep_obj s q = Linked" for q using doomed [of q "old_slot G"] by (auto simp: s' advance_move_def Let_def split: if_splits)
    then show ?thesis by (simp add: s' advance_move_def Let_def)
  next
    case (TFree ps)
    then show ?thesis using step ok by (auto simp: epoch_next_def advance_free_def epoch_pc_ok_def split: list.splits if_splits)
  qed (use step in \<open>auto simp: epoch_next_def epoch_push_def advance_scan_def advance_local_def advance_cas_def split: if_splits nat.splits\<close>)
  then show "ep_obj s' q = Linked \<longleftrightarrow> ep_obj s q = Linked" "ep_guard s' u = Some hs \<Longrightarrow> q \<in> set hs \<Longrightarrow> ep_guard s u = Some hs"
    "u \<noteq> t \<Longrightarrow> ep_guard s' u = ep_guard s u \<and> ep_pc s' u = ep_pc s u"
    by blast+
qed

text \<open>The three steps that touch objects, and leaving a guard, of a thread that is idle in the domain.\<close>

lemma idle_steps:
  assumes "ep_pc s t = EIdle"
  shows "epoch_next d threads t (Link p) s = Some s' \<Longrightarrow> ep_obj s p = Unallocated \<and> s' = s\<lparr>ep_obj := (ep_obj s)(p := Linked)\<rparr>"
    and "epoch_next d threads t (Read p) s = Some s' \<Longrightarrow> ep_obj s p = Linked \<and> (\<exists>hs. ep_guard s t = Some hs \<and> s' = s\<lparr>ep_guard := (ep_guard s)(t := Some (p # hs))\<rparr>)"
    and "epoch_next d threads t (Unlink p) s = Some s' \<Longrightarrow> ep_obj s p = Linked \<and> s' = ego t (TOwned p) (s\<lparr>ep_obj := (ep_obj s)(p := Unlinked t)\<rparr>)"
    and "epoch_next d threads t Exit s = Some s' \<Longrightarrow> ep_pc s' t = EIdle"
  using assms by (auto simp: epoch_next_def epoch_idle_def epoch_exit_def set_rec_def split: if_splits option.splits)

section \<open>Steps of the stack\<close>

text \<open>The disciplined runs of \<open>Epoch\<close>.\<close>

definition disciplined :: "discipline \<Rightarrow> bool" where
  "disciplined d \<longleftrightarrow> own_records d \<and> serial_retires d"

lemma dom_inv: "epoch_inv threads s \<Longrightarrow> t \<in> set threads \<Longrightarrow> disciplined d \<Longrightarrow> epoch_next d threads t c s = Some s' \<Longrightarrow> epoch_inv threads s'"
  using epoch_next_inv unfolding disciplined_def by blast

lemma stack_dom_inv:
  assumes inv: "stack_inv threads s ch" and t: "t \<in> set threads" and d: "disciplined d" and c: "c \<in> {Enter, Exit, Next, Spurious}" and pc: "pc \<in> {PopEnter, PopRetire} \<or> pc = SIdle \<and> c = Exit \<and> ep_pc (es_dom s) t = EIdle"
    and step: "stack_dom d threads t c pc s = Some s'"
  shows "stack_inv threads s' ch"
proof -
  note D = stack_invD [OF inv]
  obtain dom where dom: "epoch_next d threads t c (es_dom s) = Some dom" and s': "s' = sgo t pc (s\<lparr>es_dom := dom\<rparr>)" using step by (auto simp: stack_dom_def)
  note F = epoch_next_frame [OF D(1) dom c]
  have g: "guarded s' u q \<Longrightarrow> guarded s u q" for u q using F(2) by (auto simp: s' guarded_def)
  have g': "guarded s' u q \<longleftrightarrow> guarded s u q" if "u \<noteq> t" for u q using F(3) [OF that] by (simp add: s' guarded_def)
  have pc_t: "stack_pc_ok s' t pc" "pushing_node pc = None" using pc idle_steps(4) [of "es_dom s" t d threads dom] dom by (auto simp: stack_pc_ok_def s')
  show ?thesis
  proof (rule stack_invI)
    show "epoch_inv threads (es_dom s')" using dom_inv [OF D(1) t d dom] by (simp add: s')
    show "stack_pc_ok s' u (es_pc s' u)" for u
    proof (cases "u = t")
      case False
      then show ?thesis using D(6) [of u] g' [OF False] F(3) [OF False] by (cases "es_pc s u") (simp_all add: s' stack_pc_ok_def)
    qed (use pc_t(1) in \<open>simp add: s'\<close>)
    show "node_ok s' ch u p" if "pushing_node (es_pc s' u) = Some p" for u p
    proof -
      have "node_ok s ch u p" using that pc_t(2) D(7) [of u p] by (auto simp: s' split: if_splits)
      then show ?thesis using F(1) g pc_t(2) by (auto simp: node_ok_def s' split: if_splits)
    qed
  qed (use D F(1) in \<open>auto simp: s'\<close>)
qed

text \<open>Pushing.\<close>

lemma stack_push_new_inv:
  assumes inv: "stack_inv threads s ch" and t: "t \<in> set threads" and d: "disciplined d" and pc: "es_pc s t = SIdle" and step: "stack_push_new d threads t v p s = Some s'"
  shows "stack_inv threads s' ch"
proof -
  note D = stack_invD [OF inv]
  obtain dom where dom: "epoch_next d threads t (Link p) (es_dom s) = Some dom"
    and s': "s' = sgo t (PushLoad p) (s\<lparr>es_dom := dom, es_data := (es_data s)(p := v), es_next := (es_next s)(p := None)\<rparr>)" using step by (auto simp: stack_push_new_def)
  have idle: "ep_pc (es_dom s) t = EIdle" using D(6) [of t] pc by (simp add: stack_pc_ok_def)
  note L = idle_steps(1) [OF idle dom]
  have out: "p \<notin> set ch" "\<And>u. \<not> guarded s u p" "\<And>u. pushing_node (es_pc s u) \<noteq> Some p"
    using L D(4) [of p] guarded_allocated [OF D(1)] D(7) [of _ p] by (auto simp: node_ok_def)
  have g: "guarded s' u q = guarded s u q" for u q using L by (simp add: s' guarded_def)
  show ?thesis
  proof (rule stack_invI)
    show "epoch_inv threads (es_dom s')" using dom_inv [OF D(1) t d dom] by (simp add: s')
    show "linked_list (es_next s') (es_head s') ch" using D(2) out(1) by (simp add: s' linked_list_upd)
    show "lifo (es_log s') [] = Some (map (es_data s') ch)" using D(5) out(1) by (simp add: s')
    show "ep_obj (es_dom s') q = Linked" if "q \<in> set ch" for q using D(4) [OF that] L by (simp add: s')
    show "stack_pc_ok s' u (es_pc s' u)" for u
    proof (cases "u = t")
      case True
      then show ?thesis using L idle by (simp add: s' stack_pc_ok_def)
    next
      case False
      then show ?thesis using D(6) [of u] out(2) [of u] out(3) [of u] L unfolding stack_pc_ok_def g by (cases "es_pc s u") (auto simp: s')
    qed
    show "node_ok s' ch u q" if q: "pushing_node (es_pc s' u) = Some q" for u q
    proof (cases "u = t")
      case True
      then have "q = p" using q by (simp add: s')
      then show ?thesis using True L out unfolding node_ok_def g by (simp add: s')
    next
      case False
      then have n: "node_ok s ch u q" "q \<noteq> p" using q D(7) [of u q] out(3) [of u] by (auto simp: s')
      then show ?thesis using L pc unfolding node_ok_def g by (simp add: s')
    qed
  qed (use D(3) in simp)
qed

lemma stack_go_inv:
  assumes inv: "stack_inv threads s ch" and ok: "stack_pc_ok s t pc" and p: "pushing_node pc = pushing_node (es_pc s t) \<or> pushing_node pc = None"
  shows "stack_inv threads (sgo t pc s) ch"
proof (rule stack_invI)
  note D = stack_invD [OF inv]
  have g: "guarded (sgo t pc s) u q = guarded s u q" for u q by (simp add: guarded_def)
  have ok': "stack_pc_ok (sgo t pc s) u x = stack_pc_ok s u x" for u x by (rule stack_pc_ok_cong) (simp_all add: g)
  show "stack_pc_ok (sgo t pc s) u (es_pc (sgo t pc s) u)" for u unfolding ok' using D(6) [of u] ok by simp
  show "node_ok (sgo t pc s) ch u q" if q: "pushing_node (es_pc (sgo t pc s) u) = Some q" for u q
  proof -
    have "node_ok s ch u q" using q p D(7) [of u q] by (auto split: if_splits)
    then show ?thesis using p unfolding node_ok_def g by (auto split: if_splits)
  qed
qed (use stack_invD [OF inv] in simp_all)

lemma push_store_inv:
  assumes inv: "stack_inv threads s ch" and pc: "es_pc s t = PushStore p old"
  shows "stack_inv threads (sgo t (PushCas p old) (s\<lparr>es_next := (es_next s)(p := old)\<rparr>)) ch"
proof -
  note D = stack_invD [OF inv]
  have n: "node_ok s ch t p" using D(7) [of t p] pc by simp
  let ?s = "s\<lparr>es_next := (es_next s)(p := old)\<rparr>"
  have g: "guarded ?s u q = guarded s u q" for u q by (simp add: guarded_def)
  have pcs: "stack_pc_ok ?s u (es_pc ?s u)" for u
  proof (cases "u = t")
    case False
    have "pushing_node (es_pc s u) \<noteq> Some p" "\<not> guarded s u p" using n False unfolding node_ok_def by blast+
    then show ?thesis using D(6) [of u] unfolding stack_pc_ok_def g by (cases "es_pc s u") auto
  qed (use D(6) [of t] pc in \<open>simp add: stack_pc_ok_def\<close>)
  have nodes: "node_ok ?s ch u q" if "pushing_node (es_pc ?s u) = Some q" for u q using that D(7) [of u q] unfolding node_ok_def g by simp
  have "stack_inv threads ?s ch" by (rule stack_invI) (use D n pcs nodes in \<open>auto simp: linked_list_upd node_ok_def\<close>)
  then show ?thesis by (rule stack_go_inv) (use D(6) [of t] pc in \<open>simp_all add: stack_pc_ok_def\<close>)
qed

lemma stack_push_cas_inv:
  assumes inv: "stack_inv threads s ch" and pc: "es_pc s t = PushCas p old" and head: "es_head s = old"
  shows "stack_inv threads (sgo t SIdle (s\<lparr>es_head := Some p, es_log := es_log s @ [SPush (es_data s p)]\<rparr>)) (p # ch)"
proof -
  note D = stack_invD [OF inv]
  have n: "node_ok s ch t p" using D(7) [of t p] pc by simp
  have nx: "es_next s p = old" "ep_pc (es_dom s) t = EIdle" using D(6) [of t] pc by (simp_all add: stack_pc_ok_def)
  let ?s = "sgo t SIdle (s\<lparr>es_head := Some p, es_log := es_log s @ [SPush (es_data s p)]\<rparr>)"
  have g: "guarded ?s u q = guarded s u q" for u q by (simp add: guarded_def)
  show ?thesis
  proof (rule stack_invI)
    show "stack_pc_ok ?s u (es_pc ?s u)" for u
    proof (cases "u = t")
      case False
      then show ?thesis using D(6) [of u] stack_pc_ok_cong [of ?s u s] g by simp
    qed (use nx(2) in \<open>simp add: stack_pc_ok_def\<close>)
    show "node_ok ?s (p # ch) u q" if q: "pushing_node (es_pc ?s u) = Some q" for u q
    proof -
      have u: "u \<noteq> t" using q by auto
      have pq: "pushing_node (es_pc s u) = Some q" using q u by simp
      then have "q \<noteq> p" using n u unfolding node_ok_def by blast
      then show ?thesis using D(7) [OF pq] u unfolding node_ok_def g by simp
    qed
    show "lifo (es_log ?s) [] = Some (map (es_data ?s) (p # ch))" using lifo_append [OF D(5)] by simp
  qed (use D n nx head in \<open>auto simp: node_ok_def\<close>)
qed

text \<open>Popping: the head is read under the guard, and the exchange finds the node that was read.\<close>

lemma linked_list_head: "linked_list nx (Some q) ch \<Longrightarrow> \<exists>rest. ch = q # rest \<and> linked_list nx (nx q) rest"
  by (cases ch) auto

lemma pop_load_inv:
  assumes inv: "stack_inv threads s ch" and t: "t \<in> set threads" and d: "disciplined d" and idle: "ep_pc (es_dom s) t = EIdle" and pc: "pushing_node (es_pc s t) = None"
    and step: "stack_pop_load d threads t s = Some s'"
  shows "stack_inv threads s' ch"
proof (cases "es_head s")
  case None
  note D = stack_invD [OF inv]
  have ch: "ch = []" using D(2) None by (cases ch) auto
  have g: "guarded (s\<lparr>es_log := es_log s @ [SEmpty]\<rparr>) u q = guarded s u q" for u q by (simp add: guarded_def)
  have "stack_inv threads (s\<lparr>es_log := es_log s @ [SEmpty]\<rparr>) ch"
  proof (rule stack_invI)
    show "lifo (es_log (s\<lparr>es_log := es_log s @ [SEmpty]\<rparr>)) [] = Some (map (es_data (s\<lparr>es_log := es_log s @ [SEmpty]\<rparr>)) ch)" using lifo_append [OF D(5)] ch by simp
    show "stack_pc_ok (s\<lparr>es_log := es_log s @ [SEmpty]\<rparr>) u (es_pc (s\<lparr>es_log := es_log s @ [SEmpty]\<rparr>) u)" for u
      using D(6) [of u] stack_pc_ok_cong [of "s\<lparr>es_log := es_log s @ [SEmpty]\<rparr>" u s] g by simp
    show "node_ok (s\<lparr>es_log := es_log s @ [SEmpty]\<rparr>) ch u q" if "pushing_node (es_pc (s\<lparr>es_log := es_log s @ [SEmpty]\<rparr>) u) = Some q" for u q
      using that D(7) [of u q] unfolding node_ok_def g by simp
  qed (use D in simp_all)
  then have "stack_inv threads (sgo t EmptyExit (s\<lparr>es_log := es_log s @ [SEmpty]\<rparr>)) ch" by (rule stack_go_inv) (use idle in \<open>simp_all add: stack_pc_ok_def\<close>)
  then show ?thesis using step None by (simp add: stack_pop_load_def)
next
  case (Some q)
  note D = stack_invD [OF inv]
  obtain dom where dom: "epoch_next d threads t (Read q) (es_dom s) = Some dom" and s': "s' = sgo t (PopNext q) (s\<lparr>es_dom := dom\<rparr>)" using step Some by (auto simp: stack_pop_load_def)
  obtain hs where L: "ep_guard (es_dom s) t = Some hs" "dom = (es_dom s)\<lparr>ep_guard := (ep_guard (es_dom s))(t := Some (q # hs))\<rparr>" using idle_steps(2) [OF idle dom] by blast
  have q: "q \<in> set ch" using linked_list_head D(2) Some by fastforce
  have g: "guarded s' u x \<longleftrightarrow> guarded s u x \<or> u = t \<and> x = q" for u x using L by (auto simp: s' guarded_def)
  show ?thesis
  proof (rule stack_invI)
    show "epoch_inv threads (es_dom s')" using dom_inv [OF D(1) t d dom] by (simp add: s')
    show "stack_pc_ok s' u (es_pc s' u)" for u
    proof (cases "u = t")
      case True
      then show ?thesis using idle L(2) g [of t q] by (simp add: s' stack_pc_ok_def)
    next
      case False
      have "stack_pc_ok s' u (es_pc s u) \<longleftrightarrow> stack_pc_ok s u (es_pc s u)" using False L(2) g by (intro stack_pc_ok_cong) (simp_all add: s')
      then show ?thesis using D(6) [of u] False by (simp add: s')
    qed
    show "node_ok s' ch u x" if x: "pushing_node (es_pc s' u) = Some x" for u x
    proof -
      have u: "u \<noteq> t" using x by (auto simp: s')
      then have n: "node_ok s ch u x" using x D(7) [of u x] by (simp add: s')
      then have "x \<noteq> q" using q by (auto simp: node_ok_def)
      then show ?thesis using n u L(2) unfolding node_ok_def g by (auto simp: s' split: if_splits)
    qed
  qed (use D L(2) in \<open>simp_all add: s'\<close>)
qed

lemma stack_pop_cas_inv:
  assumes inv: "stack_inv threads s ch" and t: "t \<in> set threads" and d: "disciplined d" and pc: "es_pc s t = PopCas q nx" and head: "es_head s = Some q"
    and dom: "epoch_next d threads t (Unlink q) (es_dom s) = Some dm" and s': "s' = sgo t PopExit (s\<lparr>es_dom := dm, es_head := nx, es_log := es_log s @ [SPop (es_data s q)]\<rparr>)"
  shows "stack_inv threads s' (tl ch)"
proof -
  note D = stack_invD [OF inv]
  have idle: "ep_pc (es_dom s) t = EIdle" and nx: "es_next s q = nx" using D(6) [of t] pc by (simp_all add: stack_pc_ok_def)
  note L = idle_steps(3) [OF idle dom]
  obtain rest where ch: "ch = q # rest" "linked_list (es_next s) nx rest" using linked_list_head D(2) head nx by force
  have g: "guarded s' u x = guarded s u x" for u x using L by (simp add: s' guarded_def)
  show ?thesis
  proof (rule stack_invI)
    show "epoch_inv threads (es_dom s')" using dom_inv [OF D(1) t d dom] by (simp add: s')
    show "stack_pc_ok s' u (es_pc s' u)" for u
    proof (cases "u = t")
      case True
      then show ?thesis using L by (simp add: s' stack_pc_ok_def)
    next
      case False
      have "stack_pc_ok s' u (es_pc s u) \<longleftrightarrow> stack_pc_ok s u (es_pc s u)" using False L g by (intro stack_pc_ok_cong) (simp_all add: s')
      then show ?thesis using D(6) [of u] False by (simp add: s')
    qed
    show "node_ok s' (tl ch) u x" if x: "pushing_node (es_pc s' u) = Some x" for u x
    proof -
      have u: "u \<noteq> t" using x by (auto simp: s')
      then have "node_ok s ch u x" using x D(7) [of u x] by (simp add: s')
      then show ?thesis using u L ch(1) pc unfolding node_ok_def g by (auto simp: s' split: if_splits)
    qed
    show "lifo (es_log s') [] = Some (map (es_data s') (tl ch))" using lifo_append [OF D(5)] ch by (simp add: s')
    show "ep_obj (es_dom s') x = Linked" if "x \<in> set (tl ch)" for x using that D(3) D(4) [of x] L ch(1) by (auto simp: s')
  qed (use D(3) ch in \<open>simp_all add: s'\<close>)
qed

lemma stack_next_inv:
  assumes inv: "stack_inv threads s ch" and t: "t \<in> set threads" and d: "disciplined d" and step: "stack_next d threads t c s = Some s'"
  shows "\<exists>ch'. stack_inv threads s' ch'"
proof -
  note D = stack_invD [OF inv]
  have ok: "stack_pc_ok s t (es_pc s t)" by (rule D(6))
  note dom = stack_dom_inv [OF inv t d]
  show ?thesis
  proof (cases "es_pc s t")
    case SIdle
    then show ?thesis using step stack_push_new_inv [OF inv t d SIdle] dom [of Enter PopEnter] by (cases c) (auto simp: stack_next_def)
  next
    case (PushLoad p)
    then show ?thesis using step ok stack_go_inv [OF inv, of t "PushStore p (es_head s)"] by (auto simp: stack_next_def stack_pc_ok_def)
  next
    case (PushStore p old)
    then show ?thesis using step push_store_inv [OF inv PushStore] by (auto simp: stack_next_def)
  next
    case (PushCas p old)
    have "stack_inv threads (sgo t (PushStore p (es_head s)) s) ch" using ok PushCas by (intro stack_go_inv [OF inv]) (simp_all add: stack_pc_ok_def)
    then show ?thesis using step PushCas stack_push_cas_inv [OF inv PushCas] by (auto simp: stack_next_def stack_push_cas_def split: if_splits)
  next
    case PopEnter
    then show ?thesis using step pop_load_inv [OF inv t d, of s'] dom [of Next PopEnter s'] dom [of Spurious PopEnter s'] by (auto simp: stack_next_def split: if_splits)
  next
    case (PopNext q)
    then show ?thesis using step ok stack_go_inv [OF inv, of t "PopCas q (es_next s q)"] by (auto simp: stack_next_def stack_pc_ok_def)
  next
    case (PopCas q nx)
    have idle: "ep_pc (es_dom s) t = EIdle" using ok PopCas by (simp add: stack_pc_ok_def)
    have load: "stack_inv threads s' ch" if "stack_pop_load d threads t s = Some s'" using that PopCas by (intro pop_load_inv [OF inv t d idle]) simp_all
    show ?thesis using step PopCas load stack_pop_cas_inv [OF inv t d PopCas _ _ refl] by (auto simp: stack_next_def stack_pop_cas_def split: if_splits)
  next
    case PopExit
    then show ?thesis using step dom [of Exit PopRetire s'] by (auto simp: stack_next_def)
  next
    case PopRetire
    have "stack_inv threads (sgo t SIdle s) ch" if "ep_pc (es_dom s) t = EIdle" using that by (intro stack_go_inv [OF inv]) (simp_all add: stack_pc_ok_def)
    then show ?thesis using step PopRetire dom [of Next PopRetire s'] by (auto simp: stack_next_def split: if_splits)
  next
    case EmptyExit
    then show ?thesis using step ok dom [of Exit SIdle s'] by (auto simp: stack_next_def stack_pc_ok_def)
  qed
qed

lemma epoch_stack_new_inv: "stack_inv threads (epoch_stack_new a) []"
  by (rule stack_invI) (simp_all add: epoch_stack_new_def epoch_new_inv stack_pc_ok_def, simp add: epoch_new_def)

lemma stack_run_inv:
  assumes "stack_inv threads s ch" "stack_run d threads moves s = Some s'" "disciplined d"
  shows "\<exists>ch'. stack_inv threads s' ch'"
  using assms(1,2)
proof (induction moves arbitrary: s ch)
  case (Cons m moves)
  obtain t c where m: "m = (t, c)" by force
  then obtain s1 where s1: "t \<in> set threads" "stack_next d threads t c s = Some s1" "stack_run d threads moves s1 = Some s'"
    using Cons.prems(2) by (auto split: if_splits simp: bind_eq_Some_conv)
  then show ?case using Cons.IH stack_next_inv [OF Cons.prems(1) s1(1) assms(3) s1(2)] by blast
qed auto

text \<open>
  C18. Under the discipline of the epoch domain the untagged stack is a stack in every interleaving: the pushes and pops that took effect,
  in order, are a history of a last-in first-out list whose contents are the nodes reachable from the head, all distinct; a pop that
  reports empty saw an empty stack; the node a pop reads or exchanges is allocated, and its link is the one the pop read.
\<close>

theorem epoch_stack_lifo:
  assumes "disciplined d" "stack_run d threads moves (epoch_stack_new a) = Some s"
  shows "\<exists>ch. linked_list (es_next s) (es_head s) ch \<and> distinct ch \<and> lifo (es_log s) [] = Some (map (es_data s) ch) \<and>
    (\<forall>t q. es_pc s t = PopNext q \<longrightarrow> ep_obj (es_dom s) q \<noteq> Unallocated) \<and> (\<forall>t q nx. es_pc s t = PopCas q nx \<longrightarrow> ep_obj (es_dom s) q \<noteq> Unallocated \<and> es_next s q = nx)"
proof -
  obtain ch where inv: "stack_inv threads s ch" using stack_run_inv [OF epoch_stack_new_inv assms(2,1)] by blast
  note D = stack_invD [OF inv]
  have "ep_obj (es_dom s) q \<noteq> Unallocated" if "es_pc s t = PopNext q" for t q
    using guarded_allocated [OF D(1), of t q] D(6) [of t] that by (simp add: stack_pc_ok_def)
  moreover have "ep_obj (es_dom s) q \<noteq> Unallocated \<and> es_next s q = nx" if "es_pc s t = PopCas q nx" for t q nx
    using guarded_allocated [OF D(1), of t q] D(6) [of t] that by (simp add: stack_pc_ok_def)
  ultimately show ?thesis using D(2,3,5) by blast
qed

definition stack_demo :: "(nat \<times> nat stack_call) list" where
  "stack_demo = (0, CallPush 7 3) # replicate 3 (0, Go False) @ (1, CallPop) # replicate 8 (1, Go False) @ (0, CallPush 9 4) # replicate 3 (0, Go False) @ replicate 15 (1, Go False)"

text \<open>The exchange of thread 1 fails once because thread 0 pushes, then takes the new head and retires it.\<close>

theorem epoch_stack_lifo_witness:
  "\<exists>s ch. stack_run \<lparr>own_records = True, serial_retires = True\<rparr> [0, 1] stack_demo (epoch_stack_new 0) = Some s \<and> es_log s = [SPush 7, SPush 9, SPop 9] \<and>
     linked_list (es_next s) (es_head s) ch \<and> map (es_data s) ch = [7]"
proof -
  let ?d = "\<lparr>own_records = True, serial_retires = True\<rparr>"
  have "map_option es_log (stack_run ?d [0, 1] stack_demo (epoch_stack_new 0)) = Some [SPush 7, SPush 9, SPop 9]" by code_simp
  then obtain s where s: "stack_run ?d [0, 1] stack_demo (epoch_stack_new 0) = Some s" "es_log s = [SPush 7, SPush 9, SPop 9]" by auto
  obtain ch where "linked_list (es_next s) (es_head s) ch" "lifo (es_log s) [] = Some (map (es_data s) ch)"
    using epoch_stack_lifo [OF _ s(1)] by (auto simp: disciplined_def)
  then show ?thesis using s by auto
qed

end
