(* ===== verification/Knn_Search.thy ===== *)
theory Knn_Search
  imports Complex_Main "HOL-Library.Multiset" "HOL-Library.Monad_Syntax"
begin

text \<open>
  \<open>ml/knn\<close>: the KD-tree, the ball tree and the nearest-neighbour classifier on them. Floats are exact reals. A read out of
  range, a division of zero by zero, a recursion that does not end and a thrown exception are \<open>None\<close>.
\<close>

section \<open>The standard library\<close>

record neighbor =
  nb_index :: nat
  nb_dist_sq :: real

text \<open>
  The algorithms of the standard library leave the order of equal elements, and the layout of a heap, to the implementation:
  they are a parameter with the laws the standard states. \<open>partition\<close> returns the rearranged range; the iterator it returns
  stands after the elements that satisfy the predicate.
\<close>

record std_algos =
  std_nth_element :: "(nat \<Rightarrow> real) \<Rightarrow> nat \<Rightarrow> nat list \<Rightarrow> nat list"
  std_partition :: "(nat \<Rightarrow> bool) \<Rightarrow> nat list \<Rightarrow> nat list"
  std_push_heap :: "neighbor list \<Rightarrow> neighbor list"
  std_pop_heap :: "neighbor list \<Rightarrow> neighbor list"
  std_sort :: "neighbor list \<Rightarrow> neighbor list"

definition is_heap :: "neighbor list \<Rightarrow> bool" where
  "is_heap h \<longleftrightarrow> (\<forall>i \<in> {1..<length h}. nb_dist_sq (h ! i) \<le> nb_dist_sq (h ! ((i - 1) div 2)))"

definition std_laws :: "std_algos \<Rightarrow> bool" where
  "std_laws A \<longleftrightarrow>
     (\<forall>key n xs. n < length xs \<longrightarrow> mset (std_nth_element A key n xs) = mset xs \<and>
        (\<forall>i < n. key (std_nth_element A key n xs ! i) \<le> key (std_nth_element A key n xs ! n)) \<and>
        (\<forall>j. n < j \<and> j < length xs \<longrightarrow> key (std_nth_element A key n xs ! n) \<le> key (std_nth_element A key n xs ! j))) \<and>
     (\<forall>P xs. mset (std_partition A P xs) = mset xs \<and> takeWhile P (std_partition A P xs) = filter P (std_partition A P xs)) \<and>
     (\<forall>h x. is_heap h \<longrightarrow> mset (std_push_heap A (h @ [x])) = mset (h @ [x]) \<and> is_heap (std_push_heap A (h @ [x]))) \<and>
     (\<forall>h. is_heap h \<and> h \<noteq> [] \<longrightarrow> mset (std_pop_heap A h) = mset h \<and> last (std_pop_heap A h) = hd h \<and> is_heap (butlast (std_pop_heap A h))) \<and>
     (\<forall>h. mset (std_sort A h) = mset h \<and> sorted (map nb_dist_sq (std_sort A h)))"

section \<open>Distances and the bounded heap\<close>

fun sqd_from :: "real \<Rightarrow> real list \<Rightarrow> real list \<Rightarrow> real option" where
  "sqd_from s [] b = Some s"
| "sqd_from s (x # a) [] = None"
| "sqd_from s (x # a) (y # b) = sqd_from (s + (x - y) * (x - y)) a b"

definition squared_distance :: "real list \<Rightarrow> real list \<Rightarrow> real option" where
  "squared_distance a b = sqd_from 0 a b"

definition offer :: "std_algos \<Rightarrow> neighbor list \<Rightarrow> int \<Rightarrow> nat \<Rightarrow> real \<Rightarrow> neighbor list option" where
  "offer A h k idx d = (let new = \<lparr>nb_index = idx, nb_dist_sq = d\<rparr> in
     if int (length h) < k then Some (std_push_heap A (h @ [new]))
     else case h of [] \<Rightarrow> None
       | front # _ \<Rightarrow> if d < nb_dist_sq front then Some (std_push_heap A (butlast (std_pop_heap A h) @ [new])) else Some h)"

text \<open>The tests \<open>heap.size() < k || ...\<close> of the two searches: whether a subtree whose points are at least \<open>b\<close> away is left out.\<close>

definition front_test :: "neighbor list \<Rightarrow> int \<Rightarrow> (real \<Rightarrow> bool) \<Rightarrow> bool option" where
  "front_test h k prune = (if int (length h) < k then Some False else case h of [] \<Rightarrow> None | front # _ \<Rightarrow> Some (prune (nb_dist_sq front)))"

definition heap_to_sorted :: "std_algos \<Rightarrow> neighbor list \<Rightarrow> neighbor list" where
  "heap_to_sorted A h = std_sort A h"

section \<open>KD-tree\<close>

datatype kd_node = KNull | KNode nat nat kd_node kd_node

text \<open>\<open>build\<close> on the range \<open>[lo, hi)\<close> of the index vector.\<close>

function kd_build :: "std_algos \<Rightarrow> real list list \<Rightarrow> nat \<Rightarrow> nat list \<Rightarrow> kd_node option" where
  "kd_build A pts depth idx = (if idx = [] then Some KNull
     else if length (pts ! 0) = 0 then None
     else let split_dim = depth mod length (pts ! 0); mid = length idx div 2 in
       if 1 < length idx \<and> list_ex (\<lambda>i. length (pts ! i) \<le> split_dim) idx then None
       else let ys = std_nth_element A (\<lambda>i. pts ! i ! split_dim) mid idx in
         do { l \<leftarrow> kd_build A pts (depth + 1) (take mid ys);
              r \<leftarrow> kd_build A pts (depth + 1) (take (length idx - (mid + 1)) (drop (mid + 1) ys));
              Some (KNode split_dim (ys ! mid) l r) })"
  by pat_completeness auto
termination by (relation "measure (\<lambda>(A, pts, depth, idx). length idx)") (auto simp: min_less_iff_disj)

definition KDTree :: "std_algos \<Rightarrow> real list list \<Rightarrow> kd_node option" where
  "KDTree A pts = kd_build A pts 0 [0..<length pts]"

fun kd_search :: "std_algos \<Rightarrow> real list list \<Rightarrow> real list \<Rightarrow> int \<Rightarrow> kd_node \<Rightarrow> neighbor list \<times> nat \<Rightarrow> (neighbor list \<times> nat) option" where
  "kd_search A pts query k KNull hv = Some hv"
| "kd_search A pts query k (KNode split_dim p l r) hv =
     do { d \<leftarrow> squared_distance (pts ! p) query;
          h \<leftarrow> offer A (fst hv) k p d;
          if length query \<le> split_dim \<or> length (pts ! p) \<le> split_dim then None
          else let diff = query ! split_dim - pts ! p ! split_dim in
            do { hv2 \<leftarrow> (if diff < 0 then kd_search A pts query k l (h, snd hv + 1) else kd_search A pts query k r (h, snd hv + 1));
                 prune \<leftarrow> front_test (fst hv2) k (\<lambda>front. \<not> diff * diff < front);
                 if prune then Some hv2
                 else if diff < 0 then kd_search A pts query k r hv2 else kd_search A pts query k l hv2 } }"

text \<open>A negative \<open>k\<close> makes \<open>reserve\<close> throw.\<close>

definition kd_query_knn :: "std_algos \<Rightarrow> real list list \<Rightarrow> kd_node \<Rightarrow> real list \<Rightarrow> int \<Rightarrow> (neighbor list \<times> nat) option" where
  "kd_query_knn A pts node query k = (if k < 0 then None
     else do { (h, v) \<leftarrow> kd_search A pts query k node ([], 0); Some (heap_to_sorted A h, v) })"

section \<open>Ball tree\<close>

datatype ball_node = BLeaf (ball_center: "real list") (ball_radius: real) "nat list" | BNode (ball_center: "real list") (ball_radius: real) ball_node ball_node

definition distances :: "real list list \<Rightarrow> real list \<Rightarrow> nat list \<Rightarrow> real list option" where
  "distances pts a idx = those (map (\<lambda>i. squared_distance a (pts ! i)) idx)"

definition centroid :: "real list list \<Rightarrow> nat \<Rightarrow> nat list \<Rightarrow> real list" where
  "centroid pts n_features idx = map (\<lambda>d. sum_list (map (\<lambda>i. pts ! i ! d) idx) / real (length idx)) [0..<n_features]"

definition farthest :: "nat list \<Rightarrow> real list \<Rightarrow> nat" where
  "farthest idx ds = snd (fold (\<lambda>(i, d) (best, p). if d > best then (d, i) else (best, p)) (zip idx ds) (-1, hd idx))"

definition nearer :: "real list list \<Rightarrow> nat \<Rightarrow> nat \<Rightarrow> nat \<Rightarrow> bool" where
  "nearer pts p1 p2 i = (case (squared_distance (pts ! p1) (pts ! i), squared_distance (pts ! p2) (pts ! i)) of (Some d1, Some d2) \<Rightarrow> d1 \<le> d2 | _ \<Rightarrow> False)"

text \<open>With a \<open>leaf_size\<close> below 1 a range of one point is split into nothing and itself, for ever.\<close>

function ball_build :: "std_algos \<Rightarrow> real list list \<Rightarrow> int \<Rightarrow> nat list \<Rightarrow> ball_node option" where
  "ball_build A pts leaf_size idx = (if pts = [] \<or> idx = [] \<or> list_ex (\<lambda>i. length (pts ! i) < length (pts ! 0)) idx then None
     else let center = centroid pts (length (pts ! 0)) idx in
       do { ds \<leftarrow> distances pts center idx;
            let radius = fold (\<lambda>d r. max r (sqrt d)) ds 0 in
            if int (length idx) \<le> leaf_size then Some (BLeaf center radius idx)
            else if length idx < 2 then None
            else let p1 = farthest idx ds in
              do { ds1 \<leftarrow> distances pts (pts ! p1) idx;
                   let p2 = farthest idx ds1 in
                   do { ds2 \<leftarrow> distances pts (pts ! p2) idx;
                        let ys = std_partition A (nearer pts p1 p2) idx; m = length (filter (nearer pts p1 p2) idx);
                          mid = (if m = 0 \<or> m = length idx then length idx div 2 else m) in
                        do { l \<leftarrow> ball_build A pts leaf_size (take mid ys);
                             r \<leftarrow> ball_build A pts leaf_size (take (length idx - mid) (drop mid ys));
                             Some (BNode center radius l r) } } } })"
  by pat_completeness auto
termination
proof (relation "measure (\<lambda>(A, pts, leaf_size, idx). length idx)", simp, goal_cases)
  case (1 A pts leaf_size idx center ds radius p1 ds1 p2 ds2 ys m mid)
  then show ?case by (auto simp: min_less_iff_disj le_neq_implies_less split: if_splits)
next
  case (2 A pts leaf_size idx center ds radius p1 ds1 p2 ds2 ys m mid)
  then show ?case by (auto simp: min_less_iff_disj split: if_splits)
qed

definition BallTree :: "std_algos \<Rightarrow> real list list \<Rightarrow> int \<Rightarrow> ball_node option" where
  "BallTree A pts leaf_size = ball_build A pts leaf_size [0..<length pts]"

fun offer_all :: "std_algos \<Rightarrow> real list list \<Rightarrow> real list \<Rightarrow> int \<Rightarrow> nat list \<Rightarrow> neighbor list \<Rightarrow> neighbor list option" where
  "offer_all A pts query k [] h = Some h"
| "offer_all A pts query k (i # idx) h =
     do { d \<leftarrow> squared_distance (pts ! i) query; h' \<leftarrow> offer A h k i d; offer_all A pts query k idx h' }"

definition lower_bound_sq :: "real \<Rightarrow> real \<Rightarrow> real" where
  "lower_bound_sq dist_to_center radius = (let lb = dist_to_center - radius in if lb > 0 then lb * lb else 0)"

fun search_exact :: "std_algos \<Rightarrow> real list list \<Rightarrow> real list \<Rightarrow> int \<Rightarrow> ball_node \<Rightarrow> neighbor list \<times> nat \<Rightarrow> (neighbor list \<times> nat) option" where
  "search_exact A pts query k (BLeaf center radius idx) hv =
     do { dc \<leftarrow> squared_distance center query;
          prune \<leftarrow> front_test (fst hv) k (\<lambda>front. lower_bound_sq (sqrt dc) radius > front);
          if prune then Some hv
          else do { h \<leftarrow> offer_all A pts query k idx (fst hv); Some (h, snd hv + 1) } }"
| "search_exact A pts query k (BNode center radius l r) hv =
     do { dc \<leftarrow> squared_distance center query;
          prune \<leftarrow> front_test (fst hv) k (\<lambda>front. lower_bound_sq (sqrt dc) radius > front);
          if prune then Some hv
          else do { dl \<leftarrow> squared_distance (ball_center l) query;
                    dr \<leftarrow> squared_distance (ball_center r) query;
                    if dl \<le> dr then do { hv2 \<leftarrow> search_exact A pts query k l (fst hv, snd hv + 1); search_exact A pts query k r hv2 }
                    else do { hv2 \<leftarrow> search_exact A pts query k r (fst hv, snd hv + 1); search_exact A pts query k l hv2 } } }"

fun search_defeatist :: "std_algos \<Rightarrow> real list list \<Rightarrow> real list \<Rightarrow> int \<Rightarrow> ball_node \<Rightarrow> neighbor list \<times> nat \<Rightarrow> (neighbor list \<times> nat) option" where
  "search_defeatist A pts query k (BLeaf center radius idx) hv = do { h \<leftarrow> offer_all A pts query k idx (fst hv); Some (h, snd hv + 1) }"
| "search_defeatist A pts query k (BNode center radius l r) hv =
     do { dl \<leftarrow> squared_distance (ball_center l) query;
          dr \<leftarrow> squared_distance (ball_center r) query;
          if dl \<le> dr then search_defeatist A pts query k l (fst hv, snd hv + 1) else search_defeatist A pts query k r (fst hv, snd hv + 1) }"

definition ball_query_knn :: "std_algos \<Rightarrow> real list list \<Rightarrow> ball_node \<Rightarrow> real list \<Rightarrow> int \<Rightarrow> bool \<Rightarrow> (neighbor list \<times> nat) option" where
  "ball_query_knn A pts node query k approximate = (if k < 0 then None
     else do { (h, v) \<leftarrow> (if approximate then search_defeatist A pts query k node ([], 0) else search_exact A pts query k node ([], 0));
               Some (heap_to_sorted A h, v) })"

section \<open>Classifier\<close>

datatype neighbor_structure = KD_TREE | BALL_TREE

record knn_params =
  kp_k :: int
  kp_structure :: neighbor_structure
  kp_approximate :: bool

record knn_classifier =
  kc_params :: knn_params
  kc_X_train :: "real list list"
  kc_y_train :: "real list"
  kc_kd_tree :: "kd_node option"
  kc_ball_tree :: "ball_node option"

definition KNNClassifier :: "knn_params \<Rightarrow> knn_classifier" where
  "KNNClassifier params = \<lparr>kc_params = params, kc_X_train = [], kc_y_train = [], kc_kd_tree = None, kc_ball_tree = None\<rparr>"

definition knn_fit :: "std_algos \<Rightarrow> knn_classifier \<Rightarrow> real list list \<Rightarrow> real list \<Rightarrow> knn_classifier option" where
  "knn_fit A c X y = (let c0 = c\<lparr>kc_X_train := X, kc_y_train := y, kc_kd_tree := None, kc_ball_tree := None\<rparr> in
     case kp_structure (kc_params c) of
       KD_TREE \<Rightarrow> do { t \<leftarrow> KDTree A X; Some (c0\<lparr>kc_kd_tree := Some t\<rparr>) }
     | BALL_TREE \<Rightarrow> do { t \<leftarrow> BallTree A X 10; Some (c0\<lparr>kc_ball_tree := Some t\<rparr>) })"

definition knn_neighbors :: "std_algos \<Rightarrow> knn_classifier \<Rightarrow> real list \<Rightarrow> neighbor list option" where
  "knn_neighbors A c query = (let p = kc_params c in map_option fst (case kp_structure p of
       KD_TREE \<Rightarrow> do { t \<leftarrow> kc_kd_tree c; kd_query_knn A (kc_X_train c) t query (kp_k p) }
     | BALL_TREE \<Rightarrow> do { t \<leftarrow> kc_ball_tree c; ball_query_knn A (kc_X_train c) t query (kp_k p) (kp_approximate p) }))"

text \<open>The vote: \<open>labels\<close> are those of the neighbours, nearest first.\<close>

definition majority :: "real list \<Rightarrow> real" where
  "majority labels = snd (fold (\<lambda>l (best_count, best_label). if int (count_list labels l) > best_count then (int (count_list labels l), l) else (best_count, best_label))
     labels (-1, case labels of [] \<Rightarrow> 0 | l # _ \<Rightarrow> l))"

definition label_of :: "knn_classifier \<Rightarrow> neighbor \<Rightarrow> real option" where
  "label_of c n = (if nb_index n < length (kc_y_train c) then Some (kc_y_train c ! nb_index n) else None)"

definition predict_row :: "std_algos \<Rightarrow> knn_classifier \<Rightarrow> real list \<Rightarrow> real option" where
  "predict_row A c row = do { nn \<leftarrow> knn_neighbors A c row; labels \<leftarrow> those (map (label_of c) nn); Some (majority labels) }"

definition knn_predict :: "std_algos \<Rightarrow> knn_classifier \<Rightarrow> real list list \<Rightarrow> real list option" where
  "knn_predict A c X = those (map (predict_row A c) X)"

definition knn_score :: "std_algos \<Rightarrow> knn_classifier \<Rightarrow> real list list \<Rightarrow> real list \<Rightarrow> real option" where
  "knn_score A c X y = (if y = [] then Some 0
     else do { pred \<leftarrow> knn_predict A c X;
               if length pred < length y then None
               else Some (real (length (filter (\<lambda>i. pred ! i = y ! i) [0..<length y])) / real (length y)) })"

section \<open>Distances\<close>

definition ssq :: "real list \<Rightarrow> real list \<Rightarrow> real" where
  "ssq a b = sum_list (map2 (\<lambda>x y. (x - y)\<^sup>2) a b)"

lemma ssq_simps [simp]: "ssq [] b = 0" "ssq a [] = 0" "ssq (x # a) (y # b) = (x - y)\<^sup>2 + ssq a b"
  by (simp_all add: ssq_def)

lemma sqd_from_ssq: "length a \<le> length b \<Longrightarrow> sqd_from s a b = Some (s + ssq a b)"
  by (induction s a b rule: sqd_from.induct) (simp_all add: power2_eq_square)

lemma squared_distance_ssq [simp]: "length a \<le> length b \<Longrightarrow> squared_distance a b = Some (ssq a b)"
  by (simp add: squared_distance_def sqd_from_ssq)

lemma ssq_nonneg [simp]: "0 \<le> ssq a b"
  unfolding ssq_def by (rule sum_list_nonneg) auto

lemma ssq_coordinate: "d < length a \<Longrightarrow> d < length b \<Longrightarrow> (a ! d - b ! d)\<^sup>2 \<le> ssq a b"
proof (induction a arbitrary: b d)
  case (Cons x a)
  then obtain y b' where b: "b = y # b'" by (cases b) auto
  show ?case
  proof (cases d)
    case (Suc e)
    then have "(a ! e - b' ! e)\<^sup>2 \<le> ssq a b'" using Cons b by simp
    then show ?thesis using Suc b by (simp add: add_increasing)
  qed (simp add: b)
qed simp

lemma ssq_commute: "ssq a b = ssq b a"
proof (induction a arbitrary: b)
  case (Cons x a)
  then show ?case by (cases b) (simp_all add: power2_commute)
qed simp

text \<open>The triangle inequality of the Euclidean distance.\<close>

lemma ssq_triangle: "length a = length c \<Longrightarrow> length b = length c \<Longrightarrow> sqrt (ssq a b) \<le> sqrt (ssq a c) + sqrt (ssq c b)"
proof (induction a arbitrary: b c)
  case (Cons x a)
  then obtain y b' z c' where bc: "b = y # b'" "c = z # c'" by (metis length_Suc_conv)
  then have ih: "sqrt (ssq a b') \<le> sqrt (ssq a c') + sqrt (ssq c' b')" using Cons by simp
  have "sqrt (ssq (x # a) b) = sqrt (((x - z) + (z - y))\<^sup>2 + (sqrt (ssq a b'))\<^sup>2)" by (simp add: bc)
  also have "\<dots> \<le> sqrt (((x - z) + (z - y))\<^sup>2 + (sqrt (ssq a c') + sqrt (ssq c' b'))\<^sup>2)"
    using ih by (intro real_sqrt_le_mono add_left_mono power_mono) simp_all
  also have "\<dots> \<le> sqrt ((x - z)\<^sup>2 + (sqrt (ssq a c'))\<^sup>2) + sqrt ((z - y)\<^sup>2 + (sqrt (ssq c' b'))\<^sup>2)"
    by (rule real_sqrt_sum_squares_triangle_ineq)
  finally show ?case by (simp add: bc)
qed simp

section \<open>The bounded heap keeps the nearest\<close>

lemma is_heap_front:
  assumes "is_heap h" "x \<in> set h"
  shows "nb_dist_sq x \<le> nb_dist_sq (hd h)"
proof -
  have "nb_dist_sq (h ! i) \<le> nb_dist_sq (h ! 0)" if "i < length h" for i
    using that
  proof (induction i rule: less_induct)
    case (less i)
    show ?case
    proof (cases "i = 0")
      case False
      then have "nb_dist_sq (h ! i) \<le> nb_dist_sq (h ! ((i - 1) div 2))" using assms(1) less.prems unfolding is_heap_def by force
      then show ?thesis using less.IH [of "(i - 1) div 2"] False less.prems by fastforce
    qed simp
  qed
  then show ?thesis using assms(2) by (metis hd_conv_nth in_set_conv_nth list.set(1) empty_iff)
qed

text \<open>\<open>h\<close> holds the \<open>k\<close> nearest of the points \<open>S\<close>, or all of them when there are fewer.\<close>

definition k_best :: "(nat \<Rightarrow> real) \<Rightarrow> nat \<Rightarrow> nat set \<Rightarrow> neighbor list \<Rightarrow> bool" where
  "k_best D k S h \<longleftrightarrow> distinct (map nb_index h) \<and> (\<forall>n \<in> set h. nb_index n \<in> S \<and> nb_dist_sq n = D (nb_index n)) \<and> length h = min k (card S) \<and>
     (\<forall>n \<in> set h. \<forall>j \<in> S - nb_index ` set h. nb_dist_sq n \<le> D j)"

lemma k_best_mset:
  assumes "mset h = mset h'"
  shows "k_best D k S h \<longleftrightarrow> k_best D k S h'"
proof -
  have "distinct (map nb_index h) = distinct (map nb_index h')" using assms by (metis mset_eq_imp_distinct_iff mset_map)
  then show ?thesis unfolding k_best_def using mset_eq_setD [OF assms] mset_eq_length [OF assms] by simp
qed

lemma k_best_all:
  assumes "k_best D k S h" "finite S" "length h < k"
  shows "nb_index ` set h = S"
proof -
  have "card (nb_index ` set h) = length h" using assms(1) by (metis k_best_def distinct_card length_map set_map)
  moreover have "nb_index ` set h \<subseteq> S" using assms(1) by (auto simp: k_best_def)
  moreover have "length h = card S" using assms(1,3) by (simp add: k_best_def)
  ultimately show ?thesis using assms(2) by (simp add: card_subset_eq)
qed

lemma offer_best:
  assumes A: "std_laws A" and h: "is_heap h" and best: "k_best D k S h" and S: "finite S" "j \<notin> S" and k: "0 < k"
  shows "\<exists>h'. offer A h (int k) j (D j) = Some h' \<and> is_heap h' \<and> k_best D k (insert j S) h'"
proof -
  let ?new = "\<lparr>nb_index = j, nb_dist_sq = D j\<rparr>"
  have fresh: "j \<notin> nb_index ` set h" using best S(2) by (auto simp: k_best_def)
  have push: "mset (std_push_heap A (g @ [?new])) = mset (g @ [?new])" "is_heap (std_push_heap A (g @ [?new]))" if "is_heap g" for g
    using A that unfolding std_laws_def by blast+
  show ?thesis
  proof (cases "length h < k")
    case True
    have "nb_index ` set h = S" by (rule k_best_all [OF best S(1) True])
    then have "k_best D k (insert j S) (h @ [?new])" using best S fresh True by (auto simp: k_best_def)
    then show ?thesis using True push [OF h] k_best_mset [OF push(1) [OF h]] by (auto simp: offer_def)
  next
    case False
    then obtain x xs where x: "h = x # xs" using k by (cases h) auto
    have len: "length h = k" "k \<le> card S" using best False by (auto simp: k_best_def)
    have worst: "nb_dist_sq n \<le> nb_dist_sq x" if "n \<in> set h" for n using is_heap_front [OF h that] x by simp
    show ?thesis
    proof (cases "D j < nb_dist_sq x")
      case True
      let ?b = "butlast (std_pop_heap A h)"
      have pop: "mset (std_pop_heap A h) = mset h" "last (std_pop_heap A h) = x" "is_heap ?b" using A h x unfolding std_laws_def by force+
      then have "std_pop_heap A h = ?b @ [x]" using x by (metis append_butlast_last_id mset_zero_iff_right mset.simps(1) list.distinct(1))
      then have "mset ?b = mset xs" using pop(1) x by (metis add_mset_add_single mset.simps(2) mset_append add_mset_remove_trivial mset.simps(1))
      then have m: "mset (std_push_heap A (?b @ [?new])) = mset (xs @ [?new])" using push(1) [OF pop(3)] by simp
      have out: "D j \<le> D i" "\<forall>n \<in> set xs. nb_dist_sq n \<le> D i" if i: "i \<in> S" "i \<notin> nb_index ` set xs" for i
      proof -
        have "nb_dist_sq x \<le> D i" using best i x by (cases "i = nb_index x") (auto simp: k_best_def)
        then show "D j \<le> D i" "\<forall>n \<in> set xs. nb_dist_sq n \<le> D i" using True worst x by fastforce+
      qed
      have "k_best D k (insert j S) (xs @ [?new])"
        unfolding k_best_def using best fresh S len out x by (auto simp: k_best_def)
      then show ?thesis using True x False push(2) [OF pop(3)] k_best_mset [OF m] by (auto simp: offer_def)
    next
      case False
      have "k_best D k (insert j S) h"
        unfolding k_best_def using best S len False worst by (force simp: k_best_def)
      then show ?thesis using False x len h by (auto simp: offer_def)
    qed
  qed
qed

text \<open>A subtree may be left out when its points are no closer than the worst kept.\<close>

lemma prune_best:
  assumes "is_heap h" "k_best D k S h" "front_test h (int k) p = Some True" "finite S" "finite T" "0 < k"
    and "\<And>d j. p d \<Longrightarrow> j \<in> T \<Longrightarrow> d \<le> D j"
  shows "k_best D k (S \<union> T) h"
proof -
  obtain x xs where x: "h = x # xs" "p (nb_dist_sq x)" "k \<le> length h" using assms(3) by (auto simp: front_test_def split: if_splits list.splits)
  have "nb_dist_sq n \<le> D j" if n: "n \<in> set h" and j: "j \<in> T" for n j
    using is_heap_front [OF assms(1) n] assms(7) [OF x(2) j] x(1) by simp
  moreover have "card S \<le> card (S \<union> T)" using assms(4,5) by (simp add: card_mono)
  ultimately show ?thesis using assms(2) x(3) unfolding k_best_def by auto
qed

lemma front_test_some: "0 < k \<Longrightarrow> \<exists>b. front_test h (int k) p = Some b"
  by (cases h) (auto simp: front_test_def)

section \<open>The searches are exact\<close>

fun kd_indices :: "kd_node \<Rightarrow> nat set" where
  "kd_indices KNull = {}"
| "kd_indices (KNode sd p l r) = insert p (kd_indices l \<union> kd_indices r)"

text \<open>Points to the left are no larger, points to the right no smaller in the split dimension; no point occurs twice.\<close>

fun kd_ok :: "real list list \<Rightarrow> nat \<Rightarrow> kd_node \<Rightarrow> bool" where
  "kd_ok pts nf KNull \<longleftrightarrow> True"
| "kd_ok pts nf (KNode sd p l r) \<longleftrightarrow> sd < nf \<and> length (pts ! p) = nf \<and> p \<notin> kd_indices l \<union> kd_indices r \<and> kd_indices l \<inter> kd_indices r = {} \<and>
     (\<forall>j \<in> kd_indices l. pts ! j ! sd \<le> pts ! p ! sd) \<and> (\<forall>j \<in> kd_indices r. pts ! p ! sd \<le> pts ! j ! sd) \<and> kd_ok pts nf l \<and> kd_ok pts nf r"

lemma finite_kd_indices [simp]: "finite (kd_indices t)"
  by (induction t) simp_all

lemma kd_ok_length: "kd_ok pts nf t \<Longrightarrow> j \<in> kd_indices t \<Longrightarrow> length (pts ! j) = nf"
  by (induction t) auto

text \<open>A point beyond the splitting plane is at least as far away as the plane.\<close>

lemma beyond_plane:
  assumes "sd < length q" "length (pts ! j) = length q" "(q ! sd - v < 0 \<and> v \<le> pts ! j ! sd) \<or> (0 \<le> q ! sd - v \<and> pts ! j ! sd \<le> v)"
  shows "(q ! sd - v) * (q ! sd - v) \<le> ssq (pts ! j) q"
proof -
  have "\<bar>q ! sd - v\<bar> \<le> \<bar>pts ! j ! sd - q ! sd\<bar>" using assms(3) by linarith
  then have "(q ! sd - v)\<^sup>2 \<le> (pts ! j ! sd - q ! sd)\<^sup>2" using abs_le_square_iff by blast
  also have "\<dots> \<le> ssq (pts ! j) q" using assms(1,2) by (intro ssq_coordinate) simp_all
  finally show ?thesis by (simp add: power2_eq_square)
qed

lemma kd_search_best:
  assumes A: "std_laws A" and k: "0 < k"
  shows "kd_ok pts (length q) t \<Longrightarrow> is_heap h \<Longrightarrow> k_best (\<lambda>j. ssq (pts ! j) q) k S h \<Longrightarrow> finite S \<Longrightarrow> S \<inter> kd_indices t = {} \<Longrightarrow>
    \<exists>h' v'. kd_search A pts q (int k) t (h, v) = Some (h', v') \<and> is_heap h' \<and> k_best (\<lambda>j. ssq (pts ! j) q) k (S \<union> kd_indices t) h' \<and> v' \<le> v + card (kd_indices t)"
proof (induction t arbitrary: h v S)
  case (KNode sd p l r)
  let ?D = "\<lambda>j. ssq (pts ! j) q" and ?diff = "q ! sd - pts ! p ! sd"
  define near where "near = (if ?diff < 0 then l else r)"
  define far where "far = (if ?diff < 0 then r else l)"
  have nf: "{near, far} = {l, r}" "kd_indices near \<union> kd_indices far = kd_indices l \<union> kd_indices r" "kd_indices near \<inter> kd_indices far = {}"
    "kd_ok pts (length q) near" "kd_ok pts (length q) far" "p \<notin> kd_indices near" "p \<notin> kd_indices far"
    using KNode.prems(1) by (auto simp: near_def far_def)
  have ih: "\<exists>h' v'. kd_search A pts q (int k) u (g, w) = Some (h', v') \<and> is_heap h' \<and> k_best ?D k (T \<union> kd_indices u) h' \<and> v' \<le> w + card (kd_indices u)"
    if "u \<in> {near, far}" "kd_ok pts (length q) u" "is_heap g" "k_best ?D k T g" "finite T" "T \<inter> kd_indices u = {}" for u g w T
    using that KNode.IH(1) [of g T w] KNode.IH(2) [of g T w] unfolding nf(1) by blast
  have p: "p \<notin> S" "S \<inter> kd_indices near = {}" "S \<inter> kd_indices far = {}" using KNode.prems(5) nf(2) by auto
  obtain h1 where h1: "offer A h (int k) p (?D p) = Some h1" "is_heap h1" "k_best ?D k (insert p S) h1"
    using offer_best [OF A KNode.prems(2,3,4) p(1) k] by blast
  obtain h2 v2 where h2: "kd_search A pts q (int k) near (h1, v + 1) = Some (h2, v2)" "is_heap h2" "k_best ?D k (insert p S \<union> kd_indices near) h2"
    "v2 \<le> v + 1 + card (kd_indices near)"
    using ih [of near h1 "insert p S" "v + 1"] h1(2,3) nf p KNode.prems(4) by auto
  obtain b where b: "front_test h2 (int k) (\<lambda>front. \<not> ?diff * ?diff < front) = Some b" using front_test_some [OF k] by blast
  have step: "kd_search A pts q (int k) (KNode sd p l r) (h, v) = (if b then Some (h2, v2) else kd_search A pts q (int k) far (h2, v2))"
    using KNode.prems(1) h1(1) h2(1) b by (auto simp: near_def far_def Let_def split: if_splits)
  have all: "S \<union> kd_indices (KNode sd p l r) = (insert p S \<union> kd_indices near) \<union> kd_indices far" using nf(2) by auto
  have "card (kd_indices (KNode sd p l r)) = card (insert p (kd_indices near \<union> kd_indices far))" using nf(2) by simp
  then have card: "card (kd_indices (KNode sd p l r)) = 1 + card (kd_indices near) + card (kd_indices far)"
    using nf(3,6,7) by (simp add: card_Un_disjoint)
  show ?case
  proof (cases b)
    case True
    then have b': "front_test h2 (int k) (\<lambda>front. \<not> ?diff * ?diff < front) = Some True" using b by simp
    have "front \<le> ?D j" if "\<not> ?diff * ?diff < front" and j: "j \<in> kd_indices far" for front j
    proof -
      have "?diff * ?diff \<le> ?D j"
      proof (rule beyond_plane)
        show "sd < length q" using KNode.prems(1) by simp
        show "length (pts ! j) = length q" using kd_ok_length [OF nf(5) j] .
        show "?diff < 0 \<and> pts ! p ! sd \<le> pts ! j ! sd \<or> 0 \<le> ?diff \<and> pts ! j ! sd \<le> pts ! p ! sd"
          using KNode.prems(1) j by (auto simp: far_def split: if_splits)
      qed
      then show ?thesis using that(1) by linarith
    qed
    then have "k_best ?D k ((insert p S \<union> kd_indices near) \<union> kd_indices far) h2"
      using KNode.prems(4) k by (intro prune_best [OF h2(2,3) b']) auto
    then show ?thesis unfolding step all card using True h2(2,4) by simp
  next
    case False
    have "(insert p S \<union> kd_indices near) \<inter> kd_indices far = {}" using p(3) nf(3,7) by blast
    then obtain h3 v3 where "kd_search A pts q (int k) far (h2, v2) = Some (h3, v3)" "is_heap h3" "k_best ?D k ((insert p S \<union> kd_indices near) \<union> kd_indices far) h3"
      "v3 \<le> v2 + card (kd_indices far)"
      using ih [OF _ nf(5) h2(2,3), of v2] KNode.prems(4) by auto
    then show ?thesis unfolding step all card using False h2(4) by simp
  qed
qed simp

lemma nth_element_parts:
  assumes A: "std_laws A" and n: "n < length xs" and ys: "ys = std_nth_element A key n xs"
  shows "mset xs = mset (take n ys) + {#ys ! n#} + mset (take (length xs - (n + 1)) (drop (n + 1) ys))"
    and "x \<in> set (take n ys) \<Longrightarrow> key x \<le> key (ys ! n)" and "x \<in> set (take (length xs - (n + 1)) (drop (n + 1) ys)) \<Longrightarrow> key (ys ! n) \<le> key x"
proof -
  have m: "mset ys = mset xs" and lo: "\<forall>i < n. key (ys ! i) \<le> key (ys ! n)" and hi: "\<forall>j. n < j \<and> j < length xs \<longrightarrow> key (ys ! n) \<le> key (ys ! j)"
    using A n unfolding std_laws_def ys by blast+
  have len: "length ys = length xs" using mset_eq_length [OF m] .
  have rest: "take (length xs - (n + 1)) (drop (n + 1) ys) = drop (n + 1) ys" using len by simp
  have "ys = take n ys @ ys ! n # drop (n + 1) ys" using n len by (simp add: id_take_nth_drop)
  then have "mset ys = mset (take n ys @ ys ! n # drop (n + 1) ys)" by simp
  then show "mset xs = mset (take n ys) + {#ys ! n#} + mset (take (length xs - (n + 1)) (drop (n + 1) ys))" unfolding rest using m by simp
  show "key x \<le> key (ys ! n)" if "x \<in> set (take n ys)" using that lo n len by (auto simp: in_set_conv_nth)
  show "key (ys ! n) \<le> key x" if x: "x \<in> set (take (length xs - (n + 1)) (drop (n + 1) ys))"
  proof -
    obtain i where "i < length xs - (n + 1)" "x = ys ! (n + 1 + i)" using x len unfolding rest by (auto simp: in_set_conv_nth)
    then show ?thesis using hi by simp
  qed
qed

lemma kd_build_ok:
  assumes A: "std_laws A" and pts: "0 < nf" "\<forall>p \<in> set pts. length p = nf"
  shows "distinct idx \<Longrightarrow> set idx \<subseteq> {..<length pts} \<Longrightarrow> \<exists>t. kd_build A pts depth idx = Some t \<and> kd_indices t = set idx \<and> kd_ok pts nf t"
proof (induction "length idx" arbitrary: idx depth rule: less_induct)
  case less
  show ?case
  proof (cases "idx = []")
    case False
    then obtain i0 where "i0 < length pts" using less.prems(2) by (cases idx) auto
    then have n0: "length (pts ! 0) = nf" using pts(2) by (cases pts) auto
    have len: "length (pts ! i) = nf" if "i \<in> set idx" for i using that less.prems(2) pts(2) by auto
    define sd where "sd = depth mod nf"
    define mid where "mid = length idx div 2"
    define ys where "ys = std_nth_element A (\<lambda>i. pts ! i ! sd) mid idx"
    define xl where "xl = take mid ys"
    define xr where "xr = take (length idx - (mid + 1)) (drop (mid + 1) ys)"
    have sd: "sd < nf" using pts(1) by (simp add: sd_def)
    have mid: "mid < length idx" using False by (simp add: mid_def)
    note P = nth_element_parts [OF A mid ys_def, folded xl_def xr_def]
    have mx: "mset idx = mset (xl @ ys ! mid # xr)" using P(1) by simp
    have d: "distinct (xl @ ys ! mid # xr)" using less.prems(1) mset_eq_imp_distinct_iff [OF mx] by simp
    have st: "set idx = set xl \<union> insert (ys ! mid) (set xr)" using mset_eq_setD [OF mx] by simp
    have "length xl < length idx" "length xr < length idx" using mid by (auto simp: xl_def xr_def)
    then obtain l r where lr: "kd_build A pts (depth + 1) xl = Some l" "kd_indices l = set xl" "kd_ok pts nf l"
      "kd_build A pts (depth + 1) xr = Some r" "kd_indices r = set xr" "kd_ok pts nf r"
      using less.hyps [of xl "depth + 1"] less.hyps [of xr "depth + 1"] d st less.prems(2) by auto
    have no: "\<not> list_ex (\<lambda>i. length (pts ! i) \<le> sd) idx" using len sd by (simp add: list_ex_iff)
    have "kd_build A pts depth idx = Some (KNode sd (ys ! mid) l r)"
      unfolding kd_build.simps [of A pts depth idx] using False n0 pts(1) no lr(1) lr(4) [unfolded xr_def]
      by (simp add: Let_def flip: sd_def mid_def ys_def xl_def del: kd_build.simps)
    moreover have "kd_ok pts nf (KNode sd (ys ! mid) l r)" using lr sd d P(2,3) len [of "ys ! mid"] st by auto
    moreover have "kd_indices (KNode sd (ys ! mid) l r) = set idx" using lr(2,5) st by auto
    ultimately show ?thesis by blast
  qed simp
qed

lemma k_best_empty: "k_best D k {} []"
  by (simp add: k_best_def)

lemma heap_to_sorted_best:
  assumes "std_laws A" "k_best D k S h"
  shows "k_best D k S (heap_to_sorted A h) \<and> sorted (map nb_dist_sq (heap_to_sorted A h))"
  using assms k_best_mset [of "std_sort A h" h] unfolding heap_to_sorted_def std_laws_def by blast

lemma kd_query_best:
  assumes A: "std_laws A" and k: "0 < k" and pts: "0 < length q" "\<forall>p \<in> set pts. length p = length q"
  shows "\<exists>t nn v. KDTree A pts = Some t \<and> kd_query_knn A pts t q (int k) = Some (nn, v) \<and> sorted (map nb_dist_sq nn) \<and>
    k_best (\<lambda>j. ssq (pts ! j) q) k {..<length pts} nn \<and> v \<le> length pts"
proof -
  obtain t where t: "KDTree A pts = Some t" "kd_indices t = {..<length pts}" "kd_ok pts (length q) t"
    using kd_build_ok [OF A pts, of "[0..<length pts]" 0] unfolding KDTree_def by (auto simp: lessThan_atLeast0 del: kd_build.simps)
  have heap: "is_heap []" by (simp add: is_heap_def)
  obtain h v where "kd_search A pts q (int k) t ([], 0) = Some (h, v)" "k_best (\<lambda>j. ssq (pts ! j) q) k {..<length pts} h" "v \<le> length pts"
    using kd_search_best [OF A k t(3) heap k_best_empty, of 0] t(2) by auto
  then show ?thesis using t(1) heap_to_sorted_best [OF A] by (auto simp: kd_query_knn_def)
qed

subsection \<open>Ball tree\<close>

fun ball_indices :: "ball_node \<Rightarrow> nat set" where
  "ball_indices (BLeaf c r idx) = set idx"
| "ball_indices (BNode c r a b) = ball_indices a \<union> ball_indices b"

text \<open>Every point below a node lies in its ball.\<close>

definition in_ball :: "real list list \<Rightarrow> nat \<Rightarrow> real list \<Rightarrow> real \<Rightarrow> nat set \<Rightarrow> bool" where
  "in_ball pts nf c r J \<longleftrightarrow> length c = nf \<and> (\<forall>j \<in> J. length (pts ! j) = nf \<and> sqrt (ssq c (pts ! j)) \<le> r)"

fun ball_ok :: "real list list \<Rightarrow> nat \<Rightarrow> ball_node \<Rightarrow> bool" where
  "ball_ok pts nf (BLeaf c r idx) \<longleftrightarrow> in_ball pts nf c r (set idx) \<and> distinct idx"
| "ball_ok pts nf (BNode c r a b) \<longleftrightarrow> in_ball pts nf c r (ball_indices a \<union> ball_indices b) \<and> ball_indices a \<inter> ball_indices b = {} \<and> ball_ok pts nf a \<and> ball_ok pts nf b"

lemma finite_ball_indices [simp]: "finite (ball_indices t)"
  by (induction t) simp_all

lemma ball_center_length: "ball_ok pts nf t \<Longrightarrow> length (ball_center t) = nf"
  by (cases t) (simp_all add: in_ball_def)

lemma lower_bound_sq_le:
  assumes "in_ball pts (length q) c r J" "j \<in> J"
  shows "lower_bound_sq (sqrt (ssq c q)) r \<le> ssq (pts ! j) q"
proof -
  have "sqrt (ssq c q) \<le> sqrt (ssq c (pts ! j)) + sqrt (ssq (pts ! j) q)" using assms by (intro ssq_triangle) (auto simp: in_ball_def)
  then have lb: "sqrt (ssq c q) - r \<le> sqrt (ssq (pts ! j) q)" using assms by (auto simp: in_ball_def)
  show ?thesis
  proof (cases "sqrt (ssq c q) - r > 0")
    case True
    then have "(sqrt (ssq c q) - r)\<^sup>2 \<le> (sqrt (ssq (pts ! j) q))\<^sup>2" using lb by (intro power_mono) simp_all
    then show ?thesis using True by (simp add: lower_bound_sq_def power2_eq_square Let_def)
  qed (simp add: lower_bound_sq_def)
qed

lemma offer_all_best:
  assumes A: "std_laws A" and k: "0 < k"
  shows "is_heap h \<Longrightarrow> k_best (\<lambda>j. ssq (pts ! j) q) k S h \<Longrightarrow> finite S \<Longrightarrow> distinct idx \<Longrightarrow> S \<inter> set idx = {} \<Longrightarrow> \<forall>j \<in> set idx. length (pts ! j) = length q \<Longrightarrow>
    \<exists>h'. offer_all A pts q (int k) idx h = Some h' \<and> is_heap h' \<and> k_best (\<lambda>j. ssq (pts ! j) q) k (S \<union> set idx) h'"
proof (induction idx arbitrary: h S)
  case (Cons i idx)
  obtain h1 where h1: "offer A h (int k) i (ssq (pts ! i) q) = Some h1" "is_heap h1" "k_best (\<lambda>j. ssq (pts ! j) q) k (insert i S) h1"
    using offer_best [OF A Cons.prems(1,2,3) _ k, of i] Cons.prems(5) by auto
  then show ?case using Cons.IH [OF h1(2,3)] Cons.prems by auto
qed simp

lemma search_exact_best:
  assumes A: "std_laws A" and k: "0 < k"
  shows "ball_ok pts (length q) t \<Longrightarrow> is_heap h \<Longrightarrow> k_best (\<lambda>j. ssq (pts ! j) q) k S h \<Longrightarrow> finite S \<Longrightarrow> S \<inter> ball_indices t = {} \<Longrightarrow>
    \<exists>h' v'. search_exact A pts q (int k) t (h, v) = Some (h', v') \<and> is_heap h' \<and> k_best (\<lambda>j. ssq (pts ! j) q) k (S \<union> ball_indices t) h'"
proof (induction t arbitrary: h v S)
  case (BLeaf c r idx)
  obtain b where b: "front_test h (int k) (\<lambda>front. lower_bound_sq (sqrt (ssq c q)) r > front) = Some b" using front_test_some [OF k] by blast
  show ?case
  proof (cases b)
    case True
    have "k_best (\<lambda>j. ssq (pts ! j) q) k (S \<union> set idx) h"
      using b True BLeaf.prems(1,4) k lower_bound_sq_le [of pts q c r "set idx"]
      by (intro prune_best [OF BLeaf.prems(2,3), where p = "\<lambda>front. lower_bound_sq (sqrt (ssq c q)) r > front"]) fastforce+
    then show ?thesis using b True BLeaf.prems(1,2) by (simp add: in_ball_def)
  next
    case False
    then show ?thesis using b BLeaf.prems(1) offer_all_best [OF A k BLeaf.prems(2,3,4), of idx] BLeaf.prems(5) by (auto simp: in_ball_def)
  qed
next
  case (BNode c r t1 t2)
  let ?D = "\<lambda>j. ssq (pts ! j) q"
  obtain b where b: "front_test h (int k) (\<lambda>front. lower_bound_sq (sqrt (ssq c q)) r > front) = Some b" using front_test_some [OF k] by blast
  have len: "length c = length q" "length (ball_center t1) = length q" "length (ball_center t2) = length q"
    using BNode.prems(1) ball_center_length by (auto simp: in_ball_def)
  show ?case
  proof (cases b)
    case True
    have "k_best ?D k (S \<union> (ball_indices t1 \<union> ball_indices t2)) h"
      using b True BNode.prems(1,4) k lower_bound_sq_le [of pts q c r "ball_indices t1 \<union> ball_indices t2"]
      by (intro prune_best [OF BNode.prems(2,3), where p = "\<lambda>front. lower_bound_sq (sqrt (ssq c q)) r > front"]) fastforce+
    then show ?thesis using b True BNode.prems(2) len by simp
  next
    case False
    have both: "\<exists>h2 v2 h' v'. search_exact A pts q (int k) u (h, v + 1) = Some (h2, v2) \<and> search_exact A pts q (int k) w (h2, v2) = Some (h', v') \<and>
        is_heap h' \<and> k_best ?D k (S \<union> (ball_indices t1 \<union> ball_indices t2)) h'" if "u = t1 \<and> w = t2 \<or> u = t2 \<and> w = t1" for u w
      using that
    proof (elim disjE conjE)
      assume uw: "u = t1" "w = t2"
      obtain h2 v2 where h2: "search_exact A pts q (int k) t1 (h, v + 1) = Some (h2, v2)" "is_heap h2" "k_best ?D k (S \<union> ball_indices t1) h2"
        using BNode.IH(1) [OF _ BNode.prems(2-4), of "v + 1"] BNode.prems(1,5) by auto
      then show ?thesis using uw BNode.IH(2) [OF _ h2(2,3), of v2] BNode.prems(1,4,5) by (auto simp: Un_assoc)
    next
      assume uw: "u = t2" "w = t1"
      obtain h2 v2 where h2: "search_exact A pts q (int k) t2 (h, v + 1) = Some (h2, v2)" "is_heap h2" "k_best ?D k (S \<union> ball_indices t2) h2"
        using BNode.IH(2) [OF _ BNode.prems(2-4), of "v + 1"] BNode.prems(1,5) by auto
      have "(S \<union> ball_indices t2) \<inter> ball_indices t1 = {}" "S \<union> (ball_indices t1 \<union> ball_indices t2) = S \<union> ball_indices t2 \<union> ball_indices t1"
        using BNode.prems(1,5) by auto
      then show ?thesis using uw h2(1) BNode.IH(1) [OF _ h2(2,3), of v2] BNode.prems(1,4) by auto
    qed
    show ?thesis
    proof (cases "ssq (ball_center t1) q \<le> ssq (ball_center t2) q")
      case True
      then show ?thesis using b False len both [of t1 t2] by auto
    next
      case F: False
      then show ?thesis using b False len both [of t2 t1] by auto
    qed
  qed
qed

lemma distances_ssq: "\<forall>i \<in> set idx. length a \<le> length (pts ! i) \<Longrightarrow> distances pts a idx = Some (map (\<lambda>i. ssq a (pts ! i)) idx)"
  by (induction idx) (simp_all add: distances_def)

lemma fold_max_ge: "r \<le> fold (\<lambda>d r. max r (sqrt d)) ds r" "d \<in> set ds \<Longrightarrow> sqrt d \<le> fold (\<lambda>d r. max r (sqrt d)) ds r"
proof (induction ds arbitrary: r)
  case (Cons x ds)
  { case 1 show ?case using Cons.IH(1) [of "max r (sqrt x)"] by simp }
  { case 2 then show ?case using Cons.IH(1) [of "max r (sqrt x)"] Cons.IH(2) [of "max r (sqrt x)"] by auto }
qed simp_all

lemma farthest_in:
  assumes "idx \<noteq> []"
  shows "farthest idx ds \<in> set idx"
proof -
  have "snd (fold (\<lambda>(i, d) (best, p). if d > best then (d, i) else (best, p)) (zip xs ds) (b, p)) \<in> insert p (set xs)" for xs ds b p
  proof (induction xs arbitrary: ds b p)
    case (Cons x xs)
    show ?case
    proof (cases ds)
      case ds: (Cons d ds')
      show ?thesis using Cons.IH [of ds' d x] Cons.IH [of ds' b p] by (auto simp: ds)
    qed simp
  qed simp
  from this [of idx ds "-1" "hd idx"] show ?thesis unfolding farthest_def insert_absorb [OF hd_in_set [OF assms]] .
qed

lemma ball_build_ok:
  assumes A: "std_laws A" and pts: "\<forall>p \<in> set pts. length p = nf" and leaf: "1 \<le> leaf"
  shows "distinct idx \<Longrightarrow> idx \<noteq> [] \<Longrightarrow> set idx \<subseteq> {..<length pts} \<Longrightarrow> \<exists>t. ball_build A pts leaf idx = Some t \<and> ball_indices t = set idx \<and> ball_ok pts nf t"
proof (induction "length idx" arbitrary: idx rule: less_induct)
  case less
  have ne: "pts \<noteq> []" using less.prems(2,3) by (cases idx) auto
  then have n0: "length (pts ! 0) = nf" using pts by (cases pts) auto
  have len: "length (pts ! i) = nf" if "i \<in> set idx" for i using that less.prems(3) pts by auto
  define c where "c = centroid pts nf idx"
  define ds where "ds = map (\<lambda>i. ssq c (pts ! i)) idx"
  define r where "r = fold (\<lambda>d r. max r (sqrt d)) ds 0"
  have c: "length c = nf" by (simp add: c_def centroid_def)
  have dist: "distances pts a idx = Some (map (\<lambda>i. ssq a (pts ! i)) idx)" if "length a = nf" for a using that len by (intro distances_ssq) simp
  have ball: "in_ball pts nf c r (set idx)" using c len fold_max_ge(2) [of _ ds 0] by (auto simp: in_ball_def r_def ds_def)
  have ok: "\<not> (pts = [] \<or> idx = [] \<or> list_ex (\<lambda>i. length (pts ! i) < nf) idx)" using ne less.prems(2) len by (auto simp: list_ex_iff)
  show ?case
  proof (cases "int (length idx) \<le> leaf")
    case True
    have "ball_build A pts leaf idx = Some (BLeaf c r idx)"
      unfolding ball_build.simps [of A pts leaf idx] if_not_P [OF ok] n0 using True dist [OF c] by (simp add: Let_def r_def ds_def flip: c_def del: ball_build.simps)
    then show ?thesis using ball less.prems(1) by simp
  next
    case False
    then have two: "\<not> length idx < 2" using leaf by linarith
    define p1 where "p1 = farthest idx ds"
    define ds1 where "ds1 = map (\<lambda>i. ssq (pts ! p1) (pts ! i)) idx"
    define p2 where "p2 = farthest idx ds1"
    define ys where "ys = std_partition A (nearer pts p1 p2) idx"
    define m where "m = length (filter (nearer pts p1 p2) idx)"
    define mid where "mid = (if m = 0 \<or> m = length idx then length idx div 2 else m)"
    define xl where "xl = take mid ys"
    define xr where "xr = take (length idx - mid) (drop mid ys)"
    have p: "length (pts ! p1) = nf" "length (pts ! p2) = nf" using farthest_in [OF less.prems(2)] len by (simp_all add: p1_def p2_def)
    have mid: "0 < mid" "mid < length idx" using two length_filter_le [of "nearer pts p1 p2" idx] by (auto simp: mid_def m_def le_neq_implies_less)
    have my: "mset ys = mset idx" using A unfolding std_laws_def ys_def by blast
    have ly: "length ys = length idx" using mset_eq_length [OF my] .
    then have xr: "xr = drop mid ys" by (simp add: xr_def)
    have mx: "mset idx = mset (xl @ xr)" unfolding xr xl_def using my by simp
    have d: "distinct (xl @ xr)" using less.prems(1) mset_eq_imp_distinct_iff [OF mx] by simp
    have st: "set idx = set xl \<union> set xr" using mset_eq_setD [OF mx] by simp
    have "length xl < length idx" "length xr < length idx" "xl \<noteq> []" "xr \<noteq> []" using mid ly two by (auto simp: xl_def xr)
    then obtain l r' where lr: "ball_build A pts leaf xl = Some l" "ball_indices l = set xl" "ball_ok pts nf l"
      "ball_build A pts leaf xr = Some r'" "ball_indices r' = set xr" "ball_ok pts nf r'"
      using less.hyps [of xl] less.hyps [of xr] d st less.prems(3) by auto
    have "ball_build A pts leaf idx = Some (BNode c r l r')"
      unfolding ball_build.simps [of A pts leaf idx] if_not_P [OF ok] n0 c_def [symmetric] dist [OF c] ds_def [symmetric] Let_def Option.bind.simps
        if_not_P [OF False] if_not_P [OF two] p1_def [symmetric] dist [OF p(1)] ds1_def [symmetric] p2_def [symmetric] dist [OF p(2)]
        ys_def [symmetric] m_def [symmetric] mid_def [symmetric] xl_def [symmetric] xr_def [symmetric] lr(1,4) r_def [symmetric] ..
    then show ?thesis using lr ball d st by auto
  qed
qed

lemma ball_query_best:
  assumes A: "std_laws A" and k: "0 < k" and pts: "pts \<noteq> []" "\<forall>p \<in> set pts. length p = length q" and leaf: "1 \<le> leaf"
  shows "\<exists>t nn v. BallTree A pts leaf = Some t \<and> ball_query_knn A pts t q (int k) False = Some (nn, v) \<and> sorted (map nb_dist_sq nn) \<and>
    k_best (\<lambda>j. ssq (pts ! j) q) k {..<length pts} nn"
proof -
  obtain t where t: "BallTree A pts leaf = Some t" "ball_indices t = {..<length pts}" "ball_ok pts (length q) t"
    using ball_build_ok [OF A pts(2) leaf, of "[0..<length pts]"] pts(1) unfolding BallTree_def by (auto simp: lessThan_atLeast0 del: ball_build.simps)
  have heap: "is_heap []" by (simp add: is_heap_def)
  obtain h v where "search_exact A pts q (int k) t ([], 0) = Some (h, v)" "k_best (\<lambda>j. ssq (pts ! j) q) k {..<length pts} h"
    using search_exact_best [OF A k t(3) heap k_best_empty, of 0] t(2) by auto
  then show ?thesis using t(1) heap_to_sorted_best [OF A] by (auto simp: ball_query_knn_def)
qed

text \<open>The defeatist search returns the nearest points of one leaf, at their true distances.\<close>

lemma search_defeatist_leaf:
  assumes A: "std_laws A" and k: "0 < k"
  shows "ball_ok pts (length q) t \<Longrightarrow> \<exists>J h v'. J \<subseteq> ball_indices t \<and> search_defeatist A pts q (int k) t ([], v) = Some (h, v') \<and> is_heap h \<and> k_best (\<lambda>j. ssq (pts ! j) q) k J h"
proof (induction t arbitrary: v)
  case (BLeaf c r idx)
  have heap: "is_heap []" by (simp add: is_heap_def)
  then show ?case using offer_all_best [OF A k heap k_best_empty, of idx pts q] BLeaf by (auto simp: in_ball_def)
next
  case (BNode c r t1 t2)
  have ok: "ball_ok pts (length q) t1" "ball_ok pts (length q) t2" using BNode.prems by simp_all
  have len: "length (ball_center t1) = length q" "length (ball_center t2) = length q" using ok ball_center_length by auto
  obtain u where u: "u \<in> {t1, t2}" "search_defeatist A pts q (int k) (BNode c r t1 t2) ([], v) = search_defeatist A pts q (int k) u ([], v + 1)"
    using len by (cases "ssq (ball_center t1) q \<le> ssq (ball_center t2) q") auto
  then show ?case using BNode.IH(1) [OF ok(1), of "v + 1"] BNode.IH(2) [OF ok(2), of "v + 1"] by auto
qed

section \<open>The vote\<close>

lemma vote_fold:
  fixes f :: "'a \<Rightarrow> int"
  assumes "fold (\<lambda>l (b, p). if f l > b then (f l, l) else (b, p)) xs (b0, p0) = (b, p)"
  shows "(b, p) = (b0, p0) \<and> (\<forall>x \<in> set xs. f x \<le> b0) \<or>
    (\<exists>ys zs. xs = ys @ p # zs \<and> b = f p \<and> b0 < b \<and> (\<forall>x \<in> set ys. f x < b) \<and> (\<forall>x \<in> set zs. f x \<le> b))"
  using assms
proof (induction xs arbitrary: b0 p0)
  case (Cons x xs)
  show ?case
  proof (cases "f x > b0")
    case True
    then consider "(b, p) = (f x, x)" "\<forall>y \<in> set xs. f y \<le> f x"
      | ys zs where "xs = ys @ p # zs" "b = f p" "f x < b" "\<forall>y \<in> set ys. f y < b" "\<forall>y \<in> set zs. f y \<le> b"
      using Cons by auto blast
    then show ?thesis
    proof cases
      case 1
      then have "x # xs = [] @ p # xs \<and> b = f p \<and> b0 < b \<and> (\<forall>x \<in> set []. f x < b) \<and> (\<forall>x \<in> set xs. f x \<le> b)" using True by simp
      then show ?thesis by blast
    next
      case 2
      then have "x # xs = (x # ys) @ p # zs \<and> b = f p \<and> b0 < b \<and> (\<forall>y \<in> set (x # ys). f y < b) \<and> (\<forall>x \<in> set zs. f x \<le> b)" using True by simp
      then show ?thesis by blast
    qed
  next
    case False
    then consider "(b, p) = (b0, p0)" "\<forall>y \<in> set xs. f y \<le> b0"
      | ys zs where "xs = ys @ p # zs" "b = f p" "b0 < b" "\<forall>y \<in> set ys. f y < b" "\<forall>y \<in> set zs. f y \<le> b"
      using Cons by auto blast
    then show ?thesis
    proof cases
      case 2
      then have "x # xs = (x # ys) @ p # zs \<and> b = f p \<and> b0 < b \<and> (\<forall>y \<in> set (x # ys). f y < b) \<and> (\<forall>x \<in> set zs. f x \<le> b)" using False by simp
      then show ?thesis by blast
    qed (use False in simp)
  qed
qed simp

text \<open>The winner has the most votes, and the labels met before it, nearer to the query, have fewer.\<close>

lemma majority_wins:
  assumes "labels \<noteq> []"
  shows "\<exists>ys zs. labels = ys @ majority labels # zs \<and> (\<forall>l \<in> set ys. count_list labels l < count_list labels (majority labels)) \<and>
    (\<forall>l \<in> set labels. count_list labels l \<le> count_list labels (majority labels))"
proof -
  let ?f = "\<lambda>l. int (count_list labels l)"
  obtain b p where bp: "fold (\<lambda>l (b, p). if ?f l > b then (?f l, l) else (b, p)) labels (-1, case labels of [] \<Rightarrow> 0 | l # _ \<Rightarrow> l) = (b, p)" by (rule prod.exhaust)
  have p: "majority labels = p" using bp by (simp add: majority_def)
  have "\<not> (\<forall>x \<in> set labels. ?f x \<le> -1)" using assms by (cases labels) auto
  then obtain ys zs where w: "labels = ys @ p # zs" "b = ?f p" "\<forall>x \<in> set ys. ?f x < b" "\<forall>x \<in> set zs. ?f x \<le> b"
    using vote_fold [OF bp] by blast
  have "set labels = set ys \<union> insert p (set zs)" by (subst w(1)) simp
  then have "\<forall>l \<in> set labels. ?f l \<le> ?f p" using w(2-4) by fastforce
  then have le: "\<forall>l \<in> set labels. count_list labels l \<le> count_list labels p" by simp
  have lt: "\<forall>l \<in> set ys. count_list labels l < count_list labels p" using w(2,3) by simp
  show ?thesis unfolding p using w(1) le lt by blast
qed

lemma those_map_Some: "\<forall>x \<in> set xs. f x = Some (g x) \<Longrightarrow> those (map f xs) = Some (map g xs)"
  by (induction xs) simp_all

lemma fit_neighbors_best:
  assumes A: "std_laws A" and k: "0 < k" "kp_k p = int k" and X: "X \<noteq> []" "\<forall>x \<in> set X. length x = length q" "0 < length q"
    and exact: "kp_structure p = KD_TREE \<or> \<not> kp_approximate p"
  shows "\<exists>c nn. knn_fit A (KNNClassifier p) X y = Some c \<and> kc_y_train c = y \<and> knn_neighbors A c q = Some nn \<and> sorted (map nb_dist_sq nn) \<and>
    k_best (\<lambda>j. ssq (X ! j) q) k {..<length X} nn"
proof (cases "kp_structure p")
  case KD_TREE
  then show ?thesis using kd_query_best [OF A k(1) X(3,2)] k(2)
    by (force simp: knn_fit_def KNNClassifier_def knn_neighbors_def Let_def)
next
  case BALL_TREE
  then show ?thesis using ball_query_best [OF A k(1) X(1,2), of 10] k(2) exact
    by (force simp: knn_fit_def KNNClassifier_def knn_neighbors_def Let_def)
qed

text \<open>
  C39. For training points of one positive dimension and \<open>k > 0\<close>, fitting succeeds, and a query of the KD-tree or of the ball tree
  in exact mode returns the \<open>k\<close> nearest training points (all of them when there are fewer), each once, with their squared
  distances, nearest first; the prediction is the label with the most votes among them, and every label met nearer to the
  query has fewer.
\<close>

theorem knn_exact:
  assumes A: "std_laws A" and k: "0 < k" "kp_k p = int k" and X: "X \<noteq> []" "length y = length X" "\<forall>x \<in> set X. length x = length q" "0 < length q"
    and exact: "kp_structure p = KD_TREE \<or> \<not> kp_approximate p"
  shows "\<exists>c nn labels ys zs. knn_fit A (KNNClassifier p) X y = Some c \<and> knn_neighbors A c q = Some nn \<and> sorted (map nb_dist_sq nn) \<and>
    k_best (\<lambda>j. ssq (X ! j) q) k {..<length X} nn \<and> labels = map (\<lambda>n. y ! nb_index n) nn \<and> knn_predict A c [q] = Some [majority labels] \<and>
    labels = ys @ majority labels # zs \<and> (\<forall>l \<in> set ys. count_list labels l < count_list labels (majority labels)) \<and>
    (\<forall>l \<in> set labels. count_list labels l \<le> count_list labels (majority labels))"
proof -
  obtain c nn where c: "knn_fit A (KNNClassifier p) X y = Some c" "kc_y_train c = y" "knn_neighbors A c q = Some nn" "sorted (map nb_dist_sq nn)"
    "k_best (\<lambda>j. ssq (X ! j) q) k {..<length X} nn"
    using fit_neighbors_best [OF A k X(1,3,4) exact] by blast
  let ?labels = "map (\<lambda>n. y ! nb_index n) nn"
  have "\<forall>n \<in> set nn. label_of c n = Some (y ! nb_index n)" using c(2,5) X(2) by (auto simp: label_of_def k_best_def)
  from those_map_Some [OF this] have "knn_predict A c [q] = Some [majority ?labels]" using c(3) by (simp add: knn_predict_def predict_row_def)
  moreover have "?labels \<noteq> []" using c(5) k(1) X(1) by (auto simp: k_best_def min_def split: if_splits)
  then obtain ys zs where "?labels = ys @ majority ?labels # zs" "\<forall>l \<in> set ys. count_list ?labels l < count_list ?labels (majority ?labels)"
    "\<forall>l \<in> set ?labels. count_list ?labels l \<le> count_list ?labels (majority ?labels)" using majority_wins by blast
  ultimately show ?thesis using c by blast
qed

text \<open>An instance of the standard library, and four points in the plane.\<close>

definition std_lists :: std_algos where
  "std_lists = \<lparr>std_nth_element = (\<lambda>key n xs. sort_key key xs), std_partition = (\<lambda>P xs. filter P xs @ filter (\<lambda>x. \<not> P x) xs),
     std_push_heap = (\<lambda>h. rev (sort_key nb_dist_sq h)), std_pop_heap = (\<lambda>h. rev (sort_key nb_dist_sq (tl h)) @ [hd h]), std_sort = sort_key nb_dist_sq\<rparr>"

lemma is_heap_descending: "is_heap (rev (sort_key nb_dist_sq h))"
proof -
  have "sorted (map nb_dist_sq (sort_key nb_dist_sq h))" by simp
  then have "rev (sort_key nb_dist_sq h) ! i = x \<Longrightarrow> rev (sort_key nb_dist_sq h) ! j = z \<Longrightarrow> j \<le> i \<Longrightarrow> i < length h \<Longrightarrow> nb_dist_sq x \<le> nb_dist_sq z" for i j x z
    by (auto simp: rev_nth sorted_iff_nth_mono)
  then show ?thesis unfolding is_heap_def by force
qed

lemma std_lists_laws: "std_laws std_lists"
proof -
  have "key (sort_key key xs ! i) \<le> key (sort_key key xs ! j)" if "i \<le> j" "j < length xs" for key :: "nat \<Rightarrow> real" and xs i j
    using that sorted_nth_mono [of "map key (sort_key key xs)" i j] by simp
  moreover have "takeWhile P (filter P xs @ filter (\<lambda>x. \<not> P x) xs) = filter P xs" for P and xs :: "nat list"
    by (induction xs) (auto simp: takeWhile_append takeWhile_eq_Nil_iff filter_empty_conv hd_conv_nth)
  moreover have "add_mset (hd h) (mset (tl h)) = mset h" if "h \<noteq> []" for h :: "neighbor list" using that by (cases h) simp_all
  ultimately show ?thesis unfolding std_laws_def std_lists_def using is_heap_descending by (auto simp: filter_filter multiset_partition [symmetric])
qed

definition plane :: "real list list" where
  "plane = [[0, 0], [3, 4], [1, 1], [6, 0]]"

theorem knn_exact_witness:
  "\<exists>c nn. knn_fit std_lists (KNNClassifier \<lparr>kp_k = 2, kp_structure = KD_TREE, kp_approximate = False\<rparr>) plane [7, 8, 8, 7] = Some c \<and>
    knn_neighbors std_lists c [2, 2] = Some nn \<and> sorted (map nb_dist_sq nn) \<and> k_best (\<lambda>j. ssq (plane ! j) [2, 2]) 2 {..<4} nn \<and> set nn \<noteq> {}"
proof -
  let ?p = "\<lparr>kp_k = 2, kp_structure = KD_TREE, kp_approximate = False\<rparr>"
  have "\<forall>x \<in> set plane. length x = length [2, 2 :: real]" "plane \<noteq> []" "length plane = 4" by (simp_all add: plane_def)
  then obtain c nn where "knn_fit std_lists (KNNClassifier ?p) plane [7, 8, 8, 7] = Some c" "knn_neighbors std_lists c [2, 2] = Some nn" "sorted (map nb_dist_sq nn)"
    "k_best (\<lambda>j. ssq (plane ! j) [2, 2]) 2 {..<4} nn"
    using knn_exact [OF std_lists_laws, of 2 ?p plane "[7, 8, 8, 7]" "[2, 2]"] by auto
  moreover from this(4) have "set nn \<noteq> {}" by (auto simp: k_best_def)
  ultimately show ?thesis by blast
qed

lemma kd_plane_evaluates:
  "Option.bind (KDTree std_lists plane) (\<lambda>t. map_option (\<lambda>(nn, v). (map nb_index nn, v)) (kd_query_knn std_lists plane t [2, 2] 2)) = Some ([2, 1], 4)"
  by code_simp

text \<open>
  With \<open>k = 0\<close> the first candidate reads the front of an empty heap; a \<open>leaf_size\<close> below 1 never lets \<open>build\<close> return.
\<close>

lemma knn_zero_reads_empty_heap:
  assumes "length (pts ! p) \<le> length q"
  shows "kd_query_knn A pts (KNode sd p l r) q 0 = None"
  using assms by (simp add: kd_query_knn_def offer_def)

lemma ball_leaf_size_zero: "leaf < 1 \<Longrightarrow> ball_build A pts leaf idx = None"
proof (induction "length idx" arbitrary: idx rule: less_induct)
  case less
  have half: "ball_build A pts leaf (take (length idx div 2) ys) = None" if "idx \<noteq> []" for ys
    using that less by (intro less.hyps) (auto simp: min_less_iff_disj)
  have part: "ball_build A pts leaf (take (length (filter P idx)) ys) = None" if "length (filter P idx) \<noteq> length idx" for P ys
    using that less by (intro less.hyps) (auto simp: min_less_iff_disj le_neq_implies_less)
  have "\<not> int (length idx) \<le> leaf" if "idx \<noteq> []" using that less.prems by (cases idx) auto
  then show ?case unfolding ball_build.simps [of A pts leaf idx] using half part
    by (auto simp: Let_def bind_eq_None_conv simp del: ball_build.simps)
qed

end
