(* ===== verification/Branchless.thy ===== *)
theory Branchless
  imports Prelude
begin

text \<open>
  \<open>cpu_engine/branchless/branchless.h\<close>. Integers of a width are words, read with \<open>sint\<close> where the C++ type is signed; a signed
  subtraction that overflows is undefined for types no narrower than \<open>int\<close>, the ones modelled, hence \<open>None\<close>. For \<open>float\<close> and \<open>double\<close> only the bit pattern that \<open>memcpy\<close> exposes is used.
\<close>

definition branchless_select :: "bool \<Rightarrow> 'a \<Rightarrow> 'a \<Rightarrow> 'a" where
  "branchless_select cond a b = (if cond then a else b)"

definition branchless_select_bits :: "bool \<Rightarrow> 'a::len word \<Rightarrow> 'a word \<Rightarrow> 'a word" where
  "branchless_select_bits cond a b = (let mask = - ((of_bool cond) AND 1) in (mask AND a) OR (NOT mask AND b))"

definition branchless_min :: "'a::ord \<Rightarrow> 'a \<Rightarrow> 'a" where
  "branchless_min a b = branchless_select (a < b) a b"

definition branchless_max :: "'a::ord \<Rightarrow> 'a \<Rightarrow> 'a" where
  "branchless_max a b = branchless_select (a > b) a b"

definition ssub :: "'a::len word \<Rightarrow> 'a word \<Rightarrow> 'a word option" where
  "ssub a b = (if sint (a - b) = sint a - sint b then Some (a - b) else None)"

definition branchless_abs :: "'a::len word \<Rightarrow> 'a word option" where
  "branchless_abs v = (let mask = signed_drop_bit (LENGTH('a) - 1) v in ssub (v XOR mask) mask)"

definition branchless_abs_float :: "u32 \<Rightarrow> u32" where
  "branchless_abs_float bits = bits AND 0x7FFFFFFF"

definition branchless_abs_double :: "u64 \<Rightarrow> u64" where
  "branchless_abs_double bits = bits AND 0x7FFFFFFFFFFFFFFF"

definition branchless_clamp :: "'a::ord \<Rightarrow> 'a \<Rightarrow> 'a \<Rightarrow> 'a" where
  "branchless_clamp v lo hi = branchless_min (branchless_max v lo) hi"

definition branchless_relu :: "'a::{ord,zero} \<Rightarrow> 'a" where
  "branchless_relu v = branchless_max v 0"

definition branchless_sign :: "int \<Rightarrow> int" where
  "branchless_sign v = of_bool (0 < v) - of_bool (v < 0)"

definition branchless_between :: "'a::len word \<Rightarrow> 'a word \<Rightarrow> 'a word \<Rightarrow> bool option" where
  "branchless_between v lo hi = (case (ssub v lo, ssub hi lo) of (Some a, Some b) \<Rightarrow> Some (unat a \<le> unat b) | _ \<Rightarrow> None)"

lemma select_bits_selects: "branchless_select_bits cond a b = branchless_select cond a b"
  by (cases cond) (simp_all add: branchless_select_bits_def branchless_select_def)

lemma branchless_min_max: "branchless_min a b = min a b" "branchless_max a b = max a b" for a b :: "'a::linorder"
  by (auto simp: branchless_min_def branchless_max_def branchless_select_def)

lemma branchless_relu_max: "branchless_relu v = max v 0" for v :: "'a::linordered_idom"
  by (simp add: branchless_relu_def branchless_min_max)

lemma branchless_sign_sgn: "branchless_sign v = sgn v"
  by (simp add: branchless_sign_def)

text \<open>The clamp is the formula of its comment when the bounds are in order; otherwise it is the upper bound, and the formula the lower.\<close>

lemma branchless_clamp_between:
  fixes v :: "'a::linorder"
  shows "lo \<le> hi \<Longrightarrow> branchless_clamp v lo hi = max lo (min v hi) \<and> lo \<le> branchless_clamp v lo hi \<and> branchless_clamp v lo hi \<le> hi"
    and "hi < lo \<Longrightarrow> branchless_clamp v lo hi = hi \<and> max lo (min v hi) = lo"
  by (auto simp: branchless_clamp_def branchless_min_max min_def max_def)

lemma shift_sign: "signed_drop_bit (LENGTH('a) - 1) v = (if sint v < 0 then - 1 else 0)" for v :: "'a::len word"
proof (rule bit_word_eqI)
  fix n
  assume "n < LENGTH('a)"
  then show "bit (signed_drop_bit (LENGTH('a) - 1) v) n \<longleftrightarrow> bit (if sint v < 0 then - 1 else 0 :: 'a word) n"
    by (cases "n = 0") (auto simp: bit_signed_drop_bit_iff bit_last_iff)
qed

lemma sint_bounds: "- (2 ^ (LENGTH('a) - 1)) \<le> sint v" "sint v < 2 ^ (LENGTH('a) - 1)" for v :: "'a::len word"
  using sint_greater_eq [of v] sint_less [of v] by simp_all

lemma sint_uminus: "sint v \<noteq> - (2 ^ (LENGTH('a) - 1)) \<Longrightarrow> sint (- v) = - sint v" for v :: "'a::len word"
proof -
  assume v: "sint v \<noteq> - (2 ^ (LENGTH('a) - 1))"
  have "- (2 ^ (LENGTH('a) - 1)) \<le> - sint v" using sint_bounds(2) [of v] by linarith
  moreover have "- sint v < 2 ^ (LENGTH('a) - 1)" using v sint_bounds(1) [of v] by linarith
  ultimately have "signed_take_bit (LENGTH('a) - 1) (- sint v) = - sint v" by (simp add: signed_take_bit_int_eq_self)
  then show ?thesis by (simp only: sint_word_minus)
qed

text \<open>The absolute value is exact but for the smallest integer, whose negation overflows.\<close>

lemma branchless_abs_exact:
  fixes v :: "'a::len word"
  shows "sint v = - (2 ^ (LENGTH('a) - 1)) \<Longrightarrow> branchless_abs v = None"
    and "sint v \<noteq> - (2 ^ (LENGTH('a) - 1)) \<Longrightarrow> \<exists>w. branchless_abs v = Some w \<and> sint w = \<bar>sint v\<bar>"
proof -
  have not: "NOT v = - 1 - v" by (simp add: not_eq_complement)
  have "- (2 ^ (LENGTH('a) - 1)) \<le> - 1 - sint v" "- 1 - sint v < 2 ^ (LENGTH('a) - 1)" using sint_bounds [of v] by linarith+
  then have "sint (NOT v) = - 1 - sint v" unfolding not sint_word_diff sint_n1 by (simp add: signed_take_bit_int_eq_self)
  then have neg: "NOT v - (- 1) = - v" "sint (NOT v) - (- 1) = - sint v" using not by simp_all
  have abs: "branchless_abs v = (if sint v < 0 then if sint (- v) = - sint v then Some (- v) else None else Some v)"
    unfolding branchless_abs_def shift_sign Let_def ssub_def using neg by (cases "sint v < 0") (simp_all only: if_True if_False bit.xor_one_right sint_n1, simp)
  show "branchless_abs v = None" if "sint v = - (2 ^ (LENGTH('a) - 1))" using that sint_bounds(2) [of "- v"] unfolding abs by auto
  show "\<exists>w. branchless_abs v = Some w \<and> sint w = \<bar>sint v\<bar>" if "sint v \<noteq> - (2 ^ (LENGTH('a) - 1))"
    using sint_uminus [OF that] unfolding abs by auto
qed

text \<open>The sign bit is cleared and no other.\<close>

lemma branchless_abs_float_clears:
  "bit (branchless_abs_float bits) n \<longleftrightarrow> bit bits n \<and> n < 31" "bit (branchless_abs_double bits') n \<longleftrightarrow> bit bits' n \<and> n < 63"
proof -
  have "(0x7FFFFFFF :: u32) = mask 31" "(0x7FFFFFFFFFFFFFFF :: u64) = mask 63" by (simp_all add: mask_eq_exp_minus_1)
  then show "bit (branchless_abs_float bits) n \<longleftrightarrow> bit bits n \<and> n < 31" "bit (branchless_abs_double bits') n \<longleftrightarrow> bit bits' n \<and> n < 63"
    unfolding branchless_abs_float_def branchless_abs_double_def by (simp_all only: bit_and_iff bit_mask_iff) auto
qed

text \<open>
  With the bounds in order, and no overflow, the unsigned comparison is the range check; with the bounds swapped it accepts
  values outside.
\<close>

lemma unat_signed_le:
  fixes a b :: "'a::len word"
  assumes "0 \<le> sint b"
  shows "unat a \<le> unat b \<longleftrightarrow> 0 \<le> sint a \<and> sint a \<le> sint b"
proof -
  have u: "uint w = sint w mod 2 ^ LENGTH('a)" for w :: "'a word" by (simp add: uint_sint take_bit_eq_mod)
  have half: "(2::int) ^ LENGTH('a) = 2 * 2 ^ (LENGTH('a) - 1)" by (simp flip: power_Suc)
  have pos: "uint w = sint w" if "0 \<le> sint w" for w :: "'a word" using that u [of w] sint_bounds(2) [of w] half by simp
  have neg: "uint w = sint w + 2 ^ LENGTH('a)" if w: "sint w < 0" for w :: "'a word"
  proof -
    have "(sint w + 2 ^ LENGTH('a)) mod 2 ^ LENGTH('a) = sint w + 2 ^ LENGTH('a)" using w sint_bounds(1) [of w] half by (intro mod_pos_pos_trivial) simp_all
    then show ?thesis using u [of w] by simp
  qed
  have "unat a \<le> unat b \<longleftrightarrow> uint a \<le> uint b" by (simp add: word_le_def flip: word_le_nat_alt)
  also have "\<dots> \<longleftrightarrow> 0 \<le> sint a \<and> sint a \<le> sint b"
    using pos [OF assms] pos [of a] neg [of a] sint_bounds(1) [of a] sint_bounds(2) [of b] half by (cases "sint a < 0") auto
  finally show ?thesis .
qed

lemma branchless_between_range:
  assumes "branchless_between v lo hi = Some r" "sint lo \<le> sint hi"
  shows "r \<longleftrightarrow> sint lo \<le> sint v \<and> sint v \<le> sint hi"
proof -
  have d: "sint (v - lo) = sint v - sint lo" "sint (hi - lo) = sint hi - sint lo" "r \<longleftrightarrow> unat (v - lo) \<le> unat (hi - lo)"
    using assms(1) by (auto simp: branchless_between_def ssub_def split: if_splits)
  have "0 \<le> sint (hi - lo)" using d(2) assms(2) by linarith
  from unat_signed_le [OF this, of "v - lo"] show ?thesis unfolding d by auto
qed

lemma branchless_between_swapped: "branchless_between (5 :: u32) 5 3 = Some True"
  by (simp add: branchless_between_def ssub_def sint_word_diff signed_take_bit_int_eq_self)

lemma branchless_between_overflow: "branchless_between (0x80000000 :: u32) 1 3 = None"
  by (simp add: branchless_between_def ssub_def sint_word_diff)

end
