(* ===== verification/Coro.thy ===== *)
theory Coro
  imports Prelude
begin

text \<open>
  \<open>foundation/coro/coro.h\<close>: tasks, the awaitable event and the awaitable mutex. A coroutine body is the tree of its suspension
  points; a frame keeps the promise (\<open>continuation_\<close>, \<open>result_\<close>) and where the body stands. Event and mutex are split at their
  atomic accesses and any coroutine may move next, which covers inline resumption and every schedule of the pool.
\<close>

section \<open>Tasks\<close>

text \<open>
  \<open>Await b k\<close>: the body creates a task with body \<open>b\<close>, awaits it and goes on as \<open>k\<close> of the outcome; \<open>k\<close> of an exception is the
  handler of the body, \<open>Throw e\<close> where there is none.
\<close>

datatype ('v, 'e) body = Return 'v | Throw 'e | Await "('v, 'e) body" "'e + 'v \<Rightarrow> ('v, 'e) body"

datatype ('v, 'e) point = At "('v, 'e) body" | Awaiting nat "'e + 'v \<Rightarrow> ('v, 'e) body" | Final

datatype ('v, 'e) task_result = NotComplete | HasValue 'v | HasException 'e

record ('v, 'e) frame =
  fr_point :: "('v, 'e) point"
  fr_continuation :: "nat option"
  fr_result :: "('v, 'e) task_result"
  fr_alive :: bool

text \<open>The frames, by address, and the coroutine that runs; \<open>None\<close> is \<open>noop_coroutine\<close>, control is back with the resumer.\<close>

record ('v, 'e) coro_machine =
  cm_frames :: "('v, 'e) frame list"
  cm_running :: "nat option"

definition new_task :: "('v, 'e) body \<Rightarrow> ('v, 'e) frame" where
  "new_task b = \<lparr>fr_point = At b, fr_continuation = None, fr_result = NotComplete, fr_alive = True\<rparr>"

text \<open>\<open>co_await task\<close>: \<open>await_suspend\<close> stores the caller in the task and transfers to it.\<close>

definition co_await :: "nat \<Rightarrow> ('v, 'e) body \<Rightarrow> ('e + 'v \<Rightarrow> ('v, 'e) body) \<Rightarrow> ('v, 'e) coro_machine \<Rightarrow> ('v, 'e) coro_machine" where
  "co_await c b k m = (let fs = cm_frames m; t = length fs in
     \<lparr>cm_frames = fs[c := (fs ! c)\<lparr>fr_point := Awaiting t k\<rparr>] @ [(new_task b)\<lparr>fr_continuation := Some c\<rparr>], cm_running = Some t\<rparr>)"

text \<open>\<open>return_value\<close> or \<open>unhandled_exception\<close>, then \<open>FinalAwaiter::await_suspend\<close>.\<close>

definition final_suspend :: "nat \<Rightarrow> ('v, 'e) task_result \<Rightarrow> ('v, 'e) coro_machine \<Rightarrow> ('v, 'e) coro_machine" where
  "final_suspend c r m = (let fs = cm_frames m in
     m\<lparr>cm_frames := fs[c := (fs ! c)\<lparr>fr_point := Final, fr_result := r\<rparr>], cm_running := fr_continuation (fs ! c)\<rparr>)"

text \<open>\<open>await_resume\<close>; a result that is not there makes \<open>std::get\<close> throw.\<close>

fun await_resume :: "('v, 'e) task_result \<Rightarrow> ('e + 'v) option" where
  "await_resume (HasException e) = Some (Inl e)"
| "await_resume (HasValue v) = Some (Inr v)"
| "await_resume NotComplete = None"

text \<open>The awaiting coroutine reads the result, the task object dies with the full expression and the body goes on.\<close>

definition resume_await :: "nat \<Rightarrow> nat \<Rightarrow> ('e + 'v \<Rightarrow> ('v, 'e) body) \<Rightarrow> ('v, 'e) coro_machine \<Rightarrow> ('v, 'e) coro_machine option" where
  "resume_await c t k m = (let fs = cm_frames m in
     if t < length fs \<and> fr_alive (fs ! t) then
       (case await_resume (fr_result (fs ! t)) of None \<Rightarrow> None
        | Some r \<Rightarrow> Some (m\<lparr>cm_frames := (fs[t := (fs ! t)\<lparr>fr_alive := False\<rparr>])[c := (fs ! c)\<lparr>fr_point := At (k r)\<rparr>]\<rparr>))
     else None)"

text \<open>One move of the running coroutine; resuming a frame that is destroyed or finished is undefined.\<close>

definition coro_step :: "('v, 'e) coro_machine \<Rightarrow> ('v, 'e) coro_machine option" where
  "coro_step m = (case cm_running m of None \<Rightarrow> None
     | Some c \<Rightarrow> if c < length (cm_frames m) \<and> fr_alive (cm_frames m ! c) then
         (case fr_point (cm_frames m ! c) of
            At (Return v) \<Rightarrow> Some (final_suspend c (HasValue v) m)
          | At (Throw e) \<Rightarrow> Some (final_suspend c (HasException e) m)
          | At (Await b k) \<Rightarrow> Some (co_await c b k m)
          | Awaiting t k \<Rightarrow> resume_await c t k m
          | Final \<Rightarrow> None)
       else None)"

fun coro_steps :: "nat \<Rightarrow> ('v, 'e) coro_machine \<Rightarrow> ('v, 'e) coro_machine option" where
  "coro_steps 0 m = Some m"
| "coro_steps (Suc n) m = Option.bind (coro_step m) (coro_steps n)"

text \<open>\<open>raw_handle().resume()\<close> of a fresh root task.\<close>

definition start_task :: "('v, 'e) body \<Rightarrow> ('v, 'e) coro_machine" where
  "start_task b = \<lparr>cm_frames = [new_task b], cm_running = Some 0\<rparr>"

text \<open>What the body means when awaiting is calling.\<close>

primrec outcome :: "('v, 'e) body \<Rightarrow> 'e + 'v" where
  "outcome (Return v) = Inr v"
| "outcome (Throw e) = Inl e"
| "outcome (Await b k) = (outcome \<circ> k) (outcome b)"

definition as_result :: "'e + 'v \<Rightarrow> ('v, 'e) task_result" where
  "as_result r = (case r of Inl e \<Rightarrow> HasException e | Inr v \<Rightarrow> HasValue v)"

lemma await_resume_result: "await_resume (as_result r) = Some r"
  by (cases r) (simp_all add: as_result_def)

lemma coro_steps_append: "coro_steps n m = Some m' \<Longrightarrow> coro_steps (n + n') m = coro_steps n' m'"
  by (induction n arbitrary: m) (auto simp: bind_eq_Some_conv)

text \<open>
  A coroutine that stands at a body finishes it: its result is the outcome of the body, control is with its continuation, the other
  frames are as before, and the frames made on the way are dead.
\<close>

lemma coro_finishes:
  assumes "cm_running m = Some c" "c < length (cm_frames m)" "cm_frames m ! c = \<lparr>fr_point = At b, fr_continuation = k, fr_result = NotComplete, fr_alive = True\<rparr>"
  shows "\<exists>n fs. coro_steps n m = Some \<lparr>cm_frames = (cm_frames m)[c := \<lparr>fr_point = Final, fr_continuation = k, fr_result = as_result (outcome b), fr_alive = True\<rparr>] @ fs, cm_running = k\<rparr> \<and>
    (\<forall>f \<in> set fs. \<not> fr_alive f)"
  using assms
proof (induction b arbitrary: m c k)
  case (Return v)
  then have "coro_steps 1 m = Some \<lparr>cm_frames = (cm_frames m)[c := \<lparr>fr_point = Final, fr_continuation = k, fr_result = HasValue v, fr_alive = True\<rparr>] @ [], cm_running = k\<rparr>"
    by (simp add: coro_step_def final_suspend_def Let_def)
  then show ?case unfolding as_result_def by (intro exI [of _ 1] exI [of _ "[]"]) simp
next
  case (Throw e)
  then have "coro_steps 1 m = Some \<lparr>cm_frames = (cm_frames m)[c := \<lparr>fr_point = Final, fr_continuation = k, fr_result = HasException e, fr_alive = True\<rparr>] @ [], cm_running = k\<rparr>"
    by (simp add: coro_step_def final_suspend_def Let_def)
  then show ?case unfolding as_result_def by (intro exI [of _ 1] exI [of _ "[]"]) simp
next
  case (Await b g)
  let ?fs = "cm_frames m" and ?t = "length (cm_frames m)" and ?r = "outcome b"
  let ?wait = "\<lparr>fr_point = Awaiting ?t g, fr_continuation = k, fr_result = NotComplete, fr_alive = True\<rparr>"
  let ?m1 = "\<lparr>cm_frames = ?fs[c := ?wait] @ [\<lparr>fr_point = At b, fr_continuation = Some c, fr_result = NotComplete, fr_alive = True\<rparr>], cm_running = Some ?t\<rparr>"
  have s1: "coro_steps 1 m = Some ?m1" using Await.prems by (simp add: coro_step_def co_await_def new_task_def Let_def)
  let ?done = "\<lparr>fr_point = Final, fr_continuation = Some c, fr_result = as_result ?r, fr_alive = True\<rparr>"
  obtain n fs where n: "coro_steps n ?m1 = Some \<lparr>cm_frames = (?fs[c := ?wait] @ [?done]) @ fs, cm_running = Some c\<rparr>" "\<forall>f \<in> set fs. \<not> fr_alive f"
    using Await.IH(1) [of ?m1 ?t "Some c"] by (auto simp: nth_append list_update_append)
  let ?m2 = "\<lparr>cm_frames = (?fs[c := ?wait] @ [?done]) @ fs, cm_running = Some c\<rparr>"
  let ?here = "\<lparr>fr_point = At (g ?r), fr_continuation = k, fr_result = NotComplete, fr_alive = True\<rparr>"
  let ?m3 = "\<lparr>cm_frames = ?fs[c := ?here] @ ?done\<lparr>fr_alive := False\<rparr> # fs, cm_running = Some c\<rparr>"
  have s3: "coro_steps 1 ?m2 = Some ?m3" using Await.prems(2)
    by (simp add: coro_step_def resume_await_def Let_def nth_append await_resume_result list_update_append)
  obtain n' fs' where n': "coro_steps n' ?m3 = Some \<lparr>cm_frames = ?fs[c := \<lparr>fr_point = Final, fr_continuation = k, fr_result = as_result (outcome (g ?r)), fr_alive = True\<rparr>]
      @ ?done\<lparr>fr_alive := False\<rparr> # fs @ fs', cm_running = k\<rparr>" "\<forall>f \<in> set fs'. \<not> fr_alive f"
    using Await.IH(2) [of "g ?r" ?m3 c k] Await.prems(2) by (auto simp: nth_append list_update_append)
  have "coro_steps (1 + (n + (1 + n'))) m = coro_steps n' ?m3"
    using coro_steps_append [OF s1] coro_steps_append [OF n(1)] coro_steps_append [OF s3] by (simp only:)
  then show ?case using n' n(2) by (intro exI [of _ "1 + (n + (1 + n'))"] exI [of _ "?done\<lparr>fr_alive := False\<rparr> # fs @ fs'"]) auto
qed

text \<open>
  C17. A root task that is started runs to its end, without resuming a destroyed or finished frame and without reading a result that is
  not there. Its result is the outcome of its body when awaiting is read as calling, exceptions included; only its own frame is left.
\<close>

theorem task_runs_to_outcome:
  "\<exists>n fs. coro_steps n (start_task b) = Some \<lparr>cm_frames = \<lparr>fr_point = Final, fr_continuation = None, fr_result = as_result (outcome b), fr_alive = True\<rparr> # fs, cm_running = None\<rparr> \<and>
    filter fr_alive fs = []"
  using coro_finishes [of "start_task b" 0 b None] by (simp add: start_task_def new_task_def filter_empty_conv)

text \<open>A task awaits one that throws, handles the exception and returns.\<close>

lemma task_handles_exception:
  "map_option (\<lambda>m. (fr_result (cm_frames m ! 0), cm_running m, map fr_alive (cm_frames m)))
     (coro_steps 4 (start_task (Await (Throw (7 :: nat)) (case_sum (\<lambda>e. Return (e + 1)) Return)))) = Some (HasValue 8, None, [True, False])"
  by code_simp

section \<open>The awaitable event\<close>

datatype event_state = kNotSet | kSet | Handle nat

datatype event_pc = VIdle | VSuspend | VWaiting | VPassed

text \<open>\<open>ev_sets\<close> counts the calls of \<open>set\<close>, \<open>ev_resumes\<close> the resumptions of each coroutine.\<close>

record awaitable_event =
  ev_state :: event_state
  ev_pc :: "nat \<Rightarrow> event_pc"
  ev_sets :: nat
  ev_resumes :: "nat \<Rightarrow> nat"

definition event_new :: awaitable_event where
  "event_new = \<lparr>ev_state = kNotSet, ev_pc = (\<lambda>_. VIdle), ev_sets = 0, ev_resumes = (\<lambda>_. 0)\<rparr>"

definition event_set :: "awaitable_event \<Rightarrow> awaitable_event" where
  "event_set s = (let s' = s\<lparr>ev_state := kSet, ev_sets := ev_sets s + 1\<rparr> in
     case ev_state s of Handle c \<Rightarrow> s'\<lparr>ev_pc := (ev_pc s)(c := VPassed), ev_resumes := (ev_resumes s)(c := ev_resumes s c + 1)\<rparr> | _ \<Rightarrow> s')"

definition event_await_ready :: "nat \<Rightarrow> awaitable_event \<Rightarrow> awaitable_event" where
  "event_await_ready c s = s\<lparr>ev_pc := (ev_pc s)(c := if ev_state s = kSet then VPassed else VSuspend)\<rparr>"

definition event_await_suspend :: "nat \<Rightarrow> awaitable_event \<Rightarrow> awaitable_event" where
  "event_await_suspend c s = (if ev_state s = kNotSet then s\<lparr>ev_state := Handle c, ev_pc := (ev_pc s)(c := VWaiting)\<rparr>
     else s\<lparr>ev_pc := (ev_pc s)(c := VPassed)\<rparr>)"

text \<open>A move: \<open>None\<close> is a call of \<open>set\<close>, \<open>Some c\<close> the next access of coroutine \<open>c\<close>, which awaits the event once.\<close>

definition event_step :: "nat option \<Rightarrow> awaitable_event \<Rightarrow> awaitable_event option" where
  "event_step a s = (case a of None \<Rightarrow> Some (event_set s)
     | Some c \<Rightarrow> (case ev_pc s c of VIdle \<Rightarrow> Some (event_await_ready c s) | VSuspend \<Rightarrow> Some (event_await_suspend c s) | _ \<Rightarrow> None))"

fun event_run :: "nat option list \<Rightarrow> awaitable_event \<Rightarrow> awaitable_event option" where
  "event_run [] s = Some s"
| "event_run (a # as) s = Option.bind (event_step a s) (event_run as)"

definition event_inv :: "nat \<Rightarrow> awaitable_event \<Rightarrow> bool" where
  "event_inv c s \<longleftrightarrow> (\<forall>u. u \<noteq> c \<longrightarrow> ev_pc s u = VIdle) \<and> (ev_state s = kSet \<longleftrightarrow> 0 < ev_sets s) \<and> (\<forall>u. ev_state s = Handle u \<longrightarrow> u = c) \<and>
     (ev_state s = Handle c \<longleftrightarrow> ev_pc s c = VWaiting) \<and> (ev_pc s c = VPassed \<longrightarrow> 0 < ev_sets s) \<and> ev_resumes s c \<le> 1 \<and> (ev_pc s c \<noteq> VPassed \<longrightarrow> ev_resumes s c = 0)"

lemma event_step_inv:
  assumes inv: "event_inv c s" and step: "event_step a s = Some s'" and a: "set_option a \<subseteq> {c}"
  shows "event_inv c s'"
proof (cases a)
  case None
  then have s': "s' = event_set s" using step by (simp add: event_step_def)
  show ?thesis
  proof (cases "ev_state s")
    case (Handle u)
    then have "u = c" using inv by (simp add: event_inv_def)
    then show ?thesis using inv Handle by (simp add: s' event_set_def event_inv_def)
  qed (use inv in \<open>simp_all add: s' event_set_def event_inv_def\<close>)
next
  case (Some u)
  then have u: "u = c" using a by simp
  then consider "ev_pc s c = VIdle" "s' = event_await_ready c s" | "ev_pc s c = VSuspend" "s' = event_await_suspend c s"
    using step Some by (auto simp: event_step_def split: event_pc.splits)
  then show ?thesis
  proof cases
    case 1
    then show ?thesis using inv by (cases "ev_state s = kSet") (simp_all add: event_await_ready_def event_inv_def)
  next
    case 2
    have nh: False if h: "ev_state s = Handle v" for v
    proof -
      have "v = c" using inv h by (simp add: event_inv_def)
      then have "ev_pc s c = VWaiting" using inv h unfolding event_inv_def by blast
      then show False using 2(1) by simp
    qed
    show ?thesis
    proof (cases "ev_state s")
      case (Handle v)
      then show ?thesis using nh by blast
    qed (use inv 2 in \<open>simp_all add: event_await_suspend_def event_inv_def\<close>)
  qed
qed

lemma event_run_inv: "event_run moves s0 = Some s \<Longrightarrow> event_inv c s0 \<Longrightarrow> \<forall>a \<in> set moves. set_option a \<subseteq> {c} \<Longrightarrow> event_inv c s"
proof (induction moves arbitrary: s0)
  case (Cons a moves)
  obtain s1 where s1: "event_step a s0 = Some s1" "event_run moves s1 = Some s" using Cons.prems(1) by (auto simp: bind_eq_Some_conv)
  have "event_inv c s1" by (rule event_step_inv [OF Cons.prems(2) s1(1)]) (use Cons.prems(3) in simp)
  then show ?case using Cons.IH [OF s1(2)] Cons.prems(3) by simp
qed simp

text \<open>
  With one awaiting coroutine the event does what it promises: the coroutine goes on only after a call of \<open>set\<close>, it is resumed at most
  once, and once \<open>set\<close> has been called it does not wait.
\<close>

lemma event_one_waiter:
  assumes "event_run moves event_new = Some s" "\<forall>a \<in> set moves. set_option a \<subseteq> {c}"
  shows "(ev_pc s c = VPassed \<longrightarrow> 0 < ev_sets s) \<and> ev_resumes s c \<le> 1 \<and> (0 < ev_sets s \<longrightarrow> ev_pc s c \<noteq> VWaiting)"
proof -
  have inv: "event_inv c s" by (rule event_run_inv [OF assms(1) _ assms(2)]) (simp add: event_inv_def event_new_def)
  then have "0 < ev_sets s \<Longrightarrow> ev_state s = kSet" "ev_pc s c = VWaiting \<Longrightarrow> ev_state s = Handle c" unfolding event_inv_def by blast+
  then have "\<not> (0 < ev_sets s \<and> ev_pc s c = VWaiting)" by fastforce
  moreover have "ev_pc s c = VPassed \<Longrightarrow> 0 < ev_sets s" "ev_resumes s c \<le> 1" using inv unfolding event_inv_def by blast+
  ultimately show ?thesis by blast
qed

text \<open>A second coroutine finds the first one's handle, takes it for the set state and goes on although \<open>set\<close> was never called.\<close>

lemma event_second_waiter_passes:
  "map_option (\<lambda>s. (ev_sets s, ev_pc s 0, ev_pc s 1)) (event_run [Some 0, Some 0, Some 1, Some 1] event_new) = Some (0, VWaiting, VPassed)"
  by code_simp

section \<open>The awaitable mutex\<close>

text \<open>A word of the state or of \<open>next\<close>: 0 and \<open>nullptr\<close>, 1, or the address of the waiter of a coroutine.\<close>

datatype mutex_word = kUnlocked | kLockedNoWaiters | Waiter nat

datatype mutex_pc =
    MIdle
  | LReady
  | LLoad
  | LLoop mutex_word
  | LPush mutex_word
  | MSuspended
  | MResumed
  | MHeld
  | ULoad
  | ULoop mutex_word
  | UPop nat mutex_word

record awaitable_mutex =
  mx_state :: mutex_word
  mx_next :: "nat \<Rightarrow> mutex_word"
  mx_pc :: "nat \<Rightarrow> mutex_pc"

definition mutex_new :: awaitable_mutex where
  "mutex_new = \<lparr>mx_state = kUnlocked, mx_next = (\<lambda>_. kUnlocked), mx_pc = (\<lambda>_. MIdle)\<rparr>"

definition mgo :: "nat \<Rightarrow> mutex_pc \<Rightarrow> awaitable_mutex \<Rightarrow> awaitable_mutex" where
  "mgo c pc s = s\<lparr>mx_pc := (mx_pc s)(c := pc)\<rparr>"

definition lock_await_ready :: "nat \<Rightarrow> awaitable_mutex \<Rightarrow> awaitable_mutex" where
  "lock_await_ready c s = (if mx_state s = kUnlocked then mgo c MHeld (s\<lparr>mx_state := kLockedNoWaiters\<rparr>) else mgo c LLoad s)"

text \<open>The loop of \<open>await_suspend\<close>: the test with its exchange or the store to \<open>next\<close>, then the push. A weak exchange may fail for no reason.\<close>

definition lock_loop :: "bool \<Rightarrow> nat \<Rightarrow> mutex_word \<Rightarrow> awaitable_mutex \<Rightarrow> awaitable_mutex" where
  "lock_loop spurious c w s = (if w = kUnlocked
     then if mx_state s = w \<and> \<not> spurious then mgo c MHeld (s\<lparr>mx_state := kLockedNoWaiters\<rparr>) else mgo c (LLoop (mx_state s)) s
     else mgo c (LPush w) (s\<lparr>mx_next := (mx_next s)(c := w)\<rparr>))"

definition lock_push :: "bool \<Rightarrow> nat \<Rightarrow> mutex_word \<Rightarrow> awaitable_mutex \<Rightarrow> awaitable_mutex" where
  "lock_push spurious c w s = (if mx_state s = w \<and> \<not> spurious then mgo c MSuspended (s\<lparr>mx_state := Waiter c\<rparr>) else mgo c (LLoop (mx_state s)) s)"

text \<open>The loop of \<open>unlock\<close>; a waiter at address 0 is undefined.\<close>

definition unlock_loop :: "bool \<Rightarrow> nat \<Rightarrow> mutex_word \<Rightarrow> awaitable_mutex \<Rightarrow> awaitable_mutex option" where
  "unlock_loop spurious c w s = (case w of
      kLockedNoWaiters \<Rightarrow> Some (if mx_state s = w \<and> \<not> spurious then mgo c MIdle (s\<lparr>mx_state := kUnlocked\<rparr>) else mgo c (ULoop (mx_state s)) s)
    | Waiter h \<Rightarrow> Some (mgo c (UPop h (if mx_next s h = kUnlocked then kLockedNoWaiters else mx_next s h)) s)
    | kUnlocked \<Rightarrow> None)"

definition unlock_pop :: "bool \<Rightarrow> nat \<Rightarrow> nat \<Rightarrow> mutex_word \<Rightarrow> awaitable_mutex \<Rightarrow> awaitable_mutex" where
  "unlock_pop spurious c h w s = (if mx_state s = Waiter h \<and> \<not> spurious then mgo c MIdle (mgo h MResumed (s\<lparr>mx_state := w\<rparr>)) else mgo c (ULoop (mx_state s)) s)"

definition mutex_step :: "bool \<Rightarrow> nat \<Rightarrow> awaitable_mutex \<Rightarrow> awaitable_mutex option" where
  "mutex_step spurious c s = (case mx_pc s c of
      MIdle \<Rightarrow> Some (mgo c LReady s)
    | LReady \<Rightarrow> Some (lock_await_ready c s)
    | LLoad \<Rightarrow> Some (mgo c (LLoop (mx_state s)) s)
    | LLoop w \<Rightarrow> Some (lock_loop spurious c w s)
    | LPush w \<Rightarrow> Some (lock_push spurious c w s)
    | MSuspended \<Rightarrow> Some s
    | MResumed \<Rightarrow> Some (mgo c MHeld s)
    | MHeld \<Rightarrow> Some (mgo c ULoad s)
    | ULoad \<Rightarrow> Some (mgo c (ULoop (mx_state s)) s)
    | ULoop w \<Rightarrow> unlock_loop spurious c w s
    | UPop h w \<Rightarrow> Some (unlock_pop spurious c h w s))"

fun mutex_run :: "(bool \<times> nat) list \<Rightarrow> awaitable_mutex \<Rightarrow> awaitable_mutex option" where
  "mutex_run [] s = Some s"
| "mutex_run ((spurious, c) # moves) s = Option.bind (mutex_step spurious c s) (mutex_run moves)"

text \<open>
  The coroutines that own the lock, and the stack of waiters: the list \<open>ws\<close> is threaded through \<open>next\<close> from the state and ends in
  \<open>kLockedNoWaiters\<close>.
\<close>

fun owns :: "mutex_pc \<Rightarrow> bool" where
  "owns MResumed = True" | "owns MHeld = True" | "owns ULoad = True" | "owns (ULoop w) = True" | "owns (UPop h w) = True" | "owns _ = False"

fun waiters :: "(nat \<Rightarrow> mutex_word) \<Rightarrow> mutex_word \<Rightarrow> nat list \<Rightarrow> bool" where
  "waiters nx w [] \<longleftrightarrow> w = kLockedNoWaiters"
| "waiters nx w (c # ws) \<longleftrightarrow> w = Waiter c \<and> waiters nx (nx c) ws"

definition mutex_pc_ok :: "awaitable_mutex \<Rightarrow> nat \<Rightarrow> mutex_pc \<Rightarrow> bool" where
  "mutex_pc_ok s c pc = (case pc of LPush w \<Rightarrow> w \<noteq> kUnlocked \<and> mx_next s c = w
     | ULoop w \<Rightarrow> w \<noteq> kUnlocked \<and> (\<forall>h. w = Waiter h \<longrightarrow> mx_pc s h = MSuspended)
     | UPop h w \<Rightarrow> mx_pc s h = MSuspended \<and> w = (if mx_next s h = kUnlocked then kLockedNoWaiters else mx_next s h)
     | _ \<Rightarrow> True)"

definition mutex_inv :: "awaitable_mutex \<Rightarrow> nat list \<Rightarrow> bool" where
  "mutex_inv s ws \<longleftrightarrow> distinct ws \<and> (\<forall>c. c \<in> set ws \<longleftrightarrow> mx_pc s c = MSuspended) \<and> (\<forall>c. mutex_pc_ok s c (mx_pc s c)) \<and>
     (\<forall>c d. owns (mx_pc s c) \<longrightarrow> owns (mx_pc s d) \<longrightarrow> c = d) \<and>
     (if mx_state s = kUnlocked then ws = [] \<and> (\<forall>c. \<not> owns (mx_pc s c)) else waiters (mx_next s) (mx_state s) ws \<and> (\<exists>c. owns (mx_pc s c)))"

lemma waiters_next: "c \<notin> set ws \<Longrightarrow> waiters (nx(c := v)) w ws = waiters nx w ws"
  by (induction ws arbitrary: w) auto

lemma waiters_in: "waiters nx (Waiter h) ws \<Longrightarrow> h \<in> set ws"
  by (cases ws) auto

lemma mgo_simps [simp]: "mx_state (mgo c pc s) = mx_state s" "mx_next (mgo c pc s) = mx_next s" "mx_pc (mgo c pc s) d = (if d = c then pc else mx_pc s d)"
  by (simp_all add: mgo_def)

lemma mutex_invD:
  assumes "mutex_inv s ws"
  shows "distinct ws" "c \<in> set ws \<longleftrightarrow> mx_pc s c = MSuspended" "mutex_pc_ok s c (mx_pc s c)" "owns (mx_pc s c) \<Longrightarrow> owns (mx_pc s d) \<Longrightarrow> c = d"
    "mx_state s = kUnlocked \<Longrightarrow> ws = []" "mx_state s = kUnlocked \<Longrightarrow> \<not> owns (mx_pc s c)"
    "mx_state s \<noteq> kUnlocked \<Longrightarrow> waiters (mx_next s) (mx_state s) ws" "mx_state s \<noteq> kUnlocked \<Longrightarrow> \<exists>c. owns (mx_pc s c)"
  using assms unfolding mutex_inv_def by (simp_all split: if_splits)

text \<open>A step of the program counter that neither suspends nor resumes and keeps ownership.\<close>

lemma mutex_go:
  assumes inv: "mutex_inv s ws" and ok: "mutex_pc_ok s c pc" and keep: "owns pc \<longleftrightarrow> owns (mx_pc s c)" "mx_pc s c \<noteq> MSuspended" "pc \<noteq> MSuspended"
  shows "mutex_inv (mgo c pc s) ws"
proof -
  note D = mutex_invD [OF inv]
  have owns: "owns (mx_pc (mgo c pc s) d) = owns (mx_pc s d)" for d using keep(1) by simp
  have susp: "mx_pc (mgo c pc s) d = MSuspended \<longleftrightarrow> mx_pc s d = MSuspended" for d using keep(2,3) by simp
  have ok': "mutex_pc_ok (mgo c pc s) d q = mutex_pc_ok s d q" for d q unfolding mutex_pc_ok_def susp by (cases q) simp_all
  have "mutex_pc_ok (mgo c pc s) d (mx_pc (mgo c pc s) d)" for d unfolding ok' using D(3) [of d] ok by simp
  then show ?thesis using inv unfolding mutex_inv_def owns susp by simp
qed

text \<open>A coroutine that is not suspended writes its own \<open>next\<close>.\<close>

lemma mutex_next:
  assumes inv: "mutex_inv s ws" and c: "\<not> owns (mx_pc s c)" "mx_pc s c \<noteq> MSuspended" "\<And>w. mx_pc s c \<noteq> LPush w"
  shows "mutex_inv (s\<lparr>mx_next := (mx_next s)(c := w)\<rparr>) ws"
proof -
  note D = mutex_invD [OF inv]
  have "mutex_pc_ok (s\<lparr>mx_next := (mx_next s)(c := w)\<rparr>) d (mx_pc s d)" for d
    using D(3) [of d] c(2,3) by (cases "mx_pc s d") (auto simp: mutex_pc_ok_def)
  moreover have "c \<notin> set ws" using D(2) c(2) by simp
  ultimately show ?thesis using inv unfolding mutex_inv_def by (simp add: waiters_next)
qed

text \<open>The lock is taken, passed on and given up.\<close>

lemma mutex_take:
  assumes inv: "mutex_inv s ws" and free: "mx_state s = kUnlocked" and c: "mx_pc s c \<noteq> MSuspended"
  shows "mutex_inv (mgo c MHeld (s\<lparr>mx_state := kLockedNoWaiters\<rparr>)) []"
proof -
  note D = mutex_invD [OF inv]
  have none: "mx_pc s d \<noteq> MSuspended" "\<not> owns (mx_pc s d)" for d using D(2) [of d] D(5,6) free by auto
  have "mutex_pc_ok (mgo c MHeld (s\<lparr>mx_state := kLockedNoWaiters\<rparr>)) d (mx_pc s d)" for d
    using D(3) [of d] none(2) [of d] by (cases "mx_pc s d") (auto simp: mutex_pc_ok_def)
  then show ?thesis using none unfolding mutex_inv_def by (auto simp: mutex_pc_ok_def)
qed

lemma mutex_suspend:
  assumes inv: "mutex_inv s ws" and pc: "mx_pc s c = LPush w" and w: "mx_state s = w"
  shows "mutex_inv (mgo c MSuspended (s\<lparr>mx_state := Waiter c\<rparr>)) (c # ws)"
proof -
  note D = mutex_invD [OF inv]
  have n: "w \<noteq> kUnlocked" "mx_next s c = w" using D(3) [of c] pc by (simp_all add: mutex_pc_ok_def)
  have "c \<notin> set ws" using D(2) [of c] pc by simp
  moreover obtain q where q: "owns (mx_pc s q)" using D(8) w n(1) by blast
  then have "q \<noteq> c" using pc by auto
  moreover have "mutex_pc_ok (mgo c MSuspended (s\<lparr>mx_state := Waiter c\<rparr>)) d (mx_pc s d)" for d
    using D(3) [of d] by (cases "mx_pc s d") (auto simp: mutex_pc_ok_def)
  ultimately show ?thesis unfolding mutex_inv_def using D(1,2,4,7) w n q by (auto simp: mutex_pc_ok_def)
qed

lemma mutex_release:
  assumes inv: "mutex_inv s ws" and c: "owns (mx_pc s c)" and state: "mx_state s = kLockedNoWaiters"
  shows "mutex_inv (mgo c MIdle (s\<lparr>mx_state := kUnlocked\<rparr>)) []"
proof -
  note D = mutex_invD [OF inv]
  have "ws = []" using D(7) state by (cases ws) auto
  then have none: "mx_pc s d \<noteq> MSuspended" for d using D(2) [of d] by simp
  have own: "\<not> owns (mx_pc s d)" if "d \<noteq> c" for d using D(4) [OF c, of d] that by blast
  have "mutex_pc_ok (mgo c MIdle (s\<lparr>mx_state := kUnlocked\<rparr>)) d (mx_pc s d)" if "d \<noteq> c" for d
    using D(3) [of d] own [OF that] by (cases "mx_pc s d") (auto simp: mutex_pc_ok_def)
  then show ?thesis using none own unfolding mutex_inv_def by (auto simp: mutex_pc_ok_def)
qed

lemma mutex_pass:
  assumes inv: "mutex_inv s ws" and pc: "mx_pc s c = UPop h w" and state: "mx_state s = Waiter h"
  shows "mutex_inv (mgo c MIdle (mgo h MResumed (s\<lparr>mx_state := w\<rparr>))) (tl ws)"
proof -
  note D = mutex_invD [OF inv]
  obtain rest where ws: "ws = h # rest" "waiters (mx_next s) (mx_next s h) rest" using D(7) state by (cases ws) auto
  have h: "mx_pc s h = MSuspended" "h \<noteq> c" using D(3) [of c] pc by (auto simp: mutex_pc_ok_def)
  have w: "w = mx_next s h" "w \<noteq> kUnlocked" using D(3) [of c] pc ws(2) by (cases rest; auto simp: mutex_pc_ok_def)+
  have own: "\<not> owns (mx_pc s d)" if "d \<noteq> c" for d using D(4) [of c d] that pc by auto
  have "mutex_pc_ok (mgo c MIdle (mgo h MResumed (s\<lparr>mx_state := w\<rparr>))) d (mx_pc s d)" if "d \<noteq> c" for d
    using D(3) [of d] own [OF that] by (cases "mx_pc s d") (auto simp: mutex_pc_ok_def)
  moreover have "d \<in> set rest \<longleftrightarrow> mx_pc s d = MSuspended \<and> d \<noteq> h" for d using D(1) D(2) [of d] ws(1) by auto
  ultimately show ?thesis unfolding mutex_inv_def using D(1) ws w h own pc by (auto simp: mutex_pc_ok_def)
qed

lemma mutex_step_inv:
  assumes inv: "mutex_inv s ws"
  shows "\<exists>s' ws'. mutex_step b c s = Some s' \<and> mutex_inv s' ws'"
proof -
  note D = mutex_invD [OF inv]
  have ok: "mutex_pc_ok s c (mx_pc s c)" by (rule D(3))
  have go: "\<exists>ws'. mutex_inv (mgo c pc s) ws'" if "mutex_pc_ok s c pc" "owns pc \<longleftrightarrow> owns (mx_pc s c)" "mx_pc s c \<noteq> MSuspended" "pc \<noteq> MSuspended" for pc
    using mutex_go [OF inv that] by blast
  have loaded: "mutex_pc_ok s c (ULoop (mx_state s))" if "owns (mx_pc s c)"
  proof -
    have "mx_state s \<noteq> kUnlocked" using D(6) that by blast
    then show ?thesis using D(7) D(2) waiters_in by (force simp: mutex_pc_ok_def)
  qed
  show ?thesis
  proof (cases "mx_pc s c")
    case LReady
    then show ?thesis using go [of LLoad] mutex_take [OF inv, of c] by (auto simp: mutex_step_def lock_await_ready_def mutex_pc_ok_def)
  next
    case (LLoop w)
    have "mutex_inv (mgo c (LPush w) (s\<lparr>mx_next := (mx_next s)(c := w)\<rparr>)) ws" if "w \<noteq> kUnlocked"
      using LLoop that by (intro mutex_go mutex_next [OF inv]) (auto simp: mutex_pc_ok_def)
    then show ?thesis using LLoop go [of "LLoop (mx_state s)"] mutex_take [OF inv, of c] by (auto simp: mutex_step_def lock_loop_def mutex_pc_ok_def)
  next
    case (LPush w)
    then show ?thesis using go [of "LLoop (mx_state s)"] mutex_suspend [OF inv LPush] by (auto simp: mutex_step_def lock_push_def mutex_pc_ok_def)
  next
    case (ULoop w)
    then have own: "owns (mx_pc s c)" by simp
    show ?thesis
    proof (cases w)
      case kUnlocked
      then show ?thesis using ok ULoop by (simp add: mutex_pc_ok_def)
    next
      case kLockedNoWaiters
      then show ?thesis using ULoop go [OF loaded [OF own]] mutex_release [OF inv own] by (auto simp: mutex_step_def unlock_loop_def)
    next
      case (Waiter h)
      then show ?thesis using ULoop ok go [of "UPop h (if mx_next s h = kUnlocked then kLockedNoWaiters else mx_next s h)"]
        by (auto simp: mutex_step_def unlock_loop_def mutex_pc_ok_def)
    qed
  next
    case (UPop h w)
    then show ?thesis using go [OF loaded] mutex_pass [OF inv UPop] by (auto simp: mutex_step_def unlock_pop_def)
  next
    case MSuspended
    then show ?thesis using inv by (auto simp: mutex_step_def)
  next
    case ULoad
    then show ?thesis using go [OF loaded] by (auto simp: mutex_step_def)
  qed (use go in \<open>auto simp: mutex_step_def mutex_pc_ok_def\<close>)
qed

lemma mutex_new_inv: "mutex_inv mutex_new []"
  by (simp add: mutex_inv_def mutex_new_def mutex_pc_ok_def)

lemma mutex_run_inv: "mutex_inv s ws \<Longrightarrow> \<exists>s' ws'. mutex_run moves s = Some s' \<and> mutex_inv s' ws'"
proof (induction moves arbitrary: s ws)
  case (Cons m moves)
  obtain b c where m: "m = (b, c)" by force
  obtain s1 ws1 where "mutex_step b c s = Some s1" "mutex_inv s1 ws1" using mutex_step_inv [OF Cons.prems] by blast
  then show ?case using Cons.IH m by simp
qed auto

text \<open>
  C16. In every interleaving of any number of coroutines that lock and unlock, with spurious failures of the weak exchanges, no step reads
  through a null waiter; either the mutex is unlocked, nobody owns it and nobody is suspended on it, or exactly one coroutine owns
  it and the suspended ones are the stack threaded through the waiters, each once: none is lost and none is resumed twice.
\<close>

theorem mutex_exclusive:
  "\<exists>s ws. mutex_run moves mutex_new = Some s \<and> distinct ws \<and> set ws = {c. mx_pc s c = MSuspended} \<and>
     (mx_state s = kUnlocked \<and> {c. owns (mx_pc s c)} = {} \<and> ws = [] \<or>
      (\<exists>c. mx_state s \<noteq> kUnlocked \<and> {d. owns (mx_pc s d)} = {c} \<and> waiters (mx_next s) (mx_state s) ws))"
proof -
  obtain s ws where s: "mutex_run moves mutex_new = Some s" "mutex_inv s ws" using mutex_run_inv [OF mutex_new_inv] by blast
  note D = mutex_invD [OF s(2)]
  have "set ws = {c. mx_pc s c = MSuspended}" using D(2) by auto
  moreover have "{d. owns (mx_pc s d)} = {c}" if "owns (mx_pc s c)" for c using D(4) that by blast
  ultimately show ?thesis using s(1) D(1,5,6,7,8) by (cases "mx_state s = kUnlocked") (simp, blast)
qed

text \<open>Coroutine 1 suspends while 0 holds the lock; the unlock hands the lock over without freeing it.\<close>

lemma mutex_hands_over:
  "map_option (\<lambda>s. (mx_state s, mx_pc s 0, mx_pc s 1))
     (mutex_run [(False, 0), (False, 0), (False, 1), (False, 1), (False, 1), (False, 1), (False, 1), (False, 0), (False, 0), (False, 0), (False, 0)] mutex_new)
   = Some (kLockedNoWaiters, MIdle, MResumed)"
  by code_simp

end
