(* ===== verification/Decision_Tree.thy ===== *)
theory Decision_Tree
  imports Complex_Main "HOL-Library.Product_Lexorder" "HOL-Library.Multiset" "HOL-Library.Monad_Syntax"
begin

text \<open>
  \<open>ml/decision_tree\<close>: growing a CART tree into the flat node array and predicting with it. Feature values, labels and impurities
  are reals. The float expression \<open>(a + b) / 2.0f\<close> of a threshold is the parameter \<open>mid a b\<close>, because its rounding matters:
  between neighbouring floats it can be the upper one, and then a split does not separate. The random engine is a parameter:
  \<open>pick r lo hi\<close> draws from \<open>uniform_int_distribution(lo, hi)\<close>. A read out of range, a negative label, whose conversion to an index
  is undefined, and a recursion that does not end are \<open>None\<close>.
\<close>

section \<open>Parameters and nodes\<close>

datatype criterion = GINI | ENTROPY

record tree_params =
  tp_max_depth :: int
  tp_min_samples_leaf :: int
  tp_min_samples_split :: int
  tp_min_impurity_decrease :: real
  tp_criterion :: criterion
  tp_max_features :: int

record tree_node =
  tn_is_leaf :: bool
  tn_predicted_class :: nat
  tn_feature_idx :: nat
  tn_threshold :: real
  tn_left :: nat
  tn_right :: nat
  tn_n_samples :: nat
  tn_impurity :: real

text \<open>What \<open>build_node\<close> changes: the nodes, the importance of the features and the engine.\<close>

record 'r tree_state =
  ts_nodes :: "tree_node list"
  ts_importance :: "real list"
  ts_rng :: 'r

record 'r decision_tree =
  dt_params :: tree_params
  dt_state :: "'r tree_state"
  dt_n_features :: nat
  dt_n_classes :: nat

definition node_impurity :: "tree_params \<Rightarrow> nat list \<Rightarrow> nat \<Rightarrow> real" where
  "node_impurity p class_counts tot = (if tot = 0 then 0
     else case tp_criterion p of
       GINI \<Rightarrow> 1 - sum_list (map (\<lambda>c. real c / real tot * (real c / real tot)) class_counts)
     | ENTROPY \<Rightarrow> - sum_list (map (\<lambda>c. if c = 0 then 0 else real c / real tot * log 2 (real c / real tot)) class_counts))"

section \<open>Splits\<close>

text \<open>\<open>static_cast<size_t>(y[idx])\<close>, for labels that passed the check of \<open>fit\<close>.\<close>

definition label_class :: "real list \<Rightarrow> nat \<Rightarrow> nat" where
  "label_class y i = nat \<lfloor>y ! i\<rfloor>"

definition class_counts :: "nat \<Rightarrow> nat list \<Rightarrow> nat list" where
  "class_counts n_classes cs = map (\<lambda>c. count_list cs c) [0..<n_classes]"

text \<open>The candidate features of a node: all, or the front of a partial shuffle.\<close>

fun shuffle_front :: "('r \<Rightarrow> nat \<Rightarrow> nat \<Rightarrow> nat \<times> 'r) \<Rightarrow> nat \<Rightarrow> nat \<Rightarrow> nat list \<Rightarrow> 'r \<Rightarrow> nat list \<times> 'r" where
  "shuffle_front pick f 0 xs r = (xs, r)"
| "shuffle_front pick f (Suc m) xs r = (let (j, r') = pick r f (length xs - 1) in shuffle_front pick (f + 1) m (xs[f := xs ! j, j := xs ! f]) r')"

definition candidate_features :: "('r \<Rightarrow> nat \<Rightarrow> nat \<Rightarrow> nat \<times> 'r) \<Rightarrow> tree_params \<Rightarrow> nat \<Rightarrow> 'r \<Rightarrow> nat list \<times> 'r" where
  "candidate_features pick p n_features r = (if 0 < tp_max_features p \<and> tp_max_features p < int n_features
     then (let (xs, r') = shuffle_front pick 0 (nat (tp_max_features p)) [0..<n_features] r in (take (nat (tp_max_features p)) xs, r'))
     else ([0..<n_features], r))"

text \<open>The best split so far: decrease, feature and threshold.\<close>

type_synonym split = "real \<times> nat \<times> real"

definition better_split :: "(real \<Rightarrow> real \<Rightarrow> real) \<Rightarrow> tree_params \<Rightarrow> nat \<Rightarrow> nat list \<Rightarrow> nat list \<Rightarrow> nat \<Rightarrow> real \<Rightarrow> nat \<Rightarrow> real \<Rightarrow> real \<Rightarrow> split option \<Rightarrow> split option" where
  "better_split mid p n total_counts left_counts n_left parent feature a b best = (if a = b then best
     else let n_right = n - n_left in
       if int n_left < tp_min_samples_leaf p \<or> int n_right < tp_min_samples_leaf p then best
       else let right_counts = map2 (-) total_counts left_counts;
            weighted = (real n_left * node_impurity p left_counts n_left + real n_right * node_impurity p right_counts n_right) / real n;
            decrease = parent - weighted in
         if decrease > (case best of None \<Rightarrow> 0 | Some (d, _, _) \<Rightarrow> d) then Some (decrease, feature, mid a b) else best)"

fun sweep :: "(real \<Rightarrow> real \<Rightarrow> real) \<Rightarrow> tree_params \<Rightarrow> nat \<Rightarrow> nat list \<Rightarrow> real \<Rightarrow> nat \<Rightarrow> (real \<times> nat) list \<Rightarrow> nat list \<Rightarrow> nat \<Rightarrow> split option \<Rightarrow> split option" where
  "sweep mid p n tot parent feature (x # x' # xs) left_counts n_left best =
     (let lc = left_counts[snd x := left_counts ! snd x + 1]; lt = n_left + 1 in
      sweep mid p n tot parent feature (x' # xs) lc lt (better_split mid p n tot lc lt parent feature (fst x) (fst x') best))"
| "sweep mid p n tot parent feature xs left_counts n_left best = best"

definition sorted_column :: "real list list \<Rightarrow> real list \<Rightarrow> nat list \<Rightarrow> nat \<Rightarrow> (real \<times> nat) list" where
  "sorted_column X y indices feature = sort (map (\<lambda>i. (X ! i ! feature, label_class y i)) indices)"

fun scan_features :: "(real \<Rightarrow> real \<Rightarrow> real) \<Rightarrow> tree_params \<Rightarrow> real list list \<Rightarrow> real list \<Rightarrow> nat list \<Rightarrow> nat \<Rightarrow> real \<Rightarrow> nat list \<Rightarrow> split option \<Rightarrow> split option option" where
  "scan_features mid p X y indices n_classes parent [] best = Some best"
| "scan_features mid p X y indices n_classes parent (f # fs) best =
     (if list_ex (\<lambda>i. length X \<le> i \<or> length (X ! i) \<le> f) indices then None
      else scan_features mid p X y indices n_classes parent fs
        (sweep mid p (length indices) (class_counts n_classes (map (label_class y) indices)) parent f (sorted_column X y indices f) (replicate n_classes 0) 0 best))"

definition goes_left :: "real list list \<Rightarrow> nat \<Rightarrow> real \<Rightarrow> nat \<Rightarrow> bool" where
  "goes_left X f threshold i \<longleftrightarrow> X ! i ! f \<le> threshold"

definition find_best_split :: "(real \<Rightarrow> real \<Rightarrow> real) \<Rightarrow> ('r \<Rightarrow> nat \<Rightarrow> nat \<Rightarrow> nat \<times> 'r) \<Rightarrow> tree_params \<Rightarrow> real list list \<Rightarrow> real list \<Rightarrow> nat \<Rightarrow> nat \<Rightarrow> nat list \<Rightarrow> real \<Rightarrow> 'r \<Rightarrow> (split option \<times> 'r) option" where
  "find_best_split mid pick p X y n_features n_classes indices parent r = (let (fs, r') = candidate_features pick p n_features r in
     map_option (\<lambda>best. (best, r')) (scan_features mid p X y indices n_classes parent fs None))"

section \<open>Growing\<close>

text \<open>\<open>max_element\<close>: the first class with the largest count.\<close>

fun max_element :: "nat list \<Rightarrow> nat" where
  "max_element [] = 0"
| "max_element [x] = 0"
| "max_element (x # xs) = (let j = max_element xs in if xs ! j > x then j + 1 else 0)"

definition leaf_node :: "tree_params \<Rightarrow> nat \<Rightarrow> nat list \<Rightarrow> tree_node" where
  "leaf_node p n_classes cs = (let counts = class_counts n_classes cs in
     \<lparr>tn_is_leaf = True, tn_predicted_class = max_element counts, tn_feature_idx = 0, tn_threshold = 0, tn_left = 0, tn_right = 0,
      tn_n_samples = length cs, tn_impurity = node_impurity p counts (length cs)\<rparr>)"

text \<open>The split a node gets, if any, with the new state of the engine.\<close>

definition choose_split :: "(real \<Rightarrow> real \<Rightarrow> real) \<Rightarrow> ('r \<Rightarrow> nat \<Rightarrow> nat \<Rightarrow> nat \<times> 'r) \<Rightarrow> tree_params \<Rightarrow> real list list \<Rightarrow> real list \<Rightarrow> nat \<Rightarrow> nat \<Rightarrow> nat list \<Rightarrow> nat \<Rightarrow> 'r \<Rightarrow> (split option \<times> 'r) option" where
  "choose_split mid pick p X y n_features n_classes indices depth r =
     (let impurity = tn_impurity (leaf_node p n_classes (map (label_class y) indices)) in
      if (tp_max_depth p < 0 \<or> int depth < tp_max_depth p) \<and> tp_min_samples_split p \<le> int (length indices) \<and> impurity > 0
      then map_option (\<lambda>(best, r'). (case best of None \<Rightarrow> None | Some (d, f, th) \<Rightarrow> if tp_min_impurity_decrease p \<le> d then best else None, r'))
             (find_best_split mid pick p X y n_features n_classes indices impurity r)
      else Some (None, r))"

section \<open>Splits leave no side empty\<close>

lemma sweep_keeps:
  assumes new: "\<And>i d. Suc i < length S \<Longrightarrow> fst (S ! i) \<noteq> fst (S ! Suc i) \<Longrightarrow> tp_min_samples_leaf p \<le> int (Suc i) \<Longrightarrow> tp_min_samples_leaf p \<le> int (n - Suc i) \<Longrightarrow>
      P (d, f, mid (fst (S ! i)) (fst (S ! Suc i)))"
    and "pred_option P best"
  shows "pred_option P (sweep mid p n tot parent f (drop k S) lc k best)"
  using assms(2)
proof (induction "length S - k" arbitrary: k lc best)
  case (Suc m)
  then have k: "k < length S" by simp
  show ?case
  proof (cases "Suc k < length S")
    case True
    then have d: "drop k S = S ! k # S ! Suc k # drop (Suc (Suc k)) S" by (simp add: Cons_nth_drop_Suc)
    let ?lc = "lc[snd (S ! k) := lc ! snd (S ! k) + 1]"
    let ?best = "better_split mid p n tot ?lc (k + 1) parent f (fst (S ! k)) (fst (S ! Suc k)) best"
    have "pred_option P ?best" using Suc.prems new [OF True] by (auto simp: better_split_def Let_def)
    then have "pred_option P (sweep mid p n tot parent f (drop (Suc k) S) ?lc (Suc k) ?best)" using Suc.hyps by (intro Suc.hyps(1)) simp
    moreover have "drop (Suc k) S = S ! Suc k # drop (Suc (Suc k)) S" using True by (simp add: Cons_nth_drop_Suc)
    ultimately show ?thesis unfolding d by (simp add: Let_def)
  next
    case False
    then have "drop k S = [S ! k]" using k by (simp add: Cons_nth_drop_Suc flip: Cons_nth_drop_Suc)
    then show ?thesis using Suc.prems by simp
  qed
qed simp

text \<open>A threshold between two neighbouring values of the sorted column puts the values up to the first on one side. Thresholds
  separate a table when that holds for any two different values of one column.\<close>

definition separates :: "(real \<Rightarrow> real \<Rightarrow> real) \<Rightarrow> real list list \<Rightarrow> bool" where
  "separates mid X \<longleftrightarrow> (\<forall>r \<in> set X. \<forall>s \<in> set X. \<forall>f < min (length r) (length s). r ! f < s ! f \<longrightarrow> r ! f \<le> mid (r ! f) (s ! f) \<and> mid (r ! f) (s ! f) < s ! f)"

lemma count_below:
  fixes S :: "(real \<times> nat) list"
  assumes S: "sorted S" and i: "Suc i < length S" "fst (S ! i) \<le> th" "th < fst (S ! Suc i)"
  shows "length (filter (\<lambda>z. fst z \<le> th) S) = Suc i"
proof -
  have mono: "fst (S ! a) \<le> fst (S ! b)" if "a \<le> b" "b < length S" for a b
    using sorted_nth_mono [OF S that] by (auto simp: less_eq_prod_def)
  have lo: "fst z \<le> th" if z: "z \<in> set (take (Suc i) S)" for z
  proof -
    obtain a where "a < Suc i" "z = S ! a" using z i(1) by (auto simp: in_set_conv_nth)
    then show ?thesis using mono [of a i] i by simp
  qed
  have hi: "\<not> fst z \<le> th" if z: "z \<in> set (drop (Suc i) S)" for z
  proof -
    obtain a where a: "a < length S - Suc i" "z = S ! (Suc i + a)" using z i(1) by (auto simp: in_set_conv_nth)
    then have "fst (S ! Suc i) \<le> fst z" using mono [of "Suc i" "Suc i + a"] by simp
    then show ?thesis using i(3) by simp
  qed
  have "filter (\<lambda>z. fst z \<le> th) S = filter (\<lambda>z. fst z \<le> th) (take (Suc i) S) @ filter (\<lambda>z. fst z \<le> th) (drop (Suc i) S)"
    by (simp flip: filter_append)
  also have "\<dots> = take (Suc i) S" using lo hi by (simp add: filter_True filter_False)
  finally show ?thesis using i(1) by simp
qed

text \<open>Both sides of a split are non-empty and no smaller than \<open>min_samples_leaf\<close>.\<close>

definition split_ok :: "tree_params \<Rightarrow> real list list \<Rightarrow> nat list \<Rightarrow> split \<Rightarrow> bool" where
  "split_ok p X indices = (\<lambda>(d, f, th). let l = length (filter (goes_left X f th) indices); r = length (filter (\<lambda>i. \<not> goes_left X f th i) indices) in
     0 < l \<and> 0 < r \<and> tp_min_samples_leaf p \<le> int l \<and> tp_min_samples_leaf p \<le> int r)"

lemma sweep_split_ok:
  assumes "pred_option (split_ok p X indices) best" and sep: "separates mid X" and X: "\<forall>i \<in> set indices. i < length X \<and> f < length (X ! i)"
  shows "pred_option (split_ok p X indices) (sweep mid p (length indices) tot parent f (sorted_column X y indices f) lc 0 best)"
proof -
  let ?S = "sorted_column X y indices f"
  have len: "length ?S = length indices" by (simp add: sorted_column_def)
  have cnt: "length (filter (goes_left X f th) indices) = length (filter (\<lambda>z. fst z \<le> th) ?S)" for th
  proof -
    have "mset (filter (\<lambda>z. fst z \<le> th) ?S) = mset (filter (\<lambda>z. fst z \<le> th) (map (\<lambda>i. (X ! i ! f, label_class y i)) indices))"
      by (simp add: sorted_column_def del: mset_map)
    from mset_eq_length [OF this] show ?thesis by (simp add: goes_left_def [abs_def] filter_map o_def)
  qed
  have rest: "length (filter (\<lambda>i. \<not> goes_left X f th i) indices) = length indices - length (filter (goes_left X f th) indices)" for th
    using sum_length_filter_compl [of "goes_left X f th" indices] by simp
  have "split_ok p X indices (d, f, mid (fst (?S ! i)) (fst (?S ! Suc i)))"
    if "Suc i < length ?S" "fst (?S ! i) \<noteq> fst (?S ! Suc i)" "tp_min_samples_leaf p \<le> int (Suc i)" "tp_min_samples_leaf p \<le> int (length indices - Suc i)" for i d
  proof -
    have S: "sorted ?S" by (simp add: sorted_column_def)
    have "\<exists>j \<in> set indices. fst (?S ! k) = X ! j ! f" if "k < length ?S" for k
      using nth_mem [OF that] by (auto simp: sorted_column_def)
    from this [OF Suc_lessD [OF that(1)]] this [OF that(1)]
    obtain j k where jk: "j \<in> set indices" "k \<in> set indices" "fst (?S ! i) = X ! j ! f" "fst (?S ! Suc i) = X ! k ! f" by blast
    have "fst (?S ! i) < fst (?S ! Suc i)" using sorted_nth_mono [OF S, of i "Suc i"] that(1,2) by (auto simp: less_eq_prod_def)
    then have "fst (?S ! i) \<le> mid (fst (?S ! i)) (fst (?S ! Suc i))" "mid (fst (?S ! i)) (fst (?S ! Suc i)) < fst (?S ! Suc i)"
      using sep X jk(1,2) nth_mem unfolding separates_def jk(3,4) by (metis min_less_iff_conj)+
    from count_below [OF S that(1) this] show ?thesis using that len unfolding split_ok_def Let_def case_prod_conv rest cnt by simp
  qed
  from sweep_keeps [of ?S p "length indices" "split_ok p X indices" f mid best tot parent 0 lc, OF this assms(1)] show ?thesis by simp
qed

lemma scan_features_ok:
  assumes "scan_features mid p X y indices nc parent fs best = Some best'" "separates mid X" "pred_option (split_ok p X indices) best"
  shows "pred_option (split_ok p X indices) best'"
  using assms
proof (induction fs arbitrary: best)
  case (Cons f fs)
  then have "\<forall>i \<in> set indices. i < length X \<and> f < length (X ! i)" by (auto simp: list_ex_iff split: if_splits)
  from sweep_split_ok [OF Cons.prems(3,2) this] show ?case using Cons by (auto split: if_splits)
qed simp

lemma scan_features_feature:
  assumes "scan_features mid p X y indices nc parent fs best = Some best'" "pred_option (\<lambda>s. fst (snd s) \<in> F) best" "set fs \<subseteq> F"
  shows "pred_option (\<lambda>s. fst (snd s) \<in> F) best'"
  using assms
proof (induction fs arbitrary: best)
  case (Cons f fs)
  have "pred_option (\<lambda>s. fst (snd s) \<in> F) (sweep mid p (length indices) tot parent f (drop 0 (sorted_column X y indices f)) lc 0 best)" for tot lc
    using Cons.prems(2,3) by (intro sweep_keeps) auto
  then show ?case using Cons by (auto split: if_splits)
qed simp

lemma choose_split_ok:
  assumes "choose_split mid pick p X y nf nc indices depth r = Some (Some (d, f, th), r')"
  shows "separates mid X \<Longrightarrow> split_ok p X indices (d, f, th)" "tp_max_depth p < 0 \<or> int depth < tp_max_depth p" "f \<in> set (fst (candidate_features pick p nf r))"
proof -
  obtain fs r1 where c: "candidate_features pick p nf r = (fs, r1)" by force
  have scan: "scan_features mid p X y indices nc (tn_impurity (leaf_node p nc (map (label_class y) indices))) fs None = Some (Some (d, f, th))"
    and depth: "tp_max_depth p < 0 \<or> int depth < tp_max_depth p"
    using assms by (auto simp: choose_split_def find_best_split_def c Let_def split: if_splits option.splits)
  show "separates mid X \<Longrightarrow> split_ok p X indices (d, f, th)" using scan_features_ok [OF scan] by simp
  show "f \<in> set (fst (candidate_features pick p nf r))" using scan_features_feature [OF scan, of "set fs"] by (simp add: c)
  show "tp_max_depth p < 0 \<or> int depth < tp_max_depth p" by (rule depth)
qed

lemma split_shrinks:
  assumes "split_ok p X indices (d, f, th)"
  shows "length (filter (goes_left X f th) indices) < length indices" "length (filter (\<lambda>i. \<not> goes_left X f th i) indices) < length indices"
  using assms sum_length_filter_compl [of "goes_left X f th" indices] unfolding split_ok_def Let_def prod.case by linarith+

section \<open>The node array\<close>

partial_function (option) build_node :: "(real \<Rightarrow> real \<Rightarrow> real) \<Rightarrow> ('r \<Rightarrow> nat \<Rightarrow> nat \<Rightarrow> nat \<times> 'r) \<Rightarrow> tree_params \<Rightarrow> real list list \<Rightarrow> real list \<Rightarrow> nat \<Rightarrow> nat \<Rightarrow> nat list \<Rightarrow> nat \<Rightarrow> 'r tree_state \<Rightarrow> (nat \<times> 'r tree_state) option" where
  "build_node mid pick p X y nf nc indices depth st =
     do { (best, r) \<leftarrow> choose_split mid pick p X y nf nc indices depth (ts_rng st);
          let this = length (ts_nodes st); st1 = st\<lparr>ts_nodes := ts_nodes st @ [leaf_node p nc (map (label_class y) indices)], ts_rng := r\<rparr> in
          (case best of None \<Rightarrow> Some (this, st1)
           | Some (d, f, th) \<Rightarrow>
               do { let st2 = st1\<lparr>ts_importance := (ts_importance st)[f := ts_importance st ! f + real (length indices) * d]\<rparr>;
                    (l, st3) \<leftarrow> build_node mid pick p X y nf nc (filter (goes_left X f th) indices) (depth + 1) st2;
                    (r, st4) \<leftarrow> build_node mid pick p X y nf nc (filter (\<lambda>i. \<not> goes_left X f th i) indices) (depth + 1) st3;
                    Some (this, st4\<lparr>ts_nodes := (ts_nodes st4)[this := (ts_nodes st4 ! this)\<lparr>tn_is_leaf := False, tn_feature_idx := f, tn_threshold := th, tn_left := l, tn_right := r\<rparr>]\<rparr>) }) }"

definition tree_fit :: "(real \<Rightarrow> real \<Rightarrow> real) \<Rightarrow> ('r \<Rightarrow> nat \<Rightarrow> nat \<Rightarrow> nat \<times> 'r) \<Rightarrow> tree_params \<Rightarrow> 'r \<Rightarrow> real list list \<Rightarrow> real list \<Rightarrow> 'r decision_tree option" where
  "tree_fit mid pick p r X y = (if list_ex (\<lambda>v. v \<le> - 1) y then None
     else let n_features = (if X = [] then 0 else length (X ! 0)); n_classes = fold (\<lambda>v m. max m (nat \<lfloor>v\<rfloor>)) y 0 + 1 in
       map_option (\<lambda>(_, st). \<lparr>dt_params = p, dt_state = st, dt_n_features = n_features, dt_n_classes = n_classes\<rparr>)
         (build_node mid pick p X y n_features n_classes [0..<length y] 0 \<lparr>ts_nodes = [], ts_importance = replicate n_features 0, ts_rng = r\<rparr>))"

section \<open>Predicting\<close>

text \<open>The loop of \<open>predict_one\<close>; it visits each node at most once, so the number of nodes is fuel enough.\<close>

fun predict_loop :: "nat \<Rightarrow> tree_node list \<Rightarrow> real list \<Rightarrow> nat \<Rightarrow> nat option" where
  "predict_loop 0 ns row i = None"
| "predict_loop (Suc k) ns row i = (if length ns \<le> i then None
     else if tn_is_leaf (ns ! i) then Some (tn_predicted_class (ns ! i))
     else if length row \<le> tn_feature_idx (ns ! i) then None
     else predict_loop k ns row (if row ! tn_feature_idx (ns ! i) \<le> tn_threshold (ns ! i) then tn_left (ns ! i) else tn_right (ns ! i)))"

definition predict_one :: "'r decision_tree \<Rightarrow> real list \<Rightarrow> nat option" where
  "predict_one t row = (let ns = ts_nodes (dt_state t) in predict_loop (length ns) ns row 0)"

definition tree_predict :: "'r decision_tree \<Rightarrow> real list list \<Rightarrow> real list option" where
  "tree_predict t X = those (map (\<lambda>row. map_option real (predict_one t row)) X)"

definition tree_score :: "'r decision_tree \<Rightarrow> real list list \<Rightarrow> real list \<Rightarrow> real option" where
  "tree_score t X y = (if y = [] then Some 0
     else do { pred \<leftarrow> tree_predict t X;
               if length pred < length y then None
               else Some (real (length (filter (\<lambda>i. pred ! i = y ! i) [0..<length y])) / real (length y)) })"

definition n_leaves :: "'r decision_tree \<Rightarrow> nat" where
  "n_leaves t = length (filter tn_is_leaf (ts_nodes (dt_state t)))"

definition feature_importance :: "'r decision_tree \<Rightarrow> nat \<Rightarrow> real option" where
  "feature_importance t f = (let imp = ts_importance (dt_state t); tot = sum_list imp in
     if tot \<le> 0 then Some 0 else if f < length imp then Some (imp ! f / tot) else None)"

section \<open>The tree behind the array\<close>

datatype dtree = DLeaf nat | DSplit nat real dtree dtree

fun route :: "dtree \<Rightarrow> real list \<Rightarrow> nat" where
  "route (DLeaf c) row = c"
| "route (DSplit f th l r) row = (if row ! f \<le> th then route l row else route r row)"

fun leaf_path :: "dtree \<Rightarrow> real list \<Rightarrow> bool list" where
  "leaf_path (DLeaf c) row = []"
| "leaf_path (DSplit f th l r) row = (if row ! f \<le> th then True # leaf_path l row else False # leaf_path r row)"

text \<open>The array holds the tree at a position; children stand behind their parent.\<close>

fun represents :: "tree_node list \<Rightarrow> nat \<Rightarrow> nat \<Rightarrow> dtree \<Rightarrow> bool" where
  "represents ns nf i (DLeaf c) \<longleftrightarrow> i < length ns \<and> tn_is_leaf (ns ! i) \<and> tn_predicted_class (ns ! i) = c"
| "represents ns nf i (DSplit f th l r) \<longleftrightarrow> i < length ns \<and> \<not> tn_is_leaf (ns ! i) \<and> tn_feature_idx (ns ! i) = f \<and> f < nf \<and> tn_threshold (ns ! i) = th \<and>
     i < tn_left (ns ! i) \<and> i < tn_right (ns ! i) \<and> represents ns nf (tn_left (ns ! i)) l \<and> represents ns nf (tn_right (ns ! i)) r"

text \<open>The tree that samples grow: leaves predict the largest class of their samples, splits keep the limits of the parameters.\<close>

fun grown :: "(real \<Rightarrow> real \<Rightarrow> real) \<Rightarrow> tree_params \<Rightarrow> real list list \<Rightarrow> real list \<Rightarrow> nat \<Rightarrow> nat list \<Rightarrow> nat \<Rightarrow> dtree \<Rightarrow> bool" where
  "grown mid p X y nc indices depth (DLeaf c) \<longleftrightarrow> c = max_element (class_counts nc (map (label_class y) indices))"
| "grown mid p X y nc indices depth (DSplit f th l r) \<longleftrightarrow> (separates mid X \<longrightarrow> (\<exists>d. split_ok p X indices (d, f, th))) \<and> (tp_max_depth p < 0 \<or> int depth < tp_max_depth p) \<and>
     grown mid p X y nc (filter (goes_left X f th) indices) (depth + 1) l \<and> grown mid p X y nc (filter (\<lambda>i. \<not> goes_left X f th i) indices) (depth + 1) r"

lemma represents_append: "represents ns nf i T \<Longrightarrow> represents (ns @ new) nf i T"
  by (induction T arbitrary: i) (auto simp: nth_append)

lemma represents_update: "represents ns nf i T \<Longrightarrow> j < i \<Longrightarrow> represents (ns[j := n]) nf i T"
  by (induction T arbitrary: i) auto

lemma predict_loop_route:
  "represents ns nf i T \<Longrightarrow> length row = nf \<Longrightarrow> length ns - i \<le> k \<Longrightarrow> predict_loop k ns row i = Some (route T row)"
proof (induction T arbitrary: i k)
  case (DLeaf c)
  then show ?case by (cases k) auto
next
  case (DSplit f th l r)
  then obtain k' where k: "k = Suc k'" by (cases k) auto
  show ?case using DSplit.prems DSplit.IH(1) [of "tn_left (ns ! i)" k'] DSplit.IH(2) [of "tn_right (ns ! i)" k'] by (auto simp: k)
qed

definition pick_ok :: "('r \<Rightarrow> nat \<Rightarrow> nat \<Rightarrow> nat \<times> 'r) \<Rightarrow> bool" where
  "pick_ok pick \<longleftrightarrow> (\<forall>r lo hi. lo \<le> hi \<longrightarrow> lo \<le> fst (pick r lo hi) \<and> fst (pick r lo hi) \<le> hi)"

lemma shuffle_front_set:
  assumes "pick_ok pick"
  shows "f + m \<le> length xs \<Longrightarrow> set (fst (shuffle_front pick f m xs r)) = set xs"
proof (induction m arbitrary: f xs r)
  case (Suc m)
  obtain j r' where j: "pick r f (length xs - 1) = (j, r')" by force
  have "fst (pick r f (length xs - 1)) \<le> length xs - 1" using assms Suc.prems unfolding pick_ok_def by simp
  then have "j < length xs" using Suc.prems j by simp
  then have "set (xs[f := xs ! j, j := xs ! f]) = set xs" using Suc.prems set_swap [of f xs j] by simp
  then show ?case using Suc.IH [of "f + 1" "xs[f := xs ! j, j := xs ! f]" r'] Suc.prems j by simp
qed simp

lemma candidate_features_range:
  assumes "pick_ok pick" "f \<in> set (fst (candidate_features pick p nf r))"
  shows "f < nf"
proof (cases "0 < tp_max_features p \<and> tp_max_features p < int nf")
  case True
  obtain xs r' where xs: "shuffle_front pick 0 (nat (tp_max_features p)) [0..<nf] r = (xs, r')" by force
  have "set xs = set [0..<nf]" using shuffle_front_set [OF assms(1), of 0 "nat (tp_max_features p)" "[0..<nf]" r] True xs by (simp add: nat_le_iff)
  then show ?thesis using assms(2) True by (auto simp: candidate_features_def xs dest: in_set_takeD)
qed (use assms(2) in \<open>auto simp: candidate_features_def\<close>)

lemma choose_split_defined:
  assumes pick: "pick_ok pick" and X: "\<forall>i \<in> set indices. i < length X \<and> length (X ! i) = nf"
  shows "\<exists>best r'. choose_split mid pick p X y nf nc indices depth r = Some (best, r')"
proof -
  obtain fs r1 where c: "candidate_features pick p nf r = (fs, r1)" by force
  have "\<forall>f \<in> set fs. f < nf" using candidate_features_range [OF pick, of _ p nf r] c by auto
  then have "\<exists>b'. scan_features mid p X y indices nc parent fs b = Some b'" for parent b
    using X by (induction fs arbitrary: b) (auto simp: list_ex_iff)
  then show ?thesis by (fastforce simp: choose_split_def find_best_split_def c Let_def)
qed

lemma build_node_leaf:
  assumes "choose_split mid pick p X y nf nc indices depth (ts_rng st) = Some (None, r)"
  shows "build_node mid pick p X y nf nc indices depth st = Some (length (ts_nodes st), st\<lparr>ts_nodes := ts_nodes st @ [leaf_node p nc (map (label_class y) indices)], ts_rng := r\<rparr>)"
  using assms by (subst build_node.simps) (simp add: Let_def)

text \<open>The recursion ends: at \<open>max_depth\<close> when it is set, otherwise because a split that separates leaves fewer samples on either side.\<close>

definition fit_measure :: "tree_params \<Rightarrow> nat list \<Rightarrow> nat \<Rightarrow> nat" where
  "fit_measure p indices depth = (if 0 \<le> tp_max_depth p then nat (tp_max_depth p) - depth else length indices)"

lemma fit_measure_less:
  assumes "tp_max_depth p < 0 \<or> int depth < tp_max_depth p" "tp_max_depth p < 0 \<Longrightarrow> length js < length indices"
  shows "fit_measure p js (depth + 1) < fit_measure p indices depth"
  using assms by (auto simp: fit_measure_def)

lemma build_node_grows:
  assumes pick: "pick_ok pick" and ends: "0 \<le> tp_max_depth p \<or> separates mid X"
  shows "\<forall>i \<in> set indices. i < length X \<and> length (X ! i) = nf \<Longrightarrow>
    \<exists>st' T new. build_node mid pick p X y nf nc indices depth st = Some (length (ts_nodes st), st') \<and> ts_nodes st' = ts_nodes st @ new \<and>
      represents (ts_nodes st') nf (length (ts_nodes st)) T \<and> grown mid p X y nc indices depth T"
proof (induction "fit_measure p indices depth" arbitrary: indices depth st rule: less_induct)
  case less
  let ?leaf = "leaf_node p nc (map (label_class y) indices)" and ?here = "length (ts_nodes st)"
  obtain best r where c: "choose_split mid pick p X y nf nc indices depth (ts_rng st) = Some (best, r)" using choose_split_defined [OF pick less.prems] by blast
  show ?case
  proof (cases best)
    case None
    have "represents (ts_nodes st @ [?leaf]) nf ?here (DLeaf (tn_predicted_class ?leaf))" by (simp add: leaf_node_def Let_def)
    moreover have "grown mid p X y nc indices depth (DLeaf (tn_predicted_class ?leaf))" by (simp add: leaf_node_def Let_def)
    ultimately show ?thesis using build_node_leaf [OF c [unfolded None]]
      by (intro exI [of _ "st\<lparr>ts_nodes := ts_nodes st @ [?leaf], ts_rng := r\<rparr>"] exI [of _ "DLeaf (tn_predicted_class ?leaf)"] exI [of _ "[?leaf]"]) simp
  next
    case (Some b)
    obtain d f th where b: "best = Some (d, f, th)" using Some by (cases b) auto
    note ok = choose_split_ok [OF c [unfolded b]]
    have f: "f < nf" by (rule candidate_features_range [OF pick ok(3)])
    let ?L = "filter (goes_left X f th) indices" and ?R = "filter (\<lambda>i. \<not> goes_left X f th i) indices"
    have small: "fit_measure p ?L (depth + 1) < fit_measure p indices depth" "fit_measure p ?R (depth + 1) < fit_measure p indices depth"
      by (rule fit_measure_less [OF ok(2)], use ends split_shrinks [OF ok(1)] in linarith)+
    define st2 where "st2 = st\<lparr>ts_nodes := ts_nodes st @ [?leaf], ts_rng := r, ts_importance := (ts_importance st)[f := ts_importance st ! f + real (length indices) * d]\<rparr>"
    obtain st3 T1 new1 where l: "build_node mid pick p X y nf nc ?L (depth + 1) st2 = Some (Suc ?here, st3)" "ts_nodes st3 = ts_nodes st @ ?leaf # new1"
      "represents (ts_nodes st3) nf (Suc ?here) T1" "grown mid p X y nc ?L (depth + 1) T1"
      using less.hyps [OF small(1), of st2] less.prems by (auto simp: st2_def)
    obtain st4 T2 new2 where r: "build_node mid pick p X y nf nc ?R (depth + 1) st3 = Some (length (ts_nodes st3), st4)" "ts_nodes st4 = ts_nodes st @ ?leaf # new1 @ new2"
      "represents (ts_nodes st4) nf (length (ts_nodes st3)) T2" "grown mid p X y nc ?R (depth + 1) T2"
      using less.hyps [OF small(2), of st3] less.prems l(2) by auto
    define node where "node = ?leaf\<lparr>tn_is_leaf := False, tn_feature_idx := f, tn_threshold := th, tn_left := Suc ?here, tn_right := length (ts_nodes st3)\<rparr>"
    let ?ns = "ts_nodes st @ node # new1 @ new2"
    have upd: "?ns = (ts_nodes st4)[?here := node]" by (simp add: r(2))
    have "build_node mid pick p X y nf nc indices depth st = Some (?here, st4\<lparr>ts_nodes := ?ns\<rparr>)"
      unfolding build_node.simps [of mid pick p X y nf nc indices depth st] using c b l(1) r(1)
      by (simp add: Let_def r(2) node_def st2_def)
    moreover have "represents (ts_nodes st4) nf (Suc ?here) T1" using represents_append [OF l(3), of new2] l(2) r(2) by simp
    then have "represents ?ns nf (Suc ?here) T1" "represents ?ns nf (length (ts_nodes st3)) T2" unfolding upd using r(3) l(2) by (simp_all add: represents_update)
    then have "represents ?ns nf ?here (DSplit f th T1 T2)" using f l(2) by (simp add: node_def)
    moreover have "grown mid p X y nc indices depth (DSplit f th T1 T2)" using ok l(4) r(4) by auto
    ultimately show ?thesis by (intro exI [of _ "st4\<lparr>ts_nodes := ?ns\<rparr>"] exI [of _ "DSplit f th T1 T2"] exI [of _ "node # new1 @ new2"]) simp
  qed
qed

section \<open>What a grown tree predicts\<close>

lemma max_element_max: "xs \<noteq> [] \<Longrightarrow> max_element xs < length xs \<and> (\<forall>x \<in> set xs. x \<le> xs ! max_element xs)"
  by (induction xs rule: max_element.induct) (auto simp: Let_def)

lemma max_element_majority:
  assumes "c < nc"
  shows "count_list cs c \<le> count_list cs (max_element (class_counts nc cs))"
  using max_element_max [of "class_counts nc cs"] assms by (force simp: class_counts_def)

text \<open>The samples that end in the same leaf as a sample are the ones that leaf was grown from.\<close>

lemma cell_left:
  "goes_left X f th i \<Longrightarrow> filter (\<lambda>j. leaf_path (DSplit f th l r) (X ! j) = leaf_path (DSplit f th l r) (X ! i)) indices =
    filter (\<lambda>j. leaf_path l (X ! j) = leaf_path l (X ! i)) (filter (goes_left X f th) indices)"
  by (auto simp: goes_left_def intro!: filter_cong)

lemma cell_right:
  "\<not> goes_left X f th i \<Longrightarrow> filter (\<lambda>j. leaf_path (DSplit f th l r) (X ! j) = leaf_path (DSplit f th l r) (X ! i)) indices =
    filter (\<lambda>j. leaf_path r (X ! j) = leaf_path r (X ! i)) (filter (\<lambda>j. \<not> goes_left X f th j) indices)"
  by (auto simp: goes_left_def intro!: filter_cong)

lemma route_split: "route (DSplit f th l r) (X ! i) = (if goes_left X f th i then route l (X ! i) else route r (X ! i))"
  by (simp add: goes_left_def)

lemma grown_majority:
  assumes "grown mid p X y nc indices depth T" "i \<in> set indices" "c < nc"
  shows "count_list (map (label_class y) (filter (\<lambda>j. leaf_path T (X ! j) = leaf_path T (X ! i)) indices)) c
    \<le> count_list (map (label_class y) (filter (\<lambda>j. leaf_path T (X ! j) = leaf_path T (X ! i)) indices)) (route T (X ! i))"
  using assms
proof (induction T arbitrary: indices depth)
  case (DLeaf k)
  then show ?case by (simp add: max_element_majority)
next
  case (DSplit f th l r)
  show ?case
  proof (cases "goes_left X f th i")
    case True
    then show ?thesis using DSplit.IH(1) [of "filter (goes_left X f th) indices" "depth + 1"] DSplit.prems
      by (simp add: cell_left route_split del: leaf_path.simps route.simps)
  next
    case False
    then show ?thesis using DSplit.IH(2) [of "filter (\<lambda>j. \<not> goes_left X f th j) indices" "depth + 1"] DSplit.prems
      by (simp add: cell_right route_split del: leaf_path.simps route.simps)
  qed
qed

lemma grown_depth: "grown mid p X y nc indices depth T \<Longrightarrow> 0 \<le> tp_max_depth p \<Longrightarrow> int depth \<le> tp_max_depth p \<Longrightarrow> int (depth + length (leaf_path T row)) \<le> tp_max_depth p"
proof (induction T arbitrary: indices depth)
  case (DSplit f th l r)
  then have "int (depth + 1) \<le> tp_max_depth p" by auto
  then show ?case using DSplit.IH(1) [of "filter (goes_left X f th) indices" "depth + 1"] DSplit.IH(2) [of "filter (\<lambda>i. \<not> goes_left X f th i) indices" "depth + 1"] DSplit.prems by auto
qed simp

text \<open>With thresholds that separate, no leaf below a split has fewer samples than \<open>min_samples_leaf\<close>.\<close>

lemma grown_leaf_size:
  assumes "grown mid p X y nc indices depth T" "separates mid X" "i \<in> set indices" "tp_min_samples_leaf p \<le> int (length indices) \<or> leaf_path T (X ! i) \<noteq> []"
  shows "tp_min_samples_leaf p \<le> int (length (filter (\<lambda>j. leaf_path T (X ! j) = leaf_path T (X ! i)) indices))"
  using assms
proof (induction T arbitrary: indices depth)
  case (DSplit f th l r)
  then have ok: "tp_min_samples_leaf p \<le> int (length (filter (goes_left X f th) indices))" "tp_min_samples_leaf p \<le> int (length (filter (\<lambda>j. \<not> goes_left X f th j) indices))"
    by (auto simp: split_ok_def Let_def)
  show ?case
  proof (cases "goes_left X f th i")
    case True
    then show ?thesis using DSplit.IH(1) [of "filter (goes_left X f th) indices" "depth + 1"] DSplit.prems ok by (simp add: cell_left del: leaf_path.simps)
  next
    case False
    then show ?thesis using DSplit.IH(2) [of "filter (\<lambda>j. \<not> goes_left X f th j) indices" "depth + 1"] DSplit.prems ok by (simp add: cell_right del: leaf_path.simps)
  qed
qed simp

text \<open>
  C40. On samples with non-negative labels and rows of one length, fitting ends when \<open>max_depth\<close> is set, or when the rounded midpoint
  of two different values of a column is at least the lower and below the upper one. The tree it gives sends every prediction down to a
  leaf. For each training sample the predicted class is the most frequent one among the training samples that reach the same leaf, no
  path is longer than \<open>max_depth\<close> when it is set, and where the midpoints separate, a leaf below a split has at least
  \<open>min_samples_leaf\<close> training samples.
\<close>

theorem decision_tree_fits:
  assumes pick: "pick_ok pick" and X: "X \<noteq> []" "length X = length y" "\<forall>row \<in> set X. length row = length (X ! 0)" and y: "\<forall>v \<in> set y. 0 \<le> v"
    and ends: "0 \<le> tp_max_depth p \<or> separates mid X"
  shows "\<exists>t T. tree_fit mid pick p r X y = Some t \<and> (\<forall>row. length row = length (X ! 0) \<longrightarrow> predict_one t row = Some (route T row)) \<and>
    (\<forall>i < length y. let cell = map (label_class y) (filter (\<lambda>j. leaf_path T (X ! j) = leaf_path T (X ! i)) [0..<length y]) in
       (\<forall>c < dt_n_classes t. count_list cell c \<le> count_list cell (route T (X ! i))) \<and>
       (separates mid X \<longrightarrow> leaf_path T (X ! i) \<noteq> [] \<longrightarrow> tp_min_samples_leaf p \<le> int (length cell))) \<and>
    (0 \<le> tp_max_depth p \<longrightarrow> (\<forall>row. int (length (leaf_path T row)) \<le> tp_max_depth p))"
proof -
  let ?nf = "length (X ! 0)" and ?st = "\<lparr>ts_nodes = [], ts_importance = replicate (length (X ! 0)) 0, ts_rng = r\<rparr>"
  let ?nc = "fold (\<lambda>v m. max m (nat \<lfloor>v\<rfloor>)) y 0 + 1"
  obtain st T where b: "build_node mid pick p X y ?nf ?nc [0..<length y] 0 ?st = Some (0, st)" "represents (ts_nodes st) ?nf 0 T" "grown mid p X y ?nc [0..<length y] 0 T"
    using build_node_grows [OF pick ends, of "[0..<length y]" ?nf y ?nc 0 ?st] X(2,3) by auto
  let ?t = "\<lparr>dt_params = p, dt_state = st, dt_n_features = ?nf, dt_n_classes = ?nc\<rparr>"
  have "\<not> list_ex (\<lambda>v. v \<le> - 1) y" using y by (force simp: list_ex_iff)
  then have fit: "tree_fit mid pick p r X y = Some ?t" unfolding tree_fit_def Let_def using b(1) X(1) by simp
  have route: "predict_one ?t row = Some (route T row)" if "length row = ?nf" for row
    unfolding predict_one_def using predict_loop_route [OF b(2) that] by simp
  have cells: "\<forall>i < length y. let cell = map (label_class y) (filter (\<lambda>j. leaf_path T (X ! j) = leaf_path T (X ! i)) [0..<length y]) in
      (\<forall>c < ?nc. count_list cell c \<le> count_list cell (route T (X ! i))) \<and> (separates mid X \<longrightarrow> leaf_path T (X ! i) \<noteq> [] \<longrightarrow> tp_min_samples_leaf p \<le> int (length cell))"
    unfolding Let_def using grown_majority [OF b(3)] grown_leaf_size [OF b(3)] by (intro allI impI conjI) simp_all
  have depth: "0 \<le> tp_max_depth p \<longrightarrow> (\<forall>row. int (length (leaf_path T row)) \<le> tp_max_depth p)" using grown_depth [OF b(3)] by simp
  show ?thesis by (intro exI [of _ ?t] exI [of _ T] conjI) (use fit route cells depth in simp_all)
qed

definition example_params :: "int \<Rightarrow> tree_params" where
  "example_params depth = \<lparr>tp_max_depth = depth, tp_min_samples_leaf = 1, tp_min_samples_split = 2, tp_min_impurity_decrease = 0, tp_criterion = GINI, tp_max_features = - 1\<rparr>"

theorem decision_tree_fits_witness:
  "\<exists>t T. tree_fit (\<lambda>a b. (a + b) / 2) (\<lambda>r lo hi. (lo, r)) (example_params (- 1)) () [[0], [1], [3]] [0, 0, 1] = Some t \<and> predict_one t [2] = Some (route T [2])"
proof -
  have pick: "pick_ok (\<lambda>r lo hi. (lo, r))" by (simp add: pick_ok_def)
  have "separates (\<lambda>a b. (a + b) / 2) [[0], [1], [3]]" by (simp add: separates_def)
  from decision_tree_fits [OF pick, of "[[0], [1], [3]]" "[0, 0, 1]" "example_params (- 1)" "\<lambda>a b. (a + b) / 2" "()"] this
  obtain t T where "tree_fit (\<lambda>a b. (a + b) / 2) (\<lambda>r lo hi. (lo, r)) (example_params (- 1)) () [[0], [1], [3]] [0, 0, 1] = Some t"
    "\<forall>row. length row = 1 \<longrightarrow> predict_one t row = Some (route T row)" by auto
  then show ?thesis by (intro exI [of _ t] exI [of _ T]) simp
qed

section \<open>A midpoint that does not separate\<close>

text \<open>Rounding to the 24 significant bits of a \<open>float\<close>, ties to even, and the threshold computed with it.\<close>

definition round_float :: "real \<Rightarrow> real" where
  "round_float x = (if x = 0 then 0 else
     let e = \<lfloor>log 2 \<bar>x\<bar>\<rfloor> - 23; q = x / 2 powr e; n = \<lfloor>q\<rfloor>; d = q - n in
     (if d < 1 / 2 \<or> d = 1 / 2 \<and> even n then real_of_int n else real_of_int n + 1) * 2 powr e)"

definition float_mid :: "real \<Rightarrow> real \<Rightarrow> real" where
  "float_mid a b = round_float (round_float (a + b) / 2)"

lemma float_mid_upper: "float_mid (1 - 1 / 2 ^ 24) 1 = 1"
proof -
  have e: "\<lfloor>log 2 (2 - 1 / 2 ^ 24 :: real)\<rfloor> = 0" "\<lfloor>log 2 (1 :: real)\<rfloor> = 0" by (simp_all add: floor_eq_iff log_less_iff)
  have p: "2 powr - 23 = (1 / 8388608 :: real)" by (simp add: powr_minus_divide powr_realpow [of 2 23, simplified])
  have fl: "\<lfloor>33554431 / 2 :: real\<rfloor> = 16777215" by (simp add: floor_eq_iff)
  have sum: "round_float (1 - 1 / 2 ^ 24 + 1) = 2"
    unfolding round_float_def Let_def using e(1) fl by (simp add: p)
  have "round_float 1 = 1" unfolding round_float_def Let_def using e(2) by (simp add: p)
  then show ?thesis unfolding float_mid_def sum by simp
qed

definition close_rows :: "real list list" where
  "close_rows = [[1 - 1 / 2 ^ 24], [1]]"

lemma close_rows_split:
  "choose_split float_mid pick (example_params (- 1)) close_rows [0, 1] 1 2 [0, 1] depth r = Some (Some (1 / 2, 0, 1), r)"
proof -
  have col: "sorted_column close_rows [0, 1] [0, 1] 0 = [(1 - 1 / 2 ^ 24, 0), (1, 1)]" by (simp add: sorted_column_def close_rows_def label_class_def)
  have cnt: "class_counts 2 (map (label_class [0, 1]) [0, 1]) = [1, 1]" by (simp add: class_counts_def label_class_def upt_rec)
  have imp: "tn_impurity (leaf_node (example_params (- 1)) 2 (map (label_class [0, 1]) [0, 1])) = 1 / 2"
    unfolding leaf_node_def Let_def cnt by (simp add: node_impurity_def example_params_def)
  have scan: "scan_features float_mid (example_params (- 1)) close_rows [0, 1] [0, 1] 2 (1 / 2) [0] None = Some (Some (1 / 2, 0, 1))"
    unfolding scan_features.simps col cnt
    by (simp add: better_split_def node_impurity_def example_params_def Let_def float_mid_upper [simplified] numeral_2_eq_2) (simp add: close_rows_def)
  show ?thesis unfolding choose_split_def imp find_best_split_def
    using scan by (simp add: candidate_features_def example_params_def Let_def)
qed

text \<open>
  Two samples with neighbouring floats and different labels, \<open>max_depth\<close> not set: the midpoint rounds to the upper value, all samples go
  to the left child, and \<open>build_node\<close> calls itself on the same samples for ever.
\<close>

theorem build_node_never_ends:
  "build_node float_mid pick (example_params (- 1)) close_rows [0, 1] 1 2 [0, 1] depth st = None"
proof (rule ccontr)
  let ?endless = "\<lambda>mid p X (y :: real list) (nf :: nat) (nc :: nat) (indices :: nat list). mid = float_mid \<and> p = example_params (- 1) \<and> X = close_rows \<and> y = [0, 1] \<and> nf = 1 \<and> nc = 2 \<and> indices = [0, 1]"
  have left: "filter (goes_left close_rows 0 1) [0, 1] = [0, 1]" by (simp add: goes_left_def close_rows_def)
  assume "build_node float_mid pick (example_params (- 1)) close_rows [0, 1] 1 2 [0, 1] depth st \<noteq> None"
  then obtain z where "build_node float_mid pick (example_params (- 1)) close_rows [0, 1] 1 2 [0, 1] depth st = Some z" by blast
  then have "\<not> ?endless float_mid (example_params (- 1)) close_rows [0, 1] 1 2 [0, 1]"
  proof (rule build_node.raw_induct [where P = "\<lambda>mid pick p X y nf nc indices depth st z. \<not> ?endless mid p X y nf nc indices", rotated], intro notI, elim conjE, goal_cases)
    case (1 build mid pick p X y nf nc indices depth st z)
    from 1(2) have "\<exists>st2 z'. build float_mid pick (example_params (- 1)) close_rows [0, 1] 1 2 [0, 1] (depth + 1) st2 = Some z'"
      unfolding 1(3-) close_rows_split using left by (auto simp: Let_def Option.bind_eq_Some_conv)
    then obtain st2 z' where "build float_mid pick (example_params (- 1)) close_rows [0, 1] 1 2 [0, 1] (depth + 1) st2 = Some z'" by blast
    from 1(1) [OF this] show False by simp
  qed
  then show False by simp
qed

end
