(* ===== verification/Spec2Isabelle.thy ===== *)
theory Spec2Isabelle
  imports Spsc_Concurrent Paged_Kv Raft_Log Raft_Wire Mpmc_Queue Size_Classed_Arena Treiber Tensor Channel Collectives Pipeline_Schedule Data_Loader Vector_Clock Fair_Scheduler Backpressure Scheduler_Service Topo_Scheduler Serving Batching Chunking
    Dense_Matrix Gpu_Resources Storage_Qos Training_Layout Gpu_Profiling Zero_Optimizers Ws_Pool Ms_Queue Chandy_Lamport Halving_Doubling Rcu Epoch_Stack Knn_Search Branchless Coro Decision_Tree
begin

text \<open>
  A verification development for the C++ runtime under \<open>src/\<close>: its lock-free containers and allocators, the messaging and
  consensus layer, the collectives and schedules of distributed training, the serving path, and host-side pieces of the
  GPU and storage engines.

  \<^bold>\<open>Parts and theories.\<close> Each theory names the files it models in its first lines; operations keep the names of the
  source, prefixed where a name would clash.
  \<^item> \<open>foundation\<close>: \<open>Spsc_Queue\<close> (\<open>spsc_queue.h\<close> call by call, against the contract of \<open>Fifo_Spec\<close>), \<open>Spsc_Concurrent\<close> (the same
    queue split at its atomic accesses), \<open>Mpmc_Ring\<close> and \<open>Mpmc_Queue\<close> (\<open>mpmc_queue.h\<close>: the ring with unbounded positions,
    then the code's 64-bit positions as a refinement of it), \<open>Arena\<close> and \<open>Size_Classed_Arena\<close> (\<open>arena.h\<close>), \<open>Treiber\<close>
    (\<open>freelist.h\<close>, \<open>aba_stack.h\<close> and the deliberately broken stack beside it), \<open>Chase_Lev\<close> (the work-stealing deque)
    and \<open>Ws_Pool\<close> (the thread pool on it), \<open>Ms_Queue\<close> (\<open>ms_queue.h\<close> with its hazard pointers), \<open>Rcu\<close> (read-copy-update) and
    \<open>Epoch\<close> (epoch-based reclamation) with the stack on it, \<open>Epoch_Stack\<close>, \<open>Coro\<close> (coroutine tasks, event and mutex), \<open>Tensor\<close> (\<open>tensor.h\<close>).
  \<^item> \<open>networking\<close>: \<open>Raft_Node\<close> (the handlers of \<open>raft.cpp\<close>), \<open>Raft_Election\<close> (the abstract election protocol), \<open>Raft_Cluster\<close>
    (a cluster of nodes and the simulation of the abstract protocol), \<open>Raft_Log\<close> (the replicated logs), \<open>Raft_Wire\<close> (the
    messages on the wire); \<open>Channel\<close> (the byte loops of \<open>channel.cpp\<close>); \<open>Rank_Net\<close> (ranks that exchange messages over
    channels), on which \<open>Ring_Allreduce\<close>, \<open>Tree_Allreduce\<close>, \<open>Collectives\<close> and \<open>Halving_Doubling\<close> rest; \<open>Vector_Clock\<close>, \<open>Chandy_Lamport\<close>
    (distributed snapshots), \<open>Fair_Scheduler\<close>
    (\<open>multitenancy\<close>), \<open>Backpressure\<close>, \<open>Scheduler_Service\<close> (\<open>grpc_control\<close> and \<open>hedged_requests\<close>), \<open>Topo_Scheduler\<close>.
  \<^item> \<open>distributed_training\<close>: \<open>Pipeline_Schedule\<close> (GPipe and 1F1B), \<open>Web_Dataset\<close> and \<open>Data_Loader\<close>, \<open>Dense_Matrix\<close> (\<open>matrix.h\<close> and
    2:4 sparsity), \<open>Training_Layout\<close> (process grid, offload schedule, checkpoint files), \<open>Zero_Optimizers\<close> (Adam and the three
    ZeRO stages over the collectives).
  \<^item> \<open>inference_serving\<close> and \<open>transformer\<close>: \<open>Paged_Kv\<close>, \<open>Transformer\<close> (the forward pass of \<open>transformer_model.h\<close>),
    \<open>Serving\<close> (tokenizer, router, daemon, speculative decoding), \<open>Batching\<close>
    (continuous batching and the SLA scheduler).
  \<^item> \<open>ml\<close> and \<open>cpu_engine\<close>: \<open>Knn_Search\<close> (KD-tree, ball tree and the classifier on them), \<open>Decision_Tree\<close>; \<open>Branchless\<close> (\<open>branchless.h\<close> on words).
  \<^item> \<open>rag\<close>, \<open>gpu_engine\<close>, \<open>hpc_storage\<close>: \<open>Chunking\<close>; \<open>Gpu_Resources\<close> (pools, guards, buffers) and \<open>Gpu_Profiling\<close> (coalescing and
    occupancy reports); \<open>Storage_Qos\<close>, which sits on \<open>Fair_Scheduler\<close>.
  \<open>Prelude\<close> and \<open>Option_Lists\<close> hold the shared types, lemmas and rule collections.

  \<^bold>\<open>Interfaces.\<close> Where one part relies on a contract of another the contract is a locale, interpreted on the model's own
  definitions: the bounded queue of \<open>Fifo_Spec\<close>, the network of ranks \<open>rank_net\<close> and its round-structured extension
  \<open>round_net\<close>, interpreted for each phase of the collectives, and the handle pool of \<open>Gpu_Resources\<close>.

  \<^bold>\<open>State and steps.\<close> A class is a record and a method a function on it; an exception, a failed assertion or an out-of-range
  read is a value of an error or option type, never an unspecified read. Code that runs on several threads is split at
  its atomic accesses, or at its critical sections where a mutex is held, and run as a step relation in which any thread
  may move next; the theorems quantify over all reachable states. The memory model is sequential consistency: the
  weaker orderings the code asks for, and what they permit, are not represented. The ranks of a collective run lists of
  send, receive and local operations over FIFO links with an arbitrary capacity, zero included, so the results hold for
  any socket buffer size; every run is shown to end.

  \<^bold>\<open>Numbers.\<close> Words keep their width where wrap-around can matter: ring positions, addresses, clocks and wire fields are
  64-, 32- or 8-bit words, and \<open>Treiber\<close> carries the width of its tag as a parameter. \<open>mpmc_reach\<close> bounds the positions below
  \<open>2 ^ 63\<close>, where the code's signed difference is meaningful; the stacks are safe as long as fewer than \<open>2 ^ width\<close>
  exchanges happen during one operation (\<open>no_wrap\<close>, a hypothesis of their theorems). The arenas are safe for requests below
  \<open>2 ^ 62\<close> bytes and tensors below \<open>2 ^ 64\<close>; what the code does beyond is shown by \<open>sca_large_request_overlaps\<close> and
  \<open>tensor_empty_wraps\<close>. Counters that only count are natural numbers. Floating-point values are exact
  reals, or any type with the operations used. The ring all-reduce theorem states the order of the additions and assumes
  nothing of them, so it holds for floats; those for the tree and for halving-doubling need an exact, commutative and
  associative addition. \<open>Transformer\<close> takes the float operations as a record with no laws but those its theorems name, and
  \<open>Decision_Tree\<close> the midpoint of two values as a parameter, since rounding decides whether fitting ends. Loops are total functions;
  \<open>Fair_Scheduler.drain\<close> and \<open>Decision_Tree.build_node\<close>, which need not end, are partial functions, and their theorems
  show when they return. The readers of \<open>Web_Dataset\<close> and the count of \<open>Treiber\<close> take a bound; that enough suffices is part of
  their lemmas.

  \<^bold>\<open>Parameters.\<close> What is not in the repository is an argument: answers of the kernel's socket calls and \<open>mmap\<close>, of the
  CUDA driver and of the profiler, \<open>std::stod\<close>, what the standard leaves open of its selection and heap algorithms, the traversal order of hash containers and the order \<open>std::sort\<close> gives to
  equal keys, the clock.

  \<^bold>\<open>What is shown.\<close> For the containers: exactly-once delivery in order, exclusive access to slots, conservation of nodes
  and blocks under every interleaving, and that the untagged stack does hand a node out twice; for
  the reclamation schemes: that readers keep what they hold, under the stated discipline of their callers. For Raft: election safety,
  log matching, no out-of-range access, the commit rule and application in order, and the wire round trip; for the
  collectives and ZeRO: no deadlock, termination and the value computed; for schedules and schedulers: completion,
  memory and window bounds, deadlines and fairness; for snapshots: that they account for all but what a stated race
  loses; for codecs: round trips; for the tensor and the arenas: bounds and
  disjointness; for serving: the forward pass is causal where its mask takes
  effect, and speculative decoding equals greedy decoding as long as the proposals fit the context; for the
  neighbour trees: pruning loses nothing; for the decision tree: fitting ends, or need not, as the midpoint separates.

  \<^bold>\<open>Not modelled.\<close> Device code and intrinsics (CUDA, HLS, AVX-512 kernels), whose semantics is not in the sources; passes
  over MLIR, TVM or StableHLO, which are calls into those frameworks; benchmarks, tests and demonstration programs;
  statistical code (learning, simulation of analog, quantum and thermal hardware) whose correctness is a numerical
  tolerance; operating-system tuning (affinity, huge pages, NUMA, perf counters). Coroutine frames are modelled by
  the suspension points of a body; what the compiler generates for them is not.
\<close>

end
